(* ===== verification/Prelude.thy ===== *)
theory Prelude
  imports Main "HOL-Library.Word"
begin

text \<open>
  Shared vocabulary of the development: the names of the machine types, the status codes the
  modelled routines return (with the values the platform headers give them), thread and address
  identifiers, and the list facts that the wait lists, module lists and block lists have in
  common.
\<close>

unbundle bit_operations_syntax

section \<open>Types and status codes\<close>

type_synonym u8 = "8 word"
type_synonym u16 = "16 word"
type_synonym u32 = "32 word"
type_synonym u64 = "64 word"
type_synonym ntstatus = "32 word"

text \<open>A thread is named by its identifier (the model's \<open>PETHREAD\<close> and \<open>HANDLE\<close> of a thread); an
  address is a natural number, with 0 for \<open>NULL\<close>.\<close>

type_synonym tid = nat
type_synonym addr = nat

abbreviation (input) NULL :: addr where "NULL \<equiv> 0"

abbreviation STATUS_SUCCESS :: ntstatus where "STATUS_SUCCESS \<equiv> 0"
abbreviation STATUS_ALERTED :: ntstatus where "STATUS_ALERTED \<equiv> 0x101"
abbreviation STATUS_TIMEOUT :: ntstatus where "STATUS_TIMEOUT \<equiv> 0x102"
abbreviation STATUS_NO_MORE_ENTRIES :: ntstatus where "STATUS_NO_MORE_ENTRIES \<equiv> 0x8000001A"
abbreviation STATUS_UNSUCCESSFUL :: ntstatus where "STATUS_UNSUCCESSFUL \<equiv> 0xC0000001"
abbreviation STATUS_ACCESS_VIOLATION :: ntstatus where "STATUS_ACCESS_VIOLATION \<equiv> 0xC0000005"
abbreviation STATUS_INVALID_HANDLE :: ntstatus where "STATUS_INVALID_HANDLE \<equiv> 0xC0000008"
abbreviation STATUS_INVALID_CID :: ntstatus where "STATUS_INVALID_CID \<equiv> 0xC000000B"
abbreviation STATUS_INVALID_PARAMETER :: ntstatus where "STATUS_INVALID_PARAMETER \<equiv> 0xC000000D"
abbreviation STATUS_NO_MEMORY :: ntstatus where "STATUS_NO_MEMORY \<equiv> 0xC0000017"
abbreviation STATUS_BUFFER_TOO_SMALL :: ntstatus where "STATUS_BUFFER_TOO_SMALL \<equiv> 0xC0000023"
abbreviation STATUS_DELETE_PENDING :: ntstatus where "STATUS_DELETE_PENDING \<equiv> 0xC0000056"
abbreviation STATUS_ORDINAL_NOT_FOUND :: ntstatus where "STATUS_ORDINAL_NOT_FOUND \<equiv> 0xC0000138"
abbreviation STATUS_PROCEDURE_NOT_FOUND :: ntstatus where "STATUS_PROCEDURE_NOT_FOUND \<equiv> 0xC000007A"
abbreviation STATUS_INSUFFICIENT_RESOURCES :: ntstatus where
  "STATUS_INSUFFICIENT_RESOURCES \<equiv> 0xC000009A"
abbreviation STATUS_VARIABLE_NOT_FOUND :: ntstatus where "STATUS_VARIABLE_NOT_FOUND \<equiv> 0xC0000100"
abbreviation STATUS_NAME_TOO_LONG :: ntstatus where "STATUS_NAME_TOO_LONG \<equiv> 0xC0000106"
abbreviation STATUS_CANCELLED :: ntstatus where "STATUS_CANCELLED \<equiv> 0xC0000120"
abbreviation STATUS_NOT_FOUND :: ntstatus where "STATUS_NOT_FOUND \<equiv> 0xC0000225"
abbreviation STATUS_RESOURCE_NOT_OWNED :: ntstatus where "STATUS_RESOURCE_NOT_OWNED \<equiv> 0xC0000264"

text \<open>\<open>NT_SUCCESS\<close>: the status read as a signed long is not negative. \<open>STATUS_TIMEOUT\<close> and
  \<open>STATUS_ALERTED\<close> are successes in this sense.\<close>

definition NT_SUCCESS :: "ntstatus \<Rightarrow> bool" where
  "NT_SUCCESS s \<longleftrightarrow> 0 \<le> sint s"

lemma NT_SUCCESS_codes [simp]:
  "NT_SUCCESS STATUS_SUCCESS"
  "NT_SUCCESS STATUS_ALERTED"
  "NT_SUCCESS STATUS_TIMEOUT"
  "\<not> NT_SUCCESS STATUS_NO_MORE_ENTRIES"
  "\<not> NT_SUCCESS STATUS_UNSUCCESSFUL"
  "\<not> NT_SUCCESS STATUS_ACCESS_VIOLATION"
  "\<not> NT_SUCCESS STATUS_INVALID_HANDLE"
  "\<not> NT_SUCCESS STATUS_INVALID_CID"
  "\<not> NT_SUCCESS STATUS_INVALID_PARAMETER"
  "\<not> NT_SUCCESS STATUS_NO_MEMORY"
  "\<not> NT_SUCCESS STATUS_BUFFER_TOO_SMALL"
  "\<not> NT_SUCCESS STATUS_DELETE_PENDING"
  "\<not> NT_SUCCESS STATUS_PROCEDURE_NOT_FOUND"
  "\<not> NT_SUCCESS STATUS_INSUFFICIENT_RESOURCES"
  "\<not> NT_SUCCESS STATUS_VARIABLE_NOT_FOUND"
  "\<not> NT_SUCCESS STATUS_NAME_TOO_LONG"
  "\<not> NT_SUCCESS STATUS_CANCELLED"
  "\<not> NT_SUCCESS STATUS_NOT_FOUND"
  "\<not> NT_SUCCESS STATUS_RESOURCE_NOT_OWNED"
  by (simp_all add: NT_SUCCESS_def)

section \<open>List facts\<close>

lemma find_Some_in_set: "List.find P xs = Some x \<Longrightarrow> x \<in> set xs \<and> P x"
  by (metis find_Some_iff nth_mem)

lemma find_None_iff_all: "List.find P xs = None \<longleftrightarrow> (\<forall>x\<in>set xs. \<not> P x)"
  by (auto simp: find_None_iff)

lemma find_append_skip:
  "\<forall>x\<in>set xs. \<not> P x \<Longrightarrow> List.find P (xs @ ys) = List.find P ys"
  by (induction xs) auto

lemma remove1_filter_distinct: "distinct xs \<Longrightarrow> remove1 x xs = filter (\<lambda>y. y \<noteq> x) xs"
  by (simp add: distinct_remove1_removeAll removeAll_filter_not_eq eq_commute)

lemma unat_u8_less: "unat (b :: u8) < 256"
  using unsigned_less [of b, where 'a = nat] by simp

section \<open>Counting the threads at a program point\<close>

text \<open>\<open>count_at P f\<close> counts the threads whose program point under \<open>f\<close> satisfies \<open>P\<close>; moving one
  thread changes the count by what it leaves and what it enters.\<close>

definition count_at :: "('p \<Rightarrow> bool) \<Rightarrow> (tid \<Rightarrow> 'p) \<Rightarrow> int" where
  "count_at P f = int (card {k. P (f k)})"

definition finite_at :: "('p \<Rightarrow> bool) \<Rightarrow> (tid \<Rightarrow> 'p) \<Rightarrow> bool" where
  "finite_at P f \<longleftrightarrow> finite {k. P (f k)}"

lemma finite_at_upd [simp]: "finite_at P (f(i := v)) = finite_at P f"
proof -
  have "{k. P ((f(i := v)) k)} \<subseteq> insert i {k. P (f k)}"
    and "{k. P (f k)} \<subseteq> insert i {k. P ((f(i := v)) k)}" by auto
  then show ?thesis unfolding finite_at_def by (meson finite_insert finite_subset)
qed

lemma finite_at_mono: "finite_at P f \<Longrightarrow> (\<And>p. Q p \<Longrightarrow> P p) \<Longrightarrow> finite_at Q f"
  unfolding finite_at_def by (rule finite_subset [of _ "{k. P (f k)}"]) auto

lemma finite_at_none: "(\<And>k. \<not> P (f k)) \<Longrightarrow> finite_at P f"
  by (simp add: finite_at_def)

lemma count_at_upd:
  assumes "finite_at P f"
  shows "count_at P (f(i := v)) =
    count_at P f - (if P (f i) then 1 else 0) + (if P v then 1 else 0)"
proof -
  let ?A = "{k. P (f k)} - {i}"
  have A: "finite ?A" using assms by (simp add: finite_at_def)
  have old: "{k. P (f k)} = (if P (f i) then insert i ?A else ?A)" by auto
  have new: "{k. P ((f(i := v)) k)} = (if P v then insert i ?A else ?A)" by auto
  have "card {k. P (f k)} = card ?A + (if P (f i) then 1 else 0)"
    using A card_insert_disjoint [of ?A i] old by (cases "P (f i)") auto
  moreover have "card {k. P ((f(i := v)) k)} = card ?A + (if P v then 1 else 0)"
    using A card_insert_disjoint [of ?A i] new by (cases "P v") auto
  ultimately show ?thesis by (simp add: count_at_def)
qed

lemma count_at_nonneg [simp]: "0 \<le> count_at P f"
  by (simp add: count_at_def)

lemma count_at_0: "finite_at P f \<Longrightarrow> count_at P f = 0 \<longleftrightarrow> (\<forall>k. \<not> P (f k))"
  by (auto simp: count_at_def finite_at_def)

lemma count_at_none: "(\<And>k. \<not> P (f k)) \<Longrightarrow> count_at P f = 0"
  by (simp add: count_at_def)

lemma count_at_pos: "finite_at P f \<Longrightarrow> P (f i) \<Longrightarrow> 1 \<le> count_at P f"
  by (auto simp: count_at_def finite_at_def card_gt_0_iff Suc_le_eq)

section \<open>Reachable states of a machine\<close>

definition reach :: "('c \<Rightarrow> bool) \<Rightarrow> ('c \<Rightarrow> 'c \<Rightarrow> bool) \<Rightarrow> 'c \<Rightarrow> bool" where
  "reach init step d \<longleftrightarrow> (\<exists>c. init c \<and> step\<^sup>*\<^sup>* c d)"

lemma reach_init: "init c \<Longrightarrow> reach init step c"
  by (auto simp: reach_def)

lemma reach_step: "reach init step c \<Longrightarrow> step c d \<Longrightarrow> reach init step d"
  unfolding reach_def by (meson rtranclp.rtrancl_into_rtrancl)

lemma reach_induct [consumes 1, case_names init step]:
  assumes "reach init step d" and "\<And>c. init c \<Longrightarrow> P c"
    and "\<And>c d. reach init step c \<Longrightarrow> P c \<Longrightarrow> step c d \<Longrightarrow> P d"
  shows "P d"
proof -
  obtain c where c: "init c" and r: "step\<^sup>*\<^sup>* c d" using assms(1) by (auto simp: reach_def)
  from r have "reach init step d \<and> P d"
  proof (induction rule: rtranclp_induct)
    case base
    show ?case using assms(2) [OF c] reach_init [of init c step, OF c] by simp
  next
    case (step y z)
    then show ?case using assms(3) reach_step by metis
  qed
  then show ?thesis by simp
qed

end
