(* ===== verification/WaitList.thy ===== *)
theory WaitList
  imports Prelude
begin

text \<open>
  The wait lists of the alert, wait-on-address and condition-variable code are walked by the
  same loop: unlink the matching entries from the front, up to the capacity of a stack array,
  stopping at the first one unless all are wanted. Waking everybody repeats that loop while the
  array came back full. \<open>scan_collect\<close> is the walk, \<open>batch_loop\<close> the repetition, and the locale
  \<open>batch_source\<close> the contract under which the repetition returns and leaves no match behind.
\<close>

section \<open>One walk over a wait list\<close>

fun scan_collect :: "('e \<Rightarrow> bool) \<Rightarrow> bool \<Rightarrow> nat \<Rightarrow> 'e list \<Rightarrow> 'e list \<times> 'e list" where
  "scan_collect P wake_all n [] = ([], [])"
| "scan_collect P wake_all n (x # xs) =
     (if n = 0 then ([], x # xs)
      else if P x then
        (if wake_all then
           let (taken, rest) = scan_collect P wake_all (n - 1) xs in (x # taken, rest)
         else ([x], xs))
      else let (taken, rest) = scan_collect P wake_all n xs in (taken, x # rest))"

lemma scan_collect_all:
  "fst (scan_collect P True n xs) = take n (filter P xs)"
  by (induction xs arbitrary: n) (auto simp: split_beta take_Cons')

lemma scan_collect_all_rest:
  "filter P (snd (scan_collect P True n xs)) = drop n (filter P xs)"
  by (induction xs arbitrary: n) (auto simp: split_beta drop_Cons')

lemma scan_collect_rest_unmatched:
  "filter (\<lambda>x. \<not> P x) (snd (scan_collect P wake_all n xs)) = filter (\<lambda>x. \<not> P x) xs"
  by (induction xs arbitrary: n) (auto simp: split_beta)

lemma scan_collect_one:
  "0 < n \<Longrightarrow> scan_collect P False n xs =
     (case List.find P xs of None \<Rightarrow> ([], xs) | Some x \<Rightarrow> ([x], remove1 x xs))"
  by (induction xs arbitrary: n) (auto split: option.splits dest: find_Some_in_set)

lemma scan_collect_mem:
  "x \<in> set (fst (scan_collect P wake_all n xs)) \<Longrightarrow> x \<in> set xs \<and> P x"
  by (induction xs arbitrary: n) (force simp: split_beta split: if_splits)+

lemma scan_collect_length: "length (fst (scan_collect P wake_all n xs)) \<le> n"
proof (induction xs arbitrary: n)
  case (Cons x xs)
  show ?case using Cons.IH [of n] Cons.IH [of "n - 1"] by (cases wake_all) (auto simp: split_beta)
qed simp

lemma scan_collect_taken:
  "set (fst (scan_collect P wake_all n xs)) \<subseteq> {x \<in> set xs. P x}"
  by (auto dest: scan_collect_mem)

lemma scan_collect_rest_set:
  "set (snd (scan_collect P wake_all n xs)) \<subseteq> set xs"
proof (induction xs arbitrary: n)
  case (Cons x xs)
  show ?case using Cons.IH [of n] Cons.IH [of "n - 1"] by (auto simp: split_beta)
qed simp

lemma scan_collect_distinct:
  "distinct xs \<Longrightarrow> distinct (fst (scan_collect P wake_all n xs)) \<and>
     snd (scan_collect P wake_all n xs) =
       filter (\<lambda>x. x \<notin> set (fst (scan_collect P wake_all n xs))) xs"
proof (induction xs arbitrary: n)
  case Nil
  then show ?case by simp
next
  case (Cons x xs)
  have sub: "set (fst (scan_collect P wake_all m xs)) \<subseteq> set xs" for m
    using scan_collect_taken by fastforce
  have x: "x \<notin> set xs" using Cons.prems by simp
  then have drop_x: "filter (\<lambda>y. y \<noteq> x \<and> Q y) xs = filter Q xs" for Q
    by (auto intro: filter_cong)
  have IH: "distinct (fst (scan_collect P wake_all m xs)) \<and>
      snd (scan_collect P wake_all m xs) =
        filter (\<lambda>x. x \<notin> set (fst (scan_collect P wake_all m xs))) xs" for m
    using Cons by simp
  show ?case
    using IH [of n] IH [of "n - 1"] sub [of n] sub [of "n - 1"] x drop_x drop_x [of "\<lambda>_. True"]
    by (auto simp: split_beta)
qed

section \<open>Repeating the walk while the array comes back full\<close>

partial_function (option) batch_loop ::
  "('s \<Rightarrow> 'e list \<times> 's) \<Rightarrow> ('e list \<Rightarrow> 's \<Rightarrow> 's) \<Rightarrow> nat \<Rightarrow> 's \<Rightarrow> 's option" where
  "batch_loop collect process n s =
     (let (b, s1) = collect s; s2 = process b s1
      in if length b = n then batch_loop collect process n s2 else Some s2)"

locale batch_source =
  fixes queue :: "'s \<Rightarrow> 'e list" and match :: "'s \<Rightarrow> 'e \<Rightarrow> bool"
    and collect :: "'s \<Rightarrow> 'e list \<times> 's" and process :: "'e list \<Rightarrow> 's \<Rightarrow> 's"
    and n :: nat and good :: "'s \<Rightarrow> bool" and handled :: "'s \<Rightarrow> 'e \<Rightarrow> bool"
  assumes capacity: "0 < n"
    and collect_taken: "good s \<Longrightarrow> collect s = (b, s1) \<Longrightarrow> b = take n (filter (match s) (queue s))"
    and collect_rest: "good s \<Longrightarrow> collect s = (b, s1) \<Longrightarrow>
          filter (match s) (queue s1) = drop n (filter (match s) (queue s)) \<and>
          filter (\<lambda>x. \<not> match s x) (queue s1) = filter (\<lambda>x. \<not> match s x) (queue s)"
    and collect_match: "collect s = (b, s1) \<Longrightarrow> match s1 = match s"
    and collect_good: "good s \<Longrightarrow> collect s = (b, s1) \<Longrightarrow> good (process b s1)"
    and collect_handled: "good s \<Longrightarrow> collect s = (b, s1) \<Longrightarrow> handled s x \<Longrightarrow> handled s1 x"
    and process_queue: "queue (process b s) = queue s"
    and process_match: "match (process b s) = match s"
    and process_handles: "good s \<Longrightarrow> collect s = (b, s1) \<Longrightarrow> x \<in> set b \<Longrightarrow> handled (process b s1) x"
    and process_keeps: "handled s x \<Longrightarrow> handled (process b s) x"
begin

text \<open>The loop returns, no match is left in the queue, the other entries stay in their order, and
  every entry that matched has been handled.\<close>

lemma batch_loop_drains:
  "good s \<Longrightarrow> \<exists>s'. batch_loop collect process n s = Some s' \<and> good s' \<and> match s' = match s \<and>
     queue s' = filter (\<lambda>x. \<not> match s x) (queue s) \<and>
     (\<forall>x. x \<in> set (queue s) \<and> match s x \<or> handled s x \<longrightarrow> handled s' x)"
proof (induction "length (filter (match s) (queue s))" arbitrary: s rule: less_induct)
  case less
  obtain b s1 where c: "collect s = (b, s1)" by force
  let ?s2 = "process b s1"
  have b: "b = take n (filter (match s) (queue s))" by (rule collect_taken [OF less.prems c])
  note rest = collect_rest [OF less.prems c]
  have g2: "good ?s2" by (rule collect_good [OF less.prems c])
  have m2: "match ?s2 = match s" using collect_match [OF c] process_match by simp
  have q2: "queue ?s2 = queue s1" by (rule process_queue)
  have h2: "handled ?s2 x" if "x \<in> set b \<or> handled s x" for x
    using that process_handles [OF less.prems c] process_keeps collect_handled [OF less.prems c]
    by blast
  have parts: "x \<in> set b \<or> x \<in> set (filter (match s) (queue s1))"
    if "x \<in> set (queue s)" "match s x" for x
  proof -
    have "x \<in> set (take n (filter (match s) (queue s)) @ drop n (filter (match s) (queue s)))"
      using that by simp
    then show ?thesis using b rest by (metis Un_iff set_append)
  qed
  show ?case
  proof (cases "length b = n")
    case True
    then have "length (filter (match ?s2) (queue ?s2)) < length (filter (match s) (queue s))"
      using capacity b rest m2 q2 by auto
    from less.hyps [OF this g2] obtain s' where
      s': "batch_loop collect process n ?s2 = Some s'" "good s'" "match s' = match s"
        "queue s' = filter (\<lambda>x. \<not> match s x) (queue s)"
        "\<And>x. x \<in> set (queue s1) \<and> match s x \<or> handled ?s2 x \<Longrightarrow> handled s' x"
      using m2 q2 rest by auto
    have "batch_loop collect process n s = Some s'"
      using s'(1) c True by (subst batch_loop.simps) (simp add: Let_def)
    moreover have "handled s' x" if "x \<in> set (queue s) \<and> match s x \<or> handled s x" for x
      using that parts [of x] h2 [of x] s'(5) [of x] by auto
    ultimately show ?thesis using s' by blast
  next
    case False
    then have none: "filter (match s) (queue s1) = []" using b rest by auto
    have "batch_loop collect process n s = Some ?s2"
      using c False by (subst batch_loop.simps) (simp add: Let_def)
    moreover have "queue ?s2 = filter (\<lambda>x. \<not> match s x) (queue s)"
      using none rest q2 by (metis (mono_tags, lifting) filter_True filter_empty_conv)
    moreover have "handled ?s2 x" if "x \<in> set (queue s) \<and> match s x \<or> handled s x" for x
      using that parts [of x] none h2 [of x] by auto
    ultimately show ?thesis using g2 m2 by blast
  qed
qed

end

end
