(* ===== verification/WakeProtocol.thy ===== *)
theory WakeProtocol
  imports Prelude
begin

text \<open>
  The hand-shake that the blocking primitives share, as an abstract machine. A waiter links a
  block that lives on its own stack into a list and blocks on the event inside it; a waker
  unlinks blocks under the list lock, marks them woken, and sets their events after the lock is
  released. A waiter whose wait timed out looks at the mark under the lock: if it was unlinked
  by a waker it waits once more, so that its stack frame outlives the waker's access.

  \<open>wk_inv\<close> is the invariant of this machine; \<open>wk_frame_alive\<close> says that an event which a waker
  still has to set belongs to a thread that is inside its wait, and \<open>wk_second_wait_served\<close> that
  the second wait is never a wait for nothing. The locale \<open>wake_refinement\<close> transfers both to
  every machine that projects onto this one; the alert lists and the condition variables are
  interpretations of it.
\<close>

section \<open>The abstract machine\<close>

datatype wk_pc = WkIdle | WkBlocked | WkReturned bool | WkSecond | WkLeaving

record wk_state =
  wk_list :: "tid list"
  wk_event :: "tid \<Rightarrow> bool"
  wk_inlist :: "tid \<Rightarrow> bool"
  wk_woken :: "tid \<Rightarrow> bool"
  wk_at :: "tid \<Rightarrow> wk_pc"
  wk_owed :: "tid \<Rightarrow> tid list"

definition wk_in_wait :: "wk_pc \<Rightarrow> bool" where
  "wk_in_wait p \<longleftrightarrow> p = WkBlocked \<or> p = WkReturned False \<or> p = WkSecond"

definition wk_init :: "wk_state \<Rightarrow> bool" where
  "wk_init s \<longleftrightarrow> wk_list s = [] \<and> (\<forall>t. wk_at s t = WkIdle \<and> wk_owed s t = [])"

inductive wk_step :: "wk_state \<Rightarrow> wk_state \<Rightarrow> bool" where
  enter: "wk_at s w = WkIdle \<Longrightarrow> wk_owed s w = [] \<Longrightarrow>
    wk_step s (s\<lparr>wk_list := wk_list s @ [w], wk_event := (wk_event s)(w := False),
                 wk_inlist := (wk_inlist s)(w := True), wk_woken := (wk_woken s)(w := False),
                 wk_at := (wk_at s)(w := WkBlocked)\<rparr>)"
| pick: "wk_at s k = WkIdle \<Longrightarrow> wk_owed s k = [] \<Longrightarrow> set ws \<subseteq> set (wk_list s) \<Longrightarrow> distinct ws \<Longrightarrow>
    wk_step s (s\<lparr>wk_list := filter (\<lambda>e. e \<notin> set ws) (wk_list s),
                 wk_inlist := (\<lambda>t. if t \<in> set ws then False else wk_inlist s t),
                 wk_woken := (\<lambda>t. if t \<in> set ws then True else wk_woken s t),
                 wk_owed := (wk_owed s)(k := ws)\<rparr>)"
| set_event: "wk_owed s k = w # ws \<Longrightarrow>
    wk_step s (s\<lparr>wk_event := (wk_event s)(w := True), wk_owed := (wk_owed s)(k := ws)\<rparr>)"
| satisfied: "wk_at s w = WkBlocked \<Longrightarrow> wk_event s w \<Longrightarrow>
    wk_step s (s\<lparr>wk_event := (wk_event s)(w := False), wk_at := (wk_at s)(w := WkReturned True)\<rparr>)"
| timeout: "wk_at s w = WkBlocked \<Longrightarrow>
    wk_step s (s\<lparr>wk_at := (wk_at s)(w := WkReturned False)\<rparr>)"
| relock: "wk_at s w = WkReturned ok \<Longrightarrow>
    wk_step s (s\<lparr>wk_list := (if wk_inlist s w then remove1 w (wk_list s) else wk_list s),
                 wk_inlist := (wk_inlist s)(w := False),
                 wk_at := (wk_at s)(w := (if wk_woken s w \<and> \<not> ok then WkSecond else WkLeaving))\<rparr>)"
| second: "wk_at s w = WkSecond \<Longrightarrow> wk_event s w \<Longrightarrow>
    wk_step s (s\<lparr>wk_event := (wk_event s)(w := False), wk_at := (wk_at s)(w := WkLeaving)\<rparr>)"
| no_wait: "wk_at s w = WkIdle \<Longrightarrow> wk_owed s w = [] \<Longrightarrow>
    wk_step s (s\<lparr>wk_at := (wk_at s)(w := WkLeaving)\<rparr>)"
| leave: "wk_at s w = WkLeaving \<Longrightarrow>
    wk_step s (s\<lparr>wk_at := (wk_at s)(w := WkIdle)\<rparr>)"

inductive_cases wk_stepE: "wk_step s t"

section \<open>Its invariant\<close>

text \<open>Seen from one waiter the hand-shake has four phases: outside; listed; picked by exactly one
  waker that has not set the event yet; signalled.\<close>

definition wk_owners :: "wk_state \<Rightarrow> tid \<Rightarrow> tid set" where
  "wk_owners s w = {k. w \<in> set (wk_owed s k)}"

definition wk_out :: "wk_state \<Rightarrow> tid \<Rightarrow> bool" where
  "wk_out s w \<longleftrightarrow> w \<notin> set (wk_list s) \<and> wk_owners s w = {}"

definition wk_listed :: "wk_state \<Rightarrow> tid \<Rightarrow> bool" where
  "wk_listed s w \<longleftrightarrow> w \<in> set (wk_list s) \<and> wk_owners s w = {} \<and>
     wk_inlist s w \<and> \<not> wk_woken s w \<and> \<not> wk_event s w"

definition wk_picked :: "wk_state \<Rightarrow> tid \<Rightarrow> bool" where
  "wk_picked s w \<longleftrightarrow> w \<notin> set (wk_list s) \<and> (\<exists>k. wk_owners s w = {k}) \<and>
     \<not> wk_inlist s w \<and> wk_woken s w \<and> \<not> wk_event s w"

definition wk_signalled :: "wk_state \<Rightarrow> tid \<Rightarrow> bool" where
  "wk_signalled s w \<longleftrightarrow> w \<notin> set (wk_list s) \<and> wk_owners s w = {} \<and>
     \<not> wk_inlist s w \<and> wk_woken s w \<and> wk_event s w"

definition wk_ok :: "wk_state \<Rightarrow> tid \<Rightarrow> bool" where
  "wk_ok s w \<longleftrightarrow> (case wk_at s w of
      WkBlocked \<Rightarrow> wk_listed s w \<or> wk_picked s w \<or> wk_signalled s w
    | WkReturned ok \<Rightarrow> (ok \<longrightarrow> wk_out s w \<and> \<not> wk_inlist s w) \<and>
        (\<not> ok \<longrightarrow> wk_listed s w \<or> wk_picked s w \<or> wk_signalled s w)
    | WkSecond \<Rightarrow> wk_picked s w \<or> wk_signalled s w
    | WkIdle \<Rightarrow> wk_out s w
    | WkLeaving \<Rightarrow> wk_out s w)"

definition wk_inv :: "wk_state \<Rightarrow> bool" where
  "wk_inv s \<longleftrightarrow> distinct (wk_list s) \<and> (\<forall>w. wk_ok s w) \<and>
     (\<forall>k. distinct (wk_owed s k) \<and> (wk_owed s k \<noteq> [] \<longrightarrow> wk_at s k = WkIdle))"

lemmas wk_phase_defs = wk_out_def wk_listed_def wk_picked_def wk_signalled_def wk_owners_def

lemma wk_init_inv: "wk_init s \<Longrightarrow> wk_inv s"
  by (simp add: wk_init_def wk_inv_def wk_ok_def wk_phase_defs)

lemma wk_inv_okD: "wk_inv s \<Longrightarrow> wk_ok s w"
  by (simp add: wk_inv_def)

lemma wk_ok_in_list: "wk_ok s w \<Longrightarrow> w \<in> set (wk_list s) \<Longrightarrow> wk_listed s w"
  by (auto simp: wk_ok_def wk_out_def wk_picked_def wk_signalled_def
      split: wk_pc.splits if_splits)

lemma wk_ok_owed:
  assumes "wk_ok s w" and "w \<in> set (wk_owed s k)"
  shows "wk_picked s w \<and> wk_owners s w = {k}"
proof -
  have k: "k \<in> wk_owners s w" using assms(2) by (simp add: wk_owners_def)
  then have "wk_picked s w"
    using assms(1)
    by (auto simp: wk_ok_def wk_out_def wk_listed_def wk_signalled_def split: wk_pc.splits)
  then show ?thesis using k by (auto simp: wk_picked_def)
qed

lemma wk_ok_waiting:
  "wk_picked s w \<or> wk_signalled s w \<Longrightarrow> wk_in_wait (wk_at s w) \<Longrightarrow> wk_ok s w"
  by (auto simp: wk_ok_def wk_in_wait_def)

text \<open>A step that only touches waiter \<open>w\<close> and no list of owed events keeps the other waiters.\<close>

lemma wk_ok_frame:
  "wk_ok s v \<Longrightarrow> wk_at t v = wk_at s v \<Longrightarrow> wk_event t v = wk_event s v \<Longrightarrow>
   wk_inlist t v = wk_inlist s v \<Longrightarrow> wk_woken t v = wk_woken s v \<Longrightarrow>
   wk_owners t v = wk_owners s v \<Longrightarrow> (v \<in> set (wk_list t) \<longleftrightarrow> v \<in> set (wk_list s)) \<Longrightarrow> wk_ok t v"
  by (simp add: wk_ok_def wk_out_def wk_listed_def wk_picked_def wk_signalled_def split: wk_pc.splits)

lemma wk_pick_inv:
  assumes inv: "wk_inv s" and k: "wk_at s k = WkIdle" "wk_owed s k = []"
    and ws: "set ws \<subseteq> set (wk_list s)" "distinct ws"
  shows "wk_inv (s\<lparr>wk_list := filter (\<lambda>e. e \<notin> set ws) (wk_list s),
                 wk_inlist := (\<lambda>t. if t \<in> set ws then False else wk_inlist s t),
                 wk_woken := (\<lambda>t. if t \<in> set ws then True else wk_woken s t),
                 wk_owed := (wk_owed s)(k := ws)\<rparr>)" (is "wk_inv ?t")
proof -
  have own: "wk_owners ?t v = (if v \<in> set ws then insert k (wk_owners s v) else wk_owners s v)" for v
    using k(2) by (auto simp: wk_owners_def)
  have "wk_ok ?t v" for v
  proof (cases "v \<in> set ws")
    case True
    then have l: "wk_listed s v"
      using ws(1) wk_ok_in_list wk_inv_okD [OF inv] by blast
    then have "wk_picked ?t v"
      using True own [of v] by (auto simp: wk_picked_def wk_listed_def)
    moreover have "wk_in_wait (wk_at s v)"
      using l wk_inv_okD [OF inv, of v]
      by (auto simp: wk_ok_def wk_in_wait_def wk_out_def wk_listed_def wk_picked_def
          wk_signalled_def split: wk_pc.splits)
    ultimately show ?thesis by (intro wk_ok_waiting) auto
  next
    case False
    then show ?thesis
      by (intro wk_ok_frame [OF wk_inv_okD [OF inv]]) (simp_all add: own)
  qed
  then show ?thesis using inv k ws by (simp add: wk_inv_def)
qed

lemma wk_set_event_inv:
  assumes inv: "wk_inv s" and k: "wk_owed s k = w # ws"
  shows "wk_inv (s\<lparr>wk_event := (wk_event s)(w := True), wk_owed := (wk_owed s)(k := ws)\<rparr>)"
    (is "wk_inv ?t")
proof -
  have d: "w \<notin> set ws" and dws: "distinct ws"
    using inv k by (auto simp: wk_inv_def dest: spec [of _ k])
  have p: "wk_picked s w" "wk_owners s w = {k}"
    using wk_ok_owed [OF wk_inv_okD [OF inv], of w k] k by auto
  have own: "wk_owners ?t v = (if v = w then {} else wk_owners s v)" for v
    using k d p(2) by (auto simp: wk_owners_def)
  have "wk_ok ?t v" for v
  proof (cases "v = w")
    case True
    have "wk_signalled ?t w" using p own [of w] by (simp add: wk_signalled_def wk_picked_def)
    moreover have "wk_in_wait (wk_at s w)"
      using p wk_inv_okD [OF inv, of w]
      by (auto simp: wk_ok_def wk_in_wait_def wk_out_def wk_picked_def split: wk_pc.splits if_splits)
    ultimately show ?thesis unfolding True by (intro wk_ok_waiting) auto
  next
    case False
    then show ?thesis
      by (intro wk_ok_frame [OF wk_inv_okD [OF inv]]) (simp_all add: own)
  qed
  then show ?thesis using inv k dws by (auto simp: wk_inv_def dest: spec [of _ k])
qed

text \<open>The steps of a waiter change nothing that other threads see of themselves.\<close>

lemma wk_waiter_inv:
  assumes inv: "wk_inv s"
    and own: "wk_owed t = wk_owed s"
    and others: "\<And>v. v \<noteq> w \<Longrightarrow> wk_at t v = wk_at s v \<and> wk_event t v = wk_event s v \<and>
        wk_inlist t v = wk_inlist s v \<and> wk_woken t v = wk_woken s v \<and>
        (v \<in> set (wk_list t) \<longleftrightarrow> v \<in> set (wk_list s))"
    and d: "distinct (wk_list t)" and w: "wk_ok t w"
    and idle: "wk_owed s w \<noteq> [] \<Longrightarrow> wk_at t w = WkIdle"
  shows "wk_inv t"
proof -
  have "wk_ok t v" for v
    using w wk_ok_frame [OF wk_inv_okD [OF inv], of t v] others [of v] own
    by (cases "v = w") (auto simp: wk_owners_def)
  moreover have "wk_owed t k \<noteq> [] \<longrightarrow> wk_at t k = WkIdle" for k
    using inv idle others [of k] own by (cases "k = w") (auto simp: wk_inv_def)
  ultimately show ?thesis using inv d own by (auto simp: wk_inv_def)
qed

lemma wk_busy_owes_nothing: "wk_inv s \<Longrightarrow> wk_at s w \<noteq> WkIdle \<Longrightarrow> wk_owed s w = []"
  by (auto simp: wk_inv_def)

lemma wk_step_inv: "wk_step s t \<Longrightarrow> wk_inv s \<Longrightarrow> wk_inv t"
proof (induction rule: wk_step.induct)
  case (enter s w)
  then have "wk_out s w" using wk_inv_okD [of s w] by (simp add: wk_ok_def)
  with enter show ?case
    by (intro wk_waiter_inv [where w = w, OF enter.prems])
      (auto simp: wk_ok_def wk_listed_def wk_out_def wk_owners_def wk_inv_def)
next
  case (pick s k ws)
  then show ?case by (simp add: wk_pick_inv)
next
  case (set_event s k w ws)
  then show ?case by (simp add: wk_set_event_inv)
next
  case (satisfied s w)
  then have "wk_signalled s w" using wk_inv_okD [of s w]
    by (auto simp: wk_ok_def wk_listed_def wk_picked_def)
  with satisfied show ?case
    by (intro wk_waiter_inv [where w = w, OF satisfied.prems])
      (auto simp: wk_ok_def wk_signalled_def wk_out_def wk_owners_def wk_inv_def
         dest: wk_busy_owes_nothing [OF satisfied.prems, of w])
next
  case (timeout s w)
  then have "wk_listed s w \<or> wk_picked s w \<or> wk_signalled s w"
    using wk_inv_okD [of s w] by (simp add: wk_ok_def)
  with timeout show ?case
    by (intro wk_waiter_inv [where w = w, OF timeout.prems])
      (auto simp: wk_ok_def wk_phase_defs wk_inv_def
         dest: wk_busy_owes_nothing [OF timeout.prems, of w])
next
  case (relock s w ok)
  let ?t = "s\<lparr>wk_list := (if wk_inlist s w then remove1 w (wk_list s) else wk_list s),
                 wk_inlist := (wk_inlist s)(w := False),
                 wk_at := (wk_at s)(w := (if wk_woken s w \<and> \<not> ok then WkSecond else WkLeaving))\<rparr>"
  have o: "wk_owed s w = []" using relock wk_busy_owes_nothing by fastforce
  have d: "distinct (wk_list s)" using relock.prems by (simp add: wk_inv_def)
  have "wk_ok ?t w" using wk_inv_okD [OF relock.prems, of w] relock.hyps d
    by (cases ok) (auto simp: wk_ok_def wk_phase_defs)
  with relock o d show ?case
    by (intro wk_waiter_inv [where w = w, OF relock.prems]) auto
next
  case (second s w)
  then have "wk_signalled s w" using wk_inv_okD [of s w]
    by (auto simp: wk_ok_def wk_listed_def wk_picked_def)
  with second show ?case
    by (intro wk_waiter_inv [where w = w, OF second.prems])
      (auto simp: wk_ok_def wk_signalled_def wk_out_def wk_owners_def wk_inv_def
         dest: wk_busy_owes_nothing [OF second.prems, of w])
next
  case (no_wait s w)
  then show ?case
    using wk_inv_okD [of s w]
    by (intro wk_waiter_inv [where w = w, OF no_wait.prems])
      (auto simp: wk_ok_def wk_phase_defs wk_inv_def)
next
  case (leave s w)
  then show ?case
    using wk_inv_okD [of s w]
    by (intro wk_waiter_inv [where w = w, OF leave.prems])
      (auto simp: wk_ok_def wk_phase_defs wk_inv_def)
qed

section \<open>What the invariant promises\<close>

text \<open>An event some waker still has to set lies on the stack of a thread that is inside its wait,
  and no other waker has it.\<close>

lemma wk_frame_alive:
  assumes "wk_inv s" and "w \<in> set (wk_owed s k)"
  shows "wk_in_wait (wk_at s w) \<and> (\<forall>j. w \<in> set (wk_owed s j) \<longrightarrow> j = k)"
  using wk_ok_owed [OF wk_inv_okD [OF assms(1)] assms(2)] wk_inv_okD [OF assms(1), of w]
  by (auto simp: wk_ok_def wk_in_wait_def wk_picked_def wk_out_def wk_owners_def
      split: wk_pc.splits if_splits)

text \<open>A thread in its second, unbounded wait has its event set already, or some waker is about to
  set it.\<close>

lemma wk_second_wait_served:
  assumes "wk_inv s" and "wk_at s w = WkSecond"
  shows "wk_event s w \<or> (\<exists>k. w \<in> set (wk_owed s k) \<and> wk_at s k = WkIdle)"
proof -
  from assms have "wk_picked s w \<or> wk_signalled s w"
    using wk_inv_okD [of s w] by (simp add: wk_ok_def)
  then show ?thesis
  proof
    assume "wk_picked s w"
    then obtain k where "w \<in> set (wk_owed s k)" by (auto simp: wk_picked_def wk_owners_def)
    with assms show ?thesis by (force simp: wk_inv_def)
  qed (simp add: wk_signalled_def)
qed

text \<open>A waiter that has not been picked is in the list, so that the next waker finds it.\<close>

lemma wk_unpicked_listed:
  assumes "wk_inv s" and "wk_at s w = WkBlocked" and "\<not> wk_woken s w"
  shows "w \<in> set (wk_list s)"
  using assms wk_inv_okD [of s w]
  by (auto simp: wk_ok_def wk_listed_def wk_picked_def wk_signalled_def)

text \<open>Whoever is in the list has not been picked and its wait has not succeeded.\<close>

lemma wk_listed_waiter:
  assumes "wk_inv s" and "w \<in> set (wk_list s)"
  shows "\<not> wk_woken s w \<and> (wk_at s w = WkBlocked \<or> wk_at s w = WkReturned False)"
  using wk_ok_in_list [OF wk_inv_okD [OF assms(1)] assms(2)] wk_inv_okD [OF assms(1), of w] assms(2)
  by (auto simp: wk_ok_def wk_listed_def wk_out_def wk_picked_def wk_signalled_def split: wk_pc.splits)

section \<open>Machines that project onto the hand-shake\<close>

locale wake_refinement =
  fixes proj :: "'c \<Rightarrow> wk_state" and init :: "'c \<Rightarrow> bool" and step :: "'c \<Rightarrow> 'c \<Rightarrow> bool"
  assumes proj_init: "init c \<Longrightarrow> wk_init (proj c)"
    and proj_step: "wk_inv (proj c) \<Longrightarrow> step c d \<Longrightarrow> wk_step (proj c) (proj d) \<or> proj d = proj c"
begin

lemma reach_inv:
  assumes "reach init step d"
  shows "wk_inv (proj d)"
  using assms
proof (induction rule: reach_induct)
  case (init c)
  show ?case by (rule wk_init_inv [OF proj_init [OF init]])
next
  case (step c d)
  then show ?case using proj_step [of c d] wk_step_inv by auto
qed

lemma frame_alive:
  "reach init step d \<Longrightarrow> w \<in> set (wk_owed (proj d) k) \<Longrightarrow>
   wk_in_wait (wk_at (proj d) w) \<and> (\<forall>j. w \<in> set (wk_owed (proj d) j) \<longrightarrow> j = k)"
  by (rule wk_frame_alive [OF reach_inv])

lemma second_wait_served:
  "reach init step d \<Longrightarrow> wk_at (proj d) w = WkSecond \<Longrightarrow>
   wk_event (proj d) w \<or> (\<exists>k. w \<in> set (wk_owed (proj d) k) \<and> wk_at (proj d) k = WkIdle)"
  by (rule wk_second_wait_served [OF reach_inv])

lemma unpicked_listed:
  "reach init step d \<Longrightarrow> wk_at (proj d) w = WkBlocked \<Longrightarrow> \<not> wk_woken (proj d) w \<Longrightarrow>
   w \<in> set (wk_list (proj d))"
  by (rule wk_unpicked_listed [OF reach_inv])

lemma listed_waiter:
  "reach init step d \<Longrightarrow> w \<in> set (wk_list (proj d)) \<Longrightarrow>
   \<not> wk_woken (proj d) w \<and> (wk_at (proj d) w = WkBlocked \<or> wk_at (proj d) w = WkReturned False)"
  by (rule wk_listed_waiter [OF reach_inv])

end

end
