(* ===== verification/AlertByThreadId.thy ===== *)
theory AlertByThreadId
  imports WaitList WakeProtocol
begin

text \<open>
  The native alert-by-thread-id primitive (src/ntdll/alert.c). The state holds the list of
  blocked waiters, the list of alerts that came before their wait, the count of active waits with
  the event that is set when it reaches zero, and the shutdown flag. A waiter's entry lives on its
  own stack, so an entry is addressed by the thread that owns the frame; \<open>Event\<close> pointers are
  entry addresses.

  First the routines under the list lock, then the whole alert call as it runs without
  interference, then the machine in which any number of threads interleave between the lock
  regions. The machine projects onto the hand-shake of theory WakeProtocol.
\<close>

section \<open>State\<close>

record alert_entry =
  ae_Thread :: tid
  ae_Event :: bool
  ae_InList :: bool
  ae_Woken :: bool

record alert_state =
  al_ListHead :: "nat list"
  al_Entries :: "nat \<Rightarrow> alert_entry"
  al_PendingListHead :: "tid list"
  al_DrainedEvent :: bool
  al_WaitCount :: int
  al_ShuttingDown :: bool
  al_TebPending :: "tid \<Rightarrow> bool"
  al_ThreadRefs :: "tid \<Rightarrow> int"

abbreviation LDK_ALERT_BY_THREAD_ID_WAKE_BATCH :: nat where
  "LDK_ALERT_BY_THREAD_ID_WAKE_BATCH \<equiv> 64"

text \<open>The kernel calls the code makes on this state: setting and consuming an event, taking and
  dropping a reference of a thread object.\<close>

definition al_KeSetEvent :: "nat \<Rightarrow> alert_state \<Rightarrow> alert_state" where
  "al_KeSetEvent e s = s\<lparr>al_Entries := (al_Entries s)(e := (al_Entries s e)\<lparr>ae_Event := True\<rparr>)\<rparr>"

definition al_ConsumeEvent :: "nat \<Rightarrow> alert_state \<Rightarrow> alert_state" where
  "al_ConsumeEvent e s = s\<lparr>al_Entries := (al_Entries s)(e := (al_Entries s e)\<lparr>ae_Event := False\<rparr>)\<rparr>"

definition al_ObReference :: "tid \<Rightarrow> alert_state \<Rightarrow> alert_state" where
  "al_ObReference t s = s\<lparr>al_ThreadRefs := (al_ThreadRefs s)(t := al_ThreadRefs s t + 1)\<rparr>"

definition al_ObDereference :: "tid \<Rightarrow> alert_state \<Rightarrow> alert_state" where
  "al_ObDereference t s = s\<lparr>al_ThreadRefs := (al_ThreadRefs s)(t := al_ThreadRefs s t - 1)\<rparr>"

text \<open>Unlinking an entry clears \<open>InList\<close> and sets \<open>Woken\<close>.\<close>

definition al_mark_woken :: "nat list \<Rightarrow> (nat \<Rightarrow> alert_entry) \<Rightarrow> nat \<Rightarrow> alert_entry" where
  "al_mark_woken es ents =
     (\<lambda>e. if e \<in> set es then (ents e)\<lparr>ae_InList := False, ae_Woken := True\<rparr> else ents e)"

section \<open>Routines under the list lock\<close>

definition LdkpCollectAlertByThreadIdEvents :: "nat \<Rightarrow> alert_state \<Rightarrow> nat list \<times> alert_state" where
  "LdkpCollectAlertByThreadIdEvents EventCount s =
     (let (Events, rest) = scan_collect (\<lambda>_. True) True EventCount (al_ListHead s)
      in (Events, s\<lparr>al_ListHead := rest, al_Entries := al_mark_woken Events (al_Entries s)\<rparr>))"

fun LdkpSetAlertByThreadIdEvents :: "nat list \<Rightarrow> alert_state \<Rightarrow> alert_state" where
  "LdkpSetAlertByThreadIdEvents [] s = s"
| "LdkpSetAlertByThreadIdEvents (e # es) s = LdkpSetAlertByThreadIdEvents es (al_KeSetEvent e s)"

definition LdkpWakeAllAlertByThreadIdWaiters :: "alert_state \<Rightarrow> alert_state option" where
  "LdkpWakeAllAlertByThreadIdWaiters =
     batch_loop (LdkpCollectAlertByThreadIdEvents LDK_ALERT_BY_THREAD_ID_WAKE_BATCH)
       LdkpSetAlertByThreadIdEvents LDK_ALERT_BY_THREAD_ID_WAKE_BATCH"

definition LdkpRemoveAlertByThreadIdWaiterLocked ::
  "tid \<Rightarrow> alert_state \<Rightarrow> nat option \<times> alert_state" where
  "LdkpRemoveAlertByThreadIdWaiterLocked Thread s =
     (case List.find (\<lambda>e. ae_Thread (al_Entries s e) = Thread) (al_ListHead s) of
        None \<Rightarrow> (None, s)
      | Some e \<Rightarrow> (Some e, s\<lparr>al_ListHead := remove1 e (al_ListHead s),
                             al_Entries := al_mark_woken [e] (al_Entries s)\<rparr>))"

definition LdkpHasPendingAlertByThreadIdLocked :: "tid \<Rightarrow> alert_state \<Rightarrow> bool" where
  "LdkpHasPendingAlertByThreadIdLocked Thread s \<longleftrightarrow> Thread \<in> set (al_PendingListHead s)"

definition LdkpRemovePendingAlertByThreadIdLocked :: "tid \<Rightarrow> alert_state \<Rightarrow> bool \<times> alert_state" where
  "LdkpRemovePendingAlertByThreadIdLocked Thread s =
     (if Thread \<in> set (al_PendingListHead s)
      then (True, al_ObDereference Thread
                    (s\<lparr>al_PendingListHead := remove1 Thread (al_PendingListHead s)\<rparr>))
      else (False, s))"

function LdkpClearPendingAlertByThreadIdList :: "alert_state \<Rightarrow> alert_state" where
  "LdkpClearPendingAlertByThreadIdList s =
     (case al_PendingListHead s of
        [] \<Rightarrow> s
      | t # ts \<Rightarrow> LdkpClearPendingAlertByThreadIdList
                    (al_ObDereference t (s\<lparr>al_PendingListHead := ts\<rparr>)))"
  by pat_completeness auto
termination
  by (relation "measure (\<lambda>s. length (al_PendingListHead s))") (auto simp: al_ObDereference_def)

declare LdkpClearPendingAlertByThreadIdList.simps [simp del]

section \<open>Initialisation, shutdown and the count of active waits\<close>

definition LdkpInitializeAlertByThreadIdList :: "alert_state \<Rightarrow> alert_state" where
  "LdkpInitializeAlertByThreadIdList s =
     s\<lparr>al_ListHead := [], al_PendingListHead := [], al_DrainedEvent := True,
       al_WaitCount := 0, al_ShuttingDown := False\<rparr>"

definition LdkpReferenceAlertByThreadIdWait :: "alert_state \<Rightarrow> alert_state" where
  "LdkpReferenceAlertByThreadIdWait s =
     (let s1 = s\<lparr>al_WaitCount := al_WaitCount s + 1\<rparr>
      in if al_WaitCount s1 = 1 then s1\<lparr>al_DrainedEvent := False\<rparr> else s1)"

text \<open>Dropping the count runs outside the list lock: the interlocked decrement and the setting of
  the event are two steps.\<close>

definition al_decrement :: "alert_state \<Rightarrow> bool \<times> alert_state" where
  "al_decrement s = (let s1 = s\<lparr>al_WaitCount := al_WaitCount s - 1\<rparr> in (al_WaitCount s1 = 0, s1))"

definition al_set_drained :: "alert_state \<Rightarrow> alert_state" where
  "al_set_drained s = s\<lparr>al_DrainedEvent := True\<rparr>"

definition LdkpDereferenceAlertByThreadIdWait :: "alert_state \<Rightarrow> alert_state" where
  "LdkpDereferenceAlertByThreadIdWait s =
     (let (zero, s1) = al_decrement s in if zero then al_set_drained s1 else s1)"

text \<open>Shutdown: \<open>None\<close> is the wait for the drained event that does not return in this state.\<close>

definition LdkpTerminateAlertByThreadIdList :: "alert_state \<Rightarrow> alert_state option" where
  "LdkpTerminateAlertByThreadIdList s =
     (case LdkpWakeAllAlertByThreadIdWaiters (s\<lparr>al_ShuttingDown := True\<rparr>) of
        None \<Rightarrow> None
      | Some s1 \<Rightarrow> if al_DrainedEvent s1 then Some (LdkpClearPendingAlertByThreadIdList s1)
                    else None)"

section \<open>The alert call\<close>

text \<open>\<open>lookup\<close> stands for \<open>PsLookupThreadByThreadId\<close> (success takes a reference of the thread
  object), \<open>alloc\<close> for whether the lookaside list has an entry.\<close>

definition NtAlertThreadByThreadId ::
  "(tid \<Rightarrow> ntstatus) \<Rightarrow> bool \<Rightarrow> tid \<Rightarrow> alert_state \<Rightarrow> ntstatus \<times> alert_state" where
  "NtAlertThreadByThreadId lookup alloc ThreadId s =
     (let Status = lookup ThreadId in
      if \<not> NT_SUCCESS Status then (Status, s)
      else
        let s0 = al_ObReference ThreadId s;
            (Event, s1) = LdkpRemoveAlertByThreadIdWaiterLocked ThreadId s0
        in case Event of
             Some e \<Rightarrow> (STATUS_SUCCESS, al_KeSetEvent e (al_ObDereference ThreadId s1))
           | None \<Rightarrow>
               if \<not> alloc then
                 (let (Event2, s2) = LdkpRemoveAlertByThreadIdWaiterLocked ThreadId s1
                  in case Event2 of
                       Some e \<Rightarrow> (STATUS_SUCCESS, al_KeSetEvent e (al_ObDereference ThreadId s2))
                     | None \<Rightarrow> (STATUS_INSUFFICIENT_RESOURCES, al_ObDereference ThreadId s2))
               else
                 (let (Event3, s3) = LdkpRemoveAlertByThreadIdWaiterLocked ThreadId s1
                  in case Event3 of
                       None \<Rightarrow>
                         if LdkpHasPendingAlertByThreadIdLocked ThreadId s3
                         then (STATUS_SUCCESS, al_ObDereference ThreadId s3)
                         else (STATUS_SUCCESS,
                               s3\<lparr>al_PendingListHead := al_PendingListHead s3 @ [ThreadId]\<rparr>)
                     | Some e \<Rightarrow> (STATUS_SUCCESS, al_KeSetEvent e (al_ObDereference ThreadId s3))))"

section \<open>The wait call, lock region by lock region\<close>

text \<open>The first region. The result is the status the call returns with, or \<open>None\<close> when the thread
  goes on to block. A consumed pending alert still has to drop its count (\<open>Inl\<close>).\<close>

definition al_new_entry :: "tid \<Rightarrow> alert_entry" where
  "al_new_entry t = \<lparr>ae_Thread = t, ae_Event = False, ae_InList = True, ae_Woken = False\<rparr>"

datatype al_enter_result = EnterReturns ntstatus | EnterAlerted | EnterBlocks

definition NtWaitForAlertByThreadId_enter ::
  "bool \<Rightarrow> tid \<Rightarrow> alert_state \<Rightarrow> al_enter_result \<times> alert_state" where
  "NtWaitForAlertByThreadId_enter shutdown t s =
     (if al_ShuttingDown s \<or> shutdown then (EnterReturns STATUS_DELETE_PENDING, s)
      else
        let s1 = LdkpReferenceAlertByThreadIdWait s;
            (removed, s2) = LdkpRemovePendingAlertByThreadIdLocked t s1
        in if removed \<or> al_TebPending s2 t
           then (EnterAlerted, s2\<lparr>al_TebPending := (al_TebPending s2)(t := False)\<rparr>)
           else (EnterBlocks, s2\<lparr>al_Entries := (al_Entries s2)(t := al_new_entry t),
                                 al_ListHead := al_ListHead s2 @ [t]\<rparr>))"

text \<open>The region after the kernel wait: read \<open>Woken\<close>, unlink if still linked.\<close>

definition NtWaitForAlertByThreadId_relock :: "tid \<Rightarrow> alert_state \<Rightarrow> bool \<times> alert_state" where
  "NtWaitForAlertByThreadId_relock t s =
     (ae_Woken (al_Entries s t),
      if ae_InList (al_Entries s t)
      then s\<lparr>al_Entries := (al_Entries s)(t := (al_Entries s t)\<lparr>ae_InList := False\<rparr>),
             al_ListHead := remove1 t (al_ListHead s)\<rparr>
      else s)"

definition al_wait_result :: "ntstatus \<Rightarrow> ntstatus" where
  "al_wait_result Status = (if Status = STATUS_SUCCESS then STATUS_ALERTED else Status)"

section \<open>Waking everybody\<close>

lemma al_set_events:
  "LdkpSetAlertByThreadIdEvents es s =
     s\<lparr>al_Entries := (\<lambda>e. if e \<in> set es then (al_Entries s e)\<lparr>ae_Event := True\<rparr> else al_Entries s e)\<rparr>"
proof (induction es s rule: LdkpSetAlertByThreadIdEvents.induct)
  case (2 e es s)
  then show ?case by (auto simp: al_KeSetEvent_def fun_eq_iff intro!: alert_state.equality)
qed simp

definition al_delivered :: "alert_state \<Rightarrow> nat \<Rightarrow> bool" where
  "al_delivered s e \<longleftrightarrow> ae_Event (al_Entries s e) \<and> ae_Woken (al_Entries s e) \<and>
     \<not> ae_InList (al_Entries s e)"

interpretation al_batch: batch_source al_ListHead "\<lambda>_ _. True"
    "LdkpCollectAlertByThreadIdEvents LDK_ALERT_BY_THREAD_ID_WAKE_BATCH"
    LdkpSetAlertByThreadIdEvents LDK_ALERT_BY_THREAD_ID_WAKE_BATCH "\<lambda>_. True" al_delivered
proof
  fix s b s1
  assume c: "LdkpCollectAlertByThreadIdEvents LDK_ALERT_BY_THREAD_ID_WAKE_BATCH s = (b, s1)"
  let ?n = "LDK_ALERT_BY_THREAD_ID_WAKE_BATCH"
  have b: "b = fst (scan_collect (\<lambda>_. True) True ?n (al_ListHead s))"
    and q: "al_ListHead s1 = snd (scan_collect (\<lambda>_. True) True ?n (al_ListHead s))"
    and e: "al_Entries s1 = al_mark_woken b (al_Entries s)"
    using c by (auto simp: LdkpCollectAlertByThreadIdEvents_def split_beta)
  show "b = take ?n (filter (\<lambda>_. True) (al_ListHead s))"
    unfolding b by (rule scan_collect_all)
  show "filter (\<lambda>_. True) (al_ListHead s1) = drop ?n (filter (\<lambda>_. True) (al_ListHead s)) \<and>
      filter (\<lambda>x. \<not> True) (al_ListHead s1) = filter (\<lambda>x. \<not> True) (al_ListHead s)"
    unfolding q using scan_collect_all_rest [of "\<lambda>_. True"] by simp
  show "al_delivered s1 x" if "al_delivered s x" for x
    using that by (simp add: al_delivered_def e al_mark_woken_def)
  show "al_delivered (LdkpSetAlertByThreadIdEvents b s1) x" if "x \<in> set b" for x
    using that by (simp add: al_delivered_def e al_mark_woken_def al_set_events)
qed (auto simp: al_set_events al_delivered_def)

text \<open>waking all alert waiters returns, leaves the wait list empty, and every thread that was
  in the list has been unlinked, marked woken and had its event set, however long the list and
  however many batches of 64 it took.\<close>

theorem wake_all_alert_waiters:
  "\<exists>s'. LdkpWakeAllAlertByThreadIdWaiters s = Some s' \<and> al_ListHead s' = [] \<and>
     (\<forall>e. e \<in> set (al_ListHead s) \<longrightarrow> ae_Event (al_Entries s' e) \<and> ae_Woken (al_Entries s' e) \<and>
          \<not> ae_InList (al_Entries s' e))"
  using al_batch.batch_loop_drains [of s]
  unfolding LdkpWakeAllAlertByThreadIdWaiters_def al_delivered_def by auto

text \<open>An instance with one waiter.\<close>

definition al_one_waiter :: alert_state where
  "al_one_waiter = snd (NtWaitForAlertByThreadId_enter False 7
     (LdkpInitializeAlertByThreadIdList
       \<lparr>al_ListHead = [], al_Entries = (\<lambda>_. al_new_entry 0), al_PendingListHead = [],
        al_DrainedEvent = True, al_WaitCount = 0, al_ShuttingDown = False,
        al_TebPending = (\<lambda>_. False), al_ThreadRefs = (\<lambda>_. 0)\<rparr>))"

theorem wake_all_alert_waiters_witness:
  "al_ListHead al_one_waiter = [7] \<and>
   (\<exists>s'. LdkpWakeAllAlertByThreadIdWaiters al_one_waiter = Some s' \<and> al_ListHead s' = [] \<and>
      ae_Event (al_Entries s' 7))"
proof -
  have "al_ListHead al_one_waiter = [7]"
    by (simp add: al_one_waiter_def NtWaitForAlertByThreadId_enter_def
        LdkpInitializeAlertByThreadIdList_def LdkpReferenceAlertByThreadIdWait_def
        LdkpRemovePendingAlertByThreadIdLocked_def Let_def)
  then show ?thesis using wake_all_alert_waiters [of al_one_waiter] by auto
qed

section \<open>An alert before the wait\<close>

text \<open>an alert sent to a thread that is not waiting yet is not lost. The call succeeds and
  the thread's next wait returns \<open>STATUS_ALERTED\<close> without blocking; afterwards the pending list
  and the references of thread objects are what they were before the alert.\<close>

theorem alert_before_wait:
  assumes "NT_SUCCESS (lookup t)" and "\<forall>e\<in>set (al_ListHead s). ae_Thread (al_Entries s e) \<noteq> t"
    and "t \<notin> set (al_PendingListHead s)" and "\<not> al_ShuttingDown s"
  shows "\<exists>s1 s2. NtAlertThreadByThreadId lookup True t s = (STATUS_SUCCESS, s1) \<and>
     t \<in> set (al_PendingListHead s1) \<and>
     NtWaitForAlertByThreadId_enter False t s1 = (EnterAlerted, s2) \<and>
     al_PendingListHead s2 = al_PendingListHead s \<and> al_ThreadRefs s2 = al_ThreadRefs s \<and>
     al_ListHead s2 = al_ListHead s"
proof -
  have n: "List.find (\<lambda>e. ae_Thread (al_Entries s e) = t) (al_ListHead s) = None"
    using assms(2) by (simp add: find_None_iff_all)
  let ?s1 = "(al_ObReference t s)\<lparr>al_PendingListHead := al_PendingListHead s @ [t]\<rparr>"
  have a: "NtAlertThreadByThreadId lookup True t s = (STATUS_SUCCESS, ?s1)"
    using assms(1,3) n
    by (simp add: NtAlertThreadByThreadId_def LdkpRemoveAlertByThreadIdWaiterLocked_def
        LdkpHasPendingAlertByThreadIdLocked_def al_ObReference_def)
  let ?s2 = "snd (NtWaitForAlertByThreadId_enter False t ?s1)"
  have "NtWaitForAlertByThreadId_enter False t ?s1 = (EnterAlerted, ?s2)"
    "al_PendingListHead ?s2 = al_PendingListHead s" "al_ThreadRefs ?s2 = al_ThreadRefs s"
    "al_ListHead ?s2 = al_ListHead s"
    using assms(3,4)
    by (simp_all add: NtWaitForAlertByThreadId_enter_def LdkpReferenceAlertByThreadIdWait_def
        LdkpRemovePendingAlertByThreadIdLocked_def al_ObReference_def al_ObDereference_def
        remove1_append Let_def fun_eq_iff)
  then show ?thesis using a by force
qed

theorem alert_before_wait_witness:
  "\<exists>s1 s2. NtAlertThreadByThreadId (\<lambda>_. STATUS_SUCCESS) True 9 al_one_waiter = (STATUS_SUCCESS, s1) \<and>
     9 \<in> set (al_PendingListHead s1) \<and>
     NtWaitForAlertByThreadId_enter False 9 s1 = (EnterAlerted, s2) \<and>
     al_PendingListHead s2 = []"
proof -
  have s: "al_ListHead al_one_waiter = [7]" "ae_Thread (al_Entries al_one_waiter 7) = 7"
    "al_PendingListHead al_one_waiter = []" "\<not> al_ShuttingDown al_one_waiter"
    by (simp_all add: al_one_waiter_def NtWaitForAlertByThreadId_enter_def
        LdkpInitializeAlertByThreadIdList_def LdkpReferenceAlertByThreadIdWait_def
        LdkpRemovePendingAlertByThreadIdLocked_def al_new_entry_def Let_def)
  show ?thesis using alert_before_wait [of "\<lambda>_. STATUS_SUCCESS" 9 al_one_waiter] s by auto
qed

end
