(* ===== verification/AlertMachine.thy ===== *)
theory AlertMachine
  imports AlertByThreadId
begin

text \<open>
  The alert primitive under interleaving: every thread is at one of the points between the lock
  regions of \<open>NtAlertThreadByThreadId\<close>, \<open>NtWaitForAlertByThreadId\<close> and the wake-all loop
  (src/ntdll/alert.c), and a step runs one region of one thread. The machine projects onto the
  hand-shake of theory WakeProtocol, which gives the life time of the stack events; its own
  invariants account for the references of thread objects and for the count of active waits.
\<close>

section \<open>Program points and steps\<close>

datatype al_pc =
    AlIdle
  | AlFirst tid
  | AlAlloc tid
  | AlRetry tid
  | AlInsert tid
  | AlWakeCollect
  | AlSet "nat list" bool
  | AlBlocked
  | AlReturned ntstatus
  | AlSecond
  | AlLeave ntstatus
  | AlLeaveSet

record alert_sys =
  ag :: alert_state
  apc :: "tid \<Rightarrow> al_pc"
  aret :: "tid \<Rightarrow> ntstatus"

definition al_init :: "alert_sys \<Rightarrow> bool" where
  "al_init c \<longleftrightarrow> (\<exists>g. ag c = LdkpInitializeAlertByThreadIdList g) \<and>
     (\<forall>t. al_ThreadRefs (ag c) t = 0) \<and> (\<forall>t. apc c t = AlIdle)"

inductive al_step :: "alert_sys \<Rightarrow> alert_sys \<Rightarrow> bool" where
  alert_call: "apc c k = AlIdle \<Longrightarrow>
    al_step c (c\<lparr>ag := al_ObReference t (ag c), apc := (apc c)(k := AlFirst t)\<rparr>)"
| alert_call_fails: "apc c k = AlIdle \<Longrightarrow> \<not> NT_SUCCESS st \<Longrightarrow>
    al_step c (c\<lparr>aret := (aret c)(k := st)\<rparr>)"
| alert_first_found: "apc c k = AlFirst t \<Longrightarrow>
    LdkpRemoveAlertByThreadIdWaiterLocked t (ag c) = (Some e, g) \<Longrightarrow>
    al_step c (c\<lparr>ag := al_ObDereference t g, apc := (apc c)(k := AlSet [e] False)\<rparr>)"
| alert_first_none: "apc c k = AlFirst t \<Longrightarrow>
    LdkpRemoveAlertByThreadIdWaiterLocked t (ag c) = (None, g) \<Longrightarrow>
    al_step c (c\<lparr>ag := g, apc := (apc c)(k := AlAlloc t)\<rparr>)"
| alert_alloc: "apc c k = AlAlloc t \<Longrightarrow>
    al_step c (c\<lparr>apc := (apc c)(k := AlInsert t)\<rparr>)"
| alert_alloc_fails: "apc c k = AlAlloc t \<Longrightarrow>
    al_step c (c\<lparr>apc := (apc c)(k := AlRetry t)\<rparr>)"
| alert_retry_found: "apc c k = AlRetry t \<Longrightarrow>
    LdkpRemoveAlertByThreadIdWaiterLocked t (ag c) = (Some e, g) \<Longrightarrow>
    al_step c (c\<lparr>ag := al_ObDereference t g, apc := (apc c)(k := AlSet [e] False)\<rparr>)"
| alert_retry_none: "apc c k = AlRetry t \<Longrightarrow>
    LdkpRemoveAlertByThreadIdWaiterLocked t (ag c) = (None, g) \<Longrightarrow>
    al_step c (c\<lparr>ag := al_ObDereference t g, apc := (apc c)(k := AlIdle),
                 aret := (aret c)(k := STATUS_INSUFFICIENT_RESOURCES)\<rparr>)"
| alert_insert_found: "apc c k = AlInsert t \<Longrightarrow>
    LdkpRemoveAlertByThreadIdWaiterLocked t (ag c) = (Some e, g) \<Longrightarrow>
    al_step c (c\<lparr>ag := al_ObDereference t g, apc := (apc c)(k := AlSet [e] False)\<rparr>)"
| alert_insert_dup: "apc c k = AlInsert t \<Longrightarrow>
    LdkpRemoveAlertByThreadIdWaiterLocked t (ag c) = (None, g) \<Longrightarrow>
    LdkpHasPendingAlertByThreadIdLocked t g \<Longrightarrow>
    al_step c (c\<lparr>ag := al_ObDereference t g, apc := (apc c)(k := AlIdle),
                 aret := (aret c)(k := STATUS_SUCCESS)\<rparr>)"
| alert_insert_new: "apc c k = AlInsert t \<Longrightarrow>
    LdkpRemoveAlertByThreadIdWaiterLocked t (ag c) = (None, g) \<Longrightarrow>
    \<not> LdkpHasPendingAlertByThreadIdLocked t g \<Longrightarrow>
    al_step c (c\<lparr>ag := g\<lparr>al_PendingListHead := al_PendingListHead g @ [t]\<rparr>,
                 apc := (apc c)(k := AlIdle), aret := (aret c)(k := STATUS_SUCCESS)\<rparr>)"
| wake_all: "apc c k = AlIdle \<Longrightarrow>
    al_step c (c\<lparr>apc := (apc c)(k := AlWakeCollect)\<rparr>)"
| wake_collect: "apc c k = AlWakeCollect \<Longrightarrow>
    LdkpCollectAlertByThreadIdEvents LDK_ALERT_BY_THREAD_ID_WAKE_BATCH (ag c) = (es, g) \<Longrightarrow>
    al_step c (c\<lparr>ag := g,
      apc := (apc c)(k := AlSet es (length es = LDK_ALERT_BY_THREAD_ID_WAKE_BATCH))\<rparr>)"
| set_event: "apc c k = AlSet (e # es) again \<Longrightarrow>
    al_step c (c\<lparr>ag := al_KeSetEvent e (ag c), apc := (apc c)(k := AlSet es again)\<rparr>)"
| set_done: "apc c k = AlSet [] again \<Longrightarrow>
    al_step c (c\<lparr>apc := (apc c)(k := if again then AlWakeCollect else AlIdle),
                 aret := (aret c)(k := STATUS_SUCCESS)\<rparr>)"
| shutdown: "apc c k = AlIdle \<Longrightarrow>
    al_step c (c\<lparr>ag := (ag c)\<lparr>al_ShuttingDown := True\<rparr>\<rparr>)"
| clear_pending: "apc c k = AlIdle \<Longrightarrow> al_ShuttingDown (ag c) \<Longrightarrow> al_DrainedEvent (ag c) \<Longrightarrow>
    al_step c (c\<lparr>ag := LdkpClearPendingAlertByThreadIdList (ag c)\<rparr>)"
| wait_refused: "apc c w = AlIdle \<Longrightarrow>
    NtWaitForAlertByThreadId_enter sd w (ag c) = (EnterReturns st, g) \<Longrightarrow>
    al_step c (c\<lparr>ag := g, aret := (aret c)(w := st)\<rparr>)"
| wait_pending: "apc c w = AlIdle \<Longrightarrow>
    NtWaitForAlertByThreadId_enter sd w (ag c) = (EnterAlerted, g) \<Longrightarrow>
    al_step c (c\<lparr>ag := g, apc := (apc c)(w := AlLeave STATUS_ALERTED)\<rparr>)"
| wait_blocks: "apc c w = AlIdle \<Longrightarrow>
    NtWaitForAlertByThreadId_enter sd w (ag c) = (EnterBlocks, g) \<Longrightarrow>
    al_step c (c\<lparr>ag := g, apc := (apc c)(w := AlBlocked)\<rparr>)"
| wait_satisfied: "apc c w = AlBlocked \<Longrightarrow> ae_Event (al_Entries (ag c) w) \<Longrightarrow>
    al_step c (c\<lparr>ag := al_ConsumeEvent w (ag c), apc := (apc c)(w := AlReturned STATUS_SUCCESS)\<rparr>)"
| wait_timeout: "apc c w = AlBlocked \<Longrightarrow>
    al_step c (c\<lparr>apc := (apc c)(w := AlReturned STATUS_TIMEOUT)\<rparr>)"
| relock: "apc c w = AlReturned st \<Longrightarrow>
    NtWaitForAlertByThreadId_relock w (ag c) = (woken, g) \<Longrightarrow>
    al_step c (c\<lparr>ag := g, apc := (apc c)(w :=
      if woken \<and> st \<noteq> STATUS_SUCCESS then AlSecond else AlLeave (al_wait_result st))\<rparr>)"
| second_wait: "apc c w = AlSecond \<Longrightarrow> ae_Event (al_Entries (ag c) w) \<Longrightarrow>
    al_step c (c\<lparr>ag := al_ConsumeEvent w (ag c),
                 apc := (apc c)(w := AlLeave (al_wait_result STATUS_SUCCESS))\<rparr>)"
| leave: "apc c w = AlLeave st \<Longrightarrow> al_decrement (ag c) = (zero, g) \<Longrightarrow>
    al_step c (c\<lparr>ag := g, apc := (apc c)(w := if zero then AlLeaveSet else AlIdle),
                 aret := (aret c)(w := st)\<rparr>)"
| leave_set: "apc c w = AlLeaveSet \<Longrightarrow>
    al_step c (c\<lparr>ag := al_set_drained (ag c), apc := (apc c)(w := AlIdle)\<rparr>)"

inductive_cases al_stepE: "al_step c d"

abbreviation al_reach :: "alert_sys \<Rightarrow> bool" where
  "al_reach \<equiv> reach al_init al_step"

lemmas al_reach_step = reach_step [of al_init al_step]

section \<open>Projection onto the hand-shake\<close>

fun al_wk_pc :: "al_pc \<Rightarrow> wk_pc" where
  "al_wk_pc AlBlocked = WkBlocked"
| "al_wk_pc (AlReturned st) = WkReturned (st = STATUS_SUCCESS)"
| "al_wk_pc AlSecond = WkSecond"
| "al_wk_pc (AlLeave st) = WkLeaving"
| "al_wk_pc _ = WkIdle"

fun al_owed :: "al_pc \<Rightarrow> tid list" where
  "al_owed (AlSet es again) = es"
| "al_owed _ = []"

definition al_proj :: "alert_sys \<Rightarrow> wk_state" where
  "al_proj c = \<lparr>wk_list = al_ListHead (ag c),
     wk_event = (\<lambda>t. ae_Event (al_Entries (ag c) t)),
     wk_inlist = (\<lambda>t. ae_InList (al_Entries (ag c) t)),
     wk_woken = (\<lambda>t. ae_Woken (al_Entries (ag c) t)),
     wk_at = (\<lambda>t. al_wk_pc (apc c t)),
     wk_owed = (\<lambda>t. al_owed (apc c t))\<rparr>"

lemmas al_region_defs =
  al_KeSetEvent_def al_ConsumeEvent_def al_ObReference_def al_ObDereference_def
  al_decrement_def al_set_drained_def LdkpReferenceAlertByThreadIdWait_def
  LdkpRemovePendingAlertByThreadIdLocked_def

text \<open>What the two searching regions do to the projected fields.\<close>

lemma al_remove_found:
  assumes "LdkpRemoveAlertByThreadIdWaiterLocked t s = (Some e, g)"
  shows "e \<in> set (al_ListHead s) \<and> ae_Thread (al_Entries s e) = t \<and>
    g = s\<lparr>al_ListHead := remove1 e (al_ListHead s), al_Entries := al_mark_woken [e] (al_Entries s)\<rparr>"
  using assms
  by (auto simp: LdkpRemoveAlertByThreadIdWaiterLocked_def split: option.splits
      dest: find_Some_in_set)

lemma al_remove_none:
  "LdkpRemoveAlertByThreadIdWaiterLocked t s = (None, g) \<Longrightarrow>
   g = s \<and> (\<forall>e\<in>set (al_ListHead s). ae_Thread (al_Entries s e) \<noteq> t)"
  by (auto simp: LdkpRemoveAlertByThreadIdWaiterLocked_def find_None_iff_all split: option.splits)

lemma al_collect:
  assumes "LdkpCollectAlertByThreadIdEvents n s = (es, g)" and "distinct (al_ListHead s)"
  shows "distinct es \<and> set es \<subseteq> set (al_ListHead s) \<and>
    g = s\<lparr>al_ListHead := filter (\<lambda>e. e \<notin> set es) (al_ListHead s),
          al_Entries := al_mark_woken es (al_Entries s)\<rparr>"
  using assms scan_collect_distinct [OF assms(2), of "\<lambda>_. True" True n]
    scan_collect_taken [of "\<lambda>_. True" True n "al_ListHead s"]
  by (auto simp: LdkpCollectAlertByThreadIdEvents_def split_beta)

lemma al_pick_step:
  assumes d: "distinct (al_ListHead (ag c))"
    and k: "al_wk_pc (apc c k) = WkIdle" "al_owed (apc c k) = []"
    and es: "distinct es" "set es \<subseteq> set (al_ListHead (ag c))"
    and g: "al_ListHead g = filter (\<lambda>e. e \<notin> set es) (al_ListHead (ag c))"
           "al_Entries g = al_mark_woken es (al_Entries (ag c))"
  shows "wk_step (al_proj c) (al_proj (c\<lparr>ag := g, apc := (apc c)(k := AlSet es again)\<rparr>))"
proof -
  have "al_proj (c\<lparr>ag := g, apc := (apc c)(k := AlSet es again)\<rparr>) =
    (al_proj c)\<lparr>wk_list := filter (\<lambda>e. e \<notin> set es) (wk_list (al_proj c)),
       wk_inlist := (\<lambda>t. if t \<in> set es then False else wk_inlist (al_proj c) t),
       wk_woken := (\<lambda>t. if t \<in> set es then True else wk_woken (al_proj c) t),
       wk_owed := (wk_owed (al_proj c))(k := es)\<rparr>"
    using k g by (auto simp: al_proj_def al_mark_woken_def fun_eq_iff)
  moreover have "wk_step (al_proj c) \<dots>"
    using k es by (intro wk_step.pick) (simp_all add: al_proj_def)
  ultimately show ?thesis by simp
qed

text \<open>The wait regions.\<close>

lemma al_enter_returns:
  "NtWaitForAlertByThreadId_enter sd w s = (EnterReturns st, g) \<Longrightarrow>
   g = s \<and> st = STATUS_DELETE_PENDING \<and> (al_ShuttingDown s \<or> sd)"
  by (auto simp: NtWaitForAlertByThreadId_enter_def Let_def split: if_splits prod.splits)

lemma al_enter_alerted:
  assumes "NtWaitForAlertByThreadId_enter sd w s = (EnterAlerted, g)"
  shows "al_ListHead g = al_ListHead s \<and> al_Entries g = al_Entries s \<and>
    \<not> al_ShuttingDown s \<and> (w \<in> set (al_PendingListHead s) \<or> al_TebPending s w) \<and>
    al_PendingListHead g = remove1 w (al_PendingListHead s) \<and>
    al_ThreadRefs g = (if w \<in> set (al_PendingListHead s)
       then (al_ThreadRefs s)(w := al_ThreadRefs s w - 1) else al_ThreadRefs s) \<and>
    al_WaitCount g = al_WaitCount s + 1 \<and>
    (al_DrainedEvent g \<longleftrightarrow> al_DrainedEvent s \<and> al_WaitCount s \<noteq> 0)"
  using assms
  by (auto simp: NtWaitForAlertByThreadId_enter_def al_region_defs Let_def remove1_idem
      split: if_splits)

lemma al_enter_blocks:
  assumes "NtWaitForAlertByThreadId_enter sd w s = (EnterBlocks, g)"
  shows "al_ListHead g = al_ListHead s @ [w] \<and>
    al_Entries g = (al_Entries s)(w := al_new_entry w) \<and>
    \<not> al_ShuttingDown s \<and> w \<notin> set (al_PendingListHead s) \<and>
    al_PendingListHead g = al_PendingListHead s \<and> al_ThreadRefs g = al_ThreadRefs s \<and>
    al_WaitCount g = al_WaitCount s + 1 \<and>
    (al_DrainedEvent g \<longleftrightarrow> al_DrainedEvent s \<and> al_WaitCount s \<noteq> 0)"
  using assms
  by (auto simp: NtWaitForAlertByThreadId_enter_def al_region_defs Let_def
      split: if_splits)

lemma al_clear_pending:
  "LdkpClearPendingAlertByThreadIdList s =
     s\<lparr>al_PendingListHead := [],
       al_ThreadRefs := (\<lambda>t. al_ThreadRefs s t - int (count_list (al_PendingListHead s) t))\<rparr>"
proof (induction s rule: LdkpClearPendingAlertByThreadIdList.induct)
  case (1 s)
  show ?case
  proof (cases "al_PendingListHead s")
    case Nil
    then show ?thesis by (subst LdkpClearPendingAlertByThreadIdList.simps) simp
  next
    case (Cons t ts)
    show ?thesis
      using "1.IH" [OF Cons] Cons
      by (subst LdkpClearPendingAlertByThreadIdList.simps)
        (auto simp: al_ObDereference_def fun_eq_iff intro!: alert_state.equality)
  qed
qed

lemma al_proj_step:
  assumes inv: "wk_inv (al_proj c)" and step: "al_step c d"
  shows "wk_step (al_proj c) (al_proj d) \<or> al_proj d = al_proj c"
proof -
  have dist: "distinct (al_ListHead (ag c))" using inv by (simp add: wk_inv_def al_proj_def)
  have found: "wk_step (al_proj c)
      (al_proj (c\<lparr>ag := al_ObDereference t g, apc := (apc c)(k := AlSet [e] False)\<rparr>))"
    if "LdkpRemoveAlertByThreadIdWaiterLocked t (ag c) = (Some e, g)"
      "al_wk_pc (apc c k) = WkIdle" "al_owed (apc c k) = []" for t e g k
    using al_remove_found [OF that(1)] dist that(2,3)
    by (intro al_pick_step) (auto simp: al_ObDereference_def remove1_filter_distinct)
  from step show ?thesis
  proof (cases rule: al_step.cases)
    case (alert_first_found k t e g)
    then show ?thesis using found [OF alert_first_found(3), of k] by simp
  next
    case (alert_retry_found k t e g)
    then show ?thesis using found [OF alert_retry_found(3), of k] by simp
  next
    case (alert_insert_found k t e g)
    then show ?thesis using found [OF alert_insert_found(3), of k] by simp
  next
    case (wake_collect k es g)
    then show ?thesis
      using al_collect [OF wake_collect(3) dist] dist al_pick_step [of c k es g] by auto
  next
    case (set_event k e es again)
    have "al_proj d = (al_proj c)\<lparr>wk_event := (wk_event (al_proj c))(e := True),
        wk_owed := (wk_owed (al_proj c))(k := es)\<rparr>"
      using set_event by (auto simp: al_proj_def al_KeSetEvent_def fun_eq_iff)
    then show ?thesis
      using wk_step.set_event [of "al_proj c" k e es] set_event by (simp add: al_proj_def)
  next
    case (wait_pending w sd g)
    have "al_proj d = (al_proj c)\<lparr>wk_at := (wk_at (al_proj c))(w := WkLeaving)\<rparr>"
      using wait_pending al_enter_alerted [OF wait_pending(3)]
      by (auto simp: al_proj_def fun_eq_iff)
    then show ?thesis
      using wk_step.no_wait [of "al_proj c" w] wait_pending by (simp add: al_proj_def)
  next
    case (wait_blocks w sd g)
    have "al_proj d = (al_proj c)\<lparr>wk_list := wk_list (al_proj c) @ [w],
        wk_event := (wk_event (al_proj c))(w := False),
        wk_inlist := (wk_inlist (al_proj c))(w := True),
        wk_woken := (wk_woken (al_proj c))(w := False),
        wk_at := (wk_at (al_proj c))(w := WkBlocked)\<rparr>"
      using wait_blocks al_enter_blocks [OF wait_blocks(3)]
      by (auto simp: al_proj_def al_new_entry_def fun_eq_iff)
    then show ?thesis
      using wk_step.enter [of "al_proj c" w] wait_blocks by (simp add: al_proj_def)
  next
    case (wait_satisfied w)
    have "al_proj d = (al_proj c)\<lparr>wk_event := (wk_event (al_proj c))(w := False),
        wk_at := (wk_at (al_proj c))(w := WkReturned True)\<rparr>"
      using wait_satisfied by (auto simp: al_proj_def al_ConsumeEvent_def fun_eq_iff)
    then show ?thesis
      using wk_step.satisfied [of "al_proj c" w] wait_satisfied by (simp add: al_proj_def)
  next
    case (wait_timeout w)
    have "al_proj d = (al_proj c)\<lparr>wk_at := (wk_at (al_proj c))(w := WkReturned False)\<rparr>"
      using wait_timeout by (auto simp: al_proj_def fun_eq_iff)
    then show ?thesis
      using wk_step.timeout [of "al_proj c" w] wait_timeout by (simp add: al_proj_def)
  next
    case (relock w st woken g)
    have "al_proj d = (al_proj c)\<lparr>
        wk_list := (if wk_inlist (al_proj c) w then remove1 w (wk_list (al_proj c))
                    else wk_list (al_proj c)),
        wk_inlist := (wk_inlist (al_proj c))(w := False),
        wk_at := (wk_at (al_proj c))(w := if wk_woken (al_proj c) w \<and> st \<noteq> STATUS_SUCCESS
                                          then WkSecond else WkLeaving)\<rparr>"
      using relock
      by (auto simp: al_proj_def NtWaitForAlertByThreadId_relock_def fun_eq_iff split: if_splits)
    then show ?thesis
      using wk_step.relock [of "al_proj c" w "st = STATUS_SUCCESS"] relock
      by (simp add: al_proj_def)
  next
    case (second_wait w)
    have "al_proj d = (al_proj c)\<lparr>wk_event := (wk_event (al_proj c))(w := False),
        wk_at := (wk_at (al_proj c))(w := WkLeaving)\<rparr>"
      using second_wait by (auto simp: al_proj_def al_ConsumeEvent_def fun_eq_iff)
    then show ?thesis
      using wk_step.second [of "al_proj c" w] second_wait by (simp add: al_proj_def)
  next
    case (leave w st zero g)
    have "al_proj d = (al_proj c)\<lparr>wk_at := (wk_at (al_proj c))(w := WkIdle)\<rparr>"
      using leave by (auto simp: al_proj_def al_decrement_def Let_def fun_eq_iff)
    then show ?thesis
      using wk_step.leave [of "al_proj c" w] leave by (simp add: al_proj_def)
  qed (auto simp: al_proj_def al_region_defs al_clear_pending fun_eq_iff
        dest: al_remove_none al_enter_returns)
qed

interpretation al: wake_refinement al_proj al_init al_step
proof
  fix c
  assume "al_init c"
  then show "wk_init (al_proj c)"
    by (auto simp: al_init_def wk_init_def al_proj_def LdkpInitializeAlertByThreadIdList_def)
qed (rule al_proj_step)

section \<open>Accounting for references and active waits\<close>

fun al_holds :: "tid \<Rightarrow> al_pc \<Rightarrow> bool" where
  "al_holds t (AlFirst u) \<longleftrightarrow> t = u"
| "al_holds t (AlAlloc u) \<longleftrightarrow> t = u"
| "al_holds t (AlRetry u) \<longleftrightarrow> t = u"
| "al_holds t (AlInsert u) \<longleftrightarrow> t = u"
| "al_holds t _ \<longleftrightarrow> False"

fun al_counted :: "al_pc \<Rightarrow> bool" where
  "al_counted AlBlocked \<longleftrightarrow> True"
| "al_counted (AlReturned st) \<longleftrightarrow> True"
| "al_counted AlSecond \<longleftrightarrow> True"
| "al_counted (AlLeave st) \<longleftrightarrow> True"
| "al_counted _ \<longleftrightarrow> False"

definition al_acc :: "alert_sys \<Rightarrow> bool" where
  "al_acc c \<longleftrightarrow> finite_at (\<lambda>p. p \<noteq> AlIdle) (apc c) \<and> distinct (al_PendingListHead (ag c)) \<and>
     (\<forall>t. al_ThreadRefs (ag c) t =
        int (count_list (al_PendingListHead (ag c)) t) + count_at (al_holds t) (apc c)) \<and>
     al_WaitCount (ag c) = count_at al_counted (apc c) \<and>
     (al_DrainedEvent (ag c) \<or> 0 < al_WaitCount (ag c) \<or>
       0 < count_at (\<lambda>p. p = AlLeaveSet) (apc c))"

lemma count_list_remove1:
  "distinct xs \<Longrightarrow> count_list (remove1 x xs) y = (if y = x then 0 else count_list xs y)"
  by (induction xs) (auto simp: count_list_0_iff)

lemma count_list_distinct_mem: "distinct xs \<Longrightarrow> count_list xs y = (if y \<in> set xs then 1 else 0)"
  by (induction xs) auto

lemma al_acc_init: "al_init c \<Longrightarrow> al_acc c"
  by (auto simp: al_init_def al_acc_def LdkpInitializeAlertByThreadIdList_def
      intro!: finite_at_none count_at_none)

lemma al_acc_step:
  assumes acc: "al_acc c" and step: "al_step c d"
  shows "al_acc d"
proof -
  note fin = acc [unfolded al_acc_def, THEN conjunct1]
  have fh: "finite_at (al_holds t) (apc c)" for t by (rule finite_at_mono [OF fin]) auto
  have fc: "finite_at al_counted (apc c)" by (rule finite_at_mono [OF fin]) auto
  have fl: "finite_at (\<lambda>p. p = AlLeaveSet) (apc c)" by (rule finite_at_mono [OF fin]) auto
  have upd: "count_at (al_holds t) ((apc c)(i := v)) = count_at (al_holds t) (apc c)
        - (if al_holds t (apc c i) then 1 else 0) + (if al_holds t v then 1 else 0)"
      "count_at al_counted ((apc c)(i := v)) = count_at al_counted (apc c)
        - (if al_counted (apc c i) then 1 else 0) + (if al_counted v then 1 else 0)"
      "count_at (\<lambda>p. p = AlLeaveSet) ((apc c)(i := v)) = count_at (\<lambda>p. p = AlLeaveSet) (apc c)
        - (if apc c i = AlLeaveSet then 1 else 0) + (if v = AlLeaveSet then 1 else 0)" for t i v
    by (simp_all add: count_at_upd fh fc fl)
  have pos: "0 \<le> count_at P (apc c)" for P by simp
  have cnn: "0 \<le> al_WaitCount (ag c)" using acc by (simp add: al_acc_def)
  from step show ?thesis
  proof (cases rule: al_step.cases)
    case (wait_pending w sd g)
    then show ?thesis
      using acc al_enter_alerted [OF wait_pending(3)] cnn pos [of "\<lambda>p. p = AlLeaveSet"]
      by (auto simp: al_acc_def upd count_list_remove1 count_list_distinct_mem)
  next
    case (wait_blocks w sd g)
    then show ?thesis
      using acc al_enter_blocks [OF wait_blocks(3)] cnn by (auto simp: al_acc_def upd)
  next
    case (wake_collect k es g)
    then show ?thesis
      using acc
      by (auto simp: al_acc_def upd LdkpCollectAlertByThreadIdEvents_def split_beta)
  qed (use acc pos [of al_counted] pos [of "\<lambda>p. p = AlLeaveSet"] in \<open>auto simp: al_acc_def upd al_region_defs al_clear_pending
        LdkpHasPendingAlertByThreadIdLocked_def NtWaitForAlertByThreadId_relock_def
        dest!: al_remove_found al_remove_none al_enter_returns\<close>)
qed

lemma al_reach_acc: "al_reach c \<Longrightarrow> al_acc c"
  by (induction rule: reach_induct) (auto intro: al_acc_init al_acc_step)

section \<open>Example runs\<close>

text \<open>Concrete runs that the witnesses use: from the initial state, thread 1 blocks and thread 2
  alerts it.\<close>

definition al_c0 :: alert_sys where
  "al_c0 = \<lparr>ag = LdkpInitializeAlertByThreadIdList
       \<lparr>al_ListHead = [], al_Entries = (\<lambda>_. al_new_entry 0), al_PendingListHead = [],
        al_DrainedEvent = True, al_WaitCount = 0, al_ShuttingDown = False,
        al_TebPending = (\<lambda>_. False), al_ThreadRefs = (\<lambda>_. 0)\<rparr>,
     apc = (\<lambda>_. AlIdle), aret = (\<lambda>_. STATUS_SUCCESS)\<rparr>"

lemmas al_run_defs = al_c0_def LdkpInitializeAlertByThreadIdList_def
  NtWaitForAlertByThreadId_enter_def NtWaitForAlertByThreadId_relock_def al_region_defs
  LdkpRemoveAlertByThreadIdWaiterLocked_def LdkpHasPendingAlertByThreadIdLocked_def
  al_mark_woken_def al_new_entry_def al_wait_result_def Let_def

lemma al_c0_reach: "al_reach al_c0"
proof (rule reach_init)
  have "al_ThreadRefs (ag al_c0) t = 0" for t
    by (simp add: al_c0_def LdkpInitializeAlertByThreadIdList_def)
  moreover have "\<exists>g. ag al_c0 = LdkpInitializeAlertByThreadIdList g"
    unfolding al_c0_def by (rule exI) simp
  ultimately show "al_init al_c0" by (simp add: al_init_def) (simp add: al_c0_def)
qed

lemma al_run_blocked:
  "\<exists>c. al_reach c \<and> apc c = (\<lambda>_. AlIdle)(1 := AlBlocked) \<and> al_ListHead (ag c) = [1] \<and>
     al_Entries (ag c) 1 = al_new_entry 1 \<and> al_PendingListHead (ag c) = [] \<and>
     al_WaitCount (ag c) = 1 \<and> \<not> al_DrainedEvent (ag c) \<and> \<not> al_ShuttingDown (ag c) \<and>
     al_TebPending (ag c) = (\<lambda>_. False)"
  by (rule exI, rule conjI, rule al_reach_step [OF al_c0_reach],
      rule al_step.wait_blocks [of al_c0 1 False]) (auto simp: al_run_defs)

lemma al_run_picked:
  "\<exists>c. al_reach c \<and> apc c = (\<lambda>_. AlIdle)(1 := AlBlocked, 2 := AlSet [1] False)"
proof -
  obtain c where c: "al_reach c" "apc c = (\<lambda>_. AlIdle)(1 := AlBlocked)" "al_ListHead (ag c) = [1]"
      "al_Entries (ag c) 1 = al_new_entry 1"
    using al_run_blocked by blast
  let ?c1 = "c\<lparr>ag := al_ObReference 1 (ag c), apc := (apc c)(2 := AlFirst 1)\<rparr>"
  have r1: "al_reach ?c1"
    by (rule al_reach_step [OF c(1)], rule al_step.alert_call) (simp add: c)
  obtain g where g: "LdkpRemoveAlertByThreadIdWaiterLocked 1 (ag ?c1) = (Some 1, g)"
    using c by (auto simp: al_run_defs)
  have "al_reach (?c1\<lparr>ag := al_ObDereference 1 g, apc := (apc ?c1)(2 := AlSet [1] False)\<rparr>)"
    by (rule al_reach_step [OF r1], rule al_step.alert_first_found [OF _ g]) simp
  then show ?thesis using c(2) by (auto intro!: exI)
qed

section \<open>Life time of the stack events\<close>

text \<open>C1: an event that a waker is about to set lies in the stack frame of a thread that is still
  inside \<open>NtWaitForAlertByThreadId\<close>, before it has seen the event; and no other waker holds the
  same event. So \<open>KeSetEvent\<close> never writes to a frame that has been left, whatever the
  interleaving of alerts, timeouts and wake-all calls.\<close>

theorem alert_event_frame_alive:
  assumes "al_reach c" and "apc c k = AlSet es again" and "e \<in> set es"
  shows "(apc c e = AlBlocked \<or> (\<exists>st. apc c e = AlReturned st \<and> st \<noteq> STATUS_SUCCESS) \<or>
      apc c e = AlSecond) \<and>
    (\<forall>j es' again'. apc c j = AlSet es' again' \<longrightarrow> e \<in> set es' \<longrightarrow> j = k)"
proof -
  have "wk_in_wait (al_wk_pc (apc c e)) \<and> (\<forall>j. e \<in> set (al_owed (apc c j)) \<longrightarrow> j = k)"
    using al.frame_alive [OF assms(1), of e k] assms(2,3) by (simp add: al_proj_def)
  then show ?thesis
    by (cases "apc c e") (auto simp: wk_in_wait_def)
qed

theorem alert_event_frame_alive_witness:
  "\<exists>c. al_reach c \<and> apc c 2 = AlSet [1] False \<and> apc c 1 = AlBlocked \<and>
     (\<forall>j es' again'. apc c j = AlSet es' again' \<longrightarrow> 1 \<in> set es' \<longrightarrow> j = 2)"
proof -
  obtain c where c: "al_reach c" "apc c = (\<lambda>_. AlIdle)(1 := AlBlocked, 2 := AlSet [1] False)"
    using al_run_picked by blast
  then have "apc c 2 = AlSet [1] False" "apc c 1 = AlBlocked" by simp_all
  with alert_event_frame_alive [OF c(1) this(1), of 1] c(1) show ?thesis by auto
qed

text \<open>the second wait, which has no timeout, is never a wait for nothing. A thread that
  waits again because it was marked woken has its event set already, or some waker still has that
  event in its array and is about to set it.\<close>

theorem alert_second_wait_served:
  assumes "al_reach c" and "apc c w = AlSecond"
  shows "ae_Event (al_Entries (ag c) w) \<or> (\<exists>k es again. apc c k = AlSet es again \<and> w \<in> set es)"
proof -
  have "ae_Event (al_Entries (ag c) w) \<or> (\<exists>k. w \<in> set (al_owed (apc c k)))"
    using al.second_wait_served [OF assms(1), of w] assms(2) by (auto simp: al_proj_def)
  then show ?thesis
  proof
    assume "\<exists>k. w \<in> set (al_owed (apc c k))"
    then obtain k where "w \<in> set (al_owed (apc c k))" by blast
    then show ?thesis by (cases "apc c k") auto
  qed simp
qed

lemma al_run_second:
  "\<exists>c. al_reach c \<and> apc c = (\<lambda>_. AlIdle)(1 := AlSecond, 2 := AlSet [1] False)"
proof -
  obtain c where c: "al_reach c" "apc c = (\<lambda>_. AlIdle)(1 := AlBlocked, 2 := AlSet [1] False)"
    using al_run_picked by blast
  let ?c1 = "c\<lparr>apc := (apc c)(1 := AlReturned STATUS_TIMEOUT)\<rparr>"
  have r1: "al_reach ?c1"
    by (rule al_reach_step [OF c(1)], rule al_step.wait_timeout) (simp add: c)
  have "wk_picked (al_proj c) 1"
    using wk_ok_owed [OF wk_inv_okD [OF al.reach_inv [OF c(1)]], of 1 2] c(2)
    by (simp add: al_proj_def)
  then have w: "ae_Woken (al_Entries (ag ?c1) 1)" by (simp add: wk_picked_def al_proj_def)
  obtain g where g: "NtWaitForAlertByThreadId_relock 1 (ag ?c1) = (True, g)"
    using w by (auto simp: NtWaitForAlertByThreadId_relock_def)
  have "al_reach (?c1\<lparr>ag := g, apc := (apc ?c1)(1 :=
      if True \<and> STATUS_TIMEOUT \<noteq> STATUS_SUCCESS then AlSecond
      else AlLeave (al_wait_result STATUS_TIMEOUT))\<rparr>)"
    by (rule al_reach_step [OF r1], rule al_step.relock [OF _ g]) simp
  then show ?thesis using c(2) by (fastforce simp: fun_upd_twist)
qed

theorem alert_second_wait_served_witness:
  "\<exists>c. al_reach c \<and> apc c 1 = AlSecond \<and>
     (ae_Event (al_Entries (ag c) 1) \<or> (\<exists>k es again. apc c k = AlSet es again \<and> 1 \<in> set es))"
proof -
  obtain c where "al_reach c" "apc c = (\<lambda>_. AlIdle)(1 := AlSecond, 2 := AlSet [1] False)"
    using al_run_second by blast
  then have "al_reach c" "apc c 1 = AlSecond" by simp_all
  then show ?thesis using alert_second_wait_served [of c 1] by blast
qed

section \<open>References and the drained event\<close>

text \<open>no reference of a thread object leaks. In every reachable state the references the
  alert code holds on a thread are the pending alerts for it plus the alert calls on it that are
  under way, and a thread has at most one pending alert.\<close>

theorem alert_thread_references:
  assumes "al_reach c"
  shows "distinct (al_PendingListHead (ag c)) \<and>
    al_ThreadRefs (ag c) t = int (count_list (al_PendingListHead (ag c)) t) +
      int (card {k. al_holds t (apc c k)})"
  using al_reach_acc [OF assms] by (simp add: al_acc_def count_at_def)

theorem alert_thread_references_witness:
  "\<exists>c. al_reach c \<and> al_ThreadRefs (ag c) 5 = int (count_list (al_PendingListHead (ag c)) 5) +
      int (card {k. al_holds 5 (apc c k)}) \<and> apc c 2 = AlFirst 5"
proof -
  let ?c = "al_c0\<lparr>ag := al_ObReference 5 (ag al_c0), apc := (apc al_c0)(2 := AlFirst 5)\<rparr>"
  have "al_reach ?c"
    by (rule al_reach_step [OF al_c0_reach], rule al_step.alert_call) (simp add: al_c0_def)
  with alert_thread_references [OF this, of 5] show ?thesis by (intro exI [of _ ?c]) simp
qed

text \<open>shutdown does not hang on a lost count. The count of active waits is the number of
  threads that are inside a wait and have not dropped it, and as long as the drained event is not
  set there is a thread that will set it: one that is still counted, or one that has taken the
  count to zero and is about to set the event.\<close>

theorem alert_drain_makes_progress:
  assumes "al_reach c"
  shows "al_WaitCount (ag c) = int (card {w. al_counted (apc c w)}) \<and>
    (al_DrainedEvent (ag c) \<or> (\<exists>w. al_counted (apc c w) \<or> apc c w = AlLeaveSet))"
proof -
  have acc: "al_acc c" by (rule al_reach_acc [OF assms])
  then have "finite_at al_counted (apc c)" "finite_at (\<lambda>p. p = AlLeaveSet) (apc c)"
    by (auto simp: al_acc_def elim: finite_at_mono)
  then show ?thesis
    using acc count_at_0 [of al_counted "apc c"] count_at_0 [of "\<lambda>p. p = AlLeaveSet" "apc c"]
    by (auto simp: al_acc_def count_at_def)
qed

theorem alert_drain_makes_progress_witness:
  "\<exists>c. al_reach c \<and> \<not> al_DrainedEvent (ag c) \<and>
     (\<exists>w. al_counted (apc c w) \<or> apc c w = AlLeaveSet)"
  using al_run_blocked alert_drain_makes_progress by blast

text \<open>the drained event can be set while a wait is active. Thread 1 takes the count to zero
  outside the list lock; before it sets the event, thread 2 starts a wait, which counts it and
  clears the event; then thread 1 sets the event. In the state reached the count is one and thread
  2 is blocked inside the wait, yet the shutdown routine, which waits for this event before the
  lists are torn down, runs to its end.\<close>

theorem alert_drain_race:
  "\<exists>c g. al_reach c \<and> al_WaitCount (ag c) = 1 \<and> apc c 2 = AlBlocked \<and>
     LdkpTerminateAlertByThreadIdList (ag c) = Some g"
proof -
  obtain c where c: "al_reach c" "apc c = (\<lambda>_. AlIdle)(1 := AlBlocked)" "al_ListHead (ag c) = [1]"
      "al_Entries (ag c) 1 = al_new_entry 1" "al_PendingListHead (ag c) = []"
      "al_WaitCount (ag c) = 1" "\<not> al_DrainedEvent (ag c)" "\<not> al_ShuttingDown (ag c)"
      "al_TebPending (ag c) = (\<lambda>_. False)"
    using al_run_blocked by blast
  let ?c1 = "c\<lparr>apc := (apc c)(1 := AlReturned STATUS_TIMEOUT)\<rparr>"
  have r1: "al_reach ?c1"
    by (rule al_reach_step [OF c(1)], rule al_step.wait_timeout) (simp add: c)
  let ?g2 = "snd (NtWaitForAlertByThreadId_relock 1 (ag ?c1))"
  let ?c2 = "?c1\<lparr>ag := ?g2, apc := (apc ?c1)(1 := AlLeave STATUS_TIMEOUT)\<rparr>"
  have r2: "al_reach ?c2"
    using al_reach_step [OF r1 al_step.relock [of ?c1 1 STATUS_TIMEOUT False ?g2]] c
    by (simp add: NtWaitForAlertByThreadId_relock_def al_new_entry_def al_wait_result_def)
  let ?g3 = "snd (al_decrement (ag ?c2))"
  let ?c3 = "?c2\<lparr>ag := ?g3, apc := (apc ?c2)(1 := AlLeaveSet),
      aret := (aret ?c2)(1 := STATUS_TIMEOUT)\<rparr>"
  have r3: "al_reach ?c3"
    using al_reach_step [OF r2 al_step.leave [of ?c2 1 STATUS_TIMEOUT True ?g3]] c
    by (simp add: al_decrement_def NtWaitForAlertByThreadId_relock_def al_new_entry_def)
  let ?g4 = "snd (NtWaitForAlertByThreadId_enter False 2 (ag ?c3))"
  let ?c4 = "?c3\<lparr>ag := ?g4, apc := (apc ?c3)(2 := AlBlocked)\<rparr>"
  have e4: "NtWaitForAlertByThreadId_enter False 2 (ag ?c3) = (EnterBlocks, ?g4)"
    using c by (simp add: al_run_defs)
  have r4: "al_reach ?c4"
    by (rule al_reach_step [OF r3], rule al_step.wait_blocks [OF _ e4]) (simp add: c)
  let ?c5 = "?c4\<lparr>ag := al_set_drained (ag ?c4), apc := (apc ?c4)(1 := AlIdle)\<rparr>"
  have r5: "al_reach ?c5"
    by (rule al_reach_step [OF r4], rule al_step.leave_set) simp
  have w5: "al_WaitCount (ag ?c5) = 1" "al_DrainedEvent (ag ?c5)" "apc ?c5 2 = AlBlocked"
    using c by (simp_all add: al_run_defs)
  let ?s = "(ag ?c5)\<lparr>al_ShuttingDown := True\<rparr>"
  obtain g where g: "LdkpWakeAllAlertByThreadIdWaiters ?s = Some g" "al_DrainedEvent g"
  proof -
    have l: "al_ListHead ?s = [2]" using c by (simp add: al_run_defs)
    have d: "al_DrainedEvent ?s" using w5 by simp
    show thesis
      using that l d unfolding LdkpWakeAllAlertByThreadIdWaiters_def
      by (subst (asm) batch_loop.simps)
        (simp add: LdkpCollectAlertByThreadIdEvents_def al_set_events)
  qed
  show ?thesis
    using r5 w5 g by (intro exI [of _ ?c5] exI) (simp add: LdkpTerminateAlertByThreadIdList_def)
qed

end
