(* ===== verification/ConditionVariable.thy ===== *)
theory ConditionVariable
  imports WaitList WakeProtocol
begin

text \<open>
  The condition variables (src/ntdll/cond.c). All condition variables share one wait list; a
  sleeper's wait block lives on its own stack and names the variable it sleeps on, so a block is
  addressed by the sleeping thread. First the routines under the list lock and the two wake
  calls, then the machine of interleaved sleeps and wakes, which projects onto the hand-shake of
  theory WakeProtocol. The caller's lock (a critical section or a slim lock in one of its two
  modes) is released and taken again through calls that the machine records in a log.
\<close>

section \<open>State and routines\<close>

record cv_block =
  cb_ConditionVariable :: addr
  cb_Event :: bool
  cb_InList :: bool
  cb_Woken :: bool

record cv_state =
  cv_WaitList :: "tid list"
  cv_Blocks :: "tid \<Rightarrow> cv_block"

abbreviation LDK_CONDITION_VARIABLE_WAKE_BATCH :: nat where
  "LDK_CONDITION_VARIABLE_WAKE_BATCH \<equiv> 64"

definition cv_mark_woken :: "tid list \<Rightarrow> (tid \<Rightarrow> cv_block) \<Rightarrow> tid \<Rightarrow> cv_block" where
  "cv_mark_woken ws bs =
     (\<lambda>t. if t \<in> set ws then (bs t)\<lparr>cb_InList := False, cb_Woken := True\<rparr> else bs t)"

definition LdkpCollectConditionVariableWaiters ::
  "addr \<Rightarrow> bool \<Rightarrow> nat \<Rightarrow> cv_state \<Rightarrow> tid list \<times> cv_state" where
  "LdkpCollectConditionVariableWaiters cv WakeAll WaiterCount s =
     (let (ws, rest) = scan_collect (\<lambda>t. cb_ConditionVariable (cv_Blocks s t) = cv)
                         WakeAll WaiterCount (cv_WaitList s)
      in (ws, s\<lparr>cv_WaitList := rest, cv_Blocks := cv_mark_woken ws (cv_Blocks s)\<rparr>))"

definition cv_KeSetEvent :: "tid \<Rightarrow> cv_state \<Rightarrow> cv_state" where
  "cv_KeSetEvent t s = s\<lparr>cv_Blocks := (cv_Blocks s)(t := (cv_Blocks s t)\<lparr>cb_Event := True\<rparr>)\<rparr>"

fun LdkpWakeConditionVariableWaiters :: "tid list \<Rightarrow> cv_state \<Rightarrow> cv_state" where
  "LdkpWakeConditionVariableWaiters [] s = s"
| "LdkpWakeConditionVariableWaiters (t # ts) s =
     LdkpWakeConditionVariableWaiters ts (cv_KeSetEvent t s)"

definition RtlWakeConditionVariable :: "addr \<Rightarrow> cv_state \<Rightarrow> cv_state" where
  "RtlWakeConditionVariable cv s =
     (if cv = NULL then s
      else let (ws, s1) = LdkpCollectConditionVariableWaiters cv False 1 s
           in LdkpWakeConditionVariableWaiters ws s1)"

definition RtlWakeAllConditionVariable :: "addr \<Rightarrow> cv_state \<Rightarrow> cv_state option" where
  "RtlWakeAllConditionVariable cv s =
     (if cv = NULL then Some s
      else batch_loop
        (LdkpCollectConditionVariableWaiters cv True LDK_CONDITION_VARIABLE_WAKE_BATCH)
        LdkpWakeConditionVariableWaiters LDK_CONDITION_VARIABLE_WAKE_BATCH s)"

text \<open>The lock a sleep releases, and the argument checks of the two entry points.\<close>

datatype cv_lock = CvCriticalSection addr | CvSrwShared addr | CvSrwExclusive addr

abbreviation RTL_CONDITION_VARIABLE_LOCKMODE_SHARED :: u32 where
  "RTL_CONDITION_VARIABLE_LOCKMODE_SHARED \<equiv> 1"

definition cv_lock_of :: "addr \<Rightarrow> addr \<Rightarrow> u32 \<Rightarrow> cv_lock" where
  "cv_lock_of CriticalSection SRWLock Flags =
     (if CriticalSection \<noteq> NULL then CvCriticalSection CriticalSection
      else if Flags AND RTL_CONDITION_VARIABLE_LOCKMODE_SHARED \<noteq> 0 then CvSrwShared SRWLock
      else CvSrwExclusive SRWLock)"

definition RtlSleepConditionVariableCS :: "addr \<Rightarrow> addr \<Rightarrow> ntstatus + cv_lock" where
  "RtlSleepConditionVariableCS cv CriticalSection =
     (if cv = NULL \<or> CriticalSection = NULL then Inl STATUS_INVALID_PARAMETER
      else Inr (cv_lock_of CriticalSection NULL 0))"

definition RtlSleepConditionVariableSRW :: "addr \<Rightarrow> addr \<Rightarrow> u32 \<Rightarrow> ntstatus + cv_lock" where
  "RtlSleepConditionVariableSRW cv SRWLock Flags =
     (if cv = NULL \<or> SRWLock = NULL then Inl STATUS_INVALID_PARAMETER
      else Inr (cv_lock_of NULL SRWLock Flags))"

text \<open>The two lock regions of a sleep: linking a fresh block, and the look at it after the wait.\<close>

definition cv_sleep_link :: "addr \<Rightarrow> tid \<Rightarrow> cv_state \<Rightarrow> cv_state" where
  "cv_sleep_link cv t s =
     s\<lparr>cv_Blocks := (cv_Blocks s)(t := \<lparr>cb_ConditionVariable = cv, cb_Event = False,
                                       cb_InList = True, cb_Woken = False\<rparr>),
       cv_WaitList := cv_WaitList s @ [t]\<rparr>"

definition cv_sleep_relock :: "tid \<Rightarrow> cv_state \<Rightarrow> bool \<times> cv_state" where
  "cv_sleep_relock t s =
     (cb_Woken (cv_Blocks s t),
      if cb_InList (cv_Blocks s t)
      then s\<lparr>cv_Blocks := (cv_Blocks s)(t := (cv_Blocks s t)\<lparr>cb_InList := False\<rparr>),
             cv_WaitList := remove1 t (cv_WaitList s)\<rparr>
      else s)"

section \<open>The wake calls without interference\<close>

lemma cv_wake_waiters:
  "LdkpWakeConditionVariableWaiters ws s =
     s\<lparr>cv_Blocks := (\<lambda>t. if t \<in> set ws then (cv_Blocks s t)\<lparr>cb_Event := True\<rparr> else cv_Blocks s t)\<rparr>"
proof (induction ws s rule: LdkpWakeConditionVariableWaiters.induct)
  case (2 t ts s)
  then show ?case by (auto simp: cv_KeSetEvent_def fun_eq_iff intro!: cv_state.equality)
qed simp

definition cv_sleeps_on :: "addr \<Rightarrow> cv_state \<Rightarrow> tid \<Rightarrow> bool" where
  "cv_sleeps_on cv s t \<longleftrightarrow> cb_ConditionVariable (cv_Blocks s t) = cv"

definition cv_delivered :: "cv_state \<Rightarrow> tid \<Rightarrow> bool" where
  "cv_delivered s t \<longleftrightarrow> cb_Event (cv_Blocks s t) \<and> cb_Woken (cv_Blocks s t) \<and>
     \<not> cb_InList (cv_Blocks s t)"

interpretation cv_batch: batch_source cv_WaitList "cv_sleeps_on cv"
    "LdkpCollectConditionVariableWaiters cv True LDK_CONDITION_VARIABLE_WAKE_BATCH"
    LdkpWakeConditionVariableWaiters LDK_CONDITION_VARIABLE_WAKE_BATCH "\<lambda>_. True" cv_delivered
  for cv
proof
  fix s b s1
  assume c: "LdkpCollectConditionVariableWaiters cv True LDK_CONDITION_VARIABLE_WAKE_BATCH s = (b, s1)"
  let ?n = "LDK_CONDITION_VARIABLE_WAKE_BATCH"
  have sl: "cv_sleeps_on cv s = (\<lambda>t. cb_ConditionVariable (cv_Blocks s t) = cv)"
    by (simp add: cv_sleeps_on_def fun_eq_iff)
  have b: "b = fst (scan_collect (cv_sleeps_on cv s) True ?n (cv_WaitList s))"
    and q: "cv_WaitList s1 = snd (scan_collect (cv_sleeps_on cv s) True ?n (cv_WaitList s))"
    and e: "cv_Blocks s1 = cv_mark_woken b (cv_Blocks s)"
    using c by (auto simp: LdkpCollectConditionVariableWaiters_def sl split_beta)
  show "b = take ?n (filter (cv_sleeps_on cv s) (cv_WaitList s))"
    unfolding b by (rule scan_collect_all)
  show "filter (cv_sleeps_on cv s) (cv_WaitList s1) =
        drop ?n (filter (cv_sleeps_on cv s) (cv_WaitList s)) \<and>
      filter (\<lambda>x. \<not> cv_sleeps_on cv s x) (cv_WaitList s1) =
        filter (\<lambda>x. \<not> cv_sleeps_on cv s x) (cv_WaitList s)"
    unfolding q by (simp add: scan_collect_all_rest scan_collect_rest_unmatched)
  show "cv_sleeps_on cv s1 = cv_sleeps_on cv s"
    by (auto simp: cv_sleeps_on_def e cv_mark_woken_def fun_eq_iff)
  show "cv_delivered s1 x" if "cv_delivered s x" for x
    using that by (simp add: cv_delivered_def e cv_mark_woken_def)
  show "cv_delivered (LdkpWakeConditionVariableWaiters b s1) x" if "x \<in> set b" for x
    using that by (simp add: cv_delivered_def e cv_mark_woken_def cv_wake_waiters)
qed (auto simp: cv_wake_waiters cv_delivered_def cv_sleeps_on_def fun_eq_iff)

text \<open>waking all sleepers of a condition variable returns; every sleeper on that variable has
  been unlinked, marked woken and signalled, and the sleepers on other variables are still linked,
  in the same order.\<close>

theorem wake_all_condition_variable:
  assumes "cv \<noteq> NULL"
  shows "\<exists>s'. RtlWakeAllConditionVariable cv s = Some s' \<and>
    cv_WaitList s' = filter (\<lambda>t. cb_ConditionVariable (cv_Blocks s t) \<noteq> cv) (cv_WaitList s) \<and>
    (\<forall>t. t \<in> set (cv_WaitList s) \<and> cb_ConditionVariable (cv_Blocks s t) = cv \<longrightarrow>
       cb_Event (cv_Blocks s' t) \<and> cb_Woken (cv_Blocks s' t) \<and> \<not> cb_InList (cv_Blocks s' t))"
  using cv_batch.batch_loop_drains [where s = s and cv = cv] assms
  unfolding RtlWakeAllConditionVariable_def by (auto simp: cv_sleeps_on_def cv_delivered_def)

definition cv_demo :: cv_state where
  "cv_demo = cv_sleep_link 8 3 (cv_sleep_link 16 2 (cv_sleep_link 8 1
     \<lparr>cv_WaitList = [], cv_Blocks = (\<lambda>_. \<lparr>cb_ConditionVariable = 0, cb_Event = False,
        cb_InList = False, cb_Woken = False\<rparr>)\<rparr>))"

theorem wake_all_condition_variable_witness:
  "\<exists>s'. RtlWakeAllConditionVariable 8 cv_demo = Some s' \<and> cv_WaitList s' = [2] \<and>
     cb_Event (cv_Blocks s' 1) \<and> cb_Event (cv_Blocks s' 3)"
proof -
  have "cv_WaitList cv_demo = [1, 2, 3]" "cb_ConditionVariable (cv_Blocks cv_demo 1) = 8"
    "cb_ConditionVariable (cv_Blocks cv_demo 2) = 16" "cb_ConditionVariable (cv_Blocks cv_demo 3) = 8"
    by (simp_all add: cv_demo_def cv_sleep_link_def)
  then show ?thesis using wake_all_condition_variable [of 8 cv_demo] by auto
qed

text \<open>waking one sleeper is first come, first served. The first block in the list that sleeps
  on the variable is unlinked, marked and signalled; every other block is left as it was, and with
  no sleeper on the variable the call changes nothing.\<close>

theorem wake_one_condition_variable:
  assumes "cv \<noteq> NULL"
  shows "RtlWakeConditionVariable cv s =
    (case List.find (\<lambda>t. cb_ConditionVariable (cv_Blocks s t) = cv) (cv_WaitList s) of
       None \<Rightarrow> s
     | Some t \<Rightarrow> s\<lparr>cv_WaitList := remove1 t (cv_WaitList s),
         cv_Blocks := (cv_Blocks s)(t := (cv_Blocks s t)
           \<lparr>cb_Event := True, cb_InList := False, cb_Woken := True\<rparr>)\<rparr>)"
proof (cases "List.find (\<lambda>t. cb_ConditionVariable (cv_Blocks s t) = cv) (cv_WaitList s)")
  case None
  then show ?thesis
    using assms
    by (auto simp: RtlWakeConditionVariable_def LdkpCollectConditionVariableWaiters_def
        scan_collect_one cv_mark_woken_def)
next
  case (Some t)
  then show ?thesis
    using assms
    by (auto simp: RtlWakeConditionVariable_def LdkpCollectConditionVariableWaiters_def
        scan_collect_one cv_mark_woken_def cv_KeSetEvent_def fun_eq_iff intro!: cv_state.equality)
qed

theorem wake_one_condition_variable_witness:
  "cv_WaitList (RtlWakeConditionVariable 8 cv_demo) = [2, 3] \<and>
   cb_Event (cv_Blocks (RtlWakeConditionVariable 8 cv_demo) 1)"
proof -
  have "cv_WaitList cv_demo = [1, 2, 3]" "cb_ConditionVariable (cv_Blocks cv_demo 1) = 8"
    by (simp_all add: cv_demo_def cv_sleep_link_def)
  then show ?thesis using wake_one_condition_variable [of 8 cv_demo] by simp
qed

end
