(* ===== verification/ConditionMachine.thy ===== *)
theory ConditionMachine
  imports ConditionVariable
begin

text \<open>
  Condition variables under interleaving (src/ntdll/cond.c, \<open>LdkpSleepConditionVariable\<close> and the
  two wake calls): every thread is at one of the points between the lock regions, and a step runs
  one region of one thread. The calls that release and re-acquire the caller's lock are entries of
  a log. The projection onto theory WakeProtocol gives the life time of the wait blocks; the log
  gives the discipline of the caller's lock.
\<close>

section \<open>Program points and steps\<close>

datatype cv_pc =
    CvIdle
  | CvRelease addr cv_lock
  | CvBlocked addr cv_lock
  | CvReturned addr cv_lock ntstatus
  | CvSecond cv_lock
  | CvReacquire cv_lock ntstatus
  | CvWakeAll addr
  | CvSet "tid list" "addr option"

datatype cv_event = LockReleased tid cv_lock | LockAcquired tid cv_lock

record cv_sys =
  cg :: cv_state
  cpc :: "tid \<Rightarrow> cv_pc"
  cret :: "tid \<Rightarrow> ntstatus"
  clog :: "cv_event list"

definition cv_init :: "cv_sys \<Rightarrow> bool" where
  "cv_init c \<longleftrightarrow> cv_WaitList (cg c) = [] \<and> (\<forall>t. cpc c t = CvIdle) \<and> clog c = []"

text \<open>The call that starts a sleep, through either entry point.\<close>

definition cv_sleep_call :: "addr \<Rightarrow> ntstatus + cv_lock \<Rightarrow> bool" where
  "cv_sleep_call cv r \<longleftrightarrow> (\<exists>cs. r = RtlSleepConditionVariableCS cv cs) \<or>
     (\<exists>srw flags. r = RtlSleepConditionVariableSRW cv srw flags)"

inductive cv_step :: "cv_sys \<Rightarrow> cv_sys \<Rightarrow> bool" where
  sleep_refused: "cpc c w = CvIdle \<Longrightarrow> cv_sleep_call cv (Inl st) \<Longrightarrow>
    cv_step c (c\<lparr>cret := (cret c)(w := st)\<rparr>)"
| sleep_link: "cpc c w = CvIdle \<Longrightarrow> cv_sleep_call cv (Inr l) \<Longrightarrow>
    cv_step c (c\<lparr>cg := cv_sleep_link cv w (cg c), cpc := (cpc c)(w := CvRelease cv l)\<rparr>)"
| sleep_release: "cpc c w = CvRelease cv l \<Longrightarrow>
    cv_step c (c\<lparr>cpc := (cpc c)(w := CvBlocked cv l), clog := LockReleased w l # clog c\<rparr>)"
| sleep_satisfied: "cpc c w = CvBlocked cv l \<Longrightarrow> cb_Event (cv_Blocks (cg c) w) \<Longrightarrow>
    cv_step c (c\<lparr>cg := (cg c)\<lparr>cv_Blocks := (cv_Blocks (cg c))(w := (cv_Blocks (cg c) w)\<lparr>cb_Event := False\<rparr>)\<rparr>,
                 cpc := (cpc c)(w := CvReturned cv l STATUS_SUCCESS)\<rparr>)"
| sleep_timeout: "cpc c w = CvBlocked cv l \<Longrightarrow>
    cv_step c (c\<lparr>cpc := (cpc c)(w := CvReturned cv l STATUS_TIMEOUT)\<rparr>)"
| sleep_relock: "cpc c w = CvReturned cv l st \<Longrightarrow> cv_sleep_relock w (cg c) = (woken, g) \<Longrightarrow>
    cv_step c (c\<lparr>cg := g, cpc := (cpc c)(w :=
      if woken \<and> st \<noteq> STATUS_SUCCESS then CvSecond l else CvReacquire l st)\<rparr>)"
| sleep_second: "cpc c w = CvSecond l \<Longrightarrow> cb_Event (cv_Blocks (cg c) w) \<Longrightarrow>
    cv_step c (c\<lparr>cg := (cg c)\<lparr>cv_Blocks := (cv_Blocks (cg c))(w := (cv_Blocks (cg c) w)\<lparr>cb_Event := False\<rparr>)\<rparr>,
                 cpc := (cpc c)(w := CvReacquire l STATUS_SUCCESS)\<rparr>)"
| sleep_reacquire: "cpc c w = CvReacquire l st \<Longrightarrow>
    cv_step c (c\<lparr>cpc := (cpc c)(w := CvIdle), cret := (cret c)(w := st),
                 clog := LockAcquired w l # clog c\<rparr>)"
| wake_one: "cpc c k = CvIdle \<Longrightarrow> cv \<noteq> NULL \<Longrightarrow>
    LdkpCollectConditionVariableWaiters cv False 1 (cg c) = (ws, g) \<Longrightarrow>
    cv_step c (c\<lparr>cg := g, cpc := (cpc c)(k := CvSet ws None)\<rparr>)"
| wake_all: "cpc c k = CvIdle \<Longrightarrow> cv \<noteq> NULL \<Longrightarrow>
    cv_step c (c\<lparr>cpc := (cpc c)(k := CvWakeAll cv)\<rparr>)"
| wake_all_collect: "cpc c k = CvWakeAll cv \<Longrightarrow>
    LdkpCollectConditionVariableWaiters cv True LDK_CONDITION_VARIABLE_WAKE_BATCH (cg c) = (ws, g) \<Longrightarrow>
    cv_step c (c\<lparr>cg := g, cpc := (cpc c)(k := CvSet ws
      (if length ws = LDK_CONDITION_VARIABLE_WAKE_BATCH then Some cv else None))\<rparr>)"
| wake_set: "cpc c k = CvSet (w # ws) again \<Longrightarrow>
    cv_step c (c\<lparr>cg := cv_KeSetEvent w (cg c), cpc := (cpc c)(k := CvSet ws again)\<rparr>)"
| wake_set_done: "cpc c k = CvSet [] again \<Longrightarrow>
    cv_step c (c\<lparr>cpc := (cpc c)(k := (case again of None \<Rightarrow> CvIdle | Some cv \<Rightarrow> CvWakeAll cv))\<rparr>)"

inductive_cases cv_stepE: "cv_step c d"

abbreviation cv_reach :: "cv_sys \<Rightarrow> bool" where
  "cv_reach \<equiv> reach cv_init cv_step"

lemmas cv_reach_step = reach_step [of cv_init cv_step]

section \<open>Projection onto the hand-shake\<close>

fun cv_wk_pc :: "cv_pc \<Rightarrow> wk_pc" where
  "cv_wk_pc (CvRelease cv l) = WkBlocked"
| "cv_wk_pc (CvBlocked cv l) = WkBlocked"
| "cv_wk_pc (CvReturned cv l st) = WkReturned (st = STATUS_SUCCESS)"
| "cv_wk_pc (CvSecond l) = WkSecond"
| "cv_wk_pc (CvReacquire l st) = WkLeaving"
| "cv_wk_pc _ = WkIdle"

fun cv_owed :: "cv_pc \<Rightarrow> tid list" where
  "cv_owed (CvSet ws again) = ws"
| "cv_owed _ = []"

definition cv_proj :: "cv_sys \<Rightarrow> wk_state" where
  "cv_proj c = \<lparr>wk_list = cv_WaitList (cg c),
     wk_event = (\<lambda>t. cb_Event (cv_Blocks (cg c) t)),
     wk_inlist = (\<lambda>t. cb_InList (cv_Blocks (cg c) t)),
     wk_woken = (\<lambda>t. cb_Woken (cv_Blocks (cg c) t)),
     wk_at = (\<lambda>t. cv_wk_pc (cpc c t)),
     wk_owed = (\<lambda>t. cv_owed (cpc c t))\<rparr>"

lemma cv_collect_pick:
  assumes col: "LdkpCollectConditionVariableWaiters cv al n (cg c) = (ws, g)"
    and d: "distinct (cv_WaitList (cg c))"
    and k: "cv_wk_pc (cpc c k) = WkIdle" "cv_owed (cpc c k) = []"
  shows "wk_step (cv_proj c) (cv_proj (c\<lparr>cg := g, cpc := (cpc c)(k := CvSet ws again)\<rparr>))"
proof -
  let ?P = "\<lambda>t. cb_ConditionVariable (cv_Blocks (cg c) t) = cv"
  have ws: "ws = fst (scan_collect ?P al n (cv_WaitList (cg c)))"
    and g: "g = (cg c)\<lparr>cv_WaitList := snd (scan_collect ?P al n (cv_WaitList (cg c))),
                      cv_Blocks := cv_mark_woken ws (cv_Blocks (cg c))\<rparr>"
    using col by (auto simp: LdkpCollectConditionVariableWaiters_def split_beta)
  have l: "distinct ws" "snd (scan_collect ?P al n (cv_WaitList (cg c))) =
      filter (\<lambda>x. x \<notin> set ws) (cv_WaitList (cg c))" "set ws \<subseteq> set (cv_WaitList (cg c))"
    using scan_collect_distinct [OF d, of ?P al n] scan_collect_taken [of ?P al n] ws by auto
  have "cv_proj (c\<lparr>cg := g, cpc := (cpc c)(k := CvSet ws again)\<rparr>) =
    (cv_proj c)\<lparr>wk_list := filter (\<lambda>e. e \<notin> set ws) (wk_list (cv_proj c)),
       wk_inlist := (\<lambda>t. if t \<in> set ws then False else wk_inlist (cv_proj c) t),
       wk_woken := (\<lambda>t. if t \<in> set ws then True else wk_woken (cv_proj c) t),
       wk_owed := (wk_owed (cv_proj c))(k := ws)\<rparr>"
    using k l(2) unfolding g by (auto simp: cv_proj_def cv_mark_woken_def fun_eq_iff)
  moreover have "wk_step (cv_proj c) \<dots>"
    using k l by (intro wk_step.pick) (simp_all add: cv_proj_def)
  ultimately show ?thesis by simp
qed

lemma cv_proj_step:
  assumes inv: "wk_inv (cv_proj c)" and step: "cv_step c d"
  shows "wk_step (cv_proj c) (cv_proj d) \<or> cv_proj d = cv_proj c"
proof -
  have dist: "distinct (cv_WaitList (cg c))" using inv by (simp add: wk_inv_def cv_proj_def)
  from step show ?thesis
  proof (cases rule: cv_step.cases)
    case (sleep_link w cv l)
    have "cv_proj d = (cv_proj c)\<lparr>wk_list := wk_list (cv_proj c) @ [w],
        wk_event := (wk_event (cv_proj c))(w := False),
        wk_inlist := (wk_inlist (cv_proj c))(w := True),
        wk_woken := (wk_woken (cv_proj c))(w := False),
        wk_at := (wk_at (cv_proj c))(w := WkBlocked)\<rparr>"
      using sleep_link by (auto simp: cv_proj_def cv_sleep_link_def fun_eq_iff)
    then show ?thesis
      using wk_step.enter [of "cv_proj c" w] sleep_link by (simp add: cv_proj_def)
  next
    case (sleep_satisfied w cv l)
    have "cv_proj d = (cv_proj c)\<lparr>wk_event := (wk_event (cv_proj c))(w := False),
        wk_at := (wk_at (cv_proj c))(w := WkReturned True)\<rparr>"
      using sleep_satisfied by (auto simp: cv_proj_def fun_eq_iff)
    then show ?thesis
      using wk_step.satisfied [of "cv_proj c" w] sleep_satisfied by (simp add: cv_proj_def)
  next
    case (sleep_timeout w cv l)
    have "cv_proj d = (cv_proj c)\<lparr>wk_at := (wk_at (cv_proj c))(w := WkReturned False)\<rparr>"
      using sleep_timeout by (auto simp: cv_proj_def fun_eq_iff)
    then show ?thesis
      using wk_step.timeout [of "cv_proj c" w] sleep_timeout by (simp add: cv_proj_def)
  next
    case (sleep_relock w cv l st woken g)
    have "cv_proj d = (cv_proj c)\<lparr>
        wk_list := (if wk_inlist (cv_proj c) w then remove1 w (wk_list (cv_proj c))
                    else wk_list (cv_proj c)),
        wk_inlist := (wk_inlist (cv_proj c))(w := False),
        wk_at := (wk_at (cv_proj c))(w := if wk_woken (cv_proj c) w \<and> st \<noteq> STATUS_SUCCESS
                                          then WkSecond else WkLeaving)\<rparr>"
      using sleep_relock
      by (auto simp: cv_proj_def cv_sleep_relock_def fun_eq_iff split: if_splits)
    then show ?thesis
      using wk_step.relock [of "cv_proj c" w "st = STATUS_SUCCESS"] sleep_relock
      by (simp add: cv_proj_def)
  next
    case (sleep_second w l)
    have "cv_proj d = (cv_proj c)\<lparr>wk_event := (wk_event (cv_proj c))(w := False),
        wk_at := (wk_at (cv_proj c))(w := WkLeaving)\<rparr>"
      using sleep_second by (auto simp: cv_proj_def fun_eq_iff)
    then show ?thesis
      using wk_step.second [of "cv_proj c" w] sleep_second by (simp add: cv_proj_def)
  next
    case (sleep_reacquire w l st)
    have "cv_proj d = (cv_proj c)\<lparr>wk_at := (wk_at (cv_proj c))(w := WkIdle)\<rparr>"
      using sleep_reacquire by (auto simp: cv_proj_def fun_eq_iff)
    then show ?thesis
      using wk_step.leave [of "cv_proj c" w] sleep_reacquire by (simp add: cv_proj_def)
  next
    case (wake_one k cv ws g)
    then show ?thesis using cv_collect_pick [OF wake_one(4) dist, of k] by simp
  next
    case (wake_all_collect k cv ws g)
    then show ?thesis using cv_collect_pick [OF wake_all_collect(3) dist, of k] by simp
  next
    case (wake_set k w ws again)
    have "cv_proj d = (cv_proj c)\<lparr>wk_event := (wk_event (cv_proj c))(w := True),
        wk_owed := (wk_owed (cv_proj c))(k := ws)\<rparr>"
      using wake_set by (auto simp: cv_proj_def cv_KeSetEvent_def fun_eq_iff)
    then show ?thesis
      using wk_step.set_event [of "cv_proj c" k w ws] wake_set by (simp add: cv_proj_def)
  qed (auto simp: cv_proj_def fun_eq_iff split: option.splits)
qed

interpretation cv: wake_refinement cv_proj cv_init cv_step
proof
  fix c
  assume "cv_init c"
  then show "wk_init (cv_proj c)"
    by (auto simp: cv_init_def wk_init_def cv_proj_def)
qed (rule cv_proj_step)


section \<open>An example run\<close>

text \<open>Thread 1 sleeps on variable 8 with critical section 4, thread 2 wakes it while its wait has
  timed out already. The witnesses use the states of this run.\<close>

definition cv_c0 :: cv_sys where
  "cv_c0 = \<lparr>cg = \<lparr>cv_WaitList = [], cv_Blocks = (\<lambda>_. \<lparr>cb_ConditionVariable = 0, cb_Event = False,
        cb_InList = False, cb_Woken = False\<rparr>)\<rparr>, cpc = (\<lambda>_. CvIdle), cret = (\<lambda>_. STATUS_SUCCESS),
     clog = []\<rparr>"

definition cv_c1 :: cv_sys where
  "cv_c1 = cv_c0\<lparr>cg := cv_sleep_link 8 1 (cg cv_c0),
     cpc := (cpc cv_c0)(1 := CvRelease 8 (CvCriticalSection 4))\<rparr>"

definition cv_c2 :: cv_sys where
  "cv_c2 = cv_c1\<lparr>cpc := (cpc cv_c1)(1 := CvBlocked 8 (CvCriticalSection 4)),
     clog := [LockReleased 1 (CvCriticalSection 4)]\<rparr>"

definition cv_c3 :: cv_sys where
  "cv_c3 = cv_c2\<lparr>cg := snd (LdkpCollectConditionVariableWaiters 8 False 1 (cg cv_c2)),
     cpc := (cpc cv_c2)(2 := CvSet [1] None)\<rparr>"

definition cv_c4 :: cv_sys where
  "cv_c4 = cv_c3\<lparr>cpc := (cpc cv_c3)(1 := CvReturned 8 (CvCriticalSection 4) STATUS_TIMEOUT)\<rparr>"

definition cv_c5 :: cv_sys where
  "cv_c5 = cv_c4\<lparr>cpc := (cpc cv_c4)(1 := CvSecond (CvCriticalSection 4))\<rparr>"

lemmas cv_run_defs = cv_c0_def cv_c1_def cv_c2_def cv_c3_def cv_c4_def cv_c5_def
  cv_sleep_link_def LdkpCollectConditionVariableWaiters_def cv_mark_woken_def
  cv_sleep_relock_def

lemma cv_run:
  "cv_reach cv_c1" "cv_reach cv_c2" "cv_reach cv_c3" "cv_reach cv_c5"
proof -
  have r0: "cv_reach cv_c0" by (rule reach_init) (simp add: cv_init_def cv_c0_def)
  have call: "cv_sleep_call 8 (Inr (CvCriticalSection 4))"
    unfolding cv_sleep_call_def RtlSleepConditionVariableCS_def cv_lock_of_def
    by (rule disjI1, rule exI [of _ 4]) simp
  show r1: "cv_reach cv_c1" unfolding cv_c1_def
    by (rule cv_reach_step [OF r0 cv_step.sleep_link [OF _ call]]) (simp add: cv_c0_def)
  have "cv_step cv_c1 (cv_c1\<lparr>cpc := (cpc cv_c1)(1 := CvBlocked 8 (CvCriticalSection 4)),
      clog := LockReleased 1 (CvCriticalSection 4) # clog cv_c1\<rparr>)"
    by (rule cv_step.sleep_release) (simp add: cv_c1_def)
  then have "cv_step cv_c1 cv_c2" by (simp add: cv_c2_def cv_c1_def cv_c0_def)
  with r1 show r2: "cv_reach cv_c2" by (rule cv_reach_step)
  have col: "LdkpCollectConditionVariableWaiters 8 False 1 (cg cv_c2) =
      ([1], snd (LdkpCollectConditionVariableWaiters 8 False 1 (cg cv_c2)))"
    by (simp add: cv_run_defs)
  have "cpc cv_c2 2 = CvIdle" by (simp add: cv_run_defs)
  then show r3: "cv_reach cv_c3" unfolding cv_c3_def
    by (intro cv_reach_step [OF r2 cv_step.wake_one [OF _ _ col]]) simp_all
  have r4: "cv_reach cv_c4" unfolding cv_c4_def
    by (rule cv_reach_step [OF r3 cv_step.sleep_timeout]) (simp add: cv_run_defs)
  have rel: "cv_sleep_relock 1 (cg cv_c4) = (True, cg cv_c4)" by (simp add: cv_run_defs)
  have "cv_step cv_c4 (cv_c4\<lparr>cg := cg cv_c4, cpc := (cpc cv_c4)(1 :=
      if True \<and> STATUS_TIMEOUT \<noteq> STATUS_SUCCESS then CvSecond (CvCriticalSection 4)
      else CvReacquire (CvCriticalSection 4) STATUS_TIMEOUT)\<rparr>)"
    by (rule cv_step.sleep_relock [OF _ rel]) (simp add: cv_c4_def)
  then have "cv_step cv_c4 cv_c5" by (simp add: cv_c5_def)
  with r4 show "cv_reach cv_c5" by (rule cv_reach_step)
qed

section \<open>Life time of the wait blocks, and no lost wake-up\<close>

text \<open>C2: a wait block whose event a waker is about to set belongs to a thread that is still
  inside the sleep (about to release its lock, blocked, back from a wait that did not succeed, or
  in its second wait), and no other waker holds the same block.\<close>

theorem condition_event_frame_alive:
  assumes "cv_reach c" and "cpc c k = CvSet ws again" and "w \<in> set ws"
  shows "(\<exists>cv l. cpc c w = CvRelease cv l \<or> cpc c w = CvBlocked cv l \<or> cpc c w = CvSecond l \<or>
        (\<exists>st. cpc c w = CvReturned cv l st \<and> st \<noteq> STATUS_SUCCESS)) \<and>
    (\<forall>j ws' again'. cpc c j = CvSet ws' again' \<longrightarrow> w \<in> set ws' \<longrightarrow> j = k)"
proof -
  have "wk_in_wait (cv_wk_pc (cpc c w)) \<and> (\<forall>j. w \<in> set (cv_owed (cpc c j)) \<longrightarrow> j = k)"
    using cv.frame_alive [OF assms(1), of w k] assms(2,3) by (simp add: cv_proj_def)
  then show ?thesis by (cases "cpc c w") (auto simp: wk_in_wait_def)
qed

theorem condition_event_frame_alive_witness:
  "cpc cv_c3 2 = CvSet [1] None \<and> (\<exists>cv l. cpc cv_c3 1 = CvBlocked cv l) \<and>
   {j. \<exists>ws' again'. cpc cv_c3 j = CvSet ws' again' \<and> 1 \<in> set ws'} = {2}"
proof -
  have p: "cpc cv_c3 2 = CvSet [1] None" "cpc cv_c3 1 = CvBlocked 8 (CvCriticalSection 4)"
    by (simp_all add: cv_c3_def cv_c2_def)
  have "\<forall>j ws' again'. cpc cv_c3 j = CvSet ws' again' \<longrightarrow> 1 \<in> set ws' \<longrightarrow> j = 2"
    using condition_event_frame_alive [OF cv_run(3) p(1), of 1] by simp
  moreover have "\<exists>ws' again'. cpc cv_c3 2 = CvSet ws' again' \<and> 1 \<in> set ws'" using p(1) by simp
  ultimately have "{j. \<exists>ws' again'. cpc cv_c3 j = CvSet ws' again' \<and> 1 \<in> set ws'} = {2}" by blast
  with p show ?thesis by blast
qed

text \<open>the second wait of a sleep, which has no timeout, is never a wait for nothing: the
  event is set, or a waker holds the block and is about to set its event.\<close>

theorem condition_second_wait_served:
  assumes "cv_reach c" and "cpc c w = CvSecond l"
  shows "cb_Event (cv_Blocks (cg c) w) \<or> (\<exists>k ws again. cpc c k = CvSet ws again \<and> w \<in> set ws)"
proof -
  have "cb_Event (cv_Blocks (cg c) w) \<or> (\<exists>k. w \<in> set (cv_owed (cpc c k)))"
    using cv.second_wait_served [OF assms(1), of w] assms(2) by (auto simp: cv_proj_def)
  then show ?thesis
  proof
    assume "\<exists>k. w \<in> set (cv_owed (cpc c k))"
    then obtain k where "w \<in> set (cv_owed (cpc c k))" by blast
    then show ?thesis by (cases "cpc c k") auto
  qed simp
qed

theorem condition_second_wait_served_witness:
  "cpc cv_c5 1 = CvSecond (CvCriticalSection 4) \<and>
   (cb_Event (cv_Blocks (cg cv_c5) 1) \<or> (\<exists>k ws again. cpc cv_c5 k = CvSet ws again \<and> 1 \<in> set ws))"
  using condition_second_wait_served [of cv_c5 1 "CvCriticalSection 4"] cv_run(4)
  by (simp add: cv_c5_def)

text \<open>While a thread sleeps its block names the variable it sleeps on.\<close>

fun cv_names :: "cv_pc \<Rightarrow> addr option" where
  "cv_names (CvRelease cv l) = Some cv"
| "cv_names (CvBlocked cv l) = Some cv"
| "cv_names (CvReturned cv l st) = Some cv"
| "cv_names _ = None"

lemma cv_blocks_var:
  "LdkpCollectConditionVariableWaiters cv al n s = (ws, g) \<Longrightarrow>
     cb_ConditionVariable (cv_Blocks g w) = cb_ConditionVariable (cv_Blocks s w)"
  "cv_sleep_relock t s = (woken, g) \<Longrightarrow>
     cb_ConditionVariable (cv_Blocks g w) = cb_ConditionVariable (cv_Blocks s w)"
  "cb_ConditionVariable (cv_Blocks (cv_KeSetEvent t s) w) = cb_ConditionVariable (cv_Blocks s w)"
  "cb_ConditionVariable (cv_Blocks (cv_sleep_link v t s) w) =
     (if w = t then v else cb_ConditionVariable (cv_Blocks s w))"
  by (auto simp: LdkpCollectConditionVariableWaiters_def cv_mark_woken_def cv_sleep_relock_def
      cv_KeSetEvent_def cv_sleep_link_def split_beta)

lemma cv_sleep_call_var: "cv_sleep_call cv (Inr l) \<Longrightarrow> cv \<noteq> NULL"
  by (auto simp: cv_sleep_call_def RtlSleepConditionVariableCS_def RtlSleepConditionVariableSRW_def
      split: if_splits)

lemma cv_reach_names:
  "cv_reach c \<Longrightarrow> cv_names (cpc c w) = Some cv \<Longrightarrow>
     cb_ConditionVariable (cv_Blocks (cg c) w) = cv \<and> cv \<noteq> NULL"
proof (induction arbitrary: cv rule: reach_induct)
  case (init c)
  then show ?case by (simp add: cv_init_def)
next
  case (step c d)
  from step(2) show ?case
    by (cases rule: cv_step.cases)
      (use step(3,4) in \<open>auto simp: cv_blocks_var dest: cv_sleep_call_var split: if_splits option.splits\<close>)
qed

text \<open>C3: no wake-up is lost between the release of the caller's lock and the wait. Take a thread
  that sleeps on the variable \<open>cv\<close>, from before it releases the caller's lock until its wait has
  returned, and that no waker has marked. \<open>RtlWakeAllConditionVariable\<close> of \<open>cv\<close> returns and has
  unlinked it, marked it and set its event. \<open>RtlWakeConditionVariable\<close> of \<open>cv\<close> does the same for the
  first thread in the wait list that sleeps on \<open>cv\<close>, which no waker had marked before and whose wait
  has not succeeded; so the wake is spent on a thread that sleeps on \<open>cv\<close>, if not on this one.\<close>

theorem condition_no_lost_wakeup:
  assumes "cv_reach c" and "cpc c w = CvRelease cv l \<or> cpc c w = CvBlocked cv l"
    and "\<not> cb_Woken (cv_Blocks (cg c) w)"
  shows "(\<exists>g. RtlWakeAllConditionVariable cv (cg c) = Some g \<and> w \<notin> set (cv_WaitList g) \<and>
      cb_Woken (cv_Blocks g w) \<and> cb_Event (cv_Blocks g w)) \<and>
    (\<exists>t m. (cpc c t = CvRelease cv m \<or> cpc c t = CvBlocked cv m \<or>
          (\<exists>st. cpc c t = CvReturned cv m st \<and> st \<noteq> STATUS_SUCCESS)) \<and>
      \<not> cb_Woken (cv_Blocks (cg c) t) \<and>
      List.find (\<lambda>u. cv_names (cpc c u) = Some cv) (cv_WaitList (cg c)) = Some t \<and>
      t \<notin> set (cv_WaitList (RtlWakeConditionVariable cv (cg c))) \<and>
      cb_Woken (cv_Blocks (RtlWakeConditionVariable cv (cg c)) t) \<and>
      cb_Event (cv_Blocks (RtlWakeConditionVariable cv (cg c)) t))"
proof
  let ?l = "cv_WaitList (cg c)"
  have w: "w \<in> set ?l"
    using cv.unpicked_listed [OF assms(1), of w] assms(2,3) by (auto simp: cv_proj_def)
  have n: "cb_ConditionVariable (cv_Blocks (cg c) w) = cv" "cv \<noteq> NULL"
    using cv_reach_names [OF assms(1), of w cv] assms(2) by auto
  show "\<exists>g. RtlWakeAllConditionVariable cv (cg c) = Some g \<and> w \<notin> set (cv_WaitList g) \<and>
      cb_Woken (cv_Blocks g w) \<and> cb_Event (cv_Blocks g w)"
    using wake_all_condition_variable [OF n(2), of "cg c"] w n(1) by auto
  have d: "distinct ?l" using cv.reach_inv [OF assms(1)] by (simp add: wk_inv_def cv_proj_def)
  have pc: "\<not> cb_Woken (cv_Blocks (cg c) u) \<and> (\<exists>v m. cv_names (cpc c u) = Some v \<and>
      (cpc c u = CvRelease v m \<or> cpc c u = CvBlocked v m \<or>
       (\<exists>st. cpc c u = CvReturned v m st \<and> st \<noteq> STATUS_SUCCESS)))" if "u \<in> set ?l" for u
    using cv.listed_waiter [OF assms(1), of u] that by (cases "cpc c u") (auto simp: cv_proj_def)
  have same: "cv_names (cpc c u) = Some cv \<longleftrightarrow> cb_ConditionVariable (cv_Blocks (cg c) u) = cv"
    if "u \<in> set ?l" for u
    using pc [OF that] cv_reach_names [OF assms(1), of u] by auto
  then have f: "List.find (\<lambda>u. cv_names (cpc c u) = Some cv) ?l =
      List.find (\<lambda>u. cb_ConditionVariable (cv_Blocks (cg c) u) = cv) ?l"
    by (intro find_cong) auto
  obtain t where t: "List.find (\<lambda>u. cb_ConditionVariable (cv_Blocks (cg c) u) = cv) ?l = Some t"
    using w n(1) by (cases "List.find (\<lambda>u. cb_ConditionVariable (cv_Blocks (cg c) u) = cv) ?l")
      (auto simp: find_None_iff)
  then have tl: "t \<in> set ?l" and tv: "cb_ConditionVariable (cv_Blocks (cg c) t) = cv"
    by (auto dest: find_Some_in_set)
  have one: "RtlWakeConditionVariable cv (cg c) = (cg c)\<lparr>cv_WaitList := remove1 t ?l,
      cv_Blocks := (cv_Blocks (cg c))(t := (cv_Blocks (cg c) t)
        \<lparr>cb_Event := True, cb_InList := False, cb_Woken := True\<rparr>)\<rparr>"
    using wake_one_condition_variable [OF n(2), of "cg c"] t by simp
  show "\<exists>t m. (cpc c t = CvRelease cv m \<or> cpc c t = CvBlocked cv m \<or>
          (\<exists>st. cpc c t = CvReturned cv m st \<and> st \<noteq> STATUS_SUCCESS)) \<and>
      \<not> cb_Woken (cv_Blocks (cg c) t) \<and>
      List.find (\<lambda>u. cv_names (cpc c u) = Some cv) (cv_WaitList (cg c)) = Some t \<and>
      t \<notin> set (cv_WaitList (RtlWakeConditionVariable cv (cg c))) \<and>
      cb_Woken (cv_Blocks (RtlWakeConditionVariable cv (cg c)) t) \<and>
      cb_Event (cv_Blocks (RtlWakeConditionVariable cv (cg c)) t)"
    using pc [OF tl] same [OF tl] tv t f one d by (intro exI [of _ t]) auto
qed

theorem condition_no_lost_wakeup_witness:
  "cpc cv_c1 1 = CvRelease 8 (CvCriticalSection 4) \<and>
   (\<exists>g. RtlWakeAllConditionVariable 8 (cg cv_c1) = Some g \<and> cb_Event (cv_Blocks g 1)) \<and>
   List.find (\<lambda>u. cv_names (cpc cv_c1 u) = Some 8) [1] = Some 1"
  using condition_no_lost_wakeup [of cv_c1 1 8 "CvCriticalSection 4"] cv_run(1)
  by (auto simp: cv_c1_def cv_c0_def cv_sleep_link_def)

section \<open>The caller's lock\<close>

text \<open>The part of the log that concerns one thread, newest first, and the pattern of a thread that
  has its lock back: an acquisition of a lock on top of the release of the same lock, over and
  over.\<close>

fun cv_event_of :: "tid \<Rightarrow> cv_event \<Rightarrow> bool" where
  "cv_event_of w (LockReleased t l) = (t = w)"
| "cv_event_of w (LockAcquired t l) = (t = w)"

fun cv_balanced :: "cv_event list \<Rightarrow> bool" where
  "cv_balanced [] = True"
| "cv_balanced (LockAcquired t l # LockReleased u m # es) = (t = u \<and> l = m \<and> cv_balanced es)"
| "cv_balanced _ = False"

fun cv_away :: "cv_pc \<Rightarrow> cv_lock option" where
  "cv_away (CvBlocked cv l) = Some l"
| "cv_away (CvReturned cv l st) = Some l"
| "cv_away (CvSecond l) = Some l"
| "cv_away (CvReacquire l st) = Some l"
| "cv_away _ = None"

definition cv_lock_ok :: "cv_sys \<Rightarrow> tid \<Rightarrow> bool" where
  "cv_lock_ok c w \<longleftrightarrow> (case cv_away (cpc c w) of
      None \<Rightarrow> cv_balanced (filter (cv_event_of w) (clog c))
    | Some l \<Rightarrow> \<exists>es. filter (cv_event_of w) (clog c) = LockReleased w l # es \<and> cv_balanced es)"

lemma cv_reach_lock_ok: "cv_reach c \<Longrightarrow> cv_lock_ok c w"
proof (induction rule: reach_induct)
  case (init c)
  then show ?case by (simp add: cv_init_def cv_lock_ok_def)
next
  case (step c d)
  from step(2) show ?case
    by (cases rule: cv_step.cases)
      (use step(3) in \<open>auto simp: cv_lock_ok_def split: option.splits\<close>)
qed

text \<open>a sleep gives back the lock it took away. At every moment the calls of a thread that
  release and re-acquire its lock come in pairs, a release of a lock followed by an acquisition of
  the same lock in the same mode, with an open release exactly while the thread is between the two
  points; in particular a timed-out sleep, a woken one and one that waited twice all return with
  the lock held.\<close>

theorem condition_lock_balanced:
  assumes "cv_reach c"
  shows "case cv_away (cpc c w) of
      None \<Rightarrow> cv_balanced (filter (cv_event_of w) (clog c))
    | Some l \<Rightarrow> \<exists>es. filter (cv_event_of w) (clog c) = LockReleased w l # es \<and> cv_balanced es"
  using cv_reach_lock_ok [OF assms, of w] by (simp add: cv_lock_ok_def)

theorem condition_lock_balanced_witness:
  "cv_away (cpc cv_c5 1) = Some (CvCriticalSection 4) \<and>
   (\<exists>es. filter (cv_event_of 1) (clog cv_c5) = LockReleased 1 (CvCriticalSection 4) # es \<and>
     cv_balanced es)"
  using condition_lock_balanced [of cv_c5 1] cv_run(4)
  by (simp add: cv_c5_def)

end
