(* ===== verification/WaitOnAddress.thy ===== *)
theory WaitOnAddress
  imports AlertByThreadId
begin

text \<open>
  Waiting on an address (src/ntdll/waitonaddress.c): the comparison of the watched value, the wait
  list, the regions of \<open>RtlWaitOnAddress\<close>, the two wake calls and shutdown. A waker unlinks
  waiters under the list lock and then alerts them one by one through the alert code of theory
  AlertByThreadId; the locale \<open>alert_service\<close> states what the wake calls need of that code and is
  interpreted on it.
\<close>

section \<open>The watched value\<close>

type_synonym mem = "addr \<Rightarrow> u8"

fun le_value :: "mem \<Rightarrow> addr \<Rightarrow> nat \<Rightarrow> nat" where
  "le_value m a 0 = 0"
| "le_value m a (Suc n) = unat (m a) + 256 * le_value m (a + 1) n"

definition LdkpWaitOnAddressValuesMatch :: "mem \<Rightarrow> addr \<Rightarrow> addr \<Rightarrow> nat \<Rightarrow> bool" where
  "LdkpWaitOnAddressValuesMatch m Address CompareAddress AddressSize =
     (if AddressSize = 1 then le_value m Address 1 = le_value m CompareAddress 1
      else if AddressSize = 2 then le_value m Address 2 = le_value m CompareAddress 2
      else if AddressSize = 4 then le_value m Address 4 = le_value m CompareAddress 4
      else if AddressSize = 8 then le_value m Address 8 = le_value m CompareAddress 8
      else False)"

lemma digit_split:
  assumes "(x :: nat) < 256" and "y < 256"
  shows "x + 256 * p = y + 256 * q \<longleftrightarrow> x = y \<and> p = q"
proof
  assume e: "x + 256 * p = y + 256 * q"
  have "(x + 256 * p) mod 256 = x" "(y + 256 * q) mod 256 = y"
    and "(x + 256 * p) div 256 = p" "(y + 256 * q) div 256 = q" using assms by auto
  then show "x = y \<and> p = q" using e by metis
qed simp

lemma le_value_eq: "le_value m a n = le_value m c n \<longleftrightarrow> (\<forall>i<n. m (a + i) = m (c + i))"
proof (induction n arbitrary: a c)
  case (Suc n)
  have "(\<forall>i<Suc n. m (a + i) = m (c + i)) \<longleftrightarrow>
      m a = m c \<and> (\<forall>i<n. m (a + 1 + i) = m (c + 1 + i))"
    by (auto simp: less_Suc_eq_0_disj)
  then show ?case
    using Suc [of "a + 1" "c + 1"]
    by (simp add: digit_split [OF unat_u8_less unat_u8_less] word_unat_eq_iff)
qed simp

section \<open>State and routines under the list lock\<close>

record wa_entry =
  we_Address :: addr
  we_InList :: bool
  we_Woken :: bool

record wa_state =
  wa_ListHead :: "tid list"
  wa_Entries :: "tid \<Rightarrow> wa_entry"
  wa_DrainedEvent :: bool
  wa_WaitCount :: int
  wa_ShuttingDown :: bool

abbreviation LDK_WAIT_ON_ADDRESS_WAKE_BATCH :: nat where
  "LDK_WAIT_ON_ADDRESS_WAKE_BATCH \<equiv> 64"

definition LdkpInitializeWaitOnAddressList :: "wa_state \<Rightarrow> wa_state" where
  "LdkpInitializeWaitOnAddressList s =
     s\<lparr>wa_ListHead := [], wa_DrainedEvent := True, wa_WaitCount := 0, wa_ShuttingDown := False\<rparr>"

definition wa_matches :: "addr \<Rightarrow> wa_state \<Rightarrow> tid \<Rightarrow> bool" where
  "wa_matches Address s t \<longleftrightarrow> Address = NULL \<or> we_Address (wa_Entries s t) = Address"

definition wa_mark_woken :: "tid list \<Rightarrow> (tid \<Rightarrow> wa_entry) \<Rightarrow> tid \<Rightarrow> wa_entry" where
  "wa_mark_woken ts es =
     (\<lambda>t. if t \<in> set ts then (es t)\<lparr>we_InList := False, we_Woken := True\<rparr> else es t)"

definition LdkpCollectWaitOnAddressThreadIds ::
  "addr \<Rightarrow> bool \<Rightarrow> nat \<Rightarrow> wa_state \<Rightarrow> tid list \<times> wa_state" where
  "LdkpCollectWaitOnAddressThreadIds Address WakeAll ThreadIdCount s =
     (let (ThreadIds, rest) = scan_collect (wa_matches Address s) WakeAll ThreadIdCount (wa_ListHead s)
      in (ThreadIds, s\<lparr>wa_ListHead := rest, wa_Entries := wa_mark_woken ThreadIds (wa_Entries s)\<rparr>))"

definition LdkpReferenceWaitOnAddressWait :: "wa_state \<Rightarrow> wa_state" where
  "LdkpReferenceWaitOnAddressWait s =
     (let s1 = s\<lparr>wa_WaitCount := wa_WaitCount s + 1\<rparr>
      in if wa_WaitCount s1 = 1 then s1\<lparr>wa_DrainedEvent := False\<rparr> else s1)"

text \<open>Dropping the count: the interlocked decrement and the setting of the event are two steps.\<close>

definition wa_decrement :: "wa_state \<Rightarrow> bool \<times> wa_state" where
  "wa_decrement s = (let s1 = s\<lparr>wa_WaitCount := wa_WaitCount s - 1\<rparr> in (wa_WaitCount s1 = 0, s1))"

definition wa_set_drained :: "wa_state \<Rightarrow> wa_state" where
  "wa_set_drained s = s\<lparr>wa_DrainedEvent := True\<rparr>"

definition LdkpDereferenceWaitOnAddressWait :: "wa_state \<Rightarrow> wa_state" where
  "LdkpDereferenceWaitOnAddressWait s =
     (let (zero, s1) = wa_decrement s in if zero then wa_set_drained s1 else s1)"

section \<open>The regions of a wait\<close>

text \<open>Before the list lock: the argument checks and the first comparison.\<close>

definition RtlWaitOnAddress_check :: "mem \<Rightarrow> addr \<Rightarrow> addr \<Rightarrow> nat \<Rightarrow> ntstatus option" where
  "RtlWaitOnAddress_check m Address CompareAddress AddressSize =
     (if Address = NULL \<or> CompareAddress = NULL \<or>
         (AddressSize \<noteq> 1 \<and> AddressSize \<noteq> 2 \<and> AddressSize \<noteq> 4 \<and> AddressSize \<noteq> 8)
      then Some STATUS_INVALID_PARAMETER
      else if \<not> LdkpWaitOnAddressValuesMatch m Address CompareAddress AddressSize
      then Some STATUS_SUCCESS
      else None)"

text \<open>Under the list lock. Writers do not take this lock, so the two comparisons see two
  memories, \<open>m1\<close> and \<open>m2\<close>. The second result says what is left to do: return with a status, drop
  the count and return, or wait.\<close>

datatype wa_enter_result = WaReturn ntstatus | WaDrop ntstatus | WaWait

definition RtlWaitOnAddress_enter ::
  "bool \<Rightarrow> mem \<Rightarrow> mem \<Rightarrow> addr \<Rightarrow> addr \<Rightarrow> nat \<Rightarrow> tid \<Rightarrow> wa_state \<Rightarrow> wa_enter_result \<times> wa_state" where
  "RtlWaitOnAddress_enter shutdown m1 m2 Address CompareAddress AddressSize t s =
     (let Entry = \<lparr>we_Address = Address, we_InList = True, we_Woken = False\<rparr> in
      if wa_ShuttingDown s \<or> shutdown then (WaReturn STATUS_DELETE_PENDING, s)
      else if \<not> LdkpWaitOnAddressValuesMatch m1 Address CompareAddress AddressSize
      then (WaReturn STATUS_SUCCESS, s)
      else
        let s1 = LdkpReferenceWaitOnAddressWait s;
            s2 = s1\<lparr>wa_Entries := (wa_Entries s1)(t := Entry),
                    wa_ListHead := wa_ListHead s1 @ [t]\<rparr>
        in if \<not> LdkpWaitOnAddressValuesMatch m2 Address CompareAddress AddressSize
           then (WaDrop STATUS_SUCCESS,
                 s2\<lparr>wa_Entries := (wa_Entries s2)(t := Entry\<lparr>we_InList := False\<rparr>),
                    wa_ListHead := remove1 t (wa_ListHead s2)\<rparr>)
           else (WaWait, s2))"

definition RtlWaitOnAddress_relock :: "tid \<Rightarrow> wa_state \<Rightarrow> bool \<times> wa_state" where
  "RtlWaitOnAddress_relock t s =
     (we_Woken (wa_Entries s t),
      if we_InList (wa_Entries s t)
      then s\<lparr>wa_Entries := (wa_Entries s)(t := (wa_Entries s t)\<lparr>we_InList := False\<rparr>),
             wa_ListHead := remove1 t (wa_ListHead s)\<rparr>
      else s)"

definition wa_waits_again :: "bool \<Rightarrow> ntstatus \<Rightarrow> bool" where
  "wa_waits_again Woken Status \<longleftrightarrow> Woken \<and> Status \<noteq> STATUS_ALERTED \<and> Status \<noteq> STATUS_SUCCESS"

definition wa_wait_result :: "ntstatus \<Rightarrow> ntstatus" where
  "wa_wait_result Status = (if Status = STATUS_ALERTED then STATUS_SUCCESS else Status)"

section \<open>The wake calls and shutdown\<close>

text \<open>\<open>lookup\<close> and \<open>alloc\<close> are the parameters of the alert call. The wake calls drop its status.\<close>

type_synonym wa_world = "wa_state \<times> alert_state"

fun LdkpAlertThreadIds ::
  "(tid \<Rightarrow> ntstatus) \<Rightarrow> bool \<Rightarrow> tid list \<Rightarrow> wa_world \<Rightarrow> wa_world" where
  "LdkpAlertThreadIds lookup alloc [] s = s"
| "LdkpAlertThreadIds lookup alloc (t # ts) (w, a) =
     LdkpAlertThreadIds lookup alloc ts (w, snd (NtAlertThreadByThreadId lookup alloc t a))"

definition wa_collect :: "addr \<Rightarrow> bool \<Rightarrow> nat \<Rightarrow> wa_world \<Rightarrow> tid list \<times> wa_world" where
  "wa_collect Address WakeAll n s =
     (let (ts, w) = LdkpCollectWaitOnAddressThreadIds Address WakeAll n (fst s)
      in (ts, (w, snd s)))"

definition RtlWakeAddressSingle ::
  "(tid \<Rightarrow> ntstatus) \<Rightarrow> bool \<Rightarrow> addr \<Rightarrow> wa_world \<Rightarrow> wa_world" where
  "RtlWakeAddressSingle lookup alloc Address s =
     (if Address = NULL then s
      else let (ts, s1) = wa_collect Address False 1 s
           in if ts \<noteq> [] then LdkpAlertThreadIds lookup alloc ts s1 else s1)"

definition wa_wake_loop ::
  "(tid \<Rightarrow> ntstatus) \<Rightarrow> bool \<Rightarrow> addr \<Rightarrow> wa_world \<Rightarrow> wa_world option" where
  "wa_wake_loop lookup alloc Address =
     batch_loop (wa_collect Address True LDK_WAIT_ON_ADDRESS_WAKE_BATCH)
       (LdkpAlertThreadIds lookup alloc) LDK_WAIT_ON_ADDRESS_WAKE_BATCH"

definition RtlWakeAddressAll ::
  "(tid \<Rightarrow> ntstatus) \<Rightarrow> bool \<Rightarrow> addr \<Rightarrow> wa_world \<Rightarrow> wa_world option" where
  "RtlWakeAddressAll lookup alloc Address s =
     (if Address = NULL then Some s else wa_wake_loop lookup alloc Address s)"

text \<open>Shutdown; \<open>None\<close> is the wait for the drained event that does not return in this state.\<close>

definition LdkpTerminateWaitOnAddressList ::
  "(tid \<Rightarrow> ntstatus) \<Rightarrow> bool \<Rightarrow> wa_world \<Rightarrow> wa_world option" where
  "LdkpTerminateWaitOnAddressList lookup alloc s =
     (case wa_wake_loop lookup alloc NULL ((fst s)\<lparr>wa_ShuttingDown := True\<rparr>, snd s) of
        None \<Rightarrow> None
      | Some (w, a) \<Rightarrow>
          (case LdkpWakeAllAlertByThreadIdWaiters a of
             None \<Rightarrow> None
           | Some a1 \<Rightarrow> if wa_DrainedEvent w then Some (w, a1) else None))"

section \<open>What the wake calls need of the alert code\<close>

locale alert_service =
  fixes alert :: "tid \<Rightarrow> 's \<Rightarrow> ntstatus \<times> 's" and owed :: "'s \<Rightarrow> tid \<Rightarrow> bool" and able :: "tid \<Rightarrow> bool"
  assumes alert_delivers: "NT_SUCCESS (fst (alert t s)) \<Longrightarrow> owed (snd (alert t s)) t"
    and alert_keeps: "owed s u \<Longrightarrow> owed (snd (alert t s)) u"
    and alert_succeeds: "able t \<Longrightarrow> NT_SUCCESS (fst (alert t s))"
begin

lemma fold_keeps: "owed s u \<Longrightarrow> owed (fold (\<lambda>t s. snd (alert t s)) ts s) u"
  by (induction ts arbitrary: s) (auto intro: alert_keeps)

lemma fold_delivers:
  "\<forall>t\<in>set ts. able t \<Longrightarrow> u \<in> set ts \<Longrightarrow> owed (fold (\<lambda>t s. snd (alert t s)) ts s) u"
proof (induction ts arbitrary: s)
  case (Cons t ts)
  show ?case
  proof (cases "u = t")
    case True
    then have "owed (snd (alert t s)) u" using Cons.prems alert_delivers alert_succeeds by simp
    then show ?thesis using fold_keeps by simp
  qed (use Cons in simp)
qed simp

end

text \<open>An alert is owed to a thread when it is pending or its wait entry has been signalled.\<close>

definition al_alert_owed :: "alert_state \<Rightarrow> tid \<Rightarrow> bool" where
  "al_alert_owed s t \<longleftrightarrow> t \<in> set (al_PendingListHead s) \<or>
     (\<exists>e. ae_Thread (al_Entries s e) = t \<and> ae_Woken (al_Entries s e) \<and> ae_Event (al_Entries s e))"

lemmas NtAlert_defs = NtAlertThreadByThreadId_def LdkpRemoveAlertByThreadIdWaiterLocked_def
  LdkpHasPendingAlertByThreadIdLocked_def al_KeSetEvent_def al_ObReference_def al_ObDereference_def
  al_mark_woken_def al_alert_owed_def

lemma al_alert_delivers:
  assumes "NT_SUCCESS (fst (NtAlertThreadByThreadId lookup alloc t s))"
  shows "al_alert_owed (snd (NtAlertThreadByThreadId lookup alloc t s)) t"
proof (cases "List.find (\<lambda>e. ae_Thread (al_Entries s e) = t) (al_ListHead s)")
  case None
  then show ?thesis using assms
    by (auto simp: NtAlert_defs Let_def split: if_splits)
next
  case (Some e)
  then have "ae_Thread (al_Entries s e) = t" by (auto dest: find_Some_in_set)
  with Some assms show ?thesis
    by (auto simp: NtAlert_defs Let_def split: if_splits intro!: exI [of _ e])
qed

lemma al_alert_monotone:
  fixes lookup alloc t s
  defines "s' \<equiv> snd (NtAlertThreadByThreadId lookup alloc t s)"
  shows "set (al_PendingListHead s) \<subseteq> set (al_PendingListHead s')"
    and "ae_Thread (al_Entries s' e) = ae_Thread (al_Entries s e)"
    and "ae_Woken (al_Entries s e) \<Longrightarrow> ae_Woken (al_Entries s' e)"
    and "ae_Event (al_Entries s e) \<Longrightarrow> ae_Event (al_Entries s' e)"
  unfolding s'_def
  by (cases "List.find (\<lambda>e. ae_Thread (al_Entries s e) = t) (al_ListHead s)";
      auto simp: NtAlert_defs Let_def)+

lemma al_alert_keeps:
  assumes "al_alert_owed s u"
  shows "al_alert_owed (snd (NtAlertThreadByThreadId lookup alloc t s)) u"
  using assms al_alert_monotone [where lookup = lookup and alloc = alloc and t = t and s = s]
  unfolding al_alert_owed_def by (metis subsetD)

interpretation al_service: alert_service "NtAlertThreadByThreadId lookup True" al_alert_owed
    "\<lambda>t. NT_SUCCESS (lookup t)" for lookup
proof
  fix t s
  assume "NT_SUCCESS (lookup t)"
  then show "NT_SUCCESS (fst (NtAlertThreadByThreadId lookup True t s))"
    by (auto simp: NtAlertThreadByThreadId_def Let_def split: option.splits prod.splits)
qed (rule al_alert_delivers al_alert_keeps, assumption)+

lemma LdkpAlertThreadIds_fold:
  "LdkpAlertThreadIds lookup alloc ts s =
     (fst s, fold (\<lambda>t a. snd (NtAlertThreadByThreadId lookup alloc t a)) ts (snd s))"
  by (induction ts arbitrary: s) (auto simp: split_paired_all)

section \<open>The wake calls without interference\<close>

definition wa_delivered :: "wa_world \<Rightarrow> tid \<Rightarrow> bool" where
  "wa_delivered s t \<longleftrightarrow> we_Woken (wa_Entries (fst s) t) \<and> \<not> we_InList (wa_Entries (fst s) t) \<and>
     al_alert_owed (snd s) t"

lemma wa_collect_eq:
  "wa_collect a al n s = (ts, s1) \<longleftrightarrow>
     ts = fst (scan_collect (wa_matches a (fst s)) al n (wa_ListHead (fst s))) \<and>
     s1 = ((fst s)\<lparr>wa_ListHead := snd (scan_collect (wa_matches a (fst s)) al n (wa_ListHead (fst s))),
                   wa_Entries := wa_mark_woken ts (wa_Entries (fst s))\<rparr>, snd s)"
  by (auto simp: wa_collect_def LdkpCollectWaitOnAddressThreadIds_def split_beta)

interpretation wa_batch: batch_source "\<lambda>s. wa_ListHead (fst s)" "\<lambda>s. wa_matches a (fst s)"
    "wa_collect a True LDK_WAIT_ON_ADDRESS_WAKE_BATCH" "LdkpAlertThreadIds lookup True"
    LDK_WAIT_ON_ADDRESS_WAKE_BATCH
    "\<lambda>s. \<forall>t\<in>set (wa_ListHead (fst s)). NT_SUCCESS (lookup t)" wa_delivered
  for a lookup
proof
  fix s b s1
  assume c: "wa_collect a True LDK_WAIT_ON_ADDRESS_WAKE_BATCH s = (b, s1)"
    and g: "\<forall>t\<in>set (wa_ListHead (fst s)). NT_SUCCESS (lookup t)"
  let ?n = "LDK_WAIT_ON_ADDRESS_WAKE_BATCH" and ?q = "wa_ListHead (fst s)" and ?m = "wa_matches a (fst s)"
  note c1 = c [unfolded wa_collect_eq]
  show "b = take ?n (filter ?m ?q)" using c1 by (simp add: scan_collect_all)
  show "filter ?m (wa_ListHead (fst s1)) = drop ?n (filter ?m ?q) \<and>
      filter (\<lambda>x. \<not> ?m x) (wa_ListHead (fst s1)) = filter (\<lambda>x. \<not> ?m x) ?q"
    using c1 by (simp add: scan_collect_all_rest scan_collect_rest_unmatched)
  have sub: "set b \<subseteq> set ?q" using c1 scan_collect_taken [of ?m True ?n ?q] by auto
  show "\<forall>t\<in>set (wa_ListHead (fst (LdkpAlertThreadIds lookup True b s1))). NT_SUCCESS (lookup t)"
  proof -
    have "set (wa_ListHead (fst s1)) \<subseteq> set ?q"
      using c1 scan_collect_rest_set [of ?m True ?n ?q] by auto
    then show ?thesis using g by (auto simp: LdkpAlertThreadIds_fold)
  qed
  show "wa_delivered s1 x" if "wa_delivered s x" for x
    using that c1 by (simp add: wa_delivered_def wa_mark_woken_def)
  show "wa_delivered (LdkpAlertThreadIds lookup True b s1) x" if "x \<in> set b" for x
  proof -
    have "al_alert_owed (fold (\<lambda>t a. snd (NtAlertThreadByThreadId lookup True t a)) b (snd s1)) x"
      using al_service.fold_delivers [of b lookup x] sub g that by blast
    then show ?thesis
      using that c1 by (simp add: wa_delivered_def LdkpAlertThreadIds_fold wa_mark_woken_def)
  qed
next
  fix s x b
  assume "wa_delivered s x"
  then show "wa_delivered (LdkpAlertThreadIds lookup True b s) x"
    by (simp add: wa_delivered_def LdkpAlertThreadIds_fold al_service.fold_keeps)
next
  fix s b s1
  assume "wa_collect a True LDK_WAIT_ON_ADDRESS_WAKE_BATCH s = (b, s1)"
  then show "wa_matches a (fst s1) = wa_matches a (fst s)"
    by (auto simp: wa_collect_eq wa_matches_def wa_mark_woken_def fun_eq_iff)
qed (simp_all add: LdkpAlertThreadIds_fold)

text \<open>waking all waiters of an address returns; it unlinks exactly the waiters on that address,
  keeps the others in their order, and every one it unlinked is marked woken and has an alert that
  its wait will find, provided the thread identifiers in the list can be looked up and the alert
  code can allocate.\<close>

theorem wake_address_all:
  assumes "Address \<noteq> NULL" and "\<forall>t\<in>set (wa_ListHead (fst s)). NT_SUCCESS (lookup t)"
  shows "\<exists>s'. RtlWakeAddressAll lookup True Address s = Some s' \<and>
    wa_ListHead (fst s') =
      filter (\<lambda>t. we_Address (wa_Entries (fst s) t) \<noteq> Address) (wa_ListHead (fst s)) \<and>
    (\<forall>t. t \<in> set (wa_ListHead (fst s)) \<and> we_Address (wa_Entries (fst s) t) = Address \<longrightarrow>
       we_Woken (wa_Entries (fst s') t) \<and> al_alert_owed (snd s') t)"
proof -
  from wa_batch.batch_loop_drains [where s = s and a = Address and lookup = lookup, OF assms(2)]
  obtain s' where s': "wa_wake_loop lookup True Address s = Some s'"
      "wa_ListHead (fst s') = filter (\<lambda>x. \<not> wa_matches Address (fst s) x) (wa_ListHead (fst s))"
      "\<And>x. x \<in> set (wa_ListHead (fst s)) \<and> wa_matches Address (fst s) x \<Longrightarrow> wa_delivered s' x"
    unfolding wa_wake_loop_def by blast
  then show ?thesis
    using assms(1)
    by (intro exI [of _ s']) (auto simp: RtlWakeAddressAll_def wa_matches_def wa_delivered_def)
qed

text \<open>Whatever becomes of the alerts, waking all unlinks and marks every waiter on the address.\<close>

definition wa_marked :: "wa_world \<Rightarrow> tid \<Rightarrow> bool" where
  "wa_marked s t \<longleftrightarrow> we_Woken (wa_Entries (fst s) t) \<and> \<not> we_InList (wa_Entries (fst s) t)"

interpretation wa_unlink: batch_source "\<lambda>s. wa_ListHead (fst s)" "\<lambda>s. wa_matches a (fst s)"
    "wa_collect a True LDK_WAIT_ON_ADDRESS_WAKE_BATCH" "LdkpAlertThreadIds lookup alloc"
    LDK_WAIT_ON_ADDRESS_WAKE_BATCH "\<lambda>_. True" wa_marked
  for a lookup alloc
proof
  fix s b s1
  assume c: "wa_collect a True LDK_WAIT_ON_ADDRESS_WAKE_BATCH s = (b, s1)"
  let ?n = "LDK_WAIT_ON_ADDRESS_WAKE_BATCH" and ?q = "wa_ListHead (fst s)" and ?m = "wa_matches a (fst s)"
  note c1 = c [unfolded wa_collect_eq]
  show "b = take ?n (filter ?m ?q)" using c1 by (simp add: scan_collect_all)
  show "filter ?m (wa_ListHead (fst s1)) = drop ?n (filter ?m ?q) \<and>
      filter (\<lambda>x. \<not> ?m x) (wa_ListHead (fst s1)) = filter (\<lambda>x. \<not> ?m x) ?q"
    using c1 by (simp add: scan_collect_all_rest scan_collect_rest_unmatched)
  show "wa_marked s1 x" if "wa_marked s x" for x
    using that c1 by (simp add: wa_marked_def wa_mark_woken_def)
  show "wa_marked (LdkpAlertThreadIds lookup alloc b s1) x" if "x \<in> set b" for x
    using that c1 by (simp add: wa_marked_def LdkpAlertThreadIds_fold wa_mark_woken_def)
next
  fix s x b
  assume "wa_marked s x"
  then show "wa_marked (LdkpAlertThreadIds lookup alloc b s) x"
    by (simp add: wa_marked_def LdkpAlertThreadIds_fold)
next
  fix s b s1
  assume "wa_collect a True LDK_WAIT_ON_ADDRESS_WAKE_BATCH s = (b, s1)"
  then show "wa_matches a (fst s1) = wa_matches a (fst s)"
    by (auto simp: wa_collect_eq wa_matches_def wa_mark_woken_def fun_eq_iff)
qed (simp_all add: LdkpAlertThreadIds_fold)

lemma wake_address_all_marks:
  assumes "Address \<noteq> NULL"
  shows "\<exists>s'. RtlWakeAddressAll lookup alloc Address s = Some s' \<and>
    wa_ListHead (fst s') =
      filter (\<lambda>t. we_Address (wa_Entries (fst s) t) \<noteq> Address) (wa_ListHead (fst s)) \<and>
    (\<forall>t. t \<in> set (wa_ListHead (fst s)) \<and> we_Address (wa_Entries (fst s) t) = Address \<longrightarrow>
       wa_marked s' t)"
proof -
  from wa_unlink.batch_loop_drains [where s = s and a = Address and lookup = lookup and alloc = alloc]
  obtain s' where s': "wa_wake_loop lookup alloc Address s = Some s'"
      "wa_ListHead (fst s') = filter (\<lambda>x. \<not> wa_matches Address (fst s) x) (wa_ListHead (fst s))"
      "\<And>x. x \<in> set (wa_ListHead (fst s)) \<and> wa_matches Address (fst s) x \<Longrightarrow> wa_marked s' x"
    unfolding wa_wake_loop_def by blast
  then show ?thesis
    using assms by (intro exI [of _ s']) (auto simp: RtlWakeAddressAll_def wa_matches_def)
qed

definition wa_two_waiters :: wa_world where
  "wa_two_waiters = (\<lparr>wa_ListHead = [1, 2],
     wa_Entries = (\<lambda>t. \<lparr>we_Address = (if t = 1 then 16 else 24), we_InList = True, we_Woken = False\<rparr>),
     wa_DrainedEvent = False, wa_WaitCount = 2, wa_ShuttingDown = False\<rparr>, al_one_waiter)"

theorem wake_address_all_witness:
  "\<exists>s'. RtlWakeAddressAll (\<lambda>_. STATUS_SUCCESS) True 16 wa_two_waiters = Some s' \<and>
     wa_ListHead (fst s') = [2] \<and> al_alert_owed (snd s') 1"
  using wake_address_all [of 16 wa_two_waiters "\<lambda>_. STATUS_SUCCESS"]
  by (auto simp: wa_two_waiters_def)

section \<open>Entering the wait\<close>

text \<open>a thread goes to sleep only on a value that was still the expected one after it had put
  itself in the wait list, byte by byte for each of the four sizes; if the value changed in
  between, the wait list is what it was, the call returns success and only the count is left to
  drop. So a writer that changes the value and then wakes either is seen by the comparison or
  finds the waiter in the list.\<close>

theorem wait_on_address_enter:
  assumes "t \<notin> set (wa_ListHead s)" and "\<not> wa_ShuttingDown s"
    and "AddressSize \<in> {1, 2, 4, 8}"
    and "\<forall>i<AddressSize. m1 (Address + i) = m1 (CompareAddress + i)"
    and "RtlWaitOnAddress_enter False m1 m2 Address CompareAddress AddressSize t s = (r, s')"
  shows "wa_WaitCount s' = wa_WaitCount s + 1 \<and>
    (if \<forall>i<AddressSize. m2 (Address + i) = m2 (CompareAddress + i)
     then r = WaWait \<and> wa_ListHead s' = wa_ListHead s @ [t] \<and>
       wa_matches Address s' t \<and> \<not> we_Woken (wa_Entries s' t)
     else r = WaDrop STATUS_SUCCESS \<and> wa_ListHead s' = wa_ListHead s)"
proof -
  have vm: "LdkpWaitOnAddressValuesMatch m Address CompareAddress AddressSize \<longleftrightarrow>
      (\<forall>i<AddressSize. m (Address + i) = m (CompareAddress + i))" for m
    using assms(3) by (auto simp: LdkpWaitOnAddressValuesMatch_def le_value_eq simp del: le_value.simps)
  show ?thesis
    using assms(1,2,4,5)
    by (auto simp: RtlWaitOnAddress_enter_def vm LdkpReferenceWaitOnAddressWait_def Let_def
        wa_matches_def remove1_append split: if_splits)
qed

theorem wait_on_address_enter_witness:
  "\<exists>s'. RtlWaitOnAddress_enter False (\<lambda>_. 5) (\<lambda>a. if a = 103 then 6 else 5) 100 200 4 3 (fst wa_two_waiters) =
      (WaDrop STATUS_SUCCESS, s') \<and> wa_ListHead s' = [1, 2] \<and> wa_WaitCount s' = 3"
proof -
  let ?m = "\<lambda>a :: addr. if a = 103 then 6 else 5 :: u8"
  obtain r s' where e: "RtlWaitOnAddress_enter False (\<lambda>_. 5) ?m 100 200 4 3 (fst wa_two_waiters) = (r, s')"
    by fastforce
  have "\<not> (\<forall>i<4. ?m (100 + i) = ?m (200 + i))" by (auto intro!: exI [of _ 3])
  with wait_on_address_enter [OF _ _ _ _ e] e show ?thesis by (simp add: wa_two_waiters_def)
qed

section \<open>A wake whose alert fails\<close>

text \<open>a wake can leave a waiter asleep for good. \<open>LdkpAlertThreadIds\<close> drops the status of
  \<open>NtAlertThreadByThreadId\<close>. If a waiter's timed wait has just ended (it is no longer in the alert
  list) and the alert cannot be queued for want of memory, the wake call has unlinked the waiter
  and marked it woken without any alert owed to it; the waiter, seeing the mark after its timeout,
  enters the second wait, which has no timeout, and blocks.\<close>

theorem wake_without_alert:
  assumes "wa_ListHead (fst s) = [t]" and "we_Address (wa_Entries (fst s) t) = Address"
    and "Address \<noteq> NULL"
    and "\<forall>e\<in>set (al_ListHead (snd s)). ae_Thread (al_Entries (snd s) e) \<noteq> t"
    and "t \<notin> set (al_PendingListHead (snd s))" and "\<not> al_TebPending (snd s) t"
    and "\<not> al_ShuttingDown (snd s)"
  shows "\<exists>s' w'. RtlWakeAddressAll lookup False Address s = Some s' \<and>
    RtlWaitOnAddress_relock t (fst s') = (True, w') \<and> wa_waits_again True STATUS_TIMEOUT \<and>
    fst (NtWaitForAlertByThreadId_enter False t (snd s')) = EnterBlocks"
proof -
  obtain w a where s: "s = (w, a)" by (cases s)
  have n: "List.find (\<lambda>e. ae_Thread (al_Entries a e) = t) (al_ListHead a) = None"
    using assms(4) s by (simp add: find_None_iff_all)
  let ?w = "w\<lparr>wa_ListHead := [], wa_Entries := wa_mark_woken [t] (wa_Entries w)\<rparr>"
  let ?a = "snd (NtAlertThreadByThreadId lookup False t a)"
  have c: "wa_collect Address True LDK_WAIT_ON_ADDRESS_WAKE_BATCH s = ([t], (?w, a))"
    using assms(1,2) s by (simp add: wa_collect_eq wa_matches_def)
  have "RtlWakeAddressAll lookup False Address s = Some (?w, ?a)"
    using assms(3) c unfolding RtlWakeAddressAll_def wa_wake_loop_def
    by (subst batch_loop.simps) simp
  moreover have "al_PendingListHead ?a = al_PendingListHead a" "al_TebPending ?a = al_TebPending a"
    "al_ShuttingDown ?a = al_ShuttingDown a"
    using n by (auto simp: NtAlert_defs Let_def)
  moreover have "we_Woken (wa_Entries ?w t)" by (simp add: wa_mark_woken_def)
  ultimately show ?thesis
    using assms(5-7) s
    by (simp add: RtlWaitOnAddress_relock_def wa_waits_again_def NtWaitForAlertByThreadId_enter_def
        LdkpReferenceAlertByThreadIdWait_def LdkpRemovePendingAlertByThreadIdLocked_def Let_def)
qed

theorem wake_without_alert_witness:
  "\<exists>s. wa_ListHead (fst s) = [1] \<and> (\<exists>s' w'. RtlWakeAddressAll (\<lambda>_. STATUS_SUCCESS) False 16 s = Some s' \<and>
    RtlWaitOnAddress_relock 1 (fst s') = (True, w') \<and>
    fst (NtWaitForAlertByThreadId_enter False 1 (snd s')) = EnterBlocks)"
proof -
  let ?w = "(fst wa_two_waiters)\<lparr>wa_ListHead := [1]\<rparr>"
  let ?a = "LdkpInitializeAlertByThreadIdList (al_one_waiter\<lparr>al_TebPending := (\<lambda>_. False)\<rparr>)"
  have "al_ListHead ?a = []" "al_PendingListHead ?a = []" "\<not> al_TebPending ?a 1" "\<not> al_ShuttingDown ?a"
    by (simp_all add: LdkpInitializeAlertByThreadIdList_def)
  moreover have "we_Address (wa_Entries ?w 1) = 16" by (simp add: wa_two_waiters_def)
  ultimately show ?thesis
    using wake_without_alert [of "(?w, ?a)" 1 16 "\<lambda>_. STATUS_SUCCESS"]
    by (intro exI [of _ "(?w, ?a)"]) (simp, blast)
qed

end
