(* ===== verification/WaitOnAddressMachine.thy ===== *)
theory WaitOnAddressMachine
  imports WaitOnAddress
begin

text \<open>
  Waits on addresses under interleaving (src/ntdll/waitonaddress.c). A step runs one lock region,
  one alert or one kernel wait of one thread; memory may change between any two steps, and the
  entry region takes effect at its second comparison, its first one having seen any earlier memory.
  The alert code enters as a count of alerts per thread: an alert that succeeds leaves at least one,
  and a wait that returns \<open>STATUS_ALERTED\<close> uses one up (\<open>alert_service\<close> in theory WaitOnAddress is
  this contract, proved of the alert code); alerts sent by other callers may come at any time, and
  a thread outside these calls may use alerts up. An alert may also fail, in which case
  \<open>LdkpAlertThreadIds\<close> drops its status and goes on to the next thread: \<open>wlost\<close> remembers that this
  happened to the waiter since it last went to sleep.
\<close>

section \<open>Program points and steps\<close>

datatype wa_pc =
    WaIdle
  | WaChecked addr addr nat
  | WaBlocked addr
  | WaReturned ntstatus
  | WaSecond
  | WaLeave ntstatus
  | WaLeaveSet
  | WaWake addr
  | WaAlert "tid list" "addr option"

record wa_sys =
  wg :: wa_state
  wmem :: mem
  wtok :: "tid \<Rightarrow> nat"
  wpc :: "tid \<Rightarrow> wa_pc"
  wret :: "tid \<Rightarrow> ntstatus"
  wlost :: "tid \<Rightarrow> bool"

definition wa_init :: "wa_sys \<Rightarrow> bool" where
  "wa_init c \<longleftrightarrow> (\<exists>g. wg c = LdkpInitializeWaitOnAddressList g) \<and> (\<forall>t. wpc c t = WaIdle)"

inductive wa_step :: "wa_sys \<Rightarrow> wa_sys \<Rightarrow> bool" where
  memory_write: "wa_step c (c\<lparr>wmem := m\<rparr>)"
| stray_alert: "wtok c t \<le> n \<Longrightarrow> wa_step c (c\<lparr>wtok := (wtok c)(t := n)\<rparr>)"
| other_wait: "wpc c t = WaIdle \<Longrightarrow> wtok c t = Suc n \<Longrightarrow> wa_step c (c\<lparr>wtok := (wtok c)(t := n)\<rparr>)"
| wait_call_returns: "wpc c w = WaIdle \<Longrightarrow>
    RtlWaitOnAddress_check (wmem c) Address CompareAddress AddressSize = Some st \<Longrightarrow>
    wa_step c (c\<lparr>wret := (wret c)(w := st)\<rparr>)"
| wait_call: "wpc c w = WaIdle \<Longrightarrow>
    RtlWaitOnAddress_check (wmem c) Address CompareAddress AddressSize = None \<Longrightarrow>
    wa_step c (c\<lparr>wpc := (wpc c)(w := WaChecked Address CompareAddress AddressSize)\<rparr>)"
| enter_returns: "wpc c w = WaChecked Address CompareAddress AddressSize \<Longrightarrow>
    RtlWaitOnAddress_enter shutdown earlier (wmem c) Address CompareAddress AddressSize w (wg c) =
      (WaReturn st, g) \<Longrightarrow>
    wa_step c (c\<lparr>wg := g, wpc := (wpc c)(w := WaIdle), wret := (wret c)(w := st)\<rparr>)"
| enter_drops: "wpc c w = WaChecked Address CompareAddress AddressSize \<Longrightarrow>
    RtlWaitOnAddress_enter shutdown earlier (wmem c) Address CompareAddress AddressSize w (wg c) =
      (WaDrop st, g) \<Longrightarrow>
    wa_step c (c\<lparr>wg := g, wpc := (wpc c)(w := WaLeave st)\<rparr>)"
| enter_waits: "wpc c w = WaChecked Address CompareAddress AddressSize \<Longrightarrow>
    RtlWaitOnAddress_enter shutdown earlier (wmem c) Address CompareAddress AddressSize w (wg c) =
      (WaWait, g) \<Longrightarrow>
    wa_step c (c\<lparr>wg := g, wpc := (wpc c)(w := WaBlocked Address), wlost := (wlost c)(w := False)\<rparr>)"
| wait_alerted: "wpc c w = WaBlocked Address \<Longrightarrow> wtok c w = Suc n \<Longrightarrow>
    wa_step c (c\<lparr>wtok := (wtok c)(w := n), wpc := (wpc c)(w := WaReturned STATUS_ALERTED)\<rparr>)"
| wait_fails: "wpc c w = WaBlocked Address \<Longrightarrow> st = STATUS_TIMEOUT \<or> st = STATUS_DELETE_PENDING \<Longrightarrow>
    wa_step c (c\<lparr>wpc := (wpc c)(w := WaReturned st)\<rparr>)"
| relock: "wpc c w = WaReturned st \<Longrightarrow> RtlWaitOnAddress_relock w (wg c) = (woken, g) \<Longrightarrow>
    wa_step c (c\<lparr>wg := g, wpc := (wpc c)(w :=
      if wa_waits_again woken st then WaSecond else WaLeave (wa_wait_result st))\<rparr>)"
| second_alerted: "wpc c w = WaSecond \<Longrightarrow> wtok c w = Suc n \<Longrightarrow>
    wa_step c (c\<lparr>wtok := (wtok c)(w := n), wpc := (wpc c)(w := WaLeave (wa_wait_result STATUS_ALERTED))\<rparr>)"
| second_refused: "wpc c w = WaSecond \<Longrightarrow>
    wa_step c (c\<lparr>wpc := (wpc c)(w := WaLeave (wa_wait_result STATUS_DELETE_PENDING))\<rparr>)"
| leave: "wpc c w = WaLeave st \<Longrightarrow> wa_decrement (wg c) = (zero, g) \<Longrightarrow>
    wa_step c (c\<lparr>wg := g, wpc := (wpc c)(w := if zero then WaLeaveSet else WaIdle),
                 wret := (wret c)(w := st)\<rparr>)"
| leave_set: "wpc c w = WaLeaveSet \<Longrightarrow>
    wa_step c (c\<lparr>wg := wa_set_drained (wg c), wpc := (wpc c)(w := WaIdle)\<rparr>)"
| wake_single: "wpc c k = WaIdle \<Longrightarrow> Address \<noteq> NULL \<Longrightarrow>
    LdkpCollectWaitOnAddressThreadIds Address False 1 (wg c) = (ts, g) \<Longrightarrow>
    wa_step c (c\<lparr>wg := g, wpc := (wpc c)(k := WaAlert ts None)\<rparr>)"
| wake_all: "wpc c k = WaIdle \<Longrightarrow> Address \<noteq> NULL \<Longrightarrow>
    wa_step c (c\<lparr>wpc := (wpc c)(k := WaWake Address)\<rparr>)"
| shutdown: "wpc c k = WaIdle \<Longrightarrow>
    wa_step c (c\<lparr>wg := (wg c)\<lparr>wa_ShuttingDown := True\<rparr>, wpc := (wpc c)(k := WaWake NULL)\<rparr>)"
| wake_collect: "wpc c k = WaWake Address \<Longrightarrow>
    LdkpCollectWaitOnAddressThreadIds Address True LDK_WAIT_ON_ADDRESS_WAKE_BATCH (wg c) = (ts, g) \<Longrightarrow>
    wa_step c (c\<lparr>wg := g, wpc := (wpc c)(k := WaAlert ts
      (if length ts = LDK_WAIT_ON_ADDRESS_WAKE_BATCH then Some Address else None))\<rparr>)"
| alert: "wpc c k = WaAlert (t # ts) again \<Longrightarrow> wtok c t \<le> n \<Longrightarrow> 1 \<le> n \<Longrightarrow>
    wa_step c (c\<lparr>wtok := (wtok c)(t := n), wpc := (wpc c)(k := WaAlert ts again)\<rparr>)"
| alert_fails: "wpc c k = WaAlert (t # ts) again \<Longrightarrow>
    wa_step c (c\<lparr>wlost := (wlost c)(t := True), wpc := (wpc c)(k := WaAlert ts again)\<rparr>)"
| alert_done: "wpc c k = WaAlert [] again \<Longrightarrow>
    wa_step c (c\<lparr>wpc := (wpc c)(k := (case again of None \<Rightarrow> WaIdle | Some a \<Rightarrow> WaWake a))\<rparr>)"

inductive_cases wa_stepE: "wa_step c d"

abbreviation wa_reach :: "wa_sys \<Rightarrow> bool" where
  "wa_reach \<equiv> reach wa_init wa_step"

lemmas wa_reach_step = reach_step [of wa_init wa_step]

section \<open>Invariant\<close>

fun wa_owed :: "wa_pc \<Rightarrow> tid list" where
  "wa_owed (WaAlert ts again) = ts"
| "wa_owed _ = []"

text \<open>What a marked waiter \<open>w\<close> has: an alert, a waker that holds its identifier, or an alert that
  failed.\<close>

definition wa_due :: "wa_sys \<Rightarrow> tid \<Rightarrow> bool" where
  "wa_due c w \<longleftrightarrow> 1 \<le> wtok c w \<or> (\<exists>k. w \<in> set (wa_owed (wpc c k))) \<or> wlost c w"

definition wa_listed :: "wa_state \<Rightarrow> tid \<Rightarrow> bool" where
  "wa_listed g w \<longleftrightarrow> w \<in> set (wa_ListHead g) \<and> we_InList (wa_Entries g w) \<and> \<not> we_Woken (wa_Entries g w)"

definition wa_unlinked :: "wa_state \<Rightarrow> tid \<Rightarrow> bool" where
  "wa_unlinked g w \<longleftrightarrow> w \<notin> set (wa_ListHead g) \<and> \<not> we_InList (wa_Entries g w) \<and> we_Woken (wa_Entries g w)"

definition wa_ok :: "wa_sys \<Rightarrow> tid \<Rightarrow> bool" where
  "wa_ok c w \<longleftrightarrow> (case wpc c w of
      WaChecked a _ _ \<Rightarrow> a \<noteq> NULL \<and> w \<notin> set (wa_ListHead (wg c))
    | WaBlocked a \<Rightarrow> a \<noteq> NULL \<and> we_Address (wa_Entries (wg c) w) = a \<and>
        (wa_listed (wg c) w \<or> wa_unlinked (wg c) w \<and> wa_due c w)
    | WaReturned st \<Rightarrow> (wa_listed (wg c) w \<or> wa_unlinked (wg c) w) \<and>
        (st \<noteq> STATUS_ALERTED \<longrightarrow> wa_listed (wg c) w \<or> wa_due c w)
    | WaSecond \<Rightarrow> w \<notin> set (wa_ListHead (wg c)) \<and> wa_due c w
    | _ \<Rightarrow> w \<notin> set (wa_ListHead (wg c)))"

definition wa_inv :: "wa_sys \<Rightarrow> bool" where
  "wa_inv c \<longleftrightarrow> distinct (wa_ListHead (wg c)) \<and> (\<forall>w. wa_ok c w)"

lemma wa_invD: "wa_inv c \<Longrightarrow> wa_ok c w"
  by (simp add: wa_inv_def)

text \<open>A waiter's view is kept by a step that leaves its entry alone and loses no alert due to it.\<close>

lemma wa_ok_frame:
  assumes "wa_ok c w" and "wpc d w = wpc c w"
    and "w \<in> set (wa_ListHead (wg d)) \<longleftrightarrow> w \<in> set (wa_ListHead (wg c))"
    and "wa_Entries (wg d) w = wa_Entries (wg c) w" and "wa_due c w \<Longrightarrow> wa_due d w"
  shows "wa_ok d w"
  using assms by (auto simp: wa_ok_def wa_listed_def wa_unlinked_def split: wa_pc.splits)

lemma wa_due_pc:
  assumes "wpc d = (wpc c)(i := p)" and "wa_owed (wpc c i) = []" and "wtok c v \<le> wtok d v"
    and "wlost c v \<Longrightarrow> wlost d v" and "wa_due c v"
  shows "wa_due d v"
proof -
  from assms(5) consider "1 \<le> wtok c v" | k where "v \<in> set (wa_owed (wpc c k))" | "wlost c v"
    by (auto simp: wa_due_def)
  then show ?thesis
  proof cases
    case (2 k)
    then have "k \<noteq> i" using assms(2) by auto
    then have "v \<in> set (wa_owed (wpc d k))" using 2 assms(1) by simp
    then show ?thesis by (auto simp: wa_due_def)
  qed (use assms(3,4) in \<open>auto simp: wa_due_def\<close>)
qed

text \<open>A step of thread \<open>i\<close> that is no waker.\<close>

lemma wa_inv_one:
  assumes inv: "wa_inv c" and pc: "wpc d = (wpc c)(i := p)" and own: "wa_owed (wpc c i) = []"
    and others: "\<And>v. v \<noteq> i \<Longrightarrow> (v \<in> set (wa_ListHead (wg d)) \<longleftrightarrow> v \<in> set (wa_ListHead (wg c))) \<and>
        wa_Entries (wg d) v = wa_Entries (wg c) v \<and> wtok c v \<le> wtok d v \<and> (wlost c v \<longrightarrow> wlost d v)"
    and dist: "distinct (wa_ListHead (wg d))" and i: "wa_ok d i"
  shows "wa_inv d"
proof -
  have "wa_ok d v" for v
  proof (cases "v = i")
    case False
    have "wa_due d v" if "wa_due c v"
      using wa_due_pc [OF pc own _ _ that] others [OF False] by simp
    then show ?thesis
      using False others [OF False] pc by (intro wa_ok_frame [OF wa_invD [OF inv]]) auto
  qed (use i in simp)
  then show ?thesis using dist by (simp add: wa_inv_def)
qed

lemma wa_idle_unlisted:
  "wa_inv c \<Longrightarrow> (\<And>a. wpc c w \<noteq> WaBlocked a) \<Longrightarrow> (\<And>st. wpc c w \<noteq> WaReturned st) \<Longrightarrow> w \<notin> set (wa_ListHead (wg c))"
  using wa_invD [of c w] by (auto simp: wa_ok_def split: wa_pc.splits)

lemma wa_collect_inv:
  assumes inv: "wa_inv c" and k: "wpc c k = WaIdle \<or> wpc c k = WaWake a'"
    and col: "LdkpCollectWaitOnAddressThreadIds a al n (wg c) = (ts, g)"
  shows "wa_inv (c\<lparr>wg := g, wpc := (wpc c)(k := WaAlert ts again)\<rparr>)" (is "wa_inv ?d")
proof -
  let ?l = "wa_ListHead (wg c)"
  have dist: "distinct ?l" using inv by (simp add: wa_inv_def)
  have ts: "ts = fst (scan_collect (wa_matches a (wg c)) al n ?l)"
    and g: "g = (wg c)\<lparr>wa_ListHead := snd (scan_collect (wa_matches a (wg c)) al n ?l),
        wa_Entries := wa_mark_woken ts (wa_Entries (wg c))\<rparr>"
    using col by (auto simp: LdkpCollectWaitOnAddressThreadIds_def split_beta)
  have l: "wa_ListHead g = filter (\<lambda>x. x \<notin> set ts) ?l" and sub: "set ts \<subseteq> set ?l"
    using scan_collect_distinct [OF dist, of "wa_matches a (wg c)" al n]
      scan_collect_taken [of "wa_matches a (wg c)" al n ?l] by (auto simp: ts g)
  have kl: "k \<notin> set ?l" using wa_idle_unlisted [OF inv, of k] k by auto
  have due: "wa_due ?d v" if "wa_due c v \<or> v \<in> set ts" for v
  proof -
    from that consider "1 \<le> wtok c v" | "v \<in> set ts" | j where "v \<in> set (wa_owed (wpc c j))" | "wlost c v"
      by (auto simp: wa_due_def)
    then show ?thesis
    proof cases
      case (3 j)
      then have "j \<noteq> k" using k by auto
      then show ?thesis using 3 by (auto simp: wa_due_def)
    qed (auto simp: wa_due_def)
  qed
  have "wa_ok ?d v" for v
  proof (cases "v \<in> set ts")
    case True
    then have vk: "v \<noteq> k" "v \<in> set ?l" using sub kl by auto
    then have "wa_unlinked g v" "we_Address (wa_Entries g v) = we_Address (wa_Entries (wg c) v)"
      using True g l by (auto simp: wa_unlinked_def wa_mark_woken_def)
    then show ?thesis
      using True vk due [of v] wa_invD [OF inv, of v]
      by (auto simp: wa_ok_def split: wa_pc.splits)
  next
    case False
    show ?thesis
    proof (cases "v = k")
      case True
      then show ?thesis using kl l by (simp add: wa_ok_def)
    next
      case False
      show ?thesis
        using \<open>v \<notin> set ts\<close> False due [of v] l
        by (intro wa_ok_frame [OF wa_invD [OF inv]]) (auto simp: g wa_mark_woken_def)
    qed
  qed
  then show ?thesis using dist l by (simp add: wa_inv_def)
qed

lemma wa_enter_cases:
  assumes "RtlWaitOnAddress_enter sd m1 m2 a b n w g = (r, g')" and "w \<notin> set (wa_ListHead g)"
  shows "case r of
      WaReturn st \<Rightarrow> g' = g
    | WaDrop st \<Rightarrow> wa_ListHead g' = wa_ListHead g \<and> (\<forall>v. v \<noteq> w \<longrightarrow> wa_Entries g' v = wa_Entries g v)
    | WaWait \<Rightarrow> wa_ListHead g' = wa_ListHead g @ [w] \<and> we_InList (wa_Entries g' w) \<and>
        \<not> we_Woken (wa_Entries g' w) \<and> we_Address (wa_Entries g' w) = a \<and> (\<forall>v. v \<noteq> w \<longrightarrow> wa_Entries g' v = wa_Entries g v)"
  using assms
  by (auto simp: RtlWaitOnAddress_enter_def LdkpReferenceWaitOnAddressWait_def Let_def remove1_append
      split: if_splits)

lemma wa_step_inv:
  assumes step: "wa_step c d" and inv: "wa_inv c"
  shows "wa_inv d"
proof -
  have dist: "distinct (wa_ListHead (wg c))" using inv by (simp add: wa_inv_def)
  have off: "w \<notin> set (wa_ListHead (wg c))"
    if "\<And>a. wpc c w \<noteq> WaBlocked a" "\<And>st. wpc c w \<noteq> WaReturned st" for w
    by (rule wa_idle_unlisted [OF inv that])
  from step show ?thesis
  proof (cases rule: wa_step.cases)
    case (memory_write m)
    then show ?thesis using inv by (auto simp: wa_inv_def wa_ok_def wa_due_def cong: wa_pc.case_cong)
  next
    case (stray_alert t n)
    show ?thesis unfolding wa_inv_def
    proof (intro conjI allI)
      fix w
      show "wa_ok d w" using stray_alert
        by (intro wa_ok_frame [OF wa_invD [OF inv]]) (auto simp: wa_due_def)
    qed (use stray_alert dist in simp)
  next
    case (wait_call_returns w Address CompareAddress AddressSize st)
    then show ?thesis using inv by (auto simp: wa_inv_def wa_ok_def wa_due_def cong: wa_pc.case_cong)
  next
    case (enter_returns w Address CompareAddress AddressSize shutdown earlier st g)
    then show ?thesis
      using off [of w] wa_enter_cases [OF enter_returns(3)] dist
      by (intro wa_inv_one [OF inv, of d w]) (auto simp: wa_ok_def)
  next
    case (enter_drops w Address CompareAddress AddressSize shutdown earlier st g)
    then show ?thesis
      using off [of w] wa_enter_cases [OF enter_drops(3)] dist
      by (intro wa_inv_one [OF inv, of d w]) (auto simp: wa_ok_def)
  next
    case (enter_waits w Address CompareAddress AddressSize shutdown earlier g)
    then show ?thesis
      using off [of w] wa_enter_cases [OF enter_waits(3)] dist wa_invD [OF inv, of w]
      by (intro wa_inv_one [OF inv, of d w]) (auto simp: wa_ok_def wa_listed_def)
  next
    case (wait_alerted w Address n)
    then show ?thesis
      using wa_invD [OF inv, of w] dist
      by (intro wa_inv_one [OF inv, of d w]) (auto simp: wa_ok_def)
  next
    case (wait_fails w Address st)
    then have "wa_due c w \<Longrightarrow> wa_due d w" by (intro wa_due_pc [of d c w]) auto
    then show ?thesis
      using wait_fails wa_invD [OF inv, of w] dist
      by (intro wa_inv_one [OF inv, of d w]) (auto simp: wa_ok_def)
  next
    case (relock w st woken g)
    have g: "wa_ListHead g = (if we_InList (wa_Entries (wg c) w) then remove1 w (wa_ListHead (wg c))
          else wa_ListHead (wg c))" "woken = we_Woken (wa_Entries (wg c) w)"
        "\<And>v. v \<noteq> w \<Longrightarrow> wa_Entries g v = wa_Entries (wg c) v"
      using relock(3) by (auto simp: RtlWaitOnAddress_relock_def)
    have "wa_due c w \<Longrightarrow> wa_due d w" using relock by (intro wa_due_pc [of d c w]) auto
    then have "wa_ok d w"
      using relock(1,2) g dist wa_invD [OF inv, of w]
      by (auto simp: wa_ok_def wa_listed_def wa_unlinked_def wa_waits_again_def)
    then show ?thesis
      using relock(1,2) g dist
      by (intro wa_inv_one [OF inv, where i = w]) auto
  next
    case (second_alerted w n)
    then show ?thesis
      using off [of w] dist by (intro wa_inv_one [OF inv, of d w]) (auto simp: wa_ok_def)
  next
    case (leave w st zero g)
    then show ?thesis
      using off [of w] dist
      by (intro wa_inv_one [OF inv, of d w]) (auto simp: wa_ok_def wa_decrement_def)
  next
    case (leave_set w)
    then show ?thesis
      using off [of w] dist
      by (intro wa_inv_one [OF inv, of d w]) (auto simp: wa_ok_def wa_set_drained_def)
  next
    case (wake_single k Address ts g)
    then show ?thesis using wa_collect_inv [OF inv _ wake_single(4), of k] by simp
  next
    case (wake_collect k Address ts g)
    then show ?thesis using wa_collect_inv [OF inv _ wake_collect(3), of k Address] by simp
  next
    case (alert k t ts again n)
    show ?thesis unfolding wa_inv_def
    proof (intro conjI allI)
      fix w
      have "wa_due d w" if "wa_due c w"
      proof -
        from that consider "1 \<le> wtok c w" | j where "w \<in> set (wa_owed (wpc c j))" | "wlost c w"
          by (auto simp: wa_due_def)
        then show ?thesis
        proof cases
          case (2 j)
          then show ?thesis
            using alert by (cases "j = k") (auto simp: wa_due_def dest!: spec [of _ j] spec [of _ k])
        qed (use alert in \<open>auto simp: wa_due_def\<close>)
      qed
      then show "wa_ok d w"
      proof (cases "w = k")
        case True
        then show ?thesis using alert off [of k] by (simp add: wa_ok_def)
      next
        case False
        then show ?thesis using alert \<open>wa_due c w \<Longrightarrow> wa_due d w\<close>
          by (intro wa_ok_frame [OF wa_invD [OF inv]]) auto
      qed
    qed (use alert dist in simp)
  next
    case (alert_fails k t ts again)
    have due: "wa_due d w" if "wa_due c w" for w
    proof -
      from that consider "1 \<le> wtok c w" | j where "w \<in> set (wa_owed (wpc c j))" | "wlost c w"
        by (auto simp: wa_due_def)
      then show ?thesis
      proof cases
        case (2 j)
        then show ?thesis
          using alert_fails by (cases "j = k") (auto simp: wa_due_def dest!: spec [of _ j] spec [of _ k])
      qed (use alert_fails in \<open>auto simp: wa_due_def\<close>)
    qed
    show ?thesis unfolding wa_inv_def
    proof (intro conjI allI)
      show "wa_ok d w" for w
      proof (cases "w = k")
        case True
        then show ?thesis using alert_fails off [of k] by (simp add: wa_ok_def)
      next
        case False
        then show ?thesis using alert_fails due
          by (intro wa_ok_frame [OF wa_invD [OF inv]]) auto
      qed
    qed (use alert_fails dist in simp)
  next
    case (other_wait t n)
    then show ?thesis
      using off [of t] dist by (intro wa_inv_one [OF inv, of d t]) (auto simp: wa_ok_def)
  next
    case (wait_call w Address CompareAddress AddressSize)
    then show ?thesis
      using off [of w] dist by (intro wa_inv_one [OF inv, of d w])
        (auto simp: wa_ok_def RtlWaitOnAddress_check_def split: if_splits)
  next
    case (second_refused w)
    then show ?thesis
      using off [of w] dist by (intro wa_inv_one [OF inv, of d w]) (auto simp: wa_ok_def)
  next
    case (wake_all k Address)
    then show ?thesis
      using off [of k] dist by (intro wa_inv_one [OF inv, of d k]) (auto simp: wa_ok_def)
  next
    case (shutdown k)
    then show ?thesis
      using off [of k] dist by (intro wa_inv_one [OF inv, of d k]) (auto simp: wa_ok_def)
  next
    case (alert_done k again)
    then show ?thesis
      using off [of k] dist
      by (intro wa_inv_one [OF inv, of d k]) (auto simp: wa_ok_def split: option.splits)
  qed
qed

lemma wa_reach_inv: "wa_reach c \<Longrightarrow> wa_inv c"
proof (induction rule: reach_induct)
  case (init c)
  then show ?case
    by (auto simp: wa_init_def wa_inv_def wa_ok_def LdkpInitializeWaitOnAddressList_def)
next
  case (step c d)
  then show ?case by (auto intro: wa_step_inv)
qed

section \<open>What one step does to the threads of an address\<close>

lemma wa_step_checked:
  assumes "wa_step e d" and "wpc d t = WaChecked a ca n"
  shows "wpc e t = WaIdle \<or> wpc e t = WaChecked a ca n"
  using assms by (cases rule: wa_step.cases) (auto split: if_splits option.splits)

text \<open>A thread goes to sleep only out of a comparison that held on the memory of that moment, and
  stays out of the list once it is out of it.\<close>

lemma wa_step_blocked:
  assumes "wa_step e d" and "wpc d t = WaBlocked a"
  shows "wpc e t = WaBlocked a \<and>
      (t \<in> set (wa_ListHead (wg d)) \<longrightarrow> t \<in> set (wa_ListHead (wg e))) \<or>
    (\<exists>ca n. wpc e t = WaChecked a ca n \<and> LdkpWaitOnAddressValuesMatch (wmem e) a ca n)"
  using assms(1)
proof (cases rule: wa_step.cases)
  case (relock w st woken g)
  then show ?thesis using assms(2) notin_set_remove1 [of t "wa_ListHead (wg e)" w]
    by (auto simp: RtlWaitOnAddress_relock_def split: if_splits)
next
  case (wake_single k Address ts g)
  then show ?thesis
    using assms(2) scan_collect_rest_set [of "wa_matches Address (wg e)" False 1 "wa_ListHead (wg e)"]
    by (auto simp: LdkpCollectWaitOnAddressThreadIds_def split_beta split: if_splits)
next
  case (wake_collect k Address ts g)
  then show ?thesis
    using assms(2) scan_collect_rest_set [of "wa_matches Address (wg e)" True
        LDK_WAIT_ON_ADDRESS_WAKE_BATCH "wa_ListHead (wg e)"]
    by (auto simp: LdkpCollectWaitOnAddressThreadIds_def split_beta split: if_splits)
qed (use assms(2) in \<open>auto simp: RtlWaitOnAddress_enter_def LdkpReferenceWaitOnAddressWait_def Let_def
    wa_decrement_def wa_set_drained_def remove1_append split: if_splits option.splits\<close>)

text \<open>A thread inside \<open>RtlWakeAddressAll\<close> that will walk the list again.\<close>

definition wa_scanning :: "addr \<Rightarrow> wa_pc \<Rightarrow> bool" where
  "wa_scanning a p \<longleftrightarrow> p = WaWake a \<or> (\<exists>ts. p = WaAlert ts (Some a))"

text \<open>It leaves no waiter of the address behind.\<close>

lemma wa_step_scanning:
  assumes "wa_step e d" and "wa_scanning a (wpc e k)"
  shows "wa_scanning a (wpc d k) \<or>
    (\<forall>t\<in>set (wa_ListHead (wg d)). we_Address (wa_Entries (wg d) t) \<noteq> a)"
  using assms(1)
proof (cases rule: wa_step.cases)
  case (wake_collect i Address ts g)
  let ?n = LDK_WAIT_ON_ADDRESS_WAKE_BATCH and ?P = "wa_matches Address (wg e)"
    and ?l = "wa_ListHead (wg e)"
  have ts: "ts = take ?n (filter ?P ?l)"
    and l: "wa_ListHead g = snd (scan_collect ?P True ?n ?l)"
    and a: "\<And>t. we_Address (wa_Entries g t) = we_Address (wa_Entries (wg e) t)"
    using wake_collect(3)
    by (auto simp: LdkpCollectWaitOnAddressThreadIds_def split_beta scan_collect_all wa_mark_woken_def)
  show ?thesis
  proof (cases "k = i \<and> length ts \<noteq> ?n")
    case True
    then have "Address = a" using assms(2) wake_collect(2) by (auto simp: wa_scanning_def)
    have "length (filter ?P ?l) \<le> ?n" using True ts by auto
    then have "filter ?P (wa_ListHead g) = []" using l scan_collect_all_rest [of ?P ?n ?l] by simp
    then show ?thesis
      using \<open>Address = a\<close> wake_collect(1) a by (auto simp: filter_empty_conv wa_matches_def)
  next
    case False
    then show ?thesis using assms(2) wake_collect(1,2) by (auto simp: wa_scanning_def)
  qed
qed (use assms(2) in \<open>auto simp: wa_scanning_def split: option.splits\<close>)

section \<open>An example run\<close>

text \<open>Thread 1 waits on address 16 (one byte, equal to the byte at 32), its wait times out, thread 2
  wakes it before it has the list lock again.\<close>

definition wa_c0 :: wa_sys where
  "wa_c0 = \<lparr>wg = LdkpInitializeWaitOnAddressList \<lparr>wa_ListHead = [],
        wa_Entries = (\<lambda>_. \<lparr>we_Address = 0, we_InList = False, we_Woken = False\<rparr>),
        wa_DrainedEvent = True, wa_WaitCount = 0, wa_ShuttingDown = False\<rparr>,
     wmem = (\<lambda>_. 0), wtok = (\<lambda>_. 0), wpc = (\<lambda>_. WaIdle), wret = (\<lambda>_. STATUS_SUCCESS),
     wlost = (\<lambda>_. False)\<rparr>"

definition wa_c1 :: wa_sys where
  "wa_c1 = wa_c0\<lparr>wg := snd (RtlWaitOnAddress_enter False (\<lambda>_. 0) (\<lambda>_. 0) 16 32 1 1 (wg wa_c0)),
     wpc := (wpc wa_c0)(1 := WaBlocked 16), wlost := (wlost wa_c0)(1 := False)\<rparr>"

definition wa_c2 :: wa_sys where
  "wa_c2 = wa_c1\<lparr>wg := snd (LdkpCollectWaitOnAddressThreadIds 16 False 1 (wg wa_c1)),
     wpc := (wpc wa_c1)(1 := WaReturned STATUS_TIMEOUT, 2 := WaAlert [1] None)\<rparr>"

definition wa_c3 :: wa_sys where
  "wa_c3 = wa_c2\<lparr>wpc := (wpc wa_c2)(1 := WaSecond)\<rparr>"

lemmas wa_run_defs = wa_c0_def wa_c1_def wa_c2_def wa_c3_def LdkpInitializeWaitOnAddressList_def
  RtlWaitOnAddress_enter_def LdkpReferenceWaitOnAddressWait_def LdkpWaitOnAddressValuesMatch_def
  LdkpCollectWaitOnAddressThreadIds_def wa_matches_def wa_mark_woken_def RtlWaitOnAddress_relock_def

lemma wa_run: "wa_reach wa_c1" "wa_reach wa_c3"
proof -
  have r0: "wa_reach wa_c0" by (rule reach_init) (auto simp: wa_init_def wa_c0_def)
  let ?c = "wa_c0\<lparr>wpc := (wpc wa_c0)(1 := WaChecked 16 32 1)\<rparr>"
  have r: "wa_reach ?c"
    by (rule wa_reach_step [OF r0 wa_step.wait_call])
      (simp_all add: wa_c0_def RtlWaitOnAddress_check_def LdkpWaitOnAddressValuesMatch_def)
  have e: "RtlWaitOnAddress_enter False (\<lambda>_. 0) (wmem ?c) 16 32 1 1 (wg ?c) = (WaWait, wg wa_c1)"
    by (simp add: wa_run_defs)
  have "wa_step ?c (?c\<lparr>wg := wg wa_c1, wpc := (wpc ?c)(1 := WaBlocked 16),
      wlost := (wlost ?c)(1 := False)\<rparr>)"
    by (rule wa_step.enter_waits [OF _ e]) simp
  then have "wa_step ?c wa_c1" by (simp add: wa_c1_def wa_c0_def)
  with r show r1: "wa_reach wa_c1" by (rule wa_reach_step)
  let ?d = "wa_c1\<lparr>wpc := (wpc wa_c1)(1 := WaReturned STATUS_TIMEOUT)\<rparr>"
  have rd: "wa_reach ?d"
    by (rule wa_reach_step [OF r1 wa_step.wait_fails]) (simp_all add: wa_c1_def)
  have col: "LdkpCollectWaitOnAddressThreadIds 16 False 1 (wg ?d) = ([1], wg wa_c2)"
    by (simp add: wa_run_defs)
  have "wa_step ?d (?d\<lparr>wg := wg wa_c2, wpc := (wpc ?d)(2 := WaAlert [1] None)\<rparr>)"
    by (rule wa_step.wake_single [OF _ _ col]) (simp_all add: wa_c1_def wa_c0_def)
  then have "wa_step ?d wa_c2" by (simp add: wa_c2_def)
  with rd have r2: "wa_reach wa_c2" by (rule wa_reach_step)
  have rel: "RtlWaitOnAddress_relock 1 (wg wa_c2) = (True, wg wa_c2)"
    by (simp add: wa_run_defs)
  have "wa_step wa_c2 (wa_c2\<lparr>wg := wg wa_c2, wpc := (wpc wa_c2)(1 :=
      if wa_waits_again True STATUS_TIMEOUT then WaSecond else WaLeave (wa_wait_result STATUS_TIMEOUT))\<rparr>)"
    by (rule wa_step.relock [OF _ rel]) (simp add: wa_c2_def)
  then have "wa_step wa_c2 wa_c3" by (simp add: wa_c3_def wa_waits_again_def)
  with r2 show "wa_reach wa_c3" by (rule wa_reach_step)
qed

lemma wa_owed_iff: "w \<in> set (wa_owed p) \<longleftrightarrow> (\<exists>ts again. p = WaAlert ts again \<and> w \<in> set ts)"
  by (cases p) auto

section \<open>What the invariant promises\<close>

text \<open>C4: no wake-up is lost while a thread waits on an address, unless an alert fails. A thread that
  sleeps in \<open>RtlWaitOnAddress\<close> of an address, and that no waker has marked, is unlinked and marked by
  \<open>RtlWakeAddressAll\<close> of that address, which returns whatever the alert code does, and is left
  with an alert when the thread identifiers can be looked up and the alert code can allocate. A
  thread that is marked and still asleep in its first wait, or that waits a second time, without a
  timeout, because its wait failed although a waker had marked it, has an alert that its wait will
  find, or a waker is about to send it one, or the alert a waker sent to it has failed: the wake
  calls drop the status of the alert.\<close>

theorem address_wait_not_lost:
  assumes "wa_reach c"
  shows "(wpc c w = WaBlocked Address \<longrightarrow> \<not> we_Woken (wa_Entries (wg c) w) \<longrightarrow>
      (\<exists>s'. RtlWakeAddressAll lookup alloc Address (wg c, a) = Some s' \<and>
        w \<notin> set (wa_ListHead (fst s')) \<and> we_Woken (wa_Entries (fst s') w) \<and>
        (alloc \<and> (\<forall>t\<in>set (wa_ListHead (wg c)). NT_SUCCESS (lookup t)) \<longrightarrow> al_alert_owed (snd s') w))) \<and>
    (wpc c w = WaBlocked Address \<and> we_Woken (wa_Entries (wg c) w) \<or> wpc c w = WaSecond \<longrightarrow>
      1 \<le> wtok c w \<or> (\<exists>k ts again. wpc c k = WaAlert ts again \<and> w \<in> set ts) \<or> wlost c w)"
proof -
  have ok: "wa_ok c w" using wa_reach_inv [OF assms] by (simp add: wa_inv_def)
  have "\<exists>s'. RtlWakeAddressAll lookup alloc Address (wg c, a) = Some s' \<and>
      w \<notin> set (wa_ListHead (fst s')) \<and> we_Woken (wa_Entries (fst s') w) \<and>
      (alloc \<and> (\<forall>t\<in>set (wa_ListHead (wg c)). NT_SUCCESS (lookup t)) \<longrightarrow> al_alert_owed (snd s') w)"
    if "wpc c w = WaBlocked Address" "\<not> we_Woken (wa_Entries (wg c) w)"
  proof -
    have w: "Address \<noteq> NULL" "w \<in> set (wa_ListHead (wg c))" "we_Address (wa_Entries (wg c) w) = Address"
      using ok that by (auto simp: wa_ok_def wa_listed_def wa_unlinked_def)
    from wake_address_all_marks [OF w(1), of lookup alloc "(wg c, a)"] obtain s' where
      s': "RtlWakeAddressAll lookup alloc Address (wg c, a) = Some s'"
        "w \<notin> set (wa_ListHead (fst s'))" "we_Woken (wa_Entries (fst s') w)"
      using w by (auto simp: wa_marked_def)
    moreover have "al_alert_owed (snd s') w"
      if "alloc" "\<forall>t\<in>set (wa_ListHead (wg c)). NT_SUCCESS (lookup t)"
      using wake_address_all [OF w(1), of "(wg c, a)" lookup] that s'(1) w by auto
    ultimately show ?thesis by blast
  qed
  moreover have "wa_due c w"
    if "wpc c w = WaBlocked Address \<and> we_Woken (wa_Entries (wg c) w) \<or> wpc c w = WaSecond"
    using ok that by (auto simp: wa_ok_def wa_listed_def)
  ultimately show ?thesis by (auto simp: wa_due_def wa_owed_iff)
qed

theorem address_wait_not_lost_witness:
  "wpc wa_c1 1 = WaBlocked 16 \<and>
   (\<exists>s'. RtlWakeAddressAll (\<lambda>_. STATUS_SUCCESS) True 16 (wg wa_c1, al_one_waiter) = Some s' \<and>
      we_Woken (wa_Entries (fst s') 1) \<and> al_alert_owed (snd s') 1) \<and>
   wpc wa_c3 1 = WaSecond \<and>
   (1 \<le> wtok wa_c3 1 \<or> (\<exists>k ts again. wpc wa_c3 k = WaAlert ts again \<and> 1 \<in> set ts) \<or> wlost wa_c3 1)"
proof -
  have p: "wpc wa_c1 1 = WaBlocked 16" "wpc wa_c3 1 = WaSecond"
    by (simp_all add: wa_c1_def wa_c3_def)
  have e: "\<not> we_Woken (wa_Entries (wg wa_c1) 1)" by (simp add: wa_run_defs)
  have ok: "\<forall>t\<in>set (wa_ListHead (wg wa_c1)). NT_SUCCESS ((\<lambda>_. STATUS_SUCCESS) t)" by simp
  show ?thesis
    using address_wait_not_lost [OF wa_run(1), of 1 16 "\<lambda>_. STATUS_SUCCESS" True al_one_waiter]
      address_wait_not_lost [OF wa_run(2), of 1 16 "\<lambda>_. STATUS_SUCCESS" True al_one_waiter] p e ok
    by blast
qed

end
