(* ===== verification/SrwLock.thy ===== *)
theory SrwLock
  imports WaitOnAddressMachine
begin

text \<open>
  The slim reader/writer lock (src/ntdll/srwlock.c): one pointer-sized word, -1 when held
  exclusively and otherwise the number of shared holders. Every operation is one read or one
  interlocked compare-exchange of the word, repeated in a loop; a thread that cannot get the lock
  waits on the word's address. First the atomic operations as functions of the word, then the
  machine of any number of threads taking and releasing the lock. Their waits and wakes are runs of
  the machine of theory WaitOnAddressMachine on the word's address, with its wait list, its batches
  and its alerts, which may fail; the other users of that code run in the same machine.
\<close>

section \<open>The atomic operations\<close>

abbreviation LDK_SRWLOCK_EXCLUSIVE :: u64 where "LDK_SRWLOCK_EXCLUSIVE \<equiv> - 1"

definition InterlockedCompareExchangePointer :: "u64 \<Rightarrow> u64 \<Rightarrow> u64 \<Rightarrow> u64 \<times> u64" where
  "InterlockedCompareExchangePointer Ptr Exchange Comperand =
     (Ptr, if Ptr = Comperand then Exchange else Ptr)"

definition LdkpReadSRWLockValue :: "u64 \<Rightarrow> u64" where
  "LdkpReadSRWLockValue Ptr = Ptr"

definition RtlInitializeSRWLock :: "u64 \<Rightarrow> u64" where
  "RtlInitializeSRWLock Ptr = 0"

definition RtlTryAcquireSRWLockExclusive :: "u64 \<Rightarrow> bool \<times> u64" where
  "RtlTryAcquireSRWLockExclusive Ptr =
     (let (PreviousState, Ptr') = InterlockedCompareExchangePointer Ptr LDK_SRWLOCK_EXCLUSIVE 0
      in (PreviousState = 0, Ptr'))"

text \<open>One turn of the exclusive loop: acquired, or the value to wait on.\<close>

definition srw_acquire_exclusive_turn :: "u64 \<Rightarrow> u64 option \<times> u64" where
  "srw_acquire_exclusive_turn Ptr =
     (let (PreviousState, Ptr') = InterlockedCompareExchangePointer Ptr LDK_SRWLOCK_EXCLUSIVE 0
      in (if PreviousState = 0 then None else Some PreviousState, Ptr'))"

definition srw_release_exclusive :: "u64 \<Rightarrow> ntstatus option \<times> u64" where
  "srw_release_exclusive Ptr =
     (let (PreviousState, Ptr') = InterlockedCompareExchangePointer Ptr 0 LDK_SRWLOCK_EXCLUSIVE
      in (if PreviousState \<noteq> LDK_SRWLOCK_EXCLUSIVE then Some STATUS_RESOURCE_NOT_OWNED else None, Ptr'))"

text \<open>The compare-exchange of the shared loop, after \<open>State\<close> has been read and found not
  negative: acquired, once more, or the value to wait on.\<close>

datatype srw_turn = SrwAcquired | SrwAgain | SrwWaitFor u64

definition srw_acquire_shared_cas :: "u64 \<Rightarrow> u64 \<Rightarrow> srw_turn \<times> u64" where
  "srw_acquire_shared_cas State Ptr =
     (let (PreviousState, Ptr') = InterlockedCompareExchangePointer Ptr (State + 1) State
      in (if PreviousState = State then SrwAcquired
          else if 0 \<le> sint PreviousState then SrwAgain
          else SrwWaitFor PreviousState, Ptr'))"

definition srw_release_shared_cas :: "u64 \<Rightarrow> u64 \<Rightarrow> bool \<times> u64" where
  "srw_release_shared_cas State Ptr =
     (let (PreviousState, Ptr') = InterlockedCompareExchangePointer Ptr (State - 1) State
      in (PreviousState = State, Ptr'))"

lemmas srw_op_defs = InterlockedCompareExchangePointer_def LdkpReadSRWLockValue_def
  RtlTryAcquireSRWLockExclusive_def srw_acquire_exclusive_turn_def srw_release_exclusive_def
  srw_acquire_shared_cas_def srw_release_shared_cas_def

section \<open>Threads on one lock\<close>

datatype srw_pc =
    SrwIdle
  | SrwExTurn
  | SrwShRead
  | SrwShCas u64
  | SrwWait bool u64
  | SrwWaiting bool u64
  | SrwTryShRead
  | SrwTryShCas u64
  | SrwExHeld
  | SrwShHeld
  | SrwRelShRead
  | SrwRelShCas u64
  | SrwWake
  | SrwWaking

text \<open>The flag of \<open>SrwWait\<close> and \<open>SrwWaiting\<close> tells a shared from an exclusive acquisition; the
  first is about to call \<open>RtlWaitOnAddress\<close> and the second inside that call, as are \<open>SrwWake\<close> and
  \<open>SrwWaking\<close> for \<open>RtlWakeAddressAll\<close>. \<open>swa\<close> is the state of the wait-on-address code, \<open>srw_At\<close> the
  address of the lock's word and \<open>srw_Stack t\<close> that of the parameter \<open>CompareValue\<close> of thread \<open>t\<close>.
  Thread identifiers are 32 bits wide.\<close>

record srw_sys =
  srw_Ptr :: u64
  srw_At :: addr
  srw_Stack :: "tid \<Rightarrow> addr"
  swa :: wa_sys
  spc :: "tid \<Rightarrow> srw_pc"
  sres :: "tid \<Rightarrow> bool"
  sraised :: "(tid \<times> ntstatus) list"

definition srw_thread :: "tid \<Rightarrow> bool" where
  "srw_thread t \<longleftrightarrow> t < 2 ^ 32"

definition srw_init :: "srw_sys \<Rightarrow> bool" where
  "srw_init c \<longleftrightarrow> srw_Ptr c = RtlInitializeSRWLock (srw_Ptr c) \<and> (\<forall>t. spc c t = SrwIdle) \<and> sraised c = [] \<and>
     srw_At c \<noteq> NULL \<and> wa_init (swa c)"

text \<open>Memory holds the word at its address and, while a thread waits, the value it compares with.\<close>

definition srw_memory :: "srw_sys \<Rightarrow> mem \<Rightarrow> bool" where
  "srw_memory c m \<longleftrightarrow> le_value m (srw_At c) 8 = unat (srw_Ptr c) \<and>
     (\<forall>t shared v. spc c t = SrwWaiting shared v \<longrightarrow> le_value m (srw_Stack c t) 8 = unat v)"

text \<open>Outside the lock's routines a thread may call the wait-on-address code for itself.\<close>

definition srw_outside :: "srw_pc \<Rightarrow> bool" where
  "srw_outside p \<longleftrightarrow> p = SrwIdle \<or> p = SrwExHeld \<or> p = SrwShHeld"

definition srw_retry :: "bool \<Rightarrow> srw_pc" where
  "srw_retry shared = (if shared then SrwShRead else SrwExTurn)"

abbreviation srw_enters :: "srw_sys \<Rightarrow> tid \<Rightarrow> srw_pc \<Rightarrow> bool" where
  "srw_enters c t p \<equiv> spc c t = p \<and> wpc (swa c) t = WaIdle"

text \<open>A step of the lock's code is one read or one interlocked operation; \<open>wait_code\<close> is a step of
  the wait-on-address code, whoever is inside it, on a memory that shows the lock's word and the
  compare values. Only a thread outside the lock's routines begins a call of its own there.\<close>

inductive srw_step :: "srw_sys \<Rightarrow> srw_sys \<Rightarrow> bool" where
  acquire_exclusive: "srw_enters c t SrwIdle \<Longrightarrow> srw_thread t \<Longrightarrow>
    srw_step c (c\<lparr>spc := (spc c)(t := SrwExTurn)\<rparr>)"
| exclusive_turn: "spc c t = SrwExTurn \<Longrightarrow> srw_acquire_exclusive_turn (srw_Ptr c) = (r, v) \<Longrightarrow>
    srw_step c (c\<lparr>srw_Ptr := v, spc := (spc c)(t :=
      (case r of None \<Rightarrow> SrwExHeld | Some PreviousState \<Rightarrow> SrwWait False PreviousState))\<rparr>)"
| try_exclusive: "srw_enters c t SrwIdle \<Longrightarrow> srw_thread t \<Longrightarrow>
    RtlTryAcquireSRWLockExclusive (srw_Ptr c) = (r, v) \<Longrightarrow>
    srw_step c (c\<lparr>srw_Ptr := v, spc := (spc c)(t := if r then SrwExHeld else SrwIdle),
                  sres := (sres c)(t := r)\<rparr>)"
| release_exclusive: "srw_enters c t SrwExHeld \<Longrightarrow> srw_release_exclusive (srw_Ptr c) = (None, v) \<Longrightarrow>
    srw_step c (c\<lparr>srw_Ptr := v, spc := (spc c)(t := SrwWake)\<rparr>)"
| release_exclusive_raises: "srw_enters c t SrwExHeld \<Longrightarrow>
    srw_release_exclusive (srw_Ptr c) = (Some st, v) \<Longrightarrow>
    srw_step c (c\<lparr>srw_Ptr := v, spc := (spc c)(t := SrwIdle), sraised := (t, st) # sraised c\<rparr>)"
| acquire_shared: "srw_enters c t SrwIdle \<Longrightarrow> srw_thread t \<Longrightarrow>
    srw_step c (c\<lparr>spc := (spc c)(t := SrwShRead)\<rparr>)"
| shared_read: "spc c t = SrwShRead \<Longrightarrow> LdkpReadSRWLockValue (srw_Ptr c) = State \<Longrightarrow>
    srw_step c (c\<lparr>spc := (spc c)(t := if 0 \<le> sint State then SrwShCas State else SrwWait True State)\<rparr>)"
| shared_cas: "spc c t = SrwShCas State \<Longrightarrow> srw_acquire_shared_cas State (srw_Ptr c) = (r, v) \<Longrightarrow>
    srw_step c (c\<lparr>srw_Ptr := v, spc := (spc c)(t :=
      (case r of SrwAcquired \<Rightarrow> SrwShHeld | SrwAgain \<Rightarrow> SrwShRead | SrwWaitFor p \<Rightarrow> SrwWait True p))\<rparr>)"
| try_shared: "srw_enters c t SrwIdle \<Longrightarrow> srw_thread t \<Longrightarrow>
    srw_step c (c\<lparr>spc := (spc c)(t := SrwTryShRead)\<rparr>)"
| try_shared_read: "spc c t = SrwTryShRead \<Longrightarrow> LdkpReadSRWLockValue (srw_Ptr c) = State \<Longrightarrow>
    srw_step c (c\<lparr>spc := (spc c)(t := if 0 \<le> sint State then SrwTryShCas State else SrwIdle),
                  sres := (sres c)(t := False)\<rparr>)"
| try_shared_cas: "spc c t = SrwTryShCas State \<Longrightarrow>
    InterlockedCompareExchangePointer (srw_Ptr c) (State + 1) State = (p, v) \<Longrightarrow>
    srw_step c (c\<lparr>srw_Ptr := v, spc := (spc c)(t := if p = State then SrwShHeld else SrwTryShRead),
                  sres := (sres c)(t := p = State)\<rparr>)"
| release_shared: "srw_enters c t SrwShHeld \<Longrightarrow>
    srw_step c (c\<lparr>spc := (spc c)(t := SrwRelShRead)\<rparr>)"
| release_shared_read: "spc c t = SrwRelShRead \<Longrightarrow> LdkpReadSRWLockValue (srw_Ptr c) = State \<Longrightarrow>
    \<not> sint State \<le> 0 \<Longrightarrow>
    srw_step c (c\<lparr>spc := (spc c)(t := SrwRelShCas State)\<rparr>)"
| release_shared_raises: "spc c t = SrwRelShRead \<Longrightarrow> LdkpReadSRWLockValue (srw_Ptr c) = State \<Longrightarrow>
    sint State \<le> 0 \<Longrightarrow>
    srw_step c (c\<lparr>spc := (spc c)(t := SrwIdle), sraised := (t, STATUS_RESOURCE_NOT_OWNED) # sraised c\<rparr>)"
| release_shared_cas: "spc c t = SrwRelShCas State \<Longrightarrow> srw_release_shared_cas State (srw_Ptr c) = (ok, v) \<Longrightarrow>
    srw_step c (c\<lparr>srw_Ptr := v, spc := (spc c)(t :=
      if ok then (if State - 1 = 0 then SrwWake else SrwIdle) else SrwRelShRead)\<rparr>)"
| wait_call_returns: "spc c t = SrwWait shared CompareValue \<Longrightarrow> srw_memory c m \<Longrightarrow>
    le_value m (srw_Stack c t) 8 = unat CompareValue \<Longrightarrow>
    RtlWaitOnAddress_check m (srw_At c) (srw_Stack c t) 8 = Some st \<Longrightarrow>
    srw_step c (c\<lparr>spc := (spc c)(t := srw_retry shared)\<rparr>)"
| wait_call: "spc c t = SrwWait shared CompareValue \<Longrightarrow> srw_memory c m \<Longrightarrow>
    le_value m (srw_Stack c t) 8 = unat CompareValue \<Longrightarrow>
    RtlWaitOnAddress_check m (srw_At c) (srw_Stack c t) 8 = None \<Longrightarrow>
    srw_step c (c\<lparr>spc := (spc c)(t := SrwWaiting shared CompareValue),
      swa := (swa c)\<lparr>wmem := m, wpc := (wpc (swa c))(t := WaChecked (srw_At c) (srw_Stack c t) 8)\<rparr>\<rparr>)"
| wait_code: "srw_memory c m \<Longrightarrow> wa_step ((swa c)\<lparr>wmem := m\<rparr>) d \<Longrightarrow>
    (\<forall>t. wpc (swa c) t = WaIdle \<and> wpc d t \<noteq> WaIdle \<longrightarrow> srw_outside (spc c t)) \<Longrightarrow>
    srw_step c (c\<lparr>swa := d\<rparr>)"
| wait_return: "srw_enters c t (SrwWaiting shared CompareValue) \<Longrightarrow>
    srw_step c (c\<lparr>spc := (spc c)(t := srw_retry shared)\<rparr>)"
| wake_call: "spc c t = SrwWake \<Longrightarrow>
    srw_step c (c\<lparr>spc := (spc c)(t := SrwWaking),
      swa := (swa c)\<lparr>wpc := (wpc (swa c))(t := WaWake (srw_At c))\<rparr>\<rparr>)"
| wake_return: "srw_enters c t SrwWaking \<Longrightarrow>
    srw_step c (c\<lparr>spc := (spc c)(t := SrwIdle)\<rparr>)"

inductive_cases srw_stepE: "srw_step c d"

abbreviation srw_reach :: "srw_sys \<Rightarrow> bool" where
  "srw_reach \<equiv> reach srw_init srw_step"

lemmas srw_reach_step = reach_step [of srw_init srw_step]

section \<open>The word counts the holders\<close>

fun srw_shared_holder :: "srw_pc \<Rightarrow> bool" where
  "srw_shared_holder SrwShHeld = True"
| "srw_shared_holder SrwRelShRead = True"
| "srw_shared_holder (SrwRelShCas v) = True"
| "srw_shared_holder _ = False"

fun srw_value_ok :: "srw_pc \<Rightarrow> bool" where
  "srw_value_ok (SrwShCas v) = (0 \<le> sint v)"
| "srw_value_ok (SrwTryShCas v) = (0 \<le> sint v)"
| "srw_value_ok (SrwRelShCas v) = (0 < sint v)"
| "srw_value_ok (SrwWait True v) = (sint v < 0)"
| "srw_value_ok (SrwWait False v) = (v \<noteq> 0)"
| "srw_value_ok (SrwWaiting True v) = (sint v < 0)"
| "srw_value_ok (SrwWaiting False v) = (v \<noteq> 0)"
| "srw_value_ok _ = True"

definition srw_word_ok :: "srw_sys \<Rightarrow> bool" where
  "srw_word_ok c \<longleftrightarrow>
     srw_Ptr c = LDK_SRWLOCK_EXCLUSIVE \<and> count_at (\<lambda>p. p = SrwExHeld) (spc c) = 1 \<and>
       count_at srw_shared_holder (spc c) = 0 \<or>
     srw_Ptr c = of_int (count_at srw_shared_holder (spc c)) \<and>
       count_at (\<lambda>p. p = SrwExHeld) (spc c) = 0"

definition srw_inv :: "srw_sys \<Rightarrow> bool" where
  "srw_inv c \<longleftrightarrow> (\<forall>t. \<not> srw_thread t \<longrightarrow> spc c t = SrwIdle) \<and> (\<forall>t. srw_value_ok (spc c t)) \<and>
     srw_word_ok c \<and> sraised c = []"

lemma srw_finite:
  assumes "\<forall>t. \<not> srw_thread t \<longrightarrow> p t = SrwIdle" and "\<not> P SrwIdle"
  shows "finite_at P p" "count_at P p \<le> 2 ^ 32"
proof -
  have sub: "{t. P (p t)} \<subseteq> {..<2 ^ 32}" using assms by (force simp: srw_thread_def)
  then show "finite_at P p" by (simp add: finite_at_def finite_subset)
  have "card {t. P (p t)} \<le> 2 ^ 32" using card_mono [OF _ sub] by simp
  then show "count_at P p \<le> 2 ^ 32" by (simp add: count_at_def)
qed

lemma sint_count:
  assumes "0 \<le> n" and "n \<le> 2 ^ 32"
  shows "sint (of_int n :: u64) = n"
  using assms by (simp add: signed_of_int signed_take_bit_int_eq_self)

lemma srw_retry_kind [simp]:
  "\<not> srw_shared_holder (srw_retry sh)" "srw_retry sh \<noteq> SrwExHeld" "srw_value_ok (srw_retry sh)"
  "srw_retry sh \<noteq> SrwWaiting sh' v"
  by (simp_all add: srw_retry_def)

lemma srw_shared_cas_cases:
  "srw_acquire_shared_cas State w = (r, v) \<Longrightarrow>
     r = SrwAcquired \<and> w = State \<and> v = State + 1 \<or> r = SrwAgain \<and> v = w \<or>
     r = SrwWaitFor w \<and> v = w \<and> sint w < 0"
  by (cases "w = State"; cases "0 \<le> sint w") (auto simp: srw_op_defs)

lemma srw_step_inv:
  assumes step: "srw_step c d" and inv: "srw_inv c"
  shows "srw_inv d"
proof -
  have idle: "\<forall>t. \<not> srw_thread t \<longrightarrow> spc c t = SrwIdle" and val: "\<And>t. srw_value_ok (spc c t)"
    and word: "srw_word_ok c" and r: "sraised c = []"
    using inv by (auto simp: srw_inv_def)
  have thr: "srw_thread t" if "spc c t \<noteq> SrwIdle" for t using idle that by blast
  let ?sh = "count_at srw_shared_holder (spc c)" and ?ex = "count_at (\<lambda>p. p = SrwExHeld) (spc c)"
  note fsh = srw_finite [OF idle, of srw_shared_holder, simplified]
  note fex = srw_finite [OF idle, of "\<lambda>p. p = SrwExHeld", simplified]
  have sint_sh: "sint (of_int ?sh :: u64) = ?sh" using sint_count fsh by simp
  have ne: "(of_int ?sh :: u64) \<noteq> - 1"
  proof
    assume h: "(of_int ?sh :: u64) = - 1"
    have "?sh = - 1" using sint_sh unfolding h by simp
    then show False using count_at_nonneg [of srw_shared_holder "spc c"] by simp
  qed
  have zero: "(of_int ?sh :: u64) = 0 \<longleftrightarrow> ?sh = 0" using sint_sh by (metis of_int_0 sint_0)
  have upd: "count_at srw_shared_holder ((spc c)(i := v)) =
        ?sh - (if srw_shared_holder (spc c i) then 1 else 0) + (if srw_shared_holder v then 1 else 0)"
      "count_at (\<lambda>p. p = SrwExHeld) ((spc c)(i := v)) =
        ?ex - (if spc c i = SrwExHeld then 1 else 0) + (if v = SrwExHeld then 1 else 0)" for i v
    by (simp_all add: count_at_upd fsh fex)
  have held: "srw_shared_holder (spc c t) \<Longrightarrow> 1 \<le> ?sh" "spc c t = SrwExHeld \<Longrightarrow> 1 \<le> ?ex" for t
    using count_at_pos [OF fsh(1)] count_at_pos [OF fex(1), of t] by auto
  have one: "srw_inv d" if "sraised d = []" "spc d = (spc c)(i := p)" "srw_thread i" "srw_value_ok p"
    "srw_word_ok d" for i p
    using that idle val by (auto simp: srw_inv_def)
  note w = word [unfolded srw_word_ok_def]
  from step show ?thesis
  proof (cases rule: srw_step.cases)
    case (acquire_exclusive t)
    then show ?thesis using w r by (intro one [of t]) (auto simp: srw_word_ok_def upd)
  next
    case (exclusive_turn t r v)
    then show ?thesis using w r thr [of t] zero
      by (intro one [of t]) (auto simp: srw_word_ok_def upd srw_op_defs)
  next
    case (try_exclusive t r v)
    then show ?thesis using w r zero
      by (intro one [of t]) (auto simp: srw_word_ok_def upd srw_op_defs)
  next
    case (release_exclusive t v)
    then show ?thesis using w r held(2) [of t] thr [of t]
      by (intro one [of t]) (auto simp: srw_word_ok_def upd srw_op_defs split: if_splits)
  next
    case (release_exclusive_raises t st v)
    then show ?thesis using w held(2) [of t]
      by (auto simp: srw_op_defs split: if_splits)
  next
    case (acquire_shared t)
    then show ?thesis using w r by (intro one [of t]) (auto simp: srw_word_ok_def upd)
  next
    case (shared_read t State)
    then show ?thesis using w r thr [of t]
      by (intro one [of t]) (auto simp: srw_word_ok_def upd)
  next
    case (shared_cas t State r v)
    have State: "0 \<le> sint State" "State \<noteq> LDK_SRWLOCK_EXCLUSIVE"
      using val [of t] shared_cas(2) by auto
    from srw_shared_cas_cases [OF shared_cas(3)]
    consider "r = SrwAcquired" "srw_Ptr c = State" "v = State + 1"
      | "r = SrwAgain" "v = srw_Ptr c"
      | "r = SrwWaitFor (srw_Ptr c)" "v = srw_Ptr c" "sint (srw_Ptr c) < 0" by blast
    then show ?thesis
    proof cases
      case 1
      then have "srw_Ptr c = of_int ?sh" "?ex = 0" using w State by auto
      then show ?thesis using 1 shared_cas(1,2) r thr [of t]
        by (intro one [of t SrwShHeld]) (simp_all add: srw_word_ok_def upd)
    next
      case 2
      then show ?thesis using shared_cas(1,2) word r thr [of t]
        by (intro one [of t SrwShRead]) (simp_all add: srw_word_ok_def upd)
    next
      case 3
      then show ?thesis using shared_cas(1,2) word r thr [of t]
        by (intro one [of t "SrwWait True (srw_Ptr c)"]) (simp_all add: srw_word_ok_def upd)
    qed
  next
    case (try_shared t)
    then show ?thesis using w r by (intro one [of t]) (auto simp: srw_word_ok_def upd)
  next
    case (try_shared_read t State)
    then show ?thesis using w r thr [of t]
      by (intro one [of t]) (auto simp: srw_word_ok_def upd)
  next
    case (try_shared_cas t State p v)
    have State: "State \<noteq> LDK_SRWLOCK_EXCLUSIVE" using val [of t] try_shared_cas(2) by auto
    show ?thesis
    proof (cases "srw_Ptr c = State")
      case True
      then have "srw_Ptr c = of_int ?sh" "?ex = 0" using w State by auto
      then show ?thesis using True try_shared_cas r thr [of t]
        by (intro one [of t SrwShHeld]) (auto simp: srw_word_ok_def upd srw_op_defs)
    next
      case False
      then show ?thesis using try_shared_cas word r thr [of t]
        by (intro one [of t SrwTryShRead]) (auto simp: srw_word_ok_def upd srw_op_defs)
    qed
  next
    case (release_shared t)
    then show ?thesis using w r thr [of t] by (intro one [of t]) (auto simp: srw_word_ok_def upd)
  next
    case (release_shared_read t State)
    then show ?thesis using w r thr [of t] by (intro one [of t]) (auto simp: srw_word_ok_def upd)
  next
    case (release_shared_raises t State)
    then show ?thesis using w held(1) [of t] sint_sh by (auto simp: srw_op_defs)
  next
    case (release_shared_cas t State ok v)
    have "1 \<le> ?sh" using held(1) [of t] release_shared_cas(2) by simp
    then have p: "srw_Ptr c = of_int ?sh" "?ex = 0" using w by auto
    show ?thesis
    proof (cases "srw_Ptr c = State")
      case True
      then have "d = c\<lparr>srw_Ptr := State - 1, spc := (spc c)(t := if State - 1 = 0 then SrwWake else SrwIdle)\<rparr>"
        using release_shared_cas by (auto simp: srw_op_defs)
      then show ?thesis using True p release_shared_cas(2) r thr [of t]
        by (intro one [of t "if State - 1 = 0 then SrwWake else SrwIdle"]) (auto simp: srw_word_ok_def upd)
    next
      case False
      then have "d = c\<lparr>spc := (spc c)(t := SrwRelShRead)\<rparr>"
        using release_shared_cas by (auto simp: srw_op_defs)
      then show ?thesis using word release_shared_cas(2) r thr [of t]
        by (intro one [of t SrwRelShRead]) (auto simp: srw_word_ok_def upd)
    qed
  next
    case (wait_call_returns t shared CompareValue m st)
    then show ?thesis using w r thr [of t] by (intro one [of t]) (auto simp: srw_word_ok_def upd)
  next
    case (wait_call t shared CompareValue m)
    then have "srw_value_ok (SrwWaiting shared CompareValue)"
      using val [of t] by (cases shared) auto
    then show ?thesis using wait_call word r thr [of t]
      by (intro one [of t "SrwWaiting shared CompareValue"]) (auto simp: srw_word_ok_def upd)
  next
    case (wait_code m d')
    then show ?thesis using inv by (simp add: srw_inv_def srw_word_ok_def)
  next
    case (wait_return t shared CompareValue)
    then show ?thesis using w r thr [of t] by (intro one [of t]) (auto simp: srw_word_ok_def upd)
  next
    case (wake_call t)
    then show ?thesis using w r thr [of t] by (intro one [of t]) (auto simp: srw_word_ok_def upd)
  next
    case (wake_return t)
    then show ?thesis using w r thr [of t] by (intro one [of t]) (auto simp: srw_word_ok_def upd)
  qed
qed

lemma srw_reach_inv: "srw_reach c \<Longrightarrow> srw_inv c"
proof (induction rule: reach_induct)
  case (init c)
  then show ?case
    by (auto simp: srw_init_def srw_inv_def srw_word_ok_def RtlInitializeSRWLock_def count_at_none)
next
  case (step c d)
  then show ?case by (auto intro: srw_step_inv)
qed

lemma srw_shared_held:
  assumes "srw_inv c" and "srw_shared_holder (spc c t)"
  shows "srw_Ptr c \<noteq> 0" "srw_Ptr c \<noteq> LDK_SRWLOCK_EXCLUSIVE" "0 \<le> sint (srw_Ptr c)"
    "count_at (\<lambda>p. p = SrwExHeld) (spc c) = 0"
proof -
  let ?n = "count_at srw_shared_holder (spc c)"
  have idle: "\<forall>t. \<not> srw_thread t \<longrightarrow> spc c t = SrwIdle" using assms(1) by (simp add: srw_inv_def)
  note f = srw_finite [OF idle, of srw_shared_holder, simplified]
  have n: "1 \<le> ?n" by (rule count_at_pos [where i = t]) (simp_all add: f assms(2))
  have p: "srw_Ptr c = of_int ?n" "count_at (\<lambda>p. p = SrwExHeld) (spc c) = 0"
    using assms(1) n by (auto simp: srw_inv_def srw_word_ok_def)
  have s: "sint (srw_Ptr c) = ?n" unfolding p(1) using sint_count f by simp
  then show "srw_Ptr c \<noteq> 0" "srw_Ptr c \<noteq> LDK_SRWLOCK_EXCLUSIVE" using n by auto
  show "0 \<le> sint (srw_Ptr c)" using s n by simp
  show "count_at (\<lambda>p. p = SrwExHeld) (spc c) = 0" by (rule p(2))
qed

lemma srw_negative:
  assumes "srw_inv c" and "sint (srw_Ptr c) < 0"
  shows "srw_Ptr c = LDK_SRWLOCK_EXCLUSIVE"
proof -
  let ?n = "count_at srw_shared_holder (spc c)"
  have idle: "\<forall>t. \<not> srw_thread t \<longrightarrow> spc c t = SrwIdle" using assms(1) by (simp add: srw_inv_def)
  note f = srw_finite [OF idle, of srw_shared_holder, simplified]
  have "sint (of_int ?n :: u64) = ?n" using sint_count f by simp
  then have "srw_Ptr c = of_int ?n \<Longrightarrow> ?n < 0" using assms(2) by simp
  then have "srw_Ptr c \<noteq> of_int ?n" using count_at_nonneg [of srw_shared_holder "spc c"] by linarith
  then show ?thesis using assms(1) by (auto simp: srw_inv_def srw_word_ok_def)
qed

section \<open>The waits are runs of the wait-on-address machine\<close>

definition srw_call_ok :: "srw_sys \<Rightarrow> tid \<Rightarrow> bool" where
  "srw_call_ok c t \<longleftrightarrow>
     (if \<exists>shared v. spc c t = SrwWaiting shared v
      then (\<forall>a ca n. wpc (swa c) t = WaChecked a ca n \<longrightarrow>
              a = srw_At c \<and> ca = srw_Stack c t \<and> n = 8) \<and>
           (\<forall>a. wpc (swa c) t = WaBlocked a \<longrightarrow> a = srw_At c)
      else srw_outside (spc c t) \<or> spc c t = SrwWaking \<or> wpc (swa c) t = WaIdle)"

definition srw_calls :: "srw_sys \<Rightarrow> bool" where
  "srw_calls c \<longleftrightarrow> wa_reach (swa c) \<and> srw_At c \<noteq> NULL \<and> (\<forall>t. srw_call_ok c t)"

lemma srw_calls_upd:
  assumes "srw_calls c" and "swa d = swa c" and "srw_At d = srw_At c" and "srw_Stack d = srw_Stack c"
    and "spc d = (spc c)(t := p)" and "\<And>shared v. p \<noteq> SrwWaiting shared v"
    and "srw_outside p \<or> p = SrwWaking \<or> wpc (swa c) t = WaIdle"
  shows "srw_calls d"
  using assms by (auto simp: srw_calls_def srw_call_ok_def)

lemma srw_calls_idle:
  "srw_calls c \<Longrightarrow> \<forall>shared v. spc c t \<noteq> SrwWaiting shared v \<Longrightarrow> \<not> srw_outside (spc c t) \<Longrightarrow>
   spc c t \<noteq> SrwWaking \<Longrightarrow> wpc (swa c) t = WaIdle"
  by (auto simp: srw_calls_def srw_call_ok_def dest!: spec [of _ t] split: if_splits)

lemma srw_step_calls:
  assumes step: "srw_step c d" and calls: "srw_calls c"
  shows "srw_calls d"
proof -
  note upd = srw_calls_upd [OF calls] and idle = srw_calls_idle [OF calls]
  have wr: "wa_reach (swa c)" and at: "srw_At c \<noteq> NULL" and ok: "\<And>t. srw_call_ok c t"
    using calls by (auto simp: srw_calls_def)
  from step show ?thesis
  proof (cases rule: srw_step.cases)
    case (wait_call t shared CompareValue m)
    have i: "wpc (swa c) t = WaIdle" using wait_call(2) by (intro idle) (auto simp: srw_outside_def)
    have "wa_reach ((swa c)\<lparr>wmem := m\<rparr>)" by (rule wa_reach_step [OF wr wa_step.memory_write])
    then have "wa_reach (swa d)"
      using wa_reach_step [OF _ wa_step.wait_call [of "(swa c)\<lparr>wmem := m\<rparr>" t "srw_At c" "srw_Stack c t" 8]]
        wait_call(1,5) i by simp
    moreover have "srw_call_ok d u" for u
      using ok [of u] wait_call(1) by (cases "u = t") (auto simp: srw_call_ok_def)
    ultimately show ?thesis using at wait_call(1) by (simp add: srw_calls_def)
  next
    case (wait_code m e)
    have "wa_reach ((swa c)\<lparr>wmem := m\<rparr>)" by (rule wa_reach_step [OF wr wa_step.memory_write])
    then have "wa_reach e" using wait_code(3) by (rule wa_reach_step)
    moreover have "srw_call_ok d t" for t
    proof (cases "\<exists>shared v. spc c t = SrwWaiting shared v")
      case True
      have now: "wpc (swa c) t \<noteq> WaIdle" if "wpc e t \<noteq> WaIdle"
        using that wait_code(4) True by (auto simp: srw_outside_def)
      have "a = srw_At c \<and> ca = srw_Stack c t \<and> n = 8" if "wpc e t = WaChecked a ca n" for a ca n
        using wa_step_checked [OF wait_code(3) that] now that ok [of t] True
        by (auto simp: srw_call_ok_def)
      moreover have "a = srw_At c" if "wpc e t = WaBlocked a" for a
        using wa_step_blocked [OF wait_code(3) that] ok [of t] True
        by (auto simp: srw_call_ok_def)
      ultimately show ?thesis using True wait_code(1) by (simp add: srw_call_ok_def)
    next
      case False
      then show ?thesis using ok [of t] wait_code(1,4) by (auto simp: srw_call_ok_def)
    qed
    ultimately show ?thesis using at wait_code(1) by (simp add: srw_calls_def)
  next
    case (wake_call t)
    have i: "wpc (swa c) t = WaIdle" using wake_call(2) by (intro idle) (auto simp: srw_outside_def)
    have "wa_reach (swa d)"
      using wa_reach_step [OF wr wa_step.wake_all [of "swa c" t "srw_At c"]] i at wake_call(1) by simp
    moreover have "srw_call_ok d u" for u
      using ok [of u] wake_call(1) by (cases "u = t") (auto simp: srw_call_ok_def)
    ultimately show ?thesis using at wake_call(1) by (simp add: srw_calls_def)
  qed (auto intro!: upd intro: idle simp: srw_outside_def split: option.splits srw_turn.splits)
qed

section \<open>A free lock has no waiter that nobody will look for\<close>

text \<open>\<open>k\<close> will walk the wait list for the waiters of the lock.\<close>

definition srw_pending :: "srw_sys \<Rightarrow> tid \<Rightarrow> bool" where
  "srw_pending c k \<longleftrightarrow> spc c k = SrwWake \<or> wa_scanning (srw_At c) (wpc (swa c) k)"

definition srw_free :: "srw_sys \<Rightarrow> bool \<Rightarrow> bool" where
  "srw_free c shared \<longleftrightarrow> (if shared then srw_Ptr c \<noteq> LDK_SRWLOCK_EXCLUSIVE else srw_Ptr c = 0)"

lemma srw_free_frame [simp]:
  "srw_free (c\<lparr>swa := w\<rparr>) shared = srw_free c shared" "srw_free (c\<lparr>spc := p\<rparr>) shared = srw_free c shared"
  by (simp_all add: srw_free_def)

definition srw_asleep :: "srw_sys \<Rightarrow> tid \<Rightarrow> bool" where
  "srw_asleep c t \<longleftrightarrow> (\<exists>a. wpc (swa c) t = WaBlocked a) \<and> t \<in> set (wa_ListHead (wg (swa c)))"

definition srw_live :: "srw_sys \<Rightarrow> bool" where
  "srw_live c \<longleftrightarrow> (\<forall>t shared v. spc c t = SrwWaiting shared v \<longrightarrow> srw_asleep c t \<longrightarrow>
      srw_free c shared \<longrightarrow> (\<exists>k. srw_pending c k))"

lemma srw_live_pending: "srw_pending d k \<Longrightarrow> srw_live d"
  by (auto simp: srw_live_def)

lemma srw_live_upd:
  assumes "srw_live c" and "spc d = (spc c)(t := p)" and "\<And>shared v. p \<noteq> SrwWaiting shared v"
    and "swa d = swa c" and "srw_At d = srw_At c"
    and "spc c t \<noteq> SrwWake" and "srw_Ptr d = 0 \<Longrightarrow> srw_Ptr c = 0"
    and "srw_Ptr d \<noteq> LDK_SRWLOCK_EXCLUSIVE \<Longrightarrow> srw_Ptr c \<noteq> LDK_SRWLOCK_EXCLUSIVE"
  shows "srw_live d"
  unfolding srw_live_def
proof (intro allI impI)
  fix u shared v
  assume b: "spc d u = SrwWaiting shared v" "srw_asleep d u" and f: "srw_free d shared"
  have "u \<noteq> t" using b assms(2,3) by auto
  then have "spc c u = SrwWaiting shared v" "srw_asleep c u"
    using b assms(2,4) by (simp_all add: srw_asleep_def)
  moreover have "srw_free c shared" using f assms(7,8) by (cases shared) (auto simp: srw_free_def)
  ultimately obtain k where k: "srw_pending c k" using assms(1) unfolding srw_live_def by blast
  then have "srw_pending d k" using assms(2,4,5,6) by (auto simp: srw_pending_def)
  then show "\<exists>k. srw_pending d k" ..
qed

text \<open>Falling asleep: the word still had the value the thread had found, so the lock is not free.\<close>

lemma srw_falls_asleep:
  assumes inv: "srw_inv c" and calls: "srw_calls c" and m: "srw_memory c m"
    and t: "spc c t = SrwWaiting shared v" "wpc (swa c) t = WaChecked a ca n"
    and match: "LdkpWaitOnAddressValuesMatch m a ca n"
  shows "\<not> srw_free c shared"
proof -
  have "a = srw_At c \<and> ca = srw_Stack c t \<and> n = 8"
    using calls t by (auto simp: srw_calls_def srw_call_ok_def dest!: spec [of _ t])
  then have "unat (srw_Ptr c) = unat v"
    using match m t(1) by (auto simp: LdkpWaitOnAddressValuesMatch_def srw_memory_def simp del: le_value.simps)
  then have "srw_Ptr c = v" by (simp only: word_unat_eq_iff)
  moreover have "srw_value_ok (spc c t)" using inv by (simp add: srw_inv_def)
  then have "srw_value_ok (SrwWaiting shared v)" unfolding t(1) .
  ultimately show ?thesis using srw_negative [OF inv] by (cases shared) (auto simp: srw_free_def)
qed

lemma srw_wait_code_live:
  assumes inv: "srw_inv c" and calls: "srw_calls c" and live: "srw_live c" and m: "srw_memory c m"
    and e: "wa_step ((swa c)\<lparr>wmem := m\<rparr>) e"
  shows "srw_live (c\<lparr>swa := e\<rparr>)" (is "srw_live ?d")
  unfolding srw_live_def
proof (intro allI impI)
  fix t shared v
  assume t: "spc ?d t = SrwWaiting shared v" and a: "srw_asleep ?d t" and f: "srw_free ?d shared"
  have "wa_reach e"
    using wa_reach_step [OF wa_reach_step [OF _ wa_step.memory_write] e] calls by (simp add: srw_calls_def)
  then have ok: "wa_ok e t" by (rule wa_invD [OF wa_reach_inv])
  from a obtain b where b: "wpc e t = WaBlocked b" and l: "t \<in> set (wa_ListHead (wg e))"
    by (auto simp: srw_asleep_def)
  have fc: "srw_free c shared" and tc: "spc c t = SrwWaiting shared v"
    using f t by simp_all
  have "wpc (swa c) t = WaBlocked b \<and> t \<in> set (wa_ListHead (wg (swa c)))"
    using wa_step_blocked [OF e b] l srw_falls_asleep [OF inv calls m tc] fc by auto
  then have "srw_asleep c t" "b = srw_At c"
    using calls tc by (auto simp: srw_asleep_def srw_calls_def srw_call_ok_def dest!: spec [of _ t])
  then obtain k where k: "srw_pending c k" using live tc fc unfolding srw_live_def by blast
  have "we_Address (wa_Entries (wg e) t) = srw_At c" using ok b \<open>b = srw_At c\<close> by (simp add: wa_ok_def)
  then have "srw_pending ?d k"
    using wa_step_scanning [OF e, of "srw_At c" k] l k by (auto simp: srw_pending_def)
  then show "\<exists>k. srw_pending ?d k" ..
qed

lemma srw_step_live:
  assumes step: "srw_step c d" and inv: "srw_inv c" and calls: "srw_calls c" and live: "srw_live c"
  shows "srw_live d"
proof -
  have val: "\<And>t. srw_value_ok (spc c t)" and word: "srw_word_ok c" and inv': "srw_inv d"
    using inv srw_step_inv [OF step inv] by (auto simp: srw_inv_def)
  note upd = srw_live_upd [OF live]
  from step show ?thesis
  proof (cases rule: srw_step.cases)
    case (exclusive_turn t r v)
    then show ?thesis by (intro upd [of d t]) (auto simp: srw_op_defs split: option.splits if_splits)
  next
    case (try_exclusive t r v)
    then show ?thesis by (intro upd [of d t]) (auto simp: srw_op_defs split: if_splits)
  next
    case (release_exclusive t v)
    then show ?thesis by (intro srw_live_pending [of d t]) (simp add: srw_pending_def)
  next
    case (release_exclusive_raises t st v)
    then show ?thesis by (intro upd [of d t]) (auto simp: srw_op_defs split: if_splits)
  next
    case (shared_read t State)
    then show ?thesis by (intro upd [of d t]) (auto split: if_splits)
  next
    case (shared_cas t State r v)
    have h: "spc d t = SrwShHeld \<Longrightarrow> srw_Ptr d \<noteq> 0" using srw_shared_held [OF inv', of t] by simp
    from srw_shared_cas_cases [OF shared_cas(3)] show ?thesis
    proof (elim disjE conjE)
      assume "r = SrwAcquired" "srw_Ptr c = State" "v = State + 1"
      then show ?thesis using shared_cas(1,2) val [of t] h by (intro upd [of d t]) auto
    qed (use shared_cas(1,2) in \<open>auto intro!: upd\<close>)
  next
    case (try_shared_read t State)
    then show ?thesis by (intro upd [of d t]) (auto split: if_splits)
  next
    case (try_shared_cas t State p v)
    have h: "spc d t = SrwShHeld \<Longrightarrow> srw_Ptr d \<noteq> 0" using srw_shared_held [OF inv', of t] by simp
    show ?thesis
    proof (cases "srw_Ptr c = State")
      case True
      then show ?thesis using try_shared_cas val [of t] h
        by (intro upd [of d t]) (auto simp: srw_op_defs)
    next
      case False
      then show ?thesis using try_shared_cas by (intro upd [of d t]) (auto simp: srw_op_defs)
    qed
  next
    case (release_shared_cas t State ok v)
    have h: "srw_Ptr c \<noteq> LDK_SRWLOCK_EXCLUSIVE"
      using srw_shared_held [OF inv, of t] release_shared_cas(2) by simp
    show ?thesis
    proof (cases "ok \<and> State - 1 = 0")
      case True
      then show ?thesis using release_shared_cas
        by (intro srw_live_pending [of d t]) (simp add: srw_pending_def)
    next
      case False
      then show ?thesis using release_shared_cas h
        by (intro upd [of d t]) (auto simp: srw_op_defs split: if_splits)
    qed
  next
    case (wait_call_returns t shared CompareValue m st)
    then show ?thesis by (intro upd [of d t]) auto
  next
    case (wait_call t shared CompareValue m)
    have "srw_asleep c u \<and> spc c u = SrwWaiting sh v" if "srw_asleep d u" "spc d u = SrwWaiting sh v" for u sh v
      using that wait_call(1) by (cases "u = t") (auto simp: srw_asleep_def)
    moreover have "srw_pending d k" if "srw_pending c k" for k
    proof (cases "k = t")
      case True
      have "wpc (swa c) t = WaIdle"
        using wait_call(2) by (intro srw_calls_idle [OF calls]) (auto simp: srw_outside_def)
      then show ?thesis using that wait_call(2) True by (simp add: srw_pending_def wa_scanning_def)
    qed (use that wait_call(1) in \<open>simp add: srw_pending_def\<close>)
    moreover have "srw_free d sh \<Longrightarrow> srw_free c sh" for sh using wait_call(1) by simp
    ultimately show ?thesis using live unfolding srw_live_def by blast
  next
    case (wait_code m e)
    then show ?thesis using srw_wait_code_live [OF inv calls live] by simp
  next
    case (wait_return t shared CompareValue)
    then show ?thesis by (intro upd [of d t]) auto
  next
    case (wake_call t)
    then show ?thesis
      by (intro srw_live_pending [of d t]) (simp add: srw_pending_def wa_scanning_def)
  next
    case (wake_return t)
    then show ?thesis by (intro upd [of d t]) auto
  qed (auto intro!: upd)
qed

lemma srw_reach_live: "srw_reach c \<Longrightarrow> srw_calls c \<and> srw_live c"
proof (induction rule: reach_induct)
  case (init c)
  then have "\<forall>t. spc c t = SrwIdle" "wa_reach (swa c)" "srw_At c \<noteq> NULL"
    by (auto simp: srw_init_def intro: reach_init)
  then show ?case by (auto simp: srw_live_def srw_calls_def srw_call_ok_def srw_outside_def)
next
  case (step c d)
  then show ?case using srw_step_calls srw_step_live srw_reach_inv by blast
qed

section \<open>What the lock promises\<close>

text \<open>C5: mutual exclusion, and the word tells the truth. A thread that holds the lock exclusively
  is alone: no other thread holds it in either mode and the word is -1. When somebody holds it
  shared the word is the number of shared holders. A release by a holder never raises.\<close>

theorem srw_exclusion:
  assumes "srw_reach c"
  shows "(spc c t = SrwExHeld \<longrightarrow> srw_Ptr c = LDK_SRWLOCK_EXCLUSIVE \<and>
      (\<forall>u. u \<noteq> t \<longrightarrow> spc c u \<noteq> SrwExHeld \<and> \<not> srw_shared_holder (spc c u))) \<and>
    (srw_shared_holder (spc c t) \<longrightarrow>
      sint (srw_Ptr c) = int (card {u. srw_shared_holder (spc c u)})) \<and>
    sraised c = []"
proof -
  have inv: "srw_inv c" by (rule srw_reach_inv [OF assms])
  then have idle: "\<forall>t. \<not> srw_thread t \<longrightarrow> spc c t = SrwIdle" and word: "srw_word_ok c"
    by (auto simp: srw_inv_def)
  note fsh = srw_finite [OF idle, of srw_shared_holder, simplified]
  note fex = srw_finite [OF idle, of "\<lambda>p. p = SrwExHeld", simplified]
  have "srw_Ptr c = LDK_SRWLOCK_EXCLUSIVE \<and>
      (\<forall>u. u \<noteq> t \<longrightarrow> spc c u \<noteq> SrwExHeld \<and> \<not> srw_shared_holder (spc c u))"
    if t: "spc c t = SrwExHeld"
  proof -
    have "1 \<le> count_at (\<lambda>p. p = SrwExHeld) (spc c)"
      by (rule count_at_pos [where i = t]) (simp_all add: fex t)
    then have w: "srw_Ptr c = LDK_SRWLOCK_EXCLUSIVE" "count_at (\<lambda>p. p = SrwExHeld) (spc c) = 1"
        "count_at srw_shared_holder (spc c) = 0"
      using word by (auto simp: srw_word_ok_def)
    have "\<not> srw_shared_holder (spc c u)" for u using w(3) fsh(1) by (simp add: count_at_0)
    moreover have "spc c u \<noteq> SrwExHeld" if "u \<noteq> t" for u
    proof -
      have "card {u. spc c u = SrwExHeld} = 1" using w(2) by (simp add: count_at_def)
      then obtain x where x: "{u. spc c u = SrwExHeld} = {x}" by (rule card_1_singletonE)
      have "t \<in> {u. spc c u = SrwExHeld}" using t by simp
      then have "t = x" unfolding x by simp
      moreover have "u = x" if "spc c u = SrwExHeld"
      proof -
        have "u \<in> {u. spc c u = SrwExHeld}" using that by simp
        then show ?thesis unfolding x by simp
      qed
      ultimately show ?thesis using that by blast
    qed
    ultimately show ?thesis using w(1) by simp
  qed
  moreover have "sint (srw_Ptr c) = int (card {u. srw_shared_holder (spc c u)})"
    if "srw_shared_holder (spc c t)"
  proof -
    have "count_at (\<lambda>p. p = SrwExHeld) (spc c) = 0" using srw_shared_held [OF inv that] by simp
    then have "srw_Ptr c = of_int (count_at srw_shared_holder (spc c))"
      using word by (auto simp: srw_word_ok_def)
    then have "sint (srw_Ptr c) = count_at srw_shared_holder (spc c)" using sint_count fsh by simp
    then show ?thesis by (simp add: count_at_def)
  qed
  ultimately show ?thesis using inv by (simp add: srw_inv_def)
qed

text \<open>C6: no waiter sleeps beside a lock it could take, unless an alert fails. Let a thread that wants
  the lock exclusively be inside \<open>RtlWaitOnAddress\<close> while the word is 0, or one that wants it shared
  while no exclusive owner has it. If it sleeps there and no waker has marked it, it sleeps on the
  lock's address, is in the wait list, and some thread is about to call \<open>RtlWakeAddressAll\<close> for the
  lock, or is inside that call and will walk the list again. If it is marked, or in the second wait,
  it has an alert, or a waker is about to send it one, or the alert sent to it has failed and was
  dropped.\<close>

theorem srw_no_lost_wakeup:
  assumes "srw_reach c" and "spc c t = SrwWaiting shared v"
    and "shared \<longrightarrow> srw_Ptr c \<noteq> LDK_SRWLOCK_EXCLUSIVE" and "\<not> shared \<longrightarrow> srw_Ptr c = 0"
  shows "(wpc (swa c) t = WaBlocked a \<longrightarrow> \<not> we_Woken (wa_Entries (wg (swa c)) t) \<longrightarrow>
      a = srw_At c \<and> t \<in> set (wa_ListHead (wg (swa c))) \<and> we_Address (wa_Entries (wg (swa c)) t) = srw_At c \<and>
      (\<exists>k. spc c k = SrwWake \<or> wpc (swa c) k = WaWake (srw_At c) \<or>
         (\<exists>ts. wpc (swa c) k = WaAlert ts (Some (srw_At c))))) \<and>
    (wpc (swa c) t = WaBlocked a \<and> we_Woken (wa_Entries (wg (swa c)) t) \<or> wpc (swa c) t = WaSecond \<longrightarrow>
      1 \<le> wtok (swa c) t \<or> (\<exists>k ts again. wpc (swa c) k = WaAlert ts again \<and> t \<in> set ts) \<or>
      wlost (swa c) t)"
proof -
  have calls: "srw_calls c" and live: "srw_live c" using srw_reach_live [OF assms(1)] by auto
  have ok: "wa_ok (swa c) t"
    using calls by (auto simp: srw_calls_def intro: wa_invD [OF wa_reach_inv])
  have free: "srw_free c shared" using assms(3,4) by (cases shared) (auto simp: srw_free_def)
  have at: "wpc (swa c) t = WaBlocked a \<Longrightarrow> a = srw_At c"
    using calls assms(2) by (auto simp: srw_calls_def srw_call_ok_def dest!: spec [of _ t])
  have listed: "t \<in> set (wa_ListHead (wg (swa c)))"
    if "wpc (swa c) t = WaBlocked a" "\<not> we_Woken (wa_Entries (wg (swa c)) t)"
    using ok that by (simp add: wa_ok_def wa_listed_def wa_unlinked_def)
  then have "\<exists>k. srw_pending c k"
    if "wpc (swa c) t = WaBlocked a" "\<not> we_Woken (wa_Entries (wg (swa c)) t)"
    using live free assms(2) that unfolding srw_live_def srw_asleep_def by blast
  moreover have "wa_due (swa c) t"
    if "wpc (swa c) t = WaBlocked a \<and> we_Woken (wa_Entries (wg (swa c)) t) \<or> wpc (swa c) t = WaSecond"
    using ok that by (auto simp: wa_ok_def wa_listed_def)
  moreover have "we_Address (wa_Entries (wg (swa c)) t) = a" if "wpc (swa c) t = WaBlocked a"
    using ok that by (simp add: wa_ok_def)
  ultimately show ?thesis
    using listed at by (simp add: srw_pending_def wa_scanning_def wa_due_def wa_owed_iff)
qed

section \<open>An example run\<close>

text \<open>Thread 1 takes the lock at address 16 exclusively, thread 2, whose compare value is at 32, goes
  to sleep on it, thread 1 releases it.\<close>

definition srw_c0 :: srw_sys where
  "srw_c0 = \<lparr>srw_Ptr = 0, srw_At = 16, srw_Stack = (\<lambda>_. 32), swa = wa_c0,
     spc = (\<lambda>_. SrwIdle), sres = (\<lambda>_. False), sraised = []\<rparr>"

definition srw_m :: mem where
  "srw_m = (\<lambda>_. - 1)"

definition srw_w1 :: wa_sys where
  "srw_w1 = wa_c0\<lparr>wg := snd (RtlWaitOnAddress_enter False srw_m srw_m 16 32 8 2 (wg wa_c0)),
     wmem := srw_m, wpc := (wpc wa_c0)(2 := WaBlocked 16), wlost := (wlost wa_c0)(2 := False)\<rparr>"

definition srw_c1 :: srw_sys where
  "srw_c1 = srw_c0\<lparr>srw_Ptr := - 1, spc := (\<lambda>_. SrwIdle)(1 := SrwExHeld, 2 := SrwWaiting True (- 1)),
     swa := srw_w1\<rparr>"

definition srw_c2 :: srw_sys where
  "srw_c2 = srw_c0\<lparr>srw_Ptr := 0, spc := (\<lambda>_. SrwIdle)(1 := SrwWake, 2 := SrwWaiting True (- 1)),
     swa := srw_w1\<rparr>"

lemma srw_m_value: "le_value srw_m a 8 = unat (- 1 :: u64)"
proof -
  have 8: "(8 :: nat) = Suc (Suc (Suc (Suc (Suc (Suc (Suc (Suc 0)))))))" by simp
  have "unat (- 1 :: u8) = 255" and w: "unat (- 1 :: u64) = 18446744073709551615"
    by (simp_all add: unsigned_minus_1_eq_mask mask_eq_exp_minus_1)
  then have "le_value srw_m a 8 = 255 + 256 * (255 + 256 * (255 + 256 * (255 + 256 *
      (255 + 256 * (255 + 256 * (255 + 256 * (255 + 256 * 0)))))))"
    unfolding 8 srw_m_def by (simp only: le_value.simps)
  then show ?thesis using w by simp
qed

lemma srw_m_matches: "LdkpWaitOnAddressValuesMatch srw_m 16 32 8"
  by (simp add: LdkpWaitOnAddressValuesMatch_def srw_m_value)

lemma srw_run: "srw_reach srw_c1" "srw_reach srw_c2"
proof -
  have thr: "srw_thread 1" "srw_thread 2" by (simp_all add: srw_thread_def)
  have r0: "srw_reach srw_c0"
    by (rule reach_init) (auto simp: srw_init_def srw_c0_def RtlInitializeSRWLock_def wa_init_def wa_c0_def)
  let ?a = "srw_c0\<lparr>spc := (spc srw_c0)(1 := SrwExTurn)\<rparr>"
  have ra: "srw_reach ?a"
    by (rule srw_reach_step [OF r0 srw_step.acquire_exclusive]) (use thr in \<open>simp_all add: srw_c0_def wa_c0_def\<close>)
  let ?b = "?a\<lparr>srw_Ptr := - 1, spc := (spc ?a)(1 := SrwExHeld)\<rparr>"
  have "srw_step ?a (?a\<lparr>srw_Ptr := - 1, spc := (spc ?a)(1 :=
      (case None of None \<Rightarrow> SrwExHeld | Some PreviousState \<Rightarrow> SrwWait False PreviousState))\<rparr>)"
    by (rule srw_step.exclusive_turn) (simp_all add: srw_c0_def srw_op_defs)
  then have rb: "srw_reach ?b" using srw_reach_step [OF ra] by simp
  let ?e = "?b\<lparr>spc := (spc ?b)(2 := SrwShRead)\<rparr>"
  have re: "srw_reach ?e"
    by (rule srw_reach_step [OF rb srw_step.acquire_shared]) (use thr in \<open>simp_all add: srw_c0_def wa_c0_def\<close>)
  let ?f = "?e\<lparr>spc := (spc ?e)(2 := SrwWait True (- 1))\<rparr>"
  have "srw_step ?e (?e\<lparr>spc := (spc ?e)(2 := if 0 \<le> sint (- 1 :: u64) then SrwShCas (- 1)
      else SrwWait True (- 1))\<rparr>)"
    by (rule srw_step.shared_read) (simp_all add: LdkpReadSRWLockValue_def)
  then have rf: "srw_reach ?f" using srw_reach_step [OF re] by simp
  let ?w = "wa_c0\<lparr>wmem := srw_m, wpc := (wpc wa_c0)(2 := WaChecked 16 32 8)\<rparr>"
  let ?g = "?f\<lparr>spc := (spc ?f)(2 := SrwWaiting True (- 1)), swa := ?w\<rparr>"
  have mem: "srw_memory ?f srw_m" by (simp add: srw_memory_def srw_m_value srw_c0_def del: le_value.simps)
  have chk: "RtlWaitOnAddress_check srw_m 16 32 8 = None"
    by (simp add: RtlWaitOnAddress_check_def srw_m_matches)
  have "srw_step ?f (?f\<lparr>spc := (spc ?f)(2 := SrwWaiting True (- 1)),
      swa := (swa ?f)\<lparr>wmem := srw_m, wpc := (wpc (swa ?f))(2 := WaChecked (srw_At ?f) (srw_Stack ?f 2) 8)\<rparr>\<rparr>)"
    by (rule srw_step.wait_call [OF _ mem]) (simp_all add: srw_m_value srw_c0_def chk)
  then have rg: "srw_reach ?g" using srw_reach_step [OF rf] by (simp add: srw_c0_def)
  have e: "RtlWaitOnAddress_enter False srw_m (wmem ?w) 16 32 8 2 (wg ?w) = (WaWait, wg srw_w1)"
    by (simp add: srw_w1_def RtlWaitOnAddress_enter_def srw_m_matches wa_c0_def
        LdkpInitializeWaitOnAddressList_def Let_def)
  have "wa_step ?w (?w\<lparr>wg := wg srw_w1, wpc := (wpc ?w)(2 := WaBlocked 16), wlost := (wlost ?w)(2 := False)\<rparr>)"
    by (rule wa_step.enter_waits [OF _ e]) simp
  then have st: "wa_step ((swa ?g)\<lparr>wmem := srw_m\<rparr>) srw_w1" by (simp add: srw_w1_def wa_c0_def)
  have "srw_step ?g (?g\<lparr>swa := srw_w1\<rparr>)"
    by (rule srw_step.wait_code [OF _ st])
      (simp_all add: srw_memory_def srw_m_value srw_w1_def srw_c0_def wa_c0_def del: le_value.simps)
  then have "srw_step ?g srw_c1" by (simp add: srw_c1_def srw_c0_def)
  with rg show r1: "srw_reach srw_c1" by (rule srw_reach_step)
  have "srw_step srw_c1 (srw_c1\<lparr>srw_Ptr := 0, spc := (spc srw_c1)(1 := SrwWake)\<rparr>)"
    by (rule srw_step.release_exclusive) (simp_all add: srw_c1_def srw_op_defs srw_w1_def wa_c0_def)
  then have "srw_step srw_c1 srw_c2" by (simp add: srw_c1_def srw_c2_def srw_c0_def fun_upd_twist)
  with r1 show "srw_reach srw_c2" by (rule srw_reach_step)
qed

theorem srw_exclusion_witness:
  "spc srw_c1 1 = SrwExHeld \<and> srw_Ptr srw_c1 = LDK_SRWLOCK_EXCLUSIVE \<and>
   {u. spc srw_c1 u = SrwExHeld \<or> srw_shared_holder (spc srw_c1 u)} = {1}"
proof -
  have "spc srw_c1 1 = SrwExHeld" by (simp add: srw_c1_def)
  then show ?thesis using srw_exclusion [OF srw_run(1), of 1] by blast
qed

theorem srw_no_lost_wakeup_witness:
  "spc srw_c2 2 = SrwWaiting True (- 1) \<and> wpc (swa srw_c2) 2 = WaBlocked 16 \<and> srw_Ptr srw_c2 = 0 \<and>
   2 \<in> set (wa_ListHead (wg (swa srw_c2))) \<and>
   (\<exists>k. spc srw_c2 k = SrwWake \<or> wpc (swa srw_c2) k = WaWake 16 \<or>
      (\<exists>ts. wpc (swa srw_c2) k = WaAlert ts (Some 16)))"
proof -
  have p: "spc srw_c2 2 = SrwWaiting True (- 1)" "srw_Ptr srw_c2 = 0" "srw_At srw_c2 = 16"
    "wpc (swa srw_c2) 2 = WaBlocked 16" by (simp_all add: srw_c2_def srw_c0_def srw_w1_def)
  have "\<not> we_Woken (wa_Entries (wg (swa srw_c2)) 2)"
    by (simp add: srw_c2_def srw_w1_def RtlWaitOnAddress_enter_def srw_m_matches wa_c0_def
        LdkpInitializeWaitOnAddressList_def LdkpReferenceWaitOnAddressWait_def Let_def)
  then show ?thesis using srw_no_lost_wakeup [OF srw_run(2) p(1), of 16] p by simp
qed

end
