(* ===== verification/OnceInit.thy ===== *)
theory OnceInit
  imports Prelude
begin

text \<open>
  One-time initialisation by a three-valued word: 0 not begun, 1 begun, 2 done. Both
  \<open>LdkpEnsureConditionVariableList\<close> (src/ntdll/cond.c) and \<open>LdkpEnsureCriticalSectionLock\<close>
  (src/ntdll/resource.c) are this routine around a different initialiser, so the machine counts
  the runs of the initialiser and leaves open what it does.
\<close>

section \<open>The routine, one memory access per step\<close>

datatype once_pc = OnceStart | OnceCas | OnceInitialise | OncePublish | OnceSpin | OnceDone

record once_sys =
  once_Initialized :: u32
  once_runs :: nat
  opc :: "tid \<Rightarrow> once_pc"

definition once_begin :: "once_sys \<Rightarrow> bool" where
  "once_begin c \<longleftrightarrow> once_Initialized c = 0 \<and> once_runs c = 0 \<and> (\<forall>t. opc c t = OnceStart)"

definition once_cas :: "u32 \<Rightarrow> bool \<times> u32" where
  "once_cas v = (if v = 0 then (True, 1) else (False, v))"

inductive once_step :: "once_sys \<Rightarrow> once_sys \<Rightarrow> bool" where
  read: "opc c t = OnceStart \<Longrightarrow>
    once_step c (c\<lparr>opc := (opc c)(t := if once_Initialized c = 2 then OnceDone else OnceCas)\<rparr>)"
| cas: "opc c t = OnceCas \<Longrightarrow> once_cas (once_Initialized c) = (first, v) \<Longrightarrow>
    once_step c (c\<lparr>once_Initialized := v,
      opc := (opc c)(t := if first then OnceInitialise else OnceSpin)\<rparr>)"
| initialise: "opc c t = OnceInitialise \<Longrightarrow>
    once_step c (c\<lparr>once_runs := once_runs c + 1, opc := (opc c)(t := OncePublish)\<rparr>)"
| publish: "opc c t = OncePublish \<Longrightarrow>
    once_step c (c\<lparr>once_Initialized := 2, opc := (opc c)(t := OnceDone)\<rparr>)"
| spin: "opc c t = OnceSpin \<Longrightarrow> once_Initialized c \<noteq> 2 \<Longrightarrow> once_step c c"
| spin_done: "opc c t = OnceSpin \<Longrightarrow> once_Initialized c = 2 \<Longrightarrow>
    once_step c (c\<lparr>opc := (opc c)(t := OnceDone)\<rparr>)"
| again: "opc c t = OnceDone \<Longrightarrow>
    once_step c (c\<lparr>opc := (opc c)(t := OnceStart)\<rparr>)"

abbreviation once_reach :: "once_sys \<Rightarrow> bool" where
  "once_reach \<equiv> reach once_begin once_step"

lemmas once_reach_step = reach_step [of once_begin once_step]

section \<open>Invariant\<close>

definition once_winner :: "once_pc \<Rightarrow> bool" where
  "once_winner p \<longleftrightarrow> p = OnceInitialise \<or> p = OncePublish"

definition once_inv :: "once_sys \<Rightarrow> bool" where
  "once_inv c \<longleftrightarrow>
     (once_Initialized c = 0 \<and> once_runs c = 0 \<and>
        (\<forall>t. \<not> once_winner (opc c t) \<and> opc c t \<noteq> OnceSpin \<and> opc c t \<noteq> OnceDone)) \<or>
     (once_Initialized c = 1 \<and> (\<forall>t. opc c t \<noteq> OnceDone) \<and>
        (\<exists>t. once_winner (opc c t) \<and> (\<forall>u. u \<noteq> t \<longrightarrow> \<not> once_winner (opc c u)) \<and>
             once_runs c = (if opc c t = OncePublish then 1 else 0))) \<or>
     (once_Initialized c = 2 \<and> once_runs c = 1 \<and> (\<forall>t. \<not> once_winner (opc c t)))"

lemma once_inv_winner:
  assumes "once_inv c" and "once_winner (opc c t)"
  shows "once_Initialized c = 1" "\<forall>u. opc c u \<noteq> OnceDone" "\<forall>u. u \<noteq> t \<longrightarrow> \<not> once_winner (opc c u)"
    "once_runs c = (if opc c t = OncePublish then 1 else 0)"
proof -
  obtain w where w: "once_Initialized c = 1" "\<forall>u. opc c u \<noteq> OnceDone"
      "\<forall>u. u \<noteq> w \<longrightarrow> \<not> once_winner (opc c u)"
      "once_runs c = (if opc c w = OncePublish then 1 else 0)"
    using assms by (auto simp: once_inv_def)
  moreover have "w = t" using spec [OF w(3), of t] assms(2) by (cases "w = t") auto
  ultimately show "once_Initialized c = 1" "\<forall>u. opc c u \<noteq> OnceDone"
    "\<forall>u. u \<noteq> t \<longrightarrow> \<not> once_winner (opc c u)"
    "once_runs c = (if opc c t = OncePublish then 1 else 0)" by simp_all
qed

text \<open>A step of a thread outside the initialiser that leaves the word alone.\<close>

lemma once_inv_other:
  assumes inv: "once_inv c" and d: "d = c\<lparr>opc := (opc c)(t := p)\<rparr>"
    and n: "\<not> once_winner (opc c t)" "\<not> once_winner p"
    and p: "p = OnceSpin \<Longrightarrow> once_Initialized c \<noteq> 0" "p = OnceDone \<Longrightarrow> once_Initialized c = 2"
  shows "once_inv d"
proof (cases "\<exists>w. once_winner (opc c w)")
  case True
  then obtain w where w: "once_winner (opc c w)" by blast
  note i = once_inv_winner [OF inv w]
  have "w \<noteq> t" using w n(1) by blast
  then show ?thesis
    unfolding once_inv_def using i d w n p by (intro disjI2 disjI1) (auto intro!: exI [of _ w])
next
  case False
  then show ?thesis using inv d n p by (auto simp: once_inv_def)
qed

lemma once_step_inv: "once_step c d \<Longrightarrow> once_inv c \<Longrightarrow> once_inv d"
proof (induction rule: once_step.induct)
  case (read c t)
  show ?case
    by (rule once_inv_other [OF read.prems refl]) (use read.hyps in \<open>auto simp: once_winner_def split: if_splits\<close>)
next
  case (cas c t first v)
  show ?case
  proof (cases "once_Initialized c = 0")
    case True
    then have "once_runs c = 0" "\<forall>u. \<not> once_winner (opc c u) \<and> opc c u \<noteq> OnceDone"
      using cas.prems by (auto simp: once_inv_def)
    then show ?thesis
      unfolding once_inv_def using cas.hyps True
      by (intro disjI2 disjI1) (auto simp: once_winner_def once_cas_def intro!: exI [of _ t])
  next
    case False
    then have "c\<lparr>once_Initialized := v, opc := (opc c)(t := if first then OnceInitialise else OnceSpin)\<rparr>
        = c\<lparr>opc := (opc c)(t := OnceSpin)\<rparr>"
      using cas.hyps by (auto simp: once_cas_def)
    moreover have "once_inv (c\<lparr>opc := (opc c)(t := OnceSpin)\<rparr>)"
      by (rule once_inv_other [OF cas.prems refl]) (use cas.hyps False in \<open>auto simp: once_winner_def\<close>)
    ultimately show ?thesis by simp
  qed
next
  case (initialise c t)
  have w: "once_winner (opc c t)" using initialise.hyps by (simp add: once_winner_def)
  show ?case
    unfolding once_inv_def using once_inv_winner [OF initialise.prems w] initialise.hyps
    by (intro disjI2 disjI1) (auto simp: once_winner_def intro!: exI [of _ t])
next
  case (publish c t)
  have w: "once_winner (opc c t)" using publish.hyps by (simp add: once_winner_def)
  show ?case
    unfolding once_inv_def using once_inv_winner [OF publish.prems w] publish.hyps
    by (intro disjI2) (auto simp: once_winner_def)
next
  case (spin_done c t)
  show ?case
    by (rule once_inv_other [OF spin_done.prems refl]) (use spin_done.hyps in \<open>auto simp: once_winner_def\<close>)
next
  case (again c t)
  show ?case
    by (rule once_inv_other [OF again.prems refl]) (use again.hyps in \<open>auto simp: once_winner_def\<close>)
qed simp

lemma once_reach_inv: "once_reach c \<Longrightarrow> once_inv c"
proof (induction rule: reach_induct)
  case (init c)
  then show ?case by (auto simp: once_begin_def once_inv_def once_winner_def)
next
  case (step c d)
  then show ?case by (auto intro: once_step_inv)
qed

text \<open>the initialiser of the condition-variable list and of the critical-section lock runs at
  most once however many threads race for it, and a thread that has passed the routine finds it
  complete; while a thread spins, another one is inside the initialiser or the word is 2.\<close>

theorem ensure_initialized_once:
  assumes "once_reach c"
  shows "once_runs c \<le> 1 \<and> (opc c t = OnceDone \<longrightarrow> once_runs c = 1 \<and> once_Initialized c = 2) \<and>
    (opc c t = OnceSpin \<longrightarrow> once_Initialized c = 2 \<or> (\<exists>w. once_winner (opc c w)))"
  using once_reach_inv [OF assms] by (auto simp: once_inv_def)

theorem ensure_initialized_once_witness:
  "\<exists>c. once_reach c \<and> opc c 7 = OnceDone \<and> once_runs c = 1"
proof -
  let ?c0 = "\<lparr>once_Initialized = 0, once_runs = 0, opc = (\<lambda>_. OnceStart)\<rparr> :: once_sys"
  have r0: "once_reach ?c0" by (rule reach_init) (simp add: once_begin_def)
  let ?c1 = "?c0\<lparr>opc := (opc ?c0)(7 := OnceCas)\<rparr>"
  have r1: "once_reach ?c1"
    using once_reach_step [OF r0 once_step.read [of ?c0 7]] by simp
  let ?c2 = "?c1\<lparr>once_Initialized := 1, opc := (opc ?c1)(7 := OnceInitialise)\<rparr>"
  have r2: "once_reach ?c2"
    using once_reach_step [OF r1 once_step.cas [of ?c1 7 True 1]] by (simp add: once_cas_def)
  let ?c3 = "?c2\<lparr>once_runs := once_runs ?c2 + 1, opc := (opc ?c2)(7 := OncePublish)\<rparr>"
  have r3: "once_reach ?c3"
    using once_reach_step [OF r2 once_step.initialise [of ?c2 7]] by simp
  let ?c4 = "?c3\<lparr>once_Initialized := 2, opc := (opc ?c3)(7 := OnceDone)\<rparr>"
  have r4: "once_reach ?c4"
    using once_reach_step [OF r3 once_step.publish [of ?c3 7]] by simp
  then show ?thesis using ensure_initialized_once [OF r4, of 7] by (intro exI [of _ ?c4]) simp
qed

end
