(* ===== verification/CriticalSection.thy ===== *)
theory CriticalSection
  imports Prelude
begin

text \<open>
  The recursive critical section (src/ntdll/resource.c). All sections share one fast mutex, so
  each region between its acquisition and release is atomic. A section holds its owner, its
  recursion count, the number of waiters (\<open>LockCount\<close>, -1 when free) and, once a thread had to
  wait, a list of wait blocks; a block lives on its waiter's stack. Leaving hands the section to
  the first waiter under the mutex and sets the waiter's event after it.

  First the regions as functions, then the machine of any number of threads on one section.
\<close>

section \<open>State\<close>

record cs_state =
  cs_LockCount :: u32
  cs_RecursionCount :: u32
  cs_OwningThread :: tid
  cs_LockSemaphore :: "tid list option"
  cs_SpinCount :: u32
  cs_Event :: "tid \<Rightarrow> bool"
  cs_InList :: "tid \<Rightarrow> bool"

text \<open>\<open>cs_LockSemaphore\<close> is the pointer to the list head, \<open>None\<close> while it is \<open>NULL\<close>; \<open>cs_Event\<close> and
  \<open>cs_InList\<close> are fields of the wait block on a thread's stack.\<close>

definition cs_waiters :: "cs_state \<Rightarrow> tid list" where
  "cs_waiters s = (case cs_LockSemaphore s of None \<Rightarrow> [] | Some ws \<Rightarrow> ws)"

section \<open>Operations\<close>

definition cs_zero :: "cs_state \<Rightarrow> cs_state" where
  "cs_zero s = s\<lparr>cs_LockCount := 0, cs_RecursionCount := 0, cs_OwningThread := NULL,
     cs_LockSemaphore := None, cs_SpinCount := 0\<rparr>"

definition RtlInitializeCriticalSectionAndSpinCount ::
  "cs_state option \<Rightarrow> u32 \<Rightarrow> ntstatus \<times> cs_state option" where
  "RtlInitializeCriticalSectionAndSpinCount cs SpinCount =
     (case cs of None \<Rightarrow> (STATUS_INVALID_PARAMETER, None)
      | Some s \<Rightarrow> (STATUS_SUCCESS, Some ((cs_zero s)\<lparr>cs_LockCount := - 1, cs_SpinCount := SpinCount\<rparr>)))"

definition RtlInitializeCriticalSectionEx ::
  "cs_state option \<Rightarrow> u32 \<Rightarrow> u32 \<Rightarrow> ntstatus \<times> cs_state option" where
  "RtlInitializeCriticalSectionEx cs SpinCount Flags =
     RtlInitializeCriticalSectionAndSpinCount cs SpinCount"

definition RtlInitializeCriticalSection :: "cs_state option \<Rightarrow> ntstatus \<times> cs_state option" where
  "RtlInitializeCriticalSection cs = RtlInitializeCriticalSectionAndSpinCount cs 0"

definition RtlDeleteCriticalSection :: "cs_state option \<Rightarrow> ntstatus \<times> cs_state option" where
  "RtlDeleteCriticalSection cs =
     (case cs of None \<Rightarrow> (STATUS_INVALID_PARAMETER, None)
      | Some s \<Rightarrow> (STATUS_SUCCESS, Some ((cs_zero s)\<lparr>cs_LockCount := - 1\<rparr>)))"

definition RtlGetCriticalSectionRecursionCount :: "cs_state option \<Rightarrow> u32" where
  "RtlGetCriticalSectionRecursionCount cs =
     (case cs of None \<Rightarrow> 0 | Some s \<Rightarrow> cs_RecursionCount s)"

text \<open>\<open>alloc\<close> tells whether the pool has room. A list that another thread put in place first stays.\<close>

definition LdkpEnsureCriticalSectionState :: "bool \<Rightarrow> cs_state \<Rightarrow> ntstatus \<times> cs_state" where
  "LdkpEnsureCriticalSectionState alloc s =
     (if cs_LockSemaphore s \<noteq> None then (STATUS_SUCCESS, s)
      else if \<not> alloc then (STATUS_INSUFFICIENT_RESOURCES, s)
      else (STATUS_SUCCESS, s\<lparr>cs_LockSemaphore := Some []\<rparr>))"

definition cs_enter_prepare :: "tid \<Rightarrow> cs_state \<Rightarrow> cs_state" where
  "cs_enter_prepare t s = s\<lparr>cs_InList := (cs_InList s)(t := True), cs_Event := (cs_Event s)(t := False)\<rparr>"

text \<open>The region of \<open>RtlEnterCriticalSection\<close>: done, go and make the list, or wait.\<close>

datatype cs_enter_result = CsEntered | CsNeedsState | CsQueued

definition RtlEnterCriticalSection_region :: "tid \<Rightarrow> cs_state \<Rightarrow> cs_enter_result \<times> cs_state" where
  "RtlEnterCriticalSection_region Owner s =
     (if cs_OwningThread s = NULL
      then (CsEntered, s\<lparr>cs_OwningThread := Owner, cs_LockCount := 0, cs_RecursionCount := 1\<rparr>)
      else if cs_OwningThread s = Owner
      then (CsEntered, s\<lparr>cs_RecursionCount := cs_RecursionCount s + 1\<rparr>)
      else case cs_LockSemaphore s of
          None \<Rightarrow> (CsNeedsState, s)
        | Some ws \<Rightarrow> (CsQueued, s\<lparr>cs_LockCount := cs_LockCount s + 1,
                                  cs_LockSemaphore := Some (ws @ [Owner])\<rparr>))"

text \<open>The region after a wait that did not succeed.\<close>

definition RtlEnterCriticalSection_cancel :: "tid \<Rightarrow> cs_state \<Rightarrow> cs_state" where
  "RtlEnterCriticalSection_cancel Owner s =
     (if cs_InList s Owner
      then s\<lparr>cs_InList := (cs_InList s)(Owner := False),
             cs_LockSemaphore := map_option (remove1 Owner) (cs_LockSemaphore s),
             cs_LockCount := cs_LockCount s - 1\<rparr>
      else s)"

definition RtlTryEnterCriticalSection :: "tid \<Rightarrow> cs_state \<Rightarrow> bool \<times> cs_state" where
  "RtlTryEnterCriticalSection Owner s =
     (if cs_OwningThread s = Owner
      then (True, s\<lparr>cs_RecursionCount := cs_RecursionCount s + 1\<rparr>)
      else if cs_OwningThread s = NULL
      then (True, s\<lparr>cs_OwningThread := Owner, cs_LockCount := 0, cs_RecursionCount := 1\<rparr>)
      else (False, s))"

text \<open>The region of \<open>RtlLeaveCriticalSection\<close>: \<open>Inl\<close> is the raise, \<open>Inr\<close> the block whose event is
  still to be set.\<close>

definition RtlLeaveCriticalSection_region ::
  "tid \<Rightarrow> cs_state \<Rightarrow> (ntstatus + tid option) \<times> cs_state" where
  "RtlLeaveCriticalSection_region Owner s =
     (if cs_OwningThread s \<noteq> Owner \<or> sint (cs_RecursionCount s) \<le> 0
      then (Inl STATUS_RESOURCE_NOT_OWNED, s)
      else
        let s1 = s\<lparr>cs_RecursionCount := cs_RecursionCount s - 1\<rparr>
        in if cs_RecursionCount s1 = 0
           then (case cs_LockSemaphore s1 of
               Some (w # ws) \<Rightarrow>
                 (Inr (Some w), s1\<lparr>cs_LockSemaphore := Some ws, cs_InList := (cs_InList s1)(w := False),
                    cs_OwningThread := w, cs_RecursionCount := 1, cs_LockCount := cs_LockCount s1 - 1\<rparr>)
             | _ \<Rightarrow> (Inr None, s1\<lparr>cs_OwningThread := NULL, cs_LockCount := - 1\<rparr>))
           else (Inr None, s1))"

definition cs_KeSetEvent :: "tid \<Rightarrow> cs_state \<Rightarrow> cs_state" where
  "cs_KeSetEvent t s = s\<lparr>cs_Event := (cs_Event s)(t := True)\<rparr>"

lemmas cs_op_defs = RtlEnterCriticalSection_region_def RtlTryEnterCriticalSection_def
  RtlLeaveCriticalSection_region_def LdkpEnsureCriticalSectionState_def cs_enter_prepare_def
  cs_KeSetEvent_def

section \<open>Threads on one section\<close>

datatype cs_pc =
    CsIdle
  | CsLoop
  | CsMakeState
  | CsBlocked
  | CsSetEvent tid

text \<open>\<open>csdepth\<close> counts the successful enters of a thread that it has not left again. The wait is not
  alertable and has no timeout, so \<open>KeWaitForSingleObject\<close> returns only when the event is set. The
  recursion count is a 32-bit signed number: a thread enters at most 2^31 - 1 times.\<close>

record cs_sys =
  csec :: cs_state
  cspc :: "tid \<Rightarrow> cs_pc"
  csdepth :: "tid \<Rightarrow> nat"
  csret :: "tid \<Rightarrow> ntstatus"
  csraised :: "(tid \<times> ntstatus) list"

definition cs_init :: "cs_sys \<Rightarrow> bool" where
  "cs_init c \<longleftrightarrow> (\<exists>s. RtlInitializeCriticalSection (Some s) = (STATUS_SUCCESS, Some (csec c))) \<and>
     (\<forall>t. cspc c t = CsIdle \<and> csdepth c t = 0) \<and> csraised c = []"

inductive cs_step :: "cs_sys \<Rightarrow> cs_sys \<Rightarrow> bool" where
  enter_call: "cspc c t = CsIdle \<Longrightarrow> t \<noteq> NULL \<Longrightarrow> csdepth c t < 2 ^ 31 - 1 \<Longrightarrow>
    cs_step c (c\<lparr>csec := cs_enter_prepare t (csec c), cspc := (cspc c)(t := CsLoop)\<rparr>)"
| enter_done: "cspc c t = CsLoop \<Longrightarrow> RtlEnterCriticalSection_region t (csec c) = (CsEntered, s) \<Longrightarrow>
    cs_step c (c\<lparr>csec := s, cspc := (cspc c)(t := CsIdle), csdepth := (csdepth c)(t := csdepth c t + 1),
                 csret := (csret c)(t := STATUS_SUCCESS)\<rparr>)"
| enter_needs_state: "cspc c t = CsLoop \<Longrightarrow>
    RtlEnterCriticalSection_region t (csec c) = (CsNeedsState, s) \<Longrightarrow>
    cs_step c (c\<lparr>csec := s, cspc := (cspc c)(t := CsMakeState)\<rparr>)"
| make_state: "cspc c t = CsMakeState \<Longrightarrow>
    LdkpEnsureCriticalSectionState alloc (csec c) = (st, s) \<Longrightarrow>
    cs_step c (c\<lparr>csec := s, cspc := (cspc c)(t := if NT_SUCCESS st then CsLoop else CsIdle),
                 csret := (csret c)(t := st)\<rparr>)"
| enter_queued: "cspc c t = CsLoop \<Longrightarrow> RtlEnterCriticalSection_region t (csec c) = (CsQueued, s) \<Longrightarrow>
    cs_step c (c\<lparr>csec := s, cspc := (cspc c)(t := CsBlocked)\<rparr>)"
| wait_satisfied: "cspc c t = CsBlocked \<Longrightarrow> cs_Event (csec c) t \<Longrightarrow>
    cs_step c (c\<lparr>csec := (csec c)\<lparr>cs_Event := (cs_Event (csec c))(t := False)\<rparr>,
                 cspc := (cspc c)(t := CsIdle), csdepth := (csdepth c)(t := csdepth c t + 1),
                 csret := (csret c)(t := STATUS_SUCCESS)\<rparr>)"
| try_enter: "cspc c t = CsIdle \<Longrightarrow> t \<noteq> NULL \<Longrightarrow> csdepth c t < 2 ^ 31 - 1 \<Longrightarrow>
    RtlTryEnterCriticalSection t (csec c) = (acquired, s) \<Longrightarrow>
    cs_step c (c\<lparr>csec := s, csdepth := (csdepth c)(t := csdepth c t + (if acquired then 1 else 0))\<rparr>)"
| leave: "cspc c t = CsIdle \<Longrightarrow> t \<noteq> NULL \<Longrightarrow> RtlLeaveCriticalSection_region t (csec c) = (Inr w, s) \<Longrightarrow>
    cs_step c (c\<lparr>csec := s, csdepth := (csdepth c)(t := csdepth c t - 1),
                 cspc := (cspc c)(t := (case w of None \<Rightarrow> CsIdle | Some v \<Rightarrow> CsSetEvent v))\<rparr>)"
| leave_raises: "cspc c t = CsIdle \<Longrightarrow> t \<noteq> NULL \<Longrightarrow>
    RtlLeaveCriticalSection_region t (csec c) = (Inl st, s) \<Longrightarrow>
    cs_step c (c\<lparr>csec := s, csraised := (t, st) # csraised c\<rparr>)"
| set_event: "cspc c t = CsSetEvent w \<Longrightarrow>
    cs_step c (c\<lparr>csec := cs_KeSetEvent w (csec c), cspc := (cspc c)(t := CsIdle)\<rparr>)"

inductive_cases cs_stepE: "cs_step c d"

abbreviation cs_reach :: "cs_sys \<Rightarrow> bool" where
  "cs_reach \<equiv> reach cs_init cs_step"

lemmas cs_reach_step = reach_step [of cs_init cs_step]

section \<open>Invariant\<close>

text \<open>The invariant over the parts of a state: program points, depths, owner, waiters, the two
  counts, events and list flags. The owner may be a thread that has just been handed the section
  and is still blocked; then its event is set, or exactly one leaving thread is about to set it.\<close>

definition cs_list_ok ::
  "(tid \<Rightarrow> cs_pc) \<Rightarrow> tid \<Rightarrow> tid list \<Rightarrow> (tid \<Rightarrow> bool) \<Rightarrow> (tid \<Rightarrow> bool) \<Rightarrow> bool" where
  "cs_list_ok pc ow ws ev il \<longleftrightarrow> distinct ws \<and> (\<forall>t. t \<in> set ws \<longleftrightarrow> pc t = CsBlocked \<and> t \<noteq> ow) \<and>
     (\<forall>t. t \<in> set ws \<or> pc t = CsLoop \<or> pc t = CsMakeState \<longrightarrow> \<not> ev t \<and> il t)"

definition cs_depth_ok :: "(tid \<Rightarrow> cs_pc) \<Rightarrow> (tid \<Rightarrow> nat) \<Rightarrow> tid \<Rightarrow> bool" where
  "cs_depth_ok pc dep ow \<longleftrightarrow> (\<forall>t. t \<noteq> ow \<or> ow = NULL \<longrightarrow> dep t = 0) \<and> (\<forall>t. dep t \<le> 2 ^ 31 - 1) \<and>
     (\<forall>t. pc t = CsLoop \<or> pc t = CsMakeState \<longrightarrow> dep t < 2 ^ 31 - 1) \<and>
     (ow \<noteq> NULL \<longrightarrow> (pc ow = CsBlocked \<longleftrightarrow> dep ow = 0)) \<and> pc NULL = CsIdle"

definition cs_count_ok ::
  "(tid \<Rightarrow> nat) \<Rightarrow> tid \<Rightarrow> tid list \<Rightarrow> u32 \<Rightarrow> u32 \<Rightarrow> bool" where
  "cs_count_ok dep ow ws lc rc \<longleftrightarrow>
     (ow = NULL \<longrightarrow> ws = [] \<and> lc = - 1) \<and>
     (ow \<noteq> NULL \<longrightarrow> lc = of_nat (length ws) \<and> rc = of_nat (max 1 (dep ow)))"

definition cs_wake_ok :: "(tid \<Rightarrow> cs_pc) \<Rightarrow> tid \<Rightarrow> (tid \<Rightarrow> bool) \<Rightarrow> bool" where
  "cs_wake_ok pc ow ev \<longleftrightarrow>
     (\<forall>k w. pc k = CsSetEvent w \<longrightarrow> w = ow \<and> ow \<noteq> NULL \<and> pc w = CsBlocked \<and> \<not> ev w) \<and>
     (\<forall>j k. pc j = CsSetEvent ow \<longrightarrow> pc k = CsSetEvent ow \<longrightarrow> j = k) \<and>
     (ow \<noteq> NULL \<and> pc ow = CsBlocked \<longrightarrow> ev ow \<or> (\<exists>k. pc k = CsSetEvent ow))"

definition cs_inv :: "cs_sys \<Rightarrow> bool" where
  "cs_inv c \<longleftrightarrow>
     cs_list_ok (cspc c) (cs_OwningThread (csec c)) (cs_waiters (csec c)) (cs_Event (csec c))
       (cs_InList (csec c)) \<and>
     cs_depth_ok (cspc c) (csdepth c) (cs_OwningThread (csec c)) \<and>
     cs_count_ok (csdepth c) (cs_OwningThread (csec c)) (cs_waiters (csec c))
       (cs_LockCount (csec c)) (cs_RecursionCount (csec c)) \<and>
     cs_wake_ok (cspc c) (cs_OwningThread (csec c)) (cs_Event (csec c))"

lemma cs_waiters_upd [simp]:
  "cs_waiters (s\<lparr>cs_LockSemaphore := Some ws\<rparr>) = ws"
  "cs_waiters (s\<lparr>cs_LockCount := x\<rparr>) = cs_waiters s"
  "cs_waiters (s\<lparr>cs_RecursionCount := x\<rparr>) = cs_waiters s"
  "cs_waiters (s\<lparr>cs_OwningThread := t\<rparr>) = cs_waiters s"
  "cs_waiters (s\<lparr>cs_Event := e\<rparr>) = cs_waiters s"
  "cs_waiters (s\<lparr>cs_InList := e\<rparr>) = cs_waiters s"
  by (simp_all add: cs_waiters_def)

lemma cs_depth_sint:
  assumes "n \<le> 2 ^ 31 - 1"
  shows "sint (of_nat n :: u32) = int n"
proof -
  have "signed_take_bit 31 (int n) = int n"
    using assms by (intro signed_take_bit_int_eq_self) auto
  then show ?thesis by (simp add: signed_of_nat)
qed

lemma cs_depth_word:
  assumes "n \<le> 2 ^ 31 - 1"
  shows "(of_nat n :: u32) = 0 \<longleftrightarrow> n = 0" and "(of_nat n :: u32) - 1 = 0 \<longleftrightarrow> n = 1"
proof -
  have s: "sint (of_nat n :: u32) = int n" by (rule cs_depth_sint [OF assms])
  show "(of_nat n :: u32) = 0 \<longleftrightarrow> n = 0"
  proof
    assume "(of_nat n :: u32) = 0"
    with s have "int n = sint (0 :: u32)" by simp
    then show "n = 0" by simp
  qed simp
  show "(of_nat n :: u32) - 1 = 0 \<longleftrightarrow> n = 1"
  proof
    assume "(of_nat n :: u32) - 1 = 0"
    then have "(of_nat n :: u32) = 1" by simp
    with s have "int n = sint (1 :: u32)" by simp
    then show "n = 1" by simp
  qed simp
qed

lemma cs_list_upd:
  assumes "cs_list_ok pc ow ws ev il" and "pc t \<noteq> CsBlocked" and "p \<noteq> CsBlocked"
    and "p = CsLoop \<or> p = CsMakeState \<Longrightarrow> \<not> ev' t \<and> il' t"
    and "\<And>u. u \<noteq> t \<Longrightarrow> ev' u = ev u \<and> il' u = il u"
  shows "cs_list_ok (pc(t := p)) ow ws ev' il'"
  using assms by (auto simp: cs_list_ok_def)

lemma cs_wake_okD:
  assumes "cs_wake_ok pc ow ev"
  shows "pc k = CsSetEvent w \<Longrightarrow> w = ow \<and> ow \<noteq> NULL \<and> pc w = CsBlocked \<and> \<not> ev w"
    and "pc j = CsSetEvent ow \<Longrightarrow> pc k = CsSetEvent ow \<Longrightarrow> j = k"
    and "ow \<noteq> NULL \<Longrightarrow> pc ow = CsBlocked \<Longrightarrow> ev ow \<or> (\<exists>k. pc k = CsSetEvent ow)"
  using assms unfolding cs_wake_ok_def by blast+

lemma cs_wake_upd:
  assumes w: "cs_wake_ok pc ow ev" and t: "\<And>w. pc t \<noteq> CsSetEvent w" "pc t \<noteq> CsBlocked"
    and p: "\<And>w. p \<noteq> CsSetEvent w" "p \<noteq> CsBlocked" and ev: "\<And>u. u \<noteq> t \<Longrightarrow> ev' u = ev u"
  shows "cs_wake_ok (pc(t := p)) ow ev'"
proof -
  have old: "pc k = CsSetEvent w" "k \<noteq> t" if "(pc(t := p)) k = CsSetEvent w" for k w
    using that p(1) by (auto split: if_splits)
  have one: "w = ow \<and> ow \<noteq> NULL \<and> (pc(t := p)) w = CsBlocked \<and> \<not> ev' w"
    if "(pc(t := p)) k = CsSetEvent w" for k w
  proof -
    have "w = ow \<and> ow \<noteq> NULL \<and> pc w = CsBlocked \<and> \<not> ev w"
      by (rule cs_wake_okD(1) [OF w old(1) [OF that]])
    then show ?thesis using t(2) ev [of w] by (cases "w = t") auto
  qed
  have two: "j = k" if "(pc(t := p)) j = CsSetEvent ow" "(pc(t := p)) k = CsSetEvent ow" for j k
    by (rule cs_wake_okD(2) [OF w old(1) [OF that(1)] old(1) [OF that(2)]])
  have three: "ev' ow \<or> (\<exists>k. (pc(t := p)) k = CsSetEvent ow)"
    if "ow \<noteq> NULL" "(pc(t := p)) ow = CsBlocked"
  proof -
    have o: "ow \<noteq> t" using that(2) p(2) by auto
    then have "ev ow \<or> (\<exists>k. pc k = CsSetEvent ow)"
      using that by (intro cs_wake_okD(3) [OF w]) auto
    then show ?thesis
    proof
      assume "\<exists>k. pc k = CsSetEvent ow"
      then obtain k where k: "pc k = CsSetEvent ow" by blast
      then have "k \<noteq> t" using t(1) by auto
      then show ?thesis using k by auto
    qed (use ev [OF o] in simp)
  qed
  show ?thesis unfolding cs_wake_ok_def using one two three by blast
qed

lemma cs_step_inv:
  assumes step: "cs_step c d" and inv: "cs_inv c"
  shows "cs_inv d"
proof -
  let ?ow = "cs_OwningThread (csec c)" and ?ws = "cs_waiters (csec c)" and ?ev = "cs_Event (csec c)"
    and ?il = "cs_InList (csec c)"
  have l: "cs_list_ok (cspc c) ?ow ?ws ?ev ?il" and dp: "cs_depth_ok (cspc c) (csdepth c) ?ow"
    and ct: "cs_count_ok (csdepth c) ?ow ?ws (cs_LockCount (csec c)) (cs_RecursionCount (csec c))"
    and wk: "cs_wake_ok (cspc c) ?ow ?ev"
    using inv by (auto simp: cs_inv_def)
  have nn: "t \<noteq> NULL" if "cspc c t \<noteq> CsIdle" for t
    using dp that by (cases "t = NULL") (auto simp: cs_depth_ok_def)
  have mover: "cs_list_ok ((cspc c)(t := p)) ?ow ?ws ?ev ?il" "cs_wake_ok ((cspc c)(t := p)) ?ow ?ev"
    "cs_depth_ok ((cspc c)(t := p)) (csdepth c) ?ow"
    if "cspc c t \<in> {CsIdle, CsLoop, CsMakeState}" "p \<in> {CsIdle, CsLoop, CsMakeState}"
      "p \<noteq> CsIdle \<Longrightarrow> cspc c t \<noteq> CsIdle" for t p
  proof -
    show "cs_list_ok ((cspc c)(t := p)) ?ow ?ws ?ev ?il"
      using that l by (intro cs_list_upd [OF l]) (auto simp: cs_list_ok_def)
    show "cs_wake_ok ((cspc c)(t := p)) ?ow ?ev"
      using that by (intro cs_wake_upd [OF wk]) auto
    show "cs_depth_ok ((cspc c)(t := p)) (csdepth c) ?ow"
      using that dp by (auto simp: cs_depth_ok_def)
  qed
  have acquire: "cs_inv d"
    if t: "t \<noteq> NULL" "cspc c t = CsIdle \<or> cspc c t = CsLoop" "csdepth c t < 2 ^ 31 - 1"
      and pc: "cspc d = (cspc c)(t := CsIdle)" and dep: "csdepth d = (csdepth c)(t := csdepth c t + 1)"
      and s: "?ow = NULL \<and> csec d = (csec c)\<lparr>cs_OwningThread := t, cs_LockCount := 0, cs_RecursionCount := 1\<rparr> \<or>
        ?ow = t \<and> csec d = (csec c)\<lparr>cs_RecursionCount := cs_RecursionCount (csec c) + 1\<rparr>" for t
    using s
  proof (elim disjE conjE)
    assume ow: "?ow = NULL"
      and sd: "csec d = (csec c)\<lparr>cs_OwningThread := t, cs_LockCount := 0, cs_RecursionCount := 1\<rparr>"
    have ws: "?ws = []" using ct ow by (simp add: cs_count_ok_def)
    have nb: "cspc c u \<noteq> CsBlocked" for u
      using l dp ws ow by (auto simp: cs_list_ok_def cs_depth_ok_def)
    have ns: "cspc c u \<noteq> CsSetEvent w" for u w
      using cs_wake_okD(1) [OF wk, of u w] ow by auto
    have d0: "csdepth c u = 0" for u using dp ow by (simp add: cs_depth_ok_def)
    have "cs_list_ok (cspc d) t [] ?ev ?il"
      using l t nb by (auto simp: cs_list_ok_def pc)
    moreover have "cs_depth_ok (cspc d) (csdepth d) t"
      using dp t nb d0 by (auto simp: cs_depth_ok_def pc dep)
    moreover have "cs_count_ok (csdepth d) t [] 0 1"
      using t d0 by (simp add: cs_count_ok_def dep)
    moreover have "cs_wake_ok (cspc d) t ?ev"
      using nb ns by (auto simp: cs_wake_ok_def pc)
    ultimately show ?thesis using ws by (simp add: cs_inv_def sd)
  next
    assume ow: "?ow = t" and sd: "csec d = (csec c)\<lparr>cs_RecursionCount := cs_RecursionCount (csec c) + 1\<rparr>"
    have dt: "0 < csdepth c t" using dp ow t by (auto simp: cs_depth_ok_def)
    have m: "cs_list_ok (cspc d) ?ow ?ws ?ev ?il" "cs_wake_ok (cspc d) ?ow ?ev"
      using mover [of t CsIdle] t by (auto simp: pc)
    have "cs_depth_ok (cspc d) (csdepth d) ?ow"
      using dp t ow dt by (auto simp: cs_depth_ok_def pc dep)
    moreover have "cs_count_ok (csdepth d) ?ow ?ws (cs_LockCount (csec c)) (cs_RecursionCount (csec c) + 1)"
      using ct dt ow t by (simp add: cs_count_ok_def dep max_def)
    ultimately show ?thesis using m by (simp add: cs_inv_def sd)
  qed
  from step show ?thesis
  proof (cases rule: cs_step.cases)
    case (enter_call t)
    have "cs_depth_ok ((cspc c)(t := CsLoop)) (csdepth c) ?ow"
      using dp enter_call by (auto simp: cs_depth_ok_def)
    moreover have "cs_list_ok ((cspc c)(t := CsLoop)) ?ow ?ws (?ev(t := False)) (?il(t := True))"
      using enter_call by (intro cs_list_upd [OF l]) auto
    moreover have "cs_wake_ok ((cspc c)(t := CsLoop)) ?ow (?ev(t := False))"
      using enter_call by (intro cs_wake_upd [OF wk]) auto
    ultimately show ?thesis
      using enter_call ct by (simp add: cs_inv_def cs_enter_prepare_def)
  next
    case (enter_done t s)
    then have "t \<noteq> NULL" "csdepth c t < 2 ^ 31 - 1"
      using dp by (cases "t = NULL"; simp add: cs_depth_ok_def)+
    then show ?thesis
      using enter_done
      by (intro acquire [of t]) (auto simp: RtlEnterCriticalSection_region_def split: if_splits option.splits)
  next
    case (enter_needs_state t s)
    then have "s = csec c"
      by (auto simp: RtlEnterCriticalSection_region_def split: if_splits option.splits)
    then show ?thesis
      using enter_needs_state ct mover [of t CsMakeState] by (simp add: cs_inv_def)
  next
    case (make_state t alloc st s)
    have "cs_waiters s = ?ws" "cs_OwningThread s = ?ow" "cs_Event s = ?ev" "cs_InList s = ?il"
      "cs_LockCount s = cs_LockCount (csec c)" "cs_RecursionCount s = cs_RecursionCount (csec c)"
      using make_state(3) by (auto simp: LdkpEnsureCriticalSectionState_def cs_waiters_def split: if_splits)
    then show ?thesis
      using make_state(1,2) ct mover [of t "if NT_SUCCESS st then CsLoop else CsIdle"]
      by (simp add: cs_inv_def)
  next
    case (enter_queued t s)
    have e: "?ow \<noteq> NULL" "?ow \<noteq> t" "s = (csec c)\<lparr>cs_LockCount := cs_LockCount (csec c) + 1,
        cs_LockSemaphore := Some (?ws @ [t])\<rparr>"
      using enter_queued(3)
      by (auto simp: RtlEnterCriticalSection_region_def cs_waiters_def split: if_splits option.splits)
    have "cs_list_ok ((cspc c)(t := CsBlocked)) ?ow (?ws @ [t]) ?ev ?il"
      using l enter_queued(2) e(2) by (auto simp: cs_list_ok_def)
    moreover have "cs_depth_ok ((cspc c)(t := CsBlocked)) (csdepth c) ?ow"
      using dp enter_queued(2) e nn [of t] by (auto simp: cs_depth_ok_def)
    moreover have "cs_count_ok (csdepth c) ?ow (?ws @ [t]) (cs_LockCount (csec c) + 1) (cs_RecursionCount (csec c))"
      using ct e by (simp add: cs_count_ok_def)
    moreover have "cs_wake_ok ((cspc c)(t := CsBlocked)) ?ow ?ev"
    proof -
      have old: "cspc c k = CsSetEvent v \<and> k \<noteq> t" if "((cspc c)(t := CsBlocked)) k = CsSetEvent v" for k v
        using that by (auto split: if_splits)
      have three: "?ev ?ow \<or> (\<exists>k. ((cspc c)(t := CsBlocked)) k = CsSetEvent ?ow)"
        if b: "((cspc c)(t := CsBlocked)) ?ow = CsBlocked"
      proof -
        have "cspc c ?ow = CsBlocked" using b e(2) by simp
        then consider "?ev ?ow" | k where "cspc c k = CsSetEvent ?ow"
          using cs_wake_okD(3) [OF wk e(1)] by blast
        then show ?thesis
        proof cases
          case (2 k)
          then have "k \<noteq> t" using enter_queued(2) by auto
          then show ?thesis using 2 by auto
        qed simp
      qed
      have one: "v = ?ow \<and> ?ow \<noteq> NULL \<and> ((cspc c)(t := CsBlocked)) v = CsBlocked \<and> \<not> ?ev v"
        if "((cspc c)(t := CsBlocked)) k = CsSetEvent v" for k v
        using cs_wake_okD(1) [OF wk, of k v] old [OF that] by auto
      have two: "j = k" if "((cspc c)(t := CsBlocked)) j = CsSetEvent ?ow"
          "((cspc c)(t := CsBlocked)) k = CsSetEvent ?ow" for j k
        using cs_wake_okD(2) [OF wk, of j k] old [OF that(1)] old [OF that(2)] by blast
      show ?thesis unfolding cs_wake_ok_def using one two three by blast
    qed
    ultimately show ?thesis using enter_queued(1) by (simp add: cs_inv_def e(3))
  next
    case (wait_satisfied t)
    have ow: "t = ?ow" using l wait_satisfied(2,3) unfolding cs_list_ok_def by blast
    have nn: "t \<noteq> NULL" using dp wait_satisfied(2) by (cases "t = NULL") (auto simp: cs_depth_ok_def)
    have d0: "csdepth c t = 0" using dp ow nn wait_satisfied(2) by (simp add: cs_depth_ok_def)
    have ns: "cspc c k \<noteq> CsSetEvent v" for k v
      using cs_wake_okD(1) [OF wk, of k v] wait_satisfied(3) ow by auto
    have "cs_list_ok ((cspc c)(t := CsIdle)) ?ow ?ws (?ev(t := False)) ?il"
      using l wait_satisfied(2) ow by (auto simp: cs_list_ok_def)
    moreover have "cs_depth_ok ((cspc c)(t := CsIdle)) ((csdepth c)(t := csdepth c t + 1)) ?ow"
      using dp wait_satisfied(2) ow nn d0 by (auto simp: cs_depth_ok_def)
    moreover have "cs_count_ok ((csdepth c)(t := csdepth c t + 1)) ?ow ?ws (cs_LockCount (csec c))
        (cs_RecursionCount (csec c))"
      using ct ow nn d0 by (auto simp: cs_count_ok_def)
    moreover have "cs_wake_ok ((cspc c)(t := CsIdle)) ?ow (?ev(t := False))"
      using ns ow by (auto simp: cs_wake_ok_def)
    ultimately show ?thesis using wait_satisfied(1) by (simp add: cs_inv_def)
  next
    case (try_enter t acquired s)
    show ?thesis
    proof (cases acquired)
      case True
      then show ?thesis
        using try_enter
        by (intro acquire [of t]) (auto simp: RtlTryEnterCriticalSection_def split: if_splits)
    next
      case False
      then have "s = csec c" using try_enter(5) by (auto simp: RtlTryEnterCriticalSection_def split: if_splits)
      then show ?thesis using False try_enter(1) inv by (simp add: cs_inv_def)
    qed
  next
    case (leave t w s)
    have ow: "?ow = t" and pos: "0 < sint (cs_RecursionCount (csec c))"
      using leave(4) by (auto simp: RtlLeaveCriticalSection_region_def split: if_splits)
    have dt: "0 < csdepth c t" "csdepth c t \<le> 2 ^ 31 - 1" using dp ow leave(2,3) by (auto simp: cs_depth_ok_def)
    have rc: "cs_RecursionCount (csec c) = of_nat (csdepth c t)" using ct ow leave(3) dt by (simp add: cs_count_ok_def max_def)
    have ns: "cspc c k \<noteq> CsSetEvent v" for k v
      using cs_wake_okD(1) [OF wk, of k v] ow leave(2) by auto
    show ?thesis
    proof (cases "csdepth c t = 1")
      case False
      then have e: "w = None" "s = (csec c)\<lparr>cs_RecursionCount := cs_RecursionCount (csec c) - 1\<rparr>"
        using leave(4) cs_depth_word(2) [OF dt(2)] rc
        by (auto simp: RtlLeaveCriticalSection_region_def Let_def split: if_splits)
      have "cs_depth_ok (cspc c) ((csdepth c)(t := csdepth c t - 1)) ?ow"
        using dp ow leave(2,3) dt False le_trans [OF diff_le_self dt(2)]
        by (auto simp: cs_depth_ok_def)
      moreover have "cs_count_ok ((csdepth c)(t := csdepth c t - 1)) ?ow ?ws (cs_LockCount (csec c))
          (cs_RecursionCount (csec c) - 1)"
      proof -
        have "max 1 (csdepth c t - 1) = csdepth c t - 1" using dt False by simp
        then show ?thesis using ct ow leave(3) rc dt by (simp add: cs_count_ok_def of_nat_diff)
      qed
      moreover have "(cspc c)(t := CsIdle) = cspc c" using leave(2) by auto
      ultimately show ?thesis using leave(1) l wk by (simp add: cs_inv_def e)
    next
      case True
      have d1: "csdepth c u = 0" if "u \<noteq> t" for u using dp ow that by (auto simp: cs_depth_ok_def)
      show ?thesis
      proof (cases ?ws)
        case Nil
        then have e: "w = None" "cs_OwningThread s = NULL" "cs_LockCount s = - 1" "cs_waiters s = []"
            "cs_Event s = ?ev" "cs_InList s = ?il"
          using leave(4) rc True
          by (auto simp: RtlLeaveCriticalSection_region_def Let_def cs_waiters_def
              split: if_splits option.splits list.splits)
        have nb: "cspc c u \<noteq> CsBlocked" for u using l Nil ow leave(2) by (auto simp: cs_list_ok_def)
        have i: "(cspc c)(t := CsIdle) = cspc c" using leave(2) by auto
        have "cs_list_ok (cspc c) NULL [] ?ev ?il" using l nb by (auto simp: cs_list_ok_def)
        moreover have "cs_depth_ok (cspc c) ((csdepth c)(t := csdepth c t - 1)) NULL"
          using dp True d1 by (auto simp: cs_depth_ok_def)
        moreover have "cs_wake_ok (cspc c) NULL ?ev" using ns by (simp add: cs_wake_ok_def)
        ultimately show ?thesis using leave(1) i by (simp add: cs_inv_def e cs_count_ok_def)
      next
        case (Cons v vs)
        then have e: "w = Some v" "cs_OwningThread s = v" "cs_LockCount s = cs_LockCount (csec c) - 1"
            "cs_waiters s = vs" "cs_RecursionCount s = 1" "cs_Event s = ?ev" "cs_InList s = ?il(v := False)"
          using leave(4) rc True
          by (auto simp: RtlLeaveCriticalSection_region_def Let_def cs_waiters_def
              split: if_splits option.splits list.splits)
        have v: "cspc c v = CsBlocked" "v \<noteq> t" "\<not> ?ev v" "v \<notin> set vs"
          using l Cons ow by (auto simp: cs_list_ok_def)
        have vn: "v \<noteq> NULL" using v(1) dp by (cases "v = NULL") (auto simp: cs_depth_ok_def)
        have "cs_list_ok ((cspc c)(t := CsSetEvent v)) v vs ?ev (?il(v := False))"
          using l Cons ow leave(2) v by (auto simp: cs_list_ok_def)
        moreover have "cs_depth_ok ((cspc c)(t := CsSetEvent v)) ((csdepth c)(t := csdepth c t - 1)) v"
          using dp True d1 v vn leave(2,3) by (auto simp: cs_depth_ok_def)
        moreover have "cs_count_ok ((csdepth c)(t := csdepth c t - 1)) v vs (cs_LockCount (csec c) - 1) 1"
          using ct ow leave(3) Cons d1 v vn by (auto simp: cs_count_ok_def)
        moreover have "cs_wake_ok ((cspc c)(t := CsSetEvent v)) v ?ev"
          using ns v vn by (auto simp: cs_wake_ok_def)
        ultimately show ?thesis using leave(1) by (simp add: cs_inv_def e)
      qed
    qed
  next
    case (leave_raises t st s)
    then have "s = csec c"
      by (auto simp: RtlLeaveCriticalSection_region_def Let_def split: if_splits option.splits list.splits)
    then show ?thesis using leave_raises(1) inv by (simp add: cs_inv_def)
  next
    case (set_event t w)
    have w: "w = ?ow" "?ow \<noteq> NULL" "cspc c w = CsBlocked" using cs_wake_okD(1) [OF wk set_event(2)] by auto
    have tw: "t \<noteq> w" using w set_event(2) by auto
    have ns: "k = t" if "cspc c k = CsSetEvent v" for k v
    proof -
      have "v = ?ow" using cs_wake_okD(1) [OF wk that] by simp
      then show ?thesis using cs_wake_okD(2) [OF wk] that set_event(2) w(1) by blast
    qed
    have "cs_list_ok ((cspc c)(t := CsIdle)) ?ow ?ws (?ev(w := True)) ?il"
      using l w set_event(2) by (auto simp: cs_list_ok_def)
    moreover have "cs_depth_ok ((cspc c)(t := CsIdle)) (csdepth c) ?ow"
      using dp w set_event(2) tw by (auto simp: cs_depth_ok_def)
    moreover have "cs_wake_ok ((cspc c)(t := CsIdle)) ?ow (?ev(w := True))"
      using ns w by (auto simp: cs_wake_ok_def)
    ultimately show ?thesis using ct set_event(1) by (simp add: cs_inv_def cs_KeSetEvent_def)
  qed
qed

lemma cs_reach_inv: "cs_reach c \<Longrightarrow> cs_inv c"
proof (induction rule: reach_induct)
  case (init c)
  then obtain s where "(cs_zero s)\<lparr>cs_LockCount := - 1, cs_SpinCount := 0\<rparr> = csec c"
    by (auto simp: cs_init_def RtlInitializeCriticalSection_def RtlInitializeCriticalSectionAndSpinCount_def)
  from this [symmetric] have s: "cs_OwningThread (csec c) = NULL" "cs_waiters (csec c) = []" "cs_LockCount (csec c) = - 1"
    by (simp_all add: cs_zero_def cs_waiters_def)
  have "\<forall>t. cspc c t = CsIdle \<and> csdepth c t = 0" using init by (simp add: cs_init_def)
  then show ?case
    unfolding cs_inv_def s by (simp add: cs_list_ok_def cs_depth_ok_def cs_count_ok_def cs_wake_ok_def)
next
  case (step c d)
  then show ?case by (auto intro: cs_step_inv)
qed

section \<open>An example run\<close>

text \<open>Thread 1 enters, thread 2 queues behind it, thread 1 leaves and has the event still to set.\<close>

definition cs_c0 :: cs_sys where
  "cs_c0 = \<lparr>csec = \<lparr>cs_LockCount = - 1, cs_RecursionCount = 0, cs_OwningThread = 0,
       cs_LockSemaphore = None, cs_SpinCount = 0, cs_Event = (\<lambda>_. False), cs_InList = (\<lambda>_. False)\<rparr>,
     cspc = (\<lambda>_. CsIdle), csdepth = (\<lambda>_. 0), csret = (\<lambda>_. STATUS_SUCCESS), csraised = []\<rparr>"

definition cs_c1 :: cs_sys where
  "cs_c1 = cs_c0\<lparr>csec := (csec cs_c0)\<lparr>cs_LockCount := 0, cs_RecursionCount := 1, cs_OwningThread := 1,
       cs_InList := (\<lambda>_. False)(1 := True)\<rparr>, csdepth := (\<lambda>_. 0)(1 := 1)\<rparr>"

definition cs_c2 :: cs_sys where
  "cs_c2 = cs_c1\<lparr>csec := (csec cs_c1)\<lparr>cs_LockCount := 1, cs_LockSemaphore := Some [2],
       cs_InList := (\<lambda>_. False)(1 := True, 2 := True)\<rparr>, cspc := (\<lambda>_. CsIdle)(2 := CsBlocked)\<rparr>"

definition cs_c3 :: cs_sys where
  "cs_c3 = cs_c2\<lparr>csec := snd (RtlLeaveCriticalSection_region 1 (csec cs_c2)),
     csdepth := (\<lambda>_. 0), cspc := (cspc cs_c2)(1 := CsSetEvent 2)\<rparr>"

lemma cs_run: "cs_reach cs_c1" "cs_reach cs_c2" "cs_reach cs_c3"
proof -
  have r0: "cs_reach cs_c0"
    by (rule reach_init) (auto simp: cs_init_def cs_c0_def RtlInitializeCriticalSection_def
        RtlInitializeCriticalSectionAndSpinCount_def cs_zero_def
        intro!: exI [of _ "csec cs_c0"])
  let ?a = "cs_c0\<lparr>csec := cs_enter_prepare 1 (csec cs_c0), cspc := (cspc cs_c0)(1 := CsLoop)\<rparr>"
  have ra: "cs_reach ?a"
    by (rule cs_reach_step [OF r0 cs_step.enter_call]) (simp_all add: cs_c0_def)
  let ?s = "snd (RtlEnterCriticalSection_region 1 (csec ?a))"
  have "cs_step ?a (?a\<lparr>csec := ?s, cspc := (cspc ?a)(1 := CsIdle),
      csdepth := (csdepth ?a)(1 := csdepth ?a 1 + 1), csret := (csret ?a)(1 := STATUS_SUCCESS)\<rparr>)"
    by (rule cs_step.enter_done) (simp_all add: cs_c0_def cs_op_defs)
  moreover have "?a\<lparr>csec := ?s, cspc := (cspc ?a)(1 := CsIdle),
      csdepth := (csdepth ?a)(1 := csdepth ?a 1 + 1), csret := (csret ?a)(1 := STATUS_SUCCESS)\<rparr> = cs_c1"
    by (auto simp: cs_c0_def cs_c1_def cs_op_defs fun_eq_iff)
  ultimately show r1: "cs_reach cs_c1" using cs_reach_step [OF ra] by simp
  let ?b = "cs_c1\<lparr>csec := cs_enter_prepare 2 (csec cs_c1), cspc := (cspc cs_c1)(2 := CsLoop)\<rparr>"
  have rb: "cs_reach ?b"
    by (rule cs_reach_step [OF r1 cs_step.enter_call]) (simp_all add: cs_c0_def cs_c1_def)
  let ?d = "?b\<lparr>csec := csec ?b, cspc := (cspc ?b)(2 := CsMakeState)\<rparr>"
  have rd: "cs_reach ?d"
    by (rule cs_reach_step [OF rb cs_step.enter_needs_state]) (simp_all add: cs_c0_def cs_c1_def cs_op_defs)
  let ?s2 = "(csec ?d)\<lparr>cs_LockSemaphore := Some []\<rparr>"
  let ?e = "?d\<lparr>csec := ?s2, cspc := (cspc ?d)(2 := CsLoop), csret := (csret ?d)(2 := STATUS_SUCCESS)\<rparr>"
  have "cs_step ?d (?d\<lparr>csec := ?s2, cspc := (cspc ?d)(2 := if NT_SUCCESS STATUS_SUCCESS then CsLoop else CsIdle),
      csret := (csret ?d)(2 := STATUS_SUCCESS)\<rparr>)"
    by (rule cs_step.make_state [where alloc = True]) (simp_all add: cs_c0_def cs_c1_def cs_op_defs)
  then have re: "cs_reach ?e" using cs_reach_step [OF rd] by simp
  let ?s3 = "snd (RtlEnterCriticalSection_region 2 (csec ?e))"
  have "cs_step ?e (?e\<lparr>csec := ?s3, cspc := (cspc ?e)(2 := CsBlocked)\<rparr>)"
    by (rule cs_step.enter_queued) (simp_all add: cs_c0_def cs_c1_def cs_op_defs)
  moreover have "?e\<lparr>csec := ?s3, cspc := (cspc ?e)(2 := CsBlocked)\<rparr> = cs_c2"
    by (auto simp: cs_c0_def cs_c1_def cs_c2_def cs_op_defs fun_eq_iff)
  ultimately show r2: "cs_reach cs_c2" using cs_reach_step [OF re] by simp
  let ?s4 = "snd (RtlLeaveCriticalSection_region 1 (csec cs_c2))"
  have "cs_step cs_c2 (cs_c2\<lparr>csec := ?s4, csdepth := (csdepth cs_c2)(1 := csdepth cs_c2 1 - 1),
      cspc := (cspc cs_c2)(1 := (case Some 2 of None \<Rightarrow> CsIdle | Some v \<Rightarrow> CsSetEvent v))\<rparr>)"
    by (rule cs_step.leave) (simp_all add: cs_c0_def cs_c1_def cs_c2_def cs_op_defs Let_def)
  moreover have "(csdepth cs_c2)(1 := csdepth cs_c2 1 - 1) = (\<lambda>_. 0)"
    by (auto simp: cs_c2_def cs_c1_def)
  ultimately show "cs_reach cs_c3" using cs_reach_step [OF r2] by (simp add: cs_c3_def)
qed

section \<open>What a critical section promises\<close>

text \<open>C7: mutual exclusion with recursion. A thread that has entered more often than it has left is
  the owner, the recursion count is its depth, and no other thread is inside. A free section has
  \<open>LockCount\<close> -1 and no waiter; an owned one counts its waiters in \<open>LockCount\<close>.\<close>

theorem critical_section_exclusion:
  assumes "cs_reach c"
  shows "(0 < csdepth c t \<longrightarrow> cs_OwningThread (csec c) = t \<and>
      sint (cs_RecursionCount (csec c)) = int (csdepth c t) \<and> (\<forall>u. u \<noteq> t \<longrightarrow> csdepth c u = 0)) \<and>
    (cs_OwningThread (csec c) = NULL \<longrightarrow> cs_LockCount (csec c) = - 1 \<and> (\<forall>u. cspc c u \<noteq> CsBlocked)) \<and>
    (cs_OwningThread (csec c) \<noteq> NULL \<longrightarrow>
      cs_LockCount (csec c) = of_nat (card {u. cspc c u = CsBlocked \<and> u \<noteq> cs_OwningThread (csec c)}))"
proof -
  let ?ow = "cs_OwningThread (csec c)" and ?ws = "cs_waiters (csec c)"
  have i: "cs_list_ok (cspc c) ?ow ?ws (cs_Event (csec c)) (cs_InList (csec c))"
      "cs_depth_ok (cspc c) (csdepth c) ?ow"
      "cs_count_ok (csdepth c) ?ow ?ws (cs_LockCount (csec c)) (cs_RecursionCount (csec c))"
    using cs_reach_inv [OF assms] by (auto simp: cs_inv_def)
  have ws: "set ?ws = {u. cspc c u = CsBlocked \<and> u \<noteq> ?ow}" "distinct ?ws"
    using i(1) by (auto simp: cs_list_ok_def)
  have "?ow = t \<and> sint (cs_RecursionCount (csec c)) = int (csdepth c t) \<and> (\<forall>u. u \<noteq> t \<longrightarrow> csdepth c u = 0)"
    if d: "0 < csdepth c t"
  proof -
    have o: "?ow = t" "t \<noteq> NULL" using i(2) d unfolding cs_depth_ok_def by (metis less_irrefl)+
    have "cs_RecursionCount (csec c) = of_nat (csdepth c t)"
      using i(3) o d by (simp add: cs_count_ok_def max_def)
    moreover have "csdepth c t \<le> 2 ^ 31 - 1" using i(2) by (simp add: cs_depth_ok_def)
    ultimately show ?thesis using cs_depth_sint o i(2) by (auto simp: cs_depth_ok_def)
  qed
  moreover have "cs_LockCount (csec c) = - 1 \<and> (\<forall>u. cspc c u \<noteq> CsBlocked)" if o: "?ow = NULL"
  proof -
    have "?ws = []" "cs_LockCount (csec c) = - 1" using i(3) o by (auto simp: cs_count_ok_def)
    moreover have "cspc c NULL = CsIdle" using i(2) by (simp add: cs_depth_ok_def)
    ultimately show ?thesis using ws(1) o by (metis (mono_tags, lifting) cs_pc.distinct(5) empty_iff list.set(1) mem_Collect_eq)
  qed
  moreover have "cs_LockCount (csec c) = of_nat (card {u. cspc c u = CsBlocked \<and> u \<noteq> ?ow})" if "?ow \<noteq> NULL"
    using i(3) that distinct_card [OF ws(2)] ws(1) by (simp add: cs_count_ok_def)
  ultimately show ?thesis by blast
qed

theorem critical_section_exclusion_witness:
  "0 < csdepth cs_c1 1 \<and> cs_OwningThread (csec cs_c1) = 1 \<and> {u. csdepth cs_c1 u \<noteq> 0} = {1} \<and>
   cs_LockCount (csec cs_c2) = of_nat (card {u. cspc cs_c2 u = CsBlocked \<and> u \<noteq> cs_OwningThread (csec cs_c2)})"
proof -
  have d: "0 < csdepth cs_c1 1" "cs_OwningThread (csec cs_c2) \<noteq> NULL"
    by (simp_all add: cs_c1_def cs_c2_def)
  show ?thesis
    using critical_section_exclusion [OF cs_run(1), of 1] critical_section_exclusion [OF cs_run(2), of 1] d
    by auto
qed

text \<open>C8: no hand-over is lost and no freed frame is written. A thread blocked in
  \<open>RtlEnterCriticalSection\<close> waits behind an owner: either it is in the wait list, or it has become
  the owner and its event is set or exactly one leaving thread is about to set it. And a leaving
  thread that is about to set an event holds the block of the owner, who is still blocked.\<close>

theorem critical_section_handoff:
  assumes "cs_reach c"
  shows "(cspc c t = CsBlocked \<longrightarrow> cs_OwningThread (csec c) \<noteq> NULL \<and>
      (t \<in> set (cs_waiters (csec c)) \<or>
       cs_OwningThread (csec c) = t \<and> (cs_Event (csec c) t \<or> (\<exists>!k. cspc c k = CsSetEvent t)))) \<and>
    (\<forall>k w. cspc c k = CsSetEvent w \<longrightarrow> cs_OwningThread (csec c) = w \<and> cspc c w = CsBlocked)"
proof -
  let ?ow = "cs_OwningThread (csec c)" and ?ws = "cs_waiters (csec c)"
  have l: "cs_list_ok (cspc c) ?ow ?ws (cs_Event (csec c)) (cs_InList (csec c))"
    and dp: "cs_depth_ok (cspc c) (csdepth c) ?ow"
    and ct: "cs_count_ok (csdepth c) ?ow ?ws (cs_LockCount (csec c)) (cs_RecursionCount (csec c))"
    and wk: "cs_wake_ok (cspc c) ?ow (cs_Event (csec c))"
    using cs_reach_inv [OF assms] by (auto simp: cs_inv_def)
  have "?ow \<noteq> NULL \<and> (t \<in> set ?ws \<or> ?ow = t \<and> (cs_Event (csec c) t \<or> (\<exists>!k. cspc c k = CsSetEvent t)))"
    if b: "cspc c t = CsBlocked"
  proof (cases "t = ?ow")
    case True
    have n: "?ow \<noteq> NULL" using b True dp by (metis cs_depth_ok_def cs_pc.distinct(5))
    have "cs_Event (csec c) ?ow \<or> (\<exists>k. cspc c k = CsSetEvent ?ow)"
      using cs_wake_okD(3) [OF wk n] b True by simp
    then show ?thesis using True n cs_wake_okD(2) [OF wk] by blast
  next
    case False
    then have m: "t \<in> set ?ws" using l b by (simp add: cs_list_ok_def)
    then have "?ow \<noteq> NULL" using ct by (auto simp: cs_count_ok_def)
    then show ?thesis using m by simp
  qed
  then show ?thesis using cs_wake_okD(1) [OF wk] by blast
qed

theorem critical_section_handoff_witness:
  "cspc cs_c3 2 = CsBlocked \<and> cspc cs_c3 1 = CsSetEvent 2 \<and> cs_OwningThread (csec cs_c3) = 2 \<and>
   (2 \<in> set (cs_waiters (csec cs_c3)) \<or> cs_Event (csec cs_c3) 2 \<or> (\<exists>!k. cspc cs_c3 k = CsSetEvent 2))"
proof -
  have p: "cspc cs_c3 2 = CsBlocked" "cspc cs_c3 1 = CsSetEvent 2"
    by (simp_all add: cs_c3_def cs_c2_def)
  then show ?thesis using critical_section_handoff [OF cs_run(3), of 2] by blast
qed

text \<open>leaving. A thread that is not inside gets the raise and changes nothing; an inner leave
  counts down; the outermost leave frees the section when nobody waits, and otherwise makes the
  first waiter the owner, with recursion count 1, and leaves the other waiters in their order.\<close>

theorem critical_section_leave:
  assumes "cs_reach c" and "cspc c t = CsIdle" and "t \<noteq> NULL"
    and "RtlLeaveCriticalSection_region t (csec c) = (r, s)"
  shows "case r of
      Inl st \<Rightarrow> csdepth c t = 0 \<and> st = STATUS_RESOURCE_NOT_OWNED \<and> s = csec c
    | Inr None \<Rightarrow> 0 < csdepth c t \<and> cs_waiters s = cs_waiters (csec c) \<and>
        (if csdepth c t = 1 then cs_OwningThread s = NULL \<and> cs_LockCount s = - 1 \<and> cs_waiters s = []
         else cs_OwningThread s = t \<and> cs_RecursionCount s = of_nat (csdepth c t - 1))
    | Inr (Some w) \<Rightarrow> csdepth c t = 1 \<and> cs_waiters (csec c) = w # cs_waiters s \<and>
        cs_OwningThread s = w \<and> cs_RecursionCount s = 1"
proof -
  let ?ow = "cs_OwningThread (csec c)" and ?ws = "cs_waiters (csec c)"
  have dp: "cs_depth_ok (cspc c) (csdepth c) ?ow"
    and ct: "cs_count_ok (csdepth c) ?ow ?ws (cs_LockCount (csec c)) (cs_RecursionCount (csec c))"
    using cs_reach_inv [OF assms(1)] by (auto simp: cs_inv_def)
  show ?thesis
  proof (cases "csdepth c t = 0")
    case True
    then have "?ow \<noteq> t" using dp assms(2,3) by (auto simp: cs_depth_ok_def)
    then show ?thesis using assms(4) True by (auto simp: RtlLeaveCriticalSection_region_def)
  next
    case False
    have o: "?ow = t" using dp False unfolding cs_depth_ok_def by metis
    have b: "csdepth c t \<le> 2 ^ 31 - 1" using dp by (simp add: cs_depth_ok_def)
    have rc: "cs_RecursionCount (csec c) = of_nat (csdepth c t)"
      using ct o assms(3) False by (simp add: cs_count_ok_def max_def)
    have pos: "\<not> sint (cs_RecursionCount (csec c)) \<le> 0" using cs_depth_sint [OF b] rc False by simp
    show ?thesis
    proof (cases "csdepth c t = 1")
      case True
      then show ?thesis
        using assms(4) o pos rc
        by (auto simp: RtlLeaveCriticalSection_region_def Let_def cs_waiters_def
            split: option.splits list.splits)
    next
      case nf: False
      then have "cs_RecursionCount (csec c) - 1 \<noteq> 0" using cs_depth_word(2) [OF b] rc by simp
      then show ?thesis
        using assms(4) o pos rc False nf
        by (auto simp: RtlLeaveCriticalSection_region_def Let_def of_nat_diff)
    qed
  qed
qed

theorem critical_section_leave_witness:
  "\<exists>s. RtlLeaveCriticalSection_region 1 (csec cs_c2) = (Inr (Some 2), s) \<and> csdepth cs_c2 1 = 1 \<and>
     cs_OwningThread s = 2"
proof -
  obtain s where e: "RtlLeaveCriticalSection_region 1 (csec cs_c2) = (Inr (Some 2), s)"
    by (simp add: cs_c0_def cs_c1_def cs_c2_def cs_op_defs Let_def)
  have "cspc cs_c2 1 = CsIdle" by (simp add: cs_c2_def)
  from critical_section_leave [OF cs_run(2) this _ e] e show ?thesis by simp
qed

end
