(* ===== verification/KeyedEvent.thy ===== *)
theory KeyedEvent
  imports Prelude
begin

text \<open>
  Keyed events (src/ntdll/keyedevent.c). The state is the one list of waiting entries, each a key
  and the thread that waits on it, and every thread's keyed-wait semaphore (src/teb.c gives it the
  limit 1). A release looks for the first entry with its key; while there is none it waits on the
  event object and looks again.
\<close>

section \<open>State and operations\<close>

record ke_entry =
  ke_Key :: addr
  ke_Teb :: tid

record ke_state =
  ke_WaitList :: "ke_entry list"
  ke_Semaphore :: "tid \<Rightarrow> nat"

definition LdkpInitializeKeyedEventList :: "ke_state \<Rightarrow> ntstatus \<times> ke_state" where
  "LdkpInitializeKeyedEventList s = (STATUS_SUCCESS, s\<lparr>ke_WaitList := []\<rparr>)"

text \<open>Releasing a semaphore at its limit is an exception of the kernel; the count stays at 1.\<close>

definition ke_KeReleaseSemaphore :: "tid \<Rightarrow> ke_state \<Rightarrow> ke_state" where
  "ke_KeReleaseSemaphore t s = s\<lparr>ke_Semaphore := (ke_Semaphore s)(t := min 1 (ke_Semaphore s t + 1))\<rparr>"

fun LdkpTerminateKeyedEventList_walk :: "ke_entry list \<Rightarrow> ke_state \<Rightarrow> ke_state" where
  "LdkpTerminateKeyedEventList_walk [] s = s"
| "LdkpTerminateKeyedEventList_walk (e # es) s =
     LdkpTerminateKeyedEventList_walk es
       ((ke_KeReleaseSemaphore (ke_Teb e) s)\<lparr>ke_WaitList := remove1 e (ke_WaitList s)\<rparr>)"

definition LdkpTerminateKeyedEventList :: "ke_state \<Rightarrow> ke_state" where
  "LdkpTerminateKeyedEventList s = LdkpTerminateKeyedEventList_walk (ke_WaitList s) s"

text \<open>\<open>alloc\<close> tells whether the lookaside list has an entry.\<close>

definition NtWaitForKeyedEvent_enter :: "bool \<Rightarrow> addr \<Rightarrow> tid \<Rightarrow> ke_state \<Rightarrow> ntstatus option \<times> ke_state" where
  "NtWaitForKeyedEvent_enter alloc Key t s =
     (if \<not> alloc then (Some STATUS_INSUFFICIENT_RESOURCES, s)
      else (None, s\<lparr>ke_WaitList := ke_WaitList s @ [\<lparr>ke_Key = Key, ke_Teb = t\<rparr>]\<rparr>))"

text \<open>The wait on the thread's semaphore: it is taken when its count allows, and otherwise the wait
  can only end with the status of a timeout or an alert.\<close>

definition NtWaitForKeyedEvent_wait :: "ntstatus \<Rightarrow> tid \<Rightarrow> ke_state \<Rightarrow> ntstatus \<times> ke_state" where
  "NtWaitForKeyedEvent_wait otherwise t s =
     (if 0 < ke_Semaphore s t
      then (STATUS_SUCCESS, s\<lparr>ke_Semaphore := (ke_Semaphore s)(t := ke_Semaphore s t - 1)\<rparr>)
      else (otherwise, s))"

definition NtReleaseKeyedEvent_scan :: "addr \<Rightarrow> ke_state \<Rightarrow> tid option \<times> ke_state" where
  "NtReleaseKeyedEvent_scan Key s =
     (case List.find (\<lambda>e. ke_Key e = Key) (ke_WaitList s) of
        None \<Rightarrow> (None, s)
      | Some e \<Rightarrow> (Some (ke_Teb e), s\<lparr>ke_WaitList := remove1 e (ke_WaitList s)\<rparr>))"

text \<open>The loop of a release. \<open>waits i\<close> is the outcome of the \<open>i\<close>-th wait on the event object and the
  state that other threads have made in the meantime. \<open>None\<close> is a release that never returns.\<close>

partial_function (option) NtReleaseKeyedEvent_loop ::
  "addr \<Rightarrow> (nat \<Rightarrow> ntstatus \<times> ke_state) \<Rightarrow> nat \<Rightarrow> ke_state \<Rightarrow> (ntstatus \<times> tid option \<times> ke_state) option" where
  "NtReleaseKeyedEvent_loop Key waits i s =
     (case NtReleaseKeyedEvent_scan Key s of
        (Some t, s1) \<Rightarrow> Some (STATUS_SUCCESS, Some t, s1)
      | (None, s1) \<Rightarrow>
          (let (Status, s2) = waits i
           in if NT_SUCCESS Status then NtReleaseKeyedEvent_loop Key waits (i + 1) s2
              else Some (Status, None, s1)))"

definition NtReleaseKeyedEvent ::
  "addr \<Rightarrow> (nat \<Rightarrow> ntstatus \<times> ke_state) \<Rightarrow> ke_state \<Rightarrow> (ntstatus \<times> ke_state) option" where
  "NtReleaseKeyedEvent Key waits s =
     (case NtReleaseKeyedEvent_loop Key waits 0 s of
        None \<Rightarrow> None
      | Some (Status, None, s1) \<Rightarrow> Some (Status, s1)
      | Some (Status, Some t, s1) \<Rightarrow> Some (STATUS_SUCCESS, ke_KeReleaseSemaphore t s1))"

section \<open>Pairing a release with a wait\<close>

text \<open>a release is paired with the longest-waiting thread on its key. With an entry for the key
  in the list the call returns success; the first such entry is gone, its thread's wait succeeds,
  and the other entries and the other threads' semaphores are as they were.\<close>

theorem keyed_release_first_waiter:
  assumes "List.find (\<lambda>e. ke_Key e = Key) (ke_WaitList s) = Some e" and "ke_Semaphore s (ke_Teb e) = 0"
  shows "\<exists>s'. NtReleaseKeyedEvent Key waits s = Some (STATUS_SUCCESS, s') \<and>
    ke_WaitList s' = remove1 e (ke_WaitList s) \<and>
    (\<forall>u. u \<noteq> ke_Teb e \<longrightarrow> ke_Semaphore s' u = ke_Semaphore s u) \<and>
    (\<exists>s''. NtWaitForKeyedEvent_wait STATUS_TIMEOUT (ke_Teb e) s' = (STATUS_SUCCESS, s'') \<and>
       ke_Semaphore s'' = ke_Semaphore s)"
  using assms
  by (simp add: NtReleaseKeyedEvent_def NtReleaseKeyedEvent_loop.simps NtReleaseKeyedEvent_scan_def
      ke_KeReleaseSemaphore_def NtWaitForKeyedEvent_wait_def fun_eq_iff)

definition ke_demo :: ke_state where
  "ke_demo = \<lparr>ke_WaitList = [\<lparr>ke_Key = 64, ke_Teb = 1\<rparr>, \<lparr>ke_Key = 72, ke_Teb = 2\<rparr>],
     ke_Semaphore = (\<lambda>_. 0)\<rparr>"

theorem keyed_release_first_waiter_witness:
  "\<exists>s'. NtReleaseKeyedEvent 72 (\<lambda>_. (STATUS_TIMEOUT, ke_demo)) ke_demo = Some (STATUS_SUCCESS, s') \<and>
     ke_WaitList s' = [\<lparr>ke_Key = 64, ke_Teb = 1\<rparr>]"
  using keyed_release_first_waiter [of 72 ke_demo "\<lparr>ke_Key = 72, ke_Teb = 2\<rparr>" "\<lambda>_. (STATUS_TIMEOUT, ke_demo)"]
  by (auto simp: ke_demo_def)

section \<open>Two defects\<close>

text \<open>a wait that timed out swallows a later release. \<open>NtWaitForKeyedEvent\<close> leaves its entry in the
  list when its wait does not succeed. If thread \<open>t\<close> timed out on a key and thread \<open>u\<close> then waits on
  the same key, a release of the key succeeds but goes to \<open>t\<close>, which no longer waits: \<open>u\<close> is still
  in the list, its wait still does not succeed, and \<open>t\<close>'s next wait, on whatever key, succeeds at
  once without a release.\<close>

theorem keyed_wait_timeout_swallows_release:
  assumes "\<forall>e\<in>set (ke_WaitList s). ke_Key e \<noteq> Key" and "ke_Semaphore s t = 0" and "ke_Semaphore s u = 0"
    and "t \<noteq> u"
    and "NtWaitForKeyedEvent_enter True Key t s = (None, s1)"
    and "NtWaitForKeyedEvent_wait STATUS_TIMEOUT t s1 = (st, s2)"
    and "NtWaitForKeyedEvent_enter True Key u s2 = (None, s3)"
    and "NtReleaseKeyedEvent Key waits s3 = Some (st', s4)"
  shows "st = STATUS_TIMEOUT \<and> st' = STATUS_SUCCESS \<and> \<lparr>ke_Key = Key, ke_Teb = u\<rparr> \<in> set (ke_WaitList s4) \<and>
    fst (NtWaitForKeyedEvent_wait STATUS_TIMEOUT u s4) = STATUS_TIMEOUT \<and>
    fst (NtWaitForKeyedEvent_wait STATUS_TIMEOUT t s4) = STATUS_SUCCESS"
proof -
  let ?et = "\<lparr>ke_Key = Key, ke_Teb = t\<rparr>" and ?eu = "\<lparr>ke_Key = Key, ke_Teb = u\<rparr>"
  have s1: "s1 = s\<lparr>ke_WaitList := ke_WaitList s @ [?et]\<rparr>"
    using assms(5) by (simp add: NtWaitForKeyedEvent_enter_def)
  have s2: "st = STATUS_TIMEOUT" "s2 = s1"
    using assms(2,6) s1 by (simp_all add: NtWaitForKeyedEvent_wait_def)
  have s3: "s3 = s\<lparr>ke_WaitList := ke_WaitList s @ [?et, ?eu]\<rparr>"
    using assms(7) s1 s2 by (simp add: NtWaitForKeyedEvent_enter_def)
  have f: "List.find (\<lambda>e. ke_Key e = Key) (ke_WaitList s3) = Some ?et"
    using find_append_skip [OF assms(1)] by (simp add: s3)
  have n: "?et \<notin> set (ke_WaitList s)" using assms(1) by auto
  have "st' = STATUS_SUCCESS \<and> s4 = ke_KeReleaseSemaphore t (s\<lparr>ke_WaitList := ke_WaitList s @ [?eu]\<rparr>)"
    using assms(8) f n
    by (simp add: NtReleaseKeyedEvent_def NtReleaseKeyedEvent_loop.simps NtReleaseKeyedEvent_scan_def
        s3 remove1_append)
  then show ?thesis
    using s2 assms(2,3,4) by (simp add: ke_KeReleaseSemaphore_def NtWaitForKeyedEvent_wait_def)
qed

theorem keyed_wait_timeout_swallows_release_witness:
  "\<exists>s4. NtReleaseKeyedEvent 8 (\<lambda>_. (STATUS_TIMEOUT, ke_demo))
      (ke_demo\<lparr>ke_WaitList := ke_WaitList ke_demo @ [\<lparr>ke_Key = 8, ke_Teb = 3\<rparr>, \<lparr>ke_Key = 8, ke_Teb = 4\<rparr>]\<rparr>) =
      Some (STATUS_SUCCESS, s4) \<and> \<lparr>ke_Key = 8, ke_Teb = 4\<rparr> \<in> set (ke_WaitList s4)"
proof -
  let ?s1 = "ke_demo\<lparr>ke_WaitList := ke_WaitList ke_demo @ [\<lparr>ke_Key = 8, ke_Teb = 3\<rparr>]\<rparr>"
  let ?s3 = "ke_demo\<lparr>ke_WaitList := ke_WaitList ke_demo @ [\<lparr>ke_Key = 8, ke_Teb = 3\<rparr>, \<lparr>ke_Key = 8, ke_Teb = 4\<rparr>]\<rparr>"
  obtain st s4 where r: "NtReleaseKeyedEvent 8 (\<lambda>_. (STATUS_TIMEOUT, ke_demo)) ?s3 = Some (st, s4)"
    by (simp add: NtReleaseKeyedEvent_def NtReleaseKeyedEvent_loop.simps NtReleaseKeyedEvent_scan_def ke_demo_def)
  have "NtWaitForKeyedEvent_enter True 8 3 ke_demo = (None, ?s1)"
    "NtWaitForKeyedEvent_wait STATUS_TIMEOUT 3 ?s1 = (STATUS_TIMEOUT, ?s1)"
    "NtWaitForKeyedEvent_enter True 8 4 ?s1 = (None, ?s3)"
    by (simp_all add: NtWaitForKeyedEvent_enter_def NtWaitForKeyedEvent_wait_def ke_demo_def)
  with keyed_wait_timeout_swallows_release [of ke_demo 8 3 4 ?s1 STATUS_TIMEOUT ?s1 ?s3, OF _ _ _ _ this r] r
  show ?thesis by (simp add: ke_demo_def)
qed

definition ke_nobody :: "addr \<Rightarrow> (nat \<Rightarrow> ntstatus \<times> ke_state) \<Rightarrow> ke_state \<Rightarrow> bool" where
  "ke_nobody Key waits s \<longleftrightarrow> (\<forall>j. fst (waits j) = STATUS_TIMEOUT) \<and>
     (\<forall>j. \<forall>e\<in>set (ke_WaitList (snd (waits j))). ke_Key e \<noteq> Key) \<and>
     (\<forall>e\<in>set (ke_WaitList s). ke_Key e \<noteq> Key)"

lemma release_loop_no_waiter:
  assumes "NtReleaseKeyedEvent_loop Key waits i s = Some r"
  shows "\<not> ke_nobody Key waits s"
proof (rule NtReleaseKeyedEvent_loop.raw_induct [OF _ assms, where P = "\<lambda>Key waits i s r. \<not> ke_nobody Key waits s"])
  fix loop Key waits i s r
  assume IH: "\<And>Key waits i s r. loop Key waits i s = Some r \<Longrightarrow> \<not> ke_nobody Key waits s"
    and body: "(case NtReleaseKeyedEvent_scan Key s of
        (None, s1) \<Rightarrow> let (Status, s2) = waits i
          in if NT_SUCCESS Status then loop Key waits (i + 1) s2 else Some (Status, None, s1)
      | (Some t, s1) \<Rightarrow> Some (STATUS_SUCCESS, Some t, s1)) = Some r"
  show "\<not> ke_nobody Key waits s"
  proof
    assume n: "ke_nobody Key waits s"
    then have "List.find (\<lambda>e. ke_Key e = Key) (ke_WaitList s) = None"
      by (simp add: ke_nobody_def find_None_iff_all)
    then have "loop Key waits (i + 1) (snd (waits i)) = Some r"
      using body n by (simp add: NtReleaseKeyedEvent_scan_def ke_nobody_def split_beta)
    then have "\<not> ke_nobody Key waits (snd (waits i))" by (rule IH)
    then show False using n by (auto simp: ke_nobody_def)
  qed
qed

text \<open>a release with a timeout does not time out. \<open>STATUS_TIMEOUT\<close> is a success code, so the loop
  of \<open>NtReleaseKeyedEvent\<close> goes round again after a wait that timed out: as long as no thread waits
  on the key the call does not return, whatever its timeout.\<close>

theorem keyed_release_never_times_out:
  assumes "\<forall>j. fst (waits j) = STATUS_TIMEOUT"
    and "\<forall>j. \<forall>e\<in>set (ke_WaitList (snd (waits j))). ke_Key e \<noteq> Key"
    and "\<forall>e\<in>set (ke_WaitList s). ke_Key e \<noteq> Key"
  shows "NtReleaseKeyedEvent Key waits s = None"
proof -
  have "NtReleaseKeyedEvent_loop Key waits 0 s = None"
    using release_loop_no_waiter [of Key waits 0 s] assms
    by (cases "NtReleaseKeyedEvent_loop Key waits 0 s") (auto simp: ke_nobody_def)
  then show ?thesis by (simp add: NtReleaseKeyedEvent_def)
qed

theorem keyed_release_never_times_out_witness:
  "NtReleaseKeyedEvent 80 (\<lambda>_. (STATUS_TIMEOUT, ke_demo)) ke_demo = None"
  using keyed_release_never_times_out [of "\<lambda>_. (STATUS_TIMEOUT, ke_demo)" 80 ke_demo]
  by (simp add: ke_demo_def)

end
