(* ===== verification/UnicodeStrings.thy ===== *)
theory UnicodeStrings
  imports Prelude
begin

text \<open>
  Counted UTF-16 strings, and the search for a character of a set
  (\<open>RtlFindCharInUnicodeString\<close>, src/ntdll/nls.c). The routine has one loop per combination of
  its flags; \<open>find_char_specification\<close> shows that all of them compute the same first (or last)
  occurrence.
\<close>

section \<open>Counted strings\<close>

text \<open>\<open>us_Length\<close> and \<open>us_MaximumLength\<close> count bytes, as in \<open>UNICODE_STRING\<close>.\<close>

record unicode_string =
  us_Length :: u16
  us_MaximumLength :: u16
  us_Buffer :: "u16 list"

definition us_chars :: "unicode_string \<Rightarrow> u16 list" where
  "us_chars s = take (unat (us_Length s) div 2) (us_Buffer s)"

section \<open>The search\<close>

abbreviation RTL_FIND_CHAR_IN_UNICODE_STRING_START_AT_END :: u32 where
  "RTL_FIND_CHAR_IN_UNICODE_STRING_START_AT_END \<equiv> 1"
abbreviation RTL_FIND_CHAR_IN_UNICODE_STRING_COMPLEMENT_CHAR_SET :: u32 where
  "RTL_FIND_CHAR_IN_UNICODE_STRING_COMPLEMENT_CHAR_SET \<equiv> 2"
abbreviation RTL_FIND_CHAR_IN_UNICODE_STRING_CASE_INSENSITIVE :: u32 where
  "RTL_FIND_CHAR_IN_UNICODE_STRING_CASE_INSENSITIVE \<equiv> 4"

definition flag_on :: "u32 \<Rightarrow> u32 \<Rightarrow> bool" where
  "flag_on Flags f \<longleftrightarrow> Flags AND f \<noteq> 0"

text \<open>The inner loop: the index at which it breaks, or the number of characters.\<close>

fun char_set_scan :: "(u16 \<Rightarrow> u16) \<Rightarrow> u16 \<Rightarrow> u16 list \<Rightarrow> nat" where
  "char_set_scan f wch [] = 0"
| "char_set_scan f wch (c # cs) = (if wch = f c then 0 else Suc (char_set_scan f wch cs))"

text \<open>The outer loop: \<open>CharsToSearch\<close> counts down while \<open>Cursor\<close> moves, until the break condition
  holds of the character under the cursor; the result is what is left of \<open>CharsToSearch\<close>.\<close>

fun char_loop :: "(u16 \<Rightarrow> bool) \<Rightarrow> u16 list \<Rightarrow> int \<Rightarrow> int \<Rightarrow> nat \<Rightarrow> nat" where
  "char_loop stop Buffer MovementDirection Cursor 0 = 0"
| "char_loop stop Buffer MovementDirection Cursor (Suc n) =
     (if stop (Buffer ! nat Cursor) then Suc n
      else char_loop stop Buffer MovementDirection (Cursor + MovementDirection) n)"

text \<open>\<open>down\<close> is the kernel's \<open>RtlDowncaseUnicodeChar\<close>, \<open>validate\<close> its \<open>RtlValidateUnicodeString\<close>;
  \<open>out\<close> tells whether the out parameter is given. The result is the status and the value stored
  through it.\<close>

definition RtlFindCharInUnicodeString ::
  "(u16 \<Rightarrow> u16) \<Rightarrow> (unicode_string \<Rightarrow> ntstatus) \<Rightarrow> u32 \<Rightarrow> unicode_string \<Rightarrow> unicode_string \<Rightarrow> bool \<Rightarrow>
     ntstatus \<times> u16 option" where
  "RtlFindCharInUnicodeString down validate Flags StringToSearch CharSet out =
     (let prefix0 = (if out then Some 0 else None) in
      if Flags AND NOT (RTL_FIND_CHAR_IN_UNICODE_STRING_START_AT_END OR
            RTL_FIND_CHAR_IN_UNICODE_STRING_COMPLEMENT_CHAR_SET OR
            RTL_FIND_CHAR_IN_UNICODE_STRING_CASE_INSENSITIVE) \<noteq> 0 \<or> \<not> out
      then (STATUS_INVALID_PARAMETER, prefix0)
      else if \<not> NT_SUCCESS (validate StringToSearch) then (validate StringToSearch, prefix0)
      else if \<not> NT_SUCCESS (validate CharSet) then (validate CharSet, prefix0)
      else
        let CharsToSearch = unat (us_Length StringToSearch) div 2;
            CharSetChars = unat (us_Length CharSet) div 2;
            CharSetBuffer = take CharSetChars (us_Buffer CharSet);
            atEnd = flag_on Flags RTL_FIND_CHAR_IN_UNICODE_STRING_START_AT_END;
            complement = flag_on Flags RTL_FIND_CHAR_IN_UNICODE_STRING_COMPLEMENT_CHAR_SET;
            MovementDirection = (if atEnd then - 1 else 1);
            Cursor = (if atEnd then int CharsToSearch - 1 else 0);
            stop =
              (if flag_on Flags RTL_FIND_CHAR_IN_UNICODE_STRING_CASE_INSENSITIVE then
                 if CharSetChars \<le> 32 then
                   let CharSetStackBuffer = map down CharSetBuffer
                   in (\<lambda>c. if complement
                        then char_set_scan id (down c) CharSetStackBuffer = CharSetChars
                        else char_set_scan id (down c) CharSetStackBuffer \<noteq> CharSetChars)
                 else (\<lambda>c. if complement
                        then char_set_scan down (down c) CharSetBuffer = CharSetChars
                        else char_set_scan down (down c) CharSetBuffer \<noteq> CharSetChars)
               else if CharSetChars = 1 then
                 (\<lambda>c. if complement then c \<noteq> CharSetBuffer ! 0 else c = CharSetBuffer ! 0)
               else
                 (\<lambda>c. if complement
                      then char_set_scan id c CharSetBuffer = CharSetChars
                      else char_set_scan id c CharSetBuffer \<noteq> CharSetChars));
            left = char_loop stop (us_Buffer StringToSearch) MovementDirection Cursor CharsToSearch
        in if left = 0 then (STATUS_NOT_FOUND, prefix0)
           else if atEnd then (STATUS_SUCCESS, Some (of_nat ((left - 1) * 2)))
           else (STATUS_SUCCESS,
                 Some (of_nat (unat (us_Length StringToSearch) - (left - 1) * 2))))"

section \<open>The loops\<close>

lemma char_set_scan_length:
  "char_set_scan f wch cs = length cs \<longleftrightarrow> wch \<notin> f ` set cs"
proof (induction cs)
  case (Cons c cs)
  then show ?case by auto
qed simp

lemma char_loop_forward:
  assumes "k + n \<le> length buf"
  shows "char_loop stop buf 1 (int k) n =
    (case List.find (\<lambda>i. stop (buf ! i)) [k ..< k + n] of None \<Rightarrow> 0 | Some i \<Rightarrow> k + n - i)"
  using assms
proof (induction n arbitrary: k)
  case (Suc n)
  have "char_loop stop buf 1 (int k + 1) n = char_loop stop buf 1 (int (Suc k)) n"
    by (simp add: add.commute)
  moreover have "[k ..< k + Suc n] = k # [Suc k ..< Suc k + n]" by (simp add: upt_conv_Cons)
  ultimately show ?case using Suc.IH [of "Suc k"] Suc.prems by (auto split: option.splits)
qed simp

lemma char_loop_backward:
  "char_loop stop buf (- 1) (int n - 1) n =
    (case List.find (\<lambda>i. stop (buf ! i)) (rev [0 ..< n]) of None \<Rightarrow> 0 | Some i \<Rightarrow> Suc i)"
proof (induction n)
  case (Suc n)
  then show ?case by (auto split: option.splits)
qed simp

section \<open>All the loops find the same character\<close>

definition char_fold :: "(u16 \<Rightarrow> u16) \<Rightarrow> u32 \<Rightarrow> u16 \<Rightarrow> u16" where
  "char_fold down Flags c =
     (if flag_on Flags RTL_FIND_CHAR_IN_UNICODE_STRING_CASE_INSENSITIVE then down c else c)"

definition char_hit :: "(u16 \<Rightarrow> u16) \<Rightarrow> u32 \<Rightarrow> u16 list \<Rightarrow> u16 \<Rightarrow> bool" where
  "char_hit down Flags cs c \<longleftrightarrow>
     (char_fold down Flags c \<in> char_fold down Flags ` set cs) \<noteq>
     flag_on Flags RTL_FIND_CHAR_IN_UNICODE_STRING_COMPLEMENT_CHAR_SET"

definition find_order :: "u32 \<Rightarrow> nat \<Rightarrow> nat list" where
  "find_order Flags n =
     (if flag_on Flags RTL_FIND_CHAR_IN_UNICODE_STRING_START_AT_END then rev [0 ..< n] else [0 ..< n])"

lemma find_cong: "(\<And>x. x \<in> set xs \<Longrightarrow> P x = Q x) \<Longrightarrow> List.find P xs = List.find Q xs"
  by (induction xs) auto

lemma find_order_loop:
  assumes "n \<le> length buf"
  shows "char_loop stop buf (if flag_on Flags RTL_FIND_CHAR_IN_UNICODE_STRING_START_AT_END then - 1 else 1)
      (if flag_on Flags RTL_FIND_CHAR_IN_UNICODE_STRING_START_AT_END then int n - 1 else 0) n =
    (case List.find (\<lambda>i. stop (take n buf ! i)) (find_order Flags n) of None \<Rightarrow> 0
     | Some i \<Rightarrow> if flag_on Flags RTL_FIND_CHAR_IN_UNICODE_STRING_START_AT_END then Suc i else n - i)"
proof -
  have "List.find (\<lambda>i. stop (take n buf ! i)) (find_order Flags n) =
      List.find (\<lambda>i. stop (buf ! i)) (find_order Flags n)"
    by (rule find_cong) (auto simp: find_order_def split: if_splits)
  then show ?thesis
    using char_loop_forward [of 0 n buf stop] char_loop_backward [of stop buf n] assms
    by (cases "flag_on Flags RTL_FIND_CHAR_IN_UNICODE_STRING_START_AT_END")
      (simp_all add: find_order_def split: option.splits)
qed

text \<open>The five break conditions are one.\<close>

lemma char_stop_hit:
  fixes Flags :: u32
  assumes m: "length cs = m"
  shows "(if flag_on Flags RTL_FIND_CHAR_IN_UNICODE_STRING_CASE_INSENSITIVE then
         if m \<le> 32 then
           (\<lambda>c. if flag_on Flags RTL_FIND_CHAR_IN_UNICODE_STRING_COMPLEMENT_CHAR_SET
                then char_set_scan id (down c) (map down cs) = m
                else char_set_scan id (down c) (map down cs) \<noteq> m)
         else (\<lambda>c. if flag_on Flags RTL_FIND_CHAR_IN_UNICODE_STRING_COMPLEMENT_CHAR_SET
                then char_set_scan down (down c) cs = m
                else char_set_scan down (down c) cs \<noteq> m)
       else if m = 1 then
         (\<lambda>c. if flag_on Flags RTL_FIND_CHAR_IN_UNICODE_STRING_COMPLEMENT_CHAR_SET
              then c \<noteq> cs ! 0 else c = cs ! 0)
       else
         (\<lambda>c. if flag_on Flags RTL_FIND_CHAR_IN_UNICODE_STRING_COMPLEMENT_CHAR_SET
              then char_set_scan id c cs = m
              else char_set_scan id c cs \<noteq> m)) = char_hit down Flags cs"
proof -
  have scan: "char_set_scan f w cs = m \<longleftrightarrow> w \<notin> f ` set cs" for f w
    using char_set_scan_length [of f w cs] unfolding m .
  have scan2: "char_set_scan id w (map down cs) = m \<longleftrightarrow> w \<notin> down ` set cs" for w
    using char_set_scan_length [of id w "map down cs"] unfolding length_map m by simp
  have one: "set cs = {cs ! 0}" if "m = 1"
    using m that by (cases cs) auto
  show ?thesis
  proof (cases "flag_on Flags RTL_FIND_CHAR_IN_UNICODE_STRING_CASE_INSENSITIVE")
    case True
    then show ?thesis by (cases "m \<le> 32") (auto simp: char_hit_def char_fold_def scan scan2)
  next
    case False
    show ?thesis
    proof (cases "m = 1")
      case True
      then show ?thesis using False by (auto simp: char_hit_def char_fold_def one [OF True])
    next
      case nf: False
      then show ?thesis using False by (auto simp: char_hit_def char_fold_def scan)
    qed
  qed
qed

text \<open>the search is right for every combination of its flags. The flags choose between five
  inner loops, one with a copy of the folded set on the stack and one for a set of one character;
  all return the first position in the chosen direction whose character, folded when case is
  ignored, is in the set (or is not, for the complement). The value stored is the byte length of
  the prefix before that position when searching from the end, and of the prefix that includes it
  when searching from the start; without a match it is 0 and the status says so.\<close>

theorem find_char_specification:
  assumes "Flags AND NOT 7 = 0"
    and "NT_SUCCESS (validate S)" and "NT_SUCCESS (validate C)"
    and "even (unat (us_Length S))" and "unat (us_Length S) div 2 \<le> length (us_Buffer S)"
    and "unat (us_Length C) div 2 \<le> length (us_Buffer C)"
  shows "RtlFindCharInUnicodeString down validate Flags S C True =
    (case List.find (\<lambda>i. char_hit down Flags (us_chars C) (us_chars S ! i))
        (find_order Flags (length (us_chars S))) of
       None \<Rightarrow> (STATUS_NOT_FOUND, Some 0)
     | Some i \<Rightarrow> (STATUS_SUCCESS, Some (of_nat
         (if flag_on Flags RTL_FIND_CHAR_IN_UNICODE_STRING_START_AT_END then 2 * i else 2 * i + 2))))"
proof -
  let ?n = "unat (us_Length S) div 2" and ?m = "unat (us_Length C) div 2"
  let ?cs = "take ?m (us_Buffer C)"
  have n: "length (us_chars S) = ?n" "us_chars S = take ?n (us_Buffer S)" "us_chars C = ?cs"
    using assms(5) by (simp_all add: us_chars_def)
  have m: "length ?cs = ?m" using assms(6) by simp
  define stop where "stop =
      (if flag_on Flags RTL_FIND_CHAR_IN_UNICODE_STRING_CASE_INSENSITIVE then
         if ?m \<le> 32 then
           (\<lambda>c. if flag_on Flags RTL_FIND_CHAR_IN_UNICODE_STRING_COMPLEMENT_CHAR_SET
                then char_set_scan id (down c) (map down ?cs) = ?m
                else char_set_scan id (down c) (map down ?cs) \<noteq> ?m)
         else (\<lambda>c. if flag_on Flags RTL_FIND_CHAR_IN_UNICODE_STRING_COMPLEMENT_CHAR_SET
                then char_set_scan down (down c) ?cs = ?m
                else char_set_scan down (down c) ?cs \<noteq> ?m)
       else if ?m = 1 then
         (\<lambda>c. if flag_on Flags RTL_FIND_CHAR_IN_UNICODE_STRING_COMPLEMENT_CHAR_SET then c \<noteq> ?cs ! 0 else c = ?cs ! 0)
       else
         (\<lambda>c. if flag_on Flags RTL_FIND_CHAR_IN_UNICODE_STRING_COMPLEMENT_CHAR_SET
              then char_set_scan id c ?cs = ?m
              else char_set_scan id c ?cs \<noteq> ?m))"
  have stop: "stop = char_hit down Flags ?cs"
    unfolding stop_def by (rule char_stop_hit [OF m])
  let ?atEnd = "flag_on Flags RTL_FIND_CHAR_IN_UNICODE_STRING_START_AT_END"
  let ?left = "char_loop stop (us_Buffer S) (if ?atEnd then - 1 else 1) (if ?atEnd then int ?n - 1 else 0) ?n"
  have r: "RtlFindCharInUnicodeString down validate Flags S C True =
      (if ?left = 0 then (STATUS_NOT_FOUND, Some 0)
       else if ?atEnd then (STATUS_SUCCESS, Some (of_nat ((?left - 1) * 2)))
       else (STATUS_SUCCESS, Some (of_nat (unat (us_Length S) - (?left - 1) * 2))))"
  proof -
    have f: "Flags AND NOT (1 OR 2 OR 4) = 0" using assms(1) by simp
    show ?thesis
      unfolding RtlFindCharInUnicodeString_def stop_def Let_def
      by (simp only: f assms(2,3) simp_thms if_True if_False)
  qed
  have left: "?left = (case List.find (\<lambda>i. stop (us_chars S ! i)) (find_order Flags ?n) of None \<Rightarrow> 0
      | Some i \<Rightarrow> if ?atEnd then Suc i else ?n - i)"
    unfolding n(2) by (rule find_order_loop [OF assms(5)])
  have bound: "i < ?n" if "List.find P (find_order Flags ?n) = Some i" for P i
    using find_Some_in_set [OF that] by (auto simp: find_order_def split: if_splits)
  have arith: "unat (us_Length S) - (?n - i - 1) * 2 = 2 * i + 2" if "i < ?n" for i
    using that assms(4) by (auto elim!: evenE)
  show ?thesis
  proof (cases "List.find (\<lambda>i. stop (us_chars S ! i)) (find_order Flags ?n)")
    case None
    then show ?thesis unfolding n(1,3) stop [symmetric] r left by simp
  next
    case (Some a)
    have a: "a < ?n" by (rule bound [OF Some])
    show ?thesis
      unfolding n(1,3) stop [symmetric] r left Some using a arith [OF a]
      by (cases ?atEnd) (simp_all add: mult.commute)
  qed
qed

theorem find_char_specification_witness:
  "RtlFindCharInUnicodeString id (\<lambda>_. STATUS_SUCCESS) 1
      \<lparr>us_Length = 6, us_MaximumLength = 6, us_Buffer = [92, 65, 92]\<rparr>
      \<lparr>us_Length = 4, us_MaximumLength = 4, us_Buffer = [92, 47]\<rparr> True = (STATUS_SUCCESS, Some 4)"
  using find_char_specification [of 1 "\<lambda>_. STATUS_SUCCESS"
      "\<lparr>us_Length = 6, us_MaximumLength = 6, us_Buffer = [92, 65, 92]\<rparr>"
      "\<lparr>us_Length = 4, us_MaximumLength = 4, us_Buffer = [92, 47]\<rparr>" id]
  by (simp add: us_chars_def find_order_def flag_on_def char_hit_def char_fold_def)

end
