(* ===== verification/UnicodeBuffer.thy ===== *)
theory UnicodeBuffer
  imports UnicodeStrings
begin

text \<open>
  Growable string buffers (src/ntdll/buffer.c): a byte buffer that starts in caller-supplied
  storage and moves to the heap when it has to grow, and the routine that appends several strings
  to the string kept in it. Memory is modelled byte by byte; an allocation gives a block of the
  asked size with contents the code must not rely on.
\<close>

section \<open>The byte buffer\<close>

record rtl_buffer =
  rb_Heap :: bool
  rb_Bytes :: "u8 list"
  rb_Size :: nat
  rb_StaticSize :: nat

text \<open>\<open>rb_Heap\<close> is \<open>RTLP_BUFFER_IS_HEAP_ALLOCATED\<close> (\<open>Buffer\<close> differs from \<open>StaticBuffer\<close>);
  \<open>rb_Bytes\<close> is the storage \<open>Buffer\<close> points to.\<close>

abbreviation RTL_ENSURE_BUFFER_SIZE_NO_COPY :: u32 where
  "RTL_ENSURE_BUFFER_SIZE_NO_COPY \<equiv> 1"

definition mem_write :: "nat \<Rightarrow> 'a list \<Rightarrow> 'a list \<Rightarrow> 'a list" where
  "mem_write off bs m = take off m @ bs @ drop (off + length bs) m"

lemma length_mem_write [simp]: "off + length bs \<le> length m \<Longrightarrow> length (mem_write off bs m) = length m"
  by (simp add: mem_write_def)

lemma take_mem_write:
  "off + length bs \<le> length m \<Longrightarrow> take (off + length bs) (mem_write off bs m) = take off m @ bs"
  by (simp add: mem_write_def)

lemma take_mem_write_before: "n \<le> off \<Longrightarrow> off \<le> length m \<Longrightarrow> take n (mem_write off bs m) = take n m"
  by (simp add: mem_write_def min_def)

definition RtlpEnsureBufferSize ::
  "(nat \<Rightarrow> u8 list option) \<Rightarrow> u32 \<Rightarrow> rtl_buffer option \<Rightarrow> nat \<Rightarrow> ntstatus \<times> rtl_buffer option" where
  "RtlpEnsureBufferSize alloc Flags Buffer Size =
     (if Flags AND NOT RTL_ENSURE_BUFFER_SIZE_NO_COPY \<noteq> 0 then (STATUS_INVALID_PARAMETER, Buffer)
      else case Buffer of
          None \<Rightarrow> (STATUS_INVALID_PARAMETER, None)
        | Some b \<Rightarrow>
            if Size \<le> rb_Size b then (STATUS_SUCCESS, Some b)
            else if \<not> rb_Heap b \<and> Size \<le> rb_StaticSize b
            then (STATUS_SUCCESS, Some (b\<lparr>rb_Size := Size\<rparr>))
            else case alloc Size of
                None \<Rightarrow> (STATUS_NO_MEMORY, Some b)
              | Some Temp \<Rightarrow>
                  let Temp1 = (if Flags AND RTL_ENSURE_BUFFER_SIZE_NO_COPY = 0
                               then mem_write 0 (take (rb_Size b) (rb_Bytes b)) Temp else Temp)
                  in (STATUS_SUCCESS, Some (b\<lparr>rb_Heap := True, rb_Bytes := Temp1, rb_Size := Size\<rparr>)))"

definition RtlEnsureBufferSize ::
  "(nat \<Rightarrow> u8 list option) \<Rightarrow> u32 \<Rightarrow> rtl_buffer option \<Rightarrow> nat \<Rightarrow> ntstatus \<times> rtl_buffer option" where
  "RtlEnsureBufferSize alloc Flags Buff NewSizeBytes =
     (case Buff of
        Some b \<Rightarrow> if NewSizeBytes \<le> rb_Size b then (STATUS_SUCCESS, Some b)
                  else RtlpEnsureBufferSize alloc Flags Buff NewSizeBytes
      | None \<Rightarrow> RtlpEnsureBufferSize alloc Flags Buff NewSizeBytes)"

definition rb_wf :: "rtl_buffer \<Rightarrow> bool" where
  "rb_wf b \<longleftrightarrow> rb_Size b \<le> length (rb_Bytes b) \<and> (\<not> rb_Heap b \<longrightarrow> length (rb_Bytes b) = rb_StaticSize b)"

text \<open>What the routine promises: on success the buffer has the size and its old contents.\<close>

lemma ensure_buffer_size_spec:
  assumes wf: "rb_wf b" and al: "\<And>n Temp. alloc n = Some Temp \<Longrightarrow> length Temp = n"
    and r: "RtlEnsureBufferSize alloc 0 (Some b) Size = (st, b')"
  shows "(st = STATUS_SUCCESS \<and> (\<exists>c. b' = Some c \<and> rb_wf c \<and> Size \<le> rb_Size c \<and>
           take (rb_Size b) (rb_Bytes c) = take (rb_Size b) (rb_Bytes b))) \<or>
         (st = STATUS_NO_MEMORY \<and> b' = Some b)"
proof (cases "Size \<le> rb_Size b \<or> (\<not> rb_Heap b \<and> Size \<le> rb_StaticSize b)")
  case True
  then show ?thesis
    using r wf by (auto simp: RtlEnsureBufferSize_def RtlpEnsureBufferSize_def rb_wf_def split: if_splits)
next
  case False
  show ?thesis
  proof (cases "alloc Size")
    case None
    then show ?thesis
      using r False by (auto simp: RtlEnsureBufferSize_def RtlpEnsureBufferSize_def split: if_splits)
  next
    case (Some Temp)
    have l: "length Temp = Size" "length (take (rb_Size b) (rb_Bytes b)) = rb_Size b"
      using al [OF Some] wf by (auto simp: rb_wf_def)
    let ?c = "b\<lparr>rb_Heap := True, rb_Bytes := mem_write 0 (take (rb_Size b) (rb_Bytes b)) Temp, rb_Size := Size\<rparr>"
    have "st = STATUS_SUCCESS" "b' = Some ?c"
      using r False Some by (auto simp: RtlEnsureBufferSize_def RtlpEnsureBufferSize_def split: if_splits)
    moreover have "take (rb_Size b) (rb_Bytes ?c) = take (rb_Size b) (rb_Bytes b)"
      using l by (simp add: mem_write_def)
    moreover have "rb_wf ?c" using l False by (simp add: rb_wf_def)
    ultimately show ?thesis by simp
  qed
qed

section \<open>Appending strings\<close>

text \<open>The string kept in a buffer: its two length fields and the buffer; the contents are the first
  \<open>usb_Length\<close> bytes. A source is the list of its bytes.\<close>

record unicode_string_buffer =
  usb_Length :: nat
  usb_MaximumLength :: nat
  usb_ByteBuffer :: rtl_buffer

abbreviation MAX_UNICODE_STRING_MAXLENGTH :: nat where
  "MAX_UNICODE_STRING_MAXLENGTH \<equiv> 65534"

fun append_length :: "nat \<Rightarrow> u8 list list \<Rightarrow> nat option" where
  "append_length len [] = Some len"
| "append_length len (s # ss) =
     (if len + length s > MAX_UNICODE_STRING_MAXLENGTH then None else append_length (len + length s) ss)"

fun append_copy :: "nat \<Rightarrow> u8 list list \<Rightarrow> u8 list \<Rightarrow> nat \<times> u8 list" where
  "append_copy len [] m = (len, m)"
| "append_copy len (s # ss) m = append_copy (len + length s) ss (mem_write (len div 2 * 2) s m)"

definition RtlMultiAppendUnicodeStringBuffer ::
  "(nat \<Rightarrow> u8 list option) \<Rightarrow> unicode_string_buffer \<Rightarrow> u8 list list \<Rightarrow> ntstatus \<times> unicode_string_buffer" where
  "RtlMultiAppendUnicodeStringBuffer alloc Destination SourceArray =
     (let CharSize = 2; OriginalDestinationLength = usb_Length Destination in
      case append_length OriginalDestinationLength SourceArray of
        None \<Rightarrow> (STATUS_NAME_TOO_LONG, Destination)
      | Some l \<Rightarrow>
          let Length = l + CharSize in
          if Length > MAX_UNICODE_STRING_MAXLENGTH then (STATUS_NAME_TOO_LONG, Destination)
          else case RtlEnsureBufferSize alloc 0 (Some (usb_ByteBuffer Destination)) Length of
              (Status, Some b) \<Rightarrow>
                if \<not> NT_SUCCESS Status then (Status, Destination\<lparr>usb_ByteBuffer := b\<rparr>)
                else
                  let (len, m) = append_copy OriginalDestinationLength SourceArray (rb_Bytes b)
                  in (STATUS_SUCCESS, Destination\<lparr>usb_MaximumLength := Length, usb_Length := Length - CharSize,
                       usb_ByteBuffer := b\<lparr>rb_Bytes := mem_write (len div CharSize * CharSize) [0, 0] m\<rparr>\<rparr>)
            | (Status, None) \<Rightarrow> (Status, Destination))"

definition usb_wf :: "unicode_string_buffer \<Rightarrow> bool" where
  "usb_wf d \<longleftrightarrow> rb_wf (usb_ByteBuffer d) \<and> even (usb_Length d) \<and> usb_Length d \<le> rb_Size (usb_ByteBuffer d)"

definition usb_contents :: "unicode_string_buffer \<Rightarrow> u8 list" where
  "usb_contents d = take (usb_Length d) (rb_Bytes (usb_ByteBuffer d))"

lemma append_length_eq:
  "append_length n ss =
     (if ss \<noteq> [] \<and> n + length (concat ss) > MAX_UNICODE_STRING_MAXLENGTH then None
      else Some (n + length (concat ss)))"
  by (induction n ss rule: append_length.induct) (auto simp: add.assoc)

lemma append_copy_eq:
  assumes "even n" and "\<forall>s\<in>set ss. even (length s)" and "n + length (concat ss) \<le> length m"
  shows "fst (append_copy n ss m) = n + length (concat ss) \<and>
    length (snd (append_copy n ss m)) = length m \<and>
    take (n + length (concat ss)) (snd (append_copy n ss m)) = take n m @ concat ss"
  using assms
proof (induction n ss m rule: append_copy.induct)
  case (2 len s ss m)
  let ?m = "mem_write (len div 2 * 2) s m"
  have e: "len div 2 * 2 = len" using 2 by simp
  have l: "length ?m = length m" using 2 e by simp
  have t: "take (len + length s) ?m = take len m @ s" using 2 e by (simp add: take_mem_write)
  show ?case using 2 l t by (simp add: add.assoc)
qed simp

lemma even_length_concat: "\<forall>s\<in>set ss. even (length s) \<Longrightarrow> even (length (concat ss))"
  by (induction ss) auto

text \<open>appending is all or nothing. With room to allocate, and a result that fits into a counted
  string, the buffer holds the old string followed by the sources in order, is terminated, has
  moved to the heap if it had to, and stays well formed; when the result would be too long or
  memory runs out, the string is what it was.\<close>

theorem multi_append:
  assumes "usb_wf d" and "\<And>n Temp. alloc n = Some Temp \<Longrightarrow> length Temp = n"
    and "\<forall>s\<in>set ss. even (length s)"
    and "RtlMultiAppendUnicodeStringBuffer alloc d ss = (st, d')"
  shows "usb_wf d' \<and>
    (if usb_Length d + length (concat ss) + 2 > MAX_UNICODE_STRING_MAXLENGTH
     then st = STATUS_NAME_TOO_LONG \<and> d' = d
     else st = STATUS_NO_MEMORY \<and> d' = d \<or>
       st = STATUS_SUCCESS \<and> usb_contents d' = usb_contents d @ concat ss \<and>
       usb_MaximumLength d' = usb_Length d' + 2 \<and>
       take 2 (drop (usb_Length d') (rb_Bytes (usb_ByteBuffer d'))) = [0, 0])"
proof -
  let ?L = "usb_Length d + length (concat ss)"
  show ?thesis
  proof (cases "?L + 2 > MAX_UNICODE_STRING_MAXLENGTH")
    case True
    then show ?thesis
      using assms(1,4) by (auto simp: RtlMultiAppendUnicodeStringBuffer_def append_length_eq Let_def split: if_splits)
  next
    case False
    obtain es eb where e: "RtlEnsureBufferSize alloc 0 (Some (usb_ByteBuffer d)) (?L + 2) = (es, eb)" by fastforce
    have wf: "rb_wf (usb_ByteBuffer d)" using assms(1) by (simp add: usb_wf_def)
    from ensure_buffer_size_spec [OF wf assms(2) e]
    consider (ok) b where "es = STATUS_SUCCESS" "eb = Some b" "rb_wf b" "?L + 2 \<le> rb_Size b"
          "take (rb_Size (usb_ByteBuffer d)) (rb_Bytes b) = take (rb_Size (usb_ByteBuffer d)) (rb_Bytes (usb_ByteBuffer d))"
      | (oom) "es = STATUS_NO_MEMORY" "eb = Some (usb_ByteBuffer d)" by blast
    then show ?thesis
    proof cases
      case oom
      then show ?thesis
        using assms(1,4) False e by (auto simp: RtlMultiAppendUnicodeStringBuffer_def append_length_eq Let_def)
    next
      case ok
      let ?m = "snd (append_copy (usb_Length d) ss (rb_Bytes b))"
      have cap: "?L + 2 \<le> length (rb_Bytes b)" using ok by (simp add: rb_wf_def)
      have ev: "even (usb_Length d)" "even ?L"
        using assms(1) even_length_concat [OF assms(3)] by (auto simp: usb_wf_def)
      note c = append_copy_eq [OF ev(1) assms(3), of "rb_Bytes b"]
      have c': "fst (append_copy (usb_Length d) ss (rb_Bytes b)) = ?L" "length ?m = length (rb_Bytes b)"
          "take ?L ?m = take (usb_Length d) (rb_Bytes b) @ concat ss"
        using c cap by auto
      have d': "st = STATUS_SUCCESS" "d' = d\<lparr>usb_MaximumLength := ?L + 2, usb_Length := ?L,
          usb_ByteBuffer := b\<lparr>rb_Bytes := mem_write ?L [0, 0] ?m\<rparr>\<rparr>"
        using assms(4) False e ok(1,2) c'(1) ev(2)
        by (auto simp: RtlMultiAppendUnicodeStringBuffer_def append_length_eq Let_def split_beta)
      have old: "take (usb_Length d) (rb_Bytes b) = usb_contents d"
      proof -
        have "usb_Length d \<le> rb_Size (usb_ByteBuffer d)" using assms(1) by (simp add: usb_wf_def)
        then show ?thesis
          using arg_cong [OF ok(5), of "take (usb_Length d)"] by (simp add: usb_contents_def min_absorb1)
      qed
      have "usb_contents d' = usb_contents d @ concat ss"
        using cap c' old by (simp add: d' usb_contents_def take_mem_write_before)
      moreover have "take 2 (drop (usb_Length d') (rb_Bytes (usb_ByteBuffer d'))) = [0, 0]"
        using cap c' by (simp add: d' mem_write_def)
      moreover have "usb_wf d'"
      proof -
        have "length (mem_write ?L [0, 0] ?m) = length (rb_Bytes b)"
          using cap c'(2) length_mem_write [of ?L "[0, 0]" ?m] by simp
        then show ?thesis using ok(3,4) ev by (simp add: d' usb_wf_def rb_wf_def)
      qed
      ultimately show ?thesis using False d' by simp
    qed
  qed
qed

definition usb_demo :: unicode_string_buffer where
  "usb_demo = \<lparr>usb_Length = 2, usb_MaximumLength = 4, usb_ByteBuffer =
     \<lparr>rb_Heap = False, rb_Bytes = [65, 0, 0, 0], rb_Size = 4, rb_StaticSize = 4\<rparr>\<rparr>"

theorem multi_append_witness:
  "\<exists>d'. RtlMultiAppendUnicodeStringBuffer (\<lambda>n. Some (replicate n 204)) usb_demo [[66, 0], [67, 0, 68, 0]] =
      (STATUS_SUCCESS, d') \<and> usb_contents d' = [65, 0, 66, 0, 67, 0, 68, 0]"
proof -
  obtain st d' where r: "RtlMultiAppendUnicodeStringBuffer (\<lambda>n. Some (replicate n 204)) usb_demo
      [[66, 0], [67, 0, 68, 0]] = (st, d')" by fastforce
  have "st \<noteq> STATUS_NO_MEMORY"
    using r by (auto simp: RtlMultiAppendUnicodeStringBuffer_def RtlEnsureBufferSize_def
        RtlpEnsureBufferSize_def usb_demo_def Let_def split_beta)
  then show ?thesis
    using multi_append [OF _ _ _ r] r
    by (auto simp: usb_wf_def rb_wf_def usb_demo_def usb_contents_def)
qed

end
