(* ===== verification/HeapList.thy ===== *)
theory HeapList
  imports UnicodeBuffer "HOL-Library.Multiset"
begin

text \<open>
  Heaps on nonpaged pool (src/ntdll/heap.c). A heap handle is a number; every block of every heap
  is linked into one list and carries its handle, its pool tag and the size its caller asked for in
  a header before the caller's bytes. The model keeps the list with, for each block, the address
  handed to the caller, the header, the number of bytes the pool gave and the caller's bytes.
\<close>

section \<open>State\<close>

abbreviation LDK_HEAP_HEADER_SIZE :: u64 where "LDK_HEAP_HEADER_SIZE \<equiv> 48"
abbreviation HEAP_ZERO_MEMORY :: u32 where "HEAP_ZERO_MEMORY \<equiv> 8"

record heap_block =
  hb_HeapHandle :: u64
  hb_Tag :: u32
  hb_Size :: u64
  hb_PoolSize :: u64
  hb_Bytes :: "u8 list"

record heap_state =
  hs_List :: "(addr \<times> heap_block) list"
  hs_Handle :: u32

definition LdkpInitializeHeapList :: "heap_state \<Rightarrow> ntstatus \<times> heap_state" where
  "LdkpInitializeHeapList s = (STATUS_SUCCESS, s\<lparr>hs_List := []\<rparr>)"

definition LdkCreateHeap :: "heap_state \<Rightarrow> u64 \<times> heap_state" where
  "LdkCreateHeap s = (let h = hs_Handle s + 1 in (scast h, s\<lparr>hs_Handle := h\<rparr>))"

definition LdkDestroyHeap :: "u64 \<Rightarrow> heap_state \<Rightarrow> addr \<times> heap_state" where
  "LdkDestroyHeap HeapHandle s = (NULL, s)"

section \<open>Pool tags\<close>

text \<open>The four bytes of the handle are brought into the range 0 to 61 with carries to the next
  byte and then shifted to the printable range that starts at \<open>'A'\<close>.\<close>

abbreviation TAG_CHAR_RANGE :: u8 where "TAG_CHAR_RANGE \<equiv> 61"

function tag_carry :: "u8 \<Rightarrow> u8 \<Rightarrow> u8 \<times> u8" where
  "tag_carry v w = (if v > TAG_CHAR_RANGE then tag_carry (v - TAG_CHAR_RANGE) (w + 1) else (v, w))"
  by pat_completeness auto
termination
proof (relation "measure (\<lambda>(v, w). unat v)")
  fix v w :: u8
  assume "TAG_CHAR_RANGE < v"
  then have "unat (v - TAG_CHAR_RANGE) < unat v"
    by (simp add: unat_sub word_less_nat_alt less_imp_le word_le_nat_alt)
  then show "((v - TAG_CHAR_RANGE, w + 1), v, w) \<in> measure (\<lambda>(v, w). unat v)" by simp
qed simp

declare tag_carry.simps [simp del]

definition heap_tag :: "u32 \<Rightarrow> (u8 \<times> u8 \<times> u8 \<times> u8) option" where
  "heap_tag h =
     (let (v0, v1) = tag_carry (ucast h) (ucast (drop_bit 8 h));
          (v1, v2) = tag_carry v1 (ucast (drop_bit 16 h));
          (v2, v3) = tag_carry v2 (ucast (drop_bit 24 h))
      in if v3 > TAG_CHAR_RANGE then None
         else Some (v0 + 65, v1 + 65, v2 + 65, v3 + 65))"

definition tag_value :: "u8 \<times> u8 \<times> u8 \<times> u8 \<Rightarrow> u32" where
  "tag_value t = (case t of (a, b, c, d) \<Rightarrow>
     ucast a OR push_bit 8 (ucast b) OR push_bit 16 (ucast c) OR push_bit 24 (ucast d))"

section \<open>Operations\<close>

text \<open>\<open>pool n\<close> is the kernel's pool asked for \<open>n\<close> bytes: an address for the caller and the initial
  bytes behind the header, or nothing.\<close>

definition LdkAllocateHeap ::
  "(u64 \<Rightarrow> (addr \<times> u8 list) option) \<Rightarrow> u64 \<Rightarrow> u32 \<Rightarrow> u64 \<Rightarrow> heap_state \<Rightarrow> addr option \<times> heap_state" where
  "LdkAllocateHeap pool HeapHandle Flags Size s =
     (case heap_tag (ucast HeapHandle) of
        None \<Rightarrow> (None, s)
      | Some tag \<Rightarrow>
          (case pool (Size + LDK_HEAP_HEADER_SIZE) of
             None \<Rightarrow> (None, s)
           | Some (a, bytes) \<Rightarrow>
               let b = \<lparr>hb_HeapHandle = HeapHandle, hb_Tag = tag_value tag, hb_Size = Size,
                        hb_PoolSize = Size + LDK_HEAP_HEADER_SIZE,
                        hb_Bytes = (if flag_on Flags HEAP_ZERO_MEMORY
                          then mem_write 0 (replicate (unat Size) 0) bytes else bytes)\<rparr>
               in (Some a, s\<lparr>hs_List := hs_List s @ [(a, b)]\<rparr>)))"

text \<open>A pointer that is not a block of the list has no header to read; the model gives such a call
  the failure result.\<close>

definition heap_header :: "heap_state \<Rightarrow> addr \<Rightarrow> heap_block option" where
  "heap_header s a = map_of (hs_List s) a"

definition LdkFreeHeap :: "u64 \<Rightarrow> u32 \<Rightarrow> addr \<Rightarrow> heap_state \<Rightarrow> bool \<times> heap_state" where
  "LdkFreeHeap HeapHandle Flags BaseAddress s =
     (if BaseAddress \<noteq> NULL
      then (True, s\<lparr>hs_List := filter (\<lambda>x. fst x \<noteq> BaseAddress) (hs_List s)\<rparr>)
      else (True, s))"

definition heap_update_bytes :: "addr \<Rightarrow> (u8 list \<Rightarrow> u8 list) \<Rightarrow> heap_state \<Rightarrow> heap_state" where
  "heap_update_bytes a f s = s\<lparr>hs_List := map (\<lambda>(b, x). if b = a then (b, x\<lparr>hb_Bytes := f (hb_Bytes x)\<rparr>) else (b, x)) (hs_List s)\<rparr>"

definition LdkReAllocateHeap ::
  "(u64 \<Rightarrow> (addr \<times> u8 list) option) \<Rightarrow> u64 \<Rightarrow> u32 \<Rightarrow> addr \<Rightarrow> u64 \<Rightarrow> heap_state \<Rightarrow> addr option \<times> heap_state" where
  "LdkReAllocateHeap pool HeapHandle Flags BaseAddress Size s =
     (if BaseAddress = NULL then (None, s)
      else case heap_header s BaseAddress of
          None \<Rightarrow> (None, s)
        | Some Header \<Rightarrow>
            if hb_HeapHandle Header \<noteq> HeapHandle then (None, s)
            else case LdkAllocateHeap pool HeapHandle Flags Size s of
                (None, s1) \<Rightarrow> (None, s1)
              | (Some NewBuffer, s1) \<Rightarrow>
                  let OldSize = hb_Size Header;
                      s2 = (if OldSize > Size
                            then heap_update_bytes NewBuffer (mem_write 0 (take (unat Size) (hb_Bytes Header))) s1
                            else
                              let s3 = heap_update_bytes NewBuffer (mem_write 0 (take (unat OldSize) (hb_Bytes Header))) s1
                              in if flag_on Flags HEAP_ZERO_MEMORY
                                 then heap_update_bytes NewBuffer
                                        (mem_write (unat OldSize) (replicate (unat (Size - OldSize)) 0)) s3
                                 else s3)
                  in (Some NewBuffer, snd (LdkFreeHeap HeapHandle 0 BaseAddress s2)))"

definition LdkSizeHeap :: "u64 \<Rightarrow> u32 \<Rightarrow> addr \<Rightarrow> heap_state \<Rightarrow> u64" where
  "LdkSizeHeap HeapHandle Flags BaseAddress s =
     (if BaseAddress \<noteq> NULL then
        (case heap_header s BaseAddress of
           None \<Rightarrow> - 1
         | Some Header \<Rightarrow> if hb_HeapHandle Header \<noteq> HeapHandle then - 1 else hb_Size Header)
      else - 1)"

definition LdkValidateHeap :: "(addr \<Rightarrow> bool) \<Rightarrow> u64 \<Rightarrow> u32 \<Rightarrow> addr \<Rightarrow> heap_state \<Rightarrow> bool" where
  "LdkValidateHeap valid HeapHandle Flags BaseAddress s =
     (if BaseAddress = NULL then False
      else if valid BaseAddress then
        (case heap_header s BaseAddress of
           None \<Rightarrow> False | Some Header \<Rightarrow> hb_HeapHandle Header = HeapHandle)
      else False)"

record heap_walk_entry =
  hw_Data :: addr
  hw_Size :: u64
  hw_Overhead :: u8
  hw_RegionIndex :: u8

fun heap_walk_scan :: "u64 \<Rightarrow> (addr \<times> heap_block) list \<Rightarrow> (addr \<times> heap_block) option" where
  "heap_walk_scan HeapHandle [] = None"
| "heap_walk_scan HeapHandle (x # xs) =
     (if hb_HeapHandle (snd x) \<noteq> HeapHandle then heap_walk_scan HeapHandle xs else Some x)"

abbreviation HEAP_WALK_ZERO :: heap_walk_entry where
  "HEAP_WALK_ZERO \<equiv> \<lparr>hw_Data = 0, hw_Size = 0, hw_Overhead = 0, hw_RegionIndex = 0\<rparr>"

definition heap_walk_start :: "(addr \<Rightarrow> bool) \<Rightarrow> u64 \<Rightarrow> addr \<Rightarrow> heap_state \<Rightarrow> (addr \<times> heap_block) list option" where
  "heap_walk_start valid HeapHandle PreviousData s =
     (if PreviousData \<noteq> NULL then
        if \<not> valid PreviousData then None
        else (case heap_header s PreviousData of
            None \<Rightarrow> None
          | Some PreviousHeader \<Rightarrow>
              if hb_HeapHandle PreviousHeader \<noteq> HeapHandle then None
              else Some (tl (dropWhile (\<lambda>x. fst x \<noteq> PreviousData) (hs_List s))))
      else Some (hs_List s))"

definition LdkWalkHeap ::
  "(addr \<Rightarrow> bool) \<Rightarrow> u64 \<Rightarrow> addr \<Rightarrow> heap_walk_entry option \<Rightarrow> heap_state \<Rightarrow> ntstatus \<times> heap_walk_entry option" where
  "LdkWalkHeap valid HeapHandle PreviousData Entry s =
     (if HeapHandle = 0 \<or> Entry = None then (STATUS_INVALID_PARAMETER, Entry)
      else case heap_walk_start valid HeapHandle PreviousData s of
          None \<Rightarrow> (STATUS_INVALID_PARAMETER, Some HEAP_WALK_ZERO)
        | Some Link \<Rightarrow>
            (case heap_walk_scan HeapHandle Link of
               Some (a, b) \<Rightarrow> (STATUS_SUCCESS, Some \<lparr>hw_Data = a, hw_Size = hb_Size b,
                  hw_Overhead = 40, hw_RegionIndex = 0\<rparr>)
             | None \<Rightarrow> (STATUS_NO_MORE_ENTRIES, Some HEAP_WALK_ZERO)))"

text \<open>Shutdown pops the last block, then the first ones until the list is empty, and frees each.\<close>

fun heap_terminate_loop :: "(addr \<times> heap_block) option \<Rightarrow> (addr \<times> heap_block) list \<Rightarrow> (addr \<times> heap_block) list" where
  "heap_terminate_loop None l = []"
| "heap_terminate_loop (Some e) [] = [e]"
| "heap_terminate_loop (Some e) (x # l) = e # heap_terminate_loop (Some x) l"

definition LdkpTerminateHeapList :: "heap_state \<Rightarrow> (addr \<times> heap_block) list \<times> heap_state" where
  "LdkpTerminateHeapList s =
     (heap_terminate_loop (if hs_List s = [] then None else Some (last (hs_List s))) (butlast (hs_List s)),
      s\<lparr>hs_List := []\<rparr>)"

section \<open>Every heap has a printable tag\<close>

lemma tag_carry_bounds:
  "tag_carry v w = (v', w') \<Longrightarrow> unat w + unat v div 61 < 256 \<Longrightarrow>
     unat v' \<le> 61 \<and> unat w' \<le> unat w + unat v div 61"
proof (induction v w rule: tag_carry.induct)
  case (1 v w)
  show ?case
  proof (cases "v > TAG_CHAR_RANGE")
    case True
    have v: "unat (v - TAG_CHAR_RANGE) = unat v - 61" "61 < unat v"
      using True by (simp_all add: unat_sub word_less_nat_alt less_imp_le word_le_nat_alt)
    have d: "unat v div 61 = (unat v - 61) div 61 + 1"
      using v(2) by (simp add: le_div_geq)
    have w: "unat (w + 1) = unat w + 1" using "1.prems"(2) d by (simp add: unat_word_ariths)
    show ?thesis
      using "1.IH" [OF True] "1.prems" True v d w by (simp add: tag_carry.simps [of v w])
  next
    case False
    then have "v' = v" "w' = w" using "1.prems"(1) by (simp_all add: tag_carry.simps [of v w])
    then show ?thesis using False by (simp add: word_less_nat_alt)
  qed
qed

lemma tag_carry_low: "unat (fst (tag_carry v w)) \<le> 61"
proof (induction v w rule: tag_carry.induct)
  case (1 v w)
  then show ?case by (subst tag_carry.simps) (auto simp: word_less_nat_alt)
qed

definition tag_char_ok :: "u8 \<Rightarrow> bool" where
  "tag_char_ok c \<longleftrightarrow> 65 \<le> unat c \<and> unat c \<le> 126"

lemma tag_char_ok_add: "unat v \<le> 61 \<Longrightarrow> tag_char_ok (v + 65)"
  by (simp add: tag_char_ok_def unat_word_ariths)

text \<open>No created heap is without a pool tag. For each of the first 58 * 2^24 - 1 heaps that
  \<open>LdkCreateHeap\<close> hands out, the carries end, the fourth byte stays in range, so that the
  diagnostic branch of the allocation is not taken, and the four bytes of the tag are characters
  from \<open>'A'\<close> to \<open>'~'\<close>.\<close>

theorem created_heap_has_tag:
  assumes "unat (hs_Handle s) + 1 < 58 * 2 ^ 24" and "LdkCreateHeap s = (H, s')"
  shows "\<exists>a b c d. heap_tag (ucast H) = Some (a, b, c, d) \<and>
    tag_char_ok a \<and> tag_char_ok b \<and> tag_char_ok c \<and> tag_char_ok d"
proof -
  let ?h = "hs_Handle s + 1"
  have H: "(ucast H :: u32) = ?h"
  proof -
    have "H = scast ?h" using assms(2) by (auto simp: LdkCreateHeap_def Let_def)
    moreover have "ucast (scast ?h :: u64) = ?h"
      by (rule bit_word_eqI) (simp add: bit_simps)
    ultimately show ?thesis by simp
  qed
  have h: "unat ?h < 58 * 2 ^ 24" using assms(1) by (simp add: unat_word_ariths)
  have v3: "unat (ucast (drop_bit 24 ?h) :: u8) \<le> 57"
  proof -
    have "unat (drop_bit 24 ?h) = unat ?h div 2 ^ 24" by (simp add: drop_bit_eq_div unat_div)
    moreover have "unat ?h div 2 ^ 24 < 58" using h by (simp add: less_mult_imp_div_less mult.commute)
    ultimately show ?thesis by (simp add: unsigned_ucast_eq take_bit_eq_mod)
  qed
  obtain v0 v1 where e1: "tag_carry (ucast ?h) (ucast (drop_bit 8 ?h)) = (v0, v1)" by fastforce
  obtain v1' v2 where e2: "tag_carry v1 (ucast (drop_bit 16 ?h)) = (v1', v2)" by fastforce
  obtain v2' v3 where e3: "tag_carry v2 (ucast (drop_bit 24 ?h)) = (v2', v3)" by fastforce
  have "unat v2 div 61 \<le> 4" using unat_u8_less [of v2] by simp
  then have "unat v3 \<le> 61" using tag_carry_bounds [OF e3] v3 by linarith
  moreover have "unat v0 \<le> 61" "unat v1' \<le> 61" "unat v2' \<le> 61"
    using tag_carry_low [of "ucast ?h" "ucast (drop_bit 8 ?h)"] tag_carry_low [of v1 "ucast (drop_bit 16 ?h)"]
      tag_carry_low [of v2 "ucast (drop_bit 24 ?h)"] by (simp_all add: e1 e2 e3)
  ultimately show ?thesis
    unfolding H heap_tag_def e1 e2 e3 Let_def
    by (simp add: e2 e3 word_less_nat_alt tag_char_ok_add)
qed

theorem created_heap_has_tag_witness:
  "\<exists>H s' a b c d. LdkCreateHeap \<lparr>hs_List = [], hs_Handle = 999\<rparr> = (H, s') \<and> H = 1000 \<and>
     heap_tag (ucast H) = Some (a, b, c, d) \<and> tag_char_ok a"
proof -
  obtain H s' where e: "LdkCreateHeap \<lparr>hs_List = [], hs_Handle = 999\<rparr> = (H, s')" by fastforce
  moreover have "H = 1000" using e by (simp add: LdkCreateHeap_def Let_def)
  ultimately show ?thesis using created_heap_has_tag [OF _ e] by auto
qed

section \<open>Well-formed heaps\<close>

definition heap_block_ok :: "heap_block \<Rightarrow> bool" where
  "heap_block_ok b \<longleftrightarrow> unat (hb_Size b) + 48 = unat (hb_PoolSize b) \<and> length (hb_Bytes b) = unat (hb_Size b)"

definition heap_wf :: "heap_state \<Rightarrow> bool" where
  "heap_wf s \<longleftrightarrow> distinct (map fst (hs_List s)) \<and> NULL \<notin> fst ` set (hs_List s) \<and>
     (\<forall>x\<in>set (hs_List s). heap_block_ok (snd x))"

text \<open>What is relied on of the pool: a block it hands out is new, not \<open>NULL\<close>, and as large as asked.\<close>

definition pool_ok :: "(u64 \<Rightarrow> (addr \<times> u8 list) option) \<Rightarrow> heap_state \<Rightarrow> bool" where
  "pool_ok pool s \<longleftrightarrow> (\<forall>n a bytes. pool n = Some (a, bytes) \<longrightarrow>
     a \<noteq> NULL \<and> a \<notin> fst ` set (hs_List s) \<and> length bytes = unat n - 48)"

lemma map_of_append_notin: "a \<notin> fst ` set l \<Longrightarrow> map_of (l @ [(a, b)]) = (map_of l)(a \<mapsto> b)"
  by (induction l) (auto simp: fun_eq_iff)

lemma map_of_map_at:
  "map_of (map (\<lambda>(b, x). if b = a then (b, f x) else (b, x)) l) k =
     (if k = a then map_option f (map_of l k) else map_of l k)"
  by (induction l) auto

lemma map_of_filter_key:
  "map_of (filter (\<lambda>x. fst x \<noteq> a) l) k = (if k = a then None else map_of l k)"
  by (induction l) auto

lemma heap_update_bytes_header:
  "heap_header (heap_update_bytes a f s) x =
     (if x = a then map_option (\<lambda>b. b\<lparr>hb_Bytes := f (hb_Bytes b)\<rparr>) (heap_header s x) else heap_header s x)"
  by (simp add: heap_header_def heap_update_bytes_def map_of_map_at)

lemma heap_header_set: "heap_header s a = Some b \<Longrightarrow> (a, b) \<in> set (hs_List s)"
  by (simp add: heap_header_def map_of_SomeD)

lemma heap_free_header:
  "heap_header (snd (LdkFreeHeap h f a s)) x = (if x = a \<and> a \<noteq> NULL then None else heap_header s x)"
  by (simp add: heap_header_def LdkFreeHeap_def map_of_filter_key)

lemma heap_wf_free: "heap_wf s \<Longrightarrow> heap_wf (snd (LdkFreeHeap h f a s))"
  by (auto simp: heap_wf_def LdkFreeHeap_def distinct_map_filter)

lemma heap_update_bytes_fst: "map fst (hs_List (heap_update_bytes a f s)) = map fst (hs_List s)"
  by (induction "hs_List s") (auto simp: heap_update_bytes_def split_beta)

lemma heap_wf_update:
  assumes "heap_wf s" and "\<And>b. heap_header s a = Some b \<Longrightarrow> length (f (hb_Bytes b)) = length (hb_Bytes b)"
  shows "heap_wf (heap_update_bytes a f s)"
proof -
  have "heap_block_ok (snd y)" if y: "y \<in> set (hs_List (heap_update_bytes a f s))" for y
  proof -
    obtain p where p: "p \<in> set (hs_List s)"
        "y = (\<lambda>(b, x). if b = a then (b, x\<lparr>hb_Bytes := f (hb_Bytes x)\<rparr>) else (b, x)) p"
      using y unfolding heap_update_bytes_def by auto
    obtain b x where "p = (b, x)" by fastforce
    with p have x: "(b, x) \<in> set (hs_List s)" "y = (if b = a then (b, x\<lparr>hb_Bytes := f (hb_Bytes x)\<rparr>) else (b, x))"
      by simp_all
    then have ok: "heap_block_ok x" using assms(1) by (auto simp: heap_wf_def)
    have "heap_header s b = Some x"
      using x(1) assms(1) by (auto simp: heap_header_def heap_wf_def map_of_eq_Some_iff)
    then show ?thesis using x(2) ok assms(2) [of x] by (auto simp: heap_block_ok_def)
  qed
  moreover have "fst ` set (hs_List (heap_update_bytes a f s)) = fst ` set (hs_List s)"
    using heap_update_bytes_fst [of a f s] by (metis list.set_map)
  ultimately show ?thesis
    using assms(1) heap_update_bytes_fst [of a f s] by (simp add: heap_wf_def)
qed

section \<open>Allocating and growing\<close>

lemma heap_allocate_spec:
  assumes wf: "heap_wf s" and pool: "pool_ok pool s" and fits: "unat Size + 48 < 2 ^ 64"
    and r: "LdkAllocateHeap pool H Flags Size s = (Some a, s')"
  shows "heap_wf s' \<and> a \<noteq> NULL \<and> heap_header s a = None \<and>
    (\<exists>b. heap_header s' = (heap_header s)(a \<mapsto> b) \<and> hb_HeapHandle b = H \<and> hb_Size b = Size \<and> heap_block_ok b \<and>
       (flag_on Flags HEAP_ZERO_MEMORY \<longrightarrow> hb_Bytes b = replicate (unat Size) 0))"
proof -
  obtain tag bytes where t: "heap_tag (ucast H) = Some tag" "pool (Size + LDK_HEAP_HEADER_SIZE) = Some (a, bytes)"
    using r by (auto simp: LdkAllocateHeap_def Let_def split: option.splits)
  have n: "unat (Size + LDK_HEAP_HEADER_SIZE) = unat Size + 48" using fits by (simp add: unat_word_ariths)
  have a: "a \<noteq> NULL" "a \<notin> fst ` set (hs_List s)" "length bytes = unat Size"
    using pool t(2) n by (auto simp: pool_ok_def)
  define b where "b = \<lparr>hb_HeapHandle = H, hb_Tag = tag_value tag, hb_Size = Size,
      hb_PoolSize = Size + LDK_HEAP_HEADER_SIZE, hb_Bytes = (if flag_on Flags HEAP_ZERO_MEMORY
        then mem_write 0 (replicate (unat Size) 0) bytes else bytes)\<rparr>"
  have s': "s' = s\<lparr>hs_List := hs_List s @ [(a, b)]\<rparr>"
    using r t by (simp add: LdkAllocateHeap_def Let_def b_def)
  have ok: "heap_block_ok b" using a(3) n by (simp add: heap_block_ok_def b_def)
  have "heap_wf s'" using wf a ok by (auto simp: heap_wf_def s')
  moreover have "heap_header s a = None" using a(2) by (auto simp: heap_header_def map_of_eq_None_iff)
  moreover have "heap_header s' = (heap_header s)(a \<mapsto> b)"
    using map_of_append_notin [OF a(2)] by (simp add: heap_header_def s' fun_eq_iff)
  moreover have "flag_on Flags HEAP_ZERO_MEMORY \<longrightarrow> hb_Bytes b = replicate (unat Size) 0"
    using a(3) by (simp add: b_def mem_write_def)
  ultimately show ?thesis using a(1) ok by (intro conjI exI [of _ b]) (simp_all add: b_def)
qed

text \<open>C11: reallocation keeps the data. When it succeeds, the new block belongs to the same heap, has
  the new size, begins with the old contents as far as they fit, and has zeros behind them when
  zeroed memory was asked for; the old block is gone and every other block is untouched.\<close>

theorem heap_reallocate:
  assumes "heap_wf s" and "pool_ok pool s" and "unat Size + 48 < 2 ^ 64"
    and "heap_header s BaseAddress = Some old"
    and "LdkReAllocateHeap pool H Flags BaseAddress Size s = (Some a, s')"
  shows "heap_wf s' \<and> a \<noteq> BaseAddress \<and> heap_header s' BaseAddress = None \<and>
    (\<exists>b. heap_header s' a = Some b \<and> hb_HeapHandle b = H \<and> hb_Size b = Size \<and>
       take (min (unat Size) (unat (hb_Size old))) (hb_Bytes b) = take (unat Size) (hb_Bytes old) \<and>
       (flag_on Flags HEAP_ZERO_MEMORY \<longrightarrow>
          drop (unat (hb_Size old)) (hb_Bytes b) = replicate (unat Size - unat (hb_Size old)) 0)) \<and>
    (\<forall>x. x \<noteq> BaseAddress \<longrightarrow> x \<noteq> a \<longrightarrow> heap_header s' x = heap_header s x)"
proof -
  have base: "BaseAddress \<noteq> NULL" "hb_HeapHandle old = H"
    using assms(4,5) by (auto simp: LdkReAllocateHeap_def split: if_splits)
  have old: "heap_block_ok old" "length (hb_Bytes old) = unat (hb_Size old)"
    using assms(1) heap_header_set [OF assms(4)] by (auto simp: heap_wf_def heap_block_ok_def)
  obtain s1 where al: "LdkAllocateHeap pool H Flags Size s = (Some a, s1)"
    using assms(4,5) base by (auto simp: LdkReAllocateHeap_def Let_def split: option.splits prod.splits)
  from heap_allocate_spec [OF assms(1-3) al] obtain b where b: "heap_wf s1" "a \<noteq> NULL"
      "heap_header s a = None" "heap_header s1 = (heap_header s)(a \<mapsto> b)" "hb_HeapHandle b = H"
      "hb_Size b = Size" "heap_block_ok b"
      "flag_on Flags HEAP_ZERO_MEMORY \<longrightarrow> hb_Bytes b = replicate (unat Size) 0" by blast
  have lb: "length (hb_Bytes b) = unat Size" using b(6,7) by (simp add: heap_block_ok_def)
  have ne: "a \<noteq> BaseAddress" using b(3) assms(4) by auto
  let ?n = "min (unat Size) (unat (hb_Size old))"
  define f where "f = (\<lambda>m. if hb_Size old > Size then mem_write 0 (take (unat Size) (hb_Bytes old)) m
      else if flag_on Flags HEAP_ZERO_MEMORY
        then mem_write (unat (hb_Size old)) (replicate (unat (Size - hb_Size old)) 0)
               (mem_write 0 (take (unat (hb_Size old)) (hb_Bytes old)) m)
        else mem_write 0 (take (unat (hb_Size old)) (hb_Bytes old)) m)"
  have two: "heap_update_bytes a g (heap_update_bytes a h s1) = heap_update_bytes a (\<lambda>m. g (h m)) s1" for g h
    by (auto simp: heap_update_bytes_def split_beta)
  have s': "s' = snd (LdkFreeHeap H 0 BaseAddress (heap_update_bytes a f s1))"
    using assms(4,5) base al
    by (auto simp: LdkReAllocateHeap_def Let_def f_def two split: if_splits)
  have diff: "unat (Size - hb_Size old) = unat Size - unat (hb_Size old)" if "\<not> hb_Size old > Size"
    using that by (simp add: unat_sub word_le_nat_alt word_less_nat_alt)
  have lf: "length (f (hb_Bytes b)) = length (hb_Bytes b)"
    using lb old(2) diff by (auto simp: f_def word_less_nat_alt)
  have tf: "take ?n (f (hb_Bytes b)) = take (unat Size) (hb_Bytes old)"
    using lb old(2) diff by (auto simp: f_def mem_write_def word_less_nat_alt min_def)
  have zf: "drop (unat (hb_Size old)) (f (hb_Bytes b)) = replicate (unat Size - unat (hb_Size old)) 0"
    if "flag_on Flags HEAP_ZERO_MEMORY"
    using lb old(2) diff that by (auto simp: f_def mem_write_def word_less_nat_alt)
  have hu: "heap_header (heap_update_bytes a f s1) x =
      (if x = a then Some (b\<lparr>hb_Bytes := f (hb_Bytes b)\<rparr>) else heap_header s x)" for x
    using b(4) by (simp add: heap_update_bytes_header)
  have "heap_wf (heap_update_bytes a f s1)"
    by (rule heap_wf_update [OF b(1)]) (use b(4) lf in auto)
  then have "heap_wf s'" unfolding s' by (rule heap_wf_free)
  then show ?thesis
    using ne base(1) b(5,6) tf zf
    by (auto simp: s' heap_free_header hu)
qed

definition heap_demo :: heap_state where
  "heap_demo = \<lparr>hs_List = [(96, \<lparr>hb_HeapHandle = 1, hb_Tag = 0, hb_Size = 2, hb_PoolSize = 50, hb_Bytes = [7, 9]\<rparr>)],
     hs_Handle = 1\<rparr>"

definition demo_pool :: "u64 \<Rightarrow> (addr \<times> u8 list) option" where
  "demo_pool n = Some (256, replicate (unat n - 48) 204)"

lemma replicate_2: "replicate 2 x = [x, x]"
  by (simp add: numeral_2_eq_2)

lemma heap_tag_1: "heap_tag 1 = Some (66, 65, 65, 65)"
  by (simp add: heap_tag_def tag_carry.simps Let_def)

theorem heap_reallocate_witness:
  "\<exists>s' b. LdkReAllocateHeap demo_pool 1 8 96 4 heap_demo = (Some 256, s') \<and> heap_header s' 256 = Some b \<and>
     take 2 (hb_Bytes b) = [7, 9] \<and> drop 2 (hb_Bytes b) = [0, 0] \<and> heap_header s' 96 = None"
proof -
  let ?old = "\<lparr>hb_HeapHandle = 1, hb_Tag = 0, hb_Size = 2, hb_PoolSize = 50, hb_Bytes = [7, 9]\<rparr> :: heap_block"
  have wf: "heap_wf heap_demo" "pool_ok demo_pool heap_demo" "heap_header heap_demo 96 = Some ?old"
    by (simp_all add: heap_demo_def heap_wf_def heap_block_ok_def pool_ok_def demo_pool_def heap_header_def)
  obtain s' where r: "LdkReAllocateHeap demo_pool 1 8 96 4 heap_demo = (Some 256, s')"
    using wf(3) by (simp add: LdkReAllocateHeap_def LdkAllocateHeap_def demo_pool_def heap_tag_1 Let_def)
  have "flag_on 8 HEAP_ZERO_MEMORY" by (simp add: flag_on_def)
  then show ?thesis
    using heap_reallocate [OF wf(1,2) _ wf(3) r] r by (auto simp: replicate_2)
qed

section \<open>Walking and termination\<close>

text \<open>The loop every caller of \<open>LdkWalkHeap\<close> runs: start with no previous block, pass the block found
  last, stop at the first status that is not a success.\<close>

fun heap_walk_run :: "nat \<Rightarrow> (addr \<Rightarrow> bool) \<Rightarrow> u64 \<Rightarrow> addr \<Rightarrow> heap_state \<Rightarrow> (addr \<times> u64) list \<times> ntstatus" where
  "heap_walk_run 0 valid H p s = ([], STATUS_SUCCESS)"
| "heap_walk_run (Suc n) valid H p s =
     (case LdkWalkHeap valid H p (Some HEAP_WALK_ZERO) s of
        (st, Some e) \<Rightarrow> if NT_SUCCESS st
          then (let (r, st') = heap_walk_run n valid H (hw_Data e) s in ((hw_Data e, hw_Size e) # r, st'))
          else ([], st)
      | (st, None) \<Rightarrow> ([], st))"

lemma heap_walk_scan_None: "heap_walk_scan H l = None \<longleftrightarrow> filter (\<lambda>x. hb_HeapHandle (snd x) = H) l = []"
  by (induction l) auto

lemma heap_walk_scan_Some:
  "heap_walk_scan H l = Some x \<Longrightarrow> \<exists>pre post. l = pre @ x # post \<and> hb_HeapHandle (snd x) = H \<and>
     filter (\<lambda>x. hb_HeapHandle (snd x) = H) pre = []"
proof (induction l)
  case (Cons y l)
  show ?case
  proof (cases "hb_HeapHandle (snd y) = H")
    case True
    then have "y = x" using Cons.prems by simp
    then show ?thesis using True by (intro exI [of _ "[]"] exI [of _ l]) simp
  next
    case False
    then obtain pre post where "l = pre @ x # post" "hb_HeapHandle (snd x) = H"
        "filter (\<lambda>x. hb_HeapHandle (snd x) = H) pre = []"
      using Cons by auto
    then show ?thesis using False by (intro exI [of _ "y # pre"] exI [of _ post]) auto
  qed
qed simp

lemma heap_walk_start_after:
  assumes "heap_wf s" and "hs_List s = pre @ (a, b) # post" and "valid a" and "hb_HeapHandle b = H"
  shows "heap_walk_start valid H a s = Some post"
proof -
  have n: "a \<noteq> NULL" "a \<notin> fst ` set pre" using assms(1,2) by (auto simp: heap_wf_def)
  have "heap_header s a = Some b"
    using n(2) by (simp add: heap_header_def assms(2) map_add_Some_iff map_of_eq_None_iff)
  moreover have "dropWhile (\<lambda>x. fst x \<noteq> a) (hs_List s) = (a, b) # post"
    using n(2) by (subst assms(2), subst dropWhile_append2) auto
  ultimately show ?thesis using n(1) assms(3,4) by (simp add: heap_walk_start_def)
qed

lemma heap_walk_from:
  assumes "heap_wf s" and "\<forall>x\<in>set (hs_List s). valid (fst x)" and "H \<noteq> 0"
  shows "heap_walk_start valid H p s = Some rest \<Longrightarrow> \<exists>pre. hs_List s = pre @ rest \<Longrightarrow>
    length (filter (\<lambda>x. hb_HeapHandle (snd x) = H) rest) < n \<Longrightarrow>
    heap_walk_run n valid H p s =
      (map (\<lambda>x. (fst x, hb_Size (snd x))) (filter (\<lambda>x. hb_HeapHandle (snd x) = H) rest), STATUS_NO_MORE_ENTRIES)"
proof (induction n arbitrary: p rest)
  case (Suc n)
  show ?case
  proof (cases "heap_walk_scan H rest")
    case None
    then show ?thesis
      using Suc.prems(1) assms(3) heap_walk_scan_None [of H rest] by (simp add: LdkWalkHeap_def NT_SUCCESS_def)
  next
    case (Some x)
    obtain a b where x: "x = (a, b)" by fastforce
    from heap_walk_scan_Some [OF Some] obtain pre post where r: "rest = pre @ (a, b) # post"
        "hb_HeapHandle b = H" "filter (\<lambda>x. hb_HeapHandle (snd x) = H) pre = []" by (auto simp: x)
    obtain pre0 where l: "hs_List s = (pre0 @ pre) @ (a, b) # post" using Suc.prems(2) r(1) by auto
    have "valid a" using assms(2) l by auto
    then have "heap_walk_start valid H a s = Some post"
      using heap_walk_start_after [where s = s and valid = valid] assms(1) l r(2) by blast
    moreover have "\<exists>pre. hs_List s = pre @ post"
      by (rule exI [of _ "pre0 @ pre @ [(a, b)]"]) (use l in simp)
    ultimately have "heap_walk_run n valid H a s =
        (map (\<lambda>x. (fst x, hb_Size (snd x))) (filter (\<lambda>x. hb_HeapHandle (snd x) = H) post), STATUS_NO_MORE_ENTRIES)"
      using Suc.prems(3) r by (intro Suc.IH) auto
    then show ?thesis
      using Suc.prems(1) Some assms(3) r x by (simp add: LdkWalkHeap_def NT_SUCCESS_def)
  qed
qed simp

text \<open>a heap walk is complete. Called with no previous block and then with each block it returned,
  \<open>LdkWalkHeap\<close> reports exactly the blocks of the heap, each once, in the order they were allocated and
  with the sizes their callers asked for, skips the blocks of other heaps, and then ends with
  \<open>STATUS_NO_MORE_ENTRIES\<close> after as many calls as there are blocks and one.\<close>

theorem heap_walk_complete:
  assumes "heap_wf s" and "\<forall>x\<in>set (hs_List s). valid (fst x)" and "H \<noteq> 0"
    and "n = length (filter (\<lambda>x. hb_HeapHandle (snd x) = H) (hs_List s))"
  shows "heap_walk_run (Suc n) valid H NULL s =
    (map (\<lambda>x. (fst x, hb_Size (snd x))) (filter (\<lambda>x. hb_HeapHandle (snd x) = H) (hs_List s)), STATUS_NO_MORE_ENTRIES)"
  by (rule heap_walk_from [OF assms(1-3)]) (use assms(4) in \<open>simp_all add: heap_walk_start_def\<close>)

definition heap_two :: heap_state where
  "heap_two = \<lparr>hs_List = [
     (96, \<lparr>hb_HeapHandle = 1, hb_Tag = 0, hb_Size = 2, hb_PoolSize = 50, hb_Bytes = [7, 9]\<rparr>),
     (192, \<lparr>hb_HeapHandle = 2, hb_Tag = 0, hb_Size = 0, hb_PoolSize = 48, hb_Bytes = []\<rparr>),
     (256, \<lparr>hb_HeapHandle = 1, hb_Tag = 0, hb_Size = 1, hb_PoolSize = 49, hb_Bytes = [5]\<rparr>)],
     hs_Handle = 2\<rparr>"

lemma heap_two_wf: "heap_wf heap_two"
  by (simp add: heap_two_def heap_wf_def heap_block_ok_def)

theorem heap_walk_complete_witness:
  "heap_walk_run 3 (\<lambda>a. True) 1 NULL heap_two = ([(96, 2), (256, 1)], STATUS_NO_MORE_ENTRIES)"
  using heap_walk_complete [OF heap_two_wf, of "\<lambda>a. True" 1 2] by (simp add: heap_two_def numeral_3_eq_3)

lemma heap_terminate_loop_mset: "mset (heap_terminate_loop (Some e) l) = add_mset e (mset l)"
  by (induction "Some e" l arbitrary: e rule: heap_terminate_loop.induct) auto

text \<open>Shutdown frees every heap block that is still allocated, each exactly once, whatever heap it
  belongs to, and leaves the list empty.\<close>

theorem heap_terminate_frees_all:
  "mset (fst (LdkpTerminateHeapList s)) = mset (hs_List s) \<and> hs_List (snd (LdkpTerminateHeapList s)) = []"
proof (cases "hs_List s" rule: rev_cases)
  case Nil
  then show ?thesis by (simp add: LdkpTerminateHeapList_def)
next
  case (snoc l x)
  then show ?thesis by (simp add: LdkpTerminateHeapList_def heap_terminate_loop_mset)
qed

text \<open>the size of a block is not checked against the header. For every size that does not leave
  room for the 48 bytes of the header in 64 bits, the addition wraps: an allocation from a pool that
  can give a few bytes succeeds, the block claims to hold the size asked for, and the pool block is
  smaller than its own header.\<close>

theorem heap_allocate_size_wraps:
  assumes "2 ^ 64 \<le> unat Size + 48" and "heap_tag (ucast H) = Some tag"
    and "pool (Size + 48) = Some (a, bytes)"
    and "LdkAllocateHeap pool H Flags Size s = (r, s')" and "a \<notin> fst ` set (hs_List s)"
  shows "r = Some a \<and> LdkSizeHeap H 0 a s' = (if a = NULL then - 1 else Size) \<and>
    (\<exists>b. heap_header s' a = Some b \<and> unat (hb_PoolSize b) = unat Size + 48 - 2 ^ 64 \<and> hb_PoolSize b < 48)"
proof -
  have n: "unat (Size + 48) = unat Size + 48 - 2 ^ 64"
  proof -
    have "unat Size < 2 ^ 64" using unsigned_less [of Size, where 'a = nat] by simp
    then have "(unat Size + 48) mod 2 ^ 64 = unat Size + 48 - 2 ^ 64"
      using assms(1) by (simp add: le_mod_geq)
    then show ?thesis by (simp add: unat_word_ariths)
  qed
  have l: "unat (Size + 48) < 48" using n unsigned_less [of Size, where 'a = nat] by simp
  obtain b where b: "s' = s\<lparr>hs_List := hs_List s @ [(a, b)]\<rparr>" "r = Some a" "hb_PoolSize b = Size + 48"
      "hb_Size b = Size" "hb_HeapHandle b = H"
    using assms(2-4) by (auto simp: LdkAllocateHeap_def Let_def)
  have "heap_header s' a = Some b"
    using map_of_append_notin [OF assms(5)] by (simp add: heap_header_def b(1))
  then show ?thesis using b n l by (simp add: LdkSizeHeap_def word_less_nat_alt)
qed

theorem heap_allocate_size_wraps_witness:
  "LdkSizeHeap 1 0 256 (snd (LdkAllocateHeap demo_pool 1 0 (- 16) \<lparr>hs_List = [], hs_Handle = 1\<rparr>)) = - 16"
proof -
  let ?s = "\<lparr>hs_List = [], hs_Handle = 1\<rparr> :: heap_state"
  obtain r s' where e: "LdkAllocateHeap demo_pool 1 0 (- 16) ?s = (r, s')" by fastforce
  have "unat (- 16 :: u64) = 2 ^ 64 - 16" by (simp add: unat_word_ariths unat_eq_nat_uint uint_word_ariths)
  then have "(2::nat) ^ 64 \<le> unat (- 16 :: u64) + 48" by simp
  then have "LdkSizeHeap 1 0 256 s' = - 16"
    using heap_allocate_size_wraps [OF _ _ _ e, of "(66, 65, 65, 65)" 256 "replicate (unat (32 :: u64) - 48) 204"]
    by (simp add: heap_tag_1 demo_pool_def)
  then show ?thesis by (simp add: e)
qed

end
