(* ===== verification/Environment.thy ===== *)
theory Environment
  imports UnicodeBuffer
begin

text \<open>
  Environment blocks (src/ntdll/environ.c). A block is an array of UTF-16 units: entries
  \<open>NAME=value\<close>, each ended by a 0, and one more 0 at the end. The model keeps the arrays and the
  code's pointers into them, as offsets; the kernel's \<open>RtlEqualUnicodeString\<close> and
  \<open>RtlCompareUnicodeString\<close>, case ignored, are the parameters \<open>eq\<close> and \<open>cmp\<close>.
\<close>

section \<open>State\<close>

type_synonym wstr = "u16 list"

text \<open>\<open>en_Blocks\<close> is the heap's memory: the contents of every block that is allocated. The cache keeps
  pointers: a block, an offset and a length in bytes.\<close>

record environ =
  en_Environment :: addr
  en_EnvironmentSize :: u32
  en_EnvironmentUpdateCount :: u32
  en_Blocks :: "addr \<Rightarrow> wstr option"
  en_CacheValid :: bool
  en_CacheName :: "addr \<times> nat \<times> u16"
  en_CacheValue :: "addr \<times> nat \<times> u16"

abbreviation EQUALS :: u16 where "EQUALS \<equiv> 61"

text \<open>\<open>wcslen\<close> and \<open>wcschr\<close> at an offset of a block.\<close>

definition wcslen_at :: "wstr \<Rightarrow> nat \<Rightarrow> nat" where
  "wcslen_at blk p = length (takeWhile (\<lambda>c. c \<noteq> 0) (drop p blk))"

definition wcschr_at :: "wstr \<Rightarrow> nat \<Rightarrow> u16 \<Rightarrow> nat option" where
  "wcschr_at blk p c =
     (let q = p + length (takeWhile (\<lambda>x. x \<noteq> c \<and> x \<noteq> 0) (drop p blk))
      in if q < length blk \<and> blk ! q = c then Some q else None)"

definition env_pointer_chars :: "(addr \<Rightarrow> wstr option) \<Rightarrow> addr \<times> nat \<times> u16 \<Rightarrow> wstr option" where
  "env_pointer_chars mem r = (case r of (a, off, n) \<Rightarrow>
     map_option (\<lambda>blk. take (unat n div 2) (drop off blk)) (mem a))"

section \<open>Reading a variable\<close>

text \<open>The scan of the block, entry by entry: the offset of the entry that matches.\<close>

function env_query_scan :: "(wstr \<Rightarrow> wstr \<Rightarrow> bool) \<Rightarrow> wstr \<Rightarrow> wstr \<Rightarrow> nat \<Rightarrow> nat option" where
  "env_query_scan eq nm blk p =
     (let len = wcslen_at blk p in
      if len = 0 then None
      else if length nm < len \<and> blk ! (p + length nm) = EQUALS \<and>
              eq nm (take (length nm) (drop p blk)) \<and>
              wcschr_at blk (p + 1) EQUALS = Some (p + length nm)
      then Some p
      else env_query_scan eq nm blk (p + len + 1))"
  by pat_completeness auto
termination
proof (relation "measure (\<lambda>(eq, nm, blk, p). length blk - p)")
  fix nm :: wstr and blk :: wstr and p len :: nat and eq :: "wstr \<Rightarrow> wstr \<Rightarrow> bool"
  assume "len = wcslen_at blk p" and "len \<noteq> 0"
  then have "drop p blk \<noteq> []" by (auto simp: wcslen_at_def)
  then show "((eq, nm, blk, p + len + 1), eq, nm, blk, p) \<in> measure (\<lambda>(eq, nm, blk, p). length blk - p)"
    by simp
qed simp

declare env_query_scan.simps [simp del]

text \<open>How a value is handed to the caller, the same at the three places where it is: the length is
  stored in every case, the characters and a terminating 0 when they fit.\<close>

definition env_store_value :: "u16 \<Rightarrow> wstr \<Rightarrow> unicode_string \<Rightarrow> bool \<times> unicode_string" where
  "env_store_value CurrentLength chars Value =
     (let V = Value\<lparr>us_Length := CurrentLength\<rparr> in
      if us_MaximumLength V \<ge> CurrentLength then
        let V = V\<lparr>us_Buffer := mem_write 0 (take (unat CurrentLength div 2) chars) (us_Buffer V)\<rparr>
        in (True, if us_MaximumLength V > CurrentLength
                  then V\<lparr>us_Buffer := (us_Buffer V)[unat CurrentLength div 2 := 0]\<rparr> else V)
      else (False, V))"

text \<open>The two pseudo variables are looked up when the block does not have the name.\<close>

abbreviation PSEUDO_CD :: wstr where "PSEUDO_CD \<equiv> [95, 95, 67, 68, 95, 95]"
abbreviation PSEUDO_APPDIR :: wstr where "PSEUDO_APPDIR \<equiv> [95, 95, 65, 80, 80, 68, 73, 82, 95, 95]"

abbreviation RtlDosPathSeparatorsString :: unicode_string where
  "RtlDosPathSeparatorsString \<equiv> \<lparr>us_Length = 4, us_MaximumLength = 6, us_Buffer = [92, 47, 0]\<rparr>"

definition env_pseudo_variable ::
  "(wstr \<Rightarrow> wstr \<Rightarrow> bool) \<Rightarrow> (u16 \<Rightarrow> u16) \<Rightarrow> (unicode_string \<Rightarrow> ntstatus) \<Rightarrow> unicode_string \<Rightarrow> unicode_string \<Rightarrow>
     unicode_string \<Rightarrow> unicode_string \<Rightarrow> ntstatus \<times> unicode_string" where
  "env_pseudo_variable eq down validate DosPath ImagePathName Name Value =
     (let (Status, CurrentValue) =
        (if eq (us_chars Name) PSEUDO_CD then (STATUS_SUCCESS, DosPath)
         else if eq (us_chars Name) PSEUDO_APPDIR then
           let (st, prefix) = RtlFindCharInUnicodeString down validate
                 RTL_FIND_CHAR_IN_UNICODE_STRING_START_AT_END ImagePathName RtlDosPathSeparatorsString True
           in if NT_SUCCESS st then (st, ImagePathName\<lparr>us_Length := the prefix + 2\<rparr>)
              else if st = STATUS_NOT_FOUND then (STATUS_SUCCESS, ImagePathName)
              else (st, ImagePathName)
         else (STATUS_VARIABLE_NOT_FOUND, Value))
      in if NT_SUCCESS Status
         then (Status, snd (env_store_value (us_Length CurrentValue) (us_Buffer CurrentValue) Value))
         else (Status, Value))"

text \<open>The result is \<open>None\<close> when the call reads a block that is not allocated.\<close>

definition RtlQueryEnvironmentVariable_U ::
  "(wstr \<Rightarrow> wstr \<Rightarrow> bool) \<Rightarrow> (u16 \<Rightarrow> u16) \<Rightarrow> (unicode_string \<Rightarrow> ntstatus) \<Rightarrow> unicode_string \<Rightarrow> unicode_string \<Rightarrow>
     addr \<Rightarrow> unicode_string \<Rightarrow> unicode_string \<Rightarrow> environ \<Rightarrow> (ntstatus \<times> unicode_string \<times> environ) option" where
  "RtlQueryEnvironmentVariable_U eq down validate DosPath ImagePathName Environment Name Value s =
     (let p = (if Environment \<noteq> NULL then Environment else en_Environment s);
          nm = us_chars Name;
          pseudo = (case env_pseudo_variable eq down validate DosPath ImagePathName Name Value of
            (st, V) \<Rightarrow> Some (st, V, s))
      in if p \<noteq> NULL \<and> en_Blocks s p = None then None
         else if Environment \<noteq> NULL \<and> wcslen_at (the (en_Blocks s p)) 0 = 0
         then Some (STATUS_VARIABLE_NOT_FOUND, Value, s)
         else if en_CacheValid s \<and> p = en_Environment s \<and>
             env_pointer_chars (en_Blocks s) (en_CacheName s) = None then None
         else if en_CacheValid s \<and> p = en_Environment s \<and>
             eq nm (the (env_pointer_chars (en_Blocks s) (en_CacheName s)))
         then (case env_pointer_chars (en_Blocks s) (en_CacheValue s) of
             None \<Rightarrow> None
           | Some chars \<Rightarrow>
               let (ok, V) = env_store_value (snd (snd (en_CacheValue s))) chars Value
               in Some (if ok then STATUS_SUCCESS else STATUS_BUFFER_TOO_SMALL, V, s))
         else if p = NULL then pseudo
         else case env_query_scan eq nm (the (en_Blocks s p)) 0 of
             None \<Rightarrow> pseudo
           | Some e \<Rightarrow>
               let blk = the (en_Blocks s p);
                   CurrentLength = of_nat ((wcslen_at blk e - 1) * 2 - unat (us_Length Name));
                   (ok, V) = env_store_value CurrentLength (drop (e + length nm + 1) blk) Value;
                   s' = (if Environment = en_Environment s
                     then s\<lparr>en_CacheValid := True, en_CacheName := (p, e, us_Length Name),
                            en_CacheValue := (p, e + length nm + 1, CurrentLength)\<rparr>
                     else s)
               in Some (if ok then (STATUS_SUCCESS, V, s') else (STATUS_BUFFER_TOO_SMALL, V, s)))"

section \<open>Setting a variable\<close>

text \<open>A \<open>NULL\<close> buffer is the empty list here.\<close>

definition set_environment_check :: "unicode_string option \<Rightarrow> unicode_string option \<Rightarrow> environ \<Rightarrow> ntstatus \<times> environ" where
  "set_environment_check Name Value s =
     (case Name of
        None \<Rightarrow> (STATUS_INVALID_PARAMETER, s)
      | Some N \<Rightarrow>
          if us_Buffer N = [] \<or> us_Length N = 0 \<or> us_Length N AND 1 \<noteq> 0 then (STATUS_INVALID_PARAMETER, s)
          else if list_ex (\<lambda>Index. us_Buffer N ! Index = EQUALS) [1 ..< unat (us_Length N) div 2]
          then (STATUS_INVALID_PARAMETER, s)
          else if Value \<noteq> None \<and> us_Length (the Value) \<noteq> 0 \<and> us_Buffer (the Value) = []
          then (STATUS_INVALID_PARAMETER, s)
          else (STATUS_SUCCESS, s\<lparr>en_CacheValid := False\<rparr>))"

text \<open>The scan returns the edited range when the name is found, the place to insert before, and where
  the scan stopped.\<close>

function set_scan :: "(wstr \<Rightarrow> wstr \<Rightarrow> int) \<Rightarrow> wstr \<Rightarrow> wstr \<Rightarrow> nat \<Rightarrow> nat option \<Rightarrow> (nat \<times> nat) option \<times> nat option \<times> nat" where
  "set_scan cmp nm blk Scan InsertBefore =
     (if wcslen_at blk Scan = 0 then (None, InsertBefore, Scan)
      else
        let EntryStart = Scan; EntryEnd = Scan + wcslen_at blk Scan + 1;
            Delimiter = EntryStart + 1 +
              length (takeWhile (\<lambda>c. c \<noteq> 0 \<and> c \<noteq> EQUALS) (drop (EntryStart + 1) blk))
        in if Delimiter < length blk \<and> blk ! Delimiter = EQUALS then
             let CurrentLength = (of_nat ((Delimiter - EntryStart) * 2) :: u16);
                 CompareResult = cmp nm (take (unat CurrentLength div 2) (drop EntryStart blk))
             in if CompareResult = 0 then (Some (EntryStart, EntryEnd), InsertBefore, EntryEnd)
                else set_scan cmp nm blk EntryEnd
                       (if CompareResult < 0 \<and> InsertBefore = None then Some EntryStart else InsertBefore)
           else set_scan cmp nm blk EntryEnd InsertBefore)"
  by pat_completeness auto
termination
  by (relation "measure (\<lambda>(cmp, nm, blk, p, ib). length blk - p)")
    (auto simp: wcslen_at_def intro!: diff_less_mono2 simp flip: not_le)

declare set_scan.simps [simp del]

text \<open>The second scan, over the entries behind the one that was found.\<close>

function set_scan_final :: "wstr \<Rightarrow> nat \<Rightarrow> nat" where
  "set_scan_final blk Scan =
     (if wcslen_at blk Scan = 0 then Scan else set_scan_final blk (Scan + wcslen_at blk Scan + 1))"
  by pat_completeness auto
termination
  by (relation "measure (\<lambda>(blk, p). length blk - p)")
    (auto simp: wcslen_at_def intro!: diff_less_mono2 simp flip: not_le)

declare set_scan_final.simps [simp del]

text \<open>The new block, from the old one: its size in bytes and its contents, or nothing when the call is
  a deletion of a name the block does not have.\<close>

definition set_environment_block ::
  "(wstr \<Rightarrow> wstr \<Rightarrow> int) \<Rightarrow> unicode_string \<Rightarrow> unicode_string option \<Rightarrow> wstr option \<Rightarrow> (nat \<times> wstr) option" where
  "set_environment_block cmp Name Value OldBlock =
     (let nm = us_chars Name;
          (Found, InsertBefore, Scan) =
            (case OldBlock of None \<Rightarrow> (None, None, 0) | Some blk \<Rightarrow> set_scan cmp nm blk 0 None)
      in if Value = None \<and> Found = None then None
         else
           let old = (case OldBlock of None \<Rightarrow> [] | Some blk \<Rightarrow> blk);
               OldFinal = (if OldBlock = None then 0 else set_scan_final old Scan);
               OldSize = (if OldBlock = None then 2 else (OldFinal + 1) * 2);
               (EditStart, EditEnd) =
                 (case Found of
                    Some r \<Rightarrow> r
                  | None \<Rightarrow> (case InsertBefore of Some i \<Rightarrow> (i, i) | None \<Rightarrow> (OldFinal, OldFinal)));
               RemovedSize = (if Found \<noteq> None then (EditEnd - EditStart) * 2 else 0);
               NewEntrySize = (case Value of
                  None \<Rightarrow> 0
                | Some V \<Rightarrow> unat (us_Length Name) + 2 + unat (us_Length V) + 2);
               NewSize = max (OldSize - RemovedSize + NewEntrySize) 2;
               New = replicate (NewSize div 2) (0 :: u16);
               (Out, New) =
                 (if OldBlock \<noteq> None \<and> EditStart > 0
                  then (EditStart, mem_write 0 (take EditStart old) New) else (0, New));
               (Out, New) =
                 (case Value of
                    None \<Rightarrow> (Out, New)
                  | Some V \<Rightarrow>
                      let New = mem_write Out nm New; Out = Out + length nm;
                          New = New[Out := EQUALS]; Out = Out + 1;
                          New = (if us_Length V \<noteq> 0 then mem_write Out (us_chars V) New else New);
                          Out = (if us_Length V \<noteq> 0 then Out + length (us_chars V) else Out)
                      in (Out + 1, New[Out := 0]));
               New = (if OldBlock \<noteq> None
                      then mem_write Out (take (OldFinal - EditEnd + 1) (drop EditEnd old)) New else New)
           in Some (NewSize, New))"

text \<open>The \<open>Environment\<close> argument: \<open>NULL\<close>, the address of the process parameters' own pointer (as
  src/peb.c passes it), or a pointer of the caller.\<close>

datatype env_arg = DefaultEnvironment | PebEnvironment | CallerEnvironment addr

definition set_environment_apply ::
  "(wstr \<Rightarrow> wstr \<Rightarrow> int) \<Rightarrow> (nat \<Rightarrow> addr option) \<Rightarrow> env_arg \<Rightarrow> unicode_string \<Rightarrow> unicode_string option \<Rightarrow>
     environ \<Rightarrow> (ntstatus \<times> env_arg \<times> environ) option" where
  "set_environment_apply cmp alloc Environment Name Value s =
     (let OldEnvironment = (case Environment of CallerEnvironment a \<Rightarrow> a | _ \<Rightarrow> en_Environment s);
          OldBlock = (if OldEnvironment = NULL then None else en_Blocks s OldEnvironment)
      in if OldEnvironment \<noteq> NULL \<and> OldBlock = None then None
         else case set_environment_block cmp Name Value OldBlock of
             None \<Rightarrow> Some (STATUS_SUCCESS, Environment, s)
           | Some (NewSize, New) \<Rightarrow>
               (case alloc NewSize of
                  None \<Rightarrow> Some (STATUS_INSUFFICIENT_RESOURCES, Environment, s)
                | Some NewEnvironment \<Rightarrow>
                    let s1 = s\<lparr>en_Blocks := (en_Blocks s)(NewEnvironment \<mapsto> New)\<rparr>;
                        (e, s2) = (case Environment of
                            DefaultEnvironment \<Rightarrow> (DefaultEnvironment,
                              s1\<lparr>en_Environment := NewEnvironment, en_EnvironmentSize := of_nat NewSize,
                                 en_EnvironmentUpdateCount := en_EnvironmentUpdateCount s1 + 1\<rparr>)
                          | PebEnvironment \<Rightarrow> (PebEnvironment, s1\<lparr>en_Environment := NewEnvironment\<rparr>)
                          | CallerEnvironment a \<Rightarrow> (CallerEnvironment NewEnvironment, s1));
                        s3 = (if OldEnvironment \<noteq> NULL
                          then s2\<lparr>en_Blocks := (en_Blocks s2)(OldEnvironment := None)\<rparr> else s2)
                    in Some (STATUS_SUCCESS, e, s3)))"

definition RtlSetEnvironmentVariable ::
  "(wstr \<Rightarrow> wstr \<Rightarrow> int) \<Rightarrow> (nat \<Rightarrow> addr option) \<Rightarrow> env_arg \<Rightarrow> unicode_string option \<Rightarrow> unicode_string option \<Rightarrow>
     environ \<Rightarrow> (ntstatus \<times> env_arg \<times> environ) option" where
  "RtlSetEnvironmentVariable cmp alloc Environment Name Value s =
     (case set_environment_check Name Value s of
        (st, s1) \<Rightarrow> if st = STATUS_SUCCESS
          then set_environment_apply cmp alloc Environment (the Name) Value s1
          else Some (st, Environment, s1))"

section \<open>Blocks as lists of entries\<close>

definition env_block :: "wstr list \<Rightarrow> wstr" where
  "env_block es = concat (map (\<lambda>e. e @ [0]) es) @ [0]"

definition env_offset :: "wstr list \<Rightarrow> nat" where
  "env_offset es = length (concat (map (\<lambda>e. e @ [0]) es))"

definition env_name :: "wstr \<Rightarrow> wstr option" where
  "env_name e = (let i = length (takeWhile (\<lambda>c. c \<noteq> EQUALS) (tl e)) in
     if i < length (tl e) then Some (take (Suc i) e) else None)"

definition env_value :: "wstr \<Rightarrow> wstr" where
  "env_value e = (case env_name e of None \<Rightarrow> [] | Some n \<Rightarrow> drop (length n + 1) e)"

definition env_entry_ok :: "wstr \<Rightarrow> bool" where
  "env_entry_ok e \<longleftrightarrow> e \<noteq> [] \<and> 0 \<notin> set e \<and> length e < 32768"

definition env_hit :: "(wstr \<Rightarrow> wstr \<Rightarrow> int) \<Rightarrow> wstr \<Rightarrow> wstr \<Rightarrow> bool" where
  "env_hit cmp nm e \<longleftrightarrow> (case env_name e of None \<Rightarrow> False | Some n \<Rightarrow> cmp nm n = 0)"

definition env_after :: "(wstr \<Rightarrow> wstr \<Rightarrow> int) \<Rightarrow> wstr \<Rightarrow> wstr \<Rightarrow> bool" where
  "env_after cmp nm e \<longleftrightarrow> (case env_name e of None \<Rightarrow> False | Some n \<Rightarrow> cmp nm n < 0)"

text \<open>What setting and reading a variable mean on the entries.\<close>

definition env_set :: "(wstr \<Rightarrow> wstr \<Rightarrow> int) \<Rightarrow> wstr \<Rightarrow> wstr option \<Rightarrow> wstr list \<Rightarrow> wstr list" where
  "env_set cmp nm v es =
     (let new = (case v of None \<Rightarrow> [] | Some w \<Rightarrow> [nm @ EQUALS # w]) in
      if \<exists>e\<in>set es. env_hit cmp nm e
      then takeWhile (\<lambda>x. \<not> env_hit cmp nm x) es @ new @ tl (dropWhile (\<lambda>x. \<not> env_hit cmp nm x) es)
      else if v = None then es
      else takeWhile (\<lambda>x. \<not> env_after cmp nm x) es @ new @ dropWhile (\<lambda>x. \<not> env_after cmp nm x) es)"

definition env_get :: "(wstr \<Rightarrow> wstr \<Rightarrow> bool) \<Rightarrow> wstr \<Rightarrow> wstr list \<Rightarrow> wstr option" where
  "env_get eq nm es = map_option env_value
     (List.find (\<lambda>e. case env_name e of None \<Rightarrow> False | Some n \<Rightarrow> eq nm n) es)"

lemma env_block_simps [simp]:
  "env_block [] = [0]" "env_block (e # es) = e @ 0 # env_block es"
  by (simp_all add: env_block_def)

lemma env_offset_simps [simp]:
  "env_offset [] = 0" "env_offset (e # es) = length e + 1 + env_offset es"
  "env_offset (es @ fs) = env_offset es + env_offset fs"
  by (simp_all add: env_offset_def)

lemma env_block_append: "env_block (es @ fs) = concat (map (\<lambda>e. e @ [0]) es) @ env_block fs"
  by (simp add: env_block_def)

lemma length_env_block: "length (env_block es) = env_offset es + 1"
  by (simp add: env_block_def env_offset_def)

lemma drop_env_offset [simp]: "drop (env_offset es) (env_block (es @ fs)) = env_block fs"
  by (simp add: env_block_append env_offset_def)

lemma take_env_offset: "take (env_offset es) (env_block (es @ fs)) = concat (map (\<lambda>e. e @ [0]) es)"
  by (simp add: env_block_append env_offset_def)

lemma takeWhile_zero: "0 \<notin> set e \<Longrightarrow> takeWhile (\<lambda>c. c \<noteq> (0::u16)) (e @ 0 # xs) = e"
  by (induction e) auto

lemma wcslen_at_entry:
  assumes "drop p blk = env_block (e # es)" and "env_entry_ok e"
  shows "wcslen_at blk p = length e"
  using assms takeWhile_zero [of e "env_block es"] by (simp add: wcslen_at_def env_entry_ok_def)

lemma wcslen_at_end: "drop p blk = env_block [] \<Longrightarrow> wcslen_at blk p = 0"
  by (simp add: wcslen_at_def)

lemma drop_next_entry:
  assumes "drop p blk = env_block (e # es)"
  shows "drop (p + length e + 1) blk = env_block es"
proof -
  have "drop (p + length e + 1) blk = drop (length e + 1) (drop p blk)" by (simp add: add.commute add.left_commute)
  then show ?thesis by (simp add: assms)
qed

lemma nth_drop_entry:
  assumes "drop p blk = env_block (e # es)" and "i < length e"
  shows "p + i < length blk \<and> blk ! (p + i) = e ! i"
proof -
  have l: "length (drop p blk) = length blk - p" by simp
  then have "length e < length blk - p" using arg_cong [OF assms(1), of length] by simp
  moreover have "blk ! (p + i) = drop p blk ! i" using calculation assms(2) by simp
  ultimately show ?thesis using assms by (simp add: nth_append)
qed

lemma takeWhile_equals_entry:
  assumes "0 \<notin> set e"
  shows "takeWhile (\<lambda>c. c \<noteq> (0::u16) \<and> c \<noteq> EQUALS) (e @ 0 # xs) = takeWhile (\<lambda>c. c \<noteq> EQUALS) e"
    and "takeWhile (\<lambda>c. c \<noteq> EQUALS \<and> c \<noteq> (0::u16)) (e @ 0 # xs) = takeWhile (\<lambda>c. c \<noteq> EQUALS) e"
  using assms by (induction e) auto

text \<open>The first equals sign behind the first character of an entry, as both routines look for it.\<close>

lemma delimiter_at_entry:
  assumes "drop p blk = env_block (e # es)" and "env_entry_ok e"
    and "i = length (takeWhile (\<lambda>c. c \<noteq> EQUALS) (tl e))"
  shows "takeWhile (\<lambda>c. c \<noteq> 0 \<and> c \<noteq> EQUALS) (drop (p + 1) blk) = takeWhile (\<lambda>c. c \<noteq> EQUALS) (tl e)"
    and "takeWhile (\<lambda>c. c \<noteq> EQUALS \<and> c \<noteq> 0) (drop (p + 1) blk) = takeWhile (\<lambda>c. c \<noteq> EQUALS) (tl e)"
    and "(p + 1 + i < length blk \<and> blk ! (p + 1 + i) = EQUALS) = (env_name e \<noteq> None)"
    and "env_name e \<noteq> None \<Longrightarrow> env_name e = Some (take (Suc i) e) \<and> Suc i < length e"
proof -
  have d: "drop (p + 1) blk = tl e @ 0 # env_block es"
  proof -
    have "drop (p + 1) blk = tl (drop p blk)" by (simp add: drop_Suc tl_drop)
    then show ?thesis using assms(1,2) by (cases e) (simp_all add: env_entry_ok_def)
  qed
  have z: "0 \<notin> set (tl e)" using assms(2) by (cases e) (simp_all add: env_entry_ok_def)
  show "takeWhile (\<lambda>c. c \<noteq> 0 \<and> c \<noteq> EQUALS) (drop (p + 1) blk) = takeWhile (\<lambda>c. c \<noteq> EQUALS) (tl e)"
    and "takeWhile (\<lambda>c. c \<noteq> EQUALS \<and> c \<noteq> 0) (drop (p + 1) blk) = takeWhile (\<lambda>c. c \<noteq> EQUALS) (tl e)"
    using takeWhile_equals_entry [OF z] d by simp_all
  have len: "i \<le> length (tl e)"
    unfolding assms(3) by (rule length_takeWhile_le)
  have "p + 1 + i < length blk"
    using arg_cong [OF d, of length] len by simp
  moreover have "blk ! (p + 1 + i) = (tl e @ 0 # env_block es) ! i"
    using calculation by (simp flip: d)
  moreover have "(tl e @ 0 # env_block es) ! i = EQUALS \<longleftrightarrow> i < length (tl e)"
  proof (cases "i < length (tl e)")
    case True
    then have "tl e ! i = EQUALS" using nth_length_takeWhile [of "\<lambda>c. c \<noteq> EQUALS" "tl e"] assms(3) by simp
    then show ?thesis using True by (simp add: nth_append)
  next
    case False
    then have "i = length (tl e)" using len by simp
    then show ?thesis by (simp add: nth_append)
  qed
  ultimately show "(p + 1 + i < length blk \<and> blk ! (p + 1 + i) = EQUALS) = (env_name e \<noteq> None)"
    by (simp add: env_name_def Let_def flip: assms(3))
  show "env_name e = Some (take (Suc i) e) \<and> Suc i < length e" if "env_name e \<noteq> None"
    using that assms(3) by (cases e) (simp_all add: env_name_def Let_def split: if_splits)
qed

section \<open>The scans follow the entries\<close>

lemma unat_of_nat_u16_double: "n < 32768 \<Longrightarrow> unat (of_nat (n * 2) :: u16) = n * 2"
  by (simp only: unsigned_of_nat) (simp add: take_bit_nat_eq_self)

definition env_ehit :: "(wstr \<Rightarrow> wstr \<Rightarrow> bool) \<Rightarrow> wstr \<Rightarrow> wstr \<Rightarrow> bool" where
  "env_ehit eq nm e \<longleftrightarrow> (case env_name e of None \<Rightarrow> False | Some n \<Rightarrow> eq nm n)"

text \<open>What is relied on of the two kernel routines, with case ignored: equality is an equivalence that
  respects the length, and the comparison is a total order up to it.\<close>

definition env_compare_ok :: "(wstr \<Rightarrow> wstr \<Rightarrow> bool) \<Rightarrow> (wstr \<Rightarrow> wstr \<Rightarrow> int) \<Rightarrow> bool" where
  "env_compare_ok eq cmp \<longleftrightarrow>
     (\<forall>a b. eq a b \<longrightarrow> length a = length b) \<and> (\<forall>a b. eq a b \<longleftrightarrow> cmp a b = 0) \<and>
     (\<forall>a. cmp a a = 0) \<and> (\<forall>a b. cmp a b < 0 \<longleftrightarrow> 0 < cmp b a) \<and>
     (\<forall>a b c. cmp a b \<le> 0 \<longrightarrow> cmp b c \<le> 0 \<longrightarrow> cmp a c \<le> 0)"

lemma env_query_condition:
  assumes d: "drop p blk = env_block (e # es)" and ok: "env_entry_ok e"
    and eqlen: "\<And>a b. eq a b \<Longrightarrow> length a = length b"
  shows "(length nm < wcslen_at blk p \<and> blk ! (p + length nm) = EQUALS \<and>
      eq nm (take (length nm) (drop p blk)) \<and> wcschr_at blk (p + 1) EQUALS = Some (p + length nm)) =
    env_ehit eq nm e"
proof -
  define i where "i = length (takeWhile (\<lambda>c. c \<noteq> EQUALS) (tl e))"
  note del = delimiter_at_entry [OF d ok i_def]
  have wl: "wcslen_at blk p = length e" by (rule wcslen_at_entry [OF d ok])
  have wc: "wcschr_at blk (p + 1) EQUALS = (if env_name e \<noteq> None then Some (p + 1 + i) else None)"
    using del(2,3) by (simp add: wcschr_at_def Let_def i_def)
  have tk: "take (length nm) (drop p blk) = take (length nm) e" if "length nm < length e"
    using that by (simp add: d)
  show ?thesis
  proof (cases "env_name e")
    case None
    then show ?thesis using wc by (simp add: env_ehit_def)
  next
    case (Some n)
    then have n: "n = take (Suc i) e" "Suc i < length e" using del(4) by auto
    have ln: "length n = Suc i" unfolding n(1) using n(2) by simp
    have h: "env_ehit eq nm e = eq nm n" by (simp add: env_ehit_def Some)
    have w: "wcschr_at blk (p + 1) EQUALS = Some (p + length nm) \<longleftrightarrow> length nm = Suc i"
      using wc Some by auto
    show ?thesis
    proof (cases "length nm = Suc i")
      case True
      have at: "blk ! (p + length nm) = EQUALS" using del(3) Some True by simp
      have "take (length nm) (drop p blk) = n" using tk True n by simp
      then show ?thesis unfolding h w wl using True n(2) at by simp
    next
      case False
      then have "\<not> eq nm n" using eqlen [of nm n] ln by auto
      then show ?thesis unfolding h w using False by blast
    qed
  qed
qed

lemma env_query_scan_entries:
  assumes eqlen: "\<And>a b. eq a b \<Longrightarrow> length a = length b"
  shows "drop p blk = env_block es \<Longrightarrow> \<forall>e\<in>set es. env_entry_ok e \<Longrightarrow>
    env_query_scan eq nm blk p =
      (if \<exists>e\<in>set es. env_ehit eq nm e then Some (p + env_offset (takeWhile (\<lambda>x. \<not> env_ehit eq nm x) es)) else None)"
proof (induction es arbitrary: p)
  case Nil
  then show ?case using wcslen_at_end [of p blk] by (simp add: env_query_scan.simps)
next
  case (Cons e es)
  have ok: "env_entry_ok e" using Cons.prems(2) by simp
  have wl: "wcslen_at blk p = length e" by (rule wcslen_at_entry [OF Cons.prems(1) ok])
  have ne: "wcslen_at blk p \<noteq> 0" using wl ok by (auto simp: env_entry_ok_def)
  note c = env_query_condition [OF Cons.prems(1) ok eqlen, where nm = nm]
  note nxt = drop_next_entry [OF Cons.prems(1)]
  show ?case
  proof (cases "env_ehit eq nm e")
    case True
    then show ?thesis using c ne by (subst env_query_scan.simps) (simp add: Let_def)
  next
    case False
    have "env_query_scan eq nm blk p = env_query_scan eq nm blk (p + length e + 1)"
      using c ne wl False by (subst env_query_scan.simps) (simp add: Let_def)
    then show ?thesis using Cons.IH [OF nxt] Cons.prems(2) False by simp
  qed
qed

lemma set_scan_step:
  assumes "drop p blk = env_block (e # es)" and ok: "env_entry_ok e"
  shows "set_scan cmp nm blk p ib =
      (case env_name e of
         Some n \<Rightarrow> if cmp nm n = 0 then (Some (p, p + length e + 1), ib, p + length e + 1)
           else set_scan cmp nm blk (p + length e + 1) (if cmp nm n < 0 \<and> ib = None then Some p else ib)
       | None \<Rightarrow> set_scan cmp nm blk (p + length e + 1) ib)"
proof -
  have wl: "wcslen_at blk p = length e" by (rule wcslen_at_entry [OF assms])
  have ne: "wcslen_at blk p \<noteq> 0" using wl ok by (auto simp: env_entry_ok_def)
  define i where "i = length (takeWhile (\<lambda>c. c \<noteq> EQUALS) (tl e))"
  note del = delimiter_at_entry [OF assms(1) ok i_def]
  have dl: "p + 1 + length (takeWhile (\<lambda>c. c \<noteq> 0 \<and> c \<noteq> EQUALS) (drop (p + 1) blk)) = p + 1 + i"
    using del(1) by (simp add: i_def)
  show ?thesis
  proof (cases "env_name e")
    case None
    then have "\<not> (p + 1 + i < length blk \<and> blk ! (p + 1 + i) = EQUALS)" using del(3) by simp
    then show ?thesis
      by (subst set_scan.simps) (use ne wl in \<open>simp only: Let_def dl None if_False option.case\<close>)
  next
    case (Some n)
    then have n: "n = take (Suc i) e" "Suc i < length e" using del(4) by auto
    have at: "p + 1 + i < length blk \<and> blk ! (p + 1 + i) = EQUALS" using del(3) Some by simp
    have "Suc i < 32768" using n(2) ok by (simp add: env_entry_ok_def)
    note len2 = unat_of_nat_u16_double [OF this]
    have e2: "(p + 1 + i - p) * 2 = Suc i * 2" by simp
    have len: "unat (of_nat ((p + 1 + i - p) * 2) :: u16) div 2 = Suc i"
      unfolding e2 len2 by (rule nonzero_mult_div_cancel_right) simp
    have tk: "take (Suc i) (drop p blk) = n" using n by (simp add: assms(1))
    show ?thesis
      by (subst set_scan.simps) (use ne in \<open>simp only: Let_def dl wl at len tk Some if_False if_True option.case simp_thms\<close>)
  qed
qed

lemma set_scan_hit:
  "drop p blk = env_block es \<Longrightarrow> \<forall>e\<in>set es. env_entry_ok e \<Longrightarrow> \<exists>e\<in>set es. env_hit cmp nm e \<Longrightarrow>
    \<exists>ib'. set_scan cmp nm blk p ib =
       (Some (p + env_offset (takeWhile (\<lambda>x. \<not> env_hit cmp nm x) es),
              p + env_offset (takeWhile (\<lambda>x. \<not> env_hit cmp nm x) es) +
                length (hd (dropWhile (\<lambda>x. \<not> env_hit cmp nm x) es)) + 1), ib',
        p + env_offset (takeWhile (\<lambda>x. \<not> env_hit cmp nm x) es) +
          length (hd (dropWhile (\<lambda>x. \<not> env_hit cmp nm x) es)) + 1)"
proof (induction es arbitrary: p ib)
  case (Cons e es)
  have ok: "env_entry_ok e" "\<forall>e\<in>set es. env_entry_ok e" using Cons.prems(2) by simp_all
  note step = set_scan_step [OF Cons.prems(1) ok(1), of cmp nm ib]
  show ?case
  proof (cases "env_hit cmp nm e")
    case True
    then show ?thesis unfolding step by (auto simp: env_hit_def split: option.splits)
  next
    case False
    then obtain ib1 where s: "set_scan cmp nm blk p ib = set_scan cmp nm blk (p + length e + 1) ib1"
      using step by (auto simp: env_hit_def split: option.splits)
    have "\<exists>e\<in>set es. env_hit cmp nm e" using Cons.prems(3) False by simp
    from Cons.IH [OF drop_next_entry [OF Cons.prems(1)] ok(2) this, of ib1] show ?thesis
      unfolding s using False by (simp add: add.assoc)
  qed
qed simp

lemma set_scan_miss:
  "drop p blk = env_block es \<Longrightarrow> \<forall>e\<in>set es. env_entry_ok e \<Longrightarrow> \<forall>e\<in>set es. \<not> env_hit cmp nm e \<Longrightarrow>
    set_scan cmp nm blk p ib =
       (None,
        if ib \<noteq> None then ib else if \<exists>e\<in>set es. env_after cmp nm e
          then Some (p + env_offset (takeWhile (\<lambda>x. \<not> env_after cmp nm x) es)) else None,
        p + env_offset es)"
proof (induction es arbitrary: p ib)
  case Nil
  then show ?case using wcslen_at_end [of p blk] by (simp add: set_scan.simps)
next
  case (Cons e es)
  have ok: "env_entry_ok e" "\<forall>e\<in>set es. env_entry_ok e" using Cons.prems(2) by simp_all
  have h: "\<not> env_hit cmp nm e" "\<forall>e\<in>set es. \<not> env_hit cmp nm e" using Cons.prems(3) by simp_all
  have s: "set_scan cmp nm blk p ib =
      set_scan cmp nm blk (p + length e + 1) (if env_after cmp nm e \<and> ib = None then Some p else ib)"
    unfolding set_scan_step [OF Cons.prems(1) ok(1), of cmp nm ib]
    using h(1) by (auto simp: env_hit_def env_after_def split: option.splits)
  show ?case
    unfolding s Cons.IH [OF drop_next_entry [OF Cons.prems(1)] ok(2) h(2)]
    by (cases ib) (simp_all add: add.assoc)
qed

lemma set_scan_final_entries:
  "drop p blk = env_block es \<Longrightarrow> \<forall>e\<in>set es. env_entry_ok e \<Longrightarrow> set_scan_final blk p = p + env_offset es"
proof (induction es arbitrary: p)
  case Nil
  then show ?case using wcslen_at_end [of p blk] by (simp add: set_scan_final.simps)
next
  case (Cons e es)
  have ok: "env_entry_ok e" using Cons.prems(2) by simp
  have wl: "wcslen_at blk p = length e" by (rule wcslen_at_entry [OF Cons.prems(1) ok])
  have "wcslen_at blk p \<noteq> 0" using wl ok by (auto simp: env_entry_ok_def)
  then have "set_scan_final blk p = set_scan_final blk (p + length e + 1)"
    using wl by (subst set_scan_final.simps) simp
  then show ?case using Cons.IH [OF drop_next_entry [OF Cons.prems(1)]] Cons.prems(2) by simp
qed

section \<open>Setting a variable is the operation on the entries\<close>

definition us_ok :: "unicode_string \<Rightarrow> bool" where
  "us_ok s \<longleftrightarrow> even (unat (us_Length s)) \<and> unat (us_Length s) div 2 \<le> length (us_Buffer s)"

lemma us_ok_length: "us_ok s \<Longrightarrow> unat (us_Length s) = 2 * length (us_chars s)"
  by (auto simp: us_ok_def us_chars_def)

lemma mem_write_zeros:
  "length b \<le> n \<Longrightarrow> k = length a \<Longrightarrow>
    mem_write k b (a @ replicate n 0) = (a @ b) @ replicate (n - length b) 0"
  by (simp add: mem_write_def)

lemma update_zeros:
  "0 < n \<Longrightarrow> k = length a \<Longrightarrow> (a @ replicate n 0)[k := x] = (a @ [x]) @ replicate (n - 1) 0"
  by (cases n) simp_all

definition env_entry :: "wstr \<Rightarrow> unicode_string option \<Rightarrow> wstr" where
  "env_entry nm Value = (case Value of None \<Rightarrow> [] | Some V \<Rightarrow> nm @ EQUALS # us_chars V @ [0])"

lemma env_write_entry:
  assumes "length (env_entry nm Value) \<le> n" and "k = length a" and "\<forall>V. Value = Some V \<longrightarrow> us_ok V"
  shows "(case Value of
        None \<Rightarrow> (k, a @ replicate n 0)
      | Some V \<Rightarrow>
          let New = mem_write k nm (a @ replicate n 0); Out = k + length nm;
              New = New[Out := EQUALS]; Out = Out + 1;
              New = (if us_Length V \<noteq> 0 then mem_write Out (us_chars V) New else New);
              Out = (if us_Length V \<noteq> 0 then Out + length (us_chars V) else Out)
          in (Out + 1, New[Out := 0])) =
    (k + length (env_entry nm Value), (a @ env_entry nm Value) @ replicate (n - length (env_entry nm Value)) 0)"
proof (cases Value)
  case None
  then show ?thesis by (simp add: env_entry_def)
next
  case (Some V)
  define m where "m = length nm"
  define c where "c = us_chars V"
  have n: "m + length c + 2 \<le> n" using assms(1) by (simp add: Some env_entry_def m_def c_def)
  have w1: "mem_write k nm (a @ replicate n 0) = (a @ nm) @ replicate (n - m) 0"
    using n assms(2) by (subst mem_write_zeros) (simp_all add: m_def)
  have w2: "((a @ nm) @ replicate (n - m) 0)[k + m := EQUALS] = ((a @ nm) @ [EQUALS]) @ replicate (n - m - 1) 0"
    using n assms(2) by (intro update_zeros) (simp_all add: m_def)
  have w3: "(if us_Length V \<noteq> 0 then mem_write (k + m + 1) c (((a @ nm) @ [EQUALS]) @ replicate (n - m - 1) 0)
      else ((a @ nm) @ [EQUALS]) @ replicate (n - m - 1) 0) =
      (((a @ nm) @ [EQUALS]) @ c) @ replicate (n - m - 1 - length c) 0"
  proof (cases "us_Length V = 0")
    case True
    then show ?thesis by (simp add: c_def us_chars_def)
  next
    case False
    then show ?thesis using n assms(2) by (subst mem_write_zeros) (simp_all add: m_def)
  qed
  have o3: "(if us_Length V \<noteq> 0 then k + m + 1 + length c else k + m + 1) = k + m + 1 + length c"
    by (simp add: c_def us_chars_def)
  have w4: "((((a @ nm) @ [EQUALS]) @ c) @ replicate (n - m - 1 - length c) 0)[k + m + 1 + length c := 0] =
      ((((a @ nm) @ [EQUALS]) @ c) @ [0]) @ replicate (n - m - 1 - length c - 1) 0"
    using n assms(2) by (intro update_zeros) (simp_all add: m_def)
  show ?thesis
    unfolding Some option.case Let_def m_def [symmetric] c_def [symmetric] w1 w2 w3 o3 w4
    by (simp add: env_entry_def c_def m_def diff_diff_eq)
qed

lemma set_block_build:
  assumes scan: "set_scan cmp (us_chars Name) blk 0 None = (Found, Ins, Scan)"
    and act: "\<not> (Value = None \<and> Found = None)"
    and edit: "(case Found of Some r \<Rightarrow> r | None \<Rightarrow> (case Ins of Some i \<Rightarrow> (i, i)
       | None \<Rightarrow> (set_scan_final blk Scan, set_scan_final blk Scan))) = (ES, EE)"
    and fin: "length blk = set_scan_final blk Scan + 1" and le: "ES \<le> EE" "EE < length blk"
    and name: "us_ok Name" and val: "\<forall>V. Value = Some V \<longrightarrow> us_ok V"
  shows "set_environment_block cmp Name Value (Some blk) =
    (let New = take ES blk @ env_entry (us_chars Name) Value @ drop EE blk in Some (2 * length New, New))"
proof -
  define nm where "nm = us_chars Name"
  define ent where "ent = env_entry nm Value"
  define F where "F = set_scan_final blk Scan"
  have lb: "length blk = F + 1" using fin by (simp add: F_def)
  have same: "Found = None \<Longrightarrow> ES = EE" using edit by (auto split: option.splits)
  have size: "(case Value of None \<Rightarrow> 0 | Some V \<Rightarrow> unat (us_Length Name) + 2 + unat (us_Length V) + 2) = 2 * length ent"
    using us_ok_length [OF name] val
    by (cases Value) (auto simp: ent_def env_entry_def nm_def us_ok_length)
  define n where "n = ES + length ent + (length blk - EE)"
  have ns: "max ((F + 1) * 2 - (if Found \<noteq> None then (EE - ES) * 2 else 0) + 2 * length ent) 2 = 2 * n"
    using same le lb by (cases "Found = None") (auto simp: n_def)
  have w1: "(if ES > 0 then (ES, mem_write 0 (take ES blk) (replicate n 0)) else (0, replicate n 0)) =
      (ES, take ES blk @ replicate (n - ES) (0 :: u16))"
    using mem_write_zeros [of "take ES blk" n 0 "[]"] le by (auto simp: n_def)
  have w2: "(case Value of
        None \<Rightarrow> (ES, take ES blk @ replicate (n - ES) 0)
      | Some V \<Rightarrow>
          let New = mem_write ES nm (take ES blk @ replicate (n - ES) 0); Out = ES + length nm;
              New = New[Out := EQUALS]; Out = Out + 1;
              New = (if us_Length V \<noteq> 0 then mem_write Out (us_chars V) New else New);
              Out = (if us_Length V \<noteq> 0 then Out + length (us_chars V) else Out)
          in (Out + 1, New[Out := 0])) =
      (ES + length ent, (take ES blk @ ent) @ replicate (n - ES - length ent) 0)"
    unfolding ent_def
    by (rule env_write_entry) (use le val in \<open>auto simp: n_def ent_def\<close>)
  have suf: "take (F - EE + 1) (drop EE blk) = drop EE blk" using lb le by simp
  have w3: "mem_write (ES + length ent) (drop EE blk) ((take ES blk @ ent) @ replicate (n - ES - length ent) 0) =
      take ES blk @ ent @ drop EE blk"
    using le by (subst mem_write_zeros) (simp_all add: n_def)
  have ln: "length (take ES blk @ ent @ drop EE blk) = n" using le by (simp add: n_def)
  have half: "2 * n div 2 = n" by simp
  show ?thesis
    unfolding set_environment_block_def
    apply (simp only: Let_def option.case scan [folded nm_def] prod.case act if_False edit [folded F_def] F_def [symmetric] nm_def [symmetric]
        size option.distinct not_False_eq_True if_True simp_thms ns half)
    apply (simp only: w1 w2 [unfolded Let_def] prod.case suf w3 ent_def [symmetric])
    using ln by simp
qed

lemma env_entry_new:
  "env_entry nm Value = concat (map (\<lambda>e. e @ [0])
     (case map_option us_chars Value of None \<Rightarrow> [] | Some w \<Rightarrow> [nm @ EQUALS # w]))"
  by (cases Value) (simp_all add: env_entry_def)

lemma env_block_splice:
  assumes "es = pre @ mid @ post" and "a = env_offset pre" and "b = env_offset pre + env_offset mid"
  shows "take a (env_block es) @ concat (map (\<lambda>e. e @ [0]) new) @ drop b (env_block es) = env_block (pre @ new @ post)"
proof -
  have "drop b (env_block es) = env_block post"
    using drop_env_offset [of "pre @ mid" post] assms by simp
  moreover have "take a (env_block es) = concat (map (\<lambda>e. e @ [0]) pre)"
    using take_env_offset [of pre "mid @ post"] assms by simp
  ultimately show ?thesis by (simp add: env_block_append)
qed

lemma set_block_entries:
  assumes ok: "\<forall>e\<in>set es. env_entry_ok e" and name: "us_ok Name" and val: "\<forall>V. Value = Some V \<longrightarrow> us_ok V"
  shows "set_environment_block cmp Name Value (Some (env_block es)) =
    (if Value = None \<and> (\<forall>e\<in>set es. \<not> env_hit cmp (us_chars Name) e) then None
     else let New = env_block (env_set cmp (us_chars Name) (map_option us_chars Value) es)
       in Some (2 * length New, New))"
proof (cases "\<exists>e\<in>set es. env_hit cmp (us_chars Name) e")
  case True
  let ?hit = "env_hit cmp (us_chars Name)"
  define pre where "pre = takeWhile (\<lambda>x. \<not> ?hit x) es"
  define post where "post = tl (dropWhile (\<lambda>x. \<not> ?hit x) es)"
  define e where "e = hd (dropWhile (\<lambda>x. \<not> ?hit x) es)"
  have "dropWhile (\<lambda>x. \<not> ?hit x) es \<noteq> []" using True by (simp add: dropWhile_eq_Nil_conv)
  then have es: "es = pre @ [e] @ post"
    using takeWhile_dropWhile_id [of "\<lambda>x. \<not> ?hit x" es] by (simp add: pre_def post_def e_def)
  obtain Ins where scan: "set_scan cmp (us_chars Name) (env_block es) 0 None =
      (Some (env_offset pre, env_offset pre + length e + 1), Ins, env_offset pre + length e + 1)"
    using set_scan_hit [of 0 "env_block es" es cmp "us_chars Name" None] ok True
    by (auto simp: pre_def e_def)
  have drp: "drop (env_offset pre + length e + 1) (env_block es) = env_block post"
    using drop_env_offset [of "pre @ [e]" post] by (simp add: es)
  have fin: "length (env_block es) = set_scan_final (env_block es) (env_offset pre + length e + 1) + 1"
    using set_scan_final_entries [OF drp] ok by (simp add: length_env_block) (simp add: es)
  have "set_environment_block cmp Name Value (Some (env_block es)) =
      (let New = take (env_offset pre) (env_block es) @ env_entry (us_chars Name) Value @
         drop (env_offset pre + length e + 1) (env_block es) in Some (2 * length New, New))"
    by (rule set_block_build [OF scan _ _ fin _ _ name val]) (simp_all add: length_env_block es)
  moreover have "take (env_offset pre) (env_block es) @ env_entry (us_chars Name) Value @
      drop (env_offset pre + length e + 1) (env_block es) =
      env_block (env_set cmp (us_chars Name) (map_option us_chars Value) es)"
    unfolding env_entry_new
    by (subst env_block_splice [OF es refl]) (use True in \<open>simp_all add: env_set_def Let_def pre_def post_def\<close>)
  ultimately show ?thesis using True by (simp only: Let_def) auto
next
  case False
  let ?aft = "env_after cmp (us_chars Name)"
  define pre where "pre = takeWhile (\<lambda>x. \<not> ?aft x) es"
  define post where "post = dropWhile (\<lambda>x. \<not> ?aft x) es"
  have es: "es = pre @ [] @ post"
    using takeWhile_dropWhile_id [of "\<lambda>x. \<not> ?aft x" es] by (simp add: pre_def post_def)
  have scan: "set_scan cmp (us_chars Name) (env_block es) 0 None =
      (None, if \<exists>e\<in>set es. ?aft e then Some (env_offset pre) else None, env_offset es)"
    using set_scan_miss [of 0 "env_block es" es cmp "us_chars Name" None] ok False by (auto simp: pre_def)
  show ?thesis
  proof (cases "Value = None")
    case True
    then show ?thesis using False scan
      by (auto simp: set_environment_block_def)
  next
    case v: False
    have fe: "set_scan_final (env_block es) (env_offset es) = env_offset es"
      using set_scan_final_entries [of "env_offset es" "env_block es" "[]"] drop_env_offset [of es "[]"] by simp
    have all: "pre = es" if "\<not> (\<exists>e\<in>set es. ?aft e)" using that by (auto simp: pre_def takeWhile_eq_all_conv)
    have "set_environment_block cmp Name Value (Some (env_block es)) =
      (let New = take (env_offset pre) (env_block es) @ env_entry (us_chars Name) Value @
         drop (env_offset pre) (env_block es) in Some (2 * length New, New))"
    proof (rule set_block_build [OF scan _ _ _ _ _ name val])
      show "env_offset pre < length (env_block es)"
        using arg_cong [OF es, of env_offset] by (simp add: length_env_block)
      show "(case None of Some r \<Rightarrow> r | None \<Rightarrow>
          (case if \<exists>e\<in>set es. ?aft e then Some (env_offset pre) else None of Some i \<Rightarrow> (i, i)
           | None \<Rightarrow> (set_scan_final (env_block es) (env_offset es), set_scan_final (env_block es) (env_offset es)))) =
          (env_offset pre, env_offset pre)"
        using fe all by (cases "\<exists>e\<in>set es. ?aft e") simp_all
      show "length (env_block es) = set_scan_final (env_block es) (env_offset es) + 1"
        by (simp add: fe length_env_block)
    qed (simp_all add: v)
    moreover have "take (env_offset pre) (env_block es) @ env_entry (us_chars Name) Value @
        drop (env_offset pre) (env_block es) =
        env_block (env_set cmp (us_chars Name) (map_option us_chars Value) es)"
      unfolding env_entry_new
      by (subst env_block_splice [OF es refl])
        (use False v in \<open>simp_all add: env_set_def Let_def pre_def post_def split: option.splits\<close>)
    ultimately show ?thesis using v by (simp only: Let_def) auto
  qed
qed

section \<open>The order of the entries\<close>

lemma env_cmp_eq: "env_compare_ok eq cmp \<Longrightarrow> eq a b \<longleftrightarrow> cmp a b = 0"
  by (simp add: env_compare_ok_def)

lemma env_cmp_refl: "env_compare_ok eq cmp \<Longrightarrow> cmp a a = 0"
  by (simp add: env_compare_ok_def)

lemma env_cmp_swap:
  assumes "env_compare_ok eq cmp"
  shows "cmp a b < 0 \<longleftrightarrow> 0 < cmp b a" and "cmp a b = 0 \<longleftrightarrow> cmp b a = 0"
proof -
  have s: "cmp a b < 0 \<longleftrightarrow> 0 < cmp b a" "cmp b a < 0 \<longleftrightarrow> 0 < cmp a b"
    using assms by (simp_all add: env_compare_ok_def)
  show "cmp a b < 0 \<longleftrightarrow> 0 < cmp b a" by (rule s(1))
  show "cmp a b = 0 \<longleftrightarrow> cmp b a = 0" using s by linarith
qed

lemma env_cmp_trans:
  assumes "env_compare_ok eq cmp"
  shows "cmp a b \<le> 0 \<Longrightarrow> cmp b c \<le> 0 \<Longrightarrow> cmp a c \<le> 0"
    and "cmp a b < 0 \<Longrightarrow> cmp b c \<le> 0 \<Longrightarrow> cmp a c < 0"
    and "cmp a b \<le> 0 \<Longrightarrow> cmp b c < 0 \<Longrightarrow> cmp a c < 0"
    and "cmp a b = 0 \<Longrightarrow> cmp b c = 0 \<Longrightarrow> cmp a c = 0"
proof -
  have le: "cmp a b \<le> 0 \<Longrightarrow> cmp b c \<le> 0 \<Longrightarrow> cmp a c \<le> 0" for a b c
    using assms unfolding env_compare_ok_def by blast
  note swap = env_cmp_swap [OF assms]
  show "cmp a b \<le> 0 \<Longrightarrow> cmp b c \<le> 0 \<Longrightarrow> cmp a c \<le> 0" by (rule le)
  show "cmp a c < 0" if "cmp a b < 0" "cmp b c \<le> 0"
  proof -
    have "\<not> cmp c a \<le> 0" using le [of b c a] that swap(1) [of a b] by auto
    then show ?thesis using swap(1) [of a c] by simp
  qed
  show "cmp a c < 0" if "cmp a b \<le> 0" "cmp b c < 0"
  proof -
    have "\<not> cmp c a \<le> 0" using le [of c a b] that swap(1) [of b c] by auto
    then show ?thesis using swap(1) [of a c] by simp
  qed
  show "cmp a c = 0" if "cmp a b = 0" "cmp b c = 0"
  proof -
    have "cmp a c \<le> 0" using le [of a b c] that by simp
    moreover have "cmp c a \<le> 0"
      using le [of c b a] that swap(2) [of a b] swap(2) [of b c] by simp
    ultimately show ?thesis using swap(1) [of c a] swap(1) [of a c] by linarith
  qed
qed

definition env_before :: "(wstr \<Rightarrow> wstr \<Rightarrow> int) \<Rightarrow> wstr \<Rightarrow> wstr \<Rightarrow> bool" where
  "env_before cmp e f \<longleftrightarrow> (case (env_name e, env_name f) of (Some n, Some m) \<Rightarrow> cmp n m < 0 | _ \<Rightarrow> False)"

text \<open>A block as the two routines keep it: entries with a name, in strictly ascending order.\<close>

definition env_sorted :: "(wstr \<Rightarrow> wstr \<Rightarrow> int) \<Rightarrow> wstr list \<Rightarrow> bool" where
  "env_sorted cmp es \<longleftrightarrow> sorted_wrt (env_before cmp) es \<and> (\<forall>e\<in>set es. env_entry_ok e \<and> env_name e \<noteq> None)"

lemma env_before_iff:
  "env_name e = Some n \<Longrightarrow> env_name f = Some m \<Longrightarrow> env_before cmp e f \<longleftrightarrow> cmp n m < 0"
  by (simp add: env_before_def)

lemma env_before_trans:
  "env_compare_ok eq cmp \<Longrightarrow> env_before cmp e f \<Longrightarrow> env_before cmp f g \<Longrightarrow> env_before cmp e g"
  by (auto simp: env_before_def split: option.splits dest: env_cmp_trans(2) [OF _ _ less_imp_le])

definition env_name_ok :: "wstr \<Rightarrow> bool" where
  "env_name_ok nm \<longleftrightarrow> nm \<noteq> [] \<and> 0 \<notin> set nm \<and> EQUALS \<notin> set (tl nm)"

lemma env_name_new: "env_name_ok nm \<Longrightarrow> env_name (nm @ EQUALS # w) = Some nm"
proof -
  assume ok: "env_name_ok nm"
  then obtain c cs where nm: "nm = c # cs" "EQUALS \<notin> set cs" by (cases nm) (auto simp: env_name_ok_def)
  have "takeWhile (\<lambda>c. c \<noteq> EQUALS) (cs @ EQUALS # w) = cs"
    using nm(2) by (induction cs) auto
  then show ?thesis by (simp add: env_name_def nm(1))
qed

lemma env_value_new: "env_name_ok nm \<Longrightarrow> env_value (nm @ EQUALS # w) = w"
  by (simp add: env_value_def env_name_new)

lemma env_hit_name: "env_hit cmp nm e \<longleftrightarrow> (\<exists>n. env_name e = Some n \<and> cmp nm n = 0)"
  by (simp add: env_hit_def split: option.splits)

lemma env_after_name: "env_after cmp nm e \<longleftrightarrow> (\<exists>n. env_name e = Some n \<and> cmp nm n < 0)"
  by (simp add: env_after_def split: option.splits)

lemma env_ehit_hit: "env_compare_ok eq cmp \<Longrightarrow> env_ehit eq nm e = env_hit cmp nm e"
  by (simp add: env_ehit_def env_hit_def env_cmp_eq split: option.splits)

text \<open>The position of a name in a sorted block.\<close>

lemma env_split_hit:
  assumes "\<exists>e\<in>set es. P e"
  shows "\<exists>pre e post. es = pre @ e # post \<and> P e \<and> (\<forall>x\<in>set pre. \<not> P x) \<and>
    takeWhile (\<lambda>x. \<not> P x) es = pre \<and> dropWhile (\<lambda>x. \<not> P x) es = e # post"
proof -
  have "dropWhile (\<lambda>x. \<not> P x) es \<noteq> []" using assms by (simp add: dropWhile_eq_Nil_conv)
  then obtain e post where d: "dropWhile (\<lambda>x. \<not> P x) es = e # post" by (cases "dropWhile (\<lambda>x. \<not> P x) es") auto
  have "\<not> \<not> P e" using hd_dropWhile [of "\<lambda>x. \<not> P x" es] d by simp
  then show ?thesis
    using d takeWhile_dropWhile_id [of "\<lambda>x. \<not> P x" es] set_takeWhileD [of _ "\<lambda>x. \<not> P x" es]
    by (intro exI [of _ "takeWhile (\<lambda>x. \<not> P x) es"] exI [of _ e] exI [of _ post]) auto
qed

lemma env_sorted_parts:
  assumes "env_sorted cmp (pre @ mid @ post)"
  shows "env_sorted cmp (pre @ post)"
  using assms by (auto simp: env_sorted_def sorted_wrt_append)

lemma env_sorted_insert:
  assumes "env_sorted cmp (pre @ post)" and "env_entry_ok e" and "env_name e = Some n"
    and "\<And>x m. x \<in> set pre \<Longrightarrow> env_name x = Some m \<Longrightarrow> cmp m n < 0"
    and "\<And>x m. x \<in> set post \<Longrightarrow> env_name x = Some m \<Longrightarrow> cmp n m < 0"
  shows "env_sorted cmp (pre @ e # post)"
proof -
  have "env_before cmp x e" if x: "x \<in> set pre" for x
  proof -
    obtain m where "env_name x = Some m" using assms(1) x by (auto simp: env_sorted_def)
    then show ?thesis using assms(3,4) x by (simp add: env_before_iff)
  qed
  moreover have "env_before cmp e x" if x: "x \<in> set post" for x
  proof -
    obtain m where "env_name x = Some m" using assms(1) x by (auto simp: env_sorted_def)
    then show ?thesis using assms(3,5) x by (simp add: env_before_iff)
  qed
  ultimately show ?thesis using assms(1-3) by (auto simp: env_sorted_def sorted_wrt_append)
qed

text \<open>Around an entry of the sorted list every other name is on its side.\<close>

lemma env_sorted_around:
  assumes c: "env_compare_ok eq cmp" and s: "env_sorted cmp (pre @ e # post)"
    and n: "env_name e = Some n"
  shows "x \<in> set pre \<Longrightarrow> env_name x = Some m \<Longrightarrow> cmp m n < 0"
    and "x \<in> set post \<Longrightarrow> env_name x = Some m \<Longrightarrow> cmp n m < 0"
  using s n by (auto simp: env_sorted_def sorted_wrt_append env_before_iff [symmetric])

text \<open>Setting keeps the order, and what can be read afterwards.\<close>

lemma env_set_sorted:
  assumes c: "env_compare_ok eq cmp" and s: "env_sorted cmp es" and nm: "env_name_ok nm"
    and new: "\<And>w. v = Some w \<Longrightarrow> env_entry_ok (nm @ EQUALS # w)"
  shows "env_sorted cmp (env_set cmp nm v es)"
proof (cases "\<exists>e\<in>set es. env_hit cmp nm e")
  case True
  from env_split_hit [OF this] obtain pre e post where es: "es = pre @ e # post" "env_hit cmp nm e"
      "takeWhile (\<lambda>x. \<not> env_hit cmp nm x) es = pre" "dropWhile (\<lambda>x. \<not> env_hit cmp nm x) es = e # post" by blast
  obtain n where n: "env_name e = Some n" "cmp nm n = 0" using es(2) by (auto simp: env_hit_name)
  have set: "env_set cmp nm v es = pre @ (case v of None \<Rightarrow> [] | Some w \<Rightarrow> [nm @ EQUALS # w]) @ post"
    using True es(3,4) by (simp add: env_set_def)
  have pp: "env_sorted cmp (pre @ post)" using env_sorted_parts [of cmp pre "[e]" post] s es(1) by simp
  show ?thesis
  proof (cases v)
    case (Some w)
    have nn: "cmp n nm = 0" using env_cmp_swap(2) [OF c] n(2) by simp
    have "env_sorted cmp (pre @ (nm @ EQUALS # w) # post)"
    proof (rule env_sorted_insert [OF pp new [OF Some] env_name_new [OF nm]])
      note around = env_sorted_around [OF c s [unfolded es(1)] n(1)]
      show "cmp m nm < 0" if "x \<in> set pre" "env_name x = Some m" for x m
        using env_cmp_trans(2) [OF c around(1) [OF that]] nn by simp
      show "cmp nm m < 0" if "x \<in> set post" "env_name x = Some m" for x m
        using env_cmp_trans(3) [OF c _ around(2) [OF that]] n(2) by simp
    qed
    then show ?thesis unfolding set using Some by simp
  next
    case None
    then show ?thesis unfolding set using pp by simp
  qed
next
  case miss: False
  show ?thesis
  proof (cases v)
    case None
    then show ?thesis using miss s by (simp add: env_set_def)
  next
    case (Some w)
    let ?pre = "takeWhile (\<lambda>x. \<not> env_after cmp nm x) es" and ?post = "dropWhile (\<lambda>x. \<not> env_after cmp nm x) es"
    have set: "env_set cmp nm v es = ?pre @ (nm @ EQUALS # w) # ?post"
      using miss Some by (simp add: env_set_def)
    have "env_sorted cmp (?pre @ (nm @ EQUALS # w) # ?post)"
    proof (rule env_sorted_insert [OF _ new [OF Some] env_name_new [OF nm]])
      show "env_sorted cmp (?pre @ ?post)" using s by simp
      show "cmp m nm < 0" if x: "x \<in> set ?pre" "env_name x = Some m" for x m
      proof -
        have "\<not> env_after cmp nm x" "x \<in> set es" using x(1) set_takeWhileD by fastforce+
        then have "\<not> cmp nm m < 0" "cmp nm m \<noteq> 0" using miss x(2) by (auto simp: env_after_name env_hit_name)
        then show ?thesis using env_cmp_swap(1) [OF c, of m nm] by simp
      qed
      show "cmp nm m < 0" if x: "x \<in> set ?post" "env_name x = Some m" for x m
      proof -
        obtain f fs where d: "?post = f # fs" using x(1) by (cases ?post) auto
        have "\<not> \<not> env_after cmp nm f" using hd_dropWhile [of "\<lambda>x. \<not> env_after cmp nm x" es] d by simp
        then obtain k where k: "env_name f = Some k" "cmp nm k < 0" by (auto simp: env_after_name)
        have sd: "env_sorted cmp (?pre @ f # fs)" using s by (simp flip: d)
        show ?thesis
        proof (cases "x = f")
          case True
          then show ?thesis using k x(2) by simp
        next
          case False
          then have "cmp k m < 0" using env_sorted_around(2) [OF c sd k(1)] x d by auto
          then show ?thesis using env_cmp_trans(2) [OF c k(2)] by simp
        qed
      qed
    qed
    then show ?thesis unfolding set .
  qed
qed

lemma env_get_ehit: "env_get eq nm es = map_option env_value (List.find (env_ehit eq nm) es)"
  by (simp add: env_get_def env_ehit_def [abs_def])

lemma find_append_last: "List.find P (xs @ ys) = (case List.find P xs of None \<Rightarrow> List.find P ys | Some x \<Rightarrow> Some x)"
  by (induction xs) auto

text \<open>In a sorted list a name is looked up the same way wherever the search starts.\<close>

lemma env_hit_unique:
  assumes c: "env_compare_ok eq cmp" and s: "env_sorted cmp (pre @ e # post)" and h: "env_hit cmp nm e"
    and x: "x \<in> set pre \<union> set post"
  shows "\<not> env_hit cmp nm x"
proof
  assume "env_hit cmp nm x"
  then obtain m where m: "env_name x = Some m" "cmp nm m = 0" by (auto simp: env_hit_name)
  obtain n where n: "env_name e = Some n" "cmp nm n = 0" using h by (auto simp: env_hit_name)
  have "cmp m n < 0 \<or> cmp n m < 0" using env_sorted_around [OF c s n(1)] x m(1) by blast
  moreover have "cmp m n = 0" "cmp n m = 0"
    using env_cmp_trans(4) [OF c] env_cmp_swap(2) [OF c] m(2) n(2) by blast+
  ultimately show False by simp
qed

lemma env_get_set:
  assumes c: "env_compare_ok eq cmp" and s: "env_sorted cmp es" and nm: "env_name_ok nm"
  shows "env_get eq k (env_set cmp nm v es) = (if eq k nm then v else env_get eq k es)"
proof -
  have h: "env_ehit eq k = env_hit cmp k" for k using env_ehit_hit [OF c] by blast
  have new: "env_hit cmp k (nm @ EQUALS # w) = eq k nm" for w
    by (simp add: env_hit_def env_name_new [OF nm] env_cmp_eq [OF c])
  have same: "env_hit cmp k x = env_hit cmp nm x" if "eq k nm" for x
    using that env_cmp_trans(4) [OF c] env_cmp_swap(2) [OF c]
    by (simp add: env_hit_name env_cmp_eq [OF c]) blast
  have other: "\<not> env_hit cmp k x" if "\<not> eq k nm" "env_hit cmp nm x" for x
    using that env_cmp_trans(4) [OF c] env_cmp_swap(2) [OF c]
    by (simp add: env_hit_name env_cmp_eq [OF c]) (metis option.inject)
  show ?thesis
  proof (cases "\<exists>e\<in>set es. env_hit cmp nm e")
    case True
    from env_split_hit [OF this] obtain pre e post where es: "es = pre @ e # post" "env_hit cmp nm e"
        "\<forall>x\<in>set pre. \<not> env_hit cmp nm x"
        "takeWhile (\<lambda>x. \<not> env_hit cmp nm x) es = pre" "dropWhile (\<lambda>x. \<not> env_hit cmp nm x) es = e # post" by blast
    have set: "env_set cmp nm v es = pre @ (case v of None \<Rightarrow> [] | Some w \<Rightarrow> [nm @ EQUALS # w]) @ post"
      using True es(4,5) by (simp add: env_set_def)
    have uniq: "\<not> env_hit cmp nm x" if "x \<in> set pre \<union> set post" for x
      using env_hit_unique [OF c s [unfolded es(1)] es(2) that] .
    show ?thesis
    proof (cases "eq k nm")
      case True
      have "List.find (env_hit cmp k) pre = None" "List.find (env_hit cmp k) post = None"
        using uniq same [OF True] by (auto simp: find_None_iff_all)
      then show ?thesis unfolding set using True new
        by (cases v) (simp_all add: env_get_ehit h find_append_last env_value_new [OF nm])
    next
      case False
      then show ?thesis unfolding set using other [OF False es(2)] new
        by (cases v) (simp_all add: es(1) env_get_ehit h find_append_last split: option.split)
    qed
  next
    case miss: False
    show ?thesis
    proof (cases v)
      case None
      have "List.find (env_hit cmp k) es = None" if "eq k nm"
        using miss same [OF that] by (auto simp: find_None_iff_all)
      then show ?thesis using None miss by (simp add: env_set_def env_get_ehit h)
    next
      case (Some w)
      define pre where "pre = takeWhile (\<lambda>x. \<not> env_after cmp nm x) es"
      define post where "post = dropWhile (\<lambda>x. \<not> env_after cmp nm x) es"
      have es: "es = pre @ post" by (simp add: pre_def post_def)
      have set: "env_set cmp nm v es = pre @ (nm @ EQUALS # w) # post"
        using miss Some by (simp add: env_set_def pre_def post_def)
      show ?thesis
      proof (cases "eq k nm")
        case True
        have "List.find (env_hit cmp k) pre = None"
          using miss same [OF True] es by (auto simp: find_None_iff_all)
        then show ?thesis unfolding set using True new Some
          by (simp add: env_get_ehit h find_append_last env_value_new [OF nm])
      next
        case False
        have "List.find (env_hit cmp k) es = List.find (env_hit cmp k) (pre @ post)" by (simp flip: es)
        then show ?thesis unfolding set using False new
          by (simp add: env_get_ehit h find_append_last split: option.split)
      qed
    qed
  qed
qed

section \<open>The environment of the process\<close>

definition env_cache_ok :: "wstr list \<Rightarrow> environ \<Rightarrow> bool" where
  "env_cache_ok es s \<longleftrightarrow> (en_CacheValid s \<longrightarrow>
     (\<exists>pre e post n. es = pre @ e # post \<and> env_name e = Some n \<and>
        en_CacheName s = (en_Environment s, env_offset pre, of_nat (length n * 2)) \<and>
        en_CacheValue s = (en_Environment s, env_offset pre + length n + 1, of_nat (length (env_value e) * 2))))"

definition env_ok :: "(wstr \<Rightarrow> wstr \<Rightarrow> int) \<Rightarrow> wstr list \<Rightarrow> environ \<Rightarrow> bool" where
  "env_ok cmp es s \<longleftrightarrow> env_sorted cmp es \<and> env_cache_ok es s \<and>
     (if en_Environment s = NULL then es = [] \<and> \<not> en_CacheValid s
      else en_Blocks s (en_Environment s) = Some (env_block es))"

lemma env_name_split:
  "env_name e = Some n \<Longrightarrow> e = n @ EQUALS # env_value e"
proof -
  assume n: "env_name e = Some n"
  define i where "i = length (takeWhile (\<lambda>c. c \<noteq> EQUALS) (tl e))"
  have i: "i < length (tl e)" "n = take (Suc i) e"
    using n by (auto simp: env_name_def Let_def i_def split: if_splits)
  have "e ! Suc i = EQUALS"
    using nth_length_takeWhile [of "\<lambda>c. c \<noteq> EQUALS" "tl e"] i by (simp add: i_def nth_tl)
  moreover have "Suc i < length e" using i by simp
  ultimately have "e = take (Suc i) e @ EQUALS # drop (Suc (Suc i)) e"
    using id_take_nth_drop [of "Suc i" e] by simp
  moreover have "env_value e = drop (Suc (Suc i)) e" using n i by (simp add: env_value_def)
  ultimately show ?thesis using i(2) by simp
qed

lemma env_value_length: "env_entry_ok e \<Longrightarrow> length (env_value e) < 32768"
  by (cases "env_name e") (auto simp: env_value_def env_entry_ok_def)

lemma env_pointer_entry:
  assumes b: "mem a = Some (env_block (pre @ e # post))" and n: "env_name e = Some n" and ok: "env_entry_ok e"
  shows "env_pointer_chars mem (a, env_offset pre, of_nat (length n * 2)) = Some n"
    and "env_pointer_chars mem (a, env_offset pre + length n + 1, of_nat (length (env_value e) * 2)) = Some (env_value e)"
    and "take (length (env_value e)) (drop (env_offset pre + length n + 1) (env_block (pre @ e # post))) = env_value e"
proof -
  have e: "e = n @ EQUALS # env_value e" by (rule env_name_split [OF n])
  have d: "drop (env_offset pre) (env_block (pre @ e # post)) = e @ 0 # env_block post"
    using drop_env_offset [of pre "e # post"] by simp
  have d2: "drop (env_offset pre + length n + 1) (env_block (pre @ e # post)) = env_value e @ 0 # env_block post"
  proof -
    have o: "env_offset pre + length n + 1 = length n + 1 + env_offset pre" by simp
    have "drop (length n + 1) e = env_value e" "length n + 1 \<le> length e"
      using n arg_cong [OF e, of length] by (simp_all add: env_value_def)
    then show ?thesis unfolding o drop_drop [symmetric] d by (simp del: drop_drop)
  qed
  have l: "length n < 32768" using arg_cong [OF e, of length] ok by (simp add: env_entry_ok_def)
  have t: "take (length n) (e @ 0 # env_block post) = n" by (subst e) simp
  show "env_pointer_chars mem (a, env_offset pre, of_nat (length n * 2)) = Some n"
    by (simp only: env_pointer_chars_def prod.case b option.map unat_of_nat_u16_double [OF l] d
        nonzero_mult_div_cancel_right [OF zero_neq_numeral [symmetric]] t)
  show t3: "take (length (env_value e)) (drop (env_offset pre + length n + 1) (env_block (pre @ e # post))) = env_value e"
    unfolding d2 by simp
  show "env_pointer_chars mem (a, env_offset pre + length n + 1, of_nat (length (env_value e) * 2)) = Some (env_value e)"
    by (simp only: env_pointer_chars_def prod.case b option.map
        unat_of_nat_u16_double [OF env_value_length [OF ok]] t3
        nonzero_mult_div_cancel_right [OF zero_neq_numeral [symmetric]])
qed

lemma env_store_value_spec:
  assumes u: "unat L = length v * 2" and "take (length v) chars = v"
    and "unat (us_MaximumLength Value) div 2 \<le> length (us_Buffer Value)"
  shows "\<exists>V. env_store_value L chars Value = (2 * length v \<le> unat (us_MaximumLength Value), V) \<and>
    us_Length V = L \<and> (2 * length v \<le> unat (us_MaximumLength Value) \<longrightarrow> us_chars V = v)"
proof -
  have h: "unat L div 2 = length v" unfolding u by simp
  have c: "L \<le> us_MaximumLength Value \<longleftrightarrow> 2 * length v \<le> unat (us_MaximumLength Value)"
    unfolding word_le_nat_alt u by (simp add: mult.commute)
  show ?thesis
  proof (cases "2 * length v \<le> unat (us_MaximumLength Value)")
    case True
    then have l: "length v \<le> length (us_Buffer Value)" using assms(3) by linarith
    define m where "m = mem_write 0 v (us_Buffer Value)"
    have m: "take (length v) m = v" using l by (simp add: m_def mem_write_def)
    then show ?thesis
      using True c h by (auto simp: env_store_value_def Let_def assms(2) us_chars_def simp flip: m_def)
  next
    case False
    then show ?thesis using c by (simp add: env_store_value_def)
  qed
qed

lemma env_get_at:
  assumes "env_compare_ok eq cmp" and "env_sorted cmp (pre @ e # post)" and "env_ehit eq nm e"
  shows "env_get eq nm (pre @ e # post) = Some (env_value e)"
proof -
  have h: "env_ehit eq nm = env_hit cmp nm" using env_ehit_hit [OF assms(1)] by blast
  have "List.find (env_hit cmp nm) pre = None"
    using env_hit_unique [OF assms(1,2)] assms(3) by (auto simp: h find_None_iff_all)
  then show ?thesis using assms(3) by (simp add: env_get_ehit h find_append_last)
qed

lemma env_get_none: "\<not> (\<exists>e\<in>set es. env_ehit eq nm e) \<Longrightarrow> env_get eq nm es = None"
  by (auto simp: env_get_ehit find_None_iff_all)

text \<open>What a read of the environment reports, by the contents of the block.\<close>

definition env_read_result ::
  "(wstr \<Rightarrow> wstr \<Rightarrow> bool) \<Rightarrow> ntstatus \<times> unicode_string \<Rightarrow> wstr list \<Rightarrow> wstr \<Rightarrow> unicode_string \<Rightarrow>
     ntstatus \<times> unicode_string \<Rightarrow> bool" where
  "env_read_result eq other es nm Value r \<longleftrightarrow> (case r of (st, V) \<Rightarrow>
     (case env_get eq nm es of
        Some v \<Rightarrow> us_Length V = of_nat (length v * 2) \<and>
          (if 2 * length v \<le> unat (us_MaximumLength Value) then st = STATUS_SUCCESS \<and> us_chars V = v
           else st = STATUS_BUFFER_TOO_SMALL)
      | None \<Rightarrow> r = other))"

lemma env_read_stored:
  assumes "env_get eq nm es = Some v" and "unat L = length v * 2" and "take (length v) chars = v"
    and "unat (us_MaximumLength Value) div 2 \<le> length (us_Buffer Value)"
  shows "case env_store_value L chars Value of (ok, V) \<Rightarrow>
    env_read_result eq other es nm Value (if ok then STATUS_SUCCESS else STATUS_BUFFER_TOO_SMALL, V)"
proof -
  have "L = of_nat (length v * 2)" using assms(2) by (simp flip: assms(2))
  then show ?thesis
    using env_store_value_spec [OF assms(2-4)] assms(1) by (auto simp: env_read_result_def)
qed

lemma u16_of_even: "unat (L :: u16) = 2 * n \<Longrightarrow> L = of_nat (n * 2)"
  by (metis mult.commute of_nat_unat ucast_id)

text \<open>The scan when the cache does not answer.\<close>

lemma env_scan_result:
  assumes c: "env_compare_ok eq cmp" and s: "env_sorted cmp es" and name: "us_ok Name"
    and buf: "unat (us_MaximumLength Value) div 2 \<le> length (us_Buffer Value)"
    and some: "env_query_scan eq (us_chars Name) (env_block es) 0 = Some p"
  defines "L \<equiv> (of_nat ((wcslen_at (env_block es) p - 1) * 2 - unat (us_Length Name)) :: u16)"
  shows "\<exists>pre e post n. es = pre @ e # post \<and> env_name e = Some n \<and> p = env_offset pre \<and>
    us_Length Name = of_nat (length n * 2) \<and> length n = length (us_chars Name) \<and> L = of_nat (length (env_value e) * 2) \<and>
    (case env_store_value L (drop (p + length (us_chars Name) + 1) (env_block es)) Value of (ok, V) \<Rightarrow>
      env_read_result eq other es (us_chars Name) Value (if ok then STATUS_SUCCESS else STATUS_BUFFER_TOO_SMALL, V))"
proof -
  let ?nm = "us_chars Name"
  have eqlen: "\<And>a b. eq a b \<Longrightarrow> length a = length b" using c by (simp add: env_compare_ok_def)
  have oks: "\<forall>e\<in>set es. env_entry_ok e" using s by (simp add: env_sorted_def)
  have q: "env_query_scan eq ?nm (env_block es) 0 =
      (if \<exists>e\<in>set es. env_ehit eq ?nm e then Some (0 + env_offset (takeWhile (\<lambda>x. \<not> env_ehit eq ?nm x) es)) else None)"
    by (rule env_query_scan_entries [where p = 0 and eq = eq, OF eqlen drop_0 oks])
  then have ex: "\<exists>e\<in>set es. env_ehit eq ?nm e" using some by (auto split: if_splits)
  from env_split_hit [OF ex] obtain pre e post where es: "es = pre @ e # post" "env_ehit eq ?nm e"
      "takeWhile (\<lambda>x. \<not> env_ehit eq ?nm x) es = pre" by blast
  have p: "p = env_offset pre" using q ex some es(3) by simp
  obtain n where n: "env_name e = Some n" "eq ?nm n" using es(2) by (auto simp: env_ehit_def split: option.splits)
  have ln: "length n = length ?nm" using eqlen [OF n(2)] by simp
  have ok: "env_entry_ok e" using oks es(1) by simp
  have dr: "drop p (env_block es) = env_block (e # post)"
    using drop_env_offset [of pre "e # post"] by (simp add: es(1) p)
  have wl: "wcslen_at (env_block es) p = length e" by (rule wcslen_at_entry [OF dr ok])
  have le: "length e = length n + 1 + length (env_value e)"
    using arg_cong [OF env_name_split [OF n(1)], of length] by simp
  have L: "L = of_nat (length (env_value e) * 2)"
    unfolding L_def wl us_ok_length [OF name] le ln by (simp add: mult.commute)
  have g: "env_get eq ?nm es = Some (env_value e)" using env_get_at [OF c s [unfolded es(1)] es(2)] es(1) by simp
  have t: "take (length (env_value e)) (drop (p + length ?nm + 1) (env_block es)) = env_value e"
    using env_pointer_entry(3) [where mem = "\<lambda>_. Some (env_block (pre @ e # post))" and a = 0, OF refl n(1) ok]
    by (simp add: p es(1) ln)
  have u: "unat L = length (env_value e) * 2"
    unfolding L by (rule unat_of_nat_u16_double [OF env_value_length [OF ok]])
  show ?thesis
    using es(1) n(1) p ln L u16_of_even [OF us_ok_length [OF name]] env_read_stored [OF g u t buf, of other]
    by (intro exI [of _ pre] exI [of _ e] exI [of _ post] exI [of _ n]) simp
qed

lemma env_scan_none:
  assumes c: "env_compare_ok eq cmp" and s: "env_sorted cmp es"
    and none: "env_query_scan eq nm (env_block es) 0 = None"
  shows "env_get eq nm es = None"
proof -
  have eqlen: "\<And>a b. eq a b \<Longrightarrow> length a = length b" using c by (simp add: env_compare_ok_def)
  have oks: "\<forall>e\<in>set es. env_entry_ok e" using s by (simp add: env_sorted_def)
  have "\<not> (\<exists>e\<in>set es. env_ehit eq nm e)"
    using env_query_scan_entries [where p = 0 and eq = eq and nm = nm, OF eqlen drop_0 oks] none
    by (auto split: if_splits)
  then show ?thesis by (rule env_get_none)
qed

text \<open>The answer of a cache that points into the block.\<close>

lemma env_cache_result:
  assumes c: "env_compare_ok eq cmp" and ok: "env_ok cmp es s" and v: "en_CacheValid s"
    and buf: "unat (us_MaximumLength Value) div 2 \<le> length (us_Buffer Value)"
  shows "\<exists>n chars. env_pointer_chars (en_Blocks s) (en_CacheName s) = Some n \<and>
    env_pointer_chars (en_Blocks s) (en_CacheValue s) = Some chars \<and>
    (eq nm n \<longrightarrow> (case env_store_value (snd (snd (en_CacheValue s))) chars Value of (ok, V) \<Rightarrow>
      env_read_result eq other es nm Value (if ok then STATUS_SUCCESS else STATUS_BUFFER_TOO_SMALL, V)))"
proof -
  have b: "en_Blocks s (en_Environment s) = Some (env_block es)" and s: "env_sorted cmp es"
    using ok v by (auto simp: env_ok_def split: if_splits)
  obtain pre e post n where e: "es = pre @ e # post" "env_name e = Some n"
      "en_CacheName s = (en_Environment s, env_offset pre, of_nat (length n * 2))"
      "en_CacheValue s = (en_Environment s, env_offset pre + length n + 1, of_nat (length (env_value e) * 2))"
    using ok v unfolding env_ok_def env_cache_ok_def by blast
  have eok: "env_entry_ok e" using s e(1) by (simp add: env_sorted_def)
  note pt = env_pointer_entry [where mem = "en_Blocks s" and a = "en_Environment s", OF b [unfolded e(1)] e(2) eok]
  have u: "unat (of_nat (length (env_value e) * 2) :: u16) = length (env_value e) * 2"
    by (rule unat_of_nat_u16_double [OF env_value_length [OF eok]])
  have "case env_store_value (snd (snd (en_CacheValue s))) (env_value e) Value of (ok, V) \<Rightarrow>
      env_read_result eq other es nm Value (if ok then STATUS_SUCCESS else STATUS_BUFFER_TOO_SMALL, V)"
    if h: "eq nm n"
  proof -
    have "env_get eq nm es = Some (env_value e)"
      using env_get_at [OF c s [unfolded e(1)]] h e(1,2) by (simp add: env_ehit_def)
    from env_read_stored [OF this u _ buf, where other = other] show ?thesis by (simp add: e(4))
  qed
  then show ?thesis using pt(1,2) by (simp add: e(3,4))
qed

text \<open>The routine on the environment of the process, without the early exits.\<close>

lemma env_query_unfold:
  assumes "Environment = NULL \<or> Environment = en_Environment s" and "en_Environment s \<noteq> NULL"
    and "en_Blocks s (en_Environment s) = Some blk" and "\<not> (Environment \<noteq> NULL \<and> wcslen_at blk 0 = 0)"
    and "en_CacheValid s \<longrightarrow> env_pointer_chars (en_Blocks s) (en_CacheName s) \<noteq> None"
  shows "RtlQueryEnvironmentVariable_U eq down validate DosPath ImagePathName Environment Name Value s =
    (if en_CacheValid s \<and> eq (us_chars Name) (the (env_pointer_chars (en_Blocks s) (en_CacheName s)))
     then (case env_pointer_chars (en_Blocks s) (en_CacheValue s) of
         None \<Rightarrow> None
       | Some chars \<Rightarrow>
           let (ok, V) = env_store_value (snd (snd (en_CacheValue s))) chars Value
           in Some (if ok then STATUS_SUCCESS else STATUS_BUFFER_TOO_SMALL, V, s))
     else case env_query_scan eq (us_chars Name) blk 0 of
         None \<Rightarrow> (case env_pseudo_variable eq down validate DosPath ImagePathName Name Value of
            (st, V) \<Rightarrow> Some (st, V, s))
       | Some e \<Rightarrow>
           let L = of_nat ((wcslen_at blk e - 1) * 2 - unat (us_Length Name));
               (ok, V) = env_store_value L (drop (e + length (us_chars Name) + 1) blk) Value;
               s' = (if Environment = en_Environment s
                 then s\<lparr>en_CacheValid := True, en_CacheName := (en_Environment s, e, us_Length Name),
                        en_CacheValue := (en_Environment s, e + length (us_chars Name) + 1, L)\<rparr>
                 else s)
           in Some (if ok then (STATUS_SUCCESS, V, s') else (STATUS_BUFFER_TOO_SMALL, V, s)))"
proof -
  have p: "(if Environment \<noteq> NULL then Environment else en_Environment s) = en_Environment s"
    using assms(1) by auto
  have n: "(en_CacheValid s \<and> env_pointer_chars (en_Blocks s) (en_CacheName s) = None) = False"
    using assms(5) by auto
  show ?thesis
    unfolding RtlQueryEnvironmentVariable_U_def Let_def p
    by (simp only: assms(2-4) n option.sel option.distinct if_False simp_thms)
qed

lemma query_environment_ok:
  assumes c: "env_compare_ok eq cmp" and ok: "env_ok cmp es s" and name: "us_ok Name"
    and buf: "unat (us_MaximumLength Value) div 2 \<le> length (us_Buffer Value)"
    and env: "Environment = NULL \<or> Environment = en_Environment s"
  shows "\<exists>st V s'. RtlQueryEnvironmentVariable_U eq down validate DosPath ImagePathName Environment Name Value s = Some (st, V, s') \<and>
    env_ok cmp es s' \<and> en_Environment s' = en_Environment s \<and> en_Blocks s' = en_Blocks s \<and>
    env_read_result eq
      (if Environment \<noteq> NULL \<and> es = [] then (STATUS_VARIABLE_NOT_FOUND, Value)
       else env_pseudo_variable eq down validate DosPath ImagePathName Name Value)
      es (us_chars Name) Value (st, V)"
proof (cases "en_Environment s = NULL")
  case True
  then have "es = []" "\<not> en_CacheValid s" "Environment = NULL" using ok env by (auto simp: env_ok_def)
  then show ?thesis using True ok
    by (cases "env_pseudo_variable eq down validate DosPath ImagePathName Name Value")
      (simp add: RtlQueryEnvironmentVariable_U_def Let_def env_read_result_def env_get_def)
next
  case ne: False
  let ?nm = "us_chars Name" and ?blk = "env_block es"
  let ?other = "if Environment \<noteq> NULL \<and> es = [] then (STATUS_VARIABLE_NOT_FOUND, Value)
       else env_pseudo_variable eq down validate DosPath ImagePathName Name Value"
  have b: "en_Blocks s (en_Environment s) = Some ?blk" and s: "env_sorted cmp es"
    using ok ne by (auto simp: env_ok_def)
  have empty: "wcslen_at ?blk 0 = 0 \<longleftrightarrow> es = []"
    using s by (cases es) (auto simp: wcslen_at_def env_sorted_def env_entry_ok_def takeWhile_zero)
  have cache: "en_CacheValid s \<longrightarrow> env_pointer_chars (en_Blocks s) (en_CacheName s) \<noteq> None"
  proof
    assume "en_CacheValid s"
    from env_cache_result [OF c ok this buf, where nm = ?nm and other = "(STATUS_SUCCESS, Value)"]
    show "env_pointer_chars (en_Blocks s) (en_CacheName s) \<noteq> None" by auto
  qed
  show ?thesis
  proof (cases "Environment \<noteq> NULL \<and> es = []")
    case True
    then have "RtlQueryEnvironmentVariable_U eq down validate DosPath ImagePathName Environment Name Value s =
        Some (STATUS_VARIABLE_NOT_FOUND, Value, s)"
      using b ne env by (auto simp: RtlQueryEnvironmentVariable_U_def wcslen_at_def)
    then show ?thesis using True ok by (simp add: env_read_result_def env_get_def)
  next
    case nl: False
    note q = env_query_unfold [OF env ne b _ cache, where eq = eq and down = down and validate = validate and
        DosPath = DosPath and ImagePathName = ImagePathName and Name = Name and Value = Value]
    have nl': "\<not> (Environment \<noteq> NULL \<and> wcslen_at ?blk 0 = 0)" using nl empty by blast
    note q = q [OF nl']
    show ?thesis
    proof (cases "en_CacheValid s \<and> eq ?nm (the (env_pointer_chars (en_Blocks s) (en_CacheName s)))")
      case True
      from env_cache_result [OF c ok conjunct1 [OF True] buf, where nm = ?nm and other = ?other]
      obtain n chars where
        r: "env_pointer_chars (en_Blocks s) (en_CacheName s) = Some n"
          "env_pointer_chars (en_Blocks s) (en_CacheValue s) = Some chars"
          "eq ?nm n \<longrightarrow> (case env_store_value (snd (snd (en_CacheValue s))) chars Value of (ok, V) \<Rightarrow>
             env_read_result eq ?other es ?nm Value (if ok then STATUS_SUCCESS else STATUS_BUFFER_TOO_SMALL, V))"
        by (elim exE conjE)
      obtain ok' V where sv: "env_store_value (snd (snd (en_CacheValue s))) chars Value = (ok', V)" by fastforce
      have "eq ?nm n" using True r(1) by simp
      then have "env_read_result eq ?other es ?nm Value (if ok' then STATUS_SUCCESS else STATUS_BUFFER_TOO_SMALL, V)"
        using r(3) sv by simp
      moreover have "RtlQueryEnvironmentVariable_U eq down validate DosPath ImagePathName Environment Name Value s =
          Some (if ok' then STATUS_SUCCESS else STATUS_BUFFER_TOO_SMALL, V, s)"
        unfolding q using True r(1,2) sv by (simp add: Let_def)
      ultimately show ?thesis using ok by blast
    next
      case nc: False
      show ?thesis
      proof (cases "env_query_scan eq ?nm ?blk 0")
        case None
        obtain st V where ps: "env_pseudo_variable eq down validate DosPath ImagePathName Name Value = (st, V)" by fastforce
        have "RtlQueryEnvironmentVariable_U eq down validate DosPath ImagePathName Environment Name Value s = Some (st, V, s)"
          unfolding q if_not_P [OF nc] by (simp add: None ps)
        then show ?thesis using ok nl ps env_scan_none [OF c s None] by (auto simp: env_read_result_def)
      next
        case (Some e)
        define L where "L = (of_nat ((wcslen_at ?blk e - 1) * 2 - unat (us_Length Name)) :: u16)"
        from env_scan_result [OF c s name buf Some, where other = ?other, folded L_def] obtain pre x post n where
          r: "es = pre @ x # post" "env_name x = Some n" "e = env_offset pre"
            "us_Length Name = of_nat (length n * 2)" "length n = length ?nm" "L = of_nat (length (env_value x) * 2)"
            "case env_store_value L (drop (e + length ?nm + 1) ?blk) Value of (ok, V) \<Rightarrow>
              env_read_result eq ?other es ?nm Value (if ok then STATUS_SUCCESS else STATUS_BUFFER_TOO_SMALL, V)"
          by (elim exE conjE)
        obtain ok' V where sv: "env_store_value L (drop (e + length ?nm + 1) ?blk) Value = (ok', V)" by fastforce
        define s1 where "s1 = (if Environment = en_Environment s
            then s\<lparr>en_CacheValid := True, en_CacheName := (en_Environment s, e, us_Length Name),
                   en_CacheValue := (en_Environment s, e + length ?nm + 1, L)\<rparr> else s)"
        have "RtlQueryEnvironmentVariable_U eq down validate DosPath ImagePathName Environment Name Value s =
            Some (if ok' then (STATUS_SUCCESS, V, s1) else (STATUS_BUFFER_TOO_SMALL, V, s))"
          unfolding q if_not_P [OF nc] by (simp only: Some option.case Let_def L_def [symmetric] sv prod.case s1_def)
        moreover have "env_ok cmp es s1"
        proof (cases "Environment = en_Environment s")
          case True
          have "env_cache_ok es s1" unfolding env_cache_ok_def
            by (intro impI exI [of _ pre] exI [of _ x] exI [of _ post] exI [of _ n])
              (use r(1-6) True in \<open>simp add: s1_def\<close>)
          then show ?thesis using ok ne True by (simp add: env_ok_def s1_def)
        qed (use ok in \<open>simp add: s1_def\<close>)
        moreover have "en_Environment s1 = en_Environment s" "en_Blocks s1 = en_Blocks s" by (simp_all add: s1_def)
        ultimately show ?thesis using r(7) sv ok by (cases ok') simp_all
      qed
    qed
  qed
qed

text \<open>reading a variable. For the process environment, with its lock or passed explicitly, the
  routine never touches memory outside the block, reports the value of the first entry whose name
  is equal with case ignored, its length even when the buffer is too small, and falls back to the
  pseudo variables when there is no such entry. The cache never changes the answer, and it points
  into the current block afterwards.\<close>

theorem query_environment_variable:
  assumes c: "env_compare_ok eq cmp" and ok: "env_ok cmp es s" and name: "us_ok Name"
    and buf: "unat (us_MaximumLength Value) div 2 \<le> length (us_Buffer Value)"
    and env: "Environment = NULL \<or> Environment = en_Environment s"
  shows "\<exists>st V s'. RtlQueryEnvironmentVariable_U eq down validate DosPath ImagePathName Environment Name Value s = Some (st, V, s') \<and>
    env_ok cmp es s' \<and> en_Environment s' = en_Environment s \<and> en_Blocks s' = en_Blocks s \<and>
    env_read_result eq
      (if Environment \<noteq> NULL \<and> es = [] then (STATUS_VARIABLE_NOT_FOUND, Value)
       else env_pseudo_variable eq down validate DosPath ImagePathName Name Value)
      es (us_chars Name) Value (st, V)"
  by (rule query_environment_ok [OF assms])

section \<open>Setting a variable of the process\<close>

lemma set_block_empty:
  assumes name: "us_ok Name" and val: "\<forall>V. Value = Some V \<longrightarrow> us_ok V"
  shows "set_environment_block cmp Name Value None =
    (if Value = None then None
     else let New = env_block (env_set cmp (us_chars Name) (map_option us_chars Value) []) in Some (2 * length New, New))"
proof (cases Value)
  case None
  then show ?thesis by (simp add: set_environment_block_def)
next
  case (Some V)
  let ?ent = "env_entry (us_chars Name) Value"
  have size: "unat (us_Length Name) + 2 + unat (us_Length V) + 2 = 2 * length ?ent"
    using us_ok_length [OF name] us_ok_length [of V] val Some by (simp add: env_entry_def)
  have ns: "max (2 - 0 + 2 * length ?ent) 2 = 2 * Suc (length ?ent)" by simp
  have half: "2 * Suc (length ?ent) div 2 = Suc (length ?ent)" by simp
  have w: "(case Some V of
        None \<Rightarrow> (0, [] @ replicate (Suc (length ?ent)) 0)
      | Some V \<Rightarrow>
          let New = mem_write 0 (us_chars Name) ([] @ replicate (Suc (length ?ent)) 0); Out = 0 + length (us_chars Name);
              New = New[Out := EQUALS]; Out = Out + 1;
              New = (if us_Length V \<noteq> 0 then mem_write Out (us_chars V) New else New);
              Out = (if us_Length V \<noteq> 0 then Out + length (us_chars V) else Out)
          in (Out + 1, New[Out := 0])) =
      (0 + length ?ent, ([] @ ?ent) @ replicate (Suc (length ?ent) - length ?ent) 0)"
    unfolding Some by (rule env_write_entry) (use val Some in simp_all)
  have new: "env_block (env_set cmp (us_chars Name) (map_option us_chars Value) []) = ?ent @ [0]"
    by (simp add: Some env_set_def env_entry_def)
  show ?thesis
    unfolding set_environment_block_def new
    apply (simp only: Let_def option.case Some prod.case option.distinct if_False simp_thms size [unfolded Some]
        refl if_True ns [unfolded Some] half [unfolded Some])
    apply (simp only: arg_cong [OF w [unfolded Some Let_def option.case append_Nil], of snd, unfolded snd_conv])
    by simp
qed

lemma set_check_ok:
  assumes "us_ok Name" and "env_name_ok (us_chars Name)" and "\<forall>V. Value = Some V \<longrightarrow> us_ok V"
  shows "set_environment_check (Some Name) Value s = (STATUS_SUCCESS, s\<lparr>en_CacheValid := False\<rparr>)"
proof -
  have n: "us_Buffer Name \<noteq> []" "us_Length Name \<noteq> 0"
    using assms(2) by (auto simp: env_name_ok_def us_chars_def)
  have e: "us_Length Name AND 1 = 0"
  proof -
    have "unat (us_Length Name AND 1) = unat (us_Length Name) mod 2"
      by (simp add: and_one_eq unat_mod)
    then show ?thesis using assms(1) by (simp add: us_ok_def unsigned_eq_0_iff)
  qed
  have q: "\<not> list_ex (\<lambda>i. us_Buffer Name ! i = EQUALS) [1 ..< unat (us_Length Name) div 2]"
  proof
    assume "list_ex (\<lambda>i. us_Buffer Name ! i = EQUALS) [1 ..< unat (us_Length Name) div 2]"
    then obtain i where i: "1 \<le> i" "i < unat (us_Length Name) div 2" "us_Buffer Name ! i = EQUALS"
      by (auto simp: list_ex_iff)
    have l: "i < length (us_chars Name)" using i(2) assms(1) by (simp add: us_ok_def us_chars_def)
    have "us_chars Name ! i = EQUALS" using i by (simp add: us_chars_def)
    then have "tl (us_chars Name) ! (i - 1) = EQUALS" "i - 1 < length (tl (us_chars Name))"
      using l i(1) by (simp_all add: nth_tl)
    then have "EQUALS \<in> set (tl (us_chars Name))" by (metis nth_mem)
    then show False using assms(2) by (simp add: env_name_ok_def)
  qed
  have v: "\<not> (Value \<noteq> None \<and> us_Length (the Value) \<noteq> 0 \<and> us_Buffer (the Value) = [])"
  proof
    assume a: "Value \<noteq> None \<and> us_Length (the Value) \<noteq> 0 \<and> us_Buffer (the Value) = []"
    then obtain V where V: "Value = Some V" by auto
    have "us_ok V" using assms(3) V by simp
    then have "unat (us_Length V) = 0" using a V by (auto simp: us_ok_def elim: evenE)
    then show False using a V by (simp add: unsigned_eq_0_iff)
  qed
  show ?thesis
    unfolding set_environment_check_def option.case
    using n e q v by auto
qed

definition env_request_ok :: "unicode_string \<Rightarrow> unicode_string option \<Rightarrow> bool" where
  "env_request_ok Name Value \<longleftrightarrow> us_ok Name \<and> env_name_ok (us_chars Name) \<and>
     (\<forall>V. Value = Some V \<longrightarrow> us_ok V \<and> 0 \<notin> set (us_chars V) \<and>
        length (us_chars Name) + length (us_chars V) < 32767)"

definition env_alloc_ok :: "(nat \<Rightarrow> addr option) \<Rightarrow> environ \<Rightarrow> bool" where
  "env_alloc_ok alloc s \<longleftrightarrow> (\<forall>n. \<exists>a. alloc n = Some a \<and> a \<noteq> NULL \<and> en_Blocks s a = None)"

lemma env_request_sorted:
  assumes "env_compare_ok eq cmp" and "env_sorted cmp es" and "env_request_ok Name Value"
  shows "env_sorted cmp (env_set cmp (us_chars Name) (map_option us_chars Value) es)"
  by (rule env_set_sorted [OF assms(1,2)])
    (use assms(3) in \<open>auto simp: env_request_ok_def env_name_ok_def env_entry_ok_def\<close>)

lemma env_set_none_miss: "\<forall>e\<in>set es. \<not> env_hit cmp nm e \<Longrightarrow> env_set cmp nm None es = es"
  by (auto simp: env_set_def)

lemma set_environment_variable_ok:
  assumes c: "env_compare_ok eq cmp" and ok: "env_ok cmp es s" and req: "env_request_ok Name Value"
    and al: "env_alloc_ok alloc s"
  shows "\<exists>s'. RtlSetEnvironmentVariable cmp alloc DefaultEnvironment (Some Name) Value s =
      Some (STATUS_SUCCESS, DefaultEnvironment, s') \<and>
    env_ok cmp (env_set cmp (us_chars Name) (map_option us_chars Value) es) s' \<and> \<not> en_CacheValid s' \<and>
    (\<forall>a. a \<noteq> en_Environment s \<longrightarrow> a \<noteq> en_Environment s' \<longrightarrow> en_Blocks s' a = en_Blocks s a) \<and>
    (en_Environment s' \<noteq> en_Environment s \<longrightarrow> en_Environment s \<noteq> NULL \<longrightarrow> en_Blocks s' (en_Environment s) = None)"
proof -
  let ?nm = "us_chars Name" and ?v = "map_option us_chars Value"
  let ?es = "env_set cmp ?nm ?v es"
  have n: "us_ok Name" "env_name_ok ?nm" "\<forall>V. Value = Some V \<longrightarrow> us_ok V"
    using req by (auto simp: env_request_ok_def)
  define s1 where "s1 = s\<lparr>en_CacheValid := False\<rparr>"
  have chk: "set_environment_check (Some Name) Value s = (STATUS_SUCCESS, s1)"
    unfolding s1_def by (rule set_check_ok [OF n])
  have sorted: "env_sorted cmp es" "env_sorted cmp ?es"
    using ok env_request_sorted [OF c _ req] by (auto simp: env_ok_def)
  have oks: "\<forall>e\<in>set es. env_entry_ok e" using sorted(1) by (simp add: env_sorted_def)
  define old where "old = (if en_Environment s = NULL then None else Some (env_block es))"
  have old: "old = (if en_Environment s = NULL then None else en_Blocks s (en_Environment s))"
    using ok by (auto simp: old_def env_ok_def)
  have nil: "en_Environment s = NULL \<Longrightarrow> es = []" using ok by (simp add: env_ok_def)
  have blk: "set_environment_block cmp Name Value old =
      (if Value = None \<and> (\<forall>e\<in>set es. \<not> env_hit cmp ?nm e) then None
       else Some (2 * length (env_block ?es), env_block ?es))"
  proof (cases "en_Environment s = NULL")
    case True
    then show ?thesis using nil set_block_empty [OF n(1,3)] by (simp add: old_def Let_def)
  next
    case False
    then show ?thesis using set_block_entries [OF oks n(1,3)] by (simp add: old_def Let_def)
  qed
  have run: "RtlSetEnvironmentVariable cmp alloc DefaultEnvironment (Some Name) Value s =
      set_environment_apply cmp alloc DefaultEnvironment Name Value s1"
    by (simp add: RtlSetEnvironmentVariable_def chk)
  have e1: "en_Environment s1 = en_Environment s" "en_Blocks s1 = en_Blocks s" by (simp_all add: s1_def)
  have na: "(en_Environment s \<noteq> NULL \<and> old = None) = False" by (simp add: old_def)
  define fin where "fin = (\<lambda>a m New. (if en_Environment s \<noteq> NULL
      then s1\<lparr>en_Blocks := ((en_Blocks s)(a \<mapsto> New))(en_Environment s := None), en_Environment := a,
        en_EnvironmentSize := of_nat m, en_EnvironmentUpdateCount := en_EnvironmentUpdateCount s1 + 1\<rparr>
      else s1\<lparr>en_Blocks := (en_Blocks s)(a \<mapsto> New), en_Environment := a,
        en_EnvironmentSize := of_nat m, en_EnvironmentUpdateCount := en_EnvironmentUpdateCount s1 + 1\<rparr>))"
  have ap: "set_environment_apply cmp alloc DefaultEnvironment Name Value s1 =
      (case set_environment_block cmp Name Value old of
         None \<Rightarrow> Some (STATUS_SUCCESS, DefaultEnvironment, s1)
       | Some (m, New) \<Rightarrow>
           (case alloc m of
              None \<Rightarrow> Some (STATUS_INSUFFICIENT_RESOURCES, DefaultEnvironment, s1)
            | Some a \<Rightarrow> Some (STATUS_SUCCESS, DefaultEnvironment, fin a m New)))"
    unfolding set_environment_apply_def Let_def env_arg.case e1 old [symmetric] na if_False prod.case fin_def
    by (auto split: option.split)
  show ?thesis
  proof (cases "Value = None \<and> (\<forall>e\<in>set es. \<not> env_hit cmp ?nm e)")
    case True
    have "set_environment_apply cmp alloc DefaultEnvironment Name Value s1 =
        Some (STATUS_SUCCESS, DefaultEnvironment, s1)"
      unfolding ap blk if_P [OF True] by simp
    moreover have "?es = es" using True by (simp add: env_set_none_miss)
    moreover have "env_ok cmp es s1" using ok by (simp add: env_ok_def env_cache_ok_def s1_def)
    ultimately show ?thesis unfolding run by (simp add: s1_def)
  next
    case False
    obtain a where a: "alloc (2 * length (env_block ?es)) = Some a" "a \<noteq> NULL" "en_Blocks s a = None"
      using al unfolding env_alloc_ok_def by blast
    have ne: "a \<noteq> en_Environment s" using ok a(2,3) by (auto simp: env_ok_def split: if_splits)
    define s' where "s' = fin a (2 * length (env_block ?es)) (env_block ?es)"
    have s': "set_environment_apply cmp alloc DefaultEnvironment Name Value s1 =
        Some (STATUS_SUCCESS, DefaultEnvironment, s')" "en_Environment s' = a" "\<not> en_CacheValid s'"
        "en_Blocks s' = (if en_Environment s \<noteq> NULL then (en_Blocks s)(a \<mapsto> env_block ?es, en_Environment s := None)
          else (en_Blocks s)(a \<mapsto> env_block ?es))"
      unfolding ap blk if_not_P [OF False] using a(1) by (simp_all add: s'_def fin_def s1_def)
    have "env_ok cmp ?es s'" using sorted(2) s' a(2) ne by (simp add: env_ok_def env_cache_ok_def)
    then show ?thesis unfolding run using s' ne a(2) by auto
  qed
qed

text \<open>C9: setting or deleting a variable. For a name without a misplaced equals sign the call succeeds,
  the new block of the process holds exactly the entries it had with this one variable replaced,
  removed, or inserted at its place in the order, so that the block stays sorted without duplicate
  names; the cache is not valid afterwards, the old block is freed, and no other block of the heap
  changes.\<close>

theorem set_environment_variable:
  assumes c: "env_compare_ok eq cmp" and ok: "env_ok cmp es s" and req: "env_request_ok Name Value"
    and al: "env_alloc_ok alloc s"
  shows "\<exists>s'. RtlSetEnvironmentVariable cmp alloc DefaultEnvironment (Some Name) Value s =
      Some (STATUS_SUCCESS, DefaultEnvironment, s') \<and>
    env_ok cmp (env_set cmp (us_chars Name) (map_option us_chars Value) es) s' \<and> \<not> en_CacheValid s' \<and>
    (\<forall>a. a \<noteq> en_Environment s \<longrightarrow> a \<noteq> en_Environment s' \<longrightarrow> en_Blocks s' a = en_Blocks s a) \<and>
    (en_Environment s' \<noteq> en_Environment s \<longrightarrow> en_Environment s \<noteq> NULL \<longrightarrow> en_Blocks s' (en_Environment s) = None)"
  by (rule set_environment_variable_ok [OF assms])

text \<open>C10: what was set is what is read. After a successful set, a read of any name into a buffer that
  is large enough gives the new value when the names are equal with case ignored, gives nothing from
  the block when the variable was deleted, and gives what it gave before for every other name.\<close>

theorem environment_round_trip:
  assumes c: "env_compare_ok eq cmp" and ok: "env_ok cmp es s" and req: "env_request_ok Name Value"
    and al: "env_alloc_ok alloc s"
    and set: "RtlSetEnvironmentVariable cmp alloc DefaultEnvironment (Some Name) Value s = Some (STATUS_SUCCESS, e, s')"
    and key: "us_ok Key" and buf: "unat (us_MaximumLength Buf) div 2 \<le> length (us_Buffer Buf)"
    and fit: "\<forall>v. (if eq (us_chars Key) (us_chars Name) then map_option us_chars Value else env_get eq (us_chars Key) es) = Some v \<longrightarrow>
      2 * length v \<le> unat (us_MaximumLength Buf)"
  shows "\<exists>st V s''. RtlQueryEnvironmentVariable_U eq down validate DosPath ImagePathName NULL Key Buf s' = Some (st, V, s'') \<and>
    (case (if eq (us_chars Key) (us_chars Name) then map_option us_chars Value else env_get eq (us_chars Key) es) of
       Some v \<Rightarrow> st = STATUS_SUCCESS \<and> us_chars V = v
     | None \<Rightarrow> (st, V) = env_pseudo_variable eq down validate DosPath ImagePathName Key Buf)"
proof -
  let ?es = "env_set cmp (us_chars Name) (map_option us_chars Value) es"
  obtain s1 where s1: "RtlSetEnvironmentVariable cmp alloc DefaultEnvironment (Some Name) Value s =
      Some (STATUS_SUCCESS, DefaultEnvironment, s1)" "env_ok cmp ?es s1"
    using set_environment_variable_ok [OF c ok req al] by blast
  have ok': "env_ok cmp ?es s'" using s1 set by simp
  have g: "env_get eq (us_chars Key) ?es =
      (if eq (us_chars Key) (us_chars Name) then map_option us_chars Value else env_get eq (us_chars Key) es)"
    using env_get_set [OF c] ok req by (simp add: env_ok_def env_request_ok_def)
  from query_environment_ok [OF c ok' key buf disjI1 [OF refl], where down = down and validate = validate and
      DosPath = DosPath and ImagePathName = ImagePathName] obtain st V s'' where
    q: "RtlQueryEnvironmentVariable_U eq down validate DosPath ImagePathName NULL Key Buf s' = Some (st, V, s'')"
      "env_read_result eq (env_pseudo_variable eq down validate DosPath ImagePathName Key Buf) ?es (us_chars Key) Buf (st, V)"
    by auto
  show ?thesis
    using q fit unfolding env_read_result_def g prod.case
    by (cases "if eq (us_chars Key) (us_chars Name) then map_option us_chars Value else env_get eq (us_chars Key) es")
      (auto simp del: if_split)
qed

section \<open>Two defects\<close>

text \<open>the cache can outlive its block. \<open>RtlSetEnvironmentVariable\<close> clears the cache before it takes
  the lock; a read with an explicit environment, which takes no lock, can fill it again before the
  block is replaced. From a state in which the cache is valid when the second half of the set runs
  and replaces the block, every later read of the process environment, of any name, reads the freed
  block.\<close>

theorem environment_cache_stale:
  assumes ok: "env_ok cmp es s" and v: "en_CacheValid s"
    and set: "set_environment_apply cmp alloc DefaultEnvironment N W s = Some (STATUS_SUCCESS, e, s')"
    and new: "en_Environment s' \<noteq> en_Environment s"
  shows "RtlQueryEnvironmentVariable_U eq down validate DosPath ImagePathName NULL Name Value s' = None"
proof -
  have ne: "en_Environment s \<noteq> NULL" using ok v by (auto simp: env_ok_def split: if_splits)
  obtain pre n where cn: "en_CacheName s = (en_Environment s, pre, n)"
    using ok v unfolding env_ok_def env_cache_ok_def by blast
  have "en_CacheValid s' \<and> en_CacheName s' = en_CacheName s \<and> en_Blocks s' (en_Environment s) = None"
    using set new ne v
    by (auto simp: set_environment_apply_def Let_def split: if_splits option.splits prod.splits)
  then have "en_CacheValid s'" "env_pointer_chars (en_Blocks s') (en_CacheName s') = None"
    by (simp_all add: cn env_pointer_chars_def)
  then show ?thesis by (simp add: RtlQueryEnvironmentVariable_U_def Let_def)
qed

text \<open>a pseudo variable that does not fit is reported as read. When the block has no variable of
  that name, a read of \<open>__CD__\<close> into a buffer smaller than the current directory returns
  \<open>STATUS_SUCCESS\<close>, leaves the buffer as it was and stores a length larger than the buffer, where
  every other variable gives \<open>STATUS_BUFFER_TOO_SMALL\<close>.\<close>

theorem pseudo_variable_too_small:
  assumes c: "env_compare_ok eq cmp" and ok: "env_ok cmp es s" and name: "us_ok Name"
    and buf: "unat (us_MaximumLength Value) div 2 \<le> length (us_Buffer Value)"
    and none: "env_get eq (us_chars Name) es = None" and cd: "eq (us_chars Name) PSEUDO_CD"
    and small: "us_MaximumLength Value < us_Length DosPath"
  shows "\<exists>V s'. RtlQueryEnvironmentVariable_U eq down validate DosPath ImagePathName NULL Name Value s =
      Some (STATUS_SUCCESS, V, s') \<and> us_Buffer V = us_Buffer Value \<and> us_MaximumLength V < us_Length V"
proof -
  from query_environment_ok [OF c ok name buf disjI1 [OF refl], where down = down and validate = validate and
      DosPath = DosPath and ImagePathName = ImagePathName] obtain st V s' where
    q: "RtlQueryEnvironmentVariable_U eq down validate DosPath ImagePathName NULL Name Value s = Some (st, V, s')"
      "env_read_result eq (env_pseudo_variable eq down validate DosPath ImagePathName Name Value) es (us_chars Name) Value (st, V)"
    by auto
  have "env_store_value (us_Length DosPath) (us_Buffer DosPath) Value = (False, Value\<lparr>us_Length := us_Length DosPath\<rparr>)"
    using small by (simp add: env_store_value_def Let_def not_le)
  then have "(st, V) = (STATUS_SUCCESS, Value\<lparr>us_Length := us_Length DosPath\<rparr>)"
    using q(2) none cd by (simp add: env_read_result_def env_pseudo_variable_def)
  then show ?thesis using q(1) small by auto
qed

section \<open>A concrete environment\<close>

definition ascii_up :: "u16 \<Rightarrow> u16" where
  "ascii_up c = (if 97 \<le> c \<and> c \<le> 122 then c - 32 else c)"

fun wstr_cmp :: "wstr \<Rightarrow> wstr \<Rightarrow> int" where
  "wstr_cmp [] [] = 0"
| "wstr_cmp [] (b # bs) = - 1"
| "wstr_cmp (a # as) [] = 1"
| "wstr_cmp (a # as) (b # bs) = (if a = b then wstr_cmp as bs else if a < b then - 1 else 1)"

definition ascii_cmp :: "wstr \<Rightarrow> wstr \<Rightarrow> int" where
  "ascii_cmp a b = wstr_cmp (map ascii_up a) (map ascii_up b)"

definition ascii_eq :: "wstr \<Rightarrow> wstr \<Rightarrow> bool" where
  "ascii_eq a b \<longleftrightarrow> map ascii_up a = map ascii_up b"

lemma wstr_cmp_facts:
  "wstr_cmp a b = 0 \<longleftrightarrow> a = b" "wstr_cmp a b < 0 \<longleftrightarrow> 0 < wstr_cmp b a"
  by (induction a b rule: wstr_cmp.induct) auto

lemma wstr_cmp_trans: "wstr_cmp a b \<le> 0 \<Longrightarrow> wstr_cmp b c \<le> 0 \<Longrightarrow> wstr_cmp a c \<le> 0"
proof (induction a b arbitrary: c rule: wstr_cmp.induct)
  case (2 b bs)
  then show ?case by (cases c) auto
next
  case (4 a as b bs)
  then show ?case by (cases c) (auto split: if_splits)
qed (auto split: if_splits)

lemma ascii_compare_ok: "env_compare_ok ascii_eq ascii_cmp"
  unfolding env_compare_ok_def ascii_eq_def ascii_cmp_def
proof (intro conjI allI impI)
  show "length a = length b" if "map ascii_up a = map ascii_up b" for a b
    using that by (rule map_eq_imp_length_eq)
  show "map ascii_up a = map ascii_up b \<longleftrightarrow> wstr_cmp (map ascii_up a) (map ascii_up b) = 0" for a b
    by (simp only: wstr_cmp_facts(1))
  show "wstr_cmp (map ascii_up a) (map ascii_up a) = 0" for a
    by (simp only: wstr_cmp_facts(1))
  show "wstr_cmp (map ascii_up a) (map ascii_up b) < 0 \<longleftrightarrow> 0 < wstr_cmp (map ascii_up b) (map ascii_up a)" for a b
    by (rule wstr_cmp_facts(2))
  show "wstr_cmp (map ascii_up a) (map ascii_up c) \<le> 0"
    if "wstr_cmp (map ascii_up a) (map ascii_up b) \<le> 0" "wstr_cmp (map ascii_up b) (map ascii_up c) \<le> 0" for a b c
    using that by (rule wstr_cmp_trans)
qed

text \<open>\<open>a=1\<close> and \<open>p=22\<close>.\<close>

definition env_demo_entries :: "wstr list" where
  "env_demo_entries = [[97, 61, 49], [112, 61, 50, 50]]"

definition env_demo :: environ where
  "env_demo = \<lparr>en_Environment = 64, en_EnvironmentSize = 18, en_EnvironmentUpdateCount = 0,
     en_Blocks = [64 \<mapsto> env_block env_demo_entries], en_CacheValid = False,
     en_CacheName = (0, 0, 0), en_CacheValue = (0, 0, 0)\<rparr>"

definition us_of :: "wstr \<Rightarrow> unicode_string" where
  "us_of w = \<lparr>us_Length = of_nat (length w * 2), us_MaximumLength = of_nat (length w * 2), us_Buffer = w\<rparr>"

lemma env_demo_ok: "env_ok ascii_cmp env_demo_entries env_demo"
  by (simp add: env_ok_def env_demo_def env_demo_entries_def env_sorted_def env_cache_ok_def env_before_def
      env_name_def env_entry_ok_def ascii_cmp_def ascii_up_def)

definition env_buffer :: unicode_string where
  "env_buffer = \<lparr>us_Length = 0, us_MaximumLength = 8, us_Buffer = [0, 0, 0, 0]\<rparr>"

lemma env_buffer_ok: "unat (us_MaximumLength env_buffer) div 2 \<le> length (us_Buffer env_buffer)"
  by (simp add: env_buffer_def)

definition env_demo_alloc :: "nat \<Rightarrow> addr option" where
  "env_demo_alloc n = Some 128"

lemma env_demo_alloc_ok: "env_alloc_ok env_demo_alloc env_demo"
  by (simp add: env_alloc_ok_def env_demo_alloc_def env_demo_def)

lemma us_of_small:
  "us_ok (us_of [65])" "us_chars (us_of [65]) = [65]" "us_ok (us_of [80])" "us_chars (us_of [80]) = [80]"
  "us_ok (us_of [51, 52])" "us_chars (us_of [51, 52]) = [51, 52]"
  "us_ok (us_of PSEUDO_CD)" "us_chars (us_of PSEUDO_CD) = PSEUDO_CD"
  by (simp_all add: us_ok_def us_of_def us_chars_def)

lemma env_demo_get:
  "env_get ascii_eq [80] env_demo_entries = Some [50, 50]"
  "env_get ascii_eq [65] env_demo_entries = Some [49]"
  "env_get ascii_eq PSEUDO_CD env_demo_entries = None"
  by (simp_all add: env_get_def env_demo_entries_def env_name_def env_value_def ascii_eq_def ascii_up_def)

lemma env_demo_request: "env_request_ok (us_of [80]) (Some (us_of [51, 52]))"
  by (simp add: env_request_ok_def us_of_small env_name_ok_def)

theorem query_environment_variable_witness:
  "\<exists>V s'. RtlQueryEnvironmentVariable_U ascii_eq id (\<lambda>_. STATUS_SUCCESS) (us_of [67]) (us_of [67]) NULL (us_of [80]) env_buffer env_demo =
     Some (STATUS_SUCCESS, V, s') \<and> us_chars V = [50, 50]"
proof -
  have "4 \<le> unat (us_MaximumLength env_buffer)" by (simp add: env_buffer_def)
  then show ?thesis
    using query_environment_variable [OF ascii_compare_ok env_demo_ok us_of_small(3) env_buffer_ok disjI1 [OF refl],
        of id "\<lambda>_. STATUS_SUCCESS" "us_of [67]" "us_of [67]"]
    by (auto simp: env_read_result_def us_of_small env_demo_get)
qed

theorem set_environment_variable_witness:
  "\<exists>s'. RtlSetEnvironmentVariable ascii_cmp env_demo_alloc DefaultEnvironment (Some (us_of [80])) (Some (us_of [51, 52])) env_demo =
      Some (STATUS_SUCCESS, DefaultEnvironment, s') \<and>
    env_ok ascii_cmp [[97, 61, 49], [80, 61, 51, 52]] s'"
proof -
  have "env_set ascii_cmp [80] (Some [51, 52]) env_demo_entries = [[97, 61, 49], [80, 61, 51, 52]]"
    by (simp add: env_set_def env_demo_entries_def env_hit_def env_name_def ascii_cmp_def ascii_up_def)
  then show ?thesis
    using set_environment_variable [OF ascii_compare_ok env_demo_ok env_demo_request env_demo_alloc_ok]
    by (auto simp: us_of_small)
qed

theorem environment_round_trip_witness:
  "\<exists>s' V s''. RtlSetEnvironmentVariable ascii_cmp env_demo_alloc DefaultEnvironment (Some (us_of [80])) (Some (us_of [51, 52])) env_demo =
      Some (STATUS_SUCCESS, DefaultEnvironment, s') \<and>
    RtlQueryEnvironmentVariable_U ascii_eq id (\<lambda>_. STATUS_SUCCESS) (us_of [67]) (us_of [67]) NULL (us_of [80]) env_buffer s' =
      Some (STATUS_SUCCESS, V, s'') \<and> us_chars V = [51, 52]"
proof -
  obtain s' where s': "RtlSetEnvironmentVariable ascii_cmp env_demo_alloc DefaultEnvironment (Some (us_of [80])) (Some (us_of [51, 52])) env_demo =
      Some (STATUS_SUCCESS, DefaultEnvironment, s')"
    using set_environment_variable_ok [OF ascii_compare_ok env_demo_ok env_demo_request env_demo_alloc_ok] by blast
  have eq: "ascii_eq (us_chars (us_of [80])) (us_chars (us_of [80]))" by (simp add: ascii_eq_def)
  have fit: "4 \<le> unat (us_MaximumLength env_buffer)" by (simp add: env_buffer_def)
  show ?thesis
    using environment_round_trip [OF ascii_compare_ok env_demo_ok env_demo_request env_demo_alloc_ok s'
        us_of_small(3) env_buffer_ok, of id "\<lambda>_. STATUS_SUCCESS" "us_of [67]" "us_of [67]"] eq fit s'
    by (auto simp: us_of_small)
qed

text \<open>Thread A has cleared the cache, thread B reads \<open>P\<close> with the environment given explicitly, A replaces
  the block, and the next read uses freed memory.\<close>

definition env_demo_cached :: environ where
  "env_demo_cached = env_demo\<lparr>en_CacheValid := True, en_CacheName := (64, 4, 2), en_CacheValue := (64, 6, 4)\<rparr>"

lemma env_demo_cached_ok: "env_ok ascii_cmp env_demo_entries env_demo_cached"
proof -
  have "env_cache_ok env_demo_entries env_demo_cached" unfolding env_cache_ok_def
    by (intro impI exI [of _ "[[97, 61, 49]]"] exI [of _ "[112, 61, 50, 50]"] exI [of _ "[]"] exI [of _ "[112]"])
      (simp add: env_demo_cached_def env_demo_def env_demo_entries_def env_name_def env_value_def)
  then show ?thesis using env_demo_ok by (simp add: env_ok_def env_demo_cached_def env_demo_def)
qed

text \<open>The cached state is what the explicit read leaves behind.\<close>

lemma env_demo_explicit_read:
  "\<exists>V. RtlQueryEnvironmentVariable_U ascii_eq id (\<lambda>_. STATUS_SUCCESS) (us_of [67]) (us_of [67]) 64 (us_of [80]) env_buffer env_demo =
     Some (STATUS_SUCCESS, V, env_demo_cached)"
proof -
  have blk: "env_block env_demo_entries = [97, 61, 49, 0, 112, 61, 50, 50, 0, 0]"
    by (simp add: env_demo_entries_def)
  have e: "en_Environment env_demo = 64" "en_Blocks env_demo 64 = Some [97, 61, 49, 0, 112, 61, 50, 50, 0, 0]"
      "\<not> en_CacheValid env_demo"
    by (simp_all add: env_demo_def blk)
  have scan: "env_query_scan ascii_eq [80] [97, 61, 49, 0, 112, 61, 50, 50, 0, 0] 0 = Some 4"
    by (simp add: env_query_scan.simps wcslen_at_def wcschr_at_def ascii_eq_def ascii_up_def Let_def)
  have st: "fst (env_store_value 4 [50, 50, 0, 0] env_buffer)"
    by (simp add: env_store_value_def env_buffer_def Let_def)
  then obtain V where V: "env_store_value 4 [50, 50, 0, 0] env_buffer = (True, V)"
    by (cases "env_store_value 4 [50, 50, 0, 0] env_buffer") auto
  have len: "us_Length (us_of [80]) = 2" by (simp add: us_of_def)
  have w: "wcslen_at [97, 61, 49, 0, 112, 61, 50, 50, 0, 0] 0 = 3" "wcslen_at [97, 61, 49, 0, 112, 61, 50, 50, 0, 0] 4 = 4"
    by (simp_all add: wcslen_at_def)
  show ?thesis
    by (simp add: RtlQueryEnvironmentVariable_U_def e us_of_small scan w len V Let_def)
      (simp add: env_demo_cached_def env_demo_def)
qed

theorem environment_cache_stale_witness:
  "\<exists>V e s'. set_environment_check (Some (us_of [80])) (Some (us_of [51, 52])) env_demo = (STATUS_SUCCESS, env_demo) \<and>
     RtlQueryEnvironmentVariable_U ascii_eq id (\<lambda>_. STATUS_SUCCESS) (us_of [67]) (us_of [67]) 64 (us_of [80]) env_buffer env_demo =
       Some (STATUS_SUCCESS, V, env_demo_cached) \<and>
     set_environment_apply ascii_cmp env_demo_alloc DefaultEnvironment (us_of [80]) (Some (us_of [51, 52])) env_demo_cached =
       Some (STATUS_SUCCESS, e, s') \<and>
     RtlQueryEnvironmentVariable_U ascii_eq id (\<lambda>_. STATUS_SUCCESS) (us_of [67]) (us_of [67]) NULL (us_of [65]) env_buffer s' = None"
proof -
  have chk: "set_environment_check (Some (us_of [80])) (Some (us_of [51, 52])) env_demo = (STATUS_SUCCESS, env_demo)"
    by (simp add: set_environment_check_def us_of_def env_demo_def)
  have blk: "set_environment_block ascii_cmp (us_of [80]) (Some (us_of [51, 52])) (Some (env_block env_demo_entries)) \<noteq> None"
    using set_block_entries [of env_demo_entries "us_of [80]" "Some (us_of [51, 52])" ascii_cmp] env_demo_ok
    by (simp add: us_of_small env_ok_def env_sorted_def Let_def)
  then obtain m New where b: "set_environment_block ascii_cmp (us_of [80]) (Some (us_of [51, 52])) (Some (env_block env_demo_entries)) =
      Some (m, New)" by auto
  have e: "en_Environment env_demo_cached = 64" "en_Blocks env_demo_cached 64 = Some (env_block env_demo_entries)"
    by (simp_all add: env_demo_cached_def env_demo_def)
  have ap: "\<exists>s'. set_environment_apply ascii_cmp env_demo_alloc DefaultEnvironment (us_of [80]) (Some (us_of [51, 52])) env_demo_cached =
      Some (STATUS_SUCCESS, DefaultEnvironment, s') \<and> en_Environment s' = 128"
    by (simp add: set_environment_apply_def e b env_demo_alloc_def Let_def)
  then obtain s' where s': "set_environment_apply ascii_cmp env_demo_alloc DefaultEnvironment (us_of [80]) (Some (us_of [51, 52])) env_demo_cached =
      Some (STATUS_SUCCESS, DefaultEnvironment, s')" "en_Environment s' \<noteq> en_Environment env_demo_cached"
    using e(1) by auto
  have v: "en_CacheValid env_demo_cached" by (simp add: env_demo_cached_def)
  show ?thesis
    using chk env_demo_explicit_read s'(1)
      environment_cache_stale [OF env_demo_cached_ok v s', of ascii_eq id "\<lambda>_. STATUS_SUCCESS" "us_of [67]" "us_of [67]" "us_of [65]" env_buffer]
    by blast
qed

theorem pseudo_variable_too_small_witness:
  "\<exists>V s'. RtlQueryEnvironmentVariable_U ascii_eq id (\<lambda>_. STATUS_SUCCESS) (us_of [67, 58, 92, 97, 98]) (us_of [67]) NULL
     (us_of PSEUDO_CD) env_buffer env_demo = Some (STATUS_SUCCESS, V, s') \<and> us_Buffer V = [0, 0, 0, 0]"
proof -
  have cd: "ascii_eq (us_chars (us_of PSEUDO_CD)) PSEUDO_CD" by (simp add: us_of_small ascii_eq_def)
  have none: "env_get ascii_eq (us_chars (us_of PSEUDO_CD)) env_demo_entries = None" by (simp add: us_of_small env_demo_get)
  have small: "us_MaximumLength env_buffer < us_Length (us_of [67, 58, 92, 97, 98])" by (simp add: env_buffer_def us_of_def)
  show ?thesis
    using pseudo_variable_too_small [OF ascii_compare_ok env_demo_ok us_of_small(7) env_buffer_ok none cd small,
        of id "\<lambda>_. STATUS_SUCCESS" "us_of [67]"]
    by (auto simp: env_buffer_def)
qed

end
