(* ===== verification/ModuleList.thy ===== *)
theory ModuleList
  imports UnicodeStrings "HOL-Library.Multiset"
begin

text \<open>
  The list of loaded modules and its reference counts (src/ldk.c). A module is registered with one
  reference, references are added by name, address or handle, and every module holds references on
  the modules it imports. Dropping the last reference unlinks the module under the lock, runs its
  detach routines, frees its image and drops the references it holds, which can unlink further
  modules. That recursion is a list of tasks here: one task is one call of \<open>LdkUnloadDll\<close> for a
  dependency, or the freeing of a module whose dependencies are released, and tasks of several
  threads can interleave because each takes the list lock on its own.
\<close>

section \<open>State\<close>

abbreviation LDK_MODULE_FLAG_PINNED :: u32 where "LDK_MODULE_FLAG_PINNED \<equiv> 1"
abbreviation LDK_MODULE_FLAG_PROCESS_ATTACHED :: u32 where "LDK_MODULE_FLAG_PROCESS_ATTACHED \<equiv> 2"
abbreviation LDK_MODULE_FLAG_THREAD_LIBRARY_CALLS_DISABLED :: u32 where
  "LDK_MODULE_FLAG_THREAD_LIBRARY_CALLS_DISABLED \<equiv> 4"
abbreviation LDK_MODULE_FLAG_RESOURCE_ONLY :: u32 where "LDK_MODULE_FLAG_RESOURCE_ONLY \<equiv> 8"
abbreviation LDK_TLS_OUT_OF_INDEXES :: u32 where "LDK_TLS_OUT_OF_INDEXES \<equiv> 0xFFFFFFFF"
abbreviation MAXLONG :: int where "MAXLONG \<equiv> 0x7FFFFFFF"

text \<open>\<open>md_FunctionTable\<close> is the table of a module that is built into the library, \<open>None\<close> while the
  pointer is \<open>NULL\<close>. A module is named by its address.\<close>

record ldk_module =
  md_ModuleName :: string
  md_FullPathName :: string
  md_FunctionTable :: "(string \<times> addr) list option"
  md_Base :: addr
  md_Size :: u32
  md_LoadCount :: int
  md_Flags :: u32
  md_TlsIndex :: u32
  md_DependencyList :: "addr list"

definition LDK_MODULE_HAS_UNREGISTRABLE :: "ldk_module \<Rightarrow> bool" where
  "LDK_MODULE_HAS_UNREGISTRABLE m \<longleftrightarrow> md_FunctionTable m = None"

text \<open>What the code does outside this state is recorded as events: the detach routines of an image
  and the freeing of the image and of the module.\<close>

datatype module_event = ModuleDetach addr | ModuleFreeImage addr | ModuleFree addr

record module_state =
  ml_ModuleListHead :: "addr list"
  ml_Module :: "addr \<Rightarrow> ldk_module"
  ml_Events :: "module_event list"

definition ml_update :: "addr \<Rightarrow> (ldk_module \<Rightarrow> ldk_module) \<Rightarrow> module_state \<Rightarrow> module_state" where
  "ml_update a f s = s\<lparr>ml_Module := (ml_Module s)(a := f (ml_Module s a))\<rparr>"

definition md_handle :: "module_state \<Rightarrow> addr \<Rightarrow> addr" where
  "md_handle s a = (if md_Base (ml_Module s a) \<noteq> NULL then md_Base (ml_Module s a) else a)"

section \<open>Registration and references\<close>

text \<open>\<open>alloc\<close> is the lookaside list, \<open>name\<close> and \<open>path\<close> the conversions of the two names.\<close>

definition LdkRegisterModule ::
  "addr option \<Rightarrow> ntstatus + string \<Rightarrow> ntstatus + string \<Rightarrow> addr \<Rightarrow> u32 \<Rightarrow> module_state \<Rightarrow>
     (ntstatus + addr) \<times> module_state" where
  "LdkRegisterModule alloc name path ImageBase ImageSize s =
     (case alloc of
        None \<Rightarrow> (Inl STATUS_INSUFFICIENT_RESOURCES, s)
      | Some a \<Rightarrow>
          (case name of
             Inl st \<Rightarrow> (Inl st, s)
           | Inr n \<Rightarrow>
               (case path of
                  Inl st \<Rightarrow> (Inl st, s)
                | Inr p \<Rightarrow>
                    (Inr a, s\<lparr>ml_Module := (ml_Module s)(a := \<lparr>md_ModuleName = n, md_FullPathName = p,
                       md_FunctionTable = None, md_Base = ImageBase, md_Size = ImageSize, md_LoadCount = 1,
                       md_Flags = 0, md_TlsIndex = LDK_TLS_OUT_OF_INDEXES, md_DependencyList = []\<rparr>),
                     ml_ModuleListHead := ml_ModuleListHead s @ [a]\<rparr>))))"

definition LdkpReferenceModuleLocked :: "addr \<Rightarrow> bool \<Rightarrow> bool \<Rightarrow> module_state \<Rightarrow> module_state" where
  "LdkpReferenceModuleLocked a Pin IncrementLoadCount s =
     (if \<not> LDK_MODULE_HAS_UNREGISTRABLE (ml_Module s a) then s
      else
        let s1 = (if Pin then ml_update a (\<lambda>m. m\<lparr>md_Flags := md_Flags m OR LDK_MODULE_FLAG_PINNED\<rparr>) s else s)
        in if IncrementLoadCount \<and> \<not> flag_on (md_Flags (ml_Module s1 a)) LDK_MODULE_FLAG_PINNED \<and>
              md_LoadCount (ml_Module s1 a) < MAXLONG
           then ml_update a (\<lambda>m. m\<lparr>md_LoadCount := md_LoadCount m + 1\<rparr>) s1
           else s1)"

definition LdkpModuleDependencyExists :: "addr list \<Rightarrow> addr \<Rightarrow> bool" where
  "LdkpModuleDependencyExists DependencyList a \<longleftrightarrow> a \<in> set DependencyList"

text \<open>\<open>pool\<close> tells whether the pool has room for the dependency.\<close>

definition LdkpAddModuleDependency ::
  "bool \<Rightarrow> addr list option \<Rightarrow> addr \<Rightarrow> bool \<Rightarrow> module_state \<Rightarrow> ntstatus \<times> addr list option \<times> module_state" where
  "LdkpAddModuleDependency pool DependencyList a IncrementLoadCount s =
     (case DependencyList of
        None \<Rightarrow> (STATUS_SUCCESS, None, s)
      | Some ds \<Rightarrow>
          if \<not> LDK_MODULE_HAS_UNREGISTRABLE (ml_Module s a) \<or> LdkpModuleDependencyExists ds a
          then (STATUS_SUCCESS, Some ds, s)
          else if \<not> pool then (STATUS_INSUFFICIENT_RESOURCES, Some ds, s)
          else (STATUS_SUCCESS, Some (ds @ [a]),
                if IncrementLoadCount then LdkpReferenceModuleLocked a False True s else s))"

section \<open>Lookups\<close>

definition LdkpGetModuleByBase :: "addr \<Rightarrow> module_state \<Rightarrow> ntstatus + addr" where
  "LdkpGetModuleByBase Base s =
     (if Base = NULL then Inl STATUS_INVALID_PARAMETER
      else case List.find (\<lambda>a. md_Base (ml_Module s a) = Base) (ml_ModuleListHead s) of
          None \<Rightarrow> Inl STATUS_NOT_FOUND | Some a \<Rightarrow> Inr a)"

definition LdkpModuleMatchesResourceMode :: "ldk_module \<Rightarrow> bool \<Rightarrow> bool" where
  "LdkpModuleMatchesResourceMode m ResourceOnly \<longleftrightarrow>
     flag_on (md_Flags m) LDK_MODULE_FLAG_RESOURCE_ONLY = ResourceOnly"

text \<open>\<open>ieq\<close> is \<open>_stricmp\<close> returning 0.\<close>

definition LdkpGetModuleByNameEx ::
  "(string \<Rightarrow> string \<Rightarrow> bool) \<Rightarrow> string \<Rightarrow> bool \<Rightarrow> module_state \<Rightarrow> ntstatus + addr" where
  "LdkpGetModuleByNameEx ieq ModuleName ResourceOnly s =
     (case List.find (\<lambda>a. LdkpModuleMatchesResourceMode (ml_Module s a) ResourceOnly \<and>
              ieq (md_ModuleName (ml_Module s a)) ModuleName) (ml_ModuleListHead s) of
        None \<Rightarrow> Inl STATUS_NOT_FOUND | Some a \<Rightarrow> Inr a)"

definition LdkpGetModuleByName ::
  "(string \<Rightarrow> string \<Rightarrow> bool) \<Rightarrow> string \<Rightarrow> module_state \<Rightarrow> ntstatus + addr" where
  "LdkpGetModuleByName ieq ModuleName s = LdkpGetModuleByNameEx ieq ModuleName False s"

definition LdkpReferenceModuleByNameEx ::
  "(string \<Rightarrow> string \<Rightarrow> bool) \<Rightarrow> string \<Rightarrow> bool \<Rightarrow> bool \<Rightarrow> bool \<Rightarrow> module_state \<Rightarrow> (ntstatus + addr) \<times> module_state" where
  "LdkpReferenceModuleByNameEx ieq ModuleName ResourceOnly Pin IncrementLoadCount s =
     (case LdkpGetModuleByNameEx ieq ModuleName ResourceOnly s of
        Inl st \<Rightarrow> (Inl st, s)
      | Inr a \<Rightarrow> (Inr a, LdkpReferenceModuleLocked a Pin IncrementLoadCount s))"

definition LdkReferenceModuleByName ::
  "(string \<Rightarrow> string \<Rightarrow> bool) \<Rightarrow> string \<Rightarrow> bool \<Rightarrow> bool \<Rightarrow> module_state \<Rightarrow> (ntstatus + addr) \<times> module_state" where
  "LdkReferenceModuleByName ieq ModuleName Pin IncrementLoadCount s =
     LdkpReferenceModuleByNameEx ieq ModuleName False Pin IncrementLoadCount s"

definition LdkGetModuleByAddress :: "addr \<Rightarrow> module_state \<Rightarrow> ntstatus + addr" where
  "LdkGetModuleByAddress Address s =
     (case List.find (\<lambda>a. let ImageBase = md_Base (ml_Module s a) in
              ImageBase \<noteq> NULL \<and> ImageBase < Address \<and>
              ImageBase + unat (md_Size (ml_Module s a)) \<ge> Address) (ml_ModuleListHead s) of
        None \<Rightarrow> Inl STATUS_NOT_FOUND | Some a \<Rightarrow> Inr a)"

definition LdkReferenceModuleByAddress ::
  "addr \<Rightarrow> bool \<Rightarrow> bool \<Rightarrow> module_state \<Rightarrow> (ntstatus + addr) \<times> module_state" where
  "LdkReferenceModuleByAddress Address Pin IncrementLoadCount s =
     (case List.find (\<lambda>a. let ImageBase = md_Base (ml_Module s a) in
              ImageBase \<noteq> NULL \<and> \<not> flag_on (md_Flags (ml_Module s a)) LDK_MODULE_FLAG_RESOURCE_ONLY \<and>
              ImageBase \<le> Address \<and>
              ImageBase + unat (md_Size (ml_Module s a)) > Address) (ml_ModuleListHead s) of
        None \<Rightarrow> (Inl STATUS_NOT_FOUND, s)
      | Some a \<Rightarrow> (Inr a, LdkpReferenceModuleLocked a Pin IncrementLoadCount s))"

text \<open>\<open>path\<close> is the ANSI form of the name, or the status of its conversion.\<close>

definition module_at_path :: "(string \<Rightarrow> string \<Rightarrow> bool) \<Rightarrow> string \<Rightarrow> module_state \<Rightarrow> addr option" where
  "module_at_path ieq p s = List.find (\<lambda>a.
     \<not> flag_on (md_Flags (ml_Module s a)) LDK_MODULE_FLAG_RESOURCE_ONLY \<and>
     ieq (md_FullPathName (ml_Module s a)) p) (ml_ModuleListHead s)"

definition LdkpGetModuleByNtPath ::
  "(string \<Rightarrow> string \<Rightarrow> bool) \<Rightarrow> ntstatus + string \<Rightarrow> module_state \<Rightarrow> ntstatus + addr" where
  "LdkpGetModuleByNtPath ieq path s =
     (case path of
        Inl st \<Rightarrow> Inl st
      | Inr p \<Rightarrow> (case module_at_path ieq p s of None \<Rightarrow> Inl STATUS_NOT_FOUND | Some a \<Rightarrow> Inr a))"

definition LdkpReferenceModuleByNtPath ::
  "(string \<Rightarrow> string \<Rightarrow> bool) \<Rightarrow> ntstatus + string \<Rightarrow> bool \<Rightarrow> bool \<Rightarrow> module_state \<Rightarrow> (ntstatus + addr) \<times> module_state" where
  "LdkpReferenceModuleByNtPath ieq path Pin IncrementLoadCount s =
     (case path of
        Inl st \<Rightarrow> (Inl st, s)
      | Inr p \<Rightarrow> (case module_at_path ieq p s of
            None \<Rightarrow> (Inl STATUS_NOT_FOUND, s)
          | Some a \<Rightarrow> (Inr a, LdkpReferenceModuleLocked a Pin IncrementLoadCount s)))"

text \<open>A handle is a base address or, for a module without an image, the address of the module.\<close>

definition module_of_handle :: "addr \<Rightarrow> module_state \<Rightarrow> ntstatus + addr" where
  "module_of_handle DllHandle s =
     (case LdkpGetModuleByBase DllHandle s of
        Inr a \<Rightarrow> Inr a
      | Inl st \<Rightarrow> if DllHandle \<in> set (ml_ModuleListHead s) then Inr DllHandle else Inl st)"

abbreviation LDR_ADDREF_DLL_PIN :: u32 where "LDR_ADDREF_DLL_PIN \<equiv> 1"

definition LdkAddRefDll :: "u32 \<Rightarrow> addr \<Rightarrow> module_state \<Rightarrow> ntstatus \<times> module_state" where
  "LdkAddRefDll Flags DllHandle s =
     (if flag_on Flags (NOT LDR_ADDREF_DLL_PIN) then (STATUS_INVALID_PARAMETER, s)
      else if DllHandle = NULL then (STATUS_INVALID_PARAMETER, s)
      else case module_of_handle DllHandle s of
          Inl st \<Rightarrow> (st, s)
        | Inr a \<Rightarrow> (STATUS_SUCCESS, LdkpReferenceModuleLocked a (flag_on Flags LDR_ADDREF_DLL_PIN) True s))"

definition LdkDisableThreadLibraryCalls :: "addr \<Rightarrow> module_state \<Rightarrow> ntstatus \<times> module_state" where
  "LdkDisableThreadLibraryCalls DllHandle s =
     (if DllHandle = NULL then (STATUS_INVALID_HANDLE, s)
      else case LdkpGetModuleByBase DllHandle s of
          Inl st \<Rightarrow> (st, s)
        | Inr a \<Rightarrow>
            if LDK_MODULE_HAS_UNREGISTRABLE (ml_Module s a) \<and> md_Base (ml_Module s a) \<noteq> NULL \<and>
               flag_on (md_Flags (ml_Module s a)) LDK_MODULE_FLAG_PROCESS_ATTACHED
            then (STATUS_SUCCESS, ml_update a
              (\<lambda>m. m\<lparr>md_Flags := md_Flags m OR LDK_MODULE_FLAG_THREAD_LIBRARY_CALLS_DISABLED\<rparr>) s)
            else (STATUS_INVALID_HANDLE, s))"

section \<open>Dropping references\<close>

datatype module_task = TaskRelease addr | TaskFree addr

text \<open>The locked part of \<open>LdkUnloadDll\<close>: the status, the module to unregister, the new list.\<close>

definition LdkUnloadDll_locked :: "addr \<Rightarrow> module_state \<Rightarrow> ntstatus \<times> addr option \<times> module_state" where
  "LdkUnloadDll_locked DllHandle s =
     (case module_of_handle DllHandle s of
        Inl st \<Rightarrow> (st, None, s)
      | Inr a \<Rightarrow>
          if LDK_MODULE_HAS_UNREGISTRABLE (ml_Module s a) \<and>
             \<not> flag_on (md_Flags (ml_Module s a)) LDK_MODULE_FLAG_PINNED
          then if md_LoadCount (ml_Module s a) > 1
            then (STATUS_SUCCESS, None, ml_update a (\<lambda>m. m\<lparr>md_LoadCount := md_LoadCount m - 1\<rparr>) s)
            else (STATUS_SUCCESS, Some a,
                  (ml_update a (\<lambda>m. m\<lparr>md_LoadCount := 0\<rparr>) s)
                    \<lparr>ml_ModuleListHead := remove1 a (ml_ModuleListHead s)\<rparr>)
          else (STATUS_SUCCESS, None, s))"

text \<open>\<open>LdkpUnregisterModule\<close> up to the release of the dependencies: the tasks left, from the tail of
  the dependency list to its head and then the freeing of the module itself.\<close>

definition LdkpUnregisterModule :: "addr \<Rightarrow> module_state \<Rightarrow> module_task list \<times> module_state" where
  "LdkpUnregisterModule a s =
     (let m = ml_Module s a in
      if LDK_MODULE_HAS_UNREGISTRABLE m then
        (map TaskRelease (rev (md_DependencyList m)) @ [TaskFree a],
         if md_Base m \<noteq> NULL
         then (ml_update a (\<lambda>m. m\<lparr>md_TlsIndex := LDK_TLS_OUT_OF_INDEXES\<rparr>) s)\<lparr>ml_Events :=
           ModuleFreeImage a # (if flag_on (md_Flags m) LDK_MODULE_FLAG_PROCESS_ATTACHED then [ModuleDetach a] else []) @
           ml_Events s\<rparr>
         else s)
      else ([], s))"

text \<open>One task: a call of \<open>LdkUnloadDll\<close> on a dependency with the unregistration it starts, or the
  freeing of an unlinked module.\<close>

fun module_task_step :: "module_task \<Rightarrow> module_state \<Rightarrow> module_task list \<times> module_state" where
  "module_task_step (TaskRelease d) s =
     (case LdkUnloadDll_locked (md_handle s d) s of
        (st, None, s1) \<Rightarrow> ([], s1)
      | (st, Some a, s1) \<Rightarrow> LdkpUnregisterModule a s1)"
| "module_task_step (TaskFree a) s = ([], s\<lparr>ml_Events := ModuleFree a # ml_Events s\<rparr>)"

section \<open>Running the tasks\<close>

lemma module_of_handle_listed: "module_of_handle h s = Inr a \<Longrightarrow> a \<in> set (ml_ModuleListHead s)"
  unfolding module_of_handle_def LdkpGetModuleByBase_def
  by (auto split: if_splits option.splits sum.splits dest: find_Some_in_set)

lemma LdkUnloadDll_locked_cases:
  obtains st where "LdkUnloadDll_locked h s = (st, None, s)"
  | a where "a \<in> set (ml_ModuleListHead s)" "module_of_handle h s = Inr a" "md_FunctionTable (ml_Module s a) = None"
      "\<not> flag_on (md_Flags (ml_Module s a)) LDK_MODULE_FLAG_PINNED" "md_LoadCount (ml_Module s a) > 1"
      "LdkUnloadDll_locked h s =
         (STATUS_SUCCESS, None, ml_update a (\<lambda>m. m\<lparr>md_LoadCount := md_LoadCount m - 1\<rparr>) s)"
  | a where "a \<in> set (ml_ModuleListHead s)" "module_of_handle h s = Inr a" "md_FunctionTable (ml_Module s a) = None"
      "\<not> flag_on (md_Flags (ml_Module s a)) LDK_MODULE_FLAG_PINNED" "md_LoadCount (ml_Module s a) \<le> 1"
      "LdkUnloadDll_locked h s = (STATUS_SUCCESS, Some a,
         (ml_update a (\<lambda>m. m\<lparr>md_LoadCount := 0\<rparr>) s)\<lparr>ml_ModuleListHead := remove1 a (ml_ModuleListHead s)\<rparr>)"
proof (cases "module_of_handle h s")
  case (Inl st)
  then have "LdkUnloadDll_locked h s = (st, None, s)" by (simp add: LdkUnloadDll_locked_def)
  then show ?thesis by (rule that)
next
  case (Inr a)
  note a = module_of_handle_listed [OF Inr]
  show ?thesis
  proof (cases "LDK_MODULE_HAS_UNREGISTRABLE (ml_Module s a) \<and>
             \<not> flag_on (md_Flags (ml_Module s a)) LDK_MODULE_FLAG_PINNED")
    case False
    then have "LdkUnloadDll_locked h s = (STATUS_SUCCESS, None, s)"
      unfolding LdkUnloadDll_locked_def by (simp only: Inr sum.case if_not_P [OF False] if_False)
    then show ?thesis by (rule that)
  next
    case True
    then show ?thesis
      using a Inr that unfolding LdkUnloadDll_locked_def LDK_MODULE_HAS_UNREGISTRABLE_def
      by (cases "md_LoadCount (ml_Module s a) > 1") simp_all
  qed
qed

lemma unregister_list [simp]:
  "ml_ModuleListHead (snd (LdkpUnregisterModule a s)) = ml_ModuleListHead s"
  by (simp add: LdkpUnregisterModule_def ml_update_def Let_def)

lemma module_task_step_less:
  "(ts', s') = module_task_step t s \<Longrightarrow>
     length (ml_ModuleListHead s') < length (ml_ModuleListHead s) \<or>
     ml_ModuleListHead s' = ml_ModuleListHead s \<and> ts' = []"
proof (cases t)
  case (TaskRelease d)
  assume step: "(ts', s') = module_task_step t s"
  show ?thesis
  proof (cases rule: LdkUnloadDll_locked_cases [of "md_handle s d" s])
    case (1 st)
    then show ?thesis using step by (simp add: TaskRelease)
  next
    case (2 a)
    then show ?thesis using step by (simp add: TaskRelease ml_update_def)
  next
    case (3 a)
    then have "ml_ModuleListHead s' = remove1 a (ml_ModuleListHead s)"
      using step unregister_list
      by (metis (no_types, lifting) TaskRelease module_task_step.simps(1) old.prod.case option.simps(5) snd_conv
          module_state.select_convs(1) module_state.surjective module_state.update_convs(1))
    moreover have "0 < length (ml_ModuleListHead s)" using 3(1) by (cases "ml_ModuleListHead s") auto
    ultimately show ?thesis using 3(1) by (simp add: length_remove1)
  qed
qed simp

function module_run :: "module_task list \<Rightarrow> module_state \<Rightarrow> module_state" where
  "module_run [] s = s"
| "module_run (t # ts) s = (case module_task_step t s of (ts', s') \<Rightarrow> module_run (ts' @ ts) s')"
  by pat_completeness auto

termination
  by (relation "measures [\<lambda>(ts, s). length (ml_ModuleListHead s), \<lambda>(ts, s). length ts]")
     (auto dest: module_task_step_less)

definition LdkUnloadDll :: "addr \<Rightarrow> module_state \<Rightarrow> ntstatus \<times> module_state" where
  "LdkUnloadDll DllHandle s =
     (case LdkUnloadDll_locked DllHandle s of
        (Status, None, s1) \<Rightarrow> (Status, s1)
      | (Status, Some a, s1) \<Rightarrow>
          (case LdkpUnregisterModule a s1 of (ts, s2) \<Rightarrow> (Status, module_run ts s2)))"

text \<open>The list is emptied from its tail.\<close>

definition LdkpReleaseModuleDependencies :: "addr list \<Rightarrow> module_state \<Rightarrow> module_state" where
  "LdkpReleaseModuleDependencies DependencyList s = module_run (map TaskRelease (rev DependencyList)) s"

definition LdkpMoveModuleDependencies :: "addr \<Rightarrow> addr list \<Rightarrow> module_state \<Rightarrow> module_state" where
  "LdkpMoveModuleDependencies a SourceList s =
     ml_update a (\<lambda>m. m\<lparr>md_DependencyList := md_DependencyList m @ SourceList\<rparr>) s"

lemma module_run_list_le: "length (ml_ModuleListHead (module_run ts s)) \<le> length (ml_ModuleListHead s)"
proof (induction ts s rule: module_run.induct)
  case (2 t ts s)
  obtain ts' s' where st: "module_task_step t s = (ts', s')" by (cases "module_task_step t s")
  show ?case using 2 [OF st [symmetric]] module_task_step_less [OF st [symmetric]] by (auto simp: st)
qed simp

lemma terminate_modules_less:
  assumes "ml_ModuleListHead s \<noteq> []"
    and "LdkpUnregisterModule a (s\<lparr>ml_ModuleListHead := butlast (ml_ModuleListHead s)\<rparr>) = (ts, s2)"
  shows "length (ml_ModuleListHead (module_run ts s2)) < length (ml_ModuleListHead s)"
proof -
  have "ml_ModuleListHead s2 = butlast (ml_ModuleListHead s)"
    using unregister_list [of a "s\<lparr>ml_ModuleListHead := butlast (ml_ModuleListHead s)\<rparr>"] assms(2) by simp
  then have "length (ml_ModuleListHead (module_run ts s2)) \<le> length (ml_ModuleListHead s) - 1"
    using module_run_list_le [of ts s2] by simp
  moreover have "0 < length (ml_ModuleListHead s)" using assms(1) by simp
  ultimately show ?thesis by linarith
qed

text \<open>The loop of \<open>LdkTerminate\<close> over the modules: it takes the last one off the list, whatever its
  count is, and unregisters it.\<close>

function terminate_modules :: "module_state \<Rightarrow> module_state" where
  "terminate_modules s =
     (if ml_ModuleListHead s = [] then s
      else let a = last (ml_ModuleListHead s);
               s1 = s\<lparr>ml_ModuleListHead := butlast (ml_ModuleListHead s)\<rparr>
           in case LdkpUnregisterModule a s1 of (ts, s2) \<Rightarrow> terminate_modules (module_run ts s2))"
  by pat_completeness auto

termination
  by (relation "measure (\<lambda>s. length (ml_ModuleListHead s))")
     (use terminate_modules_less in auto)

declare terminate_modules.simps [simp del]

end
