(* ===== verification/ModuleReferences.thy ===== *)
theory ModuleReferences
  imports ModuleList
begin

text \<open>
  The reference counts of the module list (src/ldk.c) under any interleaving of loads, lookups,
  references, unloads and the releases they start. Beside the list the machine keeps who refers to
  a module: the handles given to callers, the loads under way with the dependencies they have
  collected, the references the code has dropped without releasing them, and the releases under way,
  which are the tasks of the theory ModuleList. The count of a module is the number of these references
  and of the dependency entries that name it, as long as none of three faults of the code has happened,
  which the machine records: an import that was looked up without a reference and was gone when it was
  recorded as a dependency, an import recorded under another module than the one that was loaded for
  it, and a count at its maximum.
\<close>

section \<open>Thread notification snapshots\<close>

definition snapshot_member :: "u32 \<Rightarrow> ldk_module \<Rightarrow> bool" where
  "snapshot_member ExcludedFlags m \<longleftrightarrow> md_Base m \<noteq> NULL \<and>
     flag_on (md_Flags m) LDK_MODULE_FLAG_PROCESS_ATTACHED \<and> \<not> flag_on (md_Flags m) ExcludedFlags"

text \<open>\<open>pool\<close> tells whether the array can be allocated. The references are taken while the list is
  walked; taking one does not change which modules qualify.\<close>

definition LdkpReferenceProcessAttachedModuleSnapshot ::
  "bool \<Rightarrow> u32 \<Rightarrow> module_state \<Rightarrow> ntstatus \<times> addr list \<times> module_state" where
  "LdkpReferenceProcessAttachedModuleSnapshot pool ExcludedFlags s =
     (let Snapshot = filter (\<lambda>a. snapshot_member ExcludedFlags (ml_Module s a)) (ml_ModuleListHead s) in
      if Snapshot = [] then (STATUS_SUCCESS, [], s)
      else if \<not> pool then (STATUS_INSUFFICIENT_RESOURCES, [], s)
      else (STATUS_SUCCESS, Snapshot, fold (\<lambda>a. LdkpReferenceModuleLocked a False True) Snapshot s))"

definition LdkpReleaseProcessAttachedModuleSnapshot :: "addr list \<Rightarrow> module_state \<Rightarrow> module_state" where
  "LdkpReleaseProcessAttachedModuleSnapshot Modules s =
     fold (\<lambda>a s. snd (LdkUnloadDll (md_Base (ml_Module s a)) s)) Modules s"

section \<open>The invariant\<close>

definition unpinned :: "ldk_module \<Rightarrow> bool" where
  "unpinned m \<longleftrightarrow> md_FunctionTable m = None \<and> \<not> flag_on (md_Flags m) LDK_MODULE_FLAG_PINNED"

text \<open>The shape of the list: no module twice, handles name one module, the modules a module depends on
  are listed before it.\<close>

definition ml_shape :: "module_state \<Rightarrow> bool" where
  "ml_shape s \<longleftrightarrow>
     distinct (ml_ModuleListHead s) \<and> NULL \<notin> set (ml_ModuleListHead s) \<and>
     (\<forall>a\<in>set (ml_ModuleListHead s). \<forall>b\<in>set (ml_ModuleListHead s).
        md_Base (ml_Module s a) \<noteq> NULL \<and> md_Base (ml_Module s a) = md_Base (ml_Module s b) \<longrightarrow> a = b) \<and>
     (\<forall>a\<in>set (ml_ModuleListHead s). \<forall>b\<in>set (ml_ModuleListHead s). md_Base (ml_Module s a) \<noteq> b) \<and>
     (\<forall>a\<in>set (ml_ModuleListHead s). set (md_DependencyList (ml_Module s a)) \<subseteq> set (ml_ModuleListHead s) - {a}) \<and>
     (\<forall>a\<in>set (ml_ModuleListHead s). md_FunctionTable (ml_Module s a) \<noteq> None \<longrightarrow>
        md_DependencyList (ml_Module s a) = []) \<and>
     sorted_wrt (\<lambda>a b. b \<notin> set (md_DependencyList (ml_Module s a))) (ml_ModuleListHead s)"

definition dep_refs :: "module_state \<Rightarrow> addr \<Rightarrow> nat" where
  "dep_refs s a = (\<Sum>m\<leftarrow>ml_ModuleListHead s. count_list (md_DependencyList (ml_Module s m)) a)"

definition module_refs :: "(addr \<Rightarrow> nat) \<Rightarrow> module_task multiset \<Rightarrow> module_state \<Rightarrow> addr \<Rightarrow> nat" where
  "module_refs ext tasks s a = ext a + dep_refs s a + count tasks (TaskRelease a)"

definition ml_counts :: "(addr \<Rightarrow> nat) \<Rightarrow> module_task multiset \<Rightarrow> module_state \<Rightarrow> bool" where
  "ml_counts ext tasks s \<longleftrightarrow>
     (\<forall>a\<in>set (ml_ModuleListHead s). unpinned (ml_Module s a) \<longrightarrow>
        0 < md_LoadCount (ml_Module s a) \<and> md_LoadCount (ml_Module s a) = int (module_refs ext tasks s a))"

definition ml_targets :: "(addr \<Rightarrow> nat) \<Rightarrow> module_task multiset \<Rightarrow> module_state \<Rightarrow> bool" where
  "ml_targets ext tasks s \<longleftrightarrow>
     (\<forall>a. 0 < ext a \<longrightarrow> a \<in> set (ml_ModuleListHead s)) \<and>
     (\<forall>a. TaskRelease a \<in># tasks \<longrightarrow> a \<in> set (ml_ModuleListHead s)) \<and>
     (\<forall>a. TaskFree a \<in># tasks \<longrightarrow> a \<notin> set (ml_ModuleListHead s) \<and> count tasks (TaskFree a) = 1)"

definition ml_inv :: "(addr \<Rightarrow> nat) \<Rightarrow> module_task multiset \<Rightarrow> module_state \<Rightarrow> bool" where
  "ml_inv ext tasks s \<longleftrightarrow> ml_shape s \<and> ml_counts ext tasks s \<and> ml_targets ext tasks s"

lemma ml_counts_cong:
  "module_refs ext tasks s = module_refs ext' tasks' s \<Longrightarrow> ml_counts ext tasks s = ml_counts ext' tasks' s"
  by (simp only: ml_counts_def)

lemma ml_countsD:
  assumes "ml_inv ext tasks s" and "a \<in> set (ml_ModuleListHead s)" and "unpinned (ml_Module s a)"
  shows "0 < md_LoadCount (ml_Module s a)"
    and "md_LoadCount (ml_Module s a) = int (module_refs ext tasks s a)"
  using assms unfolding ml_inv_def ml_counts_def by blast+

section \<open>What an operation leaves alone\<close>

definition ml_frame :: "module_state \<Rightarrow> module_state \<Rightarrow> bool" where
  "ml_frame s s' \<longleftrightarrow> ml_ModuleListHead s' = ml_ModuleListHead s \<and>
     (\<forall>m. md_Base (ml_Module s' m) = md_Base (ml_Module s m) \<and>
          md_FunctionTable (ml_Module s' m) = md_FunctionTable (ml_Module s m) \<and>
          md_DependencyList (ml_Module s' m) = md_DependencyList (ml_Module s m))"

lemma ml_frame_refl [simp, intro]: "ml_frame s s"
  by (simp add: ml_frame_def)

lemma ml_frame_trans [trans]: "ml_frame s s' \<Longrightarrow> ml_frame s' s'' \<Longrightarrow> ml_frame s s''"
  by (simp add: ml_frame_def)

lemma ml_frame_list: "ml_frame s s' \<Longrightarrow> ml_ModuleListHead s' = ml_ModuleListHead s"
  by (simp add: ml_frame_def)

lemma ml_frame_shape: "ml_frame s s' \<Longrightarrow> ml_shape s' = ml_shape s"
  by (simp add: ml_frame_def ml_shape_def)

lemma ml_frame_refs: "ml_frame s s' \<Longrightarrow> module_refs ext tasks s' = module_refs ext tasks s"
  by (simp add: ml_frame_def module_refs_def dep_refs_def fun_eq_iff)

lemma ml_frame_targets: "ml_frame s s' \<Longrightarrow> ml_targets ext tasks s' = ml_targets ext tasks s"
  by (simp add: ml_frame_def ml_targets_def)

lemma ml_frame_update:
  "(\<And>m. md_Base (f m) = md_Base m \<and> md_FunctionTable (f m) = md_FunctionTable m \<and>
      md_DependencyList (f m) = md_DependencyList m) \<Longrightarrow> ml_frame s (ml_update a f s)"
  by (simp add: ml_frame_def ml_update_def)

text \<open>A reference is an update of the one module.\<close>

definition referenced :: "bool \<Rightarrow> bool \<Rightarrow> ldk_module \<Rightarrow> ldk_module" where
  "referenced p i m =
     (if md_FunctionTable m \<noteq> None then m
      else let m1 = (if p then m\<lparr>md_Flags := md_Flags m OR LDK_MODULE_FLAG_PINNED\<rparr> else m)
        in if i \<and> \<not> flag_on (md_Flags m1) LDK_MODULE_FLAG_PINNED \<and> md_LoadCount m1 < MAXLONG
           then m1\<lparr>md_LoadCount := md_LoadCount m1 + 1\<rparr> else m1)"

lemma ml_update_same: "f (ml_Module s a) = ml_Module s a \<Longrightarrow> ml_update a f s = s"
  by (simp add: ml_update_def)

lemma reference_update: "LdkpReferenceModuleLocked a p i s = ml_update a (referenced p i) s"
proof (cases "md_FunctionTable (ml_Module s a) = None")
  case False
  then have "referenced p i (ml_Module s a) = ml_Module s a" by (simp add: referenced_def)
  then show ?thesis
    using False by (simp add: LdkpReferenceModuleLocked_def LDK_MODULE_HAS_UNREGISTRABLE_def ml_update_same)
next
  case True
  then show ?thesis
    by (cases p) (simp_all add: LdkpReferenceModuleLocked_def LDK_MODULE_HAS_UNREGISTRABLE_def
      ml_update_def referenced_def Let_def)
qed

lemma frame_reference: "ml_frame s (LdkpReferenceModuleLocked a p i s)"
  unfolding reference_update by (rule ml_frame_update) (simp add: referenced_def Let_def)

section \<open>Taking a reference\<close>

lemma flag_on_or_same [simp]: "w \<noteq> 0 \<Longrightarrow> flag_on (f OR w) w"
proof -
  have "(f OR w) AND w = w" by (simp add: bit_eq_iff bit_simps)
  then show "w \<noteq> 0 \<Longrightarrow> flag_on (f OR w) w" by (simp add: flag_on_def)
qed

lemma flag_on_or_other: "w AND v = 0 \<Longrightarrow> flag_on (f OR w) v = flag_on f v"
  by (simp add: flag_on_def bit.conj_disj_distrib2)

lemma unpinned_referenced: "unpinned (referenced p i m) \<longleftrightarrow> unpinned m \<and> \<not> p"
  by (cases p) (simp_all add: referenced_def unpinned_def Let_def)

lemma count_referenced:
  "unpinned (referenced p i m) \<Longrightarrow> md_LoadCount (referenced p i m) =
     md_LoadCount m + (if i \<and> md_LoadCount m < MAXLONG then 1 else 0)"
  unfolding unpinned_referenced by (simp add: referenced_def unpinned_def Let_def)

lemma reference_effect:
  fixes a p i s defines "s' \<equiv> LdkpReferenceModuleLocked a p i s"
  shows "b \<noteq> a \<Longrightarrow> ml_Module s' b = ml_Module s b"
    and "unpinned (ml_Module s' a) \<longleftrightarrow> unpinned (ml_Module s a) \<and> \<not> p"
    and "unpinned (ml_Module s' a) \<Longrightarrow> md_LoadCount (ml_Module s' a) =
           md_LoadCount (ml_Module s a) + (if i \<and> md_LoadCount (ml_Module s a) < MAXLONG then 1 else 0)"
  unfolding s'_def reference_update ml_update_def
  by (simp_all add: unpinned_referenced count_referenced)

lemma counts_reference:
  assumes c: "ml_counts ext tasks s" and less: "i \<Longrightarrow> unpinned (ml_Module s a) \<Longrightarrow> md_LoadCount (ml_Module s a) < MAXLONG"
  shows "ml_counts (if i then ext(a := ext a + 1) else ext) tasks (LdkpReferenceModuleLocked a p i s)"
    (is "ml_counts ?ext tasks ?s")
  unfolding ml_counts_def
proof (intro ballI impI)
  fix b assume b: "b \<in> set (ml_ModuleListHead ?s)" and u: "unpinned (ml_Module ?s b)"
  have bl: "b \<in> set (ml_ModuleListHead s)" using b ml_frame_list [OF frame_reference] by simp
  have r: "module_refs ?ext tasks ?s b = module_refs ext tasks s b + (if i \<and> b = a then 1 else 0)"
    by (simp add: ml_frame_refs [OF frame_reference] module_refs_def)
  show "0 < md_LoadCount (ml_Module ?s b) \<and> md_LoadCount (ml_Module ?s b) = int (module_refs ?ext tasks ?s b)"
  proof (cases "b = a")
    case True
    then have old: "unpinned (ml_Module s a) \<and> \<not> p" using u reference_effect(2) by blast
    have "md_LoadCount (ml_Module ?s a) = md_LoadCount (ml_Module s a) + (if i then 1 else 0)"
      using reference_effect(3) [of a p i s] u True less old by auto
    then show ?thesis using c bl old True r unfolding ml_counts_def by auto
  next
    case False
    then have "ml_Module ?s b = ml_Module s b" by (rule reference_effect(1))
    then show ?thesis using c bl u r False unfolding ml_counts_def by auto
  qed
qed

lemma inv_reference:
  assumes "ml_inv ext tasks s" and "i \<Longrightarrow> a \<in> set (ml_ModuleListHead s)"
    and "i \<Longrightarrow> unpinned (ml_Module s a) \<Longrightarrow> md_LoadCount (ml_Module s a) < MAXLONG"
  shows "ml_inv (if i then ext(a := ext a + 1) else ext) tasks (LdkpReferenceModuleLocked a p i s)"
proof -
  have "ml_targets (if i then ext(a := ext a + 1) else ext) tasks s"
    using assms(1, 2) unfolding ml_inv_def ml_targets_def by simp
  then show ?thesis
    using assms(1, 3) counts_reference [of ext tasks s i a p] frame_reference [of s a p i]
    unfolding ml_inv_def by (simp add: ml_frame_shape ml_frame_targets)
qed

lemma inv_flags:
  assumes "ml_inv ext tasks s" and "f AND LDK_MODULE_FLAG_PINNED = 0"
  shows "ml_inv ext tasks (ml_update a (\<lambda>m. m\<lparr>md_Flags := md_Flags m OR f\<rparr>) s)" (is "ml_inv ext tasks ?s")
proof -
  have fr: "ml_frame s ?s" by (rule ml_frame_update) simp
  have "unpinned (ml_Module ?s b) = unpinned (ml_Module s b)"
    and "md_LoadCount (ml_Module ?s b) = md_LoadCount (ml_Module s b)" for b
    by (simp_all add: ml_update_def unpinned_def flag_on_or_other [OF assms(2)])
  then have "ml_counts ext tasks ?s = ml_counts ext tasks s"
    unfolding ml_counts_def by (simp only: ml_frame_list [OF fr] ml_frame_refs [OF fr])
  then show ?thesis using assms(1) fr unfolding ml_inv_def by (simp add: ml_frame_shape ml_frame_targets)
qed

section \<open>Dropping a reference\<close>

lemma handle_names_module:
  assumes "ml_shape s" and "a \<in> set (ml_ModuleListHead s)"
  shows "module_of_handle (md_handle s a) s = Inr a"
proof (cases "md_Base (ml_Module s a) = NULL")
  case False
  have "List.find (\<lambda>b. md_Base (ml_Module s b) = md_Base (ml_Module s a)) (ml_ModuleListHead s) = Some a"
  proof (cases "List.find (\<lambda>b. md_Base (ml_Module s b) = md_Base (ml_Module s a)) (ml_ModuleListHead s)")
    case None
    then have False using assms(2) unfolding find_None_iff_all by blast
    then show ?thesis ..
  next
    case (Some b)
    then show ?thesis using find_Some_in_set [OF Some] assms False unfolding ml_shape_def by metis
  qed
  then show ?thesis using False by (simp add: module_of_handle_def LdkpGetModuleByBase_def md_handle_def)
next
  case True
  have "List.find (\<lambda>b. md_Base (ml_Module s b) = a) (ml_ModuleListHead s) = None"
    using assms unfolding ml_shape_def find_None_iff_all by blast
  moreover have "a \<noteq> NULL" using assms unfolding ml_shape_def by metis
  ultimately show ?thesis
    using True assms(2) by (simp add: module_of_handle_def LdkpGetModuleByBase_def md_handle_def)
qed

text \<open>What the release of a listed module does, in three cases.\<close>

lemma release_cases:
  assumes "ml_inv ext tasks s" and a: "a \<in> set (ml_ModuleListHead s)"
  obtains (kept) "\<not> unpinned (ml_Module s a)" "module_task_step (TaskRelease a) s = ([], s)"
  | (counted) "unpinned (ml_Module s a)" "md_LoadCount (ml_Module s a) > 1"
      "module_task_step (TaskRelease a) s =
         ([], ml_update a (\<lambda>m. m\<lparr>md_LoadCount := md_LoadCount m - 1\<rparr>) s)"
  | (last) "unpinned (ml_Module s a)" "md_LoadCount (ml_Module s a) = 1"
      "module_task_step (TaskRelease a) s = LdkpUnregisterModule a
         ((ml_update a (\<lambda>m. m\<lparr>md_LoadCount := 0\<rparr>) s)\<lparr>ml_ModuleListHead := remove1 a (ml_ModuleListHead s)\<rparr>)"
proof -
  have h: "module_of_handle (md_handle s a) s = Inr a"
    using assms by (simp add: handle_names_module ml_inv_def)
  show ?thesis
  proof (cases "unpinned (ml_Module s a)")
    case False
    then have "\<not> (LDK_MODULE_HAS_UNREGISTRABLE (ml_Module s a) \<and>
             \<not> flag_on (md_Flags (ml_Module s a)) LDK_MODULE_FLAG_PINNED)"
      by (simp add: unpinned_def LDK_MODULE_HAS_UNREGISTRABLE_def)
    then have "LdkUnloadDll_locked (md_handle s a) s = (STATUS_SUCCESS, None, s)"
      unfolding LdkUnloadDll_locked_def by (simp only: h sum.case if_not_P if_False)
    then show ?thesis using False kept by simp
  next
    case True
    then have c: "LDK_MODULE_HAS_UNREGISTRABLE (ml_Module s a) \<and>
             \<not> flag_on (md_Flags (ml_Module s a)) LDK_MODULE_FLAG_PINNED"
      by (simp add: unpinned_def LDK_MODULE_HAS_UNREGISTRABLE_def)
    have one: "0 < md_LoadCount (ml_Module s a)" using assms True unfolding ml_inv_def ml_counts_def by blast
    show ?thesis
    proof (cases "md_LoadCount (ml_Module s a) > 1")
      case True
      then have "module_task_step (TaskRelease a) s = ([], ml_update a (\<lambda>m. m\<lparr>md_LoadCount := md_LoadCount m - 1\<rparr>) s)"
        using c by (simp add: LdkUnloadDll_locked_def h)
      then show ?thesis using counted True \<open>unpinned (ml_Module s a)\<close> by blast
    next
      case False
      then have "module_task_step (TaskRelease a) s = LdkpUnregisterModule a
         ((ml_update a (\<lambda>m. m\<lparr>md_LoadCount := 0\<rparr>) s)\<lparr>ml_ModuleListHead := remove1 a (ml_ModuleListHead s)\<rparr>)"
        using c by (simp add: LdkUnloadDll_locked_def h)
      then show ?thesis using last one False \<open>unpinned (ml_Module s a)\<close> by simp
    qed
  qed
qed

lemma inv_release_kept:
  assumes inv: "ml_inv ext (add_mset (TaskRelease a) tasks) s" and "\<not> unpinned (ml_Module s a)"
  shows "ml_inv ext tasks s"
proof -
  have "ml_counts ext tasks s"
    unfolding ml_counts_def
  proof (intro ballI impI)
    fix b assume b: "b \<in> set (ml_ModuleListHead s)" "unpinned (ml_Module s b)"
    then have "b \<noteq> a" using assms(2) by blast
    then have "module_refs ext tasks s b = module_refs ext (add_mset (TaskRelease a) tasks) s b"
      by (simp add: module_refs_def)
    then show "0 < md_LoadCount (ml_Module s b) \<and> md_LoadCount (ml_Module s b) = int (module_refs ext tasks s b)"
      using ml_countsD [OF inv b] by simp
  qed
  moreover have "ml_targets ext tasks s"
    using inv unfolding ml_inv_def ml_targets_def by simp
  ultimately show ?thesis using inv unfolding ml_inv_def by blast
qed

lemma inv_release_counted:
  assumes inv: "ml_inv ext (add_mset (TaskRelease a) tasks) s" and one: "md_LoadCount (ml_Module s a) > 1"
  shows "ml_inv ext tasks (ml_update a (\<lambda>m. m\<lparr>md_LoadCount := md_LoadCount m - 1\<rparr>) s)" (is "ml_inv ext tasks ?s")
proof -
  have fr: "ml_frame s ?s" by (rule ml_frame_update) simp
  have "ml_counts ext tasks ?s"
    unfolding ml_counts_def
  proof (intro ballI impI)
    fix b assume b: "b \<in> set (ml_ModuleListHead ?s)" "unpinned (ml_Module ?s b)"
    have bs: "b \<in> set (ml_ModuleListHead s)" "unpinned (ml_Module s b)"
      using b ml_frame_list [OF fr] by (auto simp: unpinned_def ml_update_def split: if_splits)
    have "int (module_refs ext tasks ?s b) =
        int (module_refs ext (add_mset (TaskRelease a) tasks) s b) - (if b = a then 1 else 0)"
      by (simp add: ml_frame_refs [OF fr]) (simp add: module_refs_def)
    then show "0 < md_LoadCount (ml_Module ?s b) \<and> md_LoadCount (ml_Module ?s b) = int (module_refs ext tasks ?s b)"
      using ml_countsD [OF inv bs] one by (cases "b = a") (simp_all add: ml_update_def)
  qed
  moreover have "ml_targets ext tasks ?s"
    using inv by (simp only: ml_inv_def ml_frame_targets [OF fr]) (simp add: ml_targets_def)
  ultimately show ?thesis using inv unfolding ml_inv_def ml_frame_shape [OF fr] by blast
qed

section \<open>Unlinking a module\<close>

lemma dep_refs_0: "dep_refs s a = 0 \<longleftrightarrow> (\<forall>m\<in>set (ml_ModuleListHead s). a \<notin> set (md_DependencyList (ml_Module s m)))"
  by (auto simp: dep_refs_def sum_list_eq_0_iff count_list_0_iff)

definition unregister_tasks :: "addr \<Rightarrow> module_state \<Rightarrow> module_task list" where
  "unregister_tasks a s = map TaskRelease (rev (md_DependencyList (ml_Module s a))) @
     (if md_FunctionTable (ml_Module s a) = None then [TaskFree a] else [])"

lemma count_release_tasks: "count (image_mset TaskRelease (mset ds)) (TaskRelease b) = count_list ds b"
  by (induction ds) auto

lemma count_release_free: "count (image_mset TaskRelease (mset ds)) (TaskFree b) = 0"
  by (induction ds) auto

lemma count_unregister_tasks:
  "count (mset (unregister_tasks a s)) (TaskRelease b) = count_list (md_DependencyList (ml_Module s a)) b"
  "count (mset (unregister_tasks a s)) (TaskFree b) =
     (if b = a \<and> md_FunctionTable (ml_Module s a) = None then 1 else 0)"
  by (auto simp: unregister_tasks_def count_release_tasks count_release_free)

definition unlinks ::
  "(addr \<Rightarrow> nat) \<Rightarrow> module_task multiset \<Rightarrow> module_task multiset \<Rightarrow> addr \<Rightarrow> module_state \<Rightarrow> module_state \<Rightarrow> bool" where
  "unlinks ext T T' a s s' \<longleftrightarrow> ml_inv ext T s \<and> a \<in> set (ml_ModuleListHead s) \<and>
     ml_ModuleListHead s' = remove1 a (ml_ModuleListHead s) \<and>
     (\<forall>m. m \<noteq> a \<longrightarrow> ml_Module s' m = ml_Module s m) \<and> dep_refs s a = 0 \<and>
     TaskRelease a \<notin># T' \<and> (\<forall>t. t \<noteq> TaskRelease a \<longrightarrow> count T' t = count T t)"

lemma unlinksD:
  assumes "unlinks ext T T' a s s'"
  shows "ml_inv ext T s" and "a \<in> set (ml_ModuleListHead s)"
    and "ml_ModuleListHead s' = remove1 a (ml_ModuleListHead s)"
    and "m \<noteq> a \<Longrightarrow> ml_Module s' m = ml_Module s m" and "dep_refs s a = 0"
    and "TaskRelease a \<notin># T'" and "t \<noteq> TaskRelease a \<Longrightarrow> count T' t = count T t"
  using assms by (simp_all add: unlinks_def)

lemma unlink_member:
  assumes u: "unlinks ext T T' a s s'"
  shows "m \<in> set (ml_ModuleListHead s') \<longleftrightarrow> m \<in> set (ml_ModuleListHead s) \<and> m \<noteq> a"
  using unlinksD(1) [OF u] unfolding unlinksD(3) [OF u] ml_inv_def ml_shape_def by (simp add: set_remove1_eq)

lemma unlink_same:
  assumes u: "unlinks ext T T' a s s'" and m: "m \<in> set (ml_ModuleListHead s')"
  shows "ml_Module s' m = ml_Module s m"
  using m unlinksD(4) [OF u] unlink_member [OF u] by blast

lemma unlink_shape:
  assumes u: "unlinks ext T T' a s s'"
  shows "ml_shape s'"
proof -
  note inv = unlinksD(1) [OF u] and a = unlinksD(2) [OF u] and list' = unlinksD(3) [OF u] and other = unlinksD(4) [OF u]
    and free = unlinksD(5) [OF u] and noT = unlinksD(6) [OF u] and sameT = unlinksD(7) [OF u]
    and unlink_member = unlink_member [OF u] and unlink_same = unlink_same [OF u]
  have sh: "ml_shape s" using inv by (simp add: ml_inv_def)
  have so: "sorted_wrt (\<lambda>x b. b \<notin> set (md_DependencyList (ml_Module s x))) (ml_ModuleListHead s')"
    using sh unfolding list' ml_shape_def by (simp add: remove1_filter_distinct sorted_wrt_filter)
  have "sorted_wrt (\<lambda>x b. b \<notin> set (md_DependencyList (ml_Module s' x))) (ml_ModuleListHead s')"
    by (rule sorted_wrt_mono_rel [OF _ so]) (simp add: unlink_same)
  moreover have "distinct (ml_ModuleListHead s')" using sh unfolding list' ml_shape_def by simp
  moreover have "\<forall>m\<in>set (ml_ModuleListHead s').
      set (md_DependencyList (ml_Module s' m)) \<subseteq> set (ml_ModuleListHead s') - {m}"
  proof
    fix m assume m: "m \<in> set (ml_ModuleListHead s')"
    then have "a \<notin> set (md_DependencyList (ml_Module s m))" using free dep_refs_0 unlink_member by blast
    then show "set (md_DependencyList (ml_Module s' m)) \<subseteq> set (ml_ModuleListHead s') - {m}"
      using sh m unlink_member unfolding unlink_same [OF m] ml_shape_def by blast
  qed
  ultimately show ?thesis
    using sh unlink_member unfolding ml_shape_def by (simp add: unlink_same)
qed

lemma unlink_dep_refs:
  assumes u: "unlinks ext T T' a s s'"
  shows "dep_refs s' b = dep_refs s b - count_list (md_DependencyList (ml_Module s a)) b"
    and "count_list (md_DependencyList (ml_Module s a)) b \<le> dep_refs s b"
proof -
  note inv = unlinksD(1) [OF u] and a = unlinksD(2) [OF u] and list' = unlinksD(3) [OF u] and other = unlinksD(4) [OF u]
    and free = unlinksD(5) [OF u] and noT = unlinksD(6) [OF u] and sameT = unlinksD(7) [OF u]
    and unlink_member = unlink_member [OF u] and unlink_same = unlink_same [OF u]
  let ?f = "\<lambda>m. count_list (md_DependencyList (ml_Module s m)) b"
  have "dep_refs s' b = sum_list (map ?f (ml_ModuleListHead s'))"
    unfolding dep_refs_def by (intro arg_cong [where f = sum_list] map_cong) (simp_all add: unlink_same)
  moreover have "dep_refs s b = ?f a + sum_list (map ?f (ml_ModuleListHead s'))"
    unfolding dep_refs_def list' by (rule sum_list_map_remove1 [OF a])
  ultimately show "dep_refs s' b = dep_refs s b - ?f a" and "?f a \<le> dep_refs s b" by simp_all
qed

lemma unlink_counts:
  assumes u: "unlinks ext T T' a s s'"
  shows "ml_counts (ext(a := 0)) (T' + mset (unregister_tasks a s)) s'"
  unfolding ml_counts_def
proof (intro ballI impI)
  note inv = unlinksD(1) [OF u] and a = unlinksD(2) [OF u] and list' = unlinksD(3) [OF u] and other = unlinksD(4) [OF u]
    and free = unlinksD(5) [OF u] and noT = unlinksD(6) [OF u] and sameT = unlinksD(7) [OF u]
    and unlink_member = unlink_member [OF u] and unlink_same = unlink_same [OF u]
  fix b assume b: "b \<in> set (ml_ModuleListHead s')" and up: "unpinned (ml_Module s' b)"
  have bs: "b \<in> set (ml_ModuleListHead s)" "unpinned (ml_Module s b)" "b \<noteq> a"
    using b up unlink_member by (auto simp: unlink_same)
  then have "count T' (TaskRelease b) = count T (TaskRelease b)" using sameT by simp
  then have "module_refs (ext(a := 0)) (T' + mset (unregister_tasks a s)) s' b = module_refs ext T s b"
    using bs(3) unlink_dep_refs(2) [OF u, of b] by (simp add: module_refs_def unlink_dep_refs(1) [OF u] count_unregister_tasks)
  then show "0 < md_LoadCount (ml_Module s' b) \<and> md_LoadCount (ml_Module s' b) =
      int (module_refs (ext(a := 0)) (T' + mset (unregister_tasks a s)) s' b)"
    using ml_countsD [OF inv bs(1,2)] by (simp add: unlink_same [OF b])
qed

lemma unlink_targets:
  assumes u: "unlinks ext T T' a s s'"
  shows "ml_targets (ext(a := 0)) (T' + mset (unregister_tasks a s)) s'"
proof -
  note inv = unlinksD(1) [OF u] and a = unlinksD(2) [OF u] and list' = unlinksD(3) [OF u] and other = unlinksD(4) [OF u]
    and free = unlinksD(5) [OF u] and noT = unlinksD(6) [OF u] and sameT = unlinksD(7) [OF u]
    and unlink_member = unlink_member [OF u] and unlink_same = unlink_same [OF u]
  have t: "ml_targets ext T s" and sh: "ml_shape s" using inv by (simp_all add: ml_inv_def)
  have "x \<in> set (ml_ModuleListHead s')" if "TaskRelease x \<in># T' + mset (unregister_tasks a s)" for x
  proof (cases "TaskRelease x \<in># T'")
    case True
    then have "x \<noteq> a" using noT by blast
    then have "TaskRelease x \<in># T" using True sameT by (metis count_greater_zero_iff module_task.inject(1))
    then show ?thesis using t \<open>x \<noteq> a\<close> unlink_member unfolding ml_targets_def by blast
  next
    case False
    then have "x \<in> set (md_DependencyList (ml_Module s a))"
      using that by (auto simp: unregister_tasks_def split: if_splits)
    then show ?thesis using sh a unlink_member unfolding ml_shape_def by blast
  qed
  moreover have "x \<notin> set (ml_ModuleListHead s') \<and> count (T' + mset (unregister_tasks a s)) (TaskFree x) = 1"
    if x: "TaskFree x \<in># T' + mset (unregister_tasks a s)" for x
  proof (cases "x = a")
    case True
    have "TaskFree a \<notin># T" using t a unfolding ml_targets_def by blast
    then have "count T' (TaskFree a) = 0" using sameT by (simp add: count_eq_zero_iff)
    then show ?thesis
      using x unlink_member unfolding True
      by (metis add_0 count_greater_zero_iff count_union count_unregister_tasks(2) less_numeral_extra(3))
  next
    case False
    then have "count (T' + mset (unregister_tasks a s)) (TaskFree x) = count T (TaskFree x)"
      using sameT by (simp add: count_unregister_tasks)
    then show ?thesis
      using t x unlink_member unfolding ml_targets_def by (metis count_greater_zero_iff)
  qed
  moreover have "\<forall>x. 0 < (ext(a := 0)) x \<longrightarrow> x \<in> set (ml_ModuleListHead s')"
    using t unlink_member unfolding ml_targets_def by simp
  ultimately show ?thesis unfolding ml_targets_def by blast
qed

lemma inv_unlink:
  assumes u: "unlinks ext T T' a s s'"
  shows "ml_inv (ext(a := 0)) (T' + mset (unregister_tasks a s)) s'"
  using unlink_shape [OF u] unlink_counts [OF u] unlink_targets [OF u] by (simp add: ml_inv_def)

section \<open>Every task keeps the invariant\<close>

lemma unregister_step:
  "LdkpUnregisterModule a s = (ts, s') \<Longrightarrow> md_FunctionTable (ml_Module s a) = None \<or>
      md_DependencyList (ml_Module s a) = [] \<Longrightarrow>
     ts = unregister_tasks a s \<and> ml_ModuleListHead s' = ml_ModuleListHead s \<and>
     (\<forall>m. m \<noteq> a \<longrightarrow> ml_Module s' m = ml_Module s m)"
  unfolding LdkpUnregisterModule_def LDK_MODULE_HAS_UNREGISTRABLE_def Let_def
  by (auto simp: unregister_tasks_def ml_update_def split: if_splits)

lemma inv_task_free:
  assumes "ml_inv ext (add_mset (TaskFree a) tasks) s"
  shows "ml_inv ext tasks (s\<lparr>ml_Events := ev\<rparr>)"
proof -
  have fr: "ml_frame s (s\<lparr>ml_Events := ev\<rparr>)" by (simp add: ml_frame_def)
  have "module_refs ext (add_mset (TaskFree a) tasks) s = module_refs ext tasks s"
    by (simp add: module_refs_def fun_eq_iff)
  then have "ml_counts ext (add_mset (TaskFree a) tasks) s = ml_counts ext tasks s" by (rule ml_counts_cong)
  then have "ml_counts ext tasks s" using assms by (simp add: ml_inv_def)
  moreover have "ml_targets ext tasks s"
  proof -
    have t: "ml_targets ext (add_mset (TaskFree a) tasks) s" using assms by (simp add: ml_inv_def)
    have "count tasks (TaskFree b) = 1" if "TaskFree b \<in># tasks" for b
    proof -
      have "count (add_mset (TaskFree a) tasks) (TaskFree b) = 1"
        using t that unfolding ml_targets_def by simp
      moreover have "0 < count tasks (TaskFree b)" using that by simp
      ultimately show ?thesis by (auto simp: count_eq_zero_iff split: if_splits)
    qed
    then show ?thesis using t unfolding ml_targets_def by simp
  qed
  moreover have "ml_counts ext tasks (s\<lparr>ml_Events := ev\<rparr>) = ml_counts ext tasks s"
    unfolding ml_counts_def ml_frame_refs [OF fr] by simp
  ultimately show ?thesis
    using assms by (simp only: ml_inv_def ml_frame_shape [OF fr] ml_frame_targets [OF fr])
qed

text \<open>Dropping the last reference: nobody else refers to the module.\<close>

lemma last_reference:
  assumes inv: "ml_inv ext (add_mset (TaskRelease a) tasks) s" and "a \<in> set (ml_ModuleListHead s)"
    and "unpinned (ml_Module s a)" and "md_LoadCount (ml_Module s a) = 1"
  shows "ext a = 0" and "dep_refs s a = 0" and "TaskRelease a \<notin># tasks"
proof -
  have "module_refs ext (add_mset (TaskRelease a) tasks) s a = 1"
    using ml_countsD(2) [OF assms(1,2,3)] assms(4) by simp
  then have "ext a + dep_refs s a + count tasks (TaskRelease a) = 0" by (simp add: module_refs_def)
  then show "ext a = 0" and "dep_refs s a = 0" and "TaskRelease a \<notin># tasks"
    by (simp_all add: count_eq_zero_iff)
qed

lemma inv_release_last:
  assumes inv: "ml_inv ext (add_mset (TaskRelease a) tasks) s" and a: "a \<in> set (ml_ModuleListHead s)"
    and u: "unpinned (ml_Module s a)" and one: "md_LoadCount (ml_Module s a) = 1"
    and st: "LdkpUnregisterModule a ((ml_update a (\<lambda>m. m\<lparr>md_LoadCount := 0\<rparr>) s)
              \<lparr>ml_ModuleListHead := remove1 a (ml_ModuleListHead s)\<rparr>) = (ts, s')"
  shows "ml_inv ext (tasks + mset ts) s'"
proof -
  note lr = last_reference [OF inv a u one]
  let ?s = "(ml_update a (\<lambda>m. m\<lparr>md_LoadCount := 0\<rparr>) s)\<lparr>ml_ModuleListHead := remove1 a (ml_ModuleListHead s)\<rparr>"
  have "md_FunctionTable (ml_Module ?s a) = None" using u by (simp add: unpinned_def ml_update_def)
  then have r: "ts = unregister_tasks a ?s \<and> ml_ModuleListHead s' = ml_ModuleListHead ?s \<and>
     (\<forall>m. m \<noteq> a \<longrightarrow> ml_Module s' m = ml_Module ?s m)"
    using unregister_step [OF st] by blast
  have ts: "ts = unregister_tasks a s" using r by (simp add: unregister_tasks_def ml_update_def)
  have "unlinks ext (add_mset (TaskRelease a) tasks) tasks a s s'"
    unfolding unlinks_def using inv a lr r by (simp add: ml_update_def)
  then have "ml_inv (ext(a := 0)) (tasks + mset (unregister_tasks a s)) s'" by (rule inv_unlink)
  moreover have "ext(a := 0) = ext" using lr(1) by (simp add: fun_eq_iff)
  ultimately show ?thesis by (simp add: ts)
qed

lemma inv_task_step:
  assumes inv: "ml_inv ext (add_mset t tasks) s" and st: "module_task_step t s = (ts, s')"
  shows "ml_inv ext (tasks + mset ts) s'"
proof (cases t)
  case (TaskFree a)
  then have "ts = []" "s' = s\<lparr>ml_Events := ModuleFree a # ml_Events s\<rparr>" using st by auto
  then show ?thesis using inv_task_free [of ext a tasks s] inv TaskFree by simp
next
  case (TaskRelease a)
  have i: "ml_inv ext (add_mset (TaskRelease a) tasks) s" using inv by (simp add: TaskRelease)
  have a: "a \<in> set (ml_ModuleListHead s)" using i unfolding ml_inv_def ml_targets_def by simp
  show ?thesis
  proof (cases rule: release_cases [OF i a, case_names kept counted last])
    case kept
    then show ?thesis using inv_release_kept [OF i] st by (simp add: TaskRelease)
  next
    case counted
    then show ?thesis using inv_release_counted [OF i] st by (simp add: TaskRelease)
  next
    case last
    then show ?thesis using inv_release_last [OF i a last(1,2)] st by (simp only: TaskRelease)
  qed
qed

lemma inv_run:
  "ml_inv ext (mset ts) s \<Longrightarrow> ml_inv ext {#} (module_run ts s)"
proof (induction ts s rule: module_run.induct)
  case (2 t ts s)
  obtain ts' s' where st: "module_task_step t s = (ts', s')" by (cases "module_task_step t s")
  have "ml_inv ext (mset ts + mset ts') s'" using inv_task_step [OF _ st] 2(2) by simp
  then show ?case using 2(1) [OF st [symmetric]] by (simp add: st union_commute)
qed simp

section \<open>Loading\<close>

text \<open>The tail of \<open>LdkLoadDll\<close>: the image is registered and takes over the references the load holds
  on the modules it imports.\<close>

definition register_loaded ::
  "addr \<Rightarrow> string \<Rightarrow> string \<Rightarrow> addr \<Rightarrow> u32 \<Rightarrow> addr list \<Rightarrow> module_state \<Rightarrow> module_state" where
  "register_loaded a n p b sz ds s =
     LdkpMoveModuleDependencies a ds (snd (LdkRegisterModule (Some a) (Inr n) (Inr p) b sz s))"

definition fresh_module :: "addr \<Rightarrow> addr \<Rightarrow> module_task multiset \<Rightarrow> module_state \<Rightarrow> bool" where
  "fresh_module a b tasks s \<longleftrightarrow> a \<noteq> NULL \<and> b \<noteq> NULL \<and> a \<noteq> b \<and> a \<notin> set (ml_ModuleListHead s) \<and>
     b \<notin> set (ml_ModuleListHead s) \<and> TaskFree a \<notin># tasks \<and>
     (\<forall>m\<in>set (ml_ModuleListHead s). md_Base (ml_Module s m) \<noteq> a \<and> md_Base (ml_Module s m) \<noteq> b)"

lemma register_loaded_simps:
  "ml_ModuleListHead (register_loaded a n p b sz ds s) = ml_ModuleListHead s @ [a]"
  "m \<noteq> a \<Longrightarrow> ml_Module (register_loaded a n p b sz ds s) m = ml_Module s m"
  "md_Base (ml_Module (register_loaded a n p b sz ds s) a) = b"
  "md_DependencyList (ml_Module (register_loaded a n p b sz ds s) a) = ds"
  "md_FunctionTable (ml_Module (register_loaded a n p b sz ds s) a) = None"
  "md_LoadCount (ml_Module (register_loaded a n p b sz ds s) a) = 1"
  by (simp_all add: register_loaded_def LdkpMoveModuleDependencies_def LdkRegisterModule_def ml_update_def)

lemma shape_load:
  assumes sh: "ml_shape s" and fr: "fresh_module a b tasks s" and ds: "set ds \<subseteq> set (ml_ModuleListHead s)"
  shows "ml_shape (register_loaded a n p b sz ds s)" (is "ml_shape ?s")
proof -
  have an: "a \<notin> set (ml_ModuleListHead s)" using fr by (simp add: fresh_module_def)
  then have same: "ml_Module ?s m = ml_Module s m" if "m \<in> set (ml_ModuleListHead s)" for m
    using that register_loaded_simps(2) by metis
  have so: "sorted_wrt (\<lambda>x b. b \<notin> set (md_DependencyList (ml_Module ?s x))) (ml_ModuleListHead s)"
  proof (rule sorted_wrt_mono_rel)
    show "sorted_wrt (\<lambda>x b. b \<notin> set (md_DependencyList (ml_Module s x))) (ml_ModuleListHead s)"
      using sh by (simp add: ml_shape_def)
  qed (simp add: same)
  have "\<forall>x\<in>set (ml_ModuleListHead s). a \<notin> set (md_DependencyList (ml_Module s x))"
    using sh an unfolding ml_shape_def by blast
  then have "\<forall>x\<in>set (ml_ModuleListHead s). a \<notin> set (md_DependencyList (ml_Module ?s x))"
    by (simp add: same)
  then have "sorted_wrt (\<lambda>x b. b \<notin> set (md_DependencyList (ml_Module ?s x))) (ml_ModuleListHead ?s)"
    using so by (simp add: register_loaded_simps(1) sorted_wrt_append)
  moreover have "\<forall>m\<in>set (ml_ModuleListHead ?s).
      set (md_DependencyList (ml_Module ?s m)) \<subseteq> set (ml_ModuleListHead ?s) - {m}"
    using sh ds an same register_loaded_simps(1,4) [of a n p b sz ds s] unfolding ml_shape_def by auto
  moreover have "distinct (ml_ModuleListHead ?s) \<and> NULL \<notin> set (ml_ModuleListHead ?s)"
    using sh fr unfolding ml_shape_def fresh_module_def by (simp add: register_loaded_simps(1))
  moreover have "\<forall>x\<in>set (ml_ModuleListHead ?s). \<forall>y\<in>set (ml_ModuleListHead ?s). md_Base (ml_Module ?s x) \<noteq> y"
    using sh fr same unfolding ml_shape_def fresh_module_def register_loaded_simps(1)
    by (auto simp: register_loaded_simps(3))
  moreover have "\<forall>x\<in>set (ml_ModuleListHead ?s). \<forall>y\<in>set (ml_ModuleListHead ?s).
      md_Base (ml_Module ?s x) \<noteq> NULL \<and> md_Base (ml_Module ?s x) = md_Base (ml_Module ?s y) \<longrightarrow> x = y"
    using sh fr same unfolding ml_shape_def fresh_module_def register_loaded_simps(1)
    by (auto simp: register_loaded_simps(3))
  moreover have "\<forall>x\<in>set (ml_ModuleListHead ?s). md_FunctionTable (ml_Module ?s x) \<noteq> None \<longrightarrow>
      md_DependencyList (ml_Module ?s x) = []"
    using sh same unfolding ml_shape_def register_loaded_simps(1) by (auto simp: register_loaded_simps(5))
  ultimately show ?thesis unfolding ml_shape_def by blast
qed

lemma inv_load:
  assumes inv: "ml_inv ext tasks s" and fr: "fresh_module a b tasks s"
    and ds: "\<forall>d. count_list ds d \<le> ext d"
  shows "ml_inv (\<lambda>x. ext x - count_list ds x + (if x = a then 1 else 0)) tasks (register_loaded a n p b sz ds s)"
    (is "ml_inv ?ext tasks ?s")
proof -
  have an: "a \<notin> set (ml_ModuleListHead s)" using fr by (simp add: fresh_module_def)
  have dsl: "set ds \<subseteq> set (ml_ModuleListHead s)"
  proof
    fix d assume "d \<in> set ds"
    then have "0 < count_list ds d" by (simp add: count_list_0_iff zero_less_iff_neq_zero)
    then have "0 < ext d" using ds by (metis le_trans less_le_not_le linorder_not_le)
    then show "d \<in> set (ml_ModuleListHead s)" using inv unfolding ml_inv_def ml_targets_def by blast
  qed
  have same: "ml_Module ?s m = ml_Module s m" if "m \<in> set (ml_ModuleListHead s)" for m
    using that an register_loaded_simps(2) by metis
  have deps: "dep_refs ?s x = dep_refs s x + count_list ds x" for x
  proof -
    have "map (\<lambda>m. count_list (md_DependencyList (ml_Module ?s m)) x) (ml_ModuleListHead s) =
        map (\<lambda>m. count_list (md_DependencyList (ml_Module s m)) x) (ml_ModuleListHead s)"
      by (rule map_cong) (simp_all add: same)
    then show ?thesis unfolding dep_refs_def by (simp only: register_loaded_simps(1,4) map_append sum_list_append) (simp add: register_loaded_simps(4))
  qed
  have old: "module_refs ?ext tasks ?s x = module_refs ext tasks s x" if "x \<noteq> a" for x
    using that ds [rule_format, of x] by (simp add: module_refs_def deps)
  have new: "module_refs ?ext tasks ?s a = 1"
  proof -
    have sh: "ml_shape s" and tg: "ml_targets ext tasks s" using inv by (simp_all add: ml_inv_def)
    have "dep_refs s a = 0" using sh an unfolding dep_refs_0 ml_shape_def by blast
    moreover have "count_list ds a = 0" using dsl an by (auto simp: count_list_0_iff)
    moreover have "ext a = 0" and "count tasks (TaskRelease a) = 0"
      using tg an unfolding ml_targets_def by (auto simp: count_eq_zero_iff)
    ultimately show ?thesis by (simp add: module_refs_def deps)
  qed
  have "ml_counts ?ext tasks ?s"
    unfolding ml_counts_def
  proof (intro ballI impI)
    fix x assume x: "x \<in> set (ml_ModuleListHead ?s)" and u: "unpinned (ml_Module ?s x)"
    show "0 < md_LoadCount (ml_Module ?s x) \<and> md_LoadCount (ml_Module ?s x) = int (module_refs ?ext tasks ?s x)"
    proof (cases "x = a")
      case True
      then show ?thesis using new by (simp only: register_loaded_simps(6)) simp
    next
      case False
      then have xs: "x \<in> set (ml_ModuleListHead s)" using x by (simp add: register_loaded_simps(1))
      then show ?thesis using ml_countsD [OF inv xs] u same old [OF False] by (simp only:)
    qed
  qed
  moreover have "ml_targets ?ext tasks ?s"
    using inv fr unfolding ml_inv_def ml_targets_def fresh_module_def register_loaded_simps(1) by auto
  moreover have "ml_shape ?s" using shape_load [OF _ fr dsl] inv by (simp add: ml_inv_def)
  ultimately show ?thesis by (simp add: ml_inv_def)
qed

section \<open>References taken for a notification\<close>

lemma inv_references:
  assumes "ml_inv ext tasks s" and "distinct xs" and "set xs \<subseteq> set (ml_ModuleListHead s)"
    and "\<forall>a\<in>set xs. unpinned (ml_Module s a) \<longrightarrow> md_LoadCount (ml_Module s a) < MAXLONG"
  shows "ml_inv (\<lambda>x. ext x + (if x \<in> set xs then 1 else 0)) tasks
     (fold (\<lambda>a. LdkpReferenceModuleLocked a False True) xs s)"
  using assms
proof (induction xs arbitrary: ext s)
  case (Cons x xs)
  let ?s = "LdkpReferenceModuleLocked x False True s"
  have i: "ml_inv (ext(x := ext x + 1)) tasks ?s"
    using inv_reference [of ext tasks s True x False] Cons.prems by simp
  have l: "\<forall>a\<in>set xs. unpinned (ml_Module ?s a) \<longrightarrow> md_LoadCount (ml_Module ?s a) < MAXLONG"
  proof
    fix a assume a: "a \<in> set xs"
    then have "a \<noteq> x" using Cons.prems(2) by auto
    then show "unpinned (ml_Module ?s a) \<longrightarrow> md_LoadCount (ml_Module ?s a) < MAXLONG"
      using Cons.prems(4) a by (simp add: reference_effect(1))
  qed
  have "ml_inv (\<lambda>y. (ext(x := ext x + 1)) y + (if y \<in> set xs then 1 else 0)) tasks
      (fold (\<lambda>a. LdkpReferenceModuleLocked a False True) xs ?s)"
    by (rule Cons.IH [OF i _ _ l]) (use Cons.prems(2,3) ml_frame_list [OF frame_reference] in auto)
  moreover have "(\<lambda>y. (ext(x := ext x + 1)) y + (if y \<in> set xs then 1 else 0)) =
      (\<lambda>y. ext y + (if y \<in> set (x # xs) then 1 else 0))"
    using Cons.prems(2) by auto
  ultimately show ?case by simp
qed simp

lemma inv_snapshot:
  assumes inv: "ml_inv ext tasks s"
    and r: "LdkpReferenceProcessAttachedModuleSnapshot pool fl s = (st, ms, s')"
    and less: "\<forall>a\<in>set ms. unpinned (ml_Module s a) \<longrightarrow> md_LoadCount (ml_Module s a) < MAXLONG"
  shows "ml_inv (\<lambda>x. ext x + (if x \<in> set ms then 1 else 0)) tasks s'"
proof (cases "ms = []")
  case True
  then have "s' = s" using r unfolding LdkpReferenceProcessAttachedModuleSnapshot_def Let_def
    by (auto split: if_splits)
  then show ?thesis using inv True by simp
next
  case False
  then have ms: "ms = filter (\<lambda>a. snapshot_member fl (ml_Module s a)) (ml_ModuleListHead s)"
    and s': "s' = fold (\<lambda>a. LdkpReferenceModuleLocked a False True) ms s"
    using r unfolding LdkpReferenceProcessAttachedModuleSnapshot_def Let_def by (auto split: if_splits)
  have "distinct ms" and "set ms \<subseteq> set (ml_ModuleListHead s)"
    using inv unfolding ms ml_inv_def ml_shape_def by auto
  then show ?thesis unfolding s' by (rule inv_references [OF inv _ _ less])
qed

section \<open>The machine\<close>

text \<open>A load under way: its dependency list, and what it has of the import it is resolving: nothing,
  a module found by name without a reference, or a module with the reference \<open>LdkLoadDll\<close> returned.\<close>

datatype import_point = ImportNone | ImportFound addr | ImportLoaded addr

datatype module_fault = StaleImport addr | UncountedImport addr | CountSaturated addr

record module_machine =
  mm_State :: module_state
  mm_Handles :: "addr \<Rightarrow> nat"
  mm_Loads :: "(addr list \<times> import_point) multiset"
  mm_Leaked :: "addr \<Rightarrow> nat"
  mm_Tasks :: "module_task multiset"
  mm_Faults :: "module_fault list"

fun load_holds :: "addr list \<times> import_point \<Rightarrow> addr \<Rightarrow> nat" where
  "load_holds (ds, ImportLoaded m) a = count_list ds a + (if m = a then 1 else 0)"
| "load_holds (ds, _) a = count_list ds a"

definition load_refs :: "(addr list \<times> import_point) multiset \<Rightarrow> addr \<Rightarrow> nat" where
  "load_refs L a = (\<Sum>x\<in>#L. load_holds x a)"

text \<open>The references to a module from outside the list.\<close>

definition mm_Ext :: "module_machine \<Rightarrow> addr \<Rightarrow> nat" where
  "mm_Ext c a = mm_Handles c a + load_refs (mm_Loads c) a + mm_Leaked c a"

definition mm_load ::
  "addr list \<times> import_point \<Rightarrow> addr list \<times> import_point \<Rightarrow> module_machine \<Rightarrow> module_machine" where
  "mm_load x y c = c\<lparr>mm_Loads := add_mset y (mm_Loads c - {#x#})\<rparr>"

definition limit_fault :: "bool \<Rightarrow> addr \<Rightarrow> module_state \<Rightarrow> module_fault list" where
  "limit_fault i a s =
     (if i \<and> unpinned (ml_Module s a) \<and> \<not> md_LoadCount (ml_Module s a) < MAXLONG
      then [CountSaturated a] else [])"

definition stale_fault :: "addr \<Rightarrow> module_state \<Rightarrow> module_fault list" where
  "stale_fault a s = (if a \<in> set (ml_ModuleListHead s) then [] else [StaleImport a])"

text \<open>The result of a lookup that references what it finds.\<close>

definition mm_referenced :: "addr \<Rightarrow> bool \<Rightarrow> module_state \<Rightarrow> module_machine \<Rightarrow> module_machine" where
  "mm_referenced a i s' c = c\<lparr>mm_State := s',
     mm_Handles := (if i then (mm_Handles c)(a := mm_Handles c a + 1) else mm_Handles c),
     mm_Faults := limit_fault i a (mm_State c) @ mm_Faults c\<rparr>"

text \<open>How \<open>LdkpResolveImportModule\<close> finds the module that \<open>LdkLoadDll\<close> has loaded for it.\<close>

definition import_lookup ::
  "(string \<Rightarrow> string \<Rightarrow> bool) \<Rightarrow> addr \<Rightarrow> string \<Rightarrow> module_state \<Rightarrow> ntstatus + addr" where
  "import_lookup ieq DllHandle n s =
     (case LdkpGetModuleByBase DllHandle s of Inr a \<Rightarrow> Inr a | Inl st \<Rightarrow> LdkpGetModuleByName ieq n s)"

text \<open>The steps of a load are \<open>load_begin\<close>, for each import \<open>import_found\<close> and \<open>import_add\<close>, or
  \<open>import_loaded\<close> and one of the three outcomes of \<open>LdkpAddModuleDependency\<close> without a count, and at
  last \<open>load_register\<close> or \<open>load_fails\<close>. The handle of an import that is loaded comes from the steps of
  another load, or from a lookup. \<open>forward_leaks\<close> is the lookup of a routine through a forwarder.\<close>

inductive module_step :: "module_machine \<Rightarrow> module_machine \<Rightarrow> bool" where
  load_begin: "module_step c (c\<lparr>mm_Loads := add_mset ([], ImportNone) (mm_Loads c)\<rparr>)"
| import_found: "(ds, ImportNone) \<in># mm_Loads c \<Longrightarrow> LdkpGetModuleByName ieq n (mm_State c) = Inr a \<Longrightarrow>
    module_step c (mm_load (ds, ImportNone) (ds, ImportFound a) c)"
| import_add: "(ds, ImportFound a) \<in># mm_Loads c \<Longrightarrow>
    LdkpAddModuleDependency pool (Some ds) a True (mm_State c) = (st, Some ds', s') \<Longrightarrow>
    module_step c ((mm_load (ds, ImportFound a) (ds', ImportNone) c)\<lparr>mm_State := s',
      mm_Faults := stale_fault a (mm_State c) @ limit_fault (ds' \<noteq> ds) a (mm_State c) @ mm_Faults c\<rparr>)"
| import_loaded: "(ds, ImportNone) \<in># mm_Loads c \<Longrightarrow> 0 < mm_Handles c a \<Longrightarrow>
    import_lookup ieq (md_handle (mm_State c) a) n (mm_State c) = Inr b \<Longrightarrow>
    module_step c ((mm_load (ds, ImportNone) (ds, ImportLoaded b) c)
      \<lparr>mm_Handles := (mm_Handles c)(a := mm_Handles c a - 1),
       mm_Faults := (if b = a then [] else [UncountedImport b]) @ mm_Faults c\<rparr>)"
| import_kept: "(ds, ImportLoaded a) \<in># mm_Loads c \<Longrightarrow>
    LdkpAddModuleDependency pool (Some ds) a False (mm_State c) = (st, Some ds', s') \<Longrightarrow> ds' \<noteq> ds \<Longrightarrow>
    module_step c ((mm_load (ds, ImportLoaded a) (ds', ImportNone) c)\<lparr>mm_State := s'\<rparr>)"
| import_leaks: "(ds, ImportLoaded a) \<in># mm_Loads c \<Longrightarrow>
    LdkpAddModuleDependency pool (Some ds) a False (mm_State c) = (st, Some ds, s') \<Longrightarrow> NT_SUCCESS st \<Longrightarrow>
    module_step c ((mm_load (ds, ImportLoaded a) (ds, ImportNone) c)\<lparr>mm_State := s',
      mm_Leaked := (mm_Leaked c)(a := mm_Leaked c a + 1)\<rparr>)"
| import_dropped: "(ds, ImportLoaded a) \<in># mm_Loads c \<Longrightarrow>
    LdkpAddModuleDependency pool (Some ds) a False (mm_State c) = (st, Some ds, s') \<Longrightarrow> \<not> NT_SUCCESS st \<Longrightarrow>
    module_step c ((mm_load (ds, ImportLoaded a) (ds, ImportNone) c)\<lparr>mm_State := s',
      mm_Tasks := add_mset (TaskRelease a) (mm_Tasks c)\<rparr>)"
| load_register: "(ds, ImportNone) \<in># mm_Loads c \<Longrightarrow> fresh_module a b (mm_Tasks c) (mm_State c) \<Longrightarrow>
    module_step c (c\<lparr>mm_State := register_loaded a n p b sz ds (mm_State c),
      mm_Loads := mm_Loads c - {#(ds, ImportNone)#},
      mm_Handles := (mm_Handles c)(a := mm_Handles c a + 1)\<rparr>)"
| load_fails: "(ds, ImportNone) \<in># mm_Loads c \<Longrightarrow>
    module_step c (c\<lparr>mm_Loads := mm_Loads c - {#(ds, ImportNone)#},
      mm_Tasks := mm_Tasks c + mset (map TaskRelease ds)\<rparr>)"
| forward_leaks: "0 < mm_Handles c a \<Longrightarrow>
    module_step c (c\<lparr>mm_Handles := (mm_Handles c)(a := mm_Handles c a - 1),
      mm_Leaked := (mm_Leaked c)(a := mm_Leaked c a + 1)\<rparr>)"
| by_name: "LdkpReferenceModuleByNameEx ieq n r pin i (mm_State c) = (Inr a, s') \<Longrightarrow>
    module_step c (mm_referenced a i s' c)"
| by_address: "LdkReferenceModuleByAddress x pin i (mm_State c) = (Inr a, s') \<Longrightarrow>
    module_step c (mm_referenced a i s' c)"
| by_path: "LdkpReferenceModuleByNtPath ieq p pin i (mm_State c) = (Inr a, s') \<Longrightarrow>
    module_step c (mm_referenced a i s' c)"
| addref: "module_of_handle h (mm_State c) = Inr a \<Longrightarrow> LdkAddRefDll fl h (mm_State c) = (STATUS_SUCCESS, s') \<Longrightarrow>
    module_step c (mm_referenced a True s' c)"
| snapshot: "LdkpReferenceProcessAttachedModuleSnapshot pool fl (mm_State c) = (st, ms, s') \<Longrightarrow>
    module_step c (c\<lparr>mm_State := s', mm_Handles := (\<lambda>x. mm_Handles c x + (if x \<in> set ms then 1 else 0)),
      mm_Faults := concat (map (\<lambda>a. limit_fault True a (mm_State c)) ms) @ mm_Faults c\<rparr>)"
| disable: "LdkDisableThreadLibraryCalls h (mm_State c) = (st, s') \<Longrightarrow> module_step c (c\<lparr>mm_State := s'\<rparr>)"
| flags: "f \<in> {LDK_MODULE_FLAG_RESOURCE_ONLY, LDK_MODULE_FLAG_PROCESS_ATTACHED} \<Longrightarrow>
    module_step c (c\<lparr>mm_State := ml_update a (\<lambda>m. m\<lparr>md_Flags := md_Flags m OR f\<rparr>) (mm_State c)\<rparr>)"
| unload: "0 < mm_Handles c a \<Longrightarrow>
    module_step c (c\<lparr>mm_Handles := (mm_Handles c)(a := mm_Handles c a - 1),
      mm_Tasks := add_mset (TaskRelease a) (mm_Tasks c)\<rparr>)"
| task: "t \<in># mm_Tasks c \<Longrightarrow> module_task_step t (mm_State c) = (ts, s') \<Longrightarrow>
    module_step c (c\<lparr>mm_State := s', mm_Tasks := mm_Tasks c - {#t#} + mset ts\<rparr>)"

text \<open>At the start only the built-in modules are listed.\<close>

definition module_init :: "module_machine \<Rightarrow> bool" where
  "module_init c \<longleftrightarrow> distinct (ml_ModuleListHead (mm_State c)) \<and> NULL \<notin> set (ml_ModuleListHead (mm_State c)) \<and>
     (\<forall>a\<in>set (ml_ModuleListHead (mm_State c)). md_FunctionTable (ml_Module (mm_State c) a) \<noteq> None \<and>
        md_Base (ml_Module (mm_State c) a) = NULL \<and> md_DependencyList (ml_Module (mm_State c) a) = []) \<and>
     mm_Handles c = (\<lambda>_. 0) \<and> mm_Loads c = {#} \<and> mm_Leaked c = (\<lambda>_. 0) \<and> mm_Tasks c = {#} \<and> mm_Faults c = []"

definition mm_inv :: "module_machine \<Rightarrow> bool" where
  "mm_inv c \<longleftrightarrow> (mm_Faults c = [] \<longrightarrow> ml_inv (mm_Ext c) (mm_Tasks c) (mm_State c))"

lemma mm_Ext_frame [simp]:
  "mm_Ext (c\<lparr>mm_State := s\<rparr>) = mm_Ext c" "mm_Ext (c\<lparr>mm_Tasks := ts\<rparr>) = mm_Ext c"
  "mm_Ext (c\<lparr>mm_Faults := fs\<rparr>) = mm_Ext c"
  by (simp_all add: mm_Ext_def fun_eq_iff)

lemma load_refs_replace:
  assumes "x \<in># L"
  shows "load_refs L a = load_holds x a + load_refs (L - {#x#}) a"
    and "load_refs (add_mset y (L - {#x#})) a = load_refs L a - load_holds x a + load_holds y a"
proof -
  obtain M where "L = add_mset x M" using assms by (rule mset_add)
  then show "load_refs L a = load_holds x a + load_refs (L - {#x#}) a"
    and "load_refs (add_mset y (L - {#x#})) a = load_refs L a - load_holds x a + load_holds y a"
    by (simp_all add: load_refs_def)
qed

text \<open>A load that goes on with the same references, and one that gives some of them away.\<close>

lemma mm_Ext_load:
  assumes "x \<in># mm_Loads c"
  shows "mm_Ext (mm_load x y c) a = mm_Ext c a - load_holds x a + load_holds y a"
    and "load_holds x a \<le> mm_Ext c a"
  using load_refs_replace(1) [OF assms, where a = a] load_refs_replace(2) [OF assms, where a = a and y = y]
  by (simp_all add: mm_Ext_def mm_load_def)

lemma sorted_wrt_all: "\<forall>x\<in>set xs. \<forall>y\<in>set xs. P x y \<Longrightarrow> sorted_wrt P xs"
  by (induction xs) auto

lemma init_inv: "module_init c \<Longrightarrow> mm_inv c"
  unfolding module_init_def mm_inv_def ml_inv_def ml_shape_def ml_counts_def ml_targets_def unpinned_def
  by (auto intro!: sorted_wrt_all gr0I simp: mm_Ext_def load_refs_def)

lemma lookup_reference:
  "LdkpReferenceModuleByNameEx ieq n r pin i s = (Inr a, s') \<Longrightarrow>
     a \<in> set (ml_ModuleListHead s) \<and> s' = LdkpReferenceModuleLocked a pin i s"
  "LdkReferenceModuleByAddress x pin i s = (Inr a, s') \<Longrightarrow>
     a \<in> set (ml_ModuleListHead s) \<and> s' = LdkpReferenceModuleLocked a pin i s"
  "LdkpReferenceModuleByNtPath ieq' p pin i s = (Inr a, s') \<Longrightarrow>
     a \<in> set (ml_ModuleListHead s) \<and> s' = LdkpReferenceModuleLocked a pin i s"
  unfolding LdkpReferenceModuleByNameEx_def LdkpGetModuleByNameEx_def LdkReferenceModuleByAddress_def
    LdkpReferenceModuleByNtPath_def module_at_path_def
  by (auto split: option.splits sum.splits dest: find_Some_in_set)

lemma mm_referenced_inv:
  assumes "mm_inv c" and "i \<Longrightarrow> a \<in> set (ml_ModuleListHead (mm_State c))"
    and "s' = LdkpReferenceModuleLocked a pin i (mm_State c)"
  shows "mm_inv (mm_referenced a i s' c)"
proof -
  have e: "mm_Ext (mm_referenced a i s' c) = (if i then (mm_Ext c)(a := mm_Ext c a + 1) else mm_Ext c)"
    by (auto simp: mm_Ext_def mm_referenced_def fun_eq_iff)
  show ?thesis
    unfolding mm_inv_def
  proof
    assume f: "mm_Faults (mm_referenced a i s' c) = []"
    then have "i \<Longrightarrow> unpinned (ml_Module (mm_State c) a) \<Longrightarrow> md_LoadCount (ml_Module (mm_State c) a) < MAXLONG"
      and "ml_inv (mm_Ext c) (mm_Tasks c) (mm_State c)"
      using assms(1) by (auto simp: mm_referenced_def limit_fault_def mm_inv_def split: if_splits)
    then have "ml_inv (if i then (mm_Ext c)(a := mm_Ext c a + 1) else mm_Ext c) (mm_Tasks c) s'"
      using inv_reference [of "mm_Ext c" "mm_Tasks c" "mm_State c" i a pin] assms(2,3) by simp
    then show "ml_inv (mm_Ext (mm_referenced a i s' c)) (mm_Tasks (mm_referenced a i s' c))
        (mm_State (mm_referenced a i s' c))"
      unfolding e by (simp add: mm_referenced_def)
  qed
qed

lemma inv_unload:
  assumes inv: "ml_inv ext tasks s" and pos: "0 < ext a"
  shows "ml_inv (ext(a := ext a - 1)) (add_mset (TaskRelease a) tasks) s"
proof -
  have "module_refs (ext(a := ext a - 1)) (add_mset (TaskRelease a) tasks) s = module_refs ext tasks s"
    using pos by (auto simp: module_refs_def fun_eq_iff)
  then have "ml_counts (ext(a := ext a - 1)) (add_mset (TaskRelease a) tasks) s"
    using inv ml_counts_cong unfolding ml_inv_def by blast
  moreover have "ml_targets (ext(a := ext a - 1)) (add_mset (TaskRelease a) tasks) s"
    using inv pos unfolding ml_inv_def ml_targets_def by auto
  ultimately show ?thesis using inv by (simp add: ml_inv_def)
qed

lemma inv_unloads:
  "ml_inv ext tasks s \<Longrightarrow> \<forall>x. count_list ds x \<le> ext x \<Longrightarrow>
     ml_inv (\<lambda>x. ext x - count_list ds x) (tasks + mset (map TaskRelease ds)) s"
proof (induction ds arbitrary: ext tasks)
  case (Cons d ds)
  have d: "0 < ext d" using Cons.prems(2) [rule_format, of d] by simp
  have "\<forall>x. count_list ds x \<le> (ext(d := ext d - 1)) x"
    using Cons.prems(2) by (auto split: if_splits)
  from Cons.IH [OF inv_unload [OF Cons.prems(1) d] this]
  have "ml_inv (\<lambda>x. (ext(d := ext d - 1)) x - count_list ds x) (tasks + mset (map TaskRelease (d # ds))) s"
    by simp
  moreover have "(\<lambda>x. (ext(d := ext d - 1)) x - count_list ds x) = (\<lambda>x. ext x - count_list (d # ds) x)"
    by auto
  ultimately show ?case by simp
qed simp

lemma add_dependency_cases:
  "LdkpAddModuleDependency pool (Some ds) a i s = (st, Some ds', s') \<Longrightarrow>
     ds' = ds \<and> s' = s \<or> ds' = ds @ [a] \<and> s' = (if i then LdkpReferenceModuleLocked a False True s else s)"
  unfolding LdkpAddModuleDependency_def by (auto split: if_splits)

text \<open>The steps of a load.\<close>

lemma import_add_inv:
  assumes inv: "mm_inv c" and l: "(ds, ImportFound a) \<in># mm_Loads c"
    and st: "LdkpAddModuleDependency pool (Some ds) a True (mm_State c) = (st, Some ds', s')"
  shows "mm_inv ((mm_load (ds, ImportFound a) (ds', ImportNone) c)\<lparr>mm_State := s',
      mm_Faults := stale_fault a (mm_State c) @ limit_fault (ds' \<noteq> ds) a (mm_State c) @ mm_Faults c\<rparr>)"
    (is "mm_inv ?d")
  unfolding mm_inv_def
proof
  assume f: "mm_Faults ?d = []"
  then have a: "a \<in> set (ml_ModuleListHead (mm_State c))" and i: "ml_inv (mm_Ext c) (mm_Tasks c) (mm_State c)"
    and less: "ds' \<noteq> ds \<Longrightarrow> unpinned (ml_Module (mm_State c) a) \<Longrightarrow>
      md_LoadCount (ml_Module (mm_State c) a) < MAXLONG"
    using inv by (auto simp: stale_fault_def limit_fault_def mm_inv_def split: if_splits)
  have e: "mm_Ext ?d x = mm_Ext c x - count_list ds x + count_list ds' x" for x
    using mm_Ext_load(1) [OF l, of "(ds', ImportNone)" x] by simp
  have le: "count_list ds x \<le> mm_Ext c x" for x using mm_Ext_load(2) [OF l, of x] by simp
  from add_dependency_cases [OF st] show "ml_inv (mm_Ext ?d) (mm_Tasks ?d) (mm_State ?d)"
  proof (elim disjE conjE)
    assume "ds' = ds" "s' = mm_State c"
    then have "mm_Ext ?d = mm_Ext c" using e le by (simp add: fun_eq_iff)
    then show ?thesis using i \<open>s' = mm_State c\<close> by (simp add: mm_load_def)
  next
    assume n: "ds' = ds @ [a]" "s' = (if True then LdkpReferenceModuleLocked a False True (mm_State c) else mm_State c)"
    then have "mm_Ext ?d = (mm_Ext c)(a := mm_Ext c a + 1)" using e le by (simp add: fun_eq_iff)
    moreover have "ml_inv ((mm_Ext c)(a := mm_Ext c a + 1)) (mm_Tasks c) s'"
      using inv_reference [OF i, of True a False] a less n by simp
    ultimately show ?thesis by (simp add: mm_load_def)
  qed
qed

lemma same_refs_inv:
  assumes "mm_inv c" and "mm_Ext d = mm_Ext c" and "mm_State d = mm_State c" and "mm_Tasks d = mm_Tasks c"
    and "mm_Faults d = [] \<Longrightarrow> mm_Faults c = []"
  shows "mm_inv d"
  using assms by (simp add: mm_inv_def)

lemma import_loaded_inv:
  assumes inv: "mm_inv c" and l: "(ds, ImportNone) \<in># mm_Loads c" and h: "0 < mm_Handles c a"
  shows "mm_inv ((mm_load (ds, ImportNone) (ds, ImportLoaded b) c)
      \<lparr>mm_Handles := (mm_Handles c)(a := mm_Handles c a - 1),
       mm_Faults := (if b = a then [] else [UncountedImport b]) @ mm_Faults c\<rparr>)" (is "mm_inv ?d")
proof (cases "b = a")
  case True
  have "mm_Ext ?d x = mm_Ext c x" for x
    using load_refs_replace(1) [OF l, where a = x]
      load_refs_replace(2) [OF l, where a = x and y = "(ds, ImportLoaded b)"] h True
    by (cases "a = x") (simp_all add: mm_Ext_def mm_load_def)
  then show ?thesis using True by (intro same_refs_inv [OF inv]) (auto simp: mm_load_def fun_eq_iff)
qed (simp add: mm_inv_def)

lemma import_done_refs:
  assumes l: "(ds, ImportLoaded a) \<in># mm_Loads c"
  shows "mm_Ext (mm_load (ds, ImportLoaded a) (ds @ [a], ImportNone) c) = mm_Ext c"
    and "mm_Ext ((mm_load (ds, ImportLoaded a) (ds, ImportNone) c)
           \<lparr>mm_Leaked := (mm_Leaked c)(a := mm_Leaked c a + 1)\<rparr>) = mm_Ext c"
    and "mm_Ext (mm_load (ds, ImportLoaded a) (ds, ImportNone) c) = (mm_Ext c)(a := mm_Ext c a - 1)"
    and "0 < mm_Ext c a"
proof -
  have le: "load_holds (ds, ImportLoaded a) x \<le> mm_Ext c x" for x by (rule mm_Ext_load(2) [OF l])
  show "0 < mm_Ext c a" using le [of a] by simp
  show "mm_Ext (mm_load (ds, ImportLoaded a) (ds @ [a], ImportNone) c) = mm_Ext c"
  proof
    show "mm_Ext (mm_load (ds, ImportLoaded a) (ds @ [a], ImportNone) c) x = mm_Ext c x" for x
      using le [of x] unfolding mm_Ext_load(1) [OF l] by simp
  qed
  show d: "mm_Ext (mm_load (ds, ImportLoaded a) (ds, ImportNone) c) = (mm_Ext c)(a := mm_Ext c a - 1)"
  proof
    show "mm_Ext (mm_load (ds, ImportLoaded a) (ds, ImportNone) c) x = ((mm_Ext c)(a := mm_Ext c a - 1)) x" for x
      using le [of x] unfolding mm_Ext_load(1) [OF l] by (cases "x = a") simp_all
  qed
  show "mm_Ext ((mm_load (ds, ImportLoaded a) (ds, ImportNone) c)
      \<lparr>mm_Leaked := (mm_Leaked c)(a := mm_Leaked c a + 1)\<rparr>) = mm_Ext c"
  proof
    fix x
    have "mm_Ext ((mm_load (ds, ImportLoaded a) (ds, ImportNone) c)
        \<lparr>mm_Leaked := (mm_Leaked c)(a := mm_Leaked c a + 1)\<rparr>) x =
      mm_Ext (mm_load (ds, ImportLoaded a) (ds, ImportNone) c) x + (if x = a then 1 else 0)"
      by (simp add: mm_Ext_def mm_load_def)
    then show "mm_Ext ((mm_load (ds, ImportLoaded a) (ds, ImportNone) c)
        \<lparr>mm_Leaked := (mm_Leaked c)(a := mm_Leaked c a + 1)\<rparr>) x = mm_Ext c x"
      using d le [of a] by simp
  qed
qed

lemma load_register_inv:
  assumes inv: "mm_inv c" and l: "(ds, ImportNone) \<in># mm_Loads c"
    and fr: "fresh_module a b (mm_Tasks c) (mm_State c)"
  shows "mm_inv (c\<lparr>mm_State := register_loaded a n p b sz ds (mm_State c),
      mm_Loads := mm_Loads c - {#(ds, ImportNone)#},
      mm_Handles := (mm_Handles c)(a := mm_Handles c a + 1)\<rparr>)" (is "mm_inv ?d")
proof -
  have "\<forall>x. count_list ds x \<le> mm_Ext c x" using mm_Ext_load(2) [OF l] by simp
  moreover have "mm_Ext ?d = (\<lambda>x. mm_Ext c x - count_list ds x + (if x = a then 1 else 0))"
  proof
    show "mm_Ext ?d x = mm_Ext c x - count_list ds x + (if x = a then 1 else 0)" for x
      using load_refs_replace(1) [OF l, where a = x] by (simp add: mm_Ext_def)
  qed
  ultimately show ?thesis using inv_load [OF _ fr] inv by (simp add: mm_inv_def)
qed

lemma load_fails_inv:
  assumes inv: "mm_inv c" and l: "(ds, ImportNone) \<in># mm_Loads c"
  shows "mm_inv (c\<lparr>mm_Loads := mm_Loads c - {#(ds, ImportNone)#},
      mm_Tasks := mm_Tasks c + mset (map TaskRelease ds)\<rparr>)" (is "mm_inv ?d")
proof -
  have "\<forall>x. count_list ds x \<le> mm_Ext c x" using mm_Ext_load(2) [OF l] by simp
  moreover have "mm_Ext ?d = (\<lambda>x. mm_Ext c x - count_list ds x)"
  proof
    show "mm_Ext ?d x = mm_Ext c x - count_list ds x" for x
      using load_refs_replace(1) [OF l, where a = x] by (simp add: mm_Ext_def)
  qed
  ultimately show ?thesis using inv_unloads inv unfolding mm_inv_def by auto
qed

lemma step_inv:
  assumes inv: "mm_inv c" and step: "module_step c d"
  shows "mm_inv d"
  using step
proof cases
  case load_begin
  then have "mm_Ext d = mm_Ext c" by (simp add: mm_Ext_def load_refs_def fun_eq_iff)
  then show ?thesis using load_begin by (intro same_refs_inv [OF inv]) simp_all
next
  case (import_found ds ieq n a)
  then have "mm_Ext d x = mm_Ext c x" for x
    using mm_Ext_load(1) [OF import_found(2), of "(ds, ImportFound a)" x] mm_Ext_load(2) [OF import_found(2), of x]
    by simp
  then show ?thesis using import_found by (intro same_refs_inv [OF inv]) (auto simp: mm_load_def fun_eq_iff)
next
  case (import_add ds a pool st ds' s')
  then show ?thesis using import_add_inv [OF inv import_add(2,3)] by simp
next
  case (import_loaded ds a ieq n b)
  then show ?thesis using import_loaded_inv [OF inv import_loaded(2,3)] by simp
next
  case (import_kept ds a pool st ds' s')
  then have "ds' = ds @ [a]" "s' = mm_State c" using add_dependency_cases [OF import_kept(3)] by auto
  then show ?thesis using import_done_refs(1) [OF import_kept(2)] import_kept(1)
    by (intro same_refs_inv [OF inv]) (simp_all add: mm_load_def)
next
  case (import_leaks ds a pool st s')
  then have "s' = mm_State c" using add_dependency_cases [OF import_leaks(3)] by auto
  moreover have "mm_Ext d = mm_Ext c"
    using import_done_refs(2) [OF import_leaks(2)] import_leaks(1) by (simp add: mm_Ext_def fun_eq_iff)
  ultimately show ?thesis using import_leaks(1) by (intro same_refs_inv [OF inv]) (simp_all add: mm_load_def)
next
  case (import_dropped ds a pool st s')
  then have "s' = mm_State c" using add_dependency_cases [OF import_dropped(3)] by auto
  moreover have "mm_Ext d = (mm_Ext c)(a := mm_Ext c a - 1)"
    using import_done_refs(3) [OF import_dropped(2)] import_dropped(1) by simp
  ultimately show ?thesis
    using inv_unload [of "mm_Ext c" "mm_Tasks c" "mm_State c" a] import_done_refs(4) [OF import_dropped(2)]
      inv import_dropped(1)
    by (simp add: mm_inv_def mm_load_def)
next
  case (load_register ds a b n p sz)
  then show ?thesis using load_register_inv [OF inv load_register(2,3)] by simp
next
  case (load_fails ds)
  then show ?thesis using load_fails_inv [OF inv load_fails(2)] by simp
next
  case (forward_leaks a)
  then have "mm_Ext d = mm_Ext c" by (auto simp: mm_Ext_def fun_eq_iff)
  then show ?thesis using forward_leaks(1) by (intro same_refs_inv [OF inv]) simp_all
next
  case (by_name ieq n r pin i a s')
  then show ?thesis using mm_referenced_inv [OF inv] lookup_reference(1) [OF by_name(2)] by blast
next
  case (by_address x pin i a s')
  then show ?thesis using mm_referenced_inv [OF inv] lookup_reference(2) [OF by_address(2)] by blast
next
  case (by_path ieq p pin i a s')
  then show ?thesis using mm_referenced_inv [OF inv] lookup_reference(3) [OF by_path(2)] by blast
next
  case (addref h a fl s')
  have "s' = LdkpReferenceModuleLocked a (flag_on fl LDR_ADDREF_DLL_PIN) True (mm_State c)"
    using addref(2,3) unfolding LdkAddRefDll_def by (auto split: if_splits)
  then show ?thesis using mm_referenced_inv [OF inv] module_of_handle_listed [OF addref(2)] addref(1)
    by blast
next
  case (snapshot pool fl st ms s')
  have e: "mm_Ext d = (\<lambda>x. mm_Ext c x + (if x \<in> set ms then 1 else 0))"
    using snapshot(1) by (simp add: mm_Ext_def fun_eq_iff)
  show ?thesis
    unfolding mm_inv_def
  proof
    assume "mm_Faults d = []"
    then have "ml_inv (mm_Ext c) (mm_Tasks c) (mm_State c)"
      and "\<forall>a\<in>set ms. unpinned (ml_Module (mm_State c) a) \<longrightarrow> md_LoadCount (ml_Module (mm_State c) a) < MAXLONG"
      using inv snapshot(1) by (auto simp: mm_inv_def limit_fault_def)
    then show "ml_inv (mm_Ext d) (mm_Tasks d) (mm_State d)"
      using inv_snapshot [OF _ snapshot(2)] snapshot(1) unfolding e by simp
  qed
next
  case (disable h st s')
  have "s' = mm_State c \<or> (\<exists>a. s' = ml_update a
      (\<lambda>m. m\<lparr>md_Flags := md_Flags m OR LDK_MODULE_FLAG_THREAD_LIBRARY_CALLS_DISABLED\<rparr>) (mm_State c))"
    using disable(2) unfolding LdkDisableThreadLibraryCalls_def by (auto split: if_splits sum.splits)
  then show ?thesis using inv inv_flags [of _ _ _ LDK_MODULE_FLAG_THREAD_LIBRARY_CALLS_DISABLED] disable(1)
    by (auto simp: mm_inv_def)
next
  case (flags f a)
  then have "f AND LDK_MODULE_FLAG_PINNED = 0" by auto
  then show ?thesis using inv_flags flags(1) inv by (simp add: mm_inv_def)
next
  case (unload a)
  then have "mm_Ext d = (mm_Ext c)(a := mm_Ext c a - 1)" by (auto simp: mm_Ext_def fun_eq_iff)
  moreover have "0 < mm_Ext c a" using unload(2) by (simp add: mm_Ext_def)
  ultimately show ?thesis using inv_unload inv unload(1) by (simp add: mm_inv_def)
next
  case (task t ts s')
  have "add_mset t (mm_Tasks c - {#t#}) = mm_Tasks c" using task(2) by simp
  then show ?thesis using inv_task_step [OF _ task(3), of "mm_Ext c" "mm_Tasks c - {#t#}"] inv task(1)
    by (simp add: mm_inv_def)
qed

lemma reach_mm_inv: "reach module_init module_step c \<Longrightarrow> mm_inv c"
  by (induction rule: reach_induct) (auto intro: init_inv step_inv)

lemma module_reach_inv:
  "reach module_init module_step c \<Longrightarrow> mm_Faults c = [] \<Longrightarrow> ml_inv (mm_Ext c) (mm_Tasks c) (mm_State c)"
  using reach_mm_inv by (simp add: mm_inv_def)

text \<open>C12: As long as none of the recorded faults has happened, whatever loads, lookups, unloads and
  shutdowns of modules interleave, a module to which a caller holds a handle, that a load under way has
  collected as a dependency or has just loaded, that a listed module depends on or that a release under
  way names is still listed, and a module whose freeing is due is not listed and none of these refer to
  it: nothing is freed while it is in use, and nothing is freed twice. The faults are an import that was
  looked up by name, without a reference, and was no longer listed when it was recorded as a dependency;
  an import recorded under another module than the one loaded for it; and a load count at its maximum.\<close>

theorem module_not_freed_in_use:
  assumes "reach module_init module_step c" and "mm_Faults c = []"
  shows "(\<forall>a. 0 < mm_Handles c a \<longrightarrow> a \<in> set (ml_ModuleListHead (mm_State c))) \<and>
    (\<forall>(ds, p)\<in>#mm_Loads c. set ds \<subseteq> set (ml_ModuleListHead (mm_State c)) \<and>
       (\<forall>a. p = ImportLoaded a \<longrightarrow> a \<in> set (ml_ModuleListHead (mm_State c)))) \<and>
    (\<forall>m\<in>set (ml_ModuleListHead (mm_State c)).
       set (md_DependencyList (ml_Module (mm_State c) m)) \<subseteq> set (ml_ModuleListHead (mm_State c))) \<and>
    (\<forall>a. TaskRelease a \<in># mm_Tasks c \<longrightarrow> a \<in> set (ml_ModuleListHead (mm_State c))) \<and>
    (\<forall>a. TaskFree a \<in># mm_Tasks c \<longrightarrow> count (mm_Tasks c) (TaskFree a) = 1 \<and>
       a \<notin> set (ml_ModuleListHead (mm_State c)) \<and> mm_Ext c a = 0 \<and> dep_refs (mm_State c) a = 0 \<and>
       TaskRelease a \<notin># mm_Tasks c)"
proof -
  have sh: "ml_shape (mm_State c)" and tg: "ml_targets (mm_Ext c) (mm_Tasks c) (mm_State c)"
    using module_reach_inv [OF assms] by (simp_all add: ml_inv_def)
  have ext: "0 < mm_Ext c a \<Longrightarrow> a \<in> set (ml_ModuleListHead (mm_State c))" for a
    using tg unfolding ml_targets_def by blast
  have "set ds \<subseteq> set (ml_ModuleListHead (mm_State c)) \<and>
      (\<forall>a. p = ImportLoaded a \<longrightarrow> a \<in> set (ml_ModuleListHead (mm_State c)))" if l: "(ds, p) \<in># mm_Loads c" for ds p
  proof -
    have "0 < load_holds (ds, p) a" if "a \<in> set ds \<or> p = ImportLoaded a" for a
    proof -
      have "a \<in> set ds \<Longrightarrow> 0 < count_list ds a" by (simp add: count_list_0_iff zero_less_iff_neq_zero)
      then show ?thesis using that by (cases p) auto
    qed
    then have "0 < mm_Ext c a" if "a \<in> set ds \<or> p = ImportLoaded a" for a
      using that mm_Ext_load(2) [OF l, of a] by fastforce
    then show ?thesis using ext by blast
  qed
  moreover have "0 < mm_Handles c a \<Longrightarrow> a \<in> set (ml_ModuleListHead (mm_State c))" for a
    using ext [of a] by (simp add: mm_Ext_def)
  moreover have "a \<notin> set (ml_ModuleListHead (mm_State c)) \<and> mm_Ext c a = 0 \<and> dep_refs (mm_State c) a = 0 \<and>
      TaskRelease a \<notin># mm_Tasks c \<and> count (mm_Tasks c) (TaskFree a) = 1" if t: "TaskFree a \<in># mm_Tasks c" for a
  proof -
    have a: "a \<notin> set (ml_ModuleListHead (mm_State c))" using tg t unfolding ml_targets_def by blast
    then have "dep_refs (mm_State c) a = 0" using sh unfolding dep_refs_0 ml_shape_def by blast
    then show ?thesis using tg t a unfolding ml_targets_def by blast
  qed
  moreover have "\<forall>m\<in>set (ml_ModuleListHead (mm_State c)).
      set (md_DependencyList (ml_Module (mm_State c) m)) \<subseteq> set (ml_ModuleListHead (mm_State c))"
    using sh unfolding ml_shape_def by blast
  moreover have "\<forall>a. TaskRelease a \<in># mm_Tasks c \<longrightarrow> a \<in> set (ml_ModuleListHead (mm_State c))"
    using tg unfolding ml_targets_def by blast
  ultimately show ?thesis by (auto split: prod.splits)
qed

text \<open>C13: As long as none of the recorded faults has happened, the load count of a listed module that
  can be unloaded is at least one and is exactly the number of handles callers hold, references of loads
  under way, references the code has lost, dependency entries of listed modules and releases under way
  that refer to it. The lost references are those of a load whose module turned out to be a dependency
  already and those of forwarded routines.\<close>

theorem module_load_count:
  assumes "reach module_init module_step c" and "mm_Faults c = []"
    and "a \<in> set (ml_ModuleListHead (mm_State c))" and "unpinned (ml_Module (mm_State c) a)"
  shows "0 < md_LoadCount (ml_Module (mm_State c) a) \<and>
    md_LoadCount (ml_Module (mm_State c) a) =
      int (mm_Handles c a + load_refs (mm_Loads c) a + mm_Leaked c a + dep_refs (mm_State c) a +
        count (mm_Tasks c) (TaskRelease a))"
  using ml_countsD [OF module_reach_inv [OF assms(1,2)] assms(3,4)] by (simp add: module_refs_def mm_Ext_def)

section \<open>Unloading and shutting down\<close>

lemma unload_is_task:
  "LdkUnloadDll (md_handle s a) s = (fst (LdkUnloadDll_locked (md_handle s a) s), module_run [TaskRelease a] s)"
  by (auto simp: LdkUnloadDll_def split: prod.splits option.splits)

lemma unload_status:
  assumes "ml_shape s" and "a \<in> set (ml_ModuleListHead s)"
  shows "fst (LdkUnloadDll_locked (md_handle s a) s) = STATUS_SUCCESS"
  unfolding LdkUnloadDll_locked_def handle_names_module [OF assms] by (auto split: if_splits)

lemma inv_unload_run:
  assumes "ml_inv ext {#} s" and "0 < ext a"
  shows "ml_inv (ext(a := ext a - 1)) {#} (module_run [TaskRelease a] s)"
  using inv_run [of "ext(a := ext a - 1)" "[TaskRelease a]" s] inv_unload [OF assms] by simp

text \<open>C14: When no other release is under way and none of the recorded faults has happened, unloading a
  held module returns successfully, with every unload it causes in turn finished: the handle is gone, all
  other handles still name listed modules and the counts are exact again.\<close>

theorem unload_dll:
  assumes "reach module_init module_step c" and "mm_Faults c = []" and "mm_Tasks c = {#}" and "0 < mm_Ext c a"
  shows "\<exists>s'. LdkUnloadDll (md_handle (mm_State c) a) (mm_State c) = (STATUS_SUCCESS, s') \<and>
    ml_inv ((mm_Ext c)(a := mm_Ext c a - 1)) {#} s'"
proof -
  have inv: "ml_inv (mm_Ext c) {#} (mm_State c)" using module_reach_inv [OF assms(1,2)] assms(3) by simp
  then have "a \<in> set (ml_ModuleListHead (mm_State c))" using assms(4) unfolding ml_inv_def ml_targets_def by blast
  then show ?thesis
    using unload_is_task [of "mm_State c" a] unload_status [of "mm_State c" a] inv inv_unload_run [OF inv assms(4)]
    by (simp add: ml_inv_def)
qed

text \<open>The number of times a module was or will still be freed.\<close>

definition free_events :: "addr \<Rightarrow> module_state \<Rightarrow> nat" where
  "free_events b s = count_list (ml_Events s) (ModuleFree b) +
     (if b \<in> set (ml_ModuleListHead s) \<and> md_FunctionTable (ml_Module s b) = None then 1 else 0)"

lemma unregister_frees:
  assumes "LdkpUnregisterModule a s = (ts, s')"
    and "md_FunctionTable (ml_Module s a) = None \<or> md_DependencyList (ml_Module s a) = []"
  shows "free_events b s' = free_events b s" and "ts = unregister_tasks a s"
proof -
  show "ts = unregister_tasks a s" using unregister_step [OF assms] by blast
  have "count_list (ml_Events s') (ModuleFree b) = count_list (ml_Events s) (ModuleFree b)"
    and "md_FunctionTable (ml_Module s' b) = md_FunctionTable (ml_Module s b)"
    using assms(1) unfolding LdkpUnregisterModule_def Let_def ml_update_def by (auto split: if_splits)
  then show "free_events b s' = free_events b s"
    using unregister_step [OF assms] by (simp add: free_events_def)
qed

lemma task_frees:
  assumes inv: "ml_inv ext (add_mset t tasks) s" and st: "module_task_step t s = (ts, s')"
  shows "free_events b s' + count (mset ts) (TaskFree b) = free_events b s + (if t = TaskFree b then 1 else 0)"
proof (cases t)
  case (TaskFree a)
  then have "ts = []" "s' = s\<lparr>ml_Events := ModuleFree a # ml_Events s\<rparr>" using st by auto
  then show ?thesis by (simp add: free_events_def TaskFree)
next
  case (TaskRelease a)
  have i: "ml_inv ext (add_mset (TaskRelease a) tasks) s" using inv by (simp add: TaskRelease)
  have a: "a \<in> set (ml_ModuleListHead s)" using i unfolding ml_inv_def ml_targets_def by simp
  show ?thesis
  proof (cases rule: release_cases [OF i a, case_names kept counted last])
    case kept
    then show ?thesis using st by (simp add: TaskRelease)
  next
    case counted
    then have "ts = [] \<and> s' = ml_update a (\<lambda>m. m\<lparr>md_LoadCount := md_LoadCount m - 1\<rparr>) s"
      using st unfolding TaskRelease by (simp only: prod.inject)
    then show ?thesis by (simp add: TaskRelease free_events_def ml_update_def)
  next
    case last
    let ?s = "(ml_update a (\<lambda>m. m\<lparr>md_LoadCount := 0\<rparr>) s)\<lparr>ml_ModuleListHead := remove1 a (ml_ModuleListHead s)\<rparr>"
    have u: "LdkpUnregisterModule a ?s = (ts, s')" using st last(3) by (simp only: TaskRelease)
    have ft: "md_FunctionTable (ml_Module s a) = None" using last(1) by (simp add: unpinned_def)
    then have "free_events b s' = free_events b ?s" and ts: "ts = unregister_tasks a ?s"
      using unregister_frees [OF u] by (simp_all add: ml_update_def)
    moreover have "count (mset ts) (TaskFree b) = (if b = a then 1 else 0)"
      using ts ft by (simp add: count_unregister_tasks ml_update_def)
    moreover have "free_events b ?s = free_events b s - (if b = a then 1 else 0)" and "free_events a s \<noteq> 0"
      using a ft i unfolding ml_inv_def ml_shape_def by (auto simp: free_events_def ml_update_def)
    ultimately show ?thesis by (auto simp: TaskRelease)
  qed
qed

lemma run_frees:
  "ml_inv ext (mset ts) s \<Longrightarrow> free_events b (module_run ts s) = free_events b s + count (mset ts) (TaskFree b)"
proof (induction ts s rule: module_run.induct)
  case (2 t ts s)
  obtain ts' s' where st: "module_task_step t s = (ts', s')" by (cases "module_task_step t s")
  have i: "ml_inv ext (add_mset t (mset ts)) s" using 2(2) by simp
  have "ml_inv ext (mset (ts' @ ts)) s'" using inv_task_step [OF i st] by (simp add: union_commute)
  then have "free_events b (module_run (ts' @ ts) s') = free_events b s' + count (mset (ts' @ ts)) (TaskFree b)"
    by (rule 2(1) [OF st [symmetric]])
  then show ?case using task_frees [OF i st, of b] by (simp add: st)
qed simp

lemma last_not_needed:
  assumes "ml_shape s" and "ml_ModuleListHead s \<noteq> []"
  shows "dep_refs s (last (ml_ModuleListHead s)) = 0"
proof -
  obtain xs a where xs: "ml_ModuleListHead s = xs @ [a]" using assms(2) by (metis append_butlast_last_id)
  then show ?thesis using assms(1) unfolding dep_refs_0 ml_shape_def by (auto simp: sorted_wrt_append)
qed

lemma terminate_turn:
  assumes inv: "ml_inv ext {#} s" and ne: "ml_ModuleListHead s \<noteq> []"
    and u: "LdkpUnregisterModule (last (ml_ModuleListHead s))
       (s\<lparr>ml_ModuleListHead := butlast (ml_ModuleListHead s)\<rparr>) = (ts, s2)"
  shows "ml_inv (ext(last (ml_ModuleListHead s) := 0)) {#} (module_run ts s2)"
    and "free_events b (module_run ts s2) = free_events b s"
proof -
  let ?a = "last (ml_ModuleListHead s)"
  let ?s = "s\<lparr>ml_ModuleListHead := butlast (ml_ModuleListHead s)\<rparr>"
  have sh: "ml_shape s" using inv by (simp add: ml_inv_def)
  have dist: "distinct (ml_ModuleListHead s)" using sh by (simp add: ml_shape_def)
  have a: "?a \<in> set (ml_ModuleListHead s)" using ne by simp
  have bl: "butlast (ml_ModuleListHead s) = remove1 ?a (ml_ModuleListHead s)"
    using ne dist by (metis append_butlast_last_id distinct_butlast not_distinct_conv_prefix remove1_append
        remove1.simps(2) append_Nil2)
  have deps: "md_FunctionTable (ml_Module ?s ?a) = None \<or> md_DependencyList (ml_Module ?s ?a) = []"
    using sh a unfolding ml_shape_def by (metis module_state.select_convs(2) module_state.surjective module_state.update_convs(1))
  have r: "ts = unregister_tasks ?a s" and l2: "ml_ModuleListHead s2 = butlast (ml_ModuleListHead s)"
    and same: "\<forall>m. m \<noteq> ?a \<longrightarrow> ml_Module s2 m = ml_Module s m"
    using unregister_step [OF u deps] by (simp_all add: unregister_tasks_def)
  have "unlinks ext {#} {#} ?a s s2"
    unfolding unlinks_def using inv a l2 bl same last_not_needed [OF sh ne] by simp
  then have i2: "ml_inv (ext(?a := 0)) (mset ts) s2" using inv_unlink r by fastforce
  then show "ml_inv (ext(?a := 0)) {#} (module_run ts s2)" by (rule inv_run)
  have "free_events b s2 = free_events b ?s" by (rule unregister_frees(1) [OF u deps])
  moreover have "free_events b ?s + count (mset ts) (TaskFree b) = free_events b s"
    using a dist unfolding r by (auto simp: count_unregister_tasks free_events_def bl)
  ultimately show "free_events b (module_run ts s2) = free_events b s" using run_frees [OF i2, of b] by simp
qed

lemma terminate_run:
  "ml_inv ext {#} s \<Longrightarrow> ml_ModuleListHead (terminate_modules s) = [] \<and>
     (\<forall>b. free_events b (terminate_modules s) = free_events b s)"
proof (induction s arbitrary: ext rule: terminate_modules.induct)
  case (1 s)
  show ?case
  proof (cases "ml_ModuleListHead s = []")
    case True
    then show ?thesis by (simp add: terminate_modules.simps)
  next
    case False
    let ?a = "last (ml_ModuleListHead s)"
    obtain ts s2 where u: "LdkpUnregisterModule ?a (s\<lparr>ml_ModuleListHead := butlast (ml_ModuleListHead s)\<rparr>) = (ts, s2)"
      by (cases "LdkpUnregisterModule ?a (s\<lparr>ml_ModuleListHead := butlast (ml_ModuleListHead s)\<rparr>)")
    have "terminate_modules s = terminate_modules (module_run ts s2)"
      by (subst terminate_modules.simps) (simp add: False u Let_def)
    then show ?thesis
      using 1(1) [OF False refl refl u [symmetric] terminate_turn(1) [OF 1(2) False u]]
        terminate_turn(2) [OF 1(2) False u] by simp
  qed
qed

text \<open>C15: When no release is under way and none of the recorded faults has happened, shutting down returns
  with an empty list and frees every module that was listed and is not built in exactly once, although
  unregistering a module also drops the references it holds on others; a module that had been freed before
  is not freed again.\<close>

theorem terminate_frees_once:
  assumes "reach module_init module_step c" and "mm_Faults c = []" and "mm_Tasks c = {#}"
  shows "ml_ModuleListHead (terminate_modules (mm_State c)) = [] \<and>
    (\<forall>a. count_list (ml_Events (terminate_modules (mm_State c))) (ModuleFree a) =
       count_list (ml_Events (mm_State c)) (ModuleFree a) +
       (if a \<in> set (ml_ModuleListHead (mm_State c)) \<and> md_FunctionTable (ml_Module (mm_State c) a) = None
        then 1 else 0))"
proof -
  have "ml_inv (mm_Ext c) {#} (mm_State c)" using module_reach_inv [OF assms(1,2)] assms(3) by simp
  then have l: "ml_ModuleListHead (terminate_modules (mm_State c)) = []"
    and f: "free_events b (terminate_modules (mm_State c)) = free_events b (mm_State c)" for b
    using terminate_run by blast+
  have "count_list (ml_Events (terminate_modules (mm_State c))) (ModuleFree b) =
      free_events b (terminate_modules (mm_State c))" for b
    by (simp add: free_events_def l)
  then show ?thesis unfolding f using l by (simp add: free_events_def)
qed

section \<open>A run\<close>

text \<open>One image is loaded next to a built-in module, and its handle is closed.\<close>

definition demo_start :: module_machine where
  "demo_start = \<lparr>mm_State = \<lparr>ml_ModuleListHead = [100],
     ml_Module = (\<lambda>_. \<lparr>md_ModuleName = ''K'', md_FullPathName = ''K'', md_FunctionTable = Some [],
       md_Base = NULL, md_Size = 0, md_LoadCount = 0, md_Flags = 0, md_TlsIndex = 0, md_DependencyList = []\<rparr>),
     ml_Events = []\<rparr>, mm_Handles = (\<lambda>_. 0), mm_Loads = {#}, mm_Leaked = (\<lambda>_. 0), mm_Tasks = {#},
     mm_Faults = []\<rparr>"

definition demo_loaded :: module_machine where
  "demo_loaded = demo_start\<lparr>mm_State := register_loaded 8 ''A'' ''A'' 4096 16 [] (mm_State demo_start),
     mm_Loads := {#}, mm_Handles := (mm_Handles demo_start)(8 := mm_Handles demo_start 8 + 1)\<rparr>"

definition demo_closing :: module_machine where
  "demo_closing = demo_loaded\<lparr>mm_Handles := (mm_Handles demo_loaded)(8 := mm_Handles demo_loaded 8 - 1),
     mm_Tasks := add_mset (TaskRelease 8) (mm_Tasks demo_loaded)\<rparr>"

definition demo_unlinked :: module_machine where
  "demo_unlinked = demo_closing\<lparr>mm_State := snd (module_task_step (TaskRelease 8) (mm_State demo_closing)),
     mm_Tasks := mm_Tasks demo_closing - {#TaskRelease 8#} +
       mset (fst (module_task_step (TaskRelease 8) (mm_State demo_closing)))\<rparr>"

lemma demo_loaded_reach: "reach module_init module_step demo_loaded"
proof -
  have "module_init demo_start" by (simp add: module_init_def demo_start_def)
  then have "reach module_init module_step demo_start" by (rule reach_init)
  then have r: "reach module_init module_step (demo_start\<lparr>mm_Loads := add_mset ([], ImportNone) (mm_Loads demo_start)\<rparr>)"
    (is "reach _ _ ?c") by (rule reach_step) (rule module_step.load_begin)
  have "module_step ?c (?c\<lparr>mm_State := register_loaded 8 ''A'' ''A'' 4096 16 [] (mm_State ?c),
      mm_Loads := mm_Loads ?c - {#([], ImportNone)#}, mm_Handles := (mm_Handles ?c)(8 := mm_Handles ?c 8 + 1)\<rparr>)"
    by (rule module_step.load_register) (simp_all add: fresh_module_def demo_start_def)
  then have "module_step ?c demo_loaded" by (simp add: demo_loaded_def demo_start_def)
  with r show ?thesis by (rule reach_step)
qed

lemma demo_unlinked_reach: "reach module_init module_step demo_unlinked"
proof -
  have "module_step demo_loaded demo_closing"
    unfolding demo_closing_def by (rule module_step.unload) (simp add: demo_loaded_def)
  then have "reach module_init module_step demo_closing" using reach_step demo_loaded_reach by metis
  moreover have "module_step demo_closing demo_unlinked"
    unfolding demo_unlinked_def by (rule module_step.task) (simp_all add: demo_closing_def)
  ultimately show ?thesis by (rule reach_step)
qed

lemmas demo_eval = demo_unlinked_def demo_closing_def demo_loaded_def demo_start_def register_loaded_def
  LdkpMoveModuleDependencies_def LdkRegisterModule_def ml_update_def LdkUnloadDll_locked_def module_of_handle_def
  LdkpGetModuleByBase_def md_handle_def LdkpUnregisterModule_def LDK_MODULE_HAS_UNREGISTRABLE_def flag_on_def

lemma demo_unlinked_tasks: "mm_Tasks demo_unlinked = {#TaskFree 8#}"
  by (simp add: demo_eval)

lemma demo_loaded_facts:
  "ml_ModuleListHead (mm_State demo_loaded) = [100, 8]" "mm_Ext demo_loaded 8 = 1" "mm_Tasks demo_loaded = {#}"
  "mm_Handles demo_loaded 8 = 1" "mm_Faults demo_loaded = []"
  "unpinned (ml_Module (mm_State demo_loaded) 8)" "ml_Events (mm_State demo_loaded) = []"
  "md_FunctionTable (ml_Module (mm_State demo_loaded) 8) = None"
  "md_FunctionTable (ml_Module (mm_State demo_loaded) 100) = Some []"
  by (simp_all add: demo_eval unpinned_def mm_Ext_def load_refs_def)

theorem module_not_freed_in_use_witness:
  "TaskFree 8 \<in># mm_Tasks demo_unlinked \<and> mm_Ext demo_unlinked 8 = 0 \<and> dep_refs (mm_State demo_unlinked) 8 = 0"
  using module_not_freed_in_use [OF demo_unlinked_reach] demo_unlinked_tasks
  by (simp add: demo_unlinked_def demo_closing_def demo_loaded_facts)

theorem module_load_count_witness:
  "md_LoadCount (ml_Module (mm_State demo_loaded) 8) = 1 + int (dep_refs (mm_State demo_loaded) 8)"
  using module_load_count [OF demo_loaded_reach, of 8] demo_loaded_facts
  by (simp add: load_refs_def demo_loaded_def demo_start_def)

theorem unload_dll_witness:
  "\<exists>s'. LdkUnloadDll (md_handle (mm_State demo_loaded) 8) (mm_State demo_loaded) = (STATUS_SUCCESS, s')"
  using unload_dll [OF demo_loaded_reach, of 8] demo_loaded_facts by auto

theorem terminate_frees_once_witness:
  "count_list (ml_Events (terminate_modules (mm_State demo_loaded))) (ModuleFree 8) = 1 \<and>
   count_list (ml_Events (terminate_modules (mm_State demo_loaded))) (ModuleFree 100) = 0"
  using terminate_frees_once [OF demo_loaded_reach] demo_loaded_facts by simp

section \<open>Two lookups by address\<close>

definition module_containing :: "(ldk_module \<Rightarrow> bool) \<Rightarrow> addr \<Rightarrow> module_state \<Rightarrow> addr option" where
  "module_containing P x s = List.find (\<lambda>a. let m = ml_Module s a in
     md_Base m \<noteq> NULL \<and> P m \<and> x \<in> {md_Base m ..< md_Base m + unat (md_Size m)}) (ml_ModuleListHead s)"

lemma reference_by_address_containing:
  "LdkReferenceModuleByAddress x Pin i s =
     (case module_containing (\<lambda>m. \<not> flag_on (md_Flags m) LDK_MODULE_FLAG_RESOURCE_ONLY) x s of
        None \<Rightarrow> (Inl STATUS_NOT_FOUND, s) | Some a \<Rightarrow> (Inr a, LdkpReferenceModuleLocked a Pin i s))"
  unfolding LdkReferenceModuleByAddress_def module_containing_def by (simp add: Let_def)

text \<open>\<open>LdkReferenceModuleByAddress\<close> finds the image that contains the address, but
  \<open>LdkGetModuleByAddress\<close> finds the image that contains the address before it: the base of an image is
  not found, and the first address behind an image is taken for a part of it.\<close>

theorem module_by_address_shifted:
  "LdkGetModuleByAddress (Suc x) s =
     (case module_containing (\<lambda>_. True) x s of None \<Rightarrow> Inl STATUS_NOT_FOUND | Some a \<Rightarrow> Inr a) \<and>
   fst (LdkReferenceModuleByAddress x Pin i s) =
     (case module_containing (\<lambda>m. \<not> flag_on (md_Flags m) LDK_MODULE_FLAG_RESOURCE_ONLY) x s of
        None \<Rightarrow> Inl STATUS_NOT_FOUND | Some a \<Rightarrow> Inr a)"
proof -
  have "(\<lambda>a. let ImageBase = md_Base (ml_Module s a) in ImageBase \<noteq> NULL \<and> ImageBase < Suc x \<and>
          Suc x \<le> ImageBase + unat (md_Size (ml_Module s a))) =
        (\<lambda>a. let m = ml_Module s a in md_Base m \<noteq> NULL \<and> True \<and> x \<in> {md_Base m ..< md_Base m + unat (md_Size m)})"
    by (auto simp: fun_eq_iff Let_def)
  then show ?thesis
    unfolding reference_by_address_containing LdkGetModuleByAddress_def module_containing_def
    by (simp only:) (auto split: option.splits)
qed

section \<open>An import that is not protected\<close>

lemma unregister_table:
  "LdkpUnregisterModule a s = (ts, s') \<Longrightarrow> md_FunctionTable (ml_Module s' b) = md_FunctionTable (ml_Module s b)"
  unfolding LdkpUnregisterModule_def Let_def ml_update_def by (auto split: if_splits)

lemma task_keeps:
  assumes "module_task_step t s = (ts, s')"
  shows "set (ml_ModuleListHead s') \<subseteq> set (ml_ModuleListHead s) \<and>
    md_FunctionTable (ml_Module s' b) = md_FunctionTable (ml_Module s b)"
proof (cases t)
  case (TaskRelease d)
  show ?thesis
  proof (cases rule: LdkUnloadDll_locked_cases [of "md_handle s d" s])
    case (3 a)
    let ?u = "(ml_update a (\<lambda>m. m\<lparr>md_LoadCount := 0\<rparr>) s)\<lparr>ml_ModuleListHead := remove1 a (ml_ModuleListHead s)\<rparr>"
    have u: "LdkpUnregisterModule a ?u = (ts, s')" using assms 3(6) by (simp add: TaskRelease)
    have "ml_ModuleListHead s' = remove1 a (ml_ModuleListHead s)" using unregister_list [of a ?u] u by simp
    then show ?thesis using unregister_table [OF u, of b] set_remove1_subset [of a "ml_ModuleListHead s"]
      by (simp add: ml_update_def)
  qed (use assms in \<open>auto simp: TaskRelease ml_update_def\<close>)
qed (use assms in auto)

lemma run_keeps:
  "set (ml_ModuleListHead (module_run ts s)) \<subseteq> set (ml_ModuleListHead s) \<and>
    md_FunctionTable (ml_Module (module_run ts s) b) = md_FunctionTable (ml_Module s b)"
proof (induction ts s rule: module_run.induct)
  case (2 t ts s)
  obtain ts' s' where st: "module_task_step t s = (ts', s')" by (cases "module_task_step t s")
  show ?case using 2 [OF st [symmetric]] task_keeps [OF st] by (auto simp: st)
qed simp

text \<open>The resolution of an import finds the module by name, without a reference, and takes the
  reference in a second step. If the last handle is closed in between, the module is freed and the import
  still records it as a dependency.\<close>

theorem import_of_unloaded_module:
  assumes "reach module_init module_step c" and "mm_Faults c = []" and "mm_Tasks c = {#}"
    and "LdkpGetModuleByName ieq n (mm_State c) = Inr a" and "unpinned (ml_Module (mm_State c) a)"
    and "mm_Ext c a = 1" and "dep_refs (mm_State c) a = 0" and "ml_Events (mm_State c) = []"
  shows "\<exists>s s'. LdkUnloadDll (md_handle (mm_State c) a) (mm_State c) = (STATUS_SUCCESS, s) \<and>
    ModuleFree a \<in> set (ml_Events s) \<and> a \<notin> set (ml_ModuleListHead s) \<and>
    LdkpAddModuleDependency True (Some []) a True s = (STATUS_SUCCESS, Some [a], s')"
proof -
  let ?s = "mm_State c"
  have inv: "ml_inv (mm_Ext c) {#} ?s" using module_reach_inv [OF assms(1,2)] assms(3) by simp
  have a: "a \<in> set (ml_ModuleListHead ?s)"
    using assms(4) unfolding LdkpGetModuleByName_def LdkpGetModuleByNameEx_def
    by (auto split: option.splits dest: find_Some_in_set)
  have i: "ml_inv ((mm_Ext c)(a := 0)) (add_mset (TaskRelease a) {#}) ?s"
    using inv_unload [OF inv, of a] assms(6) by simp
  have one: "md_LoadCount (ml_Module ?s a) = 1"
    using ml_countsD(2) [OF inv a assms(5)] assms(6,7) by (simp add: module_refs_def)
  obtain ts s1 where st: "module_task_step (TaskRelease a) ?s = (ts, s1)"
    by (cases "module_task_step (TaskRelease a) ?s")
  let ?u = "(ml_update a (\<lambda>m. m\<lparr>md_LoadCount := 0\<rparr>) ?s)\<lparr>ml_ModuleListHead := remove1 a (ml_ModuleListHead ?s)\<rparr>"
  have "module_task_step (TaskRelease a) ?s = LdkpUnregisterModule a ?u"
    by (rule release_cases [OF i a]) (simp_all only: one assms(5) simp_thms less_irrefl)
  then have u: "LdkpUnregisterModule a ?u = (ts, s1)" using st by (simp only:)
  have ft: "md_FunctionTable (ml_Module ?u a) = None" using assms(5) by (simp add: ml_update_def unpinned_def)
  let ?r = "module_run ts s1"
  have "a \<notin> set (ml_ModuleListHead s1)"
    using unregister_step [OF u] ft inv unfolding ml_inv_def ml_shape_def by simp
  then have out: "a \<notin> set (ml_ModuleListHead ?r)" using run_keeps by blast
  have i1: "ml_inv ((mm_Ext c)(a := 0)) (mset ts) s1" using inv_task_step [OF i st] by simp
  have "free_events a ?r = 1"
    using run_frees [OF i1, of a] task_frees [OF i st, of a] assms(5,8) a by (simp add: free_events_def unpinned_def)
  then have freed: "ModuleFree a \<in> set (ml_Events ?r)"
  proof -
    have "count_list (ml_Events ?r) (ModuleFree a) \<noteq> 0"
      using out \<open>free_events a ?r = 1\<close> unfolding free_events_def by (simp only: simp_thms if_False)
    then show ?thesis by (simp only: count_list_0_iff not_not)
  qed
  have "md_FunctionTable (ml_Module ?r a) = None"
    using run_keeps [of ts s1 a] task_keeps [OF st, of a] assms(5) by (simp add: unpinned_def)
  then have dep: "\<exists>s'. LdkpAddModuleDependency True (Some []) a True ?r = (STATUS_SUCCESS, Some [a], s')"
    by (simp add: LdkpAddModuleDependency_def LDK_MODULE_HAS_UNREGISTRABLE_def LdkpModuleDependencyExists_def)
  have "module_run [TaskRelease a] ?s = ?r" by (simp only: module_run.simps st prod.case append_Nil2)
  then have "LdkUnloadDll (md_handle ?s a) ?s = (STATUS_SUCCESS, ?r)"
    using unload_is_task [of ?s a] unload_status [of ?s a] inv a by (simp add: ml_inv_def)
  then show ?thesis using out freed dep by blast
qed

theorem import_of_unloaded_module_witness:
  "\<exists>s s'. LdkUnloadDll (md_handle (mm_State demo_loaded) 8) (mm_State demo_loaded) = (STATUS_SUCCESS, s) \<and>
    ModuleFree 8 \<in> set (ml_Events s) \<and>
    LdkpAddModuleDependency True (Some []) 8 True s = (STATUS_SUCCESS, Some [8], s')"
proof -
  have n: "LdkpGetModuleByName (=) ''A'' (mm_State demo_loaded) = Inr 8"
    by (simp add: LdkpGetModuleByName_def LdkpGetModuleByNameEx_def LdkpModuleMatchesResourceMode_def demo_eval)
  have "dep_refs (mm_State demo_loaded) 8 = 0" by (simp add: dep_refs_def demo_eval)
  then show ?thesis
    using import_of_unloaded_module [OF demo_loaded_reach _ _ n] demo_loaded_facts by blast
qed

text \<open>So the fault is reachable: a load under way can come to depend on a module that has been freed.\<close>

theorem stale_import_reachable:
  "\<exists>c. reach module_init module_step c \<and> StaleImport 8 \<in> set (mm_Faults c) \<and>
     ModuleFree 8 \<in> set (ml_Events (mm_State c)) \<and> ([8], ImportNone) \<in># mm_Loads c"
proof -
  let ?S = "mm_State demo_loaded"
  obtain c1 where c1: "c1 = demo_loaded\<lparr>mm_Loads := {#([], ImportNone)#}\<rparr>" by blast
  have "module_step demo_loaded (demo_loaded\<lparr>mm_Loads := add_mset ([], ImportNone) (mm_Loads demo_loaded)\<rparr>)"
    by (rule module_step.load_begin)
  then have r1: "reach module_init module_step c1"
    using reach_step [OF demo_loaded_reach] by (simp add: c1 demo_loaded_def)
  obtain c2 where c2: "c2 = demo_loaded\<lparr>mm_Loads := {#([], ImportFound 8)#}\<rparr>" by blast
  have n: "LdkpGetModuleByName (=) ''A'' (mm_State c1) = Inr 8"
    by (simp add: c1 LdkpGetModuleByName_def LdkpGetModuleByNameEx_def LdkpModuleMatchesResourceMode_def demo_eval)
  have "module_step c1 (mm_load ([], ImportNone) ([], ImportFound 8) c1)"
    by (rule module_step.import_found [OF _ n]) (simp add: c1)
  then have r2: "reach module_init module_step c2"
    using reach_step [OF r1] by (simp add: c1 c2 mm_load_def)
  obtain c3 where c3: "c3 = c2\<lparr>mm_Handles := (mm_Handles c2)(8 := mm_Handles c2 8 - 1),
      mm_Tasks := add_mset (TaskRelease 8) (mm_Tasks c2)\<rparr>" by blast
  have "module_step c2 c3" unfolding c3 by (rule module_step.unload) (simp add: c2 demo_loaded_facts)
  then have r3: "reach module_init module_step c3" by (rule reach_step [OF r2])
  obtain ts s' where st: "module_task_step (TaskRelease 8) ?S = (ts, s')"
    by (cases "module_task_step (TaskRelease 8) ?S")
  have t: "ts = [TaskFree 8]" "8 \<notin> set (ml_ModuleListHead s')" "md_FunctionTable (ml_Module s' 8) = None"
    "ml_Events s' = [ModuleFreeImage 8]"
    using st by (auto simp: demo_eval)
  obtain c4 where c4: "c4 = c3\<lparr>mm_State := s', mm_Tasks := {#TaskFree 8#}\<rparr>" by blast
  have "module_step c3 (c3\<lparr>mm_State := s', mm_Tasks := mm_Tasks c3 - {#TaskRelease 8#} + mset ts\<rparr>)"
  proof (rule module_step.task)
    have "mm_State c3 = ?S" by (simp add: c3 c2)
    then show "module_task_step (TaskRelease 8) (mm_State c3) = (ts, s')" using st by (simp only:)
  qed (simp add: c3)
  then have r4: "reach module_init module_step c4"
    using reach_step [OF r3] by (simp add: c4 c3 c2 t demo_loaded_facts)
  obtain c5 where c5: "c5 = c4\<lparr>mm_State := s'\<lparr>ml_Events := ModuleFree 8 # ml_Events s'\<rparr>, mm_Tasks := {#}\<rparr>" by blast
  have "module_step c4 (c4\<lparr>mm_State := s'\<lparr>ml_Events := ModuleFree 8 # ml_Events s'\<rparr>,
      mm_Tasks := mm_Tasks c4 - {#TaskFree 8#} + mset []\<rparr>)"
    by (rule module_step.task) (simp_all add: c4)
  then have r5: "reach module_init module_step c5" using reach_step [OF r4] by (simp add: c5 c4)
  have l: "([], ImportFound 8) \<in># mm_Loads c5" by (simp add: c5 c4 c3 c2)
  obtain s'' where a: "LdkpAddModuleDependency True (Some []) 8 True (mm_State c5) = (STATUS_SUCCESS, Some [8], s'')"
    and ev: "ml_Events s'' = ml_Events (mm_State c5)"
    by (simp add: c5 LdkpAddModuleDependency_def LDK_MODULE_HAS_UNREGISTRABLE_def LdkpModuleDependencyExists_def t(3)
        reference_update ml_update_def)
  note r6 = reach_step [OF r5 module_step.import_add [OF l a]]
  show ?thesis
    by (rule exI, rule conjI, rule r6) (simp add: ev c5 c4 c3 c2 mm_load_def stale_fault_def t(2))
qed

end
