(* ===== verification/TebWalk.thy ===== *)
theory TebWalk
  imports Prelude
begin

text \<open>
  The list of thread environment blocks and the walk over it that holds the rundown protection of one
  block at a time (src/teb.c, \<open>LdkGetNextTebRundownProtection\<close>). A block is named by its thread. The
  list is circular through its head: the walk starts at the block of the current thread and is over
  when it is back there. The blocks of the list and the blocks that run down are fixed during a walk.
\<close>

text \<open>The block behind \<open>Teb\<close> in the list, or the first one.\<close>

definition teb_next :: "tid list \<Rightarrow> tid \<Rightarrow> tid" where
  "teb_next tebs t = (case dropWhile (\<lambda>u. u \<noteq> t) tebs of _ # u # _ \<Rightarrow> u | _ \<Rightarrow> hd tebs)"

text \<open>\<open>down\<close> tells which blocks run down, \<open>refs\<close> counts the protections held.\<close>

definition ExAcquireRundownProtection ::
  "(tid \<Rightarrow> bool) \<Rightarrow> tid \<Rightarrow> (tid \<Rightarrow> nat) \<Rightarrow> bool \<times> (tid \<Rightarrow> nat)" where
  "ExAcquireRundownProtection down t refs =
     (if down t then (False, refs) else (True, refs(t := refs t + 1)))"

definition ExReleaseRundownProtection :: "tid \<Rightarrow> (tid \<Rightarrow> nat) \<Rightarrow> (tid \<Rightarrow> nat)" where
  "ExReleaseRundownProtection t refs = refs(t := refs t - 1)"

definition LdkGetNextTebRundownProtection ::
  "tid list \<Rightarrow> (tid \<Rightarrow> bool) \<Rightarrow> tid \<Rightarrow> (tid \<Rightarrow> nat) \<Rightarrow> tid option \<times> (tid \<Rightarrow> nat)" where
  "LdkGetNextTebRundownProtection tebs down Teb refs =
     (let Next = teb_next tebs Teb in
      case ExAcquireRundownProtection down Next (ExReleaseRundownProtection Teb refs) of
        (True, r) \<Rightarrow> (Some Next, r) | (False, r) \<Rightarrow> (None, r))"

text \<open>The common shape of the loops over the blocks. \<open>Some (Some t, ..)\<close>: the walk is back at its start,
  \<open>Some (None, ..)\<close>: the next block runs down and the pointer is \<open>NULL\<close>, \<open>None\<close>: the fuel is used up.\<close>

fun teb_walk :: "(tid \<Rightarrow> 's \<Rightarrow> 's) \<Rightarrow> tid list \<Rightarrow> (tid \<Rightarrow> bool) \<Rightarrow> tid \<Rightarrow> nat \<Rightarrow> tid \<Rightarrow>
    (tid \<Rightarrow> nat) \<Rightarrow> 's \<Rightarrow> (tid option \<times> (tid \<Rightarrow> nat) \<times> 's) option" where
  "teb_walk body tebs down InitialTeb 0 Teb refs s = None"
| "teb_walk body tebs down InitialTeb (Suc fuel) Teb refs s =
     (let s1 = body Teb s in
      case LdkGetNextTebRundownProtection tebs down Teb refs of
        (None, r) \<Rightarrow> Some (None, r, s1)
      | (Some Next, r) \<Rightarrow>
          if Next = InitialTeb then Some (Some Next, r, s1)
          else teb_walk body tebs down InitialTeb fuel Next r s1)"

section \<open>The order of the walk\<close>

lemma teb_next_split: "distinct (p @ u # q) \<Longrightarrow> teb_next (p @ u # q) u = hd (q @ p @ [u])"
proof -
  assume "distinct (p @ u # q)"
  then have "dropWhile (\<lambda>v. v \<noteq> u) (p @ u # q) = u # q" by (auto simp: dropWhile_append)
  then show ?thesis by (cases q; cases p) (simp_all add: teb_next_def)
qed

text \<open>\<open>chain u R t0\<close>: from \<open>u\<close> the blocks of \<open>R\<close> follow, and then \<open>t0\<close>.\<close>

fun chain :: "tid list \<Rightarrow> tid \<Rightarrow> tid list \<Rightarrow> tid \<Rightarrow> bool" where
  "chain tebs u [] t0 \<longleftrightarrow> teb_next tebs u = t0"
| "chain tebs u (v # R) t0 \<longleftrightarrow> teb_next tebs u = v \<and> v \<noteq> t0 \<and> chain tebs v R t0"

lemma chain_before:
  "distinct (p @ u # R @ t0 # q) \<Longrightarrow> chain (p @ u # R @ t0 # q) u R t0"
proof (induction R arbitrary: p u)
  case Nil
  then show ?case using teb_next_split [of p u "t0 # q"] by simp
next
  case (Cons v R)
  have "chain ((p @ [u]) @ v # R @ t0 # q) v R t0" by (rule Cons.IH) (use Cons.prems in simp)
  then show ?case using Cons.prems teb_next_split [of p u "v # R @ t0 # q"] by auto
qed

lemma chain_after:
  "distinct (xs @ t0 # q @ u # R) \<Longrightarrow> chain (xs @ t0 # q @ u # R) u (R @ xs) t0"
proof (induction R arbitrary: q u)
  case Nil
  show ?case
  proof (cases xs)
    case Nil
    then show ?thesis using Nil.prems teb_next_split [of "t0 # q" u "[]"] by simp
  next
    case (Cons x xs')
    then have "chain ([] @ x # xs' @ t0 # q @ [u]) x xs' t0" using chain_before [of "[]" x xs' t0 "q @ [u]"] Nil.prems
      by simp
    then show ?thesis using Cons Nil.prems teb_next_split [of "xs @ t0 # q" u "[]"] by auto
  qed
next
  case (Cons v R)
  have "chain (xs @ t0 # (q @ [u]) @ v # R) v (R @ xs) t0" by (rule Cons.IH) (use Cons.prems in simp)
  then show ?case using Cons.prems teb_next_split [of "xs @ t0 # q" u "v # R"] by auto
qed

lemma chain_around:
  assumes "distinct (xs @ t0 # ys)"
  shows "chain (xs @ t0 # ys) t0 (ys @ xs) t0"
proof (cases ys)
  case (Cons y ys')
  have "chain (xs @ t0 # [] @ y # ys') y (ys' @ xs) t0" by (rule chain_after) (use assms Cons in simp)
  then show ?thesis using assms Cons teb_next_split [of xs t0 ys] by auto
next
  case Nil
  show ?thesis
  proof (cases xs)
    case (Cons x xs')
    have "chain ([] @ x # xs' @ t0 # []) x xs' t0" by (rule chain_before) (use assms Cons Nil in simp)
    then show ?thesis using assms Cons Nil teb_next_split [of xs t0 "[]"] by auto
  qed (use Nil teb_next_split [of "[]" t0 "[]"] in simp)
qed

section \<open>What a walk does\<close>

text \<open>\<open>b\<close> counts the protections of everybody else.\<close>

lemma next_protection:
  "LdkGetNextTebRundownProtection tebs down u (b(u := Suc (b u))) =
     (if down (teb_next tebs u) then (None, b)
      else (Some (teb_next tebs u), b(teb_next tebs u := Suc (b (teb_next tebs u)))))"
proof -
  have "(b(u := Suc (b u)))(u := Suc (b u) - 1) = b" by (simp add: fun_eq_iff)
  then show ?thesis
    by (simp add: LdkGetNextTebRundownProtection_def ExAcquireRundownProtection_def
      ExReleaseRundownProtection_def Let_def del: fun_upd_upd)
qed

lemma walk_step:
  "teb_walk body tebs down t0 (Suc f) u (b(u := Suc (b u))) s =
     (let n = teb_next tebs u in
      if down n then Some (None, b, body u s)
      else if n = t0 then Some (Some n, b(n := Suc (b n)), body u s)
      else teb_walk body tebs down t0 f n (b(n := Suc (b n))) (body u s))"
  unfolding teb_walk.simps Let_def next_protection
  by (cases "down (teb_next tebs u)") (simp_all only: if_True if_False prod.case option.case)

lemma walk_chain:
  assumes "chain tebs u R t0" and "\<not> down t0" and "length R < fuel"
  shows "teb_walk body tebs down t0 fuel u (b(u := Suc (b u))) s =
    Some (if \<forall>v\<in>set R. \<not> down v then (Some t0, b(t0 := Suc (b t0)), fold body (u # R) s)
          else (None, b, fold body (u # takeWhile (\<lambda>v. \<not> down v) R) s))"
  using assms
proof (induction R arbitrary: u s fuel)
  case Nil
  then obtain f where "fuel = Suc f" using less_imp_Suc_add by auto
  then show ?case
    using Nil unfolding \<open>fuel = Suc f\<close> walk_step Let_def by simp
next
  case (Cons v R)
  then obtain f where f: "fuel = Suc f" "length R < f" by (cases fuel) auto
  have n: "teb_next tebs u = v" "v \<noteq> t0" "chain tebs v R t0" using Cons.prems(1) by auto
  show ?case
  proof (cases "down v")
    case True
    then show ?thesis using n unfolding f(1) walk_step Let_def by simp
  next
    case False
    then have w: "teb_walk body tebs down t0 fuel u (b(u := Suc (b u))) s =
        teb_walk body tebs down t0 f v (b(v := Suc (b v))) (body u s)"
      using n unfolding f(1) walk_step Let_def by simp
    show ?thesis using False unfolding w Cons.IH [OF n(3) Cons.prems(2) f(2), of "body u s"] by simp
  qed
qed

definition walk_order :: "tid list \<Rightarrow> tid \<Rightarrow> tid list" where
  "walk_order tebs t = dropWhile (\<lambda>u. u \<noteq> t) tebs @ takeWhile (\<lambda>u. u \<noteq> t) tebs"

lemma walk_order_split: "t \<notin> set xs \<Longrightarrow> walk_order (xs @ t # ys) t = t # ys @ xs"
  by (simp add: walk_order_def dropWhile_append takeWhile_append)

lemma walk_order_set:
  assumes "t \<in> set tebs" and "distinct tebs"
  shows "set (walk_order tebs t) = set tebs" and "distinct (walk_order tebs t)"
proof -
  obtain xs ys where "tebs = xs @ t # ys" "t \<notin> set xs" using assms(1) by (meson split_list_first)
  then show "set (walk_order tebs t) = set tebs" and "distinct (walk_order tebs t)"
    using assms(2) by (auto simp: walk_order_split)
qed

text \<open>With as much fuel as there are blocks the walk ends. If no block runs down it visits each block
  once, in list order from its start, and every protection it took is released but the one on the start.\<close>

lemma walk_all:
  assumes "distinct tebs" and "t0 \<in> set tebs" and "\<forall>t\<in>set tebs. \<not> down t"
  shows "teb_walk body tebs down t0 (length tebs) t0 (b(t0 := Suc (b t0))) s =
    Some (Some t0, b(t0 := Suc (b t0)), fold body (walk_order tebs t0) s)"
proof -
  obtain xs ys where xs: "tebs = xs @ t0 # ys" "t0 \<notin> set xs" using assms(2) by (meson split_list_first)
  then show ?thesis
    using walk_chain [OF chain_around, of xs t0 ys down "length tebs" body b s] assms by (auto simp: walk_order_split)
qed

lemma walk_interrupted:
  assumes "distinct tebs" and "t0 \<in> set tebs" and "\<not> down t0" and "\<exists>t\<in>set tebs. down t"
  shows "teb_walk body tebs down t0 (length tebs) t0 (b(t0 := Suc (b t0))) s =
    Some (None, b, fold body (takeWhile (\<lambda>t. \<not> down t) (walk_order tebs t0)) s)"
proof -
  obtain xs ys where xs: "tebs = xs @ t0 # ys" "t0 \<notin> set xs" using assms(2) by (meson split_list_first)
  moreover have "\<not> (\<forall>t\<in>set (ys @ xs). \<not> down t)" using assms(3,4) xs(1) by auto
  ultimately show ?thesis
    using walk_chain [OF chain_around, of xs t0 ys down "length tebs" body b s] assms(1,3)
    by (simp add: walk_order_split)
qed

end
