(* ===== verification/TlsFls.thy ===== *)
theory TlsFls
  imports TebWalk "HOL-Library.Multiset"
begin

text \<open>
  Thread local and fiber local storage: the index bitmaps and callbacks of the process block, the slots
  of the thread blocks, and the routines \<open>TlsAlloc\<close>, \<open>TlsGetValue\<close>, \<open>TlsSetValue\<close>, \<open>TlsFree\<close>
  (src/kernel32/processthreadsapi.c), \<open>FlsAlloc\<close>, \<open>FlsGetValue\<close>, \<open>FlsGetValue2\<close>, \<open>FlsSetValue\<close>,
  \<open>FlsFree\<close> (src/kernel32/fibersapi.c) and the teardown of the thread blocks (src/teb.c).
\<close>

section \<open>State\<close>

abbreviation LDK_TLS_SLOTS_SIZE :: nat where "LDK_TLS_SLOTS_SIZE \<equiv> 1024"
abbreviation LDK_FLS_SLOTS_SIZE :: nat where "LDK_FLS_SLOTS_SIZE \<equiv> 1024"
abbreviation TLS_OUT_OF_INDEXES :: u32 where "TLS_OUT_OF_INDEXES \<equiv> 0xFFFFFFFF"
abbreviation FLS_OUT_OF_INDEXES :: u32 where "FLS_OUT_OF_INDEXES \<equiv> 0xFFFFFFFF"

datatype last_error = NoError | LastNtError ntstatus | InvalidParameterError

type_synonym slots = "tid \<Rightarrow> nat \<Rightarrow> addr"

text \<open>\<open>ts_Calls\<close> records the calls of FLS callbacks: the callback and its argument.\<close>

record tls_state =
  ts_TebList :: "tid list"
  ts_Down :: "tid \<Rightarrow> bool"
  ts_Refs :: "tid \<Rightarrow> nat"
  ts_TlsSlots :: slots
  ts_FlsSlots :: slots
  ts_TlsBitmap :: "nat \<Rightarrow> bool"
  ts_FlsBitmap :: "nat \<Rightarrow> bool"
  ts_FlsCallbacks :: "nat \<Rightarrow> addr"
  ts_LastError :: "tid \<Rightarrow> last_error"
  ts_Calls :: "(addr \<times> addr) list"

definition set_slot :: "tid \<Rightarrow> nat \<Rightarrow> addr \<Rightarrow> slots \<Rightarrow> slots" where
  "set_slot t i v sl = sl(t := (sl t)(i := v))"

definition set_error :: "tid \<Rightarrow> last_error \<Rightarrow> tls_state \<Rightarrow> tls_state" where
  "set_error k e s = s\<lparr>ts_LastError := (ts_LastError s)(k := e)\<rparr>"

text \<open>\<open>search\<close> is the lookup of \<open>RtlFindClearBitsAndSet\<close> for one clear bit. What the code relies on: it
  finds a clear bit of the bitmap, and fails only if there is none.\<close>

type_synonym bit_search = "(nat \<Rightarrow> bool) \<Rightarrow> nat option"

definition finds_clear_bit :: "bit_search \<Rightarrow> bool" where
  "finds_clear_bit search \<longleftrightarrow>
     (\<forall>bm i. search bm = Some i \<longrightarrow> i < 1024 \<and> \<not> bm i) \<and> (\<forall>bm. search bm = None \<longrightarrow> (\<forall>i<1024. bm i))"

lemma finds_clear_bitD:
  "finds_clear_bit search \<Longrightarrow> search bm = Some i \<Longrightarrow> i < 1024 \<and> \<not> bm i"
  "finds_clear_bit search \<Longrightarrow> search bm = None \<Longrightarrow> \<forall>i<1024. bm i"
  unfolding finds_clear_bit_def by blast+

section \<open>Thread local storage\<close>

definition TlsAlloc :: "bit_search \<Rightarrow> tid \<Rightarrow> tls_state \<Rightarrow> u32 \<times> tls_state" where
  "TlsAlloc search k s =
     (case search (ts_TlsBitmap s) of
        None \<Rightarrow> (TLS_OUT_OF_INDEXES, set_error k (LastNtError STATUS_NO_MEMORY) s)
      | Some i \<Rightarrow> (of_nat i, s\<lparr>ts_TlsBitmap := (ts_TlsBitmap s)(i := True),
                              ts_TlsSlots := set_slot k i NULL (ts_TlsSlots s)\<rparr>))"

definition TlsGetValue :: "tid \<Rightarrow> u32 \<Rightarrow> tls_state \<Rightarrow> addr \<times> tls_state" where
  "TlsGetValue k dwTlsIndex s =
     (if unat dwTlsIndex \<ge> LDK_TLS_SLOTS_SIZE then (NULL, set_error k InvalidParameterError s)
      else (ts_TlsSlots s k (unat dwTlsIndex), set_error k NoError s))"

definition TlsSetValue :: "tid \<Rightarrow> u32 \<Rightarrow> addr \<Rightarrow> tls_state \<Rightarrow> bool \<times> tls_state" where
  "TlsSetValue k dwTlsIndex lpTlsValue s =
     (if unat dwTlsIndex \<ge> LDK_TLS_SLOTS_SIZE then (False, set_error k InvalidParameterError s)
      else (True, s\<lparr>ts_TlsSlots := set_slot k (unat dwTlsIndex) lpTlsValue (ts_TlsSlots s)\<rparr>))"

text \<open>The result is \<open>None\<close> if the loop does not end within one round of the list.\<close>

definition TlsFree :: "tid \<Rightarrow> u32 \<Rightarrow> tls_state \<Rightarrow> (bool \<times> tls_state) option" where
  "TlsFree k dwTlsIndex s =
     (let i = unat dwTlsIndex; failed = Some (False, set_error k InvalidParameterError s) in
      if i \<ge> LDK_TLS_SLOTS_SIZE then failed
      else if \<not> ts_TlsBitmap s i then failed
      else case ExAcquireRundownProtection (ts_Down s) k (ts_Refs s) of
          (False, _) \<Rightarrow> failed
        | (True, refs) \<Rightarrow>
            (case teb_walk (\<lambda>t. set_slot t i NULL) (ts_TebList s) (ts_Down s) k (length (ts_TebList s)) k refs
                   (ts_TlsSlots s) of
               None \<Rightarrow> None
             | Some (Teb, refs1, sl) \<Rightarrow>
                 let refs2 = (if Teb = Some k then ExReleaseRundownProtection k refs1 else refs1)
                 in Some (True, s\<lparr>ts_TlsSlots := sl, ts_Refs := refs2,
                      ts_TlsBitmap := (ts_TlsBitmap s)(i := False)\<rparr>)))"

section \<open>Fiber local storage\<close>

definition FlsAlloc :: "bit_search \<Rightarrow> tid \<Rightarrow> addr \<Rightarrow> tls_state \<Rightarrow> u32 \<times> tls_state" where
  "FlsAlloc search k lpCallback s =
     (case search (ts_FlsBitmap s) of
        None \<Rightarrow> (FLS_OUT_OF_INDEXES, set_error k (LastNtError STATUS_NO_MEMORY) s)
      | Some i \<Rightarrow> (of_nat i, s\<lparr>ts_FlsBitmap := (ts_FlsBitmap s)(i := True),
                              ts_FlsCallbacks := (ts_FlsCallbacks s)(i := lpCallback),
                              ts_FlsSlots := set_slot k i NULL (ts_FlsSlots s)\<rparr>))"

definition FlsGetValue :: "tid \<Rightarrow> u32 \<Rightarrow> tls_state \<Rightarrow> addr \<times> tls_state" where
  "FlsGetValue k dwFlsIndex s =
     (if unat dwFlsIndex < LDK_FLS_SLOTS_SIZE then (ts_FlsSlots s k (unat dwFlsIndex), s)
      else (NULL, set_error k (LastNtError STATUS_INVALID_PARAMETER) s))"

definition FlsGetValue2 :: "tid \<Rightarrow> u32 \<Rightarrow> tls_state \<Rightarrow> addr" where
  "FlsGetValue2 k dwFlsIndex s =
     (if unat dwFlsIndex < LDK_FLS_SLOTS_SIZE then ts_FlsSlots s k (unat dwFlsIndex) else NULL)"

definition FlsSetValue :: "tid \<Rightarrow> u32 \<Rightarrow> addr \<Rightarrow> tls_state \<Rightarrow> bool \<times> tls_state" where
  "FlsSetValue k dwFlsIndex lpFlsData s =
     (if unat dwFlsIndex < LDK_FLS_SLOTS_SIZE
      then (True, s\<lparr>ts_FlsSlots := set_slot k (unat dwFlsIndex) lpFlsData (ts_FlsSlots s)\<rparr>)
      else (False, set_error k (LastNtError STATUS_INVALID_PARAMETER) s))"

text \<open>One turn of the loop of \<open>FlsFree\<close>: the slot is emptied and its value given to the callback.\<close>

definition fls_free_slot :: "addr \<Rightarrow> nat \<Rightarrow> tid \<Rightarrow> slots \<times> (addr \<times> addr) list \<Rightarrow> slots \<times> (addr \<times> addr) list" where
  "fls_free_slot Callback i t = (\<lambda>(sl, calls).
     (set_slot t i NULL sl, if sl t i \<noteq> NULL then calls @ [(Callback, sl t i)] else calls))"

text \<open>\<open>FlsNullTeb\<close>: the loop goes on with a \<open>NULL\<close> block and reads its slots.\<close>

datatype fls_free_result = FlsReturned bool | FlsNullTeb

definition FlsFree :: "tid \<Rightarrow> u32 \<Rightarrow> tls_state \<Rightarrow> (fls_free_result \<times> tls_state) option" where
  "FlsFree k dwFlsIndex s =
     (let i = unat dwFlsIndex in
      if i \<ge> LDK_FLS_SLOTS_SIZE then Some (FlsReturned False, s)
      else if \<not> ts_FlsBitmap s i then Some (FlsReturned False, s)
      else
        let Callback = ts_FlsCallbacks s i;
            s1 = s\<lparr>ts_FlsCallbacks := (ts_FlsCallbacks s)(i := NULL)\<rparr>
        in if Callback = NULL then
             Some (FlsReturned True, s1\<lparr>ts_FlsBitmap := (ts_FlsBitmap s)(i := False)\<rparr>)
           else case ExAcquireRundownProtection (ts_Down s) k (ts_Refs s) of
               (False, _) \<Rightarrow> Some (FlsReturned False, s1)
             | (True, refs) \<Rightarrow>
                 (case teb_walk (fls_free_slot Callback i) (ts_TebList s) (ts_Down s) k (length (ts_TebList s)) k refs
                        (ts_FlsSlots s, ts_Calls s) of
                    None \<Rightarrow> None
                  | Some (None, refs1, sl, calls) \<Rightarrow>
                      Some (FlsNullTeb, s1\<lparr>ts_FlsSlots := sl, ts_Calls := calls, ts_Refs := refs1\<rparr>)
                  | Some (Some Teb, refs1, sl, calls) \<Rightarrow>
                      Some (FlsReturned True, s1\<lparr>ts_FlsSlots := sl, ts_Calls := calls,
                        ts_Refs := ExReleaseRundownProtection Teb refs1,
                        ts_FlsBitmap := (ts_FlsBitmap s)(i := False)\<rparr>)))"

section \<open>Teardown of the thread blocks\<close>

definition invoke_fls_slot :: "tid \<Rightarrow> nat \<Rightarrow> tls_state \<Rightarrow> tls_state" where
  "invoke_fls_slot t i s =
     (let Callback = ts_FlsCallbacks s i; Data = ts_FlsSlots s t i;
          s1 = s\<lparr>ts_FlsSlots := set_slot t i NULL (ts_FlsSlots s)\<rparr>
      in if Callback \<noteq> NULL \<and> Data \<noteq> NULL then s1\<lparr>ts_Calls := ts_Calls s @ [(Callback, Data)]\<rparr> else s1)"

definition fls_indexes :: "nat list" where
  "fls_indexes = [0 ..< LDK_FLS_SLOTS_SIZE]"

definition LdkpInvokeFlsCallback :: "tid \<Rightarrow> tls_state \<Rightarrow> tls_state" where
  "LdkpInvokeFlsCallback t s =
     (if ts_Down s t then s else fold (invoke_fls_slot t) fls_indexes s)"

text \<open>The wait for the other protections is the kernel's; after it the block is run down.\<close>

definition LdkpTerminateTeb :: "tid \<Rightarrow> tls_state \<Rightarrow> tls_state" where
  "LdkpTerminateTeb t s = s\<lparr>ts_Down := (ts_Down s)(t := True),
     ts_TlsSlots := (ts_TlsSlots s)(t := (\<lambda>_. NULL)), ts_FlsSlots := (ts_FlsSlots s)(t := (\<lambda>_. NULL))\<rparr>"

definition LdkDeleteTeb :: "tid \<Rightarrow> tls_state \<Rightarrow> tls_state" where
  "LdkDeleteTeb t s = LdkpTerminateTeb t s"

definition LdkpTerminateTebMap :: "tid list \<Rightarrow> tls_state \<Rightarrow> tls_state" where
  "LdkpTerminateTebMap TemporaryList s =
     (let s1 = s\<lparr>ts_TebList := []\<rparr>;
          s2 = fold (\<lambda>t s. LdkDeleteTeb t (LdkpInvokeFlsCallback t s)) (ts_TebList s) s1
      in fold LdkDeleteTeb TemporaryList s2)"

definition LdkpInitializeTeb :: "tid \<Rightarrow> tls_state \<Rightarrow> tls_state" where
  "LdkpInitializeTeb t s = s\<lparr>ts_Down := (ts_Down s)(t := False), ts_Refs := (ts_Refs s)(t := 0),
     ts_TlsSlots := (ts_TlsSlots s)(t := (\<lambda>_. NULL)), ts_FlsSlots := (ts_FlsSlots s)(t := (\<lambda>_. NULL))\<rparr>"

text \<open>\<open>None\<close>: the lookaside list is empty, and the link of a \<open>NULL\<close> block is written.\<close>

definition LdkCreateTeb :: "bool \<Rightarrow> tid \<Rightarrow> tls_state \<Rightarrow> tls_state option" where
  "LdkCreateTeb pool t s =
     (if pool then Some ((LdkpInitializeTeb t s)\<lparr>ts_TebList := t # ts_TebList s\<rparr>) else None)"

definition LdkReferenceTebByThread :: "tid \<Rightarrow> tls_state \<Rightarrow> bool \<times> tls_state" where
  "LdkReferenceTebByThread t s =
     (if t \<in> set (ts_TebList s) then
        (case ExAcquireRundownProtection (ts_Down s) t (ts_Refs s) of (b, r) \<Rightarrow> (b, s\<lparr>ts_Refs := r\<rparr>))
      else (False, s))"

definition LdkDereferenceTeb :: "tid \<Rightarrow> tls_state \<Rightarrow> tls_state" where
  "LdkDereferenceTeb t s = s\<lparr>ts_Refs := ExReleaseRundownProtection t (ts_Refs s)\<rparr>"

section \<open>The loops\<close>

lemma set_slot_apply [simp]: "set_slot t i v sl u j = (if u = t \<and> j = i then v else sl u j)"
  by (simp add: set_slot_def)

lemma fold_clear_slot:
  "fold (\<lambda>t. set_slot t i NULL) xs sl = (\<lambda>t j. if t \<in> set xs \<and> j = i then NULL else sl t j)"
  by (induction xs arbitrary: sl) (auto simp: fun_eq_iff)

definition slot_calls :: "addr \<Rightarrow> nat \<Rightarrow> slots \<Rightarrow> tid list \<Rightarrow> (addr \<times> addr) list" where
  "slot_calls Callback i sl ts = map (\<lambda>t. (Callback, sl t i)) (filter (\<lambda>t. sl t i \<noteq> NULL) ts)"

lemma slot_calls_cong: "(\<And>t. t \<in> set ts \<Longrightarrow> sl' t i = sl t i) \<Longrightarrow> slot_calls cb i sl' ts = slot_calls cb i sl ts"
  by (simp add: slot_calls_def cong: map_cong filter_cong)

lemma fold_fls_free_slot:
  "distinct xs \<Longrightarrow> fold (fls_free_slot cb i) xs (sl, calls) =
     (\<lambda>t j. if t \<in> set xs \<and> j = i then NULL else sl t j, calls @ slot_calls cb i sl xs)"
proof (induction xs arbitrary: sl calls)
  case (Cons x xs)
  have "slot_calls cb i (set_slot x i NULL sl) xs = slot_calls cb i sl xs"
    by (rule slot_calls_cong) (use Cons.prems in auto)
  then show ?case using Cons.IH Cons.prems by (auto simp: fls_free_slot_def fun_eq_iff slot_calls_def)
qed (simp add: slot_calls_def)

lemma acquire_up: "\<not> down t \<Longrightarrow> ExAcquireRundownProtection down t refs = (True, refs(t := Suc (refs t)))"
  by (simp add: ExAcquireRundownProtection_def)

lemma release_acquired: "ExReleaseRundownProtection t (refs(t := Suc (refs t))) = refs"
  by (simp add: ExReleaseRundownProtection_def fun_eq_iff)

section \<open>Indexed slots as a service\<close>

text \<open>What a client relies on: an allocated index was free and reads \<open>NULL\<close> in the allocating thread,
  and nothing that is done to one index changes the values of another.\<close>

locale slot_service =
  fixes used :: "'s \<Rightarrow> nat \<Rightarrow> bool" and slot :: "'s \<Rightarrow> slots"
    and alloc :: "tid \<Rightarrow> 's \<Rightarrow> nat option \<Rightarrow> 's \<Rightarrow> bool" and put :: "tid \<Rightarrow> nat \<Rightarrow> addr \<Rightarrow> 's \<Rightarrow> 's"
    and release :: "tid \<Rightarrow> nat \<Rightarrow> 's \<Rightarrow> 's \<Rightarrow> bool"
  assumes alloc_some: "alloc k s (Some i) s' \<Longrightarrow>
      \<not> used s i \<and> used s' = (used s)(i := True) \<and> slot s' = set_slot k i NULL (slot s)"
    and alloc_none: "alloc k s None s' \<Longrightarrow> (\<forall>i<1024. used s i) \<and> used s' = used s \<and> slot s' = slot s"
    and put_slot: "i < 1024 \<Longrightarrow> used (put k i v s) = used s \<and> slot (put k i v s) = set_slot k i v (slot s)"
    and release_other: "used s i \<Longrightarrow> release k i s s' \<Longrightarrow>
      used s' = (used s)(i := False) \<and> (\<forall>t j. j \<noteq> i \<longrightarrow> slot s' t j = slot s t j)"
begin

text \<open>The indexes clients hold: they are in use, so an allocation returns none of them.\<close>

lemma alloc_not_held: "\<forall>j\<in>held. used s j \<Longrightarrow> alloc k s (Some i) s' \<Longrightarrow>
    i \<notin> held \<and> (\<forall>j\<in>insert i held. used s' j)"
  by (drule alloc_some) auto

lemma release_held: "\<forall>j\<in>held. used s j \<Longrightarrow> i \<in> held \<Longrightarrow> release k i s s' \<Longrightarrow> \<forall>j\<in>held - {i}. used s' j"
  using release_other [of s i k s'] by simp

lemma alloc_keeps: "used s j \<Longrightarrow> alloc k s r s' \<Longrightarrow> slot s' t j = slot s t j"
  by (cases r) (auto dest: alloc_some alloc_none)

lemma put_keeps: "i < 1024 \<Longrightarrow> (t, j) \<noteq> (k, i) \<Longrightarrow> slot (put k i v s) t j = slot s t j"
  using put_slot by auto

lemma put_same: "i < 1024 \<Longrightarrow> slot (put k i v s) k i = v"
  using put_slot by simp

lemma release_keeps: "used s i \<Longrightarrow> j \<noteq> i \<Longrightarrow> release k i s s' \<Longrightarrow> slot s' t j = slot s t j"
  using release_other by blast

end

section \<open>What freeing does\<close>

text \<open>The threads have one block each, and none of the blocks runs down.\<close>

definition teb_list_ok :: "tid \<Rightarrow> tls_state \<Rightarrow> bool" where
  "teb_list_ok k s \<longleftrightarrow> distinct (ts_TebList s) \<and> k \<in> set (ts_TebList s) \<and> (\<forall>t\<in>set (ts_TebList s). \<not> ts_Down s t)"

definition cleared :: "tid list \<Rightarrow> nat \<Rightarrow> slots \<Rightarrow> slots" where
  "cleared ts i sl = (\<lambda>t j. if t \<in> set ts \<and> j = i then NULL else sl t j)"

lemma TlsFree_ok:
  assumes ok: "teb_list_ok k s" and i: "unat idx < LDK_TLS_SLOTS_SIZE" and bit: "ts_TlsBitmap s (unat idx)"
  shows "TlsFree k idx s = Some (True, s\<lparr>ts_TlsSlots := cleared (ts_TebList s) (unat idx) (ts_TlsSlots s),
    ts_TlsBitmap := (ts_TlsBitmap s)(unat idx := False)\<rparr>)"
proof -
  have k: "distinct (ts_TebList s)" "k \<in> set (ts_TebList s)" "\<forall>t\<in>set (ts_TebList s). \<not> ts_Down s t" "\<not> ts_Down s k"
    using ok by (auto simp: teb_list_ok_def)
  note w = walk_all [OF k(1,2,3), of "\<lambda>t. set_slot t (unat idx) NULL" "ts_Refs s" "ts_TlsSlots s"]
  show ?thesis
    using i bit
    by (simp only: TlsFree_def Let_def acquire_up [of "ts_Down s", OF k(4)] w prod.case option.case bool.case
        if_False if_True not_le not_less simp_thms release_acquired fold_clear_slot walk_order_set [OF k(2,1)] cleared_def)
      simp
qed

lemma FlsFree_ok:
  assumes ok: "teb_list_ok k s" and i: "unat idx < LDK_FLS_SLOTS_SIZE" and bit: "ts_FlsBitmap s (unat idx)"
    and cb: "ts_FlsCallbacks s (unat idx) = Callback" and nn: "Callback \<noteq> NULL"
  shows "FlsFree k idx s = Some (FlsReturned True, s\<lparr>ts_FlsSlots := cleared (ts_TebList s) (unat idx) (ts_FlsSlots s),
    ts_Calls := ts_Calls s @ slot_calls Callback (unat idx) (ts_FlsSlots s) (walk_order (ts_TebList s) k),
    ts_FlsCallbacks := (ts_FlsCallbacks s)(unat idx := NULL),
    ts_FlsBitmap := (ts_FlsBitmap s)(unat idx := False)\<rparr>)"
proof -
  have k: "distinct (ts_TebList s)" "k \<in> set (ts_TebList s)" "\<forall>t\<in>set (ts_TebList s). \<not> ts_Down s t" "\<not> ts_Down s k"
    using ok by (auto simp: teb_list_ok_def)
  note w = walk_all [OF k(1,2,3), of "fls_free_slot Callback (unat idx)" "ts_Refs s" "(ts_FlsSlots s, ts_Calls s)"]
  show ?thesis
    using i bit cb nn
    by (simp only: FlsFree_def Let_def acquire_up [of "ts_Down s", OF k(4)] w prod.case option.case bool.case
        if_False if_True not_le not_less simp_thms release_acquired fold_fls_free_slot [OF walk_order_set(2) [OF k(2,1)]]
        walk_order_set(1) [OF k(2,1)] cleared_def)
      simp
qed

text \<open>Freeing a TLS index that is in use returns, empties its slot in every thread, releases the
  protections it took and gives the index back; no other slot changes.\<close>

theorem tls_free_clears:
  assumes "teb_list_ok k s" and "unat idx < LDK_TLS_SLOTS_SIZE" and "ts_TlsBitmap s (unat idx)"
  shows "\<exists>s'. TlsFree k idx s = Some (True, s') \<and>
    (\<forall>t\<in>set (ts_TebList s). ts_TlsSlots s' t (unat idx) = NULL) \<and>
    (\<forall>t j. j \<noteq> unat idx \<longrightarrow> ts_TlsSlots s' t j = ts_TlsSlots s t j) \<and>
    ts_TlsBitmap s' = (ts_TlsBitmap s)(unat idx := False) \<and> ts_Refs s' = ts_Refs s"
  unfolding TlsFree_ok [OF assms] by (simp add: cleared_def)

text \<open>Freeing an FLS index with a callback returns and calls the callback exactly with the values
  the threads have stored there, one call for each thread with a value.\<close>

theorem fls_free_callbacks:
  assumes "teb_list_ok k s" and "unat idx < LDK_FLS_SLOTS_SIZE" and "ts_FlsBitmap s (unat idx)"
    and "ts_FlsCallbacks s (unat idx) = Callback" and "Callback \<noteq> NULL" and "ts_Calls s = []"
  shows "\<exists>s'. FlsFree k idx s = Some (FlsReturned True, s') \<and> \<not> ts_FlsBitmap s' (unat idx) \<and>
    (\<forall>t\<in>set (ts_TebList s). ts_FlsSlots s' t (unat idx) = NULL) \<and>
    mset (ts_Calls s') = image_mset (\<lambda>t. (Callback, ts_FlsSlots s t (unat idx)))
      (filter_mset (\<lambda>t. ts_FlsSlots s t (unat idx) \<noteq> NULL) (mset (ts_TebList s)))"
proof -
  have "distinct (ts_TebList s)" "k \<in> set (ts_TebList s)" using assms(1) by (simp_all add: teb_list_ok_def)
  then have "mset (walk_order (ts_TebList s) k) = mset (ts_TebList s)"
    using walk_order_set [of k "ts_TebList s"] set_eq_iff_mset_eq_distinct by blast
  then show ?thesis
    unfolding FlsFree_ok [OF assms(1-5)] using assms(6) by (simp add: cleared_def slot_calls_def)
qed

text \<open>An FLS index that was allocated without a callback keeps its values when it is freed: after
  the next allocation of the index by some thread, every other thread still reads its old value.\<close>

theorem fls_stale_value:
  assumes "unat idx < LDK_FLS_SLOTS_SIZE" and "ts_FlsBitmap s (unat idx)" and "ts_FlsCallbacks s (unat idx) = NULL"
    and "search ((ts_FlsBitmap s)(unat idx := False)) = Some (unat idx)" and "t \<noteq> k"
  shows "\<exists>s1 s2. FlsFree k idx s = Some (FlsReturned True, s1) \<and> FlsAlloc search k cb s1 = (idx, s2) \<and>
    FlsGetValue2 t idx s2 = ts_FlsSlots s t (unat idx) \<and> FlsGetValue2 k idx s2 = NULL"
  using assms by (simp add: FlsFree_def FlsAlloc_def FlsGetValue2_def Let_def)

text \<open>If the block of another thread runs down while an FLS index with a callback is freed, the loop
  reads the slots of a \<open>NULL\<close> block, and the index is not given back.\<close>

theorem fls_free_null_teb:
  assumes "distinct (ts_TebList s)" and "k \<in> set (ts_TebList s)" and "\<not> ts_Down s k"
    and "\<exists>t\<in>set (ts_TebList s). ts_Down s t"
    and "unat idx < LDK_FLS_SLOTS_SIZE" and "ts_FlsBitmap s (unat idx)" and "ts_FlsCallbacks s (unat idx) \<noteq> NULL"
  shows "\<exists>s'. FlsFree k idx s = Some (FlsNullTeb, s') \<and> ts_FlsBitmap s' (unat idx)"
proof -
  note w = walk_interrupted [OF assms(1-4), of "fls_free_slot (ts_FlsCallbacks s (unat idx)) (unat idx)" "ts_Refs s"
      "(ts_FlsSlots s, ts_Calls s)"]
  obtain sl calls where f: "fold (fls_free_slot (ts_FlsCallbacks s (unat idx)) (unat idx))
      (takeWhile (\<lambda>t. \<not> ts_Down s t) (walk_order (ts_TebList s) k)) (ts_FlsSlots s, ts_Calls s) = (sl, calls)"
    by fastforce
  show ?thesis
    using assms(5-7)
    by (simp only: FlsFree_def Let_def acquire_up [of "ts_Down s", OF assms(3)] w f prod.case option.case bool.case
        if_False if_True not_le not_less simp_thms) simp
qed

section \<open>Both tables provide the service\<close>

definition tls_alloc :: "tid \<Rightarrow> tls_state \<Rightarrow> nat option \<Rightarrow> tls_state \<Rightarrow> bool" where
  "tls_alloc k s r s' \<longleftrightarrow> (\<exists>search. finds_clear_bit search \<and> r = search (ts_TlsBitmap s) \<and> s' = snd (TlsAlloc search k s))"

definition tls_put :: "tid \<Rightarrow> nat \<Rightarrow> addr \<Rightarrow> tls_state \<Rightarrow> tls_state" where
  "tls_put k i v s = snd (TlsSetValue k (of_nat i) v s)"

definition tls_release :: "tid \<Rightarrow> nat \<Rightarrow> tls_state \<Rightarrow> tls_state \<Rightarrow> bool" where
  "tls_release k i s s' \<longleftrightarrow> teb_list_ok k s \<and> i < LDK_TLS_SLOTS_SIZE \<and> TlsFree k (of_nat i) s = Some (True, s')"

definition fls_alloc :: "tid \<Rightarrow> tls_state \<Rightarrow> nat option \<Rightarrow> tls_state \<Rightarrow> bool" where
  "fls_alloc k s r s' \<longleftrightarrow> (\<exists>search cb. finds_clear_bit search \<and> r = search (ts_FlsBitmap s) \<and> s' = snd (FlsAlloc search k cb s))"

definition fls_put :: "tid \<Rightarrow> nat \<Rightarrow> addr \<Rightarrow> tls_state \<Rightarrow> tls_state" where
  "fls_put k i v s = snd (FlsSetValue k (of_nat i) v s)"

definition fls_release :: "tid \<Rightarrow> nat \<Rightarrow> tls_state \<Rightarrow> tls_state \<Rightarrow> bool" where
  "fls_release k i s s' \<longleftrightarrow> teb_list_ok k s \<and> i < LDK_FLS_SLOTS_SIZE \<and> FlsFree k (of_nat i) s = Some (FlsReturned True, s')"

lemma unat_index: "i < 1024 \<Longrightarrow> unat (of_nat i :: u32) = i"
  by (simp add: unsigned_of_nat take_bit_nat_eq_self)

lemma fls_free_no_callback:
  "unat idx < LDK_FLS_SLOTS_SIZE \<Longrightarrow> ts_FlsBitmap s (unat idx) \<Longrightarrow> ts_FlsCallbacks s (unat idx) = NULL \<Longrightarrow>
    FlsFree k idx s = Some (FlsReturned True, s\<lparr>ts_FlsCallbacks := (ts_FlsCallbacks s)(unat idx := NULL),
      ts_FlsBitmap := (ts_FlsBitmap s)(unat idx := False)\<rparr>)"
  by (simp add: FlsFree_def Let_def)

interpretation tls: slot_service ts_TlsBitmap ts_TlsSlots tls_alloc tls_put tls_release
proof unfold_locales
  fix k s i s'
  assume "tls_alloc k s (Some i) s'"
  then obtain search where "finds_clear_bit search" "search (ts_TlsBitmap s) = Some i" "s' = snd (TlsAlloc search k s)"
    unfolding tls_alloc_def by metis
  then show "\<not> ts_TlsBitmap s i \<and> ts_TlsBitmap s' = (ts_TlsBitmap s)(i := True) \<and>
      ts_TlsSlots s' = set_slot k i NULL (ts_TlsSlots s)"
    by (simp add: TlsAlloc_def finds_clear_bitD(1))
next
  fix k s s'
  assume "tls_alloc k s None s'"
  then obtain search where "finds_clear_bit search" "search (ts_TlsBitmap s) = None" "s' = snd (TlsAlloc search k s)"
    unfolding tls_alloc_def by metis
  then show "(\<forall>i<1024. ts_TlsBitmap s i) \<and> ts_TlsBitmap s' = ts_TlsBitmap s \<and> ts_TlsSlots s' = ts_TlsSlots s"
    using finds_clear_bitD(2) by (simp add: TlsAlloc_def set_error_def)
next
  fix i :: nat and k v s
  assume "i < 1024"
  then show "ts_TlsBitmap (tls_put k i v s) = ts_TlsBitmap s \<and>
      ts_TlsSlots (tls_put k i v s) = set_slot k i v (ts_TlsSlots s)"
    by (simp add: tls_put_def TlsSetValue_def unat_index)
next
  fix s i k s'
  assume "ts_TlsBitmap s i" and "tls_release k i s s'"
  then show "ts_TlsBitmap s' = (ts_TlsBitmap s)(i := False) \<and> (\<forall>t j. j \<noteq> i \<longrightarrow> ts_TlsSlots s' t j = ts_TlsSlots s t j)"
    using TlsFree_ok [of k s "of_nat i"] by (auto simp: tls_release_def unat_index cleared_def)
qed

interpretation fls: slot_service ts_FlsBitmap ts_FlsSlots fls_alloc fls_put fls_release
proof unfold_locales
  fix k s i s'
  assume "fls_alloc k s (Some i) s'"
  then obtain search cb where "finds_clear_bit search" "search (ts_FlsBitmap s) = Some i" "s' = snd (FlsAlloc search k cb s)"
    unfolding fls_alloc_def by metis
  then show "\<not> ts_FlsBitmap s i \<and> ts_FlsBitmap s' = (ts_FlsBitmap s)(i := True) \<and>
      ts_FlsSlots s' = set_slot k i NULL (ts_FlsSlots s)"
    by (simp add: FlsAlloc_def finds_clear_bitD(1))
next
  fix k s s'
  assume "fls_alloc k s None s'"
  then obtain search cb where "finds_clear_bit search" "search (ts_FlsBitmap s) = None" "s' = snd (FlsAlloc search k cb s)"
    unfolding fls_alloc_def by metis
  then show "(\<forall>i<1024. ts_FlsBitmap s i) \<and> ts_FlsBitmap s' = ts_FlsBitmap s \<and> ts_FlsSlots s' = ts_FlsSlots s"
    using finds_clear_bitD(2) by (simp add: FlsAlloc_def set_error_def)
next
  fix i :: nat and k v s
  assume "i < 1024"
  then show "ts_FlsBitmap (fls_put k i v s) = ts_FlsBitmap s \<and>
      ts_FlsSlots (fls_put k i v s) = set_slot k i v (ts_FlsSlots s)"
    by (simp add: fls_put_def FlsSetValue_def unat_index)
next
  fix s i k s'
  assume bit: "ts_FlsBitmap s i" and r: "fls_release k i s s'"
  show "ts_FlsBitmap s' = (ts_FlsBitmap s)(i := False) \<and> (\<forall>t j. j \<noteq> i \<longrightarrow> ts_FlsSlots s' t j = ts_FlsSlots s t j)"
  proof (cases "ts_FlsCallbacks s i = NULL")
    case True
    then show ?thesis using bit r fls_free_no_callback [of "of_nat i" s k] by (auto simp: fls_release_def unat_index)
  next
    case False
    then show ?thesis using bit r FlsFree_ok [of k s "of_nat i"] by (auto simp: fls_release_def unat_index cleared_def)
  qed
qed

text \<open>C16: A new TLS index is none of the indexes in use, its slot is empty in the allocating thread, what
  the thread then stores there is what it reads back, and no slot of an index in use has changed.\<close>

theorem tls_alloc_isolated:
  assumes "finds_clear_bit search" and "TlsAlloc search k s = (idx, s1)" and "idx \<noteq> TLS_OUT_OF_INDEXES"
  shows "unat idx < LDK_TLS_SLOTS_SIZE \<and> \<not> ts_TlsBitmap s (unat idx) \<and> ts_TlsBitmap s1 (unat idx) \<and>
    fst (TlsGetValue k idx s1) = NULL \<and>
    (\<exists>s2. TlsSetValue k idx v s1 = (True, s2) \<and> fst (TlsGetValue k idx s2) = v \<and>
       (\<forall>t j. ts_TlsBitmap s j \<longrightarrow> ts_TlsSlots s2 t j = ts_TlsSlots s t j))"
proof (cases "search (ts_TlsBitmap s)")
  case None
  then show ?thesis using assms by (simp add: TlsAlloc_def)
next
  case (Some i)
  then have i: "i < 1024" "\<not> ts_TlsBitmap s i" using finds_clear_bitD(1) [OF assms(1) Some] by simp_all
  have idx: "idx = of_nat i" "unat idx = i" and s1: "s1 = snd (TlsAlloc search k s)"
    using assms(2) Some i(1) by (auto simp: TlsAlloc_def unat_index)
  have a: "tls_alloc k s (Some i) s1" unfolding tls_alloc_def using assms(1) Some s1 by metis
  have put: "TlsSetValue k idx v s1 = (True, tls_put k i v s1)"
    using i(1) idx by (simp add: tls_put_def TlsSetValue_def)
  have keep: "ts_TlsSlots (tls_put k i v s1) t j = ts_TlsSlots s t j" if "ts_TlsBitmap s j" for t j
    using that i tls.alloc_keeps [OF that a] tls.put_keeps [OF i(1), of t j k v s1] by auto
  have "ts_TlsBitmap s1 i" and "ts_TlsSlots s1 k i = NULL" using tls.alloc_some [OF a] by simp_all
  moreover have "ts_TlsSlots (tls_put k i v s1) k i = v" by (rule tls.put_same [OF i(1)])
  ultimately show ?thesis using i idx put keep by (simp add: TlsGetValue_def)
qed

section \<open>Shutting down\<close>

lemma fold_invoke_fls:
  "distinct is \<Longrightarrow> fold (invoke_fls_slot t) is s =
     s\<lparr>ts_FlsSlots := (\<lambda>u j. if u = t \<and> j \<in> set is then NULL else ts_FlsSlots s u j),
       ts_Calls := ts_Calls s @ map (\<lambda>i. (ts_FlsCallbacks s i, ts_FlsSlots s t i))
         (filter (\<lambda>i. ts_FlsCallbacks s i \<noteq> NULL \<and> ts_FlsSlots s t i \<noteq> NULL) is)\<rparr>"
proof (induction "is" arbitrary: s)
  case (Cons i js)
  let ?s = "invoke_fls_slot t i s"
  have c: "ts_FlsCallbacks ?s = ts_FlsCallbacks s" by (simp add: invoke_fls_slot_def Let_def)
  have f: "filter (\<lambda>j. ts_FlsCallbacks s j \<noteq> NULL \<and> ts_FlsSlots ?s t j \<noteq> NULL) js =
      filter (\<lambda>j. ts_FlsCallbacks s j \<noteq> NULL \<and> ts_FlsSlots s t j \<noteq> NULL) js"
    using Cons.prems by (intro filter_cong) (auto simp: invoke_fls_slot_def Let_def)
  have m: "map (\<lambda>j. (ts_FlsCallbacks s j, ts_FlsSlots ?s t j))
        (filter (\<lambda>j. ts_FlsCallbacks s j \<noteq> NULL \<and> ts_FlsSlots s t j \<noteq> NULL) js) =
      map (\<lambda>j. (ts_FlsCallbacks s j, ts_FlsSlots s t j))
        (filter (\<lambda>j. ts_FlsCallbacks s j \<noteq> NULL \<and> ts_FlsSlots s t j \<noteq> NULL) js)"
    using Cons.prems by (intro map_cong) (auto simp: invoke_fls_slot_def Let_def)
  have "distinct js" using Cons.prems by simp
  then have "fold (invoke_fls_slot t) (i # js) s =
      ?s\<lparr>ts_FlsSlots := (\<lambda>u j. if u = t \<and> j \<in> set js then NULL else ts_FlsSlots ?s u j),
       ts_Calls := ts_Calls ?s @ map (\<lambda>j. (ts_FlsCallbacks s j, ts_FlsSlots s t j))
         (filter (\<lambda>j. ts_FlsCallbacks s j \<noteq> NULL \<and> ts_FlsSlots s t j \<noteq> NULL) js)\<rparr>"
    using Cons.IH [of ?s] unfolding c f m by simp
  also have "\<dots> = s\<lparr>ts_FlsSlots := (\<lambda>u j. if u = t \<and> j \<in> set (i # js) then NULL else ts_FlsSlots s u j),
       ts_Calls := ts_Calls s @ map (\<lambda>j. (ts_FlsCallbacks s j, ts_FlsSlots s t j))
         (filter (\<lambda>j. ts_FlsCallbacks s j \<noteq> NULL \<and> ts_FlsSlots s t j \<noteq> NULL) (i # js))\<rparr>"
    by (auto simp: invoke_fls_slot_def Let_def fun_eq_iff)
  finally show ?case .
qed simp

definition fls_values :: "tls_state \<Rightarrow> tid \<Rightarrow> (addr \<times> addr) list" where
  "fls_values s t = map (\<lambda>i. (ts_FlsCallbacks s i, ts_FlsSlots s t i))
     (filter (\<lambda>i. ts_FlsCallbacks s i \<noteq> NULL \<and> ts_FlsSlots s t i \<noteq> NULL) fls_indexes)"

lemma teardown_one:
  assumes "\<not> ts_Down s t"
  shows "ts_Calls (LdkDeleteTeb t (LdkpInvokeFlsCallback t s)) = ts_Calls s @ fls_values s t"
    and "u \<noteq> t \<Longrightarrow> ts_FlsSlots (LdkDeleteTeb t (LdkpInvokeFlsCallback t s)) u = ts_FlsSlots s u"
    and "ts_FlsSlots (LdkDeleteTeb t (LdkpInvokeFlsCallback t s)) t = (\<lambda>_. NULL)"
    and "ts_TlsSlots (LdkDeleteTeb t (LdkpInvokeFlsCallback t s)) t = (\<lambda>_. NULL)"
    and "u \<noteq> t \<Longrightarrow> ts_TlsSlots (LdkDeleteTeb t (LdkpInvokeFlsCallback t s)) u = ts_TlsSlots s u"
    and "ts_Down (LdkDeleteTeb t (LdkpInvokeFlsCallback t s)) = (ts_Down s)(t := True)"
    and "ts_FlsCallbacks (LdkDeleteTeb t (LdkpInvokeFlsCallback t s)) = ts_FlsCallbacks s"
    and "ts_TebList (LdkDeleteTeb t (LdkpInvokeFlsCallback t s)) = ts_TebList s"
proof -
  have i: "LdkpInvokeFlsCallback t s = fold (invoke_fls_slot t) fls_indexes s"
    using assms by (simp add: LdkpInvokeFlsCallback_def)
  have d: "distinct fls_indexes" by (simp add: fls_indexes_def del: upt_rec_numeral)
  show "ts_Calls (LdkDeleteTeb t (LdkpInvokeFlsCallback t s)) = ts_Calls s @ fls_values s t"
    unfolding i fold_invoke_fls [OF d] LdkDeleteTeb_def LdkpTerminateTeb_def fls_values_def by simp
  show "u \<noteq> t \<Longrightarrow> ts_FlsSlots (LdkDeleteTeb t (LdkpInvokeFlsCallback t s)) u = ts_FlsSlots s u"
    and "ts_FlsSlots (LdkDeleteTeb t (LdkpInvokeFlsCallback t s)) t = (\<lambda>_. NULL)"
    and "ts_TlsSlots (LdkDeleteTeb t (LdkpInvokeFlsCallback t s)) t = (\<lambda>_. NULL)"
    and "u \<noteq> t \<Longrightarrow> ts_TlsSlots (LdkDeleteTeb t (LdkpInvokeFlsCallback t s)) u = ts_TlsSlots s u"
    and "ts_Down (LdkDeleteTeb t (LdkpInvokeFlsCallback t s)) = (ts_Down s)(t := True)"
    and "ts_FlsCallbacks (LdkDeleteTeb t (LdkpInvokeFlsCallback t s)) = ts_FlsCallbacks s"
    and "ts_TebList (LdkDeleteTeb t (LdkpInvokeFlsCallback t s)) = ts_TebList s"
    unfolding i fold_invoke_fls [OF d] LdkDeleteTeb_def LdkpTerminateTeb_def by (simp_all add: fun_eq_iff)
qed

definition teardown :: "tid list \<Rightarrow> tls_state \<Rightarrow> tls_state" where
  "teardown ts s = fold (\<lambda>t s. LdkDeleteTeb t (LdkpInvokeFlsCallback t s)) ts s"

lemma teardown_simps:
  "teardown [] s = s" "teardown (t # ts) s = teardown ts (LdkDeleteTeb t (LdkpInvokeFlsCallback t s))"
  by (simp_all add: teardown_def)

lemma teardown_others:
  "t \<notin> set ts \<Longrightarrow> distinct ts \<Longrightarrow> \<forall>u\<in>set ts. \<not> ts_Down s u \<Longrightarrow>
     ts_TlsSlots (teardown ts s) t = ts_TlsSlots s t \<and> ts_FlsSlots (teardown ts s) t = ts_FlsSlots s t"
proof (induction ts arbitrary: s)
  case (Cons u ts)
  have u: "\<not> ts_Down s u" "t \<noteq> u" using Cons.prems by auto
  have "\<forall>v\<in>set ts. \<not> ts_Down (LdkDeleteTeb u (LdkpInvokeFlsCallback u s)) v"
    using Cons.prems unfolding teardown_one(6) [OF u(1)] by auto
  then show ?case using Cons.IH Cons.prems teardown_one(2,5) [OF u(1), of t] u(2) unfolding teardown_simps by simp
qed (simp add: teardown_simps)

lemma teardown_all:
  "distinct ts \<Longrightarrow> \<forall>t\<in>set ts. \<not> ts_Down s t \<Longrightarrow>
    ts_Calls (teardown ts s) = ts_Calls s @ concat (map (fls_values s) ts) \<and> ts_TebList (teardown ts s) = ts_TebList s \<and>
    (\<forall>t\<in>set ts. ts_TlsSlots (teardown ts s) t = (\<lambda>_. NULL) \<and> ts_FlsSlots (teardown ts s) t = (\<lambda>_. NULL))"
proof (induction ts arbitrary: s)
  case (Cons t ts)
  let ?s = "LdkDeleteTeb t (LdkpInvokeFlsCallback t s)"
  have t: "\<not> ts_Down s t" "t \<notin> set ts" using Cons.prems by auto
  note one = teardown_one [OF t(1)]
  have v: "map (fls_values ?s) ts = map (fls_values s) ts"
  proof (rule map_cong [OF refl])
    fix u assume "u \<in> set ts"
    then have ut: "u \<noteq> t" using t(2) by blast
    show "fls_values ?s u = fls_values s u" unfolding fls_values_def one(7) one(2) [OF ut] by (rule refl)
  qed
  have d: "distinct ts" "\<forall>u\<in>set ts. \<not> ts_Down ?s u" using Cons.prems t(2) unfolding one(6) by auto
  show ?case
    using Cons.IH [OF d] teardown_others [OF t(2) d] one(1,3,4,8) unfolding v teardown_simps by simp
qed (simp add: teardown_simps)

text \<open>Shutting down empties the list of blocks, calls every FLS callback with the values of every
  thread, each once and in the order of the list and the indexes, and leaves no slot of any thread set.\<close>

theorem terminate_teb_map:
  assumes "distinct (ts_TebList s)" and "\<forall>t\<in>set (ts_TebList s). \<not> ts_Down s t" and "ts_Calls s = []"
  shows "ts_TebList (LdkpTerminateTebMap [] s) = [] \<and>
    ts_Calls (LdkpTerminateTebMap [] s) = concat (map (fls_values s) (ts_TebList s)) \<and>
    (\<forall>t\<in>set (ts_TebList s). ts_TlsSlots (LdkpTerminateTebMap [] s) t = (\<lambda>_. NULL) \<and>
       ts_FlsSlots (LdkpTerminateTebMap [] s) t = (\<lambda>_. NULL))"
proof -
  let ?s = "s\<lparr>ts_TebList := []\<rparr>"
  have v: "fls_values ?s = fls_values s" by (simp add: fls_values_def fun_eq_iff)
  have "\<forall>t\<in>set (ts_TebList s). \<not> ts_Down ?s t" using assms(2) by simp
  then show ?thesis
    using teardown_all [OF assms(1), of ?s] assms(3) unfolding v LdkpTerminateTebMap_def Let_def teardown_def
    by simp
qed

section \<open>Example states\<close>

definition lowest_clear :: bit_search where
  "lowest_clear bm = List.find (\<lambda>i. \<not> bm i) [0 ..< 1024]"

lemma lowest_clear_ok: "finds_clear_bit lowest_clear"
  unfolding finds_clear_bit_def lowest_clear_def
proof (intro conjI allI impI)
  fix bm i assume "List.find (\<lambda>i. \<not> bm i) [0 ..< 1024] = Some i"
  from find_Some_in_set [OF this] show "i < 1024" and "\<not> bm i" by (simp_all del: upt_rec_numeral)
next
  fix bm i assume "List.find (\<lambda>i. \<not> bm i) [0 ..< 1024] = None" and i: "(i :: nat) < 1024"
  then have "\<forall>j\<in>set [0 ..< 1024]. \<not> \<not> bm j" unfolding find_None_iff_all by blast
  then show "bm i" using i by (simp del: upt_rec_numeral)
qed

text \<open>Two threads; index 3 is in use in both tables, with a callback at 80 when \<open>cb\<close> says so.\<close>

definition two_threads :: "addr \<Rightarrow> (tid \<Rightarrow> bool) \<Rightarrow> tls_state" where
  "two_threads cb down = \<lparr>ts_TebList = [2, 1], ts_Down = down, ts_Refs = (\<lambda>_. 0),
     ts_TlsSlots = (\<lambda>t i. if i = 3 then 10 + t else NULL), ts_FlsSlots = (\<lambda>t i. if i = 3 then 20 + t else NULL),
     ts_TlsBitmap = (\<lambda>i. i = 3), ts_FlsBitmap = (\<lambda>i. i = 3), ts_FlsCallbacks = (\<lambda>i. if i = 3 then cb else NULL),
     ts_LastError = (\<lambda>_. NoError), ts_Calls = []\<rparr>"

theorem tls_free_clears_witness:
  "\<exists>s'. TlsFree 1 3 (two_threads 0 (\<lambda>_. False)) = Some (True, s') \<and> ts_TlsSlots s' 2 3 = NULL"
proof -
  have "teb_list_ok 1 (two_threads 0 (\<lambda>_. False))" by (simp add: teb_list_ok_def two_threads_def)
  then show ?thesis
    using tls_free_clears [of 1 "two_threads 0 (\<lambda>_. False)" 3] by (auto simp: two_threads_def)
qed

theorem fls_free_callbacks_witness:
  "\<exists>s'. FlsFree 1 3 (two_threads 80 (\<lambda>_. False)) = Some (FlsReturned True, s') \<and>
     mset (ts_Calls s') = {#(80, 22), (80, 21)#}"
proof -
  have "teb_list_ok 1 (two_threads 80 (\<lambda>_. False))" by (simp add: teb_list_ok_def two_threads_def)
  then show ?thesis
    using fls_free_callbacks [of 1 "two_threads 80 (\<lambda>_. False)" 3 80] by (auto simp: two_threads_def)
qed

theorem fls_stale_value_witness:
  "\<exists>s1 s2. FlsFree 1 3 (two_threads 0 (\<lambda>_. False)) = Some (FlsReturned True, s1) \<and>
     FlsAlloc (\<lambda>_. Some 3) 1 0 s1 = (3, s2) \<and> FlsGetValue2 2 3 s2 = 22 \<and> FlsGetValue2 1 3 s2 = NULL"
  using fls_stale_value [of 3 "two_threads 0 (\<lambda>_. False)" "\<lambda>_. Some 3" 2 1 0] by (simp add: two_threads_def)

theorem fls_free_null_teb_witness:
  "\<exists>s'. FlsFree 1 3 (two_threads 80 (\<lambda>t. t = 2)) = Some (FlsNullTeb, s')"
  using fls_free_null_teb [of "two_threads 80 (\<lambda>t. t = 2)" 1 3] by (auto simp: two_threads_def)

theorem terminate_teb_map_witness:
  "ts_TebList (LdkpTerminateTebMap [] (two_threads 80 (\<lambda>_. False))) = []"
  using terminate_teb_map [of "two_threads 80 (\<lambda>_. False)"] by (simp add: two_threads_def)

lemma lowest_clear_zero: "\<not> bm 0 \<Longrightarrow> lowest_clear bm = Some 0"
  unfolding lowest_clear_def by (subst upt_conv_Cons) (simp_all del: upt_rec_numeral)

theorem tls_alloc_isolated_witness:
  "\<exists>s1. TlsAlloc lowest_clear 1 (two_threads 0 (\<lambda>_. False)) = (0, s1) \<and> ts_TlsBitmap s1 0 \<and>
     fst (TlsGetValue 1 0 s1) = NULL"
proof -
  have "TlsAlloc lowest_clear 1 (two_threads 0 (\<lambda>_. False)) =
      (0, snd (TlsAlloc lowest_clear 1 (two_threads 0 (\<lambda>_. False))))"
    by (simp add: TlsAlloc_def two_threads_def lowest_clear_zero)
  from tls_alloc_isolated [OF lowest_clear_ok this] this show ?thesis by auto
qed

end
