(* ===== verification/StaticTls.thy ===== *)
theory StaticTls
  imports TlsFls
begin

text \<open>
  The static thread local storage of loaded images (src/ldk.c): a module with a TLS directory takes an
  index of the TLS bitmap, and each thread that is initialised for it gets a block in that slot, filled
  from the template of the image. Unloading frees the blocks of all threads and returns the index.
\<close>

abbreviation LDK_TLS_OUT_OF_INDEXES' :: u32 where "LDK_TLS_OUT_OF_INDEXES' \<equiv> 0xFFFFFFFF"
abbreviation STATUS_INVALID_IMAGE_FORMAT :: ntstatus where "STATUS_INVALID_IMAGE_FORMAT \<equiv> 0xC000007B"

record tls_directory =
  td_StartAddressOfRawData :: u64
  td_EndAddressOfRawData :: u64
  td_AddressOfIndex :: addr
  td_SizeOfZeroFill :: u32

record module_tls =
  mt_TlsIndex :: u32
  mt_TlsRawDataSize :: u32
  mt_TlsDataSize :: u32
  mt_TlsRawData :: addr

text \<open>\<open>st_Pool\<close> holds the allocated blocks, \<open>st_Index\<close> the index variables of the images.\<close>

record static_tls =
  st_Tls :: tls_state
  st_Pool :: "addr \<Rightarrow> u8 list option"
  st_Index :: "addr \<Rightarrow> u32"

definition no_tls :: module_tls where
  "no_tls = \<lparr>mt_TlsIndex = LDK_TLS_OUT_OF_INDEXES', mt_TlsRawDataSize = 0, mt_TlsDataSize = 0, mt_TlsRawData = NULL\<rparr>"

text \<open>\<open>entry\<close> is the data directory entry of the image with its size, read by the kernel.\<close>

definition LdkpGetTlsDirectory :: "nat \<Rightarrow> (tls_directory \<times> nat) option \<Rightarrow> tls_directory option" where
  "LdkpGetTlsDirectory SizeOfDirectory entry =
     (case entry of None \<Rightarrow> None | Some (d, Size) \<Rightarrow> if Size < SizeOfDirectory then None else Some d)"

definition LdkpModuleHasStaticTls :: "module_tls \<Rightarrow> bool" where
  "LdkpModuleHasStaticTls m \<longleftrightarrow> mt_TlsIndex m \<noteq> LDK_TLS_OUT_OF_INDEXES'"

definition tls_template :: "(addr \<Rightarrow> u8) \<Rightarrow> module_tls \<Rightarrow> u8 list" where
  "tls_template mem m =
     map mem [mt_TlsRawData m ..< mt_TlsRawData m + unat (mt_TlsRawDataSize m)] @
     replicate (unat (mt_TlsDataSize m) - unat (mt_TlsRawDataSize m)) 0"

text \<open>\<open>alloc\<close> is the block the pool gives, \<open>late\<close> what another thread has stored in the slot between
  the first look and the compare-and-exchange (\<open>NULL\<close> if nobody did), and \<open>mem\<close> the memory of the
  images.\<close>

definition LdkpInitializeStaticTlsForTeb ::
  "addr option \<Rightarrow> addr \<Rightarrow> (addr \<Rightarrow> u8) \<Rightarrow> module_tls \<Rightarrow> tid \<Rightarrow> static_tls \<Rightarrow> ntstatus \<times> static_tls" where
  "LdkpInitializeStaticTlsForTeb alloc late mem m t s =
     (if \<not> LdkpModuleHasStaticTls m then (STATUS_SUCCESS, s)
      else if unat (mt_TlsIndex m) \<ge> LDK_TLS_SLOTS_SIZE then (STATUS_INVALID_PARAMETER, s)
      else if ts_TlsSlots (st_Tls s) t (unat (mt_TlsIndex m)) \<noteq> NULL then (STATUS_SUCCESS, s)
      else
        let i = unat (mt_TlsIndex m);
            store = (\<lambda>v s. s\<lparr>st_Tls := (st_Tls s)\<lparr>ts_TlsSlots := set_slot t i v (ts_TlsSlots (st_Tls s))\<rparr>\<rparr>)
        in if mt_TlsDataSize m \<noteq> 0 then
             (case alloc of
                None \<Rightarrow> (STATUS_INSUFFICIENT_RESOURCES, s)
              | Some Block \<Rightarrow>
                  let s1 = s\<lparr>st_Pool := (st_Pool s)(Block \<mapsto> tls_template mem m)\<rparr>
                  in if late = NULL then (STATUS_SUCCESS, store Block s1)
                     else (STATUS_SUCCESS, store late (s1\<lparr>st_Pool := (st_Pool s1)(Block := None)\<rparr>)))
           else (STATUS_SUCCESS, store late s))"

definition LdkpFreeStaticTlsForTeb :: "module_tls \<Rightarrow> tid \<Rightarrow> static_tls \<Rightarrow> static_tls" where
  "LdkpFreeStaticTlsForTeb m t s =
     (if \<not> LdkpModuleHasStaticTls m \<or> unat (mt_TlsIndex m) \<ge> LDK_TLS_SLOTS_SIZE then s
      else
        let i = unat (mt_TlsIndex m); Block = ts_TlsSlots (st_Tls s) t i
        in s\<lparr>st_Tls := (st_Tls s)\<lparr>ts_TlsSlots := set_slot t i NULL (ts_TlsSlots (st_Tls s))\<rparr>,
             st_Pool := (if Block \<noteq> NULL then (st_Pool s)(Block := None) else st_Pool s)\<rparr>)"

text \<open>\<open>None\<close>: the loop does not end within one round of the list.\<close>

definition LdkpFreeStaticTlsForAllTebs :: "tid \<Rightarrow> module_tls \<Rightarrow> static_tls \<Rightarrow> static_tls option" where
  "LdkpFreeStaticTlsForAllTebs k m s =
     (if \<not> LdkpModuleHasStaticTls m then Some s
      else case ExAcquireRundownProtection (ts_Down (st_Tls s)) k (ts_Refs (st_Tls s)) of
          (False, _) \<Rightarrow> Some s
        | (True, refs) \<Rightarrow>
            (case teb_walk (LdkpFreeStaticTlsForTeb m) (ts_TebList (st_Tls s)) (ts_Down (st_Tls s)) k
                   (length (ts_TebList (st_Tls s))) k refs s of
               None \<Rightarrow> None
             | Some (Teb, refs1, s1) \<Rightarrow>
                 Some (s1\<lparr>st_Tls := (st_Tls s1)\<lparr>ts_Refs :=
                   (if Teb = Some k then ExReleaseRundownProtection k refs1 else refs1)\<rparr>\<rparr>)))"

definition set_tls_bit :: "nat \<Rightarrow> bool \<Rightarrow> static_tls \<Rightarrow> static_tls" where
  "set_tls_bit i b s = s\<lparr>st_Tls := (st_Tls s)\<lparr>ts_TlsBitmap := (ts_TlsBitmap (st_Tls s))(i := b)\<rparr>\<rparr>"

definition LdkpInitializeModuleTls ::
  "bit_search \<Rightarrow> addr option \<Rightarrow> addr \<Rightarrow> (addr \<Rightarrow> u8) \<Rightarrow> tls_directory option \<Rightarrow> tid \<Rightarrow> static_tls \<Rightarrow>
     ntstatus \<times> module_tls \<times> static_tls" where
  "LdkpInitializeModuleTls search alloc late mem TlsDirectory k s =
     (case TlsDirectory of
        None \<Rightarrow> (STATUS_SUCCESS, no_tls, s)
      | Some d \<Rightarrow>
          if td_AddressOfIndex d = NULL then (STATUS_INVALID_IMAGE_FORMAT, no_tls, s)
          else
            let RawDataStart = td_StartAddressOfRawData d; RawDataEnd = td_EndAddressOfRawData d in
            if RawDataEnd < RawDataStart \<or> RawDataEnd - RawDataStart > 0xFFFFFFFF \<or>
               td_SizeOfZeroFill d > 0xFFFFFFFF - ucast (RawDataEnd - RawDataStart)
            then (STATUS_INVALID_IMAGE_FORMAT, no_tls, s)
            else
              let RawDataSize = ucast (RawDataEnd - RawDataStart); DataSize = RawDataSize + td_SizeOfZeroFill d in
              (case search (ts_TlsBitmap (st_Tls s)) of
                 None \<Rightarrow> (STATUS_NO_MEMORY, no_tls, s)
               | Some TlsIndex \<Rightarrow>
                   let m = \<lparr>mt_TlsIndex = of_nat TlsIndex, mt_TlsRawDataSize = RawDataSize,
                            mt_TlsDataSize = DataSize, mt_TlsRawData = unat RawDataStart\<rparr>;
                       s1 = (set_tls_bit TlsIndex True s)
                              \<lparr>st_Index := (st_Index s)(td_AddressOfIndex d := of_nat TlsIndex)\<rparr>
                   in case LdkpInitializeStaticTlsForTeb alloc late mem m k s1 of
                        (Status, s2) \<Rightarrow>
                          if NT_SUCCESS Status then (Status, m, s2)
                          else (Status, no_tls, set_tls_bit TlsIndex False s2)))"

definition LdkpUninitializeModuleTls :: "tid \<Rightarrow> module_tls \<Rightarrow> static_tls \<Rightarrow> (module_tls \<times> static_tls) option" where
  "LdkpUninitializeModuleTls k m s =
     (if \<not> LdkpModuleHasStaticTls m then Some (m, s)
      else case LdkpFreeStaticTlsForAllTebs k m s of
          None \<Rightarrow> None
        | Some s1 \<Rightarrow> Some (no_tls, set_tls_bit (unat (mt_TlsIndex m)) False s1))"

section \<open>Initialisation\<close>

lemma tls_template_length:
  "unat (mt_TlsRawDataSize m) \<le> unat (mt_TlsDataSize m) \<Longrightarrow> length (tls_template mem m) = unat (mt_TlsDataSize m)"
  by (simp add: tls_template_def)

lemma data_size_no_wrap:
  fixes r z :: u32
  assumes "\<not> z > 0xFFFFFFFF - r"
  shows "unat (r + z) = unat r + unat z"
proof -
  have r: "unat r < 4294967296" using unsigned_less [of r, where 'a = nat] by simp
  then have "r \<le> 0xFFFFFFFF" by (simp add: word_le_nat_alt)
  then have "unat (0xFFFFFFFF - r) = 0xFFFFFFFF - unat r" by (simp add: unat_sub)
  then have "unat z \<le> 0xFFFFFFFF - unat r" using assms by (simp add: word_le_nat_alt not_less)
  then have "unat r + unat z < 4294967296" using r by linarith
  then show ?thesis by (simp add: unat_word_ariths)
qed

lemma init_block:
  assumes "LdkpInitializeStaticTlsForTeb alloc NULL mem m k s = (st, s')" and "LdkpModuleHasStaticTls m"
    and "unat (mt_TlsIndex m) < LDK_TLS_SLOTS_SIZE" and "ts_TlsSlots (st_Tls s) k (unat (mt_TlsIndex m)) = NULL"
    and "alloc \<noteq> Some NULL"
  shows "st = STATUS_INSUFFICIENT_RESOURCES \<and> s' = s \<or>
    mt_TlsDataSize m = 0 \<and> st = STATUS_SUCCESS \<and> ts_TlsBitmap (st_Tls s') = ts_TlsBitmap (st_Tls s) \<or>
    st = STATUS_SUCCESS \<and> ts_TlsBitmap (st_Tls s') = ts_TlsBitmap (st_Tls s) \<and>
      st_Pool s' (ts_TlsSlots (st_Tls s') k (unat (mt_TlsIndex m))) = Some (tls_template mem m)"
  using assms unfolding LdkpInitializeStaticTlsForTeb_def by (auto simp: Let_def split: if_splits option.splits)

text \<open>Loading an image with a TLS directory takes a free index below the number of slots, and the
  loading thread's block holds the template of the image followed by the zero fill; the sizes do not
  wrap. If the image has no directory or anything fails, no index stays taken.\<close>

theorem initialize_module_tls:
  assumes "finds_clear_bit search"
    and "LdkpInitializeModuleTls search alloc NULL mem dir k s = (st, m, s')"
    and "\<forall>i. \<not> ts_TlsBitmap (st_Tls s) i \<longrightarrow> ts_TlsSlots (st_Tls s) k i = NULL" and "alloc \<noteq> Some NULL"
  shows "if NT_SUCCESS st \<and> dir \<noteq> None then
      unat (mt_TlsIndex m) < LDK_TLS_SLOTS_SIZE \<and> \<not> ts_TlsBitmap (st_Tls s) (unat (mt_TlsIndex m)) \<and>
      ts_TlsBitmap (st_Tls s') = (ts_TlsBitmap (st_Tls s))(unat (mt_TlsIndex m) := True) \<and>
      unat (mt_TlsDataSize m) = unat (mt_TlsRawDataSize m) + unat (td_SizeOfZeroFill (the dir)) \<and>
      (mt_TlsDataSize m \<noteq> 0 \<longrightarrow>
         st_Pool s' (ts_TlsSlots (st_Tls s') k (unat (mt_TlsIndex m))) = Some (tls_template mem m) \<and>
         length (tls_template mem m) = unat (mt_TlsDataSize m))
    else m = no_tls \<and> ts_TlsBitmap (st_Tls s') = ts_TlsBitmap (st_Tls s)"
proof (cases dir)
  case None
  then show ?thesis using assms(2) by (auto simp: LdkpInitializeModuleTls_def)
next
  case (Some d)
  define raw :: u32 where "raw = ucast (td_EndAddressOfRawData d - td_StartAddressOfRawData d)"
  define bad where "bad \<longleftrightarrow> td_EndAddressOfRawData d < td_StartAddressOfRawData d \<or>
     td_EndAddressOfRawData d - td_StartAddressOfRawData d > 0xFFFFFFFF \<or> td_SizeOfZeroFill d > 0xFFFFFFFF - raw"
  show ?thesis
  proof (cases "td_AddressOfIndex d = NULL \<or> bad \<or> search (ts_TlsBitmap (st_Tls s)) = None")
    case True
    then have "st \<in> {STATUS_INVALID_IMAGE_FORMAT, STATUS_NO_MEMORY} \<and> m = no_tls \<and> s' = s"
      using assms(2) unfolding LdkpInitializeModuleTls_def Some bad_def raw_def by (auto simp: Let_def split: if_splits)
    moreover have "\<not> NT_SUCCESS STATUS_INVALID_IMAGE_FORMAT" by (simp add: NT_SUCCESS_def)
    ultimately show ?thesis by auto
  next
    case False
    then obtain i where i: "search (ts_TlsBitmap (st_Tls s)) = Some i" by blast
    then have il: "i < 1024" "\<not> ts_TlsBitmap (st_Tls s) i" using finds_clear_bitD(1) [OF assms(1)] by blast+
    define mm where "mm = \<lparr>mt_TlsIndex = of_nat i, mt_TlsRawDataSize = raw,
      mt_TlsDataSize = raw + td_SizeOfZeroFill d, mt_TlsRawData = unat (td_StartAddressOfRawData d)\<rparr>"
    define s1 where "s1 = (set_tls_bit i True s)\<lparr>st_Index := (st_Index s)(td_AddressOfIndex d := of_nat i)\<rparr>"
    have idx: "unat (mt_TlsIndex mm) = i" "LdkpModuleHasStaticTls mm"
      using il(1) unat_index [OF il(1)] by (auto simp: mm_def LdkpModuleHasStaticTls_def)
    have sz: "unat (mt_TlsDataSize mm) = unat (mt_TlsRawDataSize mm) + unat (td_SizeOfZeroFill d)"
      using False data_size_no_wrap unfolding mm_def bad_def by simp
    have empty: "ts_TlsSlots (st_Tls s1) k i = NULL" using assms(3) il(2) by (simp add: s1_def set_tls_bit_def)
    obtain st2 s2 where st2: "LdkpInitializeStaticTlsForTeb alloc NULL mem mm k s1 = (st2, s2)" by fastforce
    have res: "(st, m, s') = (if NT_SUCCESS st2 then (st2, mm, s2) else (st2, no_tls, set_tls_bit i False s2))"
      using assms(2) False i st2 unfolding LdkpInitializeModuleTls_def Some bad_def raw_def mm_def s1_def
      by (simp add: Let_def)
    from init_block [OF st2 idx(2) _ empty [folded idx(1)] assms(4)] consider
      (none) "st2 = STATUS_INSUFFICIENT_RESOURCES" "s2 = s1"
      | (zero) "mt_TlsDataSize mm = 0" "st2 = STATUS_SUCCESS" "ts_TlsBitmap (st_Tls s2) = ts_TlsBitmap (st_Tls s1)"
      | (block) "st2 = STATUS_SUCCESS" "ts_TlsBitmap (st_Tls s2) = ts_TlsBitmap (st_Tls s1)"
          "st_Pool s2 (ts_TlsSlots (st_Tls s2) k i) = Some (tls_template mem mm)"
      using idx(1) il(1) by fastforce
    then show ?thesis
    proof cases
      case none
      then show ?thesis using res il by (auto simp: s1_def set_tls_bit_def fun_eq_iff)
    next
      case zero
      then show ?thesis using res idx(1) il sz Some by (simp add: s1_def set_tls_bit_def)
    next
      case block
      then show ?thesis
        using res idx(1) il sz Some tls_template_length [of mm mem] by (simp add: s1_def set_tls_bit_def)
    qed
  qed
qed

section \<open>Teardown\<close>

definition tls_blocks :: "nat \<Rightarrow> tid list \<Rightarrow> slots \<Rightarrow> addr set" where
  "tls_blocks i ts sl = {sl t i |t. t \<in> set ts \<and> sl t i \<noteq> NULL}"

lemma free_static_fold:
  assumes "LdkpModuleHasStaticTls m" and "unat (mt_TlsIndex m) < LDK_TLS_SLOTS_SIZE" and "distinct ts"
  shows "fold (LdkpFreeStaticTlsForTeb m) ts s =
    s\<lparr>st_Tls := (st_Tls s)\<lparr>ts_TlsSlots := cleared ts (unat (mt_TlsIndex m)) (ts_TlsSlots (st_Tls s))\<rparr>,
      st_Pool := (\<lambda>a. if a \<in> tls_blocks (unat (mt_TlsIndex m)) ts (ts_TlsSlots (st_Tls s)) then None else st_Pool s a)\<rparr>"
  using assms(3)
proof (induction ts arbitrary: s)
  case Nil
  then show ?case by (simp add: cleared_def tls_blocks_def)
next
  case (Cons t ts)
  let ?i = "unat (mt_TlsIndex m)" and ?s = "LdkpFreeStaticTlsForTeb m t s"
  have s1: "?s = s\<lparr>st_Tls := (st_Tls s)\<lparr>ts_TlsSlots := set_slot t ?i NULL (ts_TlsSlots (st_Tls s))\<rparr>,
      st_Pool := (if ts_TlsSlots (st_Tls s) t ?i \<noteq> NULL then (st_Pool s)(ts_TlsSlots (st_Tls s) t ?i := None)
        else st_Pool s)\<rparr>"
    using assms(1,2) by (simp add: LdkpFreeStaticTlsForTeb_def Let_def)
  have b: "tls_blocks ?i ts (set_slot t ?i NULL sl) = tls_blocks ?i ts sl" for sl
    using Cons.prems by (auto simp: tls_blocks_def)
  have bc: "tls_blocks ?i (t # ts) sl = (if sl t ?i \<noteq> NULL then insert (sl t ?i) (tls_blocks ?i ts sl) else tls_blocks ?i ts sl)" for sl
    by (auto simp: tls_blocks_def)
  have c: "cleared ts ?i (set_slot t ?i NULL sl) = cleared (t # ts) ?i sl" for sl
    by (auto simp: cleared_def fun_eq_iff)
  have "distinct ts" using Cons.prems by simp
  note ih = Cons.IH [OF this, of ?s]
  have sl: "ts_TlsSlots (st_Tls ?s) = set_slot t ?i NULL (ts_TlsSlots (st_Tls s))" by (simp only: s1) simp
  have pool: "(\<lambda>a. if a \<in> tls_blocks ?i ts (ts_TlsSlots (st_Tls s)) then None else st_Pool ?s a) =
      (\<lambda>a. if a \<in> tls_blocks ?i (t # ts) (ts_TlsSlots (st_Tls s)) then None else st_Pool s a)"
    by (simp only: s1 bc) (simp add: fun_eq_iff)
  have rest: "?s\<lparr>st_Tls := (st_Tls ?s)\<lparr>ts_TlsSlots := X\<rparr>, st_Pool := Y\<rparr> =
      s\<lparr>st_Tls := (st_Tls s)\<lparr>ts_TlsSlots := X\<rparr>, st_Pool := Y\<rparr>" for X Y
    by (simp only: s1) simp
  have "fold (LdkpFreeStaticTlsForTeb m) (t # ts) s = fold (LdkpFreeStaticTlsForTeb m) ts ?s" by simp
  then show ?case unfolding ih sl b c pool rest .
qed

text \<open>Unloading an image with static TLS returns, frees the blocks of all threads and no other block,
  empties the slot in every thread and gives the index back.\<close>

theorem uninitialize_module_tls:
  assumes "teb_list_ok k (st_Tls s)" and "LdkpModuleHasStaticTls m" and "unat (mt_TlsIndex m) < LDK_TLS_SLOTS_SIZE"
  shows "\<exists>s'. LdkpUninitializeModuleTls k m s = Some (no_tls, s') \<and>
    (\<forall>a. st_Pool s' a = (if a \<in> tls_blocks (unat (mt_TlsIndex m)) (ts_TebList (st_Tls s)) (ts_TlsSlots (st_Tls s))
        then None else st_Pool s a)) \<and>
    ts_TlsSlots (st_Tls s') = cleared (ts_TebList (st_Tls s)) (unat (mt_TlsIndex m)) (ts_TlsSlots (st_Tls s)) \<and>
    ts_TlsBitmap (st_Tls s') = (ts_TlsBitmap (st_Tls s))(unat (mt_TlsIndex m) := False) \<and>
    ts_Refs (st_Tls s') = ts_Refs (st_Tls s)"
proof -
  have k: "distinct (ts_TebList (st_Tls s))" "k \<in> set (ts_TebList (st_Tls s))"
    "\<forall>t\<in>set (ts_TebList (st_Tls s)). \<not> ts_Down (st_Tls s) t" "\<not> ts_Down (st_Tls s) k"
    using assms(1) by (auto simp: teb_list_ok_def)
  let ?o = "walk_order (ts_TebList (st_Tls s)) k" and ?i = "unat (mt_TlsIndex m)"
  note w = walk_all [OF k(1,2,3), of "LdkpFreeStaticTlsForTeb m" "ts_Refs (st_Tls s)" s]
  note f = free_static_fold [OF assms(2,3) walk_order_set(2) [OF k(2,1)]]
  have b: "tls_blocks ?i ?o sl = tls_blocks ?i (ts_TebList (st_Tls s)) sl" for sl
    using walk_order_set(1) [OF k(2,1)] by (simp add: tls_blocks_def)
  have c: "cleared ?o ?i sl = cleared (ts_TebList (st_Tls s)) ?i sl" for sl
    using walk_order_set(1) [OF k(2,1)] by (simp add: cleared_def)
  have "LdkpFreeStaticTlsForAllTebs k m s =
      Some ((fold (LdkpFreeStaticTlsForTeb m) ?o s)\<lparr>st_Tls :=
        (st_Tls (fold (LdkpFreeStaticTlsForTeb m) ?o s))\<lparr>ts_Refs := ts_Refs (st_Tls s)\<rparr>\<rparr>)"
    using assms(2) unfolding LdkpFreeStaticTlsForAllTebs_def acquire_up [of "ts_Down (st_Tls s)", OF k(4)]
    by (simp only: w prod.case option.case bool.case if_True if_False simp_thms release_acquired not_True_eq_False)
  then show ?thesis
    using assms(2) unfolding LdkpUninitializeModuleTls_def f b c by (simp add: set_tls_bit_def)
qed

section \<open>Example\<close>

definition static_start :: static_tls where
  "static_start = \<lparr>st_Tls = (two_threads 0 (\<lambda>_. False))\<lparr>ts_TlsSlots := (\<lambda>t i. if i = 3 then 10 + t else NULL)\<rparr>,
     st_Pool = [11 \<mapsto> [1], 12 \<mapsto> [1], 99 \<mapsto> [7]], st_Index = (\<lambda>_. 0)\<rparr>"

definition example_directory :: tls_directory where
  "example_directory = \<lparr>td_StartAddressOfRawData = 500, td_EndAddressOfRawData = 502, td_AddressOfIndex = 600,
     td_SizeOfZeroFill = 2\<rparr>"

theorem initialize_module_tls_witness:
  "\<exists>m s'. LdkpInitializeModuleTls lowest_clear (Some 40) NULL (\<lambda>a. of_nat a) (Some example_directory) 1 static_start =
      (STATUS_SUCCESS, m, s') \<and> mt_TlsDataSize m \<noteq> 0 \<and>
      st_Pool s' (ts_TlsSlots (st_Tls s') 1 (unat (mt_TlsIndex m))) = Some (tls_template (\<lambda>a. of_nat a) m)"
proof -
  let ?run = "LdkpInitializeModuleTls lowest_clear (Some 40) NULL (\<lambda>a. of_nat a) (Some example_directory) 1 static_start"
  have bit: "lowest_clear (ts_TlsBitmap (st_Tls static_start)) = Some 0"
    by (rule lowest_clear_zero) (simp add: static_start_def two_threads_def)
  obtain m s' where r: "?run = (STATUS_SUCCESS, m, s')" and nz: "mt_TlsDataSize m \<noteq> 0"
    unfolding LdkpInitializeModuleTls_def option.case bit
    by (simp add: example_directory_def LdkpInitializeStaticTlsForTeb_def LdkpModuleHasStaticTls_def
        static_start_def two_threads_def set_tls_bit_def Let_def)
  have "\<forall>i. \<not> ts_TlsBitmap (st_Tls static_start) i \<longrightarrow> ts_TlsSlots (st_Tls static_start) 1 i = NULL"
    by (simp add: static_start_def two_threads_def)
  from initialize_module_tls [OF lowest_clear_ok r this] nz r show ?thesis by auto
qed

theorem uninitialize_module_tls_witness:
  "\<exists>s'. LdkpUninitializeModuleTls 1 (no_tls\<lparr>mt_TlsIndex := 3\<rparr>) static_start = Some (no_tls, s') \<and>
     st_Pool s' 11 = None \<and> st_Pool s' 12 = None \<and> st_Pool s' 99 = Some [7]"
proof -
  have "teb_list_ok 1 (st_Tls static_start)" by (simp add: teb_list_ok_def static_start_def two_threads_def)
  moreover have "tls_blocks 3 (ts_TebList (st_Tls static_start)) (ts_TlsSlots (st_Tls static_start)) = {11, 12}"
    by (auto simp: tls_blocks_def static_start_def two_threads_def)
  ultimately show ?thesis
    using uninitialize_module_tls [of 1 static_start "no_tls\<lparr>mt_TlsIndex := 3\<rparr>"]
    by (auto simp: LdkpModuleHasStaticTls_def static_start_def)
qed

end
