(* ===== verification/ThreadNotifications.thy ===== *)
theory ThreadNotifications
  imports ModuleReferences StaticTls
begin

text \<open>
  The notification of loaded modules about a thread (src/ldk.c, \<open>LdkpCallThreadNotifications\<close>): a
  snapshot of the attached modules is referenced under the lock, each of them gets its TLS callbacks and
  its entry point called without the lock, and the references are dropped afterwards.
\<close>

datatype thread_reason = DLL_THREAD_ATTACH | DLL_THREAD_DETACH

text \<open>The calls into an image, with the list of modules at that time.\<close>

datatype image_call = TlsCallbacks addr thread_reason | EntryPoint addr thread_reason

record notification_state =
  ns_Modules :: module_state
  ns_Tls :: static_tls
  ns_Calls :: "image_call list"

text \<open>One module of the snapshot. \<open>tls\<close> gives the TLS fields of a module, \<open>alloc\<close> the pool, and
  \<open>mem\<close> the memory of the images. The images run their own code in the calls; what they do to the state
  is not part of the step.\<close>

definition notify_module ::
  "(addr \<Rightarrow> module_tls) \<Rightarrow> (addr \<Rightarrow> addr option) \<Rightarrow> (addr \<Rightarrow> u8) \<Rightarrow> tid \<Rightarrow> thread_reason \<Rightarrow> addr \<Rightarrow>
     notification_state \<Rightarrow> notification_state" where
  "notify_module tls alloc mem k Reason a s =
     (let m = ml_Module (ns_Modules s) a;
          (st, t1) = (if Reason = DLL_THREAD_ATTACH
                      then LdkpInitializeStaticTlsForTeb (alloc a) NULL mem (tls a) k (ns_Tls s)
                      else (STATUS_SUCCESS, ns_Tls s))
      in if \<not> NT_SUCCESS st then s\<lparr>ns_Tls := t1\<rparr>
         else
           let calls = TlsCallbacks a Reason #
                 (if flag_on (md_Flags m) LDK_MODULE_FLAG_THREAD_LIBRARY_CALLS_DISABLED then [] else [EntryPoint a Reason]);
               t2 = (if Reason = DLL_THREAD_DETACH then LdkpFreeStaticTlsForTeb (tls a) k t1 else t1)
           in s\<lparr>ns_Tls := t2, ns_Calls := ns_Calls s @ calls\<rparr>)"

definition LdkpCallThreadNotifications ::
  "bool \<Rightarrow> bool \<Rightarrow> (addr \<Rightarrow> module_tls) \<Rightarrow> (addr \<Rightarrow> addr option) \<Rightarrow> (addr \<Rightarrow> u8) \<Rightarrow> tid \<Rightarrow> thread_reason \<Rightarrow>
     notification_state \<Rightarrow> notification_state" where
  "LdkpCallThreadNotifications initialized pool tls alloc mem k Reason s =
     (if \<not> initialized then s
      else case LdkpReferenceProcessAttachedModuleSnapshot pool 0 (ns_Modules s) of
          (st, Modules, ms) \<Rightarrow>
            if \<not> NT_SUCCESS st then s\<lparr>ns_Modules := ms\<rparr>
            else
              let s1 = fold (notify_module tls alloc mem k Reason) Modules (s\<lparr>ns_Modules := ms\<rparr>)
              in s1\<lparr>ns_Modules := LdkpReleaseProcessAttachedModuleSnapshot Modules (ns_Modules s1)\<rparr>)"

section \<open>Properties\<close>

lemma notify_modules [simp]: "ns_Modules (notify_module tls alloc mem k r a s) = ns_Modules s"
  by (simp add: notify_module_def Let_def split: prod.splits)

lemma fold_notify_modules: "ns_Modules (fold (notify_module tls alloc mem k r) xs s) = ns_Modules s"
  by (induction xs arbitrary: s) simp_all

lemma task_base:
  assumes "module_task_step t s = (ts, s')"
  shows "md_Base (ml_Module s' b) = md_Base (ml_Module s b)"
proof (cases t)
  case (TaskRelease d)
  show ?thesis
  proof (cases rule: LdkUnloadDll_locked_cases [of "md_handle s d" s])
    case (3 a)
    then have "LdkpUnregisterModule a ((ml_update a (\<lambda>m. m\<lparr>md_LoadCount := 0\<rparr>) s)
        \<lparr>ml_ModuleListHead := remove1 a (ml_ModuleListHead s)\<rparr>) = (ts, s')"
      using assms by (simp add: TaskRelease)
    then show ?thesis unfolding LdkpUnregisterModule_def Let_def ml_update_def by (auto split: if_splits)
  qed (use assms in \<open>auto simp: TaskRelease ml_update_def\<close>)
qed (use assms in auto)

lemma run_base: "md_Base (ml_Module (module_run ts s) b) = md_Base (ml_Module s b)"
proof (induction ts s rule: module_run.induct)
  case (2 t ts s)
  obtain ts' s' where st: "module_task_step t s = (ts', s')" by (cases "module_task_step t s")
  show ?case using 2 [OF st [symmetric]] task_base [OF st] by (simp add: st)
qed simp

lemma release_snapshot_inv:
  assumes "ml_inv (\<lambda>x. ext x + (if x \<in> set ms then 1 else 0)) {#} s" and "distinct ms"
    and "\<forall>a\<in>set ms. md_Base (ml_Module s a) \<noteq> NULL"
  shows "ml_inv ext {#} (LdkpReleaseProcessAttachedModuleSnapshot ms s)"
  using assms
proof (induction ms arbitrary: s)
  case Nil
  then show ?case by (simp add: LdkpReleaseProcessAttachedModuleSnapshot_def)
next
  case (Cons a ms)
  let ?e = "\<lambda>x. ext x + (if x \<in> set (a # ms) then 1 else 0)"
  have h: "md_Base (ml_Module s a) = md_handle s a" using Cons.prems(3) by (simp add: md_handle_def)
  let ?s = "module_run [TaskRelease a] s"
  have s1: "snd (LdkUnloadDll (md_Base (ml_Module s a)) s) = ?s" unfolding h unload_is_task by simp
  have "?e(a := ?e a - 1) = (\<lambda>x. ext x + (if x \<in> set ms then 1 else 0))" using Cons.prems(2) by auto
  then have "ml_inv (\<lambda>x. ext x + (if x \<in> set ms then 1 else 0)) {#} ?s"
    using inv_unload_run [OF Cons.prems(1), of a] by simp
  moreover have "\<forall>b\<in>set ms. md_Base (ml_Module ?s b) \<noteq> NULL" using Cons.prems(3) unfolding run_base by simp
  ultimately have "ml_inv ext {#} (LdkpReleaseProcessAttachedModuleSnapshot ms ?s)"
    using Cons.IH Cons.prems(2) by simp
  then show ?case by (simp add: LdkpReleaseProcessAttachedModuleSnapshot_def s1)
qed

lemma snapshot_ok:
  assumes inv: "ml_inv ext {#} s" and r: "LdkpReferenceProcessAttachedModuleSnapshot pool 0 s = (st, ms, s')"
  shows "distinct ms" and "set ms \<subseteq> set (ml_ModuleListHead s)" and "\<forall>a\<in>set ms. md_Base (ml_Module s' a) \<noteq> NULL"
    and "ml_ModuleListHead s' = ml_ModuleListHead s"
proof -
  have fr: "ml_frame s (fold (\<lambda>a. LdkpReferenceModuleLocked a False True) xs s)" for xs s
  proof (induction xs arbitrary: s)
    case (Cons x xs)
    then show ?case unfolding fold_simps by (rule ml_frame_trans [OF frame_reference])
  qed simp
  let ?f = "filter (\<lambda>a. snapshot_member 0 (ml_Module s a)) (ml_ModuleListHead s)"
  have ms: "ms = [] \<or> ms = ?f" and f: "ml_frame s s'"
    using r fr unfolding LdkpReferenceProcessAttachedModuleSnapshot_def Let_def by (auto split: if_splits)
  show "distinct ms" and "set ms \<subseteq> set (ml_ModuleListHead s)"
    using ms inv unfolding ml_inv_def ml_shape_def by auto
  show "ml_ModuleListHead s' = ml_ModuleListHead s" using f by (rule ml_frame_list)
  show "\<forall>a\<in>set ms. md_Base (ml_Module s' a) \<noteq> NULL"
    using ms f unfolding ml_frame_def by (auto simp: snapshot_member_def)
qed

fun call_target :: "image_call \<Rightarrow> addr" where
  "call_target (TlsCallbacks a r) = a"
| "call_target (EntryPoint a r) = a"

lemma notify_calls: "call_target ` set (ns_Calls (notify_module tls alloc mem k r a s)) \<subseteq> insert a (call_target ` set (ns_Calls s))"
  by (auto simp: notify_module_def Let_def split: prod.splits)

lemma fold_notify_calls:
  "call_target ` set (ns_Calls (fold (notify_module tls alloc mem k r) xs s)) \<subseteq> set xs \<union> call_target ` set (ns_Calls s)"
proof (induction xs arbitrary: s)
  case (Cons a xs)
  show ?case using Cons.IH [of "notify_module tls alloc mem k r a s"] notify_calls [of tls alloc mem k r a s] by auto
qed simp

text \<open>A notification calls only into modules that are listed while it runs and that it holds a
  reference on, and when it returns the references of every module are what they were before.\<close>

theorem thread_notifications:
  assumes "reach module_init module_step c" and "mm_Faults c = []" and "mm_Tasks c = {#}"
    and "\<forall>a\<in>set (ml_ModuleListHead (mm_State c)). md_LoadCount (ml_Module (mm_State c) a) < MAXLONG"
    and "ns_Modules s = mm_State c" and "ns_Calls s = []"
  shows "ml_inv (mm_Ext c) {#} (ns_Modules (LdkpCallThreadNotifications i pool tls alloc mem k r s)) \<and>
    call_target ` set (ns_Calls (LdkpCallThreadNotifications i pool tls alloc mem k r s)) \<subseteq>
      set (fst (snd (LdkpReferenceProcessAttachedModuleSnapshot pool 0 (mm_State c)))) \<inter>
      set (ml_ModuleListHead (snd (snd (LdkpReferenceProcessAttachedModuleSnapshot pool 0 (mm_State c)))))"
proof -
  have inv: "ml_inv (mm_Ext c) {#} (mm_State c)" using module_reach_inv [OF assms(1,2)] assms(3) by simp
  obtain st ms s' where r: "LdkpReferenceProcessAttachedModuleSnapshot pool 0 (mm_State c) = (st, ms, s')"
    by (metis prod_cases3)
  note sn = snapshot_ok [OF inv r]
  have less: "\<forall>a\<in>set ms. unpinned (ml_Module (mm_State c) a) \<longrightarrow> md_LoadCount (ml_Module (mm_State c) a) < MAXLONG" using assms(4) sn(2) by blast
  have i2: "ml_inv (\<lambda>x. mm_Ext c x + (if x \<in> set ms then 1 else 0)) {#} s'" by (rule inv_snapshot [OF inv r less])
  show ?thesis
  proof (cases "i \<and> NT_SUCCESS st")
    case False
    then have "st \<noteq> STATUS_SUCCESS \<or> \<not> i" by auto
    then have "ms = [] \<or> \<not> i"
      using r unfolding LdkpReferenceProcessAttachedModuleSnapshot_def Let_def by (auto split: if_splits)
    then show ?thesis using False inv i2 r assms(5,6) by (auto simp: LdkpCallThreadNotifications_def)
  next
    case True
    then show ?thesis
      using release_snapshot_inv [OF i2 sn(1,3)] fold_notify_calls [of tls alloc mem k r ms "s\<lparr>ns_Modules := s'\<rparr>"]
        sn(2,4) assms(5,6) r
      by (auto simp: LdkpCallThreadNotifications_def Let_def fold_notify_modules)
  qed
qed

definition demo_attached :: module_machine where
  "demo_attached = demo_loaded\<lparr>mm_State :=
     ml_update 8 (\<lambda>m. m\<lparr>md_Flags := md_Flags m OR LDK_MODULE_FLAG_PROCESS_ATTACHED\<rparr>) (mm_State demo_loaded)\<rparr>"

lemma demo_attached_reach: "reach module_init module_step demo_attached"
  unfolding demo_attached_def by (rule reach_step [OF demo_loaded_reach module_step.flags]) simp

theorem thread_notifications_witness:
  "ml_inv (mm_Ext demo_attached) {#} (ns_Modules (LdkpCallThreadNotifications True True (\<lambda>_. no_tls) (\<lambda>_. None) (\<lambda>_. 0) 1
     DLL_THREAD_ATTACH \<lparr>ns_Modules = mm_State demo_attached, ns_Tls = static_start, ns_Calls = []\<rparr>)) \<and>
   fst (snd (LdkpReferenceProcessAttachedModuleSnapshot True 0 (mm_State demo_attached))) = [8]"
proof -
  have "\<forall>a\<in>set (ml_ModuleListHead (mm_State demo_attached)). md_LoadCount (ml_Module (mm_State demo_attached) a) < MAXLONG"
    by (simp add: demo_attached_def demo_eval)
  moreover have "mm_Tasks demo_attached = {#}" "mm_Faults demo_attached = []"
    by (simp_all add: demo_attached_def demo_eval)
  moreover have "fst (snd (LdkpReferenceProcessAttachedModuleSnapshot True 0 (mm_State demo_attached))) = [8]"
    by (simp add: LdkpReferenceProcessAttachedModuleSnapshot_def snapshot_member_def Let_def demo_attached_def demo_eval)
  ultimately show ?thesis using thread_notifications [OF demo_attached_reach] by simp
qed

end
