(* ===== verification/ImageExports.thy ===== *)
theory ImageExports
  imports ModuleList
begin

text \<open>
  The lookup of exported routines (src/ldk.c): the binary search in the table of names
  (\<open>LdkpNameToOrdinal\<close>) and \<open>LdkGetProcedureAddress\<close> with its three forms: by name, by ordinal, and
  through a forwarder, which loads another library and looks the routine up there.
\<close>

abbreviation STATUS_INVALID_IMAGE_FORMAT' :: ntstatus where "STATUS_INVALID_IMAGE_FORMAT' \<equiv> 0xC000007B"

section \<open>The table of names\<close>

fun strcmp :: "string \<Rightarrow> string \<Rightarrow> int" where
  "strcmp [] [] = 0"
| "strcmp [] (d # ds) = -1"
| "strcmp (c # cs) [] = 1"
| "strcmp (c # cs) (d # ds) =
     (if c = d then strcmp cs ds else if (of_char c :: nat) < of_char d then -1 else 1)"

text \<open>The pointers into the two tables are what is left of the lists.\<close>

function LdkpNameToOrdinal :: "string \<Rightarrow> nat \<Rightarrow> string list \<Rightarrow> u16 list \<Rightarrow> u16" where
  "LdkpNameToOrdinal NameOfEntryPoint NumberOfNames NameTableBase NameOrdinalTableBase =
     (if NumberOfNames = 0 then - 1
      else
        let SplitIndex = NumberOfNames div 2;
            CompareResult = strcmp NameOfEntryPoint (NameTableBase ! SplitIndex)
        in if CompareResult = 0 then NameOrdinalTableBase ! SplitIndex
           else if NumberOfNames = 1 then - 1
           else if CompareResult < 0
             then LdkpNameToOrdinal NameOfEntryPoint SplitIndex NameTableBase NameOrdinalTableBase
             else LdkpNameToOrdinal NameOfEntryPoint (NumberOfNames - SplitIndex - 1)
                    (drop (SplitIndex + 1) NameTableBase) (drop (SplitIndex + 1) NameOrdinalTableBase))"
  by pat_completeness auto

termination
  by (relation "measure (\<lambda>(nm, n, ns, os). n)") auto

declare LdkpNameToOrdinal.simps [simp del]

lemma strcmp_0: "strcmp a b = 0 \<longleftrightarrow> a = b"
  by (induction a b rule: strcmp.induct) auto

lemma strcmp_less: "strcmp a b < 0 \<longleftrightarrow> a \<noteq> b \<and> \<not> strcmp b a < 0"
  by (induction a b rule: strcmp.induct) auto

lemma strcmp_trans: "strcmp a b < 0 \<Longrightarrow> strcmp b c < 0 \<Longrightarrow> strcmp a c < 0"
proof (induction a b arbitrary: c rule: strcmp.induct)
  case (4 x xs y ys)
  then show ?case by (cases c) (auto split: if_splits)
next
  case (2 d ds)
  then show ?case by (cases c) auto
qed auto

definition names_sorted :: "string list \<Rightarrow> bool" where
  "names_sorted ns \<longleftrightarrow> sorted_wrt (\<lambda>a b. strcmp a b < 0) ns"

lemma names_sorted_before:
  "names_sorted ns \<Longrightarrow> i < j \<Longrightarrow> j < length ns \<Longrightarrow> strcmp (ns ! i) (ns ! j) < 0"
  unfolding names_sorted_def by (rule sorted_wrt_nth_less)

lemma name_to_ordinal_step:
  assumes "\<forall>i j. i < j \<longrightarrow> j < N \<longrightarrow> strcmp (ns ! i) (ns ! j) < 0" and "i < N" and "h < N" and "ns ! i = nm"
  shows "i = h \<longleftrightarrow> strcmp nm (ns ! h) = 0" and "i < h \<longleftrightarrow> strcmp nm (ns ! h) < 0"
proof -
  have lt: "i < h \<Longrightarrow> strcmp nm (ns ! h) < 0" using assms by blast
  have gt: "h < i \<Longrightarrow> \<not> strcmp nm (ns ! h) < 0 \<and> strcmp nm (ns ! h) \<noteq> 0"
    using assms strcmp_less strcmp_0 by metis
  have eq: "i = h \<Longrightarrow> strcmp nm (ns ! h) = 0" using assms(4) by (simp add: strcmp_0)
  show "i = h \<longleftrightarrow> strcmp nm (ns ! h) = 0" and "i < h \<longleftrightarrow> strcmp nm (ns ! h) < 0"
    using lt gt eq by (metis less_irrefl nat_neq_iff)+
qed

lemma name_to_ordinal_unfold:
  assumes "N \<noteq> 0"
  shows "LdkpNameToOrdinal nm N ns os =
    (if strcmp nm (ns ! (N div 2)) = 0 then os ! (N div 2)
     else if N = 1 then - 1
     else if strcmp nm (ns ! (N div 2)) < 0 then LdkpNameToOrdinal nm (N div 2) ns os
     else LdkpNameToOrdinal nm (N - N div 2 - 1) (drop (N div 2 + 1) ns) (drop (N div 2 + 1) os))"
  using assms by (subst LdkpNameToOrdinal.simps) (simp only: Let_def if_False)

lemma name_to_ordinal_found:
  "\<forall>i j. i < j \<longrightarrow> j < N \<longrightarrow> strcmp (ns ! i) (ns ! j) < 0 \<Longrightarrow> N \<le> length ns \<Longrightarrow> N \<le> length os \<Longrightarrow>
     i < N \<Longrightarrow> ns ! i = nm \<Longrightarrow> LdkpNameToOrdinal nm N ns os = os ! i"
proof (induction N arbitrary: i ns os rule: less_induct)
  case (less N)
  let ?h = "N div 2"
  have h: "?h < N" and N: "N \<noteq> 0" using less.prems(4) by simp_all
  note step = name_to_ordinal_step [OF less.prems(1,4) h less.prems(5)]
  consider (eq) "i = ?h" | (lt) "i < ?h" | (gt) "?h < i" by linarith
  then show ?case
  proof cases
    case eq
    then show ?thesis using step(1) by (simp add: name_to_ordinal_unfold [OF N])
  next
    case lt
    have "LdkpNameToOrdinal nm ?h ns os = os ! i"
      by (rule less.IH [OF h]) (use less.prems h lt in simp_all)
    then show ?thesis using step lt by (auto simp: name_to_ordinal_unfold [OF N])
  next
    case gt
    have "LdkpNameToOrdinal nm (N - ?h - 1) (drop (?h + 1) ns) (drop (?h + 1) os) = drop (?h + 1) os ! (i - ?h - 1)"
      by (rule less.IH) (use less.prems h gt in simp_all)
    moreover have "drop (?h + 1) os ! (i - ?h - 1) = os ! i" using less.prems(3,4) gt by simp
    moreover have "N \<noteq> 1" "strcmp nm (ns ! ?h) \<noteq> 0" "\<not> strcmp nm (ns ! ?h) < 0"
      using step gt less.prems(4) by auto
    ultimately show ?thesis unfolding name_to_ordinal_unfold [OF N] by simp
  qed
qed

lemma name_to_ordinal_missing:
  "N \<le> length ns \<Longrightarrow> \<forall>i<N. ns ! i \<noteq> nm \<Longrightarrow> LdkpNameToOrdinal nm N ns os = - 1"
proof (induction N arbitrary: ns os rule: less_induct)
  case (less N)
  let ?h = "N div 2"
  show ?case
  proof (cases "N = 0")
    case True
    then show ?thesis by (subst LdkpNameToOrdinal.simps) simp
  next
    case False
    then have h: "?h < N" by simp
    then have ne: "strcmp nm (ns ! ?h) \<noteq> 0" using less.prems(2) by (metis strcmp_0)
    have "LdkpNameToOrdinal nm ?h ns os = - 1"
      by (rule less.IH [OF h]) (use less.prems h in simp_all)
    moreover have "LdkpNameToOrdinal nm (N - ?h - 1) (drop (?h + 1) ns) (drop (?h + 1) os) = - 1"
      by (rule less.IH) (use less.prems h in simp_all)
    ultimately show ?thesis using ne unfolding name_to_ordinal_unfold [OF False] by simp
  qed
qed

text \<open>C17: In a table whose names ascend, the search returns the ordinal that belongs to the name, and
  the value 0xFFFF exactly when the name is not in the table and no name has that ordinal.\<close>

theorem name_to_ordinal:
  assumes "names_sorted NameTable" and "length NameTable = N" and "length OrdinalTable = N"
  shows "(\<forall>i<N. NameTable ! i = nm \<longrightarrow> LdkpNameToOrdinal nm N NameTable OrdinalTable = OrdinalTable ! i) \<and>
    (nm \<notin> set NameTable \<longrightarrow> LdkpNameToOrdinal nm N NameTable OrdinalTable = - 1)"
  using name_to_ordinal_found [of N NameTable OrdinalTable _ nm] names_sorted_before [OF assms(1)]
    name_to_ordinal_missing [of N NameTable nm OrdinalTable] assms(2,3)
  by (auto simp: in_set_conv_nth)

section \<open>Looking a routine up\<close>

record export_directory =
  ed_Base :: u32
  ed_NumberOfFunctions :: u32
  ed_NumberOfNames :: u32
  ed_Functions :: "u32 list"
  ed_Names :: "string list"
  ed_NameOrdinals :: "u16 list"

text \<open>An export directory, where it lies in the image, and the strings of the image.\<close>

record image_exports =
  ie_Directory :: export_directory
  ie_Rva :: nat
  ie_Size :: nat
  ie_String :: "nat \<Rightarrow> string"

text \<open>What a handle stands for: a built-in module, an address that is not mapped, an image without and
  an image with an export directory.\<close>

datatype dll_view = BuiltIn "(string \<times> addr) list" | NotMapped | NoExports | Exports image_exports

text \<open>\<open>Inr\<close> gives whether the lookup was by ordinal, and the index of the routine.\<close>

definition export_index :: "export_directory \<Rightarrow> string option \<Rightarrow> u32 \<Rightarrow> ntstatus + bool \<times> nat" where
  "export_index d ProcedureName ProcedureNumber =
     (if ProcedureNumber \<noteq> 0 then
        let ExportOrdinal = ProcedureNumber AND 0xFFFF in
        if ExportOrdinal < ed_Base d \<or> ExportOrdinal \<ge> ed_Base d + ed_NumberOfFunctions d
        then Inl STATUS_ORDINAL_NOT_FOUND
        else Inr (True, unat (ExportOrdinal - ed_Base d))
      else case ProcedureName of
          None \<Rightarrow> Inl STATUS_INVALID_PARAMETER
        | Some nm \<Rightarrow>
            if length nm > 62 then Inl STATUS_INVALID_PARAMETER
            else
              let Ordinal = LdkpNameToOrdinal nm (unat (ed_NumberOfNames d)) (ed_Names d) (ed_NameOrdinals d)
              in if ucast Ordinal \<ge> ed_NumberOfFunctions d then Inl STATUS_PROCEDURE_NOT_FOUND
                 else Inr (False, unat Ordinal))"

text \<open>The libraries a lookup loads and frees.\<close>

datatype library_event = LibraryLoaded addr | LibraryFreed addr

text \<open>What the lookup uses of other code: \<open>_stricmp\<close>, the conversion of a name with its status, \<open>LoadLibraryW\<close>,
  \<open>RtlCharToInteger\<close>, the view of a handle, and the image base of the process.\<close>

record lookup_env =
  le_ieq :: "string \<Rightarrow> string \<Rightarrow> bool"
  le_convert :: "string \<Rightarrow> ntstatus"
  le_load :: "string \<Rightarrow> addr option"
  le_integer :: "string \<Rightarrow> ntstatus \<times> u32"
  le_view :: "addr \<Rightarrow> dll_view"
  le_ImageBase :: addr

text \<open>A forwarder names a library and a routine of it, with a dot between them.\<close>

definition forwarder_parts :: "string \<Rightarrow> (string \<times> string) option" where
  "forwarder_parts s =
     (if CHR ''.'' \<in> set s then
        let n = unat (of_nat (length (takeWhile (\<lambda>c. c \<noteq> CHR ''.'') s)) :: u16)
        in Some (take n s, drop (n + 1) s)
      else None)"

text \<open>The routine of a forwarder: by number when it starts with a hash sign.\<close>

definition forwarder_target :: "lookup_env \<Rightarrow> string \<Rightarrow> ntstatus + string option \<times> u32" where
  "forwarder_target env s =
     (if length s > 1 \<and> hd s = CHR ''#'' then
        (case le_integer env (tl s) of (st, n) \<Rightarrow> if \<not> NT_SUCCESS st then Inl st else Inr (None, n))
      else Inr (Some s, 0))"

text \<open>\<open>None\<close>: the fuel, the number of forwarders that are followed, is used up.\<close>

fun LdkGetProcedureAddress ::
  "lookup_env \<Rightarrow> nat \<Rightarrow> addr \<Rightarrow> string option \<Rightarrow> u32 \<Rightarrow> ((ntstatus \<times> addr option) \<times> library_event list) option" where
  "LdkGetProcedureAddress env 0 DllHandle ProcedureName ProcedureNumber = None"
| "LdkGetProcedureAddress env (Suc fuel) DllHandle ProcedureName ProcedureNumber =
     (let DllHandle = (if DllHandle = NULL then le_ImageBase env else DllHandle) in
      case le_view env DllHandle of
        BuiltIn FunctionTable \<Rightarrow>
          (case ProcedureName of
             None \<Rightarrow> Some ((STATUS_PROCEDURE_NOT_FOUND, None), [])
           | Some nm \<Rightarrow>
               (case List.find (\<lambda>f. le_ieq env (fst f) nm) FunctionTable of
                  None \<Rightarrow> Some ((STATUS_PROCEDURE_NOT_FOUND, None), [])
                | Some f \<Rightarrow> Some ((STATUS_SUCCESS, Some (snd f)), [])))
      | NotMapped \<Rightarrow> Some ((STATUS_INVALID_PARAMETER, None), [])
      | NoExports \<Rightarrow> Some ((STATUS_INVALID_PARAMETER, None), [])
      | Exports e \<Rightarrow>
          (case export_index (ie_Directory e) ProcedureName ProcedureNumber of
             Inl st \<Rightarrow> Some ((st, None), [])
           | Inr (LookupByOrdinal, Ordinal) \<Rightarrow>
               let FunctionRva = unat (ed_Functions (ie_Directory e) ! Ordinal) in
               if FunctionRva = 0 then
                 Some ((if LookupByOrdinal then STATUS_ORDINAL_NOT_FOUND else STATUS_PROCEDURE_NOT_FOUND, None), [])
               else if FunctionRva \<in> {ie_Rva e ..< ie_Rva e + ie_Size e} then
                 (case forwarder_parts (ie_String e FunctionRva) of
                    None \<Rightarrow> Some ((STATUS_INVALID_IMAGE_FORMAT', None), [])
                  | Some (library, routine) \<Rightarrow>
                      if \<not> NT_SUCCESS (le_convert env library) then Some ((le_convert env library, None), [])
                      else case le_load env library of
                          None \<Rightarrow> Some ((STATUS_UNSUCCESSFUL, None), [])
                        | Some hModule \<Rightarrow>
                            (case forwarder_target env routine of
                               Inl st \<Rightarrow> Some ((st, None), [LibraryLoaded hModule, LibraryFreed hModule])
                             | Inr (nm, num) \<Rightarrow>
                                 (case LdkGetProcedureAddress env fuel hModule nm num of
                                    None \<Rightarrow> None
                                  | Some ((st, a), ev) \<Rightarrow>
                                      Some ((st, a), LibraryLoaded hModule # ev @
                                        (if NT_SUCCESS st then [] else [LibraryFreed hModule])))))
               else Some ((STATUS_SUCCESS, Some (DllHandle + FunctionRva)), [])))"

section \<open>Properties of the lookup\<close>

definition exports_ok :: "export_directory \<Rightarrow> bool" where
  "exports_ok d \<longleftrightarrow> names_sorted (ed_Names d) \<and> length (ed_Names d) = unat (ed_NumberOfNames d) \<and>
     length (ed_NameOrdinals d) = unat (ed_NumberOfNames d) \<and> length (ed_Functions d) = unat (ed_NumberOfFunctions d)"

lemma word_offset_less:
  fixes x b n :: u32
  assumes "b \<le> x" and "x < b + n"
  shows "unat (x - b) < unat n"
proof -
  have "unat x < (unat b + unat n) mod 4294967296" using assms(2) by (simp add: word_less_nat_alt unat_word_ariths)
  also have "\<dots> \<le> unat b + unat n" by simp
  finally show ?thesis using assms(1) by (simp add: unat_sub word_le_nat_alt)
qed

lemma ordinal_less:
  fixes o' :: u16 and n :: u32
  shows "ucast o' < n \<longleftrightarrow> unat o' < unat n"
  using unsigned_less [of o', where 'a = nat]
  by (simp add: word_less_nat_alt unsigned_ucast_eq take_bit_nat_eq_self)

lemma minus_one_ordinal: "unat (- 1 :: u16) = 65535"
  by (simp add: unsigned_minus_1_eq_mask mask_eq_exp_minus_1)

text \<open>The index a lookup reads from the table of routines is below the number of routines, for a
  name and for an ordinal, even if the sum of base and number wraps.\<close>

theorem export_index_in_table:
  assumes "export_index d ProcedureName ProcedureNumber = Inr (by_ordinal, i)"
  shows "i < unat (ed_NumberOfFunctions d)"
proof (cases "ProcedureNumber = 0")
  case False
  then have "ed_Base d \<le> ProcedureNumber AND 0xFFFF" "ProcedureNumber AND 0xFFFF < ed_Base d + ed_NumberOfFunctions d"
    and "i = unat ((ProcedureNumber AND 0xFFFF) - ed_Base d)"
    using assms by (auto simp: export_index_def Let_def not_le not_less split: if_splits)
  then show ?thesis by (simp only: word_offset_less)
next
  case True
  then show ?thesis
    using assms by (auto simp: export_index_def Let_def not_le ordinal_less split: if_splits option.splits)
qed

lemma export_index_name:
  assumes "length nm \<le> 62"
  shows "export_index d (Some nm) 0 =
     (let Ordinal = unat (LdkpNameToOrdinal nm (unat (ed_NumberOfNames d)) (ed_Names d) (ed_NameOrdinals d))
      in if Ordinal < unat (ed_NumberOfFunctions d) then Inr (False, Ordinal) else Inl STATUS_PROCEDURE_NOT_FOUND)"
  using assms unfolding export_index_def Let_def by (simp add: ordinal_less flip: not_less)

text \<open>In a well-formed export directory with at most 65535 routines, a name of at most 62 characters
  that is exported gives the address of its routine, and one that is not exported is not found.\<close>

theorem procedure_by_name:
  assumes "le_view env h = Exports e" and "h \<noteq> NULL" and "exports_ok (ie_Directory e)"
    and "length nm \<le> 62" and "unat (ed_NumberOfFunctions (ie_Directory e)) \<le> 65535"
  shows "(\<forall>i < length (ed_Names (ie_Directory e)).
      let o' = unat (ed_NameOrdinals (ie_Directory e) ! i); rva = unat (ed_Functions (ie_Directory e) ! o') in
      ed_Names (ie_Directory e) ! i = nm \<and> o' < unat (ed_NumberOfFunctions (ie_Directory e)) \<and>
      rva \<notin> insert 0 {ie_Rva e ..< ie_Rva e + ie_Size e} \<longrightarrow>
      LdkGetProcedureAddress env (Suc fuel) h (Some nm) 0 = Some ((STATUS_SUCCESS, Some (h + rva)), [])) \<and>
    (nm \<notin> set (ed_Names (ie_Directory e)) \<longrightarrow>
      LdkGetProcedureAddress env (Suc fuel) h (Some nm) 0 = Some ((STATUS_PROCEDURE_NOT_FOUND, None), []))"
proof -
  let ?d = "ie_Directory e"
  let ?o = "LdkpNameToOrdinal nm (unat (ed_NumberOfNames ?d)) (ed_Names ?d) (ed_NameOrdinals ?d)"
  have n: "names_sorted (ed_Names ?d)" "length (ed_Names ?d) = unat (ed_NumberOfNames ?d)"
    "length (ed_NameOrdinals ?d) = unat (ed_NumberOfNames ?d)"
    using assms(3) by (simp_all add: exports_ok_def)
  have idx: "export_index ?d (Some nm) 0 =
      (if unat ?o < unat (ed_NumberOfFunctions ?d) then Inr (False, unat ?o) else Inl STATUS_PROCEDURE_NOT_FOUND)"
    using export_index_name [OF assms(4)] by (simp only: Let_def)
  have "?o = ed_NameOrdinals ?d ! i" if "i < length (ed_Names ?d)" "ed_Names ?d ! i = nm" for i
    using that n name_to_ordinal_found [of "unat (ed_NumberOfNames ?d)" "ed_Names ?d" "ed_NameOrdinals ?d" i nm]
      names_sorted_before [OF n(1)] by auto
  moreover have "unat ?o = 65535" if "nm \<notin> set (ed_Names ?d)"
  proof -
    have "?o = - 1" using that n(2) by (intro name_to_ordinal_missing) (auto simp: in_set_conv_nth)
    then show ?thesis by (simp only: minus_one_ordinal)
  qed
  ultimately show ?thesis using assms(1,2,5) idx by (auto simp: Let_def)
qed

text \<open>With more than 65535 routines the search's value for a missing name is taken for an index: every
  name that is not exported resolves to routine 65535.\<close>

theorem missing_name_resolved:
  assumes "exports_ok d" and "65535 < unat (ed_NumberOfFunctions d)" and "length nm \<le> 62" and "nm \<notin> set (ed_Names d)"
  shows "export_index d (Some nm) 0 = Inr (False, 65535)"
proof -
  have "LdkpNameToOrdinal nm (unat (ed_NumberOfNames d)) (ed_Names d) (ed_NameOrdinals d) = - 1"
    using assms(1,4) by (intro name_to_ordinal_missing) (auto simp: exports_ok_def in_set_conv_nth)
  then show ?thesis using assms(2) unfolding export_index_name [OF assms(3)] Let_def by (simp only: minus_one_ordinal if_True)
qed

lemma failure_codes:
  "\<not> NT_SUCCESS STATUS_ORDINAL_NOT_FOUND" "\<not> NT_SUCCESS STATUS_INVALID_IMAGE_FORMAT'"
  by (simp_all add: NT_SUCCESS_def)

lemma export_index_failure: "export_index d nm num = Inl st \<Longrightarrow> \<not> NT_SUCCESS st"
  by (auto simp: export_index_def Let_def failure_codes split: if_splits option.splits)

lemma forwarder_target_failure: "forwarder_target env s = Inl st \<Longrightarrow> \<not> NT_SUCCESS st"
  by (auto simp: forwarder_target_def split: if_splits prod.splits)

definition balanced :: "(ntstatus \<times> addr option) \<times> library_event list \<Rightarrow> bool" where
  "balanced r \<longleftrightarrow> (case r of ((st, a), ev) \<Rightarrow>
     (\<forall>x. count_list ev (LibraryFreed x) = (if NT_SUCCESS st then 0 else count_list ev (LibraryLoaded x))) \<and>
     (NT_SUCCESS st \<longleftrightarrow> a \<noteq> None))"

lemma balanced_failure: "\<not> NT_SUCCESS st \<Longrightarrow> balanced ((st, None), [])"
  by (simp add: balanced_def)

lemma forwarder_failure:
  "forwarder_target env s = Inl st \<Longrightarrow> balanced ((st, None), [LibraryLoaded h, LibraryFreed h])"
  using forwarder_target_failure by (auto simp: balanced_def)

lemma balanced_forward:
  "balanced ((st, a), ev) \<Longrightarrow> NT_SUCCESS st \<Longrightarrow> balanced ((st, a), LibraryLoaded h # ev)"
  "balanced ((st, a), ev) \<Longrightarrow> \<not> NT_SUCCESS st \<Longrightarrow> balanced ((st, a), LibraryLoaded h # ev @ [LibraryFreed h])"
  by (auto simp: balanced_def)

lemma lookup_balanced: "LdkGetProcedureAddress env fuel h nm num = Some r \<Longrightarrow> balanced r"
proof (induction fuel arbitrary: h nm num r)
  case (Suc fuel)
  define h' where "h' = (if h = NULL then le_ImageBase env else h)"
  show ?case
  proof (cases "le_view env h'")
    case (Exports e)
    show ?thesis
    proof (cases "export_index (ie_Directory e) nm num")
      case (Inl st)
      then show ?thesis using Suc.prems Exports balanced_failure export_index_failure [OF Inl] by (auto simp: h'_def Let_def)
    next
      case (Inr p)
      obtain by_ord i where p: "p = (by_ord, i)" by fastforce
      let ?rva = "unat (ed_Functions (ie_Directory e) ! i)"
      consider (missing) "?rva = 0" | (direct) "?rva \<noteq> 0" "?rva \<notin> {ie_Rva e ..< ie_Rva e + ie_Size e}"
        | (forward) "?rva \<noteq> 0" "?rva \<in> {ie_Rva e ..< ie_Rva e + ie_Size e}" by blast
      then show ?thesis
      proof cases
        case forward
        then have r: "(case forwarder_parts (ie_String e ?rva) of
                    None \<Rightarrow> Some ((STATUS_INVALID_IMAGE_FORMAT', None), [])
                  | Some (library, routine) \<Rightarrow>
                      if \<not> NT_SUCCESS (le_convert env library) then Some ((le_convert env library, None), [])
                      else case le_load env library of
                          None \<Rightarrow> Some ((STATUS_UNSUCCESSFUL, None), [])
                        | Some hModule \<Rightarrow>
                            (case forwarder_target env routine of
                               Inl st \<Rightarrow> Some ((st, None), [LibraryLoaded hModule, LibraryFreed hModule])
                             | Inr (nm, num) \<Rightarrow>
                                 (case LdkGetProcedureAddress env fuel hModule nm num of
                                    None \<Rightarrow> None
                                  | Some ((st, a), ev) \<Rightarrow>
                                      Some ((st, a), LibraryLoaded hModule # ev @
                                        (if NT_SUCCESS st then [] else [LibraryFreed hModule]))))) = Some r"
          using Suc.prems Exports Inr unfolding p by (simp add: h'_def Let_def)
        show ?thesis
          using r Suc.IH
          by (auto split: option.splits prod.splits sum.splits if_splits intro: balanced_failure balanced_forward
            simp: failure_codes forwarder_failure)
      qed (use Suc.prems Exports Inr p in \<open>auto simp: h'_def Let_def balanced_def failure_codes split: if_splits\<close>)
    qed
  qed (use Suc.prems in \<open>auto simp: h'_def Let_def balanced_def split: option.splits\<close>)
qed simp

text \<open>A lookup that fails frees every library it loaded for a forwarder, and one that succeeds frees
  none: it leaves one reference on each library of the chain, which nothing records for a later release.\<close>

theorem forwarder_references:
  assumes "LdkGetProcedureAddress env fuel h nm num = Some ((st, a), ev)"
  shows "(\<forall>x. count_list ev (LibraryFreed x) = (if NT_SUCCESS st then 0 else count_list ev (LibraryLoaded x))) \<and>
   (NT_SUCCESS st \<longleftrightarrow> a \<noteq> None)"
  using lookup_balanced assms unfolding balanced_def by blast

section \<open>Examples\<close>

definition example_directory :: export_directory where
  "example_directory = \<lparr>ed_Base = 1, ed_NumberOfFunctions = 2, ed_NumberOfNames = 2, ed_Functions = [16, 32],
     ed_Names = [''A'', ''B''], ed_NameOrdinals = [1, 0]\<rparr>"

definition example_env :: lookup_env where
  "example_env = \<lparr>le_ieq = (=), le_convert = (\<lambda>_. STATUS_SUCCESS), le_load = (\<lambda>_. Some 9000),
     le_integer = (\<lambda>_. (STATUS_UNSUCCESSFUL, 0)),
     le_view = (\<lambda>h. if h = 9000 then BuiltIn [(''F'', 77)]
       else Exports \<lparr>ie_Directory = example_directory, ie_Rva = 32, ie_Size = 8, ie_String = (\<lambda>_. ''K.F'')\<rparr>),
     le_ImageBase = 4096\<rparr>"

lemma example_directory_ok: "exports_ok example_directory"
  by (simp add: exports_ok_def example_directory_def names_sorted_def)

theorem name_to_ordinal_witness:
  "LdkpNameToOrdinal ''B'' 2 [''A'', ''B''] [1, 0] = 0 \<and> LdkpNameToOrdinal ''C'' 2 [''A'', ''B''] [1, 0] = - 1"
proof -
  have s: "names_sorted [''A'', ''B'']" by (simp add: names_sorted_def)
  have l: "length [''A'', ''B''] = 2" "length [1, 0 :: u16] = 2" by simp_all
  have one: "(1 :: nat) < 2" by simp
  show ?thesis
    using name_to_ordinal [OF s l, of "''B''"] name_to_ordinal [OF s l, of "''C''"] one by fastforce
qed

theorem export_index_in_table_witness:
  "export_index example_directory None 2 = Inr (True, 1) \<and> (1 :: nat) < unat (ed_NumberOfFunctions example_directory)"
proof -
  have "export_index example_directory None 2 = Inr (True, 1)"
    by (simp add: export_index_def example_directory_def Let_def)
  with export_index_in_table [OF this] show ?thesis by simp
qed

theorem procedure_by_name_witness:
  "LdkGetProcedureAddress example_env 1 8192 (Some ''B'') 0 = Some ((STATUS_SUCCESS, Some (8192 + 16)), [])"
proof -
  let ?e = "\<lparr>ie_Directory = example_directory, ie_Rva = 32, ie_Size = 8, ie_String = (\<lambda>_. ''K.F'')\<rparr>"
  have v: "le_view example_env 8192 = Exports ?e" by (simp add: example_env_def)
  have "length ''B'' \<le> 62" and "unat (ed_NumberOfFunctions example_directory) \<le> 65535"
    by (simp_all add: example_directory_def)
  note p = procedure_by_name [OF v _ _ this(1), of 0, unfolded image_exports.simps, OF _ example_directory_ok this(2),
      THEN conjunct1, rule_format, of 1]
  show ?thesis using p by (simp add: example_directory_def Let_def)
qed

theorem missing_name_resolved_witness:
  "export_index (example_directory\<lparr>ed_NumberOfFunctions := 65536, ed_Functions := replicate 65536 4\<rparr>) (Some ''Z'') 0 =
     Inr (False, 65535)"
proof -
  have "exports_ok (example_directory\<lparr>ed_NumberOfFunctions := 65536, ed_Functions := replicate 65536 4\<rparr>)"
    using example_directory_ok unfolding exports_ok_def
    by (simp add: example_directory_def)
  then show ?thesis
    by (rule missing_name_resolved) (simp_all add: example_directory_def)
qed

lemma example_env_simps:
  "le_view example_env 8192 =
     Exports \<lparr>ie_Directory = example_directory, ie_Rva = 32, ie_Size = 8, ie_String = (\<lambda>_. ''K.F'')\<rparr>"
  "le_view example_env 9000 = BuiltIn [(''F'', 77)]" "le_load example_env l = Some 9000"
  "le_convert example_env l = STATUS_SUCCESS" "le_ieq example_env = (=)"
  by (simp_all add: example_env_def)

theorem forwarder_references_witness:
  "LdkGetProcedureAddress example_env (Suc (Suc 0)) 8192 (Some ''A'') 0 =
     Some ((STATUS_SUCCESS, Some 77), [LibraryLoaded 9000]) \<and>
   count_list [LibraryLoaded 9000] (LibraryFreed 9000) = 0"
proof -
  have i: "export_index example_directory (Some ''A'') 0 = Inr (False, 1)"
    using name_to_ordinal_found [of 2 "[''A'', ''B'']" "[1, 0]" 0 "''A''"] names_sorted_before [of "[''A'', ''B'']"]
    by (subst export_index_name) (auto simp: example_directory_def names_sorted_def Let_def)
  have rva: "ed_Functions example_directory ! Suc 0 = 32" by (simp add: example_directory_def)
  have parts: "forwarder_parts ''K.F'' = Some (''K'', ''F'')" by (simp add: forwarder_parts_def Let_def)
  have inner: "LdkGetProcedureAddress example_env (Suc 0) 9000 (Some ''F'') 0 = Some ((STATUS_SUCCESS, Some 77), [])"
    by (simp add: example_env_simps Let_def)
  have r: "LdkGetProcedureAddress example_env (Suc (Suc 0)) 8192 (Some ''A'') 0 =
      Some ((STATUS_SUCCESS, Some 77), [LibraryLoaded 9000])"
    unfolding LdkGetProcedureAddress.simps(2) [of _ "Suc 0"]
    by (simp add: example_env_simps i rva parts inner forwarder_target_def Let_def del: LdkGetProcedureAddress.simps)
  with forwarder_references [OF r] show ?thesis by simp
qed

end
