(* ===== verification/ImageRelocation.thy ===== *)
theory ImageRelocation
  imports Prelude
begin

text \<open>
  Relocating a loaded image (src/ldk.c, \<open>LdkpRelocateImage\<close>): the blocks of the relocation table are
  walked in the memory of the image itself, and the difference between the actual and the preferred
  base is added to the 64-bit word at every site. Addresses are offsets from the base of the image.
\<close>

section \<open>Little-endian memory\<close>

type_synonym image = "nat \<Rightarrow> u8"

fun read_le :: "nat \<Rightarrow> image \<Rightarrow> nat \<Rightarrow> nat" where
  "read_le 0 m a = 0"
| "read_le (Suc n) m a = unat (m a) + 256 * read_le n m (Suc a)"

fun write_le :: "nat \<Rightarrow> image \<Rightarrow> nat \<Rightarrow> nat \<Rightarrow> image" where
  "write_le 0 m a v = m"
| "write_le (Suc n) m a v = write_le n (m(a := of_nat (v mod 256))) (Suc a) (v div 256)"

lemma write_le_other: "x < a \<or> a + n \<le> x \<Longrightarrow> write_le n m a v x = m x"
  by (induction n arbitrary: m a v) auto

lemma read_le_cong: "(\<And>x. a \<le> x \<Longrightarrow> x < a + n \<Longrightarrow> m' x = m x) \<Longrightarrow> read_le n m' a = read_le n m a"
  by (induction n arbitrary: a) auto

lemma unat_byte: "unat (of_nat (v mod 256) :: u8) = v mod 256"
  by (simp add: unsigned_of_nat take_bit_eq_mod)

lemma read_write_le: "read_le n (write_le n m a v) a = v mod 256 ^ n"
proof (induction n arbitrary: m a v)
  case (Suc n)
  have "write_le n (m(a := of_nat (v mod 256))) (Suc a) (v div 256) a = of_nat (v mod 256)"
    by (simp add: write_le_other)
  then have "read_le (Suc n) (write_le (Suc n) m a v) a = v mod 256 + 256 * (v div 256 mod 256 ^ n)"
    using Suc.IH by (simp add: unat_byte)
  also have "\<dots> = v mod (256 * 256 ^ n)" by (simp add: mod_mult2_eq)
  finally show ?case by simp
qed simp

lemma read_le_write_other:
  "a + n \<le> b \<or> b + k \<le> a \<Longrightarrow> read_le n (write_le k m b v) a = read_le n m a"
  by (rule read_le_cong) (auto intro: write_le_other)

section \<open>The walk over the table\<close>

text \<open>The site of an entry, as 32-bit sum of the page and the offset.\<close>

definition fixup_site :: "nat \<Rightarrow> nat \<Rightarrow> nat" where
  "fixup_site VirtualAddress entry = (VirtualAddress + entry mod 4096) mod 2 ^ 32"

definition apply_fixup :: "nat \<Rightarrow> nat \<Rightarrow> image \<Rightarrow> image" where
  "apply_fixup Diff site m = write_le 8 m site (read_le 8 m site + Diff)"

text \<open>The inner loop over \<open>n\<close> entries at \<open>p\<close>.\<close>

fun relocate_entries :: "nat \<Rightarrow> nat \<Rightarrow> nat \<Rightarrow> nat \<Rightarrow> image \<Rightarrow> image" where
  "relocate_entries Diff VirtualAddress 0 p m = m"
| "relocate_entries Diff VirtualAddress (Suc n) p m =
     (let entry = read_le 2 m p in
      relocate_entries Diff VirtualAddress n (p + 2)
        (if entry \<noteq> 0 then apply_fixup Diff (fixup_site VirtualAddress entry) m else m))"

text \<open>The outer loop, with the number of blocks as fuel. The page is read again for every entry, but the
  blocks of a table that does not relocate itself do not change.\<close>

fun relocate_blocks :: "nat \<Rightarrow> nat \<Rightarrow> nat \<Rightarrow> image \<Rightarrow> image option" where
  "relocate_blocks 0 Diff NextBlock m = None"
| "relocate_blocks (Suc fuel) Diff NextBlock m =
     (let VirtualAddress = read_le 4 m NextBlock; SizeOfBlock = read_le 4 m (NextBlock + 4) in
      if VirtualAddress = 0 then Some m
      else
        let m1 = (if SizeOfBlock \<ge> 8
                  then relocate_entries Diff VirtualAddress ((SizeOfBlock - 8) div 2) (NextBlock + 8) m else m)
        in if SizeOfBlock = 0 then Some m1 else relocate_blocks fuel Diff (NextBlock + SizeOfBlock) m1)"

text \<open>\<open>entry\<close> is the data directory entry: the offset of the table and its size.\<close>

definition LdkpRelocateImage :: "nat \<Rightarrow> nat \<Rightarrow> nat \<Rightarrow> (nat \<times> nat) option \<Rightarrow> image \<Rightarrow> image option" where
  "LdkpRelocateImage fuel ImageBase PreferredBase entry m =
     (case entry of
        None \<Rightarrow> Some m
      | Some (NextBlock, BaseRelocSize) \<Rightarrow>
          if BaseRelocSize = 0 then Some m
          else relocate_blocks fuel ((ImageBase + 2 ^ 64 - PreferredBase) mod 2 ^ 64) NextBlock m)"

section \<open>What it computes\<close>

text \<open>A table as data: for each page its entries.\<close>

type_synonym reloc_table = "(nat \<times> nat list) list"

definition block_size :: "nat list \<Rightarrow> nat" where
  "block_size es = 8 + 2 * length es"

fun entries_at :: "image \<Rightarrow> nat \<Rightarrow> nat list \<Rightarrow> bool" where
  "entries_at m p [] \<longleftrightarrow> True"
| "entries_at m p (e # es) \<longleftrightarrow> read_le 2 m p = e \<and> entries_at m (p + 2) es"

fun table_at :: "image \<Rightarrow> nat \<Rightarrow> reloc_table \<Rightarrow> bool" where
  "table_at m p [] \<longleftrightarrow> read_le 4 m p = 0"
| "table_at m p ((va, es) # bs) \<longleftrightarrow> va \<noteq> 0 \<and> read_le 4 m p = va \<and> read_le 4 m (p + 4) = block_size es \<and>
     entries_at m (p + 8) es \<and> table_at m (p + block_size es) bs"

definition table_length :: "reloc_table \<Rightarrow> nat" where
  "table_length bs = (\<Sum>(va, es)\<leftarrow>bs. block_size es) + 4"

definition block_sites :: "nat \<Rightarrow> nat list \<Rightarrow> nat list" where
  "block_sites va es = map (fixup_site va) (filter (\<lambda>e. e \<noteq> 0) es)"

definition sites :: "reloc_table \<Rightarrow> nat list" where
  "sites bs = concat (map (\<lambda>(va, es). block_sites va es) bs)"

text \<open>A fix-up does not touch the bytes in a range that its site is apart from.\<close>

definition apart :: "nat \<Rightarrow> nat \<Rightarrow> nat \<Rightarrow> bool" where
  "apart site p n \<longleftrightarrow> site + 8 \<le> p \<or> p + n \<le> site"

lemma apply_fixup_other: "x < site \<or> site + 8 \<le> x \<Longrightarrow> apply_fixup d site m x = m x"
  unfolding apply_fixup_def by (rule write_le_other) auto

lemma read_fixup_other: "apart site p n \<Longrightarrow> read_le n (apply_fixup d site m) p = read_le n m p"
  unfolding apply_fixup_def apart_def by (rule read_le_write_other) auto

lemma read_fixup_same: "read_le 8 (apply_fixup d site m) site = (read_le 8 m site + d) mod 2 ^ 64"
  unfolding apply_fixup_def by (simp add: read_write_le)

lemma entries_at_cong: "(\<And>x. p \<le> x \<Longrightarrow> x < p + 2 * length es \<Longrightarrow> m' x = m x) \<Longrightarrow> entries_at m' p es = entries_at m p es"
proof (induction es arbitrary: p)
  case (Cons e es)
  have "read_le 2 m' p = read_le 2 m p" by (rule read_le_cong) (use Cons.prems in auto)
  moreover have "entries_at m' (p + 2) es = entries_at m (p + 2) es" by (rule Cons.IH) (use Cons.prems in auto)
  ultimately show ?case by simp
qed simp

lemma table_length_Cons [simp]: "table_length ((va, es) # bs) = block_size es + table_length bs"
  by (simp add: table_length_def)

lemma table_length_pos: "4 \<le> table_length bs"
  by (simp add: table_length_def)

lemma table_at_cong:
  "(\<And>x. p \<le> x \<Longrightarrow> x < p + table_length bs \<Longrightarrow> m' x = m x) \<Longrightarrow> table_at m' p bs = table_at m p bs"
proof (induction bs arbitrary: p)
  case Nil
  have "read_le 4 m' p = read_le 4 m p" by (rule read_le_cong) (use Nil in \<open>auto simp: table_length_def\<close>)
  then show ?case by simp
next
  case (Cons b bs)
  obtain va es where b: "b = (va, es)" by fastforce
  have "read_le 4 m' p = read_le 4 m p" "read_le 4 m' (p + 4) = read_le 4 m (p + 4)"
    by (rule read_le_cong; use Cons.prems b in \<open>auto simp: block_size_def\<close>)+
  moreover have "entries_at m' (p + 8) es = entries_at m (p + 8) es"
    by (rule entries_at_cong) (use Cons.prems b in \<open>auto simp: block_size_def\<close>)
  moreover have "table_at m' (p + block_size es) bs = table_at m (p + block_size es) bs"
    by (rule Cons.IH) (use Cons.prems b in auto)
  ultimately show ?case by (simp add: b)
qed

lemma fold_fixup_other:
  "(\<And>s. s \<in> set ss \<Longrightarrow> x < s \<or> s + 8 \<le> x) \<Longrightarrow> fold (apply_fixup d) ss m x = m x"
  by (induction ss arbitrary: m) (auto simp: apply_fixup_other)

lemma relocate_entries_fold:
  "entries_at m p es \<Longrightarrow> \<forall>s\<in>set (block_sites va es). apart s p (2 * length es) \<Longrightarrow>
     relocate_entries d va (length es) p m = fold (apply_fixup d) (block_sites va es) m"
proof (induction es arbitrary: p m)
  case (Cons e es)
  show ?case
  proof (cases "e = 0")
    case True
    have "relocate_entries d va (length es) (p + 2) m = fold (apply_fixup d) (block_sites va es) m"
      by (rule Cons.IH) (use Cons.prems True in \<open>auto simp: block_sites_def apart_def\<close>)
    then show ?thesis using Cons.prems True by (simp add: block_sites_def)
  next
    case False
    let ?m = "apply_fixup d (fixup_site va e) m"
    have "entries_at ?m (p + 2) es = entries_at m (p + 2) es"
      by (rule entries_at_cong, rule apply_fixup_other) (use Cons.prems(2) False in \<open>auto simp: block_sites_def apart_def\<close>)
    then have "relocate_entries d va (length es) (p + 2) ?m = fold (apply_fixup d) (block_sites va es) ?m"
      by (intro Cons.IH) (use Cons.prems False in \<open>auto simp: block_sites_def apart_def\<close>)
    then show ?thesis using Cons.prems False by (simp add: block_sites_def)
  qed
qed (simp add: block_sites_def)

lemma relocate_blocks_fold:
  "table_at m p bs \<Longrightarrow> \<forall>s\<in>set (sites bs). apart s p (table_length bs) \<Longrightarrow> length bs < fuel \<Longrightarrow>
     relocate_blocks fuel d p m = Some (fold (apply_fixup d) (sites bs) m)"
proof (induction bs arbitrary: p m fuel)
  case Nil
  then show ?case by (cases fuel) (simp_all add: sites_def)
next
  case (Cons b bs)
  obtain va es where b: "b = (va, es)" by fastforce
  obtain f where f: "fuel = Suc f" "length bs < f" using Cons.prems(3) by (cases fuel) auto
  have ss: "sites (b # bs) = block_sites va es @ sites bs" by (simp add: sites_def b)
  have ap: "\<forall>s\<in>set (block_sites va es). apart s (p + 8) (2 * length es)"
  proof
    fix s assume "s \<in> set (block_sites va es)"
    then have "apart s p (table_length (b # bs))" using Cons.prems(2) by (simp add: ss)
    then show "apart s (p + 8) (2 * length es)" by (simp add: apart_def b block_size_def) linarith
  qed
  let ?m = "fold (apply_fixup d) (block_sites va es) m"
  have e: "relocate_entries d va (length es) (p + 8) m = ?m"
    by (rule relocate_entries_fold [OF _ ap]) (use Cons.prems(1) b in simp)
  have "table_at ?m (p + block_size es) bs = table_at m (p + block_size es) bs"
  proof (rule table_at_cong, rule fold_fixup_other)
    fix x s assume x: "p + block_size es \<le> x" "x < p + block_size es + table_length bs"
      and "s \<in> set (block_sites va es)"
    then have "apart s p (table_length (b # bs))" using Cons.prems(2) by (simp add: ss)
    then show "x < s \<or> s + 8 \<le> x" using x by (simp add: apart_def b) linarith
  qed
  then have "relocate_blocks f d (p + block_size es) ?m = Some (fold (apply_fixup d) (sites bs) ?m)"
  proof (intro Cons.IH)
    show "\<forall>s\<in>set (sites bs). apart s (p + block_size es) (table_length bs)"
    proof
      fix s assume "s \<in> set (sites bs)"
      then have "apart s p (table_length (b # bs))" using Cons.prems(2) by (simp add: ss)
      then show "apart s (p + block_size es) (table_length bs)" by (simp add: apart_def b) linarith
    qed
  qed (use Cons.prems(1) f(2) b in auto)
  moreover have "relocate_blocks fuel d p m = relocate_blocks f d (p + block_size es) ?m"
    using Cons.prems(1) b e by (simp add: f Let_def block_size_def)
  ultimately show ?case by (simp add: ss)
qed

lemma fold_fixup_site:
  "\<forall>x\<in>set ss. \<forall>y\<in>set ss. x \<noteq> y \<longrightarrow> apart x y 8 \<Longrightarrow> distinct ss \<Longrightarrow> s \<in> set ss \<Longrightarrow>
     read_le 8 (fold (apply_fixup d) ss m) s = (read_le 8 m s + d) mod 2 ^ 64"
proof (induction ss arbitrary: m)
  case (Cons t ss)
  show ?case
  proof (cases "t = s")
    case True
    have "read_le 8 (fold (apply_fixup d) ss (apply_fixup d s m)) s = read_le 8 (apply_fixup d s m) s"
      by (rule read_le_cong, rule fold_fixup_other) (use Cons.prems True in \<open>force simp: apart_def\<close>)
    then show ?thesis using True by (simp add: read_fixup_same)
  next
    case False
    then have "s \<in> set ss" using Cons.prems(3) by simp
    then have "read_le 8 (fold (apply_fixup d) ss (apply_fixup d t m)) s = (read_le 8 (apply_fixup d t m) s + d) mod 2 ^ 64"
      using Cons.IH Cons.prems by simp
    moreover have "apart t s 8" using Cons.prems False by simp
    ultimately show ?thesis by (simp add: read_fixup_other)
  qed
qed simp

text \<open>C18: For a relocation table that does not relocate itself and whose sites do not overlap, the walk
  ends at the terminating page, adds the difference of the bases to the word at every site, modulo
  \<open>2 ^ 64\<close>, and changes no other byte.\<close>

theorem relocate_image:
  assumes "table_at m p bs" and "\<forall>s\<in>set (sites bs). apart s p (table_length bs)"
    and "\<forall>x\<in>set (sites bs). \<forall>y\<in>set (sites bs). x \<noteq> y \<longrightarrow> apart x y 8" and "distinct (sites bs)"
    and "BaseRelocSize \<noteq> 0" and "PreferredBase < 2 ^ 64" and "ImageBase < 2 ^ 64"
  shows "\<exists>m'. LdkpRelocateImage (Suc (length bs)) ImageBase PreferredBase (Some (p, BaseRelocSize)) m = Some m' \<and>
    (\<forall>s\<in>set (sites bs). int (read_le 8 m' s) = (int (read_le 8 m s) + int ImageBase - int PreferredBase) mod 2 ^ 64) \<and>
    (\<forall>x. (\<forall>s\<in>set (sites bs). x < s \<or> s + 8 \<le> x) \<longrightarrow> m' x = m x)"
proof -
  let ?d = "(ImageBase + 2 ^ 64 - PreferredBase) mod 2 ^ 64"
  let ?m = "fold (apply_fixup ?d) (sites bs) m"
  have r: "LdkpRelocateImage (Suc (length bs)) ImageBase PreferredBase (Some (p, BaseRelocSize)) m = Some ?m"
    using relocate_blocks_fold [OF assms(1,2), of "Suc (length bs)" ?d] assms(5) by (simp add: LdkpRelocateImage_def)
  have "int (read_le 8 ?m s) = (int (read_le 8 m s) + int ImageBase - int PreferredBase) mod 2 ^ 64"
    if "s \<in> set (sites bs)" for s
  proof -
    have "int ?d = (int ImageBase - int PreferredBase + 2 ^ 64) mod 2 ^ 64"
      using assms(6) by (simp add: zmod_int of_nat_diff algebra_simps)
    then have d: "int ?d = (int ImageBase - int PreferredBase) mod 2 ^ 64" by simp
    have "int (read_le 8 ?m s) = (int (read_le 8 m s) + int ?d) mod 2 ^ 64"
      using fold_fixup_site [OF assms(3,4) that, of ?d m] by (simp add: zmod_int)
    then show ?thesis unfolding d by (simp add: mod_add_right_eq algebra_simps)
  qed
  then show ?thesis using r fold_fixup_other [of "sites bs"] by blast
qed

text \<open>A table of one page with one site and a padding entry, at offset 100.\<close>

definition example_image :: image where
  "example_image = (\<lambda>_. 0)(101 := 16, 104 := 12, 108 := 16, 109 := 160, 4112 := 5)"

lemma read_le_2: "read_le 2 m a = unat (m a) + 256 * unat (m (Suc a))"
  unfolding numeral_2_eq_2 by simp

lemma read_le_4: "read_le 4 m a =
    unat (m a) + 256 * (unat (m (Suc a)) + 256 * (unat (m (Suc (Suc a))) + 256 * unat (m (Suc (Suc (Suc a))))))"
proof -
  have four: "(4 :: nat) = Suc (Suc (Suc (Suc 0)))" by simp
  show ?thesis unfolding four by simp
qed

lemma example_image_site: "read_le 8 example_image 4112 = 5"
proof -
  have eight: "(8 :: nat) = Suc (Suc (Suc (Suc (Suc (Suc (Suc (Suc 0)))))))" by simp
  show ?thesis unfolding eight by (simp add: example_image_def)
qed

lemma example_image_table:
  "table_at example_image 100 [(4096, [40976, 0])]" "sites [(4096, [40976, 0])] = [4112]"
  by (simp_all add: example_image_def read_le_2 read_le_4 block_size_def sites_def block_sites_def fixup_site_def)

theorem relocate_image_witness:
  "\<exists>m'. LdkpRelocateImage 2 8192 4096 (Some (100, 12)) example_image = Some m' \<and> int (read_le 8 m' 4112) = 4101"
proof -
  have "\<exists>m'. LdkpRelocateImage (Suc (length [(4096 :: nat, [40976 :: nat, 0])])) 8192 4096 (Some (100, 12)) example_image =
        Some m' \<and>
      (\<forall>s\<in>set (sites [(4096, [40976, 0])]). int (read_le 8 m' s) =
         (int (read_le 8 example_image s) + int 8192 - int 4096) mod 2 ^ 64) \<and>
      (\<forall>x. (\<forall>s\<in>set (sites [(4096, [40976, 0])]). x < s \<or> s + 8 \<le> x) \<longrightarrow> m' x = example_image x)"
    by (rule relocate_image [OF example_image_table(1)])
      (simp_all add: example_image_table(2) apart_def table_length_def block_size_def)
  then show ?thesis by (auto simp: example_image_table example_image_site numeral_2_eq_2)
qed

end
