(* ===== verification/ImageLoading.thy ===== *)
theory ImageLoading
  imports ModuleReferences
begin

text \<open>
  Loading a library (src/ldk.c): \<open>LdkLoadDll\<close> looks for a loaded module of the name, maps the file,
  resolves its imports, which loads further libraries, and registers the image. The recursion through
  the imports has the depth of the chain of libraries as fuel.
\<close>

abbreviation STATUS_OBJECT_NAME_INVALID :: ntstatus where "STATUS_OBJECT_NAME_INVALID \<equiv> 0xC0000033"
abbreviation STATUS_DLL_INIT_FAILED :: ntstatus where "STATUS_DLL_INIT_FAILED \<equiv> 0xC0000142"

section \<open>Images as the loader reads them\<close>

text \<open>An entry of an import table, by ordinal or by name, and a descriptor with its entries. An array of
  bound descriptors has the names and the numbers of forwarder references behind each; the last entry
  has no name.\<close>

datatype import_thunk = ImportOrdinal u16 | ImportName string

record import_descriptor =
  id_Name :: string
  id_Thunks :: "import_thunk list"

record loaded_image =
  li_Bound :: "(string option \<times> nat) list option"
  li_Imports :: "import_descriptor list option"
  li_Size :: u32

text \<open>What loading uses of other code: \<open>_stricmp\<close>, the two conversions of names, the search for the file
  with its full and base name, the reading of the image, the pool for images, modules and dependency
  entries, the lookup of a routine (\<open>NULL\<close> if it is not found), the set-up of the TLS of the module,
  and the entry point of the image.\<close>

record load_env =
  le_ieq :: "string \<Rightarrow> string \<Rightarrow> bool"
  le_ansi :: "string \<Rightarrow> ntstatus + string"
  le_unicode :: "string \<Rightarrow> ntstatus + string"
  le_file :: "string \<Rightarrow> ntstatus + string \<times> string"
  le_image :: "string \<Rightarrow> ntstatus + loaded_image"
  le_base :: "module_state \<Rightarrow> addr option"
  le_module :: "module_state \<Rightarrow> addr option"
  le_pool :: bool
  le_routine :: "module_state \<Rightarrow> addr \<Rightarrow> import_thunk \<Rightarrow> addr"
  le_tls :: "addr \<Rightarrow> ntstatus"
  le_entry :: "addr \<Rightarrow> bool"

section \<open>Imports\<close>

text \<open>The loader itself is passed as \<open>load\<close>; \<open>None\<close> is the loader running out of fuel.\<close>

type_synonym loader = "string \<Rightarrow> module_state \<Rightarrow> ((ntstatus + addr) \<times> module_state) option"

definition release_handle :: "addr \<Rightarrow> module_state \<Rightarrow> module_state" where
  "release_handle h s = snd (LdkUnloadDll h s)"

definition add_import_dependency ::
  "load_env \<Rightarrow> addr \<Rightarrow> bool \<Rightarrow> addr list \<Rightarrow> module_state \<Rightarrow> (ntstatus + addr) \<times> addr list \<times> module_state" where
  "add_import_dependency env a IncrementLoadCount deps s =
     (case LdkpAddModuleDependency (le_pool env) (Some deps) a IncrementLoadCount s of
        (st, deps', s1) \<Rightarrow>
          if \<not> NT_SUCCESS st then
            (Inl st, deps, if \<not> IncrementLoadCount then release_handle (md_handle s1 a) s1 else s1)
          else (Inr a, (case deps' of None \<Rightarrow> deps | Some ds \<Rightarrow> ds), s1))"

definition LdkpResolveImportModule ::
  "load_env \<Rightarrow> loader \<Rightarrow> string \<Rightarrow> addr list \<Rightarrow> module_state \<Rightarrow>
     ((ntstatus + addr) \<times> addr list \<times> module_state) option" where
  "LdkpResolveImportModule env load ModuleName deps s =
     (case LdkpGetModuleByName (le_ieq env) ModuleName s of
        Inr a \<Rightarrow> Some (add_import_dependency env a True deps s)
      | Inl _ \<Rightarrow>
          (case le_unicode env ModuleName of
             Inl st \<Rightarrow> Some (Inl st, deps, s)
           | Inr UnicodeModuleName \<Rightarrow>
               (case load UnicodeModuleName s of
                  None \<Rightarrow> None
                | Some (Inl st, s1) \<Rightarrow> Some (Inl st, deps, s1)
                | Some (Inr DllHandle, s1) \<Rightarrow>
                    (case LdkpGetModuleByBase DllHandle s1 of
                       Inr a \<Rightarrow> Some (add_import_dependency env a False deps s1)
                     | Inl _ \<Rightarrow>
                         (case LdkpGetModuleByName (le_ieq env) ModuleName s1 of
                            Inr a \<Rightarrow> Some (add_import_dependency env a False deps s1)
                          | Inl st \<Rightarrow> Some (Inl st, deps, release_handle DllHandle s1))))))"

text \<open>The entries of one descriptor: the status and the addresses stored so far.\<close>

fun snap_thunks :: "(import_thunk \<Rightarrow> addr) \<Rightarrow> import_thunk list \<Rightarrow> ntstatus \<times> addr list" where
  "snap_thunks routine [] = (STATUS_SUCCESS, [])"
| "snap_thunks routine (t # ts) =
     (if routine t = NULL then
        ((case t of ImportOrdinal _ \<Rightarrow> STATUS_ORDINAL_NOT_FOUND | ImportName _ \<Rightarrow> STATUS_PROCEDURE_NOT_FOUND), [NULL])
      else case snap_thunks routine ts of (st, as) \<Rightarrow> (st, routine t # as))"

type_synonym import_result = "(ntstatus \<times> addr list list \<times> addr list \<times> module_state) option"

fun LdkpBuildImportDescriptors ::
  "load_env \<Rightarrow> loader \<Rightarrow> import_descriptor list \<Rightarrow> addr list \<Rightarrow> module_state \<Rightarrow> import_result" where
  "LdkpBuildImportDescriptors env load [] deps s = Some (STATUS_SUCCESS, [], deps, s)"
| "LdkpBuildImportDescriptors env load (d # ds) deps s =
     (case LdkpResolveImportModule env load (id_Name d) deps s of
        None \<Rightarrow> None
      | Some (Inl st, deps1, s1) \<Rightarrow> Some (st, [], deps1, s1)
      | Some (Inr a, deps1, s1) \<Rightarrow>
          (case snap_thunks (le_routine env s1 a) (id_Thunks d) of
             (st, table) \<Rightarrow>
               if \<not> NT_SUCCESS st then Some (st, [table], deps1, s1)
               else case LdkpBuildImportDescriptors env load ds deps1 s1 of
                   None \<Rightarrow> None
                 | Some (st', tables, deps2, s2) \<Rightarrow> Some (st', table # tables, deps2, s2)))"

text \<open>The loop over the bound descriptors, at position \<open>i\<close> of the array. A position behind the array is
  read as its end. The code relies on an image with bound imports having an import table.\<close>

fun LdkpBuildBoundImportDescriptors ::
  "load_env \<Rightarrow> loader \<Rightarrow> (string option \<times> nat) list \<Rightarrow> import_descriptor list \<Rightarrow> nat \<Rightarrow> nat \<Rightarrow> ntstatus \<Rightarrow>
     addr list \<Rightarrow> module_state \<Rightarrow> (ntstatus \<times> addr list \<times> module_state) option" where
  "LdkpBuildBoundImportDescriptors env load bound imports 0 i Status deps s = None"
| "LdkpBuildBoundImportDescriptors env load bound imports (Suc turns) i Status deps s =
     (case (if i < length bound then fst (bound ! i) else None) of
        None \<Rightarrow> Some (Status, deps, s)
      | Some ForwarderModuleName \<Rightarrow>
          (case LdkpResolveImportModule env load ForwarderModuleName deps s of
             None \<Rightarrow> None
           | Some (Inl st, deps1, s1) \<Rightarrow> Some (st, deps1, s1)
           | Some (Inr a, deps1, s1) \<Rightarrow>
               let next_i = i + snd (bound ! i);
                   ds = dropWhile (\<lambda>d. \<not> le_ieq env (id_Name d) ForwarderModuleName) imports
               in if ds = [] then Some (STATUS_OBJECT_NAME_INVALID, deps1, s1)
                  else case LdkpBuildImportDescriptors env load ds deps1 s1 of
                      None \<Rightarrow> None
                    | Some (st, tables, deps2, s2) \<Rightarrow>
                        if \<not> NT_SUCCESS st then Some (st, deps2, s2)
                        else LdkpBuildBoundImportDescriptors env load bound imports turns next_i st deps2 s2))"

definition LdkpWalkImportDescriptors ::
  "load_env \<Rightarrow> loader \<Rightarrow> nat \<Rightarrow> loaded_image \<Rightarrow> addr list \<Rightarrow> module_state \<Rightarrow>
     (ntstatus \<times> addr list \<times> module_state) option" where
  "LdkpWalkImportDescriptors env load turns img deps s =
     (case li_Bound img of
        Some bound \<Rightarrow>
          LdkpBuildBoundImportDescriptors env load bound (case li_Imports img of None \<Rightarrow> [] | Some ds \<Rightarrow> ds)
            turns 0 STATUS_UNSUCCESSFUL deps s
      | None \<Rightarrow>
          (case li_Imports img of
             Some ds \<Rightarrow>
               (case LdkpBuildImportDescriptors env load ds deps s of
                  None \<Rightarrow> None | Some (st, tables, deps1, s1) \<Rightarrow> Some (st, deps1, s1))
           | None \<Rightarrow> Some (STATUS_SUCCESS, deps, s)))"

section \<open>Loading\<close>

text \<open>The characteristics of a load: whether imports are resolved, and whether the image is a resource.\<close>

record load_mode =
  lm_ResolveImports :: bool
  lm_ResourceOnly :: bool

definition load_mode_of :: "u32 option \<Rightarrow> load_mode" where
  "load_mode_of DllCharacteristics =
     (case DllCharacteristics of
        None \<Rightarrow> \<lparr>lm_ResolveImports = True, lm_ResourceOnly = False\<rparr>
      | Some f \<Rightarrow> \<lparr>lm_ResolveImports = \<not> flag_on f 0x80000000 \<and> \<not> flag_on f 0x40000000,
                   lm_ResourceOnly = flag_on f 0x40000000\<rparr>)"

text \<open>The module of the name that is loaded already, with or without the suffix; it is referenced.\<close>

definition reference_loaded ::
  "load_env \<Rightarrow> load_mode \<Rightarrow> string \<Rightarrow> module_state \<Rightarrow> (addr \<times> module_state) option" where
  "reference_loaded env mode DllName s =
     (case le_ansi env DllName of
        Inl _ \<Rightarrow> None
      | Inr n \<Rightarrow>
          (case LdkpReferenceModuleByNameEx (le_ieq env) n (lm_ResourceOnly mode) False True s of
             (Inr a, s1) \<Rightarrow> Some (md_handle s1 a, s1)
           | (Inl _, _) \<Rightarrow>
               (case LdkpReferenceModuleByNameEx (le_ieq env) (n @ ''.dll'') (lm_ResourceOnly mode) False True s of
                  (Inr a, s1) \<Rightarrow> Some (md_handle s1 a, s1)
                | (Inl _, _) \<Rightarrow> None)))"

text \<open>Registration of the mapped image, its TLS and its entry point.\<close>

definition register_image ::
  "load_env \<Rightarrow> load_mode \<Rightarrow> string \<Rightarrow> string \<Rightarrow> addr \<Rightarrow> u32 \<Rightarrow> addr list \<Rightarrow> module_state \<Rightarrow>
     (ntstatus + addr) \<times> module_state" where
  "register_image env mode path name base sz deps s =
     (case LdkRegisterModule (le_module env s) (le_ansi env name) (le_ansi env path) base sz s of
        (Inl st, s1) \<Rightarrow> (Inl st, LdkpReleaseModuleDependencies deps s1)
      | (Inr a, s1) \<Rightarrow>
          let s2 = (if lm_ResourceOnly mode
                    then ml_update a (\<lambda>m. m\<lparr>md_Flags := md_Flags m OR LDK_MODULE_FLAG_RESOURCE_ONLY\<rparr>) s1 else s1);
              s3 = LdkpMoveModuleDependencies a deps s2
          in if \<not> lm_ResourceOnly mode \<and> lm_ResolveImports mode then
               if \<not> NT_SUCCESS (le_tls env a) then (Inl (le_tls env a), release_handle base s3)
               else
                 let s4 = ml_update a (\<lambda>m. m\<lparr>md_Flags := md_Flags m OR LDK_MODULE_FLAG_PROCESS_ATTACHED\<rparr>) s3
                 in if \<not> le_entry env base then (Inl STATUS_DLL_INIT_FAILED, release_handle base s4)
                    else (Inr base, s4)
             else (Inr base, s3))"

fun LdkLoadDll :: "load_env \<Rightarrow> load_mode \<Rightarrow> nat \<Rightarrow> nat \<Rightarrow> loader" where
  "LdkLoadDll env mode turns 0 DllName s = None"
| "LdkLoadDll env mode turns (Suc fuel) DllName s =
     (case reference_loaded env mode DllName s of
        Some (h, s1) \<Rightarrow> Some (Inr h, s1)
      | None \<Rightarrow>
          (case le_file env DllName of
             Inl st \<Rightarrow> Some (Inl st, s)
           | Inr (path, name) \<Rightarrow>
               (case le_image env path of
                  Inl st \<Rightarrow> Some (Inl st, s)
                | Inr img \<Rightarrow>
                    (case le_base env s of
                       None \<Rightarrow> Some (Inl STATUS_INSUFFICIENT_RESOURCES, s)
                     | Some base \<Rightarrow>
                         (case (if lm_ResolveImports mode
                                then LdkpWalkImportDescriptors env
                                       (LdkLoadDll env (load_mode_of None) turns fuel) turns img [] s
                                else Some (STATUS_SUCCESS, [], s)) of
                            None \<Rightarrow> None
                          | Some (st, deps, s1) \<Rightarrow>
                              if \<not> NT_SUCCESS st then Some (Inl st, LdkpReleaseModuleDependencies deps s1)
                              else Some (register_image env mode path name base (li_Size img) deps s1))))))"

section \<open>When loading returns\<close>

lemma resolve_returns:
  assumes "\<And>v s. le_unicode env n = Inr v \<Longrightarrow> load v s \<noteq> None"
  shows "LdkpResolveImportModule env load n deps s \<noteq> None"
proof (cases "LdkpGetModuleByName (le_ieq env) n s")
  case (Inl st)
  show ?thesis
  proof (cases "le_unicode env n")
    case (Inr v)
    obtain r s1 where "load v s = Some (r, s1)" using assms [OF Inr, of s] by auto
    then show ?thesis using Inl Inr
      by (cases r) (simp_all add: LdkpResolveImportModule_def del: not_None_eq split: sum.splits)
  qed (use Inl in \<open>simp add: LdkpResolveImportModule_def\<close>)
qed (simp add: LdkpResolveImportModule_def)

lemma build_imports_returns:
  assumes "\<And>d v s. d \<in> set ds \<Longrightarrow> le_unicode env (id_Name d) = Inr v \<Longrightarrow> load v s \<noteq> None"
  shows "LdkpBuildImportDescriptors env load ds deps s \<noteq> None"
  using assms
proof (induction ds arbitrary: deps s)
  case (Cons d ds)
  have "LdkpResolveImportModule env load (id_Name d) deps s \<noteq> None"
    by (rule resolve_returns) (rule Cons.prems [of d], simp)
  then obtain r deps1 s1 where r: "LdkpResolveImportModule env load (id_Name d) deps s = Some (r, deps1, s1)" by auto
  have "LdkpBuildImportDescriptors env load ds deps1 s1 \<noteq> None"
    by (rule Cons.IH) (rule Cons.prems, auto)
  then show ?case using r by (auto split: sum.splits prod.splits)
qed simp

text \<open>The images a name leads to, and a rank that falls along their imports.\<close>

definition image_of :: "load_env \<Rightarrow> string \<Rightarrow> loaded_image option" where
  "image_of env u = (case le_file env u of
     Inl _ \<Rightarrow> None | Inr (path, name) \<Rightarrow> (case le_image env path of Inl _ \<Rightarrow> None | Inr img \<Rightarrow> Some img))"

definition imports_ranked :: "load_env \<Rightarrow> (string \<Rightarrow> nat) \<Rightarrow> bool" where
  "imports_ranked env rank \<longleftrightarrow>
     (\<forall>u img. image_of env u = Some img \<longrightarrow> li_Bound img = None \<and>
        (\<forall>ds d v. li_Imports img = Some ds \<longrightarrow> d \<in> set ds \<longrightarrow> le_unicode env (id_Name d) = Inr v \<longrightarrow> rank v < rank u))"

lemma load_returns:
  assumes "imports_ranked env rank"
  shows "rank u < fuel \<Longrightarrow> LdkLoadDll env mode turns fuel u s \<noteq> None"
proof (induction fuel arbitrary: u s mode)
  case (Suc fuel)
  show ?case
  proof (cases "reference_loaded env mode u s")
    case None
    show ?thesis
    proof (cases "image_of env u")
      case None
      then show ?thesis using \<open>reference_loaded env mode u s = None\<close>
        by (auto simp: image_of_def split: sum.splits prod.splits)
    next
      case (Some img)
      have b: "li_Bound img = None" using assms Some unfolding imports_ranked_def by blast
      have "LdkpWalkImportDescriptors env (LdkLoadDll env (load_mode_of None) turns fuel) turns img [] s \<noteq> None"
      proof (cases "li_Imports img")
        case (Some ds)
        have "LdkLoadDll env (load_mode_of None) turns fuel v t \<noteq> None"
          if "d \<in> set ds" "le_unicode env (id_Name d) = Inr v" for d v t
        proof (rule Suc.IH)
          have "rank v < rank u" using assms \<open>image_of env u = Some img\<close> Some that unfolding imports_ranked_def by blast
          then show "rank v < fuel" using Suc.prems by simp
        qed
        then have "LdkpBuildImportDescriptors env (LdkLoadDll env (load_mode_of None) turns fuel) ds [] s \<noteq> None"
          by (rule build_imports_returns)
        then show ?thesis using b Some by (auto simp: LdkpWalkImportDescriptors_def split: prod.splits)
      qed (simp add: LdkpWalkImportDescriptors_def b)
      then show ?thesis using None Some
        by (auto simp: image_of_def split: sum.splits prod.splits option.splits if_splits)
    qed
  qed auto
qed simp


text \<open>A name whose load starts by loading a name of \<open>C\<close>.\<close>

definition import_cycle :: "load_env \<Rightarrow> string set \<Rightarrow> module_state \<Rightarrow> bool" where
  "import_cycle env C s \<longleftrightarrow> le_base env s \<noteq> None \<and>
     (\<forall>u\<in>C. reference_loaded env (load_mode_of None) u s = None \<and>
       (\<exists>img d ds v st. image_of env u = Some img \<and> li_Bound img = None \<and> li_Imports img = Some (d # ds) \<and>
          LdkpGetModuleByName (le_ieq env) (id_Name d) s = Inl st \<and> le_unicode env (id_Name d) = Inr v \<and> v \<in> C))"

text \<open>An image is registered only after its imports are resolved, so libraries that import each other
  are loaded over and over: the load does not return at any depth of the recursion.\<close>

theorem load_cyclic_never_returns:
  assumes "import_cycle env C s" and "u \<in> C"
  shows "LdkLoadDll env (load_mode_of None) turns fuel u s = None"
  using assms(2)
proof (induction fuel arbitrary: u)
  case (Suc fuel)
  obtain img d ds v st where img: "image_of env u = Some img" "li_Bound img = None" "li_Imports img = Some (d # ds)"
    "LdkpGetModuleByName (le_ieq env) (id_Name d) s = Inl st" "le_unicode env (id_Name d) = Inr v" "v \<in> C"
    and new: "reference_loaded env (load_mode_of None) u s = None"
    using assms(1) Suc.prems unfolding import_cycle_def by metis
  obtain base where "le_base env s = Some base" using assms(1) unfolding import_cycle_def by auto
  moreover have "LdkpResolveImportModule env (LdkLoadDll env (load_mode_of None) turns fuel) (id_Name d) [] s = None"
    using img(4,5) Suc.IH [OF img(6)] by (simp add: LdkpResolveImportModule_def)
  moreover have "lm_ResolveImports (load_mode_of None)" by (simp add: load_mode_of_def)
  ultimately show ?case
    using img(1-3) new by (auto simp: image_of_def LdkpWalkImportDescriptors_def split: sum.splits prod.splits)
qed simp

section \<open>Bound imports\<close>

text \<open>A built-in module has its name and all its routines ready.\<close>

definition ready_builtin :: "load_env \<Rightarrow> module_state \<Rightarrow> import_thunk list \<Rightarrow> string \<Rightarrow> bool" where
  "ready_builtin env s ts n \<longleftrightarrow> (\<exists>a. LdkpGetModuleByName (le_ieq env) n s = Inr a \<and>
     md_FunctionTable (ml_Module s a) \<noteq> None \<and> (\<forall>t\<in>set ts. le_routine env s a t \<noteq> NULL))"

lemma resolve_builtin:
  "ready_builtin env s ts n \<Longrightarrow> \<exists>a. LdkpResolveImportModule env load n deps s = Some (Inr a, deps, s) \<and>
     (\<forall>t\<in>set ts. le_routine env s a t \<noteq> NULL)"
  by (auto simp: ready_builtin_def LdkpResolveImportModule_def add_import_dependency_def
      LdkpAddModuleDependency_def LDK_MODULE_HAS_UNREGISTRABLE_def)

lemma snap_thunks_ready: "\<forall>t\<in>set ts. routine t \<noteq> NULL \<Longrightarrow> snap_thunks routine ts = (STATUS_SUCCESS, map routine ts)"
  by (induction ts) auto

lemma build_builtin:
  "\<forall>d\<in>set ds. ready_builtin env s (id_Thunks d) (id_Name d) \<Longrightarrow>
     \<exists>tables. LdkpBuildImportDescriptors env load ds deps s = Some (STATUS_SUCCESS, tables, deps, s)"
proof (induction ds)
  case (Cons d ds)
  then obtain tables where "LdkpBuildImportDescriptors env load ds deps s = Some (STATUS_SUCCESS, tables, deps, s)" by auto
  moreover obtain a where "LdkpResolveImportModule env load (id_Name d) deps s = Some (Inr a, deps, s)"
    "\<forall>t\<in>set (id_Thunks d). le_routine env s a t \<noteq> NULL"
    using resolve_builtin [of env s "id_Thunks d" "id_Name d" load deps] Cons.prems by auto
  ultimately show ?case by (simp add: snap_thunks_ready)
qed simp

text \<open>The loop over bound imports steps over the forwarder references of a descriptor but not over the
  descriptor itself. An image with a bound import that has no forwarder references, the normal case, is
  never loaded although everything it needs is there: the loop does not end in any number of turns.\<close>

theorem bound_imports_never_end:
  assumes "i < length bound" and "bound ! i = (Some n, 0)" and "ready_builtin env s [] n"
    and "dropWhile (\<lambda>d. \<not> le_ieq env (id_Name d) n) imports \<noteq> []"
    and "\<forall>d\<in>set imports. ready_builtin env s (id_Thunks d) (id_Name d)"
  shows "LdkpBuildBoundImportDescriptors env load bound imports turns i st deps s = None"
proof (induction turns arbitrary: st)
  case (Suc turns)
  let ?ds = "dropWhile (\<lambda>d. \<not> le_ieq env (id_Name d) n) imports"
  obtain a where a: "LdkpResolveImportModule env load n deps s = Some (Inr a, deps, s)"
    using resolve_builtin [OF assms(3), of load deps] by blast
  have "\<forall>d\<in>set ?ds. ready_builtin env s (id_Thunks d) (id_Name d)" using assms(5) set_dropWhileD by metis
  then obtain tables where "LdkpBuildImportDescriptors env load ?ds deps s = Some (STATUS_SUCCESS, tables, deps, s)"
    using build_builtin by blast
  then show ?case using assms(1,2,4) a Suc.IH by (simp add: Let_def)
qed simp

section \<open>An import under a second name\<close>

text \<open>If an import names a library that is a dependency already in a way that only the loader
  recognises, such as without its suffix, the loader takes a reference that no dependency entry
  records, so nothing will ever drop it.\<close>

theorem import_alias_leaks:
  assumes "ml_shape s" and "LdkpGetModuleByName (le_ieq env) n s = Inl st" and "le_unicode env n = Inr u"
    and "reference_loaded env (load_mode_of None) u s = Some (md_handle s a, LdkpReferenceModuleLocked a False True s)"
    and "a \<in> set (ml_ModuleListHead s)" and "unpinned (ml_Module s a)" and "md_Base (ml_Module s a) \<noteq> NULL"
    and "md_LoadCount (ml_Module s a) < MAXLONG" and "a \<in> set deps"
  shows "\<exists>s'. LdkpResolveImportModule env (LdkLoadDll env (load_mode_of None) turns (Suc fuel)) n deps s =
      Some (Inr a, deps, s') \<and> md_LoadCount (ml_Module s' a) = md_LoadCount (ml_Module s a) + 1"
proof -
  let ?s = "LdkpReferenceModuleLocked a False True s"
  have fr: "ml_frame s ?s" by (rule frame_reference)
  have sh: "ml_shape ?s" using assms(1) ml_frame_shape [OF fr] by simp
  have b: "md_Base (ml_Module ?s a) = md_Base (ml_Module s a)" using fr unfolding ml_frame_def by blast
  then have h: "md_handle ?s a = md_handle s a" by (simp add: md_handle_def)
  have "LdkpGetModuleByBase (md_handle s a) ?s = Inr a"
  proof (cases "LdkpGetModuleByBase (md_handle s a) ?s")
    case (Inl e)
    then have "\<forall>x\<in>set (ml_ModuleListHead ?s). md_Base (ml_Module ?s x) \<noteq> md_handle s a"
      using assms(7) unfolding LdkpGetModuleByBase_def
      by (auto simp: md_handle_def find_None_iff_all split: option.splits)
    moreover have "a \<in> set (ml_ModuleListHead ?s)" using assms(5) ml_frame_list [OF fr] by simp
    ultimately have False using b assms(7) by (auto simp: md_handle_def)
    then show ?thesis ..
  next
    case (Inr x)
    then show ?thesis using handle_names_module [OF sh, of a] assms(5) ml_frame_list [OF fr] h
      unfolding module_of_handle_def by simp
  qed
  moreover have "LdkLoadDll env (load_mode_of None) turns (Suc fuel) u s = Some (Inr (md_handle s a), ?s)"
    using assms(4) by simp
  moreover have ft: "md_FunctionTable (ml_Module ?s a) = None"
    using assms(6) fr unfolding ml_frame_def unpinned_def by metis
  moreover have "md_LoadCount (ml_Module ?s a) = md_LoadCount (ml_Module s a) + 1"
    using reference_effect(2,3) [of a False True s] assms(6,8) by simp
  ultimately show ?thesis
    using assms(2,3,9) by (simp add: LdkpResolveImportModule_def add_import_dependency_def LdkpAddModuleDependency_def
      LdkpModuleDependencyExists_def LDK_MODULE_HAS_UNREGISTRABLE_def)
qed

section \<open>Concrete runs\<close>

text \<open>Two libraries on disk: the second imports nothing or, in a cycle, the first one.\<close>

definition demo_env :: "bool \<Rightarrow> load_env" where
  "demo_env cyclic =
     \<lparr>le_ieq = (=), le_ansi = Inr, le_unicode = Inr,
      le_file = (\<lambda>u. if u = ''P'' \<or> u = ''Q'' then Inr (u, u) else Inl STATUS_UNSUCCESSFUL),
      le_image = (\<lambda>p. Inr \<lparr>li_Bound = None,
         li_Imports = (if p = ''P'' then Some [\<lparr>id_Name = ''Q'', id_Thunks = []\<rparr>]
                       else if cyclic then Some [\<lparr>id_Name = ''P'', id_Thunks = []\<rparr>] else None), li_Size = 16\<rparr>),
      le_base = (\<lambda>s. Some 4096), le_module = (\<lambda>s. Some 8), le_pool = True,
      le_routine = (\<lambda>s a t. 4096), le_tls = (\<lambda>a. STATUS_SUCCESS), le_entry = (\<lambda>b. True)\<rparr>"

definition demo_rank :: "string \<Rightarrow> nat" where
  "demo_rank u = (if u = ''P'' then 1 else 0)"

lemma demo_ranked: "imports_ranked (demo_env False) demo_rank"
  by (auto simp: imports_ranked_def image_of_def demo_env_def demo_rank_def split: if_splits)


lemma demo_cycle: "import_cycle (demo_env True) {''P'', ''Q''} (mm_State demo_start)"
  by (simp add: import_cycle_def demo_env_def image_of_def reference_loaded_def load_mode_of_def
      LdkpReferenceModuleByNameEx_def LdkpGetModuleByName_def LdkpGetModuleByNameEx_def demo_start_def)

theorem load_cyclic_never_returns_witness:
  "LdkLoadDll (demo_env True) (load_mode_of None) 9 1000 ''P'' (mm_State demo_start) = None"
  using load_cyclic_never_returns [OF demo_cycle, of "''P''" 9 1000] by simp

lemma demo_builtin: "ready_builtin (demo_env False) (mm_State demo_start) ts ''K''"
  by (auto simp: ready_builtin_def demo_env_def demo_start_def LdkpGetModuleByName_def LdkpGetModuleByNameEx_def
      LdkpModuleMatchesResourceMode_def flag_on_def)

theorem bound_imports_never_end_witness:
  "LdkpBuildBoundImportDescriptors (demo_env False) (\<lambda>_ _. None) [(Some ''K'', 0), (None, 0)]
     [\<lparr>id_Name = ''K'', id_Thunks = []\<rparr>] 1000 0 STATUS_UNSUCCESSFUL [] (mm_State demo_start) = None"
proof (rule bound_imports_never_end)
  show "dropWhile (\<lambda>d. \<not> le_ieq (demo_env False) (id_Name d) ''K'') [\<lparr>id_Name = ''K'', id_Thunks = []\<rparr>] \<noteq> []"
    by (simp add: demo_env_def)
qed (simp_all add: demo_builtin)

text \<open>A library with a suffix is loaded next to the built-in module.\<close>

definition demo_suffix :: module_state where
  "demo_suffix = register_loaded 8 ''Q.dll'' ''Q.dll'' 4096 16 [] (mm_State demo_start)"

lemmas demo_suffix_eval = demo_suffix_def register_loaded_def LdkRegisterModule_def LdkpMoveModuleDependencies_def
  ml_update_def demo_start_def

theorem import_alias_leaks_witness:
  "\<exists>s'. LdkpResolveImportModule (demo_env False) (LdkLoadDll (demo_env False) (load_mode_of None) 0 1) ''Q'' [8] demo_suffix =
      Some (Inr 8, [8], s') \<and> md_LoadCount (ml_Module s' 8) = md_LoadCount (ml_Module demo_suffix 8) + 1"
  unfolding One_nat_def
proof (rule import_alias_leaks)
  show "ml_shape demo_suffix" by (simp add: ml_shape_def demo_suffix_eval)
  show "LdkpGetModuleByName (le_ieq (demo_env False)) ''Q'' demo_suffix = Inl STATUS_NOT_FOUND"
    by (simp add: LdkpGetModuleByName_def LdkpGetModuleByNameEx_def demo_env_def demo_suffix_eval)
  show "reference_loaded (demo_env False) (load_mode_of None) ''Q'' demo_suffix =
      Some (md_handle demo_suffix 8, LdkpReferenceModuleLocked 8 False True demo_suffix)"
    by (simp add: reference_loaded_def load_mode_of_def demo_env_def LdkpReferenceModuleByNameEx_def
        LdkpGetModuleByNameEx_def LdkpModuleMatchesResourceMode_def demo_suffix_eval flag_on_def
        LdkpReferenceModuleLocked_def LDK_MODULE_HAS_UNREGISTRABLE_def md_handle_def)
qed (simp_all add: demo_env_def unpinned_def demo_suffix_eval flag_on_def)

end
