(* ===== verification/ImageMapping.thy ===== *)
theory ImageMapping
  imports ImageRelocation
begin

text \<open>
  Mapping the file of a library (src/ldk.c, \<open>LdkpLoadDll\<close>): the file is read into a buffer, its headers
  are checked, the image is put together in pool memory and relocated, and its imports are resolved.
  Both the buffer and the image lie in one memory, at \<open>Buffer\<close> and at \<open>Base\<close>.
\<close>

abbreviation STATUS_INVALID_IMAGE_FORMAT :: ntstatus where "STATUS_INVALID_IMAGE_FORMAT \<equiv> 0xC000007B"
abbreviation STATUS_INVALID_IMAGE_NOT_MZ :: ntstatus where "STATUS_INVALID_IMAGE_NOT_MZ \<equiv> 0xC000012F"
abbreviation STATUS_INVALID_IMAGE_WIN_32 :: ntstatus where "STATUS_INVALID_IMAGE_WIN_32 \<equiv> 0xC0000359"
abbreviation STATUS_PENDING :: ntstatus where "STATUS_PENDING \<equiv> 0x103"

section \<open>Headers\<close>

text \<open>\<open>e_lfanew\<close> is a signed 32-bit offset from the DOS header to the NT headers.\<close>

definition nt_header :: "image \<Rightarrow> addr \<Rightarrow> addr" where
  "nt_header m Buffer = nat (int Buffer + sint (of_nat (read_le 4 m (Buffer + 60)) :: u32))"

definition FileHeader_Machine :: "image \<Rightarrow> addr \<Rightarrow> nat" where
  "FileHeader_Machine m nt = read_le 2 m (nt + 4)"

definition NumberOfSections :: "image \<Rightarrow> addr \<Rightarrow> nat" where
  "NumberOfSections m nt = read_le 2 m (nt + 6)"

definition OptionalHeader_ImageBase :: "image \<Rightarrow> addr \<Rightarrow> nat" where
  "OptionalHeader_ImageBase m nt = read_le 8 m (nt + 48)"

definition SizeOfImage :: "image \<Rightarrow> addr \<Rightarrow> nat" where
  "SizeOfImage m nt = read_le 4 m (nt + 80)"

definition SizeOfHeaders :: "image \<Rightarrow> addr \<Rightarrow> nat" where
  "SizeOfHeaders m nt = read_le 4 m (nt + 84)"

text \<open>The section headers follow the optional header, whose size the file header has; each is 40 bytes
  long.\<close>

definition section_header :: "image \<Rightarrow> addr \<Rightarrow> nat \<Rightarrow> addr" where
  "section_header m nt i = nt + 24 + read_le 2 m (nt + 20) + 40 * i"

definition VirtualAddress :: "image \<Rightarrow> addr \<Rightarrow> nat" where
  "VirtualAddress m sh = read_le 4 m (sh + 12)"

definition SizeOfRawData :: "image \<Rightarrow> addr \<Rightarrow> nat" where
  "SizeOfRawData m sh = read_le 4 m (sh + 16)"

definition PointerToRawData :: "image \<Rightarrow> addr \<Rightarrow> nat" where
  "PointerToRawData m sh = read_le 4 m (sh + 20)"

text \<open>The checks of the headers, as they are compiled for the 64-bit architecture.\<close>

definition check_headers :: "image \<Rightarrow> addr \<Rightarrow> ntstatus" where
  "check_headers m Buffer =
     (if read_le 2 m Buffer \<noteq> 0x5A4D then STATUS_INVALID_IMAGE_NOT_MZ
      else
        let nt = nt_header m Buffer in
        if read_le 4 m nt \<noteq> 0x4550 then STATUS_INVALID_IMAGE_FORMAT
        else if FileHeader_Machine m nt = 0x14C then STATUS_INVALID_IMAGE_WIN_32
        else if FileHeader_Machine m nt \<noteq> 0x8664 then STATUS_INVALID_IMAGE_FORMAT
        else if read_le 2 m (nt + 22) div 0x2000 mod 2 = 0 then STATUS_INVALID_IMAGE_FORMAT
        else STATUS_SUCCESS)"

section \<open>The image in memory\<close>

definition RtlZeroMemory :: "addr \<Rightarrow> nat \<Rightarrow> image \<Rightarrow> image" where
  "RtlZeroMemory dst n m = (\<lambda>x. if dst \<le> x \<and> x < dst + n then 0 else m x)"

definition RtlCopyMemory :: "addr \<Rightarrow> addr \<Rightarrow> nat \<Rightarrow> image \<Rightarrow> image" where
  "RtlCopyMemory dst src n m = (\<lambda>x. if dst \<le> x \<and> x < dst + n then m (src + (x - dst)) else m x)"

definition copy_section :: "addr \<Rightarrow> addr \<Rightarrow> addr \<Rightarrow> nat \<Rightarrow> image \<Rightarrow> image" where
  "copy_section Base Buffer nt i m =
     (let sh = section_header m nt i in
      RtlCopyMemory (Base + VirtualAddress m sh) (Buffer + PointerToRawData m sh) (SizeOfRawData m sh) m)"

text \<open>The number of sections is read once; the headers lie in the buffer, which the loop reads only.\<close>

definition map_sections :: "addr \<Rightarrow> addr \<Rightarrow> image \<Rightarrow> image" where
  "map_sections Base Buffer m =
     (let nt = nt_header m Buffer;
          m1 = RtlCopyMemory Base Buffer (SizeOfHeaders m nt) (RtlZeroMemory Base (SizeOfImage m nt) m)
      in fold (copy_section Base Buffer nt) [0..<NumberOfSections m1 nt] m1)"

text \<open>The image is relocated in the memory that starts at its base; the preferred base is read from the
  headers of the image itself.\<close>

definition relocate_at :: "nat \<Rightarrow> addr \<Rightarrow> (image \<Rightarrow> (nat \<times> nat) option) \<Rightarrow> image \<Rightarrow> image option" where
  "relocate_at fuel Base directory m =
     (let view = (\<lambda>x. m (Base + x)) in
      case LdkpRelocateImage fuel Base (OptionalHeader_ImageBase m (nt_header m Base)) (directory view) view of
        None \<Rightarrow> None
      | Some view' \<Rightarrow> Some (\<lambda>x. if x < Base then m x else view' (x - Base)))"

section \<open>Loading the file\<close>

text \<open>What the loader uses of the kernel: opening the file, its size, its bytes, and pool memory. The last
  three are the lookup of the relocation table in an image, the resolution of its imports, and the
  number of relocation blocks that are followed.\<close>

record file_env =
  fe_Open :: ntstatus
  fe_EndOfFile :: "ntstatus + u32"
  fe_Buffer :: "addr option"
  fe_Read :: ntstatus
  fe_Wait :: ntstatus
  fe_IoStatus :: ntstatus
  fe_Bytes :: image
  fe_Base :: "addr option"
  fe_RelocDirectory :: "image \<Rightarrow> (nat \<times> nat) option"
  fe_Imports :: "image \<Rightarrow> ntstatus"
  fe_Fuel :: nat

datatype file_event = OpenedFile | ClosedFile | AllocatedPool addr nat | FreedPool addr

definition read_status :: "file_env \<Rightarrow> ntstatus" where
  "read_status env =
     (if fe_Read env = STATUS_PENDING
      then if NT_SUCCESS (fe_Wait env) then fe_IoStatus env else fe_Wait env
      else fe_Read env)"

text \<open>The body of the guarded block from the allocation of the image: the status with base, size and
  memory, and the events. \<open>None\<close> is a relocation table with more blocks than are followed.\<close>

definition build_image ::
  "file_env \<Rightarrow> bool \<Rightarrow> addr \<Rightarrow> image \<Rightarrow> ((ntstatus + addr \<times> nat \<times> image) \<times> file_event list) option" where
  "build_image env ResolveImports Buffer m =
     (let size = SizeOfImage m (nt_header m Buffer) in
      case fe_Base env of
        None \<Rightarrow> Some (Inl STATUS_INSUFFICIENT_RESOURCES, [])
      | Some Base \<Rightarrow>
          (case relocate_at (fe_Fuel env) Base (fe_RelocDirectory env) (map_sections Base Buffer m) of
             None \<Rightarrow> None
           | Some m1 \<Rightarrow>
               let st = (if ResolveImports then fe_Imports env (\<lambda>x. m1 (Base + x)) else STATUS_SUCCESS) in
               if \<not> NT_SUCCESS st then Some (Inl st, [AllocatedPool Base size])
               else Some (Inr (Base, size, m1), [AllocatedPool Base size])))"

text \<open>The epilogue closes the file, frees the buffer, and frees the image if the status is a failure.\<close>

definition LdkpLoadDll ::
  "file_env \<Rightarrow> bool \<Rightarrow> image \<Rightarrow> ((ntstatus + addr \<times> nat \<times> image) \<times> file_event list) option" where
  "LdkpLoadDll env ResolveImports m =
     (if \<not> NT_SUCCESS (fe_Open env) then Some (Inl (fe_Open env), [])
      else case fe_EndOfFile env of
          Inl st \<Rightarrow> Some (Inl st, [OpenedFile, ClosedFile])
        | Inr n \<Rightarrow>
            (case fe_Buffer env of
               None \<Rightarrow> Some (Inl STATUS_INSUFFICIENT_RESOURCES, [OpenedFile, ClosedFile])
             | Some Buffer \<Rightarrow>
                 let open_evs = [OpenedFile, AllocatedPool Buffer (unat n)]; close_evs = [ClosedFile, FreedPool Buffer] in
                 if \<not> NT_SUCCESS (read_status env) then Some (Inl (read_status env), open_evs @ close_evs)
                 else
                   let m1 = (\<lambda>x. if Buffer \<le> x \<and> x < Buffer + unat n then fe_Bytes env (x - Buffer) else m x) in
                   if \<not> NT_SUCCESS (check_headers m1 Buffer) then Some (Inl (check_headers m1 Buffer), open_evs @ close_evs)
                   else case build_image env ResolveImports Buffer m1 of
                       None \<Rightarrow> None
                     | Some (Inl st, evs) \<Rightarrow>
                         Some (Inl st, open_evs @ evs @ close_evs @ (if evs = [] then [] else [FreedPool (the (fe_Base env))]))
                     | Some (Inr r, evs) \<Rightarrow> Some (Inr r, open_evs @ evs @ close_evs)))"

section \<open>What is mapped\<close>

text \<open>The place of section \<open>i\<close> in the image and its data in the file.\<close>

definition in_section :: "image \<Rightarrow> addr \<Rightarrow> nat \<Rightarrow> nat \<Rightarrow> bool" where
  "in_section m nt i x \<longleftrightarrow> VirtualAddress m (section_header m nt i) \<le> x \<and>
     x < VirtualAddress m (section_header m nt i) + SizeOfRawData m (section_header m nt i)"

definition headers_in_file :: "image \<Rightarrow> addr \<Rightarrow> nat \<Rightarrow> bool" where
  "headers_in_file m Buffer n \<longleftrightarrow> (let nt = nt_header m Buffer in
     Buffer \<le> nt \<and> nt + 88 \<le> Buffer + n \<and> section_header m nt (NumberOfSections m nt) \<le> Buffer + n)"

text \<open>An image whose headers and sections fit: the buffer and the image are apart, every section lies in
  the file and in the image behind the headers, and no two of them overlap.\<close>

definition image_fits :: "addr \<Rightarrow> addr \<Rightarrow> nat \<Rightarrow> image \<Rightarrow> bool" where
  "image_fits Base Buffer n m \<longleftrightarrow>
     (let nt = nt_header m Buffer; S = SizeOfImage m nt; H = SizeOfHeaders m nt; k = NumberOfSections m nt in
      headers_in_file m Buffer n \<and> (Buffer + n \<le> Base \<or> Base + S \<le> Buffer) \<and> H \<le> n \<and> H \<le> S \<and>
      (\<forall>i<k. let sh = section_header m nt i in
         H \<le> VirtualAddress m sh \<and> VirtualAddress m sh + SizeOfRawData m sh \<le> S \<and>
         PointerToRawData m sh + SizeOfRawData m sh \<le> n) \<and>
      (\<forall>i<k. \<forall>j<k. i \<noteq> j \<longrightarrow> (\<forall>x. \<not> (in_section m nt i x \<and> in_section m nt j x))))"

lemma header_reads:
  assumes "headers_in_file m Buffer n" and "\<forall>x. Buffer \<le> x \<and> x < Buffer + n \<longrightarrow> m' x = m x"
    and "i < NumberOfSections m (nt_header m Buffer)"
  shows "section_header m' (nt_header m Buffer) i = section_header m (nt_header m Buffer) i"
    and "VirtualAddress m' (section_header m (nt_header m Buffer) i) = VirtualAddress m (section_header m (nt_header m Buffer) i)"
    and "SizeOfRawData m' (section_header m (nt_header m Buffer) i) = SizeOfRawData m (section_header m (nt_header m Buffer) i)"
    and "PointerToRawData m' (section_header m (nt_header m Buffer) i) = PointerToRawData m (section_header m (nt_header m Buffer) i)"
proof -
  let ?nt = "nt_header m Buffer"
  have nt: "Buffer \<le> ?nt" "?nt + 88 \<le> Buffer + n" "section_header m ?nt (NumberOfSections m ?nt) \<le> Buffer + n"
    using assms(1) by (simp_all add: headers_in_file_def Let_def)
  have "section_header m ?nt i + 40 \<le> section_header m ?nt (NumberOfSections m ?nt)"
    using assms(3) by (simp add: section_header_def)
  then have sh: "?nt \<le> section_header m ?nt i" "section_header m ?nt i + 40 \<le> Buffer + n"
    using nt(3) by (simp_all add: section_header_def)
  have rd: "read_le k m' a = read_le k m a" if "Buffer \<le> a" "a + k \<le> Buffer + n" for k a
    by (rule read_le_cong) (use that assms(2) in auto)
  show "section_header m' ?nt i = section_header m ?nt i"
    using rd [of "?nt + 20" 2] nt by (simp add: section_header_def)
  show "VirtualAddress m' (section_header m ?nt i) = VirtualAddress m (section_header m ?nt i)"
    "SizeOfRawData m' (section_header m ?nt i) = SizeOfRawData m (section_header m ?nt i)"
    "PointerToRawData m' (section_header m ?nt i) = PointerToRawData m (section_header m ?nt i)"
    unfolding VirtualAddress_def SizeOfRawData_def PointerToRawData_def using nt sh by (auto intro!: rd)
qed

text \<open>While the buffer keeps its contents, copying a section is the copy that its header describes.\<close>

lemma copy_section_copies:
  assumes "headers_in_file m Buffer n" and "\<forall>x. Buffer \<le> x \<and> x < Buffer + n \<longrightarrow> m' x = m x"
    and "i < NumberOfSections m (nt_header m Buffer)"
  shows "copy_section Base Buffer (nt_header m Buffer) i m' =
     (let sh = section_header m (nt_header m Buffer) i in
      RtlCopyMemory (Base + VirtualAddress m sh) (Buffer + PointerToRawData m sh) (SizeOfRawData m sh) m')"
  unfolding copy_section_def Let_def header_reads [OF assms] ..

lemma sections_copied:
  assumes "image_fits Base Buffer n m" and "\<forall>x. Buffer \<le> x \<and> x < Buffer + n \<longrightarrow> m1 x = m x"
  shows "j \<le> NumberOfSections m (nt_header m Buffer) \<Longrightarrow>
     (\<forall>i<j. \<forall>y. in_section m (nt_header m Buffer) i y \<longrightarrow>
        fold (copy_section Base Buffer (nt_header m Buffer)) [0..<j] m1 (Base + y) =
        m (Buffer + PointerToRawData m (section_header m (nt_header m Buffer) i) +
             (y - VirtualAddress m (section_header m (nt_header m Buffer) i)))) \<and>
     (\<forall>x. (\<forall>i<j. \<forall>y. in_section m (nt_header m Buffer) i y \<longrightarrow> x \<noteq> Base + y) \<longrightarrow>
        fold (copy_section Base Buffer (nt_header m Buffer)) [0..<j] m1 x = m1 x)"
proof (induction j)
  case (Suc j)
  define nt where "nt = nt_header m Buffer"
  define f where "f = (\<lambda>j. fold (copy_section Base Buffer nt) [0..<j] m1)"
  let ?va = "\<lambda>i. VirtualAddress m (section_header m nt i)"
  let ?sz = "\<lambda>i. SizeOfRawData m (section_header m nt i)"
  let ?ptr = "\<lambda>i. PointerToRawData m (section_header m nt i)"
  have fits: "headers_in_file m Buffer n" "Buffer + n \<le> Base \<or> Base + SizeOfImage m nt \<le> Buffer"
    "\<And>i. i < NumberOfSections m nt \<Longrightarrow> ?va i + ?sz i \<le> SizeOfImage m nt \<and> ?ptr i + ?sz i \<le> n"
    "\<And>i k x. i < NumberOfSections m nt \<Longrightarrow> k < NumberOfSections m nt \<Longrightarrow> i \<noteq> k \<Longrightarrow> in_section m nt i x \<Longrightarrow> \<not> in_section m nt k x"
    using assms(1) unfolding image_fits_def nt_def Let_def by blast+
  have j: "j < NumberOfSections m nt" using Suc.prems by (simp add: nt_def)
  have ih: "\<And>i y. i < j \<Longrightarrow> in_section m nt i y \<Longrightarrow> f j (Base + y) = m (Buffer + ?ptr i + (y - ?va i))"
    "\<And>x. (\<forall>i<j. \<forall>y. in_section m nt i y \<longrightarrow> x \<noteq> Base + y) \<Longrightarrow> f j x = m1 x"
    using Suc.IH Suc.prems unfolding f_def nt_def by auto
  have buf: "f j x = m x" if "Buffer \<le> x" "x < Buffer + n" for x
  proof -
    have "x \<noteq> Base + y" if "i < j" "in_section m nt i y" for i y
      using fits(2) fits(3) [of i] that j \<open>Buffer \<le> x\<close> \<open>x < Buffer + n\<close> unfolding in_section_def by linarith
    then show ?thesis using ih(2) assms(2) that by auto
  qed
  have "f (Suc j) = copy_section Base Buffer nt j (f j)" by (simp add: f_def)
  also have "\<dots> = RtlCopyMemory (Base + ?va j) (Buffer + ?ptr j) (?sz j) (f j)"
    using copy_section_copies [OF fits(1), of "f j" j Base] buf j unfolding nt_def Let_def by blast
  finally have st: "f (Suc j) = RtlCopyMemory (Base + ?va j) (Buffer + ?ptr j) (?sz j) (f j)" .
  have new: "f (Suc j) (Base + y) = m (Buffer + ?ptr j + (y - ?va j))" if "in_section m nt j y" for y
    using that fits(3) [OF j] buf [of "Buffer + ?ptr j + (y - ?va j)"] unfolding st RtlCopyMemory_def in_section_def by auto
  have old: "f (Suc j) x = f j x" if "\<forall>y. in_section m nt j y \<longrightarrow> x \<noteq> Base + y" for x
  proof -
    have "\<not> (Base + ?va j \<le> x \<and> x < Base + ?va j + ?sz j)"
      using that [THEN spec, of "x - Base"] unfolding in_section_def by linarith
    then show ?thesis unfolding st RtlCopyMemory_def by (rule if_not_P)
  qed
  have "f (Suc j) (Base + y) = m (Buffer + ?ptr i + (y - ?va i))" if "i < Suc j" "in_section m nt i y" for i y
  proof (cases "i = j")
    case False
    then have i: "i < j" using that(1) by simp
    have "\<not> in_section m nt j y" using fits(4) that i j by auto
    then have "f (Suc j) (Base + y) = f j (Base + y)" by (intro old) auto
    also have "\<dots> = m (Buffer + ?ptr i + (y - ?va i))" by (rule ih(1) [OF i that(2)])
    finally show ?thesis .
  qed (use new that in simp)
  moreover have "f (Suc j) x = m1 x" if "\<forall>i<Suc j. \<forall>y. in_section m nt i y \<longrightarrow> x \<noteq> Base + y" for x
    using old [of x] ih(2) [of x] that less_Suc_eq by metis
  ultimately show ?case unfolding f_def nt_def by blast
qed simp

text \<open>C23: Of a library whose headers and sections fit, every section appears at its address in the image,
  the headers at its start, zeros everywhere else, and no byte outside the image changes.\<close>

theorem map_sections_places:
  assumes "image_fits Base Buffer n m"
  shows "(\<forall>i<NumberOfSections m (nt_header m Buffer). \<forall>x. in_section m (nt_header m Buffer) i x \<longrightarrow>
        map_sections Base Buffer m (Base + x) =
        m (Buffer + PointerToRawData m (section_header m (nt_header m Buffer) i) +
             (x - VirtualAddress m (section_header m (nt_header m Buffer) i)))) \<and>
     (\<forall>x < SizeOfHeaders m (nt_header m Buffer). map_sections Base Buffer m (Base + x) = m (Buffer + x)) \<and>
     (\<forall>x. SizeOfHeaders m (nt_header m Buffer) \<le> x \<and> x < SizeOfImage m (nt_header m Buffer) \<and>
        (\<forall>i<NumberOfSections m (nt_header m Buffer). \<not> in_section m (nt_header m Buffer) i x) \<longrightarrow>
        map_sections Base Buffer m (Base + x) = 0) \<and>
     (\<forall>x. x < Base \<or> Base + SizeOfImage m (nt_header m Buffer) \<le> x \<longrightarrow> map_sections Base Buffer m x = m x)"
proof -
  define nt where "nt = nt_header m Buffer"
  define m1 where "m1 = RtlCopyMemory Base Buffer (SizeOfHeaders m nt) (RtlZeroMemory Base (SizeOfImage m nt) m)"
  have fits: "headers_in_file m Buffer n" "Buffer + n \<le> Base \<or> Base + SizeOfImage m nt \<le> Buffer"
    "SizeOfHeaders m nt \<le> n" "SizeOfHeaders m nt \<le> SizeOfImage m nt"
    and sec: "\<And>i. i < NumberOfSections m nt \<Longrightarrow> SizeOfHeaders m nt \<le> VirtualAddress m (section_header m nt i) \<and>
      VirtualAddress m (section_header m nt i) + SizeOfRawData m (section_header m nt i) \<le> SizeOfImage m nt"
    using assms unfolding image_fits_def nt_def Let_def by blast+
  have buf: "m1 x = m x" if "Buffer \<le> x" "x < Buffer + n" for x
    using fits(2-4) that unfolding m1_def RtlCopyMemory_def RtlZeroMemory_def by auto
  have hdr: "m1 (Base + x) = m (Buffer + x)" if "x < SizeOfHeaders m nt" for x
    using fits(2-4) that unfolding m1_def RtlCopyMemory_def RtlZeroMemory_def by auto
  have rest: "m1 (Base + x) = 0" if "SizeOfHeaders m nt \<le> x" "x < SizeOfImage m nt" for x
    using that unfolding m1_def RtlCopyMemory_def RtlZeroMemory_def by auto
  have out: "m1 x = m x" if "x < Base \<or> Base + SizeOfImage m nt \<le> x" for x
    using fits(4) that unfolding m1_def RtlCopyMemory_def RtlZeroMemory_def by auto
  have "NumberOfSections m1 nt = NumberOfSections m nt"
    unfolding NumberOfSections_def
    by (rule read_le_cong) (use fits(1) buf in \<open>auto simp: headers_in_file_def nt_def Let_def\<close>)
  then have r: "map_sections Base Buffer m = fold (copy_section Base Buffer nt) [0..<NumberOfSections m nt] m1"
    unfolding map_sections_def nt_def [symmetric] Let_def m1_def [symmetric] by (simp only:)
  have m1: "\<forall>x. Buffer \<le> x \<and> x < Buffer + n \<longrightarrow> m1 x = m x" using buf by simp
  note copied = sections_copied [OF assms m1 order_refl, folded nt_def, folded r]
  have none: "map_sections Base Buffer m (Base + x) = m1 (Base + x)"
    if "\<forall>i<NumberOfSections m nt. \<not> in_section m nt i x" for x
    by (rule copied [THEN conjunct2, rule_format]) (use that in auto)
  have no: "\<not> in_section m nt i x" if "i < NumberOfSections m nt" "x < SizeOfHeaders m nt \<or> SizeOfImage m nt \<le> x" for i x
    using sec [OF that(1)] that(2) unfolding in_section_def by linarith
  have outside: "map_sections Base Buffer m x = m x" if "x < Base \<or> Base + SizeOfImage m nt \<le> x" for x
  proof -
    have "x \<noteq> Base + y" if "i < NumberOfSections m nt" "in_section m nt i y" for i y
      using no [of i y] that \<open>x < Base \<or> Base + SizeOfImage m nt \<le> x\<close> by linarith
    then have "map_sections Base Buffer m x = m1 x" by (intro copied [THEN conjunct2, rule_format]) auto
    then show ?thesis using out [OF that] by simp
  qed
  have "map_sections Base Buffer m (Base + x) = m (Buffer + x)" if "x < SizeOfHeaders m nt" for x
    using none [of x] no hdr that by auto
  then show ?thesis
    unfolding nt_def [symmetric] using copied [THEN conjunct1] none rest outside by auto
qed

text \<open>The checks do not compare the sections with the size of the image: a section that ends behind it
  is written over the pool memory that follows the image.\<close>

theorem section_overrun:
  assumes "headers_in_file m Buffer n" and "Buffer + n \<le> Base" and "nt = nt_header m Buffer"
    and "SizeOfHeaders m nt \<le> n" and "NumberOfSections m nt = 1"
    and "in_section m nt 0 x" and "SizeOfImage m nt \<le> x"
    and "PointerToRawData m (section_header m nt 0) + SizeOfRawData m (section_header m nt 0) \<le> n"
  shows "map_sections Base Buffer m (Base + x) =
    m (Buffer + PointerToRawData m (section_header m nt 0) + (x - VirtualAddress m (section_header m nt 0)))"
proof -
  define m1 where "m1 = RtlCopyMemory Base Buffer (SizeOfHeaders m nt) (RtlZeroMemory Base (SizeOfImage m nt) m)"
  have buf: "\<forall>x. Buffer \<le> x \<and> x < Buffer + n \<longrightarrow> m1 x = m x"
    using assms(2) unfolding m1_def RtlCopyMemory_def RtlZeroMemory_def by auto
  have "NumberOfSections m1 nt = NumberOfSections m nt"
    unfolding NumberOfSections_def
    by (rule read_le_cong) (use assms(1,3) buf in \<open>auto simp: headers_in_file_def Let_def\<close>)
  then have "map_sections Base Buffer m = copy_section Base Buffer nt 0 m1"
    using assms(5) unfolding map_sections_def assms(3) [symmetric] Let_def m1_def [symmetric] by simp
  also have "\<dots> = RtlCopyMemory (Base + VirtualAddress m (section_header m nt 0))
      (Buffer + PointerToRawData m (section_header m nt 0)) (SizeOfRawData m (section_header m nt 0)) m1"
    using copy_section_copies [OF assms(1) buf, of 0] assms(5) unfolding assms(3) Let_def by simp
  finally have "map_sections Base Buffer m (Base + x) =
      m1 (Buffer + PointerToRawData m (section_header m nt 0) + (x - VirtualAddress m (section_header m nt 0)))"
    using assms(6) unfolding RtlCopyMemory_def in_section_def by simp
  also have "\<dots> = m (Buffer + PointerToRawData m (section_header m nt 0) + (x - VirtualAddress m (section_header m nt 0)))"
    by (rule buf [rule_format]) (use assms(6,8) in \<open>auto simp: in_section_def\<close>)
  finally show ?thesis .
qed

section \<open>Resources\<close>

definition pool_balance :: "addr \<Rightarrow> file_event list \<Rightarrow> int" where
  "pool_balance a evs = (\<Sum>e\<leftarrow>evs. case e of AllocatedPool b n \<Rightarrow> (if a = b then 1 else 0)
     | FreedPool b \<Rightarrow> (if a = b then - 1 else 0) | _ \<Rightarrow> 0)"

lemma pool_balance_simps [simp]:
  "pool_balance a [] = 0"
  "pool_balance a (OpenedFile # evs) = pool_balance a evs"
  "pool_balance a (ClosedFile # evs) = pool_balance a evs"
  "pool_balance a (AllocatedPool b n # evs) = (if a = b then 1 else 0) + pool_balance a evs"
  "pool_balance a (FreedPool b # evs) = (if a = b then - 1 else 0) + pool_balance a evs"
  "pool_balance a (evs @ evs') = pool_balance a evs + pool_balance a evs'"
  by (simp_all add: pool_balance_def)

lemma build_image_events:
  "build_image env ri Buffer m = Some (Inl st, evs) \<Longrightarrow>
     evs = [] \<or> (\<exists>n. evs = [AllocatedPool (the (fe_Base env)) n])"
  "build_image env ri Buffer m = Some (Inr (Base, sz, m'), evs) \<Longrightarrow> evs = [AllocatedPool Base sz]"
  by (auto simp: build_image_def Let_def split: option.splits if_splits)

text \<open>Whatever fails, the loader closes the file it opened and frees every pool block it took; when it
  succeeds, the image is the only block left, and a failure is reported with a failure status.\<close>

theorem load_dll_resources:
  assumes "LdkpLoadDll env ri m = Some (r, evs)"
  shows "count_list evs OpenedFile = count_list evs ClosedFile \<and>
    (\<forall>a. pool_balance a evs = (case r of Inl _ \<Rightarrow> 0 | Inr (Base, sz, m') \<Rightarrow> if a = Base then 1 else 0))"
proof -
  have 1: "count_list evs' OpenedFile = 0 \<and> count_list evs' ClosedFile = 0 \<and>
      (\<forall>a. pool_balance a evs' = (if evs' = [] then 0 else if a = the (fe_Base env) then 1 else 0))"
    if "build_image env ri Buffer m' = Some (Inl st, evs')" for Buffer m' st evs'
    using build_image_events(1) [OF that] by auto
  have 2: "count_list evs' OpenedFile = 0 \<and> count_list evs' ClosedFile = 0 \<and>
      (\<forall>a. pool_balance a evs' = (if a = Base then 1 else 0))"
    if "build_image env ri Buffer m' = Some (Inr (Base, sz, m''), evs')" for Buffer m' Base sz m'' evs'
    using build_image_events(2) [OF that] by auto
  show ?thesis
    using assms unfolding LdkpLoadDll_def Let_def
    by (auto split: if_splits sum.splits option.splits prod.splits dest!: 1 2)
qed

section \<open>A small library\<close>

text \<open>A file of 192 bytes at address 1000 with one section of four bytes at offset 16 of the image.\<close>

definition small_dll :: "u8 \<Rightarrow> image" where
  "small_dll sz = (\<lambda>_. 0)(1000 := 0x4D, 1001 := 0x5A, 1060 := 64, 1064 := 0x50, 1065 := 0x45, 1068 := 0x64, 1069 := 0x86,
     1070 := 1, 1084 := 64, 1087 := 0x20, 1144 := sz, 1164 := 16, 1168 := 4)"

lemma small_dll_nt: "nt_header (small_dll sz) 1000 = 1064"
  by (simp add: nt_header_def read_le_4 small_dll_def)

lemma small_dll_header:
  "NumberOfSections (small_dll sz) 1064 = 1" "SizeOfHeaders (small_dll sz) 1064 = 0"
  "SizeOfImage (small_dll sz) 1064 = unat sz" "section_header (small_dll sz) 1064 i = 1152 + 40 * i"
  "VirtualAddress (small_dll sz) 1152 = 16" "SizeOfRawData (small_dll sz) 1152 = 4"
  "PointerToRawData (small_dll sz) 1152 = 0"
  by (simp_all add: NumberOfSections_def SizeOfHeaders_def SizeOfImage_def section_header_def VirtualAddress_def
      SizeOfRawData_def PointerToRawData_def read_le_2 read_le_4 small_dll_def)

lemma small_dll_checks: "check_headers (small_dll sz) 1000 = STATUS_SUCCESS"
  by (simp add: check_headers_def small_dll_nt FileHeader_Machine_def read_le_2 read_le_4 Let_def)
    (simp add: small_dll_def)

lemma small_dll_in_file: "headers_in_file (small_dll sz) 1000 192"
  by (simp add: headers_in_file_def small_dll_nt small_dll_header Let_def)

lemma small_dll_section: "in_section (small_dll sz) 1064 0 x \<longleftrightarrow> 16 \<le> x \<and> x < 20"
  by (simp add: in_section_def small_dll_header)

theorem map_sections_places_witness:
  "map_sections 2000 1000 (small_dll 32) 2016 = 0x4D"
proof -
  have "image_fits 2000 1000 192 (small_dll 32)"
    by (simp add: image_fits_def small_dll_nt small_dll_header small_dll_in_file Let_def)
  from map_sections_places [OF this]
  have "map_sections 2000 1000 (small_dll 32) (2000 + 16) = small_dll 32 (1000 + 0 + (16 - 16))"
    unfolding small_dll_nt small_dll_header by (auto simp: small_dll_header small_dll_section)
  then show ?thesis by (simp add: small_dll_def)
qed

theorem section_overrun_witness:
  "check_headers (small_dll 16) 1000 = STATUS_SUCCESS \<and> SizeOfImage (small_dll 16) 1064 = 16 \<and>
   map_sections 2000 1000 (small_dll 16) (2000 + 16) = 0x4D"
proof -
  have "map_sections 2000 1000 (small_dll 16) (2000 + 16) = small_dll 16 (1000 + 0 + (16 - 16))"
    using section_overrun [OF small_dll_in_file, of 2000 1064 16 16]
    by (simp add: small_dll_nt small_dll_header small_dll_section)
  then show ?thesis by (simp add: small_dll_checks small_dll_header) (simp add: small_dll_def)
qed

text \<open>The same file with a kernel that has no memory for the image.\<close>

definition small_env :: file_env where
  "small_env = \<lparr>fe_Open = STATUS_SUCCESS, fe_EndOfFile = Inr 192, fe_Buffer = Some 1000, fe_Read = STATUS_PENDING,
     fe_Wait = STATUS_SUCCESS, fe_IoStatus = STATUS_SUCCESS, fe_Bytes = (\<lambda>x. small_dll 32 (1000 + x)),
     fe_Base = None, fe_RelocDirectory = (\<lambda>_. None), fe_Imports = (\<lambda>_. STATUS_SUCCESS), fe_Fuel = 0\<rparr>"

lemma small_env_simps:
  "fe_Open small_env = STATUS_SUCCESS" "fe_EndOfFile small_env = Inr 192" "fe_Buffer small_env = Some 1000"
  "fe_Read small_env = STATUS_PENDING" "fe_Wait small_env = STATUS_SUCCESS" "fe_IoStatus small_env = STATUS_SUCCESS"
  "fe_Base small_env = None" "fe_Bytes small_env y = small_dll 32 (1000 + y)"
  by (simp_all add: small_env_def)

theorem load_dll_resources_witness:
  "\<exists>evs. LdkpLoadDll small_env True (\<lambda>_. 0) = Some (Inl STATUS_INSUFFICIENT_RESOURCES, evs) \<and> pool_balance 1000 evs = 0"
proof -
  have m: "(\<lambda>x. if 1000 \<le> x \<and> x < 1192 then fe_Bytes small_env (x - 1000) else 0) = small_dll 32"
  proof
    fix x
    have "small_dll 32 x = 0" if "\<not> (1000 \<le> x \<and> x < 1192)" using that by (auto simp: small_dll_def)
    then show "(if 1000 \<le> x \<and> x < 1192 then fe_Bytes small_env (x - 1000) else 0) = small_dll 32 x"
      by (simp add: small_env_simps)
  qed
  have "LdkpLoadDll small_env True (\<lambda>_. 0) =
      Some (Inl STATUS_INSUFFICIENT_RESOURCES, [OpenedFile, AllocatedPool 1000 192, ClosedFile, FreedPool 1000])"
    unfolding LdkpLoadDll_def read_status_def Let_def
    by (simp add: small_env_simps build_image_def small_dll_checks Let_def m [simplified])
  with load_dll_resources [OF this] show ?thesis by auto
qed

end
