(* ===== verification/ThreadpoolWork.thy ===== *)
theory ThreadpoolWork
  imports UnicodeStrings
begin

text \<open>
  Work objects of the thread pool (src/kernel32/threadpoolapiset.c): submitting, the routine of the worker
  thread, waiting and closing, with one memory access per step. Any number of threads act on
  one work object; its lifetime is its reference count, and waiting goes by the count of outstanding
  items and an event.
\<close>

section \<open>The object\<close>

abbreviation LDK_TP_WORK_FLAGS_DELETE_REQUESTED :: u32 where "LDK_TP_WORK_FLAGS_DELETE_REQUESTED \<equiv> 1"
abbreviation LDK_TP_WORK_FLAGS_CANCEL_REQUESTED :: u32 where "LDK_TP_WORK_FLAGS_CANCEL_REQUESTED \<equiv> 2"

record tp_work =
  tw_ReferenceCount :: int
  tw_Flags :: u32
  tw_OutstandingCount :: int
  tw_Event :: bool

definition new_work :: tp_work where
  "new_work = \<lparr>tw_ReferenceCount = 1, tw_Flags = 0, tw_OutstandingCount = 0, tw_Event = True\<rparr>"

text \<open>The first component tells whether the object goes back to its lookaside list.\<close>

definition LdkpDereferenceThreadpoolWork :: "tp_work \<Rightarrow> bool \<times> tp_work" where
  "LdkpDereferenceThreadpoolWork w =
     (tw_ReferenceCount w - 1 = 0, w\<lparr>tw_ReferenceCount := tw_ReferenceCount w - 1\<rparr>)"

definition work_reference :: "tp_work \<Rightarrow> tp_work" where
  "work_reference w = w\<lparr>tw_ReferenceCount := tw_ReferenceCount w + 1\<rparr>"

definition work_end_outstanding :: "tp_work \<Rightarrow> bool \<times> tp_work" where
  "work_end_outstanding w =
     (tw_OutstandingCount w - 1 = 0, w\<lparr>tw_OutstandingCount := tw_OutstandingCount w - 1\<rparr>)"

definition work_or :: "u32 \<Rightarrow> tp_work \<Rightarrow> tp_work" where
  "work_or f w = w\<lparr>tw_Flags := tw_Flags w OR f\<rparr>"

definition work_clear :: "u32 \<Rightarrow> tp_work \<Rightarrow> tp_work" where
  "work_clear f w = w\<lparr>tw_Flags := tw_Flags w AND NOT f\<rparr>"

section \<open>The machine\<close>

text \<open>A wait and a close carry whether pending callbacks are cancelled; a wait has a mark if it is the
  one by which \<open>CloseThreadpoolCleanupGroupMembers\<close> closes the object, and so has a close.\<close>

datatype tw_pc =
    TwIdle
  | SubRef | SubOut | SubReset | SubAlloc | SubFail | SubFailSet | SubFailDeref
  | WrkBegin | WrkCall bool | WrkComplete | WrkAnd | WrkSet | WrkDeref
  | WaitRef bool bool | WaitFlag bool bool | WaitBlocked bool bool | WaitAnd bool bool | WaitDeref bool
  | CloseOr bool bool | CloseDeref

record work_sys =
  ws :: tp_work
  ws_Freed :: nat
  ws_Open :: bool
  ws_Queue :: nat
  wpc :: "tid \<Rightarrow> tw_pc"

definition work_init :: "work_sys \<Rightarrow> bool" where
  "work_init c \<longleftrightarrow> ws c = new_work \<and> ws_Freed c = 0 \<and> ws_Open c \<and> ws_Queue c = 0 \<and> (\<forall>k. wpc c k = TwIdle)"

text \<open>A client calls only while it holds the object, and closes it once and not while another of its
  calls has not taken its reference yet; a call from a callback is a call of a further thread.\<close>

definition work_entering :: "tw_pc \<Rightarrow> bool" where
  "work_entering p \<longleftrightarrow> p = SubRef \<or> (\<exists>cancel. p = WaitRef cancel False)"

inductive work_step :: "work_sys \<Rightarrow> work_sys \<Rightarrow> bool" where
  submit: "wpc c k = TwIdle \<Longrightarrow> ws_Open c \<Longrightarrow>
    work_step c (c\<lparr>wpc := (wpc c)(k :=
      if flag_on (tw_Flags (ws c)) LDK_TP_WORK_FLAGS_DELETE_REQUESTED then TwIdle else SubRef)\<rparr>)"
| submit_reference: "wpc c k = SubRef \<Longrightarrow>
    work_step c (c\<lparr>ws := work_reference (ws c), wpc := (wpc c)(k := SubOut)\<rparr>)"
| submit_outstanding: "wpc c k = SubOut \<Longrightarrow>
    work_step c (c\<lparr>ws := (ws c)\<lparr>tw_OutstandingCount := tw_OutstandingCount (ws c) + 1\<rparr>, wpc := (wpc c)(k := SubReset)\<rparr>)"
| submit_reset: "wpc c k = SubReset \<Longrightarrow>
    work_step c (c\<lparr>ws := (ws c)\<lparr>tw_Event := False\<rparr>, wpc := (wpc c)(k := SubAlloc)\<rparr>)"
| submit_queue: "wpc c k = SubAlloc \<Longrightarrow>
    work_step c (c\<lparr>ws_Queue := ws_Queue c + 1, wpc := (wpc c)(k := TwIdle)\<rparr>)"
| submit_no_memory: "wpc c k = SubAlloc \<Longrightarrow>
    work_step c (c\<lparr>wpc := (wpc c)(k := SubFail)\<rparr>)"
| submit_undo: "wpc c k = SubFail \<Longrightarrow> work_end_outstanding (ws c) = (zero, w) \<Longrightarrow>
    work_step c (c\<lparr>ws := w, wpc := (wpc c)(k := if zero then SubFailSet else SubFailDeref)\<rparr>)"
| submit_undo_set: "wpc c k = SubFailSet \<Longrightarrow>
    work_step c (c\<lparr>ws := (ws c)\<lparr>tw_Event := True\<rparr>, wpc := (wpc c)(k := SubFailDeref)\<rparr>)"
| submit_undo_deref: "wpc c k = SubFailDeref \<Longrightarrow> LdkpDereferenceThreadpoolWork (ws c) = (zero, w) \<Longrightarrow>
    work_step c (c\<lparr>ws := w, ws_Freed := ws_Freed c + of_bool zero, wpc := (wpc c)(k := TwIdle)\<rparr>)"
| worker: "wpc c k = TwIdle \<Longrightarrow> ws_Queue c > 0 \<Longrightarrow>
    work_step c (c\<lparr>ws_Queue := ws_Queue c - 1, wpc := (wpc c)(k := WrkBegin)\<rparr>)"
| worker_begin: "wpc c k = WrkBegin \<Longrightarrow>
    work_step c (c\<lparr>wpc := (wpc c)(k := WrkCall (\<not> flag_on (tw_Flags (ws c)) LDK_TP_WORK_FLAGS_CANCEL_REQUESTED))\<rparr>)"
| worker_call: "wpc c k = WrkCall invoke \<Longrightarrow>
    work_step c (c\<lparr>wpc := (wpc c)(k := WrkComplete)\<rparr>)"
| worker_complete: "wpc c k = WrkComplete \<Longrightarrow> work_end_outstanding (ws c) = (zero, w) \<Longrightarrow>
    work_step c (c\<lparr>ws := w, wpc := (wpc c)(k := if zero then WrkAnd else WrkDeref)\<rparr>)"
| worker_and: "wpc c k = WrkAnd \<Longrightarrow>
    work_step c (c\<lparr>ws := work_clear LDK_TP_WORK_FLAGS_CANCEL_REQUESTED (ws c), wpc := (wpc c)(k := WrkSet)\<rparr>)"
| worker_set: "wpc c k = WrkSet \<Longrightarrow>
    work_step c (c\<lparr>ws := (ws c)\<lparr>tw_Event := True\<rparr>, wpc := (wpc c)(k := WrkDeref)\<rparr>)"
| worker_deref: "wpc c k = WrkDeref \<Longrightarrow> LdkpDereferenceThreadpoolWork (ws c) = (zero, w) \<Longrightarrow>
    work_step c (c\<lparr>ws := w, ws_Freed := ws_Freed c + of_bool zero, wpc := (wpc c)(k := TwIdle)\<rparr>)"
| wait_call: "wpc c k = TwIdle \<Longrightarrow> ws_Open c \<Longrightarrow>
    work_step c (c\<lparr>wpc := (wpc c)(k := WaitRef cancel False)\<rparr>)"
| wait_refused: "wpc c k = WaitRef cancel closing \<Longrightarrow> tw_ReferenceCount (ws c) + 1 \<le> 1 \<Longrightarrow>
    work_step c (c\<lparr>ws := work_reference (ws c), wpc := (wpc c)(k := if closing then CloseDeref else TwIdle)\<rparr>)"
| wait_reference: "wpc c k = WaitRef cancel closing \<Longrightarrow> 1 < tw_ReferenceCount (ws c) + 1 \<Longrightarrow>
    work_step c (c\<lparr>ws := work_reference (ws c), wpc := (wpc c)(k := WaitFlag cancel closing)\<rparr>)"
| wait_flag: "wpc c k = WaitFlag cancel closing \<Longrightarrow>
    work_step c (c\<lparr>ws := (if cancel then work_or LDK_TP_WORK_FLAGS_CANCEL_REQUESTED (ws c) else ws c),
      wpc := (wpc c)(k := WaitBlocked cancel closing)\<rparr>)"
| wait_satisfied: "wpc c k = WaitBlocked cancel closing \<Longrightarrow> tw_Event (ws c) \<Longrightarrow>
    work_step c (c\<lparr>wpc := (wpc c)(k := WaitAnd cancel closing)\<rparr>)"
| wait_and: "wpc c k = WaitAnd cancel closing \<Longrightarrow>
    work_step c (c\<lparr>ws := (if cancel then work_clear LDK_TP_WORK_FLAGS_CANCEL_REQUESTED (ws c) else ws c),
      wpc := (wpc c)(k := WaitDeref closing)\<rparr>)"
| wait_deref: "wpc c k = WaitDeref closing \<Longrightarrow> LdkpDereferenceThreadpoolWork (ws c) = (zero, w) \<Longrightarrow>
    work_step c (c\<lparr>ws := w, ws_Freed := ws_Freed c + of_bool zero,
      wpc := (wpc c)(k := if closing then CloseDeref else TwIdle)\<rparr>)"
| close: "wpc c k = TwIdle \<Longrightarrow> ws_Open c \<Longrightarrow> \<forall>j. \<not> work_entering (wpc c j) \<Longrightarrow>
    work_step c (c\<lparr>ws_Open := False, wpc := (wpc c)(k := CloseOr cancel grouped)\<rparr>)"
| close_or: "wpc c k = CloseOr cancel grouped \<Longrightarrow>
    work_step c (c\<lparr>ws := work_or LDK_TP_WORK_FLAGS_DELETE_REQUESTED (ws c),
      wpc := (wpc c)(k := if grouped then WaitRef cancel True else CloseDeref)\<rparr>)"
| close_deref: "wpc c k = CloseDeref \<Longrightarrow> LdkpDereferenceThreadpoolWork (ws c) = (zero, w) \<Longrightarrow>
    work_step c (c\<lparr>ws := w, ws_Freed := ws_Freed c + of_bool zero, wpc := (wpc c)(k := TwIdle)\<rparr>)"

abbreviation work_reach :: "work_sys \<Rightarrow> bool" where
  "work_reach \<equiv> reach work_init work_step"

lemmas work_reach_step = reach_step [of work_init work_step]

section \<open>References and outstanding items\<close>

text \<open>The points at which a thread owns a reference, a second one, and an outstanding item.\<close>

fun work_holds :: "tw_pc \<Rightarrow> bool" where
  "work_holds TwIdle = False"
| "work_holds SubRef = False"
| "work_holds (WaitRef _ _) = False"
| "work_holds _ = True"

fun work_holds_twice :: "tw_pc \<Rightarrow> bool" where
  "work_holds_twice (WaitRef _ closing) = closing"
| "work_holds_twice (WaitFlag _ closing) = closing"
| "work_holds_twice (WaitBlocked _ closing) = closing"
| "work_holds_twice (WaitAnd _ closing) = closing"
| "work_holds_twice (WaitDeref closing) = closing"
| "work_holds_twice _ = False"

fun work_outstanding :: "tw_pc \<Rightarrow> bool" where
  "work_outstanding SubReset = True"
| "work_outstanding SubAlloc = True"
| "work_outstanding SubFail = True"
| "work_outstanding WrkBegin = True"
| "work_outstanding (WrkCall _) = True"
| "work_outstanding WrkComplete = True"
| "work_outstanding _ = False"

fun work_setting :: "tw_pc \<Rightarrow> bool" where
  "work_setting WrkAnd = True"
| "work_setting WrkSet = True"
| "work_setting SubFailSet = True"
| "work_setting _ = False"

definition work_inv :: "work_sys \<Rightarrow> bool" where
  "work_inv c \<longleftrightarrow> finite_at (\<lambda>p. p \<noteq> TwIdle) (wpc c) \<and>
     tw_ReferenceCount (ws c) = of_bool (ws_Open c) + int (ws_Queue c) + count_at work_holds (wpc c) + count_at work_holds_twice (wpc c) \<and>
     tw_OutstandingCount (ws c) = int (ws_Queue c) + count_at work_outstanding (wpc c) \<and>
     ws_Freed c = of_bool (tw_ReferenceCount (ws c) = 0) \<and>
     (\<forall>k. work_entering (wpc c k) \<longrightarrow> ws_Open c)"

lemma work_finite:
  assumes "finite_at (\<lambda>p. p \<noteq> TwIdle) f"
  shows "finite_at work_holds f" "finite_at work_holds_twice f" "finite_at work_outstanding f"
  using assms by (auto intro!: finite_at_mono [OF assms] elim: work_holds.elims work_holds_twice.elims work_outstanding.elims)

lemma work_holder_counts:
  assumes "finite_at (\<lambda>p. p \<noteq> TwIdle) f"
  shows "work_holds (f k) \<Longrightarrow> 1 \<le> count_at work_holds f" "work_holds_twice (f k) \<Longrightarrow> 1 \<le> count_at work_holds_twice f"
    "work_outstanding (f k) \<Longrightarrow> 1 \<le> count_at work_outstanding f"
  using count_at_pos work_finite [OF assms] by auto

lemmas work_ops = LdkpDereferenceThreadpoolWork_def work_reference_def work_end_outstanding_def work_or_def work_clear_def

lemma work_step_inv:
  assumes "work_inv c" and "work_step c d"
  shows "work_inv d"
proof -
  have fin: "finite_at (\<lambda>p. p \<noteq> TwIdle) (wpc c)" using assms(1) by (simp add: work_inv_def)
  note upd = count_at_upd [OF work_finite(1) [OF fin]] count_at_upd [OF work_finite(2) [OF fin]]
    count_at_upd [OF work_finite(3) [OF fin]]
  obtain h t n where cnt: "count_at work_holds (wpc c) = int h" "count_at work_holds_twice (wpc c) = int t"
    "count_at work_outstanding (wpc c) = int n" by (meson count_at_def)
  note w = assms(1) [unfolded work_inv_def cnt]
  have alive: "1 \<le> tw_ReferenceCount (ws c)" if "work_holds (wpc c k) \<or> work_holds_twice (wpc c k) \<or> work_entering (wpc c k)" for k
    using work_holder_counts [OF fin, unfolded cnt, of k] w that by (auto simp: of_bool_def)
  note simps = work_inv_def upd cnt work_ops work_entering_def of_bool_def
  from assms(2) show ?thesis
  proof cases
    case (submit_undo_deref k zero w')
    then show ?thesis using w alive [of k] by (auto simp: simps)
  next
    case (worker_deref k zero w')
    then show ?thesis using w alive [of k] by (auto simp: simps)
  next
    case (wait_refused k cancel closing)
    then show ?thesis using w alive [of k] by (auto simp: work_entering_def)
  next
    case (wait_deref k closing zero w')
    then show ?thesis using w alive [of k] by (auto simp: simps)
  next
    case (close_deref k zero w')
    then show ?thesis using w alive [of k] by (auto simp: simps)
  qed (use w in \<open>auto simp: simps split: if_splits\<close>)
qed

lemma work_reach_inv: "work_reach c \<Longrightarrow> work_inv c"
proof (induction rule: reach_induct)
  case (init c)
  then show ?case by (simp add: work_init_def work_inv_def new_work_def count_at_none finite_at_none work_entering_def)
next
  case (step c d)
  then show ?case using work_step_inv by blast
qed

text \<open>C20: A work object is freed once and only when the client has closed it, no item of it is queued, and
  no thread is inside any of its routines; and then it has been freed.\<close>

theorem work_lifetime:
  assumes "work_reach c"
  shows "ws_Freed c = (if ws_Open c \<or> 0 < ws_Queue c \<or> (\<exists>k. wpc c k \<noteq> TwIdle) then 0 else 1)"
proof (cases "ws_Open c \<or> 0 < ws_Queue c \<or> (\<exists>k. wpc c k \<noteq> TwIdle)")
  case False
  then have "tw_ReferenceCount (ws c) = 0" using work_reach_inv [OF assms] by (auto simp: work_inv_def count_at_none)
  then show ?thesis using False work_reach_inv [OF assms] by (simp add: work_inv_def)
next
  case True
  note inv = work_reach_inv [OF assms]
  have fin: "finite_at (\<lambda>p. p \<noteq> TwIdle) (wpc c)" using inv by (simp add: work_inv_def)
  obtain h t where cnt: "count_at work_holds (wpc c) = int h" "count_at work_holds_twice (wpc c) = int t"
    by (meson count_at_def)
  have rc: "tw_ReferenceCount (ws c) = of_bool (ws_Open c) + int (ws_Queue c) + int h + int t"
    using inv cnt by (simp add: work_inv_def)
  have "1 \<le> tw_ReferenceCount (ws c)" if "wpc c k \<noteq> TwIdle" for k
  proof -
    have "work_holds (wpc c k) \<or> work_holds_twice (wpc c k) \<or> work_entering (wpc c k)"
      using that by (cases "wpc c k") (auto simp: work_entering_def)
    then show ?thesis using work_holder_counts [OF fin, of k] inv cnt rc by (auto simp: work_inv_def)
  qed
  then have "tw_ReferenceCount (ws c) \<noteq> 0" using True rc by auto
  then show ?thesis using True inv by (simp add: work_inv_def)
qed

text \<open>Under the rules for clients a wait is never refused.\<close>

theorem work_wait_not_refused:
  assumes "work_reach c" and "wpc c k = WaitRef cancel closing"
  shows "1 < tw_ReferenceCount (ws c) + 1"
proof -
  note inv = work_reach_inv [OF assms(1)]
  have "tw_ReferenceCount (ws c) \<noteq> 0" using work_lifetime [OF assms(1)] assms(2) inv by (auto simp: work_inv_def split: if_splits)
  moreover have "0 \<le> tw_ReferenceCount (ws c)" using inv by (simp add: work_inv_def)
  ultimately show ?thesis by linarith
qed

section \<open>The event\<close>

definition work_signalled :: "work_sys \<Rightarrow> bool" where
  "work_signalled c \<longleftrightarrow> tw_Event (ws c) \<or> 0 < tw_OutstandingCount (ws c) \<or> (\<exists>k. work_setting (wpc c k))"

lemma work_signalled_upd:
  assumes "work_signalled c"
    and "\<exists>k p. wpc d = (wpc c)(k := p) \<and> (work_setting (wpc c k) \<longrightarrow> work_setting p \<or> tw_Event (ws d)) \<and>
      (tw_Event (ws c) \<longrightarrow> tw_Event (ws d)) \<and> tw_OutstandingCount (ws c) \<le> tw_OutstandingCount (ws d)"
  shows "work_signalled d"
proof -
  obtain k p where d: "wpc d = (wpc c)(k := p)" "work_setting (wpc c k) \<Longrightarrow> work_setting p \<or> tw_Event (ws d)"
    "tw_Event (ws c) \<Longrightarrow> tw_Event (ws d)" "tw_OutstandingCount (ws c) \<le> tw_OutstandingCount (ws d)" using assms(2) by blast
  have "work_setting (wpc d k) \<or> tw_Event (ws d) \<or> work_setting (wpc d j)" if "work_setting (wpc c j)" for j
    using that d(1,2) by (cases "j = k") auto
  then show ?thesis using assms(1) d(3,4) unfolding work_signalled_def by (meson less_le_trans)
qed

lemma work_step_signalled:
  assumes inv: "work_inv c" and step: "work_step c d" and c: "work_signalled c"
  shows "work_signalled d"
proof -
  have fin: "finite_at (\<lambda>p. p \<noteq> TwIdle) (wpc c)" using inv by (simp add: work_inv_def)
  have n: "0 < tw_OutstandingCount (ws c)" if "work_outstanding (wpc c k)" for k
    using work_holder_counts(3) [OF fin that] inv by (simp add: work_inv_def)
  from step show ?thesis
  proof cases
    case (submit_reset k)
    then show ?thesis using n [of k] by (simp add: work_signalled_def)
  next
    case (submit_undo k zero w)
    then show ?thesis using n [of k] by (auto simp: work_signalled_def work_ops)
  next
    case (worker_complete k zero w)
    then show ?thesis using n [of k] by (auto simp: work_signalled_def work_ops)
  qed (rule work_signalled_upd [OF c], hypsubst, simp add: work_ops del: fun_upd_apply split del: if_split, (rule exI)+,
    (rule refl | (rule conjI, rule refl, (auto simp: work_ops split: if_splits)[1])))+
qed

lemma work_reach_signalled: "work_reach c \<Longrightarrow> work_signalled c"
proof (induction rule: reach_induct)
  case (init c)
  then show ?case by (simp add: work_init_def work_signalled_def new_work_def)
next
  case (step c d)
  then show ?case using work_step_signalled work_reach_inv by blast
qed

text \<open>No wait for callbacks is forgotten: while the event of a work object is clear, an item of it is
  queued, or a thread is submitting or running one, or a thread is about to set the event.\<close>

theorem work_wait_served:
  assumes "work_reach c" and "\<not> tw_Event (ws c)"
  shows "0 < ws_Queue c \<or> (\<exists>k. work_outstanding (wpc c k) \<or> work_setting (wpc c k))"
proof (rule ccontr)
  assume no: "\<not> ?thesis"
  then have "tw_OutstandingCount (ws c) = 0" using work_reach_inv [OF assms(1)] by (auto simp: work_inv_def count_at_none)
  then show False using work_reach_signalled [OF assms(1)] assms(2) no by (auto simp: work_signalled_def)
qed

text \<open>Two items: the second is submitted while the worker of the first is between its decrement and the
  setting of the event.\<close>

definition overtaken :: "(tid \<Rightarrow> tw_pc) \<Rightarrow> nat \<Rightarrow> tp_work \<Rightarrow> work_sys" where
  "overtaken f q w = \<lparr>ws = w, ws_Freed = 0, ws_Open = True, ws_Queue = q, wpc = f\<rparr>"

lemma submit_run:
  assumes "work_reach (overtaken f q w)" and "f k = TwIdle" and "tw_Flags w = 0"
  shows "work_reach (overtaken f (q + 1) (w\<lparr>tw_ReferenceCount := tw_ReferenceCount w + 1,
    tw_OutstandingCount := tw_OutstandingCount w + 1, tw_Event := False\<rparr>))"
proof -
  let ?w1 = "work_reference w"
  let ?w2 = "?w1\<lparr>tw_OutstandingCount := tw_OutstandingCount ?w1 + 1\<rparr>"
  let ?w3 = "?w2\<lparr>tw_Event := False\<rparr>"
  have "work_step (overtaken f q w) (overtaken (f(k := SubRef)) q w)"
    using work_step.submit [of "overtaken f q w" k] assms(2,3) by (simp add: overtaken_def flag_on_def)
  moreover have "work_step (overtaken (f(k := SubRef)) q w) (overtaken (f(k := SubOut)) q ?w1)"
    using work_step.submit_reference [of "overtaken (f(k := SubRef)) q w" k] by (simp add: overtaken_def)
  moreover have "work_step (overtaken (f(k := SubOut)) q ?w1) (overtaken (f(k := SubReset)) q ?w2)"
    using work_step.submit_outstanding [of "overtaken (f(k := SubOut)) q ?w1" k] by (simp add: overtaken_def)
  moreover have "work_step (overtaken (f(k := SubReset)) q ?w2) (overtaken (f(k := SubAlloc)) q ?w3)"
    using work_step.submit_reset [of "overtaken (f(k := SubReset)) q ?w2" k] by (simp add: overtaken_def)
  moreover have "work_step (overtaken (f(k := SubAlloc)) q ?w3) (overtaken f (q + 1) ?w3)"
    using work_step.submit_queue [of "overtaken (f(k := SubAlloc)) q ?w3" k] assms(2)
    by (simp add: overtaken_def fun_upd_idem)
  ultimately have "work_reach (overtaken f (q + 1) ?w3)" using assms(1) work_reach_step by blast
  then show ?thesis by (simp add: work_reference_def)
qed

text \<open>A wait can return before the work it waits for: a submission that falls between a worker's last
  decrement and its setting of the event leaves the event set with the new item queued.\<close>

theorem work_wait_overtaken:
  "\<exists>c. work_reach c \<and> (\<forall>k. wpc c k = TwIdle) \<and> ws_Queue c = 1 \<and> tw_OutstandingCount (ws c) = 1 \<and> tw_Event (ws c)"
proof -
  let ?idle = "\<lambda>_ :: tid. TwIdle"
  let ?w = "\<lambda>r n e. \<lparr>tw_ReferenceCount = r, tw_Flags = 0, tw_OutstandingCount = n, tw_Event = e\<rparr>"
  let ?at = "\<lambda>p. ?idle(1 := p)"
  have "work_reach (overtaken ?idle 0 (?w 1 0 True))"
    by (rule reach_init) (simp add: work_init_def overtaken_def new_work_def)
  from submit_run [OF this] have run1: "work_reach (overtaken ?idle 1 (?w 2 1 False))" by simp
  have "work_step (overtaken ?idle 1 (?w 2 1 False)) (overtaken (?at WrkBegin) 0 (?w 2 1 False))"
    using work_step.worker [of "overtaken ?idle 1 (?w 2 1 False)" 1] by (simp add: overtaken_def)
  moreover have "work_step (overtaken (?at WrkBegin) 0 (?w 2 1 False)) (overtaken (?at (WrkCall True)) 0 (?w 2 1 False))"
    using work_step.worker_begin [of "overtaken (?at WrkBegin) 0 (?w 2 1 False)" 1] by (simp add: overtaken_def flag_on_def)
  moreover have "work_step (overtaken (?at (WrkCall True)) 0 (?w 2 1 False)) (overtaken (?at WrkComplete) 0 (?w 2 1 False))"
    using work_step.worker_call [of "overtaken (?at (WrkCall True)) 0 (?w 2 1 False)" 1] by (simp add: overtaken_def)
  moreover have "work_step (overtaken (?at WrkComplete) 0 (?w 2 1 False)) (overtaken (?at WrkAnd) 0 (?w 2 0 False))"
    using work_step.worker_complete [of "overtaken (?at WrkComplete) 0 (?w 2 1 False)" 1 True "?w 2 0 False"]
    by (simp add: overtaken_def work_end_outstanding_def)
  ultimately have "work_reach (overtaken (?at WrkAnd) 0 (?w 2 0 False))" using run1 work_reach_step by blast
  from submit_run [OF this, of 0] have run2: "work_reach (overtaken (?at WrkAnd) 1 (?w 3 1 False))" by simp
  have "work_step (overtaken (?at WrkAnd) 1 (?w 3 1 False)) (overtaken (?at WrkSet) 1 (?w 3 1 False))"
    using work_step.worker_and [of "overtaken (?at WrkAnd) 1 (?w 3 1 False)" 1] by (simp add: overtaken_def work_clear_def)
  moreover have "work_step (overtaken (?at WrkSet) 1 (?w 3 1 False)) (overtaken (?at WrkDeref) 1 (?w 3 1 True))"
    using work_step.worker_set [of "overtaken (?at WrkSet) 1 (?w 3 1 False)" 1] by (simp add: overtaken_def)
  moreover have "work_step (overtaken (?at WrkDeref) 1 (?w 3 1 True)) (overtaken ?idle 1 (?w 2 1 True))"
    using work_step.worker_deref [of "overtaken (?at WrkDeref) 1 (?w 3 1 True)" 1 False "?w 2 1 True"]
    by (simp add: overtaken_def LdkpDereferenceThreadpoolWork_def fun_upd_idem)
  ultimately have "work_reach (overtaken ?idle 1 (?w 2 1 True))" using run2 work_reach_step by blast
  then show ?thesis by (intro exI [of _ "overtaken ?idle 1 (?w 2 1 True)"]) (simp add: overtaken_def)
qed

section \<open>Concrete runs\<close>

definition closed_work :: work_sys where
  "closed_work = \<lparr>ws = new_work\<lparr>tw_ReferenceCount := 0, tw_Flags := 1\<rparr>, ws_Freed = 1, ws_Open = False, ws_Queue = 0,
     wpc = (\<lambda>_. TwIdle)\<rparr>"

lemma new_work_reach: "work_reach (overtaken (\<lambda>_. TwIdle) 0 new_work)"
  by (rule reach_init) (simp add: work_init_def overtaken_def)

lemma closed_work_reach: "work_reach closed_work"
proof -
  let ?s = "overtaken (\<lambda>_. TwIdle) 0 new_work"
  let ?s1 = "?s\<lparr>ws_Open := False, wpc := (wpc ?s)(0 := CloseOr False False)\<rparr>"
  let ?s2 = "?s1\<lparr>ws := work_or LDK_TP_WORK_FLAGS_DELETE_REQUESTED (ws ?s1), wpc := (wpc ?s1)(0 := CloseDeref)\<rparr>"
  have "work_step ?s ?s1"
    by (rule work_step.close) (simp_all add: overtaken_def work_entering_def)
  moreover have "work_step ?s1 ?s2" using work_step.close_or [of ?s1 0 False False] by simp
  moreover have "work_step ?s2 closed_work"
    using work_step.close_deref [of ?s2 0 True "new_work\<lparr>tw_ReferenceCount := 0, tw_Flags := 1\<rparr>"]
    by (simp add: overtaken_def closed_work_def work_ops new_work_def fun_upd_idem)
  ultimately show ?thesis using new_work_reach work_reach_step by blast
qed

theorem work_lifetime_witness: "ws_Freed closed_work = 1"
  using work_lifetime [OF closed_work_reach] by (simp add: closed_work_def)

theorem work_wait_served_witness:
  "0 < ws_Queue (overtaken (\<lambda>_. TwIdle) 1 (new_work\<lparr>tw_ReferenceCount := 2, tw_OutstandingCount := 1, tw_Event := False\<rparr>))"
proof -
  have "work_reach (overtaken (\<lambda>_. TwIdle) 1 (new_work\<lparr>tw_ReferenceCount := 2, tw_OutstandingCount := 1, tw_Event := False\<rparr>))"
    using submit_run [OF new_work_reach] by (simp add: new_work_def)
  from work_wait_served [OF this] show ?thesis by (simp add: overtaken_def)
qed

end
