(* ===== verification/ThreadpoolTimer.thy ===== *)
theory ThreadpoolTimer
  imports UnicodeStrings
begin

text \<open>
  Timers of the thread pool (src/kernel32/threadpoolapiset.c): the routine of the thread that every timer
  has, arming and disarming, waiting for callbacks and closing. The flags of a timer are changed by
  interlocked operations without the lock and by plain reads and writes under the lock, so those
  are two steps here.
\<close>

section \<open>The object\<close>

abbreviation LDK_TP_TIMER_FLAGS_DELETE_REQUESTED :: u32 where "LDK_TP_TIMER_FLAGS_DELETE_REQUESTED \<equiv> 1"
abbreviation LDK_TP_TIMER_FLAGS_CANCEL_REQUESTED :: u32 where "LDK_TP_TIMER_FLAGS_CANCEL_REQUESTED \<equiv> 2"
abbreviation LDK_TP_TIMER_FLAGS_SET :: u32 where "LDK_TP_TIMER_FLAGS_SET \<equiv> 4"
abbreviation LDK_TP_TIMER_FLAGS_EXPIRED :: u32 where "LDK_TP_TIMER_FLAGS_EXPIRED \<equiv> 8"

record tp_timer =
  tt_ReferenceCount :: int
  tt_Flags :: u32
  tt_OutstandingCount :: int
  tt_Event :: bool
  tt_ControlEvent :: bool
  tt_Locked :: bool
  tt_ThreadHandle :: bool
  tt_DueTime :: int
  tt_Period :: u32
  tt_WindowLength :: u32

text \<open>A timer starts with one reference of the client and one of its thread.\<close>

definition new_timer :: tp_timer where
  "new_timer = \<lparr>tt_ReferenceCount = 2, tt_Flags = 0, tt_OutstandingCount = 0, tt_Event = True,
     tt_ControlEvent = False, tt_Locked = False, tt_ThreadHandle = True, tt_DueTime = 0, tt_Period = 0, tt_WindowLength = 0\<rparr>"

definition LdkpDereferenceThreadpoolTimer :: "tp_timer \<Rightarrow> bool \<times> tp_timer" where
  "LdkpDereferenceThreadpoolTimer w =
     (tt_ReferenceCount w - 1 = 0, w\<lparr>tt_ReferenceCount := tt_ReferenceCount w - 1\<rparr>)"

definition timer_reference :: "tp_timer \<Rightarrow> tp_timer" where
  "timer_reference w = w\<lparr>tt_ReferenceCount := tt_ReferenceCount w + 1\<rparr>"

definition timer_end_outstanding :: "tp_timer \<Rightarrow> bool \<times> tp_timer" where
  "timer_end_outstanding w =
     (tt_OutstandingCount w - 1 = 0, w\<lparr>tt_OutstandingCount := tt_OutstandingCount w - 1\<rparr>)"

definition timer_or :: "u32 \<Rightarrow> tp_timer \<Rightarrow> tp_timer" where
  "timer_or f w = w\<lparr>tt_Flags := tt_Flags w OR f\<rparr>"

definition timer_clear :: "u32 \<Rightarrow> tp_timer \<Rightarrow> tp_timer" where
  "timer_clear f w = w\<lparr>tt_Flags := tt_Flags w AND NOT f\<rparr>"

definition IsThreadpoolTimerSet :: "tp_timer \<Rightarrow> bool" where
  "IsThreadpoolTimerSet w = flag_on (tt_Flags w) LDK_TP_TIMER_FLAGS_SET"

section \<open>The thread of the timer\<close>

datatype timer_pc =
    TtTop | TtIdleWait | TtDueWait int u32 | TtExpired u32 | TtReadExpired | TtWriteExpired u32 | TtCheck
  | TtRef | TtOut | TtReset | TtCall | TtComplete | TtAnd | TtSet | TtDeref | TtExit | TtGone

text \<open>The first locked region of a turn: where it leads.\<close>

definition timer_turn :: "tp_timer \<Rightarrow> timer_pc" where
  "timer_turn w =
     (if flag_on (tt_Flags w) LDK_TP_TIMER_FLAGS_DELETE_REQUESTED then TtExit
      else if \<not> flag_on (tt_Flags w) LDK_TP_TIMER_FLAGS_SET \<or> flag_on (tt_Flags w) LDK_TP_TIMER_FLAGS_EXPIRED then TtIdleWait
      else TtDueWait (tt_DueTime w) (tt_Period w))"

text \<open>The second one, after the due time has passed: a timer without a period is about to be marked; the
  period is the one read with the due time.\<close>

definition timer_expire :: "u32 \<Rightarrow> tp_timer \<Rightarrow> timer_pc \<times> tp_timer" where
  "timer_expire period w =
     (if flag_on (tt_Flags w) LDK_TP_TIMER_FLAGS_DELETE_REQUESTED \<or> \<not> flag_on (tt_Flags w) LDK_TP_TIMER_FLAGS_SET then (TtTop, w)
      else if period = 0 then (TtReadExpired, w\<lparr>tt_Locked := True\<rparr>)
      else (TtCheck, w\<lparr>tt_DueTime := - (int (unat period) * 10000)\<rparr>))"

definition timer_due :: "tp_timer \<Rightarrow> bool" where
  "timer_due w \<longleftrightarrow> flag_on (tt_Flags w) LDK_TP_TIMER_FLAGS_SET \<and>
     \<not> flag_on (tt_Flags w) (LDK_TP_TIMER_FLAGS_DELETE_REQUESTED OR LDK_TP_TIMER_FLAGS_CANCEL_REQUESTED)"

section \<open>The machine\<close>

text \<open>Clients: arming with the flags read, waiting (cancel, and whether it is part of closing a cleanup
  group), and closing (cancel, part of a group, called by the callback itself). The due times the thread has waited
  for, the number of callbacks, and who has closed the timer are recorded.\<close>

datatype client_pc =
    TcIdle
  | TsDisarm u32 | TsArm u32 | TsRead | TsClear u32
  | TwRef bool bool | TwFlag bool bool | TwControl bool bool | TwBlocked bool bool | TwAnd bool bool | TwDeref bool
  | TcCancel bool bool bool | TcOr bool bool bool | TcControl bool bool bool bool | TcJoin bool bool bool bool
  | TcHandle bool bool | TcDeref

record timer_sys =
  tm :: tp_timer
  tm_Freed :: nat
  tm_Open :: bool
  tm_Thread :: timer_pc
  tm_Waited :: "int list"
  tm_Calls :: nat
  tm_Closer :: "(tid \<times> bool) option"
  cpc :: "tid \<Rightarrow> client_pc"

definition timer_init :: "timer_sys \<Rightarrow> bool" where
  "timer_init c \<longleftrightarrow> tm c = new_timer \<and> tm_Freed c = 0 \<and> tm_Open c \<and> tm_Thread c = TtTop \<and> tm_Waited c = [] \<and>
     tm_Calls c = 0 \<and> tm_Closer c = None \<and> (\<forall>k. cpc c k = TcIdle)"

text \<open>Calls that have no reference of their own: the client does not close the timer while one of them
  is under way, closes it once, and does not use it afterwards.\<close>

fun timer_entering :: "client_pc \<Rightarrow> bool" where
  "timer_entering (TsDisarm v) = True"
| "timer_entering (TsArm v) = True"
| "timer_entering TsRead = True"
| "timer_entering (TsClear v) = True"
| "timer_entering (TwRef cancel closing) = (\<not> closing)"
| "timer_entering _ = False"

inductive timer_step :: "timer_sys \<Rightarrow> timer_sys \<Rightarrow> bool" where
  turn: "tm_Thread c = TtTop \<Longrightarrow> \<not> tt_Locked (tm c) \<Longrightarrow>
    timer_step c (c\<lparr>tm_Thread := timer_turn (tm c),
      tm_Waited := tm_Waited c @ (case timer_turn (tm c) of TtDueWait due p \<Rightarrow> [due] | _ \<Rightarrow> [])\<rparr>)"
| idle_wait: "tm_Thread c = TtIdleWait \<Longrightarrow> tt_ControlEvent (tm c) \<Longrightarrow>
    timer_step c (c\<lparr>tm := (tm c)\<lparr>tt_ControlEvent := False\<rparr>, tm_Thread := TtTop\<rparr>)"
| due_control: "tm_Thread c = TtDueWait due period \<Longrightarrow> tt_ControlEvent (tm c) \<Longrightarrow>
    timer_step c (c\<lparr>tm := (tm c)\<lparr>tt_ControlEvent := False\<rparr>, tm_Thread := TtTop\<rparr>)"
| due_timeout: "tm_Thread c = TtDueWait due period \<Longrightarrow> \<not> tt_ControlEvent (tm c) \<Longrightarrow>
    timer_step c (c\<lparr>tm_Thread := TtExpired period\<rparr>)"
| expire: "tm_Thread c = TtExpired period \<Longrightarrow> \<not> tt_Locked (tm c) \<Longrightarrow> timer_expire period (tm c) = (p, w) \<Longrightarrow>
    timer_step c (c\<lparr>tm := w, tm_Thread := p\<rparr>)"
| read_expired: "tm_Thread c = TtReadExpired \<Longrightarrow>
    timer_step c (c\<lparr>tm_Thread := TtWriteExpired (tt_Flags (tm c))\<rparr>)"
| write_expired: "tm_Thread c = TtWriteExpired v \<Longrightarrow>
    timer_step c (c\<lparr>tm := (tm c)\<lparr>tt_Flags := v OR LDK_TP_TIMER_FLAGS_EXPIRED, tt_Locked := False\<rparr>, tm_Thread := TtCheck\<rparr>)"
| check: "tm_Thread c = TtCheck \<Longrightarrow>
    timer_step c (c\<lparr>tm_Thread := if timer_due (tm c) then TtRef else TtTop\<rparr>)"
| call_reference: "tm_Thread c = TtRef \<Longrightarrow>
    timer_step c (c\<lparr>tm := timer_reference (tm c), tm_Thread := TtOut\<rparr>)"
| call_outstanding: "tm_Thread c = TtOut \<Longrightarrow>
    timer_step c (c\<lparr>tm := (tm c)\<lparr>tt_OutstandingCount := tt_OutstandingCount (tm c) + 1\<rparr>, tm_Thread := TtReset\<rparr>)"
| call_reset: "tm_Thread c = TtReset \<Longrightarrow>
    timer_step c (c\<lparr>tm := (tm c)\<lparr>tt_Event := False\<rparr>, tm_Thread := TtCall\<rparr>)"
| callback: "tm_Thread c = TtCall \<Longrightarrow>
    timer_step c (c\<lparr>tm_Calls := tm_Calls c + 1, tm_Thread := TtComplete\<rparr>)"
| complete: "tm_Thread c = TtComplete \<Longrightarrow> timer_end_outstanding (tm c) = (zero, w) \<Longrightarrow>
    timer_step c (c\<lparr>tm := w, tm_Thread := if zero then TtAnd else TtDeref\<rparr>)"
| complete_and: "tm_Thread c = TtAnd \<Longrightarrow>
    timer_step c (c\<lparr>tm := timer_clear LDK_TP_TIMER_FLAGS_CANCEL_REQUESTED (tm c), tm_Thread := TtSet\<rparr>)"
| complete_set: "tm_Thread c = TtSet \<Longrightarrow>
    timer_step c (c\<lparr>tm := (tm c)\<lparr>tt_Event := True\<rparr>, tm_Thread := TtDeref\<rparr>)"
| complete_deref: "tm_Thread c = TtDeref \<Longrightarrow> LdkpDereferenceThreadpoolTimer (tm c) = (zero, w) \<Longrightarrow>
    timer_step c (c\<lparr>tm := w, tm_Freed := tm_Freed c + of_bool zero, tm_Thread := TtTop\<rparr>)"
| exit: "tm_Thread c = TtExit \<Longrightarrow> LdkpDereferenceThreadpoolTimer (tm c) = (zero, w) \<Longrightarrow>
    timer_step c (c\<lparr>tm := w, tm_Freed := tm_Freed c + of_bool zero, tm_Thread := TtGone\<rparr>)"
| disarm: "cpc c k = TcIdle \<Longrightarrow> tm_Open c \<Longrightarrow> \<not> tt_Locked (tm c) \<Longrightarrow>
    timer_step c (c\<lparr>tm := (tm c)\<lparr>tt_Locked := True\<rparr>, cpc := (cpc c)(k := TsDisarm (tt_Flags (tm c)))\<rparr>)"
| disarm_write: "cpc c k = TsDisarm v \<Longrightarrow>
    timer_step c (c\<lparr>tm := (tm c)\<lparr>tt_Flags := v AND NOT (LDK_TP_TIMER_FLAGS_SET OR LDK_TP_TIMER_FLAGS_EXPIRED), tt_Period := 0,
      tt_WindowLength := 0, tt_ControlEvent := True, tt_Locked := False\<rparr>, cpc := (cpc c)(k := TcIdle)\<rparr>)"
| arm: "cpc c k = TcIdle \<Longrightarrow> tm_Open c \<Longrightarrow> \<not> tt_Locked (tm c) \<Longrightarrow>
    timer_step c (c\<lparr>tm := (tm c)\<lparr>tt_Locked := True, tt_DueTime := due, tt_Period := period, tt_WindowLength := window\<rparr>,
      cpc := (cpc c)(k := TsArm (tt_Flags (tm c)))\<rparr>)"
| arm_set: "cpc c k = TsArm v \<Longrightarrow>
    timer_step c (c\<lparr>tm := (tm c)\<lparr>tt_Flags := v OR LDK_TP_TIMER_FLAGS_SET\<rparr>, cpc := (cpc c)(k := TsRead)\<rparr>)"
| arm_read: "cpc c k = TsRead \<Longrightarrow>
    timer_step c (c\<lparr>cpc := (cpc c)(k := TsClear (tt_Flags (tm c)))\<rparr>)"
| arm_clear: "cpc c k = TsClear v \<Longrightarrow>
    timer_step c (c\<lparr>tm := (tm c)\<lparr>tt_Flags := v AND NOT (LDK_TP_TIMER_FLAGS_CANCEL_REQUESTED OR LDK_TP_TIMER_FLAGS_EXPIRED),
      tt_ControlEvent := True, tt_Locked := False\<rparr>, cpc := (cpc c)(k := TcIdle)\<rparr>)"
| wait_call: "cpc c k = TcIdle \<Longrightarrow> tm_Open c \<Longrightarrow>
    timer_step c (c\<lparr>cpc := (cpc c)(k := TwRef cancel False)\<rparr>)"
| wait_refused: "cpc c k = TwRef cancel closing \<Longrightarrow> tt_ReferenceCount (tm c) + 1 \<le> 1 \<Longrightarrow>
    timer_step c (c\<lparr>tm := timer_reference (tm c), cpc := (cpc c)(k := if closing then TcDeref else TcIdle)\<rparr>)"
| wait_reference: "cpc c k = TwRef cancel closing \<Longrightarrow> 1 < tt_ReferenceCount (tm c) + 1 \<Longrightarrow>
    timer_step c (c\<lparr>tm := timer_reference (tm c), cpc := (cpc c)(k := (if cancel then TwFlag else TwBlocked) cancel closing)\<rparr>)"
| wait_flag: "cpc c k = TwFlag cancel closing \<Longrightarrow>
    timer_step c (c\<lparr>tm := timer_or LDK_TP_TIMER_FLAGS_CANCEL_REQUESTED (tm c), cpc := (cpc c)(k := TwControl cancel closing)\<rparr>)"
| wait_control: "cpc c k = TwControl cancel closing \<Longrightarrow>
    timer_step c (c\<lparr>tm := (tm c)\<lparr>tt_ControlEvent := True\<rparr>, cpc := (cpc c)(k := TwBlocked cancel closing)\<rparr>)"
| wait_satisfied: "cpc c k = TwBlocked cancel closing \<Longrightarrow> tt_Event (tm c) \<Longrightarrow>
    timer_step c (c\<lparr>cpc := (cpc c)(k := TwAnd cancel closing)\<rparr>)"
| wait_and: "cpc c k = TwAnd cancel closing \<Longrightarrow>
    timer_step c (c\<lparr>tm := (if cancel then timer_clear LDK_TP_TIMER_FLAGS_CANCEL_REQUESTED (tm c) else tm c),
      cpc := (cpc c)(k := TwDeref closing)\<rparr>)"
| wait_deref: "cpc c k = TwDeref closing \<Longrightarrow> LdkpDereferenceThreadpoolTimer (tm c) = (zero, w) \<Longrightarrow>
    timer_step c (c\<lparr>tm := w, tm_Freed := tm_Freed c + of_bool zero, cpc := (cpc c)(k := if closing then TcDeref else TcIdle)\<rparr>)"
| close: "cpc c k = TcIdle \<Longrightarrow> tm_Open c \<Longrightarrow> \<forall>j. \<not> timer_entering (cpc c j) \<Longrightarrow> (self \<longrightarrow> tm_Thread c = TtCall) \<Longrightarrow>
    timer_step c (c\<lparr>tm_Open := False, tm_Closer := Some (k, self),
      cpc := (cpc c)(k := (if grouped \<and> cancel then TcCancel else TcOr) cancel grouped self)\<rparr>)"
| close_cancel: "cpc c k = TcCancel cancel grouped self \<Longrightarrow>
    timer_step c (c\<lparr>tm := timer_or LDK_TP_TIMER_FLAGS_CANCEL_REQUESTED (tm c), cpc := (cpc c)(k := TcOr cancel grouped self)\<rparr>)"
| close_or: "cpc c k = TcOr cancel grouped self \<Longrightarrow>
    timer_step c (c\<lparr>tm := timer_or LDK_TP_TIMER_FLAGS_DELETE_REQUESTED (tm c),
      cpc := (cpc c)(k := TcControl cancel grouped self (flag_on (tt_Flags (tm c)) LDK_TP_TIMER_FLAGS_DELETE_REQUESTED))\<rparr>)"
| close_control: "cpc c k = TcControl cancel grouped self deleted \<Longrightarrow>
    timer_step c (c\<lparr>tm := (tm c)\<lparr>tt_ControlEvent := True\<rparr>, cpc := (cpc c)(k := TcJoin cancel grouped self deleted)\<rparr>)"
| close_no_join: "cpc c k = TcJoin cancel grouped self deleted \<Longrightarrow> deleted \<or> \<not> tt_ThreadHandle (tm c) \<or> self \<Longrightarrow>
    timer_step c (c\<lparr>cpc := (cpc c)(k := TcHandle cancel grouped)\<rparr>)"
| close_joined: "cpc c k = TcJoin cancel grouped self deleted \<Longrightarrow> \<not> deleted \<Longrightarrow> tt_ThreadHandle (tm c) \<Longrightarrow> \<not> self \<Longrightarrow>
    tm_Thread c = TtGone \<Longrightarrow>
    timer_step c (c\<lparr>cpc := (cpc c)(k := TcHandle cancel grouped)\<rparr>)"
| close_handle: "cpc c k = TcHandle cancel grouped \<Longrightarrow>
    timer_step c (c\<lparr>tm := (tm c)\<lparr>tt_ThreadHandle := False\<rparr>, cpc := (cpc c)(k := if grouped then TwRef cancel True else TcDeref)\<rparr>)"
| close_deref: "cpc c k = TcDeref \<Longrightarrow> LdkpDereferenceThreadpoolTimer (tm c) = (zero, w) \<Longrightarrow>
    timer_step c (c\<lparr>tm := w, tm_Freed := tm_Freed c + of_bool zero, cpc := (cpc c)(k := TcIdle)\<rparr>)"

abbreviation timer_reach :: "timer_sys \<Rightarrow> bool" where
  "timer_reach \<equiv> reach timer_init timer_step"

lemmas timer_reach_step = reach_step [of timer_init timer_step]

section \<open>References\<close>

fun timer_holds :: "client_pc \<Rightarrow> bool" where
  "timer_holds TcIdle = False"
| "timer_holds (TsDisarm _) = False"
| "timer_holds (TsArm _) = False"
| "timer_holds TsRead = False"
| "timer_holds (TsClear _) = False"
| "timer_holds (TwRef _ _) = False"
| "timer_holds _ = True"

fun timer_holds_twice :: "client_pc \<Rightarrow> bool" where
  "timer_holds_twice (TwRef _ closing) = closing"
| "timer_holds_twice (TwFlag _ closing) = closing"
| "timer_holds_twice (TwControl _ closing) = closing"
| "timer_holds_twice (TwBlocked _ closing) = closing"
| "timer_holds_twice (TwAnd _ closing) = closing"
| "timer_holds_twice (TwDeref closing) = closing"
| "timer_holds_twice _ = False"

text \<open>The references of the timer's thread, and its outstanding callback.\<close>

fun thread_holds :: "timer_pc \<Rightarrow> nat" where
  "thread_holds TtGone = 0"
| "thread_holds TtOut = 2"
| "thread_holds TtReset = 2"
| "thread_holds TtCall = 2"
| "thread_holds TtComplete = 2"
| "thread_holds TtAnd = 2"
| "thread_holds TtSet = 2"
| "thread_holds TtDeref = 2"
| "thread_holds _ = 1"

fun thread_outstanding :: "timer_pc \<Rightarrow> bool" where
  "thread_outstanding TtReset = True"
| "thread_outstanding TtCall = True"
| "thread_outstanding TtComplete = True"
| "thread_outstanding _ = False"

lemma timer_turn_simps [simp]:
  "thread_holds (timer_turn w) = 1" "\<not> thread_outstanding (timer_turn w)"
  "timer_turn w \<noteq> TtCall" "timer_turn w \<noteq> TtComplete" "timer_turn w \<noteq> TtAnd" "timer_turn w \<noteq> TtSet" "timer_turn w \<noteq> TtGone"
  by (simp_all add: timer_turn_def)

lemma timer_expire_facts:
  assumes "timer_expire period w = (p, w')"
  shows "thread_holds p = 1" "\<not> thread_outstanding p" "p \<notin> {TtCall, TtComplete, TtAnd, TtSet, TtGone}"
    "tt_ReferenceCount w' = tt_ReferenceCount w" "tt_OutstandingCount w' = tt_OutstandingCount w" "tt_Event w' = tt_Event w"
    "tt_ThreadHandle w' = tt_ThreadHandle w"
  using assms by (auto simp: timer_expire_def split: if_splits)

definition timer_counts :: "timer_sys \<Rightarrow> bool" where
  "timer_counts c \<longleftrightarrow>
     tt_ReferenceCount (tm c) = of_bool (tm_Open c) + int (thread_holds (tm_Thread c)) +
       count_at timer_holds (cpc c) + count_at timer_holds_twice (cpc c) \<and>
     tm_Freed c = of_bool (tt_ReferenceCount (tm c) = 0)"

definition timer_clients :: "timer_sys \<Rightarrow> bool" where
  "timer_clients c \<longleftrightarrow> finite_at (\<lambda>p. p \<noteq> TcIdle) (cpc c) \<and> (\<forall>k. timer_entering (cpc c k) \<longrightarrow> tm_Open c)"

definition timer_signalled :: "timer_sys \<Rightarrow> bool" where
  "timer_signalled c \<longleftrightarrow> tt_OutstandingCount (tm c) = of_bool (thread_outstanding (tm_Thread c)) \<and>
     (tt_Event (tm c) \<or> tm_Thread c \<in> {TtCall, TtComplete, TtAnd, TtSet})"

lemma timer_finite:
  assumes "finite_at (\<lambda>p. p \<noteq> TcIdle) f"
  shows "finite_at timer_holds f" "finite_at timer_holds_twice f"
  using assms by (auto intro!: finite_at_mono [OF assms])

lemmas timer_ops = LdkpDereferenceThreadpoolTimer_def timer_reference_def timer_end_outstanding_def timer_or_def
  timer_clear_def

lemma timer_step_clients: "timer_step c d \<Longrightarrow> timer_clients c \<Longrightarrow> timer_clients d"
  by (induction rule: timer_step.induct)
    (simp_all add: timer_clients_def, (metis timer_entering.simps)+)

lemma timer_step_signalled: "timer_step c d \<Longrightarrow> timer_signalled c \<Longrightarrow> timer_signalled d"
proof (induction rule: timer_step.induct)
  case (expire c period p w)
  then show ?case using timer_expire_facts [OF expire.hyps(3)] by (simp add: timer_signalled_def)
qed (auto simp: timer_signalled_def timer_ops)

lemma timer_step_counts:
  assumes "timer_step c d" and "timer_clients c" and "timer_counts c"
  shows "timer_counts d"
proof -
  have fin: "finite_at (\<lambda>p. p \<noteq> TcIdle) (cpc c)" using assms(2) by (simp add: timer_clients_def)
  note upd = count_at_upd [OF timer_finite(1) [OF fin]] count_at_upd [OF timer_finite(2) [OF fin]]
  obtain h t where cnt: "count_at timer_holds (cpc c) = int h" "count_at timer_holds_twice (cpc c) = int t"
    by (meson count_at_def)
  note w = assms(3) [unfolded timer_counts_def cnt]
  have alive: "1 \<le> tt_ReferenceCount (tm c)"
    if "timer_holds (cpc c k) \<or> timer_holds_twice (cpc c k) \<or> timer_entering (cpc c k)" for k
    using count_at_pos [OF timer_finite(1) [OF fin], of k] count_at_pos [OF timer_finite(2) [OF fin], of k] cnt w that assms(2)
    by (auto simp: timer_clients_def of_bool_def)
  note simps = timer_counts_def upd cnt timer_ops of_bool_def
  from assms(1) show ?thesis
  proof cases
    case (expire period p w')
    then show ?thesis using timer_expire_facts [OF expire(4)] w cnt by (simp add: timer_counts_def)
  next
    case (wait_refused k cancel closing)
    then show ?thesis using w alive [of k] by auto
  next
    case (wait_deref k closing zero w')
    then show ?thesis using w alive [of k] by (auto simp: simps)
  next
    case (close_deref k zero w')
    then show ?thesis using w alive [of k] by (auto simp: simps)
  next
    case (wait_reference k cancel closing)
    then show ?thesis using w by (cases cancel) (auto simp: simps)
  next
    case (close k self grouped cancel)
    then show ?thesis using w by (cases "grouped \<and> cancel") (auto simp: simps)
  qed (use w in \<open>simp_all add: simps, (auto split: if_splits)?\<close>)
qed

definition timer_inv :: "timer_sys \<Rightarrow> bool" where
  "timer_inv c \<longleftrightarrow> timer_clients c \<and> timer_counts c \<and> timer_signalled c"

lemma timer_reach_inv: "timer_reach c \<Longrightarrow> timer_inv c"
proof (induction rule: reach_induct)
  case (init c)
  then show ?case
    by (simp add: timer_init_def timer_inv_def timer_clients_def timer_counts_def timer_signalled_def new_timer_def
        count_at_none finite_at_none)
next
  case (step c d)
  then show ?case
    using timer_step_clients timer_step_counts timer_step_signalled unfolding timer_inv_def by blast
qed

text \<open>A timer is freed once and only when the client has closed it, its thread has left its routine, and
  no client is inside one of its calls; and then it has been freed.\<close>

theorem timer_lifetime:
  assumes "timer_reach c"
  shows "tm_Freed c = (if tm_Open c \<or> tm_Thread c \<noteq> TtGone \<or> (\<exists>k. cpc c k \<noteq> TcIdle) then 0 else 1)"
proof -
  note inv = timer_reach_inv [OF assms, unfolded timer_inv_def]
  have fin: "finite_at (\<lambda>p. p \<noteq> TcIdle) (cpc c)" using inv by (simp add: timer_clients_def)
  obtain h t where cnt: "count_at timer_holds (cpc c) = int h" "count_at timer_holds_twice (cpc c) = int t"
    by (meson count_at_def)
  have rc: "tt_ReferenceCount (tm c) = of_bool (tm_Open c) + int (thread_holds (tm_Thread c)) + int h + int t"
    and freed: "tm_Freed c = of_bool (tt_ReferenceCount (tm c) = 0)" using inv cnt by (simp_all add: timer_counts_def)
  show ?thesis
  proof (cases "tm_Open c \<or> tm_Thread c \<noteq> TtGone \<or> (\<exists>k. cpc c k \<noteq> TcIdle)")
    case False
    then have "count_at timer_holds (cpc c) = 0" "count_at timer_holds_twice (cpc c) = 0" by (auto simp: count_at_none)
    then show ?thesis using False rc freed cnt by simp
  next
    case True
    have "1 \<le> tt_ReferenceCount (tm c)" if "cpc c k \<noteq> TcIdle" for k
    proof -
      have "timer_holds (cpc c k) \<or> timer_holds_twice (cpc c k) \<or> timer_entering (cpc c k)"
        using that by (cases "cpc c k") auto
      then show ?thesis
        using count_at_pos [OF timer_finite(1) [OF fin], of k] count_at_pos [OF timer_finite(2) [OF fin], of k] inv cnt rc
        by (auto simp: timer_clients_def)
    qed
    moreover have "1 \<le> thread_holds (tm_Thread c)" if "tm_Thread c \<noteq> TtGone" using that by (cases "tm_Thread c") auto
    ultimately have "1 \<le> tt_ReferenceCount (tm c)" using True unfolding rc by (elim disjE exE) auto
    then have "tt_ReferenceCount (tm c) \<noteq> 0" by simp
    then show ?thesis using True freed by simp
  qed
qed

text \<open>While the event is clear the thread of the timer is in a callback, or between it and setting the event.\<close>

theorem timer_wait_served:
  "timer_reach c \<Longrightarrow> \<not> tt_Event (tm c) \<Longrightarrow> tm_Thread c \<in> {TtCall, TtComplete, TtAnd, TtSet}"
  using timer_reach_inv [of c] unfolding timer_inv_def timer_signalled_def by blast

section \<open>Closing\<close>

text \<open>The points of the closing client before it has marked the timer, before it has waited for the
  thread, and before it has closed the handle of the thread.\<close>

fun close_unmarked :: "client_pc \<Rightarrow> bool" where
  "close_unmarked (TcCancel cancel grouped self) = True"
| "close_unmarked (TcOr cancel grouped self) = True"
| "close_unmarked _ = False"

fun close_unjoined :: "client_pc \<Rightarrow> bool" where
  "close_unjoined (TcControl cancel grouped self deleted) = True"
| "close_unjoined (TcJoin cancel grouped self deleted) = True"
| "close_unjoined p = close_unmarked p"

fun close_before_handle :: "client_pc \<Rightarrow> bool" where
  "close_before_handle (TcHandle cancel grouped) = True"
| "close_before_handle p = close_unjoined p"

definition deleted_flag :: "u32 \<Rightarrow> bool" where
  "deleted_flag v \<longleftrightarrow> bit v 0"

lemma deleted_flag_simps [simp]:
  "flag_on v LDK_TP_TIMER_FLAGS_DELETE_REQUESTED = deleted_flag v"
  "deleted_flag (v OR LDK_TP_TIMER_FLAGS_DELETE_REQUESTED)" "\<not> deleted_flag 0"
  "deleted_flag (v OR LDK_TP_TIMER_FLAGS_CANCEL_REQUESTED) = deleted_flag v"
  "deleted_flag (v OR LDK_TP_TIMER_FLAGS_SET) = deleted_flag v"
  "deleted_flag (v OR LDK_TP_TIMER_FLAGS_EXPIRED) = deleted_flag v"
  "deleted_flag (v AND NOT LDK_TP_TIMER_FLAGS_CANCEL_REQUESTED) = deleted_flag v"
  "deleted_flag (v AND NOT (LDK_TP_TIMER_FLAGS_SET OR LDK_TP_TIMER_FLAGS_EXPIRED)) = deleted_flag v"
  "deleted_flag (v AND NOT (LDK_TP_TIMER_FLAGS_CANCEL_REQUESTED OR LDK_TP_TIMER_FLAGS_EXPIRED)) = deleted_flag v"
proof -
  have "flag_on v 1 = bit v 0" by (simp add: flag_on_def and_one_eq bit_0 odd_iff_mod_2_eq_one)
  then show "flag_on v LDK_TP_TIMER_FLAGS_DELETE_REQUESTED = deleted_flag v" by (simp add: deleted_flag_def)
qed (simp_all add: deleted_flag_def bit_simps)

lemma deleted_flag_masks [simp]:
  "deleted_flag (v AND - 3) = deleted_flag v" "deleted_flag (v AND - 13) = deleted_flag v"
  "deleted_flag (v AND - 11) = deleted_flag v"
  by (simp_all add: deleted_flag_def bit_simps)

fun client_ok :: "(tid \<times> bool) option \<Rightarrow> tid \<Rightarrow> client_pc \<Rightarrow> bool" where
  "client_ok closer k (TsDisarm v) \<longleftrightarrow> \<not> deleted_flag v"
| "client_ok closer k (TsArm v) \<longleftrightarrow> \<not> deleted_flag v"
| "client_ok closer k (TsClear v) \<longleftrightarrow> \<not> deleted_flag v"
| "client_ok closer k (TcCancel cancel grouped self) \<longleftrightarrow> closer = Some (k, self)"
| "client_ok closer k (TcOr cancel grouped self) \<longleftrightarrow> closer = Some (k, self)"
| "client_ok closer k (TcControl cancel grouped self deleted) \<longleftrightarrow> closer = Some (k, self) \<and> \<not> deleted"
| "client_ok closer k (TcJoin cancel grouped self deleted) \<longleftrightarrow> closer = Some (k, self) \<and> \<not> deleted"
| "client_ok closer k (TcHandle cancel grouped) \<longleftrightarrow> (\<exists>self. closer = Some (k, self))"
| "client_ok closer k p \<longleftrightarrow> True"

definition timer_unmarked :: "timer_sys \<Rightarrow> bool" where
  "timer_unmarked c \<longleftrightarrow> \<not> deleted_flag (tt_Flags (tm c)) \<and> (\<forall>v. tm_Thread c = TtWriteExpired v \<longrightarrow> \<not> deleted_flag v)"

definition timer_closing :: "timer_sys \<Rightarrow> bool" where
  "timer_closing c \<longleftrightarrow> (tm_Open c \<longleftrightarrow> tm_Closer c = None) \<and>
     (tm_Open c \<or> (\<exists>k. close_unmarked (cpc c k)) \<longrightarrow> timer_unmarked c) \<and>
     (tm_Open c \<or> (\<exists>k. close_before_handle (cpc c k)) \<longrightarrow> tt_ThreadHandle (tm c)) \<and>
     (\<forall>k. client_ok (tm_Closer c) k (cpc c k)) \<and>
     (\<forall>k. tm_Closer c = Some (k, False) \<longrightarrow> close_unjoined (cpc c k) \<or> tm_Thread c = TtGone)"

lemma timer_turn_unmarked: "timer_turn w \<noteq> TtWriteExpired v"
  by (simp add: timer_turn_def)

lemma timer_expire_unmarked:
  assumes "timer_expire period w = (p, w')"
  shows "tt_Flags w' = tt_Flags w" "p \<noteq> TtWriteExpired v" "tt_ThreadHandle w' = tt_ThreadHandle w"
  using assms by (auto simp: timer_expire_def split: if_splits)

text \<open>A step of the thread that keeps the flags, the handle and the clients.\<close>

lemma timer_closing_thread:
  assumes "timer_closing c" and "timer_unmarked c \<Longrightarrow> timer_unmarked d"
    and "tt_ThreadHandle (tm d) = tt_ThreadHandle (tm c)" and "tm_Open d = tm_Open c" and "tm_Closer d = tm_Closer c"
    and "cpc d = cpc c" and "tm_Thread c \<noteq> TtGone"
  shows "timer_closing d"
  using assms unfolding timer_closing_def by simp

text \<open>A step of a client that is not closing.\<close>

lemma timer_closing_client:
  assumes "timer_closing c" and "timer_unmarked c \<Longrightarrow> timer_unmarked d"
    and "tt_ThreadHandle (tm d) = tt_ThreadHandle (tm c)" and "tm_Open d = tm_Open c" and "tm_Closer d = tm_Closer c"
    and "tm_Thread d = tm_Thread c" and "cpc d = (cpc c)(k := p)"
    and "\<not> close_before_handle (cpc c k)" and "\<not> close_before_handle p" and "client_ok (tm_Closer c) k p"
  shows "timer_closing d"
proof -
  have n: "\<not> close_unjoined (cpc c k)" "\<not> close_unjoined p" "\<not> close_unmarked (cpc c k)" "\<not> close_unmarked p"
    using assms(8,9) by (cases "cpc c k"; cases p; simp)+
  then show ?thesis using assms unfolding timer_closing_def by (auto split: if_splits)
qed

lemma timer_closing_unmarked:
  assumes "timer_closing c" and "close_unmarked (cpc c k)"
  shows "timer_unmarked c" "tt_ThreadHandle (tm c)"
proof -
  have "close_before_handle (cpc c k)" using assms(2) by (cases "cpc c k") auto
  then show "timer_unmarked c" "tt_ThreadHandle (tm c)" using assms unfolding timer_closing_def by blast+
qed

lemma closer_unique:
  assumes "timer_closing c" and "close_before_handle (cpc c j)" and "close_before_handle (cpc c k)"
  shows "j = k"
proof -
  have "client_ok (tm_Closer c) j (cpc c j)" "client_ok (tm_Closer c) k (cpc c k)" using assms(1) unfolding timer_closing_def by blast+
  then show ?thesis using assms(2,3) by (cases "cpc c j"; cases "cpc c k") auto
qed

text \<open>A step of the closing client.\<close>

lemma timer_closing_closer:
  assumes c: "timer_closing c" and k: "close_before_handle (cpc c k)"
    and "tm_Open d = tm_Open c" and cl: "tm_Closer d = tm_Closer c" and "tm_Thread d = tm_Thread c"
    and p: "cpc d = (cpc c)(k := p)" and ok: "client_ok (tm_Closer c) k p"
    and "close_unmarked p \<Longrightarrow> timer_unmarked d" and "close_before_handle p \<Longrightarrow> tt_ThreadHandle (tm d)"
    and j: "tm_Closer c = Some (k, False) \<Longrightarrow> close_unjoined p \<or> tm_Thread c = TtGone"
  shows "timer_closing d"
proof -
  have "client_ok (tm_Closer c) k (cpc c k)" using c unfolding timer_closing_def by blast
  then obtain self where s: "tm_Closer c = Some (k, self)" using k by (cases "cpc c k") auto
  have closed: "\<not> tm_Open c" using s c unfolding timer_closing_def by auto
  have only: "\<not> close_before_handle (cpc c x)" if "x \<noteq> k" for x using closer_unique [OF c _ k] that by blast
  then have only': "\<not> close_unmarked (cpc c x)" if "x \<noteq> k" for x using that by (cases "cpc c x") fastforce+
  have "client_ok (tm_Closer d) x (cpc d x)" for x using c ok cl p unfolding timer_closing_def by (cases "x = k") auto
  moreover have "close_unjoined (cpc d x) \<or> tm_Thread d = TtGone" if "tm_Closer d = Some (x, False)" for x
    using that s j cl p assms(5) by auto
  moreover have "timer_unmarked d" if "close_unmarked (cpc d x)" for x
    using that only' [of x] p assms(8) by (cases "x = k") auto
  moreover have "tt_ThreadHandle (tm d)" if "close_before_handle (cpc d x)" for x
    using that only [of x] p assms(9) by (cases "x = k") auto
  ultimately show ?thesis using closed assms(3) s cl unfolding timer_closing_def by auto
qed

lemma timer_step_closing:
  assumes step: "timer_step c d" and c: "timer_closing c" and cl: "timer_clients c"
  shows "timer_closing d"
proof -
  have ok: "client_ok (tm_Closer c) k (cpc c k)" for k using c unfolding timer_closing_def by blast
  have op: "timer_unmarked c" if "tm_Open c" using c that unfolding timer_closing_def by blast
  have un: "timer_unmarked c" if "close_unmarked (cpc c k)" for k using timer_closing_unmarked [OF c that] by blast
  have th: "tt_ThreadHandle (tm c)" if "close_before_handle (cpc c k)" for k
    using c that unfolding timer_closing_def by blast
  have en: "tm_Open c" if "timer_entering (cpc c k)" for k using cl that unfolding timer_clients_def by blast
  note um = timer_unmarked_def timer_turn_unmarked timer_ops
  from step show ?thesis
  proof cases
    case (expire period p w)
    show ?thesis
      by (rule timer_closing_thread [OF c]) (use expire timer_expire_unmarked [OF expire(4)] in \<open>auto simp: um\<close>)
  next
    case (arm_read k)
    show ?thesis
      by (rule timer_closing_client [OF c, of _ k])
        (use arm_read op en [of k] in \<open>auto simp: um\<close>)
  next
    case (close k self grouped cancel)
    have "\<not> close_before_handle (cpc c x)" for x
      using ok [of x] c close unfolding timer_closing_def by (cases "cpc c x") auto
    moreover have "\<not> close_unmarked (cpc c x)" for x using calculation [of x] by (cases "cpc c x") auto
    moreover have "client_ok (Some y) x (cpc c x)" for x y
      using ok [of x] c close calculation(1) [of x] unfolding timer_closing_def by (cases "cpc c x") auto
    moreover have "tt_ThreadHandle (tm c)" using c close unfolding timer_closing_def by blast
    ultimately show ?thesis using op close unfolding timer_closing_def by (auto simp: timer_unmarked_def)
  next
    case (close_cancel k cancel grouped self)
    show ?thesis
      by (rule timer_closing_closer [OF c, of k])
        (use close_cancel ok [of k] un [of k] th [of k] in \<open>auto simp: um\<close>)
  next
    case (close_or k cancel grouped self)
    show ?thesis
      by (rule timer_closing_closer [OF c, of k])
        (use close_or ok [of k] un [of k] th [of k] in \<open>auto simp: um\<close>)
  next
    case (close_control k cancel grouped self deleted)
    show ?thesis
      by (rule timer_closing_closer [OF c, of k]) (use close_control ok [of k] th [of k] in auto)
  next
    case (close_no_join k cancel grouped self deleted)
    show ?thesis
      by (rule timer_closing_closer [OF c, of k]) (use close_no_join ok [of k] th [of k] in auto)
  next
    case (close_joined k cancel grouped self deleted)
    show ?thesis
      by (rule timer_closing_closer [OF c, of k]) (use close_joined ok [of k] th [of k] in auto)
  next
    case (close_handle k cancel grouped)
    then have "tm_Closer c = Some (k, False) \<Longrightarrow> tm_Thread c = TtGone"
      using c unfolding timer_closing_def by force
    then show ?thesis
      by (intro timer_closing_closer [OF c, of k]) (use close_handle in \<open>auto split: if_splits\<close>)
  next
    case (disarm k)
    show ?thesis
      by (rule timer_closing_client [OF c, of _ k]) (use disarm op ok [of k] in \<open>auto simp: um split: if_splits\<close>)
  next
    case (disarm_write k v)
    show ?thesis
      by (rule timer_closing_client [OF c, of _ k]) (use disarm_write op ok [of k] in \<open>auto simp: um split: if_splits\<close>)
  next
    case (arm k window period due)
    show ?thesis
      by (rule timer_closing_client [OF c, of _ k]) (use arm op ok [of k] in \<open>auto simp: um split: if_splits\<close>)
  next
    case (arm_set k v)
    show ?thesis
      by (rule timer_closing_client [OF c, of _ k]) (use arm_set op ok [of k] in \<open>auto simp: um split: if_splits\<close>)
  next
    case (arm_clear k v)
    show ?thesis
      by (rule timer_closing_client [OF c, of _ k]) (use arm_clear op ok [of k] in \<open>auto simp: um split: if_splits\<close>)
  next
    case (wait_call k cancel)
    show ?thesis
      by (rule timer_closing_client [OF c, of _ k]) (use wait_call op ok [of k] in \<open>auto simp: um split: if_splits\<close>)
  next
    case (wait_refused k cancel closing)
    show ?thesis
      by (rule timer_closing_client [OF c, of _ k]) (use wait_refused op ok [of k] in \<open>auto simp: um split: if_splits\<close>)
  next
    case (wait_reference k cancel closing)
    show ?thesis
      by (rule timer_closing_client [OF c, of _ k]) (use wait_reference op ok [of k] in \<open>auto simp: um split: if_splits\<close>)
  next
    case (wait_flag k cancel closing)
    show ?thesis
      by (rule timer_closing_client [OF c, of _ k]) (use wait_flag op ok [of k] in \<open>auto simp: um split: if_splits\<close>)
  next
    case (wait_control k cancel closing)
    show ?thesis
      by (rule timer_closing_client [OF c, of _ k]) (use wait_control op ok [of k] in \<open>auto simp: um split: if_splits\<close>)
  next
    case (wait_satisfied k cancel closing)
    show ?thesis
      by (rule timer_closing_client [OF c, of _ k]) (use wait_satisfied op ok [of k] in \<open>auto simp: um split: if_splits\<close>)
  next
    case (wait_and k cancel closing)
    show ?thesis
      by (rule timer_closing_client [OF c, of _ k]) (use wait_and op ok [of k] in \<open>auto simp: um split: if_splits\<close>)
  next
    case (wait_deref k closing zero w)
    show ?thesis
      by (rule timer_closing_client [OF c, of _ k]) (use wait_deref op ok [of k] in \<open>auto simp: um split: if_splits\<close>)
  next
    case (close_deref k zero w)
    show ?thesis
      by (rule timer_closing_client [OF c, of _ k]) (use close_deref op ok [of k] in \<open>auto simp: um split: if_splits\<close>)
  qed (rule timer_closing_thread [OF c]; use op ok in \<open>auto simp: um split: if_splits\<close>)+
qed

lemma timer_reach_closing: "timer_reach c \<Longrightarrow> timer_closing c"
proof (induction rule: reach_induct)
  case (init c)
  then show ?case by (simp add: timer_init_def timer_closing_def timer_unmarked_def new_timer_def)
next
  case (step c d)
  then show ?case using timer_step_closing timer_reach_inv unfolding timer_inv_def by blast
qed

text \<open>C21: Once a client other than the callback itself has come past its wait in closing a timer, the thread
  of the timer has ended: no callback runs, and none will.\<close>

theorem timer_closed_quiet:
  assumes "timer_reach c" and "tm_Closer c = Some (k, False)" and "\<not> close_unjoined (cpc c k)"
  shows "tm_Thread c = TtGone \<and> (\<forall>d. timer_step c d \<longrightarrow> tm_Calls d = tm_Calls c \<and> tm_Thread d = TtGone)"
proof -
  have gone: "tm_Thread c = TtGone" using timer_reach_closing [OF assms(1)] assms(2,3) unfolding timer_closing_def by blast
  have "tm_Calls d = tm_Calls c \<and> tm_Thread d = TtGone" if "timer_step c d" for d
    using that gone by (cases rule: timer_step.cases) auto
  then show ?thesis using gone by blast
qed

section \<open>Runs\<close>

lemma arm_run:
  assumes "timer_reach c" and "cpc c k = TcIdle" and "tm_Open c" and "\<not> tt_Locked (tm c)"
    and "w = (tm c)\<lparr>tt_DueTime := due, tt_Period := period, tt_WindowLength := window, tt_ControlEvent := True,
      tt_Flags := (tt_Flags (tm c) OR LDK_TP_TIMER_FLAGS_SET) AND
        NOT (LDK_TP_TIMER_FLAGS_CANCEL_REQUESTED OR LDK_TP_TIMER_FLAGS_EXPIRED)\<rparr>"
  shows "timer_reach (c\<lparr>tm := w\<rparr>)"
proof -
  note s1 = timer_reach_step [OF assms(1) timer_step.arm [OF assms(2-4), where due = due and period = period and window = window]]
  note s2 = timer_reach_step [OF s1 timer_step.arm_set [of _ k "tt_Flags (tm c)"]]
  note s3 = timer_reach_step [OF s2 timer_step.arm_read [of _ k]]
  note s4 = timer_reach_step [OF s3 timer_step.arm_clear [of _ k "tt_Flags (tm c) OR LDK_TP_TIMER_FLAGS_SET"]]
  have "c\<lparr>tm := w\<rparr> = c\<lparr>tm := (tm c)\<lparr>tt_DueTime := due, tt_Period := period, tt_WindowLength := window,
      tt_Flags := (tt_Flags (tm c) OR LDK_TP_TIMER_FLAGS_SET) AND
        NOT (LDK_TP_TIMER_FLAGS_CANCEL_REQUESTED OR LDK_TP_TIMER_FLAGS_EXPIRED),
      tt_ControlEvent := True, tt_Locked := False\<rparr>, cpc := (cpc c)(k := TcIdle)\<rparr>"
    using assms(2,4) by (intro timer_sys.equality) (simp_all add: assms(5) fun_upd_idem)
  then show ?thesis using s4 by simp
qed

text \<open>The routine of the thread from the check to the end of a callback.\<close>

lemma callback_run:
  assumes "timer_reach c" and "tm_Thread c = TtCheck" and "timer_due (tm c)"
    and "tt_OutstandingCount (tm c) = 0" and "tt_ReferenceCount (tm c) \<noteq> 0"
  shows "timer_reach (c\<lparr>tm := (tm c)\<lparr>tt_Event := True, tt_Flags := tt_Flags (tm c) AND NOT LDK_TP_TIMER_FLAGS_CANCEL_REQUESTED\<rparr>,
    tm_Calls := tm_Calls c + 1, tm_Thread := TtTop\<rparr>)"
proof -
  note s1 = timer_reach_step [OF assms(1) timer_step.check [OF assms(2)], simplified assms(3) if_True]
  note s2 = timer_reach_step [OF s1 timer_step.call_reference, simplified]
  note s3 = timer_reach_step [OF s2 timer_step.call_outstanding, simplified]
  note s4 = timer_reach_step [OF s3 timer_step.call_reset, simplified]
  note s5 = timer_reach_step [OF s4 timer_step.callback, simplified]
  note s6 = timer_reach_step [OF s5 timer_step.complete [OF _ surjective_pairing],
      simplified timer_end_outstanding_def assms(4), simplified]
  note s7 = timer_reach_step [OF s6 timer_step.complete_and, simplified timer_clear_def, simplified]
  note s8 = timer_reach_step [OF s7 timer_step.complete_set, simplified]
  note s9 = timer_reach_step [OF s8 timer_step.complete_deref [OF _ surjective_pairing], simplified]
  have "timer_reach (c\<lparr>tm_Calls := tm_Calls c + 1, tm := (tm c)\<lparr>tt_Flags := tt_Flags (tm c) AND NOT
      LDK_TP_TIMER_FLAGS_CANCEL_REQUESTED, tt_Event := True\<rparr>, tm_Thread := TtTop\<rparr>)" (is "timer_reach ?d")
    using s9 assms(4,5) by (simp add: timer_ops)
  moreover have "c\<lparr>tm := (tm c)\<lparr>tt_Event := True, tt_Flags := tt_Flags (tm c) AND NOT LDK_TP_TIMER_FLAGS_CANCEL_REQUESTED\<rparr>,
      tm_Calls := tm_Calls c + 1, tm_Thread := TtTop\<rparr> = ?d" by (intro timer_sys.equality) simp_all
  ultimately show ?thesis by (simp only:)
qed

text \<open>A thread whose timer has expired goes back to sleep.\<close>

lemma park_run:
  assumes "timer_reach c" and "tm_Thread c = TtTop" and "timer_turn (tm c) = TtIdleWait" and "\<not> tt_Locked (tm c)"
    and "tt_ControlEvent (tm c)"
  shows "timer_reach (c\<lparr>tm := (tm c)\<lparr>tt_ControlEvent := False\<rparr>, tm_Thread := TtIdleWait\<rparr>)"
proof -
  note s1 = timer_reach_step [OF assms(1) timer_step.turn [OF assms(2,4)], simplified assms(3), simplified]
  note s2 = timer_reach_step [OF s1 timer_step.idle_wait, simplified]
  have "timer_turn ((tm c)\<lparr>tt_ControlEvent := False\<rparr>) = TtIdleWait"
    using assms(3) by (simp add: timer_turn_def split: if_splits)
  moreover note s3 = timer_reach_step [OF s2 timer_step.turn, simplified]
  ultimately show ?thesis using assms(4,5) by simp
qed

text \<open>An armed timer without a period, seen by its thread: it waits for the due time, until it has passed.\<close>

definition start_timer :: timer_sys where
  "start_timer = \<lparr>tm = new_timer, tm_Freed = 0, tm_Open = True, tm_Thread = TtTop, tm_Waited = [], tm_Calls = 0,
     tm_Closer = None, cpc = (\<lambda>_. TcIdle)\<rparr>"

definition expiring_timer :: "int \<Rightarrow> timer_sys" where
  "expiring_timer due = start_timer\<lparr>tm := new_timer\<lparr>tt_DueTime := due, tt_Flags := 4\<rparr>, tm_Waited := [due, due],
     tm_Thread := TtExpired 0\<rparr>"

lemma start_timer_reach: "timer_reach start_timer"
  by (rule reach_init) (simp add: timer_init_def start_timer_def)

lemmas demo_timer = start_timer_def expiring_timer_def new_timer_def timer_turn_def timer_expire_def timer_due_def flag_on_def
  deleted_flag_def

lemma expiring_timer_reach: "timer_reach (expiring_timer due)"
proof -
  let ?w = "new_timer\<lparr>tt_DueTime := due, tt_Flags := 4, tt_ControlEvent := True\<rparr>"
  let ?s = "start_timer\<lparr>tm := ?w\<rparr>"
  have s0: "timer_reach ?s"
    by (rule arm_run [OF start_timer_reach, where k = 0 and due = due and period = 0 and window = 0]) (simp_all add: demo_timer)
  have s1: "timer_reach (?s\<lparr>tm_Thread := TtDueWait due 0, tm_Waited := [due]\<rparr>)"
    using timer_reach_step [OF s0 timer_step.turn] by (simp add: demo_timer)
  have s2: "timer_reach (?s\<lparr>tm_Thread := TtTop, tm_Waited := [due], tm := ?w\<lparr>tt_ControlEvent := False\<rparr>\<rparr>)"
    using timer_reach_step [OF s1 timer_step.due_control] by (simp add: demo_timer)
  have s3: "timer_reach (?s\<lparr>tm_Thread := TtDueWait due 0, tm_Waited := [due, due], tm := ?w\<lparr>tt_ControlEvent := False\<rparr>\<rparr>)"
    using timer_reach_step [OF s2 timer_step.turn] by (simp add: demo_timer)
  show ?thesis
    using timer_reach_step [OF s3 timer_step.due_timeout] by (simp add: demo_timer)
qed

text \<open>A client that re-arms a timer just when its due time passes loses the new due time: the callback
  runs at once, the timer is marked as expired, and its thread sleeps without having waited for the new
  time and with nothing to wake it, while the timer still says it is set.\<close>

theorem timer_rearm_lost:
  "\<exists>c. timer_reach c \<and> tm_Open c \<and> (\<forall>k. cpc c k = TcIdle) \<and> IsThreadpoolTimerSet (tm c) \<and>
     tt_DueTime (tm c) = - 200 \<and> tm_Waited c = [- 100, - 100] \<and> tm_Calls c = 1 \<and>
     tm_Thread c = TtIdleWait \<and> \<not> tt_ControlEvent (tm c)"
proof -
  let ?w = "new_timer\<lparr>tt_DueTime := - 200, tt_Flags := 4, tt_ControlEvent := True\<rparr>"
  let ?s = "expiring_timer (- 100)\<lparr>tm := ?w\<rparr>"
  have s0: "timer_reach ?s"
    by (rule arm_run [OF expiring_timer_reach, where k = 0 and due = "- 200" and period = 0 and window = 0]) (simp_all add: demo_timer)
  have s1: "timer_reach (?s\<lparr>tm := ?w\<lparr>tt_Locked := True\<rparr>, tm_Thread := TtWriteExpired 4\<rparr>)"
    using timer_reach_step [OF timer_reach_step [OF s0 timer_step.expire] timer_step.read_expired] by (simp add: demo_timer)
  have s2: "timer_reach (?s\<lparr>tm := ?w\<lparr>tt_Flags := 12\<rparr>, tm_Thread := TtCheck\<rparr>)"
    using timer_reach_step [OF s1 timer_step.write_expired] by (simp add: demo_timer)
  have s3: "timer_reach (?s\<lparr>tm := ?w\<lparr>tt_Flags := 12\<rparr>, tm_Calls := 1, tm_Thread := TtTop\<rparr>)"
    using callback_run [OF s2] by (simp add: demo_timer)
  have s4: "timer_reach (?s\<lparr>tm := ?w\<lparr>tt_Flags := 12, tt_ControlEvent := False\<rparr>, tm_Calls := 1, tm_Thread := TtIdleWait\<rparr>)"
    using park_run [OF s3] by (simp add: demo_timer)
  then show ?thesis by (intro exI, intro conjI, assumption) (simp_all add: demo_timer IsThreadpoolTimerSet_def)
qed

text \<open>Closing a timer just when its due time passes can hang: the thread marks the timer as expired with
  flags it read before the deletion was requested, so the request is lost and the closing client waits
  for a thread that sleeps for ever.\<close>

theorem timer_close_hangs:
  "\<exists>c k. timer_reach c \<and> cpc c k = TcJoin False False False False \<and> (\<forall>d. \<not> timer_step c d)"
proof -
  let ?w = "new_timer\<lparr>tt_DueTime := - 100, tt_Flags := 4\<rparr>"
  let ?s = "(expiring_timer (- 100))\<lparr>tm := ?w\<lparr>tt_Locked := True\<rparr>, tm_Thread := TtWriteExpired 4\<rparr>"
  let ?at = "\<lambda>p. (\<lambda>_. TcIdle)(0 := p)"
  let ?d = "?s\<lparr>tm_Open := False, tm_Closer := Some (0, False)\<rparr>"
  let ?j = "?d\<lparr>cpc := ?at (TcJoin False False False False)\<rparr>"
  have s0: "timer_reach ?s"
    using timer_reach_step [OF timer_reach_step [OF expiring_timer_reach [of "- 100"] timer_step.expire] timer_step.read_expired]
    by (simp add: demo_timer)
  have s1: "timer_reach (?d\<lparr>cpc := ?at (TcOr False False False)\<rparr>)"
    using timer_reach_step [OF s0 timer_step.close [of _ 0 False False False]] by (simp add: demo_timer)
  have s2: "timer_reach (?d\<lparr>tm := ?w\<lparr>tt_Locked := True, tt_Flags := 5\<rparr>, cpc := ?at (TcControl False False False False)\<rparr>)"
    using timer_reach_step [OF s1 timer_step.close_or [of _ 0 False False False]] by (simp add: demo_timer timer_or_def)
  have s3: "timer_reach (?j\<lparr>tm := ?w\<lparr>tt_Locked := True, tt_Flags := 5, tt_ControlEvent := True\<rparr>\<rparr>)"
    using timer_reach_step [OF s2 timer_step.close_control [of _ 0 False False False False]] by (simp add: demo_timer)
  have s4: "timer_reach (?j\<lparr>tm := ?w\<lparr>tt_Flags := 12, tt_ControlEvent := True\<rparr>, tm_Thread := TtCheck\<rparr>)"
    using timer_reach_step [OF s3 timer_step.write_expired] by (simp add: demo_timer)
  have s5: "timer_reach (?j\<lparr>tm := ?w\<lparr>tt_Flags := 12, tt_ControlEvent := True\<rparr>, tm_Calls := 1, tm_Thread := TtTop\<rparr>)"
    using callback_run [OF s4] by (simp add: demo_timer)
  have s6: "timer_reach (?j\<lparr>tm := ?w\<lparr>tt_Flags := 12\<rparr>, tm_Calls := 1, tm_Thread := TtIdleWait\<rparr>)" (is "timer_reach ?e")
    using park_run [OF s5] by (simp add: demo_timer)
  have "\<not> timer_step ?e d" for d
  proof
    assume "timer_step ?e d"
    then show False by cases (auto simp: demo_timer split: if_splits)
  qed
  moreover have "cpc ?e 0 = TcJoin False False False False" by simp
  ultimately show ?thesis using s6 by blast
qed

text \<open>A timer that was never armed is closed.\<close>

definition closed_timer :: timer_sys where
  "closed_timer = start_timer\<lparr>tm := new_timer\<lparr>tt_Flags := 1, tt_ControlEvent := True, tt_ReferenceCount := 0,
     tt_ThreadHandle := False\<rparr>, tm_Freed := 1, tm_Open := False, tm_Closer := Some (0, False), tm_Thread := TtGone\<rparr>"

lemma closed_timer_reach: "timer_reach closed_timer"
proof -
  let ?at = "\<lambda>p. (\<lambda>_. TcIdle)(0 := p)"
  let ?s = "start_timer\<lparr>tm_Open := False, tm_Closer := Some (0, False)\<rparr>"
  let ?w = "new_timer\<lparr>tt_Flags := 1, tt_ControlEvent := True\<rparr>"
  have s1: "timer_reach (?s\<lparr>cpc := ?at (TcOr False False False)\<rparr>)"
    using timer_reach_step [OF start_timer_reach timer_step.close [of _ 0 False False False]] by (simp add: demo_timer)
  have s2: "timer_reach (?s\<lparr>tm := new_timer\<lparr>tt_Flags := 1\<rparr>, cpc := ?at (TcControl False False False False)\<rparr>)"
    using timer_reach_step [OF s1 timer_step.close_or [of _ 0 False False False]] by (simp add: demo_timer timer_or_def)
  have s3: "timer_reach (?s\<lparr>tm := ?w, cpc := ?at (TcJoin False False False False)\<rparr>)"
    using timer_reach_step [OF s2 timer_step.close_control [of _ 0 False False False False]] by (simp add: demo_timer)
  have s4: "timer_reach (?s\<lparr>tm := ?w, tm_Thread := TtExit, cpc := ?at (TcJoin False False False False)\<rparr>)"
    using timer_reach_step [OF s3 timer_step.turn] by (simp add: demo_timer)
  have s5: "timer_reach (?s\<lparr>tm := ?w\<lparr>tt_ReferenceCount := 1\<rparr>, tm_Thread := TtGone, cpc := ?at (TcJoin False False False False)\<rparr>)"
    using timer_reach_step [OF s4 timer_step.exit [where zero = False]] by (simp add: demo_timer timer_ops)
  have s6: "timer_reach (?s\<lparr>tm := ?w\<lparr>tt_ReferenceCount := 1\<rparr>, tm_Thread := TtGone, cpc := ?at (TcHandle False False)\<rparr>)"
    using timer_reach_step [OF s5 timer_step.close_joined [of _ 0 False False False False]] by (simp add: demo_timer)
  have s7: "timer_reach (?s\<lparr>tm := ?w\<lparr>tt_ReferenceCount := 1, tt_ThreadHandle := False\<rparr>, tm_Thread := TtGone, cpc := ?at TcDeref\<rparr>)"
    using timer_reach_step [OF s6 timer_step.close_handle [of _ 0 False False]] by (simp add: demo_timer)
  show ?thesis
    using timer_reach_step [OF s7 timer_step.close_deref [where k = 0 and zero = True]] by (simp add: demo_timer closed_timer_def timer_ops fun_upd_idem)
qed

theorem timer_lifetime_witness: "tm_Freed closed_timer = 1"
  using timer_lifetime [OF closed_timer_reach] by (simp add: closed_timer_def start_timer_def)

theorem timer_closed_quiet_witness:
  "\<exists>k. tm_Closer closed_timer = Some (k, False) \<and> tm_Thread closed_timer = TtGone"
  using timer_closed_quiet [OF closed_timer_reach, of 0] by (simp add: closed_timer_def start_timer_def)

end
