(* ===== verification/ThreadpoolWait.thy ===== *)
theory ThreadpoolWait
  imports UnicodeStrings
begin

text \<open>
  Wait objects of the thread pool (src/kernel32/threadpoolapiset.c): \<open>SetThreadpoolWait\<close>, the routine of the
  thread that waits, and the closing of the registration, with the references on the object that is
  waited for. The counting of references on the wait object itself is the same code as for timers
  (theory ThreadpoolTimer) and left out here.
\<close>

section \<open>The object\<close>

abbreviation LDK_TP_WAIT_FLAGS_DELETE_REQUESTED :: u32 where "LDK_TP_WAIT_FLAGS_DELETE_REQUESTED \<equiv> 1"
abbreviation LDK_TP_WAIT_FLAGS_CANCEL_REQUESTED :: u32 where "LDK_TP_WAIT_FLAGS_CANCEL_REQUESTED \<equiv> 2"
abbreviation LDK_TP_WAIT_FLAGS_SET :: u32 where "LDK_TP_WAIT_FLAGS_SET \<equiv> 4"

record tp_wait =
  tv_Flags :: u32
  tv_ControlEvent :: bool
  tv_Locked :: bool
  tv_ThreadHandle :: bool
  tv_WaitObject :: "addr option"
  tv_Timeout :: "int option"

definition new_wait :: tp_wait where
  "new_wait = \<lparr>tv_Flags = 0, tv_ControlEvent = False, tv_Locked = False, tv_ThreadHandle = True, tv_WaitObject = None,
     tv_Timeout = None\<rparr>"

section \<open>The machine\<close>

text \<open>The thread: its second locked region has a read and a write of the flags. The result of a wait is
  whether it timed out.\<close>

datatype wait_pc =
    WvTop | WvIdleWait | WvWait addr "int option" | WvRelease addr "bool option" | WvDone bool | WvRead bool
  | WvWrite bool u32 | WvCheck bool | WvCall bool | WvGone

text \<open>A client in \<open>SetThreadpoolWait\<close> owns the new object, then the old one; one that closes the registration
  owns the old one. The objects the thread waited for and the results given to callbacks are recorded.\<close>

datatype reg_pc =
    RcIdle
  | RsNew "addr option" "int option" | RsClear "addr option" u32 | RsSet "addr option" u32 | RsRead "addr option"
  | RsUncancel "addr option" u32 | RsOld "addr option"
  | RcOr bool | RcControl bool bool | RcJoin bool bool | RcHandle | RcRegion | RcClear "addr option" u32

record wait_sys =
  wv :: tp_wait
  wv_Open :: bool
  wv_Thread :: wait_pc
  wv_References :: "addr \<Rightarrow> int"
  wv_Waited :: "addr list"
  wv_Callbacks :: "bool list"
  rpc :: "tid \<Rightarrow> reg_pc"

definition wait_init :: "wait_sys \<Rightarrow> bool" where
  "wait_init c \<longleftrightarrow> wv c = new_wait \<and> wv_Open c \<and> wv_Thread c = WvTop \<and> (\<forall>x. wv_References c x = 0) \<and>
     wv_Waited c = [] \<and> wv_Callbacks c = [] \<and> (\<forall>k. rpc c k = RcIdle)"

definition ob_reference :: "addr option \<Rightarrow> (addr \<Rightarrow> int) \<Rightarrow> addr \<Rightarrow> int" where
  "ob_reference x r = (case x of None \<Rightarrow> r | Some a \<Rightarrow> r(a := r a + 1))"

definition ob_dereference :: "addr option \<Rightarrow> (addr \<Rightarrow> int) \<Rightarrow> addr \<Rightarrow> int" where
  "ob_dereference x r = (case x of None \<Rightarrow> r | Some a \<Rightarrow> r(a := r a - 1))"

text \<open>The first locked region of a turn.\<close>

definition wait_turn :: "tp_wait \<Rightarrow> wait_pc" where
  "wait_turn w =
     (if flag_on (tv_Flags w) LDK_TP_WAIT_FLAGS_DELETE_REQUESTED then WvGone
      else case tv_WaitObject w of
          None \<Rightarrow> WvIdleWait
        | Some x \<Rightarrow> if \<not> flag_on (tv_Flags w) LDK_TP_WAIT_FLAGS_SET then WvIdleWait else WvWait x (tv_Timeout w))"

definition wait_object :: "wait_pc \<Rightarrow> addr option" where
  "wait_object p = (case p of WvWait x t \<Rightarrow> Some x | WvRelease x r \<Rightarrow> Some x | _ \<Rightarrow> None)"

inductive wait_step :: "wait_sys \<Rightarrow> wait_sys \<Rightarrow> bool" where
  turn: "wv_Thread c = WvTop \<Longrightarrow> \<not> tv_Locked (wv c) \<Longrightarrow>
    wait_step c (c\<lparr>wv_Thread := wait_turn (wv c), wv_References := ob_reference (wait_object (wait_turn (wv c))) (wv_References c),
      wv_Waited := wv_Waited c @ (case wait_object (wait_turn (wv c)) of None \<Rightarrow> [] | Some x \<Rightarrow> [x])\<rparr>)"
| idle_wait: "wv_Thread c = WvIdleWait \<Longrightarrow> tv_ControlEvent (wv c) \<Longrightarrow>
    wait_step c (c\<lparr>wv := (wv c)\<lparr>tv_ControlEvent := False\<rparr>, wv_Thread := WvTop\<rparr>)"
| signalled: "wv_Thread c = WvWait x t \<Longrightarrow>
    wait_step c (c\<lparr>wv_Thread := WvRelease x (Some False)\<rparr>)"
| timed_out: "wv_Thread c = WvWait x (Some t) \<Longrightarrow> \<not> tv_ControlEvent (wv c) \<Longrightarrow>
    wait_step c (c\<lparr>wv_Thread := WvRelease x (Some True)\<rparr>)"
| control: "wv_Thread c = WvWait x t \<Longrightarrow> tv_ControlEvent (wv c) \<Longrightarrow>
    wait_step c (c\<lparr>wv := (wv c)\<lparr>tv_ControlEvent := False\<rparr>, wv_Thread := WvRelease x None\<rparr>)"
| release: "wv_Thread c = WvRelease x r \<Longrightarrow>
    wait_step c (c\<lparr>wv_References := ob_dereference (Some x) (wv_References c),
      wv_Thread := case r of None \<Rightarrow> WvTop | Some timeout \<Rightarrow> WvDone timeout\<rparr>)"
| wait_done: "wv_Thread c = WvDone timeout \<Longrightarrow> \<not> tv_Locked (wv c) \<Longrightarrow>
    wait_step c (if flag_on (tv_Flags (wv c)) LDK_TP_WAIT_FLAGS_DELETE_REQUESTED \<or> \<not> flag_on (tv_Flags (wv c)) LDK_TP_WAIT_FLAGS_SET
      then c\<lparr>wv_Thread := WvTop\<rparr> else c\<lparr>wv := (wv c)\<lparr>tv_Locked := True\<rparr>, wv_Thread := WvRead timeout\<rparr>)"
| read_flags: "wv_Thread c = WvRead timeout \<Longrightarrow>
    wait_step c (c\<lparr>wv_Thread := WvWrite timeout (tv_Flags (wv c))\<rparr>)"
| write_flags: "wv_Thread c = WvWrite timeout v \<Longrightarrow>
    wait_step c (c\<lparr>wv := (wv c)\<lparr>tv_Flags := v AND NOT LDK_TP_WAIT_FLAGS_SET, tv_Locked := False\<rparr>, wv_Thread := WvCheck timeout\<rparr>)"
| check: "wv_Thread c = WvCheck timeout \<Longrightarrow>
    wait_step c (c\<lparr>wv_Thread := if flag_on (tv_Flags (wv c)) (LDK_TP_WAIT_FLAGS_DELETE_REQUESTED OR LDK_TP_WAIT_FLAGS_CANCEL_REQUESTED)
      then WvTop else WvCall timeout\<rparr>)"
| callback: "wv_Thread c = WvCall timeout \<Longrightarrow>
    wait_step c (c\<lparr>wv_Callbacks := wv_Callbacks c @ [timeout], wv_Thread := WvTop\<rparr>)"
| set_wait: "rpc c k = RcIdle \<Longrightarrow> wv_Open c \<Longrightarrow>
    wait_step c (c\<lparr>wv_References := ob_reference h (wv_References c), rpc := (rpc c)(k := RsNew h tmo)\<rparr>)"
| set_region: "rpc c k = RsNew h tmo \<Longrightarrow> \<not> tv_Locked (wv c) \<Longrightarrow>
    wait_step c (c\<lparr>wv := (wv c)\<lparr>tv_Locked := True, tv_WaitObject := h, tv_Timeout := (if h = None then None else tmo)\<rparr>,
      rpc := (rpc c)(k := (if h = None then RsClear else RsSet) (tv_WaitObject (wv c)) (tv_Flags (wv c)))\<rparr>)"
| set_clear: "rpc c k = RsClear old v \<Longrightarrow>
    wait_step c (c\<lparr>wv := (wv c)\<lparr>tv_Flags := v AND NOT LDK_TP_WAIT_FLAGS_SET, tv_ControlEvent := True, tv_Locked := False\<rparr>,
      rpc := (rpc c)(k := RsOld old)\<rparr>)"
| set_set: "rpc c k = RsSet old v \<Longrightarrow>
    wait_step c (c\<lparr>wv := (wv c)\<lparr>tv_Flags := v OR LDK_TP_WAIT_FLAGS_SET\<rparr>, rpc := (rpc c)(k := RsRead old)\<rparr>)"
| set_read: "rpc c k = RsRead old \<Longrightarrow>
    wait_step c (c\<lparr>rpc := (rpc c)(k := RsUncancel old (tv_Flags (wv c)))\<rparr>)"
| set_uncancel: "rpc c k = RsUncancel old v \<Longrightarrow>
    wait_step c (c\<lparr>wv := (wv c)\<lparr>tv_Flags := v AND NOT LDK_TP_WAIT_FLAGS_CANCEL_REQUESTED, tv_ControlEvent := True, tv_Locked := False\<rparr>,
      rpc := (rpc c)(k := RsOld old)\<rparr>)"
| set_old: "rpc c k = RsOld old \<Longrightarrow>
    wait_step c (c\<lparr>wv_References := ob_dereference old (wv_References c), rpc := (rpc c)(k := RcIdle)\<rparr>)"
| close: "rpc c k = RcIdle \<Longrightarrow> wv_Open c \<Longrightarrow> \<forall>j. rpc c j = RcIdle \<Longrightarrow> (self \<longrightarrow> (\<exists>r. wv_Thread c = WvCall r)) \<Longrightarrow>
    wait_step c (c\<lparr>wv_Open := False, rpc := (rpc c)(k := RcOr self)\<rparr>)"
| close_or: "rpc c k = RcOr self \<Longrightarrow>
    wait_step c (c\<lparr>wv := (wv c)\<lparr>tv_Flags := tv_Flags (wv c) OR LDK_TP_WAIT_FLAGS_DELETE_REQUESTED\<rparr>,
      rpc := (rpc c)(k := RcControl self (flag_on (tv_Flags (wv c)) LDK_TP_WAIT_FLAGS_DELETE_REQUESTED))\<rparr>)"
| close_control: "rpc c k = RcControl self deleted \<Longrightarrow>
    wait_step c (c\<lparr>wv := (wv c)\<lparr>tv_ControlEvent := True\<rparr>, rpc := (rpc c)(k := RcJoin self deleted)\<rparr>)"
| close_joined: "rpc c k = RcJoin self deleted \<Longrightarrow> deleted \<or> \<not> tv_ThreadHandle (wv c) \<or> self \<or> wv_Thread c = WvGone \<Longrightarrow>
    wait_step c (c\<lparr>rpc := (rpc c)(k := RcHandle)\<rparr>)"
| close_handle: "rpc c k = RcHandle \<Longrightarrow>
    wait_step c (c\<lparr>wv := (wv c)\<lparr>tv_ThreadHandle := False\<rparr>, rpc := (rpc c)(k := RcRegion)\<rparr>)"
| close_region: "rpc c k = RcRegion \<Longrightarrow> \<not> tv_Locked (wv c) \<Longrightarrow>
    wait_step c (c\<lparr>wv := (wv c)\<lparr>tv_Locked := True, tv_WaitObject := None\<rparr>,
      rpc := (rpc c)(k := RcClear (tv_WaitObject (wv c)) (tv_Flags (wv c)))\<rparr>)"
| close_clear: "rpc c k = RcClear old v \<Longrightarrow>
    wait_step c (c\<lparr>wv := (wv c)\<lparr>tv_Flags := v AND NOT LDK_TP_WAIT_FLAGS_SET, tv_Locked := False\<rparr>, rpc := (rpc c)(k := RsOld old)\<rparr>)"

abbreviation wait_reach :: "wait_sys \<Rightarrow> bool" where
  "wait_reach \<equiv> reach wait_init wait_step"

lemmas wait_reach_step = reach_step [of wait_init wait_step]

section \<open>References on the object waited for\<close>

text \<open>The object a client owns a reference on.\<close>

fun reg_object :: "reg_pc \<Rightarrow> addr option" where
  "reg_object (RsNew h tmo) = h"
| "reg_object (RsClear old v) = old"
| "reg_object (RsSet old v) = old"
| "reg_object (RsRead old) = old"
| "reg_object (RsUncancel old v) = old"
| "reg_object (RsOld old) = old"
| "reg_object (RcClear old v) = old"
| "reg_object _ = None"

definition wait_refs :: "wait_sys \<Rightarrow> addr \<Rightarrow> int" where
  "wait_refs c x = of_bool (tv_WaitObject (wv c) = Some x) + of_bool (wait_object (wv_Thread c) = Some x) +
     count_at (\<lambda>p. reg_object p = Some x) (rpc c)"

definition wait_inv :: "wait_sys \<Rightarrow> bool" where
  "wait_inv c \<longleftrightarrow> finite_at (\<lambda>p. p \<noteq> RcIdle) (rpc c) \<and> (\<forall>x. wv_References c x = wait_refs c x)"

lemma wait_finite: "finite_at (\<lambda>p. p \<noteq> RcIdle) f \<Longrightarrow> finite_at (\<lambda>p. reg_object p = Some x) f"
  by (erule finite_at_mono) auto

lemma wait_step_inv:
  assumes "wait_step c d" and "wait_inv c"
  shows "wait_inv d"
proof -
  have fin: "finite_at (\<lambda>p. p \<noteq> RcIdle) (rpc c)" using assms(2) by (simp add: wait_inv_def)
  note upd = count_at_upd [OF wait_finite [OF fin]]
  note r = assms(2) [unfolded wait_inv_def wait_refs_def, THEN conjunct2, rule_format]
  note simps = wait_inv_def wait_refs_def upd r ob_reference_def ob_dereference_def wait_object_def
  from assms(1) show ?thesis
    by cases (use fin in \<open>auto simp: simps split: option.splits wait_pc.splits\<close>)
qed

lemma wait_reach_inv: "wait_reach c \<Longrightarrow> wait_inv c"
proof (induction rule: reach_induct)
  case (init c)
  then show ?case
    by (simp add: wait_init_def wait_inv_def wait_refs_def new_wait_def wait_object_def count_at_none finite_at_none)
next
  case (step c d)
  then show ?case using wait_step_inv by blast
qed

text \<open>After the close no registration is under way, and the object goes when the closing client has passed
  its locked region.\<close>

fun setting_wait :: "reg_pc \<Rightarrow> bool" where
  "setting_wait (RsNew h tmo) = True"
| "setting_wait (RsClear old v) = True"
| "setting_wait (RsSet old v) = True"
| "setting_wait (RsRead old) = True"
| "setting_wait (RsUncancel old v) = True"
| "setting_wait _ = False"

fun before_region :: "reg_pc \<Rightarrow> bool" where
  "before_region (RcOr self) = True"
| "before_region (RcControl self deleted) = True"
| "before_region (RcJoin self deleted) = True"
| "before_region RcHandle = True"
| "before_region RcRegion = True"
| "before_region _ = False"

definition wait_closed :: "wait_sys \<Rightarrow> bool" where
  "wait_closed c \<longleftrightarrow> wv_Open c \<or>
     (\<forall>k. \<not> setting_wait (rpc c k)) \<and> (tv_WaitObject (wv c) = None \<or> (\<exists>k. before_region (rpc c k)))"

lemma before_region_upd:
  "\<exists>j. before_region (f j) \<Longrightarrow> \<not> before_region (f k) \<or> before_region v \<Longrightarrow> \<exists>j. before_region ((f(k := v)) j)"
  by (metis fun_upd_other fun_upd_same)

lemma wait_closed_upd:
  assumes c: "wait_closed c" and "\<not> setting_wait v" and v: "\<not> before_region (rpc c k) \<or> before_region v"
    and d: "rpc d = (rpc c)(k := v)" "wv_Open d = wv_Open c" "tv_WaitObject (wv d) = tv_WaitObject (wv c)"
  shows "wait_closed d"
proof (cases "wv_Open c")
  case False
  then have "\<forall>j. \<not> setting_wait (rpc d j)" using c assms(2) by (auto simp: wait_closed_def d)
  moreover have "tv_WaitObject (wv c) = None \<or> (\<exists>j. before_region (rpc d j))"
    using c False before_region_upd [of "rpc c" k v, OF _ v] unfolding wait_closed_def d(1) by blast
  ultimately show ?thesis by (simp add: wait_closed_def d)
qed (simp add: wait_closed_def d)

lemma wait_step_closed:
  assumes "wait_step c d" and c: "wait_closed c"
  shows "wait_closed d"
proof -
  have n: "wv_Open c" if "setting_wait (rpc c k)" for k using c that unfolding wait_closed_def by blast
  from assms(1) show ?thesis
  proof cases
    case (set_region k h tmo)
    then show ?thesis using n [of k] by (simp add: wait_closed_def)
  next
    case (set_clear k old v)
    then show ?thesis using n [of k] by (simp add: wait_closed_def)
  next
    case (set_set k old v)
    then show ?thesis using n [of k] by (simp add: wait_closed_def)
  next
    case (set_read k old)
    then show ?thesis using n [of k] by (simp add: wait_closed_def)
  next
    case (set_uncancel k old v)
    then show ?thesis using n [of k] by (simp add: wait_closed_def)
  next
    case (set_old k old)
    then show ?thesis using wait_closed_upd [OF c, of RcIdle k] by simp
  next
    case (close k self)
    then show ?thesis by (auto simp: wait_closed_def)
  next
    case (close_or k self)
    then show ?thesis using c by (auto simp: wait_closed_def)
  next
    case (close_control k self deleted)
    then show ?thesis using c by (auto simp: wait_closed_def)
  next
    case (close_joined k self deleted)
    then show ?thesis using c by (auto simp: wait_closed_def)
  next
    case (close_handle k)
    then show ?thesis using c by (auto simp: wait_closed_def)
  next
    case (close_clear k old v)
    then show ?thesis using wait_closed_upd [OF c, of "RsOld old" k] by simp
  qed (use c in \<open>auto simp: wait_closed_def\<close>)
qed

lemma wait_reach_closed: "wait_reach c \<Longrightarrow> wait_closed c"
proof (induction rule: reach_induct)
  case (init c)
  then show ?case by (simp add: wait_init_def wait_closed_def)
next
  case (step c d)
  then show ?case using wait_step_closed by blast
qed

text \<open>The object a registration names, and the object the thread waits for even after it has been
  replaced, are referenced; and once the wait object is closed and nobody is inside its routines, every
  reference has been given back.\<close>

theorem wait_object_referenced:
  assumes "wait_reach c"
  shows "(tv_WaitObject (wv c) = Some x \<or> wait_object (wv_Thread c) = Some x \<longrightarrow> 0 < wv_References c x) \<and>
    (\<not> wv_Open c \<and> wv_Thread c = WvGone \<and> (\<forall>k. rpc c k = RcIdle) \<longrightarrow> wv_References c x = 0)"
proof -
  have r: "wv_References c x = wait_refs c x" using wait_reach_inv [OF assms] by (simp add: wait_inv_def)
  obtain n where n: "count_at (\<lambda>p. reg_object p = Some x) (rpc c) = int n"
    using nonneg_int_cases [OF count_at_nonneg] by blast
  have "0 < wv_References c x" if "tv_WaitObject (wv c) = Some x \<or> wait_object (wv_Thread c) = Some x"
    using that unfolding r wait_refs_def n by (elim disjE) simp_all
  moreover have "wv_References c x = 0" if "\<not> wv_Open c" "wv_Thread c = WvGone" "\<forall>k. rpc c k = RcIdle"
  proof -
    have "tv_WaitObject (wv c) = None" using wait_reach_closed [OF assms] that by (auto simp: wait_closed_def)
    then show ?thesis unfolding r wait_refs_def using that by (simp add: wait_object_def count_at_none)
  qed
  ultimately show ?thesis by blast
qed

section \<open>Runs\<close>

text \<open>A client registers an object with an infinite timeout.\<close>

lemma register_run:
  assumes "wait_reach c" and "rpc c k = RcIdle" and "wv_Open c" and "\<not> tv_Locked (wv c)"
    and "w = (wv c)\<lparr>tv_WaitObject := Some x, tv_Timeout := None, tv_ControlEvent := True,
      tv_Flags := (tv_Flags (wv c) OR LDK_TP_WAIT_FLAGS_SET) AND NOT LDK_TP_WAIT_FLAGS_CANCEL_REQUESTED\<rparr>"
  shows "wait_reach (c\<lparr>wv := w, wv_References :=
    ob_dereference (tv_WaitObject (wv c)) (ob_reference (Some x) (wv_References c))\<rparr>)"
proof -
  note s1 = wait_reach_step [OF assms(1) wait_step.set_wait [OF assms(2,3), of "Some x" None]]
  note s2 = wait_reach_step [OF s1 wait_step.set_region [of _ k "Some x" None], simplified, OF assms(4)]
  note s3 = wait_reach_step [OF s2 wait_step.set_set [of _ k "tv_WaitObject (wv c)" "tv_Flags (wv c)"], simplified]
  note s4 = wait_reach_step [OF s3 wait_step.set_read [of _ k "tv_WaitObject (wv c)"], simplified]
  note s5 = wait_reach_step [OF s4 wait_step.set_uncancel [of _ k "tv_WaitObject (wv c)" "tv_Flags (wv c) OR LDK_TP_WAIT_FLAGS_SET"], simplified]
  note s6 = wait_reach_step [OF s5 wait_step.set_old [of _ k "tv_WaitObject (wv c)"], simplified]
  have "c\<lparr>wv := w, wv_References := ob_dereference (tv_WaitObject (wv c)) (ob_reference (Some x) (wv_References c))\<rparr> =
    c\<lparr>wv := (wv c)\<lparr>tv_WaitObject := Some x, tv_Timeout := None,
        tv_Flags := (tv_Flags (wv c) OR LDK_TP_WAIT_FLAGS_SET) AND NOT LDK_TP_WAIT_FLAGS_CANCEL_REQUESTED, tv_ControlEvent := True,
        tv_Locked := False\<rparr>,
      wv_References := ob_dereference (tv_WaitObject (wv c)) (ob_reference (Some x) (wv_References c)), rpc := (rpc c)(k := RcIdle)\<rparr>"
    using assms(2,4) by (intro wait_sys.equality) (simp_all add: assms(5) fun_upd_idem)
  then show ?thesis using s6 by simp
qed

definition start_wait :: wait_sys where
  "start_wait = \<lparr>wv = new_wait, wv_Open = True, wv_Thread = WvTop, wv_References = (\<lambda>_. 0), wv_Waited = [], wv_Callbacks = [],
     rpc = (\<lambda>_. RcIdle)\<rparr>"

lemma start_wait_reach: "wait_reach start_wait"
  by (rule reach_init) (simp add: wait_init_def start_wait_def)

lemmas demo_wait = start_wait_def new_wait_def wait_turn_def wait_object_def ob_reference_def ob_dereference_def flag_on_def

theorem wait_object_referenced_witness:
  "0 < wv_References (start_wait\<lparr>wv := new_wait\<lparr>tv_WaitObject := Some 100, tv_Flags := 4, tv_ControlEvent := True\<rparr>,
     wv_References := (\<lambda>_. 0)(100 := 1)\<rparr>) 100"
proof -
  have "wait_reach (start_wait\<lparr>wv := new_wait\<lparr>tv_WaitObject := Some 100, tv_Flags := 4, tv_ControlEvent := True\<rparr>,
     wv_References := (\<lambda>_. 0)(100 := 1)\<rparr>)"
    using register_run [OF start_wait_reach, where k = 0 and x = 100] by (simp add: demo_wait)
  from wait_object_referenced [OF this, of 100] show ?thesis by simp
qed

text \<open>A client that registers another object just when the wait for the first one is satisfied loses the
  new registration: the thread clears its mark, runs the callback for the old object and sleeps, and never
  waits for the new one.\<close>

theorem wait_rearm_lost:
  "\<exists>c. wait_reach c \<and> wv_Open c \<and> (\<forall>k. rpc c k = RcIdle) \<and> tv_WaitObject (wv c) = Some 200 \<and>
     wv_Waited c = [100, 100] \<and> wv_Callbacks c = [False] \<and> wv_Thread c = WvIdleWait \<and> \<not> tv_ControlEvent (wv c)"
proof -
  let ?w = "new_wait\<lparr>tv_WaitObject := Some 100, tv_Flags := 4\<rparr>"
  let ?s = "\<lambda>p. start_wait\<lparr>wv := ?w, wv_Thread := p, wv_References := (\<lambda>_. 0)(100 := 1), wv_Waited := [100, 100]\<rparr>"
  let ?v = "new_wait\<lparr>tv_WaitObject := Some 200, tv_Flags := 4, tv_ControlEvent := True\<rparr>"
  let ?t = "\<lambda>p. start_wait\<lparr>wv := ?v, wv_Thread := p, wv_References := (\<lambda>_. 0)(200 := 1, 100 := 0), wv_Waited := [100, 100]\<rparr>"
  have s1: "wait_reach (start_wait\<lparr>wv := ?w\<lparr>tv_ControlEvent := True\<rparr>, wv_References := (\<lambda>_. 0)(100 := 1)\<rparr>)"
    using register_run [OF start_wait_reach, where k = 0 and x = 100] by (simp add: demo_wait)
  note turn1 = wait_reach_step [OF wait_reach_step [OF wait_reach_step [OF s1 wait_step.turn] wait_step.control] wait_step.release]
  have s2: "wait_reach ((?s WvTop)\<lparr>wv_Waited := [100]\<rparr>)"
    using turn1 by (simp add: demo_wait)
  have s3: "wait_reach (?s (WvDone False))"
    using wait_reach_step [OF wait_reach_step [OF wait_reach_step [OF s2 wait_step.turn] wait_step.signalled] wait_step.release]
    by (simp add: demo_wait)
  have s4: "wait_reach (?t (WvDone False))"
    using register_run [OF s3, where k = 0 and x = 200] by (simp add: demo_wait)
  have s5: "wait_reach ((?t (WvWrite False 4))\<lparr>wv := ?v\<lparr>tv_Locked := True\<rparr>\<rparr>)"
    using wait_reach_step [OF wait_reach_step [OF s4 wait_step.wait_done [where timeout = False]] wait_step.read_flags [where timeout = False]] by (simp add: demo_wait)
  have s6: "wait_reach ((?t (WvCall False))\<lparr>wv := ?v\<lparr>tv_Flags := 0\<rparr>\<rparr>)"
    using wait_reach_step [OF wait_reach_step [OF s5 wait_step.write_flags [where timeout = False]] wait_step.check [where timeout = False]] by (simp add: demo_wait)
  have s7: "wait_reach ((?t WvIdleWait)\<lparr>wv := ?v\<lparr>tv_Flags := 0\<rparr>, wv_Callbacks := [False]\<rparr>)"
    using wait_reach_step [OF wait_reach_step [OF s6 wait_step.callback [where timeout = False]] wait_step.turn] by (simp add: demo_wait)
  have s8: "wait_reach ((?t WvIdleWait)\<lparr>wv := ?v\<lparr>tv_Flags := 0, tv_ControlEvent := False\<rparr>, wv_Callbacks := [False]\<rparr>)"
    using wait_reach_step [OF wait_reach_step [OF s7 wait_step.idle_wait] wait_step.turn] by (simp add: demo_wait)
  then show ?thesis by (intro exI, intro conjI, assumption) (simp_all add: demo_wait)
qed

end
