(* ===== verification/ThreadpoolObjects.thy ===== *)
theory ThreadpoolObjects
  imports ModuleReferences
begin

text \<open>
  The objects around the callbacks of the thread pool (src/kernel32/threadpoolapiset.c): pools, captured
  callback environments, cleanup groups with their members, and the instance of a running callback,
  which frees libraries in the module list when it ends.
\<close>

abbreviation STATUS_NOT_SUPPORTED :: ntstatus where "STATUS_NOT_SUPPORTED \<equiv> 0xC00000BB"

section \<open>Pools\<close>

record tp_pool =
  tp_MinimumThreads :: u32
  tp_MaximumThreads :: u32
  tp_StackReserve :: u64
  tp_StackCommit :: u64
  tp_IsDefaultPool :: bool

text \<open>\<open>NoMemory\<close> stands for the last error of \<open>STATUS_INSUFFICIENT_RESOURCES\<close>. A pool argument that may be
  \<open>NULL\<close> is an option.\<close>

datatype pool_error = InvalidParameter | NoMemory

definition LdkpDefaultThreadPool :: tp_pool where
  "LdkpDefaultThreadPool = \<lparr>tp_MinimumThreads = 0, tp_MaximumThreads = 0xFFFFFFFF, tp_StackReserve = 0, tp_StackCommit = 0,
     tp_IsDefaultPool = True\<rparr>"

definition CreateThreadpool :: "addr \<Rightarrow> bool \<Rightarrow> pool_error + tp_pool" where
  "CreateThreadpool reserved pool =
     (if reserved \<noteq> NULL then Inl InvalidParameter
      else if \<not> pool then Inl NoMemory
      else Inr \<lparr>tp_MinimumThreads = 0, tp_MaximumThreads = 0xFFFFFFFF, tp_StackReserve = 0, tp_StackCommit = 0,
                tp_IsDefaultPool = False\<rparr>)"

definition SetThreadpoolThreadMaximum :: "tp_pool option \<Rightarrow> u32 \<Rightarrow> pool_error + tp_pool" where
  "SetThreadpoolThreadMaximum ptpp cthrdMost =
     (case ptpp of
        None \<Rightarrow> Inl InvalidParameter
      | Some p \<Rightarrow>
          let p1 = p\<lparr>tp_MaximumThreads := cthrdMost\<rparr>
          in Inr (if tp_MaximumThreads p1 < tp_MinimumThreads p1
                  then p1\<lparr>tp_MinimumThreads := tp_MaximumThreads p1\<rparr> else p1))"

definition SetThreadpoolThreadMinimum :: "tp_pool option \<Rightarrow> u32 \<Rightarrow> pool_error + tp_pool" where
  "SetThreadpoolThreadMinimum ptpp cthrdMic =
     (case ptpp of
        None \<Rightarrow> Inl InvalidParameter
      | Some p \<Rightarrow>
          let p1 = p\<lparr>tp_MinimumThreads := cthrdMic\<rparr>
          in Inr (if tp_MaximumThreads p1 < tp_MinimumThreads p1
                  then p1\<lparr>tp_MaximumThreads := tp_MinimumThreads p1\<rparr> else p1))"

definition QueryThreadpoolStackInformation :: "tp_pool option \<Rightarrow> pool_error + u64 \<times> u64" where
  "QueryThreadpoolStackInformation ptpp =
     (case ptpp of None \<Rightarrow> Inl InvalidParameter | Some p \<Rightarrow> Inr (tp_StackReserve p, tp_StackCommit p))"

definition SetThreadpoolStackInformation :: "tp_pool option \<Rightarrow> (u64 \<times> u64) option \<Rightarrow> pool_error + tp_pool" where
  "SetThreadpoolStackInformation ptpp ptpsi =
     (case (ptpp, ptpsi) of
        (Some p, Some (reserve, commit)) \<Rightarrow>
          if reserve \<noteq> 0 \<and> commit > reserve then Inl InvalidParameter
          else Inr (p\<lparr>tp_StackReserve := reserve, tp_StackCommit := commit\<rparr>)
      | _ \<Rightarrow> Inl InvalidParameter)"

text \<open>A call on a pool leaves it as it is when it fails.\<close>

datatype pool_call = SetMaximum u32 | SetMinimum u32 | SetStack u64 u64

definition pool_call_on :: "pool_call \<Rightarrow> tp_pool \<Rightarrow> tp_pool" where
  "pool_call_on f p =
     (case (case f of SetMaximum n \<Rightarrow> SetThreadpoolThreadMaximum (Some p) n
                    | SetMinimum n \<Rightarrow> SetThreadpoolThreadMinimum (Some p) n
                    | SetStack r k \<Rightarrow> SetThreadpoolStackInformation (Some p) (Some (r, k))) of
        Inl e \<Rightarrow> p | Inr p' \<Rightarrow> p')"

definition pool_well_formed :: "tp_pool \<Rightarrow> bool" where
  "pool_well_formed p \<longleftrightarrow> tp_MinimumThreads p \<le> tp_MaximumThreads p \<and>
     (tp_StackReserve p \<noteq> 0 \<longrightarrow> tp_StackCommit p \<le> tp_StackReserve p)"

lemma pool_call_well_formed: "pool_well_formed p \<Longrightarrow> pool_well_formed (pool_call_on f p)"
  by (cases f) (auto simp: pool_call_on_def pool_well_formed_def SetThreadpoolThreadMaximum_def
      SetThreadpoolThreadMinimum_def SetThreadpoolStackInformation_def Let_def)

lemma pool_calls_well_formed: "pool_well_formed p \<Longrightarrow> pool_well_formed (fold pool_call_on fs p)"
  by (induction fs arbitrary: p) (auto intro: pool_call_well_formed)

text \<open>C22: A pool is well-formed after any sequence of calls: its minimum of threads is at most its maximum,
  and it does not commit more stack than it reserves; the limit set last is in force.\<close>

theorem pool_limits:
  assumes "CreateThreadpool reserved mem = Inr p \<or> p = LdkpDefaultThreadPool"
  shows "pool_well_formed (fold pool_call_on fs p) \<and>
    tp_MaximumThreads (fold pool_call_on (fs @ [SetMaximum n]) p) = n \<and>
    tp_MinimumThreads (fold pool_call_on (fs @ [SetMinimum n]) p) = n"
proof -
  have "pool_well_formed p"
    using assms by (auto simp: CreateThreadpool_def LdkpDefaultThreadPool_def pool_well_formed_def split: if_splits)
  then show ?thesis
    using pool_calls_well_formed [of p fs]
    by (simp add: pool_call_on_def SetThreadpoolThreadMaximum_def SetThreadpoolThreadMinimum_def Let_def)
qed

theorem pool_limits_witness:
  "tp_MaximumThreads (fold pool_call_on ([SetMinimum 8] @ [SetMaximum 4]) LdkpDefaultThreadPool) = 4 \<and>
   pool_well_formed (fold pool_call_on [SetMinimum 8, SetMaximum 4] LdkpDefaultThreadPool)"
  using pool_limits [of 0 True LdkpDefaultThreadPool "[SetMinimum 8]" 4]
    pool_limits [of 0 True LdkpDefaultThreadPool "[SetMinimum 8, SetMaximum 4]" 4] by simp

section \<open>Callback environments\<close>

record callback_environ =
  ce_Version :: u32
  ce_Pool :: addr
  ce_CleanupGroup :: addr
  ce_CleanupGroupCancelCallback :: addr
  ce_RaceDll :: addr
  ce_ActivationContext :: u64
  ce_FinalizationCallback :: addr
  ce_Flags :: u32
  ce_CallbackPriority :: u32
  ce_Size :: u32

abbreviation TP_CALLBACK_PRIORITY_INVALID :: int where "TP_CALLBACK_PRIORITY_INVALID \<equiv> 3"
abbreviation TP_CALLBACK_ENVIRON_SIZE :: u32 where "TP_CALLBACK_ENVIRON_SIZE \<equiv> 72"

text \<open>\<open>pool\<close> is the address of the default pool. The default environment is filled in by
  inline functions of the SDK, which is not part of the repository; it is the parameter \<open>env0\<close>.\<close>

definition LdkpCaptureThreadpoolCallbackEnvironment :: "callback_environ \<Rightarrow> addr \<Rightarrow> callback_environ option \<Rightarrow> ntstatus + callback_environ" where
  "LdkpCaptureThreadpoolCallbackEnvironment env0 pool Source =
     (case Source of
        None \<Rightarrow> Inr env0
      | Some s \<Rightarrow>
          if ce_Version s \<noteq> 1 \<and> ce_Version s \<noteq> 3 then Inl STATUS_INVALID_PARAMETER
          else if ce_Version s = 3 \<and> ce_Size s \<noteq> TP_CALLBACK_ENVIRON_SIZE then Inl STATUS_INVALID_PARAMETER
          else if ce_Version s = 3 \<and> sint (ce_CallbackPriority s) \<ge> TP_CALLBACK_PRIORITY_INVALID then Inl STATUS_INVALID_PARAMETER
          else if ce_CleanupGroup s = NULL \<and> ce_CleanupGroupCancelCallback s \<noteq> NULL then Inl STATUS_INVALID_PARAMETER
          else if ce_ActivationContext s \<noteq> 0 \<and> ce_ActivationContext s \<noteq> - 1 then Inl STATUS_NOT_SUPPORTED
          else Inr (if ce_Pool s = NULL then s\<lparr>ce_Pool := pool\<rparr> else s))"

text \<open>What a captured environment promises, provided the default environment does.\<close>

definition environ_ok :: "callback_environ \<Rightarrow> bool" where
  "environ_ok e \<longleftrightarrow> ce_Pool e \<noteq> NULL \<and> ce_Version e \<in> {1, 3} \<and> ce_ActivationContext e \<in> {0, - 1} \<and>
     (ce_CleanupGroup e = NULL \<longrightarrow> ce_CleanupGroupCancelCallback e = NULL)"

lemma captured_environment:
  assumes "LdkpCaptureThreadpoolCallbackEnvironment env0 pool Source = Inr e" and "pool \<noteq> NULL" and "environ_ok env0"
  shows "environ_ok e"
proof (cases Source)
  case None
  then show ?thesis using assms(1,3) by (simp add: LdkpCaptureThreadpoolCallbackEnvironment_def)
next
  case (Some s)
  then have "ce_Version s \<in> {1, 3}" "ce_ActivationContext s \<in> {0, - 1}"
    "ce_CleanupGroup s = NULL \<longrightarrow> ce_CleanupGroupCancelCallback s = NULL"
    "e = (if ce_Pool s = NULL then s\<lparr>ce_Pool := pool\<rparr> else s)"
    using assms(1) by (force simp: LdkpCaptureThreadpoolCallbackEnvironment_def split: if_split_asm)+
  then show ?thesis using assms(2) by (simp add: environ_ok_def)
qed

section \<open>Cleanup groups\<close>

text \<open>A member is named by the address of its object. What happens to the objects of a group that is
  closed is recorded: closing the object and waiting for its callbacks, the cancel callback, and the
  release of the client's reference.\<close>

datatype group_event = MemberClosed addr bool | MemberCancelled addr addr addr | MemberReleased addr

record cleanup_member =
  cm_CleanupGroup :: addr
  cm_CleanupGroupCancelCallback :: addr
  cm_ObjectContext :: addr
  cm_Object :: addr

definition no_member :: cleanup_member where
  "no_member = \<lparr>cm_CleanupGroup = NULL, cm_CleanupGroupCancelCallback = NULL, cm_ObjectContext = NULL, cm_Object = NULL\<rparr>"

record cleanup_state =
  cg_ObjectList :: "addr \<Rightarrow> addr list"
  cg_Closed :: "addr \<Rightarrow> bool"
  cg_Member :: "addr \<Rightarrow> cleanup_member"
  cg_Events :: "group_event list"

definition LdkpRegisterThreadpoolCleanupGroupMember ::
  "callback_environ \<Rightarrow> addr \<Rightarrow> addr \<Rightarrow> cleanup_state \<Rightarrow> ntstatus \<times> cleanup_state" where
  "LdkpRegisterThreadpoolCleanupGroupMember env Object ObjectContext s =
     (let g = ce_CleanupGroup env in
      if g = NULL then (STATUS_SUCCESS, s)
      else if cg_Closed s g then (STATUS_DELETE_PENDING, s)
      else (STATUS_SUCCESS,
            s\<lparr>cg_Member := (cg_Member s)(Object := \<lparr>cm_CleanupGroup = g,
                cm_CleanupGroupCancelCallback = ce_CleanupGroupCancelCallback env,
                cm_ObjectContext = ObjectContext, cm_Object = Object\<rparr>),
              cg_ObjectList := (cg_ObjectList s)(g := cg_ObjectList s g @ [Object])\<rparr>))"

definition LdkpUnregisterThreadpoolCleanupGroupMember :: "addr \<Rightarrow> cleanup_state \<Rightarrow> cleanup_state" where
  "LdkpUnregisterThreadpoolCleanupGroupMember Object s =
     (let g = cm_CleanupGroup (cg_Member s Object) in
      if g = NULL then s
      else s\<lparr>cg_Member := (cg_Member s)(Object := no_member),
             cg_ObjectList := (cg_ObjectList s)(g := remove1 Object (cg_ObjectList s g))\<rparr>)"

text \<open>The first loop of \<open>CloseThreadpoolCleanupGroupMembers\<close> takes the members off the group; the second
  closes them one by one.\<close>

fun detach_members :: "addr list \<Rightarrow> cleanup_state \<Rightarrow> cleanup_state" where
  "detach_members [] s = s"
| "detach_members (x # xs) s =
     detach_members xs (s\<lparr>cg_Member := (cg_Member s)(x := (cg_Member s x)\<lparr>cm_CleanupGroup := NULL\<rparr>)\<rparr>)"

definition close_member :: "bool \<Rightarrow> addr \<Rightarrow> addr \<Rightarrow> cleanup_state \<Rightarrow> cleanup_state" where
  "close_member fCancelPendingCallbacks pvCleanupContext x s =
     (let m = cg_Member s x in
      s\<lparr>cg_Member := (cg_Member s)(x := m\<lparr>cm_CleanupGroupCancelCallback := NULL, cm_ObjectContext := NULL, cm_Object := NULL\<rparr>),
        cg_Events := cg_Events s @ [MemberClosed (cm_Object m) fCancelPendingCallbacks] @
          (if cm_CleanupGroupCancelCallback m \<noteq> NULL
           then [MemberCancelled (cm_CleanupGroupCancelCallback m) (cm_ObjectContext m) pvCleanupContext] else []) @
          [MemberReleased x]\<rparr>)"

definition CloseThreadpoolCleanupGroupMembers :: "addr \<Rightarrow> bool \<Rightarrow> addr \<Rightarrow> cleanup_state \<Rightarrow> cleanup_state" where
  "CloseThreadpoolCleanupGroupMembers ptpcg fCancelPendingCallbacks pvCleanupContext s =
     (let WorkList = cg_ObjectList s ptpcg in
      fold (close_member fCancelPendingCallbacks pvCleanupContext) WorkList
        (detach_members WorkList (s\<lparr>cg_ObjectList := (cg_ObjectList s)(ptpcg := [])\<rparr>)))"

definition CloseThreadpoolCleanupGroup :: "addr \<Rightarrow> cleanup_state \<Rightarrow> cleanup_state" where
  "CloseThreadpoolCleanupGroup ptpcg s =
     s\<lparr>cg_Closed := (cg_Closed s)(ptpcg := True),
       cg_Member := (\<lambda>x. if x \<in> set (cg_ObjectList s ptpcg) then no_member else cg_Member s x),
       cg_ObjectList := (cg_ObjectList s)(ptpcg := [])\<rparr>"

text \<open>A member points to the group whose list it is in, and is in no other.\<close>

definition groups_ok :: "cleanup_state \<Rightarrow> bool" where
  "groups_ok s \<longleftrightarrow> (\<forall>g. distinct (cg_ObjectList s g)) \<and> cg_ObjectList s NULL = [] \<and>
     (\<forall>g x. g \<noteq> NULL \<longrightarrow> (x \<in> set (cg_ObjectList s g) \<longleftrightarrow> cm_CleanupGroup (cg_Member s x) = g))"

lemma detach_members_fields:
  "cg_ObjectList (detach_members xs s) = cg_ObjectList s" "cg_Events (detach_members xs s) = cg_Events s"
  "cg_Closed (detach_members xs s) = cg_Closed s"
  "cg_Member (detach_members xs s) x = (if x \<in> set xs then (cg_Member s x)\<lparr>cm_CleanupGroup := NULL\<rparr> else cg_Member s x)"
  by (induction xs arbitrary: s) auto

lemma close_members_fields:
  "cg_ObjectList (fold (close_member f p) xs s) = cg_ObjectList s"
  "cm_CleanupGroup (cg_Member (fold (close_member f p) xs s) x) = cm_CleanupGroup (cg_Member s x)"
  by (induction xs arbitrary: s) (auto simp: close_member_def Let_def)

text \<open>What closing a member does to it.\<close>

definition member_events :: "bool \<Rightarrow> addr \<Rightarrow> (addr \<Rightarrow> cleanup_member) \<Rightarrow> addr \<Rightarrow> group_event list" where
  "member_events f p M x = [MemberClosed (cm_Object (M x)) f] @
     (if cm_CleanupGroupCancelCallback (M x) \<noteq> NULL
      then [MemberCancelled (cm_CleanupGroupCancelCallback (M x)) (cm_ObjectContext (M x)) p] else []) @ [MemberReleased x]"

lemma close_members_events:
  "distinct xs \<Longrightarrow> cg_Events (fold (close_member f p) xs s) = cg_Events s @ concat (map (member_events f p (cg_Member s)) xs)"
proof (induction xs arbitrary: s)
  case (Cons x xs)
  let ?s = "close_member f p x s"
  have ev: "cg_Events ?s = cg_Events s @ member_events f p (cg_Member s) x"
    by (simp add: close_member_def member_events_def Let_def)
  have "member_events f p (cg_Member ?s) y = member_events f p (cg_Member s) y" if "y \<in> set xs" for y
    using that Cons.prems by (auto simp: close_member_def member_events_def Let_def)
  then have m: "map (member_events f p (cg_Member ?s)) xs = map (member_events f p (cg_Member s)) xs" by simp
  have "cg_Events (fold (close_member f p) (x # xs) s) = cg_Events (fold (close_member f p) xs ?s)" by simp
  also have "\<dots> = cg_Events ?s @ concat (map (member_events f p (cg_Member ?s)) xs)" using Cons by simp
  finally show ?case using ev m by simp
qed simp

lemma member_events_detached:
  "member_events f p (cg_Member (detach_members xs s)) = member_events f p (cg_Member s)"
  by (auto simp: fun_eq_iff member_events_def detach_members_fields)

text \<open>Registering a new object, removing one, and closing groups keep the lists and the members in step.\<close>

lemma groups_ok_register:
  assumes "groups_ok s" and "cm_CleanupGroup (cg_Member s x) = NULL"
  shows "groups_ok (snd (LdkpRegisterThreadpoolCleanupGroupMember env x ctx s))"
proof -
  have "x \<notin> set (cg_ObjectList s g)" for g using assms by (cases "g = NULL") (auto simp: groups_ok_def)
  then show ?thesis using assms unfolding LdkpRegisterThreadpoolCleanupGroupMember_def Let_def groups_ok_def by auto
qed

lemma groups_ok_unregister: "groups_ok s \<Longrightarrow> groups_ok (LdkpUnregisterThreadpoolCleanupGroupMember x s)"
  unfolding LdkpUnregisterThreadpoolCleanupGroupMember_def Let_def groups_ok_def no_member_def by auto

lemma groups_ok_close: "groups_ok s \<Longrightarrow> g \<noteq> NULL \<Longrightarrow> groups_ok (CloseThreadpoolCleanupGroup g s)"
  unfolding CloseThreadpoolCleanupGroup_def groups_ok_def no_member_def by auto

lemma groups_ok_close_members: "groups_ok s \<Longrightarrow> g \<noteq> NULL \<Longrightarrow> groups_ok (CloseThreadpoolCleanupGroupMembers g f p s)"
  unfolding CloseThreadpoolCleanupGroupMembers_def Let_def groups_ok_def
  by (auto simp: close_members_fields detach_members_fields)

text \<open>Closing the members of a group closes each member once, in the order in which they joined, calls
  its cancel callback with its own context if it has one, and then drops the client's reference; the
  group is empty afterwards, and a later removal of one of the objects does nothing.\<close>

theorem close_group_members:
  assumes "groups_ok s" and "g \<noteq> NULL" and "s' = CloseThreadpoolCleanupGroupMembers g cancel ctx s"
  shows "cg_Events s' = cg_Events s @ concat (map (member_events cancel ctx (cg_Member s)) (cg_ObjectList s g)) \<and>
    cg_ObjectList s' g = [] \<and> groups_ok s' \<and>
    (\<forall>x\<in>set (cg_ObjectList s g). LdkpUnregisterThreadpoolCleanupGroupMember x s' = s')"
proof -
  have "distinct (cg_ObjectList s g)" using assms(1) by (simp add: groups_ok_def)
  then have "cg_Events s' = cg_Events s @ concat (map (member_events cancel ctx (cg_Member s)) (cg_ObjectList s g))"
    using assms(3) by (simp add: CloseThreadpoolCleanupGroupMembers_def Let_def close_members_events
      detach_members_fields member_events_detached)
  moreover have "LdkpUnregisterThreadpoolCleanupGroupMember x s' = s'" if "x \<in> set (cg_ObjectList s g)" for x
    using that assms(3) by (simp add: LdkpUnregisterThreadpoolCleanupGroupMember_def CloseThreadpoolCleanupGroupMembers_def
      Let_def close_members_fields detach_members_fields)
  ultimately show ?thesis
    using groups_ok_close_members [OF assms(1,2)] assms(3)
    by (simp add: CloseThreadpoolCleanupGroupMembers_def Let_def close_members_fields detach_members_fields)
qed

section \<open>Callback instances\<close>

record callback_instance =
  ci_ModuleList :: "addr list"
  ci_DeletePending :: bool

text \<open>\<open>ImageBase\<close> is the image base of the process.\<close>

definition LdkpMapModuleHandle :: "addr \<Rightarrow> addr \<Rightarrow> bool \<Rightarrow> addr" where
  "LdkpMapModuleHandle ImageBase hModule bResourcesOnly =
     (if hModule \<noteq> NULL then
        if hModule mod 2 = 1 then (if bResourcesOnly then hModule - 1 else NULL) else hModule
      else ImageBase)"

definition FreeLibrary :: "addr \<Rightarrow> module_state \<Rightarrow> bool \<times> module_state" where
  "FreeLibrary hLibModule s =
     (if hLibModule = NULL then (False, s)
      else let ModuleHandle = LdkpMapModuleHandle NULL hLibModule True in
           if ModuleHandle = NULL then (False, s)
           else case LdkUnloadDll ModuleHandle s of (st, s1) \<Rightarrow> (NT_SUCCESS st, s1))"

definition LdkpBeginThreadpoolCallback ::
  "addr \<Rightarrow> module_state \<Rightarrow> bool \<times> callback_instance \<times> module_state" where
  "LdkpBeginThreadpoolCallback RaceDll s =
     (let inst = \<lparr>ci_ModuleList = [], ci_DeletePending = False\<rparr> in
      if RaceDll \<noteq> NULL then (case LdkAddRefDll 0 RaceDll s of (st, s1) \<Rightarrow> (NT_SUCCESS st, inst, s1))
      else (False, inst, s))"

text \<open>\<open>pool\<close> tells whether the lookaside list has an entry.\<close>

definition FreeLibraryWhenCallbackReturns :: "bool \<Rightarrow> addr \<Rightarrow> callback_instance \<Rightarrow> callback_instance" where
  "FreeLibraryWhenCallbackReturns pool hMod pci =
     (if \<not> pool then pci
      else if ci_DeletePending pci then pci
      else pci\<lparr>ci_ModuleList := hMod # ci_ModuleList pci\<rparr>)"

definition LdkpEndThreadpoolCallback ::
  "callback_instance \<Rightarrow> addr \<Rightarrow> bool \<Rightarrow> module_state \<Rightarrow> callback_instance \<times> module_state" where
  "LdkpEndThreadpoolCallback pci RaceDll ReleaseRaceDll s =
     (let s1 = fold (\<lambda>h s. snd (FreeLibrary h s)) (ci_ModuleList pci) s
      in (\<lparr>ci_ModuleList = [], ci_DeletePending = True\<rparr>, if ReleaseRaceDll then snd (FreeLibrary RaceDll s1) else s1))"

text \<open>A callback whose environment names a library runs with one more reference on the library, and
  when it has returned the module list is what it was; the reference it takes is its own, so the library
  cannot be unloaded while the callback runs.\<close>

theorem race_dll_referenced:
  assumes "ml_shape s" and "a \<in> set (ml_ModuleListHead s)" and "unpinned (ml_Module s a)"
    and "0 < md_LoadCount (ml_Module s a)" and "md_LoadCount (ml_Module s a) < MAXLONG"
    and "RaceDll = md_handle s a" and "even RaceDll"
  shows "\<exists>inst s1. LdkpBeginThreadpoolCallback RaceDll s = (True, inst, s1) \<and>
    md_LoadCount (ml_Module s1 a) = md_LoadCount (ml_Module s a) + 1 \<and>
    LdkpEndThreadpoolCallback inst RaceDll True s1 = (\<lparr>ci_ModuleList = [], ci_DeletePending = True\<rparr>, s)"
proof -
  let ?s1 = "LdkpReferenceModuleLocked a False True s"
  have nn: "RaceDll \<noteq> NULL" using assms(1,2,6) by (auto simp: md_handle_def ml_shape_def)
  have add: "LdkAddRefDll 0 RaceDll s = (STATUS_SUCCESS, ?s1)"
    using nn handle_names_module [OF assms(1,2)] assms(6) by (simp add: LdkAddRefDll_def flag_on_def)
  have upd: "?s1 = ml_update a (\<lambda>m. m\<lparr>md_LoadCount := md_LoadCount m + 1\<rparr>) s"
    using assms(3,5) by (simp add: reference_update ml_update_def referenced_def unpinned_def Let_def flag_on_def)
  have sh: "ml_shape ?s1" using assms(1) ml_frame_shape [OF frame_reference] by simp
  have "md_handle ?s1 a = RaceDll" using assms(6) frame_reference [of s a False True] unfolding ml_frame_def md_handle_def by simp
  then have h: "module_of_handle RaceDll ?s1 = Inr a"
    using handle_names_module [OF sh, of a] assms(2) ml_frame_list [OF frame_reference] by simp
  have undo: "ml_update a (\<lambda>m. m\<lparr>md_LoadCount := md_LoadCount m - 1\<rparr>) ?s1 = s"
    unfolding upd ml_update_def by simp
  have m: "md_FunctionTable (ml_Module ?s1 a) = None" "\<not> flag_on (md_Flags (ml_Module ?s1 a)) LDK_MODULE_FLAG_PINNED"
    "md_LoadCount (ml_Module ?s1 a) = md_LoadCount (ml_Module s a) + 1"
    using assms(3) by (simp_all add: upd ml_update_def unpinned_def)
  have "LdkUnloadDll_locked RaceDll ?s1 = (STATUS_SUCCESS, None, s)"
    using m assms(4) by (simp add: LdkUnloadDll_locked_def h LDK_MODULE_HAS_UNREGISTRABLE_def undo)
  then have "LdkUnloadDll RaceDll ?s1 = (STATUS_SUCCESS, s)" by (simp add: LdkUnloadDll_def)
  moreover have "LdkpMapModuleHandle NULL RaceDll True = RaceDll" using assms(7) nn by (simp add: LdkpMapModuleHandle_def)
  ultimately have "FreeLibrary RaceDll ?s1 = (True, s)" using nn by (simp add: FreeLibrary_def)
  then show ?thesis
    using add nn m(3) by (simp add: LdkpBeginThreadpoolCallback_def LdkpEndThreadpoolCallback_def Let_def)
qed

section \<open>Concrete instances\<close>

definition demo_environ :: callback_environ where
  "demo_environ = \<lparr>ce_Version = 3, ce_Pool = 5, ce_CleanupGroup = 7,
     ce_CleanupGroupCancelCallback = 9, ce_RaceDll = NULL, ce_ActivationContext = 0, ce_FinalizationCallback = NULL,
     ce_Flags = 0, ce_CallbackPriority = 1, ce_Size = TP_CALLBACK_ENVIRON_SIZE\<rparr>"

definition demo_groups :: cleanup_state where
  "demo_groups = snd (LdkpRegisterThreadpoolCleanupGroupMember demo_environ 20 30
     \<lparr>cg_ObjectList = (\<lambda>_. []), cg_Closed = (\<lambda>_. False), cg_Member = (\<lambda>_. no_member), cg_Events = []\<rparr>)"

lemma demo_groups_ok: "groups_ok demo_groups"
  unfolding demo_groups_def demo_environ_def by (rule groups_ok_register) (simp_all add: groups_ok_def no_member_def)

theorem close_group_members_witness:
  "cg_Events (CloseThreadpoolCleanupGroupMembers 7 True 40 demo_groups) =
     [MemberClosed 20 True, MemberCancelled 9 30 40, MemberReleased 20]"
  using close_group_members [OF demo_groups_ok, of 7 _ True 40]
  by (simp add: demo_groups_def demo_environ_def LdkpRegisterThreadpoolCleanupGroupMember_def Let_def member_events_def)

theorem race_dll_referenced_witness:
  "\<exists>inst s1. LdkpBeginThreadpoolCallback 4096 (mm_State demo_loaded) = (True, inst, s1) \<and>
     md_LoadCount (ml_Module s1 8) = 2 \<and> snd (LdkpEndThreadpoolCallback inst 4096 True s1) = mm_State demo_loaded"
proof -
  have "ml_shape (mm_State demo_loaded)" by (simp add: ml_shape_def demo_eval)
  moreover have "md_handle (mm_State demo_loaded) 8 = 4096" "md_LoadCount (ml_Module (mm_State demo_loaded) 8) = 1"
    by (simp_all add: demo_eval)
  ultimately show ?thesis
    using race_dll_referenced [of "mm_State demo_loaded" 8 4096] demo_loaded_facts by fastforce
qed

end
