(* ===== verification/PathNames.thy ===== *)
theory PathNames
  imports UnicodeStrings
begin

text \<open>
  Classification of DOS path names (src/ntdll/curdir.c): the kind of a name, by its counted and by its
  null-terminated form, and the recognition of the reserved device names. A counted string is the list
  of its characters.
\<close>

section \<open>Characters\<close>

abbreviation BACKSLASH :: u16 where "BACKSLASH \<equiv> 92"
abbreviation SLASH :: u16 where "SLASH \<equiv> 47"
abbreviation DOT :: u16 where "DOT \<equiv> 46"
abbreviation COLON :: u16 where "COLON \<equiv> 58"
abbreviation SPACE :: u16 where "SPACE \<equiv> 32"
abbreviation QUESTION :: u16 where "QUESTION \<equiv> 63"

definition IS_PATH_SEPARATOR_U :: "u16 \<Rightarrow> bool" where
  "IS_PATH_SEPARATOR_U ch \<longleftrightarrow> ch = BACKSLASH \<or> ch = SLASH"

lemma separator_simps [simp]:
  "IS_PATH_SEPARATOR_U BACKSLASH" "IS_PATH_SEPARATOR_U SLASH" "\<not> IS_PATH_SEPARATOR_U DOT"
  "\<not> IS_PATH_SEPARATOR_U COLON" "\<not> IS_PATH_SEPARATOR_U SPACE" "\<not> IS_PATH_SEPARATOR_U 0"
  by (simp_all add: IS_PATH_SEPARATOR_U_def)

definition iswdigit :: "u16 \<Rightarrow> bool" where
  "iswdigit c \<longleftrightarrow> 48 \<le> c \<and> c \<le> 57"

abbreviation RtlpDosLPTDevice :: "u16 list" where "RtlpDosLPTDevice \<equiv> [76, 80, 84]"
abbreviation RtlpDosCOMDevice :: "u16 list" where "RtlpDosCOMDevice \<equiv> [67, 79, 77]"
abbreviation RtlpDosPRNDevice :: "u16 list" where "RtlpDosPRNDevice \<equiv> [80, 82, 78]"
abbreviation RtlpDosAUXDevice :: "u16 list" where "RtlpDosAUXDevice \<equiv> [65, 85, 88]"
abbreviation RtlpDosNULDevice :: "u16 list" where "RtlpDosNULDevice \<equiv> [78, 85, 76]"
abbreviation RtlpDosCONDevice :: "u16 list" where "RtlpDosCONDevice \<equiv> [67, 79, 78]"
abbreviation RtlpSlashSlashDot :: "u16 list" where "RtlpSlashSlashDot \<equiv> [92, 92, 46, 92]"
abbreviation RtlpDosSlashCONDevice :: "u16 list" where
  "RtlpDosSlashCONDevice \<equiv> [92, 92, 46, 92, 67, 79, 78]"

section \<open>Kinds of path names\<close>

datatype rtl_path_type =
    RtlPathTypeUnknown | RtlPathTypeUncAbsolute | RtlPathTypeDriveAbsolute | RtlPathTypeDriveRelative
  | RtlPathTypeRooted | RtlPathTypeRelative | RtlPathTypeLocalDevice | RtlPathTypeRootLocalDevice

definition RtlDetermineDosPathNameType_Ustr :: "u16 list \<Rightarrow> rtl_path_type" where
  "RtlDetermineDosPathNameType_Ustr s =
     (if 1 \<le> length s \<and> IS_PATH_SEPARATOR_U (s ! 0) then
        if 2 \<le> length s \<and> IS_PATH_SEPARATOR_U (s ! 1) then
          if 3 \<le> length s \<and> (s ! 2 = DOT \<or> s ! 2 = QUESTION) then
            if 4 \<le> length s \<and> IS_PATH_SEPARATOR_U (s ! 3) then RtlPathTypeLocalDevice
            else if length s = 3 then RtlPathTypeRootLocalDevice
            else RtlPathTypeUncAbsolute
          else RtlPathTypeUncAbsolute
        else RtlPathTypeRooted
      else if 2 \<le> length s \<and> s ! 0 \<noteq> 0 \<and> s ! 1 = COLON then
        if 3 \<le> length s \<and> IS_PATH_SEPARATOR_U (s ! 2) then RtlPathTypeDriveAbsolute
        else RtlPathTypeDriveRelative
      else RtlPathTypeRelative)"

text \<open>The argument is what is in memory from \<open>DosFileName\<close> on, the terminating null included.\<close>

definition RtlDetermineDosPathNameType_U :: "u16 list \<Rightarrow> rtl_path_type" where
  "RtlDetermineDosPathNameType_U p =
     (if IS_PATH_SEPARATOR_U (p ! 0) then
        if IS_PATH_SEPARATOR_U (p ! 1) then
          if p ! 2 = DOT \<or> p ! 2 = QUESTION then
            if IS_PATH_SEPARATOR_U (p ! 3) then RtlPathTypeLocalDevice
            else if p ! 3 = 0 then RtlPathTypeRootLocalDevice
            else RtlPathTypeUncAbsolute
          else RtlPathTypeUncAbsolute
        else RtlPathTypeRooted
      else if p ! 0 \<noteq> 0 \<and> p ! 1 = COLON then
        if IS_PATH_SEPARATOR_U (p ! 2) then RtlPathTypeDriveAbsolute else RtlPathTypeDriveRelative
      else RtlPathTypeRelative)"

text \<open>The counted and the null-terminated classification agree on every string without an embedded
  null, and neither reads past the terminator.\<close>

theorem path_type_agree:
  assumes "0 \<notin> set s"
  shows "RtlDetermineDosPathNameType_U (s @ 0 # junk) = RtlDetermineDosPathNameType_Ustr s"
proof -
  consider "s = []" | a where "s = [a]" | a b where "s = [a, b]" | a b c where "s = [a, b, c]"
    | a b c d r where "s = a # b # c # d # r"
    by (metis list.exhaust)
  then show ?thesis
    by cases (use assms in \<open>simp_all add: RtlDetermineDosPathNameType_U_def RtlDetermineDosPathNameType_Ustr_def\<close>)
qed

section \<open>Device names\<close>

text \<open>Trailing dots and blanks are dropped and counted.\<close>

fun device_strip :: "u16 list \<Rightarrow> nat \<Rightarrow> nat \<Rightarrow> nat \<times> nat" where
  "device_strip s 0 ColonBias = (0, ColonBias)"
| "device_strip s (Suc n) ColonBias =
     (if s ! n = DOT \<or> s ! n = SPACE then device_strip s n (ColonBias + 1) else (Suc n, ColonBias))"

text \<open>The last separator, or the colon of a drive, among the first characters: the index behind it.\<close>

fun device_sep :: "u16 list \<Rightarrow> nat \<Rightarrow> nat option" where
  "device_sep s 0 = None"
| "device_sep s (Suc n) =
     (if s ! n = BACKSLASH \<or> s ! n = SLASH \<or> s ! n = COLON \<and> n = 1 then Some (Suc n) else device_sep s n)"

text \<open>Blanks before the extension are dropped.\<close>

fun device_unspace :: "u16 list \<Rightarrow> nat \<Rightarrow> nat" where
  "device_unspace s 0 = 0"
| "device_unspace s (Suc n) = (if s ! n = SPACE then device_unspace s n else Suc n)"

definition device_letter :: "u16 \<Rightarrow> bool" where
  "device_letter c \<longleftrightarrow> (let wch = c OR 0x20 in wch = 108 \<or> wch = 99 \<or> wch = 112 \<or> wch = 97 \<or> wch = 110)"

text \<open>A length and an offset in bytes, in the two halves of the result.\<close>

definition device_pack :: "nat \<Rightarrow> nat \<Rightarrow> u32" where
  "device_pack ReturnLength ReturnOffset = of_nat ReturnLength OR push_bit 16 (of_nat ReturnOffset)"

text \<open>\<open>eq\<close> is the kernel's \<open>RtlEqualUnicodeString\<close> without regard to case. The rest of the routine, on the
  \<open>n\<close> characters of \<open>b\<close> that start at offset \<open>off\<close> of the name.\<close>

definition device_match :: "(u16 list \<Rightarrow> u16 list \<Rightarrow> bool) \<Rightarrow> u16 list \<Rightarrow> nat \<Rightarrow> nat \<Rightarrow> u32" where
  "device_match eq b n off =
     (let r = device_unspace b (length (takeWhile (\<lambda>c. c \<noteq> DOT \<and> c \<noteq> COLON) (take n b))) in
      if r = 4 \<and> iswdigit (b ! 3) then
        if b ! 3 = 48 then 0
        else if eq (take 3 b) RtlpDosLPTDevice \<or> eq (take 3 b) RtlpDosCOMDevice then device_pack (2 * r) (2 * off)
        else 0
      else if r \<noteq> 3 then 0
      else if eq (take 3 b) RtlpDosPRNDevice \<or> eq (take 3 b) RtlpDosAUXDevice \<or> eq (take 3 b) RtlpDosNULDevice \<or>
        eq (take 3 b) RtlpDosCONDevice then device_pack (2 * r) (2 * off)
      else 0)"

definition RtlIsDosDeviceName_Ustr :: "(u16 list \<Rightarrow> u16 list \<Rightarrow> bool) \<Rightarrow> u16 list \<Rightarrow> u32" where
  "RtlIsDosDeviceName_Ustr eq s =
     (let t = RtlDetermineDosPathNameType_Ustr s in
      if t = RtlPathTypeLocalDevice \<and> eq s RtlpDosSlashCONDevice then 0x00080006
      else if t = RtlPathTypeLocalDevice \<or> t = RtlPathTypeUncAbsolute \<or> t = RtlPathTypeUnknown then 0
      else
        let OriginalLength = length s;
            colon = (OriginalLength \<noteq> 0 \<and> s ! (OriginalLength - 1) = COLON);
            n0 = (if colon then OriginalLength - 1 else OriginalLength)
        in if n0 = 0 then 0
           else case device_strip s n0 (of_bool colon) of (n, ColonBias) \<Rightarrow>
             if n = 0 then device_match eq s 0 0
             else case device_sep s n of
                 None \<Rightarrow> if device_letter (s ! 0) then device_match eq s n 0 else 0
               | Some p \<Rightarrow>
                   if OriginalLength \<le> p then 0
                   else if \<not> device_letter (s ! p) then 0
                   else device_match eq (drop p s) (OriginalLength - p - ColonBias) p)"

subsection \<open>The reference\<close>

definition rstrip :: "('a \<Rightarrow> bool) \<Rightarrow> 'a list \<Rightarrow> 'a list" where
  "rstrip P xs = rev (dropWhile P (rev xs))"

text \<open>A device: \<open>PRN\<close>, \<open>AUX\<close>, \<open>NUL\<close>, \<open>CON\<close>, or \<open>LPT\<close> or \<open>COM\<close> with a digit other than 0.\<close>

definition plain_devices :: "u16 list set" where
  "plain_devices = {RtlpDosPRNDevice, RtlpDosAUXDevice, RtlpDosNULDevice, RtlpDosCONDevice}"

definition port_devices :: "u16 list set" where
  "port_devices = {RtlpDosLPTDevice, RtlpDosCOMDevice}"

definition is_device :: "(u16 list \<Rightarrow> u16 list \<Rightarrow> bool) \<Rightarrow> u16 list \<Rightarrow> bool" where
  "is_device eq x \<longleftrightarrow>
     length x = 3 \<and> (\<exists>d\<in>plain_devices. eq x d) \<or>
     length x = 4 \<and> iswdigit (x ! 3) \<and> x ! 3 \<noteq> 48 \<and> (\<exists>d\<in>port_devices. eq (take 3 x) d)"

text \<open>The name without a final colon and without trailing dots and blanks, the start of its last component,
  and that component up to its extension.\<close>

definition device_trimmed :: "u16 list \<Rightarrow> u16 list" where
  "device_trimmed s = rstrip (\<lambda>c. c = DOT \<or> c = SPACE) (if s \<noteq> [] \<and> last s = COLON then butlast s else s)"

definition component_start :: "u16 list \<Rightarrow> nat" where
  "component_start u = Max ({0} \<union> {Suc k | k. k < length u \<and> (IS_PATH_SEPARATOR_U (u ! k) \<or> u ! k = COLON \<and> k = 1)})"

definition device_base :: "u16 list \<Rightarrow> u16 list" where
  "device_base u = rstrip (\<lambda>c. c = SPACE) (takeWhile (\<lambda>c. c \<noteq> DOT \<and> c \<noteq> COLON) (drop (component_start u) u))"

definition dos_device_name :: "(u16 list \<Rightarrow> u16 list \<Rightarrow> bool) \<Rightarrow> u16 list \<Rightarrow> u32" where
  "dos_device_name eq s =
     (let u = device_trimmed s in
      if is_device eq (device_base u) then device_pack (2 * length (device_base u)) (2 * component_start u) else 0)"

lemma rstrip_snoc [simp]: "rstrip P (xs @ [x]) = (if P x then rstrip P xs else xs @ [x])"
  by (simp add: rstrip_def)

lemma rstrip_Nil [simp]: "rstrip P [] = []"
  by (simp add: rstrip_def)

lemma rstrip_prefix: "\<exists>ys. xs = rstrip P xs @ ys \<and> (\<forall>y\<in>set ys. P y)"
proof (induction xs rule: rev_induct)
  case (snoc x xs)
  then obtain ys where ys: "xs = rstrip P xs @ ys" "\<forall>y\<in>set ys. P y" by blast
  show ?case
  proof (cases "P x")
    case True
    then have "xs @ [x] = rstrip P (xs @ [x]) @ (ys @ [x])" using ys(1) by simp
    moreover have "\<forall>y\<in>set (ys @ [x]). P y" using ys(2) True by simp
    ultimately show ?thesis by blast
  qed simp
qed simp

lemma take_rstrip: "take (length (rstrip P xs)) xs = rstrip P xs"
  using rstrip_prefix [of xs P] by (metis append_eq_conv_conj)

lemma length_rstrip: "length (rstrip P xs) \<le> length xs"
  using rstrip_prefix [of xs P] by (metis le_add1 length_append)

lemma device_strip_eq:
  "n \<le> length s \<Longrightarrow> device_strip s n bias =
     (let u = rstrip (\<lambda>c. c = DOT \<or> c = SPACE) (take n s) in (length u, bias + (n - length u)))"
proof (induction n arbitrary: bias)
  case (Suc n)
  then have "length (rstrip (\<lambda>c. c = DOT \<or> c = SPACE) (take n s)) \<le> n" using length_rstrip [of _ "take n s"] by simp
  then show ?case using Suc by (auto simp: take_Suc_conv_app_nth Let_def)
qed (simp add: Let_def)

lemma device_unspace_eq: "n \<le> length s \<Longrightarrow> device_unspace s n = length (rstrip (\<lambda>c. c = SPACE) (take n s))"
  by (induction n) (auto simp: take_Suc_conv_app_nth)

lemma component_start_snoc:
  "component_start (u @ [c]) =
     (if IS_PATH_SEPARATOR_U c \<or> c = COLON \<and> length u = 1 then Suc (length u) else component_start u)"
proof -
  define stop where "stop v k \<longleftrightarrow> IS_PATH_SEPARATOR_U (v ! k) \<or> v ! k = COLON \<and> k = 1" for v k
  define K where "K v = {Suc k | k. k < length v \<and> stop v k}" for v
  have fin: "finite (K v)" for v
    by (rule finite_subset [of _ "{.. length v}"]) (auto simp: K_def)
  have le: "k \<in> K u \<Longrightarrow> k \<le> length u" for k by (auto simp: K_def)
  have st: "stop (u @ [c]) k = stop u k" if "k < length u" for k using that by (simp add: stop_def nth_append)
  have sl: "stop (u @ [c]) (length u) \<longleftrightarrow> IS_PATH_SEPARATOR_U c \<or> c = COLON \<and> length u = 1" by (simp add: stop_def)
  have K: "K (u @ [c]) = K u \<union> (if stop (u @ [c]) (length u) then {Suc (length u)} else {})"
    unfolding K_def using st by (auto simp: less_Suc_eq)
  moreover have "Max ({0} \<union> (K u \<union> {Suc (length u)})) = Suc (length u)"
    by (rule Max_eqI) (use fin le in \<open>auto simp: le_SucI\<close>)
  ultimately show ?thesis
    unfolding component_start_def stop_def [symmetric] K_def [symmetric] sl [symmetric] by (simp add: insert_commute)
qed

lemma component_start_le: "component_start u \<le> length u"
proof (induction u rule: rev_induct)
  case (snoc x xs)
  then show ?case by (simp add: component_start_snoc)
qed (simp add: component_start_def)

lemma device_sep_eq:
  "n \<le> length s \<Longrightarrow> device_sep s n =
     (if component_start (take n s) = 0 then None else Some (component_start (take n s)))"
proof (induction n)
  case (Suc n)
  then have "take (Suc n) s = take n s @ [s ! n]" "length (take n s) = n" by (simp_all add: take_Suc_conv_app_nth)
  then show ?case using Suc by (cases "n = 1") (simp_all add: component_start_snoc IS_PATH_SEPARATOR_U_def)
qed (simp add: component_start_def)

lemma device_match_eq:
  assumes "n \<le> length b"
  shows "device_match eq b n off =
    (let x = rstrip (\<lambda>c. c = SPACE) (takeWhile (\<lambda>c. c \<noteq> DOT \<and> c \<noteq> COLON) (take n b)) in
     if is_device eq x then device_pack (2 * length x) (2 * off) else 0)"
proof -
  define w where "w = takeWhile (\<lambda>c. c \<noteq> DOT \<and> c \<noteq> COLON) (take n b)"
  define x where "x = rstrip (\<lambda>c. c = SPACE) w"
  have le: "length w \<le> n" using length_takeWhile_le [of _ "take n b"] assms by (simp add: w_def)
  have "take (length w) (take n b) = w" unfolding w_def by (rule takeWhile_eq_take [symmetric])
  then have w: "take (length w) b = w" "length w \<le> length b" using le assms by (simp_all add: min_absorb1)
  have r: "device_unspace b (length w) = length x" using device_unspace_eq [OF w(2)] w(1) by (simp add: x_def)
  have "take (length x) (take (length w) b) = x" unfolding w(1) x_def by (rule take_rstrip)
  then have x: "take (length x) b = x" using length_rstrip [of _ w] by (simp add: x_def min_absorb1)
  have "take 3 (take (length x) b) = take 3 b" if "3 \<le> length x" using that by (simp add: min_absorb1)
  then have x3: "take 3 b = take 3 x" if "3 \<le> length x" using that x by simp
  have x4: "b ! 3 = x ! 3" if "length x = 4" using x that nth_take [of 3 4 b] by simp
  show ?thesis unfolding device_match_def Let_def w_def [symmetric] r x_def [symmetric] is_device_def
  proof (cases "length x = 3 \<or> length x = 4")
    case True
    then show "(if length x = 4 \<and> iswdigit (b ! 3) then
        if b ! 3 = 48 then 0
        else if eq (take 3 b) RtlpDosLPTDevice \<or> eq (take 3 b) RtlpDosCOMDevice then device_pack (2 * length x) (2 * off) else 0
      else if length x \<noteq> 3 then 0
      else if eq (take 3 b) RtlpDosPRNDevice \<or> eq (take 3 b) RtlpDosAUXDevice \<or> eq (take 3 b) RtlpDosNULDevice \<or>
        eq (take 3 b) RtlpDosCONDevice then device_pack (2 * length x) (2 * off) else 0) =
      (if length x = 3 \<and> (\<exists>d\<in>plain_devices. eq x d) \<or>
        length x = 4 \<and> iswdigit (x ! 3) \<and> x ! 3 \<noteq> 48 \<and> (\<exists>d\<in>port_devices. eq (take 3 x) d)
       then device_pack (2 * length x) (2 * off) else 0)"
      using x3 x4 by (elim disjE) (simp_all add: plain_devices_def port_devices_def)
  qed simp
qed

lemma is_device_cases:
  "is_device eq x \<Longrightarrow> (\<exists>d\<in>plain_devices. eq x d) \<or> (\<exists>d\<in>port_devices. eq (take 3 x) d)"
  unfolding is_device_def by blast

lemma is_device_letter:
  assumes "\<And>x d. d \<in> plain_devices \<union> port_devices \<Longrightarrow> eq x d \<Longrightarrow> x \<noteq> [] \<and> device_letter (x ! 0)"
    and "is_device eq x"
  shows "x \<noteq> [] \<and> device_letter (x ! 0)"
  using is_device_cases [OF assms(2)]
proof (elim disjE bexE)
  fix d
  assume "d \<in> plain_devices" and "eq x d"
  then show ?thesis using assms(1) [of d x] by simp
next
  fix d
  assume "d \<in> port_devices" and "eq (take 3 x) d"
  then have "take 3 x \<noteq> [] \<and> device_letter (take 3 x ! 0)" using assms(1) [of d "take 3 x"] by simp
  moreover have "take 3 x ! 0 = x ! 0" by (simp add: nth_take)
  ultimately show ?thesis by simp
qed

lemma device_base_first:
  assumes "device_base u \<noteq> []"
  shows "component_start u < length u \<and> device_base u ! 0 = u ! component_start u"
proof -
  let ?w = "takeWhile (\<lambda>c. c \<noteq> DOT \<and> c \<noteq> COLON) (drop (component_start u) u)"
  from rstrip_prefix [of ?w "\<lambda>c. c = SPACE"] obtain ys where "?w = rstrip (\<lambda>c. c = SPACE) ?w @ ys" by (elim exE conjE)
  then have w: "?w = device_base u @ ys" unfolding device_base_def [symmetric] .
  have "drop (component_start u) u = ?w @ dropWhile (\<lambda>c. c \<noteq> DOT \<and> c \<noteq> COLON) (drop (component_start u) u)" by simp
  then obtain zs where d: "drop (component_start u) u = device_base u @ zs" unfolding w append_assoc by (rule that)
  then have lt: "component_start u < length u" using assms by (cases "component_start u < length u") simp_all
  have "u ! component_start u = drop (component_start u) u ! 0" using lt by simp
  then show ?thesis using assms lt d by (simp add: nth_append)
qed

text \<open>On a name that is neither a UNC path nor a device path the index loops of the recognition compute its
  declarative reading: the last component of the name, without a final colon, trailing dots and blanks,
  and up to its extension, is the name of a device.\<close>

theorem dos_device_name_reference:
  assumes letters: "\<And>x d. d \<in> plain_devices \<union> port_devices \<Longrightarrow> eq x d \<Longrightarrow> x \<noteq> [] \<and> device_letter (x ! 0)"
    and "RtlDetermineDosPathNameType_Ustr s \<notin> {RtlPathTypeLocalDevice, RtlPathTypeUncAbsolute, RtlPathTypeUnknown}"
  shows "RtlIsDosDeviceName_Ustr eq s = dos_device_name eq s"
proof -
  define colon where "colon \<longleftrightarrow> length s \<noteq> 0 \<and> s ! (length s - 1) = COLON"
  define n0 where "n0 = (if colon then length s - 1 else length s)"
  define u where "u = device_trimmed s"
  define n where "n = length u"
  define c where "c = component_start u"
  have n0: "n0 \<le> length s" "length s = n0 + of_bool colon" by (auto simp: n0_def colon_def)
  have "(if s \<noteq> [] \<and> last s = COLON then butlast s else s) = take n0 s"
    by (auto simp: n0_def colon_def last_conv_nth butlast_conv_take)
  then have u: "u = rstrip (\<lambda>c. c = DOT \<or> c = SPACE) (take n0 s)" by (simp add: u_def device_trimmed_def)
  have n: "n \<le> n0" using length_rstrip [of _ "take n0 s"] n0 by (simp add: n_def u)
  have "take n (take n0 s) = u" unfolding n_def u by (rule take_rstrip)
  then have us: "u = take n s" using n by (simp add: min_absorb1)
  have strip: "device_strip s n0 (of_bool colon) = (n, of_bool colon + (n0 - n))"
    using device_strip_eq [OF n0(1)] by (simp add: u n_def Let_def)
  have c: "c \<le> n" using component_start_le by (simp add: c_def n_def)
  have "drop c u = take (n - c) (drop c s)" unfolding us by (rule drop_take)
  then have base: "rstrip (\<lambda>c. c = SPACE) (takeWhile (\<lambda>c. c \<noteq> DOT \<and> c \<noteq> COLON) (take (n - c) (drop c s))) = device_base u"
    by (simp add: device_base_def c_def [symmetric])
  have "n - c \<le> length (drop c s)" using n n0 by simp
  from device_match_eq [OF this, of eq c] have match: "device_match eq (drop c s) (n - c) c = dos_device_name eq s"
    unfolding base Let_def dos_device_name_def u_def [symmetric] c_def [symmetric] .
  have none: "dos_device_name eq s = 0" if "\<not> is_device eq (device_base u)"
    using that by (simp add: dos_device_name_def u_def [symmetric])
  have first: "c < n \<and> device_letter (s ! c)" if "is_device eq (device_base u)"
  proof -
    have x: "device_base u \<noteq> [] \<and> device_letter (device_base u ! 0)"
      by (rule is_device_letter [OF letters that])
    then have "c < n \<and> device_base u ! 0 = u ! c" using device_base_first [of u] unfolding c_def n_def by blast
    moreover have "u ! c = s ! c" if "c < n" using that unfolding us by (rule nth_take)
    ultimately show ?thesis using x by simp
  qed
  have bias: "length s - c - (of_bool colon + (n0 - n)) = n - c" using n0 n by simp
  have sep: "device_sep s n = (if c = 0 then None else Some c)" using device_sep_eq [of n s] n n0 by (simp add: c_def us)
  have t: "\<not> (RtlDetermineDosPathNameType_Ustr s = RtlPathTypeLocalDevice \<and> eq s RtlpDosSlashCONDevice)"
    "\<not> (RtlDetermineDosPathNameType_Ustr s = RtlPathTypeLocalDevice \<or> RtlDetermineDosPathNameType_Ustr s = RtlPathTypeUncAbsolute \<or>
      RtlDetermineDosPathNameType_Ustr s = RtlPathTypeUnknown)"
    using assms(2) by simp_all
  have run: "RtlIsDosDeviceName_Ustr eq s = (if n0 = 0 then 0
      else case (n, of_bool colon + (n0 - n)) of (n, ColonBias) \<Rightarrow>
        if n = 0 then device_match eq s 0 0
        else case device_sep s n of
            None \<Rightarrow> if device_letter (s ! 0) then device_match eq s n 0 else 0
          | Some p \<Rightarrow> if length s \<le> p then 0 else if \<not> device_letter (s ! p) then 0
              else device_match eq (drop p s) (length s - p - ColonBias) p)"
    unfolding RtlIsDosDeviceName_Ustr_def Let_def if_not_P [OF t(1)] if_not_P [OF t(2)] colon_def [symmetric]
      n0_def [symmetric] strip ..
  show ?thesis
  proof (cases "n = 0")
    case True
    then have "dos_device_name eq s = 0" using none first by blast
    moreover have "device_match eq s 0 0 = 0" by (simp add: device_match_def)
    ultimately show ?thesis using True by (simp add: run)
  next
    case False
    have "dos_device_name eq s = 0" if "length s \<le> c \<or> \<not> device_letter (s ! c)"
      using that none first n n0 by fastforce
    then show ?thesis using match n n0 False by (cases "c = 0") (auto simp: run sep bias)
  qed
qed

lemma device_pack_parts:
  assumes "L < 2 ^ 16" and "off < 2 ^ 16"
  shows "unat (device_pack L off AND 0xFFFF) = L" "unat (drop_bit 16 (device_pack L off)) = off"
proof -
  have l: "(of_nat L :: u32) = take_bit 16 (of_nat L)" using assms(1)
    by (metis of_nat_take_bit take_bit_nat_eq_self)
  have "device_pack L off AND 0xFFFF = take_bit 16 (device_pack L off)"
    by (simp add: take_bit_eq_mask mask_eq_exp_minus_1)
  also have "\<dots> = take_bit 16 (of_nat L)" unfolding device_pack_def
    by (rule bit_word_eqI) (auto simp: bit_simps)
  finally show "unat (device_pack L off AND 0xFFFF) = L" using l assms(1)
    by (simp add: unsigned_of_nat take_bit_nat_eq_self)
  have "drop_bit 16 (device_pack L off) = drop_bit 16 (of_nat L) OR (take_bit 16 (of_nat off) :: u32)"
    unfolding device_pack_def by (rule bit_word_eqI) (auto simp: bit_simps)
  also have "drop_bit 16 (of_nat L :: u32) = 0" by (subst l, rule bit_word_eqI) (simp add: bit_simps)
  also have "(take_bit 16 (of_nat off) :: u32) = of_nat off" using assms(2)
    by (metis of_nat_take_bit take_bit_nat_eq_self)
  finally show "unat (drop_bit 16 (device_pack L off)) = off" using assms(2)
    by (simp add: unsigned_of_nat take_bit_nat_eq_self)
qed

section \<open>Concrete instances\<close>

theorem path_type_agree_witness:
  "RtlDetermineDosPathNameType_U ([67, 58, 92] @ 0 # [7]) = RtlPathTypeDriveAbsolute"
  using path_type_agree [of "[67, 58, 92]" "[7]"] by (simp add: RtlDetermineDosPathNameType_Ustr_def IS_PATH_SEPARATOR_U_def)

definition letter_eq :: "u16 list \<Rightarrow> u16 list \<Rightarrow> bool" where
  "letter_eq x d \<longleftrightarrow> x = d \<or> x = map (\<lambda>c. c + 32) d"

lemma letter_eq_letters: "d \<in> plain_devices \<union> port_devices \<Longrightarrow> letter_eq x d \<Longrightarrow> x \<noteq> [] \<and> device_letter (x ! 0)"
  unfolding plain_devices_def port_devices_def letter_eq_def by (auto simp: device_letter_def)

text \<open>The name \<open>a\nul.t\<close>.\<close>

lemma demo_device: "RtlIsDosDeviceName_Ustr letter_eq [97, 92, 110, 117, 108, 46, 116] = device_pack 6 4"
  by code_simp

theorem dos_device_name_reference_witness:
  "dos_device_name letter_eq [97, 92, 110, 117, 108, 46, 116] = device_pack 6 4"
proof -
  have t: "RtlDetermineDosPathNameType_Ustr [97, 92, 110, 117, 108, 46, 116] \<notin>
      {RtlPathTypeLocalDevice, RtlPathTypeUncAbsolute, RtlPathTypeUnknown}"
    by (simp add: RtlDetermineDosPathNameType_Ustr_def IS_PATH_SEPARATOR_U_def)
  have "RtlIsDosDeviceName_Ustr letter_eq [97, 92, 110, 117, 108, 46, 116] =
      dos_device_name letter_eq [97, 92, 110, 117, 108, 46, 116]"
    by (rule dos_device_name_reference) (erule (1) letter_eq_letters, rule t)
  then show ?thesis by (simp only: demo_device)
qed

end
