(* ===== verification/FullPath.thy ===== *)
theory FullPath
  imports PathNames
begin

text \<open>
  Full path names (src/ntdll/curdir.c, \<open>RtlGetFullPathName_Ustr\<close>): the prefix a name gets from the current
  directory, and the loop that writes the name behind it, dropping \<open>.\<close> and taking back a component for
  \<open>..\<close>. The buffer of the caller is a memory of characters, indexed from its start; it is not bounded,
  so that writing outside it can be stated. An index that would become negative is \<open>None\<close>.
\<close>

type_synonym cells = "nat \<Rightarrow> u16"

section \<open>The loop over the name\<close>

text \<open>\<open>src\<close> is the name in memory, with what follows it.\<close>

definition IS_DOT_USTR :: "cells \<Rightarrow> nat \<Rightarrow> nat \<Rightarrow> bool" where
  "IS_DOT_USTR src k len \<longleftrightarrow> 1 \<le> len \<and> src k = DOT \<and> (len - 1 = 0 \<or> IS_PATH_SEPARATOR_U (src (k + 1)))"

definition IS_DOT_DOT_USTR :: "cells \<Rightarrow> nat \<Rightarrow> nat \<Rightarrow> bool" where
  "IS_DOT_DOT_USTR src k len \<longleftrightarrow> 1 \<le> len \<and> src k = DOT \<and> IS_DOT_USTR src (k + 1) (len - 1)"

text \<open>Going back to the previous backslash, and over one component but not behind the root, which ends at
  \<open>BackupIndex\<close>.\<close>

fun back_to_slash :: "cells \<Rightarrow> nat \<Rightarrow> (cells \<times> nat) option" where
  "back_to_slash m 0 = (if m 0 = BACKSLASH then Some (m, 0) else None)"
| "back_to_slash m (Suc d) = (if m (Suc d) = BACKSLASH then Some (m, Suc d) else back_to_slash (m(Suc d := 0)) d)"

fun up_component :: "nat \<Rightarrow> cells \<Rightarrow> nat \<Rightarrow> (cells \<times> nat) option" where
  "up_component BackupIndex m 0 = (if 1 = BackupIndex then Some (m, 0) else None)"
| "up_component BackupIndex m (Suc d) =
     (if Suc d + 1 = BackupIndex then Some (m, Suc d)
      else let m' = m(Suc d := 0) in if m' d = BACKSLASH then Some (m', d) else up_component BackupIndex m' d)"

definition path_up :: "nat \<Rightarrow> cells \<Rightarrow> nat \<Rightarrow> (cells \<times> nat) option" where
  "path_up BackupIndex m Dest =
     (case back_to_slash m Dest of
        None \<Rightarrow> None
      | Some (m1, d1) \<Rightarrow>
          (case up_component BackupIndex m1 d1 of
             None \<Rightarrow> None
           | Some (m2, d2) \<Rightarrow> Some (m2, if d2 + 1 = BackupIndex then d2 + 1 else d2)))"

fun component_length :: "cells \<Rightarrow> nat \<Rightarrow> nat \<Rightarrow> nat" where
  "component_length src k 0 = 0"
| "component_length src k (Suc j) = (if IS_PATH_SEPARATOR_U (src k) then 0 else Suc (component_length src (k + 1) j))"

definition copy_cells :: "cells \<Rightarrow> nat \<Rightarrow> nat \<Rightarrow> nat \<Rightarrow> cells \<Rightarrow> cells" where
  "copy_cells src k d n m = (\<lambda>x. if d \<le> x \<and> x < d + n then src (k + (x - d)) else m x)"

lemma component_length_pos: "0 < j \<Longrightarrow> \<not> IS_PATH_SEPARATOR_U (src k) \<Longrightarrow> 0 < component_length src k j"
  by (cases j) auto

text \<open>\<open>i\<close> counts the characters of the name that are done, \<open>Source\<close> is the index of the one that is
  looked at.\<close>

function path_loop :: "nat \<Rightarrow> nat \<Rightarrow> cells \<Rightarrow> nat \<Rightarrow> nat \<Rightarrow> cells \<Rightarrow> nat \<Rightarrow> (cells \<times> nat) option" where
  "path_loop BackupIndex len src i Source m Dest =
     (if len \<le> i then Some (m, Dest)
      else if IS_PATH_SEPARATOR_U (src Source) then
        (if Dest = 0 then None
         else if m (Dest - 1) \<noteq> BACKSLASH
         then path_loop BackupIndex len src (i + 1) (Source + 1) (m(Dest := BACKSLASH)) (Dest + 1)
         else path_loop BackupIndex len src (i + 1) (Source + 1) m Dest)
      else if src Source = DOT then
        (if IS_DOT_USTR src Source (len - i) then
           (if i + 1 < len \<and> IS_PATH_SEPARATOR_U (src (Source + 1))
            then path_loop BackupIndex len src (i + 2) (Source + 2) m Dest
            else path_loop BackupIndex len src (i + 1) (Source + 1) m Dest)
         else if IS_DOT_DOT_USTR src Source (len - i) then
           (case path_up BackupIndex m Dest of
              None \<Rightarrow> None
            | Some (m', Dest') \<Rightarrow> path_loop BackupIndex len src (i + 2) (Source + 2) m' Dest')
         else path_loop BackupIndex len src (i + 1) Source m Dest)
      else
        (let n = component_length src Source (len - i);
             m' = copy_cells src Source Dest n m;
             Dest' = Dest + n
         in path_loop BackupIndex len src (i + n) (Source + n) m'
              (if IS_PATH_SEPARATOR_U (src (Source + n)) \<and> m' (Dest' - 1) = DOT then Dest' - 1 else Dest')))"
  by pat_completeness auto
termination
proof (relation "measure (\<lambda>(B, len, src, i, k, m, d). len - i)", goal_cases)
  case (8 B len src i k m d n m' d')
  then have "0 < n" using component_length_pos [of "len - i" src k] by simp
  then show ?case using 8 by simp
qed auto

declare path_loop.simps [simp del]

section \<open>The end of the path\<close>

fun path_trim :: "cells \<Rightarrow> nat \<Rightarrow> cells \<times> nat" where
  "path_trim m 0 = (m, 0)"
| "path_trim m (Suc d) = (if m d = SPACE \<or> m d = DOT then path_trim (m(d := 0)) d else (m, Suc d))"

definition path_finish :: "bool \<Rightarrow> nat \<Rightarrow> cells \<Rightarrow> nat \<Rightarrow> cells \<times> nat" where
  "path_finish StripTrailingSlash BackupIndex m Dest =
     (let m1 = m(Dest := 0) in
      if StripTrailingSlash \<and> BackupIndex < Dest \<and> m1 (Dest - 1) = BACKSLASH
      then path_trim (m1(Dest - 1 := 0)) (Dest - 1)
      else path_trim m1 Dest)"

text \<open>The last component: the index behind the last backslash other than the first character.\<close>

fun last_slash :: "cells \<Rightarrow> nat \<Rightarrow> nat option" where
  "last_slash m 0 = None"
| "last_slash m (Suc s) = (if m (Suc s) = BACKSLASH then Some (Suc s + 1) else last_slash m s)"

definition file_part :: "rtl_path_type \<Rightarrow> nat \<Rightarrow> cells \<Rightarrow> nat \<Rightarrow> nat option" where
  "file_part PathType BackupIndex m Dest =
     (case last_slash m (Dest - 1) of
        None \<Rightarrow> None
      | Some p \<Rightarrow>
          if m p = 0 \<or> PathType = RtlPathTypeUncAbsolute \<and> p < BackupIndex then None else Some p)"

section \<open>The prefix\<close>

text \<open>The number of characters up to the second separator.\<close>

fun unc_scan :: "u16 list \<Rightarrow> nat \<Rightarrow> nat" where
  "unc_scan [] NumberOfPathSeparators = 0"
| "unc_scan (c # cs) NumberOfPathSeparators =
     (if IS_PATH_SEPARATOR_U c then
        (if NumberOfPathSeparators + 1 = 2 then 0 else Suc (unc_scan cs (NumberOfPathSeparators + 1)))
      else Suc (unc_scan cs NumberOfPathSeparators))"

definition RtlpComputeBackupIndex :: "u16 list \<Rightarrow> nat" where
  "RtlpComputeBackupIndex CurDir =
     (if RtlDetermineDosPathNameType_U (CurDir @ [0]) = RtlPathTypeUncAbsolute
      then 2 + unc_scan (takeWhile (\<lambda>c. c \<noteq> 0) (drop 2 CurDir)) 0
      else 3)"

text \<open>What the routine uses: the comparison and upcasing of the kernel, the current directory and what
  \<open>RtlpValidateCurrentDirectory\<close> leaves of it, the value of the variable of a drive after
  \<open>RtlpCheckRelativeDrive\<close>, and \<open>RtlpCheckDeviceName\<close>.\<close>

record path_env =
  pe_Equal :: "u16 list \<Rightarrow> u16 list \<Rightarrow> bool"
  pe_Upcase :: "u16 \<Rightarrow> u16"
  pe_CurDir :: "u16 list"
  pe_Validated :: "u16 list"
  pe_DriveVariable :: "u8 \<Rightarrow> u16 list option"
  pe_CheckDevice :: "u16 list \<Rightarrow> nat \<Rightarrow> ntstatus \<times> bool"

definition drive_of :: "path_env \<Rightarrow> u16 list \<Rightarrow> u8" where
  "drive_of env s = ucast (pe_Upcase env (s ! 0))"

record path_prefix =
  px_Prefix :: "u16 list"
  px_InPlace :: bool
  px_SourceLength :: nat
  px_BackupIndex :: nat
  px_Source :: nat
  px_PathNameLength :: nat

text \<open>\<open>n\<close> is the length of the buffer in bytes. The value of a drive variable is read into the buffer of the
  caller itself. The left case is an early return.\<close>

definition write_cells :: "nat \<Rightarrow> u16 list \<Rightarrow> cells \<Rightarrow> cells" where
  "write_cells d cs m = (\<lambda>x. if d \<le> x \<and> x < d + length cs then cs ! (x - d) else m x)"

definition drive_prefix :: "path_env \<Rightarrow> u16 list \<Rightarrow> nat \<Rightarrow> cells \<Rightarrow> nat + path_prefix \<times> cells" where
  "drive_prefix env s n m =
     (let px = \<lparr>px_Prefix = [], px_InPlace = False, px_SourceLength = 0, px_BackupIndex = 3, px_Source = 2,
        px_PathNameLength = 2 * length s - 4\<rparr>
      in if drive_of env (pe_CurDir env) = drive_of env s then Inr (px\<lparr>px_Prefix := pe_Validated env\<rparr>, m)
         else case pe_DriveVariable env (drive_of env s) of
             None \<Rightarrow> Inr (px\<lparr>px_Prefix := [ucast (drive_of env s), COLON, BACKSLASH]\<rparr>, m)
           | Some v \<Rightarrow>
               if n < 2 * length v then
                 (let L = 2 * length v + 2 * length s + 2 in Inl (if 65535 < L then 0 else L))
               else
                 (let m1 = write_cells 0 v m; m2 = (if 2 * length v < n then m1(length v := 0) else m1)
                  in if 3 < length v
                     then Inr (px\<lparr>px_Prefix := v @ [BACKSLASH], px_InPlace := True\<rparr>, m2(length v := BACKSLASH))
                     else Inr (px\<lparr>px_Prefix := v, px_InPlace := True\<rparr>, m2)))"

definition path_prefix_of :: "path_env \<Rightarrow> u16 list \<Rightarrow> nat \<Rightarrow> cells \<Rightarrow> nat + path_prefix \<times> cells" where
  "path_prefix_of env s n m =
     (let px = (\<lambda>Prefix psl B src len. \<lparr>px_Prefix = Prefix, px_InPlace = False, px_SourceLength = psl, px_BackupIndex = B,
        px_Source = src, px_PathNameLength = len\<rparr>)
      in case RtlDetermineDosPathNameType_Ustr s of
          RtlPathTypeUncAbsolute \<Rightarrow>
            (let B = 2 + unc_scan (drop 2 s) 0 in Inr (px [] B B B (2 * length s), m))
        | RtlPathTypeLocalDevice \<Rightarrow> Inr (px [] 4 4 4 (2 * length s), m)
        | RtlPathTypeRootLocalDevice \<Rightarrow> Inr (px (take 2 RtlpSlashSlashDot) 3 3 3 (2 * length s - 6), m)
        | RtlPathTypeDriveAbsolute \<Rightarrow> Inr (px [] 0 3 0 (2 * length s), m)
        | RtlPathTypeDriveRelative \<Rightarrow> drive_prefix env s n m
        | RtlPathTypeRooted \<Rightarrow>
            (let B = RtlpComputeBackupIndex (pe_CurDir env)
             in Inr (px (take (if B = 3 then 2 else B) (pe_CurDir env)) 0 B 0 (2 * length s), m))
        | RtlPathTypeRelative \<Rightarrow>
            Inr (px (pe_Validated env) 0 (RtlpComputeBackupIndex (pe_Validated env)) 0 (2 * length s), m)
        | RtlPathTypeUnknown \<Rightarrow> Inl 0)"

section \<open>The routine\<close>

definition norm_separator :: "u16 \<Rightarrow> u16" where
  "norm_separator c = (if c = BACKSLASH \<or> c = SLASH then BACKSLASH else c)"

text \<open>The result: the length that is returned, the buffer, what is stored for the file part if anything is,
  and whether the name was found invalid. \<open>after\<close> is the character behind the counted name.\<close>

record full_path_result =
  fr_Length :: nat
  fr_Buffer :: cells
  fr_FilePart :: "nat option option"
  fr_NameInvalid :: bool
  fr_Type :: rtl_path_type

definition path_source :: "u16 list \<Rightarrow> u16 \<Rightarrow> cells" where
  "path_source s after = (\<lambda>k. if k < length s then s ! k else after)"

text \<open>From the label \<open>skipit\<close> on.\<close>

definition full_path_tail :: "u16 list \<Rightarrow> u16 \<Rightarrow> bool \<Rightarrow> path_prefix \<Rightarrow> cells \<Rightarrow> nat \<Rightarrow> full_path_result option" where
  "full_path_tail s after part px m Dest =
     (case path_loop (px_BackupIndex px) (length s) (path_source s after) (px_Source px) (px_Source px) (m(Dest := 0)) Dest of
        None \<Rightarrow> None
      | Some (m1, d1) \<Rightarrow>
          (case path_finish (\<not> IS_PATH_SEPARATOR_U (last s)) (px_BackupIndex px) m1 d1 of
             (m2, d2) \<Rightarrow> Some \<lparr>fr_Length = 2 * d2, fr_Buffer = m2,
               fr_FilePart = (if part then Some (file_part (RtlDetermineDosPathNameType_Ustr s) (px_BackupIndex px) m2 d2)
                 else None),
               fr_NameInvalid = False, fr_Type = RtlDetermineDosPathNameType_Ustr s\<rparr>))"

definition full_path_prefixed ::
  "u16 list \<Rightarrow> u16 \<Rightarrow> nat \<Rightarrow> bool \<Rightarrow> path_prefix \<Rightarrow> cells \<Rightarrow> full_path_result option" where
  "full_path_prefixed s after n part px m =
     (let t = RtlDetermineDosPathNameType_Ustr s;
          Prefix = px_Prefix px;
          MaximumLength = px_PathNameLength px + 2 * length Prefix;
          return = (\<lambda>L. Some \<lparr>fr_Length = L, fr_Buffer = m, fr_FilePart = None, fr_NameInvalid = False, fr_Type = t\<rparr>);
          copied = (if px_SourceLength px \<noteq> 0 \<or> \<not> px_InPlace px
            then write_cells 0 (map norm_separator (take (px_SourceLength px) s) @ map norm_separator Prefix) m else m);
          Dest = (if px_SourceLength px \<noteq> 0 \<or> \<not> px_InPlace px
            then px_SourceLength px + length Prefix else length Prefix)
      in if n < MaximumLength + 2 then
           if 1 < length s \<or> s ! 0 \<noteq> DOT then return (if 65535 < MaximumLength + 2 then 0 else MaximumLength + 2)
           else if 2 * length Prefix = 6 then
             (if n \<le> 2 * length Prefix then return (2 * length Prefix + 2) else full_path_tail s after part px copied Dest)
           else if n < 2 * length Prefix then return (2 * length Prefix)
           else full_path_tail s after part px (write_cells 0 (map norm_separator Prefix) m) (length Prefix - 1)
         else full_path_tail s after part px copied Dest)"

definition RtlGetFullPathName_Ustr ::
  "path_env \<Rightarrow> u16 list \<Rightarrow> u16 \<Rightarrow> nat \<Rightarrow> bool \<Rightarrow> bool \<Rightarrow> cells \<Rightarrow> full_path_result option" where
  "RtlGetFullPathName_Ustr env s after nBufferLength part invalid m =
     (let n = (if 65535 < nBufferLength then 65534 else nBufferLength);
          unknown = \<lparr>fr_Length = 0, fr_Buffer = m, fr_FilePart = None, fr_NameInvalid = False, fr_Type = RtlPathTypeUnknown\<rparr>
      in if s = [] \<or> s ! 0 = 0 then Some unknown
         else if \<forall>c\<in>set s. c = SPACE then Some unknown
         else let dev = RtlIsDosDeviceName_Ustr (pe_Equal env) s in
           if dev \<noteq> 0 then
             let off = unat (drop_bit 16 dev); len = unat (dev AND 0xFFFF);
                 result = unknown\<lparr>fr_FilePart := if part then Some None else None\<rparr>;
                 check = (if invalid \<and> off \<noteq> 0 then pe_CheckDevice env s off else (STATUS_SUCCESS, False))
             in if \<not> NT_SUCCESS (fst check) \<or> snd check then Some (result\<lparr>fr_NameInvalid := snd check\<rparr>)
                else if len + 8 < n
                then Some (result\<lparr>fr_Length := len + 8,
                  fr_Buffer := write_cells 0 (RtlpSlashSlashDot @ take (len div 2) (drop (off div 2) s) @ [0]) m\<rparr>)
                else Some (result\<lparr>fr_Length := (if 65535 < len + 10 then 0 else len + 10)\<rparr>)
           else
             let m0 = (\<lambda>x. if x < n div 2 then 0 else m x) in
             case path_prefix_of env s n m0 of
               Inl L \<Rightarrow> Some \<lparr>fr_Length = L, fr_Buffer = m0, fr_FilePart = None, fr_NameInvalid = False,
                 fr_Type = RtlDetermineDosPathNameType_Ustr s\<rparr>
             | Inr (px, m1) \<Rightarrow> full_path_prefixed s after n part px m1)"

section \<open>The loop stays inside the root and the buffer\<close>

lemma back_to_slash_stops:
  assumes "r \<le> d" and "m r = BACKSLASH"
  shows "\<exists>m1 d1. back_to_slash m d = Some (m1, d1) \<and> r \<le> d1 \<and> d1 \<le> d \<and> m1 d1 = BACKSLASH \<and>
    (\<forall>x. x \<le> d1 \<or> d < x \<longrightarrow> m1 x = m x)"
  using assms
proof (induction d arbitrary: m)
  case (Suc d)
  show ?case
  proof (cases "m (Suc d) = BACKSLASH")
    case False
    then have "r \<le> d" "(m(Suc d := 0)) r = BACKSLASH" using Suc.prems by (auto simp: le_Suc_eq)
    from Suc.IH [of "m(Suc d := 0)", OF this] obtain m1 d1 where "back_to_slash (m(Suc d := 0)) d = Some (m1, d1)" "r \<le> d1" "d1 \<le> d"
      "m1 d1 = BACKSLASH" "\<forall>x. x \<le> d1 \<or> d < x \<longrightarrow> m1 x = (m(Suc d := 0)) x" by blast
    then show ?thesis using False by (intro exI [of _ m1] exI [of _ d1]) auto
  qed (use Suc.prems in auto)
qed simp

lemma up_component_stops:
  assumes "1 \<le> B" and "B \<le> Suc d"
  shows "\<exists>m2 d2. up_component B m d = Some (m2, d2) \<and> B \<le> Suc d2 \<and> d2 \<le> d \<and> (m2 d2 = BACKSLASH \<or> Suc d2 = B) \<and>
    (\<forall>x. x < B \<or> x \<le> d2 \<or> d < x \<longrightarrow> m2 x = m x)"
  using assms(2)
proof (induction d arbitrary: m)
  case 0
  then show ?case using assms(1) by auto
next
  case (Suc d)
  show ?case
  proof (cases "Suc d + 1 = B \<or> (m(Suc d := 0)) d = BACKSLASH")
    case True
    then show ?thesis using Suc.prems by (auto simp: Let_def)
  next
    case False
    then have "B \<le> Suc d" using Suc.prems by simp
    from Suc.IH [OF this, of "m(Suc d := 0)"] obtain m2 d2 where "up_component B (m(Suc d := 0)) d = Some (m2, d2)"
      "B \<le> Suc d2" "d2 \<le> d" "m2 d2 = BACKSLASH \<or> Suc d2 = B"
      "\<forall>x. x < B \<or> x \<le> d2 \<or> d < x \<longrightarrow> m2 x = (m(Suc d := 0)) x" by blast
    then show ?thesis using False by (intro exI [of _ m2] exI [of _ d2]) (auto simp: Let_def)
  qed
qed

lemma path_up_stops:
  assumes "1 \<le> B" and "r \<le> d" and "m r = BACKSLASH" and "B \<le> Suc r"
  shows "\<exists>m' d'. path_up B m d = Some (m', d') \<and> B \<le> d' \<and> d' \<le> Suc d \<and>
    (\<forall>x. x < B \<or> d < x \<longrightarrow> m' x = m x) \<and> (r = B \<longrightarrow> B < d' \<longrightarrow> m' B = BACKSLASH)"
proof -
  obtain m1 d1 where 1: "back_to_slash m d = Some (m1, d1)" "r \<le> d1" "d1 \<le> d" "m1 d1 = BACKSLASH"
    "\<forall>x. x \<le> d1 \<or> d < x \<longrightarrow> m1 x = m x" using back_to_slash_stops [of r d m] assms by blast
  have "B \<le> Suc d1" using 1(2) assms(4) by simp
  then obtain m2 d2 where 2: "up_component B m1 d1 = Some (m2, d2)" "B \<le> Suc d2" "d2 \<le> d1" "m2 d2 = BACKSLASH \<or> Suc d2 = B"
    "\<forall>x. x < B \<or> x \<le> d2 \<or> d1 < x \<longrightarrow> m2 x = m1 x" using up_component_stops [OF assms(1)] by blast
  have "m2 x = m x" if "x < B \<or> d < x" for x
  proof -
    have "x < B \<or> d1 < x" "x \<le> d1 \<or> d < x" using that 1(2,3) assms(4) by auto
    then show ?thesis using 1(5) [rule_format, of x] 2(5) [rule_format, of x] by metis
  qed
  moreover have "m2 B = BACKSLASH" if "r = B" "B < (if d2 + 1 = B then d2 + 1 else d2)"
  proof -
    have "B \<le> d2" using that(2) by (simp split: if_splits)
    then have "m2 B = m1 B" "m1 B = m B" using 2(3,5) 1(5) by simp_all
    then show ?thesis using that(1) assms(3) by simp
  qed
  ultimately show ?thesis using 1 2 by (auto simp: path_up_def)
qed

text \<open>What the loop keeps: the root is behind the cursor, and it ends in a backslash, or one follows it, or a
  separator is about to be written there.\<close>

definition behind_root :: "nat \<Rightarrow> nat \<Rightarrow> cells \<Rightarrow> nat \<Rightarrow> nat \<Rightarrow> cells \<Rightarrow> nat \<Rightarrow> bool" where
  "behind_root B len src i k m d \<longleftrightarrow> 1 \<le> B \<and> B \<le> d \<and>
     (m (B - 1) = BACKSLASH \<or> m B = BACKSLASH \<and> B < d \<or> d = B \<and> (len \<le> i \<or> IS_PATH_SEPARATOR_U (src k)))"

definition confined :: "nat \<Rightarrow> nat \<Rightarrow> cells \<Rightarrow> (cells \<times> nat) option \<Rightarrow> bool" where
  "confined B lim m result \<longleftrightarrow> (\<exists>m' d'. result = Some (m', d') \<and> B \<le> d' \<and> d' \<le> lim \<and>
     (\<forall>x. x < B \<or> lim \<le> x \<longrightarrow> m' x = m x))"

lemma confined_mono:
  assumes "confined B lim' m' result" and "lim' \<le> lim" and "\<forall>x. x < B \<or> lim \<le> x \<longrightarrow> m' x = m x"
  shows "confined B lim m result"
proof -
  obtain m2 d2 where r: "result = Some (m2, d2)" "B \<le> d2" "d2 \<le> lim'" "\<forall>x. x < B \<or> lim' \<le> x \<longrightarrow> m2 x = m' x"
    using assms(1) unfolding confined_def by blast
  have "m2 x = m x" if "x < B \<or> lim \<le> x" for x
  proof -
    have "x < B \<or> lim' \<le> x" using that assms(2) by auto
    then show ?thesis using r(4) [rule_format, of x] assms(3) [rule_format, of x] that by metis
  qed
  then show ?thesis using r assms(2) unfolding confined_def by auto
qed

lemma component_length_le: "component_length src k j \<le> j"
  by (induction j arbitrary: k) (auto simp: le_SucI)

lemma component_length_stop:
  "component_length src k j < j \<Longrightarrow> IS_PATH_SEPARATOR_U (src (k + component_length src k j))"
proof (induction j arbitrary: k)
  case (Suc j)
  then show ?case using Suc.IH [of "k + 1"] by (auto split: if_splits)
qed simp

lemma path_loop_component:
  assumes "\<not> len \<le> i" and "\<not> IS_PATH_SEPARATOR_U (src k)" and "src k \<noteq> DOT"
  shows "path_loop B len src i k m d =
    (let n = component_length src k (len - i); m' = copy_cells src k d n m
     in path_loop B len src (i + n) (k + n) m'
          (if IS_PATH_SEPARATOR_U (src (k + n)) \<and> m' (d + n - 1) = DOT then d + n - 1 else d + n))"
  by (subst path_loop.simps) (simp only: assms if_False Let_def)

lemma path_loop_confined:
  "behind_root B len src i k m d \<Longrightarrow> confined B (d + (len - i)) m (path_loop B len src i k m d)"
proof (induction B len src i k m d rule: path_loop.induct)
  case (1 B len src i k m d)
  note J = "1.prems" [unfolded behind_root_def]
  show ?case
  proof (cases "len \<le> i")
    case True
    then show ?thesis using J by (simp add: path_loop.simps confined_def)
  next
    case F0: False
    show ?thesis
    proof (cases "IS_PATH_SEPARATOR_U (src k)")
      case T1: True
      have d0: "d \<noteq> 0" using J by simp
      show ?thesis
      proof (cases "m (d - 1) \<noteq> BACKSLASH")
        case True
        have "behind_root B len src (i + 1) (k + 1) (m(d := BACKSLASH)) (d + 1)"
          using J unfolding behind_root_def by auto
        from "1.IH"(1) [OF F0 T1 d0 True this]
        have "confined B (d + (len - i)) m (path_loop B len src (i + 1) (k + 1) (m(d := BACKSLASH)) (d + 1))"
          by (rule confined_mono) (use F0 J in auto)
        then show ?thesis using F0 T1 d0 True by (simp add: path_loop.simps [of B len src i k m d])
      next
        case False
        have "behind_root B len src (i + 1) (k + 1) m d" using J False unfolding behind_root_def by auto
        from "1.IH"(2) [OF F0 T1 d0 False this]
        have "confined B (d + (len - i)) m (path_loop B len src (i + 1) (k + 1) m d)"
          by (rule confined_mono) (use F0 in auto)
        then show ?thesis using F0 T1 d0 False by (simp add: path_loop.simps [of B len src i k m d])
      qed
    next
      case F1: False
      have J1: "1 \<le> B" "B \<le> d" "m (B - 1) = BACKSLASH \<or> m B = BACKSLASH \<and> B < d" using J F0 F1 by auto
      then have keep: "behind_root B len src i' k' m d" for i' k' unfolding behind_root_def by auto
      show ?thesis
      proof (cases "src k = DOT")
        case T2: True
        show ?thesis
        proof (cases "IS_DOT_USTR src k (len - i)")
          case T3: True
          show ?thesis
          proof (cases "i + 1 < len \<and> IS_PATH_SEPARATOR_U (src (k + 1))")
            case True
            have "confined B (d + (len - i)) m (path_loop B len src (i + 2) (k + 2) m d)"
              by (rule confined_mono [OF "1.IH"(3) [OF F0 F1 T2 T3 True keep]]) auto
            then show ?thesis using F0 F1 T2 T3 True by (simp add: path_loop.simps [of B len src i k m d])
          next
            case False
            have "confined B (d + (len - i)) m (path_loop B len src (i + 1) (k + 1) m d)"
              by (rule confined_mono [OF "1.IH"(4) [OF F0 F1 T2 T3 False keep]]) auto
            then show ?thesis using F0 F1 T2 T3 False by (auto simp: path_loop.simps [of B len src i k m d])
          qed
        next
          case F3: False
          show ?thesis
          proof (cases "IS_DOT_DOT_USTR src k (len - i)")
            case True
            define r where "r = (if m (B - 1) = BACKSLASH then B - 1 else B)"
            have r: "r \<le> d" "m r = BACKSLASH" "B \<le> Suc r" using J1 by (auto simp: r_def)
            obtain m' d' where up: "path_up B m d = Some (m', d')" "B \<le> d'" "d' \<le> Suc d"
              "\<forall>x. x < B \<or> d < x \<longrightarrow> m' x = m x" "r = B \<longrightarrow> B < d' \<longrightarrow> m' B = BACKSLASH"
              using path_up_stops [of B r d m] J1(1) r by blast
            have two: "i + 2 \<le> len" "len \<le> i + 2 \<or> IS_PATH_SEPARATOR_U (src (k + 2))"
              using True by (auto simp: IS_DOT_DOT_USTR_def IS_DOT_USTR_def)
            have "behind_root B len src (i + 2) (k + 2) m' d'"
              using J1 up two(2) unfolding behind_root_def r_def by (auto split: if_splits)
            from "1.IH"(5) [OF F0 F1 T2 F3 True up(1) refl this]
            have "confined B (d + (len - i)) m (path_loop B len src (i + 2) (k + 2) m' d')"
              by (rule confined_mono) (use up two in auto)
            then show ?thesis using F0 F1 T2 F3 True up(1) by (simp add: path_loop.simps [of B len src i k m d])
          next
            case False
            have "confined B (d + (len - i)) m (path_loop B len src (i + 1) k m d)"
              by (rule confined_mono [OF "1.IH"(6) [OF F0 F1 T2 F3 False keep]]) auto
            then show ?thesis using F0 F1 T2 F3 False by (simp add: path_loop.simps [of B len src i k m d])
          qed
        qed
      next
        case F2: False
        define n where "n = component_length src k (len - i)"
        define m' where "m' = copy_cells src k d n m"
        define d' where "d' = (if IS_PATH_SEPARATOR_U (src (k + n)) \<and> m' (d + n - 1) = DOT then d + n - 1 else d + n)"
        have n: "0 < n" "n \<le> len - i"
          using component_length_pos [of "len - i" src k] component_length_le [of src k "len - i"] F0 F1 by (simp_all add: n_def)
        have "behind_root B len src (i + n) (k + n) m' d'"
          using J1 n unfolding behind_root_def m'_def d'_def copy_cells_def by auto
        from "1.IH"(7) [OF F0 F1 F2 n_def m'_def refl this [unfolded d'_def]]
        have "confined B (d + (len - i)) m (path_loop B len src (i + n) (k + n) m' d')"
          unfolding d'_def by (rule confined_mono) (use n J1 in \<open>auto simp: m'_def copy_cells_def\<close>)
        then show ?thesis
          unfolding path_loop_component [of len i src k, OF F0 F1 F2] n_def [symmetric] Let_def m'_def [symmetric] d'_def [symmetric] .
      qed
    qed
  qed
qed

section \<open>The routine stays inside the buffer\<close>

definition bounded_by :: "nat \<Rightarrow> cells \<Rightarrow> (cells \<times> nat) option \<Rightarrow> bool" where
  "bounded_by lim m result \<longleftrightarrow> (\<exists>m' d'. result = Some (m', d') \<and> d' \<le> lim \<and> (\<forall>x. lim \<le> x \<longrightarrow> m' x = m x))"

lemma confined_bounded: "confined B lim m result \<Longrightarrow> bounded_by lim m result"
  unfolding confined_def bounded_by_def by blast

lemma bounded_by_mono:
  assumes "bounded_by lim' m' result" and "lim' \<le> lim" and "\<forall>x. lim \<le> x \<longrightarrow> m' x = m x"
  shows "bounded_by lim m result"
proof -
  obtain m2 d2 where r: "result = Some (m2, d2)" "d2 \<le> lim'" "\<forall>x. lim' \<le> x \<longrightarrow> m2 x = m' x"
    using assms(1) unfolding bounded_by_def by blast
  have "m2 x = m x" if "lim \<le> x" for x using r(3) assms(2,3) that by (metis le_trans)
  then show ?thesis using r assms(2) unfolding bounded_by_def by auto
qed

text \<open>A name that starts with a dot but is neither \<open>.\<close> nor \<open>..\<close> is passed over: the source stays on the dot
  while the count runs to the end, and then it is taken for \<open>.\<close>.\<close>

lemma path_loop_stuck:
  assumes "src k = DOT" and "src (k + 1) \<noteq> DOT" and "\<not> IS_PATH_SEPARATOR_U (src (k + 1))" and "i < len"
  shows "path_loop B len src i k m d = Some (m, d)"
  using assms(4)
proof (induction "len - i" arbitrary: i)
  case (Suc n)
  have dd: "\<not> IS_DOT_DOT_USTR src k (len - i)" using assms(2) by (simp add: IS_DOT_DOT_USTR_def IS_DOT_USTR_def)
  have nx: "\<not> (i + 1 < len \<and> IS_PATH_SEPARATOR_U (src (k + 1)))" using assms(3) by simp
  have step: "path_loop B len src i k m d =
      (if IS_DOT_USTR src k (len - i) then path_loop B len src (i + 1) (k + 1) m d else path_loop B len src (i + 1) k m d)"
    using Suc.prems assms(1) dd nx by (auto simp: path_loop.simps [of B len src i k m d])
  show ?case
  proof (cases "i + 1 < len")
    case True
    then have "\<not> IS_DOT_USTR src k (len - i)" using assms(3) by (simp add: IS_DOT_USTR_def)
    then show ?thesis using step Suc.hyps(1) [of "i + 1"] Suc.hyps(2) True by simp
  next
    case False
    then show ?thesis using step by (simp add: path_loop.simps [of B len src "Suc i"])
  qed
qed simp

lemma path_trim_bounded: "path_trim m d = (m', d') \<Longrightarrow> d' \<le> d \<and> (\<forall>x. d \<le> x \<longrightarrow> m' x = m x)"
proof (induction d arbitrary: m)
  case (Suc d)
  show ?case
  proof (cases "m d = SPACE \<or> m d = DOT")
    case True
    then have "path_trim (m(d := 0)) d = (m', d')" using Suc.prems by simp
    then have "d' \<le> d \<and> (\<forall>x. d \<le> x \<longrightarrow> m' x = (m(d := 0)) x)" by (rule Suc.IH)
    then show ?thesis by auto
  next
    case False
    then show ?thesis using Suc.prems by auto
  qed
qed simp

lemma path_finish_bounded:
  assumes "path_finish strip B m d = (m', d')"
  shows "d' \<le> d \<and> (\<forall>x. d < x \<longrightarrow> m' x = m x)"
proof (cases "strip \<and> B < d \<and> (m(d := 0)) (d - 1) = BACKSLASH")
  case True
  then have "path_trim (m(d := 0, d - 1 := 0)) (d - 1) = (m', d')" using assms by (simp add: path_finish_def Let_def)
  from path_trim_bounded [OF this] show ?thesis by auto
next
  case False
  then have "path_trim (m(d := 0)) d = (m', d')" using assms by (auto simp: path_finish_def Let_def split: if_splits)
  from path_trim_bounded [OF this] show ?thesis by auto
qed

definition in_buffer :: "nat \<Rightarrow> cells \<Rightarrow> full_path_result option \<Rightarrow> bool" where
  "in_buffer N m result \<longleftrightarrow> (\<exists>r. result = Some r \<and> (\<forall>x. N \<le> x \<longrightarrow> fr_Buffer r x = m x))"

lemma tail_in_buffer:
  assumes "bounded_by lim (m(d := 0))
      (path_loop (px_BackupIndex px) (length s) (path_source s after) (px_Source px) (px_Source px) (m(d := 0)) d)"
    and "lim < N" and "d < N"
  shows "in_buffer N m (full_path_tail s after part px m d)"
proof -
  obtain m1 d1 where 1: "path_loop (px_BackupIndex px) (length s) (path_source s after) (px_Source px) (px_Source px) (m(d := 0)) d
      = Some (m1, d1)" "d1 \<le> lim" "\<forall>x. lim \<le> x \<longrightarrow> m1 x = (m(d := 0)) x" using assms(1) unfolding bounded_by_def by blast
  obtain m2 d2 where 2: "path_finish (\<not> IS_PATH_SEPARATOR_U (last s)) (px_BackupIndex px) m1 d1 = (m2, d2)" by fastforce
  have "m2 x = m x" if "N \<le> x" for x
    using path_finish_bounded [OF 2] 1(2,3) assms(2,3) that by auto
  then show ?thesis unfolding in_buffer_def full_path_tail_def 1(1) option.case prod.case 2 by simp
qed

lemma write_cells_simps [simp]:
  "x < length cs \<Longrightarrow> write_cells 0 cs m x = cs ! x" "length cs \<le> x \<Longrightarrow> write_cells 0 cs m x = m x"
  by (simp_all add: write_cells_def)

lemma in_buffer_cong: "in_buffer N m' result \<Longrightarrow> (\<And>x. N \<le> x \<Longrightarrow> m' x = m x) \<Longrightarrow> in_buffer N m result"
  unfolding in_buffer_def by auto

text \<open>What the prefix must provide: with its characters in the buffer the loop writes at most one cell for
  each character that is left of the name.\<close>

definition prefix_cells :: "u16 list \<Rightarrow> path_prefix \<Rightarrow> u16 list" where
  "prefix_cells s px = (if px_SourceLength px \<noteq> 0 \<or> \<not> px_InPlace px
     then map norm_separator (take (px_SourceLength px) s) @ map norm_separator (px_Prefix px) else px_Prefix px)"

definition loop_ok :: "u16 list \<Rightarrow> u16 \<Rightarrow> path_prefix \<Rightarrow> bool" where
  "loop_ok s after px \<longleftrightarrow>
     px_Source px \<le> length s \<and> px_SourceLength px \<le> length s \<and>
     px_PathNameLength px = 2 * (length s - px_Source px + px_SourceLength px) \<and>
     (\<forall>m. (\<forall>x<length (prefix_cells s px). m x = prefix_cells s px ! x) \<longrightarrow>
        bounded_by (length (prefix_cells s px) + (length s - px_Source px)) m
          (path_loop (px_BackupIndex px) (length s) (path_source s after) (px_Source px) (px_Source px) m
            (length (prefix_cells s px))))"

lemma path_loop_single_dot: "path_loop B 1 (path_source [DOT] after) 0 0 m d = Some (m, d)"
  by (simp add: path_loop.simps [of _ _ _ 0] path_loop.simps [of _ _ _ "Suc 0"] path_source_def IS_DOT_USTR_def)

lemma prefixed_in_buffer:
  assumes ok: "loop_ok s after px" and "s \<noteq> []" and ev: "even n"
    and place: "px_InPlace px \<Longrightarrow> px_SourceLength px = 0 \<and> (\<forall>x<length (px_Prefix px). m x = px_Prefix px ! x)"
    and dot: "length s = 1 \<and> s ! 0 = DOT \<Longrightarrow> px_Source px = 0 \<and> px_SourceLength px = 0 \<and> \<not> px_InPlace px \<and> px_Prefix px \<noteq> []"
  shows "in_buffer (n div 2) m (full_path_prefixed s after n part px m)"
proof -
  define P where "P = prefix_cells s px"
  define copied where "copied = (if px_SourceLength px \<noteq> 0 \<or> \<not> px_InPlace px
      then write_cells 0 (map norm_separator (take (px_SourceLength px) s) @ map norm_separator (px_Prefix px)) m else m)"
  define d where "d = (if px_SourceLength px \<noteq> 0 \<or> \<not> px_InPlace px
      then px_SourceLength px + length (px_Prefix px) else length (px_Prefix px))"
  define L where "L = px_PathNameLength px + 2 * length (px_Prefix px)"
  have psl: "px_SourceLength px \<le> length s" "px_Source px \<le> length s"
    "px_PathNameLength px = 2 * (length s - px_Source px + px_SourceLength px)" using ok unfolding loop_ok_def by blast+
  have d: "length P = d" using psl(1) by (auto simp: P_def d_def prefix_cells_def)
  have copied: "\<forall>x<d. copied x = P ! x" "\<And>x. d \<le> x \<Longrightarrow> copied x = m x"
    using place psl(1) unfolding d [symmetric] by (auto simp: copied_def P_def prefix_cells_def)
  have "\<forall>x<length P. (copied(d := 0)) x = P ! x" using copied(1) d by auto
  then have loop: "bounded_by (d + (length s - px_Source px)) (copied(d := 0))
      (path_loop (px_BackupIndex px) (length s) (path_source s after) (px_Source px) (px_Source px) (copied(d := 0)) d)"
    using ok d unfolding loop_ok_def P_def by metis
  have tail: "in_buffer (n div 2) m (full_path_tail s after part px copied d)"
    if "d + (length s - px_Source px) < n div 2"
    by (rule in_buffer_cong [OF tail_in_buffer [OF loop]]) (use that copied(2) in auto)
  have unfolded: "full_path_prefixed s after n part px m =
     (let return = (\<lambda>L. Some \<lparr>fr_Length = L, fr_Buffer = m, fr_FilePart = None, fr_NameInvalid = False,
        fr_Type = RtlDetermineDosPathNameType_Ustr s\<rparr>)
      in if n < L + 2 then
           if 1 < length s \<or> s ! 0 \<noteq> DOT then return (if 65535 < L + 2 then 0 else L + 2)
           else if 2 * length (px_Prefix px) = 6 then
             (if n \<le> 2 * length (px_Prefix px) then return (2 * length (px_Prefix px) + 2)
              else full_path_tail s after part px copied d)
           else if n < 2 * length (px_Prefix px) then return (2 * length (px_Prefix px))
           else full_path_tail s after part px (write_cells 0 (map norm_separator (px_Prefix px)) m)
             (length (px_Prefix px) - 1)
         else full_path_tail s after part px copied d)"
    unfolding full_path_prefixed_def Let_def L_def copied_def d_def ..
  have return: "in_buffer (n div 2) m (Some \<lparr>fr_Length = l, fr_Buffer = m, fr_FilePart = None, fr_NameInvalid = False,
      fr_Type = t\<rparr>)" for l t by (simp add: in_buffer_def)
  show ?thesis
  proof (cases "n < L + 2")
    case False
    have "d \<le> px_SourceLength px + length (px_Prefix px)" by (simp add: d_def)
    then have "d + (length s - px_Source px) < n div 2" using False psl(3) by (simp add: L_def)
    from tail [OF this] show ?thesis using False by (simp add: unfolded Let_def)
  next
    case T: True
    show ?thesis
    proof (cases "1 < length s \<or> s ! 0 \<noteq> DOT")
      case True
      then show ?thesis using T return by (simp add: unfolded Let_def)
    next
      case False
      then have s: "s = [DOT]" using assms(2) by (cases s) auto
      have px: "px_Source px = 0" "px_SourceLength px = 0" "\<not> px_InPlace px" "px_Prefix px \<noteq> []" using dot s by auto
      have one: "in_buffer (n div 2) m (full_path_tail s after part px m' e)"
        if "e < n div 2" "\<And>x. n div 2 \<le> x \<Longrightarrow> m' x = m x" for m' e
        by (rule in_buffer_cong [OF tail_in_buffer [of e]])
          (use that in \<open>auto simp: bounded_by_def s px path_loop_single_dot [simplified]\<close>)
      show ?thesis
      proof (cases "length (px_Prefix px) = 3")
        case True
        then have "d = 3" using px by (simp add: d_def)
        then have "in_buffer (n div 2) m (full_path_tail s after part px copied d)" if "6 < n"
          by (rule_tac one) (use that ev copied(2) in \<open>auto elim!: evenE\<close>)
        then show ?thesis using T False True return by (simp add: unfolded Let_def)
      next
        case F3: False
        have w: "in_buffer (n div 2) m (full_path_tail s after part px (write_cells 0 (map norm_separator (px_Prefix px)) m)
            (length (px_Prefix px) - 1))" if "2 * length (px_Prefix px) \<le> n" "0 < length (px_Prefix px)"
        proof (rule one)
          show "length (px_Prefix px) - 1 < n div 2" using that by (cases "px_Prefix px") auto
        qed (use that ev in \<open>auto elim!: evenE\<close>)
        show ?thesis using T False F3 return w px(4) by (auto simp: unfolded Let_def)
      qed
    qed
  qed
qed


text \<open>Directories: a drive and a path, or a UNC path with a separator behind its share.\<close>

definition dir_ok :: "u16 list \<Rightarrow> bool" where
  "dir_ok c \<longleftrightarrow> (let B = RtlpComputeBackupIndex c in
     B = 3 \<and> 3 \<le> length c \<and> c ! 1 = COLON \<and> IS_PATH_SEPARATOR_U (c ! 2) \<or>
     3 < B \<and> B < length c \<and> IS_PATH_SEPARATOR_U (c ! B))"

lemma norm_separator_simps [simp]:
  "norm_separator c = BACKSLASH \<longleftrightarrow> IS_PATH_SEPARATOR_U c" "norm_separator COLON = COLON" "norm_separator BACKSLASH = BACKSLASH"
  by (auto simp: norm_separator_def IS_PATH_SEPARATOR_U_def)

lemma behind_root_bounded:
  assumes "behind_root B len src i k m d"
  shows "bounded_by (d + (len - i)) m (path_loop B len src i k m d)"
  by (rule confined_bounded [OF path_loop_confined [OF assms]])

lemma behind_dir:
  assumes "dir_ok c" and "\<forall>x<length c. m x = norm_separator (c ! x)"
  shows "behind_root (RtlpComputeBackupIndex c) len src i k m (length c)"
  using assms unfolding dir_ok_def behind_root_def Let_def by auto

lemma unc_scan_le: "unc_scan cs n \<le> length cs"
  by (induction cs arbitrary: n) (auto simp: le_SucI)

lemma unc_scan_stop: "unc_scan cs n < length cs \<Longrightarrow> IS_PATH_SEPARATOR_U (cs ! unc_scan cs n)"
  by (induction cs arbitrary: n) auto

lemma path_loop_separator:
  "IS_PATH_SEPARATOR_U (src k) \<Longrightarrow> i < len \<Longrightarrow> 0 < d \<Longrightarrow> m (d - 1) \<noteq> BACKSLASH \<Longrightarrow>
     path_loop B len src i k m d = path_loop B len src (i + 1) (k + 1) (m(d := BACKSLASH)) (d + 1)"
  by (simp add: path_loop.simps [of B len src i k m d])

text \<open>A rooted name behind a drive: the first separator is written and completes the root.\<close>

lemma rooted_bounded:
  assumes "IS_PATH_SEPARATOR_U (src k)" and "i < len" and "m 1 = COLON"
  shows "bounded_by (2 + (len - i)) m (path_loop 3 len src i k m 2)"
proof -
  have "path_loop 3 len src i k m 2 = path_loop 3 len src (i + 1) (k + 1) (m(2 := BACKSLASH)) 3"
    using path_loop_separator [of src k i len 2 m 3] assms by simp
  moreover have "behind_root 3 len src (i + 1) (k + 1) (m(2 := BACKSLASH)) 3" by (simp add: behind_root_def)
  from behind_root_bounded [OF this] have "bounded_by (2 + (len - i)) m (path_loop 3 len src (i + 1) (k + 1) (m(2 := BACKSLASH)) 3)"
    by (rule bounded_by_mono) (use assms(2) in auto)
  ultimately show ?thesis by simp
qed

text \<open>An absolute name with a drive: the drive is a component of its own, unless its letter is a dot.\<close>

lemma drive_bounded:
  assumes "\<not> IS_PATH_SEPARATOR_U (src 0)" and "src 1 = COLON" and "IS_PATH_SEPARATOR_U (src 2)" and "3 \<le> len"
  shows "bounded_by len m (path_loop 3 len src 0 0 m 0)"
proof (cases "src 0 = DOT")
  case True
  have "path_loop 3 len src 0 0 m 0 = Some (m, 0)" by (rule path_loop_stuck) (use assms True in auto)
  then show ?thesis by (simp add: bounded_by_def)
next
  case False
  obtain l where l: "len = Suc (Suc (Suc l))" using assms(4) by (intro that [of "len - 3"]) simp
  define m' where "m' = copy_cells src 0 0 2 m"
  have n: "component_length src 0 (len - 0) = 2" using assms(1-3) by (simp add: l numeral_2_eq_2)
  have m': "m' 1 = COLON" using assms(2) by (simp add: m'_def copy_cells_def)
  have "path_loop 3 len src 0 0 m 0 = path_loop 3 len src 2 2 m' 2"
  proof -
    have len: "\<not> len \<le> 0" using assms(4) by simp
    have "copy_cells src 0 0 2 m (0 + 2 - 1) \<noteq> DOT" using m' by (simp add: m'_def)
    then show ?thesis
      using path_loop_component [of len 0 src 0 3 m 0, OF len assms(1) False, unfolded n Let_def] by (simp add: m'_def numeral_2_eq_2)
  qed
  moreover have "bounded_by (2 + (len - 2)) m' (path_loop 3 len src 2 2 m' 2)"
    by (rule rooted_bounded) (use assms m' in auto)
  then have "bounded_by len m (path_loop 3 len src 2 2 m' 2)"
    by (rule bounded_by_mono) (use assms(4) in \<open>auto simp: m'_def copy_cells_def\<close>)
  ultimately show ?thesis by simp
qed


lemma path_source_simps [simp]: "k < length s \<Longrightarrow> path_source s after k = s ! k"
  by (simp add: path_source_def)

lemma loop_okI:
  assumes "src \<le> length s" and "psl \<le> length s" and "len = 2 * (length s - src + psl)"
    and "\<And>m. \<forall>x<length cs. m x = cs ! x \<Longrightarrow>
      bounded_by (length cs + (length s - src)) m (path_loop B (length s) (path_source s after) src src m (length cs))"
    and "cs = prefix_cells s \<lparr>px_Prefix = Prefix, px_InPlace = pl, px_SourceLength = psl, px_BackupIndex = B, px_Source = src,
        px_PathNameLength = len\<rparr>"
  shows "loop_ok s after \<lparr>px_Prefix = Prefix, px_InPlace = pl, px_SourceLength = psl, px_BackupIndex = B, px_Source = src,
    px_PathNameLength = len\<rparr>"
  using assms unfolding loop_ok_def by simp

text \<open>Each kind of name but the root of the local devices gets a prefix that is fit for the loop.\<close>

lemma unc_loop_ok:
  assumes "RtlDetermineDosPathNameType_Ustr s = RtlPathTypeUncAbsolute" and "B = 2 + unc_scan (drop 2 s) 0"
  shows "loop_ok s after \<lparr>px_Prefix = [], px_InPlace = False, px_SourceLength = B, px_BackupIndex = B, px_Source = B,
    px_PathNameLength = 2 * length s\<rparr>"
proof -
  have "2 \<le> length s" using assms(1) by (auto simp: RtlDetermineDosPathNameType_Ustr_def split: if_splits)
  then have B: "B \<le> length s" "1 \<le> B" using unc_scan_le [of "drop 2 s" 0] assms(2) by simp_all
  have stop: "length s \<le> B \<or> IS_PATH_SEPARATOR_U (path_source s after B)"
    using unc_scan_stop [of "drop 2 s" 0] \<open>2 \<le> length s\<close> assms(2) by (cases "B < length s") simp_all
  show ?thesis
  proof (rule loop_okI [OF B(1) B(1) _ _ refl])
    show "2 * length s = 2 * (length s - B + B)" using B by simp
    fix m
    show "bounded_by (length (prefix_cells s \<lparr>px_Prefix = [], px_InPlace = False, px_SourceLength = B, px_BackupIndex = B,
        px_Source = B, px_PathNameLength = 2 * length s\<rparr>) + (length s - B)) m
      (path_loop B (length s) (path_source s after) B B m (length (prefix_cells s \<lparr>px_Prefix = [], px_InPlace = False,
        px_SourceLength = B, px_BackupIndex = B, px_Source = B, px_PathNameLength = 2 * length s\<rparr>)))"
      using B stop behind_root_bounded [of B "length s" "path_source s after" B B m B]
      by (simp add: prefix_cells_def behind_root_def)
  qed
qed

lemma device_loop_ok:
  assumes "RtlDetermineDosPathNameType_Ustr s = RtlPathTypeLocalDevice"
  shows "loop_ok s after \<lparr>px_Prefix = [], px_InPlace = False, px_SourceLength = 4, px_BackupIndex = 4, px_Source = 4,
    px_PathNameLength = 2 * length s\<rparr>"
proof -
  have s: "4 \<le> length s" "IS_PATH_SEPARATOR_U (s ! 3)"
    using assms by (auto simp: RtlDetermineDosPathNameType_Ustr_def split: if_splits)
  show ?thesis
  proof (rule loop_okI [OF s(1) s(1) _ _ refl])
    show "2 * length s = 2 * (length s - 4 + 4)" using s by simp
    fix m :: cells
    assume "\<forall>x<length (prefix_cells s \<lparr>px_Prefix = [], px_InPlace = False, px_SourceLength = 4, px_BackupIndex = 4,
        px_Source = 4, px_PathNameLength = 2 * length s\<rparr>). m x = prefix_cells s \<lparr>px_Prefix = [], px_InPlace = False,
        px_SourceLength = 4, px_BackupIndex = 4, px_Source = 4, px_PathNameLength = 2 * length s\<rparr> ! x"
    then have "m 3 = BACKSLASH" using s by (simp add: prefix_cells_def)
    then show "bounded_by (length (prefix_cells s \<lparr>px_Prefix = [], px_InPlace = False, px_SourceLength = 4, px_BackupIndex = 4,
        px_Source = 4, px_PathNameLength = 2 * length s\<rparr>) + (length s - 4)) m
      (path_loop 4 (length s) (path_source s after) 4 4 m (length (prefix_cells s \<lparr>px_Prefix = [], px_InPlace = False,
        px_SourceLength = 4, px_BackupIndex = 4, px_Source = 4, px_PathNameLength = 2 * length s\<rparr>)))"
      using s behind_root_bounded [of 4 "length s" "path_source s after" 4 4 m 4]
      by (simp add: prefix_cells_def behind_root_def)
  qed
qed

lemma absolute_loop_ok:
  assumes "RtlDetermineDosPathNameType_Ustr s = RtlPathTypeDriveAbsolute"
  shows "loop_ok s after \<lparr>px_Prefix = [], px_InPlace = False, px_SourceLength = 0, px_BackupIndex = 3, px_Source = 0,
    px_PathNameLength = 2 * length s\<rparr>"
proof -
  have "3 \<le> length s" "\<not> IS_PATH_SEPARATOR_U (s ! 0)" "s ! 1 = COLON" "IS_PATH_SEPARATOR_U (s ! 2)"
    using assms by (auto simp: RtlDetermineDosPathNameType_Ustr_def split: if_splits)
  moreover then have "path_source s after 0 = s ! 0" "path_source s after 1 = s ! 1" "path_source s after 2 = s ! 2"
    by (auto simp: path_source_def)
  ultimately have "bounded_by (length s) m (path_loop 3 (length s) (path_source s after) 0 0 m 0)" for m
    by (intro drive_bounded) simp_all
  then show ?thesis by (simp add: loop_ok_def prefix_cells_def)
qed

text \<open>The prefix is a directory, or the current root.\<close>

lemma directory_loop_ok:
  assumes "dir_ok c" and "B = RtlpComputeBackupIndex c" and "k \<le> length s"
  shows "loop_ok s after \<lparr>px_Prefix = c, px_InPlace = False, px_SourceLength = 0, px_BackupIndex = B, px_Source = k,
    px_PathNameLength = 2 * length s - 2 * k\<rparr>"
  using assms behind_root_bounded [OF behind_dir [OF assms(1)], where len = "length s" and src = "path_source s after" and i = k and k = k]
  by (simp add: loop_ok_def prefix_cells_def diff_mult_distrib2)

lemma in_place_loop_ok:
  assumes "3 \<le> length c" and "c ! 2 = BACKSLASH" and "k \<le> length s"
  shows "loop_ok s after \<lparr>px_Prefix = c, px_InPlace = True, px_SourceLength = 0, px_BackupIndex = 3, px_Source = k,
    px_PathNameLength = 2 * length s - 2 * k\<rparr>"
  using assms behind_root_bounded [of 3 "length s" "path_source s after" k k]
  by (simp add: loop_ok_def prefix_cells_def diff_mult_distrib2 behind_root_def)

lemma rooted_loop_ok:
  assumes "RtlDetermineDosPathNameType_Ustr s = RtlPathTypeRooted" and "dir_ok c" and "B = RtlpComputeBackupIndex c"
  shows "loop_ok s after \<lparr>px_Prefix = take (if B = 3 then 2 else B) c, px_InPlace = False, px_SourceLength = 0,
    px_BackupIndex = B, px_Source = 0, px_PathNameLength = 2 * length s\<rparr>"
proof -
  have s: "s \<noteq> []" "IS_PATH_SEPARATOR_U (s ! 0)"
    using assms(1) by (auto simp: RtlDetermineDosPathNameType_Ustr_def split: if_splits)
  have sep: "IS_PATH_SEPARATOR_U (path_source s after 0)" using s by simp
  show ?thesis
  proof (cases "B = 3")
    case True
    then have c: "3 \<le> length c" "c ! 1 = COLON" using assms(2,3) by (auto simp: dir_ok_def)
    have "bounded_by (2 + length s) m (path_loop 3 (length s) (path_source s after) 0 0 m 2)"
      if "\<forall>x<2. m x = map norm_separator (take 2 c) ! x" for m
      using rooted_bounded [of "path_source s after" 0 0 "length s" m, OF sep] that c s by simp
    then show ?thesis using True c by (simp add: loop_ok_def prefix_cells_def min_def)
  next
    case False
    then have "3 < B" "B < length c" using assms(2,3) by (auto simp: dir_ok_def Let_def)
    then show ?thesis using False sep behind_root_bounded [of B "length s" "path_source s after" 0 0 _ B]
      by (simp add: loop_ok_def prefix_cells_def behind_root_def min_def)
  qed
qed


definition prefix_ok :: "u16 list \<Rightarrow> u16 \<Rightarrow> nat \<Rightarrow> cells \<Rightarrow> nat + path_prefix \<times> cells \<Rightarrow> bool" where
  "prefix_ok s after N m p \<longleftrightarrow> (case p of
     Inl L \<Rightarrow> True
   | Inr (px, m1) \<Rightarrow> loop_ok s after px \<and> (\<forall>x. N \<le> x \<longrightarrow> m1 x = m x) \<and>
       (px_InPlace px \<longrightarrow> px_SourceLength px = 0 \<and> (\<forall>x<length (px_Prefix px). m1 x = px_Prefix px ! x)) \<and>
       (length s = 1 \<and> s ! 0 = DOT \<longrightarrow> px_Source px = 0 \<and> px_SourceLength px = 0 \<and> \<not> px_InPlace px \<and> px_Prefix px \<noteq> []))"

lemma drive_prefix_ok:
  assumes "even n" and "dir_ok (pe_Validated env)" and "RtlDetermineDosPathNameType_Ustr s = RtlPathTypeDriveRelative"
    and drive: "drive_of env (pe_CurDir env) = drive_of env s \<Longrightarrow> RtlpComputeBackupIndex (pe_Validated env) = 3"
    and var: "\<And>v. pe_DriveVariable env (drive_of env s) = Some v \<Longrightarrow>
      3 \<le> length v \<and> v ! 2 = BACKSLASH \<and> (3 < length v \<longrightarrow> 2 * length v \<noteq> n)"
  shows "prefix_ok s after (n div 2) m (drive_prefix env s n m)"
proof -
  have s: "2 \<le> length s" using assms(3) by (auto simp: RtlDetermineDosPathNameType_Ustr_def split: if_splits)
  show ?thesis
  proof (cases "drive_of env (pe_CurDir env) = drive_of env s")
    case True
    then show ?thesis using s directory_loop_ok [OF assms(2) drive [symmetric] s]
      by (simp add: drive_prefix_def prefix_ok_def)
  next
    case F: False
    show ?thesis
    proof (cases "pe_DriveVariable env (drive_of env s)")
      case None
      have "loop_ok s after \<lparr>px_Prefix = [ucast (drive_of env s), COLON, BACKSLASH], px_InPlace = False, px_SourceLength = 0,
          px_BackupIndex = 3, px_Source = 2, px_PathNameLength = 2 * length s - 4\<rparr>"
      proof -
        have "bounded_by (3 + (length s - 2)) m (path_loop 3 (length s) (path_source s after) 2 2 m 3)"
          if "\<forall>x<3. m x = [norm_separator (ucast (drive_of env s)), COLON, BACKSLASH] ! x" for m
        proof -
          have "m 2 = BACKSLASH" using that [rule_format, of 2] by simp
          then show ?thesis using behind_root_bounded [of 3 "length s" "path_source s after" 2 2 m 3]
            by (simp add: behind_root_def)
        qed
        then show ?thesis using s by (simp add: loop_ok_def prefix_cells_def diff_mult_distrib2 numeral_3_eq_3)
      qed
      then show ?thesis using F None s by (simp add: drive_prefix_def prefix_ok_def Let_def)
    next
      case (Some v)
      note v = var [OF Some]
      show ?thesis
      proof (cases "n < 2 * length v")
        case True
        then show ?thesis using F Some by (simp add: drive_prefix_def prefix_ok_def Let_def)
      next
        case False
        define m2 where "m2 = (if 2 * length v < n then (write_cells 0 v m)(length v := 0) else write_cells 0 v m)"
        show ?thesis
        proof (cases "3 < length v")
          case True
          then have n: "length v < n div 2" using False v assms(1) by (auto elim!: evenE)
          have "loop_ok s after \<lparr>px_Prefix = v @ [BACKSLASH], px_InPlace = True, px_SourceLength = 0,
              px_BackupIndex = 3, px_Source = 2, px_PathNameLength = 2 * length s - 4\<rparr>"
            using in_place_loop_ok [of "v @ [BACKSLASH]" 2 s after] v s True by (simp add: nth_append)
          moreover have "\<forall>x. n div 2 \<le> x \<longrightarrow> (m2(length v := BACKSLASH)) x = m x" using n by (auto simp: m2_def)
          moreover have "\<forall>x<length (v @ [BACKSLASH]). (m2(length v := BACKSLASH)) x = (v @ [BACKSLASH]) ! x"
            by (auto simp: m2_def nth_append less_Suc_eq)
          ultimately show ?thesis using F Some False True s
            by (simp add: drive_prefix_def prefix_ok_def Let_def m2_def [symmetric])
        next
          case F3: False
          have "loop_ok s after \<lparr>px_Prefix = v, px_InPlace = True, px_SourceLength = 0,
              px_BackupIndex = 3, px_Source = 2, px_PathNameLength = 2 * length s - 4\<rparr>"
            using in_place_loop_ok [of v 2 s after] v s by simp
          moreover have "\<forall>x. n div 2 \<le> x \<longrightarrow> m2 x = m x" using False assms(1) by (auto simp: m2_def elim!: evenE)
          moreover have "\<forall>x<length v. m2 x = v ! x" by (auto simp: m2_def)
          ultimately show ?thesis using F Some False F3 s
            by (simp add: drive_prefix_def prefix_ok_def Let_def m2_def [symmetric])
        qed
      qed
    qed
  qed
qed

lemma path_prefix_ok:
  assumes "even n" and "dir_ok (pe_CurDir env)" and "dir_ok (pe_Validated env)" and "s \<noteq> []"
    and "RtlDetermineDosPathNameType_Ustr s \<noteq> RtlPathTypeRootLocalDevice"
    and "drive_of env (pe_CurDir env) = drive_of env s \<Longrightarrow> RtlpComputeBackupIndex (pe_Validated env) = 3"
    and "\<And>v. pe_DriveVariable env (drive_of env s) = Some v \<Longrightarrow>
      3 \<le> length v \<and> v ! 2 = BACKSLASH \<and> (3 < length v \<longrightarrow> 2 * length v \<noteq> n)"
  shows "prefix_ok s after (n div 2) m (path_prefix_of env s n m)"
proof -
  have dot: "RtlDetermineDosPathNameType_Ustr s = RtlPathTypeRelative" if "length s = 1 \<and> s ! 0 = DOT"
    using that by (simp add: RtlDetermineDosPathNameType_Ustr_def)
  have nonempty: "pe_Validated env \<noteq> []" using assms(3) by (auto simp: dir_ok_def Let_def)
  show ?thesis
  proof (cases "RtlDetermineDosPathNameType_Ustr s")
    case RtlPathTypeUncAbsolute
    then show ?thesis using unc_loop_ok [OF RtlPathTypeUncAbsolute refl] dot
      by (auto simp: path_prefix_of_def prefix_ok_def Let_def)
  next
    case RtlPathTypeLocalDevice
    then show ?thesis using device_loop_ok [OF RtlPathTypeLocalDevice] dot
      by (auto simp: path_prefix_of_def prefix_ok_def Let_def)
  next
    case RtlPathTypeDriveAbsolute
    then show ?thesis using absolute_loop_ok [OF RtlPathTypeDriveAbsolute] dot
      by (auto simp: path_prefix_of_def prefix_ok_def Let_def)
  next
    case RtlPathTypeDriveRelative
    then show ?thesis using drive_prefix_ok [OF assms(1,3) RtlPathTypeDriveRelative assms(6,7)]
      by (simp add: path_prefix_of_def)
  next
    case RtlPathTypeRooted
    then show ?thesis using rooted_loop_ok [OF RtlPathTypeRooted assms(2) refl] dot
      by (auto simp: path_prefix_of_def prefix_ok_def Let_def)
  next
    case RtlPathTypeRelative
    then show ?thesis using directory_loop_ok [OF assms(3) refl, of 0 s] nonempty
      by (simp add: path_prefix_of_def prefix_ok_def Let_def)
  qed (use assms(5) in \<open>simp_all add: path_prefix_of_def prefix_ok_def\<close>)
qed


text \<open>The current directory is \<open>C:\x\\<close>, and no drive has a variable.\<close>

definition demo_env :: path_env where
  "demo_env = \<lparr>pe_Equal = (\<lambda>x y. x = y), pe_Upcase = (\<lambda>c. c), pe_CurDir = [67, COLON, BACKSLASH, 120, BACKSLASH],
     pe_Validated = [67, COLON, BACKSLASH, 120, BACKSLASH], pe_DriveVariable = (\<lambda>_. None),
     pe_CheckDevice = (\<lambda>_ _. (STATUS_SUCCESS, False))\<rparr>"


end
