(* ===== verification/FullPathCanonical.thy ===== *)
theory FullPathCanonical
  imports FullPath
begin

text \<open>
  What \<open>RtlGetFullPathName_Ustr\<close> computes for an absolute name with a drive: the loop over the characters
  agrees with a walk over the components of the name, as long as no component starts with a dot other
  than \<open>.\<close> and \<open>..\<close> themselves; such a component is lost.
\<close>

section \<open>The reference\<close>

fun split_path :: "u16 list \<Rightarrow> u16 list list" where
  "split_path [] = [[]]"
| "split_path (c # cs) =
     (if IS_PATH_SEPARATOR_U c then [] # split_path cs else (c # hd (split_path cs)) # tl (split_path cs))"

text \<open>A dot at the end of a component is dropped if another one follows.\<close>

fun walk_path :: "u16 list list \<Rightarrow> u16 list list \<Rightarrow> u16 list list" where
  "walk_path st [] = st"
| "walk_path st (c # cs) =
     (if c = [] \<or> c = [DOT] then walk_path st cs
      else if c = [DOT, DOT] then walk_path (butlast st) cs
      else walk_path (st @ [if cs \<noteq> [] \<and> last c = DOT then butlast c else c]) cs)"

definition path_text :: "u16 list \<Rightarrow> u16 list list \<Rightarrow> u16 list" where
  "path_text root st = root @ concat (map (\<lambda>c. c @ [BACKSLASH]) st)"

text \<open>A final separator is kept if the name has one, and trailing blanks and dots go.\<close>

definition canonical_path :: "u16 list \<Rightarrow> u16 list" where
  "canonical_path s =
     (let st = walk_path [] (split_path (drop 3 s));
          text = path_text (take 2 s @ [BACKSLASH]) st
      in rstrip (\<lambda>c. c = SPACE \<or> c = DOT) (if st \<noteq> [] \<and> \<not> IS_PATH_SEPARATOR_U (last s) then butlast text else text))"

text \<open>A component the loop treats as it should.\<close>

definition regular_component :: "u16 list \<Rightarrow> bool" where
  "regular_component c \<longleftrightarrow> c = [] \<or> hd c \<noteq> DOT \<or> c = [DOT] \<or> c = [DOT, DOT]"

section \<open>The loop on one component\<close>

text \<open>At the start of a component the buffer has the text so far, and no backslash behind it.\<close>

definition component_ok :: "u16 list \<Rightarrow> bool" where
  "component_ok c \<longleftrightarrow> c \<noteq> [] \<and> BACKSLASH \<notin> set c"

definition holds_text :: "cells \<Rightarrow> nat \<Rightarrow> u16 list \<Rightarrow> bool" where
  "holds_text m d text \<longleftrightarrow> d = length text \<and> (\<forall>x<d. m x = text ! x)"

definition at_component :: "nat \<Rightarrow> u16 list \<Rightarrow> cells \<Rightarrow> nat \<Rightarrow> u16 list list \<Rightarrow> bool" where
  "at_component N root m d st \<longleftrightarrow> root \<noteq> [] \<and> last root = BACKSLASH \<and> (\<forall>c\<in>set st. component_ok c) \<and>
     holds_text m d (path_text root st) \<and> (\<forall>x. d \<le> x \<and> x < N \<longrightarrow> m x \<noteq> BACKSLASH)"

lemma path_text_snoc [simp]: "path_text root (st @ [c]) = path_text root st @ c @ [BACKSLASH]"
  by (simp add: path_text_def)

lemma path_text_Nil [simp]: "path_text root [] = root"
  by (simp add: path_text_def)

lemma path_text_last: "root \<noteq> [] \<Longrightarrow> last root = BACKSLASH \<Longrightarrow> path_text root st \<noteq> [] \<and> last (path_text root st) = BACKSLASH"
  by (cases st rule: rev_cases) simp_all

lemma at_component_slash:
  assumes "at_component N root m d st"
  shows "0 < d \<and> m (d - 1) = BACKSLASH"
proof -
  have "path_text root st \<noteq> []" "last (path_text root st) = BACKSLASH"
    using path_text_last assms by (auto simp: at_component_def)
  then show ?thesis using assms by (auto simp: at_component_def holds_text_def last_conv_nth)
qed

lemma at_component_push:
  assumes "at_component N root m d st" and "component_ok c" and "m' = (write_cells d c m)(d + length c := BACKSLASH)"
  shows "at_component N root m' (d + length c + 1) (st @ [c])"
proof -
  have d: "d = length (path_text root st)" "\<forall>x<d. m x = path_text root st ! x"
    using assms(1) by (simp_all add: at_component_def holds_text_def)
  have "m' x = path_text root (st @ [c]) ! x" if "x < d + length c + 1" for x
    using that d assms(3) by (auto simp: write_cells_def nth_append)
  then show ?thesis using assms d by (auto simp: at_component_def holds_text_def write_cells_def)
qed

text \<open>Going up takes the last component away and leaves the cursor on the backslash before it, or behind
  the root.\<close>

lemma up_component_exact:
  assumes "p < d" and "m p = BACKSLASH" and "\<forall>x. p < x \<and> x < d \<longrightarrow> m x \<noteq> BACKSLASH" and "B \<le> Suc p"
  shows "up_component B m d = Some (\<lambda>x. if p < x \<and> x \<le> d then 0 else m x, p)"
  using assms
proof (induction d arbitrary: m)
  case (Suc d)
  show ?case
  proof (cases "p = d")
    case True
    then have "(m(Suc d := 0)) = (\<lambda>x. if p < x \<and> x \<le> Suc d then 0 else m x)" by (auto simp: fun_eq_iff)
    then show ?thesis using Suc.prems True by (simp add: Let_def)
  next
    case False
    then have pd: "p < d" using Suc.prems(1) by simp
    then have nb: "(m(Suc d := 0)) d \<noteq> BACKSLASH" using Suc.prems(3) by simp
    have "up_component B (m(Suc d := 0)) d = Some (\<lambda>x. if p < x \<and> x \<le> d then 0 else (m(Suc d := 0)) x, p)"
      by (rule Suc.IH) (use Suc.prems pd in auto)
    moreover have "(\<lambda>x. if p < x \<and> x \<le> d then 0 else (m(Suc d := 0)) x) = (\<lambda>x. if p < x \<and> x \<le> Suc d then 0 else m x)"
      using pd by (auto simp: fun_eq_iff)
    ultimately show ?thesis using Suc.prems(4) pd nb by (simp add: Let_def)
  qed
qed simp

lemma back_to_slash_previous:
  assumes "m d \<noteq> BACKSLASH" and "0 < d" and "m (d - 1) = BACKSLASH"
  shows "back_to_slash m d = Some (m(d := 0), d - 1)"
proof -
  obtain e where e: "d = Suc e" using assms(2) by (cases d) auto
  show ?thesis using assms unfolding e by (cases e) simp_all
qed

lemma path_up_root:
  assumes "at_component N root m d []" and "d < N"
  shows "path_up (length root) m d = Some (m(d := 0), d)"
proof -
  have md: "m d \<noteq> BACKSLASH" "d = length root" using assms by (simp_all add: at_component_def holds_text_def)
  have b: "back_to_slash m d = Some (m(d := 0), d - 1)"
    using at_component_slash [OF assms(1)] md(1) by (intro back_to_slash_previous) auto
  obtain e where e: "d = Suc e" using at_component_slash [OF assms(1)] by (cases d) auto
  then have r: "length root = Suc e" using md(2) by simp
  have "up_component (length root) (m(d := 0)) (d - 1) = Some (m(d := 0), d - 1)"
    unfolding e r by (cases e) simp_all
  then show ?thesis using b md(2) at_component_slash [OF assms(1)] by (simp add: path_up_def)
qed

lemma path_up_pop:
  assumes at: "at_component N root m d (st @ [c])" and dN: "d < N"
  shows "\<exists>m'. path_up (length root) m d =
      Some (m', if st = [] then length root else length (path_text root st) - 1) \<and>
    at_component N root m' (length (path_text root st)) st"
proof -
  define p where "p = length (path_text root st) - 1"
  have t: "path_text root st \<noteq> []" "last (path_text root st) = BACKSLASH" "length root \<le> length (path_text root st)"
    using path_text_last [of root st] at by (auto simp: at_component_def path_text_def)
  have c: "component_ok c" "d = length (path_text root st) + length c + 1"
    "\<forall>x<d. m x = (path_text root st @ c @ [BACKSLASH]) ! x" "\<forall>x. d \<le> x \<and> x < N \<longrightarrow> m x \<noteq> BACKSLASH"
    using at by (auto simp: at_component_def holds_text_def)
  have p: "Suc p = length (path_text root st)" using t(1) by (simp add: p_def)
  define m1 where "m1 = m(d := 0)"
  have b: "back_to_slash m d = Some (m1, d - 1)" unfolding m1_def
    by (rule back_to_slash_previous) (use c dN at_component_slash [OF at] in auto)
  have "path_text root st ! p = BACKSLASH" using t(1,2) by (simp add: last_conv_nth p_def)
  then have mp: "m1 p = BACKSLASH" using c(2,3) p by (simp add: m1_def nth_append)
  have gap: "m1 x \<noteq> BACKSLASH" if "p < x" "x < d - 1" for x
  proof -
    obtain j where j: "x = length (path_text root st) + j" using \<open>p < x\<close> p le_Suc_ex [of "Suc p" x] by auto
    then have "j < length c" using that c(2) by simp
    moreover then have "m1 x = c ! j" using j c(2,3) by (simp add: m1_def nth_append)
    ultimately show ?thesis using c(1) nth_mem by (fastforce simp: component_ok_def)
  qed
  define m2 where "m2 = (\<lambda>x. if p < x \<and> x \<le> d - 1 then 0 else m1 x)"
  have u: "up_component (length root) m1 (d - 1) = Some (m2, p)" unfolding m2_def
    by (rule up_component_exact) (use c(1,2) p t(3) mp gap in \<open>auto simp: component_ok_def\<close>)
  have "m2 x = path_text root st ! x" if "x < Suc p" for x
    using that c(2,3) p by (simp add: m2_def m1_def nth_append)
  moreover have "m2 x \<noteq> BACKSLASH" if "Suc p \<le> x" "x < N" for x
    using that c(2,4) by (auto simp: m2_def m1_def)
  ultimately have "at_component N root m2 (length (path_text root st)) st"
    using at p by (auto simp: at_component_def holds_text_def)
  moreover have "st = [] \<longleftrightarrow> p + 1 = length root"
    using p at by (cases st rule: rev_cases) (auto simp: at_component_def path_text_def)
  ultimately show ?thesis using b u p by (auto simp: path_up_def p_def [symmetric])
qed

section \<open>The loop on the whole name\<close>

lemma component_length_take:
  assumes "\<forall>j<length c. \<not> IS_PATH_SEPARATOR_U (src (k + j))" and "length c \<le> n"
    and "length c < n \<Longrightarrow> IS_PATH_SEPARATOR_U (src (k + length c))"
  shows "component_length src k n = length c"
  using assms
proof (induction c arbitrary: k n)
  case Nil
  then show ?case by (cases n) auto
next
  case (Cons a c)
  then obtain n' where n': "n = Suc n'" by (cases n) auto
  have "\<not> IS_PATH_SEPARATOR_U (src k)" using Cons.prems(1) [rule_format, of 0] by simp
  moreover have "component_length src (k + 1) n' = length c"
  proof (rule Cons.IH)
    show "\<forall>j<length c. \<not> IS_PATH_SEPARATOR_U (src (k + 1 + j))"
      using Cons.prems(1) by (metis Suc_less_eq add.assoc length_Cons plus_1_eq_Suc)
  qed (use Cons.prems(2,3) n' in auto)
  ultimately show ?case using n' by simp
qed

lemma last_component_not_slash:
  assumes "at_component N root m d (st @ [c])"
  shows "m (length (path_text root st) + length c - 1) \<noteq> BACKSLASH"
proof -
  have c: "c \<noteq> []" "BACKSLASH \<notin> set c" using assms by (simp_all add: at_component_def component_ok_def)
  have "m (length (path_text root st) + (length c - 1)) = c ! (length c - 1)"
    using assms c(1) by (simp add: at_component_def holds_text_def nth_append)
  moreover have "c ! (length c - 1) \<in> set c" using c(1) by simp
  ultimately show ?thesis using c by (cases c) auto
qed

text \<open>The stack after one component; \<open>follows\<close> tells whether a separator follows.\<close>

definition walk_step :: "bool \<Rightarrow> u16 list list \<Rightarrow> u16 list \<Rightarrow> u16 list list" where
  "walk_step follows st c =
     (if c = [] \<or> c = [DOT] then st else if c = [DOT, DOT] then butlast st
      else st @ [if follows \<and> last c = DOT then butlast c else c])"

lemma walk_path_step: "walk_path st (c # cs) = walk_path (walk_step (cs \<noteq> []) st c) cs"
  by (simp add: walk_step_def)

definition in_name :: "cells \<Rightarrow> nat \<Rightarrow> u16 list \<Rightarrow> bool" where
  "in_name src k c \<longleftrightarrow> (\<forall>j<length c. src (k + j) = c ! j \<and> \<not> IS_PATH_SEPARATOR_U (c ! j))"

lemma path_loop_slash:
  assumes "IS_PATH_SEPARATOR_U (src k)" and "k < len" and "0 < d"
  shows "path_loop B len src k k m d =
    (if m (d - 1) = BACKSLASH then path_loop B len src (k + 1) (k + 1) m d
     else path_loop B len src (k + 1) (k + 1) (m(d := BACKSLASH)) (d + 1))"
  using assms by (auto simp: path_loop.simps [of B len src k k m d])

lemma write_cells_copy:
  assumes "in_name src k c"
  shows "copy_cells src k d (length c) m = write_cells d c m"
proof
  fix x
  have "src (k + (x - d)) = c ! (x - d)" if "d \<le> x" "x < d + length c"
  proof -
    have "x - d < length c" using that by linarith
    then show ?thesis using assms unfolding in_name_def by blast
  qed
  then show "copy_cells src k d (length c) m x = write_cells d c m x" unfolding copy_cells_def write_cells_def by presburger
qed

lemma component_not_slash: "in_name src k c \<Longrightarrow> BACKSLASH \<notin> set c"
  by (metis in_name_def in_set_conv_nth separator_simps(1))

lemma path_loop_dot_dot:
  assumes "src k = DOT" and "src (k + 1) = DOT" and "k + 2 \<le> len" and "k + 2 < len \<Longrightarrow> IS_PATH_SEPARATOR_U (src (k + 2))"
  shows "path_loop B len src k k m d =
    (case path_up B m d of None \<Rightarrow> None | Some (m', d') \<Rightarrow> path_loop B len src (k + 2) (k + 2) m' d')"
proof -
  have "\<not> IS_DOT_USTR src k (len - k)" using assms(2,3) by (simp add: IS_DOT_USTR_def)
  moreover have "IS_DOT_DOT_USTR src k (len - k)"
  proof -
    have l: "1 \<le> len - k" "1 \<le> len - k - 1" using assms(3) by arith+
    have "len - k - 1 - 1 = 0 \<or> IS_PATH_SEPARATOR_U (src (k + 1 + 1))" using assms(3,4) by (cases "len = k + 2") simp_all
    then show ?thesis using l assms(1,2) by (simp only: IS_DOT_DOT_USTR_def IS_DOT_USTR_def)
  qed
  ultimately show ?thesis using assms(1,3) by (simp add: path_loop.simps [of B len src k k m d])
qed

lemma path_loop_inner:
  assumes at: "at_component N root m d st" and name: "in_name src k c" and sep: "IS_PATH_SEPARATOR_U (src (k + length c))"
    and len: "k + length c < len" and reg: "regular_component c" and dN: "d < N"
  shows "\<exists>m' d'. path_loop (length root) len src k k m d =
      path_loop (length root) len src (k + length c + 1) (k + length c + 1) m' d' \<and>
    at_component N root m' d' (walk_step True st c) \<and> d' \<le> d + length c + 1"
proof -
  note slash = at_component_slash [OF at]
  consider "c = []" | "c = [DOT]" | "c = [DOT, DOT]" | "c \<noteq> []" "c ! 0 \<noteq> DOT" "c \<noteq> [DOT]" "c \<noteq> [DOT, DOT]"
    using reg by (cases "c = []") (auto simp: regular_component_def hd_conv_nth)
  then show ?thesis
  proof cases
    case 1
    then show ?thesis using path_loop_slash [of src k len d "length root" m] sep len slash at
      by (intro exI [of _ m] exI [of _ d]) (simp add: walk_step_def)
  next
    case 2
    have "src k = DOT" using name 2 by (simp add: in_name_def)
    then have "path_loop (length root) len src k k m d = path_loop (length root) len src (k + 2) (k + 2) m d"
      using sep len 2 by (auto simp: path_loop.simps [of _ len src k k m d] IS_DOT_USTR_def)
    then show ?thesis using 2 at by (intro exI [of _ m] exI [of _ d]) (simp add: walk_step_def)
  next
    case 3
    have src: "src k = DOT" "src (k + 1) = DOT"
      using name [unfolded in_name_def, rule_format, of 0] name [unfolded in_name_def, rule_format, of 1] 3 by simp_all
    show ?thesis
    proof (cases st rule: rev_cases)
      case Nil
      then have "path_up (length root) m d = Some (m(d := 0), d)" using path_up_root at dN by blast
      then have "path_loop (length root) len src k k m d = path_loop (length root) len src (k + 2) (k + 2) (m(d := 0)) d"
        using path_loop_dot_dot [of src k len "length root" m d] sep len 3 src by simp
      also have "\<dots> = path_loop (length root) len src (k + 3) (k + 3) (m(d := 0)) d"
        using path_loop_slash [of src "k + 2" len d "length root" "m(d := 0)"] sep len 3 slash
        by (cases "d - 1 = d") (simp_all add: numeral_3_eq_3)
      finally show ?thesis using at 3 Nil
        by (intro exI [of _ "m(d := 0)"] exI [of _ d])
          (auto simp: walk_step_def at_component_def holds_text_def numeral_3_eq_3)
    next
      case (snoc st' e)
      obtain m' where up: "path_up (length root) m d =
          Some (m', if st' = [] then length root else length (path_text root st') - 1)"
        "at_component N root m' (length (path_text root st')) st'" using path_up_pop at snoc dN by blast
      define d' where "d' = (if st' = [] then length root else length (path_text root st') - 1)"
      have l1: "path_loop (length root) len src k k m d = path_loop (length root) len src (k + 2) (k + 2) m' d'"
        using path_loop_dot_dot [of src k len "length root" m d] sep len 3 src up(1) by (simp add: d'_def)
      note slash' = at_component_slash [OF up(2)]
      have l2: "path_loop (length root) len src (k + 2) (k + 2) m' d' =
          path_loop (length root) len src (k + 3) (k + 3) m' (length (path_text root st'))"
      proof (cases st' rule: rev_cases)
        case Nil
        then show ?thesis
          using path_loop_slash [of src "k + 2" len d' "length root" m'] sep len 3 slash'
          by (simp add: d'_def numeral_3_eq_3)
      next
        case (snoc st'' c')
        have "m' (d' - 1) \<noteq> BACKSLASH" using last_component_not_slash [of N root m' _ st'' c'] up(2) snoc
          by (simp add: d'_def)
        moreover have "m'(d' := BACKSLASH) = m'" "d' + 1 = length (path_text root st')" "0 < d'"
          using slash' snoc up(2) by (auto simp: d'_def at_component_def path_text_def)
        ultimately show ?thesis
          using path_loop_slash [of src "k + 2" len d' "length root" m'] sep len 3
          by (simp add: numeral_3_eq_3)
      qed
      moreover have "length (path_text root st') \<le> d" using at snoc by (simp add: at_component_def holds_text_def)
      ultimately show ?thesis using l1 up(2) 3 snoc
        by (intro exI [of _ m'] exI [of _ "length (path_text root st')"]) (simp add: walk_step_def numeral_3_eq_3)
    qed
  next
    case 4
    define c' where "c' = (if last c = DOT then butlast c else c)"
    have ns: "BACKSLASH \<notin> set c" using component_not_slash [OF name] .
    have c0: "c' \<noteq> []"
    proof (cases "last c = DOT")
      case True
      then have "length c \<noteq> 1" using 4(1,2) by (auto simp: length_Suc_conv)
      then have "1 < length c" using 4(1) by (cases c) auto
      then show ?thesis using True by (auto simp: c'_def butlast_conv_take)
    qed (use 4(1) in \<open>simp add: c'_def\<close>)
    have c': "c' \<noteq> []" "length c' \<le> length c" "\<forall>j<length c'. c' ! j = c ! j" "length c \<le> length c' + 1"
      "length c' < length c \<longrightarrow> last c = DOT" "last c = DOT \<longrightarrow> length c' + 1 = length c"
      subgoal by (rule c0)
      using 4(1) by (auto simp: c'_def nth_butlast Suc_leI)
    have ok: "component_ok c'" using c'(1) ns by (auto simp: c'_def component_ok_def dest: in_set_butlastD)
    define m1 where "m1 = write_cells d c m"
    have n: "component_length src k (len - k) = length c"
      by (rule component_length_take) (use name len sep in \<open>auto simp: in_name_def\<close>)
    have first: "\<not> len \<le> k" "\<not> IS_PATH_SEPARATOR_U (src k)" "src k \<noteq> DOT"
      using name [unfolded in_name_def, rule_format, of 0] 4(1,2) len by auto
    have lc: "m1 (d + length c - 1) = last c" using 4(1) by (cases c) (simp_all add: m1_def write_cells_def last_conv_nth)
    have l1: "path_loop (length root) len src k k m d =
        path_loop (length root) len src (k + length c) (k + length c) m1 (d + length c')"
      unfolding path_loop_component [of len k src k, OF first] n Let_def write_cells_copy [OF name] m1_def [symmetric] lc
      using c'(4-6) 4(1) sep by (cases "last c = DOT") (auto simp: c'_def add_diff_assoc Suc_leI)
    have "m1 (d + length c' - 1) \<in> set c"
      using c'(1,2) by (auto simp: m1_def write_cells_def neq_Nil_conv)
    then have "m1 (d + length c' - 1) \<noteq> BACKSLASH" using ns by auto
    then have l2: "path_loop (length root) len src (k + length c) (k + length c) m1 (d + length c') =
        path_loop (length root) len src (k + length c + 1) (k + length c + 1) (m1(d + length c' := BACKSLASH)) (d + length c' + 1)"
      using path_loop_slash [of src "k + length c" len "d + length c'" "length root" m1] sep len slash by simp
    have "m1(d + length c' := BACKSLASH) = (write_cells d c' m)(d + length c' := BACKSLASH)"
      using c'(2,3,4) by (auto simp: fun_eq_iff m1_def write_cells_def)
    from at_component_push [OF at ok this]
    have "at_component N root (m1(d + length c' := BACKSLASH)) (d + length c' + 1) (st @ [c'])" .
    then show ?thesis using l1 l2 4(1,3,4) c'(2)
      by (intro exI [of _ "m1(d + length c' := BACKSLASH)"] exI [of _ "d + length c' + 1"])
        (simp add: walk_step_def c'_def [symmetric])
  qed
qed

text \<open>At the end of the name the text may lack its last backslash.\<close>

definition ends_with :: "u16 list \<Rightarrow> cells \<Rightarrow> nat \<Rightarrow> u16 list list \<Rightarrow> bool" where
  "ends_with root m d st \<longleftrightarrow> (\<forall>c\<in>set st. component_ok c) \<and> (holds_text m d (path_text root st) \<or>
     st \<noteq> [] \<and> holds_text m d (butlast (path_text root st)))"

lemma path_loop_done: "len \<le> i \<Longrightarrow> path_loop B len src i k m d = Some (m, d)"
  by (simp add: path_loop.simps)

lemma path_loop_last:
  assumes at: "at_component N root m d st" and name: "in_name src k c" and len: "k + length c = len"
    and after: "\<not> IS_PATH_SEPARATOR_U (src len)" and reg: "regular_component c" and dN: "d < N"
  shows "\<exists>m' d'. path_loop (length root) len src k k m d = Some (m', d') \<and> ends_with root m' d' (walk_step False st c) \<and>
    (c = [] \<longrightarrow> holds_text m' d' (path_text root st))"
proof -
  have keep: "ends_with root m d st" "holds_text m d (path_text root st)"
    using at by (simp_all add: ends_with_def at_component_def)
  consider "c = []" | "c = [DOT]" | "c = [DOT, DOT]" | "c \<noteq> []" "c ! 0 \<noteq> DOT" "c \<noteq> [DOT]" "c \<noteq> [DOT, DOT]"
    using reg by (cases "c = []") (auto simp: regular_component_def hd_conv_nth)
  then show ?thesis
  proof cases
    case 1
    then show ?thesis using keep len by (simp add: path_loop_done walk_step_def)
  next
    case 2
    have "src k = DOT" using name 2 by (simp add: in_name_def)
    then have "path_loop (length root) len src k k m d = Some (m, d)"
      using len 2 by (auto simp: path_loop.simps [of _ len src k k m d] IS_DOT_USTR_def path_loop_done)
    then show ?thesis using keep 2 by (simp add: walk_step_def)
  next
    case 3
    have src: "src k = DOT" "src (k + 1) = DOT"
      using name [unfolded in_name_def, rule_format, of 0] name [unfolded in_name_def, rule_format, of 1] 3 by simp_all
    have l: "path_loop (length root) len src k k m d = path_up (length root) m d"
      using path_loop_dot_dot [of src k len "length root" m d] len 3 src
      by (auto simp: path_loop_done split: option.splits)
    show ?thesis
    proof (cases st rule: rev_cases)
      case Nil
      then have "path_up (length root) m d = Some (m(d := 0), d)" using path_up_root at dN by blast
      then show ?thesis using l 3 Nil keep by (auto simp: walk_step_def ends_with_def holds_text_def)
    next
      case (snoc st' e)
      obtain m' where up: "path_up (length root) m d =
          Some (m', if st' = [] then length root else length (path_text root st') - 1)"
        "at_component N root m' (length (path_text root st')) st'" using path_up_pop at snoc dN by blast
      have "ends_with root m' (if st' = [] then length root else length (path_text root st') - 1) st'"
        using up(2) by (auto simp: ends_with_def at_component_def holds_text_def nth_butlast)
      then show ?thesis using l up(1) 3 snoc by (simp add: walk_step_def)
    qed
  next
    case 4
    have ns: "BACKSLASH \<notin> set c" using component_not_slash [OF name] .
    have n: "component_length src k (len - k) = length c"
      by (rule component_length_take) (use name len in \<open>auto simp: in_name_def\<close>)
    have first: "\<not> len \<le> k" "\<not> IS_PATH_SEPARATOR_U (src k)" "src k \<noteq> DOT"
      using name [unfolded in_name_def, rule_format, of 0] 4(1,2) len by auto
    have "path_loop (length root) len src k k m d = Some (write_cells d c m, d + length c)"
      unfolding path_loop_component [of len k src k, OF first] n Let_def write_cells_copy [OF name]
      using after len by (simp add: path_loop_done)
    moreover have "holds_text (write_cells d c m) (d + length c) (path_text root st @ c)"
      using at by (auto simp: at_component_def holds_text_def write_cells_def nth_append)
    moreover have "butlast (path_text root (st @ [c])) = path_text root st @ c"
      by (simp add: butlast_append)
    ultimately show ?thesis using 4 at ns
      by (auto simp: walk_step_def ends_with_def at_component_def component_ok_def)
  qed
qed

lemma split_path_none: "\<forall>x\<in>set c. \<not> IS_PATH_SEPARATOR_U x \<Longrightarrow> split_path c = [c]"
  by (induction c) auto

lemma split_path_first:
  "\<forall>x\<in>set c. \<not> IS_PATH_SEPARATOR_U x \<Longrightarrow> IS_PATH_SEPARATOR_U s \<Longrightarrow> split_path (c @ s # t) = c # split_path t"
  by (induction c) auto

lemma split_path_not_Nil [simp]: "split_path t \<noteq> []"
  by (cases t) auto

lemma path_loop_walk:
  assumes "at_component N root m d st" and "\<forall>j<length t. src (k + j) = t ! j" and "len = k + length t"
    and "\<not> IS_PATH_SEPARATOR_U (src len)" and "\<forall>c\<in>set (split_path t). regular_component c"
    and "d + length t < N"
  shows "\<exists>m' d'. path_loop (length root) len src k k m d = Some (m', d') \<and>
    ends_with root m' d' (walk_path st (split_path t)) \<and>
    (t = [] \<or> IS_PATH_SEPARATOR_U (last t) \<longrightarrow> holds_text m' d' (path_text root (walk_path st (split_path t))))"
  using assms
proof (induction t arbitrary: k m d st rule: length_induct)
  case (1 t)
  define c where "c = takeWhile (\<lambda>x. \<not> IS_PATH_SEPARATOR_U x) t"
  have c: "\<forall>x\<in>set c. \<not> IS_PATH_SEPARATOR_U x" by (auto simp: c_def dest: set_takeWhileD)
  obtain r where r: "t = c @ r" by (metis c_def takeWhile_dropWhile_id)
  have name: "in_name src k c" using "1.prems"(2) c r by (auto simp: in_name_def nth_append)
  show ?case
  proof (cases r)
    case Nil
    then have sp: "split_path t = [c]" using r c by (simp add: split_path_none)
    have "c = [] \<or> \<not> IS_PATH_SEPARATOR_U (last c)" using c by auto
    moreover have "walk_path st (split_path t) = walk_step False st c" by (simp add: sp walk_step_def)
    moreover have "regular_component c" using "1.prems"(5) sp by simp
    ultimately show ?thesis
      using path_loop_last [OF "1.prems"(1) name _ "1.prems"(4)] "1.prems"(3,6) r Nil by (auto simp: walk_step_def)
  next
    case (Cons s t')
    have s: "IS_PATH_SEPARATOR_U s"
    proof -
      have "dropWhile (\<lambda>x. \<not> IS_PATH_SEPARATOR_U x) t = s # t'"
        using r Cons by (metis append_same_eq c_def same_append_eq takeWhile_dropWhile_id)
      then show ?thesis by (metis dropWhile_eq_Cons_conv)
    qed
    have sp: "split_path t = c # split_path t'" using split_path_first [OF c s] r Cons by simp
    have at: "src (k + length c) = s" using "1.prems"(2) r Cons by (simp add: nth_append)
    obtain m' d' where step: "path_loop (length root) len src k k m d =
        path_loop (length root) len src (k + length c + 1) (k + length c + 1) m' d'"
      "at_component N root m' d' (walk_step True st c)" "d' \<le> d + length c + 1"
    proof -
      have "regular_component c" using "1.prems"(5) sp by simp
      moreover have "k + length c < len" using "1.prems"(3) r Cons by simp
      moreover have "IS_PATH_SEPARATOR_U (src (k + length c))" using at s by simp
      ultimately show ?thesis using path_loop_inner [OF "1.prems"(1) name, of len] "1.prems"(6) that by auto
    qed
    have "\<forall>j<length t'. src (k + length c + 1 + j) = t' ! j"
    proof (intro allI impI)
      fix j
      assume "j < length t'"
      then have "src (k + (length c + 1 + j)) = t ! (length c + 1 + j)"
        using "1.prems"(2) [rule_format, of "length c + 1 + j"] r Cons by simp
      then show "src (k + length c + 1 + j) = t' ! j" by (simp add: r Cons nth_append add.assoc)
    qed
    then obtain m2 d2 where tail: "path_loop (length root) len src (k + length c + 1) (k + length c + 1) m' d' = Some (m2, d2)"
      "ends_with root m2 d2 (walk_path (walk_step True st c) (split_path t'))"
      "t' = [] \<or> IS_PATH_SEPARATOR_U (last t') \<longrightarrow> holds_text m2 d2 (path_text root (walk_path (walk_step True st c) (split_path t')))"
      using "1.IH" [rule_format, of t' m' d' "walk_step True st c" "k + length c + 1"] step(2,3) "1.prems"(3,4,5,6) r Cons sp by auto
    have w: "walk_path st (split_path t) = walk_path (walk_step True st c) (split_path t')"
      unfolding sp walk_path_step by simp
    have "t' = [] \<or> IS_PATH_SEPARATOR_U (last t')" if "IS_PATH_SEPARATOR_U (last t)" using that r Cons by (auto split: if_splits)
    then show ?thesis using step(1) tail r Cons unfolding w by auto
  qed
qed

section \<open>The whole routine\<close>

text \<open>The text in the buffer, of the length that is returned.\<close>

definition full_path_text :: "full_path_result option \<Rightarrow> u16 list option" where
  "full_path_text result = map_option (\<lambda>r. map (fr_Buffer r) [0..<fr_Length r div 2]) result"

lemma holds_textD: "holds_text m d tx \<Longrightarrow> map m [0..<d] = tx"
  by (rule nth_equalityI) (simp_all add: holds_text_def)

lemma path_trim_text:
  "holds_text m d tx \<Longrightarrow> case path_trim m d of (m', d') \<Rightarrow> holds_text m' d' (rstrip (\<lambda>c. c = SPACE \<or> c = DOT) tx)"
proof (induction d arbitrary: m tx)
  case (Suc d)
  obtain xs x where tx: "tx = xs @ [x]" using Suc.prems by (cases tx rule: rev_cases) (auto simp: holds_text_def)
  then have "d = length xs" "m d = x" using Suc.prems by (auto simp: holds_text_def)
  moreover from this have "holds_text (m(d := 0)) d xs" using Suc.prems tx by (auto simp: holds_text_def nth_append)
  ultimately show ?case using Suc.IH [of "m(d := 0)" xs] Suc.prems tx by (simp del: fun_upd_apply)
qed (simp add: holds_text_def)

lemma path_finish_text:
  assumes "ends_with root m d st" and "root \<noteq> []" and "last root = BACKSLASH"
    and "\<not> strip \<Longrightarrow> holds_text m d (path_text root st)"
  shows "case path_finish strip (length root) m d of (m', d') \<Rightarrow> holds_text m' d'
    (rstrip (\<lambda>c. c = SPACE \<or> c = DOT) (if st \<noteq> [] \<and> strip then butlast (path_text root st) else path_text root st))"
proof -
  have keep: "holds_text (m(d := 0)) d tx" if "holds_text m d tx" for tx using that by (auto simp: holds_text_def)
  show ?thesis
  proof (cases "st \<noteq> [] \<and> strip")
    case False
    have tx: "holds_text m d (path_text root st)" using False assms(1,4) by (auto simp: ends_with_def)
    have "st = [] \<or> \<not> strip" using False by blast
    then have "\<not> (strip \<and> length root < d \<and> (m(d := 0)) (d - 1) = BACKSLASH)"
      using tx by (auto simp: holds_text_def)
    then have "path_finish strip (length root) m d = path_trim (m(d := 0)) d" by (auto simp: path_finish_def Let_def)
    then show ?thesis using path_trim_text [OF keep [OF tx]] False by auto
  next
    case True
    obtain st' c where st: "st = st' @ [c]" using True by (cases st rule: rev_cases) auto
    have c: "c \<noteq> []" "last c \<noteq> BACKSLASH" using assms(1) by (auto simp: ends_with_def st component_ok_def dest: last_in_set)
    have bl: "butlast (path_text root st) = path_text root st' @ c" by (simp add: st butlast_append)
    have long: "length root \<le> length (path_text root st')" by (simp add: path_text_def)
    have goal: "?thesis" if "path_finish strip (length root) m d = path_trim m2 d2" "holds_text m2 d2 (path_text root st' @ c)" for m2 d2
      using path_trim_text [OF that(2)] that(1) True bl by simp
    have "holds_text m d (path_text root st) \<or> holds_text m d (path_text root st' @ c)"
      using assms(1) bl by (auto simp: ends_with_def)
    then show ?thesis
    proof
      assume h: "holds_text m d (path_text root st)"
      then have d: "d = Suc (length (path_text root st' @ c))" "m (d - 1) = BACKSLASH"
        by (simp_all add: holds_text_def st nth_append)
      have "holds_text ((m(d := 0))(d - 1 := 0)) (d - 1) (path_text root st' @ c)"
        using h d(1) by (auto simp: holds_text_def st nth_append)
      then show ?thesis using goal [of "(m(d := 0))(d - 1 := 0)" "d - 1"] True d long c(1)
        by (simp add: path_finish_def Let_def)
    next
      assume h: "holds_text m d (path_text root st' @ c)"
      then have d: "d = length (path_text root st') + length c" "m (d - 1) = (path_text root st' @ c) ! (d - 1)"
        using c(1) by (auto simp: holds_text_def)
      moreover have "(path_text root st' @ c) ! (d - 1) = last c" using d(1) c(1) by (cases c) (simp_all add: nth_append last_conv_nth)
      ultimately have "m (d - 1) \<noteq> BACKSLASH" using c(2) by simp
      moreover have "d - 1 \<noteq> d" using d(1) c(1) by (cases c) simp_all
      ultimately show ?thesis using goal [OF _ keep [OF h]] by (simp add: path_finish_def Let_def)
    qed
  qed
qed

text \<open>The drive itself is copied as a component, and its separator as a backslash.\<close>

lemma path_loop_drive:
  assumes "src 0 = x" and "src 1 = COLON" and "IS_PATH_SEPARATOR_U (src 2)" and "\<not> IS_PATH_SEPARATOR_U x" and "x \<noteq> DOT"
    and "3 \<le> len" and "\<And>y. y < N \<Longrightarrow> m y \<noteq> BACKSLASH"
  shows "\<exists>m'. path_loop B len src 0 0 m 0 = path_loop B len src 3 3 m' 3 \<and>
    at_component N [x, COLON, BACKSLASH] m' 3 []"
proof -
  have name: "in_name src 0 [x, COLON]" using assms(1,2,4) by (auto simp: in_name_def less_Suc_eq)
  have "component_length src 0 (len - 0) = length [x, COLON]"
    by (rule component_length_take) (use assms in \<open>auto simp: less_2_cases_iff numeral_2_eq_2 [symmetric]\<close>)
  then have n: "component_length src 0 (len - 0) = 2" by simp
  have c: "copy_cells src 0 0 2 m = write_cells 0 [x, COLON] m" using write_cells_copy [OF name, of 0 m] by (simp add: numeral_2_eq_2)
  define m1 where "m1 = write_cells 0 [x, COLON] m"
  have m1: "m1 0 = x" "m1 1 = COLON" "\<And>y. 2 \<le> y \<Longrightarrow> m1 y = m y" by (simp_all add: m1_def)
  have "path_loop B len src 0 0 m 0 = path_loop B len src 2 2 m1 2"
    using assms(1,4,5,6) m1(2)
    by (simp add: assms(3) path_loop.simps [of B len src 0 0 m 0] Let_def n [simplified] c m1_def [symmetric])
  also have "\<dots> = path_loop B len src 3 3 (m1(2 := BACKSLASH)) 3"
    using assms(3,6) m1(2) path_loop_slash [of src 2 len 2 B m1] by simp
  finally have l: "path_loop B len src 0 0 m 0 = path_loop B len src 3 3 (m1(2 := BACKSLASH)) 3" .
  have "(m1(2 := BACKSLASH)) y = [x, COLON, BACKSLASH] ! y" if "y < 3" for y
    using that m1 by (auto simp: less_Suc_eq numeral_3_eq_3 numeral_2_eq_2)
  moreover have "(m1(2 := BACKSLASH)) y \<noteq> BACKSLASH" if "3 \<le> y" "y < N" for y
    using that m1(3) [of y] assms(7) by simp
  ultimately have "at_component N [x, COLON, BACKSLASH] (m1(2 := BACKSLASH)) 3 []"
    by (simp add: at_component_def holds_text_def)
  with l show ?thesis by blast
qed

lemma drive_absolute_cases:
  assumes "RtlDetermineDosPathNameType_Ustr s = RtlPathTypeDriveAbsolute"
  obtains x sep t where "s = x # COLON # sep # t" "\<not> IS_PATH_SEPARATOR_U x" "IS_PATH_SEPARATOR_U sep"
proof -
  have "3 \<le> length s" "\<not> IS_PATH_SEPARATOR_U (s ! 0)" "s ! 1 = COLON" "IS_PATH_SEPARATOR_U (s ! 2)"
    using assms by (auto simp: RtlDetermineDosPathNameType_Ustr_def split: if_splits)
  then show ?thesis using that by (cases s; cases "tl s"; cases "tl (tl s)") auto
qed

text \<open>Past the drive the buffer holds the root.\<close>

lemma full_path_drive:
  assumes "RtlDetermineDosPathNameType_Ustr s = RtlPathTypeDriveAbsolute" and "s ! 0 \<noteq> 0" and "s ! 0 \<noteq> DOT"
    and "RtlIsDosDeviceName_Ustr (pe_Equal env) s = 0" and "2 * length s + 2 \<le> n" and "n \<le> 65535"
  obtains m1 where "at_component (n div 2) (take 2 s @ [BACKSLASH]) m1 3 []"
    and "full_path_text (RtlGetFullPathName_Ustr env s after n part invalid m) =
      map_option (\<lambda>(m2, d2). case path_finish (\<not> IS_PATH_SEPARATOR_U (last s)) 3 m2 d2 of (m3, d3) \<Rightarrow> map m3 [0..<d3])
        (path_loop 3 (length s) (path_source s after) 3 3 m1 3)"
proof -
  obtain x sep t where s: "s = x # COLON # sep # t" "\<not> IS_PATH_SEPARATOR_U x" "IS_PATH_SEPARATOR_U sep"
    using drive_absolute_cases [OF assms(1)] .
  define src where "src = path_source s after"
  define m0 where "m0 = (write_cells 0 [] (\<lambda>x. if x < n div 2 then 0 else m x))(0 := 0)"
  define px where "px = \<lparr>px_Prefix = [], px_InPlace = False, px_SourceLength = 0, px_BackupIndex = 3, px_Source = 0,
    px_PathNameLength = 2 * length s\<rparr>"
  have src: "src 0 = x" "src 1 = COLON" "src 2 = sep"
    by (simp_all add: src_def path_source_def s(1) numeral_2_eq_2)
  have m0: "m0 y \<noteq> BACKSLASH" if "y < n div 2" for y using that by (simp add: m0_def write_cells_def)
  obtain m1 where m1: "path_loop 3 (length s) src 0 0 m0 0 = path_loop 3 (length s) src 3 3 m1 3"
    "at_component (n div 2) [x, COLON, BACKSLASH] m1 3 []"
    using path_loop_drive [of src x "length s" "n div 2" m0 3] src s assms(3) m0 by auto
  have "RtlGetFullPathName_Ustr env s after n part invalid m = full_path_prefixed s after n part px (\<lambda>x. if x < n div 2 then 0 else m x)"
    using assms(1,2,4,6) s(1) by (simp add: RtlGetFullPathName_Ustr_def path_prefix_of_def Let_def px_def)
  also have "\<dots> = full_path_tail s after part px (write_cells 0 [] (\<lambda>x. if x < n div 2 then 0 else m x)) 0"
    using assms(5) by (simp add: full_path_prefixed_def Let_def px_def)
  finally have "full_path_text (RtlGetFullPathName_Ustr env s after n part invalid m) =
      map_option (\<lambda>(m2, d2). case path_finish (\<not> IS_PATH_SEPARATOR_U (last s)) 3 m2 d2 of (m3, d3) \<Rightarrow> map m3 [0..<d3])
        (path_loop 3 (length s) src 3 3 m1 3)"
    using m1(1) by (simp add: full_path_text_def full_path_tail_def px_def src_def [symmetric] m0_def [symmetric]
      split: option.split prod.split)
  then show ?thesis using that [of m1] m1(2) by (simp add: s(1) src_def)
qed

text \<open>C25: For an absolute name with a drive whose components do not start with a dot, unless they are \<open>.\<close> or
  \<open>..\<close>, the routine writes the canonical path into a buffer that is large enough, and returns its length
  in bytes: \<open>.\<close> and empty components vanish, \<open>..\<close> takes the previous component away but not the root,
  separators become single backslashes, and blanks and dots at the end are dropped.\<close>

theorem full_path_canonical:
  assumes "RtlDetermineDosPathNameType_Ustr s = RtlPathTypeDriveAbsolute" and "s ! 0 \<noteq> 0" and "s ! 0 \<noteq> DOT"
    and "RtlIsDosDeviceName_Ustr (pe_Equal env) s = 0"
    and "\<forall>c\<in>set (split_path (drop 3 s)). regular_component c" and "\<not> IS_PATH_SEPARATOR_U after"
    and "2 * length s + 2 \<le> n" and "n \<le> 65535"
  shows "full_path_text (RtlGetFullPathName_Ustr env s after n part invalid m) = Some (canonical_path s)"
proof -
  obtain x sep t where s: "s = x # COLON # sep # t" "IS_PATH_SEPARATOR_U sep"
    using drive_absolute_cases [OF assms(1)] by metis
  define root where "root = take 2 s @ [BACKSLASH]"
  define src where "src = path_source s after"
  have root3: "length root = 3" by (simp add: root_def s(1))
  have src: "src (length s) = after" "\<forall>j<length t. src (3 + j) = t ! j"
    by (simp_all add: src_def path_source_def s(1) numeral_3_eq_3)
  obtain m1 where m1: "at_component (n div 2) root m1 3 []"
    "full_path_text (RtlGetFullPathName_Ustr env s after n part invalid m) =
      map_option (\<lambda>(m2, d2). case path_finish (\<not> IS_PATH_SEPARATOR_U (last s)) 3 m2 d2 of (m3, d3) \<Rightarrow> map m3 [0..<d3])
        (path_loop 3 (length s) src 3 3 m1 3)"
    unfolding root_def src_def by (rule full_path_drive [OF assms(1-4,7,8), of after part invalid m])
  define st where "st = walk_path [] (split_path t)"
  have "3 + length t < n div 2" using assms(7) s(1) by simp
  then obtain m2 d2 where loop: "path_loop 3 (length s) src 3 3 m1 3 = Some (m2, d2)" "ends_with root m2 d2 st"
    "t = [] \<or> IS_PATH_SEPARATOR_U (last t) \<longrightarrow> holds_text m2 d2 (path_text root st)"
    using path_loop_walk [OF m1(1) src(2), of "length s", unfolded root3] src(1) assms(5,6) s(1) by (auto simp: st_def)
  define strip where "strip \<longleftrightarrow> \<not> IS_PATH_SEPARATOR_U (last s)"
  have full: "holds_text m2 d2 (path_text root st)" if "\<not> strip"
    using that loop(3) s(1) by (auto simp: strip_def split: if_splits)
  obtain m3 d3 where fin: "path_finish strip 3 m2 d2 = (m3, d3)" by fastforce
  have can: "canonical_path s = rstrip (\<lambda>c. c = SPACE \<or> c = DOT)
      (if st \<noteq> [] \<and> strip then butlast (path_text root st) else path_text root st)"
    by (simp add: canonical_path_def s(1) strip_def root_def st_def Let_def)
  have "holds_text m3 d3 (canonical_path s)"
    using path_finish_text [OF loop(2), of strip, unfolded root3 fin prod.case] full unfolding can
    by (simp add: root_def)
  from holds_textD [OF this] show ?thesis by (simp add: m1(2) loop(1) fin strip_def [symmetric])
qed

theorem full_path_canonical_witness:
  "full_path_text (RtlGetFullPathName_Ustr demo_env
      [67, COLON, SLASH, 97, SLASH, DOT, SLASH, 98, SLASH, SLASH, DOT, DOT, BACKSLASH, 99, DOT] 0 64 True False (\<lambda>_. 7)) =
    Some [67, COLON, BACKSLASH, 97, BACKSLASH, 99]"
proof -
  let ?s = "[67, COLON, SLASH, 97, SLASH, DOT, SLASH, 98, SLASH, SLASH, DOT, DOT, BACKSLASH, 99, DOT] :: u16 list"
  have "RtlDetermineDosPathNameType_Ustr ?s = RtlPathTypeDriveAbsolute" by code_simp
  moreover have "RtlIsDosDeviceName_Ustr (pe_Equal demo_env) ?s = 0" by code_simp
  moreover have "\<forall>c\<in>set (split_path (drop 3 ?s)). regular_component c" by code_simp
  moreover have "canonical_path ?s = [67, COLON, BACKSLASH, 97, BACKSLASH, 99]" by code_simp
  ultimately show ?thesis
    using full_path_canonical [of ?s demo_env 0 64 True False "\<lambda>_. 7"] by simp
qed

section \<open>Where it fails\<close>

text \<open>A component that starts with a single dot and goes on is lost with everything behind it: all names
  \<open>C:\.git\c\<close> become \<open>C:\\<close>.\<close>

theorem dot_name_lost:
  assumes "RtlDetermineDosPathNameType_Ustr s = RtlPathTypeDriveAbsolute" and "s ! 0 \<noteq> 0" and "s ! 0 \<noteq> DOT"
    and "RtlIsDosDeviceName_Ustr (pe_Equal env) s = 0" and "2 * length s + 2 \<le> n" and "n \<le> 65535"
    and "5 \<le> length s" and "s ! 3 = DOT" and "s ! 4 \<noteq> DOT" and "\<not> IS_PATH_SEPARATOR_U (s ! 4)"
  shows "full_path_text (RtlGetFullPathName_Ustr env s after n part invalid m) = Some (take 2 s @ [BACKSLASH])"
proof -
  define root where "root = take 2 s @ [BACKSLASH]"
  have root: "length root = 3" "last root = BACKSLASH" "root \<noteq> []" using assms(7) by (simp_all add: root_def)
  define strip where "strip \<longleftrightarrow> \<not> IS_PATH_SEPARATOR_U (last s)"
  obtain m1 where m1: "at_component (n div 2) root m1 3 []"
    "full_path_text (RtlGetFullPathName_Ustr env s after n part invalid m) =
      map_option (\<lambda>(m2, d2). case path_finish strip 3 m2 d2 of (m3, d3) \<Rightarrow> map m3 [0..<d3])
        (path_loop 3 (length s) (path_source s after) 3 3 m1 3)"
    unfolding root_def strip_def by (rule full_path_drive [OF assms(1-6), of after part invalid m])
  have l: "path_loop 3 (length s) (path_source s after) 3 3 m1 3 = Some (m1, 3)"
    by (rule path_loop_stuck) (use assms(7-10) in \<open>auto simp: path_source_def\<close>)
  have h: "holds_text m1 3 root" using m1(1) by (simp add: at_component_def)
  obtain m3 d3 where fin: "path_finish strip 3 m1 3 = (m3, d3)" by fastforce
  have "holds_text m3 d3 (rstrip (\<lambda>c. c = SPACE \<or> c = DOT) root)"
    using path_finish_text [of root m1 3 "[]" strip, unfolded root(1) fin prod.case] root h by (simp add: ends_with_def)
  also have "rstrip (\<lambda>c. c = SPACE \<or> c = DOT) root = root" by (simp add: root_def)
  finally show ?thesis using holds_textD [of m3 d3 root] by (simp add: m1(2) l fin root_def)
qed

theorem dot_name_lost_witness:
  "full_path_text (RtlGetFullPathName_Ustr demo_env [67, COLON, BACKSLASH, DOT, 103, 105, 116, BACKSLASH, 99] 0 64 False False (\<lambda>_. 0)) =
    Some [67, COLON, BACKSLASH]"
proof -
  let ?s = "[67, COLON, BACKSLASH, DOT, 103, 105, 116, BACKSLASH, 99] :: u16 list"
  have "RtlDetermineDosPathNameType_Ustr ?s = RtlPathTypeDriveAbsolute" by code_simp
  moreover have "RtlIsDosDeviceName_Ustr (pe_Equal demo_env) ?s = 0" by code_simp
  ultimately show ?thesis using dot_name_lost [of ?s demo_env 64 0 False False "\<lambda>_. 0"] by (simp add: IS_PATH_SEPARATOR_U_def)
qed

text \<open>The name \<open>\\.\<close> with a buffer of three characters: the prefix is checked with the length of the
  name left over, which is nothing, and two characters are written behind the buffer.\<close>

theorem root_local_device_overrun:
  "map_option (\<lambda>r. map (fr_Buffer r) [3, 4]) (RtlGetFullPathName_Ustr demo_env [BACKSLASH, BACKSLASH, DOT] 0 6 False False (\<lambda>_. 7)) \<noteq>
    Some [7, 7]"
proof -
  let ?s = "[BACKSLASH, BACKSLASH, DOT] :: u16 list"
  have type: "RtlDetermineDosPathNameType_Ustr ?s = RtlPathTypeRootLocalDevice" by code_simp
  have device: "RtlIsDosDeviceName_Ustr (pe_Equal demo_env) ?s = 0" by code_simp
  have trim: "path_trim m 4 = (m, 4)" if "m 3 = BACKSLASH" for m using path_trim.simps(2) [of m 3] that by simp
  show ?thesis
    by (simp add: trim RtlGetFullPathName_Ustr_def type device path_prefix_of_def full_path_prefixed_def full_path_tail_def
      path_loop.simps path_finish_def Let_def write_cells_def norm_separator_def)
qed

end
