(* ===== verification/NtPath.thy ===== *)
theory NtPath
  imports FullPathCanonical
begin

text \<open>
  NT names of DOS path names (src/ntdll/curdir.c, \<open>RtlpDosPathNameToRelativeNtPathName_Ustr\<close>): the prefix
  of the object directory, the buffer the name is built in, and the part of the name that is relative to
  the current directory.
\<close>

abbreviation RtlpDosDevicesPrefix :: "u16 list" where "RtlpDosDevicesPrefix \<equiv> [92, 63, 63, 92]"
abbreviation RtlpDosDevicesUncPrefix :: "u16 list" where
  "RtlpDosDevicesUncPrefix \<equiv> [92, 63, 63, 92, 85, 78, 67, 92]"
abbreviation DOS_MAX_PATH_LENGTH :: nat where "DOS_MAX_PATH_LENGTH \<equiv> 260"

text \<open>A relative name is a part of the NT name, by its index there and its length in bytes.\<close>

record relative_name =
  rn_Buffer :: "nat option"
  rn_Length :: nat
  rn_ContainingDirectory :: nat
  rn_CurDirRef :: "nat option"

definition no_relative_name :: relative_name where
  "no_relative_name = \<lparr>rn_Buffer = None, rn_Length = 0, rn_ContainingDirectory = 0, rn_CurDirRef = None\<rparr>"

text \<open>The result: the size of the buffer that was allocated, what was written from its start on, the
  length and maximum length that are reported, and the name whose buffer is left allocated.\<close>

record nt_path_result =
  np_Return :: bool
  np_Allocated :: nat
  np_Written :: "u16 list"
  np_Length :: nat
  np_MaximumLength :: nat
  np_FilePart :: "nat option option"
  np_Relative :: "relative_name option"

definition nt_failure :: nt_path_result where
  "nt_failure = \<lparr>np_Return = False, np_Allocated = 0, np_Written = [], np_Length = 0, np_MaximumLength = 0,
     np_FilePart = None, np_Relative = None\<rparr>"

definition np_Name :: "nt_path_result \<Rightarrow> u16 list" where
  "np_Name r = take (np_Length r div 2) (np_Written r)"

text \<open>The directory the process has open, and the reference that counts its users.\<close>

record open_directory =
  od_Handle :: nat
  od_CurDirRef :: "nat option"

definition is_win32_name :: "u16 list \<Rightarrow> bool" where
  "is_win32_name s \<longleftrightarrow> 8 < 2 * length s \<and> s ! 0 = BACKSLASH \<and> s ! 1 = BACKSLASH \<and> s ! 2 = QUESTION \<and> s ! 3 = BACKSLASH"

definition nt_win32_name :: "(nat \<Rightarrow> bool) \<Rightarrow> u16 list \<Rightarrow> bool \<Rightarrow> bool \<Rightarrow> nt_path_result" where
  "nt_win32_name alloc s part rel =
     (let NtFileLength = 2 * length s - 8 + 2 * length RtlpDosDevicesPrefix;
          FullNtPathName = RtlpDosDevicesPrefix @ drop 4 s @ [0]
      in if 65533 < NtFileLength \<or> \<not> alloc (NtFileLength + 2) then nt_failure
         else \<lparr>np_Return = True, np_Allocated = NtFileLength + 2, np_Written = FullNtPathName,
           np_Length = NtFileLength, np_MaximumLength = NtFileLength + 2,
           np_FilePart = (if part then Some (case last_slash (\<lambda>i. FullNtPathName ! i) ((NtFileLength - 1) div 2) of
               None \<Rightarrow> None | Some d \<Rightarrow> if FullNtPathName ! d \<noteq> 0 then Some d else None) else None),
           np_Relative = (if rel then Some no_relative_name else None)\<rparr>)"

definition nt_prefix :: "u16 list \<Rightarrow> u16 list \<times> nat" where
  "nt_prefix p =
     (case RtlDetermineDosPathNameType_U p of
        RtlPathTypeUncAbsolute \<Rightarrow> (RtlpDosDevicesUncPrefix, 2)
      | RtlPathTypeLocalDevice \<Rightarrow> (RtlpDosDevicesPrefix, 4)
      | _ \<Rightarrow> (RtlpDosDevicesPrefix, 0))"

definition wide_length :: "cells \<Rightarrow> nat \<Rightarrow> nat" where
  "wide_length m i = length (takeWhile (\<lambda>c. c \<noteq> 0) (map m [i..<DOS_MAX_PATH_LENGTH + 1]))"

text \<open>\<open>full\<close> is the full name in the buffer on the stack and \<open>L\<close> its length in bytes.\<close>

definition nt_relative_name ::
  "path_env \<Rightarrow> open_directory \<Rightarrow> bool \<Rightarrow> full_path_result \<Rightarrow> u16 list \<Rightarrow> nat \<Rightarrow> u16 list \<Rightarrow> relative_name" where
  "nt_relative_name env od capture full Prefix DosPathNameOffset FullNtPathName =
     (let m = fr_Buffer full;
          CurDir = pe_Validated env
      in if fr_Type full = RtlPathTypeRelative \<and> od_Handle od \<noteq> 0 \<and> length CurDir \<le> wide_length m 0 \<and>
           pe_Equal env CurDir (map m [0..<length CurDir])
         then
           let Buffer = length Prefix - DosPathNameOffset + length CurDir;
               Length = fr_Length full - 2 * length CurDir;
               slash = (FullNtPathName ! Buffer = BACKSLASH)
           in \<lparr>rn_Buffer = Some (if slash then Buffer + 1 else Buffer), rn_Length = (if slash then Length - 2 else Length),
             rn_ContainingDirectory = od_Handle od, rn_CurDirRef = (if capture then od_CurDirRef od else None)\<rparr>
         else no_relative_name)"

definition nt_from_full ::
  "path_env \<Rightarrow> open_directory \<Rightarrow> bool \<Rightarrow> bool \<Rightarrow> bool \<Rightarrow> full_path_result \<Rightarrow> nat \<Rightarrow> nt_path_result" where
  "nt_from_full env od capture part rel full BufferLength =
     (let m = fr_Buffer full;
          (Prefix, DosPathNameOffset) = nt_prefix (map m [0..<DOS_MAX_PATH_LENGTH + 1]);
          Length = fr_Length full - 2 * DosPathNameOffset + 2 * length Prefix;
          FullNtPathName = Prefix @ map m [DosPathNameOffset..<fr_Length full div 2] @ [0]
      in \<lparr>np_Return = True, np_Allocated = 2 * (DOS_MAX_PATH_LENGTH + 1), np_Written = FullNtPathName, np_Length = Length,
         np_MaximumLength = BufferLength,
         np_FilePart = (if part then map_option (map_option (\<lambda>i. Length div 2 - wide_length m i)) (fr_FilePart full) else None),
         np_Relative = (if rel then Some (nt_relative_name env od capture full Prefix DosPathNameOffset FullNtPathName) else None)\<rparr>)"

definition RtlpDosPathNameToRelativeNtPathName_Ustr ::
  "path_env \<Rightarrow> open_directory \<Rightarrow> (nat \<Rightarrow> bool) \<Rightarrow> cells \<Rightarrow> bool \<Rightarrow> u16 list \<Rightarrow> u16 \<Rightarrow> bool \<Rightarrow> bool \<Rightarrow> nt_path_result option" where
  "RtlpDosPathNameToRelativeNtPathName_Ustr env od alloc StaticDosBuffer capture s after part rel =
     (if is_win32_name s then Some (nt_win32_name alloc s part rel)
      else if \<not> alloc (2 * (DOS_MAX_PATH_LENGTH + 1)) then Some nt_failure
      else
        let DosPathLength = 2 * DOS_MAX_PATH_LENGTH;
            BufferLength = 2 * (DOS_MAX_PATH_LENGTH + 1) + 2 * length RtlpDosDevicesUncPrefix
        in case RtlGetFullPathName_Ustr env s after DosPathLength part True StaticDosBuffer of
             None \<Rightarrow> None
           | Some full \<Rightarrow>
               if fr_NameInvalid full \<or> fr_Length full = 0 \<or> DosPathLength < fr_Length full then Some nt_failure
               else Some (nt_from_full env od capture part rel full BufferLength))"

definition RtlDosPathNameToNtPathName_U ::
  "path_env \<Rightarrow> open_directory \<Rightarrow> (nat \<Rightarrow> bool) \<Rightarrow> cells \<Rightarrow> u16 list \<Rightarrow> bool \<Rightarrow> nt_path_result option" where
  "RtlDosPathNameToNtPathName_U env od alloc StaticDosBuffer DosFileName part =
     (if 65534 \<le> 2 * length DosFileName + 2 then Some nt_failure
      else RtlpDosPathNameToRelativeNtPathName_Ustr env od alloc StaticDosBuffer False DosFileName 0 part False)"

definition RtlDosPathNameToRelativeNtPathName_U ::
  "path_env \<Rightarrow> open_directory \<Rightarrow> (nat \<Rightarrow> bool) \<Rightarrow> cells \<Rightarrow> u16 list \<Rightarrow> bool \<Rightarrow> nt_path_result option" where
  "RtlDosPathNameToRelativeNtPathName_U env od alloc StaticDosBuffer DosFileName part =
     (if 65534 \<le> 2 * length DosFileName + 2 then Some nt_failure
      else RtlpDosPathNameToRelativeNtPathName_Ustr env od alloc StaticDosBuffer True DosFileName 0 part True)"

section \<open>The name\<close>

lemma path_trim_terminates: "m d = 0 \<Longrightarrow> path_trim m d = (m', d') \<Longrightarrow> m' d' = 0"
proof (induction d arbitrary: m)
  case (Suc d)
  show ?case
  proof (cases "m d = SPACE \<or> m d = DOT")
    case True
    then show ?thesis using Suc.IH [of "m(d := 0)"] Suc.prems(2) by (auto simp: fun_upd_def)
  next
    case False
    then show ?thesis using Suc.prems by auto
  qed
qed simp

lemma path_finish_terminates: "path_finish strip B m d = (m', d') \<Longrightarrow> m' d' = 0"
  by (auto simp: path_finish_def Let_def split: if_splits dest: path_trim_terminates [rotated])

lemma tail_terminated:
  "full_path_tail s after part px m d = Some r \<Longrightarrow> fr_Buffer r (fr_Length r div 2) = 0 \<and> even (fr_Length r)"
  by (auto simp: full_path_tail_def split: option.splits prod.splits dest: path_finish_terminates)

text \<open>What is returned for a name that is not a device and fits is terminated.\<close>

lemma prefixed_terminated:
  assumes "full_path_prefixed s after n part px m = Some r" and "fr_Length r \<le> n" and "fr_Length r \<noteq> 0"
  shows "fr_Buffer r (fr_Length r div 2) = 0 \<and> even (fr_Length r)"
  using assms by (auto simp: full_path_prefixed_def Let_def tail_terminated split: if_splits)

lemma full_path_terminated:
  assumes "RtlGetFullPathName_Ustr env s after n part invalid m = Some r" and "n \<le> 65535"
    and "fr_Type r = RtlPathTypeRelative \<or> fr_Type r = RtlPathTypeDriveAbsolute" and "fr_Length r \<le> n" and "fr_Length r \<noteq> 0"
  shows "fr_Buffer r (fr_Length r div 2) = 0 \<and> even (fr_Length r)"
proof -
  define dev where "dev = RtlIsDosDeviceName_Ustr (pe_Equal env) s"
  define m0 where "m0 = (\<lambda>x. if x < n div 2 then 0 else m x)"
  have n: "(if 65535 < n then 65534 else n) = n" using assms(2) by simp
  have "Some r = (case path_prefix_of env s n m0 of
      Inl L \<Rightarrow> Some \<lparr>fr_Length = L, fr_Buffer = m0, fr_FilePart = None, fr_NameInvalid = False,
        fr_Type = RtlDetermineDosPathNameType_Ustr s\<rparr>
    | Inr (px, m1) \<Rightarrow> full_path_prefixed s after n part px m1)"
    using assms(1,3) unfolding RtlGetFullPathName_Ustr_def n Let_def dev_def [symmetric] m0_def [symmetric]
    by (auto split: if_splits)
  moreover have "(\<exists>p. path_prefix_of env s n m0 = Inr p)"
    using calculation assms(3) by (cases "RtlDetermineDosPathNameType_Ustr s") (auto simp: path_prefix_of_def split: sum.splits)
  ultimately obtain px m1 where "full_path_prefixed s after n part px m1 = Some r"
    using assms(3) by (auto split: sum.splits prod.splits)
  then show ?thesis using prefixed_terminated assms(4,5) by blast
qed

lemma wide_length_le: "m L = 0 \<Longrightarrow> L \<le> DOS_MAX_PATH_LENGTH \<Longrightarrow> wide_length m 0 \<le> L"
proof (rule ccontr)
  let ?xs = "map m [0..<DOS_MAX_PATH_LENGTH + 1]"
  assume "m L = 0" "L \<le> DOS_MAX_PATH_LENGTH" "\<not> wide_length m 0 \<le> L"
  then have less: "L < length (takeWhile (\<lambda>c. c \<noteq> 0) ?xs)" unfolding wide_length_def by linarith
  have "takeWhile (\<lambda>c. c \<noteq> 0) ?xs ! L \<noteq> 0" using set_takeWhileD nth_mem [OF less] by fast
  moreover have "?xs ! L = m L" using \<open>L \<le> DOS_MAX_PATH_LENGTH\<close> by (simp add: nth_map del: upt_Suc)
  ultimately show False using takeWhile_nth [OF less] \<open>m L = 0\<close> by simp
qed

text \<open>The prefix replaces as many characters as the name has of them.\<close>

lemma nt_prefix_offset:
  assumes "nt_prefix (map m [0..<DOS_MAX_PATH_LENGTH + 1]) = (Prefix, off)" and "m L = 0"
  shows "off \<le> L \<and> off \<le> length Prefix"
proof -
  have p: "map m [0..<DOS_MAX_PATH_LENGTH + 1] ! k = m k" if "k < 4" for k using that by (simp add: nth_map del: upt_Suc)
  have at: "L \<noteq> k" if "m k \<noteq> 0" for k using that assms(2) by blast
  have sep: "m k \<noteq> 0" if "IS_PATH_SEPARATOR_U (m k)" for k using that by auto
  show ?thesis
  proof (cases "RtlDetermineDosPathNameType_U (map m [0..<DOS_MAX_PATH_LENGTH + 1])")
    case RtlPathTypeUncAbsolute
    then have "IS_PATH_SEPARATOR_U (m 0)" "IS_PATH_SEPARATOR_U (m 1)"
      by (auto simp: RtlDetermineDosPathNameType_U_def p split: if_splits)
    then have "L \<noteq> 0" "L \<noteq> 1" using at sep by blast+
    then show ?thesis using assms(1) RtlPathTypeUncAbsolute by (auto simp: nt_prefix_def)
  next
    case RtlPathTypeLocalDevice
    then have "IS_PATH_SEPARATOR_U (m 0)" "IS_PATH_SEPARATOR_U (m 1)" "m 2 = DOT \<or> m 2 = QUESTION" "IS_PATH_SEPARATOR_U (m 3)"
      by (simp_all add: RtlDetermineDosPathNameType_U_def p numeral_2_eq_2 split: if_splits)
    moreover from this(3) have "m 2 \<noteq> 0" by force
    ultimately have "IS_PATH_SEPARATOR_U (m 0)" "IS_PATH_SEPARATOR_U (m 1)" "m 2 \<noteq> 0" "IS_PATH_SEPARATOR_U (m 3)" by blast+
    then have "L \<noteq> 0" "L \<noteq> 1" "L \<noteq> 2" "L \<noteq> 3" using at sep by blast+
    then show ?thesis using assms(1) RtlPathTypeLocalDevice by (auto simp: nt_prefix_def)
  qed (use assms(1) in \<open>auto simp: nt_prefix_def\<close>)
qed

lemma next_drop: "drop (k + 1) xs = tl (drop k xs)"
  by (simp add: drop_Suc tl_drop)

text \<open>The name from its end on, without a backslash it may start with.\<close>

definition drop_slash :: "u16 list \<Rightarrow> u16 list" where
  "drop_slash p = (if p \<noteq> [] \<and> hd p = BACKSLASH then tl p else p)"

text \<open>A name that is reported as relative to the current directory is the end of the NT name: what is
  left of the full name when the text of the directory, which it starts with up to case, is taken away,
  and one backslash with it. Its length is that of this text, it comes with the handle of the directory,
  and with the reference on it if that is asked for.\<close>

theorem nt_relative_suffix:
  assumes "RtlpDosPathNameToRelativeNtPathName_Ustr env od alloc buf capture s after part rel = Some r"
    and "np_Relative r = Some rn" and "rn_Buffer rn = Some i"
    and "2 \<le> length (pe_Validated env)"
    and "length (pe_Validated env) < 4 \<Longrightarrow> \<forall>p. pe_Equal env (pe_Validated env) p \<longrightarrow> \<not> IS_PATH_SEPARATOR_U (p ! 0)"
  shows "\<exists>full P k. np_Name r = P @ drop k full \<and> pe_Equal env (pe_Validated env) (take (length (pe_Validated env)) full) \<and>
    drop i (np_Name r) = drop_slash (drop (length (pe_Validated env)) full) \<and> rn_Length rn = 2 * length (drop i (np_Name r)) \<and>
    rn_ContainingDirectory rn = od_Handle od \<and> rn_CurDirRef rn = (if capture then od_CurDirRef od else None)"
proof -
  define C where "C = pe_Validated env"
  obtain full where full: "RtlGetFullPathName_Ustr env s after (2 * DOS_MAX_PATH_LENGTH) part True buf = Some full"
    "fr_Length full \<noteq> 0" "fr_Length full \<le> 2 * DOS_MAX_PATH_LENGTH"
    "r = nt_from_full env od capture part rel full (2 * (DOS_MAX_PATH_LENGTH + 1) + 2 * length RtlpDosDevicesUncPrefix)"
    using assms by (auto simp: RtlpDosPathNameToRelativeNtPathName_Ustr_def nt_failure_def nt_win32_name_def no_relative_name_def
      Let_def split: if_splits option.splits)
  define m where "m = fr_Buffer full"
  define L where "L = fr_Length full div 2"
  obtain P off where P: "nt_prefix (map m [0..<DOS_MAX_PATH_LENGTH + 1]) = (P, off)" by fastforce
  define W where "W = P @ map m [off..<L] @ [0]"
  have rn: "rn = nt_relative_name env od capture full P off W" "rn_Buffer rn \<noteq> None"
    using assms(2,3) P [simplified]
    by (auto simp: full(4) nt_from_full_def m_def [symmetric] L_def [symmetric] W_def Let_def split: if_splits)
  have cond: "fr_Type full = RtlPathTypeRelative" "length C \<le> wide_length m 0" "pe_Equal env C (map m [0..<length C])"
    using rn(2) unfolding rn(1) nt_relative_name_def by (auto simp: Let_def no_relative_name_def m_def C_def split: if_splits)
  have z: "m L = 0" "fr_Length full = 2 * L"
    using full_path_terminated [OF full(1) _ _ full(3,2)] cond(1) by (auto simp: m_def L_def)
  have L: "L \<le> DOS_MAX_PATH_LENGTH" using full(3) by (simp add: L_def)
  have off: "off \<le> L" "off \<le> length P" "off \<le> 4" using nt_prefix_offset [OF P z(1)] P
    by (auto simp: nt_prefix_def split: rtl_path_type.splits)
  have CL: "length C \<le> L" using wide_length_le [of m L] z(1) L cond(2) by simp
  define F where "F = map m [0..<L]"
  have tC: "take (length C) F = map m [0..<length C]" using CL by (simp add: F_def take_map)
  have offC: "off \<le> length C"
  proof (cases "length C < 4")
    case True
    then have "\<not> IS_PATH_SEPARATOR_U (map m [0..<length C] ! 0)" using assms(5) cond(3) by (simp add: C_def)
    moreover have "map m [0..<length C] ! 0 = m 0" using assms(4) nth_map_upt [of 0 "length C" 0 m] by (cases "length C") (simp_all add: C_def del: upt_Suc)
    ultimately have "\<not> IS_PATH_SEPARATOR_U (m 0)" by simp
    then have "off = 0" using P
      by (auto simp: nt_prefix_def RtlDetermineDosPathNameType_U_def nth_map simp del: upt_Suc split: rtl_path_type.splits if_splits)
    then show ?thesis by simp
  qed (use off in simp)
  have name: "np_Name r = P @ drop off F" "length F = L"
    using P [simplified] off z(2) by (simp_all add: full(4) np_Name_def nt_from_full_def m_def [symmetric] Let_def F_def drop_map)
  define B where "B = length P - off + length C"
  have dB: "drop B (P @ drop off F) = drop (length C) F" using off(2) offC by (simp add: B_def)
  have WB: "W ! B = BACKSLASH \<longleftrightarrow> drop (length C) F \<noteq> [] \<and> hd (drop (length C) F) = BACKSLASH"
  proof -
    have W: "W = (P @ drop off F) @ [0]" by (simp add: W_def F_def drop_map)
    have "W ! B = hd (drop B W)"
      by (rule hd_drop_conv_nth [symmetric]) (use off CL name(2) offC in \<open>simp add: W B_def\<close>)
    also have "drop B W = drop (length C) F @ [0]" using dB off CL name(2) offC by (simp add: W B_def)
    finally show ?thesis by (cases "drop (length C) F = []") (simp_all add: hd_append)
  qed
  have rnv: "rn = \<lparr>rn_Buffer = Some (if W ! B = BACKSLASH then B + 1 else B),
      rn_Length = (if W ! B = BACKSLASH then 2 * L - 2 * length C - 2 else 2 * L - 2 * length C),
      rn_ContainingDirectory = od_Handle od, rn_CurDirRef = (if capture then od_CurDirRef od else None)\<rparr>"
    using rn(2) unfolding rn(1) nt_relative_name_def
    by (auto simp: Let_def no_relative_name_def C_def [symmetric] B_def [symmetric] z(2) split: if_splits)
  have i: "i = (if W ! B = BACKSLASH then B + 1 else B)" using assms(3) by (simp add: rnv)
  have tail: "drop i (np_Name r) = drop_slash (drop (length C) F)"
    unfolding i drop_slash_def WB [symmetric] name(1) using dB next_drop [of B "P @ drop off F"] by simp
  have len: "rn_Length rn = 2 * length (drop i (np_Name r))"
    unfolding tail drop_slash_def WB [symmetric] using name(2) by (auto simp: rnv diff_mult_distrib2)
  have eq: "pe_Equal env C (take (length C) F)" using cond(3) tC by simp
  have "rn_ContainingDirectory rn = od_Handle od \<and> rn_CurDirRef rn = (if capture then od_CurDirRef od else None)"
    by (simp add: rnv)
  with name(1) eq tail len show ?thesis unfolding C_def by blast
qed

section \<open>The buffer of the name\<close>

lemma full_path_no_device:
  assumes "RtlGetFullPathName_Ustr env s after n part invalid m = Some r" and "RtlIsDosDeviceName_Ustr (pe_Equal env) s = 0"
  shows "\<not> fr_NameInvalid r \<and> (fr_Length r = 0 \<or> fr_Type r = RtlDetermineDosPathNameType_Ustr s)"
proof -
  have tail: "\<not> fr_NameInvalid r \<and> fr_Type r = RtlDetermineDosPathNameType_Ustr s" if "full_path_tail s after part px m d = Some r"
    for px m d using that by (auto simp: full_path_tail_def split: option.splits prod.splits)
  have "\<not> fr_NameInvalid r \<and> fr_Type r = RtlDetermineDosPathNameType_Ustr s" if "full_path_prefixed s after n part px m = Some r"
    for n px m using that by (auto simp: full_path_prefixed_def Let_def tail split: if_splits)
  then show ?thesis using assms
    by (auto simp: RtlGetFullPathName_Ustr_def Let_def split: if_splits sum.splits)
qed

lemma rstrip_append: "xs \<noteq> [] \<Longrightarrow> \<not> P (last xs) \<Longrightarrow> rstrip P (xs @ ys) = xs @ rstrip P ys"
proof (induction ys rule: rev_induct)
  case Nil
  then show ?case by (cases xs rule: rev_cases) simp_all
next
  case (snoc y ys)
  then show ?case by (simp add: append_assoc [symmetric] del: append_assoc)
qed

lemma canonical_path_root: "2 \<le> length s \<Longrightarrow> \<exists>q. canonical_path s = take 2 s @ BACKSLASH # q"
proof -
  assume s: "2 \<le> length s"
  define st where "st = walk_path [] (split_path (drop 3 s))"
  define X where "X = concat (map (\<lambda>c. c @ [BACKSLASH]) st)"
  have "canonical_path s = rstrip (\<lambda>c. c = SPACE \<or> c = DOT) ((take 2 s @ [BACKSLASH]) @
      (if st \<noteq> [] \<and> \<not> IS_PATH_SEPARATOR_U (last s) then butlast X else X))"
    by (cases st) (simp_all add: canonical_path_def path_text_def Let_def st_def [symmetric] X_def butlast_append)
  then show ?thesis by (subst (asm) rstrip_append) simp_all
qed

text \<open>The canonical path is not longer than the name.\<close>

abbreviation text_size :: "u16 list list \<Rightarrow> nat" where "text_size st \<equiv> length (concat (map (\<lambda>c. c @ [BACKSLASH]) st))"

lemma text_size_butlast: "text_size (butlast st) \<le> text_size st"
  by (cases st rule: rev_cases) simp_all

lemma walk_path_size: "text_size (walk_path st cs) + of_bool (cs \<noteq> [] \<and> last cs = []) \<le> text_size st + text_size cs"
proof (induction st cs rule: walk_path.induct)
  case (2 st c cs)
  then show ?case using text_size_butlast [of st] by (auto simp: Let_def)
qed simp

lemma split_path_size: "text_size (split_path t) = length t + 1"
proof (induction t)
  case (Cons c t)
  then show ?case by (cases "split_path t") simp_all
qed simp

lemma split_path_final: "t \<noteq> [] \<Longrightarrow> IS_PATH_SEPARATOR_U (last t) \<Longrightarrow> \<exists>xs. xs \<noteq> [] \<and> split_path t = xs @ [[]]"
proof (induction t)
  case (Cons c t)
  show ?case
  proof (cases "t = []")
    case True
    then show ?thesis using Cons.prems by (intro exI [of _ "[[]]"]) simp
  next
    case False
    then obtain xs where "xs \<noteq> []" "split_path t = xs @ [[]]" using Cons by auto
    then show ?thesis
      by (intro exI [of _ "if IS_PATH_SEPARATOR_U c then [] # xs else (c # hd xs) # tl xs"]) simp
  qed
qed simp

lemma split_path_last: "t = [] \<or> IS_PATH_SEPARATOR_U (last t) \<Longrightarrow> last (split_path t) = []"
  using split_path_final [of t] by (cases "t = []") auto

lemma canonical_path_size:
  assumes "RtlDetermineDosPathNameType_Ustr s = RtlPathTypeDriveAbsolute"
  shows "length (canonical_path s) \<le> length s"
proof -
  obtain x sep t where s: "s = x # COLON # sep # t" "IS_PATH_SEPARATOR_U sep"
    using drive_absolute_cases [OF assms] by metis
  define st where "st = walk_path [] (split_path t)"
  define p where "p = path_text (take 2 s @ [BACKSLASH]) st"
  have size: "text_size st + of_bool (last (split_path t) = []) \<le> length t + 1"
    using walk_path_size [of "[]" "split_path t"] split_path_size [of t] by (simp add: st_def)
  have p: "length p = 3 + text_size st" by (simp add: p_def path_text_def s(1))
  have bound: "length (if st \<noteq> [] \<and> \<not> IS_PATH_SEPARATOR_U (last s) then butlast p else p) \<le> length s"
  proof (cases "IS_PATH_SEPARATOR_U (last s)")
    case True
    then have "last (split_path t) = []" using s by (intro split_path_last) (auto split: if_splits)
    then show ?thesis using size p s True by simp
  next
    case False
    then show ?thesis using size p s by (cases "st = []") auto
  qed
  have can: "canonical_path s = rstrip (\<lambda>c. c = SPACE \<or> c = DOT)
      (if st \<noteq> [] \<and> \<not> IS_PATH_SEPARATOR_U (last s) then butlast p else p)"
    by (simp add: canonical_path_def p_def st_def s(1) Let_def)
  show ?thesis unfolding can by (rule le_trans [OF length_rstrip bound])
qed

lemma np_Name_exact: "np_Written r = xs @ [0] \<Longrightarrow> np_Length r = 2 * length xs \<Longrightarrow> np_Name r = xs"
  by (simp add: np_Name_def)

text \<open>What the routine returns for an absolute name with a drive: the prefix and the canonical path.\<close>

lemma nt_path_drive:
  assumes "RtlDetermineDosPathNameType_Ustr s = RtlPathTypeDriveAbsolute" and "s ! 0 \<noteq> 0" and "s ! 0 \<noteq> DOT"
    and "RtlIsDosDeviceName_Ustr (pe_Equal env) s = 0"
    and "\<forall>c\<in>set (split_path (drop 3 s)). regular_component c" and "\<not> IS_PATH_SEPARATOR_U after"
    and "length s < DOS_MAX_PATH_LENGTH" and "alloc (2 * (DOS_MAX_PATH_LENGTH + 1))"
  obtains r where "RtlpDosPathNameToRelativeNtPathName_Ustr env od alloc buf capture s after part rel = Some r"
    and "np_Return r" and "np_Allocated r = 2 * (DOS_MAX_PATH_LENGTH + 1)"
    and "np_Written r = RtlpDosDevicesPrefix @ canonical_path s @ [0]" and "np_Length r = 2 * (4 + length (canonical_path s))"
proof -
  obtain x sep t where s: "s = x # COLON # sep # t" "\<not> IS_PATH_SEPARATOR_U x" "IS_PATH_SEPARATOR_U sep"
    using drive_absolute_cases [OF assms(1)] .
  define C where "C = canonical_path s"
  have "full_path_text (RtlGetFullPathName_Ustr env s after (2 * DOS_MAX_PATH_LENGTH) part True buf) = Some C"
    unfolding C_def by (rule full_path_canonical) (use assms in simp_all)
  then obtain full where full: "RtlGetFullPathName_Ustr env s after (2 * DOS_MAX_PATH_LENGTH) part True buf = Some full"
    "map (fr_Buffer full) [0..<fr_Length full div 2] = C" by (auto simp: full_path_text_def)
  obtain q where q: "C = x # COLON # BACKSLASH # q" using canonical_path_root [of s] s(1) by (auto simp: C_def)
  have L: "fr_Length full div 2 = length C" using full(2) by (metis length_map length_upt minus_nat.diff_0)
  then have pos: "fr_Length full \<noteq> 0" using q by auto
  have info: "\<not> fr_NameInvalid full" "fr_Type full = RtlPathTypeDriveAbsolute"
    using full_path_no_device [OF full(1) assms(4)] pos assms(1) by auto
  have "length C < DOS_MAX_PATH_LENGTH" using canonical_path_size [OF assms(1)] assms(7) by (simp add: C_def)
  then have le: "fr_Length full \<le> 2 * DOS_MAX_PATH_LENGTH" using L by linarith
  have even: "fr_Length full = 2 * length C"
    using full_path_terminated [OF full(1) _ _ le pos] info(2) L by auto
  have win32: "\<not> is_win32_name s" using s by (auto simp: is_win32_name_def)
  define m where "m = fr_Buffer full"
  have mi: "m i = C ! i" if "i < length C" for i 
    using arg_cong [OF full(2), of "\<lambda>xs. xs ! i"] L that by (simp add: m_def)
  have m: "m 0 = x" "m 1 = COLON" "m 2 = BACKSLASH" using mi [of 0] mi [of 1] mi [of 2] q by simp_all
  have "nt_prefix (map m [0..<DOS_MAX_PATH_LENGTH + 1]) = (RtlpDosDevicesPrefix, 0)"
  proof -
    have "map m [0..<DOS_MAX_PATH_LENGTH + 1] ! k = m k" if "k < 4" for k using that by (simp add: nth_map del: upt_Suc)
    then have "RtlDetermineDosPathNameType_U (map m [0..<DOS_MAX_PATH_LENGTH + 1]) = RtlPathTypeDriveAbsolute"
      using m s assms(2) by (simp add: RtlDetermineDosPathNameType_U_def numeral_2_eq_2)
    then show ?thesis by (simp add: nt_prefix_def)
  qed
  then show ?thesis
    using that [of "nt_from_full env od capture part rel full (2 * (DOS_MAX_PATH_LENGTH + 1) + 2 * length RtlpDosDevicesUncPrefix)"]
      full win32 info(1) pos le assms(8) even
    by (simp add: RtlpDosPathNameToRelativeNtPathName_Ustr_def nt_from_full_def m_def [symmetric] C_def [symmetric] Let_def)
qed

text \<open>For an absolute name with a drive the NT name is the prefix of the object directory and the canonical
  path.\<close>

theorem nt_path_canonical:
  assumes "RtlDetermineDosPathNameType_Ustr s = RtlPathTypeDriveAbsolute" and "s ! 0 \<noteq> 0" and "s ! 0 \<noteq> DOT"
    and "RtlIsDosDeviceName_Ustr (pe_Equal env) s = 0"
    and "\<forall>c\<in>set (split_path (drop 3 s)). regular_component c" and "\<not> IS_PATH_SEPARATOR_U after"
    and "length s < DOS_MAX_PATH_LENGTH" and "alloc (2 * (DOS_MAX_PATH_LENGTH + 1))"
  shows "map_option np_Name (RtlpDosPathNameToRelativeNtPathName_Ustr env od alloc buf capture s after part rel) =
    Some (RtlpDosDevicesPrefix @ canonical_path s)"
  by (rule nt_path_drive [where env = env and od = od and alloc = alloc and buf = buf and capture = capture and part = part and rel = rel, OF assms])
    (auto intro: np_Name_exact [of _ "RtlpDosDevicesPrefix @ canonical_path s", simplified])

text \<open>C26: The buffer of the name is allocated before the prefix is taken into account. For a name of fewer than
  260 characters that is absolute with a drive, is no device name and has no component that starts with a dot
  but \<open>.\<close> and \<open>..\<close>, the routine returns and has written beyond the end of the buffer exactly when the canonical
  path has more than 256 characters.\<close>

theorem nt_path_overrun:
  assumes "RtlDetermineDosPathNameType_Ustr s = RtlPathTypeDriveAbsolute" and "s ! 0 \<noteq> 0" and "s ! 0 \<noteq> DOT"
    and "RtlIsDosDeviceName_Ustr (pe_Equal env) s = 0"
    and "\<forall>c\<in>set (split_path (drop 3 s)). regular_component c" and "\<not> IS_PATH_SEPARATOR_U after"
    and "length s < DOS_MAX_PATH_LENGTH" and "alloc (2 * (DOS_MAX_PATH_LENGTH + 1))"
  shows "map_option (\<lambda>r. np_Allocated r < 2 * length (np_Written r))
      (RtlpDosPathNameToRelativeNtPathName_Ustr env od alloc buf capture s after part rel) = Some (256 < length (canonical_path s))"
  by (rule nt_path_drive [where env = env and od = od and alloc = alloc and buf = buf and capture = capture and part = part and rel = rel, OF assms])
    auto

definition process_directory :: open_directory where
  "process_directory = \<lparr>od_Handle = 4, od_CurDirRef = Some 1\<rparr>"

theorem nt_path_canonical_witness:
  "map_option np_Name (RtlpDosPathNameToRelativeNtPathName_Ustr demo_env process_directory (\<lambda>_. True) (\<lambda>_. 7) True
      [67, COLON, SLASH, 97, SLASH, DOT, DOT, BACKSLASH, 99] 0 True True) =
    Some (RtlpDosDevicesPrefix @ [67, COLON, BACKSLASH, 99])"
proof -
  let ?s = "[67, COLON, SLASH, 97, SLASH, DOT, DOT, BACKSLASH, 99] :: u16 list"
  have "RtlDetermineDosPathNameType_Ustr ?s = RtlPathTypeDriveAbsolute" by code_simp
  moreover have "RtlIsDosDeviceName_Ustr (pe_Equal demo_env) ?s = 0" by code_simp
  moreover have "\<forall>c\<in>set (split_path (drop 3 ?s)). regular_component c" by code_simp
  moreover have "canonical_path ?s = [67, COLON, BACKSLASH, 99]" by code_simp
  ultimately show ?thesis
    using nt_path_canonical [of ?s demo_env 0 "\<lambda>_. True" process_directory "\<lambda>_. 7" True True True] by simp
qed

text \<open>A name of 258 characters, of one long component.\<close>

definition long_name :: "u16 list" where
  "long_name = [67, COLON, BACKSLASH] @ replicate 255 120"

lemma split_path_plain: "\<not> IS_PATH_SEPARATOR_U x \<Longrightarrow> split_path (replicate n x) = [replicate n x]"
  by (induction n) simp_all

lemma rstrip_stays: "xs \<noteq> [] \<Longrightarrow> \<not> P (last xs) \<Longrightarrow> rstrip P xs = xs"
  by (cases xs rule: rev_cases) simp_all

lemma device_sep_plain: "(\<And>i. k \<le> i \<Longrightarrow> i < k + n \<Longrightarrow> \<not> IS_PATH_SEPARATOR_U (s ! i) \<and> s ! i \<noteq> COLON) \<Longrightarrow>
    device_sep s (k + n) = device_sep s k"
proof (induction n)
  case (Suc n)
  then show ?case using Suc.prems [of "k + n"] by (auto simp: IS_PATH_SEPARATOR_U_def)
qed simp

lemma long_name_no_device: "RtlIsDosDeviceName_Ustr eq long_name = 0"
proof -
  have x: "\<not> IS_PATH_SEPARATOR_U 120" by (simp add: IS_PATH_SEPARATOR_U_def)
  have at: "long_name ! i = 120" if "3 \<le> i" "i < 3 + 255" for i
    using that by (simp add: long_name_def nth_append)
  have first: "long_name ! 0 = 67" "long_name ! 1 = COLON" "long_name ! 2 = BACKSLASH" by (simp_all add: long_name_def)
  have type: "RtlDetermineDosPathNameType_Ustr long_name = RtlPathTypeDriveAbsolute"
    by (simp add: RtlDetermineDosPathNameType_Ustr_def long_name_def IS_PATH_SEPARATOR_U_def)
  have "device_sep long_name (3 + 255) = device_sep long_name (Suc 2)"
    using device_sep_plain [of 3 255 long_name] at x by simp
  moreover have "device_sep long_name (Suc 2) = Some 3" using first by (simp only: device_sep.simps) simp
  ultimately have sep: "device_sep long_name 258 = Some 3" by simp
  have strip: "device_strip long_name 258 0 = (258, 0)"
    using at [of 257] device_strip.simps(2) [of long_name 257 0] by simp
  have "length long_name = 258" by (simp add: long_name_def)
  then show ?thesis using type at [of 257] at [of 3] sep strip
    by (simp add: RtlIsDosDeviceName_Ustr_def device_letter_def Let_def)
qed

lemma long_name_path: "split_path (drop 3 long_name) = [replicate 255 120]" "canonical_path long_name = long_name"
proof -
  have x: "\<not> IS_PATH_SEPARATOR_U 120" "last (replicate 255 (120 :: u16)) = 120" by (simp_all add: IS_PATH_SEPARATOR_U_def)
  show split: "split_path (drop 3 long_name) = [replicate 255 120]"
    using split_path_plain [OF x(1), of 255] by (simp add: long_name_def)
  have "hd (replicate 255 (120 :: u16)) = 120" by (simp)
  then have n: "replicate 255 (120 :: u16) \<noteq> []" "replicate 255 (120 :: u16) \<noteq> [DOT]" "replicate 255 (120 :: u16) \<noteq> [DOT, DOT]" by force+
  show "canonical_path long_name = long_name"
    unfolding canonical_path_def split using n x
    by (simp add: path_text_def long_name_def butlast_append rstrip_stays)
qed

theorem nt_path_overrun_witness:
  "map_option (\<lambda>r. np_Allocated r < 2 * length (np_Written r))
      (RtlpDosPathNameToRelativeNtPathName_Ustr demo_env process_directory (\<lambda>_. True) (\<lambda>_. 7) True long_name 0 True True) = Some True"
proof -
  have "RtlDetermineDosPathNameType_Ustr long_name = RtlPathTypeDriveAbsolute"
    by (simp add: RtlDetermineDosPathNameType_Ustr_def long_name_def IS_PATH_SEPARATOR_U_def)
  moreover have "RtlIsDosDeviceName_Ustr (pe_Equal demo_env) long_name = 0" by (rule long_name_no_device)
  moreover have "\<forall>c\<in>set (split_path (drop 3 long_name)). regular_component c"
    by (simp add: long_name_path regular_component_def)
  moreover have "length long_name = 258" "long_name ! 0 = 67" by (simp_all add: long_name_def)
  ultimately show ?thesis
    using nt_path_overrun [of long_name demo_env 0 "\<lambda>_. True" process_directory "\<lambda>_. 7" True True True] by (simp add: long_name_path)
qed

text \<open>In the directory \<open>C:\\<close> the name \<open>a\<close> is relative.\<close>

definition root_env :: path_env where
  "root_env = demo_env\<lparr>pe_CurDir := [67, COLON, BACKSLASH], pe_Validated := [67, COLON, BACKSLASH]\<rparr>"

lemma root_full_path:
  obtains full where "RtlGetFullPathName_Ustr root_env [97] 0 (2 * DOS_MAX_PATH_LENGTH) part True (\<lambda>_. 7) = Some full"
    and "fr_Type full = RtlPathTypeRelative" and "fr_Length full = 8" and "\<not> fr_NameInvalid full"
    and "fr_Buffer full 0 = 67" and "fr_Buffer full 1 = COLON" and "fr_Buffer full 2 = BACKSLASH" and "fr_Buffer full 3 = 97"
proof -
  have type: "RtlDetermineDosPathNameType_Ustr [97] = RtlPathTypeRelative" by code_simp
  have dev: "RtlIsDosDeviceName_Ustr (pe_Equal root_env) [97] = 0" by code_simp
  have B: "RtlpComputeBackupIndex [67, COLON, BACKSLASH] = 3" by code_simp
  have env: "pe_Validated root_env = [67, COLON, BACKSLASH]" by (simp add: root_env_def)
  define m0 :: cells where "m0 = (\<lambda>x. if x < 260 then 0 else 7)"
  define px where "px = \<lparr>px_Prefix = [67, COLON, BACKSLASH], px_InPlace = False, px_SourceLength = 0, px_BackupIndex = 3,
    px_Source = 0, px_PathNameLength = 2\<rparr>"
  define m1 where "m1 = (write_cells 0 [67, COLON, BACKSLASH] m0)(3 := 0)"
  have src: "path_source [97] 0 0 = 97" "path_source [97] 0 (Suc 0) = 0" "\<not> IS_PATH_SEPARATOR_U 97"
    by (simp_all add: path_source_def IS_PATH_SEPARATOR_U_def)
  have c: "copy_cells (path_source [97] 0) 0 3 1 m1 = m1(3 := 97)" using src by (auto simp: copy_cells_def fun_eq_iff)
  have l: "path_loop 3 1 (path_source [97] 0) 0 0 m1 3 = Some (m1(3 := 97), 4)"
    using path_loop_component [of 1 0 "path_source [97] 0" 0 3 m1 3] src c by (simp add: path_loop_done)
  have f: "path_finish True 3 (m1(3 := 97)) 4 = ((m1(3 := 97))(4 := 0), 4)"
    using path_trim.simps(2) [of "(m1(3 := 97))(4 := 0)" 3] by (simp add: path_finish_def)
  have "RtlGetFullPathName_Ustr root_env [97] 0 (2 * DOS_MAX_PATH_LENGTH) part True (\<lambda>_. 7) = full_path_prefixed [97] 0 520 part px m0"
    using dev by (simp add: RtlGetFullPathName_Ustr_def type path_prefix_of_def env B Let_def m0_def px_def)
  also have "\<dots> = full_path_tail [97] 0 part px (write_cells 0 [67, COLON, BACKSLASH] m0) 3"
    by (simp add: full_path_prefixed_def px_def norm_separator_def Let_def numeral_3_eq_3)
  finally have eq: "RtlGetFullPathName_Ustr root_env [97] 0 (2 * DOS_MAX_PATH_LENGTH) part True (\<lambda>_. 7) =
      full_path_tail [97] 0 part px (write_cells 0 [67, COLON, BACKSLASH] m0) 3" .
  show ?thesis using l f that unfolding eq full_path_tail_def
    by (simp add: px_def type m1_def [symmetric] src(3)) (simp add: m1_def)
qed

lemma wide_length_ge: "(\<And>i. i < k \<Longrightarrow> m i \<noteq> 0) \<Longrightarrow> k \<le> DOS_MAX_PATH_LENGTH \<Longrightarrow> k \<le> wide_length m 0"
proof -
  assume m: "\<And>i. i < k \<Longrightarrow> m i \<noteq> 0" and k: "k \<le> DOS_MAX_PATH_LENGTH"
  have "map m [0..<DOS_MAX_PATH_LENGTH + 1] = map m [0..<k] @ map m [k..<DOS_MAX_PATH_LENGTH + 1]"
    using k upt_add_eq_append [of 0 k "DOS_MAX_PATH_LENGTH + 1 - k"] by (simp flip: map_append del: upt_Suc)
  moreover have "takeWhile (\<lambda>c. c \<noteq> 0) (map m [0..<k] @ xs) = map m [0..<k] @ takeWhile (\<lambda>c. c \<noteq> 0) xs" for xs
    by (rule takeWhile_append2) (use m in auto)
  ultimately show ?thesis unfolding wide_length_def by (metis le_add1 length_append length_map length_upt minus_nat.diff_0)
qed

lemma root_relative_name:
  obtains r rn i where "RtlpDosPathNameToRelativeNtPathName_Ustr root_env process_directory (\<lambda>_. True) (\<lambda>_. 7) True [97] 0 False True = Some r"
    and "np_Relative r = Some rn" and "rn_Buffer rn = Some i"
proof -
  obtain full where full: "RtlGetFullPathName_Ustr root_env [97] 0 (2 * DOS_MAX_PATH_LENGTH) False True (\<lambda>_. 7) = Some full"
    "fr_Type full = RtlPathTypeRelative" "fr_Length full = 8" "\<not> fr_NameInvalid full"
    "fr_Buffer full 0 = 67" "fr_Buffer full 1 = COLON" "fr_Buffer full 2 = BACKSLASH" "fr_Buffer full 3 = 97"
    by (rule root_full_path)
  have "3 \<le> wide_length (fr_Buffer full) 0"
  proof (rule wide_length_ge)
    fix i :: nat
    assume "i < 3"
    then consider "i = 0" | "i = 1" | "i = 2" by linarith
    then show "fr_Buffer full i \<noteq> 0" by cases (use full(5-7) in simp_all)
  qed simp
  moreover have "map (fr_Buffer full) [0..<3] = [67, COLON, BACKSLASH]"
    using full(5-7) by (simp add: upt_conv_Cons numeral_2_eq_2 [symmetric])
  moreover have l: "length (pe_Validated root_env) = 3" by (simp add: root_env_def)
  ultimately have "pe_Equal root_env (pe_Validated root_env) (map (fr_Buffer full) [0..<length (pe_Validated root_env)])"
    "length (pe_Validated root_env) \<le> wide_length (fr_Buffer full) 0"
    unfolding l by (simp_all add: root_env_def demo_env_def)
  then have "rn_Buffer (nt_relative_name root_env process_directory True full P k W) \<noteq> None" for P k W
    using full(2) by (simp add: nt_relative_name_def process_directory_def Let_def)
  note rel = this
  obtain P k where P: "nt_prefix (map (fr_Buffer full) [0..<261]) = (P, k)" by fastforce
  obtain i where i: "rn_Buffer (nt_relative_name root_env process_directory True full P k
      (P @ map (fr_Buffer full) [k..<4] @ [0])) = Some i" using rel by blast
  show ?thesis
    using full(1,3,4) P
    by (intro that [OF _ _ i], simp add: RtlpDosPathNameToRelativeNtPathName_Ustr_def is_win32_name_def nt_from_full_def Let_def) simp
qed

theorem nt_relative_suffix_witness:
  "\<exists>r rn i full P k. RtlpDosPathNameToRelativeNtPathName_Ustr root_env process_directory (\<lambda>_. True) (\<lambda>_. 7) True [97] 0 False True = Some r \<and>
    np_Relative r = Some rn \<and> np_Name r = P @ drop k full \<and> [67, COLON, BACKSLASH] = take (length (pe_Validated root_env)) full \<and>
    drop i (np_Name r) = drop_slash (drop (length (pe_Validated root_env)) full)"
proof -
  obtain r rn i where r: "RtlpDosPathNameToRelativeNtPathName_Ustr root_env process_directory (\<lambda>_. True) (\<lambda>_. 7) True [97] 0 False True = Some r"
    "np_Relative r = Some rn" "rn_Buffer rn = Some i" by (rule root_relative_name)
  have env: "pe_Validated root_env = [67, COLON, BACKSLASH]" "pe_Equal root_env (pe_Validated root_env) p \<longleftrightarrow> [67, COLON, BACKSLASH] = p" for p
    by (simp_all add: root_env_def demo_env_def)
  have "2 \<le> length (pe_Validated root_env)" "\<forall>p. pe_Equal root_env (pe_Validated root_env) p \<longrightarrow> \<not> IS_PATH_SEPARATOR_U (p ! 0)"
    unfolding env(2) by (auto simp: env(1) IS_PATH_SEPARATOR_U_def)
  from nt_relative_suffix [OF r this] r show ?thesis unfolding env(2) by blast
qed

end
