(* ===== verification/SearchPath.thy ===== *)
theory SearchPath
  imports NtPath
begin

text \<open>
  Looking for files (src/ntdll/curdir.c): \<open>RtlDoesFileExists_UstrEx\<close> on the NT names of theory NtPath, and
  \<open>RtlDosSearchPath_U\<close>, which tries the directories of a path one after the other.
\<close>

abbreviation SEMICOLON :: u16 where "SEMICOLON \<equiv> 59"
abbreviation STATUS_SHARING_VIOLATION :: ntstatus where "STATUS_SHARING_VIOLATION \<equiv> 0xC0000043"
abbreviation STATUS_ACCESS_DENIED :: ntstatus where "STATUS_ACCESS_DENIED \<equiv> 0xC0000022"

section \<open>Whether a file exists\<close>

text \<open>\<open>query\<close> is the kernel's \<open>ZwQueryFullAttributesFile\<close>, on a name and the directory it is relative to.\<close>

definition RtlDoesFileExists_UstrEx ::
  "path_env \<Rightarrow> open_directory \<Rightarrow> (nat \<Rightarrow> bool) \<Rightarrow> cells \<Rightarrow> (u16 list \<Rightarrow> nat \<Rightarrow> ntstatus) \<Rightarrow> u16 list \<Rightarrow> bool \<Rightarrow> bool option" where
  "RtlDoesFileExists_UstrEx env od alloc buf query s TreatDeniedOrSharingAsHit =
     map_option (\<lambda>r.
       if \<not> np_Return r then False
       else
         let rel = (case np_Relative r of None \<Rightarrow> no_relative_name | Some rel \<Rightarrow> rel);
             Status = (case rn_Buffer rel of
                 Some i \<Rightarrow> if rn_Length rel \<noteq> 0
                   then query (take (rn_Length rel div 2) (drop i (np_Written r))) (rn_ContainingDirectory rel)
                   else query (np_Name r) 0
               | None \<Rightarrow> query (np_Name r) 0)
         in if NT_SUCCESS Status then True
            else if Status = STATUS_SHARING_VIOLATION \<or> Status = STATUS_ACCESS_DENIED then TreatDeniedOrSharingAsHit
            else False)
       (RtlpDosPathNameToRelativeNtPathName_Ustr env od alloc buf True s 0 False True)"

section \<open>The search\<close>

text \<open>The next directory of the path, and what is left behind its separator.\<close>

definition search_next :: "u16 list \<Rightarrow> u16 list \<times> u16 list" where
  "search_next lpPath = (takeWhile (\<lambda>c. c \<noteq> SEMICOLON) lpPath, drop 1 (dropWhile (\<lambda>c. c \<noteq> SEMICOLON) lpPath))"

definition search_candidate :: "u16 list \<Rightarrow> u16 list \<Rightarrow> u16 list" where
  "search_candidate directory name =
     directory @ (if directory \<noteq> [] \<and> last directory \<noteq> BACKSLASH then [BACKSLASH] else []) @ name"

text \<open>The names that are tried, and the one that exists. The path is given up when nothing is left of it.\<close>

function search_loop :: "(u16 list \<Rightarrow> bool) \<Rightarrow> u16 list \<Rightarrow> u16 list \<Rightarrow> u16 list list \<times> u16 list option" where
  "search_loop exist name lpPath =
     (case search_next lpPath of (directory, rest) \<Rightarrow>
        let FileName = search_candidate directory name in
        if exist FileName then ([FileName], Some FileName)
        else if rest = [] then ([FileName], None)
        else case search_loop exist name rest of (tried, hit) \<Rightarrow> (FileName # tried, hit))"
  by pat_completeness auto
termination
proof (relation "measure (\<lambda>(exist, name, lpPath). length lpPath)", goal_cases)
  case 2
  have "snd (search_next p) \<noteq> [] \<Longrightarrow> length (snd (search_next p)) < length p" for p
    using length_dropWhile_le [of "\<lambda>c. c \<noteq> SEMICOLON" p] by (cases "dropWhile (\<lambda>c. c \<noteq> SEMICOLON) p") (auto simp: search_next_def)
  with 2 show ?case by (metis in_measure prod.case snd_conv)
qed simp

declare search_loop.simps [simp del]

text \<open>The extension is used when the name has no dot.\<close>

definition search_extension :: "u16 list \<Rightarrow> u16 list option \<Rightarrow> u16 list" where
  "search_extension lpFileName lpExtension =
     (if DOT \<in> set lpFileName then [] else case lpExtension of None \<Rightarrow> [] | Some x \<Rightarrow> x)"

text \<open>The result of the search: the size of the buffer the names are built in, the names, and what
  \<open>RtlGetFullPathName_Ustr\<close> returns for the one that exists.\<close>

record search_result =
  sr_Allocated :: nat
  sr_Tried :: "u16 list list"
  sr_Full :: "full_path_result option option"

definition RtlDosSearchPath_U ::
  "path_env \<Rightarrow> (nat \<Rightarrow> bool) \<Rightarrow> (u16 list \<Rightarrow> bool \<Rightarrow> bool) \<Rightarrow> u16 list \<Rightarrow> u16 list \<Rightarrow> u16 list option \<Rightarrow> nat \<Rightarrow> cells \<Rightarrow> search_result" where
  "RtlDosSearchPath_U env alloc exist lpPath lpFileName lpExtension nBufferLength lpBuffer =
     (if RtlDetermineDosPathNameType_U (lpFileName @ [0]) \<noteq> RtlPathTypeRelative then
        \<lparr>sr_Allocated = 0, sr_Tried = [],
          sr_Full = (if exist lpFileName True then Some (RtlGetFullPathName_Ustr env lpFileName 0 nBufferLength True False lpBuffer) else None)\<rparr>
      else
        let name = lpFileName @ search_extension lpFileName lpExtension;
            MaximumLength = (2 * length lpPath + 2 * length name + 6) mod 65536
        in if \<not> alloc MaximumLength then \<lparr>sr_Allocated = 0, sr_Tried = [], sr_Full = None\<rparr>
           else case search_loop (\<lambda>s. exist s False) name lpPath of (tried, hit) \<Rightarrow>
             \<lparr>sr_Allocated = MaximumLength, sr_Tried = tried,
               sr_Full = map_option (\<lambda>s. RtlGetFullPathName_Ustr env s 0 nBufferLength True False lpBuffer) hit\<rparr>)"

section \<open>The reference\<close>

fun split_list :: "u16 list \<Rightarrow> u16 list list" where
  "split_list [] = [[]]"
| "split_list (c # cs) = (if c = SEMICOLON then [] # split_list cs else (c # hd (split_list cs)) # tl (split_list cs))"

text \<open>A separator at the end does not start another directory.\<close>

definition search_directories :: "u16 list \<Rightarrow> u16 list list" where
  "search_directories lpPath =
     (let ds = split_list lpPath in if 1 < length ds \<and> last ds = [] then butlast ds else ds)"

lemma split_list_not_Nil [simp]: "split_list p \<noteq> []"
  by (cases p) auto

lemma split_list_next:
  "split_list p = fst (search_next p) # (if dropWhile (\<lambda>c. c \<noteq> SEMICOLON) p = [] then [] else split_list (snd (search_next p)))"
  by (induction p) (auto simp: search_next_def)

lemma split_list_single: "split_list p = [[]] \<longleftrightarrow> p = []"
  by (cases p) auto

lemma search_directories_next:
  "search_directories p = fst (search_next p) # (if snd (search_next p) = [] then [] else search_directories (snd (search_next p)))"
proof (cases "dropWhile (\<lambda>c. c \<noteq> SEMICOLON) p = []")
  case True
  then have "snd (search_next p) = []" unfolding search_next_def snd_conv True by simp
  then show ?thesis using True by (simp add: search_directories_def split_list_next [of p])
next
  case False
  define r where "r = snd (search_next p)"
  have "split_list p = fst (search_next p) # split_list r" 
    unfolding split_list_next [of p] if_not_P [OF False] r_def by (rule refl)
  then show ?thesis unfolding r_def [symmetric]
    by (cases "r = []"; cases "split_list r" rule: rev_cases) (auto simp: search_directories_def Let_def split_list_single)
qed

text \<open>C29: The search tries, in this order, the directories between the separators of the path, and returns the
  full name of the first file that exists.\<close>

theorem search_path_first:
  "search_loop exist name p =
     (let cs = map (\<lambda>d. search_candidate d name) (search_directories p) in
      (takeWhile (\<lambda>c. \<not> exist c) cs @ (case find exist cs of None \<Rightarrow> [] | Some c \<Rightarrow> [c]), find exist cs))"
proof (induction exist name p rule: search_loop.induct)
  case (1 exist name p)
  obtain d r where n: "search_next p = (d, r)" by fastforce
  show ?case
  proof (cases "exist (search_candidate d name) \<or> r = []")
    case True
    then show ?thesis by (auto simp: search_loop.simps [of _ _ p] search_directories_next [of p] n Let_def)
  next
    case False
    then show ?thesis using "1.IH" [OF n [symmetric] refl]
      by (auto simp: search_loop.simps [of _ _ p] search_directories_next [of p] n Let_def)
  qed
qed

section \<open>The buffer of the names\<close>

lemma search_directories_length: "d \<in> set (search_directories p) \<Longrightarrow> length d \<le> length p"
proof (induction "length p" arbitrary: p rule: less_induct)
  case less
  have "length (fst (search_next p)) \<le> length p" by (simp add: search_next_def length_takeWhile_le)
  moreover have "length (snd (search_next p)) < length p" if "snd (search_next p) \<noteq> []"
    using that length_dropWhile_le [of "\<lambda>c. c \<noteq> SEMICOLON" p] by (cases "dropWhile (\<lambda>c. c \<noteq> SEMICOLON) p") (auto simp: search_next_def)
  ultimately show ?case using less search_directories_next [of p] by (fastforce split: if_splits)
qed

lemma search_candidate_length: "length (search_candidate d name) \<le> length d + 1 + length name"
  by (simp add: search_candidate_def)

text \<open>Every name that is tried fits with its terminator into the buffer, if the lengths do not add up to more
  than a 16-bit length can hold.\<close>

theorem search_path_in_buffer:
  assumes "2 * length lpPath + 2 * length (lpFileName @ search_extension lpFileName lpExtension) + 6 < 65536"
    and "c \<in> set (sr_Tried (RtlDosSearchPath_U env alloc exist lpPath lpFileName lpExtension n m))"
  shows "2 * length c + 2 \<le> sr_Allocated (RtlDosSearchPath_U env alloc exist lpPath lpFileName lpExtension n m)"
proof -
  define name where "name = lpFileName @ search_extension lpFileName lpExtension"
  define cs where "cs = map (\<lambda>d. search_candidate d name) (search_directories lpPath)"
  have tried: "set (fst (search_loop (\<lambda>s. exist s False) name lpPath)) \<subseteq> set cs"
    unfolding search_path_first Let_def cs_def [symmetric] by (auto split: option.splits dest: set_takeWhileD find_Some_in_set [OF sym])
  have "c \<in> set (fst (search_loop (\<lambda>s. exist s False) name lpPath)) \<and>
      sr_Allocated (RtlDosSearchPath_U env alloc exist lpPath lpFileName lpExtension n m) = 2 * length lpPath + 2 * length name + 6"
    using assms by (auto simp: RtlDosSearchPath_U_def name_def Let_def split: if_splits prod.splits)
  moreover from this tried obtain d where "d \<in> set (search_directories lpPath)" "c = search_candidate d name" by (auto simp: cs_def)
  ultimately show ?thesis using search_directories_length [of d lpPath] search_candidate_length [of d name] by simp
qed

text \<open>If they do, the size is truncated, and the name of a path of one directory is written beyond the end of
  the buffer.\<close>

theorem search_path_overrun:
  assumes "RtlDetermineDosPathNameType_U (lpFileName @ [0]) = RtlPathTypeRelative" and "SEMICOLON \<notin> set lpPath"
    and "65536 \<le> 2 * length lpPath + 2 * length (lpFileName @ search_extension lpFileName lpExtension) + 6"
    and "2 * length lpPath \<le> 65532" and "2 * length lpFileName \<le> 65532" and "search_extension lpFileName lpExtension = []"
    and "\<And>k. alloc k"
  shows "\<exists>c. sr_Tried (RtlDosSearchPath_U env alloc exist lpPath lpFileName lpExtension n m) = [c] \<and>
    sr_Allocated (RtlDosSearchPath_U env alloc exist lpPath lpFileName lpExtension n m) < 2 * length c + 2"
proof -
  have none: "dropWhile (\<lambda>c. c \<noteq> SEMICOLON) lpPath = []" "takeWhile (\<lambda>c. c \<noteq> SEMICOLON) lpPath = lpPath"
    using assms(2) by (auto simp: takeWhile_eq_all_conv)
  have step: "search_next lpPath = (lpPath, [])" unfolding search_next_def none by simp
  have loop: "fst (search_loop (\<lambda>s. exist s False) lpFileName lpPath) = [search_candidate lpPath lpFileName]"
    by (simp add: search_loop.simps [of _ _ lpPath] step Let_def)
  have "(2 * length lpPath + 2 * length lpFileName + 6) mod 65536 = 2 * length lpPath + 2 * length lpFileName + 6 - 65536"
    using assms(3-6) by (simp add: mod_if)
  then show ?thesis using assms loop
    by (auto simp: RtlDosSearchPath_U_def Let_def search_candidate_def split: prod.splits)
qed

text \<open>In \<open>C:\a;C:\b\\<close> the file \<open>f\<close> with the extension \<open>.x\<close>.\<close>

theorem search_path_in_buffer_witness:
  "2 * length [67, COLON, BACKSLASH, 97, BACKSLASH, 102, DOT, 120 :: u16] + 2 \<le>
    sr_Allocated (RtlDosSearchPath_U demo_env (\<lambda>_. True) (\<lambda>_ _. False) [67, COLON, BACKSLASH, 97, SEMICOLON, 67, COLON, BACKSLASH, 98, BACKSLASH]
      [102] (Some [DOT, 120]) 100 (\<lambda>_. 7))"
proof -
  let ?p = "[67, COLON, BACKSLASH, 97, SEMICOLON, 67, COLON, BACKSLASH, 98, BACKSLASH] :: u16 list"
  have "search_directories ?p = [[67, COLON, BACKSLASH, 97], [67, COLON, BACKSLASH, 98, BACKSLASH]]" by code_simp
  moreover have "RtlDetermineDosPathNameType_U [102, 0] = RtlPathTypeRelative" by code_simp
  ultimately have "[67, COLON, BACKSLASH, 97, BACKSLASH, 102, DOT, 120] \<in>
      set (sr_Tried (RtlDosSearchPath_U demo_env (\<lambda>_. True) (\<lambda>_ _. False) ?p [102] (Some [DOT, 120]) 100 (\<lambda>_. 7)))"
    by (simp add: RtlDosSearchPath_U_def search_path_first search_extension_def search_candidate_def Let_def)
  then show ?thesis by (intro search_path_in_buffer) (simp_all add: search_extension_def)
qed

theorem search_path_overrun_witness:
  "\<exists>c. sr_Tried (RtlDosSearchPath_U demo_env (\<lambda>_. True) (\<lambda>_ _. False) (replicate 32000 97) (replicate 32000 97) None 100 (\<lambda>_. 7)) = [c] \<and>
    sr_Allocated (RtlDosSearchPath_U demo_env (\<lambda>_. True) (\<lambda>_ _. False) (replicate 32000 97) (replicate 32000 97) None 100 (\<lambda>_. 7)) <
    2 * length c + 2"
proof -
  define f :: "u16 list" where "f = replicate 32000 97"
  have f: "f = 97 # 97 # replicate 31998 97" by (simp add: f_def flip: replicate_Suc)
  have e: "search_extension f None = []" by (simp add: search_extension_def)
  have "RtlDetermineDosPathNameType_U (f @ [0]) = RtlPathTypeRelative"
    by (simp add: f RtlDetermineDosPathNameType_U_def IS_PATH_SEPARATOR_U_def)
  moreover have "SEMICOLON \<notin> set f" by (simp add: f_def)
  moreover have "length f = 32000" by (simp add: f_def)
  ultimately show ?thesis unfolding f_def [symmetric] by (intro search_path_overrun) (simp_all add: e)
qed

end
