(* ===== verification/CurrentDirectory.thy ===== *)
theory CurrentDirectory
  imports PathNames
begin

text \<open>
  The current directory of the process (src/ntdll/curdir.c): the text a caller gets of it
  (\<open>RtlGetCurrentDirectory_U\<close>), and the counted reference on its handle that relative names capture while
  other threads set the directory (\<open>RtlSetCurrentDirectory_U\<close>, \<open>RtlReleaseRelativeName\<close>,
  \<open>RtlpValidateCurrentDirectory\<close>).
\<close>

section \<open>The counted handle\<close>

record cur_dir_ref =
  RefCount :: int
  DirectoryHandle :: nat

text \<open>The two low bits of a handle are not looked at by the kernel; the lowest marks removable media. The
  branches of \<open>RtlSetCurrentDirectory_U\<close> for the other marks are never taken, as nothing sets them.\<close>

definition untag :: "nat \<Rightarrow> nat" where
  "untag h = h div 4 * 4"

text \<open>The threads: holding a captured name, inside \<open>RtlSetCurrentDirectory_U\<close> with a new handle before and
  after the test of the count, after its locked region with a handle to close and a reference to drop, and
  closing the handle of a reference whose count has reached zero.\<close>

datatype cd_pc =
    CdIdle | CdHolding nat nat | CdOpened nat | CdChosen bool nat | CdFinish "nat option" "nat option" | CdClosing nat

record cd_sys =
  cd_Handle :: nat
  cd_CurDirRef :: "nat option"
  cd_Refs :: "nat \<Rightarrow> cur_dir_ref option"
  cd_Open :: "nat set"
  cd_Lock :: "tid option"
  dpc :: "tid \<Rightarrow> cd_pc"

definition cd_init :: "cd_sys \<Rightarrow> bool" where
  "cd_init c \<longleftrightarrow> cd_Handle c = 0 \<and> cd_CurDirRef c = None \<and> (\<forall>r. cd_Refs c r = None) \<and> cd_Open c = {} \<and>
     cd_Lock c = None \<and> (\<forall>k. dpc c k = CdIdle)"

definition RtlpInitializeCurDirRef :: "nat \<Rightarrow> cur_dir_ref" where
  "RtlpInitializeCurDirRef Handle = \<lparr>RefCount = 1, DirectoryHandle = Handle\<rparr>"

definition RtlpReferenceCurDirRef :: "cur_dir_ref \<Rightarrow> cur_dir_ref" where
  "RtlpReferenceCurDirRef x = x\<lparr>RefCount := RefCount x + 1\<rparr>"

text \<open>The decrement of \<open>RtlpDereferenceCurDirRef\<close>, and what the thread does next.\<close>

definition curdir_decrement :: "cur_dir_ref \<Rightarrow> cur_dir_ref" where
  "curdir_decrement x = x\<lparr>RefCount := RefCount x - 1\<rparr>"

definition after_decrement :: "nat \<Rightarrow> cur_dir_ref \<Rightarrow> cd_pc" where
  "after_decrement r x = (if RefCount (curdir_decrement x) = 0 then CdClosing r else CdIdle)"

inductive cd_step :: "cd_sys \<Rightarrow> cd_sys \<Rightarrow> bool" where
  capture: "dpc c k = CdIdle \<Longrightarrow> cd_Lock c = None \<Longrightarrow> cd_Handle c \<noteq> 0 \<Longrightarrow> cd_CurDirRef c = Some r \<Longrightarrow> cd_Refs c r = Some x \<Longrightarrow>
    cd_step c (c\<lparr>cd_Refs := (cd_Refs c)(r \<mapsto> RtlpReferenceCurDirRef x), dpc := (dpc c)(k := CdHolding r (cd_Handle c))\<rparr>)"
| release: "dpc c k = CdHolding r h \<Longrightarrow> cd_Refs c r = Some x \<Longrightarrow>
    cd_step c (c\<lparr>cd_Refs := (cd_Refs c)(r \<mapsto> curdir_decrement x), dpc := (dpc c)(k := after_decrement r x)\<rparr>)"
| close_last: "dpc c k = CdClosing r \<Longrightarrow> cd_Refs c r = Some x \<Longrightarrow>
    cd_step c (c\<lparr>cd_Open := cd_Open c - {untag (DirectoryHandle x)}, cd_Refs := (cd_Refs c)(r := None), dpc := (dpc c)(k := CdIdle)\<rparr>)"
| open_directory: "dpc c k = CdIdle \<Longrightarrow> cd_Lock c = None \<Longrightarrow> 4 \<le> new \<Longrightarrow> new mod 4 \<le> 1 \<Longrightarrow> untag new \<notin> cd_Open c \<Longrightarrow>
    cd_step c (c\<lparr>cd_Open := insert (untag new) (cd_Open c), cd_Lock := Some k, dpc := (dpc c)(k := CdOpened new)\<rparr>)"
| failed: "dpc c k = CdOpened new \<Longrightarrow>
    cd_step c (c\<lparr>cd_Lock := None, dpc := (dpc c)(k := CdFinish (Some new) None)\<rparr>)"
| choose: "dpc c k = CdOpened new \<Longrightarrow> (\<And>r. cd_CurDirRef c = Some r \<Longrightarrow> cd_Refs c r \<noteq> None) \<Longrightarrow>
    cd_step c (c\<lparr>dpc := (dpc c)(k := CdChosen (case cd_CurDirRef c of None \<Rightarrow> False | Some r \<Rightarrow> RefCount (the (cd_Refs c r)) = 1) new)\<rparr>)"
| reuse: "dpc c k = CdChosen True new \<Longrightarrow> cd_CurDirRef c = Some r \<Longrightarrow> cd_Refs c r = Some x \<Longrightarrow>
    cd_step c (c\<lparr>cd_Refs := (cd_Refs c)(r \<mapsto> x\<lparr>DirectoryHandle := new\<rparr>), cd_Handle := new, cd_Lock := None,
      dpc := (dpc c)(k := CdFinish (Some (DirectoryHandle x)) None)\<rparr>)"
| renew: "dpc c k = CdChosen False new \<Longrightarrow> cd_Refs c r = None \<Longrightarrow>
    cd_step c (c\<lparr>cd_Refs := (cd_Refs c)(r \<mapsto> RtlpInitializeCurDirRef new), cd_CurDirRef := Some r, cd_Handle := new, cd_Lock := None,
      dpc := (dpc c)(k := CdFinish None (cd_CurDirRef c))\<rparr>)"
| no_memory: "dpc c k = CdChosen False new \<Longrightarrow>
    cd_step c (c\<lparr>cd_Lock := None, dpc := (dpc c)(k := CdFinish (Some new) None)\<rparr>)"
| finish_close: "dpc c k = CdFinish (Some h) d \<Longrightarrow>
    cd_step c (c\<lparr>cd_Open := cd_Open c - {untag h}, dpc := (dpc c)(k := CdFinish None d)\<rparr>)"
| finish_dereference: "dpc c k = CdFinish None (Some r) \<Longrightarrow> cd_Refs c r = Some x \<Longrightarrow>
    cd_step c (c\<lparr>cd_Refs := (cd_Refs c)(r \<mapsto> curdir_decrement x), dpc := (dpc c)(k := after_decrement r x)\<rparr>)"
| finish: "dpc c k = CdFinish None None \<Longrightarrow>
    cd_step c (c\<lparr>dpc := (dpc c)(k := CdIdle)\<rparr>)"
| dismount: "dpc c k = CdIdle \<Longrightarrow> cd_Lock c = None \<Longrightarrow> cd_CurDirRef c = Some r \<Longrightarrow> cd_Refs c r = Some x \<Longrightarrow>
    cd_step c (c\<lparr>cd_Refs := (cd_Refs c)(r \<mapsto> curdir_decrement x), cd_CurDirRef := None, cd_Handle := 0,
      dpc := (dpc c)(k := after_decrement r x)\<rparr>)"

abbreviation cd_reach :: "cd_sys \<Rightarrow> bool" where
  "cd_reach \<equiv> reach cd_init cd_step"

section \<open>The invariant\<close>

text \<open>A thread that owes a reference a decrement, one that closes it, and one that owns a handle.\<close>

definition names_ref :: "nat \<Rightarrow> cd_pc \<Rightarrow> bool" where
  "names_ref r p \<longleftrightarrow> (case p of CdHolding r' h \<Rightarrow> r' = r | CdFinish h d \<Rightarrow> d = Some r | _ \<Rightarrow> False)"

definition owns_handle :: "nat \<Rightarrow> cd_pc \<Rightarrow> bool" where
  "owns_handle h p \<longleftrightarrow> (case p of CdOpened new \<Rightarrow> untag new = h | CdChosen b new \<Rightarrow> untag new = h
     | CdFinish (Some h') d \<Rightarrow> untag h' = h | _ \<Rightarrow> False)"

definition ref_has :: "nat \<Rightarrow> cur_dir_ref option \<Rightarrow> bool" where
  "ref_has h x \<longleftrightarrow> (case x of None \<Rightarrow> False | Some y \<Rightarrow> untag (DirectoryHandle y) = h)"

definition cd_in_region :: "cd_pc \<Rightarrow> bool" where
  "cd_in_region p \<longleftrightarrow> (case p of CdOpened new \<Rightarrow> True | CdChosen b new \<Rightarrow> True | _ \<Rightarrow> False)"

definition ref_ok :: "cd_sys \<Rightarrow> nat \<Rightarrow> bool" where
  "ref_ok c r \<longleftrightarrow> (case cd_Refs c r of
     None \<Rightarrow> count_at (names_ref r) (dpc c) = 0 \<and> count_at (\<lambda>p. p = CdClosing r) (dpc c) = 0 \<and> cd_CurDirRef c \<noteq> Some r
   | Some x \<Rightarrow> RefCount x = count_at (names_ref r) (dpc c) + of_bool (cd_CurDirRef c = Some r) \<and>
       count_at (\<lambda>p. p = CdClosing r) (dpc c) = of_bool (RefCount x = 0))"

definition handle_ok :: "cd_sys \<Rightarrow> nat \<Rightarrow> bool" where
  "handle_ok c h \<longleftrightarrow> count_at (ref_has h) (cd_Refs c) + count_at (owns_handle h) (dpc c) = of_bool (h \<in> cd_Open c)"

definition current_ok :: "cd_sys \<Rightarrow> bool" where
  "current_ok c \<longleftrightarrow> (case cd_CurDirRef c of None \<Rightarrow> cd_Handle c = 0
     | Some r \<Rightarrow> (\<exists>x. cd_Refs c r = Some x \<and> DirectoryHandle x = cd_Handle c))"

definition thread_ok :: "cd_sys \<Rightarrow> cd_pc \<Rightarrow> bool" where
  "thread_ok c p \<longleftrightarrow> (case p of
     CdHolding r h \<Rightarrow> (\<exists>x. cd_Refs c r = Some x \<and> DirectoryHandle x = h)
   | CdChosen True new \<Rightarrow> (\<exists>r x. cd_CurDirRef c = Some r \<and> cd_Refs c r = Some x \<and> RefCount x = 1)
   | _ \<Rightarrow> True)"

definition cd_inv :: "cd_sys \<Rightarrow> bool" where
  "cd_inv c \<longleftrightarrow> finite_at (\<lambda>p. p \<noteq> CdIdle) (dpc c) \<and> finite_at (\<lambda>x. x \<noteq> None) (cd_Refs c) \<and>
     (\<forall>r. ref_ok c r) \<and> (\<forall>h. handle_ok c h) \<and> (\<forall>k. cd_in_region (dpc c k) \<longleftrightarrow> cd_Lock c = Some k) \<and>
     current_ok c \<and> (\<forall>k. thread_ok c (dpc c k))"

lemma pc_predicates [simp]:
  "\<not> names_ref r CdIdle" "names_ref r (CdHolding r' g) \<longleftrightarrow> r' = r" "\<not> names_ref r (CdOpened n)" "\<not> names_ref r (CdChosen b n)"
  "names_ref r (CdFinish h' d) \<longleftrightarrow> d = Some r" "\<not> names_ref r (CdClosing r')"
  "\<not> owns_handle h CdIdle" "\<not> owns_handle h (CdHolding r g)" "owns_handle h (CdOpened n) \<longleftrightarrow> untag n = h"
  "owns_handle h (CdChosen b n) \<longleftrightarrow> untag n = h" "owns_handle h (CdFinish None d) \<longleftrightarrow> False"
  "owns_handle h (CdFinish (Some n) d) \<longleftrightarrow> untag n = h" "\<not> owns_handle h (CdClosing r')"
  "\<not> ref_has h None" "ref_has h (Some x) \<longleftrightarrow> untag (DirectoryHandle x) = h"
  "\<not> cd_in_region CdIdle" "\<not> cd_in_region (CdHolding r g)" "cd_in_region (CdOpened n)" "cd_in_region (CdChosen b n)"
  "\<not> cd_in_region (CdFinish h' d)" "\<not> cd_in_region (CdClosing r')"
  by (simp_all add: names_ref_def owns_handle_def ref_has_def cd_in_region_def)

lemma curdir_ops [simp]:
  "RefCount (curdir_decrement x) = RefCount x - 1" "DirectoryHandle (curdir_decrement x) = DirectoryHandle x"
  "RefCount (RtlpReferenceCurDirRef x) = RefCount x + 1" "DirectoryHandle (RtlpReferenceCurDirRef x) = DirectoryHandle x"
  "RefCount (RtlpInitializeCurDirRef h) = 1" "DirectoryHandle (RtlpInitializeCurDirRef h) = h"
  by (simp_all add: curdir_decrement_def RtlpReferenceCurDirRef_def RtlpInitializeCurDirRef_def)

lemma after_decrement_simps [simp]:
  "\<not> names_ref r (after_decrement r' x)" "\<not> owns_handle h (after_decrement r' x)" "\<not> cd_in_region (after_decrement r' x)"
  "after_decrement r' x = CdClosing r \<longleftrightarrow> RefCount x = 1 \<and> r' = r"
  by (simp_all add: after_decrement_def)

lemma thread_ok_simps [simp]:
  "thread_ok c CdIdle" "thread_ok c (CdHolding r h) \<longleftrightarrow> (\<exists>x. cd_Refs c r = Some x \<and> DirectoryHandle x = h)"
  "thread_ok c (CdOpened n)" "thread_ok c (CdFinish h' d)" "thread_ok c (CdClosing r')" "thread_ok c (after_decrement r' y)"
  "thread_ok c (CdChosen b n) \<longleftrightarrow> (b \<longrightarrow> (\<exists>r x. cd_CurDirRef c = Some r \<and> cd_Refs c r = Some x \<and> RefCount x = 1))"
  by (auto simp: thread_ok_def after_decrement_def split: bool.splits)

lemma cd_finite:
  assumes "finite_at (\<lambda>p. p \<noteq> CdIdle) (dpc c)" and "finite_at (\<lambda>x. x \<noteq> None) (cd_Refs c)"
  shows "finite_at (names_ref r) (dpc c)" "finite_at (\<lambda>p. p = CdClosing r) (dpc c)" "finite_at (owns_handle h) (dpc c)"
    "finite_at (ref_has h) (cd_Refs c)"
  by (rule finite_at_mono [OF assms(1)]; force)+ (rule finite_at_mono [OF assms(2)]; auto simp: ref_has_def split: option.splits)

lemma cd_invD:
  assumes "cd_inv c"
  shows "finite_at (\<lambda>p. p \<noteq> CdIdle) (dpc c)" "finite_at (\<lambda>x. x \<noteq> None) (cd_Refs c)" "ref_ok c r" "handle_ok c h"
    "cd_in_region (dpc c k) \<longleftrightarrow> cd_Lock c = Some k" "current_ok c" "thread_ok c (dpc c k)"
  using assms by (simp_all add: cd_inv_def)

text \<open>A thread that is in one of the counted positions makes the count positive.\<close>

lemma cd_counts:
  assumes "cd_inv c"
  shows "names_ref r (dpc c k) \<Longrightarrow> 1 \<le> count_at (names_ref r) (dpc c)" "dpc c k = CdClosing r \<Longrightarrow> 1 \<le> count_at (\<lambda>p. p = CdClosing r) (dpc c)"
    "owns_handle h (dpc c k) \<Longrightarrow> 1 \<le> count_at (owns_handle h) (dpc c)" "ref_has h (cd_Refs c r) \<Longrightarrow> 1 \<le> count_at (ref_has h) (cd_Refs c)"
  using count_at_pos cd_finite [OF cd_invD(1,2) [OF assms]] by blast+

lemma step_ref_ok:
  assumes inv: "cd_inv c" and step: "cd_step c d"
  shows "ref_ok d r"
proof -
  note fin = cd_finite [OF cd_invD(1,2) [OF inv]]
  note upd = count_at_upd [OF fin(1)] count_at_upd [OF fin(2)]
  obtain n m where cnt: "count_at (names_ref r) (dpc c) = int n" "count_at (\<lambda>p. p = CdClosing r) (dpc c) = int m"
    by (meson count_at_def)
  note ok = cd_invD(3) [OF inv, of r, unfolded ref_ok_def cnt]
  note pos = cd_counts(1,2) [OF inv, where r = r, unfolded cnt]
  note simps = ref_ok_def upd of_bool_def
  from step show ?thesis
  proof cases
    case (release k r' h x)
    then show ?thesis using ok pos [of k] cnt by (auto simp: simps split: option.splits if_splits)
  next
    case (close_last k r' x)
    then show ?thesis using ok pos [of k] cnt by (auto simp: simps split: option.splits if_splits)
  next
    case (finish_dereference k r' x)
    then show ?thesis using ok pos [of k] cnt by (auto simp: simps split: option.splits if_splits)
  qed (use ok cnt in \<open>auto simp: simps split: option.splits if_splits\<close>)
qed

lemma step_handle_ok:
  assumes inv: "cd_inv c" and step: "cd_step c d"
  shows "handle_ok d h"
proof -
  note fin = cd_finite [OF cd_invD(1,2) [OF inv]]
  note upd = count_at_upd [OF fin(3)] count_at_upd [OF fin(4)]
  obtain n m where cnt: "count_at (owns_handle h) (dpc c) = int n" "count_at (ref_has h) (cd_Refs c) = int m"
    by (meson count_at_def)
  note ok = cd_invD(4) [OF inv, of h, unfolded handle_ok_def cnt]
  note pos = cd_counts(3,4) [OF inv, where h = h, unfolded cnt]
  note simps = handle_ok_def upd of_bool_def
  from step show ?thesis
  proof cases
    case (close_last k r x)
    then show ?thesis using ok cnt pos(2) [of r] by (auto simp: simps split: if_splits)
  next
    case (finish_close k h' e)
    then show ?thesis using ok cnt pos(1) [of k] by (auto simp: simps split: if_splits)
  qed (use ok cnt in \<open>auto simp: simps split: option.splits if_splits\<close>)
qed

text \<open>What the counts say of a reference that is named, closed or current.\<close>

lemma ref_facts:
  assumes "cd_inv c" and "cd_Refs c r = Some x"
  shows "names_ref r (dpc c k) \<Longrightarrow> 1 + of_bool (cd_CurDirRef c = Some r) \<le> RefCount x"
    and "dpc c k = CdClosing r \<Longrightarrow> RefCount x = 0" and "cd_CurDirRef c = Some r \<Longrightarrow> 1 \<le> RefCount x"
proof -
  have ok: "RefCount x = count_at (names_ref r) (dpc c) + of_bool (cd_CurDirRef c = Some r)"
    "count_at (\<lambda>p. p = CdClosing r) (dpc c) = of_bool (RefCount x = 0)"
    using cd_invD(3) [OF assms(1), of r] assms(2) by (simp_all add: ref_ok_def)
  show "names_ref r (dpc c k) \<Longrightarrow> 1 + of_bool (cd_CurDirRef c = Some r) \<le> RefCount x" using ok(1) cd_counts(1) [OF assms(1)] by simp
  show "dpc c k = CdClosing r \<Longrightarrow> RefCount x = 0" using ok(2) cd_counts(2) [OF assms(1), of k r] by (auto simp: of_bool_def split: if_splits)
  show "cd_CurDirRef c = Some r \<Longrightarrow> 1 \<le> RefCount x" using ok(1) by simp
qed

lemma step_current_ok:
  assumes inv: "cd_inv c" and step: "cd_step c d"
  shows "current_ok d"
proof -
  note ok = cd_invD(6) [OF inv, unfolded current_ok_def]
  from step show ?thesis
  proof cases
    case (close_last k r x)
    then have "cd_CurDirRef c \<noteq> Some r" using ref_facts(2,3) [OF inv close_last(3)] by force
    then show ?thesis using close_last ok by (auto simp: current_ok_def split: option.splits)
  qed (use ok in \<open>auto simp: current_ok_def split: option.splits\<close>)
qed

lemma step_thread_ok:
  assumes inv: "cd_inv c" and step: "cd_step c d"
  shows "thread_ok d (dpc d j)"
proof -
  note ok = cd_invD(7) [OF inv, of j]
  note region = cd_invD(5) [OF inv]
  from step show ?thesis
  proof cases
    case (capture k r x)
    then show ?thesis using ok region [of j] cd_invD(6) [OF inv] by (cases "dpc c j") (auto simp: current_ok_def)
  next
    case (release k r h x)
    then show ?thesis using ok ref_facts(1) [OF inv release(3), of k] by (cases "dpc c j") auto
  next
    case (close_last k r x)
    have "RefCount x = 0" using ref_facts(2) [OF inv close_last(3)] close_last(2) by blast
    then have "cd_CurDirRef c \<noteq> Some r" "\<not> names_ref r (dpc c j)"
      using ref_facts(1) [OF inv close_last(3), of j] ref_facts(3) [OF inv close_last(3)] by (auto simp: of_bool_def split: if_splits)
    then show ?thesis using close_last(1) ok by (cases "dpc c j") auto
  next
    case (choose k new)
    then show ?thesis using ok by (cases "dpc c j") (auto split: option.splits)
  next
    case (reuse k new r x)
    have "RefCount x = 1" using cd_invD(7) [OF inv, of k] reuse by auto
    then show ?thesis using reuse ok ref_facts(1) [OF inv reuse(4), of j] region [of j] region [of k] by (cases "dpc c j") auto
  next
    case (renew k new r)
    then show ?thesis using ok region [of j] region [of k] by (cases "dpc c j") auto
  next
    case (finish_dereference k r x)
    then show ?thesis using ok ref_facts(1) [OF inv finish_dereference(3), of k] by (cases "dpc c j") auto
  next
    case (dismount k r x)
    then show ?thesis using ok region [of j] by (cases "dpc c j") auto
  qed (use ok in \<open>cases "dpc c j"; auto\<close>)+
qed

lemma step_region:
  assumes inv: "cd_inv c" and step: "cd_step c d"
  shows "cd_in_region (dpc d j) \<longleftrightarrow> cd_Lock d = Some j"
proof -
  have region: "cd_in_region p \<longleftrightarrow> cd_Lock c = Some k" if "dpc c k = p" for k p using cd_invD(5) [OF inv, of k] that by simp
  from step show ?thesis
    by cases (auto simp: region [OF refl] dest: region)
qed

lemma cd_step_inv: "cd_inv c \<Longrightarrow> cd_step c d \<Longrightarrow> cd_inv d"
proof -
  assume inv: "cd_inv c" and step: "cd_step c d"
  have "finite_at (\<lambda>p. p \<noteq> CdIdle) (dpc d)" using step cd_invD(1) [OF inv] by cases simp_all
  moreover have "finite_at (\<lambda>x. x \<noteq> None) (cd_Refs d)" using step cd_invD(2) [OF inv] by cases simp_all
  ultimately show ?thesis using step_ref_ok [OF inv step] step_handle_ok [OF inv step] step_current_ok [OF inv step] step_thread_ok [OF inv step]
    step_region [OF inv step] by (simp add: cd_inv_def)
qed

lemma cd_reach_inv: "cd_reach c \<Longrightarrow> cd_inv c"
proof (induction rule: reach_induct)
  case (init c)
  then show ?case by (simp add: cd_inv_def cd_init_def ref_ok_def handle_ok_def current_ok_def count_at_none finite_at_none)
next
  case (step c d)
  then show ?case using cd_step_inv by blast
qed

lemma counted_open:
  assumes "cd_inv c" and "1 \<le> count_at (ref_has h) (cd_Refs c) \<or> 1 \<le> count_at (owns_handle h) (dpc c)"
  shows "h \<in> cd_Open c"
proof (rule ccontr)
  assume "h \<notin> cd_Open c"
  then have "count_at (ref_has h) (cd_Refs c) + count_at (owns_handle h) (dpc c) = 0"
    using cd_invD(4) [OF assms(1), of h] by (simp add: handle_ok_def)
  with count_at_nonneg [of "owns_handle h" "dpc c"] count_at_nonneg [of "ref_has h" "cd_Refs c"] assms(2) show False by linarith
qed

text \<open>C27: The handle a captured name refers to stays open while it is held, however often other threads set the
  directory or find its volume dismounted, and the reference counts it.\<close>

theorem captured_directory_open:
  assumes "cd_reach c" and "dpc c k = CdHolding r h"
  shows "\<exists>x. cd_Refs c r = Some x \<and> DirectoryHandle x = h \<and> 1 \<le> RefCount x \<and> untag h \<in> cd_Open c"
proof -
  note inv = cd_reach_inv [OF assms(1)]
  obtain x where x: "cd_Refs c r = Some x" "DirectoryHandle x = h" using cd_invD(7) [OF inv, of k] assms(2) by auto
  have "1 \<le> count_at (ref_has (untag h)) (cd_Refs c)" using cd_counts(4) [OF inv, of "untag h" r] x by simp
  then have "untag h \<in> cd_Open c" using counted_open [OF inv] by blast
  moreover have "1 \<le> RefCount x" using ref_facts(1) [OF inv x(1), of k] assms(2) by (simp add: of_bool_def split: if_splits)
  ultimately show ?thesis using x by blast
qed

text \<open>C28: Every handle is closed exactly once: a thread that is about to close one finds it open, and when no
  thread is in a routine or holds a name, the only handle that is open is that of the current directory.\<close>

theorem directory_handles_balanced:
  assumes "cd_reach c"
  shows "(dpc c k = CdFinish (Some h) d \<longrightarrow> untag h \<in> cd_Open c) \<and>
    (dpc c k = CdClosing r \<longrightarrow> (\<exists>x. cd_Refs c r = Some x \<and> untag (DirectoryHandle x) \<in> cd_Open c)) \<and>
    ((\<forall>j. dpc c j = CdIdle) \<longrightarrow> cd_Open c = (if cd_CurDirRef c = None then {} else {untag (cd_Handle c)}))"
proof -
  note inv = cd_reach_inv [OF assms]
  note is_open = counted_open [OF inv]
  have own: "untag h \<in> cd_Open c" if "dpc c k = CdFinish (Some h) d"
    using cd_counts(3) [OF inv, of "untag h" k] that is_open by simp
  have ref: "untag (DirectoryHandle x) \<in> cd_Open c" if "cd_Refs c r = Some x" for r x
    using cd_counts(4) [OF inv, of "untag (DirectoryHandle x)" r] that is_open by simp
  have closing: "\<exists>x. cd_Refs c r = Some x \<and> untag (DirectoryHandle x) \<in> cd_Open c" if "dpc c k = CdClosing r"
    using cd_counts(2) [OF inv that] cd_invD(3) [OF inv, of r] ref by (cases "cd_Refs c r") (auto simp: ref_ok_def)
  have idle: "cd_Open c = (if cd_CurDirRef c = None then {} else {untag (cd_Handle c)})" if none: "\<forall>j. dpc c j = CdIdle"
  proof -
    have zero: "count_at P (dpc c) = 0" if "\<not> P CdIdle" for P using none that by (intro count_at_none) simp
    have refs: "cd_CurDirRef c = Some r" if "cd_Refs c r = Some x" for r x
      using cd_invD(3) [OF inv, of r] that zero [of "names_ref r"] zero [of "\<lambda>p. p = CdClosing r"]
      by (auto simp: ref_ok_def of_bool_def split: if_splits)
    have opened: "\<exists>r x. cd_Refs c r = Some x \<and> untag (DirectoryHandle x) = h" if "h \<in> cd_Open c" for h
    proof -
      have "count_at (ref_has h) (cd_Refs c) \<noteq> 0" using cd_invD(4) [OF inv, of h] zero [of "owns_handle h"] that by (simp add: handle_ok_def)
      then obtain r where "ref_has h (cd_Refs c r)" using count_at_none [of "ref_has h" "cd_Refs c"] by blast
      then show ?thesis by (auto simp: ref_has_def split: option.splits)
    qed
    show ?thesis
    proof (cases "cd_CurDirRef c")
      case None
      then show ?thesis using opened refs by force
    next
      case (Some r)
      then obtain x where x: "cd_Refs c r = Some x" "DirectoryHandle x = cd_Handle c"
        using cd_invD(6) [OF inv] by (auto simp: current_ok_def)
      have only: "h = untag (cd_Handle c)" if "h \<in> cd_Open c" for h
      proof -
        obtain r' y where y: "cd_Refs c r' = Some y" "untag (DirectoryHandle y) = h" using opened [OF \<open>h \<in> cd_Open c\<close>] by blast
        then show ?thesis using refs [OF y(1)] Some x by simp
      qed
      moreover have "untag (cd_Handle c) \<in> cd_Open c" using ref [OF x(1)] x(2) by simp
      ultimately have "cd_Open c = {untag (cd_Handle c)}" by blast
      then show ?thesis using Some by simp
    qed
  qed
  show ?thesis by (intro conjI impI own closing idle)
qed

text \<open>A thread holds a name while a second one has set another directory.\<close>

lemma cd_first_reach:
  "\<exists>c. cd_reach c \<and> cd_Handle c = 4 \<and> cd_CurDirRef c = Some 1 \<and> cd_Refs c = [1 \<mapsto> \<lparr>RefCount = 1, DirectoryHandle = 4\<rparr>] \<and>
     cd_Open c = {4} \<and> cd_Lock c = None \<and> (\<forall>k. dpc c k = CdIdle)"
proof -
  define c0 where "c0 = \<lparr>cd_Handle = 0, cd_CurDirRef = None, cd_Refs = (\<lambda>_. None), cd_Open = {}, cd_Lock = None, dpc = (\<lambda>_. CdIdle)\<rparr>"
  have 0: "cd_reach c0" by (rule reach_init) (simp add: c0_def cd_init_def)
  have u: "untag 4 = 4" by (simp add: untag_def)
  note 1 = reach_step [OF 0 open_directory [where k = 0 and new = 4]]
  note 2 = reach_step [OF 1 choose [where k = 0 and new = 4]]
  note 3 = reach_step [OF 2 renew [where k = 0 and new = 4 and r = 1]]
  note 4 = reach_step [OF 3 finish [where k = 0]]
  show ?thesis
    by (rule exI, rule conjI, rule 4) (simp_all add: c0_def u RtlpInitializeCurDirRef_def)
qed

lemma cd_held_reach:
  "\<exists>c. cd_reach c \<and> dpc c 1 = CdHolding 1 4 \<and> cd_Handle c = 8"
proof -
  obtain c where c: "cd_reach c" "cd_Handle c = 4" "cd_CurDirRef c = Some 1" "cd_Refs c = [1 \<mapsto> \<lparr>RefCount = 1, DirectoryHandle = 4\<rparr>]"
    "cd_Open c = {4}" "cd_Lock c = None" "\<forall>k. dpc c k = CdIdle" using cd_first_reach by blast
  note 1 = reach_step [OF c(1) capture [where k = 1 and r = 1 and x = "\<lparr>RefCount = 1, DirectoryHandle = 4\<rparr>"]]
  note 2 = reach_step [OF 1 open_directory [where k = 0 and new = 8]]
  note 3 = reach_step [OF 2 choose [where k = 0 and new = 8]]
  note 4 = reach_step [OF 3 renew [where k = 0 and new = 8 and r = 2]]
  show ?thesis
    by (rule exI, rule conjI, rule 4) (simp_all add: c untag_def RtlpReferenceCurDirRef_def)
qed

theorem captured_directory_open_witness:
  "\<exists>c x. cd_reach c \<and> cd_Handle c = 8 \<and> cd_Refs c 1 = Some x \<and> DirectoryHandle x = 4 \<and> untag 4 \<in> cd_Open c"
proof -
  obtain c where c: "cd_reach c" "dpc c 1 = CdHolding 1 4" "cd_Handle c = 8" using cd_held_reach by blast
  show ?thesis using captured_directory_open [OF c(1,2)] c(1,3) by blast
qed

theorem directory_handles_balanced_witness:
  "\<exists>c. cd_reach c \<and> cd_Open c = {untag 4}"
proof -
  obtain c where c: "cd_reach c" "cd_Handle c = 4" "cd_CurDirRef c = Some 1" "\<forall>k. dpc c k = CdIdle"
    using cd_first_reach by blast
  show ?thesis using directory_handles_balanced [OF c(1), of 0 0 None 0] c by (intro exI [of _ c]) simp
qed

section \<open>The text of the current directory\<close>

text \<open>\<open>DosPath\<close> ends with a backslash, which is left out unless it is the root of a drive. The result is the
  number that is returned and what is written.\<close>

definition RtlGetCurrentDirectory_U :: "u16 list \<Rightarrow> nat \<Rightarrow> nat \<times> u16 list" where
  "RtlGetCurrentDirectory_U DosPath nBufferLength =
     (let Length = length DosPath in
      if 1 < Length \<and> DosPath ! (Length - 2) \<noteq> COLON \<and> nBufferLength < 2 * Length then (2 * Length, [])
      else if \<not> (1 < Length \<and> DosPath ! (Length - 2) \<noteq> COLON) \<and> nBufferLength \<le> 2 * Length then (2 * (Length + 1), [])
      else if 1 < Length \<and> DosPath ! (Length - 2) = COLON then (2 * Length, DosPath @ [0])
      else (2 * (Length - 1), DosPath[Length - 1 := 0]))"

definition directory_name :: "u16 list \<Rightarrow> u16 list" where
  "directory_name DosPath =
     (if 1 < length DosPath \<and> DosPath ! (length DosPath - 2) = COLON then DosPath else butlast DosPath)"

text \<open>The routine writes the name of the directory with a terminator into a buffer that can hold it, and
  otherwise writes nothing and returns a size with which the call succeeds.\<close>

theorem get_current_directory:
  assumes "DosPath \<noteq> []" and "even n" and "RtlGetCurrentDirectory_U DosPath n = (r, w)"
  shows "(w = [] \<longrightarrow> n < r \<and> snd (RtlGetCurrentDirectory_U DosPath r) = directory_name DosPath @ [0]) \<and>
    (w \<noteq> [] \<longrightarrow> w = directory_name DosPath @ [0] \<and> r = 2 * length (directory_name DosPath) \<and> 2 * length w \<le> n)"
proof -
  obtain q c where p: "DosPath = q @ [c]" using assms(1) by (cases DosPath rule: rev_cases) auto
  obtain l where n: "n = 2 * l" using assms(2) by (rule evenE)
  show ?thesis
  proof (cases q rule: rev_cases)
    case Nil
    then show ?thesis using assms(3) by (auto simp: RtlGetCurrentDirectory_U_def directory_name_def Let_def p n split: if_splits)
  next
    case (snoc q' d)
    then show ?thesis using assms(3)
      by (auto simp: RtlGetCurrentDirectory_U_def directory_name_def Let_def p n nth_append butlast_append list_update_append split: if_splits)
  qed
qed

theorem get_current_directory_witness:
  "snd (RtlGetCurrentDirectory_U [67, COLON, BACKSLASH, 97, BACKSLASH] 10) = directory_name [67, COLON, BACKSLASH, 97, BACKSLASH] @ [0]"
proof -
  obtain r w where "RtlGetCurrentDirectory_U [67, COLON, BACKSLASH, 97, BACKSLASH] 10 = (r, w)" "w \<noteq> []"
    by (simp add: RtlGetCurrentDirectory_U_def)
  then show ?thesis using get_current_directory [of "[67, COLON, BACKSLASH, 97, BACKSLASH]" 10 r w] by simp
qed

end
