(* ===== verification/Resources.thy ===== *)
theory Resources
  imports ImageMapping
begin

text \<open>
  The lookup in the resource directory of an image (src/kernel32/winbase.c): tables of entries that name a
  type, a name and a language, one below the other. A table is found by its offset from the start of the
  resources; whatever the image holds there is taken as it is, so every offset and every count is checked
  before it is used. Addresses are natural numbers; the 32-bit offsets and sizes stay below the bounds that
  the checks give them.
\<close>

type_synonym dos_error = nat

abbreviation ERROR_RESOURCE_DATA_NOT_FOUND :: dos_error where "ERROR_RESOURCE_DATA_NOT_FOUND \<equiv> 1812"
abbreviation ERROR_RESOURCE_TYPE_NOT_FOUND :: dos_error where "ERROR_RESOURCE_TYPE_NOT_FOUND \<equiv> 1813"
abbreviation ERROR_RESOURCE_NAME_NOT_FOUND :: dos_error where "ERROR_RESOURCE_NAME_NOT_FOUND \<equiv> 1814"
abbreviation ERROR_RESOURCE_LANG_NOT_FOUND :: dos_error where "ERROR_RESOURCE_LANG_NOT_FOUND \<equiv> 1815"

section \<open>Entries\<close>

text \<open>The name a caller gives: a number below 65536 in place of the pointer, or the characters up to the
  terminator. The null pointer is the number 0.\<close>

datatype resource_name = IntResource nat | StringResource "u16 list"

text \<open>An entry of a table is two 32-bit words. The first is a number or, with its top bit set, the offset
  of a counted string; the second is the offset of the data or, with its top bit set, of another table.\<close>

definition NameIsString :: "image \<Rightarrow> addr \<Rightarrow> bool" where
  "NameIsString m Entry \<longleftrightarrow> 2 ^ 31 \<le> read_le 4 m Entry"

definition Entry_Id :: "image \<Rightarrow> addr \<Rightarrow> nat" where
  "Entry_Id m Entry = read_le 2 m Entry"

definition NameOffset :: "image \<Rightarrow> addr \<Rightarrow> nat" where
  "NameOffset m Entry = read_le 4 m Entry mod 2 ^ 31"

definition DataIsDirectory :: "image \<Rightarrow> addr \<Rightarrow> bool" where
  "DataIsDirectory m Entry \<longleftrightarrow> 2 ^ 31 \<le> read_le 4 m (Entry + 4)"

definition OffsetToDirectory :: "image \<Rightarrow> addr \<Rightarrow> nat" where
  "OffsetToDirectory m Entry = read_le 4 m (Entry + 4) mod 2 ^ 31"

definition OffsetToData :: "image \<Rightarrow> addr \<Rightarrow> nat" where
  "OffsetToData m Entry = read_le 4 m (Entry + 4)"

text \<open>The number of entries of a table, and the fields of the description of a resource's data.\<close>

definition EntryCount :: "image \<Rightarrow> addr \<Rightarrow> nat" where
  "EntryCount m Directory = read_le 2 m (Directory + 12) + read_le 2 m (Directory + 14)"

definition DataEntry_OffsetToData :: "image \<Rightarrow> addr \<Rightarrow> nat" where
  "DataEntry_OffsetToData m DataEntry = read_le 4 m DataEntry"

definition DataEntry_Size :: "image \<Rightarrow> addr \<Rightarrow> nat" where
  "DataEntry_Size m DataEntry = read_le 4 m (DataEntry + 4)"

section \<open>The routines\<close>

definition LdkpResourceOffsetIsValid :: "nat \<Rightarrow> nat \<Rightarrow> nat \<Rightarrow> bool" where
  "LdkpResourceOffsetIsValid Offset ResourceSize RequiredSize \<longleftrightarrow>
     RequiredSize \<le> ResourceSize \<and> Offset \<le> ResourceSize - RequiredSize"

text \<open>The loops over the entries of a table, each 8 bytes long: the first one with a property.\<close>

fun first_entry :: "(addr \<Rightarrow> bool) \<Rightarrow> nat \<Rightarrow> addr \<Rightarrow> addr option" where
  "first_entry P 0 Entry = None"
| "first_entry P (Suc n) Entry = (if P Entry then Some Entry else first_entry P n (Entry + 8))"

definition LdkpFindResourceDirectoryEntryById :: "image \<Rightarrow> addr \<Rightarrow> nat \<Rightarrow> nat \<Rightarrow> nat \<Rightarrow> addr option" where
  "LdkpFindResourceDirectoryEntryById m ResourceBase ResourceSize DirectoryOffset IdWanted =
     (if \<not> LdkpResourceOffsetIsValid DirectoryOffset ResourceSize 16 then None
      else
        let Directory = ResourceBase + DirectoryOffset; n = EntryCount m Directory in
        if n = 0 then None
        else if \<not> LdkpResourceOffsetIsValid (DirectoryOffset + 16) ResourceSize (n * 8) then None
        else first_entry (\<lambda>Entry. \<not> NameIsString m Entry \<and> Entry_Id m Entry = IdWanted) n (Directory + 16))"

definition LdkpGetFirstResourceDirectoryEntry :: "image \<Rightarrow> addr \<Rightarrow> nat \<Rightarrow> nat \<Rightarrow> addr option" where
  "LdkpGetFirstResourceDirectoryEntry m ResourceBase ResourceSize DirectoryOffset =
     (if \<not> LdkpResourceOffsetIsValid DirectoryOffset ResourceSize 16 then None
      else
        let Directory = ResourceBase + DirectoryOffset in
        if EntryCount m Directory = 0 then None
        else if \<not> LdkpResourceOffsetIsValid (DirectoryOffset + 16) ResourceSize 8 then None
        else Some (Directory + 16))"

definition LdkpResourceIdMatches :: "resource_name \<Rightarrow> nat \<Rightarrow> bool" where
  "LdkpResourceIdMatches Resource EntryId \<longleftrightarrow> (case Resource of IntResource n \<Rightarrow> n = EntryId | StringResource _ \<Rightarrow> False)"

text \<open>The loop over \<open>n\<close> characters at \<open>a\<close>; the end of the list is the terminator of the caller's name.\<close>

fun name_matches :: "image \<Rightarrow> addr \<Rightarrow> nat \<Rightarrow> u16 list \<Rightarrow> bool" where
  "name_matches m a 0 Name \<longleftrightarrow> Name = []"
| "name_matches m a (Suc n) [] \<longleftrightarrow> False"
| "name_matches m a (Suc n) (c # Name) \<longleftrightarrow> unat c = read_le 2 m a \<and> name_matches m (a + 2) n Name"

definition LdkpResourceStringMatches :: "image \<Rightarrow> addr \<Rightarrow> nat \<Rightarrow> addr \<Rightarrow> resource_name \<Rightarrow> bool" where
  "LdkpResourceStringMatches m ResourceBase ResourceSize Entry Resource =
     (case Resource of
        IntResource _ \<Rightarrow> False
      | StringResource Name \<Rightarrow>
          if \<not> NameIsString m Entry then False
          else if \<not> LdkpResourceOffsetIsValid (NameOffset m Entry) ResourceSize 2 then False
          else
            let ResourceName = ResourceBase + NameOffset m Entry; Length = read_le 2 m ResourceName in
            if \<not> LdkpResourceOffsetIsValid (NameOffset m Entry) ResourceSize (2 + Length * 2) then False
            else name_matches m (ResourceName + 2) Length Name)"

definition LdkpFindResourceDirectoryEntry :: "image \<Rightarrow> addr \<Rightarrow> nat \<Rightarrow> nat \<Rightarrow> resource_name \<Rightarrow> addr option" where
  "LdkpFindResourceDirectoryEntry m ResourceBase ResourceSize DirectoryOffset Name =
     (if \<not> LdkpResourceOffsetIsValid DirectoryOffset ResourceSize 16 then None
      else
        let Directory = ResourceBase + DirectoryOffset; n = EntryCount m Directory in
        if n = 0 then None
        else if \<not> LdkpResourceOffsetIsValid (DirectoryOffset + 16) ResourceSize (n * 8) then None
        else first_entry (\<lambda>Entry.
            if \<not> NameIsString m Entry then LdkpResourceIdMatches Name (Entry_Id m Entry)
            else LdkpResourceStringMatches m ResourceBase ResourceSize Entry Name) n (Directory + 16))"

text \<open>\<open>NtHeader\<close> is what \<open>RtlImageNtHeader\<close> finds for the image.\<close>

definition LdkpMappedImageRvaToPointer :: "image \<Rightarrow> addr option \<Rightarrow> addr \<Rightarrow> nat \<Rightarrow> nat \<Rightarrow> addr option" where
  "LdkpMappedImageRvaToPointer m NtHeader ImageBase Rva RequiredSize =
     (case NtHeader of
        None \<Rightarrow> None
      | Some nt \<Rightarrow>
          if RequiredSize > SizeOfImage m nt \<or> Rva > SizeOfImage m nt - RequiredSize then None
          else Some (ImageBase + Rva))"

text \<open>\<open>Directory\<close> is what \<open>RtlImageDirectoryEntryToData\<close> finds: the resources and their size. A result
  \<open>Inl\<close> is a null pointer with its error code.\<close>

definition LdkpFindMappedResourceDataEntry ::
    "image \<Rightarrow> addr option \<Rightarrow> (addr \<times> nat) option \<Rightarrow> addr \<Rightarrow> resource_name \<Rightarrow> resource_name \<Rightarrow> nat \<Rightarrow> dos_error + addr" where
  "LdkpFindMappedResourceDataEntry m NtHeader Directory ImageBase Type Name Language =
     (if Type = IntResource 0 then Inl ERROR_RESOURCE_TYPE_NOT_FOUND
      else if Name = IntResource 0 then Inl ERROR_RESOURCE_NAME_NOT_FOUND
      else case Directory of
        None \<Rightarrow> Inl ERROR_RESOURCE_TYPE_NOT_FOUND
      | Some (ResourceBase, ResourceSize) \<Rightarrow>
        if ResourceSize = 0 then Inl ERROR_RESOURCE_TYPE_NOT_FOUND
        else case LdkpFindResourceDirectoryEntry m ResourceBase ResourceSize 0 Type of
          None \<Rightarrow> Inl ERROR_RESOURCE_TYPE_NOT_FOUND
        | Some TypeEntry \<Rightarrow>
          if \<not> DataIsDirectory m TypeEntry then Inl ERROR_RESOURCE_TYPE_NOT_FOUND
          else if \<not> LdkpResourceOffsetIsValid (OffsetToDirectory m TypeEntry) ResourceSize 16
          then Inl ERROR_RESOURCE_DATA_NOT_FOUND
          else case LdkpFindResourceDirectoryEntry m ResourceBase ResourceSize (OffsetToDirectory m TypeEntry) Name of
            None \<Rightarrow> Inl ERROR_RESOURCE_NAME_NOT_FOUND
          | Some NameEntry \<Rightarrow>
            if \<not> DataIsDirectory m NameEntry then Inl ERROR_RESOURCE_NAME_NOT_FOUND
            else if \<not> LdkpResourceOffsetIsValid (OffsetToDirectory m NameEntry) ResourceSize 16
            then Inl ERROR_RESOURCE_DATA_NOT_FOUND
            else case (if Language \<noteq> 0
                then LdkpFindResourceDirectoryEntryById m ResourceBase ResourceSize (OffsetToDirectory m NameEntry) Language
                else LdkpGetFirstResourceDirectoryEntry m ResourceBase ResourceSize (OffsetToDirectory m NameEntry)) of
              None \<Rightarrow> Inl ERROR_RESOURCE_LANG_NOT_FOUND
            | Some LanguageEntry \<Rightarrow>
              if DataIsDirectory m LanguageEntry then Inl ERROR_RESOURCE_LANG_NOT_FOUND
              else if \<not> LdkpResourceOffsetIsValid (OffsetToData m LanguageEntry) ResourceSize 16
              then Inl ERROR_RESOURCE_DATA_NOT_FOUND
              else
                let DataEntry = ResourceBase + OffsetToData m LanguageEntry in
                case LdkpMappedImageRvaToPointer m NtHeader ImageBase
                    (DataEntry_OffsetToData m DataEntry) (DataEntry_Size m DataEntry) of
                  None \<Rightarrow> Inl ERROR_RESOURCE_DATA_NOT_FOUND
                | Some _ \<Rightarrow> Inr DataEntry)"

section \<open>What they read\<close>

text \<open>Two memories that agree on \<open>n\<close> bytes from \<open>a\<close>. A routine that gives the same result for all such
  memories depends on nothing outside these bytes.\<close>

definition agree_on :: "addr \<Rightarrow> nat \<Rightarrow> image \<Rightarrow> image \<Rightarrow> bool" where
  "agree_on a n m m' \<longleftrightarrow> (\<forall>x. a \<le> x \<and> x < a + n \<longrightarrow> m' x = m x)"

lemma agree_read: "agree_on a n m m' \<Longrightarrow> a \<le> p \<Longrightarrow> p + k \<le> a + n \<Longrightarrow> read_le k m' p = read_le k m p"
  by (rule read_le_cong) (auto simp: agree_on_def)

lemma valid_offset: "LdkpResourceOffsetIsValid Offset Size Req \<longleftrightarrow> Offset + Req \<le> Size"
  by (auto simp: LdkpResourceOffsetIsValid_def)

lemma first_entry_Some: "first_entry P n p = Some q \<Longrightarrow> P q \<and> p \<le> q \<and> q + 8 \<le> p + 8 * n"
  by (induction n arbitrary: p) (fastforce split: if_splits)+

lemma first_entry_cong:
  "(\<And>q. p \<le> q \<Longrightarrow> q + 8 \<le> p + 8 * n \<Longrightarrow> P' q = P q) \<Longrightarrow> first_entry P' n p = first_entry P n p"
proof (induction n arbitrary: p)
  case (Suc n)
  have "first_entry P' n (p + 8) = first_entry P n (p + 8)" by (rule Suc.IH) (rule Suc.prems, simp_all)
  moreover have "P' p = P p" by (rule Suc.prems) simp_all
  ultimately show ?case by simp
qed simp

lemma entry_fields_agree:
  assumes "agree_on a n m m'" "a \<le> p" "p + 8 \<le> a + n"
  shows "NameIsString m' p = NameIsString m p" "Entry_Id m' p = Entry_Id m p" "NameOffset m' p = NameOffset m p"
    "DataIsDirectory m' p = DataIsDirectory m p" "OffsetToDirectory m' p = OffsetToDirectory m p"
    "OffsetToData m' p = OffsetToData m p"
proof -
  have "read_le 4 m' p = read_le 4 m p" "read_le 2 m' p = read_le 2 m p" "read_le 4 m' (p + 4) = read_le 4 m (p + 4)"
    by (rule agree_read [OF assms(1)]; use assms in simp)+
  then show "NameIsString m' p = NameIsString m p" "Entry_Id m' p = Entry_Id m p" "NameOffset m' p = NameOffset m p"
    "DataIsDirectory m' p = DataIsDirectory m p" "OffsetToDirectory m' p = OffsetToDirectory m p"
    "OffsetToData m' p = OffsetToData m p"
    by (simp_all add: NameIsString_def Entry_Id_def NameOffset_def DataIsDirectory_def OffsetToDirectory_def OffsetToData_def)
qed

lemma EntryCount_agree:
  "agree_on a n m m' \<Longrightarrow> a \<le> d \<Longrightarrow> d + 16 \<le> a + n \<Longrightarrow> EntryCount m' d = EntryCount m d"
  by (simp add: EntryCount_def agree_read)

lemma name_matches_agree:
  "agree_on a n m m' \<Longrightarrow> a \<le> p \<Longrightarrow> p + 2 * k \<le> a + n \<Longrightarrow> name_matches m' p k s = name_matches m p k s"
proof (induction m p k s rule: name_matches.induct)
  case (3 m p k c s)
  then show ?case using agree_read [of a n m m' p 2] by simp
qed simp_all

lemma string_matches_agree:
  assumes "agree_on a n m m'" "a \<le> p" "p + 8 \<le> a + n"
  shows "LdkpResourceStringMatches m' a n p s = LdkpResourceStringMatches m a n p s"
proof (cases s)
  case (StringResource str)
  let ?o = "NameOffset m p"
  note fields = entry_fields_agree [OF assms]
  show ?thesis
  proof (cases "?o + 2 \<le> n")
    case True
    then have "read_le 2 m' (a + ?o) = read_le 2 m (a + ?o)" by (simp add: agree_read [OF assms(1)])
    moreover have "name_matches m' (a + ?o + 2) k str = name_matches m (a + ?o + 2) k str" if "?o + (2 + k * 2) \<le> n" for k
      by (rule name_matches_agree [OF assms(1)]) (use that in simp_all)
    ultimately show ?thesis using fields by (simp add: StringResource LdkpResourceStringMatches_def Let_def valid_offset)
  qed (use fields in \<open>simp add: StringResource LdkpResourceStringMatches_def valid_offset\<close>)
qed (simp add: LdkpResourceStringMatches_def)

text \<open>The three walks have the same frame: the count is read when 16 bytes are inside, the entries when the
  table is.\<close>

lemma table_walk_agree:
  assumes "agree_on a n m m'" and "\<And>q. a \<le> q \<Longrightarrow> q + 8 \<le> a + n \<Longrightarrow> P' q = P q"
  shows "(if \<not> LdkpResourceOffsetIsValid d n 16 then None
      else let Directory = a + d; k = EntryCount m' Directory in
        if k = 0 then None else if \<not> LdkpResourceOffsetIsValid (d + 16) n (k * 8) then None
        else first_entry P' k (Directory + 16)) =
    (if \<not> LdkpResourceOffsetIsValid d n 16 then None
      else let Directory = a + d; k = EntryCount m Directory in
        if k = 0 then None else if \<not> LdkpResourceOffsetIsValid (d + 16) n (k * 8) then None
        else first_entry P k (Directory + 16))"
proof (cases "d + 16 \<le> n")
  case True
  then have "EntryCount m' (a + d) = EntryCount m (a + d)" by (simp add: EntryCount_agree [OF assms(1)])
  moreover have "first_entry P' k (a + d + 16) = first_entry P k (a + d + 16)" if "d + 16 + k * 8 \<le> n" for k
    by (rule first_entry_cong, rule assms(2)) (use that in simp_all)
  ultimately show ?thesis by (simp add: valid_offset Let_def)
qed (simp add: valid_offset)

lemma find_by_id_agree:
  "agree_on a n m m' \<Longrightarrow> LdkpFindResourceDirectoryEntryById m' a n d i = LdkpFindResourceDirectoryEntryById m a n d i"
  unfolding LdkpFindResourceDirectoryEntryById_def by (rule table_walk_agree) (simp_all add: entry_fields_agree)

lemma find_entry_agree:
  "agree_on a n m m' \<Longrightarrow> LdkpFindResourceDirectoryEntry m' a n d s = LdkpFindResourceDirectoryEntry m a n d s"
  unfolding LdkpFindResourceDirectoryEntry_def
  by (rule table_walk_agree) (simp_all add: entry_fields_agree string_matches_agree)

lemma get_first_agree:
  "agree_on a n m m' \<Longrightarrow> LdkpGetFirstResourceDirectoryEntry m' a n d = LdkpGetFirstResourceDirectoryEntry m a n d"
  by (auto simp: LdkpGetFirstResourceDirectoryEntry_def valid_offset Let_def EntryCount_agree)

lemma find_by_id_inside:
  "LdkpFindResourceDirectoryEntryById m a n d i = Some p \<Longrightarrow> a \<le> p \<and> p + 8 \<le> a + n"
  by (auto simp: LdkpFindResourceDirectoryEntryById_def valid_offset Let_def split: if_splits dest!: first_entry_Some)

lemma find_entry_inside:
  "LdkpFindResourceDirectoryEntry m a n d s = Some p \<Longrightarrow> a \<le> p \<and> p + 8 \<le> a + n"
  by (auto simp: LdkpFindResourceDirectoryEntry_def valid_offset Let_def split: if_splits dest!: first_entry_Some)

lemma get_first_inside:
  "LdkpGetFirstResourceDirectoryEntry m a n d = Some p \<Longrightarrow> a \<le> p \<and> p + 8 \<le> a + n"
  by (auto simp: LdkpGetFirstResourceDirectoryEntry_def valid_offset Let_def split: if_splits)

text \<open>The last level of the lookup, and the two entries above it.\<close>

definition language_entry :: "image \<Rightarrow> addr \<Rightarrow> nat \<Rightarrow> nat \<Rightarrow> nat \<Rightarrow> addr option" where
  "language_entry m a n d Language =
     (if Language \<noteq> 0 then LdkpFindResourceDirectoryEntryById m a n d Language
      else LdkpGetFirstResourceDirectoryEntry m a n d)"

lemma language_entry_agree: "agree_on a n m m' \<Longrightarrow> language_entry m' a n d l = language_entry m a n d l"
  by (simp add: language_entry_def find_by_id_agree get_first_agree)

lemma language_entry_inside: "language_entry m a n d l = Some p \<Longrightarrow> a \<le> p \<and> p + 8 \<le> a + n"
  by (auto simp: language_entry_def find_by_id_inside get_first_inside split: if_splits)

definition data_of :: "image \<Rightarrow> addr option \<Rightarrow> addr \<Rightarrow> nat \<Rightarrow> addr \<Rightarrow> nat \<Rightarrow> nat \<Rightarrow> dos_error + addr" where
  "data_of m nt a n base d l =
     (case language_entry m a n d l of
        None \<Rightarrow> Inl ERROR_RESOURCE_LANG_NOT_FOUND
      | Some p \<Rightarrow>
        if DataIsDirectory m p then Inl ERROR_RESOURCE_LANG_NOT_FOUND
        else if \<not> LdkpResourceOffsetIsValid (OffsetToData m p) n 16 then Inl ERROR_RESOURCE_DATA_NOT_FOUND
        else case LdkpMappedImageRvaToPointer m nt base (DataEntry_OffsetToData m (a + OffsetToData m p))
            (DataEntry_Size m (a + OffsetToData m p)) of
          None \<Rightarrow> Inl ERROR_RESOURCE_DATA_NOT_FOUND
        | Some _ \<Rightarrow> Inr (a + OffsetToData m p))"

definition below :: "image \<Rightarrow> nat \<Rightarrow> dos_error \<Rightarrow> addr option \<Rightarrow> (nat \<Rightarrow> dos_error + addr) \<Rightarrow> dos_error + addr" where
  "below m n err e f =
     (case e of
        None \<Rightarrow> Inl err
      | Some p \<Rightarrow>
        if \<not> DataIsDirectory m p then Inl err
        else if \<not> LdkpResourceOffsetIsValid (OffsetToDirectory m p) n 16 then Inl ERROR_RESOURCE_DATA_NOT_FOUND
        else f (OffsetToDirectory m p))"

lemma find_data_levels:
  "LdkpFindMappedResourceDataEntry m nt (Some (a, n)) base ty nm l =
    (if ty = IntResource 0 then Inl ERROR_RESOURCE_TYPE_NOT_FOUND
     else if nm = IntResource 0 then Inl ERROR_RESOURCE_NAME_NOT_FOUND
     else if n = 0 then Inl ERROR_RESOURCE_TYPE_NOT_FOUND
     else below m n ERROR_RESOURCE_TYPE_NOT_FOUND (LdkpFindResourceDirectoryEntry m a n 0 ty) (\<lambda>d.
       below m n ERROR_RESOURCE_NAME_NOT_FOUND (LdkpFindResourceDirectoryEntry m a n d nm) (\<lambda>d.
         data_of m nt a n base d l)))"
  unfolding LdkpFindMappedResourceDataEntry_def below_def data_of_def language_entry_def Let_def option.case prod.case ..

lemma below_agree:
  assumes "agree_on a n m m'" and "\<And>p. e = Some p \<Longrightarrow> a \<le> p \<and> p + 8 \<le> a + n" and "\<And>d. f' d = f d"
  shows "below m' n err e f' = below m n err e f"
proof (cases e)
  case (Some p)
  then have "DataIsDirectory m' p = DataIsDirectory m p" "OffsetToDirectory m' p = OffsetToDirectory m p"
    using entry_fields_agree [OF assms(1), of p] assms(2) by blast+
  then show ?thesis by (simp add: below_def assms(3) Some)
qed (simp add: below_def)

lemma data_of_agree:
  assumes "agree_on a n m m'" and "\<And>h. nt = Some h \<Longrightarrow> SizeOfImage m' h = SizeOfImage m h"
  shows "data_of m' nt a n base d l = data_of m nt a n base d l"
proof (cases "language_entry m a n d l")
  case None
  then show ?thesis by (simp add: data_of_def language_entry_agree [OF assms(1)])
next
  case (Some p)
  note inside = language_entry_inside [OF Some]
  have fields: "DataIsDirectory m' p = DataIsDirectory m p" "OffsetToData m' p = OffsetToData m p"
    using entry_fields_agree [OF assms(1), of p] inside by blast+
  have entry: "DataEntry_OffsetToData m' (a + k) = DataEntry_OffsetToData m (a + k)"
    "DataEntry_Size m' (a + k) = DataEntry_Size m (a + k)" if "k + 16 \<le> n" for k
    using that by (simp_all add: DataEntry_OffsetToData_def DataEntry_Size_def agree_read [OF assms(1)])
  have "LdkpMappedImageRvaToPointer m' nt base r k = LdkpMappedImageRvaToPointer m nt base r k" for r k
    using assms(2) by (simp add: LdkpMappedImageRvaToPointer_def split: option.split)
  then show ?thesis using entry
    by (cases "OffsetToData m p + 16 \<le> n")
      (simp_all add: data_of_def language_entry_agree [OF assms(1)] Some fields valid_offset split: option.split)
qed

lemma mapped_pointer: "LdkpMappedImageRvaToPointer m nt base r k = Some q \<Longrightarrow>
    \<exists>h. nt = Some h \<and> q = base + r \<and> r + k \<le> SizeOfImage m h"
  by (auto simp: LdkpMappedImageRvaToPointer_def split: option.splits if_splits)

text \<open>C31: Whatever an image holds, looking up a resource reads nothing but the bytes of its resource directory
  and the size of the image in its headers: a memory that agrees there gives the same answer. A description
  that is found lies in the directory, and the data it describes lies in the image.\<close>

theorem resource_reads_inside:
  assumes "agree_on ResourceBase ResourceSize m m'"
    and "\<And>h. NtHeader = Some h \<Longrightarrow> SizeOfImage m' h = SizeOfImage m h"
  shows "LdkpFindMappedResourceDataEntry m' NtHeader (Some (ResourceBase, ResourceSize)) ImageBase Type Name Language =
      LdkpFindMappedResourceDataEntry m NtHeader (Some (ResourceBase, ResourceSize)) ImageBase Type Name Language
    \<and> (\<forall>e. LdkpFindMappedResourceDataEntry m NtHeader (Some (ResourceBase, ResourceSize)) ImageBase Type Name Language = Inr e \<longrightarrow>
        ResourceBase \<le> e \<and> e + 16 \<le> ResourceBase + ResourceSize \<and>
        (\<exists>h. NtHeader = Some h \<and> DataEntry_OffsetToData m e + DataEntry_Size m e \<le> SizeOfImage m h))"
proof
  show "LdkpFindMappedResourceDataEntry m' NtHeader (Some (ResourceBase, ResourceSize)) ImageBase Type Name Language =
      LdkpFindMappedResourceDataEntry m NtHeader (Some (ResourceBase, ResourceSize)) ImageBase Type Name Language"
    unfolding find_data_levels find_entry_agree [OF assms(1)]
    by (intro if_cong refl below_agree [OF assms(1)] find_entry_inside data_of_agree [OF assms])
  have data: "ResourceBase \<le> e \<and> e + 16 \<le> ResourceBase + ResourceSize \<and>
        (\<exists>h. NtHeader = Some h \<and> DataEntry_OffsetToData m e + DataEntry_Size m e \<le> SizeOfImage m h)"
    if "data_of m NtHeader ResourceBase ResourceSize ImageBase d Language = Inr e" for d e
    using that by (auto simp: data_of_def valid_offset split: option.splits if_splits dest!: mapped_pointer)
  show "\<forall>e. LdkpFindMappedResourceDataEntry m NtHeader (Some (ResourceBase, ResourceSize)) ImageBase Type Name Language = Inr e \<longrightarrow>
        ResourceBase \<le> e \<and> e + 16 \<le> ResourceBase + ResourceSize \<and>
        (\<exists>h. NtHeader = Some h \<and> DataEntry_OffsetToData m e + DataEntry_Size m e \<le> SizeOfImage m h)"
    unfolding find_data_levels below_def
    by (intro allI impI) (auto split: option.splits if_splits dest!: data)
qed

section \<open>What they find\<close>

text \<open>Resources as data: tables of types, names and languages. A language leads to the offset of the
  description of the data.\<close>

type_synonym 'a resource_table = "(resource_name \<times> 'a) list"
type_synonym resource_tree = "nat resource_table resource_table resource_table"

text \<open>How a table lies in an image: \<open>row p v\<close> says that the entry at \<open>p\<close> leads to \<open>v\<close>.\<close>

fun key_at :: "image \<Rightarrow> addr \<Rightarrow> nat \<Rightarrow> addr \<Rightarrow> resource_name \<Rightarrow> bool" where
  "key_at m a n p (IntResource i) \<longleftrightarrow> \<not> NameIsString m p \<and> Entry_Id m p = i"
| "key_at m a n p (StringResource s) \<longleftrightarrow> NameIsString m p \<and> NameOffset m p + 2 + 2 * length s \<le> n \<and>
     read_le 2 m (a + NameOffset m p) = length s \<and> entries_at m (a + NameOffset m p + 2) (map unat s)"

fun rows_at :: "(addr \<Rightarrow> 'a \<Rightarrow> bool) \<Rightarrow> image \<Rightarrow> addr \<Rightarrow> nat \<Rightarrow> addr \<Rightarrow> 'a resource_table \<Rightarrow> bool" where
  "rows_at row m a n p [] \<longleftrightarrow> True"
| "rows_at row m a n p ((k, v) # rows) \<longleftrightarrow> key_at m a n p k \<and> row p v \<and> rows_at row m a n (p + 8) rows"

definition resource_table_at :: "(addr \<Rightarrow> 'a \<Rightarrow> bool) \<Rightarrow> image \<Rightarrow> addr \<Rightarrow> nat \<Rightarrow> nat \<Rightarrow> 'a resource_table \<Rightarrow> bool" where
  "resource_table_at row m a n d rows \<longleftrightarrow> d + 16 + 8 * length rows \<le> n \<and> EntryCount m (a + d) = length rows \<and>
     rows_at row m a n (a + d + 16) rows"

definition subtable_at :: "(addr \<Rightarrow> 'a \<Rightarrow> bool) \<Rightarrow> image \<Rightarrow> addr \<Rightarrow> nat \<Rightarrow> addr \<Rightarrow> 'a resource_table \<Rightarrow> bool" where
  "subtable_at row m a n p rows \<longleftrightarrow> DataIsDirectory m p \<and> resource_table_at row m a n (OffsetToDirectory m p) rows"

definition description_at :: "image \<Rightarrow> nat \<Rightarrow> addr \<Rightarrow> nat \<Rightarrow> bool" where
  "description_at m n p v \<longleftrightarrow> \<not> DataIsDirectory m p \<and> OffsetToData m p = v \<and> v + 16 \<le> n"

definition resource_tree_at :: "image \<Rightarrow> addr \<Rightarrow> nat \<Rightarrow> resource_tree \<Rightarrow> bool" where
  "resource_tree_at m a n = resource_table_at (subtable_at (subtable_at (description_at m n) m a n) m a n) m a n 0"

text \<open>The lookup on the tables. Language 0 stands for the first one.\<close>

definition lookup_resource :: "resource_tree \<Rightarrow> resource_name \<Rightarrow> resource_name \<Rightarrow> nat \<Rightarrow> dos_error + nat" where
  "lookup_resource tree Type Name Language =
     (case map_of tree Type of
        None \<Rightarrow> Inl ERROR_RESOURCE_TYPE_NOT_FOUND
      | Some names \<Rightarrow>
        (case map_of names Name of
           None \<Rightarrow> Inl ERROR_RESOURCE_NAME_NOT_FOUND
         | Some langs \<Rightarrow>
           (case (if Language \<noteq> 0 then map_of langs (IntResource Language)
                  else if langs = [] then None else Some (snd (hd langs))) of
              None \<Rightarrow> Inl ERROR_RESOURCE_LANG_NOT_FOUND
            | Some v \<Rightarrow> Inr v)))"

lemma name_matches_string:
  "entries_at m p (map unat t) \<Longrightarrow> name_matches m p (length t) s \<longleftrightarrow> s = t"
proof (induction t arbitrary: p s)
  case (Cons c t)
  then show ?case by (cases s) (auto simp: unsigned_word_eqI)
qed simp

lemma key_at_matches:
  assumes "key_at m a n p k"
  shows "(if \<not> NameIsString m p then LdkpResourceIdMatches w (Entry_Id m p)
      else LdkpResourceStringMatches m a n p w) \<longleftrightarrow> w = k"
  using assms
  by (cases k; cases w)
    (auto simp: LdkpResourceIdMatches_def LdkpResourceStringMatches_def valid_offset name_matches_string Let_def)

lemma key_at_id: "key_at m a n p k \<Longrightarrow> \<not> NameIsString m p \<and> Entry_Id m p = i \<longleftrightarrow> IntResource i = k"
  by (cases k) auto

lemma first_row:
  assumes "rows_at row m a n p rows" and "\<And>q k. key_at m a n q k \<Longrightarrow> P q \<longleftrightarrow> w = k"
  shows "case map_of rows w of None \<Rightarrow> first_entry P (length rows) p = None
    | Some v \<Rightarrow> \<exists>q. first_entry P (length rows) p = Some q \<and> row q v"
  using assms(1)
proof (induction rows arbitrary: p)
  case (Cons kv rows)
  obtain k v where kv: "kv = (k, v)" by fastforce
  have "key_at m a n p k" "row p v" "rows_at row m a n (p + 8) rows" using Cons.prems by (simp_all add: kv)
  then show ?case using assms(2) Cons.IH [of "p + 8"] unfolding kv by (cases "w = k") (auto split: option.splits)
qed simp

text \<open>The search of one table, with the check that is made before it, and of a table of languages.\<close>

lemma find_in_table:
  assumes "resource_table_at row m a n d rows"
  shows "case map_of rows w of None \<Rightarrow> LdkpFindResourceDirectoryEntry m a n d w = None
    | Some v \<Rightarrow> \<exists>q. LdkpFindResourceDirectoryEntry m a n d w = Some q \<and> row q v"
proof -
  have rows: "rows_at row m a n (a + d + 16) rows" and b: "d + 16 + 8 * length rows \<le> n" "EntryCount m (a + d) = length rows"
    using assms by (simp_all add: resource_table_at_def)
  have "LdkpFindResourceDirectoryEntry m a n d w = first_entry (\<lambda>Entry.
        if \<not> NameIsString m Entry then LdkpResourceIdMatches w (Entry_Id m Entry)
        else LdkpResourceStringMatches m a n Entry w) (length rows) (a + d + 16)"
    using b by (simp add: LdkpFindResourceDirectoryEntry_def valid_offset Let_def)
  then show ?thesis by (simp only:) (rule first_row [OF rows], erule key_at_matches)
qed

lemma find_id_in_table:
  assumes "resource_table_at row m a n d rows"
  shows "case map_of rows (IntResource i) of None \<Rightarrow> LdkpFindResourceDirectoryEntryById m a n d i = None
    | Some v \<Rightarrow> \<exists>q. LdkpFindResourceDirectoryEntryById m a n d i = Some q \<and> row q v"
proof -
  have rows: "rows_at row m a n (a + d + 16) rows" and b: "d + 16 + 8 * length rows \<le> n" "EntryCount m (a + d) = length rows"
    using assms by (simp_all add: resource_table_at_def)
  have "LdkpFindResourceDirectoryEntryById m a n d i =
      first_entry (\<lambda>Entry. \<not> NameIsString m Entry \<and> Entry_Id m Entry = i) (length rows) (a + d + 16)"
    using b by (simp add: LdkpFindResourceDirectoryEntryById_def valid_offset Let_def)
  then show ?thesis by (simp only:) (rule first_row [OF rows], erule key_at_id)
qed

lemma get_first_in_table:
  assumes "resource_table_at row m a n d rows"
  shows "if rows = [] then LdkpGetFirstResourceDirectoryEntry m a n d = None
    else \<exists>q. LdkpGetFirstResourceDirectoryEntry m a n d = Some q \<and> row q (snd (hd rows))"
  using assms by (cases rows) (auto simp: resource_table_at_def LdkpGetFirstResourceDirectoryEntry_def valid_offset Let_def)

lemma below_table:
  assumes "case o' of None \<Rightarrow> e = None | Some v \<Rightarrow> \<exists>q. e = Some q \<and> subtable_at row m a n q v"
    and "\<And>d rows. o' = Some rows \<Longrightarrow> resource_table_at row m a n d rows \<Longrightarrow> f d = g rows"
  shows "below m n err e f = (case o' of None \<Rightarrow> Inl err | Some rows \<Rightarrow> g rows)"
  using assms
  by (auto simp: below_def subtable_at_def resource_table_at_def valid_offset split: option.splits)

lemma data_of_table:
  assumes "resource_table_at (description_at m n) m a n d langs"
  shows "data_of m nt a n base d l =
    (case (if l \<noteq> 0 then map_of langs (IntResource l) else if langs = [] then None else Some (snd (hd langs))) of
       None \<Rightarrow> Inl ERROR_RESOURCE_LANG_NOT_FOUND
     | Some v \<Rightarrow>
         (case LdkpMappedImageRvaToPointer m nt base (DataEntry_OffsetToData m (a + v)) (DataEntry_Size m (a + v)) of
            None \<Rightarrow> Inl ERROR_RESOURCE_DATA_NOT_FOUND | Some _ \<Rightarrow> Inr (a + v)))"
proof -
  let ?o = "if l \<noteq> 0 then map_of langs (IntResource l) else if langs = [] then None else Some (snd (hd langs))"
  have o: "case ?o of None \<Rightarrow> language_entry m a n d l = None
    | Some v \<Rightarrow> \<exists>q. language_entry m a n d l = Some q \<and> description_at m n q v"
  proof (cases "l = 0")
    case True
    then show ?thesis using get_first_in_table [OF assms] by (cases "langs = []") (simp_all add: language_entry_def)
  next
    case False
    have e: "language_entry m a n d l = LdkpFindResourceDirectoryEntryById m a n d l" using False by (simp add: language_entry_def)
    show ?thesis unfolding e if_P [OF False] by (rule find_id_in_table [OF assms])
  qed
  show ?thesis
  proof (cases ?o)
    case None
    then show ?thesis using o unfolding None data_of_def by simp
  next
    case (Some v)
    then obtain q where "language_entry m a n d l = Some q" "description_at m n q v" using o unfolding Some by auto
    then show ?thesis unfolding Some data_of_def by (auto simp: description_at_def valid_offset)
  qed
qed

text \<open>C30: On an image that holds a tree of resources, the lookup of a type, a name and a language gives the
  description the tree has for them, or the error code of the level that has no such entry; a description
  of data outside the image counts as missing. Numbers and names are found by their own kind of key, and
  language 0 finds the first language.\<close>

theorem find_resource:
  assumes "resource_tree_at m ResourceBase ResourceSize tree" and "Type \<noteq> IntResource 0" and "Name \<noteq> IntResource 0"
  shows "LdkpFindMappedResourceDataEntry m NtHeader (Some (ResourceBase, ResourceSize)) ImageBase Type Name Language =
    (case lookup_resource tree Type Name Language of
       Inl e \<Rightarrow> Inl e
     | Inr v \<Rightarrow>
         (case LdkpMappedImageRvaToPointer m NtHeader ImageBase
             (DataEntry_OffsetToData m (ResourceBase + v)) (DataEntry_Size m (ResourceBase + v)) of
            None \<Rightarrow> Inl ERROR_RESOURCE_DATA_NOT_FOUND | Some _ \<Rightarrow> Inr (ResourceBase + v)))"
proof -
  let ?data = "\<lambda>langs. case (if Language \<noteq> 0 then map_of langs (IntResource Language)
        else if langs = [] then None else Some (snd (hd langs))) of
       None \<Rightarrow> Inl ERROR_RESOURCE_LANG_NOT_FOUND
     | Some v \<Rightarrow>
         (case LdkpMappedImageRvaToPointer m NtHeader ImageBase
             (DataEntry_OffsetToData m (ResourceBase + v)) (DataEntry_Size m (ResourceBase + v)) of
            None \<Rightarrow> Inl ERROR_RESOURCE_DATA_NOT_FOUND | Some _ \<Rightarrow> Inr (ResourceBase + v))"
  note tree = assms(1) [unfolded resource_tree_at_def]
  have "ResourceSize \<noteq> 0" using tree by (simp add: resource_table_at_def)
  then have "LdkpFindMappedResourceDataEntry m NtHeader (Some (ResourceBase, ResourceSize)) ImageBase Type Name Language =
      (case map_of tree Type of None \<Rightarrow> Inl ERROR_RESOURCE_TYPE_NOT_FOUND
       | Some names \<Rightarrow> case map_of names Name of None \<Rightarrow> Inl ERROR_RESOURCE_NAME_NOT_FOUND | Some langs \<Rightarrow> ?data langs)"
    unfolding find_data_levels if_not_P [OF assms(2)] if_not_P [OF assms(3)] if_not_P [OF \<open>ResourceSize \<noteq> 0\<close>]
    by (intro below_table [OF find_in_table [OF tree]] below_table [OF find_in_table] data_of_table)
  then show ?thesis by (simp add: lookup_resource_def split: option.split)
qed

text \<open>An image with one string of type 6 and name 1 in language 1033, and a type with a name of its own;
  the headers are at 0 and the resources at 100.\<close>

definition sample_bytes :: "(nat \<times> u8 list) list" where
  "sample_bytes = [(80, [0, 2, 0, 0]),
     (112, [1, 0, 1, 0]), (116, [160, 0, 0, 128, 32, 0, 0, 128]), (124, [6, 0, 0, 0, 32, 0, 0, 128]),
     (144, [0, 0, 1, 0]), (148, [1, 0, 0, 0, 64, 0, 0, 128]),
     (176, [0, 0, 1, 0]), (180, [9, 4, 0, 0, 96, 0, 0, 0]),
     (196, [44, 1, 0, 0, 5, 0, 0, 0]), (260, [2, 0, 77, 0, 89, 0])]"

definition bytes_at :: "(nat \<times> u8 list) list \<Rightarrow> image" where
  "bytes_at bs x = (case List.find (\<lambda>(a, b). a \<le> x \<and> x < a + length b) bs of None \<Rightarrow> 0 | Some (a, b) \<Rightarrow> b ! (x - a))"

definition sample_image :: image where
  "sample_image x = bytes_at sample_bytes x"

definition sample_names :: "nat resource_table resource_table" where
  "sample_names = [(IntResource 1, [(IntResource 1033, 96)])]"

definition sample_tree :: resource_tree where
  "sample_tree = [(StringResource [77, 89], sample_names), (IntResource 6, sample_names)]"

lemma read_le_two: "read_le 2 m a = unat (m a) + 256 * unat (m (a + 1))"
  by (simp add: numeral_2_eq_2)

lemma read_le_four: "read_le 4 m a = unat (m a) + 256 * (unat (m (a + 1)) + 256 * (unat (m (a + 2)) + 256 * unat (m (a + 3))))"
proof -
  have "(4 :: nat) = Suc (Suc (Suc (Suc 0)))" by simp
  then show ?thesis by (simp only: read_le.simps) (simp add: numeral_3_eq_3)
qed

text \<open>One byte of the sample, by the run of bytes it lies in.\<close>

lemma bytes_at_simps:
  "bytes_at [] x = 0"
  "bytes_at ((a, b) # bs) x = (if a \<le> x \<and> x < a + length b then b ! (x - a) else bytes_at bs x)"
  by (simp_all add: bytes_at_def)

lemma sample_reads:
  "read_le 2 sample_image 112 = 1" "read_le 2 sample_image 114 = 1"
  "read_le 4 sample_image 116 = 2 ^ 31 + 160" "read_le 4 sample_image 120 = 2 ^ 31 + 32"
  "read_le 4 sample_image 124 = 6" "read_le 2 sample_image 124 = 6" "read_le 4 sample_image 128 = 2 ^ 31 + 32"
  "read_le 2 sample_image 260 = 2" "read_le 2 sample_image 262 = 77" "read_le 2 sample_image 264 = 89"
  "read_le 2 sample_image 144 = 0" "read_le 2 sample_image 146 = 1"
  "read_le 4 sample_image 148 = 1" "read_le 2 sample_image 148 = 1" "read_le 4 sample_image 152 = 2 ^ 31 + 64"
  "read_le 2 sample_image 176 = 0" "read_le 2 sample_image 178 = 1"
  "read_le 4 sample_image 180 = 1033" "read_le 2 sample_image 180 = 1033" "read_le 4 sample_image 184 = 96"
  by (simp_all add: sample_image_def bytes_at_simps sample_bytes_def read_le_two read_le_four)

lemma sample_tree_at: "resource_tree_at sample_image 100 200 sample_tree"
  by (simp add: resource_tree_at_def resource_table_at_def subtable_at_def description_at_def sample_tree_def sample_names_def
    EntryCount_def NameIsString_def Entry_Id_def NameOffset_def DataIsDirectory_def OffsetToDirectory_def OffsetToData_def
    sample_reads)

lemma sample_fields:
  "SizeOfImage sample_image 0 = 512"
  "DataEntry_OffsetToData sample_image 196 = 300" "DataEntry_Size sample_image 196 = 5"
  by (simp_all add: SizeOfImage_def DataEntry_OffsetToData_def DataEntry_Size_def sample_image_def bytes_at_simps sample_bytes_def read_le_four)

theorem find_resource_witness:
  "LdkpFindMappedResourceDataEntry sample_image (Some 0) (Some (100, 200)) 0 (StringResource [77, 89]) (IntResource 1) 0 = Inr 196
   \<and> LdkpFindMappedResourceDataEntry sample_image (Some 0) (Some (100, 200)) 0 (IntResource 6) (IntResource 1) 1041 =
      Inl ERROR_RESOURCE_LANG_NOT_FOUND"
  using find_resource [OF sample_tree_at, of "StringResource [77, 89]" "IntResource 1" "Some 0" 0 0]
    find_resource [OF sample_tree_at, of "IntResource 6" "IntResource 1" "Some 0" 0 1041]
  by (simp add: sample_fields LdkpMappedImageRvaToPointer_def lookup_resource_def sample_tree_def sample_names_def)

text \<open>Changing the data of the resource, which lies outside the directory, changes nothing for the lookup.\<close>

theorem resource_reads_inside_witness:
  "LdkpFindMappedResourceDataEntry (sample_image(300 := 7)) (Some 0) (Some (100, 200)) 0
     (IntResource 6) (IntResource 1) 1033 =
   LdkpFindMappedResourceDataEntry sample_image (Some 0) (Some (100, 200)) 0 (IntResource 6) (IntResource 1) 1033"
proof -
  have 1: "agree_on 100 200 sample_image (sample_image(300 := 7))" by (simp add: agree_on_def)
  have 2: "SizeOfImage (sample_image(300 := 7)) h = SizeOfImage sample_image h" if "Some 0 = Some h" for h
    using that by (simp add: SizeOfImage_def read_le_four)
  show ?thesis by (rule resource_reads_inside [OF 1 2, THEN conjunct1])
qed

end
