(* ===== verification/Messages.thy ===== *)
theory Messages
  imports Resources
begin

text \<open>
  Message texts (src/kernel32/winbase.c): the message table of an image, found through its resource
  directory, in the file of a system library or in a loaded module; the entry of a message in that table;
  and \<open>FormatMessage\<close>, which delivers the text in the caller's buffer or in a new block. Addresses in a
  file are offsets from its start.
\<close>

abbreviation (input) ERROR_INVALID_HANDLE :: dos_error where "ERROR_INVALID_HANDLE \<equiv> 6"
abbreviation (input) ERROR_NOT_ENOUGH_MEMORY :: dos_error where "ERROR_NOT_ENOUGH_MEMORY \<equiv> 8"
abbreviation (input) ERROR_INVALID_DATA :: dos_error where "ERROR_INVALID_DATA \<equiv> 13"
abbreviation (input) ERROR_INVALID_PARAMETER :: dos_error where "ERROR_INVALID_PARAMETER \<equiv> 87"
abbreviation (input) ERROR_INSUFFICIENT_BUFFER :: dos_error where "ERROR_INSUFFICIENT_BUFFER \<equiv> 122"
abbreviation (input) ERROR_MR_MID_NOT_FOUND :: dos_error where "ERROR_MR_MID_NOT_FOUND \<equiv> 317"

section \<open>Where the message table lies\<close>

text \<open>A place in a file for an address of the image. The difference of the file size and the size of the
  headers (264) is taken in 64 bits; the file offset is a 32-bit sum.\<close>

definition Misc_VirtualSize :: "image \<Rightarrow> addr \<Rightarrow> nat" where
  "Misc_VirtualSize m sh = read_le 4 m (sh + 8)"

definition pe_header :: "image \<Rightarrow> nat \<Rightarrow> addr option" where
  "pe_header m ImageSize =
     (if read_le 2 m 0 \<noteq> 0x5A4D then None
      else
        let e_lfanew = read_le 4 m 60 in
        if 2 ^ 31 \<le> e_lfanew \<or> e_lfanew > (ImageSize + 2 ^ 64 - 264) mod 2 ^ 64 then None
        else if read_le 4 m e_lfanew \<noteq> 0x4550 then None
        else Some e_lfanew)"

fun section_scan :: "image \<Rightarrow> nat \<Rightarrow> nat \<Rightarrow> nat \<Rightarrow> addr \<Rightarrow> nat list \<Rightarrow> addr option" where
  "section_scan m ImageSize Rva RequiredSize nt [] = None"
| "section_scan m ImageSize Rva RequiredSize nt (i # is) =
     (let sh = section_header m nt i; va = VirtualAddress m sh;
          Span = max (Misc_VirtualSize m sh) (SizeOfRawData m sh); RawPointer = PointerToRawData m sh in
      if Span = 0 \<or> RequiredSize > Span then section_scan m ImageSize Rva RequiredSize nt is
      else if va \<le> Rva \<and> Rva - va \<le> Span - RequiredSize then
        let FileOffset = (RawPointer + (Rva - va)) mod 2 ^ 32 in
        if RawPointer > ImageSize \<or> FileOffset > ImageSize - RequiredSize then None else Some FileOffset
      else section_scan m ImageSize Rva RequiredSize nt is)"

definition LdkpPeRvaToFilePointer :: "image \<Rightarrow> nat \<Rightarrow> nat \<Rightarrow> nat \<Rightarrow> addr option" where
  "LdkpPeRvaToFilePointer m ImageSize Rva RequiredSize =
     (if RequiredSize > ImageSize then None
      else case pe_header m ImageSize of
        None \<Rightarrow> None
      | Some nt \<Rightarrow> section_scan m ImageSize Rva RequiredSize nt [0..<NumberOfSections m nt])"

text \<open>The third data directory is that of the resources, 152 bytes behind the NT headers' start.\<close>

definition LdkpGetPeResourceDirectory :: "image \<Rightarrow> nat \<Rightarrow> (addr \<times> nat) option" where
  "LdkpGetPeResourceDirectory m ImageSize =
     (case pe_header m ImageSize of
        None \<Rightarrow> None
      | Some nt \<Rightarrow>
        let Directory_VirtualAddress = read_le 4 m (nt + 152); Directory_Size = read_le 4 m (nt + 156) in
        if Directory_VirtualAddress = 0 \<or> Directory_Size < 16 then None
        else case LdkpPeRvaToFilePointer m ImageSize Directory_VirtualAddress 16 of
          None \<Rightarrow> None
        | Some ResourceDirectory \<Rightarrow> Some (ResourceDirectory, Directory_Size))"

text \<open>From the resources to the description of the message table (type 11): the first name, and the
  wanted language or else the first one.\<close>

definition message_data_entry :: "image \<Rightarrow> addr \<Rightarrow> nat \<Rightarrow> nat \<Rightarrow> addr option" where
  "message_data_entry m ResourceBase ResourceSize LanguageId =
     (case LdkpFindResourceDirectoryEntryById m ResourceBase ResourceSize 0 11 of
        None \<Rightarrow> None
      | Some TypeEntry \<Rightarrow>
        if \<not> DataIsDirectory m TypeEntry \<or> \<not> LdkpResourceOffsetIsValid (OffsetToDirectory m TypeEntry) ResourceSize 16 then None
        else case LdkpGetFirstResourceDirectoryEntry m ResourceBase ResourceSize (OffsetToDirectory m TypeEntry) of
          None \<Rightarrow> None
        | Some NameEntry \<Rightarrow>
          if \<not> DataIsDirectory m NameEntry \<or> \<not> LdkpResourceOffsetIsValid (OffsetToDirectory m NameEntry) ResourceSize 16 then None
          else
            let d = OffsetToDirectory m NameEntry;
                wanted = (if LanguageId \<noteq> 0 then LdkpFindResourceDirectoryEntryById m ResourceBase ResourceSize d LanguageId
                  else None);
                chosen = (if wanted = None then LdkpGetFirstResourceDirectoryEntry m ResourceBase ResourceSize d else wanted) in
            case chosen of
              None \<Rightarrow> None
            | Some LanguageEntry \<Rightarrow>
              if DataIsDirectory m LanguageEntry \<or> \<not> LdkpResourceOffsetIsValid (OffsetToData m LanguageEntry) ResourceSize 16
              then None
              else
                let DataEntry = ResourceBase + OffsetToData m LanguageEntry in
                if DataEntry_Size m DataEntry < 16 then None else Some DataEntry)"

text \<open>In a file the table has to lie inside it; in a loaded image its address is taken as it is. The
  results are the address of the table and its size.\<close>

definition LdkpFindMessageResourceData :: "image \<Rightarrow> nat \<Rightarrow> nat \<Rightarrow> (addr \<times> nat) option" where
  "LdkpFindMessageResourceData m ImageSize LanguageId =
     (case LdkpGetPeResourceDirectory m ImageSize of
        None \<Rightarrow> None
      | Some (ResourceBase, ResourceSize) \<Rightarrow>
        case message_data_entry m ResourceBase ResourceSize LanguageId of
          None \<Rightarrow> None
        | Some DataEntry \<Rightarrow>
          case LdkpPeRvaToFilePointer m ImageSize (DataEntry_OffsetToData m DataEntry) (DataEntry_Size m DataEntry) of
            None \<Rightarrow> None
          | Some p \<Rightarrow> Some (p, DataEntry_Size m DataEntry))"

definition LdkpFindMappedMessageResourceData :: "image \<Rightarrow> (addr \<times> nat) option \<Rightarrow> addr \<Rightarrow> nat \<Rightarrow> (addr \<times> nat) option" where
  "LdkpFindMappedMessageResourceData m Directory ImageBase LanguageId =
     (case Directory of
        None \<Rightarrow> None
      | Some (ResourceBase, ResourceSize) \<Rightarrow>
        if ResourceSize = 0 then None
        else case message_data_entry m ResourceBase ResourceSize LanguageId of
          None \<Rightarrow> None
        | Some DataEntry \<Rightarrow> Some (ImageBase + DataEntry_OffsetToData m DataEntry, DataEntry_Size m DataEntry))"

section \<open>The entry of a message\<close>

definition Entry_Length :: "image \<Rightarrow> addr \<Rightarrow> nat" where
  "Entry_Length m Entry = read_le 2 m Entry"

definition Entry_Flags :: "image \<Rightarrow> addr \<Rightarrow> nat" where
  "Entry_Flags m Entry = read_le 2 m (Entry + 2)"

text \<open>The inner loop walks over the entries of a block, from the first one to that of the message. The
  result is \<open>Some\<close> for a return from the routine and \<open>None\<close> for the end of the loop.\<close>

function entry_walk :: "image \<Rightarrow> addr \<Rightarrow> nat \<Rightarrow> nat \<Rightarrow> nat \<Rightarrow> nat \<Rightarrow> nat \<Rightarrow> addr option option" where
  "entry_walk m MessageData Size MessageId HighId i off =
     (if i \<le> HighId then
        let Entry = MessageData + off in
        if \<not> LdkpResourceOffsetIsValid off Size 6 \<or> Entry_Length m Entry < 4 then Some None
        else if \<not> LdkpResourceOffsetIsValid off Size (Entry_Length m Entry) then Some None
        else if i = MessageId then Some (Some Entry)
        else entry_walk m MessageData Size MessageId HighId (Suc i) (off + Entry_Length m Entry)
      else None)"
  by pat_completeness auto
termination
  by (relation "measure (\<lambda>(m, a, n, w, h, i, off). Suc h - i)") auto

declare entry_walk.simps [simp del]

text \<open>The outer loop over the blocks, each 12 bytes long.\<close>

fun block_walk :: "image \<Rightarrow> addr \<Rightarrow> nat \<Rightarrow> nat \<Rightarrow> nat \<Rightarrow> addr \<Rightarrow> addr option" where
  "block_walk m MessageData Size MessageId 0 Block = None"
| "block_walk m MessageData Size MessageId (Suc n) Block =
     (let LowId = read_le 4 m Block; HighId = read_le 4 m (Block + 4); EntryOffset = read_le 4 m (Block + 8) in
      if MessageId < LowId \<or> MessageId > HighId then block_walk m MessageData Size MessageId n (Block + 12)
      else if \<not> LdkpResourceOffsetIsValid EntryOffset Size 6 then None
      else case entry_walk m MessageData Size MessageId HighId LowId EntryOffset of
          Some r \<Rightarrow> r
        | None \<Rightarrow> block_walk m MessageData Size MessageId n (Block + 12))"

definition LdkpFindMessageResourceEntry :: "image \<Rightarrow> addr \<Rightarrow> nat \<Rightarrow> nat \<Rightarrow> addr option" where
  "LdkpFindMessageResourceEntry m MessageData MessageResourceSize MessageId =
     (if MessageResourceSize < 4 then None
      else
        let NumberOfBlocks = read_le 4 m MessageData in
        if NumberOfBlocks > (MessageResourceSize - 4) div 12 then None
        else block_walk m MessageData MessageResourceSize MessageId NumberOfBlocks (MessageData + 4))"

definition LdkpFindMessageInMappedImage :: "image \<Rightarrow> (addr \<times> nat) option \<Rightarrow> addr \<Rightarrow> nat \<Rightarrow> nat \<Rightarrow> addr option" where
  "LdkpFindMessageInMappedImage m Directory ImageBase MessageId LanguageId =
     (case LdkpFindMappedMessageResourceData m Directory ImageBase LanguageId of
        None \<Rightarrow> None
      | Some (MessageData, MessageDataSize) \<Rightarrow> LdkpFindMessageResourceEntry m MessageData MessageDataSize MessageId)"

text \<open>The files of the system libraries that could be read, each with its size; the result names the file
  and the entry in it.\<close>

fun LdkpFindSystemMessageInCachedImages :: "(image \<times> nat) option list \<Rightarrow> nat \<Rightarrow> nat \<Rightarrow> (image \<times> addr) option" where
  "LdkpFindSystemMessageInCachedImages [] MessageId LanguageId = None"
| "LdkpFindSystemMessageInCachedImages (None # images) MessageId LanguageId =
     LdkpFindSystemMessageInCachedImages images MessageId LanguageId"
| "LdkpFindSystemMessageInCachedImages (Some (m, ImageSize) # images) MessageId LanguageId =
     (case LdkpFindMessageResourceData m ImageSize LanguageId of
        None \<Rightarrow> LdkpFindSystemMessageInCachedImages images MessageId LanguageId
      | Some (MessageData, MessageDataSize) \<Rightarrow>
        case LdkpFindMessageResourceEntry m MessageData MessageDataSize MessageId of
          Some Entry \<Rightarrow> Some (m, Entry)
        | None \<Rightarrow> LdkpFindSystemMessageInCachedImages images MessageId LanguageId)"

section \<open>The search of a message table\<close>

lemma entry_walk_agree:
  assumes "agree_on a n m m'"
  shows "entry_walk m' a n w h i off = entry_walk m a n w h i off"
  using assms
proof (induction m a n w h i off rule: entry_walk.induct)
  case (1 m a n w h i off)
  let ?l = "Entry_Length m (a + off)"
  show ?case
  proof (cases "i \<le> h \<and> off + 6 \<le> n")
    case True
    then have len: "Entry_Length m' (a + off) = ?l" by (simp add: Entry_Length_def agree_read [OF 1(2)])
    have IH: "entry_walk m' a n w h (Suc i) (off + ?l) = entry_walk m a n w h (Suc i) (off + ?l)"
      if "4 \<le> ?l" "off + ?l \<le> n" "i \<noteq> w"
      using 1 True that by (simp add: valid_offset Let_def)
    show ?thesis
      using len IH True entry_walk.simps [of m' a n w h i off] entry_walk.simps [of m a n w h i off]
      by (cases "4 \<le> ?l"; cases "off + ?l \<le> n"; cases "i = w") (simp_all add: valid_offset Let_def)
  next
    case False
    then show ?thesis
      using entry_walk.simps [of m' a n w h i off] entry_walk.simps [of m a n w h i off]
      by (cases "i \<le> h") (simp_all add: valid_offset Let_def)
  qed
qed

lemma entry_walk_inside:
  "entry_walk m a n w h i off = Some (Some e) \<Longrightarrow>
    a \<le> e \<and> e + 6 \<le> a + n \<and> 4 \<le> Entry_Length m e \<and> e + Entry_Length m e \<le> a + n"
proof (induction m a n w h i off rule: entry_walk.induct)
  case (1 m a n w h i off)
  from 1(2) show ?case
    by (subst (asm) entry_walk.simps) (auto simp: valid_offset Let_def split: if_splits dest: 1(1) [rotated -1])
qed

text \<open>The loop always returns: it starts at the first number of the block and passes that of the message
  before the last one.\<close>

lemma entry_walk_returns: "i \<le> w \<Longrightarrow> w \<le> h \<Longrightarrow> entry_walk m a n w h i off \<noteq> None"
proof (induction m a n w h i off rule: entry_walk.induct)
  case (1 m a n w h i off)
  then show ?case by (subst entry_walk.simps) (auto simp: Let_def)
qed

lemma block_walk_agree:
  assumes "agree_on a n m m'"
  shows "a \<le> p \<Longrightarrow> p + 12 * k \<le> a + n \<Longrightarrow> block_walk m' a n w k p = block_walk m a n w k p"
proof (induction k arbitrary: p)
  case (Suc k)
  have "read_le 4 m' p = read_le 4 m p" "read_le 4 m' (p + 4) = read_le 4 m (p + 4)" "read_le 4 m' (p + 8) = read_le 4 m (p + 8)"
    by (rule agree_read [OF assms]; use Suc.prems in simp)+
  then show ?case using Suc.IH [of "p + 12"] Suc.prems by (simp add: entry_walk_agree [OF assms] Let_def split: option.split)
qed simp

lemma block_walk_inside:
  "block_walk m a n w k p = Some e \<Longrightarrow>
    a \<le> e \<and> e + 6 \<le> a + n \<and> 4 \<le> Entry_Length m e \<and> e + Entry_Length m e \<le> a + n"
  by (induction k arbitrary: p) (auto simp: Let_def split: if_splits option.splits dest!: entry_walk_inside)

text \<open>The search for a message reads nothing outside its table, whatever the table holds: a memory that
  agrees there gives the same answer. An entry that is found lies in the table with all of its text.\<close>

theorem message_reads_inside:
  assumes "agree_on MessageData Size m m'"
  shows "LdkpFindMessageResourceEntry m' MessageData Size MessageId = LdkpFindMessageResourceEntry m MessageData Size MessageId
    \<and> (\<forall>e. LdkpFindMessageResourceEntry m MessageData Size MessageId = Some e \<longrightarrow>
        MessageData \<le> e \<and> e + 6 \<le> MessageData + Size \<and> 4 \<le> Entry_Length m e \<and>
        e + Entry_Length m e \<le> MessageData + Size)"
proof (cases "4 \<le> Size")
  case True
  then have "read_le 4 m' MessageData = read_le 4 m MessageData" by (simp add: agree_read [OF assms])
  moreover have "block_walk m' MessageData Size MessageId k (MessageData + 4) = block_walk m MessageData Size MessageId k (MessageData + 4)"
    if "k \<le> (Size - 4) div 12" for k
    by (rule block_walk_agree [OF assms]) (use that True in linarith)+
  ultimately show ?thesis by (auto simp: LdkpFindMessageResourceEntry_def Let_def dest!: block_walk_inside)
qed (simp add: LdkpFindMessageResourceEntry_def)

text \<open>A table as data: blocks of messages with successive numbers, each with its flags and its bytes.\<close>

type_synonym message = "nat \<times> u8 list"
type_synonym message_table = "(nat \<times> message list) list"

definition text_at :: "image \<Rightarrow> addr \<Rightarrow> u8 list \<Rightarrow> bool" where
  "text_at m p t \<longleftrightarrow> map (\<lambda>i. m (p + i)) [0..<length t] = t"

fun messages_at :: "image \<Rightarrow> addr \<Rightarrow> nat \<Rightarrow> nat \<Rightarrow> message list \<Rightarrow> bool" where
  "messages_at m a n off [] \<longleftrightarrow> True"
| "messages_at m a n off ((flags, t) # ms) \<longleftrightarrow> off + 6 \<le> n \<and> off + (4 + length t) \<le> n \<and>
     Entry_Length m (a + off) = 4 + length t \<and> Entry_Flags m (a + off) = flags \<and> text_at m (a + off + 4) t \<and>
     messages_at m a n (off + (4 + length t)) ms"

fun blocks_at :: "image \<Rightarrow> addr \<Rightarrow> nat \<Rightarrow> addr \<Rightarrow> message_table \<Rightarrow> bool" where
  "blocks_at m a n p [] \<longleftrightarrow> True"
| "blocks_at m a n p ((low, ms) # bs) \<longleftrightarrow> ms \<noteq> [] \<and> read_le 4 m p = low \<and> read_le 4 m (p + 4) = low + length ms - 1 \<and>
     messages_at m a n (read_le 4 m (p + 8)) ms \<and> blocks_at m a n (p + 12) bs"

definition message_table_at :: "image \<Rightarrow> addr \<Rightarrow> nat \<Rightarrow> message_table \<Rightarrow> bool" where
  "message_table_at m a n bs \<longleftrightarrow> read_le 4 m a = length bs \<and> 4 + 12 * length bs \<le> n \<and> blocks_at m a n (a + 4) bs"

fun lookup_message :: "message_table \<Rightarrow> nat \<Rightarrow> message option" where
  "lookup_message [] i = None"
| "lookup_message ((low, ms) # bs) i = (if low \<le> i \<and> i < low + length ms then Some (ms ! (i - low)) else lookup_message bs i)"

text \<open>An entry that holds a message.\<close>

definition message_at :: "image \<Rightarrow> addr \<Rightarrow> message \<Rightarrow> bool" where
  "message_at m e msg \<longleftrightarrow> Entry_Length m e = 4 + length (snd msg) \<and> Entry_Flags m e = fst msg \<and> text_at m (e + 4) (snd msg)"

lemma entry_walk_finds:
  "messages_at m a n off ms \<Longrightarrow> k < length ms \<Longrightarrow> i + k \<le> h \<Longrightarrow>
    \<exists>e. entry_walk m a n (i + k) h i off = Some (Some e) \<and> message_at m e (ms ! k)"
proof (induction ms arbitrary: off i k)
  case (Cons msg ms)
  obtain f t where msg: "msg = (f, t)" by fastforce
  note at = Cons.prems(1) [unfolded msg, simplified]
  have walk: "entry_walk m a n (i + k) h i off = (if k = 0 then Some (Some (a + off))
      else entry_walk m a n (i + k) h (Suc i) (off + (4 + length t)))"
    by (subst entry_walk.simps) (use at Cons.prems(3) in \<open>simp add: valid_offset Let_def\<close>)
  show ?case
  proof (cases k)
    case 0
    then show ?thesis using at walk by (simp add: msg message_at_def)
  next
    case (Suc j)
    then show ?thesis using Cons.IH [of "off + (4 + length t)" j "Suc i"] Cons.prems at walk by simp
  qed
qed simp

lemma block_walk_finds:
  "blocks_at m a n p bs \<Longrightarrow> case lookup_message bs w of
      None \<Rightarrow> block_walk m a n w (length bs) p = None
    | Some msg \<Rightarrow> \<exists>e. block_walk m a n w (length bs) p = Some e \<and> message_at m e msg"
proof (induction bs arbitrary: p)
  case (Cons b bs)
  obtain low ms where b: "b = (low, ms)" by fastforce
  note at = Cons.prems [unfolded b, simplified]
  show ?case
  proof (cases "low \<le> w \<and> w < low + length ms")
    case True
    have k: "w - low < length ms" "low + (w - low) \<le> low + length ms - 1" "low + (w - low) = w" using True by linarith+
    have "messages_at m a n (read_le 4 m (p + 8)) ms" using at by simp
    from entry_walk_finds [OF this k(1,2), unfolded k(3)]
    obtain e where e: "entry_walk m a n w (low + length ms - 1) low (read_le 4 m (p + 8)) = Some (Some e)"
        "message_at m e (ms ! (w - low))" by blast
    have "read_le 4 m (p + 8) + 6 \<le> n" using at by (cases ms) auto
    then have "block_walk m a n w (length (b # bs)) p = Some e" using at True e(1) by (auto simp: valid_offset Let_def)
    then show ?thesis using True e(2) by (simp add: b)
  next
    case False
    then have "block_walk m a n w (length (b # bs)) p = block_walk m a n w (length bs) (p + 12)"
      using at by (cases ms) (auto simp: Let_def)
    then show ?thesis using False at Cons.IH [of "p + 12"] by (simp only: b lookup_message.simps if_False)
  qed
qed simp

text \<open>In a table of messages the search finds the entry of the message with the wanted number, and
  nothing for a number that no block has.\<close>

theorem find_message:
  assumes "message_table_at m MessageData Size bs"
  shows "case lookup_message bs MessageId of
      None \<Rightarrow> LdkpFindMessageResourceEntry m MessageData Size MessageId = None
    | Some msg \<Rightarrow> \<exists>e. LdkpFindMessageResourceEntry m MessageData Size MessageId = Some e \<and> message_at m e msg"
proof -
  have "length bs \<le> (Size - 4) div 12" and "4 \<le> Size"
    using assms unfolding message_table_at_def by linarith+
  then have e: "LdkpFindMessageResourceEntry m MessageData Size MessageId = block_walk m MessageData Size MessageId (length bs) (MessageData + 4)"
    using assms by (simp add: LdkpFindMessageResourceEntry_def message_table_at_def Let_def)
  have "blocks_at m MessageData Size (MessageData + 4) bs" using assms by (simp add: message_table_at_def)
  from block_walk_finds [OF this, of MessageId] show ?thesis unfolding e .
qed

section \<open>Delivering a text\<close>

text \<open>The texts that need no message table. Every one ends with carriage return and line feed.\<close>

definition error_texts :: "(nat \<times> string) list" where
  "error_texts =
    [(0, ''The operation completed successfully.''),
     (1, ''Incorrect function.''),
     (2, ''The system cannot find the file specified.''),
     (3, ''The system cannot find the path specified.''),
     (4, ''The system cannot open the file.''),
     (5, ''Access is denied.''),
     (6, ''The handle is invalid.''),
     (8, ''Not enough memory resources are available to process this command.''),
     (14, ''Not enough memory resources are available to process this command.''),
     (13, ''The data is invalid.''),
     (15, ''The system cannot find the drive specified.''),
     (18, ''There are no more files.''),
     (19, ''The media is write protected.''),
     (20, ''The system cannot find the device specified.''),
     (21, ''The device is not ready.''),
     (22, ''The device does not recognize the command.''),
     (23, ''Data error (cyclic redundancy check).''),
     (24, ''The program issued a command but the command length is incorrect.''),
     (25, ''The drive cannot locate a specific area or track on the disk.''),
     (26, ''The specified disk or diskette cannot be accessed.''),
     (27, ''The drive cannot find the sector requested.''),
     (28, ''The printer is out of paper.''),
     (29, ''The system cannot write to the specified device.''),
     (30, ''The system cannot read from the specified device.''),
     (31, ''A device attached to the system is not functioning.''),
     (32, ''The process cannot access the file because it is being used by another process.''),
     (33, ''The process cannot access the file because another process has locked a portion of the file.''),
     (38, ''Reached the end of the file.''),
     (39, ''The disk is full.''),
     (50, ''The request is not supported.''),
     (80, ''The file exists.''),
     (82, ''The directory or file cannot be created.''),
     (87, ''The parameter is incorrect.''),
     (109, ''The pipe has been ended.''),
     (120, ''This function is not supported on this system.''),
     (122, ''The data area passed to a system call is too small.''),
     (123, ''The filename, directory name, or volume label syntax is incorrect.''),
     (145, ''The directory is not empty.''),
     (183, ''Cannot create a file when that file already exists.''),
     (203, ''The system could not find the environment option that was entered.''),
     (206, ''The filename or extension is too long.''),
     (131, ''An attempt was made to move the file pointer before the beginning of the file.''),
     (267, ''The directory name is invalid.''),
     (1168, ''Element not found.''),
     (1004, ''Invalid flags.''),
     (1113, ''No mapping for the Unicode character exists in the target multi-byte code page.'')]"

definition LdkpLookupSystemErrorMessage :: "nat \<Rightarrow> u8 list option" where
  "LdkpLookupSystemErrorMessage MessageId =
     (case map_of error_texts MessageId of
        None \<Rightarrow> None
      | Some t \<Rightarrow> Some (map (\<lambda>c. of_nat (of_char c)) t @ [13, 10]))"

text \<open>What the formatting routines change: the last error, the characters of the caller's buffer, and the
  blocks they allocate, each with its size in bytes, with the block the caller's pointer is set to.\<close>

record 'c format_state =
  LastError :: dos_error
  Buffer :: "nat \<Rightarrow> 'c"
  Blocks :: "(nat \<times> (nat \<Rightarrow> 'c)) list"
  Pointer :: "nat option"

text \<open>The loop that copies the characters and the terminator behind it.\<close>

fun copy_text :: "nat \<Rightarrow> 'c::zero list \<Rightarrow> (nat \<Rightarrow> 'c) \<Rightarrow> nat \<Rightarrow> 'c" where
  "copy_text i [] Target = Target(i := 0)"
| "copy_text i (c # cs) Target = copy_text (Suc i) cs (Target(i := c))"

text \<open>The body the four counted routines share: \<open>unit\<close> is the size of a target character, \<open>HasBuffer\<close> that the
  caller's pointer is not null, \<open>alloc\<close> whether the heap can give a block of a size, \<open>fresh\<close> what is in it.\<close>

definition deliver :: "nat \<Rightarrow> (nat \<Rightarrow> bool) \<Rightarrow> (nat \<Rightarrow> 'c) \<Rightarrow> 'c::zero list \<Rightarrow> bool \<Rightarrow> bool \<Rightarrow> nat \<Rightarrow>
    'c format_state \<Rightarrow> nat \<times> 'c format_state" where
  "deliver unit alloc fresh cs AllocateBuffer HasBuffer nSize s =
     (if AllocateBuffer then
        if \<not> HasBuffer then (0, s\<lparr>LastError := ERROR_INVALID_PARAMETER\<rparr>)
        else
          let bytes = (length cs + 1) * unit mod 2 ^ 32 in
          if \<not> alloc bytes then (0, s\<lparr>LastError := ERROR_NOT_ENOUGH_MEMORY\<rparr>)
          else (length cs, s\<lparr>Blocks := Blocks s @ [(bytes, copy_text 0 cs fresh)], Pointer := Some (length (Blocks s))\<rparr>)
      else if \<not> HasBuffer \<or> nSize = 0 then (0, s\<lparr>LastError := ERROR_INSUFFICIENT_BUFFER\<rparr>)
      else if length cs \<ge> nSize then (0, s\<lparr>Buffer := (Buffer s)(0 := 0), LastError := ERROR_INSUFFICIENT_BUFFER\<rparr>)
      else (length cs, s\<lparr>Buffer := copy_text 0 cs (Buffer s)\<rparr>))"

definition LdkpFormatMessageAFromAnsiCounted :: "(nat \<Rightarrow> bool) \<Rightarrow> (nat \<Rightarrow> u8) \<Rightarrow> u8 list \<Rightarrow> bool \<Rightarrow> bool \<Rightarrow> nat \<Rightarrow>
    u8 format_state \<Rightarrow> nat \<times> u8 format_state" where
  "LdkpFormatMessageAFromAnsiCounted alloc fresh Message = deliver 1 alloc fresh Message"

definition LdkpFormatMessageAFromWideCounted :: "(nat \<Rightarrow> bool) \<Rightarrow> (nat \<Rightarrow> u8) \<Rightarrow> u16 list \<Rightarrow> bool \<Rightarrow> bool \<Rightarrow> nat \<Rightarrow>
    u8 format_state \<Rightarrow> nat \<times> u8 format_state" where
  "LdkpFormatMessageAFromWideCounted alloc fresh Message =
     deliver 1 alloc fresh (map (\<lambda>c. if c \<le> 0x7F then ucast c else 0x3F) Message)"

definition LdkpFormatMessageWFromAnsiCounted :: "(nat \<Rightarrow> bool) \<Rightarrow> (nat \<Rightarrow> u16) \<Rightarrow> u8 list \<Rightarrow> bool \<Rightarrow> bool \<Rightarrow> nat \<Rightarrow>
    u16 format_state \<Rightarrow> nat \<times> u16 format_state" where
  "LdkpFormatMessageWFromAnsiCounted alloc fresh Message = deliver 2 alloc fresh (map ucast Message)"

definition LdkpFormatMessageWFromWideCounted :: "(nat \<Rightarrow> bool) \<Rightarrow> (nat \<Rightarrow> u16) \<Rightarrow> u16 list \<Rightarrow> bool \<Rightarrow> bool \<Rightarrow> nat \<Rightarrow>
    u16 format_state \<Rightarrow> nat \<times> u16 format_state" where
  "LdkpFormatMessageWFromWideCounted alloc fresh Message = deliver 2 alloc fresh Message"

text \<open>The text of an entry, as bytes and as 16-bit characters.\<close>

definition ansi_text :: "image \<Rightarrow> addr \<Rightarrow> nat \<Rightarrow> u8 list" where
  "ansi_text m p n = map (\<lambda>i. m (p + i)) [0..<n]"

definition wide_text :: "image \<Rightarrow> addr \<Rightarrow> nat \<Rightarrow> u16 list" where
  "wide_text m p n = map (\<lambda>i. of_nat (read_le 2 m (p + 2 * i))) [0..<n]"

definition LdkpFormatMessageAFromResourceEntry :: "(nat \<Rightarrow> bool) \<Rightarrow> (nat \<Rightarrow> u8) \<Rightarrow> image \<Rightarrow> addr \<Rightarrow> bool \<Rightarrow> bool \<Rightarrow> nat \<Rightarrow>
    u8 format_state \<Rightarrow> nat \<times> u8 format_state" where
  "LdkpFormatMessageAFromResourceEntry alloc fresh m Entry AllocateBuffer HasBuffer nSize s =
     (if Entry_Length m Entry < 4 then (0, s\<lparr>LastError := ERROR_INVALID_DATA\<rparr>)
      else
        let TextBytes = Entry_Length m Entry - 4 in
        if Entry_Flags m Entry mod 2 = 1
        then LdkpFormatMessageAFromWideCounted alloc fresh (wide_text m (Entry + 4) (TextBytes div 2)) AllocateBuffer HasBuffer nSize s
        else LdkpFormatMessageAFromAnsiCounted alloc fresh (ansi_text m (Entry + 4) TextBytes) AllocateBuffer HasBuffer nSize s)"

definition LdkpFormatMessageWFromResourceEntry :: "(nat \<Rightarrow> bool) \<Rightarrow> (nat \<Rightarrow> u16) \<Rightarrow> image \<Rightarrow> addr \<Rightarrow> bool \<Rightarrow> bool \<Rightarrow> nat \<Rightarrow>
    u16 format_state \<Rightarrow> nat \<times> u16 format_state" where
  "LdkpFormatMessageWFromResourceEntry alloc fresh m Entry AllocateBuffer HasBuffer nSize s =
     (if Entry_Length m Entry < 4 then (0, s\<lparr>LastError := ERROR_INVALID_DATA\<rparr>)
      else
        let TextBytes = Entry_Length m Entry - 4 in
        if Entry_Flags m Entry mod 2 = 1
        then LdkpFormatMessageWFromWideCounted alloc fresh (wide_text m (Entry + 4) (TextBytes div 2)) AllocateBuffer HasBuffer nSize s
        else LdkpFormatMessageWFromAnsiCounted alloc fresh (ansi_text m (Entry + 4) TextBytes) AllocateBuffer HasBuffer nSize s)"

section \<open>FormatMessage\<close>

text \<open>The two low bits of the module handle are flags.\<close>

definition LdkpNormalizeFormatMessageModuleHandle :: "addr \<Rightarrow> addr" where
  "LdkpNormalizeFormatMessageModuleHandle Source = Source - Source mod 4"

definition LdkpFormatSystemMessageAFromImages :: "(nat \<Rightarrow> bool) \<Rightarrow> (nat \<Rightarrow> u8) \<Rightarrow> (image \<times> nat) option list \<Rightarrow> nat \<Rightarrow> nat \<Rightarrow>
    bool \<Rightarrow> bool \<Rightarrow> nat \<Rightarrow> u8 format_state \<Rightarrow> nat \<times> u8 format_state" where
  "LdkpFormatSystemMessageAFromImages alloc fresh images MessageId LanguageId AllocateBuffer HasBuffer nSize s =
     (case LdkpFindSystemMessageInCachedImages images MessageId LanguageId of
        Some (m, Entry) \<Rightarrow> LdkpFormatMessageAFromResourceEntry alloc fresh m Entry AllocateBuffer HasBuffer nSize s
      | None \<Rightarrow> (0, s\<lparr>LastError := ERROR_MR_MID_NOT_FOUND\<rparr>))"

definition LdkpFormatSystemMessageWFromImages :: "(nat \<Rightarrow> bool) \<Rightarrow> (nat \<Rightarrow> u16) \<Rightarrow> (image \<times> nat) option list \<Rightarrow> nat \<Rightarrow> nat \<Rightarrow>
    bool \<Rightarrow> bool \<Rightarrow> nat \<Rightarrow> u16 format_state \<Rightarrow> nat \<times> u16 format_state" where
  "LdkpFormatSystemMessageWFromImages alloc fresh images MessageId LanguageId AllocateBuffer HasBuffer nSize s =
     (case LdkpFindSystemMessageInCachedImages images MessageId LanguageId of
        Some (m, Entry) \<Rightarrow> LdkpFormatMessageWFromResourceEntry alloc fresh m Entry AllocateBuffer HasBuffer nSize s
      | None \<Rightarrow> (0, s\<lparr>LastError := ERROR_MR_MID_NOT_FOUND\<rparr>))"

text \<open>What the caller passes: the flags, the source (a module or a string, here with its characters), the
  number and the language of the message, the buffer and its size.\<close>

record 'c format_call =
  dwFlags :: u32
  lpSource :: addr
  SourceString :: "'c list"
  dwMessageId :: nat
  dwLanguageId :: nat
  lpBuffer :: bool
  nSize :: nat

abbreviation ALLOCATE_BUFFER :: "'c format_call \<Rightarrow> bool" where "ALLOCATE_BUFFER c \<equiv> dwFlags c AND 0x100 \<noteq> 0"
abbreviation FROM_STRING :: "'c format_call \<Rightarrow> bool" where "FROM_STRING c \<equiv> dwFlags c AND 0x400 \<noteq> 0"
abbreviation FROM_HMODULE :: "'c format_call \<Rightarrow> bool" where "FROM_HMODULE c \<equiv> dwFlags c AND 0x800 \<noteq> 0"
abbreviation FROM_SYSTEM :: "'c format_call \<Rightarrow> bool" where "FROM_SYSTEM c \<equiv> dwFlags c AND 0x1000 \<noteq> 0"

text \<open>The part for system messages: the message tables first, then the built-in texts.\<close>

definition system_message_A :: "(nat \<Rightarrow> bool) \<Rightarrow> (nat \<Rightarrow> u8) \<Rightarrow> (image \<times> nat) option list \<Rightarrow> u8 format_call \<Rightarrow>
    u8 format_state \<Rightarrow> nat \<times> u8 format_state" where
  "system_message_A alloc fresh images c s =
     (case LdkpFormatSystemMessageAFromImages alloc fresh images (dwMessageId c) (dwLanguageId c mod 2 ^ 16)
         (ALLOCATE_BUFFER c) (lpBuffer c) (nSize c) s of
        (Chars, s1) \<Rightarrow>
          if Chars \<noteq> 0 then (Chars, s1)
          else case LdkpLookupSystemErrorMessage (dwMessageId c) of
              None \<Rightarrow> (0, s1\<lparr>LastError := ERROR_MR_MID_NOT_FOUND\<rparr>)
            | Some Message \<Rightarrow> LdkpFormatMessageAFromAnsiCounted alloc fresh Message (ALLOCATE_BUFFER c) (lpBuffer c) (nSize c) s1)"

definition system_message_W :: "(nat \<Rightarrow> bool) \<Rightarrow> (nat \<Rightarrow> u16) \<Rightarrow> (image \<times> nat) option list \<Rightarrow> u16 format_call \<Rightarrow>
    u16 format_state \<Rightarrow> nat \<times> u16 format_state" where
  "system_message_W alloc fresh images c s =
     (case LdkpFormatSystemMessageWFromImages alloc fresh images (dwMessageId c) (dwLanguageId c mod 2 ^ 16)
         (ALLOCATE_BUFFER c) (lpBuffer c) (nSize c) s of
        (Chars, s1) \<Rightarrow>
          if Chars \<noteq> 0 then (Chars, s1)
          else case LdkpLookupSystemErrorMessage (dwMessageId c) of
              None \<Rightarrow> (0, s1\<lparr>LastError := ERROR_MR_MID_NOT_FOUND\<rparr>)
            | Some Message \<Rightarrow> LdkpFormatMessageWFromAnsiCounted alloc fresh Message (ALLOCATE_BUFFER c) (lpBuffer c) (nSize c) s1)"

text \<open>\<open>m\<close> is the memory of the loaded modules and \<open>Directory\<close> what \<open>RtlImageDirectoryEntryToData\<close> finds for
  one of them; \<open>images\<close> are the files of the system libraries.\<close>

definition FormatMessageA :: "(nat \<Rightarrow> bool) \<Rightarrow> (nat \<Rightarrow> u8) \<Rightarrow> image \<Rightarrow> (addr \<Rightarrow> (addr \<times> nat) option) \<Rightarrow>
    (image \<times> nat) option list \<Rightarrow> u8 format_call \<Rightarrow> u8 format_state \<Rightarrow> nat \<times> u8 format_state" where
  "FormatMessageA alloc fresh m Directory images c s =
     (if FROM_HMODULE c then
        if lpSource c = NULL then (0, s\<lparr>LastError := ERROR_INVALID_HANDLE\<rparr>)
        else
          let ImageBase = LdkpNormalizeFormatMessageModuleHandle (lpSource c) in
          case LdkpFindMessageInMappedImage m (Directory ImageBase) ImageBase (dwMessageId c) (dwLanguageId c mod 2 ^ 16) of
            Some Entry \<Rightarrow> LdkpFormatMessageAFromResourceEntry alloc fresh m Entry (ALLOCATE_BUFFER c) (lpBuffer c) (nSize c) s
          | None \<Rightarrow>
              if \<not> FROM_SYSTEM c then (0, s\<lparr>LastError := ERROR_MR_MID_NOT_FOUND\<rparr>)
              else system_message_A alloc fresh images c s
      else if FROM_SYSTEM c then system_message_A alloc fresh images c s
      else if FROM_STRING c \<and> lpSource c \<noteq> NULL
      then LdkpFormatMessageAFromAnsiCounted alloc fresh (SourceString c) (ALLOCATE_BUFFER c) (lpBuffer c) (nSize c) s
      else (0, s\<lparr>LastError := ERROR_INVALID_PARAMETER\<rparr>))"

definition FormatMessageW :: "(nat \<Rightarrow> bool) \<Rightarrow> (nat \<Rightarrow> u16) \<Rightarrow> image \<Rightarrow> (addr \<Rightarrow> (addr \<times> nat) option) \<Rightarrow>
    (image \<times> nat) option list \<Rightarrow> u16 format_call \<Rightarrow> u16 format_state \<Rightarrow> nat \<times> u16 format_state" where
  "FormatMessageW alloc fresh m Directory images c s =
     (if FROM_HMODULE c then
        if lpSource c = NULL then (0, s\<lparr>LastError := ERROR_INVALID_HANDLE\<rparr>)
        else
          let ImageBase = LdkpNormalizeFormatMessageModuleHandle (lpSource c) in
          case LdkpFindMessageInMappedImage m (Directory ImageBase) ImageBase (dwMessageId c) (dwLanguageId c mod 2 ^ 16) of
            Some Entry \<Rightarrow> LdkpFormatMessageWFromResourceEntry alloc fresh m Entry (ALLOCATE_BUFFER c) (lpBuffer c) (nSize c) s
          | None \<Rightarrow>
              if \<not> FROM_SYSTEM c then (0, s\<lparr>LastError := ERROR_MR_MID_NOT_FOUND\<rparr>)
              else system_message_W alloc fresh images c s
      else if FROM_SYSTEM c then system_message_W alloc fresh images c s
      else if FROM_STRING c \<and> lpSource c \<noteq> NULL
      then LdkpFormatMessageWFromWideCounted alloc fresh (SourceString c) (ALLOCATE_BUFFER c) (lpBuffer c) (nSize c) s
      else (0, s\<lparr>LastError := ERROR_INVALID_PARAMETER\<rparr>))"

section \<open>What FormatMessage delivers\<close>

lemma copy_text_at: "copy_text i cs t j = (if i \<le> j \<and> j < i + length cs then cs ! (j - i) else if j = i + length cs then 0 else t j)"
proof (induction cs arbitrary: i t j)
  case (Cons c cs)
  consider "j < i" | "j = i" | k where "j = Suc i + k" by (metis add_Suc_right less_imp_Suc_add linorder_neqE_nat add_Suc)
  then show ?case by cases (simp_all add: Cons.IH)
qed auto

text \<open>A step of the formatting keeps inside the caller's buffer, and a positive result is the length of a
  terminated string: in the buffer, or in a block that is large enough unless the text has 2 GB.\<close>

definition delivered :: "nat \<Rightarrow> bool \<Rightarrow> nat \<Rightarrow> 'c::zero format_state \<Rightarrow> nat \<times> 'c format_state \<Rightarrow> bool" where
  "delivered unit AllocateBuffer n s r \<longleftrightarrow>
     (\<forall>i. n \<le> i \<or> AllocateBuffer \<longrightarrow> Buffer (snd r) i = Buffer s i) \<and>
     (0 < fst r \<longrightarrow> (if AllocateBuffer
        then \<exists>p bytes t. Pointer (snd r) = Some p \<and> p < length (Blocks (snd r)) \<and> Blocks (snd r) ! p = (bytes, t) \<and>
          t (fst r) = 0 \<and> (fst r < 2 ^ 31 - 1 \<longrightarrow> bytes = (fst r + 1) * unit)
        else fst r < n \<and> Buffer (snd r) (fst r) = 0))"

lemma deliver_delivered:
  "unit \<in> {1, 2} \<Longrightarrow> delivered unit AllocateBuffer n s (deliver unit alloc fresh cs AllocateBuffer HasBuffer n s)"
  by (auto simp: delivered_def deliver_def Let_def copy_text_at)

lemma delivered_later:
  assumes "fst r1 = 0" and "delivered unit b n s r1" and "delivered unit b n (snd r1) r2"
  shows "delivered unit b n s r2"
  using assms unfolding delivered_def by auto

lemma delivered_error: "delivered unit b n s (0, s\<lparr>LastError := e\<rparr>)"
  by (simp add: delivered_def)

lemmas counted_defs = LdkpFormatMessageAFromAnsiCounted_def LdkpFormatMessageAFromWideCounted_def
  LdkpFormatMessageWFromAnsiCounted_def LdkpFormatMessageWFromWideCounted_def

lemma entry_delivered_A: "delivered (Suc 0) b n s (LdkpFormatMessageAFromResourceEntry alloc fresh m e b h n s)"
  by (simp add: LdkpFormatMessageAFromResourceEntry_def counted_defs deliver_delivered delivered_error Let_def)

lemma entry_delivered_W: "delivered 2 b n s (LdkpFormatMessageWFromResourceEntry alloc fresh m e b h n s)"
  by (simp add: LdkpFormatMessageWFromResourceEntry_def counted_defs deliver_delivered delivered_error Let_def)

text \<open>The part for system messages may deliver twice; only after a result of 0.\<close>

lemma two_deliveries:
  assumes "delivered unit b n s r" and "unit \<in> {1, 2}"
  shows "delivered unit b n s (case r of (Chars, s1) \<Rightarrow> if Chars \<noteq> 0 then (Chars, s1)
    else case t of None \<Rightarrow> (0, s1\<lparr>LastError := e\<rparr>) | Some M \<Rightarrow> deliver unit alloc fresh (f M) b h n s1)"
proof (cases r)
  case (Pair Chars s1)
  show ?thesis
  proof (cases "Chars = 0")
    case True
    then have r: "fst r = 0" "snd r = s1" using Pair by simp_all
    show ?thesis by (cases t)
      (simp_all add: Pair True delivered_later [OF r(1) assms(1)] r(2) deliver_delivered [OF assms(2)] delivered_error)
  qed (use assms(1) Pair in simp)
qed

lemma system_delivered_A: "delivered (Suc 0) (ALLOCATE_BUFFER c) (nSize c) s (system_message_A alloc fresh images c s)"
  unfolding system_message_A_def counted_defs One_nat_def
  by (rule two_deliveries)
    (simp_all add: LdkpFormatSystemMessageAFromImages_def entry_delivered_A delivered_error split: option.split)

lemma system_delivered_W: "delivered 2 (ALLOCATE_BUFFER c) (nSize c) s (system_message_W alloc fresh images c s)"
  unfolding system_message_W_def counted_defs
  by (rule two_deliveries)
    (simp_all add: LdkpFormatSystemMessageWFromImages_def entry_delivered_W delivered_error split: option.split)

text \<open>C33: \<open>FormatMessageA\<close> and \<open>FormatMessageW\<close> write nothing at or behind the size the caller gives for the buffer,
  and nothing into it when they allocate. When the result is not 0 there is a terminator behind that many
  characters: in the buffer, or in the block the caller gets, which has room for them and the terminator
  unless the text is so long that its size wraps.\<close>

theorem format_message_bounded:
  "delivered 1 (ALLOCATE_BUFFER c) (nSize c) s (FormatMessageA alloc fresh m Directory images c s) \<and>
   delivered 2 (ALLOCATE_BUFFER c') (nSize c') s' (FormatMessageW alloc' fresh' m Directory images c' s')"
  by (simp add: FormatMessageA_def FormatMessageW_def counted_defs Let_def entry_delivered_A entry_delivered_W
    system_delivered_A system_delivered_W deliver_delivered delivered_error split: option.split)

text \<open>When a message table has an empty text for a message that also has a built-in one, a call that asks
  for a new buffer allocates two: the block of the empty text stays behind, and no pointer to it is left.\<close>

theorem empty_message_block_lost:
  assumes "LdkpFindSystemMessageInCachedImages images (dwMessageId c) (dwLanguageId c mod 2 ^ 16) = Some (im, e)"
    and "Entry_Length im e = 4" and "LdkpLookupSystemErrorMessage (dwMessageId c) = Some t"
    and "FROM_SYSTEM c" and "\<not> FROM_HMODULE c" and "ALLOCATE_BUFFER c" and "lpBuffer c" and "\<And>n. alloc n"
  shows "\<exists>s'. FormatMessageW alloc fresh m Directory images c s = (length t, s') \<and>
    length (Blocks s') = length (Blocks s) + 2 \<and> Pointer s' = Some (length (Blocks s) + 1)"
proof -
  have "LdkpFormatMessageWFromResourceEntry alloc fresh im e True True (nSize c) s =
      (0, s\<lparr>Blocks := Blocks s @ [(2, copy_text 0 [] fresh)], Pointer := Some (length (Blocks s))\<rparr>)"
    using assms(2,8) by (simp add: LdkpFormatMessageWFromResourceEntry_def counted_defs deliver_def wide_text_def ansi_text_def Let_def)
  then show ?thesis using assms
    by (simp add: FormatMessageW_def system_message_W_def LdkpFormatSystemMessageWFromImages_def counted_defs deliver_def Let_def)
qed

section \<open>From a tree of resources to the caller's buffer\<close>

text \<open>The description of the message table in a tree: type 11, the first name, and the wanted language or
  else the first.\<close>

definition message_place :: "resource_tree \<Rightarrow> nat \<Rightarrow> nat option" where
  "message_place tree Language =
     (case map_of tree (IntResource 11) of
        Some ((_, langs) # _) \<Rightarrow>
          (case if Language \<noteq> 0 then map_of langs (IntResource Language) else None of
             Some v \<Rightarrow> Some v
           | None \<Rightarrow> if langs = [] then None else Some (snd (hd langs)))
      | _ \<Rightarrow> None)"

text \<open>The characters of a message: pairs of bytes when the flag for them is set, else single bytes.\<close>

fun wide_chars :: "u8 list \<Rightarrow> u16 list" where
  "wide_chars (a # b # t) = of_nat (unat a + 256 * unat b) # wide_chars t"
| "wide_chars _ = []"

definition message_chars :: "message \<Rightarrow> u16 list" where
  "message_chars msg = (if fst msg mod 2 = 1 then wide_chars (snd msg) else map ucast (snd msg))"

lemma text_at_nth: "text_at m p t \<Longrightarrow> i < length t \<Longrightarrow> m (p + i) = t ! i"
  unfolding text_at_def by (metis (no_types, lifting) add_0 diff_zero length_upt nth_map nth_upt)

lemma ansi_text_at: "text_at m p t \<Longrightarrow> ansi_text m p (length t) = t"
  by (simp add: ansi_text_def text_at_def)

lemma wide_text_Suc: "wide_text m p (Suc n) = of_nat (read_le 2 m p) # wide_text m (p + 2) n"
proof -
  have "[0..<Suc n] = 0 # map Suc [0..<n]" by (simp add: upt_conv_Cons map_Suc_upt del: upt_Suc)
  then show ?thesis by (simp add: wide_text_def del: upt_Suc)
qed

lemma wide_text_at: "text_at m p t \<Longrightarrow> wide_text m p (length t div 2) = wide_chars t"
proof (induction t arbitrary: p rule: wide_chars.induct)
  case (1 a b t)
  note nth = text_at_nth [OF 1(2)]
  have "m p = a" "m (p + 1) = b" using nth [of 0] nth [of 1] by simp_all
  moreover have "text_at m (p + 2) t"
    unfolding text_at_def
    by (rule nth_equalityI) (use nth [of "Suc (Suc i)" for i] in \<open>simp_all add: algebra_simps\<close>)
  ultimately show ?case using 1(1) by (simp add: wide_text_Suc read_le_two)
qed (simp_all add: wide_text_def)

text \<open>An entry with a message delivers the characters of the message.\<close>

lemma entry_chars:
  assumes "message_at m e msg"
  shows "LdkpFormatMessageWFromResourceEntry alloc fresh m e b h n s = deliver 2 alloc fresh (message_chars msg) b h n s"
proof -
  have "text_at m (e + 4) (snd msg)" "Entry_Length m e = 4 + length (snd msg)" "Entry_Flags m e = fst msg"
    using assms by (simp_all add: message_at_def)
  then show ?thesis
    by (simp add: LdkpFormatMessageWFromResourceEntry_def counted_defs message_chars_def Let_def wide_text_at ansi_text_at)
qed

lemma message_entry_in_tree:
  assumes "resource_tree_at m a n tree"
  shows "message_data_entry m a n l = (case message_place tree l of None \<Rightarrow> None
    | Some v \<Rightarrow> if DataEntry_Size m (a + v) < 16 then None else Some (a + v))"
proof -
  let ?lang = "\<lambda>langs. case if l \<noteq> 0 then map_of langs (IntResource l) else None of
      Some v \<Rightarrow> Some v | None \<Rightarrow> if langs = [] then None else Some (snd (hd langs))"
  note types = find_id_in_table [OF assms [unfolded resource_tree_at_def], of 11]
  show ?thesis
  proof (cases "map_of tree (IntResource 11)")
    case None
    then show ?thesis using types by (simp add: message_data_entry_def message_place_def)
  next
    case (Some names)
    obtain p where p: "LdkpFindResourceDirectoryEntryById m a n 0 11 = Some p"
        "DataIsDirectory m p" "resource_table_at (subtable_at (description_at m n) m a n) m a n (OffsetToDirectory m p) names"
      using types Some by (auto simp: subtable_at_def)
    have v: "LdkpResourceOffsetIsValid (OffsetToDirectory m p) n 16" using p(3) by (simp add: resource_table_at_def valid_offset)
    show ?thesis
    proof (cases names)
      case Nil
      then show ?thesis using get_first_in_table [OF p(3)] p v Some
        by (simp add: message_data_entry_def message_place_def)
    next
      case (Cons nl names')
      obtain nm langs where nl: "nl = (nm, langs)" by fastforce
      obtain q where q: "LdkpGetFirstResourceDirectoryEntry m a n (OffsetToDirectory m p) = Some q"
          "DataIsDirectory m q" "resource_table_at (description_at m n) m a n (OffsetToDirectory m q) langs"
        using get_first_in_table [OF p(3)] Cons nl by (auto simp: subtable_at_def)
      have w: "LdkpResourceOffsetIsValid (OffsetToDirectory m q) n 16" using q(3) by (simp add: resource_table_at_def valid_offset)
      define r where "r = (if l \<noteq> 0 then LdkpFindResourceDirectoryEntryById m a n (OffsetToDirectory m q) l else None)"
      define r' where "r' = (if r = None then LdkpGetFirstResourceDirectoryEntry m a n (OffsetToDirectory m q) else r)"
      have r': "case ?lang langs of None \<Rightarrow> r' = None | Some v \<Rightarrow> \<exists>x. r' = Some x \<and> description_at m n x v"
        using find_id_in_table [OF q(3), of l] get_first_in_table [OF q(3)]
        by (cases "l = 0"; cases "map_of langs (IntResource l)"; cases "langs = []") (auto simp: r_def r'_def)
      have entry: "message_data_entry m a n l = (case r' of None \<Rightarrow> None
        | Some x \<Rightarrow> if DataIsDirectory m x \<or> \<not> LdkpResourceOffsetIsValid (OffsetToData m x) n 16 then None
            else if DataEntry_Size m (a + OffsetToData m x) < 16 then None else Some (a + OffsetToData m x))"
        by (simp only: message_data_entry_def p(1,2) v q(1,2) w option.case simp_thms if_False Let_def r_def r'_def)
      have place: "message_place tree l = ?lang langs" by (simp add: message_place_def Some Cons nl)
      show ?thesis
      proof (cases "?lang langs")
        case None
        then show ?thesis using r' unfolding entry place None by simp
      next
        case (Some v)
        then obtain x where "r' = Some x" "description_at m n x v" using r' unfolding Some by auto
        then show ?thesis unfolding entry place Some by (auto simp: description_at_def valid_offset)
      qed
    qed
  qed
qed

text \<open>C32: A message of a loaded module reaches the caller: if the resources of the module have a message table
  with that number, \<open>FormatMessageW\<close> returns the number of its characters, puts exactly these with a
  terminator into a buffer that is large enough, and changes nothing else. The low bits of the module
  handle do not matter.\<close>

theorem format_module_message:
  assumes "FROM_HMODULE c" and "\<not> ALLOCATE_BUFFER c" and "lpBuffer c" and "lpSource c \<noteq> NULL"
    and "Directory Base = Some (a, n)" and "Base = lpSource c - lpSource c mod 4"
    and "resource_tree_at m a n tree" and "message_place tree (dwLanguageId c mod 2 ^ 16) = Some v"
    and "16 \<le> DataEntry_Size m (a + v)"
    and "message_table_at m (Base + DataEntry_OffsetToData m (a + v)) (DataEntry_Size m (a + v)) bs"
    and "lookup_message bs (dwMessageId c) = Some msg" and "length (message_chars msg) < nSize c"
  shows "FormatMessageW alloc fresh m Directory images c s =
    (length (message_chars msg), s\<lparr>Buffer := (\<lambda>i. if i < length (message_chars msg) then message_chars msg ! i
      else if i = length (message_chars msg) then 0 else Buffer s i)\<rparr>)"
proof -
  have "n \<noteq> 0" using assms(7) by (simp add: resource_tree_at_def resource_table_at_def)
  then have data: "LdkpFindMappedMessageResourceData m (Some (a, n)) Base (dwLanguageId c mod 2 ^ 16) =
      Some (Base + DataEntry_OffsetToData m (a + v), DataEntry_Size m (a + v))"
    using assms(8,9) by (simp add: LdkpFindMappedMessageResourceData_def message_entry_in_tree [OF assms(7)])
  obtain e where e: "LdkpFindMessageResourceEntry m (Base + DataEntry_OffsetToData m (a + v)) (DataEntry_Size m (a + v))
      (dwMessageId c) = Some e" "message_at m e msg"
    using find_message [OF assms(10), of "dwMessageId c"] assms(11) by auto
  have "LdkpFindMessageInMappedImage m (Directory Base) Base (dwMessageId c) (dwLanguageId c mod 2 ^ 16) = Some e"
    unfolding LdkpFindMessageInMappedImage_def assms(5) data by (simp add: e)
  then have "FormatMessageW alloc fresh m Directory images c s =
      LdkpFormatMessageWFromResourceEntry alloc fresh m e (ALLOCATE_BUFFER c) (lpBuffer c) (nSize c) s"
    using assms(1,4) unfolding assms(6)
    by (simp add: FormatMessageW_def LdkpNormalizeFormatMessageModuleHandle_def Let_def)
  also have "\<dots> = (length (message_chars msg), s\<lparr>Buffer := copy_text 0 (message_chars msg) (Buffer s)\<rparr>)"
    unfolding entry_chars [OF e(2)] using assms(2,3,12) by (simp add: deliver_def)
  also have "copy_text 0 (message_chars msg) (Buffer s) = (\<lambda>i. if i < length (message_chars msg) then message_chars msg ! i
      else if i = length (message_chars msg) then 0 else Buffer s i)"
    by (rule ext) (simp add: copy_text_at)
  finally show ?thesis .
qed

section \<open>An image with messages\<close>

text \<open>A file whose one section lies at the same place in the file and in the image. Its resources are at
  512 and its message table at 608: an empty text for message 5 and the text Hi for message 6.\<close>

definition message_bytes :: "(nat \<times> u8 list) list" where
  "message_bytes = [(0, [0x4D, 0x5A]), (60, [64, 0, 0, 0, 0x50, 0x45, 0, 0]), (70, [1, 0]), (84, [240, 0]), (144, [0, 4, 0, 0]),
     (216, [0, 2, 0, 0, 0, 1, 0, 0]), (336, [0, 2, 0, 0, 0, 2, 0, 0, 0, 2, 0, 0, 0, 2, 0, 0]),
     (524, [0, 0, 1, 0, 11, 0, 0, 0, 24, 0, 0, 128]), (548, [0, 0, 1, 0, 1, 0, 0, 0, 48, 0, 0, 128]),
     (572, [0, 0, 1, 0, 9, 4, 0, 0, 72, 0, 0, 0]), (584, [96, 2, 0, 0, 28, 0, 0, 0]),
     (608, [1, 0, 0, 0, 5, 0, 0, 0, 6, 0, 0, 0, 16, 0, 0, 0]), (624, [4, 0, 1, 0, 8, 0, 1, 0, 72, 0, 105, 0])]"

definition message_image :: image where
  "message_image x = bytes_at message_bytes x"

lemma message_reads:
  "read_le 2 message_image 0 = 0x5A4D" "read_le 4 message_image 60 = 64" "read_le 4 message_image 64 = 0x4550"
  "read_le 2 message_image 70 = 1" "read_le 2 message_image 84 = 240"
  "read_le 4 message_image 216 = 512" "read_le 4 message_image 220 = 256"
  "read_le 4 message_image 336 = 512" "read_le 4 message_image 340 = 512" "read_le 4 message_image 344 = 512"
  "read_le 4 message_image 348 = 512"
  "read_le 2 message_image 524 = 0" "read_le 2 message_image 526 = 1"
  "read_le 4 message_image 528 = 11" "read_le 2 message_image 528 = 11" "read_le 4 message_image 532 = 2 ^ 31 + 24"
  "read_le 2 message_image 548 = 0" "read_le 2 message_image 550 = 1"
  "read_le 4 message_image 552 = 1" "read_le 2 message_image 552 = 1" "read_le 4 message_image 556 = 2 ^ 31 + 48"
  "read_le 2 message_image 572 = 0" "read_le 2 message_image 574 = 1"
  "read_le 4 message_image 576 = 1033" "read_le 2 message_image 576 = 1033" "read_le 4 message_image 580 = 72"
  "read_le 4 message_image 584 = 608" "read_le 4 message_image 588 = 28"
  "read_le 4 message_image 608 = 1" "read_le 4 message_image 612 = 5" "read_le 4 message_image 616 = 6"
  "read_le 4 message_image 620 = 16"
  "read_le 2 message_image 624 = 4" "read_le 2 message_image 626 = 1"
  "read_le 2 message_image 628 = 8" "read_le 2 message_image 630 = 1"
  by (simp_all add: message_image_def bytes_at_simps message_bytes_def read_le_two read_le_four)

definition message_tree :: resource_tree where
  "message_tree = [(IntResource 11, [(IntResource 1, [(IntResource 1033, 72)])])]"

definition message_blocks :: message_table where
  "message_blocks = [(5, [(1, []), (1, [72, 0, 105, 0])])]"

lemma message_tree_at: "resource_tree_at message_image 512 256 message_tree"
  by (simp add: resource_tree_at_def resource_table_at_def subtable_at_def description_at_def message_tree_def
    EntryCount_def NameIsString_def Entry_Id_def NameOffset_def DataIsDirectory_def OffsetToDirectory_def OffsetToData_def
    message_reads)

lemma message_text_at: "text_at message_image 632 [72, 0, 105, 0]"
  by (simp add: text_at_def upt_conv_Cons message_image_def bytes_at_simps message_bytes_def)

lemma message_blocks_at: "message_table_at message_image 608 28 message_blocks"
  by (simp add: message_table_at_def message_blocks_def message_reads Entry_Length_def Entry_Flags_def message_text_at)
    (simp add: text_at_def)

theorem find_message_witness:
  "(\<exists>e. LdkpFindMessageResourceEntry message_image 608 28 6 = Some e \<and> message_at message_image e (1, [72, 0, 105, 0]))
   \<and> LdkpFindMessageResourceEntry message_image 608 28 7 = None"
  using find_message [OF message_blocks_at, of 6] find_message [OF message_blocks_at, of 7]
  by (simp add: message_blocks_def)

theorem message_reads_inside_witness:
  "LdkpFindMessageResourceEntry (message_image(636 := 7)) 608 28 6 = LdkpFindMessageResourceEntry message_image 608 28 6"
proof -
  have "agree_on 608 28 message_image (message_image(636 := 7))" by (simp add: agree_on_def)
  from message_reads_inside [OF this] show ?thesis by blast
qed

text \<open>The text Hi in a buffer of 3 characters, with a module handle that has its low bit set.\<close>

theorem format_module_message_witness:
  "FormatMessageW (\<lambda>_. False) (\<lambda>_. 0) message_image (\<lambda>_. Some (512, 256)) []
     \<lparr>dwFlags = 0x800, lpSource = 1, SourceString = [], dwMessageId = 6, dwLanguageId = 1041, lpBuffer = True, nSize = 3\<rparr>
     \<lparr>LastError = 0, Buffer = (\<lambda>_. 7), Blocks = [], Pointer = None\<rparr> =
   (2, \<lparr>LastError = 0, Buffer = (\<lambda>i. if i < 2 then [72, 105] ! i else if i = 2 then 0 else 7), Blocks = [], Pointer = None\<rparr>)"
proof -
  let ?c = "\<lparr>dwFlags = 0x800, lpSource = 1, SourceString = [], dwMessageId = 6, dwLanguageId = 1041, lpBuffer = True, nSize = 3\<rparr>
    :: u16 format_call"
  have size: "DataEntry_Size message_image 584 = 28" "DataEntry_OffsetToData message_image 584 = 608"
    by (simp_all add: DataEntry_Size_def DataEntry_OffsetToData_def message_reads)
  have place: "message_place message_tree (dwLanguageId ?c mod 2 ^ 16) = Some 72" by (simp add: message_place_def message_tree_def)
  have chars: "message_chars (1, [72, 0, 105, 0]) = [72, 105]" by (simp add: message_chars_def)
  have chars': "message_chars (Suc 0, [72, 0, 105, 0]) = [72, 105]" using chars by simp
  have found: "lookup_message message_blocks 6 = Some (1, [72, 0, 105, 0])" by (simp add: message_blocks_def)
  let ?s = "\<lparr>LastError = 0, Buffer = (\<lambda>_. 7), Blocks = [], Pointer = None\<rparr> :: u16 format_state"
  have "FormatMessageW (\<lambda>_. False) (\<lambda>_. 0) message_image (\<lambda>_. Some (512, 256)) [] ?c ?s =
    (length (message_chars (1, [72, 0, 105, 0])), ?s\<lparr>Buffer := (\<lambda>i. if i < length (message_chars (1, [72, 0, 105, 0]))
      then message_chars (1, [72, 0, 105, 0]) ! i else if i = length (message_chars (1, [72, 0, 105, 0])) then 0 else Buffer ?s i)\<rparr>)"
    by (rule format_module_message [where Base = 0 and bs = message_blocks, OF _ _ _ _ _ _ message_tree_at place])
      (simp_all add: size message_blocks_at found chars')
  then show ?thesis unfolding chars by (simp add: fun_eq_iff numeral_2_eq_2)
qed

lemma message_file_found:
  "LdkpFindSystemMessageInCachedImages [None, Some (message_image, 1024)] 5 1033 = Some (message_image, 624)"
proof -
  have header: "pe_header message_image 1024 = Some 64" by (simp add: pe_header_def message_reads)
  have sections: "NumberOfSections message_image 64 = 1" by (simp add: NumberOfSections_def message_reads)
  have places: "LdkpPeRvaToFilePointer message_image 1024 512 16 = Some 512" "LdkpPeRvaToFilePointer message_image 1024 608 28 = Some 608"
    by (simp_all add: LdkpPeRvaToFilePointer_def header sections section_header_def VirtualAddress_def Misc_VirtualSize_def
      SizeOfRawData_def PointerToRawData_def message_reads Let_def)
  have directory: "LdkpGetPeResourceDirectory message_image 1024 = Some (512, 256)"
    by (simp add: LdkpGetPeResourceDirectory_def header places message_reads)
  have "message_data_entry message_image 512 256 1033 = Some 584"
    by (simp add: message_entry_in_tree [OF message_tree_at] message_place_def message_tree_def DataEntry_Size_def message_reads)
  then have "LdkpFindMessageResourceData message_image 1024 1033 = Some (608, 28)"
    by (simp add: LdkpFindMessageResourceData_def directory DataEntry_OffsetToData_def DataEntry_Size_def message_reads places)
  moreover have "LdkpFindMessageResourceEntry message_image 608 28 5 = Some 624"
    by (simp add: LdkpFindMessageResourceEntry_def message_reads LdkpResourceOffsetIsValid_def entry_walk.simps Entry_Length_def)
  ultimately show ?thesis by simp
qed

theorem empty_message_block_lost_witness:
  "\<exists>n s'. FormatMessageW (\<lambda>_. True) (\<lambda>_. 0) message_image (\<lambda>_. None) [None, Some (message_image, 1024)]
     \<lparr>dwFlags = 0x1100, lpSource = 0, SourceString = [], dwMessageId = 5, dwLanguageId = 1033, lpBuffer = True, nSize = 0\<rparr>
     \<lparr>LastError = 0, Buffer = (\<lambda>_. 7), Blocks = [], Pointer = None\<rparr> = (n, s') \<and> length (Blocks s') = 2 \<and> Pointer s' = Some 1"
proof -
  let ?c = "\<lparr>dwFlags = 0x1100, lpSource = 0, SourceString = [], dwMessageId = 5, dwLanguageId = 1033, lpBuffer = True, nSize = 0\<rparr>
    :: u16 format_call"
  have found: "LdkpFindSystemMessageInCachedImages [None, Some (message_image, 1024)] (dwMessageId ?c) (dwLanguageId ?c mod 2 ^ 16) =
      Some (message_image, 624)" using message_file_found by simp
  have len: "Entry_Length message_image 624 = 4" by (simp add: Entry_Length_def message_reads)
  obtain t where t: "LdkpLookupSystemErrorMessage (dwMessageId ?c) = Some t" by (simp add: LdkpLookupSystemErrorMessage_def error_texts_def)
  show ?thesis
    using empty_message_block_lost [OF found len t, of "\<lambda>_. True" "\<lambda>_. 0" message_image "\<lambda>_. None"
        "\<lparr>LastError = 0, Buffer = (\<lambda>_. 7), Blocks = [], Pointer = None\<rparr>"]
    by auto
qed

section \<open>A file that is too short\<close>

lemma short_file:
  assumes "agree_on 0 584 message_image m" and "read_le 4 m 584 = 512" and "read_le 4 m 588 = k" and "16 \<le> k" "k \<le> 76"
  shows "LdkpFindMessageResourceData m 588 1033 = Some (512, k)"
proof -
  note r = agree_read [OF assms(1)]
  have header: "pe_header m 588 = Some 64" by (simp add: pe_header_def r message_reads)
  have sections: "NumberOfSections m 64 = 1" by (simp add: NumberOfSections_def r message_reads)
  have places: "LdkpPeRvaToFilePointer m 588 512 n = Some 512" if "n \<le> 76" for n
    using that by (simp add: LdkpPeRvaToFilePointer_def header sections section_header_def VirtualAddress_def Misc_VirtualSize_def
      SizeOfRawData_def PointerToRawData_def r message_reads Let_def)
  have directory: "LdkpGetPeResourceDirectory m 588 = Some (512, 256)"
    by (simp add: LdkpGetPeResourceDirectory_def header places r message_reads)
  have "resource_tree_at m 512 256 message_tree"
    by (simp add: resource_tree_at_def resource_table_at_def subtable_at_def description_at_def message_tree_def
      EntryCount_def NameIsString_def Entry_Id_def NameOffset_def DataIsDirectory_def OffsetToDirectory_def OffsetToData_def
      r message_reads)
  then have "message_data_entry m 512 256 1033 = Some 584"
    using assms(3,4) by (simp add: message_entry_in_tree message_place_def message_tree_def DataEntry_Size_def)
  then show ?thesis
    using assms(2,3,5) by (simp add: LdkpFindMessageResourceData_def directory DataEntry_OffsetToData_def DataEntry_Size_def places)
qed

text \<open>The search for the message table of a file can read behind the end of the file: of the resource
  directory only the first 16 bytes are known to lie in it, but its size is taken as given. There are a
  file of 588 bytes and two contents of the memory behind it for which the results differ.\<close>

theorem message_file_overread:
  "\<exists>m m'. agree_on 0 588 m m' \<and>
     LdkpFindMessageResourceData m 588 1033 = Some (512, 28) \<and> LdkpFindMessageResourceData m' 588 1033 = Some (512, 29)"
proof -
  define m where "m = message_image(584 := 0, 585 := 2)"
  define m' where "m' = m(588 := 29)"
  have bytes: "message_image 584 = 96" "message_image 585 = 2" "message_image 586 = 0" "message_image 587 = 0"
    "message_image 588 = 28" "message_image 589 = 0" "message_image 590 = 0" "message_image 591 = 0"
    by (simp_all add: message_image_def bytes_at_simps message_bytes_def)
  have "agree_on 0 588 m m'" by (simp add: agree_on_def m'_def)
  moreover have "LdkpFindMessageResourceData m 588 1033 = Some (512, 28)"
    by (rule short_file) (simp_all add: agree_on_def m_def read_le_four bytes)
  moreover have "LdkpFindMessageResourceData m' 588 1033 = Some (512, 29)"
    by (rule short_file) (simp_all add: agree_on_def m'_def m_def read_le_four bytes)
  ultimately show ?thesis by blast
qed

end
