(* ===== verification/ResourceApi.thy ===== *)
theory ResourceApi
  imports Resources ThreadpoolObjects
begin

text \<open>
  The resource functions of Win32 (src/kernel32/winbase.c): finding a resource of a module, the address of its
  data and its size. A resource handle is the address of its description.
\<close>

abbreviation (input) INVALID_HANDLE :: dos_error where "INVALID_HANDLE \<equiv> 6"
abbreviation (input) INVALID_PARAMETER :: dos_error where "INVALID_PARAMETER \<equiv> 87"

text \<open>\<open>Peb_ImageBase\<close> is the image of the process, which the null handle stands for; \<open>headers\<close> and \<open>directory\<close>
  are \<open>RtlImageNtHeader\<close> and \<open>RtlImageDirectoryEntryToData\<close>. A result \<open>Inl\<close> is the last error.\<close>

definition FindResourceExW :: "image \<Rightarrow> (addr \<Rightarrow> addr option) \<Rightarrow> (addr \<Rightarrow> (addr \<times> nat) option) \<Rightarrow> addr \<Rightarrow> addr \<Rightarrow>
    resource_name \<Rightarrow> resource_name \<Rightarrow> nat \<Rightarrow> dos_error + addr" where
  "FindResourceExW m headers directory Peb_ImageBase hModule lpType lpName wLanguage =
     (let ImageBase = LdkpMapModuleHandle Peb_ImageBase hModule True in
      if ImageBase = NULL then Inl INVALID_HANDLE
      else LdkpFindMappedResourceDataEntry m (headers ImageBase) (directory ImageBase) ImageBase lpType lpName wLanguage)"

definition FindResourceW :: "image \<Rightarrow> (addr \<Rightarrow> addr option) \<Rightarrow> (addr \<Rightarrow> (addr \<times> nat) option) \<Rightarrow> addr \<Rightarrow> addr \<Rightarrow>
    resource_name \<Rightarrow> resource_name \<Rightarrow> dos_error + addr" where
  "FindResourceW m headers directory Peb_ImageBase hModule lpName lpType =
     FindResourceExW m headers directory Peb_ImageBase hModule lpType lpName 0"

definition LoadResource :: "image \<Rightarrow> (addr \<Rightarrow> addr option) \<Rightarrow> addr \<Rightarrow> addr \<Rightarrow> addr \<Rightarrow> dos_error + addr" where
  "LoadResource m headers Peb_ImageBase hModule hResInfo =
     (if hResInfo = NULL then Inl INVALID_PARAMETER
      else
        let ImageBase = LdkpMapModuleHandle Peb_ImageBase hModule True in
        if ImageBase = NULL then Inl INVALID_HANDLE
        else case LdkpMappedImageRvaToPointer m (headers ImageBase) ImageBase
            (DataEntry_OffsetToData m hResInfo) (DataEntry_Size m hResInfo) of
          None \<Rightarrow> Inl ERROR_RESOURCE_DATA_NOT_FOUND
        | Some ResourceData \<Rightarrow> Inr ResourceData)"

definition SizeofResource :: "image \<Rightarrow> (addr \<Rightarrow> addr option) \<Rightarrow> addr \<Rightarrow> addr \<Rightarrow> addr \<Rightarrow> dos_error + nat" where
  "SizeofResource m headers Peb_ImageBase hModule hResInfo =
     (if hResInfo = NULL then Inl INVALID_PARAMETER
      else
        let ImageBase = LdkpMapModuleHandle Peb_ImageBase hModule True in
        if ImageBase = NULL then Inl INVALID_HANDLE
        else case LdkpMappedImageRvaToPointer m (headers ImageBase) ImageBase
            (DataEntry_OffsetToData m hResInfo) (DataEntry_Size m hResInfo) of
          None \<Rightarrow> Inl ERROR_RESOURCE_DATA_NOT_FOUND
        | Some _ \<Rightarrow> Inr (DataEntry_Size m hResInfo))"

text \<open>What a successful lookup returns can be loaded: the description lies in the directory, so it is not null
  when the directory is not, and its data has passed the check that loading makes again.\<close>

lemma found_mapped:
  assumes "LdkpFindMappedResourceDataEntry m nt dir base ty nm l = Inr e"
  shows "\<exists>q. LdkpMappedImageRvaToPointer m nt base (DataEntry_OffsetToData m e) (DataEntry_Size m e) = Some q"
  using assms by (auto simp: LdkpFindMappedResourceDataEntry_def Let_def split: if_splits option.splits prod.splits)

lemma found_in_directory:
  assumes "LdkpFindMappedResourceDataEntry m nt dir base ty nm l = Inr e"
  shows "\<exists>a n. dir = Some (a, n) \<and> a \<le> e \<and> e + 16 \<le> a + n"
proof (cases dir)
  case (Some an)
  obtain a n where an: "an = (a, n)" by fastforce
  have "a \<le> e \<and> e + 16 \<le> a + n"
    using assms unfolding Some an find_data_levels
    by (auto simp: below_def data_of_def valid_offset split: if_splits option.splits)
  then show ?thesis by (simp add: Some an)
qed (use assms in \<open>auto simp: LdkpFindMappedResourceDataEntry_def split: if_splits\<close>)

text \<open>A resource that is found can be loaded: \<open>LoadResource\<close> then gives the address that its description
  has in the image, \<open>SizeofResource\<close> its size, and all of the data lies in the image. This needs that the
  resources of an image do not begin at address 0.\<close>

theorem found_resource_loads:
  assumes "FindResourceExW m headers directory Peb_ImageBase hModule lpType lpName wLanguage = Inr e"
    and "\<And>b n. directory b \<noteq> Some (0, n)"
  shows "\<exists>base h. LoadResource m headers Peb_ImageBase hModule e = Inr (base + DataEntry_OffsetToData m e) \<and>
    SizeofResource m headers Peb_ImageBase hModule e = Inr (DataEntry_Size m e) \<and>
    headers base = Some h \<and> DataEntry_OffsetToData m e + DataEntry_Size m e \<le> SizeOfImage m h"
proof -
  define base where "base = LdkpMapModuleHandle Peb_ImageBase hModule True"
  have find: "base \<noteq> NULL" "LdkpFindMappedResourceDataEntry m (headers base) (directory base) base lpType lpName wLanguage = Inr e"
    using assms(1) by (auto simp: FindResourceExW_def base_def Let_def split: if_splits)
  obtain a n where "directory base = Some (a, n)" "a \<le> e" using found_in_directory [OF find(2)] by auto
  then have e: "e \<noteq> NULL" using assms(2) [of base n] by (cases "a = 0") auto
  obtain q where q: "LdkpMappedImageRvaToPointer m (headers base) base (DataEntry_OffsetToData m e) (DataEntry_Size m e) = Some q"
    using found_mapped [OF find(2)] by auto
  from mapped_pointer [OF q] obtain h where h: "headers base = Some h" "q = base + DataEntry_OffsetToData m e"
    "DataEntry_OffsetToData m e + DataEntry_Size m e \<le> SizeOfImage m h" by auto
  have "LoadResource m headers Peb_ImageBase hModule e = Inr (base + DataEntry_OffsetToData m e)"
    "SizeofResource m headers Peb_ImageBase hModule e = Inr (DataEntry_Size m e)"
    using find(1) e q h(2) by (simp_all add: LoadResource_def SizeofResource_def base_def [symmetric])
  with h show ?thesis by blast
qed

text \<open>The sample image at address 0, found by the handle 1 of a data file.\<close>

theorem found_resource_loads_witness:
  "\<exists>base h. LoadResource sample_image (\<lambda>_. Some 0) 0 4096 196 = Inr (base + 300) \<and>
     SizeofResource sample_image (\<lambda>_. Some 0) 0 4096 196 = Inr 5 \<and> (Some 0 = Some h) \<and> 305 \<le> SizeOfImage sample_image h"
proof -
  have "FindResourceExW sample_image (\<lambda>_. Some 0) (\<lambda>_. Some (100, 200)) 0 4096 (IntResource 6) (IntResource 1) 1033 = Inr 196"
    using find_resource [OF sample_tree_at, of "IntResource 6" "IntResource 1" "Some 0" _ 1033]
    by (simp add: FindResourceExW_def LdkpMapModuleHandle_def sample_fields LdkpMappedImageRvaToPointer_def lookup_resource_def
      sample_tree_def sample_names_def)
  from found_resource_loads [OF this] show ?thesis by (simp add: sample_fields)
qed

end
