(* ===== verification/ThreadContexts.thy ===== *)
theory ThreadContexts
  imports Prelude
begin

text \<open>
  Threads made by \<open>CreateThread\<close> and their shutdown (src/kernel32/processthreadsapi.c). Every thread has a
  context with the event it waits for before it runs; the list of contexts, the number of creations that
  are under way and the shutdown flag are guarded by one mutex. A region under the mutex is one step, as is
  every other access to a context. A context is named by its address, which the lookaside list may hand
  out again; a thread by its identifier, which stays its own as long as a context refers to it.
\<close>

section \<open>Contexts\<close>

text \<open>\<open>ThreadId\<close> also stands for the referenced thread object.\<close>

record thread_context =
  ThreadId :: tid
  StartupSuspendCount :: int
  Linked :: bool
  StartReleased :: bool
  ShutdownCancelled :: bool
  StartEvent :: bool

definition new_context :: "bool \<Rightarrow> thread_context" where
  "new_context CreateSuspended = \<lparr>ThreadId = 0, StartupSuspendCount = (if CreateSuspended then 1 else 0), Linked = False,
     StartReleased = False, ShutdownCancelled = False, StartEvent = False\<rparr>"

text \<open>Where the new thread is: waiting for its start event, about to look whether it was cancelled, in the
  caller's routine, or terminated.\<close>

datatype worker_pc = WNone | WWaiting addr | WCheck addr | WRunning | WEnded

text \<open>Where a caller of \<open>CreateThread\<close> is: with a new context, counted, after a failed creation, with a thread
  that is not looked up yet, with one that is, after a failed lookup, waiting for the cancelled thread, and
  about to free the context.\<close>

datatype creator_pc = CIdle | CAlloc addr bool | CCounted addr bool | CFailed addr | CCreated addr tid bool
  | CLooked addr tid bool | CLookupFailed addr tid | CLookupWait addr tid | CFree addr

text \<open>Where \<open>LdkpTerminateThreadContexts\<close> is: not called, in its loop, waiting for a thread or for the event
  of the creations, or finished, with the lookaside list deleted.\<close>

datatype drain_pc = DIdle | DLoop | DWaitThread tid | DWaitCreation | DFinished

record context_sys =
  tx_Mem :: "addr \<Rightarrow> thread_context option"
  tx_List :: "addr list"
  tx_CreationCount :: int
  tx_CreationCompleteEvent :: bool
  tx_Shutdown :: bool
  tx_Worker :: "tid \<Rightarrow> worker_pc"
  tx_Creator :: "tid \<Rightarrow> creator_pc"
  tx_Drain :: drain_pc

definition LdkpInitializeThreadContexts :: "context_sys \<Rightarrow> bool" where
  "LdkpInitializeThreadContexts s \<longleftrightarrow> (\<forall>c. tx_Mem s c = None) \<and> tx_List s = [] \<and> tx_CreationCount s = 0 \<and>
     tx_CreationCompleteEvent s \<and> \<not> tx_Shutdown s \<and> (\<forall>w. tx_Worker s w = WNone) \<and> (\<forall>k. tx_Creator s k = CIdle) \<and>
     tx_Drain s = DIdle"

section \<open>The regions under the mutex\<close>

text \<open>A zero timeout on the thread object tells whether the thread has terminated.\<close>

fun reap_loop :: "(tid \<Rightarrow> bool) \<Rightarrow> addr list \<Rightarrow> (addr \<Rightarrow> thread_context option) \<Rightarrow>
    addr list \<times> (addr \<Rightarrow> thread_context option)" where
  "reap_loop terminated [] m = ([], m)"
| "reap_loop terminated (c # cs) m =
     (if terminated (ThreadId (the (m c))) then reap_loop terminated cs (m(c := None))
      else case reap_loop terminated cs m of (cs', m') \<Rightarrow> (c # cs', m'))"

definition LdkpReapTerminatedThreadContextsLocked :: "context_sys \<Rightarrow> context_sys" where
  "LdkpReapTerminatedThreadContextsLocked s =
     (case reap_loop (\<lambda>w. tx_Worker s w = WEnded) (tx_List s) (tx_Mem s) of (l, m) \<Rightarrow> s\<lparr>tx_List := l, tx_Mem := m\<rparr>)"

definition LdkpCompleteThreadContextCreationLocked :: "context_sys \<Rightarrow> context_sys" where
  "LdkpCompleteThreadContextCreationLocked s =
     (let n = tx_CreationCount s - 1 in
      s\<lparr>tx_CreationCount := n, tx_CreationCompleteEvent := (if n = 0 then True else tx_CreationCompleteEvent s)\<rparr>)"

definition cancel_context :: "thread_context \<Rightarrow> thread_context" where
  "cancel_context x = x\<lparr>ShutdownCancelled := True, StartReleased := True, StartupSuspendCount := 0, StartEvent := True\<rparr>"

fun cancel_loop :: "addr list \<Rightarrow> (addr \<Rightarrow> thread_context option) \<Rightarrow> addr \<Rightarrow> thread_context option" where
  "cancel_loop [] m = m"
| "cancel_loop (c # cs) m =
     cancel_loop cs (if StartReleased (the (m c)) then m else m(c \<mapsto> cancel_context (the (m c))))"

definition LdkpBeginThreadContextShutdown :: "context_sys \<Rightarrow> context_sys" where
  "LdkpBeginThreadContextShutdown s =
     (let s1 = LdkpReapTerminatedThreadContextsLocked (s\<lparr>tx_Shutdown := True\<rparr>) in
      s1\<lparr>tx_Mem := cancel_loop (tx_List s1) (tx_Mem s1)\<rparr>)"

text \<open>The region of \<open>CreateThread\<close> that counts the creation, after the shutdown flag was found clear.\<close>

definition count_creation :: "context_sys \<Rightarrow> context_sys" where
  "count_creation s = s\<lparr>tx_CreationCompleteEvent := (if tx_CreationCount s = 0 then False else tx_CreationCompleteEvent s),
     tx_CreationCount := tx_CreationCount s + 1\<rparr>"

text \<open>The region that links the context and releases the thread unless it is to stay suspended.\<close>

definition linked_context :: "tid \<Rightarrow> bool \<Rightarrow> bool \<Rightarrow> thread_context \<Rightarrow> thread_context" where
  "linked_context w CreateSuspended Shutdown x =
     (let x1 = x\<lparr>ThreadId := w, Linked := True\<rparr> in
      if \<not> CreateSuspended \<or> Shutdown then
        (if Shutdown then x1\<lparr>ShutdownCancelled := True, StartupSuspendCount := 0\<rparr> else x1)
          \<lparr>StartReleased := True, StartEvent := True\<rparr>
      else x1)"

definition link_context :: "addr \<Rightarrow> tid \<Rightarrow> bool \<Rightarrow> context_sys \<Rightarrow> context_sys" where
  "link_context c w CreateSuspended s =
     LdkpCompleteThreadContextCreationLocked
       (s\<lparr>tx_List := tx_List s @ [c],
          tx_Mem := (tx_Mem s)(c \<mapsto> linked_context w CreateSuspended (tx_Shutdown s) (the (tx_Mem s c)))\<rparr>)"

text \<open>One turn of the loop that waits for all threads.\<close>

definition drain_turn :: "context_sys \<Rightarrow> context_sys" where
  "drain_turn s =
     (let s1 = LdkpReapTerminatedThreadContextsLocked s in
      s1\<lparr>tx_Drain := (case tx_List s1 of
          c # _ \<Rightarrow> DWaitThread (ThreadId (the (tx_Mem s1 c)))
        | [] \<Rightarrow> if tx_CreationCount s1 \<noteq> 0 then DWaitCreation else DFinished)\<rparr>)"

text \<open>Suspending and resuming work on a thread that has not been released; \<open>Inl\<close> is a failure with its
  error code. A thread that is not in the list is not one to resume.\<close>

abbreviation MAXIMUM_SUSPEND_COUNT :: int where "MAXIMUM_SUSPEND_COUNT \<equiv> 127"

definition LdkpFindThreadContextByIdLocked :: "context_sys \<Rightarrow> tid \<Rightarrow> addr option" where
  "LdkpFindThreadContextByIdLocked s w = List.find (\<lambda>c. ThreadId (the (tx_Mem s c)) = w) (tx_List s)"

definition SuspendThread :: "tid \<Rightarrow> context_sys \<Rightarrow> (nat + int) \<times> context_sys" where
  "SuspendThread w s =
     (case LdkpFindThreadContextByIdLocked s w of
        None \<Rightarrow> (Inl 50, s)
      | Some c \<Rightarrow>
          let x = the (tx_Mem s c); PreviousCount = StartupSuspendCount x in
          if StartReleased x \<or> PreviousCount = 0 then (Inl 50, s)
          else if PreviousCount \<ge> MAXIMUM_SUSPEND_COUNT then (Inl 87, s)
          else (Inr PreviousCount, s\<lparr>tx_Mem := (tx_Mem s)(c \<mapsto> x\<lparr>StartupSuspendCount := PreviousCount + 1\<rparr>)\<rparr>))"

definition resumed_context :: "thread_context \<Rightarrow> thread_context" where
  "resumed_context x =
     (let PreviousCount = StartupSuspendCount x in
      if PreviousCount > 0 then
        let x1 = x\<lparr>StartupSuspendCount := PreviousCount - 1\<rparr> in
        if StartupSuspendCount x1 = 0 then x1\<lparr>StartReleased := True, StartEvent := True\<rparr> else x1
      else x)"

definition ResumeThread :: "tid \<Rightarrow> context_sys \<Rightarrow> (nat + int) \<times> context_sys" where
  "ResumeThread w s =
     (case LdkpFindThreadContextByIdLocked s w of
        None \<Rightarrow> (Inr 0, s)
      | Some c \<Rightarrow>
          let x = the (tx_Mem s c) in
          (Inr (StartupSuspendCount x), s\<lparr>tx_Mem := (tx_Mem s)(c \<mapsto> resumed_context x)\<rparr>))"

section \<open>The machine\<close>

text \<open>Any thread may create, suspend and resume; one thread terminates the component. A wait of that thread
  may also end by a timeout, as it does in builds with diagnostics.\<close>

inductive tx_step :: "context_sys \<Rightarrow> context_sys \<Rightarrow> bool" where
  alloc: "tx_Creator s k = CIdle \<Longrightarrow> tx_Mem s c = None \<Longrightarrow> tx_Drain s \<noteq> DFinished \<Longrightarrow>
    tx_step s (s\<lparr>tx_Mem := (tx_Mem s)(c \<mapsto> new_context susp), tx_Creator := (tx_Creator s)(k := CAlloc c susp)\<rparr>)"
| refuse: "tx_Creator s k = CAlloc c susp \<Longrightarrow> tx_Shutdown s \<Longrightarrow>
    tx_step s ((LdkpReapTerminatedThreadContextsLocked s)\<lparr>tx_Creator := (tx_Creator s)(k := CFree c)\<rparr>)"
| counted: "tx_Creator s k = CAlloc c susp \<Longrightarrow> \<not> tx_Shutdown s \<Longrightarrow>
    tx_step s ((count_creation (LdkpReapTerminatedThreadContextsLocked s))\<lparr>tx_Creator := (tx_Creator s)(k := CCounted c susp)\<rparr>)"
| create: "tx_Creator s k = CCounted c susp \<Longrightarrow> tx_Worker s w = WNone \<Longrightarrow>
    tx_step s (s\<lparr>tx_Worker := (tx_Worker s)(w := WWaiting c), tx_Creator := (tx_Creator s)(k := CCreated c w susp)\<rparr>)"
| create_failed: "tx_Creator s k = CCounted c susp \<Longrightarrow>
    tx_step s (s\<lparr>tx_Creator := (tx_Creator s)(k := CFailed c)\<rparr>)"
| uncount: "tx_Creator s k = CFailed c \<Longrightarrow>
    tx_step s ((LdkpCompleteThreadContextCreationLocked s)\<lparr>tx_Creator := (tx_Creator s)(k := CFree c)\<rparr>)"
| free: "tx_Creator s k = CFree c \<Longrightarrow>
    tx_step s (s\<lparr>tx_Mem := (tx_Mem s)(c := None), tx_Creator := (tx_Creator s)(k := CIdle)\<rparr>)"
| lookup: "tx_Creator s k = CCreated c w susp \<Longrightarrow>
    tx_step s (s\<lparr>tx_Creator := (tx_Creator s)(k := CLooked c w susp)\<rparr>)"
| lookup_failed: "tx_Creator s k = CCreated c w susp \<Longrightarrow> tx_Mem s c = Some x \<Longrightarrow>
    tx_step s (s\<lparr>tx_Mem := (tx_Mem s)(c \<mapsto> x\<lparr>ShutdownCancelled := True, StartReleased := True\<rparr>),
      tx_Creator := (tx_Creator s)(k := CLookupFailed c w)\<rparr>)"
| lookup_set: "tx_Creator s k = CLookupFailed c w \<Longrightarrow> tx_Mem s c = Some x \<Longrightarrow>
    tx_step s (s\<lparr>tx_Mem := (tx_Mem s)(c \<mapsto> x\<lparr>StartEvent := True\<rparr>), tx_Creator := (tx_Creator s)(k := CLookupWait c w)\<rparr>)"
| lookup_wait: "tx_Creator s k = CLookupWait c w \<Longrightarrow> tx_Worker s w = WEnded \<Longrightarrow>
    tx_step s (s\<lparr>tx_Creator := (tx_Creator s)(k := CFailed c)\<rparr>)"
| link: "tx_Creator s k = CLooked c w susp \<Longrightarrow>
    tx_step s ((link_context c w susp s)\<lparr>tx_Creator := (tx_Creator s)(k := CIdle)\<rparr>)"
| wake: "tx_Worker s w = WWaiting c \<Longrightarrow> tx_Mem s c = Some x \<Longrightarrow> StartEvent x \<Longrightarrow>
    tx_step s (s\<lparr>tx_Worker := (tx_Worker s)(w := WCheck c)\<rparr>)"
| cancelled: "tx_Worker s w = WCheck c \<Longrightarrow> tx_Mem s c = Some x \<Longrightarrow> ShutdownCancelled x \<Longrightarrow>
    tx_step s (s\<lparr>tx_Worker := (tx_Worker s)(w := WEnded)\<rparr>)"
| run: "tx_Worker s w = WCheck c \<Longrightarrow> tx_Mem s c = Some x \<Longrightarrow> \<not> ShutdownCancelled x \<Longrightarrow>
    tx_step s (s\<lparr>tx_Worker := (tx_Worker s)(w := WRunning)\<rparr>)"
| exit: "tx_Worker s w = WRunning \<Longrightarrow>
    tx_step s (s\<lparr>tx_Worker := (tx_Worker s)(w := WEnded)\<rparr>)"
| suspend: "tx_step s (snd (SuspendThread w s))"
| resume: "tx_step s (snd (ResumeThread w s))"
| shutdown: "tx_Drain s = DIdle \<Longrightarrow>
    tx_step s ((LdkpBeginThreadContextShutdown s)\<lparr>tx_Drain := DLoop\<rparr>)"
| drain: "tx_Drain s = DLoop \<Longrightarrow> tx_step s (drain_turn s)"
| drain_thread: "tx_Drain s = DWaitThread w \<Longrightarrow> tx_Worker s w = WEnded \<Longrightarrow>
    tx_step s (s\<lparr>tx_Drain := DLoop\<rparr>)"
| drain_creation: "tx_Drain s = DWaitCreation \<Longrightarrow> tx_CreationCompleteEvent s \<Longrightarrow>
    tx_step s (s\<lparr>tx_Drain := DLoop\<rparr>)"
| drain_timeout: "tx_Drain s = DWaitThread w \<or> tx_Drain s = DWaitCreation \<Longrightarrow>
    tx_step s (s\<lparr>tx_Drain := DLoop\<rparr>)"

abbreviation tx_reach :: "context_sys \<Rightarrow> bool" where
  "tx_reach \<equiv> reach LdkpInitializeThreadContexts tx_step"

section \<open>The invariant\<close>

text \<open>The context a caller holds, the thread it has made for it, and whether its creation is counted.\<close>

definition creator_ctx :: "creator_pc \<Rightarrow> addr option" where
  "creator_ctx p = (case p of CIdle \<Rightarrow> None | CAlloc c _ \<Rightarrow> Some c | CCounted c _ \<Rightarrow> Some c | CFailed c \<Rightarrow> Some c
     | CCreated c _ _ \<Rightarrow> Some c | CLooked c _ _ \<Rightarrow> Some c | CLookupFailed c _ \<Rightarrow> Some c | CLookupWait c _ \<Rightarrow> Some c
     | CFree c \<Rightarrow> Some c)"

definition creator_worker :: "creator_pc \<Rightarrow> (addr \<times> tid) option" where
  "creator_worker p = (case p of CCreated c w _ \<Rightarrow> Some (c, w) | CLooked c w _ \<Rightarrow> Some (c, w)
     | CLookupFailed c w \<Rightarrow> Some (c, w) | CLookupWait c w \<Rightarrow> Some (c, w) | _ \<Rightarrow> None)"

definition counted_pc :: "creator_pc \<Rightarrow> bool" where
  "counted_pc p \<longleftrightarrow> (case p of CIdle \<Rightarrow> False | CAlloc _ _ \<Rightarrow> False | CFree _ \<Rightarrow> False | _ \<Rightarrow> True)"

lemma pc_simps [simp]:
  "creator_ctx CIdle = None" "creator_ctx (CAlloc c b) = Some c" "creator_ctx (CCounted c b) = Some c"
  "creator_ctx (CFailed c) = Some c" "creator_ctx (CCreated c w b) = Some c" "creator_ctx (CLooked c w b) = Some c"
  "creator_ctx (CLookupFailed c w) = Some c" "creator_ctx (CLookupWait c w) = Some c" "creator_ctx (CFree c) = Some c"
  "creator_worker CIdle = None" "creator_worker (CAlloc c b) = None" "creator_worker (CCounted c b) = None"
  "creator_worker (CFailed c) = None" "creator_worker (CCreated c w b) = Some (c, w)"
  "creator_worker (CLooked c w b) = Some (c, w)" "creator_worker (CLookupFailed c w) = Some (c, w)"
  "creator_worker (CLookupWait c w) = Some (c, w)" "creator_worker (CFree c) = None"
  "\<not> counted_pc CIdle" "\<not> counted_pc (CAlloc c b)" "counted_pc (CCounted c b)" "counted_pc (CFailed c)"
  "counted_pc (CCreated c w b)" "counted_pc (CLooked c w b)" "counted_pc (CLookupFailed c w)"
  "counted_pc (CLookupWait c w)" "\<not> counted_pc (CFree c)"
  by (simp_all add: creator_ctx_def creator_worker_def counted_pc_def)

text \<open>A context that is not linked yet, one in the list, and the one of a caller at each point.\<close>

definition fresh_ok :: "bool \<Rightarrow> thread_context \<Rightarrow> bool" where
  "fresh_ok susp x \<longleftrightarrow> \<not> StartReleased x \<and> \<not> StartEvent x \<and> \<not> ShutdownCancelled x \<and> StartupSuspendCount x = of_bool susp"

definition listed_ok :: "thread_context \<Rightarrow> bool" where
  "listed_ok x \<longleftrightarrow> StartReleased x = StartEvent x \<and> (StartReleased x \<longleftrightarrow> StartupSuspendCount x = 0) \<and>
     0 \<le> StartupSuspendCount x \<and> StartupSuspendCount x \<le> MAXIMUM_SUSPEND_COUNT \<and> (ShutdownCancelled x \<longrightarrow> StartReleased x)"

definition creator_ok :: "(addr \<Rightarrow> thread_context option) \<Rightarrow> creator_pc \<Rightarrow> bool" where
  "creator_ok m p \<longleftrightarrow> (case p of
     CIdle \<Rightarrow> True
   | CAlloc c b \<Rightarrow> (\<exists>x. m c = Some x \<and> fresh_ok b x) | CCounted c b \<Rightarrow> (\<exists>x. m c = Some x \<and> fresh_ok b x)
   | CCreated c w b \<Rightarrow> (\<exists>x. m c = Some x \<and> fresh_ok b x) | CLooked c w b \<Rightarrow> (\<exists>x. m c = Some x \<and> fresh_ok b x)
   | CLookupFailed c w \<Rightarrow> (\<exists>x. m c = Some x \<and> ShutdownCancelled x \<and> \<not> StartEvent x)
   | CLookupWait c w \<Rightarrow> (\<exists>x. m c = Some x \<and> ShutdownCancelled x \<and> StartEvent x)
   | CFailed c \<Rightarrow> m c \<noteq> None | CFree c \<Rightarrow> m c \<noteq> None)"

definition worker_ok :: "addr \<Rightarrow> worker_pc \<Rightarrow> thread_context \<Rightarrow> bool" where
  "worker_ok c p x \<longleftrightarrow> p \<in> {WWaiting c, WCheck c, WRunning, WEnded} \<and> (p = WCheck c \<longrightarrow> StartEvent x) \<and>
     (p = WRunning \<longrightarrow> StartReleased x \<and> \<not> ShutdownCancelled x)"

definition owned :: "context_sys \<Rightarrow> bool" where
  "owned s \<longleftrightarrow> distinct (tx_List s) \<and> (\<forall>k c. creator_ctx (tx_Creator s k) = Some c \<longrightarrow> c \<notin> set (tx_List s)) \<and>
     (\<forall>k k' c. creator_ctx (tx_Creator s k) = Some c \<and> creator_ctx (tx_Creator s k') = Some c \<longrightarrow> k = k')"

definition listed :: "context_sys \<Rightarrow> bool" where
  "listed s \<longleftrightarrow> (\<forall>c\<in>set (tx_List s). \<exists>x. tx_Mem s c = Some x \<and> listed_ok x \<and> worker_ok c (tx_Worker s (ThreadId x)) x \<and>
     (tx_Shutdown s \<longrightarrow> StartReleased x))"

definition created :: "context_sys \<Rightarrow> bool" where
  "created s \<longleftrightarrow> (\<forall>k. creator_ok (tx_Mem s) (tx_Creator s k)) \<and>
     (\<forall>k c w. creator_worker (tx_Creator s k) = Some (c, w) \<longrightarrow>
       tx_Worker s w \<in> {WWaiting c, WCheck c, WEnded} \<and> (tx_Worker s w = WCheck c \<longrightarrow> StartEvent (the (tx_Mem s c))))"

definition active :: "worker_pc \<Rightarrow> bool" where
  "active p \<longleftrightarrow> p \<noteq> WNone \<and> p \<noteq> WEnded"

definition traced :: "context_sys \<Rightarrow> bool" where
  "traced s \<longleftrightarrow> (\<forall>w. active (tx_Worker s w) \<longrightarrow>
     (\<exists>c\<in>set (tx_List s). ThreadId (the (tx_Mem s c)) = w) \<or> (\<exists>k c. creator_worker (tx_Creator s k) = Some (c, w)))"

definition tallied :: "context_sys \<Rightarrow> bool" where
  "tallied s \<longleftrightarrow> finite_at counted_pc (tx_Creator s) \<and> tx_CreationCount s = count_at counted_pc (tx_Creator s) \<and>
     (tx_CreationCompleteEvent s \<longleftrightarrow> tx_CreationCount s = 0) \<and> (tx_Drain s \<noteq> DIdle \<longrightarrow> tx_Shutdown s) \<and>
     (tx_Drain s = DFinished \<longrightarrow> tx_List s = [] \<and> tx_CreationCount s = 0)"

definition tx_inv :: "context_sys \<Rightarrow> bool" where
  "tx_inv s \<longleftrightarrow> owned s \<and> listed s \<and> created s \<and> traced s \<and> tallied s"

lemma reap_loop_eq:
  "distinct cs \<Longrightarrow> reap_loop t cs m =
    (filter (\<lambda>c. \<not> t (ThreadId (the (m c)))) cs,
     (\<lambda>c. if c \<in> set cs \<and> t (ThreadId (the (m c))) then None else m c))"
proof (induction cs arbitrary: m)
  case (Cons c cs)
  have "filter (\<lambda>a. \<not> t (ThreadId (the ((m(c := None)) a)))) cs = filter (\<lambda>a. \<not> t (ThreadId (the (m a)))) cs"
    by (rule filter_cong) (use Cons.prems in auto)
  then show ?case using Cons.prems by (auto simp: Cons.IH fun_eq_iff)
qed simp

lemma cancel_loop_eq:
  "distinct cs \<Longrightarrow> cancel_loop cs m =
    (\<lambda>c. if c \<in> set cs \<and> \<not> StartReleased (the (m c)) then Some (cancel_context (the (m c))) else m c)"
  by (induction cs arbitrary: m) (auto simp: fun_eq_iff)

lemma reap_eq:
  assumes "owned s"
  shows "LdkpReapTerminatedThreadContextsLocked s =
    s\<lparr>tx_List := filter (\<lambda>c. tx_Worker s (ThreadId (the (tx_Mem s c))) \<noteq> WEnded) (tx_List s),
      tx_Mem := (\<lambda>c. if c \<in> set (tx_List s) \<and> tx_Worker s (ThreadId (the (tx_Mem s c))) = WEnded then None else tx_Mem s c)\<rparr>"
proof -
  have "distinct (tx_List s)" using assms by (simp add: owned_def)
  then show ?thesis by (simp add: LdkpReapTerminatedThreadContextsLocked_def reap_loop_eq)
qed

lemma creator_ok_mem: "creator_ok m p \<Longrightarrow> (\<And>c. creator_ctx p = Some c \<Longrightarrow> m' c = m c) \<Longrightarrow> creator_ok m' p"
  by (cases p) (auto simp: creator_ok_def)

lemma worker_ctx: "creator_worker p = Some (c, w) \<Longrightarrow> creator_ctx p = Some c"
  by (cases p) auto

text \<open>Reaping keeps the invariant.\<close>

lemma inv_reap:
  assumes "tx_inv s"
  shows "tx_inv (LdkpReapTerminatedThreadContextsLocked s)"
proof -
  have o: "owned s" using assms by (simp add: tx_inv_def)
  have m: "creator_ctx (tx_Creator s k) = Some c \<Longrightarrow> c \<notin> set (tx_List s)" for k c using o by (auto simp: owned_def)
  show ?thesis
    unfolding reap_eq [OF o] tx_inv_def
  proof (intro conjI)
    let ?s = "s\<lparr>tx_List := filter (\<lambda>c. tx_Worker s (ThreadId (the (tx_Mem s c))) \<noteq> WEnded) (tx_List s),
      tx_Mem := (\<lambda>c. if c \<in> set (tx_List s) \<and> tx_Worker s (ThreadId (the (tx_Mem s c))) = WEnded then None else tx_Mem s c)\<rparr>"
    show "owned ?s" using o by (auto simp: owned_def)
    show "listed ?s" using assms by (auto simp: tx_inv_def listed_def)
    have "created s" using assms by (simp add: tx_inv_def)
    then show "created ?s" using m worker_ctx by (fastforce simp: created_def intro: creator_ok_mem)
    show "traced ?s" using assms by (fastforce simp: tx_inv_def traced_def active_def)
    show "tallied ?s" using assms by (auto simp: tx_inv_def tallied_def)
  qed
qed

text \<open>A caller that moves on, and possibly changes the context it holds, keeps all but the count.\<close>

lemma inv_creator:
  assumes "owned s" "listed s" "created s" "traced s"
    and c: "c \<notin> set (tx_List s)" "\<And>k'. k' \<noteq> k \<Longrightarrow> creator_ctx (tx_Creator s k') \<noteq> Some c"
    and p: "creator_ctx p \<in> {Some c, None}" "creator_ok m p" and m: "\<And>y. y \<noteq> c \<Longrightarrow> m y = tx_Mem s y"
    and w: "\<And>w. creator_worker p = Some (c, w) \<Longrightarrow>
        tx_Worker s w \<in> {WWaiting c, WCheck c, WEnded} \<and> (tx_Worker s w = WCheck c \<longrightarrow> StartEvent (the (m c)))"
    and left: "\<And>c' w. creator_worker (tx_Creator s k) = Some (c', w) \<Longrightarrow> active (tx_Worker s w) \<Longrightarrow> creator_worker p = Some (c', w)"
  shows "owned (s\<lparr>tx_Mem := m, tx_Creator := (tx_Creator s)(k := p)\<rparr>)"
    "listed (s\<lparr>tx_Mem := m, tx_Creator := (tx_Creator s)(k := p)\<rparr>)"
    "created (s\<lparr>tx_Mem := m, tx_Creator := (tx_Creator s)(k := p)\<rparr>)"
    "traced (s\<lparr>tx_Mem := m, tx_Creator := (tx_Creator s)(k := p)\<rparr>)"
proof -
  let ?d = "s\<lparr>tx_Mem := m, tx_Creator := (tx_Creator s)(k := p)\<rparr>"
  have lm: "m y = tx_Mem s y" if "y \<in> set (tx_List s)" for y using m [of y] that c(1) by auto
  show "owned ?d" using assms(1) c p(1) by (auto simp: owned_def)
  show "listed ?d" using assms(2) lm by (auto simp: listed_def)
  have ok: "creator_ok m (((tx_Creator s)(k := p)) k')" for k'
  proof (cases "k' = k")
    case False
    have "creator_ok (tx_Mem s) (tx_Creator s k')" using assms(3) by (simp add: created_def)
    then have "creator_ok m (tx_Creator s k')" by (rule creator_ok_mem) (use c(2) [OF False] m in metis)
    then show ?thesis using False by simp
  qed (use p in simp)
  have wk: "tx_Worker s w \<in> {WWaiting c', WCheck c', WEnded} \<and> (tx_Worker s w = WCheck c' \<longrightarrow> StartEvent (the (m c')))"
    if "creator_worker (((tx_Creator s)(k := p)) k') = Some (c', w)" for k' c' w
  proof (cases "k' = k")
    case True
    then have "creator_worker p = Some (c', w)" using that by simp
    moreover from worker_ctx [OF this] p(1) have "c' = c" by auto
    ultimately show ?thesis using w by blast
  next
    case False
    then have cw: "creator_worker (tx_Creator s k') = Some (c', w)" using that by simp
    have "m c' = tx_Mem s c'" using worker_ctx [OF cw] c(2) [OF False] m by metis
    then show ?thesis using assms(3) cw unfolding created_def by metis
  qed
  show "created ?d" unfolding created_def using ok wk by simp
  show "traced ?d" unfolding traced_def
  proof (intro allI impI)
    fix w assume "active (tx_Worker ?d w)"
    then have a: "active (tx_Worker s w)" by simp
    then consider c' where "c' \<in> set (tx_List s)" "ThreadId (the (tx_Mem s c')) = w" | k' c' where "creator_worker (tx_Creator s k') = Some (c', w)"
      using assms(4) by (auto simp: traced_def)
    then show "(\<exists>c\<in>set (tx_List ?d). ThreadId (the (tx_Mem ?d c)) = w) \<or> (\<exists>k c. creator_worker (tx_Creator ?d k) = Some (c, w))"
    proof cases
      case 1
      then show ?thesis using lm by auto
    next
      case 2
      show ?thesis
      proof (cases "k' = k")
        case True
        then have "creator_worker (tx_Creator ?d k) = Some (c', w)" using left [of c' w] 2 a by simp
        then show ?thesis by blast
      next
        case False
        then have "creator_worker (tx_Creator ?d k') = Some (c', w)" using 2 by simp
        then show ?thesis by blast
      qed
    qed
  qed
qed

lemma held_ctx:
  assumes "owned s" "creator_ctx (tx_Creator s k) = Some c"
  shows "c \<notin> set (tx_List s)" "k' \<noteq> k \<Longrightarrow> creator_ctx (tx_Creator s k') \<noteq> Some c"
  using assms by (auto simp: owned_def)

lemma unused_ctx:
  assumes "listed s" "created s" "tx_Mem s c = None"
  shows "c \<notin> set (tx_List s)" "creator_ctx (tx_Creator s k') \<noteq> Some c"
proof -
  show "c \<notin> set (tx_List s)" using assms(1,3) by (auto simp: listed_def)
  have "creator_ok (tx_Mem s) (tx_Creator s k')" using assms(2) by (simp add: created_def)
  then show "creator_ctx (tx_Creator s k') \<noteq> Some c" using assms(3) by (cases "tx_Creator s k'") (auto simp: creator_ok_def)
qed

lemma tallied_move:
  assumes "tallied s" "counted_pc p = counted_pc (tx_Creator s k)"
  shows "tallied (s\<lparr>tx_Mem := m, tx_Creator := (tx_Creator s)(k := p)\<rparr>)"
  using assms by (auto simp: tallied_def count_at_upd)

lemma tx_invI: "owned s \<Longrightarrow> listed s \<Longrightarrow> created s \<Longrightarrow> traced s \<Longrightarrow> tallied s \<Longrightarrow> tx_inv s"
  by (simp add: tx_inv_def)

lemma tx_invD: "tx_inv s \<Longrightarrow> owned s" "tx_inv s \<Longrightarrow> listed s" "tx_inv s \<Longrightarrow> created s" "tx_inv s \<Longrightarrow> traced s" "tx_inv s \<Longrightarrow> tallied s"
  by (simp_all add: tx_inv_def)

lemma creator_ok_at: "created s \<Longrightarrow> tx_Creator s k = p \<Longrightarrow> creator_ok (tx_Mem s) p"
  by (auto simp: created_def)

lemma creator_worker_at: "created s \<Longrightarrow> tx_Creator s k = p \<Longrightarrow> creator_worker p = Some (c, w) \<Longrightarrow>
    tx_Worker s w \<in> {WWaiting c, WCheck c, WEnded} \<and> (tx_Worker s w = WCheck c \<longrightarrow> StartEvent (the (tx_Mem s c)))"
  by (auto simp: created_def)

lemma inv_alloc:
  assumes i: "tx_inv s" and "tx_Creator s k = CIdle" "tx_Mem s c = None"
  shows "tx_inv (s\<lparr>tx_Mem := (tx_Mem s)(c \<mapsto> new_context susp), tx_Creator := (tx_Creator s)(k := CAlloc c susp)\<rparr>)"
proof -
  note u = unused_ctx [OF tx_invD(2,3) [OF i] assms(3)]
  have ok: "creator_ok ((tx_Mem s)(c \<mapsto> new_context susp)) (CAlloc c susp)"
    by (simp add: creator_ok_def fresh_ok_def new_context_def)
  show ?thesis
    by (intro tx_invI inv_creator [OF tx_invD(1-4) [OF i] u(1,2) _ ok] tallied_move tx_invD(5) [OF i]) (simp_all add: assms)
qed

text \<open>The same when only the caller moves.\<close>

lemma inv_move:
  assumes i: "tx_inv s" and "creator_ctx (tx_Creator s k) = Some c" "creator_ctx p = Some c" "creator_ok (tx_Mem s) p"
    "creator_worker p = creator_worker (tx_Creator s k)" "counted_pc p = counted_pc (tx_Creator s k)"
  shows "tx_inv (s\<lparr>tx_Creator := (tx_Creator s)(k := p)\<rparr>)"
proof -
  note h = held_ctx [OF tx_invD(1) [OF i] assms(2)]
  note cr = inv_creator [OF tx_invD(1-4) [OF i] h _ assms(4)]
  have w: "tx_Worker s w \<in> {WWaiting c, WCheck c, WEnded} \<and> (tx_Worker s w = WCheck c \<longrightarrow> StartEvent (the (tx_Mem s c)))"
    if "creator_worker p = Some (c, w)" for w
    using creator_worker_at [OF tx_invD(3) [OF i] refl, of k c w] that assms(5) by simp
  have "tx_inv (s\<lparr>tx_Mem := tx_Mem s, tx_Creator := (tx_Creator s)(k := p)\<rparr>)"
    by (intro tx_invI cr tallied_move tx_invD(5) [OF i] w) (simp_all add: assms)
  then show ?thesis by simp
qed

text \<open>The two ends of the counted part of a creation.\<close>

lemma inv_counted:
  assumes i: "tx_inv s" and k: "tx_Creator s k = CAlloc c susp" and "\<not> tx_Shutdown s"
  shows "tx_inv ((count_creation s)\<lparr>tx_Creator := (tx_Creator s)(k := CCounted c susp)\<rparr>)"
proof -
  define s1 where "s1 = count_creation s"
  have s1: "owned s1" "listed s1" "created s1" "traced s1"
    using tx_invD [OF i] by (simp_all add: s1_def count_creation_def owned_def listed_def created_def traced_def)
  have c1: "tx_Creator s1 = tx_Creator s" by (simp add: s1_def count_creation_def)
  have ok: "creator_ok (tx_Mem s1) (CCounted c susp)"
    using creator_ok_at [OF tx_invD(3) [OF i] k] by (simp add: creator_ok_def s1_def count_creation_def)
  have "creator_ctx (tx_Creator s1 k) = Some c" by (simp add: c1 k)
  note cr = inv_creator [OF s1 held_ctx [OF s1(1) this] _ ok]
  have "tallied (s1\<lparr>tx_Mem := tx_Mem s1, tx_Creator := (tx_Creator s1)(k := CCounted c susp)\<rparr>)"
    using tx_invD(5) [OF i] assms(3) count_at_nonneg [of counted_pc "tx_Creator s"]
    by (auto simp: tallied_def s1_def count_creation_def count_at_upd k simp del: count_at_nonneg)
  then have "tx_inv (s1\<lparr>tx_Mem := tx_Mem s1, tx_Creator := (tx_Creator s1)(k := CCounted c susp)\<rparr>)"
    by (intro tx_invI cr) (simp_all add: c1 k)
  then show ?thesis by (simp add: c1) (simp add: s1_def)
qed

lemma inv_uncount:
  assumes i: "tx_inv s" and k: "tx_Creator s k = CFailed c"
  shows "tx_inv ((LdkpCompleteThreadContextCreationLocked s)\<lparr>tx_Creator := (tx_Creator s)(k := CFree c)\<rparr>)"
proof -
  define s1 where "s1 = LdkpCompleteThreadContextCreationLocked s"
  note complete = LdkpCompleteThreadContextCreationLocked_def Let_def
  have s1: "owned s1" "listed s1" "created s1" "traced s1"
    using tx_invD [OF i] by (simp_all add: s1_def complete owned_def listed_def created_def traced_def)
  have c1: "tx_Creator s1 = tx_Creator s" by (simp add: s1_def complete)
  have ok: "creator_ok (tx_Mem s1) (CFree c)"
    using creator_ok_at [OF tx_invD(3) [OF i] k] by (simp add: creator_ok_def s1_def complete)
  have "creator_ctx (tx_Creator s1 k) = Some c" by (simp add: c1 k)
  note cr = inv_creator [OF s1 held_ctx [OF s1(1) this] _ ok]
  have "1 \<le> count_at counted_pc (tx_Creator s)"
    by (rule count_at_pos [where i = k]) (use tx_invD(5) [OF i] k in \<open>simp_all add: tallied_def\<close>)
  then have "tallied (s1\<lparr>tx_Mem := tx_Mem s1, tx_Creator := (tx_Creator s1)(k := CFree c)\<rparr>)"
    using tx_invD(5) [OF i] by (auto simp: tallied_def s1_def complete count_at_upd k)
  then have "tx_inv (s1\<lparr>tx_Mem := tx_Mem s1, tx_Creator := (tx_Creator s1)(k := CFree c)\<rparr>)"
    by (intro tx_invI cr) (simp_all add: c1 k)
  then show ?thesis by (simp add: c1) (simp add: s1_def)
qed

lemma inv_free:
  assumes i: "tx_inv s" and k: "tx_Creator s k = CFree c"
  shows "tx_inv (s\<lparr>tx_Mem := (tx_Mem s)(c := None), tx_Creator := (tx_Creator s)(k := CIdle)\<rparr>)"
proof -
  have "creator_ctx (tx_Creator s k) = Some c" by (simp add: k)
  note h = held_ctx [OF tx_invD(1) [OF i] this]
  have ok: "creator_ok ((tx_Mem s)(c := None)) CIdle" by (simp add: creator_ok_def)
  show ?thesis
    by (intro tx_invI inv_creator [OF tx_invD(1-4) [OF i] h _ ok] tallied_move tx_invD(5) [OF i]) (simp_all add: k)
qed

text \<open>The steps after a failed lookup of the new thread.\<close>

lemma inv_lookup_failed:
  assumes i: "tx_inv s" and k: "tx_Creator s k = CCreated c w susp" and x: "tx_Mem s c = Some x"
  shows "tx_inv (s\<lparr>tx_Mem := (tx_Mem s)(c \<mapsto> x\<lparr>ShutdownCancelled := True, StartReleased := True\<rparr>),
      tx_Creator := (tx_Creator s)(k := CLookupFailed c w)\<rparr>)"
proof -
  have "creator_ctx (tx_Creator s k) = Some c" by (simp add: k)
  note h = held_ctx [OF tx_invD(1) [OF i] this]
  have "\<not> StartEvent x" using creator_ok_at [OF tx_invD(3) [OF i] k] x by (auto simp: creator_ok_def fresh_ok_def)
  then have ok: "creator_ok ((tx_Mem s)(c \<mapsto> x\<lparr>ShutdownCancelled := True, StartReleased := True\<rparr>)) (CLookupFailed c w)"
    by (simp add: creator_ok_def)
  have wk: "tx_Worker s w \<in> {WWaiting c, WCheck c, WEnded} \<and> (tx_Worker s w = WCheck c \<longrightarrow> StartEvent x)"
    using creator_worker_at [OF tx_invD(3) [OF i] k, of c w] x by simp
  show ?thesis
    by (intro tx_invI inv_creator [OF tx_invD(1-4) [OF i] h _ ok] tallied_move tx_invD(5) [OF i]) (use wk in \<open>simp_all add: k\<close>)
qed

lemma inv_lookup_set:
  assumes i: "tx_inv s" and k: "tx_Creator s k = CLookupFailed c w" and x: "tx_Mem s c = Some x"
  shows "tx_inv (s\<lparr>tx_Mem := (tx_Mem s)(c \<mapsto> x\<lparr>StartEvent := True\<rparr>), tx_Creator := (tx_Creator s)(k := CLookupWait c w)\<rparr>)"
proof -
  have "creator_ctx (tx_Creator s k) = Some c" by (simp add: k)
  note h = held_ctx [OF tx_invD(1) [OF i] this]
  have ok: "creator_ok ((tx_Mem s)(c \<mapsto> x\<lparr>StartEvent := True\<rparr>)) (CLookupWait c w)"
    using creator_ok_at [OF tx_invD(3) [OF i] k] x by (simp add: creator_ok_def)
  have wk: "tx_Worker s w \<in> {WWaiting c, WCheck c, WEnded}"
    using creator_worker_at [OF tx_invD(3) [OF i] k, of c w] by simp
  show ?thesis
    by (intro tx_invI inv_creator [OF tx_invD(1-4) [OF i] h _ ok] tallied_move tx_invD(5) [OF i]) (use wk in \<open>simp_all add: k\<close>)
qed

lemma inv_lookup_wait:
  assumes i: "tx_inv s" and k: "tx_Creator s k = CLookupWait c w" and e: "tx_Worker s w = WEnded"
  shows "tx_inv (s\<lparr>tx_Creator := (tx_Creator s)(k := CFailed c)\<rparr>)"
proof -
  have "creator_ctx (tx_Creator s k) = Some c" by (simp add: k)
  note h = held_ctx [OF tx_invD(1) [OF i] this]
  have ok: "creator_ok (tx_Mem s) (CFailed c)"
    using creator_ok_at [OF tx_invD(3) [OF i] k] by (auto simp: creator_ok_def)
  have "tx_inv (s\<lparr>tx_Mem := tx_Mem s, tx_Creator := (tx_Creator s)(k := CFailed c)\<rparr>)"
    by (intro tx_invI inv_creator [OF tx_invD(1-4) [OF i] h _ ok] tallied_move tx_invD(5) [OF i])
      (use e in \<open>simp_all add: k active_def\<close>)
  then show ?thesis by simp
qed

text \<open>A new thread, and a thread that goes on.\<close>

lemma inv_create:
  assumes i: "tx_inv s" and k: "tx_Creator s k = CCounted c susp" and w: "tx_Worker s w = WNone"
  shows "tx_inv (s\<lparr>tx_Worker := (tx_Worker s)(w := WWaiting c), tx_Creator := (tx_Creator s)(k := CCreated c w susp)\<rparr>)"
proof -
  let ?d = "s\<lparr>tx_Worker := (tx_Worker s)(w := WWaiting c), tx_Creator := (tx_Creator s)(k := CCreated c w susp)\<rparr>"
  note inv = tx_invD [OF i]
  have ctx: "creator_ctx (tx_Creator s k) = Some c" by (simp add: k)
  show ?thesis
  proof (rule tx_invI)
    show "owned ?d" using inv(1) ctx by (auto simp: owned_def)
    show "listed ?d" using inv(2) w by (fastforce simp: listed_def worker_ok_def)
    have "creator_ok (tx_Mem s) (((tx_Creator s)(k := CCreated c w susp)) k')" for k'
      using inv(3) creator_ok_at [OF inv(3) k] by (simp add: created_def creator_ok_def [of _ "CCounted c susp"] creator_ok_def [of _ "CCreated c w susp"])
    moreover have "((tx_Worker s)(w := WWaiting c)) w' \<in> {WWaiting c', WCheck c', WEnded} \<and>
        (((tx_Worker s)(w := WWaiting c)) w' = WCheck c' \<longrightarrow> StartEvent (the (tx_Mem s c')))"
      if "creator_worker (((tx_Creator s)(k := CCreated c w susp)) k') = Some (c', w')" for k' c' w'
    proof (cases "k' = k")
      case False
      then have "creator_worker (tx_Creator s k') = Some (c', w')" using that by simp
      from creator_worker_at [OF inv(3) refl this] w show ?thesis by auto
    qed (use that in simp)
    ultimately show "created ?d" unfolding created_def by simp
    show "traced ?d" unfolding traced_def
    proof (intro allI impI)
      fix w' assume "active (tx_Worker ?d w')"
      then have a: "w' = w \<or> active (tx_Worker s w')" by (auto split: if_splits)
      have "creator_worker (tx_Creator ?d k) = Some (c, w)" by simp
      moreover have "\<exists>k'. creator_worker (tx_Creator ?d k') = Some (c', w')" if "creator_worker (tx_Creator s k') = Some (c', w')" for k' c'
        using that k by (intro exI [of _ k']) auto
      ultimately show "(\<exists>c\<in>set (tx_List ?d). ThreadId (the (tx_Mem ?d c)) = w') \<or> (\<exists>k c. creator_worker (tx_Creator ?d k) = Some (c, w'))"
        using a inv(4) unfolding traced_def by (metis (no_types, lifting) context_sys.select_convs context_sys.surjective context_sys.update_convs)
    qed
    show "tallied ?d" using inv(5) by (auto simp: tallied_def count_at_upd k)
  qed
qed

lemma inv_worker:
  assumes i: "tx_inv s" and a: "active (tx_Worker s w)"
    and l: "\<And>c x. c \<in> set (tx_List s) \<Longrightarrow> tx_Mem s c = Some x \<Longrightarrow> listed_ok x \<Longrightarrow> worker_ok c (tx_Worker s w) x \<Longrightarrow> worker_ok c p x"
    and m: "\<And>k c. creator_worker (tx_Creator s k) = Some (c, w) \<Longrightarrow>
      p \<in> {WWaiting c, WCheck c, WEnded} \<and> (p = WCheck c \<longrightarrow> StartEvent (the (tx_Mem s c)))"
  shows "tx_inv (s\<lparr>tx_Worker := (tx_Worker s)(w := p)\<rparr>)"
proof -
  let ?d = "s\<lparr>tx_Worker := (tx_Worker s)(w := p)\<rparr>"
  note inv = tx_invD [OF i]
  show ?thesis
  proof (rule tx_invI)
    show "owned ?d" using inv(1) by (auto simp: owned_def)
    show "listed ?d" using inv(2) l by (fastforce simp: listed_def)
    show "created ?d" unfolding created_def using inv(3) m by (auto simp: created_def)
    show "traced ?d" using inv(4) a by (auto simp: traced_def)
    show "tallied ?d" using inv(5) by (auto simp: tallied_def)
  qed
qed


lemma active_simps [simp]: "active (WWaiting c)" "active (WCheck c)" "active WRunning" "\<not> active WEnded" "\<not> active WNone"
  by (simp_all add: active_def)

lemma inv_wake:
  assumes i: "tx_inv s" and w: "tx_Worker s w = WWaiting c" and x: "tx_Mem s c = Some x" "StartEvent x"
  shows "tx_inv (s\<lparr>tx_Worker := (tx_Worker s)(w := WCheck c)\<rparr>)"
proof (rule inv_worker [OF i])
  show "active (tx_Worker s w)" by (simp add: w)
  show "worker_ok c' (WCheck c) y" if "worker_ok c' (tx_Worker s w) y" "tx_Mem s c' = Some y" for c' y
    using that w x by (auto simp: worker_ok_def)
  show "WCheck c \<in> {WWaiting c', WCheck c', WEnded} \<and> (WCheck c = WCheck c' \<longrightarrow> StartEvent (the (tx_Mem s c')))"
    if "creator_worker (tx_Creator s k) = Some (c', w)" for k c'
    using creator_worker_at [OF tx_invD(3) [OF i] refl that] w x by auto
qed

lemma inv_ended:
  assumes i: "tx_inv s" and "active (tx_Worker s w)"
  shows "tx_inv (s\<lparr>tx_Worker := (tx_Worker s)(w := WEnded)\<rparr>)"
  by (rule inv_worker [OF assms]) (auto simp: worker_ok_def)

text \<open>A thread that finds itself not cancelled is in the list: as long as its caller holds the context, its
  event is not set, or it is cancelled.\<close>

lemma inv_worker_run:
  assumes i: "tx_inv s" and w: "tx_Worker s w = WCheck c" and x: "tx_Mem s c = Some x" "\<not> ShutdownCancelled x"
  shows "tx_inv (s\<lparr>tx_Worker := (tx_Worker s)(w := WRunning)\<rparr>)"
proof (rule inv_worker [OF i])
  show "active (tx_Worker s w)" by (simp add: w)
  show "worker_ok c' WRunning y" if "worker_ok c' (tx_Worker s w) y" "tx_Mem s c' = Some y" "listed_ok y" for c' y
    using that w x by (auto simp: worker_ok_def listed_ok_def)
  have False if "creator_worker (tx_Creator s k) = Some (c', w)" for k c'
  proof -
    have "c' = c" "StartEvent x" using creator_worker_at [OF tx_invD(3) [OF i] refl that] w x by auto
    then show False using creator_ok_at [OF tx_invD(3) [OF i] refl, of k] that x
      by (cases "tx_Creator s k") (auto simp: creator_ok_def fresh_ok_def)
  qed
  then show "WRunning \<in> {WWaiting c', WCheck c', WEnded} \<and> (WRunning = WCheck c' \<longrightarrow> StartEvent (the (tx_Mem s c')))"
    if "creator_worker (tx_Creator s k) = Some (c', w)" for k c' using that by blast
qed

text \<open>A change of a context in the list.\<close>

lemma inv_context:
  assumes i: "tx_inv s" and c: "c \<in> set (tx_List s)" "tx_Mem s c = Some x"
    and y: "ThreadId y = ThreadId x" "listed_ok y" "StartReleased x \<Longrightarrow> y = x"
      "StartReleased y \<Longrightarrow> \<not> StartReleased x \<Longrightarrow> tx_Shutdown s \<or> \<not> ShutdownCancelled y"
  shows "tx_inv (s\<lparr>tx_Mem := (tx_Mem s)(c \<mapsto> y)\<rparr>)"
proof -
  let ?d = "s\<lparr>tx_Mem := (tx_Mem s)(c \<mapsto> y)\<rparr>"
  note inv = tx_invD [OF i]
  have h: "creator_ctx (tx_Creator s k) \<noteq> Some c" for k using inv(1) c(1) by (auto simp: owned_def)
  have x: "listed_ok x" "worker_ok c (tx_Worker s (ThreadId x)) x" "tx_Shutdown s \<Longrightarrow> StartReleased x"
    using inv(2) c by (auto simp: listed_def)
  have wk: "worker_ok c (tx_Worker s (ThreadId x)) y"
  proof (cases "StartReleased x")
    case False
    then show ?thesis using x by (auto simp: worker_ok_def listed_ok_def)
  qed (use x y in simp)
  show ?thesis
  proof (rule tx_invI)
    show "owned ?d" using inv(1) by (auto simp: owned_def)
    show "listed ?d" using inv(2) wk y x by (auto simp: listed_def)
    have "creator_ok ((tx_Mem s)(c \<mapsto> y)) (tx_Creator s k)" for k
      by (rule creator_ok_mem [OF creator_ok_at [OF inv(3) refl]]) (use h in auto)
    moreover have "tx_Worker s w \<in> {WWaiting c', WCheck c', WEnded} \<and>
        (tx_Worker s w = WCheck c' \<longrightarrow> StartEvent (the (((tx_Mem s)(c \<mapsto> y)) c')))" if "creator_worker (tx_Creator s k) = Some (c', w)" for k c' w
      using creator_worker_at [OF inv(3) refl that] worker_ctx [OF that] h [of k] by auto
    ultimately show "created ?d" unfolding created_def by simp
    show "traced ?d" using inv(4) c y(1) by (fastforce simp: traced_def)
    show "tallied ?d" using inv(5) by (auto simp: tallied_def)
  qed
qed

lemma inv_suspend: "tx_inv s \<Longrightarrow> tx_inv (snd (SuspendThread w s))"
proof (cases "LdkpFindThreadContextByIdLocked s w")
  case (Some c)
  assume i: "tx_inv s"
  have c: "c \<in> set (tx_List s)" using Some unfolding LdkpFindThreadContextByIdLocked_def by (blast dest: find_Some_in_set)
  obtain x where x: "tx_Mem s c = Some x" "listed_ok x" using tx_invD(2) [OF i] c by (auto simp: listed_def)
  show ?thesis
  proof (cases "StartReleased x \<or> StartupSuspendCount x = 0 \<or> MAXIMUM_SUSPEND_COUNT \<le> StartupSuspendCount x")
    case False
    have "tx_inv (s\<lparr>tx_Mem := (tx_Mem s)(c \<mapsto> x\<lparr>StartupSuspendCount := StartupSuspendCount x + 1\<rparr>)\<rparr>)"
      by (rule inv_context [OF i c x(1)]) (use x(2) False in \<open>auto simp: listed_ok_def\<close>)
    then show ?thesis using False by (simp add: SuspendThread_def Some x Let_def)
  qed (use i in \<open>auto simp: SuspendThread_def Some x Let_def\<close>)
qed (simp add: SuspendThread_def)

lemma inv_resume: "tx_inv s \<Longrightarrow> tx_inv (snd (ResumeThread w s))"
proof (cases "LdkpFindThreadContextByIdLocked s w")
  case (Some c)
  assume i: "tx_inv s"
  have c: "c \<in> set (tx_List s)" using Some unfolding LdkpFindThreadContextByIdLocked_def by (blast dest: find_Some_in_set)
  obtain x where x: "tx_Mem s c = Some x" "listed_ok x" using tx_invD(2) [OF i] c by (auto simp: listed_def)
  have "tx_inv (s\<lparr>tx_Mem := (tx_Mem s)(c \<mapsto> resumed_context x)\<rparr>)"
    by (rule inv_context [OF i c x(1)]) (use x(2) in \<open>auto simp: listed_ok_def resumed_context_def Let_def\<close>)
  then show ?thesis by (simp add: ResumeThread_def Some x Let_def)
qed (simp add: ResumeThread_def)

text \<open>Linking a context hands it from its caller to the list.\<close>

lemma inv_link:
  assumes i: "tx_inv s" and k: "tx_Creator s k = CLooked c w susp"
  shows "tx_inv ((link_context c w susp s)\<lparr>tx_Creator := (tx_Creator s)(k := CIdle)\<rparr>)"
proof -
  note inv = tx_invD [OF i]
  have ctx: "creator_ctx (tx_Creator s k) = Some c" by (simp add: k)
  note h = held_ctx [OF inv(1) ctx]
  obtain x where x: "tx_Mem s c = Some x" "fresh_ok susp x" using creator_ok_at [OF inv(3) k] by (auto simp: creator_ok_def)
  define y where "y = linked_context w susp (tx_Shutdown s) x"
  have wk: "tx_Worker s w \<in> {WWaiting c, WEnded}"
    using creator_worker_at [OF inv(3) k, of c w] x by (auto simp: fresh_ok_def)
  have y: "ThreadId y = w" "listed_ok y" "tx_Shutdown s \<Longrightarrow> StartReleased y" "worker_ok c (tx_Worker s w) y"
    using x(2) wk by (auto simp: y_def linked_context_def fresh_ok_def listed_ok_def worker_ok_def Let_def)
  let ?d = "(link_context c w susp s)\<lparr>tx_Creator := (tx_Creator s)(k := CIdle)\<rparr>"
  have d: "tx_List ?d = tx_List s @ [c]" "tx_Mem ?d = (tx_Mem s)(c \<mapsto> y)" "tx_Worker ?d = tx_Worker s"
    "tx_Creator ?d = (tx_Creator s)(k := CIdle)" "tx_Shutdown ?d = tx_Shutdown s" "tx_Drain ?d = tx_Drain s"
    "tx_CreationCount ?d = tx_CreationCount s - 1"
    "tx_CreationCompleteEvent ?d \<longleftrightarrow> tx_CreationCount s - 1 = 0 \<or> tx_CreationCompleteEvent s"
    by (simp_all add: link_context_def LdkpCompleteThreadContextCreationLocked_def Let_def y_def x)
  show ?thesis
  proof (rule tx_invI)
    show "owned ?d" unfolding owned_def d using inv(1) h ctx by (auto simp: owned_def)
    show "listed ?d" unfolding listed_def d using inv(2) y h(1) by (auto simp: listed_def)
    have "creator_ok ((tx_Mem s)(c \<mapsto> y)) (((tx_Creator s)(k := CIdle)) k')" for k'
    proof (cases "k' = k")
      case False
      then have "creator_ok ((tx_Mem s)(c \<mapsto> y)) (tx_Creator s k')"
        by (intro creator_ok_mem [OF creator_ok_at [OF inv(3) refl]]) (use h(2) in auto)
      then show ?thesis using False by simp
    qed (simp add: creator_ok_def)
    moreover have "tx_Worker s w' \<in> {WWaiting c', WCheck c', WEnded} \<and>
        (tx_Worker s w' = WCheck c' \<longrightarrow> StartEvent (the (((tx_Mem s)(c \<mapsto> y)) c')))"
      if "creator_worker (((tx_Creator s)(k := CIdle)) k') = Some (c', w')" for k' c' w'
    proof -
      have k': "k' \<noteq> k" "creator_worker (tx_Creator s k') = Some (c', w')" using that by (auto split: if_splits)
      show ?thesis using creator_worker_at [OF inv(3) refl k'(2)] worker_ctx [OF k'(2)] h(2) [OF k'(1)] by auto
    qed
    ultimately show "created ?d" unfolding created_def d by blast
    show "traced ?d" unfolding traced_def d
    proof (intro allI impI)
      fix w' assume a: "active (tx_Worker s w')"
      show "(\<exists>c'\<in>set (tx_List s @ [c]). ThreadId (the (((tx_Mem s)(c \<mapsto> y)) c')) = w') \<or>
        (\<exists>k' c'. creator_worker (((tx_Creator s)(k := CIdle)) k') = Some (c', w'))"
      proof (cases "w' = w")
        case False
        have *: "creator_worker (((tx_Creator s)(k := CIdle)) k') = Some (c', w')" if "creator_worker (tx_Creator s k') = Some (c', w')" for k' c'
          using that False k by auto
        have "ThreadId (the (((tx_Mem s)(c \<mapsto> y)) c')) = ThreadId (the (tx_Mem s c'))" if "c' \<in> set (tx_List s)" for c' using that h(1) by auto
        then show ?thesis using inv(4) a * unfolding traced_def by (metis Un_iff set_append)
      qed (simp add: y)
    qed
    have "1 \<le> count_at counted_pc (tx_Creator s)"
      by (rule count_at_pos [where i = k]) (use inv(5) k in \<open>simp_all add: tallied_def\<close>)
    then show "tallied ?d" unfolding tallied_def d using inv(5) by (auto simp: tallied_def count_at_upd k)
  qed
qed

text \<open>The shutdown cancels every thread in the list that has not been released.\<close>

lemma inv_shutdown:
  assumes i: "tx_inv s" and "tx_Drain s = DIdle"
  shows "tx_inv ((LdkpBeginThreadContextShutdown s)\<lparr>tx_Drain := DLoop\<rparr>)"
proof -
  define s1 where "s1 = LdkpReapTerminatedThreadContextsLocked s"
  have i1: "tx_inv s1" unfolding s1_def by (rule inv_reap [OF i])
  note inv = tx_invD [OF i1]
  define m where "m = (\<lambda>c. if c \<in> set (tx_List s1) \<and> \<not> StartReleased (the (tx_Mem s1 c))
    then Some (cancel_context (the (tx_Mem s1 c))) else tx_Mem s1 c)"
  have "distinct (tx_List s1)" using inv(1) by (simp add: owned_def)
  then have cancel: "cancel_loop (tx_List s1) (tx_Mem s1) = m" by (simp add: cancel_loop_eq m_def)
  let ?d = "s1\<lparr>tx_Shutdown := True, tx_Mem := m, tx_Drain := DLoop\<rparr>"
  have d: "(LdkpBeginThreadContextShutdown s)\<lparr>tx_Drain := DLoop\<rparr> = ?d"
    unfolding LdkpBeginThreadContextShutdown_def Let_def cancel [symmetric]
    by (simp add: s1_def LdkpReapTerminatedThreadContextsLocked_def split: prod.split)
  have h: "m c = tx_Mem s1 c" if "creator_ctx (tx_Creator s1 k) = Some c" for k c
    using held_ctx(1) [OF inv(1) that] by (simp add: m_def)
  show ?thesis unfolding d
  proof (rule tx_invI)
    show "owned ?d" using inv(1) by (simp add: owned_def)
    show "listed ?d" unfolding listed_def
    proof
      fix c assume "c \<in> set (tx_List ?d)"
      then have c: "c \<in> set (tx_List s1)" by simp
      then obtain x where x: "tx_Mem s1 c = Some x" "listed_ok x" "worker_ok c (tx_Worker s1 (ThreadId x)) x"
        using inv(2) by (auto simp: listed_def)
      define y where "y = (if StartReleased x then x else cancel_context x)"
      have "m c = Some y" using c x(1) by (simp add: m_def y_def)
      moreover have "ThreadId y = ThreadId x" "listed_ok y" "StartReleased y"
        using x(2) by (auto simp: y_def cancel_context_def listed_ok_def)
      moreover have "worker_ok c (tx_Worker s1 (ThreadId x)) y"
        using x(2,3) by (auto simp: y_def cancel_context_def worker_ok_def listed_ok_def)
      ultimately show "\<exists>x. tx_Mem ?d c = Some x \<and> listed_ok x \<and> worker_ok c (tx_Worker ?d (ThreadId x)) x \<and>
          (tx_Shutdown ?d \<longrightarrow> StartReleased x)" by auto
    qed
    have "creator_ok m (tx_Creator s1 k)" for k
      by (rule creator_ok_mem [OF creator_ok_at [OF inv(3) refl]]) (rule h)
    moreover have "StartEvent (the (m c))" if "creator_worker (tx_Creator s1 k) = Some (c, w)" "tx_Worker s1 w = WCheck c" for k c w
      using creator_worker_at [OF inv(3) refl that(1)] that(2) h [OF worker_ctx [OF that(1)]] by simp
    ultimately show "created ?d" using inv(3) by (auto simp: created_def)
    have "ThreadId (the (m c)) = ThreadId (the (tx_Mem s1 c))" for c by (simp add: m_def cancel_context_def)
    then show "traced ?d" using inv(4) by (simp add: traced_def)
    show "tallied ?d" using inv(5) by (simp add: tallied_def)
  qed
qed

lemma inv_drain_pc:
  assumes "tx_inv s" "tx_Shutdown s" "p = DFinished \<Longrightarrow> tx_List s = [] \<and> tx_CreationCount s = 0"
  shows "tx_inv (s\<lparr>tx_Drain := p\<rparr>)"
  using assms by (simp add: tx_inv_def owned_def listed_def created_def traced_def tallied_def)

lemma reap_fields [simp]:
  "tx_Worker (LdkpReapTerminatedThreadContextsLocked s) = tx_Worker s"
  "tx_Creator (LdkpReapTerminatedThreadContextsLocked s) = tx_Creator s"
  "tx_Shutdown (LdkpReapTerminatedThreadContextsLocked s) = tx_Shutdown s"
  "tx_Drain (LdkpReapTerminatedThreadContextsLocked s) = tx_Drain s"
  "tx_CreationCount (LdkpReapTerminatedThreadContextsLocked s) = tx_CreationCount s"
  "tx_CreationCompleteEvent (LdkpReapTerminatedThreadContextsLocked s) = tx_CreationCompleteEvent s"
  by (simp_all add: LdkpReapTerminatedThreadContextsLocked_def split: prod.split)

lemma inv_drain:
  assumes i: "tx_inv s" and "tx_Drain s = DLoop"
  shows "tx_inv (drain_turn s)"
proof -
  have "tx_Shutdown s" using tx_invD(5) [OF i] assms(2) by (simp add: tallied_def)
  then show ?thesis unfolding drain_turn_def Let_def
    by (intro inv_drain_pc inv_reap [OF i]) (auto split: list.splits if_splits)
qed

lemma inv_init: "LdkpInitializeThreadContexts s \<Longrightarrow> tx_inv s"
  by (auto simp: LdkpInitializeThreadContexts_def tx_inv_def owned_def listed_def created_def traced_def tallied_def
    creator_ok_def active_def finite_at_none count_at_none)

lemma inv_step: "tx_step s d \<Longrightarrow> tx_inv s \<Longrightarrow> tx_inv d"
proof (induction rule: tx_step.induct)
  case (refuse s k c susp)
  have ok: "creator_ok (tx_Mem (LdkpReapTerminatedThreadContextsLocked s)) (CFree c)"
    using creator_ok_at [OF tx_invD(3) [OF inv_reap [OF refuse(3)]], of k] refuse(1) by (auto simp: creator_ok_def)
  have "tx_inv ((LdkpReapTerminatedThreadContextsLocked s)\<lparr>tx_Creator := (tx_Creator (LdkpReapTerminatedThreadContextsLocked s))(k := CFree c)\<rparr>)"
    by (rule inv_move [OF inv_reap [OF refuse(3)] _ _ ok]) (simp_all add: refuse)
  then show ?case by simp
next
  case (counted s k c susp)
  have "tx_inv ((count_creation (LdkpReapTerminatedThreadContextsLocked s))\<lparr>tx_Creator :=
      (tx_Creator (LdkpReapTerminatedThreadContextsLocked s))(k := CCounted c susp)\<rparr>)"
    by (rule inv_counted [OF inv_reap [OF counted(3)]]) (simp_all add: counted)
  then show ?case by simp
next
  case (create_failed s k c susp)
  have "creator_ok (tx_Mem s) (CFailed c)"
    using creator_ok_at [OF tx_invD(3) [OF create_failed(2)] create_failed(1)] by (auto simp: creator_ok_def)
  then show ?case by (intro inv_move [where c = c] create_failed(2)) (simp_all add: create_failed(1))
next
  case (lookup s k c w susp)
  have "creator_ok (tx_Mem s) (CLooked c w susp)"
    using creator_ok_at [OF tx_invD(3) [OF lookup(2)] lookup(1)] by (simp add: creator_ok_def)
  then show ?case by (intro inv_move [where c = c] lookup(2)) (simp_all add: lookup(1))
next
  case (drain_thread s w)
  then show ?case by (intro inv_drain_pc) (auto dest: tx_invD(5) simp: tallied_def)
next
  case (drain_creation s)
  then show ?case by (intro inv_drain_pc) (auto dest: tx_invD(5) simp: tallied_def)
next
  case (drain_timeout s w)
  then show ?case by (intro inv_drain_pc) (auto dest: tx_invD(5) simp: tallied_def)
qed (simp_all add: inv_alloc inv_create inv_uncount inv_free inv_lookup_failed inv_lookup_set inv_lookup_wait inv_link
  inv_wake inv_ended inv_worker_run inv_suspend inv_resume inv_shutdown inv_drain)

lemma tx_reach_inv: "tx_reach s \<Longrightarrow> tx_inv s"
  by (induction rule: reach_induct) (auto intro: inv_init inv_step)

section \<open>What it keeps\<close>

text \<open>A thread that waits or is about to look at its context: the context is in the list under its name, or
  with the caller that has made it.\<close>

lemma waiting_owner:
  assumes "tx_inv s" and "tx_Worker s w = WWaiting c \<or> tx_Worker s w = WCheck c"
  shows "(c \<in> set (tx_List s) \<and> ThreadId (the (tx_Mem s c)) = w) \<or> (\<exists>k. creator_worker (tx_Creator s k) = Some (c, w))"
proof -
  have "active (tx_Worker s w)" using assms(2) by auto
  then consider c' where "c' \<in> set (tx_List s)" "ThreadId (the (tx_Mem s c')) = w" | k c' where "creator_worker (tx_Creator s k) = Some (c', w)"
    using tx_invD(4) [OF assms(1)] by (auto simp: traced_def)
  then show ?thesis
  proof cases
    case 1
    then have "worker_ok c' (tx_Worker s w) (the (tx_Mem s c'))" using tx_invD(2) [OF assms(1)] by (force simp: listed_def)
    then have "c' = c" using assms(2) by (auto simp: worker_ok_def)
    then show ?thesis using 1 by blast
  next
    case 2
    then have "c' = c" using creator_worker_at [OF tx_invD(3) [OF assms(1)] refl 2] assms(2) by auto
    then show ?thesis using 2 by blast
  qed
qed

lemma creator_holds: "tx_inv s \<Longrightarrow> creator_ctx (tx_Creator s k) = Some c \<Longrightarrow> tx_Mem s c \<noteq> None"
  using creator_ok_at [OF tx_invD(3) refl, of s k] by (cases "tx_Creator s k") (auto simp: creator_ok_def)

text \<open>C34: A context is not freed, and its memory not given to another thread, while it is in use: the contexts
  of the threads that still wait for their start event or look whether they were cancelled are allocated
  and belong to one thread each, as are those that a caller of \<open>CreateThread\<close> works on.\<close>

theorem thread_context_alive:
  assumes "tx_reach s"
  shows "(\<forall>w c. tx_Worker s w = WWaiting c \<or> tx_Worker s w = WCheck c \<longrightarrow> tx_Mem s c \<noteq> None) \<and>
    (\<forall>w w' c. (tx_Worker s w = WWaiting c \<or> tx_Worker s w = WCheck c) \<and> (tx_Worker s w' = WWaiting c \<or> tx_Worker s w' = WCheck c)
       \<longrightarrow> w = w') \<and>
    (\<forall>k c. creator_ctx (tx_Creator s k) = Some c \<longrightarrow> tx_Mem s c \<noteq> None \<and> c \<notin> set (tx_List s))"
proof (intro conjI allI impI)
  have i: "tx_inv s" by (rule tx_reach_inv [OF assms])
  show "tx_Mem s c \<noteq> None" if "tx_Worker s w = WWaiting c \<or> tx_Worker s w = WCheck c" for w c
    using waiting_owner [OF i that] tx_invD(2) [OF i] creator_holds [OF i] worker_ctx by (fastforce simp: listed_def)
  show "tx_Mem s c \<noteq> None" "c \<notin> set (tx_List s)" if "creator_ctx (tx_Creator s k) = Some c" for k c
    using creator_holds [OF i that] held_ctx(1) [OF tx_invD(1) [OF i] that] by auto
  fix w w' c
  assume a: "(tx_Worker s w = WWaiting c \<or> tx_Worker s w = WCheck c) \<and> (tx_Worker s w' = WWaiting c \<or> tx_Worker s w' = WCheck c)"
  have uniq: "w = w'" if "creator_worker (tx_Creator s k) = Some (c, w)" "creator_worker (tx_Creator s k') = Some (c, w')" for k k'
  proof -
    have "k = k'" using worker_ctx [OF that(1)] worker_ctx [OF that(2)] tx_invD(1) [OF i] by (auto simp: owned_def)
    then show ?thesis using that by simp
  qed
  have notin: "c \<notin> set (tx_List s)" if "creator_worker (tx_Creator s k) = Some (c, v)" for k v
    by (rule held_ctx(1) [OF tx_invD(1) [OF i] worker_ctx [OF that]])
  show "w = w'" using waiting_owner [OF i, of w c] waiting_owner [OF i, of w' c] a uniq notin by blast
qed

text \<open>C35: When the wait for the threads has ended, no thread made by \<open>CreateThread\<close> runs any more or will run:
  each one has terminated, all contexts of the list are freed, and no creation is under way. This holds
  in that state and in every later one.\<close>

theorem threads_drained:
  assumes "tx_reach s" and "tx_Drain s = DFinished"
  shows "(\<forall>w. tx_Worker s w = WNone \<or> tx_Worker s w = WEnded) \<and> tx_List s = [] \<and> tx_CreationCount s = 0 \<and>
    (\<forall>k. \<not> counted_pc (tx_Creator s k))"
proof -
  have i: "tx_inv s" by (rule tx_reach_inv [OF assms(1)])
  have l: "tx_List s = []" "tx_CreationCount s = 0" using tx_invD(5) [OF i] assms(2) by (auto simp: tallied_def)
  have none: "\<not> counted_pc (tx_Creator s k)" for k
    using tx_invD(5) [OF i] l(2) count_at_0 [of counted_pc "tx_Creator s"] by (simp add: tallied_def)
  have "creator_worker (tx_Creator s k) = None" for k using none [of k] by (cases "tx_Creator s k") auto
  then have "\<not> active (tx_Worker s w)" for w using tx_invD(4) [OF i] l(1) by (auto simp: traced_def)
  then show ?thesis using l none by (auto simp: active_def)
qed

text \<open>C36: The shutdown does not wait for a thread that nobody starts: once it has begun, each thread that waits
  for its start event has it set, or its creation is still counted and the caller is about to set it. And
  the event for the creations is set exactly when none is counted.\<close>

theorem drain_not_stuck:
  assumes "tx_reach s" and "tx_Shutdown s"
  shows "(\<forall>w c. tx_Worker s w = WWaiting c \<longrightarrow>
      StartEvent (the (tx_Mem s c)) \<or> (\<exists>k. creator_worker (tx_Creator s k) = Some (c, w) \<and> counted_pc (tx_Creator s k))) \<and>
    (tx_CreationCompleteEvent s \<longleftrightarrow> (\<forall>k. \<not> counted_pc (tx_Creator s k)))"
proof (intro conjI allI impI)
  have i: "tx_inv s" by (rule tx_reach_inv [OF assms(1)])
  fix w c assume "tx_Worker s w = WWaiting c"
  from waiting_owner [OF i disjI1 [OF this]]
  show "StartEvent (the (tx_Mem s c)) \<or> (\<exists>k. creator_worker (tx_Creator s k) = Some (c, w) \<and> counted_pc (tx_Creator s k))"
  proof
    assume "c \<in> set (tx_List s) \<and> ThreadId (the (tx_Mem s c)) = w"
    then show ?thesis using tx_invD(2) [OF i] assms(2) by (fastforce simp: listed_def listed_ok_def)
  next
    assume "\<exists>k. creator_worker (tx_Creator s k) = Some (c, w)"
    then obtain k where k: "creator_worker (tx_Creator s k) = Some (c, w)" by blast
    then have "counted_pc (tx_Creator s k)" by (cases "tx_Creator s k") auto
    then show ?thesis using k by blast
  qed
next
  have i: "tx_inv s" by (rule tx_reach_inv [OF assms(1)])
  show "tx_CreationCompleteEvent s \<longleftrightarrow> (\<forall>k. \<not> counted_pc (tx_Creator s k))"
    using tx_invD(5) [OF i] count_at_0 [of counted_pc "tx_Creator s"] by (auto simp: tallied_def)
qed

text \<open>The routine of a thread runs only after the thread was released, that is with a suspend count of 0,
  and never in a thread the shutdown has cancelled.\<close>

theorem thread_runs_released:
  assumes "tx_reach s" and "tx_Worker s w = WRunning"
  shows "\<exists>c x. c \<in> set (tx_List s) \<and> tx_Mem s c = Some x \<and> ThreadId x = w \<and> StartReleased x \<and> StartupSuspendCount x = 0 \<and>
    \<not> ShutdownCancelled x"
proof -
  have i: "tx_inv s" by (rule tx_reach_inv [OF assms(1)])
  have "creator_worker (tx_Creator s k) \<noteq> Some (c, w)" for k c
    using creator_worker_at [OF tx_invD(3) [OF i] refl, of k c w] assms(2) by auto
  then obtain c where c: "c \<in> set (tx_List s)" "ThreadId (the (tx_Mem s c)) = w"
    using tx_invD(4) [OF i] active_simps(3) assms(2) unfolding traced_def by metis
  then obtain x where "tx_Mem s c = Some x" "listed_ok x" "worker_ok c (tx_Worker s w) x"
    using tx_invD(2) [OF i] by (force simp: listed_def)
  then show ?thesis using c assms(2) by (intro exI [of _ c] exI [of _ x]) (auto simp: worker_ok_def listed_ok_def)
qed

text \<open>Resuming a thread undoes a suspension: when \<open>SuspendThread\<close> succeeds, \<open>ResumeThread\<close> after it returns one
  more than what that returned and brings back the state before.\<close>

theorem suspend_resume:
  assumes "tx_reach s" and "SuspendThread w s = (Inr n, s1)"
  shows "0 < n \<and> n < MAXIMUM_SUSPEND_COUNT \<and> ResumeThread w s1 = (Inr (n + 1), s)"
proof -
  have i: "tx_inv s" by (rule tx_reach_inv [OF assms(1)])
  obtain c where c: "LdkpFindThreadContextByIdLocked s w = Some c"
    using assms(2) by (auto simp: SuspendThread_def split: option.splits)
  have "c \<in> set (tx_List s)" using c unfolding LdkpFindThreadContextByIdLocked_def by (blast dest: find_Some_in_set)
  then obtain x where x: "tx_Mem s c = Some x" "listed_ok x" using tx_invD(2) [OF i] by (auto simp: listed_def)
  define y where "y = x\<lparr>StartupSuspendCount := StartupSuspendCount x + 1\<rparr>"
  have n: "n = StartupSuspendCount x" "0 < n" "n < MAXIMUM_SUSPEND_COUNT" "s1 = s\<lparr>tx_Mem := (tx_Mem s)(c \<mapsto> y)\<rparr>"
    using assms(2) x by (auto simp: SuspendThread_def c Let_def y_def listed_ok_def split: if_splits)
  have id: "ThreadId (the (((tx_Mem s)(c \<mapsto> y)) c')) = ThreadId (the (tx_Mem s c'))" for c' by (simp add: y_def x)
  have f: "tx_Mem s1 = (tx_Mem s)(c \<mapsto> y)" "tx_List s1 = tx_List s" using n(4) by simp_all
  have "LdkpFindThreadContextByIdLocked s1 w = Some c" using c unfolding LdkpFindThreadContextByIdLocked_def f id .
  moreover have "resumed_context y = x" using n(2) by (simp add: resumed_context_def y_def n(1) Let_def)
  moreover have "(tx_Mem s)(c \<mapsto> x) = tx_Mem s" using x(1) by (auto simp: fun_eq_iff)
  ultimately show ?thesis using n by (simp add: ResumeThread_def Let_def y_def)
qed

section \<open>Runs\<close>

definition start_state :: context_sys where
  "start_state = \<lparr>tx_Mem = (\<lambda>_. None), tx_List = [], tx_CreationCount = 0, tx_CreationCompleteEvent = True, tx_Shutdown = False,
     tx_Worker = (\<lambda>_. WNone), tx_Creator = (\<lambda>_. CIdle), tx_Drain = DIdle\<rparr>"

lemma start_reach: "tx_reach start_state"
  by (rule reach_init) (simp add: LdkpInitializeThreadContexts_def start_state_def)

text \<open>A suspended thread 5 with its context at 8, linked.\<close>

definition sample_context :: thread_context where
  "sample_context = \<lparr>ThreadId = 5, StartupSuspendCount = 1, Linked = True, StartReleased = False, ShutdownCancelled = False,
     StartEvent = False\<rparr>"

definition linked_state :: context_sys where
  "linked_state = \<lparr>tx_Mem = [8 \<mapsto> sample_context], tx_List = [8], tx_CreationCount = 0, tx_CreationCompleteEvent = True,
     tx_Shutdown = False, tx_Worker = (\<lambda>_. WNone)(5 := WWaiting 8), tx_Creator = (\<lambda>_. CIdle), tx_Drain = DIdle\<rparr>"

lemma linked_reach: "tx_reach linked_state"
proof -
  let ?mk = "\<lambda>m n e w p. start_state\<lparr>tx_Mem := m, tx_CreationCount := n, tx_CreationCompleteEvent := e, tx_Worker := w,
    tx_Creator := (\<lambda>_. CIdle)(0 := p)\<rparr>"
  let ?m = "[8 \<mapsto> new_context True]" and ?w = "(\<lambda>_. WNone)(5 := WWaiting 8)"
  have idle: "(\<lambda>_. CIdle)(0 := CIdle) = (\<lambda>_ :: nat. CIdle)" by auto
  have "tx_reach (?mk ?m 0 True (\<lambda>_. WNone) (CAlloc 8 True))"
    using reach_step [OF start_reach tx_step.alloc [of start_state 0 8 True]] by (simp add: start_state_def)
  from reach_step [OF this tx_step.counted [of _ 0 8 True]]
  have "tx_reach (?mk ?m 1 False (\<lambda>_. WNone) (CCounted 8 True))"
    by (simp add: start_state_def count_creation_def LdkpReapTerminatedThreadContextsLocked_def)
  from reach_step [OF this tx_step.create [of _ 0 8 True 5]]
  have "tx_reach (?mk ?m 1 False ?w (CCreated 8 5 True))" by (simp add: start_state_def)
  from reach_step [OF this tx_step.lookup [of _ 0 8 5 True]]
  have "tx_reach (?mk ?m 1 False ?w (CLooked 8 5 True))" by (simp add: start_state_def)
  from reach_step [OF this tx_step.link [of _ 0 8 5 True]]
  show ?thesis
    by (simp add: start_state_def linked_state_def link_context_def LdkpCompleteThreadContextCreationLocked_def linked_context_def
      new_context_def sample_context_def Let_def idle)
qed

theorem thread_context_alive_witness: "tx_Worker linked_state 5 = WWaiting 8 \<and> tx_Mem linked_state 8 \<noteq> None"
  using thread_context_alive [OF linked_reach] by (simp add: linked_state_def)

theorem suspend_resume_witness:
  "\<exists>s1. SuspendThread 5 linked_state = (Inr 1, s1) \<and> ResumeThread 5 s1 = (Inr 2, linked_state)"
proof -
  obtain s1 where "SuspendThread 5 linked_state = (Inr 1, s1)"
    by (simp add: SuspendThread_def LdkpFindThreadContextByIdLocked_def linked_state_def sample_context_def)
  with suspend_resume [OF linked_reach this] show ?thesis by auto
qed

theorem thread_runs_released_witness:
  "\<exists>s c. tx_reach s \<and> tx_Worker s 5 = WRunning \<and> ShutdownCancelled (the (tx_Mem s c)) = False"
proof -
  let ?x = "resumed_context sample_context"
  let ?s = "\<lambda>w. linked_state\<lparr>tx_Mem := [8 \<mapsto> ?x], tx_Worker := (\<lambda>_. WNone)(5 := w)\<rparr>"
  have x: "StartEvent ?x" "\<not> ShutdownCancelled ?x" by (simp_all add: resumed_context_def sample_context_def)
  from reach_step [OF linked_reach tx_step.resume [of _ 5]]
  have "tx_reach (?s (WWaiting 8))"
    by (simp add: ResumeThread_def LdkpFindThreadContextByIdLocked_def linked_state_def sample_context_def)
  from reach_step [OF this tx_step.wake [of _ 5 8 ?x]] x have "tx_reach (?s (WCheck 8))" by (simp add: linked_state_def)
  from reach_step [OF this tx_step.run [of _ 5 8 ?x]] x have r: "tx_reach (?s WRunning)" by (simp add: linked_state_def)
  from thread_runs_released [OF this, of 5]
  obtain c x where "tx_Mem (?s WRunning) c = Some x" "\<not> ShutdownCancelled x" by auto
  with r show ?thesis by (intro exI [of _ "?s WRunning"] exI [of _ c]) auto
qed

text \<open>The shutdown begins before anybody has resumed the thread.\<close>

lemma shutdown_reach:
  "tx_reach (linked_state\<lparr>tx_Mem := [8 \<mapsto> cancel_context sample_context], tx_Shutdown := True, tx_Drain := DLoop\<rparr>)"
  using reach_step [OF linked_reach tx_step.shutdown]
  by (simp add: LdkpBeginThreadContextShutdown_def LdkpReapTerminatedThreadContextsLocked_def linked_state_def sample_context_def Let_def)

theorem drain_not_stuck_witness: "StartEvent (cancel_context sample_context)"
  using conjunct1 [OF drain_not_stuck [OF shutdown_reach], THEN spec [of _ 5], THEN spec [of _ 8]]
  by (simp add: linked_state_def)

theorem threads_drained_witness:
  "\<exists>s. tx_reach s \<and> tx_Drain s = DFinished \<and> tx_Worker s 5 = WEnded"
proof -
  let ?x = "cancel_context sample_context"
  let ?s = "\<lambda>w. linked_state\<lparr>tx_Mem := [8 \<mapsto> ?x], tx_Shutdown := True, tx_Worker := (\<lambda>_. WNone)(5 := w), tx_Drain := DLoop\<rparr>"
  have x: "StartEvent ?x" "ShutdownCancelled ?x" "ThreadId ?x = 5" by (simp_all add: cancel_context_def sample_context_def)
  have "tx_reach (?s (WWaiting 8))" using shutdown_reach by (simp add: linked_state_def)
  from reach_step [OF this tx_step.wake [of _ 5 8 ?x]] x have "tx_reach (?s (WCheck 8))" by (simp add: linked_state_def)
  from reach_step [OF this tx_step.cancelled [of _ 5 8 ?x]] x have "tx_reach (?s WEnded)" by (simp add: linked_state_def)
  from reach_step [OF this tx_step.drain]
  have r: "tx_reach (linked_state\<lparr>tx_Mem := Map.empty, tx_List := [], tx_Shutdown := True, tx_Worker := (\<lambda>_. WNone)(5 := WEnded),
      tx_Drain := DFinished\<rparr>)"
    by (simp add: drain_turn_def LdkpReapTerminatedThreadContextsLocked_def linked_state_def x Let_def)
  from threads_drained [OF r] r show ?thesis
    by (intro exI [of _ "linked_state\<lparr>tx_Mem := Map.empty, tx_List := [], tx_Shutdown := True,
      tx_Worker := (\<lambda>_. WNone)(5 := WEnded), tx_Drain := DFinished\<rparr>"]) simp
qed

text \<open>A caller that has its context but is not counted is not waited for: the shutdown can end and delete the
  lookaside list while the caller still has to take the refusal and give the context back to that list.\<close>

theorem context_freed_after_deletion:
  "\<exists>s k c. tx_reach s \<and> tx_Drain s = DFinished \<and> tx_Creator s k = CFree c \<and> tx_Mem s c \<noteq> None"
proof -
  let ?mk = "\<lambda>p sh d. start_state\<lparr>tx_Mem := [8 \<mapsto> new_context False], tx_Creator := (\<lambda>_. CIdle)(0 := p), tx_Shutdown := sh, tx_Drain := d\<rparr>"
  note reap = LdkpReapTerminatedThreadContextsLocked_def
  have "tx_reach (?mk (CAlloc 8 False) False DIdle)"
    using reach_step [OF start_reach tx_step.alloc [of start_state 0 8 False]] by (simp add: start_state_def)
  from reach_step [OF this tx_step.shutdown] have "tx_reach (?mk (CAlloc 8 False) True DLoop)"
    by (simp add: start_state_def LdkpBeginThreadContextShutdown_def reap Let_def)
  from reach_step [OF this tx_step.drain] have "tx_reach (?mk (CAlloc 8 False) True DFinished)"
    by (simp add: start_state_def drain_turn_def reap Let_def)
  from reach_step [OF this tx_step.refuse [of _ 0 8 False]] have "tx_reach (?mk (CFree 8) True DFinished)"
    by (simp add: start_state_def reap)
  then show ?thesis by (intro exI [of _ "?mk (CFree 8) True DFinished"] exI [of _ 0] exI [of _ 8]) (simp add: start_state_def)
qed

end
