(* ===== verification/ProcessHandles.thy ===== *)
theory ProcessHandles
  imports Prelude
begin

text \<open>
  The library's own handles (src/kernel32/processhandle.c): handles of the process and of mutexes, the counted
  objects behind the handles of mutexes, and the table of their names. A handle record in the list and an
  object are named by their addresses, which may be used again once they are free. Each interlocked
  operation and each region under a lock is one step. The counts are integers.
\<close>

section \<open>Handles and access\<close>

text \<open>A handle is an even address with the lowest bit set; the pseudo handle of the process is -1.\<close>

definition LdkpIsTaggedProcessHandle :: "nat \<Rightarrow> bool" where
  "LdkpIsTaggedProcessHandle Handle \<longleftrightarrow> Handle \<noteq> 0 \<and> Handle mod 2 = 1"

definition LdkpEncodeProcessHandle :: "addr \<Rightarrow> nat" where
  "LdkpEncodeProcessHandle p = (if p mod 2 = 1 then p else p + 1)"

definition LdkpDecodeProcessHandle :: "nat \<Rightarrow> addr" where
  "LdkpDecodeProcessHandle Handle = Handle - Handle mod 2"

definition LdkpIsCurrentProcessPseudoHandle :: "nat \<Rightarrow> bool" where
  "LdkpIsCurrentProcessPseudoHandle Handle \<longleftrightarrow> Handle = 2 ^ 64 - 1"

abbreviation MAXIMUM_ALLOWED :: u32 where "MAXIMUM_ALLOWED \<equiv> 0x02000000"

definition LdkpHasAccess :: "u32 \<Rightarrow> u32 \<Rightarrow> bool" where
  "LdkpHasAccess Granted Desired \<longleftrightarrow> Desired = 0 \<or> Granted = MAXIMUM_ALLOWED \<or> Granted AND Desired = Desired"

text \<open>A handle without a wait object is one of the process.\<close>

record process_handle =
  GrantedAccess :: u32
  WaitObject :: "addr option"

text \<open>The list of handles, by the addresses of the records that are linked.\<close>

definition LdkpLookupProcessHandleLocked :: "(addr \<Rightarrow> process_handle option) \<Rightarrow> nat \<Rightarrow> process_handle option" where
  "LdkpLookupProcessHandleLocked handles Handle =
     (if \<not> LdkpIsTaggedProcessHandle Handle then None else handles (LdkpDecodeProcessHandle Handle))"

section \<open>Objects\<close>

text \<open>\<open>Owner\<close> is the owner the kernel keeps in the mutex itself.\<close>

record mutant_object =
  ReferenceCount :: int
  HandleCount :: int
  Named :: bool
  Name :: "u16 list"
  Owner :: "tid option"

definition new_wait_object :: "u16 list \<Rightarrow> tid option \<Rightarrow> mutant_object" where
  "new_wait_object n InitialOwner = \<lparr>ReferenceCount = 1, HandleCount = 1, Named = False, Name = n, Owner = InitialOwner\<rparr>"

definition LdkpReferenceWaitObject :: "mutant_object \<Rightarrow> mutant_object" where
  "LdkpReferenceWaitObject x = x\<lparr>ReferenceCount := ReferenceCount x + 1\<rparr>"

definition LdkpReferenceWaitObjectHandle :: "mutant_object \<Rightarrow> mutant_object" where
  "LdkpReferenceWaitObjectHandle x = LdkpReferenceWaitObject (x\<lparr>HandleCount := HandleCount x + 1\<rparr>)"

text \<open>Where a thread is. The second component of a release is the object, with the access wanted, for which
  the thread makes a handle when it is done.\<close>

datatype handle_pc = HIdle | HHave addr u32 | HNew addr u32 | HDup addr u32 | HRelease addr "(addr \<times> u32) option"
  | HUnname addr "(addr \<times> u32) option" | HDeref addr "(addr \<times> u32) option" | HFree addr "(addr \<times> u32) option" | HUse addr

record handle_sys =
  hs_Object :: "addr \<Rightarrow> mutant_object option"
  hs_Names :: "addr list"
  hs_Handle :: "addr \<Rightarrow> process_handle option"
  hpc :: "tid \<Rightarrow> handle_pc"

definition LdkpInitializeProcessHandles :: "handle_sys \<Rightarrow> bool" where
  "LdkpInitializeProcessHandles s \<longleftrightarrow> (\<forall>p. hs_Object s p = None) \<and> hs_Names s = [] \<and> (\<forall>h. hs_Handle s h = None) \<and>
     (\<forall>k. hpc s k = HIdle)"

definition LdkpFindNamedWaitObjectLocked :: "handle_sys \<Rightarrow> u16 list \<Rightarrow> addr option" where
  "LdkpFindNamedWaitObjectLocked s n = List.find (\<lambda>p. Name (the (hs_Object s p)) = n) (hs_Names s)"

text \<open>The decrements, and the region that takes an object out of the table of names.\<close>

definition release_handle_count :: "mutant_object \<Rightarrow> mutant_object" where
  "release_handle_count x = x\<lparr>HandleCount := HandleCount x - 1\<rparr>"

definition LdkpDereferenceWaitObject :: "mutant_object \<Rightarrow> mutant_object" where
  "LdkpDereferenceWaitObject x = x\<lparr>ReferenceCount := ReferenceCount x - 1\<rparr>"

definition remove_name :: "addr \<Rightarrow> mutant_object \<Rightarrow> handle_sys \<Rightarrow> handle_sys" where
  "remove_name p x s =
     (if Named x then s\<lparr>hs_Names := remove1 p (hs_Names s), hs_Object := (hs_Object s)(p \<mapsto> x\<lparr>Named := False\<rparr>)\<rparr> else s)"

definition go_on :: "(addr \<times> u32) option \<Rightarrow> handle_pc" where
  "go_on nx = (case nx of None \<Rightarrow> HIdle | Some (p, a) \<Rightarrow> HHave p a)"

section \<open>The machine\<close>

text \<open>Any thread may create a mutex (\<open>new\<close>, \<open>publish\<close>), open one by name (\<open>opened\<close>), duplicate and close a
  handle, and use the object of a handle, to wait for the mutex or to release it; what the kernel does to the
  owner then is arbitrary.\<close>

inductive handle_step :: "handle_sys \<Rightarrow> handle_sys \<Rightarrow> bool" where
  opened: "hpc s k = HIdle \<Longrightarrow> LdkpFindNamedWaitObjectLocked s n = Some p \<Longrightarrow> hs_Object s p = Some x \<Longrightarrow>
    handle_step s (s\<lparr>hs_Object := (hs_Object s)(p \<mapsto> LdkpReferenceWaitObjectHandle x), hpc := (hpc s)(k := HHave p a)\<rparr>)"
| new: "hpc s k = HIdle \<Longrightarrow> hs_Object s p = None \<Longrightarrow> w = None \<or> w = Some k \<Longrightarrow>
    handle_step s (s\<lparr>hs_Object := (hs_Object s)(p \<mapsto> new_wait_object n w),
      hpc := (hpc s)(k := if n = [] then HHave p a else HNew p a)\<rparr>)"
| no_name_memory: "hpc s k = HIdle \<Longrightarrow> hs_Object s p = None \<Longrightarrow>
    handle_step s (s\<lparr>hs_Object := (hs_Object s)(p \<mapsto> new_wait_object [] None), hpc := (hpc s)(k := HDeref p None)\<rparr>)"
| publish: "hpc s k = HNew p a \<Longrightarrow> hs_Object s p = Some x \<Longrightarrow> LdkpFindNamedWaitObjectLocked s (Name x) = None \<Longrightarrow>
    handle_step s (s\<lparr>hs_Object := (hs_Object s)(p \<mapsto> x\<lparr>Named := True\<rparr>), hs_Names := hs_Names s @ [p], hpc := (hpc s)(k := HHave p a)\<rparr>)"
| publish_existing: "hpc s k = HNew p a \<Longrightarrow> hs_Object s p = Some x \<Longrightarrow> LdkpFindNamedWaitObjectLocked s (Name x) = Some q \<Longrightarrow>
    hs_Object s q = Some y \<Longrightarrow>
    handle_step s (s\<lparr>hs_Object := (hs_Object s)(q \<mapsto> LdkpReferenceWaitObjectHandle y), hpc := (hpc s)(k := HRelease p (Some (q, a)))\<rparr>)"
| created: "hpc s k = HHave p a \<Longrightarrow> hs_Handle s h = None \<Longrightarrow>
    handle_step s (s\<lparr>hs_Handle := (hs_Handle s)(h \<mapsto> \<lparr>GrantedAccess = a, WaitObject = Some p\<rparr>), hpc := (hpc s)(k := HIdle)\<rparr>)"
| not_created: "hpc s k = HHave p a \<Longrightarrow>
    handle_step s (s\<lparr>hpc := (hpc s)(k := HRelease p None)\<rparr>)"
| duplicate: "hpc s k = HIdle \<Longrightarrow> hs_Handle s h = Some ph \<Longrightarrow> WaitObject ph = Some p \<Longrightarrow> hs_Object s p = Some x \<Longrightarrow>
    handle_step s (s\<lparr>hs_Object := (hs_Object s)(p \<mapsto> LdkpReferenceWaitObject x), hpc := (hpc s)(k := HDup p a)\<rparr>)"
| duplicated: "hpc s k = HDup p a \<Longrightarrow> hs_Handle s h = None \<Longrightarrow>
    handle_step s (s\<lparr>hs_Handle := (hs_Handle s)(h \<mapsto> \<lparr>GrantedAccess = a, WaitObject = Some p\<rparr>), hpc := (hpc s)(k := HIdle)\<rparr>)"
| not_duplicated: "hpc s k = HDup p a \<Longrightarrow>
    handle_step s (s\<lparr>hpc := (hpc s)(k := HRelease p None)\<rparr>)"
| close: "hpc s k = HIdle \<Longrightarrow> hs_Handle s h = Some ph \<Longrightarrow> WaitObject ph = Some p \<Longrightarrow>
    handle_step s (s\<lparr>hs_Handle := (hs_Handle s)(h := None), hpc := (hpc s)(k := HRelease p None)\<rparr>)"
| create_process: "hs_Handle s h = None \<Longrightarrow>
    handle_step s (s\<lparr>hs_Handle := (hs_Handle s)(h \<mapsto> \<lparr>GrantedAccess = a, WaitObject = None\<rparr>)\<rparr>)"
| close_process: "hs_Handle s h = Some ph \<Longrightarrow> WaitObject ph = None \<Longrightarrow>
    handle_step s (s\<lparr>hs_Handle := (hs_Handle s)(h := None)\<rparr>)"
| release: "hpc s k = HRelease p nx \<Longrightarrow> hs_Object s p = Some x \<Longrightarrow>
    handle_step s (s\<lparr>hs_Object := (hs_Object s)(p \<mapsto> release_handle_count x),
      hpc := (hpc s)(k := if HandleCount (release_handle_count x) = 0 then HUnname p nx else HDeref p nx)\<rparr>)"
| unname: "hpc s k = HUnname p nx \<Longrightarrow> hs_Object s p = Some x \<Longrightarrow>
    handle_step s ((remove_name p x s)\<lparr>hpc := (hpc s)(k := HDeref p nx)\<rparr>)"
| dereference: "hpc s k = HDeref p nx \<Longrightarrow> hs_Object s p = Some x \<Longrightarrow>
    handle_step s (s\<lparr>hs_Object := (hs_Object s)(p \<mapsto> LdkpDereferenceWaitObject x),
      hpc := (hpc s)(k := if ReferenceCount (LdkpDereferenceWaitObject x) = 0 then HFree p nx else go_on nx)\<rparr>)"
| free: "hpc s k = HFree p nx \<Longrightarrow>
    handle_step s (s\<lparr>hs_Object := (hs_Object s)(p := None), hpc := (hpc s)(k := go_on nx)\<rparr>)"
| reference: "hpc s k = HIdle \<Longrightarrow> hs_Handle s h = Some ph \<Longrightarrow> WaitObject ph = Some p \<Longrightarrow> hs_Object s p = Some x \<Longrightarrow>
    handle_step s (s\<lparr>hs_Object := (hs_Object s)(p \<mapsto> LdkpReferenceWaitObject x), hpc := (hpc s)(k := HUse p)\<rparr>)"
| kernel: "hpc s k = HUse p \<Longrightarrow> hs_Object s p = Some x \<Longrightarrow>
    handle_step s (s\<lparr>hs_Object := (hs_Object s)(p \<mapsto> x\<lparr>Owner := w\<rparr>)\<rparr>)"
| used: "hpc s k = HUse p \<Longrightarrow>
    handle_step s (s\<lparr>hpc := (hpc s)(k := HDeref p None)\<rparr>)"

abbreviation handle_reach :: "handle_sys \<Rightarrow> bool" where
  "handle_reach \<equiv> reach LdkpInitializeProcessHandles handle_step"

section \<open>The invariant\<close>

definition handle_to :: "addr \<Rightarrow> process_handle option \<Rightarrow> bool" where
  "handle_to p h \<longleftrightarrow> (case h of None \<Rightarrow> False | Some ph \<Rightarrow> WaitObject ph = Some p)"

text \<open>A thread that holds a reference to an object, one that has its handle count too, one that holds both for
  later, one about to remove its name, one that has made it and not published, and one about to free it.\<close>

definition holds :: "addr \<Rightarrow> handle_pc \<Rightarrow> bool" where
  "holds p c \<longleftrightarrow> (case c of HHave q _ \<Rightarrow> q = p | HNew q _ \<Rightarrow> q = p | HDup q _ \<Rightarrow> q = p | HRelease q _ \<Rightarrow> q = p
     | HUnname q _ \<Rightarrow> q = p | HDeref q _ \<Rightarrow> q = p | HUse q \<Rightarrow> q = p | _ \<Rightarrow> False)"

definition counts :: "addr \<Rightarrow> handle_pc \<Rightarrow> bool" where
  "counts p c \<longleftrightarrow> (case c of HHave q _ \<Rightarrow> q = p | HNew q _ \<Rightarrow> q = p | HRelease q _ \<Rightarrow> q = p | _ \<Rightarrow> False)"

definition keeps :: "addr \<Rightarrow> handle_pc \<Rightarrow> bool" where
  "keeps p c \<longleftrightarrow> (case c of HRelease _ (Some (q, _)) \<Rightarrow> q = p | HUnname _ (Some (q, _)) \<Rightarrow> q = p
     | HDeref _ (Some (q, _)) \<Rightarrow> q = p | HFree _ (Some (q, _)) \<Rightarrow> q = p | _ \<Rightarrow> False)"

definition unnames :: "addr \<Rightarrow> handle_pc \<Rightarrow> bool" where
  "unnames p c \<longleftrightarrow> (case c of HUnname q _ \<Rightarrow> q = p | _ \<Rightarrow> False)"

definition news :: "addr \<Rightarrow> handle_pc \<Rightarrow> bool" where
  "news p c \<longleftrightarrow> (case c of HNew q _ \<Rightarrow> q = p | _ \<Rightarrow> False)"

definition frees :: "addr \<Rightarrow> handle_pc \<Rightarrow> bool" where
  "frees p c \<longleftrightarrow> (case c of HFree q _ \<Rightarrow> q = p | _ \<Rightarrow> False)"

lemmas pc_defs = holds_def counts_def keeps_def unnames_def news_def frees_def

lemma handle_to_simps [simp]: "\<not> handle_to p None" "handle_to p (Some ph) \<longleftrightarrow> WaitObject ph = Some p"
  by (simp_all add: handle_to_def)

lemma holds_simps [simp]:
  "\<not> holds p HIdle" "holds p (HHave q a) \<longleftrightarrow> q = p" "holds p (HNew q a) \<longleftrightarrow> q = p" "holds p (HDup q a) \<longleftrightarrow> q = p"
  "holds p (HRelease q nx) \<longleftrightarrow> q = p" "holds p (HUnname q nx) \<longleftrightarrow> q = p" "holds p (HDeref q nx) \<longleftrightarrow> q = p"
  "\<not> holds p (HFree q nx)" "holds p (HUse q) \<longleftrightarrow> q = p" "holds p (go_on nx) \<longleftrightarrow> (\<exists>a. nx = Some (p, a))"
  by (auto simp: holds_def go_on_def split: option.splits)

lemma counts_simps [simp]:
  "\<not> counts p HIdle" "counts p (HHave q a) \<longleftrightarrow> q = p" "counts p (HNew q a) \<longleftrightarrow> q = p" "\<not> counts p (HDup q a)"
  "counts p (HRelease q nx) \<longleftrightarrow> q = p" "\<not> counts p (HUnname q nx)" "\<not> counts p (HDeref q nx)"
  "\<not> counts p (HFree q nx)" "\<not> counts p (HUse q)" "counts p (go_on nx) \<longleftrightarrow> (\<exists>a. nx = Some (p, a))"
  by (auto simp: counts_def go_on_def split: option.splits)

lemma keeps_simps [simp]:
  "\<not> keeps p HIdle" "\<not> keeps p (HHave q a)" "\<not> keeps p (HNew q a)" "\<not> keeps p (HDup q a)"
  "keeps p (HRelease q nx) \<longleftrightarrow> (\<exists>a. nx = Some (p, a))" "keeps p (HUnname q nx) \<longleftrightarrow> (\<exists>a. nx = Some (p, a))"
  "keeps p (HDeref q nx) \<longleftrightarrow> (\<exists>a. nx = Some (p, a))" "keeps p (HFree q nx) \<longleftrightarrow> (\<exists>a. nx = Some (p, a))"
  "\<not> keeps p (HUse q)" "\<not> keeps p (go_on nx)"
  by (auto simp: keeps_def go_on_def split: option.splits)

lemma unnames_simps [simp]:
  "\<not> unnames p HIdle" "\<not> unnames p (HHave q a)" "\<not> unnames p (HNew q a)" "\<not> unnames p (HDup q a)"
  "\<not> unnames p (HRelease q nx)" "unnames p (HUnname q nx) \<longleftrightarrow> q = p" "\<not> unnames p (HDeref q nx)" "\<not> unnames p (HFree q nx)"
  "\<not> unnames p (HUse q)" "\<not> unnames p (go_on nx)"
  by (auto simp: unnames_def go_on_def split: option.splits)

lemma news_simps [simp]:
  "\<not> news p HIdle" "\<not> news p (HHave q a)" "news p (HNew q a) \<longleftrightarrow> q = p" "\<not> news p (HDup q a)"
  "\<not> news p (HRelease q nx)" "\<not> news p (HUnname q nx)" "\<not> news p (HDeref q nx)" "\<not> news p (HFree q nx)"
  "\<not> news p (HUse q)" "\<not> news p (go_on nx)"
  by (auto simp: news_def go_on_def split: option.splits)

lemma frees_simps [simp]:
  "\<not> frees p HIdle" "\<not> frees p (HHave q a)" "\<not> frees p (HNew q a)" "\<not> frees p (HDup q a)"
  "\<not> frees p (HRelease q nx)" "\<not> frees p (HUnname q nx)" "\<not> frees p (HDeref q nx)" "frees p (HFree q nx) \<longleftrightarrow> q = p"
  "\<not> frees p (HUse q)" "\<not> frees p (go_on nx)"
  by (auto simp: frees_def go_on_def split: option.splits)

lemma object_ops [simp]:
  "ReferenceCount (LdkpReferenceWaitObject x) = ReferenceCount x + 1" "HandleCount (LdkpReferenceWaitObject x) = HandleCount x"
  "Named (LdkpReferenceWaitObject x) = Named x" "Name (LdkpReferenceWaitObject x) = Name x"
  "ReferenceCount (LdkpReferenceWaitObjectHandle x) = ReferenceCount x + 1"
  "HandleCount (LdkpReferenceWaitObjectHandle x) = HandleCount x + 1"
  "Named (LdkpReferenceWaitObjectHandle x) = Named x" "Name (LdkpReferenceWaitObjectHandle x) = Name x"
  "ReferenceCount (release_handle_count x) = ReferenceCount x" "HandleCount (release_handle_count x) = HandleCount x - 1"
  "Named (release_handle_count x) = Named x" "Name (release_handle_count x) = Name x"
  "ReferenceCount (LdkpDereferenceWaitObject x) = ReferenceCount x - 1" "HandleCount (LdkpDereferenceWaitObject x) = HandleCount x"
  "Named (LdkpDereferenceWaitObject x) = Named x" "Name (LdkpDereferenceWaitObject x) = Name x"
  by (simp_all add: LdkpReferenceWaitObject_def LdkpReferenceWaitObjectHandle_def release_handle_count_def LdkpDereferenceWaitObject_def)

definition refs :: "handle_sys \<Rightarrow> addr \<Rightarrow> int" where
  "refs s p = count_at (handle_to p) (hs_Handle s) + count_at (holds p) (hpc s) + count_at (keeps p) (hpc s)"

definition object_ok :: "handle_sys \<Rightarrow> addr \<Rightarrow> bool" where
  "object_ok s p \<longleftrightarrow> (case hs_Object s p of
     None \<Rightarrow> refs s p = 0 \<and> count_at (frees p) (hpc s) = 0 \<and> p \<notin> set (hs_Names s)
   | Some x \<Rightarrow> ReferenceCount x = refs s p \<and> (ReferenceCount x = 0 \<longrightarrow> count_at (frees p) (hpc s) = 1) \<and>
       (ReferenceCount x \<noteq> 0 \<longrightarrow> count_at (frees p) (hpc s) = 0) \<and>
       (Named x \<longleftrightarrow> p \<in> set (hs_Names s)) \<and>
       (Named x \<longrightarrow>
         HandleCount x \<le> count_at (handle_to p) (hs_Handle s) + count_at (counts p) (hpc s) + count_at (keeps p) (hpc s) \<and>
         (1 \<le> HandleCount x \<or> 1 \<le> count_at (unnames p) (hpc s))) \<and>
       (1 \<le> count_at (news p) (hpc s) \<longrightarrow> HandleCount x = 1 \<and> refs s p = 1 \<and> \<not> Named x))"

definition names_ok :: "handle_sys \<Rightarrow> bool" where
  "names_ok s \<longleftrightarrow> distinct (hs_Names s) \<and> distinct (map (\<lambda>p. Name (the (hs_Object s p))) (hs_Names s))"

definition handle_inv :: "handle_sys \<Rightarrow> bool" where
  "handle_inv s \<longleftrightarrow> finite_at (\<lambda>c. c \<noteq> HIdle) (hpc s) \<and> finite_at (\<lambda>h. h \<noteq> None) (hs_Handle s) \<and>
     (\<forall>p. object_ok s p) \<and> names_ok s"

lemma count_at_le: "finite_at Q f \<Longrightarrow> (\<And>p. P p \<Longrightarrow> Q p) \<Longrightarrow> count_at P f \<le> count_at Q f"
  unfolding count_at_def finite_at_def by (simp add: card_mono subset_eq)

lemma handle_invD:
  assumes "handle_inv s"
  shows "finite_at (\<lambda>c. c \<noteq> HIdle) (hpc s)" "finite_at (\<lambda>h. h \<noteq> None) (hs_Handle s)" "object_ok s p" "names_ok s"
  using assms by (simp_all add: handle_inv_def)

lemma handle_finite: "handle_inv s \<Longrightarrow> finite_at (handle_to p) (hs_Handle s)"
  by (rule finite_at_mono [OF handle_invD(2)]) (auto simp: handle_to_def split: option.splits)

lemma pc_finite: "handle_inv s \<Longrightarrow> \<not> P HIdle \<Longrightarrow> finite_at P (hpc s)"
  by (rule finite_at_mono [OF handle_invD(1)]) auto

lemma hs_finite:
  assumes "handle_inv s"
  shows "finite_at (handle_to p) (hs_Handle s)" "finite_at (holds p) (hpc s)" "finite_at (counts p) (hpc s)"
    "finite_at (keeps p) (hpc s)" "finite_at (unnames p) (hpc s)" "finite_at (news p) (hpc s)" "finite_at (frees p) (hpc s)"
  by (simp_all add: handle_finite pc_finite assms)

lemma hs_counts:
  assumes "handle_inv s"
  shows "holds p (hpc s k) \<Longrightarrow> 1 \<le> count_at (holds p) (hpc s)" "counts p (hpc s k) \<Longrightarrow> 1 \<le> count_at (counts p) (hpc s)"
    "keeps p (hpc s k) \<Longrightarrow> 1 \<le> count_at (keeps p) (hpc s)" "unnames p (hpc s k) \<Longrightarrow> 1 \<le> count_at (unnames p) (hpc s)"
    "news p (hpc s k) \<Longrightarrow> 1 \<le> count_at (news p) (hpc s)"
    "frees p (hpc s k) \<Longrightarrow> 1 \<le> count_at (frees p) (hpc s)" "handle_to p (hs_Handle s h) \<Longrightarrow> 1 \<le> count_at (handle_to p) (hs_Handle s)"
  using count_at_pos hs_finite [OF assms] by blast+

lemma hs_less:
  assumes "handle_inv s"
  shows "count_at (counts p) (hpc s) \<le> count_at (holds p) (hpc s)" "count_at (unnames p) (hpc s) \<le> count_at (holds p) (hpc s)"
    "count_at (news p) (hpc s) \<le> count_at (holds p) (hpc s)"
  by (rule count_at_le [OF hs_finite(2) [OF assms]]; auto simp: pc_defs split: handle_pc.splits)+

lemma other_holder:
  assumes "handle_inv s" and "holds p (hpc s k)" and "\<not> news p (hpc s k)"
  shows "count_at (news p) (hpc s) + 1 \<le> count_at (holds p) (hpc s)"
proof -
  note fin = hs_finite [OF assms(1), of p]
  have "count_at (news p) ((hpc s)(k := HIdle)) \<le> count_at (holds p) ((hpc s)(k := HIdle))"
    by (rule count_at_le) (use fin in \<open>auto simp: pc_defs split: handle_pc.splits\<close>)
  then show ?thesis using assms(2,3) by (simp add: count_at_upd fin)
qed

text \<open>An object that somebody refers to is allocated and has a positive reference count; so has a named one.\<close>

lemma object_referred:
  assumes "handle_inv s" and "1 \<le> refs s p"
  shows "\<exists>x. hs_Object s p = Some x \<and> 1 \<le> ReferenceCount x"
  using handle_invD(3) [OF assms(1), of p] assms(2) by (auto simp: object_ok_def split: option.splits)

lemma referred_object:
  assumes "handle_inv s"
  shows "holds p (hpc s k) \<Longrightarrow> \<exists>x. hs_Object s p = Some x \<and> 1 \<le> ReferenceCount x"
    "keeps p (hpc s k) \<Longrightarrow> \<exists>x. hs_Object s p = Some x \<and> 1 \<le> ReferenceCount x"
    "handle_to p (hs_Handle s h) \<Longrightarrow> \<exists>x. hs_Object s p = Some x \<and> 1 \<le> ReferenceCount x"
proof -
  have "1 \<le> refs s p" if "holds p (hpc s k) \<or> keeps p (hpc s k) \<or> handle_to p (hs_Handle s h)"
    using that hs_counts(1) [OF assms, of p k] hs_counts(3) [OF assms, of p k] hs_counts(7) [OF assms, of p h]
      count_at_nonneg [of "holds p" "hpc s"] count_at_nonneg [of "keeps p" "hpc s"] count_at_nonneg [of "handle_to p" "hs_Handle s"]
    unfolding refs_def by (elim disjE) linarith+
  then show "holds p (hpc s k) \<Longrightarrow> \<exists>x. hs_Object s p = Some x \<and> 1 \<le> ReferenceCount x"
    "keeps p (hpc s k) \<Longrightarrow> \<exists>x. hs_Object s p = Some x \<and> 1 \<le> ReferenceCount x"
    "handle_to p (hs_Handle s h) \<Longrightarrow> \<exists>x. hs_Object s p = Some x \<and> 1 \<le> ReferenceCount x"
    using object_referred [OF assms] by blast+
qed

lemma named_object:
  assumes inv: "handle_inv s" and n: "p \<in> set (hs_Names s)"
  shows "\<exists>x. hs_Object s p = Some x \<and> Named x \<and> 1 \<le> ReferenceCount x"
proof -
  obtain x where x: "hs_Object s p = Some x" "Named x" "ReferenceCount x = refs s p"
      "HandleCount x \<le> count_at (handle_to p) (hs_Handle s) + count_at (counts p) (hpc s) + count_at (keeps p) (hpc s)"
      "1 \<le> HandleCount x \<or> 1 \<le> count_at (unnames p) (hpc s)"
    using handle_invD(3) [OF inv, of p] n by (auto simp: object_ok_def split: option.splits)
  then have "1 \<le> refs s p"
    using hs_less [OF inv, of p] count_at_nonneg [of "keeps p" "hpc s"] count_at_nonneg [of "handle_to p" "hs_Handle s"]
    unfolding refs_def by (elim disjE) linarith+
  then show ?thesis using x by simp
qed

lemma found_name:
  assumes "handle_inv s" and "LdkpFindNamedWaitObjectLocked s n = Some p"
  shows "\<exists>x. hs_Object s p = Some x \<and> Named x \<and> 1 \<le> ReferenceCount x \<and> Name x = n \<and> p \<in> set (hs_Names s)"
proof -
  have "p \<in> set (hs_Names s)" "Name (the (hs_Object s p)) = n"
    using assms(2) unfolding LdkpFindNamedWaitObjectLocked_def by (auto simp: find_Some_iff)
  then show ?thesis using named_object [OF assms(1), of p] by auto
qed

text \<open>What concerns an object only through references that do not change, or that are kept and become the thread's.\<close>

lemma object_ok_other:
  assumes "object_ok s p" and "hs_Object d p = hs_Object s p" and "p \<in> set (hs_Names d) \<longleftrightarrow> p \<in> set (hs_Names s)"
    and "hs_Handle d = hs_Handle s"
    and "count_at (holds p) (hpc d) = count_at (holds p) (hpc s)" "count_at (counts p) (hpc d) = count_at (counts p) (hpc s)"
    and "count_at (keeps p) (hpc d) = count_at (keeps p) (hpc s)" "count_at (unnames p) (hpc d) = count_at (unnames p) (hpc s)"
    and "count_at (news p) (hpc d) = count_at (news p) (hpc s)" "count_at (frees p) (hpc d) = count_at (frees p) (hpc s)"
  shows "object_ok d p"
  using assms(1) unfolding object_ok_def refs_def assms(2-10) .

lemma object_ok_taken:
  assumes "object_ok s p" and "hs_Object d p = hs_Object s p" and "p \<in> set (hs_Names d) \<longleftrightarrow> p \<in> set (hs_Names s)"
    and "hs_Handle d = hs_Handle s"
    and "count_at (holds p) (hpc d) = count_at (holds p) (hpc s) + 1" "count_at (counts p) (hpc d) = count_at (counts p) (hpc s) + 1"
    and "count_at (keeps p) (hpc d) = count_at (keeps p) (hpc s) - 1" "count_at (unnames p) (hpc d) = count_at (unnames p) (hpc s)"
    and "count_at (news p) (hpc d) = count_at (news p) (hpc s)" "count_at (frees p) (hpc d) = count_at (frees p) (hpc s)"
  shows "object_ok d p"
proof -
  have "refs d p = refs s p" by (simp add: refs_def assms)
  then show ?thesis using assms(1) unfolding object_ok_def assms(2-10) by (auto split: option.splits)
qed

lemma step_object_ok:
  assumes inv: "handle_inv s" and step: "handle_step s d"
  shows "object_ok d p"
proof -
  note upd = hs_finite [OF inv, THEN count_at_upd]
  obtain n1 n2 n3 n4 n5 n6 n7 where cnt: "count_at (handle_to p) (hs_Handle s) = n1" "count_at (holds p) (hpc s) = n2"
    "count_at (counts p) (hpc s) = n3" "count_at (keeps p) (hpc s) = n4" "count_at (unnames p) (hpc s) = n5"
    "count_at (news p) (hpc s) = n6" "count_at (frees p) (hpc s) = n7" by (rule that) (rule refl)+
  have nn: "0 \<le> n1" "0 \<le> n4" "0 \<le> n5" "0 \<le> n6" by (simp_all flip: cnt)
  note ok = handle_invD(3) [OF inv, of p, unfolded object_ok_def refs_def cnt] cnt hs_less [OF inv, of p, unfolded cnt] nn
  note pos = hs_counts [OF inv, where p = p, unfolded cnt]
  note other = other_holder [OF inv, of p, unfolded cnt]
  note simps = object_ok_def refs_def upd
  have dist: "distinct (hs_Names s)" using handle_invD(4) [OF inv] by (simp add: names_ok_def)
  from step show ?thesis
  proof cases
    case (opened k n q x a)
    have "Named x" "1 \<le> ReferenceCount x" using found_name [OF inv opened(3)] opened(4) by auto
    then show ?thesis using opened ok by (cases "p = q"; cases "hs_Object s p"; simp add: simps; (auto split: if_splits)?)
  next
    case (new k q w n a)
    then show ?thesis using ok by (cases "p = q"; cases "hs_Object s p"; simp add: simps new_wait_object_def; (auto split: if_splits)?)
  next
    case (no_name_memory k q)
    then show ?thesis using ok by (cases "p = q"; cases "hs_Object s p"; simp add: simps new_wait_object_def; (auto split: if_splits)?)
  next
    case (publish k q a x)
    then show ?thesis using ok pos(1-6) [of k] by (cases "p = q"; cases "hs_Object s p"; simp add: simps; (auto split: if_splits)?)
  next
    case (publish_existing k q a x q' y)
    have y: "Named y" "1 \<le> ReferenceCount y" using found_name [OF inv publish_existing(4)] publish_existing(5) by auto
    have x: "\<not> Named x"
      using hs_counts(5) [OF inv, of q k] publish_existing(2,3) handle_invD(3) [OF inv, of q] by (auto simp: object_ok_def)
    then have ne: "q' \<noteq> q" using publish_existing(3,5) y by auto
    consider "p = q" | "p = q'" | "p \<noteq> q" "p \<noteq> q'" by blast
    then show ?thesis
    proof cases
      case 1
      then have "p \<noteq> q'" using ne by simp
      then show ?thesis using publish_existing(1-3) ok pos(1-6) [of k] 1 by (simp add: simps) arith?
    next
      case 2
      then show ?thesis using publish_existing(1-2,5) ok pos(1-6) [of k] ne y by (simp add: simps) arith?
    next
      case 3
      then show ?thesis using publish_existing(1,2) ok by (auto simp: simps split: option.splits)
    qed
  next
    case (created k q a h)
    then show ?thesis using ok pos(1-6) [of k] by (cases "p = q"; cases "hs_Object s p"; simp add: simps; (auto split: if_splits)?)
  next
    case (duplicate k h ph q x a)
    then show ?thesis using ok pos(7) [of h] by (cases "p = q"; cases "hs_Object s p"; simp add: simps; (auto split: if_splits)?)
  next
    case (duplicated k q a h)
    then show ?thesis using ok pos(1-6) [of k] by (cases "p = q"; cases "hs_Object s p"; simp add: simps; (auto split: if_splits)?)
  next
    case (close k h ph q)
    then show ?thesis using ok pos(7) [of h] by (cases "p = q"; cases "hs_Object s p"; simp add: simps; (auto split: if_splits)?)
  next
    case (release k q nx x)
    show ?thesis
    proof (cases "p = q")
      case True
      then show ?thesis using release ok pos(1-6) [of k] other [of k] 
        by (cases "\<exists>a. nx = Some (q, a)"; cases "HandleCount x = 1") (simp_all add: simps, auto)
    next
      case False
      have "object_ok s p" by (rule handle_invD(3) [OF inv])
      then show ?thesis using release False by (cases "HandleCount (release_handle_count x) = 0") (simp_all add: upd object_ok_other)
    qed
  next
    case (unname k q nx x)
    show ?thesis
    proof (cases "p = q")
      case True
      then show ?thesis using unname ok pos(1-6) [of k] other [of k] dist
        by (cases "\<exists>a. nx = Some (q, a)") (auto simp: simps remove_name_def)
    next
      case False
      have "object_ok s p" by (rule handle_invD(3) [OF inv])
      then show ?thesis using unname False by (cases "Named x") (simp_all add: upd remove_name_def object_ok_other)
    qed
  next
    case (dereference k q nx x)
    show ?thesis
    proof (cases "p = q")
      case True
      then show ?thesis using dereference ok pos(1-6) [of k] other [of k] 
        by (cases "\<exists>a. nx = Some (q, a)") (auto simp: simps)
    next
      case False
      note okp = handle_invD(3) [OF inv, of p]
      consider "ReferenceCount (LdkpDereferenceWaitObject x) = 0"
        | "ReferenceCount (LdkpDereferenceWaitObject x) \<noteq> 0" "\<nexists>a. nx = Some (p, a)"
        | a where "ReferenceCount (LdkpDereferenceWaitObject x) \<noteq> 0" "nx = Some (p, a)" by blast
      then show ?thesis
      proof cases
        case 1
        then show ?thesis using dereference False by (intro object_ok_other [OF okp]) (simp_all add: upd)
      next
        case 2
        then show ?thesis using dereference False by (intro object_ok_other [OF okp]) (simp_all add: upd)
      next
        case 3
        then show ?thesis using dereference False by (intro object_ok_taken [OF okp]) (simp_all add: upd)
      qed
    qed
  next
    case (free k q nx)
    show ?thesis
    proof (cases "p = q")
      case True
      then show ?thesis using free ok pos(1-6) [of k] other [of k] 
        by (cases "\<exists>a. nx = Some (q, a)"; cases "hs_Object s q"; auto simp: simps split: if_splits)
    next
      case False
      note okp = handle_invD(3) [OF inv, of p]
      show ?thesis
      proof (cases "\<exists>a. nx = Some (p, a)")
        case True
        then show ?thesis using free False by (intro object_ok_taken [OF okp]) (auto simp: upd)
      next
        case False
        then show ?thesis using free \<open>p \<noteq> q\<close> by (intro object_ok_other [OF okp]) (simp_all add: upd)
      qed
    qed
  next
    case (reference k h ph q x)
    then show ?thesis using ok pos(7) [of h] by (cases "p = q"; cases "hs_Object s p"; simp add: simps; (auto split: if_splits)?)
  next
    case (not_created k q a)
    then show ?thesis using ok pos(1-6) [of k] other [of k] by (cases "p = q"; cases "hs_Object s p"; simp add: simps; (auto split: if_splits)?)
  next
    case (not_duplicated k q a)
    then show ?thesis using ok pos(1-6) [of k] other [of k] by (cases "p = q"; cases "hs_Object s p"; simp add: simps; (auto split: if_splits)?)
  next
    case (used k q)
    then show ?thesis using ok pos(1-6) [of k] other [of k] by (cases "p = q"; cases "hs_Object s p"; simp add: simps; (auto split: if_splits)?)
  next
    case (create_process h a)
    then show ?thesis using ok by (simp add: simps cong: option.case_cong)
  next
    case (close_process h ph)
    then show ?thesis using ok by (simp add: simps cong: option.case_cong)
  next
    case (kernel k q x w)
    then show ?thesis using ok by (cases "p = q"; cases "hs_Object s p"; simp add: simps)
  qed
qed

lemma names_keep:
  assumes "names_ok s" and "hs_Names d = hs_Names s"
    and "\<And>p. p \<in> set (hs_Names s) \<Longrightarrow> Name (the (hs_Object d p)) = Name (the (hs_Object s p))"
  shows "names_ok d"
  using assms unfolding names_ok_def by (simp cong: map_cong)

lemma step_names_ok:
  assumes inv: "handle_inv s" and step: "handle_step s d"
  shows "names_ok d"
proof -
  note n = handle_invD(4) [OF inv]
  note keep = names_keep [OF n]
  note named = named_object [OF inv]
  from step show ?thesis
  proof cases
    case (new k q w n a)
    then show ?thesis by (intro keep) (auto dest: named)
  next
    case (no_name_memory k q)
    then show ?thesis by (intro keep) (auto dest: named)
  next
    case (publish k q a x)
    have "q \<notin> set (hs_Names s)"
      using handle_invD(3) [OF inv, of q] hs_counts(5) [OF inv, of q k] publish by (auto simp: object_ok_def)
    moreover have "Name (the (((hs_Object s)(q \<mapsto> x\<lparr>Named := True\<rparr>)) p)) = Name (the (hs_Object s p))" for p
      using publish by simp
    ultimately show ?thesis using publish n
      by (auto simp: names_ok_def LdkpFindNamedWaitObjectLocked_def find_None_iff simp del: fun_upd_apply)
  next
    case (unname k q nx x)
    have "Name (the (((hs_Object s)(q \<mapsto> x\<lparr>Named := False\<rparr>)) p)) = Name (the (hs_Object s p))" for p using unname by simp
    then show ?thesis using unname n
      by (auto simp: names_ok_def remove_name_def distinct_map intro: inj_on_diff)
  next
    case (free k q nx)
    have "q \<notin> set (hs_Names s)"
      using handle_invD(3) [OF inv, of q] hs_counts(6) [OF inv, of q k] free named [of q] by (auto simp: object_ok_def)
    then show ?thesis using free by (intro keep) auto
  qed (auto intro!: keep)
qed

lemma step_handle_inv:
  assumes inv: "handle_inv s" and step: "handle_step s d"
  shows "handle_inv d"
proof -
  have "finite_at (\<lambda>c. c \<noteq> HIdle) (hpc d)" "finite_at (\<lambda>h. h \<noteq> None) (hs_Handle d)"
    using step handle_invD(1,2) [OF inv] by (cases; simp add: remove_name_def)+
  then show ?thesis unfolding handle_inv_def using step_object_ok [OF inv step] step_names_ok [OF inv step] by blast
qed

lemma init_handle_inv: "LdkpInitializeProcessHandles s \<Longrightarrow> handle_inv s"
  by (simp add: LdkpInitializeProcessHandles_def handle_inv_def object_ok_def names_ok_def refs_def finite_at_none count_at_none)

lemma reach_handle_inv: "handle_reach s \<Longrightarrow> handle_inv s"
  by (induction rule: reach_induct) (auto intro: init_handle_inv step_handle_inv)

section \<open>What holds of it\<close>

lemma frees_one:
  assumes "handle_inv s"
  shows "count_at (frees p) (hpc s) = 1 \<longleftrightarrow> (\<exists>!k. frees p (hpc s k))"
  using hs_finite(7) [OF assms, of p] unfolding count_at_def finite_at_def
  by (auto simp: card_1_singleton_iff set_eq_iff)

text \<open>C37: The object of an open handle, and one that a thread still works on or keeps for a handle it will make,
  is allocated; its reference count is exactly the number of handles and threads that refer to it, and it is
  0 just as long as one thread is about to free it. So it is freed once, and never under a user.\<close>

theorem wait_object_alive:
  assumes "handle_reach s"
  shows "(\<forall>h ph p. hs_Handle s h = Some ph \<and> WaitObject ph = Some p \<longrightarrow> (\<exists>x. hs_Object s p = Some x \<and> 1 \<le> ReferenceCount x))
    \<and> (\<forall>k p. holds p (hpc s k) \<or> keeps p (hpc s k) \<longrightarrow> (\<exists>x. hs_Object s p = Some x \<and> 1 \<le> ReferenceCount x))
    \<and> (\<forall>p x. hs_Object s p = Some x \<longrightarrow> ReferenceCount x = refs s p \<and>
         (ReferenceCount x = 0 \<longleftrightarrow> (\<exists>!k. frees p (hpc s k))))
    \<and> (\<forall>p k. hs_Object s p = None \<longrightarrow> \<not> frees p (hpc s k))"
proof -
  note inv = reach_handle_inv [OF assms]
  have 1: "ReferenceCount x = refs s p \<and> (ReferenceCount x = 0 \<longleftrightarrow> (\<exists>!k. frees p (hpc s k)))" if "hs_Object s p = Some x" for p x
    using handle_invD(3) [OF inv, of p] that unfolding frees_one [OF inv, symmetric] by (cases "ReferenceCount x = 0") (simp_all add: object_ok_def)
  have 2: "\<not> frees p (hpc s k)" if "hs_Object s p = None" for p k
    using handle_invD(3) [OF inv, of p] hs_counts(6) [OF inv, of p k] that by (auto simp: object_ok_def)
  have 3: "\<exists>x. hs_Object s p = Some x \<and> 1 \<le> ReferenceCount x" if "hs_Handle s h = Some ph" "WaitObject ph = Some p" for h ph p
    using referred_object(3) [OF inv, of p h] that by simp
  show ?thesis using 1 2 3 referred_object(1,2) [OF inv] by blast
qed

text \<open>The table of names is the map from the names of the objects that have one to these objects: a search
  finds an object exactly if it is named and has that name, so no two mutexes share a name.\<close>

theorem named_wait_objects:
  assumes "handle_reach s"
  shows "LdkpFindNamedWaitObjectLocked s n = Some p \<longleftrightarrow> (\<exists>x. hs_Object s p = Some x \<and> Named x \<and> Name x = n)"
proof
  note inv = reach_handle_inv [OF assms]
  assume "LdkpFindNamedWaitObjectLocked s n = Some p"
  from found_name [OF inv this] show "\<exists>x. hs_Object s p = Some x \<and> Named x \<and> Name x = n" by blast
next
  note inv = reach_handle_inv [OF assms]
  assume "\<exists>x. hs_Object s p = Some x \<and> Named x \<and> Name x = n"
  then obtain x where x: "hs_Object s p = Some x" "Named x" "Name x = n" by blast
  then have p: "p \<in> set (hs_Names s)" using handle_invD(3) [OF inv, of p] by (simp add: object_ok_def)
  have "LdkpFindNamedWaitObjectLocked s n \<noteq> None"
    using p x unfolding LdkpFindNamedWaitObjectLocked_def find_None_iff by auto
  then obtain q where q: "LdkpFindNamedWaitObjectLocked s n = Some q" by auto
  from found_name [OF inv this] obtain y where y: "hs_Object s q = Some y" "Name y = n" "q \<in> set (hs_Names s)" by blast
  have "inj_on (\<lambda>p. Name (the (hs_Object s p))) (set (hs_Names s))"
    using handle_invD(4) [OF inv] by (simp add: names_ok_def distinct_map)
  from inj_onD [OF this _ y(3) p] x y have "q = p" by simp
  then show "LdkpFindNamedWaitObjectLocked s n = Some p" using q by simp
qed

section \<open>Runs\<close>

definition mutex_state :: "mutant_object \<Rightarrow> addr list \<Rightarrow> (addr \<Rightarrow> process_handle option) \<Rightarrow> handle_pc \<Rightarrow> handle_sys" where
  "mutex_state x ns hs c = \<lparr>hs_Object = [8 \<mapsto> x], hs_Names = ns, hs_Handle = hs, hpc = (\<lambda>_. HIdle)(1 := c)\<rparr>"

definition mutex_access :: u32 where
  "mutex_access = 0x100001"

definition mutex_handle :: process_handle where
  "mutex_handle = \<lparr>GrantedAccess = mutex_access, WaitObject = Some 8\<rparr>"

definition mutex_object :: "int \<Rightarrow> int \<Rightarrow> bool \<Rightarrow> mutant_object" where
  "mutex_object r c b = \<lparr>ReferenceCount = r, HandleCount = c, Named = b, Name = [65], Owner = None\<rparr>"

lemmas run_simps = mutex_state_def mutex_handle_def mutex_object_def new_wait_object_def LdkpReferenceWaitObject_def
  LdkpFindNamedWaitObjectLocked_def release_handle_count_def LdkpDereferenceWaitObject_def remove_name_def go_on_def

lemma no_handles_reach: "handle_reach \<lparr>hs_Object = Map.empty, hs_Names = [], hs_Handle = Map.empty, hpc = (\<lambda>_. HIdle)\<rparr>"
  by (rule reach_init) (simp add: LdkpInitializeProcessHandles_def)

lemma named_mutex_reach: "handle_reach (mutex_state (mutex_object 1 1 True) [8] [2 \<mapsto> mutex_handle] HIdle)"
proof -
  from reach_step [OF no_handles_reach handle_step.new [of _ 1 8 None "[65]" mutex_access]]
  have "handle_reach (mutex_state (mutex_object 1 1 False) [] Map.empty (HNew 8 mutex_access))" by (simp add: run_simps)
  from reach_step [OF this handle_step.publish [of _ 1 8 mutex_access "mutex_object 1 1 False"]]
  have "handle_reach (mutex_state (mutex_object 1 1 True) [8] Map.empty (HHave 8 mutex_access))" by (simp add: run_simps)
  from reach_step [OF this handle_step.created [of _ 1 8 mutex_access 2]]
  show ?thesis by (simp add: run_simps)
qed

theorem wait_object_alive_witness: "ReferenceCount (mutex_object 1 1 True) = 1 \<and>
    (\<exists>x. hs_Object (mutex_state (mutex_object 1 1 True) [8] [2 \<mapsto> mutex_handle] HIdle) 8 = Some x \<and> 1 \<le> ReferenceCount x)"
  using conjunct1 [OF wait_object_alive [OF named_mutex_reach]] by (auto simp: mutex_state_def mutex_handle_def mutex_object_def)

theorem named_wait_objects_witness:
  "LdkpFindNamedWaitObjectLocked (mutex_state (mutex_object 1 1 True) [8] [2 \<mapsto> mutex_handle] HIdle) [65] = Some 8"
  unfolding named_wait_objects [OF named_mutex_reach] by (simp add: run_simps)

text \<open>A mutex that a thread owns from its creation is freed with its owner still set when its handle cannot be
  made.\<close>

theorem owned_mutant_freed:
  "\<exists>s d p x k. handle_reach s \<and> handle_step s d \<and> hs_Object s p = Some x \<and> Owner x = Some k \<and> hs_Object d p = None"
proof -
  let ?x = "\<lambda>r c. \<lparr>ReferenceCount = r, HandleCount = c, Named = False, Name = [], Owner = Some 1\<rparr>"
  from reach_step [OF no_handles_reach handle_step.new [of _ 1 8 "Some 1" "[]" 1]]
  have "handle_reach (mutex_state (?x 1 1) [] Map.empty (HHave 8 1))" by (simp add: run_simps)
  from reach_step [OF this handle_step.not_created [of _ 1 8 1]]
  have "handle_reach (mutex_state (?x 1 1) [] Map.empty (HRelease 8 None))" by (simp add: run_simps)
  from reach_step [OF this handle_step.release [of _ 1 8 None "?x 1 1"]]
  have "handle_reach (mutex_state (?x 1 0) [] Map.empty (HUnname 8 None))" by (simp add: run_simps)
  from reach_step [OF this handle_step.unname [of _ 1 8 None "?x 1 0"]]
  have "handle_reach (mutex_state (?x 1 0) [] Map.empty (HDeref 8 None))" by (simp add: run_simps)
  from reach_step [OF this handle_step.dereference [of _ 1 8 None "?x 1 0"]]
  have r: "handle_reach (mutex_state (?x 0 0) [] Map.empty (HFree 8 None))" by (simp add: run_simps)
  from handle_step.free [of "mutex_state (?x 0 0) [] Map.empty (HFree 8 None)" 1 8 None]
  show ?thesis using r
    by (intro exI [of _ "mutex_state (?x 0 0) [] Map.empty (HFree 8 None)"] exI conjI) (auto simp: mutex_state_def)
qed

end
