(* ===== verification/ProcessQueries.thy ===== *)
theory ProcessQueries
  imports ProcessHandles
begin

text \<open>
  The calls on handles as single-threaded functions (src/kernel32/processhandle.c, handleapi.c and the process
  functions of processthreadsapi.c): creating, opening, duplicating and closing them, what a handle lets its holder
  do to the process, and the end of the component. Undisturbed calls are runs of the machine of ProcessHandles. Where
  memory is allocated, the outcome is an argument; calls of the kernel for handles that are not the library's
  are arguments too.
\<close>

section \<open>Results\<close>

datatype win_error = Dos u32 | Nt ntstatus

datatype 'a answer = NotHandled | Failed win_error | Answered 'a

abbreviation ERROR_FILE_NOT_FOUND :: u32 where "ERROR_FILE_NOT_FOUND \<equiv> 2"
abbreviation ERROR_ACCESS_DENIED :: u32 where "ERROR_ACCESS_DENIED \<equiv> 5"
abbreviation ERROR_INVALID_HANDLE :: u32 where "ERROR_INVALID_HANDLE \<equiv> 6"
abbreviation ERROR_INVALID_PARAMETER :: u32 where "ERROR_INVALID_PARAMETER \<equiv> 87"
abbreviation STATUS_ACCESS_DENIED :: ntstatus where "STATUS_ACCESS_DENIED \<equiv> 0xC0000022"
abbreviation STATUS_OBJECT_TYPE_MISMATCH :: ntstatus where "STATUS_OBJECT_TYPE_MISMATCH \<equiv> 0xC0000024"
abbreviation STATUS_PENDING :: u32 where "STATUS_PENDING \<equiv> 0x103"

abbreviation PROCESS_TERMINATE :: u32 where "PROCESS_TERMINATE \<equiv> 0x0001"
abbreviation MUTEX_MODIFY_STATE :: u32 where "MUTEX_MODIFY_STATE \<equiv> 0x0001"
abbreviation PROCESS_DUP_HANDLE :: u32 where "PROCESS_DUP_HANDLE \<equiv> 0x0040"
abbreviation PROCESS_SET_INFORMATION :: u32 where "PROCESS_SET_INFORMATION \<equiv> 0x0200"
abbreviation PROCESS_QUERY_INFORMATION :: u32 where "PROCESS_QUERY_INFORMATION \<equiv> 0x0400"
abbreviation PROCESS_QUERY_LIMITED_INFORMATION :: u32 where "PROCESS_QUERY_LIMITED_INFORMATION \<equiv> 0x1000"
abbreviation SYNCHRONIZE :: u32 where "SYNCHRONIZE \<equiv> 0x00100000"

section \<open>Giving references back\<close>

definition dereference_object :: "addr \<Rightarrow> handle_sys \<Rightarrow> handle_sys" where
  "dereference_object p s = (case hs_Object s p of None \<Rightarrow> s | Some x \<Rightarrow>
     if ReferenceCount (LdkpDereferenceWaitObject x) = 0 then s\<lparr>hs_Object := (hs_Object s)(p := None)\<rparr>
     else s\<lparr>hs_Object := (hs_Object s)(p \<mapsto> LdkpDereferenceWaitObject x)\<rparr>)"

definition LdkpReleaseWaitObjectHandleReference :: "addr \<Rightarrow> handle_sys \<Rightarrow> handle_sys" where
  "LdkpReleaseWaitObjectHandleReference p s = (case hs_Object s p of None \<Rightarrow> s | Some x \<Rightarrow>
     let x1 = release_handle_count x; s1 = s\<lparr>hs_Object := (hs_Object s)(p \<mapsto> x1)\<rparr>
     in dereference_object p (if HandleCount x1 = 0 then remove_name p x1 s1 else s1))"

definition reference_by_name :: "addr \<Rightarrow> handle_sys \<Rightarrow> handle_sys" where
  "reference_by_name p s = s\<lparr>hs_Object := (hs_Object s)(p \<mapsto> LdkpReferenceWaitObjectHandle (the (hs_Object s p)))\<rparr>"

section \<open>Creating, opening, duplicating and closing handles\<close>

definition LdkpCreateProcessHandle :: "addr option \<Rightarrow> u32 \<Rightarrow> addr option \<Rightarrow> handle_sys \<Rightarrow> (win_error + nat) \<times> handle_sys" where
  "LdkpCreateProcessHandle Allocated DesiredAccess w s = (case Allocated of
     None \<Rightarrow> (Inl (Nt STATUS_INSUFFICIENT_RESOURCES), s)
   | Some h \<Rightarrow> (Inr (LdkpEncodeProcessHandle h),
       s\<lparr>hs_Handle := (hs_Handle s)(h \<mapsto> \<lparr>GrantedAccess = DesiredAccess, WaitObject = w\<rparr>)\<rparr>))"

definition LdkCreateCurrentProcessHandle :: "addr option \<Rightarrow> u32 \<Rightarrow> handle_sys \<Rightarrow> (win_error + nat) \<times> handle_sys" where
  "LdkCreateCurrentProcessHandle Allocated DesiredAccess s = LdkpCreateProcessHandle Allocated DesiredAccess None s"

definition create_or_release :: "addr option \<Rightarrow> u32 \<Rightarrow> addr \<Rightarrow> handle_sys \<Rightarrow> (win_error + nat) \<times> handle_sys" where
  "create_or_release Allocated DesiredAccess p s = (case LdkpCreateProcessHandle Allocated DesiredAccess (Some p) s of
     (Inl e, s1) \<Rightarrow> (Inl e, LdkpReleaseWaitObjectHandleReference p s1)
   | (Inr h, s1) \<Rightarrow> (Inr h, s1))"

text \<open>The results also say whether the mutex existed already.\<close>

definition publish_or_existing :: "addr option \<Rightarrow> u32 \<Rightarrow> addr \<Rightarrow> u16 list \<Rightarrow> handle_sys \<Rightarrow> ((win_error + nat) \<times> bool) \<times> handle_sys" where
  "publish_or_existing Allocated DesiredAccess p n s = (case LdkpFindNamedWaitObjectLocked s n of
     None \<Rightarrow>
       let s1 = s\<lparr>hs_Object := (hs_Object s)(p \<mapsto> (the (hs_Object s p))\<lparr>Named := True\<rparr>), hs_Names := hs_Names s @ [p]\<rparr>;
         (r, s2) = create_or_release Allocated DesiredAccess p s1
       in ((r, False), s2)
   | Some q \<Rightarrow>
       let (r, s2) = create_or_release Allocated DesiredAccess q (LdkpReleaseWaitObjectHandleReference p (reference_by_name q s))
       in ((r, True), s2))"

definition LdkCreateMutantHandle ::
    "addr option \<Rightarrow> bool \<Rightarrow> addr option \<Rightarrow> u32 \<Rightarrow> tid option \<Rightarrow> u16 list \<Rightarrow> handle_sys \<Rightarrow> ((win_error + nat) \<times> bool) \<times> handle_sys" where
  "LdkCreateMutantHandle Memory NameMemory Allocated DesiredAccess InitialOwner n s =
     (case (if n = [] then None else LdkpFindNamedWaitObjectLocked s n) of
        Some p \<Rightarrow>
          let (r, s1) = create_or_release Allocated DesiredAccess p (reference_by_name p s)
          in ((r, \<not> isl r), s1)
      | None \<Rightarrow> (case Memory of
          None \<Rightarrow> ((Inl (Nt STATUS_INSUFFICIENT_RESOURCES), False), s)
        | Some p \<Rightarrow>
          if n \<noteq> [] \<and> \<not> NameMemory then
            ((Inl (Nt STATUS_INSUFFICIENT_RESOURCES), False),
             dereference_object p (s\<lparr>hs_Object := (hs_Object s)(p \<mapsto> new_wait_object [] None)\<rparr>))
          else
            let s1 = s\<lparr>hs_Object := (hs_Object s)(p \<mapsto> new_wait_object n InitialOwner)\<rparr>
            in if n \<noteq> [] then publish_or_existing Allocated DesiredAccess p n s1
               else let (r, s2) = create_or_release Allocated DesiredAccess p s1 in ((r, False), s2)))"

definition LdkOpenMutantHandle :: "addr option \<Rightarrow> u32 \<Rightarrow> u16 list \<Rightarrow> handle_sys \<Rightarrow> (win_error + nat) \<times> handle_sys" where
  "LdkOpenMutantHandle Allocated DesiredAccess n s =
     (if n = [] then (Inl (Dos ERROR_INVALID_PARAMETER), s)
      else case LdkpFindNamedWaitObjectLocked s n of
        None \<Rightarrow> (Inl (Dos ERROR_FILE_NOT_FOUND), s)
      | Some p \<Rightarrow> create_or_release Allocated DesiredAccess p (reference_by_name p s))"

definition LdkCloseProcessHandle :: "nat \<Rightarrow> handle_sys \<Rightarrow> unit answer \<times> handle_sys" where
  "LdkCloseProcessHandle Handle s =
     (if LdkpIsCurrentProcessPseudoHandle Handle then (Failed (Dos ERROR_INVALID_HANDLE), s)
      else if \<not> LdkpIsTaggedProcessHandle Handle then (NotHandled, s)
      else case LdkpLookupProcessHandleLocked (hs_Handle s) Handle of
        None \<Rightarrow> (Failed (Dos ERROR_INVALID_HANDLE), s)
      | Some ph \<Rightarrow>
        let s1 = s\<lparr>hs_Handle := (hs_Handle s)(LdkpDecodeProcessHandle Handle := None)\<rparr>
        in (Answered (), case WaitObject ph of None \<Rightarrow> s1 | Some p \<Rightarrow> LdkpReleaseWaitObjectHandleReference p s1))"

abbreviation DUPLICATE_CLOSE_SOURCE :: u32 where "DUPLICATE_CLOSE_SOURCE \<equiv> 1"
abbreviation DUPLICATE_SAME_ACCESS :: u32 where "DUPLICATE_SAME_ACCESS \<equiv> 2"

definition LdkDuplicateProcessHandle ::
    "addr option \<Rightarrow> nat \<Rightarrow> u32 \<Rightarrow> u32 \<Rightarrow> handle_sys \<Rightarrow> nat answer \<times> handle_sys" where
  "LdkDuplicateProcessHandle Allocated SourceHandle DesiredAccess Options s =
     (let NewAccess = (\<lambda>SourceAccess. if Options AND DUPLICATE_SAME_ACCESS \<noteq> 0 then SourceAccess else DesiredAccess) in
      if LdkpIsCurrentProcessPseudoHandle SourceHandle then
        (case LdkpCreateProcessHandle Allocated (NewAccess MAXIMUM_ALLOWED) None s of
           (Inl e, s1) \<Rightarrow> (Failed e, s1) | (Inr h, s1) \<Rightarrow> (Answered h, s1))
      else if LdkpIsTaggedProcessHandle SourceHandle then
        (case LdkpLookupProcessHandleLocked (hs_Handle s) SourceHandle of
           None \<Rightarrow> (Failed (Dos ERROR_INVALID_HANDLE), s)
         | Some ph \<Rightarrow>
           let s1 = (case WaitObject ph of None \<Rightarrow> s
             | Some p \<Rightarrow> s\<lparr>hs_Object := (hs_Object s)(p \<mapsto> LdkpReferenceWaitObject (the (hs_Object s p)))\<rparr>)
           in case LdkpCreateProcessHandle Allocated (NewAccess (GrantedAccess ph)) (WaitObject ph) s1 of
             (Inl e, s2) \<Rightarrow> (Failed e, case WaitObject ph of None \<Rightarrow> s2 | Some p \<Rightarrow> LdkpReleaseWaitObjectHandleReference p s2)
           | (Inr h, s2) \<Rightarrow> (Answered h,
               if Options AND DUPLICATE_CLOSE_SOURCE \<noteq> 0 then snd (LdkCloseProcessHandle SourceHandle s2) else s2))
      else (NotHandled, s))"

section \<open>Waiting for a handle and releasing a mutex\<close>

datatype wait_target = ExitEvent | MutantOf addr

definition LdkReferenceProcessWaitObject :: "nat \<Rightarrow> handle_sys \<Rightarrow> (ntstatus + wait_target) \<times> handle_sys" where
  "LdkReferenceProcessWaitObject Handle s =
     (if LdkpIsCurrentProcessPseudoHandle Handle then (Inr ExitEvent, s)
      else if \<not> LdkpIsTaggedProcessHandle Handle then (Inl STATUS_OBJECT_TYPE_MISMATCH, s)
      else case LdkpLookupProcessHandleLocked (hs_Handle s) Handle of
        None \<Rightarrow> (Inl STATUS_INVALID_HANDLE, s)
      | Some ph \<Rightarrow>
        if \<not> LdkpHasAccess (GrantedAccess ph) SYNCHRONIZE then (Inl STATUS_ACCESS_DENIED, s)
        else case WaitObject ph of
          None \<Rightarrow> (Inr ExitEvent, s)
        | Some p \<Rightarrow> (Inr (MutantOf p),
            s\<lparr>hs_Object := (hs_Object s)(p \<mapsto> LdkpReferenceWaitObject (the (hs_Object s p)))\<rparr>))"

definition LdkDereferenceProcessWaitObject :: "wait_target \<Rightarrow> handle_sys \<Rightarrow> handle_sys" where
  "LdkDereferenceProcessWaitObject w s = (case w of ExitEvent \<Rightarrow> s | MutantOf p \<Rightarrow> dereference_object p s)"

text \<open>\<open>KeRelease\<close> stands for what the kernel does with a mutex of the given owner: the status it raises, if any,
  and the owner afterwards.\<close>

definition LdkReleaseMutantHandle ::
    "(tid option \<Rightarrow> ntstatus option \<times> tid option) \<Rightarrow> nat \<Rightarrow> handle_sys \<Rightarrow> unit answer \<times> handle_sys" where
  "LdkReleaseMutantHandle KeRelease Handle s =
     (if \<not> LdkpIsTaggedProcessHandle Handle then (NotHandled, s)
      else case LdkpLookupProcessHandleLocked (hs_Handle s) Handle of
        None \<Rightarrow> (Failed (Dos ERROR_INVALID_HANDLE), s)
      | Some ph \<Rightarrow> (case WaitObject ph of
          None \<Rightarrow> (Failed (Dos ERROR_INVALID_HANDLE), s)
        | Some p \<Rightarrow>
          if \<not> LdkpHasAccess (GrantedAccess ph) MUTEX_MODIFY_STATE then (Failed (Dos ERROR_ACCESS_DENIED), s)
          else
            let x = LdkpReferenceWaitObject (the (hs_Object s p)); (e, w) = KeRelease (Owner x);
              s1 = dereference_object p (s\<lparr>hs_Object := (hs_Object s)(p \<mapsto> x\<lparr>Owner := w\<rparr>)\<rparr>)
            in (case e of None \<Rightarrow> Answered () | Some st \<Rightarrow> Failed (Nt st), s1)))"

definition ReleaseMutex ::
    "(tid option \<Rightarrow> ntstatus option \<times> tid option) \<Rightarrow> nat \<Rightarrow> handle_sys \<Rightarrow> (win_error + unit) \<times> handle_sys" where
  "ReleaseMutex KeRelease hMutex s = (case LdkReleaseMutantHandle KeRelease hMutex s of
     (Answered u, s1) \<Rightarrow> (Inr u, s1)
   | (Failed e, s1) \<Rightarrow> (Inl e, s1)
   | (NotHandled, s1) \<Rightarrow> (Inl (Dos ERROR_INVALID_HANDLE), s1))"

section \<open>The process\<close>

record exit_state =
  ProcessExitStatus :: u32
  ProcessExitEvent :: bool

definition LdkpSetProcessExitCode :: "u32 \<Rightarrow> exit_state \<Rightarrow> exit_state" where
  "LdkpSetProcessExitCode ExitCode st =
     (if ProcessExitStatus st = STATUS_PENDING then \<lparr>ProcessExitStatus = ExitCode, ProcessExitEvent = True\<rparr> else st)"

text \<open>What nearly every call that gets a handle of a process does first: find it and check its access. Several
  rights are alternatives.\<close>

definition access_error :: "(addr \<Rightarrow> process_handle option) \<Rightarrow> nat \<Rightarrow> u32 list \<Rightarrow> win_error option" where
  "access_error handles Handle rights = (case LdkpLookupProcessHandleLocked handles Handle of
     None \<Rightarrow> Some (Dos ERROR_INVALID_HANDLE)
   | Some ph \<Rightarrow> if list_ex (LdkpHasAccess (GrantedAccess ph)) rights then None else Some (Dos ERROR_ACCESS_DENIED))"

abbreviation query_rights :: "u32 list" where
  "query_rights \<equiv> [PROCESS_QUERY_LIMITED_INFORMATION, PROCESS_QUERY_INFORMATION]"

definition LdkTerminateProcessHandle ::
    "(addr \<Rightarrow> process_handle option) \<Rightarrow> nat \<Rightarrow> u32 \<Rightarrow> exit_state \<Rightarrow> unit answer \<times> exit_state" where
  "LdkTerminateProcessHandle handles Handle ExitCode st =
     (if LdkpIsCurrentProcessPseudoHandle Handle then (Answered (), LdkpSetProcessExitCode ExitCode st)
      else if \<not> LdkpIsTaggedProcessHandle Handle then (NotHandled, st)
      else case access_error handles Handle [PROCESS_TERMINATE] of
        Some e \<Rightarrow> (Failed e, st)
      | None \<Rightarrow> (Answered (), LdkpSetProcessExitCode ExitCode st))"

definition LdkGetExitCodeProcessHandle :: "(addr \<Rightarrow> process_handle option) \<Rightarrow> nat \<Rightarrow> exit_state \<Rightarrow> u32 answer" where
  "LdkGetExitCodeProcessHandle handles Handle st =
     (if LdkpIsCurrentProcessPseudoHandle Handle then Answered (ProcessExitStatus st)
      else if \<not> LdkpIsTaggedProcessHandle Handle then NotHandled
      else case access_error handles Handle query_rights of
        Some e \<Rightarrow> Failed e | None \<Rightarrow> Answered (ProcessExitStatus st))"

definition LdkGetProcessIdHandle :: "(addr \<Rightarrow> process_handle option) \<Rightarrow> nat \<Rightarrow> u32 \<Rightarrow> u32 answer" where
  "LdkGetProcessIdHandle handles Handle ProcessId =
     (if LdkpIsCurrentProcessPseudoHandle Handle then Answered ProcessId
      else if \<not> LdkpIsTaggedProcessHandle Handle then NotHandled
      else case access_error handles Handle query_rights of
        Some e \<Rightarrow> Failed e | None \<Rightarrow> Answered ProcessId)"

definition LdkValidateProcessHandleForSetInformation :: "(addr \<Rightarrow> process_handle option) \<Rightarrow> nat \<Rightarrow> unit answer" where
  "LdkValidateProcessHandleForSetInformation handles Handle =
     (if LdkpIsCurrentProcessPseudoHandle Handle then Answered ()
      else if \<not> LdkpIsTaggedProcessHandle Handle then NotHandled
      else case access_error handles Handle [PROCESS_SET_INFORMATION] of
        Some e \<Rightarrow> Failed e | None \<Rightarrow> Answered ())"

text \<open>The handle that the kernel is asked with: of this process, or the one given.\<close>

abbreviation ZwCurrentProcess :: nat where "ZwCurrentProcess \<equiv> 2 ^ 64 - 1"

definition LdkResolveProcessHandleForNativeDuplicate :: "(addr \<Rightarrow> process_handle option) \<Rightarrow> nat \<Rightarrow> win_error + nat" where
  "LdkResolveProcessHandleForNativeDuplicate handles Handle =
     (if LdkpIsCurrentProcessPseudoHandle Handle then Inr ZwCurrentProcess
      else if \<not> LdkpIsTaggedProcessHandle Handle then Inr Handle
      else case access_error handles Handle [PROCESS_DUP_HANDLE] of
        Some e \<Rightarrow> Inl e | None \<Rightarrow> Inr ZwCurrentProcess)"

definition LdkResolveProcessHandleForNativeQuery :: "(addr \<Rightarrow> process_handle option) \<Rightarrow> nat \<Rightarrow> win_error + nat" where
  "LdkResolveProcessHandleForNativeQuery handles Handle =
     (if LdkpIsCurrentProcessPseudoHandle Handle then Inr ZwCurrentProcess
      else if \<not> LdkpIsTaggedProcessHandle Handle then Inr Handle
      else case access_error handles Handle query_rights of
        Some e \<Rightarrow> Inl e | None \<Rightarrow> Inr ZwCurrentProcess)"

text \<open>The exported functions ask the kernel about handles that are not the library's: \<open>ZwTerminate\<close> and
  \<open>ZwQuery\<close> give its status, and the exit status asked for.\<close>

definition TerminateProcess ::
    "(nat \<Rightarrow> u32 \<Rightarrow> ntstatus) \<Rightarrow> (addr \<Rightarrow> process_handle option) \<Rightarrow> nat \<Rightarrow> u32 \<Rightarrow> exit_state \<Rightarrow> (win_error + unit) \<times> exit_state" where
  "TerminateProcess ZwTerminate handles hProcess uExitCode st = (case LdkTerminateProcessHandle handles hProcess uExitCode st of
     (Answered u, st1) \<Rightarrow> (Inr u, st1)
   | (Failed e, st1) \<Rightarrow> (Inl e, st1)
   | (NotHandled, st1) \<Rightarrow>
       (if hProcess = 0 then Inl (Dos ERROR_INVALID_HANDLE)
        else if 0 \<le>s ZwTerminate hProcess uExitCode then Inr () else Inl (Nt (ZwTerminate hProcess uExitCode)), st1))"

definition GetExitCodeProcess ::
    "(nat \<Rightarrow> ntstatus + u32) \<Rightarrow> (addr \<Rightarrow> process_handle option) \<Rightarrow> nat \<Rightarrow> exit_state \<Rightarrow> win_error + u32" where
  "GetExitCodeProcess ZwQuery handles hProcess st = (case LdkGetExitCodeProcessHandle handles hProcess st of
     Answered c \<Rightarrow> Inr c
   | Failed e \<Rightarrow> Inl e
   | NotHandled \<Rightarrow> (case ZwQuery hProcess of Inl e \<Rightarrow> Inl (Nt e) | Inr c \<Rightarrow> Inr c))"

text \<open>The exported calls on handles. \<open>ZwClose\<close> and \<open>ZwDuplicate\<close> stand for the kernel's.\<close>

definition CloseHandle :: "(nat \<Rightarrow> ntstatus) \<Rightarrow> nat \<Rightarrow> handle_sys \<Rightarrow> (win_error + unit) \<times> handle_sys" where
  "CloseHandle ZwClose hObject s = (case LdkCloseProcessHandle hObject s of
     (Answered u, s1) \<Rightarrow> (Inr u, s1)
   | (Failed e, s1) \<Rightarrow> (Inl e, s1)
   | (NotHandled, s1) \<Rightarrow>
       (if hObject = 0 \<or> hObject = 2 ^ 64 - 1 \<or> hObject = 2 ^ 64 - 2 then Inl (Dos ERROR_INVALID_HANDLE)
        else if 0 \<le>s ZwClose hObject then Inr () else Inl (Nt (ZwClose hObject)), s1))"

definition DuplicateHandle ::
    "(nat \<Rightarrow> nat \<Rightarrow> nat \<Rightarrow> ntstatus + nat) \<Rightarrow> addr option \<Rightarrow> nat \<Rightarrow> nat \<Rightarrow> nat \<Rightarrow> u32 \<Rightarrow> u32 \<Rightarrow> handle_sys \<Rightarrow>
     (win_error + nat) \<times> handle_sys" where
  "DuplicateHandle ZwDuplicate Allocated hSourceProcess hSource hTargetProcess dwDesiredAccess dwOptions s =
     (case LdkResolveProcessHandleForNativeDuplicate (hs_Handle s) hSourceProcess of
        Inl e \<Rightarrow> (Inl e, s)
      | Inr NativeSource \<Rightarrow> (case LdkResolveProcessHandleForNativeDuplicate (hs_Handle s) hTargetProcess of
          Inl e \<Rightarrow> (Inl e, s)
        | Inr NativeTarget \<Rightarrow> (case LdkDuplicateProcessHandle Allocated hSource dwDesiredAccess dwOptions s of
            (Answered h, s1) \<Rightarrow> (Inr h, s1)
          | (Failed e, s1) \<Rightarrow> (Inl e, s1)
          | (NotHandled, s1) \<Rightarrow>
              (case ZwDuplicate NativeSource hSource NativeTarget of Inl e \<Rightarrow> Inl (Nt e) | Inr h \<Rightarrow> Inr h, s1))))"

section \<open>The end of the component\<close>

text \<open>All handles are taken off the list at once; \<open>hs\<close> is the list's order.\<close>

primrec release_all :: "process_handle list \<Rightarrow> handle_sys \<Rightarrow> handle_sys" where
  "release_all [] s = s"
| "release_all (ph # phs) s =
     release_all phs (case WaitObject ph of None \<Rightarrow> s | Some p \<Rightarrow> LdkpReleaseWaitObjectHandleReference p s)"

definition LdkpTerminateProcessHandles :: "addr list \<Rightarrow> handle_sys \<Rightarrow> handle_sys" where
  "LdkpTerminateProcessHandles hs s = release_all (map (\<lambda>h. the (hs_Handle s h)) hs) (s\<lparr>hs_Handle := Map.empty\<rparr>)"

section \<open>Calls are runs of the machine\<close>

definition at_pc :: "tid \<Rightarrow> handle_pc \<Rightarrow> handle_sys \<Rightarrow> handle_sys" where
  "at_pc k c s = s\<lparr>hpc := (hpc s)(k := c)\<rparr>"

lemma at_pc_simps [simp]:
  "hs_Object (at_pc k c s) = hs_Object s" "hs_Names (at_pc k c s) = hs_Names s" "hs_Handle (at_pc k c s) = hs_Handle s"
  "hpc (at_pc k c s) k = c"
  by (simp_all add: at_pc_def)

lemma at_pc_idle: "hpc s k = c \<Longrightarrow> at_pc k c s = s"
  by (simp add: at_pc_def fun_upd_idem)

lemma find_at_pc [simp]: "LdkpFindNamedWaitObjectLocked (at_pc k c s) n = LdkpFindNamedWaitObjectLocked s n"
  by (simp add: LdkpFindNamedWaitObjectLocked_def)

lemma at_pc_update [simp]:
  "(at_pc k c s)\<lparr>hs_Object := ob\<rparr> = at_pc k c (s\<lparr>hs_Object := ob\<rparr>)" "(at_pc k c s)\<lparr>hs_Names := ns\<rparr> = at_pc k c (s\<lparr>hs_Names := ns\<rparr>)"
  "(at_pc k c s)\<lparr>hs_Handle := hs\<rparr> = at_pc k c (s\<lparr>hs_Handle := hs\<rparr>)" "(at_pc k c s)\<lparr>hpc := (hpc (at_pc k c s))(k := c')\<rparr> = at_pc k c' s"
  by (simp_all add: at_pc_def)

lemma at_pc_fold: "s\<lparr>hpc := (hpc s)(k := c)\<rparr> = at_pc k c s"
  by (simp add: at_pc_def)

text \<open>Memory that was got is not in use.\<close>

definition free_slot :: "addr option \<Rightarrow> (addr \<Rightarrow> 'a option) \<Rightarrow> bool" where
  "free_slot Allocated f \<longleftrightarrow> (case Allocated of None \<Rightarrow> True | Some p \<Rightarrow> f p = None)"

lemma free_slot_simps [simp]: "free_slot None f" "free_slot (Some p) f \<longleftrightarrow> f p = None"
  by (simp_all add: free_slot_def)

text \<open>One step of a thread, as a step from one program point to the next.\<close>

lemmas move = converse_rtranclp_into_rtranclp [of handle_step]

lemma dereference_run:
  assumes "hs_Object s p = Some x"
  shows "handle_step\<^sup>*\<^sup>* (at_pc k (HDeref p nx) s) (at_pc k (go_on nx) (dereference_object p s))"
proof (cases "ReferenceCount (LdkpDereferenceWaitObject x) = 0")
  case True
  have "handle_step (at_pc k (HDeref p nx) s)
      (at_pc k (HFree p nx) (s\<lparr>hs_Object := (hs_Object s)(p \<mapsto> LdkpDereferenceWaitObject x)\<rparr>))"
    using handle_step.dereference [of "at_pc k (HDeref p nx) s" k p nx x] assms True by (simp add: at_pc_def)
  moreover have "handle_step (at_pc k (HFree p nx) (s\<lparr>hs_Object := (hs_Object s)(p \<mapsto> LdkpDereferenceWaitObject x)\<rparr>))
      (at_pc k (go_on nx) (s\<lparr>hs_Object := (hs_Object s)(p := None)\<rparr>))"
    using handle_step.free [of "at_pc k (HFree p nx) (s\<lparr>hs_Object := (hs_Object s)(p \<mapsto> LdkpDereferenceWaitObject x)\<rparr>)" k p nx]
    by (simp add: at_pc_def)
  ultimately show ?thesis using True assms by (simp add: dereference_object_def)
next
  case False
  have "handle_step (at_pc k (HDeref p nx) s)
      (at_pc k (go_on nx) (s\<lparr>hs_Object := (hs_Object s)(p \<mapsto> LdkpDereferenceWaitObject x)\<rparr>))"
    using handle_step.dereference [of "at_pc k (HDeref p nx) s" k p nx x] assms False by (simp add: at_pc_def)
  then show ?thesis using False assms by (simp add: dereference_object_def)
qed

lemma release_run:
  assumes "hs_Object s p = Some x"
  shows "handle_step\<^sup>*\<^sup>* (at_pc k (HRelease p nx) s) (at_pc k (go_on nx) (LdkpReleaseWaitObjectHandleReference p s))"
proof -
  let ?x = "release_handle_count x" let ?s = "s\<lparr>hs_Object := (hs_Object s)(p \<mapsto> ?x)\<rparr>"
  let ?r = "remove_name p ?x ?s"
  have rel: "handle_step (at_pc k (HRelease p nx) s) (at_pc k (if HandleCount ?x = 0 then HUnname p nx else HDeref p nx) ?s)"
    using handle_step.release [of "at_pc k (HRelease p nx) s" k p nx x] assms by (simp add: at_pc_def)
  show ?thesis
  proof (cases "HandleCount ?x = 0")
    case True
    have "handle_step (at_pc k (HUnname p nx) ?s) (at_pc k (HDeref p nx) ?r)"
      using handle_step.unname [of "at_pc k (HUnname p nx) ?s" k p nx ?x]
      by (cases "Named x") (simp_all add: at_pc_def remove_name_def)
    moreover have "handle_step\<^sup>*\<^sup>* (at_pc k (HDeref p nx) ?r) (at_pc k (go_on nx) (dereference_object p ?r))"
      by (rule dereference_run [of _ _ "if Named ?x then ?x\<lparr>Named := False\<rparr> else ?x"]) (simp add: remove_name_def)
    ultimately show ?thesis using rel True assms
      by (auto simp: LdkpReleaseWaitObjectHandleReference_def Let_def intro: move)
  next
    case False
    have "handle_step\<^sup>*\<^sup>* (at_pc k (HDeref p nx) ?s) (at_pc k (go_on nx) (dereference_object p ?s))"
      by (rule dereference_run [of _ _ ?x]) simp
    then show ?thesis using rel False assms
      by (auto simp: LdkpReleaseWaitObjectHandleReference_def Let_def intro: move)
  qed
qed

lemma create_or_release_run:
  assumes "hs_Object s p = Some x" and "free_slot Allocated (hs_Handle s)"
  shows "handle_step\<^sup>*\<^sup>* (at_pc k (HHave p a) s) (at_pc k HIdle (snd (create_or_release Allocated a p s)))"
proof (cases Allocated)
  case None
  have "handle_step (at_pc k (HHave p a) s) (at_pc k (HRelease p None) s)"
    using handle_step.not_created [of "at_pc k (HHave p a) s" k p a] by (simp add: at_pc_def)
  from move [OF this release_run [OF assms(1)]] show ?thesis using None
    by (simp add: create_or_release_def LdkpCreateProcessHandle_def go_on_def)
next
  case (Some h)
  have "handle_step (at_pc k (HHave p a) s)
      (at_pc k HIdle (s\<lparr>hs_Handle := (hs_Handle s)(h \<mapsto> \<lparr>GrantedAccess = a, WaitObject = Some p\<rparr>)\<rparr>))"
    using handle_step.created [of "at_pc k (HHave p a) s" k p a h] assms(2) Some by (simp add: at_pc_def)
  then show ?thesis using Some by (auto simp: create_or_release_def LdkpCreateProcessHandle_def)
qed

lemma open_run:
  assumes inv: "handle_inv s" and p: "LdkpFindNamedWaitObjectLocked s n = Some p" and alloc: "free_slot Allocated (hs_Handle s)"
  shows "handle_step\<^sup>*\<^sup>* (at_pc k HIdle s) (at_pc k HIdle (snd (create_or_release Allocated a p (reference_by_name p s))))"
proof -
  from found_name [OF inv p] obtain x where x: "hs_Object s p = Some x" by blast
  have "handle_step (at_pc k HIdle s) (at_pc k (HHave p a) (reference_by_name p s))"
    using handle_step.opened [of "at_pc k HIdle s" k n p x a] p x by (simp add: at_pc_def reference_by_name_def LdkpFindNamedWaitObjectLocked_def)
  from move [OF this create_or_release_run [of _ _ "LdkpReferenceWaitObjectHandle x"]] show ?thesis
    using alloc x by (simp add: reference_by_name_def)
qed

lemma create_run:
  assumes inv: "handle_inv s" and alloc: "free_slot Allocated (hs_Handle s)"
    and mem: "free_slot Memory (hs_Object s)" and own: "InitialOwner = None \<or> InitialOwner = Some k"
  shows "handle_step\<^sup>*\<^sup>* (at_pc k HIdle s) (at_pc k HIdle (snd (LdkCreateMutantHandle Memory NameMemory Allocated a InitialOwner n s)))"
proof (cases "if n = [] then None else LdkpFindNamedWaitObjectLocked s n")
  case (Some p)
  then have "LdkpFindNamedWaitObjectLocked s n = Some p" by (simp split: if_splits)
  from open_run [OF inv this alloc] Some show ?thesis by (simp add: LdkCreateMutantHandle_def split_def Let_def)
next
  case None
  show ?thesis
  proof (cases Memory)
    case None
    with \<open>(if n = [] then None else LdkpFindNamedWaitObjectLocked s n) = None\<close>
    show ?thesis by (simp add: LdkCreateMutantHandle_def)
  next
    case (Some p)
    have p: "hs_Object s p = None" using mem Some by simp
    let ?s = "\<lambda>x. s\<lparr>hs_Object := (hs_Object s)(p \<mapsto> x)\<rparr>" let ?new = "new_wait_object n InitialOwner"
    have no_mem: ?thesis if "n \<noteq> []" "\<not> NameMemory"
    proof -
      have "handle_step (at_pc k HIdle s) (at_pc k (HDeref p None) (?s (new_wait_object [] None)))"
        using handle_step.no_name_memory [of "at_pc k HIdle s" k p] p by (simp add: at_pc_def)
      from move [OF this dereference_run [of _ _ "new_wait_object [] None"]] show ?thesis
        using None Some that by (simp add: LdkCreateMutantHandle_def go_on_def)
    qed
    have made: "handle_step (at_pc k HIdle s) (at_pc k (if n = [] then HHave p a else HNew p a) (?s ?new))"
      using handle_step.new [of "at_pc k HIdle s" k p InitialOwner n a] p own by (simp add: at_pc_def)
    have unnamed: ?thesis if "n = []"
      using move [OF made [unfolded if_P [OF that]] create_or_release_run [of _ _ ?new]] alloc None Some that
      by (simp add: LdkCreateMutantHandle_def split_def Let_def)
    have named: ?thesis if n: "n \<noteq> []" "NameMemory"
    proof -
      have same: "LdkpFindNamedWaitObjectLocked (?s ?new) n = LdkpFindNamedWaitObjectLocked s n"
        using named_object [OF inv, of p] p unfolding LdkpFindNamedWaitObjectLocked_def by (intro find_cong) auto
      let ?p = "(?s (?new\<lparr>Named := True\<rparr>))\<lparr>hs_Names := hs_Names s @ [p]\<rparr>"
      have "handle_step (at_pc k (HNew p a) (?s ?new)) (at_pc k (HHave p a) ?p)"
        using handle_step.publish [of "at_pc k (HNew p a) (?s ?new)" k p a ?new] None n same
        by (simp add: at_pc_def LdkpFindNamedWaitObjectLocked_def new_wait_object_def)
      from move [OF this create_or_release_run [of _ _ "?new\<lparr>Named := True\<rparr>"]]
      have "handle_step\<^sup>*\<^sup>* (at_pc k (HNew p a) (?s ?new)) (at_pc k HIdle (snd (create_or_release Allocated a p ?p)))"
        using alloc by simp
      then show ?thesis using move [OF made] None Some n same
        by (simp add: LdkCreateMutantHandle_def publish_or_existing_def split_def Let_def)
    qed
    show ?thesis using no_mem unnamed named by blast
  qed
qed

lemma lookup_linked:
  "LdkpLookupProcessHandleLocked hs Handle = Some ph \<Longrightarrow> hs (LdkpDecodeProcessHandle Handle) = Some ph"
  by (simp add: LdkpLookupProcessHandleLocked_def split: if_splits)

lemma release_one:
  assumes inv: "handle_inv s" and h: "hs_Handle s h = Some ph"
  shows "handle_step\<^sup>*\<^sup>* (at_pc k HIdle s) (at_pc k HIdle (case WaitObject ph of
      None \<Rightarrow> s\<lparr>hs_Handle := (hs_Handle s)(h := None)\<rparr>
    | Some p \<Rightarrow> LdkpReleaseWaitObjectHandleReference p (s\<lparr>hs_Handle := (hs_Handle s)(h := None)\<rparr>)))"
proof (cases "WaitObject ph")
  case None
  then show ?thesis using handle_step.close_process [of "at_pc k HIdle s" h ph] h by auto
next
  case (Some p)
  then obtain x where x: "hs_Object s p = Some x" using referred_object(3) [OF inv, of p h] h by auto
  have "handle_step (at_pc k HIdle s) (at_pc k (HRelease p None) (s\<lparr>hs_Handle := (hs_Handle s)(h := None)\<rparr>))"
    using handle_step.close [of "at_pc k HIdle s" k h ph p] h Some by (simp add: at_pc_def)
  from move [OF this release_run [of _ _ x]] show ?thesis using x Some by (simp add: go_on_def)
qed

lemma close_run:
  assumes "handle_inv s"
  shows "handle_step\<^sup>*\<^sup>* (at_pc k HIdle s) (at_pc k HIdle (snd (LdkCloseProcessHandle Handle s)))"
proof (cases "LdkpIsCurrentProcessPseudoHandle Handle \<or> \<not> LdkpIsTaggedProcessHandle Handle")
  case True
  then show ?thesis by (auto simp: LdkCloseProcessHandle_def)
next
  case False
  show ?thesis
  proof (cases "LdkpLookupProcessHandleLocked (hs_Handle s) Handle")
    case None
    then show ?thesis using False by (simp add: LdkCloseProcessHandle_def)
  next
    case (Some ph)
    from release_one [OF assms lookup_linked [OF Some], of k] Some False
    show ?thesis by (simp add: LdkCloseProcessHandle_def Let_def)
  qed
qed

lemma release_pc [simp]: "hpc (dereference_object p s) = hpc s" "hpc (remove_name p x s) = hpc s"
  "hpc (LdkpReleaseWaitObjectHandleReference p s) = hpc s"
  by (simp_all add: LdkpReleaseWaitObjectHandleReference_def dereference_object_def remove_name_def Let_def split: option.split)

lemma create_or_release_pc [simp]: "hpc (snd (create_or_release Allocated a p s)) = hpc s" "hpc (reference_by_name p s) = hpc s"
  by (simp_all add: create_or_release_def LdkpCreateProcessHandle_def reference_by_name_def split: option.split)

lemma create_pc [simp]:
  "hpc (snd (LdkCreateMutantHandle Memory NameMemory Allocated a InitialOwner n s)) = hpc s"
  by (simp add: LdkCreateMutantHandle_def publish_or_existing_def split_def Let_def split: option.split)

lemma release_mutex_pc [simp]: "hpc (snd (LdkReleaseMutantHandle KeRelease Handle s)) = hpc s"
  by (simp add: LdkReleaseMutantHandle_def split_def Let_def split: option.split)

lemma close_pc [simp]: "hpc (snd (LdkCloseProcessHandle Handle s)) = hpc s"
  by (simp add: LdkCloseProcessHandle_def Let_def split: option.split)

lemma run_inv: "handle_step\<^sup>*\<^sup>* s d \<Longrightarrow> handle_inv s \<Longrightarrow> handle_inv d"
  by (induction rule: rtranclp_induct) (auto intro: step_handle_inv)

text \<open>The first part of a duplication, until the handle is made or the reference is given back.\<close>

lemma duplicate_handle_run:
  assumes inv: "handle_inv s" and h: "hs_Handle s h = Some ph" and alloc: "free_slot Allocated (hs_Handle s)"
    and p: "WaitObject ph = Some p"
  shows "handle_step\<^sup>*\<^sup>* (at_pc k HIdle s) (at_pc k HIdle (snd (create_or_release Allocated a p
      (s\<lparr>hs_Object := (hs_Object s)(p \<mapsto> LdkpReferenceWaitObject (the (hs_Object s p)))\<rparr>))))"
proof -
  from referred_object(3) [OF inv, of p h] h p obtain x where x: "hs_Object s p = Some x" by auto
  let ?s = "s\<lparr>hs_Object := (hs_Object s)(p \<mapsto> LdkpReferenceWaitObject (the (hs_Object s p)))\<rparr>"
  have ref: "handle_step (at_pc k HIdle s) (at_pc k (HDup p a) ?s)"
    using handle_step.duplicate [of "at_pc k HIdle s" k h ph p x a] h p x by (simp add: at_pc_def)
  show ?thesis
  proof (cases Allocated)
    case None
    have "handle_step (at_pc k (HDup p a) ?s) (at_pc k (HRelease p None) ?s)"
      using handle_step.not_duplicated [of "at_pc k (HDup p a) ?s" k p a] by (simp add: at_pc_def)
    from move [OF ref move [OF this release_run [of _ _ "LdkpReferenceWaitObject x"]]] show ?thesis
      using None x by (simp add: create_or_release_def LdkpCreateProcessHandle_def go_on_def)
  next
    case (Some h')
    have "handle_step (at_pc k (HDup p a) ?s)
        (at_pc k HIdle (?s\<lparr>hs_Handle := (hs_Handle s)(h' \<mapsto> \<lparr>GrantedAccess = a, WaitObject = Some p\<rparr>)\<rparr>))"
      using handle_step.duplicated [of "at_pc k (HDup p a) ?s" k p a h'] alloc Some by (simp add: at_pc_def)
    then show ?thesis using ref Some by (auto simp: create_or_release_def LdkpCreateProcessHandle_def intro: move)
  qed
qed

lemma process_handle_run:
  assumes "free_slot Allocated (hs_Handle s)"
  shows "handle_step\<^sup>*\<^sup>* s (snd (LdkpCreateProcessHandle Allocated a None s))"
  using assms handle_step.create_process [of s _ a] by (auto simp: LdkpCreateProcessHandle_def split: option.split)

lemma duplicate_run:
  assumes inv: "handle_inv s" and idle: "hpc s k = HIdle" and alloc: "free_slot Allocated (hs_Handle s)"
  shows "handle_step\<^sup>*\<^sup>* s (snd (LdkDuplicateProcessHandle Allocated SourceHandle a Options s))"
proof -
  note id = at_pc_idle [OF idle]
  let ?a = "\<lambda>g. if Options AND DUPLICATE_SAME_ACCESS \<noteq> 0 then g else a"
  consider (pseudo) "LdkpIsCurrentProcessPseudoHandle SourceHandle"
    | (none) "\<not> LdkpIsCurrentProcessPseudoHandle SourceHandle"
        "\<not> LdkpIsTaggedProcessHandle SourceHandle \<or> LdkpLookupProcessHandleLocked (hs_Handle s) SourceHandle = None"
    | (found) ph where "\<not> LdkpIsCurrentProcessPseudoHandle SourceHandle" "LdkpIsTaggedProcessHandle SourceHandle"
        "LdkpLookupProcessHandleLocked (hs_Handle s) SourceHandle = Some ph" by blast
  then show ?thesis
  proof cases
    case pseudo
    then have "snd (LdkDuplicateProcessHandle Allocated SourceHandle a Options s) =
        snd (LdkpCreateProcessHandle Allocated (?a MAXIMUM_ALLOWED) None s)"
      by (cases Allocated) (simp_all add: LdkDuplicateProcessHandle_def LdkpCreateProcessHandle_def Let_def)
    then show ?thesis using process_handle_run [OF alloc] by simp
  next
    case none
    then show ?thesis by (auto simp: LdkDuplicateProcessHandle_def Let_def)
  next
    case found
    define s2 where "s2 = (case WaitObject ph of
        None \<Rightarrow> snd (LdkpCreateProcessHandle Allocated (?a (GrantedAccess ph)) None s)
      | Some p \<Rightarrow> snd (create_or_release Allocated (?a (GrantedAccess ph)) p
          (s\<lparr>hs_Object := (hs_Object s)(p \<mapsto> LdkpReferenceWaitObject (the (hs_Object s p)))\<rparr>)))"
    have pc: "hpc s2 = hpc s"
      by (simp add: s2_def LdkpCreateProcessHandle_def create_or_release_def split: option.split)
    then have id2: "at_pc k HIdle s2 = s2" using at_pc_idle [of s2 k HIdle] idle by simp
    have run: "handle_step\<^sup>*\<^sup>* s s2"
    proof (cases "WaitObject ph")
      case None
      then show ?thesis using process_handle_run [OF alloc] by (simp add: s2_def)
    next
      case (Some p)
      from duplicate_handle_run [OF inv lookup_linked [OF found(3)] alloc Some, where k = k and a = "?a (GrantedAccess ph)"]
      show ?thesis using Some id id2 by (simp add: s2_def)
    qed
    have "handle_step\<^sup>*\<^sup>* s2 (snd (LdkCloseProcessHandle SourceHandle s2))"
      using close_run [OF run_inv [OF run inv], of k SourceHandle] id2 pc idle
      by (simp add: at_pc_idle)
    with run have close: "handle_step\<^sup>*\<^sup>* s (snd (LdkCloseProcessHandle SourceHandle s2))" by simp
    have "snd (LdkDuplicateProcessHandle Allocated SourceHandle a Options s) =
        (if Allocated \<noteq> None \<and> Options AND DUPLICATE_CLOSE_SOURCE \<noteq> 0 then snd (LdkCloseProcessHandle SourceHandle s2) else s2)"
      using found by (auto simp: LdkDuplicateProcessHandle_def s2_def LdkpCreateProcessHandle_def create_or_release_def Let_def
        split: option.splits)
    then show ?thesis using run close by simp
  qed
qed

text \<open>Waiting for the mutex of a handle or releasing it: a reference, the kernel's operation, and the reference
  given back.\<close>

lemma use_run:
  assumes inv: "handle_inv s" and h: "hs_Handle s h = Some ph" "WaitObject ph = Some p" "hs_Object s p = Some x"
  shows "handle_step\<^sup>*\<^sup>* (at_pc k HIdle s) (at_pc k HIdle (dereference_object p
      (s\<lparr>hs_Object := (hs_Object s)(p \<mapsto> (LdkpReferenceWaitObject x)\<lparr>Owner := w\<rparr>)\<rparr>)))"
proof -
  let ?s = "\<lambda>x. s\<lparr>hs_Object := (hs_Object s)(p \<mapsto> x)\<rparr>" let ?x = "LdkpReferenceWaitObject x"
  let ?y = "?x\<lparr>Owner := w\<rparr>"
  have ref: "handle_step (at_pc k HIdle s) (at_pc k (HUse p) (?s ?x))"
    using handle_step.reference [of "at_pc k HIdle s" k h ph p x] h by (simp add: at_pc_def)
  have "handle_step\<^sup>*\<^sup>* (at_pc k (HUse p) (?s ?x)) (at_pc k (HUse p) (?s ?y))"
    using handle_step.kernel [of "at_pc k (HUse p) (?s ?x)" k p ?x w] by simp
  moreover have "handle_step (at_pc k (HUse p) (?s ?y)) (at_pc k (HDeref p None) (?s ?y))"
    using handle_step.used [of "at_pc k (HUse p) (?s ?y)" k p] by (simp add: at_pc_def)
  moreover have "handle_step\<^sup>*\<^sup>* (at_pc k (HDeref p None) (?s ?y)) (at_pc k HIdle (dereference_object p (?s ?y)))"
    using dereference_run [of "?s ?y" p ?y k None] by (simp add: go_on_def)
  ultimately show ?thesis using ref by (meson converse_rtranclp_into_rtranclp rtranclp_trans)
qed

lemma release_mutex_run:
  assumes inv: "handle_inv s"
  shows "handle_step\<^sup>*\<^sup>* (at_pc k HIdle s) (at_pc k HIdle (snd (LdkReleaseMutantHandle KeRelease Handle s)))"
proof (cases "\<exists>ph p. LdkpIsTaggedProcessHandle Handle \<and> LdkpLookupProcessHandleLocked (hs_Handle s) Handle = Some ph \<and>
    WaitObject ph = Some p \<and> LdkpHasAccess (GrantedAccess ph) MUTEX_MODIFY_STATE")
  case False
  then show ?thesis by (auto simp: LdkReleaseMutantHandle_def split: option.split)
next
  case True
  then obtain ph p where h: "LdkpIsTaggedProcessHandle Handle" "LdkpLookupProcessHandleLocked (hs_Handle s) Handle = Some ph"
      "WaitObject ph = Some p" "LdkpHasAccess (GrantedAccess ph) MUTEX_MODIFY_STATE" by blast
  from referred_object(3) [OF inv, of p "LdkpDecodeProcessHandle Handle"] lookup_linked [OF h(2)] h(3)
  obtain x where x: "hs_Object s p = Some x" by auto
  from use_run [OF inv lookup_linked [OF h(2)] h(3) x, of k "snd (KeRelease (Owner (LdkpReferenceWaitObject x)))"] show ?thesis
    using h x by (simp add: LdkReleaseMutantHandle_def split_def Let_def)
qed

text \<open>C39: Each of the six calls that create a mutex, open one, duplicate or close a handle, release a mutex or
  create a handle of the process is, when nobody interferes with it, a run of the machine, on every path, with
  the memory there or not. The calls that wait on a handle are not among them.\<close>

theorem handle_calls_refine:
  assumes "handle_reach s" and "hpc s k = HIdle"
    and "free_slot Allocated (hs_Handle s)" and "free_slot Memory (hs_Object s)"
    and "InitialOwner = None \<or> InitialOwner = Some k"
  shows "handle_step\<^sup>*\<^sup>* s (snd (LdkCreateMutantHandle Memory NameMemory Allocated Access InitialOwner n s))
    \<and> handle_step\<^sup>*\<^sup>* s (snd (LdkOpenMutantHandle Allocated Access n s))
    \<and> handle_step\<^sup>*\<^sup>* s (snd (LdkDuplicateProcessHandle Allocated Handle Access Options s))
    \<and> handle_step\<^sup>*\<^sup>* s (snd (LdkCloseProcessHandle Handle s))
    \<and> handle_step\<^sup>*\<^sup>* s (snd (LdkReleaseMutantHandle KeRelease Handle s))
    \<and> handle_step\<^sup>*\<^sup>* s (snd (LdkCreateCurrentProcessHandle Allocated Access s))"
proof (intro conjI)
  note inv = reach_handle_inv [OF assms(1)]
  have idle: "at_pc k HIdle d = d" if "hpc d = hpc s" for d using assms(2) that by (simp add: at_pc_idle)
  note id = idle [OF refl]
  show "handle_step\<^sup>*\<^sup>* s (snd (LdkCreateMutantHandle Memory NameMemory Allocated Access InitialOwner n s))"
    using create_run [OF inv assms(3) assms(4,5)] id idle [OF create_pc] by simp
  show "handle_step\<^sup>*\<^sup>* s (snd (LdkOpenMutantHandle Allocated Access n s))"
    using open_run [OF inv _ assms(3), where n = n and k = k and a = Access] id
    by (auto simp: LdkOpenMutantHandle_def idle split: option.split)
  show "handle_step\<^sup>*\<^sup>* s (snd (LdkDuplicateProcessHandle Allocated Handle Access Options s))"
    by (rule duplicate_run [OF inv assms(2) assms(3)])
  show "handle_step\<^sup>*\<^sup>* s (snd (LdkCloseProcessHandle Handle s))"
    using close_run [OF inv, of k Handle] id idle [OF close_pc] by simp
  show "handle_step\<^sup>*\<^sup>* s (snd (LdkReleaseMutantHandle KeRelease Handle s))"
    using release_mutex_run [OF inv, of k KeRelease Handle] id by (simp add: idle)
  show "handle_step\<^sup>*\<^sup>* s (snd (LdkCreateCurrentProcessHandle Allocated Access s))"
    unfolding LdkCreateCurrentProcessHandle_def by (rule process_handle_run [OF assms(3)])
qed

section \<open>A duplicate and the name of its mutex\<close>

lemma encoded_handle:
  "even h \<Longrightarrow> LdkpIsTaggedProcessHandle (LdkpEncodeProcessHandle h) \<and>
     LdkpDecodeProcessHandle (LdkpEncodeProcessHandle h) = h"
  by (auto simp: LdkpIsTaggedProcessHandle_def LdkpEncodeProcessHandle_def LdkpDecodeProcessHandle_def
      even_iff_mod_2_eq_zero mod_Suc)

text \<open>The last count of an object goes: it leaves the table of names and stays while it is referred to.\<close>

lemma release_last_count:
  assumes "hs_Object s p = Some x" and "Named x" and "HandleCount x = 1" and "ReferenceCount x \<noteq> 1"
  shows "LdkpReleaseWaitObjectHandleReference p s = s\<lparr>hs_Names := remove1 p (hs_Names s),
    hs_Object := (hs_Object s)(p \<mapsto> x\<lparr>HandleCount := 0, Named := False, ReferenceCount := ReferenceCount x - 1\<rparr>)\<rparr>"
  using assms by (simp add: LdkpReleaseWaitObjectHandleReference_def release_handle_count_def remove_name_def
      dereference_object_def LdkpDereferenceWaitObject_def)

lemma name_gone:
  assumes inv: "handle_inv s" and x: "hs_Object s p = Some x" "Named x"
    and names: "hs_Names d = remove1 p (hs_Names s)" and others: "\<And>q. q \<noteq> p \<Longrightarrow> hs_Object d q = hs_Object s q"
  shows "LdkpFindNamedWaitObjectLocked d (Name x) = None"
proof -
  have dist: "distinct (hs_Names s)" and inj: "inj_on (\<lambda>p. Name (the (hs_Object s p))) (set (hs_Names s))"
    using handle_invD(4) [OF inv] by (simp_all add: names_ok_def distinct_map)
  have p: "p \<in> set (hs_Names s)" using handle_invD(3) [OF inv, of p] x by (simp add: object_ok_def)
  have "Name (the (hs_Object d q)) \<noteq> Name x" if "q \<in> set (hs_Names d)" for q
  proof -
    have q: "q \<in> set (hs_Names s)" "q \<noteq> p" using that dist names by auto
    then show ?thesis using inj_onD [OF inj _ q(1) p] others x(1) by auto
  qed
  then show ?thesis by (simp add: LdkpFindNamedWaitObjectLocked_def find_None_iff)
qed

text \<open>C38: A duplicate takes no handle count but gives one back when it is closed. Let a named mutex have one
  handle, duplicate that handle and then close either of the two: both calls succeed, the mutex was found by its
  name before the close, the other handle is still open and still refers to the mutex, which is still allocated,
  and the search for its name finds nothing any more.\<close>

theorem duplicate_loses_name:
  assumes "handle_reach s" and "\<not> LdkpIsCurrentProcessPseudoHandle Handle"
    and "LdkpLookupProcessHandleLocked (hs_Handle s) Handle = Some ph" and "WaitObject ph = Some p"
    and "hs_Object s p = Some x" and "Named x" and "HandleCount x = 1"
    and "even h" and "\<not> LdkpIsCurrentProcessPseudoHandle (LdkpEncodeProcessHandle h)" and "hs_Handle s h = None"
    and "Options AND DUPLICATE_CLOSE_SOURCE = 0"
    and "LdkDuplicateProcessHandle (Some h) Handle DesiredAccess Options s = (r1, s1)"
    and "{Closed, Other} = {Handle, LdkpEncodeProcessHandle h}"
    and "LdkCloseProcessHandle Closed s1 = (r2, s2)"
  shows "r1 = Answered (LdkpEncodeProcessHandle h) \<and> LdkpFindNamedWaitObjectLocked s1 (Name x) = Some p \<and>
    r2 = Answered () \<and> LdkpFindNamedWaitObjectLocked s2 (Name x) = None \<and>
    (\<exists>ph2. LdkpLookupProcessHandleLocked (hs_Handle s2) Other = Some ph2 \<and> WaitObject ph2 = Some p) \<and>
    (\<exists>x2. hs_Object s2 p = Some x2 \<and> 1 \<le> ReferenceCount x2)"
proof -
  note inv = reach_handle_inv [OF assms(1)]
  let ?d = "LdkpDecodeProcessHandle Handle" and ?D = "LdkpEncodeProcessHandle h"
  let ?a = "if Options AND DUPLICATE_SAME_ACCESS \<noteq> 0 then GrantedAccess ph else DesiredAccess"
  have tag: "LdkpIsTaggedProcessHandle Handle" and ph: "hs_Handle s ?d = Some ph"
    using assms(3) by (auto simp: LdkpLookupProcessHandleLocked_def split: if_splits)
  have ne: "?d \<noteq> h" using ph assms(10) by auto
  note enc = encoded_handle [OF assms(8)]
  have s1: "s1 = s\<lparr>hs_Object := (hs_Object s)(p \<mapsto> LdkpReferenceWaitObject x),
      hs_Handle := (hs_Handle s)(h \<mapsto> \<lparr>GrantedAccess = ?a, WaitObject = Some p\<rparr>)\<rparr>" and r1: "r1 = Answered ?D"
    using assms(2-5,11,12) tag by (auto simp: LdkDuplicateProcessHandle_def LdkpCreateProcessHandle_def Let_def)
  obtain y where "hs_Object s p = Some y" "1 \<le> ReferenceCount y"
    using referred_object(3) [OF inv, of p ?d] ph assms(4) by auto
  then have ref: "1 \<le> ReferenceCount x" using assms(5) by simp
  have found: "LdkpFindNamedWaitObjectLocked s1 (Name x) = Some p"
  proof -
    have e: "Name (the (hs_Object s1 q)) = Name (the (hs_Object s q))" for q
      using assms(5) by (auto simp: s1 LdkpReferenceWaitObject_def)
    have "LdkpFindNamedWaitObjectLocked s1 (Name x) = LdkpFindNamedWaitObjectLocked s (Name x)"
      unfolding LdkpFindNamedWaitObjectLocked_def e by (simp add: s1)
    then show ?thesis using named_wait_objects [OF assms(1), of "Name x" p] assms(5,6) by auto
  qed
  let ?c = "LdkpDecodeProcessHandle Closed"
  have closed: "Closed = Handle \<and> Other = ?D \<or> Closed = ?D \<and> Other = Handle"
    using assms(13) by (auto simp: doubleton_eq_iff)
  then have c: "\<not> LdkpIsCurrentProcessPseudoHandle Closed" "LdkpIsTaggedProcessHandle Closed"
    "\<exists>q. hs_Handle s1 ?c = Some q \<and> WaitObject q = Some p"
    using assms(2,4,9) tag enc ph ne by (auto simp: s1)
  then obtain q where q: "LdkpLookupProcessHandleLocked (hs_Handle s1) Closed = Some q" "WaitObject q = Some p"
    by (auto simp: LdkpLookupProcessHandleLocked_def)
  let ?s = "s1\<lparr>hs_Handle := (hs_Handle s1)(?c := None)\<rparr>"
  have "LdkpReleaseWaitObjectHandleReference p ?s = ?s\<lparr>hs_Names := remove1 p (hs_Names ?s),
      hs_Object := (hs_Object ?s)(p \<mapsto> (LdkpReferenceWaitObject x)\<lparr>HandleCount := 0, Named := False,
        ReferenceCount := ReferenceCount (LdkpReferenceWaitObject x) - 1\<rparr>)\<rparr>"
    by (rule release_last_count) (use assms(6,7) ref in \<open>simp_all add: s1 LdkpReferenceWaitObject_def\<close>)
  then have s2: "s2 = ?s\<lparr>hs_Names := remove1 p (hs_Names ?s),
      hs_Object := (hs_Object ?s)(p \<mapsto> (LdkpReferenceWaitObject x)\<lparr>HandleCount := 0, Named := False,
        ReferenceCount := ReferenceCount (LdkpReferenceWaitObject x) - 1\<rparr>)\<rparr>" and r2: "r2 = Answered ()"
    using assms(14) c(1,2) q by (auto simp: LdkCloseProcessHandle_def Let_def)
  have "LdkpFindNamedWaitObjectLocked s2 (Name x) = None"
    by (rule name_gone [OF inv assms(5,6)]) (simp_all add: s2 s1)
  moreover have "\<exists>ph2. LdkpLookupProcessHandleLocked (hs_Handle s2) Other = Some ph2 \<and> WaitObject ph2 = Some p"
    using closed ne enc tag ph assms(4) by (auto simp: s2 s1 LdkpLookupProcessHandleLocked_def)
  ultimately show ?thesis using r1 r2 found ref by (simp add: s2 s1 LdkpReferenceWaitObject_def)
qed

section \<open>Ending, waiting and terminating\<close>

lemma release_handles [simp]: "hs_Handle (LdkpReleaseWaitObjectHandleReference p s) = hs_Handle s"
  by (simp add: LdkpReleaseWaitObjectHandleReference_def dereference_object_def remove_name_def Let_def split: option.split)

lemma release_swap:
  "LdkpReleaseWaitObjectHandleReference p (s\<lparr>hs_Handle := m\<rparr>) = (LdkpReleaseWaitObjectHandleReference p s)\<lparr>hs_Handle := m\<rparr>"
  by (simp add: LdkpReleaseWaitObjectHandleReference_def dereference_object_def remove_name_def Let_def split: option.split)

lemma release_all_swap: "release_all phs (s\<lparr>hs_Handle := m\<rparr>) = (release_all phs s)\<lparr>hs_Handle := m\<rparr>"
  by (induction phs arbitrary: s) (simp_all add: release_swap split: option.split)

lemma release_all_pc [simp]: "hpc (release_all phs s) = hpc s"
  by (induction phs arbitrary: s) (simp_all split: option.split)

lemma handles_ended_run:
  assumes "handle_inv s" and "hpc s k = HIdle" and "distinct hs" and "set hs \<subseteq> dom (hs_Handle s)"
  shows "handle_step\<^sup>*\<^sup>* s ((release_all (map (\<lambda>h. the (hs_Handle s h)) hs) s)\<lparr>hs_Handle := hs_Handle s |` (- set hs)\<rparr>)"
  using assms
proof (induction hs arbitrary: s)
  case Nil
  then show ?case by simp
next
  case (Cons h hs)
  then obtain ph where ph: "hs_Handle s h = Some ph" by auto
  define s1 where "s1 = (case WaitObject ph of None \<Rightarrow> s | Some p \<Rightarrow> LdkpReleaseWaitObjectHandleReference p s)"
  let ?s = "s1\<lparr>hs_Handle := (hs_Handle s)(h := None)\<rparr>"
  have s1: "hs_Handle s1 = hs_Handle s" "hpc s1 = hpc s" by (simp_all add: s1_def split: option.split)
  have run: "handle_step\<^sup>*\<^sup>* s ?s"
    using release_one [OF Cons.prems(1) ph, of k] Cons.prems(2) s1
    by (cases "WaitObject ph") (simp_all add: s1_def at_pc_idle release_swap)
  have same: "map (\<lambda>h'. the (hs_Handle ?s h')) hs = map (\<lambda>h'. the (hs_Handle s h')) hs"
    using Cons.prems(3) by auto
  have "handle_step\<^sup>*\<^sup>* ?s ((release_all (map (\<lambda>h. the (hs_Handle ?s h)) hs) ?s)\<lparr>hs_Handle := hs_Handle ?s |` (- set hs)\<rparr>)"
    by (rule Cons.IH) (use Cons.prems run_inv [OF run] s1 in auto)
  moreover have "hs_Handle ?s |` (- set hs) = hs_Handle s |` (- set (h # hs))"
    by (auto simp: restrict_map_def)
  ultimately have "handle_step\<^sup>*\<^sup>* ?s ((release_all (map (\<lambda>h. the (hs_Handle s h)) hs) s1)\<lparr>hs_Handle := hs_Handle s |` (- set (h # hs))\<rparr>)"
    unfolding same by (simp add: release_all_swap)
  with run show ?case using ph by (simp add: s1_def)
qed

text \<open>C40: When no call is under way, the end of the component gives every handle back: afterwards there is no
  handle, no object and no name, whatever handles were opened, duplicated and closed before.\<close>

theorem terminate_frees_wait_objects:
  assumes "handle_reach s" and "\<forall>k. hpc s k = HIdle" and "distinct hs" and "set hs = dom (hs_Handle s)"
  shows "hs_Object (LdkpTerminateProcessHandles hs s) = Map.empty \<and> hs_Names (LdkpTerminateProcessHandles hs s) = [] \<and>
    hs_Handle (LdkpTerminateProcessHandles hs s) = Map.empty"
proof -
  note inv = reach_handle_inv [OF assms(1)]
  let ?d = "LdkpTerminateProcessHandles hs s"
  have "hs_Handle s |` (- set hs) = Map.empty" using assms(4) by (auto simp: restrict_map_def)
  then have "handle_step\<^sup>*\<^sup>* s ?d" using handles_ended_run [OF inv _ assms(3)] assms(2,4)
    by (simp add: LdkpTerminateProcessHandles_def release_all_swap)
  then have d: "handle_inv ?d" using inv run_inv by blast
  have h: "hs_Handle ?d = Map.empty" and pc: "hpc ?d k = HIdle" for k
    using assms(2) by (simp_all add: LdkpTerminateProcessHandles_def release_all_swap)
  have "refs ?d p = 0" and "count_at (frees p) (hpc ?d) = 0" for p
    unfolding refs_def by (simp_all add: h pc count_at_none)
  then have o: "hs_Object ?d p = None" for p using handle_invD(3) [OF d, of p] by (auto simp: object_ok_def split: option.splits)
  then have "p \<notin> set (hs_Names ?d)" for p using named_object [OF d, of p] by auto
  then have "hs_Names ?d = []" by (metis list.set_intros(1) neq_Nil_conv)
  then show ?thesis using o h by auto
qed

text \<open>The reference that a wait on a handle takes is exactly given back after the wait: the handles and objects
  are as before, with the wait allowed or refused.\<close>

theorem wait_reference_round_trip:
  assumes "handle_reach s" and "LdkReferenceProcessWaitObject Handle s = (r, s')"
  shows "(case r of Inl _ \<Rightarrow> s' | Inr w \<Rightarrow> LdkDereferenceProcessWaitObject w s') = s \<and>
    (\<forall>p. r = Inr (MutantOf p) \<longrightarrow> (\<exists>x. hs_Object s' p = Some x \<and> 2 \<le> ReferenceCount x))"
proof -
  note inv = reach_handle_inv [OF assms(1)]
  have undo: "dereference_object p (s\<lparr>hs_Object := (hs_Object s)(p \<mapsto> LdkpReferenceWaitObject x)\<rparr>) = s"
    if "hs_Object s p = Some x" "1 \<le> ReferenceCount x" for p x
    using that by (simp add: dereference_object_def LdkpDereferenceWaitObject_def LdkpReferenceWaitObject_def fun_upd_idem)
  have "\<exists>x. hs_Object s p = Some x \<and> 1 \<le> ReferenceCount x"
    if "LdkpLookupProcessHandleLocked (hs_Handle s) Handle = Some ph" "WaitObject ph = Some p" for ph p
    using referred_object(3) [OF inv, of p "LdkpDecodeProcessHandle Handle"] lookup_linked [OF that(1)] that(2) by simp
  then show ?thesis using assms(2) undo
    by (fastforce simp: LdkReferenceProcessWaitObject_def LdkDereferenceProcessWaitObject_def split: if_splits option.splits)
qed

text \<open>A process keeps the first exit code that is not the code of a running process, whatever is set later, and
  its event is set from the first call on.\<close>

theorem first_exit_code:
  assumes "ProcessExitStatus st = STATUS_PENDING" and "\<not> ProcessExitEvent st"
  shows "ProcessExitStatus (fold LdkpSetProcessExitCode cs st) =
      (case dropWhile (\<lambda>c. c = STATUS_PENDING) cs of [] \<Rightarrow> STATUS_PENDING | c # _ \<Rightarrow> c)
    \<and> (ProcessExitEvent (fold LdkpSetProcessExitCode cs st) \<longleftrightarrow> cs \<noteq> [])"
proof -
  have kept: "fold LdkpSetProcessExitCode cs st = st" if "ProcessExitStatus st \<noteq> STATUS_PENDING" for st cs
    using that by (induction cs) (simp_all add: LdkpSetProcessExitCode_def)
  have "ProcessExitStatus (fold LdkpSetProcessExitCode cs st) =
      (case dropWhile (\<lambda>c. c = STATUS_PENDING) cs of [] \<Rightarrow> STATUS_PENDING | c # _ \<Rightarrow> c)"
    if "ProcessExitStatus st = STATUS_PENDING" for st
    using that by (induction cs arbitrary: st) (auto simp: LdkpSetProcessExitCode_def kept)
  moreover have "ProcessExitEvent st \<longrightarrow> ProcessExitEvent (fold LdkpSetProcessExitCode cs st)" for cs st
    by (induction cs arbitrary: st) (auto simp: LdkpSetProcessExitCode_def)
  ultimately show ?thesis using assms
    by (cases cs) (auto simp: LdkpSetProcessExitCode_def)
qed

text \<open>The right to release a mutex is the bit of the right to end a process, and no call asks what a handle is a
  handle of: whoever may release a mutex can end the process with its handle.\<close>

theorem mutex_handle_terminates:
  assumes "hs_Handle s h = Some ph" and "h mod 2 = 0" and "h \<noteq> 2 ^ 64 - 2" and "WaitObject ph = Some p"
    and "LdkpHasAccess (GrantedAccess ph) MUTEX_MODIFY_STATE" and "ProcessExitStatus st = STATUS_PENDING"
  shows "TerminateProcess ZwTerminate (hs_Handle s) (LdkpEncodeProcessHandle h) c st =
    (Inr (), \<lparr>ProcessExitStatus = c, ProcessExitEvent = True\<rparr>)"
proof -
  have "Suc h mod 2 = 1" using assms(2) by presburger
  then show ?thesis using assms by (simp add: TerminateProcess_def LdkTerminateProcessHandle_def access_error_def
    LdkpLookupProcessHandleLocked_def LdkpIsTaggedProcessHandle_def LdkpIsCurrentProcessPseudoHandle_def
    LdkpEncodeProcessHandle_def LdkpDecodeProcessHandle_def LdkpSetProcessExitCode_def)
qed

section \<open>Witnesses\<close>

definition one_mutex :: handle_sys where
  "one_mutex = mutex_state (mutex_object 1 1 True) [8] [2 \<mapsto> mutex_handle] HIdle"

lemma one_mutex_reach: "handle_reach one_mutex"
  unfolding one_mutex_def by (rule named_mutex_reach)

theorem handle_calls_refine_witness:
  "handle_step\<^sup>*\<^sup>* \<lparr>hs_Object = Map.empty, hs_Names = [], hs_Handle = Map.empty, hpc = (\<lambda>_. HIdle)\<rparr> one_mutex"
proof -
  let ?s = "\<lparr>hs_Object = Map.empty, hs_Names = [], hs_Handle = Map.empty, hpc = (\<lambda>_. HIdle)\<rparr>"
  have "snd (LdkCreateMutantHandle (Some 8) True (Some 2) mutex_access None [65] ?s) = one_mutex"
    by (simp add: one_mutex_def LdkCreateMutantHandle_def publish_or_existing_def create_or_release_def LdkpCreateProcessHandle_def run_simps
      fun_upd_idem)
  then show ?thesis
    using handle_calls_refine [OF no_handles_reach, of 1 "Some 2" "Some 8" None, THEN conjunct1, of True mutex_access "[65]"] by simp
qed

theorem terminate_frees_wait_objects_witness: "hs_Object (LdkpTerminateProcessHandles [2] one_mutex) 8 = None"
proof -
  have "\<forall>k. hpc one_mutex k = HIdle" "distinct [2 :: addr]" "set [2] = dom (hs_Handle one_mutex)"
    by (simp_all add: one_mutex_def mutex_state_def)
  from terminate_frees_wait_objects [OF one_mutex_reach this] show ?thesis by simp
qed

theorem wait_reference_round_trip_witness:
  "\<exists>s'. LdkReferenceProcessWaitObject 3 one_mutex = (Inr (MutantOf 8), s') \<and> LdkDereferenceProcessWaitObject (MutantOf 8) s' = one_mutex"
proof -
  let ?s = "mutex_state (mutex_object 2 1 True) [8] [2 \<mapsto> mutex_handle] HIdle"
  have "LdkReferenceProcessWaitObject 3 one_mutex = (Inr (MutantOf 8), ?s)"
    by (simp add: LdkReferenceProcessWaitObject_def LdkpLookupProcessHandleLocked_def LdkpIsTaggedProcessHandle_def
      LdkpIsCurrentProcessPseudoHandle_def LdkpDecodeProcessHandle_def LdkpHasAccess_def mutex_access_def one_mutex_def run_simps)
  from wait_reference_round_trip [OF one_mutex_reach this] this show ?thesis by auto
qed

theorem first_exit_code_witness:
  "ProcessExitStatus (fold LdkpSetProcessExitCode [0x103, 5, 7] \<lparr>ProcessExitStatus = STATUS_PENDING, ProcessExitEvent = False\<rparr>) = 5"
  using first_exit_code [of "\<lparr>ProcessExitStatus = STATUS_PENDING, ProcessExitEvent = False\<rparr>" "[0x103, 5, 7]"] by simp

theorem duplicate_loses_name_witness:
  "\<exists>s1 s2. LdkDuplicateProcessHandle (Some 4) 3 mutex_access 0 one_mutex = (Answered 5, s1) \<and>
     LdkCloseProcessHandle 5 s1 = (Answered (), s2) \<and> LdkpFindNamedWaitObjectLocked s2 [65] = None \<and>
     (\<exists>ph2. LdkpLookupProcessHandleLocked (hs_Handle s2) 3 = Some ph2 \<and> WaitObject ph2 = Some 8)"
proof -
  obtain r1 s1 where d: "LdkDuplicateProcessHandle (Some 4) 3 mutex_access 0 one_mutex = (r1, s1)" by fastforce
  obtain r2 s2 where c: "LdkCloseProcessHandle 5 s1 = (r2, s2)" by fastforce
  have e: "LdkpEncodeProcessHandle 4 = 5" by (simp add: LdkpEncodeProcessHandle_def)
  have l: "LdkpLookupProcessHandleLocked (hs_Handle one_mutex) 3 = Some mutex_handle"
    by (simp add: LdkpLookupProcessHandleLocked_def LdkpIsTaggedProcessHandle_def LdkpDecodeProcessHandle_def
        one_mutex_def mutex_state_def)
  show ?thesis
    using duplicate_loses_name [OF one_mutex_reach _ l _ _ _ _ _ _ _ _ d _ c, of 8 "mutex_object 1 1 True" 3] d c
    by (simp add: e LdkpIsCurrentProcessPseudoHandle_def one_mutex_def mutex_state_def mutex_handle_def mutex_object_def
        insert_commute)
qed

theorem mutex_handle_terminates_witness:
  "TerminateProcess (\<lambda>_ _. 0) (hs_Handle one_mutex) 3 7 \<lparr>ProcessExitStatus = STATUS_PENDING, ProcessExitEvent = False\<rparr> =
    (Inr (), \<lparr>ProcessExitStatus = 7, ProcessExitEvent = True\<rparr>)"
  using mutex_handle_terminates [of one_mutex 2 mutex_handle 8 "\<lparr>ProcessExitStatus = STATUS_PENDING, ProcessExitEvent = False\<rparr>"
      "\<lambda>_ _. 0" 7]
  by (simp add: one_mutex_def run_simps mutex_access_def LdkpHasAccess_def LdkpEncodeProcessHandle_def)

end
